(* ===== verification/Cpph_Prelude.thy ===== *)
theory Cpph_Prelude
  imports Main "HOL-Library.Word"
begin

text \<open>
  What every component theory of the development shares: the machine types of the C++ code,
  the sum-typed sequencing of calls that may throw, and generic facts on lists that the
  proofs about index-updated buffers use.

  A C++ exception (or an access the standard leaves undefined, where the code can reach one)
  is a value of an error type; a call that may fail returns \<open>error + result\<close>, and \<open>bindE\<close>
  runs the rest of the body only on success, as the unwinding of the stack does. Where the
  state that an exception leaves behind matters, a call is a function of type
  \<open>state \<Rightarrow> (error + result) \<times> state\<close> and \<open>seqE\<close> sequences it.
\<close>

section \<open>Machine types\<close>

type_synonym byte = "8 word"
type_synonym u32 = "32 word"
type_synonym u64 = "64 word"

unbundle bit_operations_syntax

section \<open>Named collections\<close>

named_theorems cpph_inv \<open>an operation keeps the invariant of its component\<close>
named_theorems cpph_abs \<open>an operation in terms of the abstraction of its component\<close>

section \<open>Sequencing of calls that may fail\<close>

definition bindE :: "'e + 'a \<Rightarrow> ('a \<Rightarrow> 'e + 'b) \<Rightarrow> 'e + 'b" where
  "bindE m f = (case m of Inl e \<Rightarrow> Inl e | Inr x \<Rightarrow> f x)"

lemma bindE_simps [simp]:
  "bindE (Inl e) f = Inl e"
  "bindE (Inr x) f = f x"
  by (simp_all add: bindE_def)

lemma bindE_eq_Inr [simp]: "bindE m f = Inr y \<longleftrightarrow> (\<exists>x. m = Inr x \<and> f x = Inr y)"
  by (cases m) simp_all

lemma bindE_cong [fundef_cong]:
  "m = m' \<Longrightarrow> (\<And>x. m' = Inr x \<Longrightarrow> f x = f' x) \<Longrightarrow> bindE m f = bindE m' f'"
  by (cases m') simp_all

definition seqE :: "('s \<Rightarrow> ('e + 'a) \<times> 's) \<Rightarrow> ('a \<Rightarrow> 's \<Rightarrow> ('e + 'b) \<times> 's) \<Rightarrow> 's \<Rightarrow> ('e + 'b) \<times> 's" where
  "seqE m f s = (case m s of (Inl e, s') \<Rightarrow> (Inl e, s') | (Inr x, s') \<Rightarrow> f x s')"

definition retE :: "'a \<Rightarrow> 's \<Rightarrow> ('e + 'a) \<times> 's" where
  "retE x s = (Inr x, s)"

definition throwE :: "'e \<Rightarrow> 's \<Rightarrow> ('e + 'a) \<times> 's" where
  "throwE e s = (Inl e, s)"

definition updE :: "('s \<Rightarrow> 's) \<Rightarrow> 's \<Rightarrow> ('e + unit) \<times> 's" where
  "updE f s = (Inr (), f s)"

lemma seqE_ret [simp]: "seqE (retE x) f s = f x s"
  by (simp add: seqE_def retE_def)

lemma seqE_throw [simp]: "seqE (throwE e) f s = (Inl e, s)"
  by (simp add: seqE_def throwE_def)

lemma seqE_upd [simp]: "seqE (updE g) f s = f () (g s)"
  by (simp add: seqE_def updE_def)

lemma seqE_Inr: "m s = (Inr x, s') \<Longrightarrow> seqE m f s = f x s'"
  by (simp add: seqE_def)

lemma seqE_Inl: "m s = (Inl e, s') \<Longrightarrow> seqE m f s = (Inl e, s')"
  by (simp add: seqE_def)

lemma seqE_cong [fundef_cong]:
  "s = t \<Longrightarrow> m t = m' t \<Longrightarrow> (\<And>x t'. m' t = (Inr x, t') \<Longrightarrow> f x t' = f' x t')
   \<Longrightarrow> seqE m f s = seqE m' f' t"
  by (auto simp: seqE_def split: prod.splits sum.splits)

lemma seqE_eq_Inr:
  "seqE m f s = (Inr y, t) \<longleftrightarrow> (\<exists>x s'. m s = (Inr x, s') \<and> f x s' = (Inr y, t))"
  by (auto simp: seqE_def split: prod.splits sum.splits)

lemma seqE_assoc: "seqE (seqE m f) g = seqE m (\<lambda>x. seqE (f x) g)"
  by (auto simp: seqE_def fun_eq_iff split: prod.splits sum.splits)

section \<open>Lists used as buffers\<close>

lemma drop_eq_nth_Cons: "i < length xs \<Longrightarrow> drop i xs = xs ! i # drop (Suc i) xs"
  by (simp add: Cons_nth_drop_Suc)

lemma nth_take_drop: "i < n \<Longrightarrow> n \<le> length (drop p xs) \<Longrightarrow> take n (drop p xs) ! i = xs ! (p + i)"
  by simp

lemma map_nth_upt_eq: "n \<le> length xs \<Longrightarrow> map ((!) xs) [0..<n] = take n xs"
  by (simp add: list_eq_iff_nth_eq)

lemma map_nth_upt_drop: "p + n \<le> length xs \<Longrightarrow> map ((!) xs) [p..<p + n] = take n (drop p xs)"
  by (simp add: list_eq_iff_nth_eq)

lemma take_append_nth_drop:
  "i < length xs \<Longrightarrow> take i xs @ xs ! i # drop (Suc i) xs = xs"
  by (rule id_take_nth_drop [symmetric])

section \<open>Words read as natural numbers\<close>

text \<open>
  The bit manipulations of the codecs are shifts, masks and disjoint unions of fields. Read
  through \<open>unat\<close> they are divisions, remainders and sums.
\<close>

lemma unat_and_mask: "unat (w AND mask n :: 'a::len word) = unat w mod 2 ^ n"
  by (simp add: flip: take_bit_eq_mask take_bit_eq_mod) (simp add: unsigned_take_bit_eq)

lemma unat_shr: "unat (drop_bit n w :: 'a::len word) = unat w div 2 ^ n"
  unfolding unat_drop_bit_eq by (rule drop_bit_eq_div)

lemma unat_shl: "unat (push_bit n w :: 'a::len word) = unat w * 2 ^ n mod 2 ^ LENGTH('a)"
  unfolding unsigned_push_bit_eq by (simp add: push_bit_eq_mult take_bit_eq_mod)

lemma and_shifted_mask: "w AND push_bit k (mask n) = push_bit k (drop_bit k w AND mask n)"
  for w :: "'a::len word"
  by (rule bit_word_eqI) (auto simp: bit_simps)

lemma nat_or_disjoint:
  assumes "b < 2 ^ k" and "2 ^ k dvd a"
  shows "(a::nat) OR b = a + b"
proof -
  have "a AND b = 0"
  proof (rule bit_eqI)
    fix n
    show "bit (a AND b) n = bit (0::nat) n"
    proof (cases "n < k")
      case True
      from assms(2) have "take_bit k a = 0" by (simp add: take_bit_eq_0_iff)
      with True have "\<not> bit a n" by (metis bit_0_eq bit_take_bit_iff bot_apply bot_bool_def)
      then show ?thesis by (simp add: bit_simps)
    next
      case False
      from assms(1) have "take_bit k b = b" by (simp add: take_bit_nat_eq_self)
      with False have "\<not> bit b n" by (metis bit_take_bit_iff)
      then show ?thesis by (simp add: bit_simps)
    qed
  qed
  then show ?thesis by (simp add: disjunctive_add_eq_or)
qed

lemma radix_mod: "x < k \<Longrightarrow> (x + k * w) mod k = x" for x k w :: nat
  by simp

lemma radix_div: "x < k \<Longrightarrow> (x + k * w) div k = w" for x k w :: nat
  by simp

lemma unat_byte_less [simp]: "unat (b :: byte) < 256"
  using unsigned_less [where 'a = nat and w = b] by simp

lemma fold_sum: "fold (\<lambda>i v. v + f i) [0..<n] (0 :: 'a :: comm_monoid_add) = (\<Sum>i<n. f i)"
  by (induction n) simp_all

end
