(* ===== verification/Base64.thy ===== *)
theory Base64
  imports Cpph_Prelude
begin

text \<open>
  The Base64 codec of \<open>algorithm/base64.hxx\<close>: the encoding and decoding tables, the
  single-frame routines with their 24-bit byte swap, the loops \<open>encode_bytes\<close> and
  \<open>decode_bytes\<close>, and the two size functions. A \<open>bytes_t\<close> is a triple and a \<open>frame_t\<close> a
  quadruple of bytes. The encoder loads 32 bits at a 3-byte element, so it reads up to three
  bytes past its argument: memory is a function from addresses to bytes, and the theorems say
  the result does not depend on what lies there. The decoder indexes its table with a (signed)
  \<open>char\<close>: a byte of 128 or more is an access out of the table, the error \<open>Oob_index\<close>.

  The lemmas relate the word-level frames to the arithmetic of base 64, from which follow the
  agreement with the independent reference encoder \<open>b64_ref\<close>, the size of the output, the
  round trip and the decoder's behaviour on malformed data.
\<close>

section \<open>Tables\<close>

definition tb_encode :: "byte list" where
  "tb_encode = map of_char (''ABCDEFGHIJKLMNOPQRSTUVWXYZ'' @
                            ''abcdefghijklmnopqrstuvwxyz'' @
                            ''0123456789+/'')"

definition tb_decode :: "byte list" where
  "tb_decode =
     replicate 43 0xff @ [0x3e, 0xff, 0xff, 0xff, 0x3f,
        0x34, 0x35, 0x36, 0x37, 0x38, 0x39, 0x3a, 0x3b,
        0x3c, 0x3d, 0xff, 0xff, 0xff, 0x00, 0xff, 0xff,
        0xff, 0x00, 0x01, 0x02, 0x03, 0x04, 0x05, 0x06,
        0x07, 0x08, 0x09, 0x0a, 0x0b, 0x0c, 0x0d, 0x0e,
        0x0f, 0x10, 0x11, 0x12, 0x13, 0x14, 0x15, 0x16,
        0x17, 0x18, 0x19, 0xff, 0xff, 0xff, 0xff, 0xff,
        0xff, 0x1a, 0x1b, 0x1c, 0x1d, 0x1e, 0x1f, 0x20,
        0x21, 0x22, 0x23, 0x24, 0x25, 0x26, 0x27, 0x28,
        0x29, 0x2a, 0x2b, 0x2c, 0x2d, 0x2e, 0x2f, 0x30,
        0x31, 0x32, 0x33] @ replicate 133 0xff"

definition pad_char :: byte where
  "pad_char = of_char CHR ''=''"

type_synonym bytes_t = "byte \<times> byte \<times> byte"
type_synonym frame_t = "byte \<times> byte \<times> byte \<times> byte"

fun frame_bytes :: "frame_t \<Rightarrow> byte list" where
  "frame_bytes (a, b, c, d) = [a, b, c, d]"

section \<open>Encoding\<close>

definition swap24 :: "u32 \<Rightarrow> u32" where
  "swap24 b = (push_bit 16 (b AND 0x0000ff) OR (b AND 0x00ff00)) OR drop_bit 16 (b AND 0xff0000)"

definition encode_frame24 :: "u32 \<Rightarrow> frame_t" where
  "encode_frame24 b0 =
     (let b = swap24 b0
      in (tb_encode ! unat (drop_bit 18 b AND 0x3f),
          tb_encode ! unat (drop_bit 12 b AND 0x3f),
          tb_encode ! unat (drop_bit 6 b AND 0x3f),
          tb_encode ! unat (drop_bit 0 b AND 0x3f)))"

text \<open>\<open>*(uint32_t const*)p\<close> on the little-endian targets the code is written for.\<close>

definition load32 :: "(nat \<Rightarrow> byte) \<Rightarrow> nat \<Rightarrow> u32" where
  "load32 mem p = ucast (mem p) + push_bit 8 (ucast (mem (p + 1)))
     + push_bit 16 (ucast (mem (p + 2))) + push_bit 24 (ucast (mem (p + 3)))"

definition encode_single_frame :: "(nat \<Rightarrow> byte) \<Rightarrow> nat \<Rightarrow> frame_t" where
  "encode_single_frame mem p = encode_frame24 (load32 mem p AND 0x00ffffff)"

datatype bytes_length = Len1 | Len2

fun encode_single_frame_with_padding :: "(nat \<Rightarrow> byte) \<Rightarrow> nat \<Rightarrow> bytes_length \<Rightarrow> frame_t" where
  "encode_single_frame_with_padding mem p Len1 =
     (case encode_frame24 (load32 mem p AND 0x000000ff) of (a, b, c, d) \<Rightarrow> (a, b, pad_char, pad_char))"
| "encode_single_frame_with_padding mem p Len2 =
     (case encode_frame24 (load32 mem p AND 0x0000ffff) of (a, b, c, d) \<Rightarrow> (a, b, c, pad_char))"

text \<open>The loop of \<open>encode_bytes\<close> and its padded tail; \<open>out\<close> is what has been written so far.\<close>

fun encode_bytes :: "(nat \<Rightarrow> byte) \<Rightarrow> nat \<Rightarrow> nat \<Rightarrow> byte list \<Rightarrow> byte list" where
  "encode_bytes mem p len out =
     (if len \<ge> 3
      then encode_bytes mem (p + 3) (len - 3) (out @ frame_bytes (encode_single_frame mem p))
      else if len > 0
      then out @ frame_bytes (encode_single_frame_with_padding mem p (if len = 1 then Len1 else Len2))
      else out)"

declare encode_bytes.simps [simp del]

definition encoded_size :: "nat \<Rightarrow> nat" where
  "encoded_size n = (n + 2) div 3 * 4"

definition encode :: "(nat \<Rightarrow> byte) \<Rightarrow> nat \<Rightarrow> nat \<Rightarrow> nat \<Rightarrow> byte list \<Rightarrow> byte list" where
  "encode mem p elem_size n out = encode_bytes mem p (elem_size * n) out"

section \<open>Decoding\<close>

datatype b64_error = Logic_error | Oob_index | Oob_read

text \<open>\<open>tb_decode[frame[i]]\<close> with a signed \<open>char\<close> subscript.\<close>

definition tb_decode_at :: "byte \<Rightarrow> b64_error + byte" where
  "tb_decode_at c = (if sint c < 0 then Inl Oob_index else Inr (tb_decode ! unat c))"

text \<open>
  \<open>_decode_single\<close>: the four table entries are added at their positions into a 32-bit sum,
  which is byte-swapped; any entry of 128 or more turns the result into all ones.
\<close>

definition decode_single :: "frame_t \<Rightarrow> b64_error + u32" where
  "decode_single frame =
     (case frame of (f0, f1, f2, f3) \<Rightarrow>
        bindE (tb_decode_at f0) (\<lambda>t0.
        bindE (tb_decode_at f1) (\<lambda>t1.
        bindE (tb_decode_at f2) (\<lambda>t2.
        bindE (tb_decode_at f3) (\<lambda>t3.
          let b = push_bit 18 (ucast t0) + push_bit 12 (ucast t1)
                  + push_bit 6 (ucast t2) + push_bit 0 (ucast t3);
              has_error = (t0 \<ge> 128 \<or> t1 \<ge> 128 \<or> t2 \<ge> 128 \<or> t3 \<ge> 128)
          in Inr (if has_error then NOT 0 else swap24 b))))))"

definition byte_of :: "u32 \<Rightarrow> nat \<Rightarrow> byte" where
  "byte_of value i = ucast (drop_bit (i * 8) value AND 0xff)"

text \<open>The result \<open>True\<close> of \<open>decode_single_frame\<close> reports an error.\<close>

definition decode_single_frame :: "frame_t \<Rightarrow> b64_error + bool \<times> bytes_t" where
  "decode_single_frame frame =
     bindE (decode_single frame) (\<lambda>value.
       Inr (value = NOT 0, (byte_of value 0, byte_of value 1, byte_of value 2)))"

definition decode_last_frame :: "frame_t \<Rightarrow> b64_error + nat \<times> byte list" where
  "decode_last_frame frame =
     bindE (decode_single frame) (\<lambda>value.
       case frame of (f0, f1, f2, f3) \<Rightarrow>
         let success = (value \<noteq> NOT 0);
             len = 3 - of_bool (f3 = pad_char) - of_bool (f2 = pad_char);
             written = map (byte_of value) [0..<len]
         in Inr (if success then len else 0, written))"

text \<open>
  \<open>decode_frames\<close> is the loop over all frames but the last, and then the last frame. The list
  holds the bytes from the iterator to the end; with none left the final \<open>*it\<close> reads past
  the data (the code has no check for an empty input).
\<close>

fun decode_frames :: "byte list \<Rightarrow> bool \<Rightarrow> byte list \<Rightarrow> b64_error + bool \<times> byte list" where
  "decode_frames (f0 # f1 # f2 # f3 # rest) has_error out =
     (if rest \<noteq> []
      then bindE (decode_single_frame (f0, f1, f2, f3)) (\<lambda>(err, (d0, d1, d2)).
             decode_frames rest (has_error \<or> err) (out @ [d0, d1, d2]))
      else bindE (decode_last_frame (f0, f1, f2, f3)) (\<lambda>(len, decoded).
             Inr (\<not> (has_error \<or> len = 0), out @ take len decoded)))"
| "decode_frames _ has_error out = Inl Oob_read"

definition decode_bytes :: "byte list \<Rightarrow> b64_error + bool \<times> byte list" where
  "decode_bytes data =
     (if length data AND 3 \<noteq> 0 then Inl Logic_error else decode_frames data False [])"

text \<open>\<open>decoded_size\<close> reads the last two bytes of its argument.\<close>

definition decoded_size :: "byte list \<Rightarrow> b64_error + nat" where
  "decoded_size data =
     (if length data < 2 then Inl Oob_read
      else Inr ((length data + 3) div 4 * 3
                - of_bool (data ! (length data - 1) = pad_char)
                - of_bool (data ! (length data - 2) = pad_char)))"

section \<open>Frames as base-64 digits\<close>

lemma masks24:
  "(0x0000ff :: u32) = mask 8"
  "(0x00ff00 :: u32) = push_bit 8 (mask 8)"
  "(0xff0000 :: u32) = push_bit 16 (mask 8)"
  "(0x3f :: u32) = mask 6"
  "(0xffffff :: u32) = mask 24"
  "(0xffff :: u32) = mask 16"
  by (simp_all add: mask_eq_exp_minus_1 push_bit_eq_mult)

lemma radix256:
  assumes n: "n = x + 256 * y + 65536 * (z::nat)" and lt: "x < 256" "y < 256" "z < 256"
  shows "n mod 256 = x" "n div 256 mod 256 = y" "n div 65536 = z" "n div 65536 mod 256 = z"
    "n mod 65536 = x + 256 * y" "n < 16777216"
proof -
  have n1: "n = x + 256 * (y + 256 * z)" and n2: "n = (x + 256 * y) + 65536 * z"
    using n by simp_all
  have xy: "x + 256 * y < 65536" using lt by linarith
  show "n mod 256 = x" unfolding n1 using lt(1) by (rule radix_mod)
  show "n div 256 mod 256 = y" unfolding n1 radix_div [OF lt(1)] using lt(2) by (rule radix_mod)
  show z: "n div 65536 = z" unfolding n2 using xy by (rule radix_div)
  then show "n div 65536 mod 256 = z" using lt by simp
  show "n mod 65536 = x + 256 * y" unfolding n2 using xy by (rule radix_mod)
  show "n < 16777216" using n lt by linarith
qed

lemma unat_swap24:
  assumes b: "unat b = x + 256 * y + 65536 * z" and lt: "x < 256" "y < 256" "z < 256"
  shows "unat (swap24 b) = z + 256 * y + 65536 * x"
proof -
  note fields = radix256 [OF b lt]
  have x: "unat (push_bit 16 (b AND 0x0000ff)) = 65536 * x"
    unfolding masks24 unat_shl unat_and_mask using fields(1) lt by simp
  have y: "unat (b AND 0x00ff00) = 256 * y"
    unfolding masks24 and_shifted_mask unat_shl unat_and_mask unat_shr using fields(2) lt by simp
  have z: "unat (drop_bit 16 (b AND 0xff0000)) = z"
    unfolding masks24 and_shifted_mask unat_shl unat_and_mask unat_shr using fields(4) lt by simp
  have "unat (swap24 b) = (65536 * x OR 256 * y) OR z"
    by (simp only: swap24_def unsigned_or_eq x y z)
  also have "65536 * x OR 256 * y = 65536 * x + 256 * y"
    by (rule nat_or_disjoint [where k = 16]) (use lt in auto)
  also have "(65536 * x + 256 * y) OR z = 65536 * x + 256 * y + z"
    by (rule nat_or_disjoint [where k = 8]) (use lt in \<open>auto intro: dvd_add dvd_mult2\<close>)
  finally show ?thesis by simp
qed

definition digit :: "nat \<Rightarrow> byte" where
  "digit n = tb_encode ! (n mod 64)"

lemma encode_frame24_digits:
  assumes "unat b = x + 256 * y + 65536 * z" "x < 256" "y < 256" "z < 256"
  shows "encode_frame24 b =
    (let n = z + 256 * y + 65536 * x
     in (digit (n div 2 ^ 18), digit (n div 2 ^ 12), digit (n div 2 ^ 6), digit n))"
  using unat_swap24 [OF assms]
  by (simp add: encode_frame24_def digit_def Let_def masks24 unat_and_mask unat_shr)

lemma unat_load32:
  "unat (load32 mem p) = unat (mem p) + 256 * unat (mem (p + 1))
     + 65536 * unat (mem (p + 2)) + 16777216 * unat (mem (p + 3))"
proof -
  have lt: "\<And>q. unat (mem q) < 256" using unsigned_less [where 'a = nat and w = "mem _"] by simp
  have c: "unat (push_bit k (ucast (mem q) :: u32)) = 2 ^ k * unat (mem q)" if "k \<le> 24" for k q
  proof -
    have "(2::nat) ^ k \<le> 2 ^ 24" using that by (rule power_increasing) simp
    then have "unat (mem q) * 2 ^ k < 2 ^ 8 * 2 ^ 24"
      by (intro mult_less_le_imp_less) (use lt [of q] in auto)
    moreover have "unat (ucast (mem q) :: u32) = unat (mem q)"
      unfolding unsigned_ucast_eq by (rule take_bit_nat_eq_self) (rule less_trans [OF unat_byte_less], simp)
    ultimately show ?thesis
      by (simp add: unat_shl mult.commute)
  qed
  have "unat (mem p) + 256 * unat (mem (p + 1)) + 65536 * unat (mem (p + 2))
      + 16777216 * unat (mem (p + 3)) < 4294967296"
    using lt [of p] lt [of "p + 1"] lt [of "p + 2"] lt [of "p + 3"] by linarith
  then show ?thesis
    using c [of 0 p] c [of 8 "p + 1"] c [of 16 "p + 2"] c [of 24 "p + 3"]
    by (simp add: load32_def unat_word_ariths mod_simps)
qed

section \<open>The reference encoder\<close>

text \<open>Base 64 as RFC 4648 describes it: three octets are a 24-bit number, written as four digits.\<close>

definition num24 :: "byte \<Rightarrow> byte \<Rightarrow> byte \<Rightarrow> nat" where
  "num24 a b c = unat c + 256 * unat b + 65536 * unat a"

fun b64_ref :: "byte list \<Rightarrow> byte list" where
  "b64_ref [] = []"
| "b64_ref [a] = (let n = num24 a 0 0 in [digit (n div 2 ^ 18), digit (n div 2 ^ 12), pad_char, pad_char])"
| "b64_ref [a, b] = (let n = num24 a b 0
     in [digit (n div 2 ^ 18), digit (n div 2 ^ 12), digit (n div 2 ^ 6), pad_char])"
| "b64_ref (a # b # c # rest) = (let n = num24 a b c
     in [digit (n div 2 ^ 18), digit (n div 2 ^ 12), digit (n div 2 ^ 6), digit n] @ b64_ref rest)"

lemma load32_mask:
  "unat (load32 mem p AND 0x00ffffff) = unat (mem p) + 256 * unat (mem (p + 1)) + 65536 * unat (mem (p + 2))"
  "unat (load32 mem p AND 0x0000ffff) = unat (mem p) + 256 * unat (mem (p + 1)) + 65536 * 0"
  "unat (load32 mem p AND 0x000000ff) = unat (mem p) + 256 * 0 + 65536 * 0"
proof -
  define n where "n = unat (mem p) + 256 * unat (mem (p + 1)) + 65536 * unat (mem (p + 2))"
  note r = radix256 [OF n_def unat_byte_less unat_byte_less unat_byte_less]
  have l: "unat (load32 mem p) = n + 16777216 * unat (mem (p + 3))"
    by (simp add: unat_load32 n_def)
  have l2: "n + 16777216 * x = (unat (mem p) + 256 * unat (mem (p + 1)))
              + 65536 * (unat (mem (p + 2)) + 256 * x)" for x
    by (simp add: n_def)
  have l3: "n + 16777216 * x = unat (mem p) + 256 * (unat (mem (p + 1)) + 256 * (unat (mem (p + 2)) + 256 * x))" for x
    by (simp add: n_def)
  have m: "unat (mem p) + 256 * unat (mem (p + 1)) < 65536"
    using unat_byte_less [of "mem p"] unat_byte_less [of "mem (p + 1)"] by linarith
  show "unat (load32 mem p AND 0x00ffffff) = unat (mem p) + 256 * unat (mem (p + 1)) + 65536 * unat (mem (p + 2))"
    unfolding masks24(5) unat_and_mask l using radix_mod [OF r(6)] by (simp add: n_def)
  have "(n + 16777216 * x) mod 65536 = unat (mem p) + 256 * unat (mem (p + 1))" for x
    unfolding l2 using m by (rule radix_mod)
  then show "unat (load32 mem p AND 0x0000ffff) = unat (mem p) + 256 * unat (mem (p + 1)) + 65536 * 0"
    by (simp add: masks24(6) unat_and_mask l)
  have "(n + 16777216 * x) mod 256 = unat (mem p)" for x
    unfolding l3 by (rule radix_mod) simp
  then show "unat (load32 mem p AND 0x000000ff) = unat (mem p) + 256 * 0 + 65536 * 0"
    by (simp add: masks24(1) unat_and_mask l)
qed

lemma encode_frame_ref:
  "frame_bytes (encode_single_frame mem p) = b64_ref [mem p, mem (p + 1), mem (p + 2)]"
  "frame_bytes (encode_single_frame_with_padding mem p Len2) = b64_ref [mem p, mem (p + 1)]"
  "frame_bytes (encode_single_frame_with_padding mem p Len1) = b64_ref [mem p]"
  using encode_frame24_digits [OF load32_mask(1)] encode_frame24_digits [OF load32_mask(2)]
    encode_frame24_digits [OF load32_mask(3)]
  by (simp_all add: encode_single_frame_def num24_def Let_def)

declare encode_single_frame_with_padding.simps [simp del]

text \<open>A range of memory, as the list of its bytes.\<close>

definition mem_range :: "(nat \<Rightarrow> byte) \<Rightarrow> nat \<Rightarrow> nat \<Rightarrow> byte list" where
  "mem_range mem p len = map mem [p..<p + len]"

lemma mem_range_Suc: "mem_range mem p (Suc n) = mem p # mem_range mem (Suc p) n"
  unfolding mem_range_def by (subst upt_conv_Cons) (simp_all del: upt_Suc)

lemma mem_range_small [simp]:
  "mem_range mem p 0 = []"
  "mem_range mem p (Suc 0) = [mem p]"
  "mem_range mem p 2 = [mem p, mem (p + 1)]"
  by (simp_all add: mem_range_def upt_rec)

lemma mem_range_3:
  "n \<ge> 3 \<Longrightarrow> mem_range mem p n = mem p # mem (p + 1) # mem (p + 2) # mem_range mem (p + 3) (n - 3)"
  by (cases n; cases "n - 1"; cases "n - 2") (simp_all add: mem_range_Suc eval_nat_numeral)

lemma length_mem_range [simp]: "length (mem_range mem p n) = n"
  by (simp add: mem_range_def)

lemma encode_bytes_ref: "encode_bytes mem p len out = out @ b64_ref (mem_range mem p len)"
proof (induction mem p len out rule: encode_bytes.induct)
  case (1 mem p len out)
  show ?case
  proof (cases "len \<ge> 3")
    case True
    then have "b64_ref (mem_range mem p len)
      = frame_bytes (encode_single_frame mem p) @ b64_ref (mem_range mem (p + 3) (len - 3))"
      by (simp add: mem_range_3 encode_frame_ref Let_def)
    with 1 True show ?thesis by (simp add: encode_bytes.simps [of mem p len])
  next
    case False
    then consider "len = 0" | "len = 1" | "len = 2" by linarith
    then show ?thesis
      by cases (simp_all only: encode_bytes.simps [of mem p 0] encode_bytes.simps [of mem p 1]
          encode_bytes.simps [of mem p 2], simp_all add: encode_frame_ref)
  qed
qed

section \<open>The size functions\<close>

lemma encoded_size_Suc3: "encoded_size (Suc (Suc (Suc n))) = 4 + encoded_size n"
proof -
  have "Suc (Suc (Suc n)) + 2 = (n + 2) + 3" by simp
  then show ?thesis unfolding encoded_size_def by (simp only: div_add_self2) simp
qed

lemma length_b64_ref: "length (b64_ref xs) = encoded_size (length xs)"
  by (induction xs rule: b64_ref.induct) (simp_all add: encoded_size_Suc3 Let_def, simp_all add: encoded_size_def)

lemma b64_ref_eq_Nil [simp]: "b64_ref xs = [] \<longleftrightarrow> xs = []"
  by (cases xs rule: b64_ref.cases) (simp_all add: Let_def)

lemma length_b64_ref_ge: "xs \<noteq> [] \<Longrightarrow> length (b64_ref xs) \<ge> 2"
  by (cases xs rule: b64_ref.cases) (simp_all add: Let_def)

section \<open>Decoding digits\<close>

lemma tb_encode_segments: "tb_encode = map of_nat ([65..<91] @ [97..<123] @ [48..<58] @ [43, 47])"
  by (simp add: tb_encode_def upt_rec)

lemma length_tb_encode [simp]: "length tb_encode = 64"
  by (simp add: tb_encode_def)

lemma tb_decode_segments:
  "tb_decode = replicate 43 0xff @ [62] @ replicate 3 0xff @ [63] @ map of_nat [52..<62] @
     replicate 3 0xff @ [0] @ replicate 3 0xff @ map of_nat [0..<26] @ replicate 6 0xff @
     map of_nat [26..<52] @ replicate 133 0xff"
  by (simp add: tb_decode_def upt_rec numeral_eq_Suc)

lemma sint_of_nat_ascii: "k < 128 \<Longrightarrow> \<not> sint (of_nat k :: byte) < 0"
  by (simp add: sint_uint signed_take_bit_eq_if_positive uint_nat unat_of_nat bit_iff_odd)

lemma tb_decode_at_ascii: "k < 128 \<Longrightarrow> tb_decode_at (of_nat k) = Inr (tb_decode ! k)"
  by (simp add: tb_decode_at_def sint_of_nat_ascii unat_of_nat)

lemma tb_decode_encode:
  assumes "n < 64"
  shows "tb_decode_at (tb_encode ! n) = Inr (of_nat n)" and "tb_encode ! n \<noteq> pad_char"
proof -
  define k where "k = (if n < 26 then n + 65 else if n < 52 then n + 71
                       else if n < 62 then n - 4 else if n = 62 then 43 else 47)"
  have e: "tb_encode ! n = of_nat k"
    using assms by (auto simp: tb_encode_segments nth_append k_def simp del: upt_rec_numeral)
  have k: "k < 128" "k \<noteq> 61" using assms by (auto simp: k_def)
  have "tb_decode ! k = of_nat n"
    using assms by (cases "n = 63"; cases "n = 62") (auto simp: tb_decode_segments nth_append k_def simp del: upt_rec_numeral)
  with e k show "tb_decode_at (tb_encode ! n) = Inr (of_nat n)"
    by (simp add: tb_decode_at_ascii)
  from k show "tb_encode ! n \<noteq> pad_char"
    by (simp add: e pad_char_def word_unat_eq_iff unat_of_nat)
qed

lemma tb_decode_digit [simp]: "tb_decode_at (digit n) = Inr (of_nat (n mod 64))"
  by (simp add: digit_def tb_decode_encode)

lemma digit_neq_pad [simp]: "digit n \<noteq> pad_char" "pad_char \<noteq> digit n"
  using tb_decode_encode(2) [of "n mod 64"] by (simp_all add: digit_def)

lemma tb_decode_pad [simp]: "tb_decode_at pad_char = Inr 0"
  using tb_decode_at_ascii [of 61] by (simp add: pad_char_def tb_decode_segments nth_append del: upt_rec_numeral)

lemma ucast_of_nat_byte: "x < 256 \<Longrightarrow> (ucast (of_nat x :: byte) :: u32) = of_nat x"
  by (rule word_unat_eq_iff [THEN iffD2]) (simp add: unsigned_ucast_eq take_bit_nat_eq_self unat_of_nat)

lemma small_not_error: "x < 64 \<Longrightarrow> \<not> 128 \<le> (of_nat x :: byte)"
  by (simp add: word_le_nat_alt unat_of_nat)

lemma digits_sum: "(n div 262144) mod 64 * 262144 + (n div 4096) mod 64 * 4096
     + (n div 64) mod 64 * 64 + n mod 64 = n mod 16777216" for n :: nat
proof -
  have "n mod (64 * 262144) = 64 * (n div 64 mod 262144) + n mod 64"
    by (rule mod_mult2_eq)
  moreover have "n div 64 mod (64 * 4096) = 64 * (n div 64 div 64 mod 4096) + n div 64 mod 64"
    by (rule mod_mult2_eq)
  moreover have "n div 4096 mod (64 * 64) = 64 * (n div 4096 div 64 mod 64) + n div 4096 mod 64"
    by (rule mod_mult2_eq)
  ultimately show ?thesis
    by (simp add: div_mult2_eq [symmetric])
qed

lemma decode_single_digits:
  assumes "n < 16777216"
  shows "decode_single (digit (n div 2 ^ 18), digit (n div 2 ^ 12), digit (n div 2 ^ 6), digit n)
     = Inr (swap24 (of_nat n))"
proof -
  let ?d = "\<lambda>k. n div 2 ^ k mod 64"
  have m: "\<And>k. ?d k < 64" "\<And>k. ?d k < 256" by (simp_all add: less_trans [OF mod_less_divisor])
  have "(push_bit 18 (ucast (of_nat (?d 18) :: byte)) + push_bit 12 (ucast (of_nat (?d 12) :: byte))
      + push_bit 6 (ucast (of_nat (?d 6) :: byte)) + push_bit 0 (ucast (of_nat (?d 0) :: byte)) :: u32)
    = of_nat (?d 18 * 2 ^ 18 + ?d 12 * 2 ^ 12 + ?d 6 * 2 ^ 6 + ?d 0)"
    unfolding ucast_of_nat_byte [OF m(2)] by (simp add: push_bit_eq_mult)
  also have "?d 18 * 2 ^ 18 + ?d 12 * 2 ^ 12 + ?d 6 * 2 ^ 6 + ?d 0 = n"
    using digits_sum [of n] assms by simp
  finally show ?thesis
    using small_not_error [OF m(1) [of 18]] small_not_error [OF m(1) [of 12]]
      small_not_error [OF m(1) [of 6]] small_not_error [OF m(1) [of 0]]
    by (simp add: decode_single_def)
qed

lemma num24_less: "num24 a b c < 16777216"
  using radix256(6) [OF refl unat_byte_less unat_byte_less unat_byte_less, of c b a]
  by (simp add: num24_def)

lemma unat_of_num24: "unat (of_nat (num24 a b c) :: u32) = num24 a b c"
  using num24_less [of a b c] by (simp add: unat_of_nat)

lemma unat_swap_num24:
  "unat (swap24 (of_nat (num24 a b c))) = unat a + 256 * unat b + 65536 * unat c"
  by (rule unat_swap24) (unfold unat_of_num24, simp_all add: num24_def)

lemma byte_of_num24:
  "byte_of (swap24 (of_nat (num24 a b c))) 0 = a"
  "byte_of (swap24 (of_nat (num24 a b c))) (Suc 0) = b"
  "byte_of (swap24 (of_nat (num24 a b c))) 2 = c"
proof -
  note r = radix256 [OF unat_swap_num24 [of a b c] unat_byte_less unat_byte_less unat_byte_less]
  have *: "byte_of w i = x" if "unat w div 2 ^ (i * 8) mod 256 = unat x"
    for w :: u32 and x :: byte and i
  proof (rule word_unat_eq_iff [THEN iffD2])
    have "unat (drop_bit (i * 8) w AND 0xff) = unat x"
      unfolding masks24(1) unat_and_mask unat_shr using that by simp
    then show "unat (byte_of w i) = unat x"
      by (simp add: byte_of_def unsigned_ucast_eq take_bit_nat_eq_self)
  qed
  show "byte_of (swap24 (of_nat (num24 a b c))) 0 = a"
    "byte_of (swap24 (of_nat (num24 a b c))) (Suc 0) = b"
    "byte_of (swap24 (of_nat (num24 a b c))) 2 = c"
    by (rule *, simp add: r)+
qed

lemma swap_num24_ok [simp]: "swap24 (of_nat (num24 a b c)) \<noteq> - 1"
proof
  assume "swap24 (of_nat (num24 a b c)) = - 1"
  then have "unat (swap24 (of_nat (num24 a b c))) = unat (- 1 :: u32)" by simp
  moreover have "unat (- 1 :: u32) = 4294967295"
    by (simp add: unsigned_minus_1_eq_mask mask_eq_exp_minus_1)
  ultimately show False
    using radix256(6) [OF unat_swap_num24 [of a b c] unat_byte_less unat_byte_less unat_byte_less]
    by simp
qed

lemma decode_single_ref:
  "decode_single (digit (num24 a b c div 2 ^ 18), digit (num24 a b c div 2 ^ 12),
     digit (num24 a b c div 2 ^ 6), digit (num24 a b c)) = Inr (swap24 (of_nat (num24 a b c)))"
  by (rule decode_single_digits) (rule num24_less)

lemma decode_single_pad:
  "decode_single (f0, f1, f2, pad_char) = decode_single (f0, f1, f2, digit 0)"
  "decode_single (f0, f1, pad_char, f3) = decode_single (f0, f1, digit 0, f3)"
  by (simp_all add: decode_single_def)

lemma low_digits_zero:
  "digit (num24 a b 0) = digit 0"
  "digit (num24 a 0 0 div 64) = digit 0"
  by (simp_all add: digit_def num24_def)

section \<open>The decoder's loop\<close>

lemma upt_frame: "[0..<2] = [0, Suc 0]" "[0..<3] = [0, Suc 0, 2]"
  by (simp_all add: upt_rec)

lemma decode_frames_ref:
  "xs \<noteq> [] \<Longrightarrow> decode_frames (b64_ref xs) e out = Inr (\<not> e, out @ xs)"
proof (induction xs arbitrary: e out rule: b64_ref.induct)
  case (2 a)
  have "decode_single (digit (num24 a 0 0 div 2 ^ 18), digit (num24 a 0 0 div 2 ^ 12), pad_char, pad_char)
     = Inr (swap24 (of_nat (num24 a 0 0)))"
    using decode_single_ref [of a 0 0] by (simp add: decode_single_pad low_digits_zero)
  then show ?case
    using byte_of_num24 [of a 0 0] by (simp add: Let_def decode_last_frame_def)
next
  case (3 a b)
  have "decode_single (digit (num24 a b 0 div 2 ^ 18), digit (num24 a b 0 div 2 ^ 12),
      digit (num24 a b 0 div 2 ^ 6), pad_char) = Inr (swap24 (of_nat (num24 a b 0)))"
    using decode_single_ref [of a b 0] by (simp add: decode_single_pad low_digits_zero)
  then show ?case
    using byte_of_num24 [of a b 0] by (simp add: Let_def decode_last_frame_def upt_frame)
next
  case (4 a b c rest)
  show ?case
  proof (cases "rest = []")
    case True
    then show ?thesis
      using byte_of_num24 [of a b c] decode_single_ref [of a b c]
      by (simp add: Let_def decode_last_frame_def upt_frame)
  next
    case False
    with 4 show ?thesis
      using byte_of_num24 [of a b c] decode_single_ref [of a b c]
      by (simp add: Let_def decode_single_frame_def)
  qed
qed simp

text \<open>The size of the decoded data: four more characters are three more bytes.\<close>

lemma decoded_size_step:
  "Suc m * 3 - of_bool x - of_bool y = 3 + (m * 3 - of_bool x - of_bool y)" if "m \<ge> 1" for m :: nat
  using that by (cases x; cases y) simp_all

lemma decoded_size_len:
  assumes "length ys = Suc (Suc k)"
  shows "decoded_size ys = Inr ((k + 2 + 3) div 4 * 3
      - of_bool (ys ! Suc k = pad_char) - of_bool (ys ! k = pad_char))"
    and "decoded_size (a # b # c # d # ys) = Inr ((k + 2 + 4 + 3) div 4 * 3
      - of_bool (ys ! Suc k = pad_char) - of_bool (ys ! k = pad_char))"
  using assms unfolding decoded_size_def
  by (simp_all add: add.commute del: div_add_self1 div_add_self2)

lemma decoded_size_Cons4:
  assumes "length ys \<ge> 2"
  shows "decoded_size (a # b # c # d # ys) = map_sum id (\<lambda>n. 3 + n) (decoded_size ys)"
proof -
  have l: "length ys = Suc (Suc (length ys - 2))" using assms by linarith
  have d: "(k + 2 + 4 + 3) div 4 = Suc ((k + 2 + 3) div 4)" "(k + 2 + 3) div 4 \<ge> 1" for k :: nat
    by linarith+
  show ?thesis unfolding decoded_size_len [OF l] d(1) decoded_size_step [OF d(2)] by simp
qed

lemma decoded_size_ref:
  "xs \<noteq> [] \<Longrightarrow> decoded_size (b64_ref xs) = Inr (length xs)"
proof (induction xs rule: b64_ref.induct)
  case (4 a b c rest)
  show ?case
  proof (cases "rest = []")
    case False
    then show ?thesis
      using 4 decoded_size_Cons4 [OF length_b64_ref_ge [OF False]]
      by (simp add: Let_def length_b64_ref encoded_size_def)
  qed (simp add: decoded_size_def Let_def)
qed (simp_all add: decoded_size_def Let_def)

lemma nat_and_3: "(n::nat) AND 3 = n mod 4"
  using take_bit_eq_mask [of 2 n] by (simp add: mask_eq_exp_minus_1 take_bit_eq_mod)

definition b64_char :: "byte \<Rightarrow> bool" where
  "b64_char c \<longleftrightarrow> c \<in> set tb_encode \<or> c = pad_char"

lemma of_char_eq_61: "(of_char CHR ''='' :: byte) = of_nat 61"
  by simp

lemma tb_decode_runs:
  "k < 43 \<Longrightarrow> tb_decode ! k = 0xff"
  "44 \<le> k \<Longrightarrow> k < 47 \<Longrightarrow> tb_decode ! k = 0xff"
  "58 \<le> k \<Longrightarrow> k < 61 \<Longrightarrow> tb_decode ! k = 0xff"
  "62 \<le> k \<Longrightarrow> k < 65 \<Longrightarrow> tb_decode ! k = 0xff"
  "91 \<le> k \<Longrightarrow> k < 97 \<Longrightarrow> tb_decode ! k = 0xff"
  "123 \<le> k \<Longrightarrow> k < 256 \<Longrightarrow> tb_decode ! k = 0xff"
  by (simp_all add: tb_decode_segments nth_append del: upt_rec_numeral)

lemma tb_decode_outside:
  assumes "k < 256" "\<not> (65 \<le> k \<and> k < 91)" "\<not> (97 \<le> k \<and> k < 123)" "\<not> (48 \<le> k \<and> k < 58)"
    "k \<noteq> 43" "k \<noteq> 47" "k \<noteq> 61"
  shows "tb_decode ! k = 0xff"
proof -
  have "k < 43 \<or> 44 \<le> k \<and> k < 47 \<or> 58 \<le> k \<and> k < 61 \<or> 62 \<le> k \<and> k < 65 \<or> 91 \<le> k \<and> k < 97 \<or> 123 \<le> k"
    using assms by presburger
  with assms(1) show ?thesis using tb_decode_runs by blast
qed

text \<open>The table separates the alphabet (and the padding character) from everything else.\<close>

lemma tb_decode_valid:
  assumes "tb_decode_at c = Inr t"
  shows "t \<ge> 128 \<longleftrightarrow> \<not> b64_char c"
proof (cases "b64_char c")
  case True
  then consider n where "n < 64" "c = tb_encode ! n" | "c = pad_char"
    by (auto simp: b64_char_def in_set_conv_nth)
  then show ?thesis
  proof cases
    case 1
    with assms have "t = of_nat n" by (simp add: tb_decode_encode)
    with True small_not_error [OF 1(1)] show ?thesis by simp
  next
    case 2
    with assms True show ?thesis by simp
  qed
next
  case False
  have c: "c = of_nat (unat c)" by simp
  have lt: "unat c < 256" by simp
  from assms have t: "t = tb_decode ! unat c"
    by (simp add: tb_decode_at_def split: if_splits)
  let ?codes = "[65..<91] @ [97..<123] @ [48..<58] @ [43, 47]"
  have "c \<notin> of_nat ` set ?codes"
    using False by (simp only: b64_char_def tb_encode_segments set_map) blast
  then have in_codes: "unat c \<notin> set ?codes"
    using imageI [of "unat c" "set ?codes" "of_nat :: nat \<Rightarrow> byte"] by (metis c)
  have "unat c \<noteq> 61"
    using False c by (metis b64_char_def pad_char_def of_char_eq_61)
  with in_codes have not: "\<not> (65 \<le> unat c \<and> unat c < 91)" "\<not> (97 \<le> unat c \<and> unat c < 123)"
    "\<not> (48 \<le> unat c \<and> unat c < 58)" "unat c \<noteq> 43" "unat c \<noteq> 47" "unat c \<noteq> 61"
    by (simp_all del: upt_rec_numeral)
  have "tb_decode ! unat c = 0xff"
    using not lt by (intro tb_decode_outside)
  with t False show ?thesis by simp
qed

lemma swap24_neq_ones [simp]: "swap24 b \<noteq> - 1"
proof
  assume "swap24 b = - 1"
  then have "bit (swap24 b) 31" by simp
  then show False by (simp add: swap24_def bit_simps numeral_nat)
qed

lemma decode_single_error:
  assumes "decode_single (f0, f1, f2, f3) = Inr v"
  shows "v = - 1 \<longleftrightarrow> \<not> list_all b64_char [f0, f1, f2, f3]"
  using assms by (auto simp: decode_single_def Let_def tb_decode_valid split: if_splits)

lemma decode_single_cases:
  "(\<exists>v. decode_single (f0, f1, f2, f3) = Inr v \<and> \<not> list_ex (\<lambda>c. sint c < 0) [f0, f1, f2, f3])
   \<or> decode_single (f0, f1, f2, f3) = Inl Oob_index \<and> list_ex (\<lambda>c. sint c < 0) [f0, f1, f2, f3]"
  by (auto simp: decode_single_def tb_decode_at_def)

text \<open>What \<open>decode_bytes\<close> answers on any input, by the shape of the input.\<close>

definition decode_spec :: "byte list \<Rightarrow> b64_error + bool \<times> byte list \<Rightarrow> bool" where
  "decode_spec data r =
     (case r of
        Inl Logic_error \<Rightarrow> length data mod 4 \<noteq> 0
      | Inl Oob_read \<Rightarrow> data = []
      | Inl Oob_index \<Rightarrow> length data mod 4 = 0 \<and> list_ex (\<lambda>c. sint c < 0) data
      | Inr (ok, out) \<Rightarrow> length data mod 4 = 0 \<and> data \<noteq> [] \<and> \<not> list_ex (\<lambda>c. sint c < 0) data
                       \<and> ok = list_all b64_char data)"

lemma decode_frames_spec:
  assumes "length data mod 4 = 0" "data \<noteq> []"
  shows "(list_ex (\<lambda>c. sint c < 0) data \<and> decode_frames data e out = Inl Oob_index)
    \<or> (\<not> list_ex (\<lambda>c. sint c < 0) data
       \<and> (\<exists>r. decode_frames data e out = Inr (\<not> e \<and> list_all b64_char data, r)))"
  using assms
proof (induction data e out rule: decode_frames.induct)
  case (1 f0 f1 f2 f3 rest has_error out)
  consider v where "decode_single (f0, f1, f2, f3) = Inr v" "\<not> list_ex (\<lambda>c. sint c < 0) [f0, f1, f2, f3]"
    | "decode_single (f0, f1, f2, f3) = Inl Oob_index" "list_ex (\<lambda>c. sint c < 0) [f0, f1, f2, f3]"
    using decode_single_cases by blast
  then show ?case
  proof cases
    case 1
    note v = decode_single_error [OF 1(1)]
    show ?thesis
    proof (cases "rest = []")
      case True
      with 1 v show ?thesis by (auto simp: decode_last_frame_def Let_def)
    next
      case False
      note IH = "1.IH" [OF False _ refl refl refl]
      have "length rest mod 4 = 0" using "1.prems"(1) by simp
      with IH False 1 v show ?thesis
        by (auto simp: decode_single_frame_def)
    qed
  next
    case 2
    then show ?thesis by (auto simp: decode_single_frame_def decode_last_frame_def)
  qed
qed auto

section \<open>The properties of the codec\<close>

text \<open>C21: the encoder agrees with the RFC 4648 description of base 64 on every range of memory: what
  it appends is the reference encoding of the bytes of the range. In particular the bytes past
  the end of the range, which the 32-bit loads also read, do not reach the output.\<close>

theorem encode_correct:
  "encode mem p elem_size n out = out @ b64_ref (mem_range mem p (elem_size * n))"
  by (simp add: encode_def encode_bytes_ref)

text \<open>\<open>encoded_size\<close> is exact: the encoder appends that many bytes, never more and never less.\<close>

theorem encode_length:
  "length (encode mem p 1 n out) = length out + encoded_size n"
  by (simp add: encode_def encode_bytes_ref length_b64_ref)

text \<open>C3: round trip: decoding what the encoder wrote for a non-empty range succeeds and gives the bytes
  of the range, and \<open>decoded_size\<close> announces their number.\<close>

theorem decode_encode:
  assumes "n > 0"
  shows "decode_bytes (encode mem p 1 n []) = Inr (True, mem_range mem p n)
    \<and> decoded_size (encode mem p 1 n []) = Inr n"
proof -
  have ne: "mem_range mem p n \<noteq> []"
    using assms length_mem_range [of mem p n] by fastforce
  have "length (b64_ref (mem_range mem p n)) mod 4 = 0"
    by (simp add: length_b64_ref encoded_size_def)
  then show ?thesis
    using decode_frames_ref [OF ne, of False "[]"] decoded_size_ref [OF ne]
    by (simp add: encode_def encode_bytes_ref decode_bytes_def nat_and_3)
qed

theorem decode_encode_witness:
  "decode_bytes (encode (\<lambda>i. of_nat (200 + i)) 0 1 4 [])
     = Inr (True, mem_range (\<lambda>i. of_nat (200 + i)) 0 4)
   \<and> decoded_size (encode (\<lambda>i. of_nat (200 + i)) 0 1 4 []) = Inr 4"
  using decode_encode [of 4 "\<lambda>i. of_nat (200 + i)" 0] by simp

text \<open>The decoder's answer on every input: a length that is no multiple of four is the exception,
  an empty input reads past its end, a byte with the sign bit set indexes the table out of
  bounds, and on every other input the flag says exactly whether all characters belong to
  the alphabet or are the padding character.\<close>

theorem decode_bytes_meets_spec: "decode_spec data (decode_bytes data)"
proof (cases "length data mod 4 = 0 \<and> data \<noteq> []")
  case True
  then show ?thesis
    using decode_frames_spec [of data False "[]"]
    by (auto simp: decode_bytes_def decode_spec_def nat_and_3)
next
  case False
  then show ?thesis
    by (auto simp: decode_bytes_def decode_spec_def nat_and_3)
qed

end
