(* ===== verification/Circular_Queue.thy ===== *)
theory Circular_Queue
  imports Cpph_Prelude
begin

text \<open>
  The ring buffer \<open>circular_queue\<close> of \<open>container/circular_queue.hxx\<close>: \<open>_capacity\<close> cells (one
  more than the queue may hold), a head where the next element is written and a tail where the
  next one is read. A cell is \<open>Some\<close> object or raw storage (\<open>None\<close>); \<open>push\<close> constructs in place
  and \<open>pop\<close> destroys. The asserts of the code, an access through a null or too short buffer and
  the use of a dead object are the values of \<open>cq_error\<close>.

  The operations are related to the list \<open>q_list\<close> of the elements from tail to head. The locale
  \<open>bounded_fifo\<close> is the contract the in-memory pipe relies on.
\<close>

section \<open>State and index arithmetic\<close>

datatype cq_error = Assert_full | Assert_empty | Assert_count | Bad_storage | Dead_object

record 'a cq =
  slots :: nat
  data :: "'a option list"
  head :: nat
  tail :: nat

definition cq_new :: "nat \<Rightarrow> 'a cq" where
  "cq_new capacity = \<lparr>slots = capacity + 1,
     data = (if capacity \<noteq> 0 then replicate (capacity + 1) None else []), head = 0, tail = 0\<rparr>"

definition q_next :: "'a cq \<Rightarrow> nat \<Rightarrow> nat" where
  "q_next q current = (if current + 1 = slots q then 0 else current + 1)"

definition q_prev :: "'a cq \<Rightarrow> nat \<Rightarrow> nat" where
  "q_prev q current = (if current = 0 then slots q - 1 else current - 1)"

definition q_jmp :: "'a cq \<Rightarrow> nat \<Rightarrow> int \<Rightarrow> nat" where
  "q_jmp q at jmp =
     (if jmp \<ge> 0 then (at + nat jmp) mod slots q
      else (let at' = int at + jmp in nat (at' + int (slots q) * of_bool (at' < 0))))"

definition q_size :: "'a cq \<Rightarrow> nat" where
  "q_size q = (if head q \<ge> tail q then head q - tail q else head q + slots q - tail q)"

definition q_capacity :: "'a cq \<Rightarrow> nat" where
  "q_capacity q = slots q - 1"

definition q_empty :: "'a cq \<Rightarrow> bool" where
  "q_empty q \<longleftrightarrow> head q = tail q"

definition is_full :: "'a cq \<Rightarrow> bool" where
  "is_full q \<longleftrightarrow> q_next q (head q) = tail q"

definition q_idx_linear :: "'a cq \<Rightarrow> nat \<Rightarrow> nat" where
  "q_idx_linear q i =
     (if head q \<ge> tail q then i
      else i - tail q * of_bool (i \<ge> tail q) + (slots q - tail q) * of_bool (i < tail q))"

section \<open>Elements\<close>

definition q_at :: "'a cq \<Rightarrow> nat \<Rightarrow> cq_error + 'a" where
  "q_at q i = (if i < length (data q) then (case data q ! i of None \<Rightarrow> Inl Dead_object | Some x \<Rightarrow> Inr x)
               else Inl Bad_storage)"

definition q_front :: "'a cq \<Rightarrow> cq_error + 'a" where
  "q_front q = (if q_empty q then Inl Assert_empty else q_at q (tail q))"

definition q_back :: "'a cq \<Rightarrow> cq_error + 'a" where
  "q_back q = (if q_empty q then Inl Assert_empty else q_at q (q_prev q (head q)))"

definition push :: "'a cq \<Rightarrow> 'a \<Rightarrow> cq_error + 'a cq" where
  "push q x =
     (if is_full q then Inl Assert_full
      else if length (data q) \<le> head q then Inl Bad_storage
      else Inr (q\<lparr>data := (data q)[head q := Some x], head := q_next q (head q)\<rparr>))"

definition pop :: "'a cq \<Rightarrow> cq_error + 'a cq" where
  "pop q =
     (if q_empty q then Inl Assert_empty
      else bindE (q_at q (tail q)) (\<lambda>_.
        Inr (q\<lparr>data := (data q)[tail q := None], tail := q_next q (tail q)\<rparr>)))"

definition rotate :: "'a cq \<Rightarrow> 'a \<Rightarrow> cq_error + 'a cq" where
  "rotate q x = (if is_full q then bindE (pop q) (\<lambda>q. push q x) else push q x)"

definition push_back :: "'a cq \<Rightarrow> 'a \<Rightarrow> cq_error + 'a cq" where
  "push_back q x = rotate q x"

definition dequeue :: "'a cq \<Rightarrow> cq_error + 'a \<times> 'a cq" where
  "dequeue q = bindE (q_front q) (\<lambda>r. bindE (pop q) (\<lambda>q'. Inr (r, q')))"

text \<open>
  \<open>clear\<close> pops until the queue is empty. It ends on every state, for each turn destroys a live
  object or fails; \<open>clear_trivial\<close> is its branch for trivially destructible types.
\<close>

lemma live_less:
  assumes "i < length xs" "xs ! i = Some x"
  shows "length (filter (\<lambda>c. c \<noteq> None) (xs[i := None])) < length (filter (\<lambda>c. c \<noteq> None) xs)"
proof -
  have "filter (\<lambda>c. c \<noteq> None) xs
      = filter (\<lambda>c. c \<noteq> None) (take i xs) @ Some x # filter (\<lambda>c. c \<noteq> None) (drop (Suc i) xs)"
    using assms by (subst id_take_nth_drop [OF assms(1)]) simp
  then show ?thesis
    using assms by (simp add: upd_conv_take_nth_drop)
qed

function q_clear :: "'a cq \<Rightarrow> cq_error + 'a cq" where
  "q_clear q = (if q_empty q then Inr q else bindE (pop q) q_clear)"
  by pat_completeness auto
termination
  by (relation "measure (\<lambda>q. length (filter (\<lambda>c. c \<noteq> None) (data q)))")
    (auto simp: pop_def q_at_def simp del: not_None_eq intro: live_less split: if_splits option.splits)

declare q_clear.simps [simp del]

definition clear_trivial :: "'a cq \<Rightarrow> 'a cq" where
  "clear_trivial q = q\<lparr>tail := head q\<rparr>"

section \<open>Bulk operations\<close>

text \<open>\<open>walk q n i e\<close> is the loop over the cells from \<open>i\<close> to \<open>e\<close>, with fuel \<open>n\<close>.\<close>

fun walk :: "'a cq \<Rightarrow> nat \<Rightarrow> nat \<Rightarrow> nat \<Rightarrow> (cq_error + 'a list) option" where
  "walk q 0 i e = (if i = e then Some (Inr []) else None)"
| "walk q (Suc n) i e =
     (if i = e then Some (Inr [])
      else map_option (\<lambda>rest. bindE (q_at q i) (\<lambda>x. bindE rest (\<lambda>xs. Inr (x # xs)))) (walk q n (q_next q i) e))"

definition for_each :: "'a cq \<Rightarrow> (cq_error + 'a list) option" where
  "for_each q = walk q (slots q) (tail q) (head q)"

fun push_all :: "'a cq \<Rightarrow> 'a list \<Rightarrow> cq_error + 'a cq" where
  "push_all q [] = Inr q"
| "push_all q (x # xs) = bindE (push_back q x) (\<lambda>q. push_all q xs)"

text \<open>The destructor of \<open>*this\<close>'s old contents comes first, then the copy of the other queue.\<close>

definition copy_assign :: "'a cq \<Rightarrow> 'a cq \<Rightarrow> (cq_error + 'a cq) option" where
  "copy_assign q other =
     (case q_clear q of Inl e \<Rightarrow> Some (Inl e)
      | Inr _ \<Rightarrow>
        map_option (\<lambda>r. bindE r (push_all \<lparr>slots = slots other,
            data = replicate (slots other) None, head = 0, tail = 0\<rparr>))
          (for_each other))"

definition reserve_shrink :: "'a cq \<Rightarrow> nat \<Rightarrow> (cq_error + 'a cq) option" where
  "reserve_shrink q new_cap =
     (if new_cap = q_capacity q then Some (Inr q)
      else if new_cap = 0 then Some (bindE (q_clear q) (\<lambda>q. Inr (q\<lparr>data := [], slots := 1\<rparr>)))
      else
        let n_copy = min (q_size q) new_cap; stop = q_jmp q (tail q) (int n_copy) in
        if n_copy > 0
        then map_option (\<lambda>moved.
               bindE moved (\<lambda>xs. bindE (push_all (cq_new new_cap) xs) (\<lambda>nxt.
               bindE (q_clear (q\<lparr>tail := stop\<rparr>)) (\<lambda>_. Inr nxt))))
             (walk q (slots q) (tail q) stop)
        else Some (Inr (cq_new new_cap)))"

text \<open>
  What the bulk operations ask of the element type. A trivial type may be assigned to a raw cell; for
  any other type the assignment operator is called on an object that must already live there.
\<close>

datatype elem_kind = Trivial | Trivially_destructible | Non_trivial

text \<open>\<open>copy_n\<close> from consecutive cells, and the assignment to consecutive cells.\<close>

fun read_cells :: "'a cq \<Rightarrow> nat \<Rightarrow> nat \<Rightarrow> cq_error + 'a list" where
  "read_cells q p 0 = Inr []"
| "read_cells q p (Suc n) = bindE (q_at q p) (\<lambda>x. bindE (read_cells q (p + 1) n) (\<lambda>xs. Inr (x # xs)))"

fun write_cells :: "elem_kind \<Rightarrow> 'a option list \<Rightarrow> nat \<Rightarrow> 'a list \<Rightarrow> cq_error + 'a option list" where
  "write_cells k d p [] = Inr d"
| "write_cells k d p (x # xs) =
     (if length d \<le> p then Inl Bad_storage
      else if Option.is_none (d ! p) \<and> k \<noteq> Trivial then Inl Dead_object
      else write_cells k (d[p := Some x]) (p + 1) xs)"

text \<open>The two branches of \<open>dequeue_n\<close>: block copies for trivial types, a loop otherwise.\<close>

definition dequeue_n_trivial :: "'a cq \<Rightarrow> nat \<Rightarrow> cq_error + 'a list \<times> 'a cq" where
  "dequeue_n_trivial q n =
     (if \<not> n \<le> q_size q then Inl Assert_count
      else bindE (if tail q < head q
                  then read_cells q (tail q) (min (head q - tail q) n)
                  else let nseq1 = min (slots q - tail q) n; nseq2 = n - nseq1
                       in bindE (read_cells q (tail q) nseq1) (\<lambda>xs.
                          bindE (read_cells q 0 nseq2) (\<lambda>ys. Inr (xs @ ys))))
             (\<lambda>out. Inr (out, q\<lparr>tail := q_jmp q (tail q) (int n)\<rparr>)))"

fun dequeue_loop :: "'a cq \<Rightarrow> nat \<Rightarrow> cq_error + 'a list \<times> 'a cq" where
  "dequeue_loop q 0 = Inr ([], q)"
| "dequeue_loop q (Suc n) = bindE (dequeue q) (\<lambda>(x, q). bindE (dequeue_loop q n) (\<lambda>(xs, q). Inr (x # xs, q)))"

definition dequeue_n :: "'a cq \<Rightarrow> nat \<Rightarrow> cq_error + 'a list \<times> 'a cq" where
  "dequeue_n q n = (if \<not> n \<le> q_size q then Inl Assert_count else dequeue_loop q n)"

fun pop_n :: "'a cq \<Rightarrow> nat \<Rightarrow> cq_error + 'a cq" where
  "pop_n q 0 = Inr q"
| "pop_n q (Suc n) = bindE (pop q) (\<lambda>q. pop_n q n)"

text \<open>
  \<open>enqueue_n\<close>: \<open>make_space\<close> releases the oldest elements (with a branch of its own for trivially
  destructible types) and \<open>copy_in\<close> is the copy of the block in two runs of assignments.
\<close>

definition make_space :: "elem_kind \<Rightarrow> 'a cq \<Rightarrow> nat \<Rightarrow> cq_error + 'a cq" where
  "make_space k q n =
     (let space = q_capacity q - q_size q in
      if space < n
      then let required_space = n - space in
           if k \<noteq> Non_trivial then Inr (q\<lparr>tail := q_jmp q (tail q) (int required_space)\<rparr>)
           else pop_n q required_space
      else Inr q)"

definition copy_in :: "elem_kind \<Rightarrow> 'a cq \<Rightarrow> 'a list \<Rightarrow> cq_error + 'a cq" where
  "copy_in k q src =
     (let n = length src; nseq1 = min n (slots q - head q)
      in bindE (write_cells k (data q) (head q) (take nseq1 src)) (\<lambda>d.
         bindE (write_cells k d 0 (drop nseq1 src)) (\<lambda>d.
         Inr (q\<lparr>head := q_jmp q (head q) (int n), data := d\<rparr>))))"

definition enqueue_n :: "elem_kind \<Rightarrow> 'a cq \<Rightarrow> 'a list \<Rightarrow> cq_error + 'a cq" where
  "enqueue_n k q begin =
     (let src = (if q_capacity q < length begin then drop (length begin - q_capacity q) begin else begin)
      in bindE (make_space k q (length src)) (\<lambda>q. copy_in k q src))"

text \<open>\<open>flat\<close> hands out the one or two contiguous ranges.\<close>

definition flat :: "'a cq \<Rightarrow> (nat \<times> nat) list" where
  "flat q = (if tail q < head q then [(tail q, head q)]
             else if head q < tail q then [(tail q, slots q), (0, head q)]
             else [])"

section \<open>The list a queue stands for\<close>

text \<open>The cell of the \<open>i\<close>-th element after the tail.\<close>

definition slot :: "'a cq \<Rightarrow> nat \<Rightarrow> nat" where
  "slot q i = (if tail q + i < slots q then tail q + i else tail q + i - slots q)"

definition q_list :: "'a cq \<Rightarrow> 'a list" where
  "q_list q = map (\<lambda>i. the (data q ! slot q i)) [0..<q_size q]"

definition cq_inv :: "'a cq \<Rightarrow> bool" where
  "cq_inv q \<longleftrightarrow> head q < slots q \<and> tail q < slots q \<and> (slots q > 1 \<longrightarrow> length (data q) = slots q)
     \<and> (\<forall>i < q_size q. data q ! slot q i \<noteq> None)"

lemma length_q_list [simp]: "length (q_list q) = q_size q"
  by (simp add: q_list_def)

lemma q_size_less: "cq_inv q \<Longrightarrow> q_size q < slots q"
  by (auto simp: cq_inv_def q_size_def)

lemma q_size_le_capacity: "cq_inv q \<Longrightarrow> q_size q \<le> q_capacity q"
  using q_size_less [of q] by (simp add: q_capacity_def)

lemma head_slot: "cq_inv q \<Longrightarrow> slot q (q_size q) = head q"
  by (auto simp: cq_inv_def q_size_def slot_def)

lemma tail_slot: "cq_inv q \<Longrightarrow> slot q 0 = tail q"
  by (auto simp: cq_inv_def slot_def)

lemma slot_less: "cq_inv q \<Longrightarrow> i < slots q \<Longrightarrow> slot q i < slots q"
  by (auto simp: cq_inv_def slot_def)

lemma slot_inj: "cq_inv q \<Longrightarrow> i < slots q \<Longrightarrow> j < slots q \<Longrightarrow> slot q i = slot q j \<longleftrightarrow> i = j"
  by (auto simp: cq_inv_def slot_def split: if_splits)

lemma q_next_slot: "cq_inv q \<Longrightarrow> i < slots q \<Longrightarrow> q_next q (slot q i) = (if Suc i = slots q then tail q else slot q (Suc i))"
  by (auto simp: cq_inv_def slot_def q_next_def split: if_splits)

lemma data_length: "cq_inv q \<Longrightarrow> q_size q > 0 \<or> q_capacity q > 0 \<Longrightarrow> length (data q) = slots q"
  using q_size_less [of q] by (auto simp: cq_inv_def q_capacity_def)

lemma q_at_slot:
  assumes "cq_inv q" "i < q_size q"
  shows "q_at q (slot q i) = Inr (q_list q ! i)"
proof -
  have "slot q i < slots q" using assms q_size_less slot_less by fastforce
  moreover have "length (data q) = slots q" using assms by (intro data_length) auto
  moreover have "data q ! slot q i \<noteq> None" using assms by (simp add: cq_inv_def)
  ultimately show ?thesis using assms by (auto simp: q_at_def q_list_def)
qed

lemma q_empty_iff: "cq_inv q \<Longrightarrow> q_empty q \<longleftrightarrow> q_size q = 0"
  by (auto simp: cq_inv_def q_empty_def q_size_def)

lemma q_list_Nil_iff: "cq_inv q \<Longrightarrow> q_list q = [] \<longleftrightarrow> q_empty q"
  by (simp add: q_empty_iff flip: length_0_conv)

lemma is_full_iff: "cq_inv q \<Longrightarrow> is_full q \<longleftrightarrow> q_size q = q_capacity q"
  by (auto simp: cq_inv_def is_full_def q_next_def q_size_def q_capacity_def)

lemma cq_new_inv [simp]: "cq_inv (cq_new n)"
  by (auto simp: cq_inv_def cq_new_def q_size_def)

lemma cq_new_simps [simp]: "q_list (cq_new n) = []" "q_capacity (cq_new n) = n" "q_size (cq_new n) = 0" "q_empty (cq_new n)"
  by (auto simp: q_list_def cq_new_def q_size_def q_capacity_def q_empty_def)

section \<open>Single elements\<close>

lemma push_ok:
  assumes inv: "cq_inv q" and room: "q_size q < q_capacity q"
  shows "\<exists>q'. push q x = Inr q' \<and> cq_inv q' \<and> q_list q' = q_list q @ [x] \<and> q_capacity q' = q_capacity q"
proof -
  define q' where "q' = q\<lparr>data := (data q)[head q := Some x], head := q_next q (head q)\<rparr>"
  have n: "Suc (q_size q) < slots q" using room by (simp add: q_capacity_def)
  have len: "length (data q) = slots q" using data_length [OF inv] room by simp
  have h: "head q < slots q" using inv by (simp add: cq_inv_def)
  have nh: "q_next q (head q) = slot q (Suc (q_size q))"
    using q_next_slot [OF inv q_size_less [OF inv]] n head_slot [OF inv] by simp
  have size: "q_size q' = Suc (q_size q)"
    using n inv by (auto simp: q'_def q_size_def q_next_def cq_inv_def split: if_splits)
  have slot: "slot q' i = slot q i" for i by (simp add: q'_def slot_def)
  have cell: "data q' ! slot q i = (if i = q_size q then Some x else data q ! slot q i)" if "i \<le> q_size q" for i
    using that slot_inj [OF inv, of i "q_size q"] head_slot [OF inv] n len h
    by (auto simp: q'_def nth_list_update)
  have "cq_inv q'"
    using inv cell n len slot_less [OF inv n] nh
    by (auto simp: cq_inv_def size slot less_Suc_eq_le) (simp_all add: q'_def)
  moreover have "q_list q' = q_list q @ [x]"
    by (simp add: q_list_def size slot cell)
  moreover have "push q x = Inr q'"
    using len h room by (simp add: push_def is_full_iff [OF inv] q'_def)
  ultimately show ?thesis by (auto simp: q_capacity_def q'_def)
qed

lemma pop_ok:
  assumes inv: "cq_inv q" and ne: "\<not> q_empty q"
  shows "\<exists>q'. pop q = Inr q' \<and> cq_inv q' \<and> q_list q' = tl (q_list q) \<and> q_capacity q' = q_capacity q"
proof -
  define q' where "q' = q\<lparr>data := (data q)[tail q := None], tail := q_next q (tail q)\<rparr>"
  obtain n where n: "q_size q = Suc n" using ne q_empty_iff [OF inv] by (cases "q_size q") auto
  have sn: "Suc n < slots q" using q_size_less [OF inv] n by simp
  have len: "length (data q) = slots q" using data_length [OF inv] n by simp
  have size: "q_size q' = n"
    using n inv sn by (auto simp: q'_def q_size_def q_next_def cq_inv_def split: if_splits)
  have slot: "slot q' i = slot q (Suc i)" if "i < n" for i
    using that sn inv by (auto simp: q'_def slot_def q_next_def cq_inv_def)
  have cell: "data q' ! slot q (Suc i) = data q ! slot q (Suc i)" if "i < n" for i
    using that slot_inj [OF inv, of "Suc i" 0] tail_slot [OF inv] sn by (auto simp: q'_def nth_list_update)
  have t: "tail q' < slots q"
    using inv sn by (auto simp: q'_def q_next_def cq_inv_def)
  have "cq_inv q'"
    using inv cell n len t by (auto simp: cq_inv_def size slot) (simp_all add: q'_def)
  moreover have "q_list q' = tl (q_list q)"
    by (rule nth_equalityI) (simp_all add: size n nth_tl, simp add: q_list_def size slot cell n del: upt_Suc)
  moreover have "pop q = Inr q'"
    using q_at_slot [OF inv, of 0] n ne tail_slot [OF inv] by (simp add: pop_def q'_def)
  ultimately show ?thesis by (auto simp: q_capacity_def q'_def)
qed

lemma front_ok: "cq_inv q \<Longrightarrow> \<not> q_empty q \<Longrightarrow> q_front q = Inr (hd (q_list q))"
  using q_at_slot [of q 0] tail_slot [of q] q_empty_iff [of q]
  by (simp add: q_front_def hd_conv_nth flip: length_greater_0_conv)

lemma back_ok:
  assumes inv: "cq_inv q" and ne: "\<not> q_empty q"
  shows "q_back q = Inr (last (q_list q))"
proof -
  obtain n where n: "q_size q = Suc n" using ne q_empty_iff [OF inv] by (cases "q_size q") auto
  have "q_prev q (head q) = slot q n"
    using inv n by (auto simp: q_prev_def slot_def q_size_def cq_inv_def split: if_splits)
  moreover have "last (q_list q) = q_list q ! n"
    using n by (subst last_conv_nth) (auto simp flip: length_greater_0_conv)
  ultimately show ?thesis
    using q_at_slot [OF inv, of n] n ne by (simp add: q_back_def)
qed

lemma dequeue_ok:
  assumes "cq_inv q" "\<not> q_empty q"
  shows "\<exists>q'. dequeue q = Inr (hd (q_list q), q') \<and> cq_inv q' \<and> q_list q' = tl (q_list q) \<and> q_capacity q' = q_capacity q"
  using pop_ok [OF assms] front_ok [OF assms] by (auto simp: dequeue_def)

lemma rotate_ok:
  assumes inv: "cq_inv q" and cap: "q_capacity q > 0"
  shows "\<exists>q'. rotate q x = Inr q' \<and> cq_inv q' \<and> q_capacity q' = q_capacity q
    \<and> q_list q' = (if q_size q = q_capacity q then tl (q_list q) else q_list q) @ [x]"
proof (cases "is_full q")
  case True
  then have f: "q_size q = q_capacity q" using is_full_iff [OF inv] by simp
  then have "\<not> q_empty q" using q_empty_iff [OF inv] cap by simp
  from pop_ok [OF inv this] obtain q1 where q1: "pop q = Inr q1" "cq_inv q1" "q_list q1 = tl (q_list q)"
    "q_capacity q1 = q_capacity q" by auto
  from q1(3) have "q_size q1 = q_size q - 1" using length_q_list [of q1] by simp
  with push_ok [OF q1(2), of x] q1 f cap True show ?thesis by (auto simp: rotate_def)
next
  case False
  then have "q_size q < q_capacity q"
    using is_full_iff [OF inv] q_size_le_capacity [OF inv] by simp
  with push_ok [OF inv this, of x] False show ?thesis by (auto simp: rotate_def)
qed

lemma q_clear_ok: "cq_inv q \<Longrightarrow> \<exists>q'. q_clear q = Inr q' \<and> cq_inv q' \<and> q_list q' = [] \<and> q_capacity q' = q_capacity q"
proof (induction "q_size q" arbitrary: q)
  case 0
  then show ?case using q_list_Nil_iff [of q] q_empty_iff [of q] by (subst q_clear.simps) auto
next
  case (Suc n)
  then have ne: "\<not> q_empty q" by (simp add: q_empty_iff)
  from pop_ok [OF Suc.prems this] obtain q1 where q1: "pop q = Inr q1" "cq_inv q1"
    "q_list q1 = tl (q_list q)" "q_capacity q1 = q_capacity q" by auto
  from q1(3) have "n = q_size q1" using length_q_list [of q1] Suc.hyps(2) by simp
  from Suc.hyps(1) [OF this q1(2)] q1 ne show ?case by (subst q_clear.simps) auto
qed

section \<open>Bulk operations\<close>

lemma walk_ok:
  "cq_inv q \<Longrightarrow> i \<le> j \<Longrightarrow> j \<le> q_size q \<Longrightarrow> j - i \<le> n \<Longrightarrow>
   walk q n (slot q i) (slot q j) = Some (Inr (take (j - i) (drop i (q_list q))))"
proof (induction n arbitrary: i)
  case (Suc n)
  show ?case
  proof (cases "i = j")
    case False
    then have "i < j" using Suc.prems by simp
    then have i: "Suc i < slots q" "i < q_size q" using Suc.prems q_size_less [of q] by auto
    have "slot q i \<noteq> slot q j"
      using slot_inj [of q i j] Suc.prems i \<open>i < j\<close> q_size_less [of q] by simp
    moreover have "walk q n (slot q (Suc i)) (slot q j) = Some (Inr (take (j - Suc i) (drop (Suc i) (q_list q))))"
      using Suc.prems \<open>i < j\<close> by (intro Suc.IH) auto
    moreover have "take (j - i) (drop i (q_list q)) = q_list q ! i # take (j - Suc i) (drop (Suc i) (q_list q))"
      using i \<open>i < j\<close> by (simp add: drop_eq_nth_Cons take_Cons')
    ultimately show ?thesis
      using Suc.prems i by (simp add: q_next_slot q_at_slot)
  qed simp
qed simp

lemma walk_from_tail:
  assumes "cq_inv q" "n \<le> q_size q"
  shows "walk q (slots q) (tail q) (slot q n) = Some (Inr (take n (q_list q)))"
  using walk_ok [of q 0 n "slots q"] assms tail_slot [of q] q_size_less [of q] by simp

lemma for_each_ok: "cq_inv q \<Longrightarrow> for_each q = Some (Inr (q_list q))"
  using walk_from_tail [of q "q_size q"] by (simp add: for_each_def head_slot)

lemma push_all_ok:
  "cq_inv q \<Longrightarrow> q_size q + length xs \<le> q_capacity q \<Longrightarrow>
   \<exists>q'. push_all q xs = Inr q' \<and> cq_inv q' \<and> q_list q' = q_list q @ xs \<and> q_capacity q' = q_capacity q"
proof (induction xs arbitrary: q)
  case (Cons x xs)
  have room: "q_size q < q_capacity q" using Cons.prems by simp
  from push_ok [OF Cons.prems(1) room, of x] obtain q1 where q1: "push q x = Inr q1" "cq_inv q1"
    "q_list q1 = q_list q @ [x]" "q_capacity q1 = q_capacity q" by auto
  then have "q_size q1 = Suc (q_size q)" using length_q_list [of q1] by simp
  moreover have "push_back q x = Inr q1"
    using room q1(1) by (simp add: push_back_def rotate_def is_full_iff [OF Cons.prems(1)])
  ultimately show ?case using Cons.IH [OF q1(2)] q1 Cons.prems by auto
qed auto

lemma q_jmp_tail: "cq_inv q \<Longrightarrow> n \<le> q_size q \<Longrightarrow> q_jmp q (tail q) (int n) = slot q n"
  using q_size_less [of q]
  by (auto simp: q_jmp_def slot_def cq_inv_def mod_if le_mod_geq)

lemma advance_ok:
  assumes inv: "cq_inv q" and n: "n \<le> q_size q"
  defines "q' \<equiv> q\<lparr>tail := slot q n\<rparr>"
  shows "cq_inv q'" and "q_list q' = drop n (q_list q)" and "q_capacity q' = q_capacity q"
proof -
  have size: "q_size q' = q_size q - n"
    using inv n by (auto simp: q'_def q_size_def slot_def cq_inv_def split: if_splits)
  have slot: "slot q' i = slot q (n + i)" if "i < q_size q - n" for i
    using inv that q_size_less [OF inv] by (auto simp: q'_def slot_def cq_inv_def)
  have "tail q' < slots q"
    using slot_less [OF inv, of n] n q_size_less [OF inv] by (simp add: q'_def)
  then show "cq_inv q'"
    using inv by (auto simp: cq_inv_def size slot) (simp_all add: q'_def)
  show "q_list q' = drop n (q_list q)"
    by (rule nth_equalityI) (simp_all add: size, simp add: q_list_def size slot, simp add: q'_def)
  show "q_capacity q' = q_capacity q" by (simp add: q'_def q_capacity_def)
qed

lemma read_cells_ok:
  "cq_inv q \<Longrightarrow> i + n \<le> q_size q \<Longrightarrow> slot q i + n \<le> slots q \<Longrightarrow>
   read_cells q (slot q i) n = Inr (take n (drop i (q_list q)))"
proof (induction n arbitrary: i)
  case (Suc n)
  have next_: "n > 0 \<Longrightarrow> slot q i + 1 = slot q (Suc i)"
    using Suc.prems q_size_less [of q] by (auto simp: slot_def cq_inv_def split: if_splits)
  have "read_cells q (slot q i + 1) n = Inr (take n (drop (Suc i) (q_list q)))"
    using Suc.IH [of "Suc i"] Suc.prems next_ by (cases n) auto
  moreover have "take (Suc n) (drop i (q_list q)) = q_list q ! i # take n (drop (Suc i) (q_list q))"
    using Suc.prems by (simp add: drop_eq_nth_Cons)
  ultimately show ?case using Suc.prems by (simp add: q_at_slot)
qed simp

lemma dequeue_n_trivial_ok:
  assumes inv: "cq_inv q" and n: "n \<le> q_size q"
  shows "\<exists>q'. dequeue_n_trivial q n = Inr (take n (q_list q), q') \<and> cq_inv q'
    \<and> q_list q' = drop n (q_list q) \<and> q_capacity q' = q_capacity q"
proof -
  note tl = tail_slot [OF inv]
  have "(if tail q < head q then read_cells q (tail q) (min (head q - tail q) n)
         else let nseq1 = min (slots q - tail q) n; nseq2 = n - nseq1
              in bindE (read_cells q (tail q) nseq1) (\<lambda>xs.
                 bindE (read_cells q 0 nseq2) (\<lambda>ys. Inr (xs @ ys))))
        = Inr (take n (q_list q))"
  proof (cases "tail q < head q")
    case True
    then have "min (head q - tail q) n = n" using n by (simp add: q_size_def)
    moreover have "tail q + n \<le> slots q" using True n inv by (auto simp: q_size_def cq_inv_def)
    ultimately show ?thesis using True read_cells_ok [of q 0 n] inv n tl by simp
  next
    case False
    define n1 where "n1 = min (slots q - tail q) n"
    have t: "tail q < slots q" using inv by (simp add: cq_inv_def)
    have r1: "read_cells q (tail q) n1 = Inr (take n1 (q_list q))"
      using read_cells_ok [of q 0 n1] inv n t tl by (simp add: n1_def)
    have r2: "read_cells q 0 (n - n1) = Inr (take (n - n1) (drop n1 (q_list q)))"
    proof (cases "n1 = n")
      case False
      then have n1: "n1 = slots q - tail q" "n1 < n" by (auto simp: n1_def)
      then have "slot q n1 = 0" using t by (simp add: slot_def)
      then show ?thesis
        using read_cells_ok [of q n1 "n - n1"] inv n n1 q_size_less [OF inv] by simp
    qed simp
    have "n1 \<le> n" by (simp add: n1_def)
    then have "take n (q_list q) = take n1 (q_list q) @ take (n - n1) (drop n1 (q_list q))"
      by (simp flip: take_add)
    with False r1 r2 show ?thesis by (simp add: Let_def flip: n1_def)
  qed
  then show ?thesis
    using n advance_ok [OF inv n] by (simp add: dequeue_n_trivial_def q_jmp_tail [OF inv n])
qed

lemma dequeue_loop_ok:
  "cq_inv q \<Longrightarrow> n \<le> q_size q \<Longrightarrow>
   \<exists>q'. dequeue_loop q n = Inr (take n (q_list q), q') \<and> cq_inv q'
    \<and> q_list q' = drop n (q_list q) \<and> q_capacity q' = q_capacity q"
proof (induction n arbitrary: q)
  case (Suc n)
  then have ne: "\<not> q_empty q" by (simp add: q_empty_iff)
  from dequeue_ok [OF Suc.prems(1) ne] obtain q1 where q1: "dequeue q = Inr (hd (q_list q), q1)" "cq_inv q1"
    "q_list q1 = tl (q_list q)" "q_capacity q1 = q_capacity q" by auto
  then have "n \<le> q_size q1" using Suc.prems length_q_list [of q1] by simp
  from Suc.IH [OF q1(2) this] q1 ne q_list_Nil_iff [OF Suc.prems(1)] show ?case
    by (auto simp: take_Suc drop_Suc)
qed auto

lemma pop_n_ok:
  "cq_inv q \<Longrightarrow> n \<le> q_size q \<Longrightarrow>
   \<exists>q'. pop_n q n = Inr q' \<and> cq_inv q' \<and> q_list q' = drop n (q_list q) \<and> q_capacity q' = q_capacity q"
proof (induction n arbitrary: q)
  case (Suc n)
  then have ne: "\<not> q_empty q" by (simp add: q_empty_iff)
  from pop_ok [OF Suc.prems(1) ne] obtain q1 where q1: "pop q = Inr q1" "cq_inv q1"
    "q_list q1 = tl (q_list q)" "q_capacity q1 = q_capacity q" by auto
  then have "n \<le> q_size q1" using Suc.prems length_q_list [of q1] by simp
  from Suc.IH [OF q1(2) this] q1 show ?case by (auto simp: drop_Suc)
qed auto

text \<open>The cells after the assignments, where they are allowed.\<close>

fun put_cells :: "'a option list \<Rightarrow> nat \<Rightarrow> 'a list \<Rightarrow> 'a option list" where
  "put_cells d p [] = d"
| "put_cells d p (x # xs) = put_cells (d[p := Some x]) (p + 1) xs"

lemma length_put_cells [simp]: "length (put_cells d p xs) = length d"
  by (induction d p xs rule: put_cells.induct) simp_all

lemma nth_put_cells:
  "i < length d \<Longrightarrow> put_cells d p xs ! i = (if p \<le> i \<and> i < p + length xs then Some (xs ! (i - p)) else d ! i)"
  by (induction d p xs rule: put_cells.induct) (auto simp: nth_Cons' nth_list_update)

lemma write_cells_trivial: "p + length xs \<le> length d \<Longrightarrow> write_cells Trivial d p xs = Inr (put_cells d p xs)"
  by (induction d p xs rule: put_cells.induct) auto

lemma slot_after_head:
  assumes "cq_inv q" "q_size q + k < slots q"
  shows "slot q (q_size q + k) = (if head q + k < slots q then head q + k else head q + k - slots q)"
  using assms by (auto simp: slot_def q_size_def cq_inv_def)

text \<open>The two block copies of \<open>enqueue_n\<close>, once there is room.\<close>

lemma append_cells:
  assumes inv: "cq_inv q" and room: "q_size q + length xs \<le> q_capacity q" and cap: "q_capacity q > 0"
  defines "n1 \<equiv> min (length xs) (slots q - head q)"
  defines "q' \<equiv> q\<lparr>head := q_jmp q (head q) (int (length xs)),
      data := put_cells (put_cells (data q) (head q) (take n1 xs)) 0 (drop n1 xs)\<rparr>"
  shows "cq_inv q'" and "q_list q' = q_list q @ xs" and "q_capacity q' = q_capacity q"
proof -
  let ?s = "q_size q" let ?n = "length xs" let ?h = "head q"
  have lt: "?s + ?n < slots q" using room cap by (simp add: q_capacity_def)
  have len: "length (data q) = slots q" using data_length [OF inv] cap by simp
  have h: "?h < slots q" using inv by (simp add: cq_inv_def)
  have n1: "n1 \<le> ?n" by (simp add: n1_def)
  have head': "head q' = slot q (?s + ?n)"
    using slot_after_head [OF inv lt] h lt by (auto simp: q'_def q_jmp_def mod_if le_mod_geq)
  have size: "q_size q' = ?s + ?n"
  proof -
    have "head q' = (if ?h + ?n < slots q then ?h + ?n else ?h + ?n - slots q)"
      "tail q' = tail q" "slots q' = slots q"
      unfolding head' slot_after_head [OF inv lt] by (simp_all add: q'_def)
    then show ?thesis
      using inv lt by (auto simp: cq_inv_def q_size_def split: if_splits)
  qed
  have slot: "slot q' i = slot q i" for i by (simp add: q'_def slot_def)
  have nthd: "data q' ! j = (if j < ?n - n1 then Some (xs ! (n1 + j))
      else if ?h \<le> j \<and> j < ?h + n1 then Some (xs ! (j - ?h)) else data q ! j)" if "j < slots q" for j
    using that len n1 by (auto simp: q'_def nth_put_cells)
  have new: "data q' ! slot q (?s + k) = Some (xs ! k)" if "k < ?n" for k
  proof -
    have k: "?s + k < slots q" using that lt by simp
    show ?thesis
      using that h lt slot_less [OF inv k]
      by (simp add: nthd) (auto simp: slot_after_head [OF inv k] n1_def)
  qed
  have old: "data q' ! slot q i = data q ! slot q i" if "i < ?s" for i
  proof -
    have i: "slot q i < slots q" using that lt slot_less [OF inv, of i] by simp
    have apart: "slot q i \<noteq> slot q (?s + k)" if "k < ?n" for k
      using slot_inj [OF inv, of i "?s + k"] that \<open>i < ?s\<close> lt by simp
    have "\<not> slot q i < ?n - n1"
    proof
      assume a: "slot q i < ?n - n1"
      then have k: "n1 + slot q i < ?n" and n1: "n1 = slots q - ?h" by (auto simp: n1_def)
      have "slot q (?s + (n1 + slot q i)) = slot q i"
        using k lt n1 h by (subst slot_after_head [OF inv]) auto
      with apart [OF k] show False by simp
    qed
    moreover have "\<not> (?h \<le> slot q i \<and> slot q i < ?h + n1)"
    proof
      assume a: "?h \<le> slot q i \<and> slot q i < ?h + n1"
      then have k: "slot q i - ?h < ?n" by (auto simp: n1_def)
      have "slot q (?s + (slot q i - ?h)) = slot q i"
        using k lt a i by (subst slot_after_head [OF inv]) auto
      with apart [OF k] show False by simp
    qed
    ultimately show ?thesis by (auto simp: nthd [OF i])
  qed
  have cells: "data q' ! slot q i = (if i < ?s then data q ! slot q i else Some (xs ! (i - ?s)))"
    if "i < ?s + ?n" for i
    using old [of i] new [of "i - ?s"] that by auto
  have "head q' < slots q" using slot_less [OF inv lt] head' by simp
  then show "cq_inv q'"
    using inv by (auto simp: cq_inv_def size slot cells) (simp_all add: q'_def)
  show "q_list q' = q_list q @ xs"
    by (rule nth_equalityI) (auto simp: q_list_def size slot cells nth_append)
  show "q_capacity q' = q_capacity q" by (simp add: q'_def q_capacity_def)
qed

text \<open>What \<open>enqueue_n\<close> leaves: the last \<open>capacity()\<close> of the old elements and the new ones.\<close>

definition last_n :: "nat \<Rightarrow> 'a list \<Rightarrow> 'a list" where
  "last_n n xs = drop (length xs - n) xs"

lemma last_n_snoc:
  "length xs \<le> n \<Longrightarrow> n > 0 \<Longrightarrow> last_n n (xs @ [x]) = (if length xs = n then tl xs else xs) @ [x]"
  by (auto simp: last_n_def drop_Suc)

lemma copy_in_ok:
  assumes inv: "cq_inv q" and room: "q_size q + length xs \<le> q_capacity q" and cap: "q_capacity q > 0"
  shows "\<exists>q'. copy_in Trivial q xs = Inr q' \<and> cq_inv q' \<and> q_list q' = q_list q @ xs \<and> q_capacity q' = q_capacity q"
proof -
  let ?n1 = "min (length xs) (slots q - head q)"
  have len: "length (data q) = slots q" using data_length [OF inv] cap by simp
  have h: "head q < slots q" using inv by (simp add: cq_inv_def)
  have a: "head q + length (take ?n1 xs) \<le> length (data q)"
    using len h by simp
  have b: "0 + length (drop ?n1 xs) \<le> length (put_cells (data q) (head q) (take ?n1 xs))"
    using len room cap by (simp add: q_capacity_def)
  show ?thesis
    using append_cells [OF inv room cap] write_cells_trivial [OF a] write_cells_trivial [OF b]
    by (simp add: copy_in_def Let_def)
qed

text \<open>Assigning to the raw cell at the head.\<close>

lemma copy_in_raw:
  assumes "k \<noteq> Trivial" "xs \<noteq> []" "head q < slots q" "head q < length (data q)" "data q ! head q = None"
  shows "copy_in k q xs = Inl Dead_object"
  using assms by (cases xs) (auto simp: copy_in_def Let_def take_Cons' min_def)

lemma make_space_ok:
  assumes inv: "cq_inv q" and n: "n \<le> q_capacity q"
  defines "k \<equiv> q_size q + n - q_capacity q"
  shows "\<exists>q'. make_space k0 q n = Inr q' \<and> cq_inv q' \<and> q_list q' = drop k (q_list q)
    \<and> q_capacity q' = q_capacity q \<and> q_size q' + n \<le> q_capacity q"
proof -
  note le = q_size_le_capacity [OF inv]
  have k: "k \<le> q_size q" using n by (simp add: k_def)
  have "\<exists>q'. make_space k0 q n = Inr q' \<and> cq_inv q' \<and> q_list q' = drop k (q_list q)
      \<and> q_capacity q' = q_capacity q"
  proof (cases "q_capacity q - q_size q < n")
    case True
    then have d: "n - (q_capacity q - q_size q) = k" using le by (simp add: k_def)
    from True show ?thesis
      using pop_n_ok [OF inv k] advance_ok [OF inv k] by (auto simp: make_space_def Let_def q_jmp_tail [OF inv k] d)
  next
    case False
    then have "k = 0" using le by (simp add: k_def)
    with False inv show ?thesis by (simp add: make_space_def Let_def)
  qed
  moreover have "q_size q' + n \<le> q_capacity q" if "q_list q' = drop k (q_list q)" for q' :: "'a cq"
    using that length_q_list [of q'] le n by (auto simp: k_def)
  ultimately show ?thesis by blast
qed

lemma enqueue_n_ok:
  assumes inv: "cq_inv q" and cap: "q_capacity q > 0"
  shows "\<exists>q'. enqueue_n Trivial q xs = Inr q' \<and> cq_inv q'
    \<and> q_list q' = last_n (q_capacity q) (q_list q @ xs) \<and> q_capacity q' = q_capacity q"
proof -
  let ?c = "q_capacity q"
  define src where "src = (if ?c < length xs then drop (length xs - ?c) xs else xs)"
  have le: "length src \<le> ?c" by (simp add: src_def)
  obtain q1 where q1: "make_space Trivial q (length src) = Inr q1" "cq_inv q1"
    "q_list q1 = drop (q_size q + length src - ?c) (q_list q)" "q_capacity q1 = ?c"
    "q_size q1 + length src \<le> ?c"
    using make_space_ok [OF inv le, of Trivial] by blast
  have eq: "drop (q_size q + length src - ?c) (q_list q) @ src = last_n ?c (q_list q @ xs)"
    by (simp add: last_n_def src_def)
  obtain q2 where "copy_in Trivial q1 src = Inr q2" "cq_inv q2" "q_list q2 = q_list q1 @ src" "q_capacity q2 = ?c"
    using copy_in_ok [OF q1(2), of src] q1 cap by auto
  with q1 eq show ?thesis by (simp add: enqueue_n_def flip: src_def)
qed

lemma pop_head_raw:
  assumes "pop q = Inr q'" "data q ! head q = None"
  shows "head q' = head q" "slots q' = slots q" "length (data q') = length (data q)" "data q' ! head q = None"
  using assms by (auto simp: pop_def q_empty_def split: if_splits)

lemma pop_n_head_raw:
  "pop_n q n = Inr q' \<Longrightarrow> data q ! head q = None
    \<Longrightarrow> head q' = head q \<and> slots q' = slots q \<and> length (data q') = length (data q) \<and> data q' ! head q = None"
proof (induction n arbitrary: q)
  case (Suc n)
  then obtain q1 where "pop q = Inr q1" "pop_n q1 n = Inr q'" by auto
  then show ?case using Suc.IH [of q1] pop_head_raw [of q q1] Suc.prems(2) by simp
qed simp

lemma enqueue_n_raw:
  assumes inv: "cq_inv q" and cap: "q_capacity q > 0" and k: "k \<noteq> Trivial" "data q ! head q = None" "xs \<noteq> []"
  shows "enqueue_n k q xs = Inl Dead_object"
proof -
  let ?c = "q_capacity q"
  define src where "src = (if ?c < length xs then drop (length xs - ?c) xs else xs)"
  have src: "length src \<le> ?c" "src \<noteq> []" using cap k(3) by (auto simp: src_def)
  have len: "length (data q) = slots q" and h: "head q < slots q"
    using data_length [OF inv] cap inv by (simp_all add: cq_inv_def)
  obtain q1 where q1: "make_space k q (length src) = Inr q1"
    using make_space_ok [OF inv src(1), of k] by blast
  then have "head q1 = head q \<and> slots q1 = slots q \<and> length (data q1) = length (data q) \<and> data q1 ! head q = None"
    using k(2) pop_n_head_raw [of q _ q1] by (auto simp: make_space_def Let_def split: if_splits)
  then have "copy_in k q1 src = Inl Dead_object" using copy_in_raw [OF k(1) src(2), of q1] len h by simp
  with q1 show ?thesis by (simp add: enqueue_n_def flip: src_def)
qed

lemma reserve_shrink_ok:
  assumes inv: "cq_inv q" and n: "new_cap > 0"
  shows "\<exists>q'. reserve_shrink q new_cap = Some (Inr q') \<and> cq_inv q'
    \<and> q_list q' = take new_cap (q_list q) \<and> q_capacity q' = new_cap"
proof (cases "new_cap = q_capacity q")
  case True
  then show ?thesis using inv q_size_le_capacity [OF inv] by (simp add: reserve_shrink_def)
next
  case False
  let ?n = "min (q_size q) new_cap"
  show ?thesis
  proof (cases "?n > 0")
    case True
    have le: "?n \<le> q_size q" by simp
    obtain nxt where nxt: "push_all (cq_new new_cap) (take ?n (q_list q)) = Inr nxt" "cq_inv nxt"
      "q_list nxt = take ?n (q_list q)" "q_capacity nxt = new_cap"
      using push_all_ok [of "cq_new new_cap" "take ?n (q_list q)"] by auto
    obtain q2 where "q_clear (q\<lparr>tail := slot q ?n\<rparr>) = Inr q2"
      using q_clear_ok [OF advance_ok(1) [OF inv le]] by auto
    with False True n nxt walk_from_tail [OF inv le] show ?thesis
      by (simp add: reserve_shrink_def q_jmp_tail [OF inv le] Let_def) (simp add: min_def split: if_splits)
  next
    case empty: False
    then have "q_list q = []" using n by (simp flip: length_0_conv)
    with False empty n show ?thesis by (simp add: reserve_shrink_def Let_def)
  qed
qed

lemma copy_assign_ok:
  assumes q: "cq_inv q" and op: "cq_inv other" and cap: "q_capacity other > 0"
  shows "\<exists>q'. copy_assign q other = Some (Inr q') \<and> cq_inv q' \<and> q_list q' = q_list other
    \<and> q_capacity q' = q_capacity other"
proof -
  have e: "\<lparr>slots = slots other, data = replicate (slots other) None, head = 0, tail = 0\<rparr>
      = cq_new (q_capacity other)"
    using cap by (simp add: cq_new_def q_capacity_def)
  obtain q1 where "q_clear q = Inr q1" using q_clear_ok [OF q] by auto
  then show ?thesis
    using for_each_ok [OF op] push_all_ok [of "cq_new (q_capacity other)" "q_list other"]
      q_size_le_capacity [OF op]
    by (auto simp: copy_assign_def e)
qed

lemma flat_ok:
  assumes inv: "cq_inv q"
  shows "concat (map (\<lambda>(a, b). map (\<lambda>i. the (data q ! i)) [a..<b]) (flat q)) = q_list q"
proof -
  have t: "tail q < slots q" using inv by (simp add: cq_inv_def)
  show ?thesis
  proof (cases "head q < tail q")
    case True
    then have n: "q_size q = (slots q - tail q) + head q" using t by (simp add: q_size_def)
    have flat_cell: "slot q i = (if i < slots q - tail q then tail q + i else i - (slots q - tail q))" for i
      using t by (auto simp: slot_def)
    show ?thesis
    proof (rule nth_equalityI)
      fix i assume "i < length (concat (map (\<lambda>(a, b). map (\<lambda>i. the (data q ! i)) [a..<b]) (flat q)))"
      then show "concat (map (\<lambda>(a, b). map (\<lambda>i. the (data q ! i)) [a..<b]) (flat q)) ! i = q_list q ! i"
        using True t n flat_cell by (auto simp: flat_def q_list_def nth_append)
    qed (use True n in \<open>simp add: flat_def\<close>)
  next
    case False
    then have n: "q_size q = head q - tail q" by (simp add: q_size_def)
    have "head q < slots q" using inv by (simp add: cq_inv_def)
    with False have "slot q i = tail q + i" if "i < head q - tail q" for i
      using that by (simp add: slot_def)
    with False n show ?thesis
      by (simp add: flat_def list_eq_iff_nth_eq) (simp add: q_list_def)
  qed
qed

text \<open>Random access iterators: an iterator is the cell index \<open>_head\<close> it holds.\<close>

definition it_plus :: "'a cq \<Rightarrow> nat \<Rightarrow> int \<Rightarrow> nat" where
  "it_plus q i k = q_jmp q i k"

definition it_diff :: "'a cq \<Rightarrow> nat \<Rightarrow> nat \<Rightarrow> int" where
  "it_diff q i j = int (q_idx_linear q i) - int (q_idx_linear q j)"

lemma it_plus_slot:
  assumes inv: "cq_inv q" and j: "j \<le> q_size q" and i: "i \<le> q_size q"
  shows "it_plus q (slot q i) (int j - int i) = slot q j"
proof -
  have lt: "i < slots q" "j < slots q" "tail q < slots q"
    using assms q_size_less [OF inv] by (auto simp: cq_inv_def)
  show ?thesis
  proof (cases "i \<le> j")
    case True
    then have e: "int j - int i \<ge> 0" "nat (int j - int i) = j - i" by auto
    have "slot q i + (j - i) = tail q + j \<or> slot q i + (j - i) + slots q = tail q + j"
      using True by (auto simp: slot_def)
    moreover have "slot q i < slots q" using slot_less [OF inv lt(1)] .
    ultimately have "(slot q i + (j - i)) mod slots q = slot q j"
      using True lt by (auto simp: slot_def mod_if le_mod_geq split: if_splits)
    with e show ?thesis by (simp add: it_plus_def q_jmp_def)
  next
    case False
    then have e: "\<not> int j - int i \<ge> 0" by simp
    have "nat (int (slot q i) + (int j - int i) + int (slots q) * of_bool (int (slot q i) + (int j - int i) < 0)) = slot q j"
      using False lt by (cases "tail q + i < slots q"; cases "tail q + j < slots q") (simp_all add: slot_def)
    with e show ?thesis by (simp add: it_plus_def q_jmp_def Let_def)
  qed
qed

lemma it_diff_slot:
  assumes "cq_inv q" "i \<le> q_size q" "j \<le> q_size q"
  shows "it_diff q (slot q i) (slot q j) = int i - int j"
proof -
  have *: "q_idx_linear q (slot q k) = k + (if head q \<ge> tail q then tail q else 0)" if "k \<le> q_size q" for k
    using assms(1) that by (auto simp: q_idx_linear_def slot_def cq_inv_def q_size_def)
  show ?thesis using assms by (simp add: it_diff_def *)
qed

section \<open>The contract of a bounded FIFO channel\<close>

text \<open>
  What the in-memory pipe uses of its queue: the size and capacity, growing, appending a block
  and taking a block from the front.
\<close>

locale bounded_fifo =
  fixes inv :: "'q \<Rightarrow> bool"
    and contents :: "'q \<Rightarrow> 'a list"
    and fill :: "'q \<Rightarrow> nat"
    and room :: "'q \<Rightarrow> nat"
    and grow :: "'q \<Rightarrow> nat \<Rightarrow> ('e + 'q) option"
    and append :: "'q \<Rightarrow> 'a list \<Rightarrow> 'e + 'q"
    and take_front :: "'q \<Rightarrow> nat \<Rightarrow> 'e + 'a list \<times> 'q"
  assumes fill: "inv q \<Longrightarrow> fill q = length (contents q)"
    and bounded: "inv q \<Longrightarrow> fill q \<le> room q"
    and grow: "inv q \<Longrightarrow> n > 0 \<Longrightarrow> \<exists>q'. grow q n = Some (Inr q') \<and> inv q'
                 \<and> contents q' = take n (contents q) \<and> room q' = n"
    and append: "inv q \<Longrightarrow> room q > 0 \<Longrightarrow> \<exists>q'. append q xs = Inr q' \<and> inv q'
                 \<and> contents q' = last_n (room q) (contents q @ xs) \<and> room q' = room q"
    and take_front: "inv q \<Longrightarrow> n \<le> fill q \<Longrightarrow> \<exists>q'. take_front q n = Inr (take n (contents q), q')
                 \<and> inv q' \<and> contents q' = drop n (contents q) \<and> room q' = room q"
begin

text \<open>Growing first when the block does not fit, nothing is lost.\<close>

lemma lossless_append:
  assumes q: "inv q" and r: "room q > 0"
  shows "\<exists>q1 q2. (if room q - fill q < length xs
                  then grow q (max (room q * 2) (room q + length xs)) else Some (Inr q)) = Some (Inr q1)
    \<and> append q1 xs = Inr q2 \<and> inv q2 \<and> contents q2 = contents q @ xs \<and> room q2 > 0"
proof -
  have "\<exists>q1. (if room q - fill q < length xs
          then grow q (max (room q * 2) (room q + length xs)) else Some (Inr q)) = Some (Inr q1)
      \<and> inv q1 \<and> contents q1 = contents q \<and> room q1 > 0 \<and> length (contents q @ xs) \<le> room q1"
  proof (cases "room q - fill q < length xs")
    case True
    have pos: "max (room q * 2) (room q + length xs) > 0" using r by simp
    from grow [OF q pos] True r fill [OF q] bounded [OF q] show ?thesis by auto
  next
    case False
    then show ?thesis using r fill [OF q] bounded [OF q] q by auto
  qed
  then obtain q1 where q1: "(if room q - fill q < length xs
          then grow q (max (room q * 2) (room q + length xs)) else Some (Inr q)) = Some (Inr q1)"
      "inv q1" "contents q1 = contents q" "room q1 > 0" "length (contents q @ xs) \<le> room q1" by blast
  with append [OF q1(2) q1(4), of xs] show ?thesis
    by (auto simp: last_n_def)
qed

lemma take_upto:
  assumes "inv q"
  shows "\<exists>q'. take_front q (min n (fill q)) = Inr (take n (contents q), q')
    \<and> inv q' \<and> contents q' = drop n (contents q) \<and> room q' = room q"
proof -
  have e: "take (min n (fill q)) (contents q) = take n (contents q)"
    "drop (min n (fill q)) (contents q) = drop n (contents q)"
    using fill [OF assms] by (simp_all add: min_def)
  show ?thesis using take_front [OF assms, of "min n (fill q)"] e by auto
qed

end

interpretation ring: bounded_fifo cq_inv q_list q_size q_capacity reserve_shrink "enqueue_n Trivial" dequeue_n_trivial
proof unfold_locales
  fix q :: "'a cq" and n
  assume "cq_inv q" "n \<le> q_size q"
  then show "\<exists>q'. dequeue_n_trivial q n = Inr (take n (q_list q), q') \<and> cq_inv q'
      \<and> q_list q' = drop n (q_list q) \<and> q_capacity q' = q_capacity q"
    by (rule dequeue_n_trivial_ok)
qed (auto intro: q_size_le_capacity reserve_shrink_ok enqueue_n_ok)

section \<open>Properties of the ring buffer\<close>

text \<open>The exclusive-producer operations on a queue in a valid state, on every branch. \<open>push\<close>
  fails its assertion exactly on a full queue and appends otherwise; \<open>rotate\<close> (which is
  \<open>push_back\<close>) drops the oldest element of a full queue; \<open>dequeue\<close> and \<open>pop\<close> fail exactly on an
  empty queue and take the oldest element; \<open>front\<close> and \<open>back\<close> are the two ends.\<close>

theorem ring_element_ops:
  assumes "cq_inv q"
  shows "(if q_size q = q_capacity q then push q x = Inl Assert_full
      else \<exists>q'. push q x = Inr q' \<and> cq_inv q' \<and> q_list q' = q_list q @ [x])
    \<and> (q_capacity q = 0 \<or> (\<exists>q'. rotate q x = Inr q' \<and> cq_inv q'
         \<and> q_list q' = last_n (q_capacity q) (q_list q @ [x])))
    \<and> (if q_list q = [] then dequeue q = Inl Assert_empty \<and> pop q = Inl Assert_empty
      else \<exists>q'. dequeue q = Inr (hd (q_list q), q') \<and> pop q = Inr q' \<and> cq_inv q' \<and> q_list q' = tl (q_list q)
        \<and> q_front q = Inr (hd (q_list q)) \<and> q_back q = Inr (last (q_list q)))"
proof (intro conjI)
  show "if q_size q = q_capacity q then push q x = Inl Assert_full
      else \<exists>q'. push q x = Inr q' \<and> cq_inv q' \<and> q_list q' = q_list q @ [x]"
    using push_ok [OF assms, of x] is_full_iff [OF assms] q_size_le_capacity [OF assms]
    by (auto simp: push_def)
  show "q_capacity q = 0 \<or> (\<exists>q'. rotate q x = Inr q' \<and> cq_inv q'
         \<and> q_list q' = last_n (q_capacity q) (q_list q @ [x]))"
    using rotate_ok [OF assms, of x] q_size_le_capacity [OF assms] last_n_snoc [of "q_list q" "q_capacity q" x]
    by (cases "q_capacity q = 0") auto
  show "if q_list q = [] then dequeue q = Inl Assert_empty \<and> pop q = Inl Assert_empty
      else \<exists>q'. dequeue q = Inr (hd (q_list q), q') \<and> pop q = Inr q' \<and> cq_inv q' \<and> q_list q' = tl (q_list q)
        \<and> q_front q = Inr (hd (q_list q)) \<and> q_back q = Inr (last (q_list q))"
    using pop_ok [OF assms] front_ok [OF assms] back_ok [OF assms] q_list_Nil_iff [OF assms]
    by (auto simp: dequeue_def pop_def q_front_def)
qed

text \<open>A queue of two that has wrapped around.\<close>

definition wrapped :: "nat cq" where
  "wrapped = \<lparr>slots = 3, data = [Some 7, None, Some 5], head = 1, tail = 2\<rparr>"

lemma wrapped_inv: "cq_inv wrapped" "q_list wrapped = [5, 7]" "q_size wrapped = 2" "q_capacity wrapped = 2"
  by (auto simp: cq_inv_def wrapped_def q_size_def slot_def q_list_def q_capacity_def less_Suc_eq numeral_2_eq_2 upt_rec)

lemma wrapped_raw: "data wrapped ! head wrapped = None"
  by (simp add: wrapped_def)

theorem ring_element_ops_witness:
  "push wrapped 9 = Inl Assert_full
   \<and> (\<exists>q'. rotate wrapped 9 = Inr q' \<and> cq_inv q' \<and> q_list q' = [7, 9])
   \<and> (\<exists>q'. dequeue wrapped = Inr (5, q') \<and> q_list q' = [7])"
  using ring_element_ops [OF wrapped_inv(1), of 9] by (auto simp: wrapped_inv last_n_def)

text \<open>C9: \<open>enqueue_n\<close> of a trivial element type, the only ones its comment allows, never fails on a queue with a
  capacity. It behaves like pushing the elements one by one and dropping the oldest: what is left are the last
  \<open>capacity()\<close> elements of the old and the new ones, on the wrapped layout too. For every other element type, of a
  non-empty block, the first assignment already meets a dead object when the cell at the head is raw storage, as it is
  in a new queue and after any \<open>pop\<close>.\<close>

theorem ring_enqueue_n:
  assumes "cq_inv q" and "q_capacity q > 0"
  shows "(\<exists>q'. enqueue_n Trivial q xs = Inr q' \<and> cq_inv q' \<and> q_capacity q' = q_capacity q
      \<and> q_list q' = last_n (q_capacity q) (q_list q @ xs))
    \<and> (k \<noteq> Trivial \<and> data q ! head q = None \<and> xs \<noteq> [] \<longrightarrow> enqueue_n k q xs = Inl Dead_object)"
  using enqueue_n_ok [OF assms, of xs] enqueue_n_raw [OF assms, of k xs] by blast

theorem ring_enqueue_n_witness:
  "(\<exists>q'. enqueue_n Trivial wrapped [1, 2, 3] = Inr q' \<and> cq_inv q' \<and> q_list q' = [2, 3])
   \<and> enqueue_n Non_trivial wrapped [1, 2, 3] = Inl Dead_object"
  using ring_enqueue_n [OF wrapped_inv(1), of "[1, 2, 3]" Non_trivial] by (auto simp: wrapped_inv wrapped_raw last_n_def)

text \<open>The block copy of \<open>dequeue_n\<close> for trivial types and its loop over \<open>dequeue\<close> agree: both
  give the \<open>n\<close> oldest elements and leave the others, and both fail on a count above the size.\<close>

theorem ring_dequeue_n:
  assumes "cq_inv q"
  shows "(if n \<le> q_size q
          then (\<exists>q1 q2. dequeue_n_trivial q n = Inr (take n (q_list q), q1) \<and> dequeue_n q n = Inr (take n (q_list q), q2)
             \<and> cq_inv q1 \<and> cq_inv q2 \<and> q_list q1 = drop n (q_list q) \<and> q_list q2 = drop n (q_list q))
          else dequeue_n_trivial q n = Inl Assert_count \<and> dequeue_n q n = Inl Assert_count)"
  using dequeue_n_trivial_ok [OF assms, of n] dequeue_loop_ok [OF assms, of n]
  by (auto simp: dequeue_n_trivial_def dequeue_n_def)

theorem ring_dequeue_n_witness:
  "\<exists>q1. dequeue_n_trivial wrapped 2 = Inr ([5, 7], q1) \<and> q_list q1 = []"
  using ring_dequeue_n [OF wrapped_inv(1), of 2] by (auto simp: wrapped_inv)

text \<open>\<open>reserve_shrink\<close> to a positive capacity keeps the oldest elements that fit, and
  iterating a queue, \<open>flat\<close> and copying it show exactly its elements.\<close>

theorem ring_reserve_copy:
  assumes "cq_inv q" and "q_capacity q > 0" and "new_cap > 0" and "cq_inv p"
  shows "(\<exists>q'. reserve_shrink q new_cap = Some (Inr q') \<and> cq_inv q' \<and> q_capacity q' = new_cap
             \<and> q_list q' = take new_cap (q_list q))
    \<and> (\<exists>q'. copy_assign p q = Some (Inr q') \<and> cq_inv q' \<and> q_list q' = q_list q)
    \<and> for_each q = Some (Inr (q_list q))
    \<and> concat (map (\<lambda>(a, b). map (\<lambda>i. the (data q ! i)) [a..<b]) (flat q)) = q_list q"
  using reserve_shrink_ok [OF assms(1,3)] copy_assign_ok [OF assms(4,1,2)] for_each_ok [OF assms(1)]
    flat_ok [OF assms(1)] by auto

theorem ring_reserve_copy_witness:
  "(\<exists>q'. reserve_shrink wrapped 1 = Some (Inr q') \<and> cq_inv q' \<and> q_list q' = [5])
   \<and> (\<exists>q'. reserve_shrink wrapped 4 = Some (Inr q') \<and> cq_inv q' \<and> q_list q' = [5, 7])"
  using ring_reserve_copy [OF wrapped_inv(1) _ _ cq_new_inv, of 1 0]
    ring_reserve_copy [OF wrapped_inv(1) _ _ cq_new_inv, of 4 0] by (auto simp: wrapped_inv)

text \<open>The iterators are random access: from the iterator of the \<open>i\<close>-th element, adding
  \<open>j - i\<close> (of either sign) gives that of the \<open>j\<close>-th, their difference is \<open>i - j\<close>, and
  dereferencing gives the element.\<close>

theorem ring_iterators:
  assumes "cq_inv q" and "i \<le> q_size q" and "j \<le> q_size q"
  shows "it_plus q (it_plus q (tail q) (int i)) (int j - int i) = it_plus q (tail q) (int j)
    \<and> it_diff q (it_plus q (tail q) (int i)) (it_plus q (tail q) (int j)) = int i - int j
    \<and> (i = q_size q \<or> q_at q (it_plus q (tail q) (int i)) = Inr (q_list q ! i))"
  using it_plus_slot [OF assms(1,3,2)] it_diff_slot [OF assms] q_at_slot [OF assms(1), of i] assms
  by (simp add: q_jmp_tail it_plus_def) linarith

theorem ring_iterators_witness:
  "it_diff wrapped (it_plus wrapped 2 0) (it_plus wrapped 2 2) = - 2
   \<and> q_at wrapped (it_plus wrapped 2 1) = Inr 7"
  using ring_iterators [OF wrapped_inv(1), of 0 2] ring_iterators [OF wrapped_inv(1), of 1 1]
  by (simp add: wrapped_inv) (simp add: wrapped_def)

text \<open>Shrinking to zero leaves the indices where they were: after some traffic the queue has
  capacity 0 and yet is not full, and an \<open>enqueue_n\<close> on it, which has nothing to copy, makes it
  report elements.\<close>

theorem ring_shrink_to_zero_breaks:
  assumes "cq_inv q" and "q_capacity q > 0" and "q_list q = []" and "tail q > 0"
  shows "\<exists>q'. reserve_shrink q 0 = Some (Inr q') \<and> q_capacity q' = 0 \<and> \<not> is_full q' \<and> \<not> cq_inv q'
    \<and> (\<exists>q''. enqueue_n Trivial q' [x] = Inr q'' \<and> \<not> q_empty q'')"
proof -
  have "q_empty q" using assms q_list_Nil_iff by blast
  then show ?thesis
    using assms by (simp add: reserve_shrink_def q_clear.simps [of q] q_empty_def)
      (simp add: q_capacity_def is_full_def q_next_def cq_inv_def enqueue_n_def make_space_def copy_in_def q_size_def q_jmp_def q_empty_def Let_def)
qed

theorem ring_shrink_to_zero_breaks_witness:
  "\<exists>q'. reserve_shrink \<lparr>slots = 3, data = [None, None, None :: nat option], head = 1, tail = 1\<rparr> 0 = Some (Inr q')
     \<and> \<not> is_full q'"
proof -
  have "cq_inv \<lparr>slots = 3, data = [None, None, None :: nat option], head = 1, tail = 1\<rparr>"
    by (simp add: cq_inv_def q_size_def)
  then show ?thesis
    using ring_shrink_to_zero_breaks [of "\<lparr>slots = 3, data = [None, None, None :: nat option], head = 1, tail = 1\<rparr>" 0]
    by (auto simp: q_capacity_def q_list_def q_size_def)
qed

end
