(* ===== verification/Inmemory_Pipe.thy ===== *)
theory Inmemory_Pipe
  imports Circular_Queue
begin

text \<open>
  The in-memory connection of \<open>refl/rpc/connection/inmemory_pipe.hxx\<close>: two endpoints, each a
  \<open>std::streambuf\<close> with a put and a get area of 2048 bytes, and two shared pipes, each a
  \<open>circular_queue<char>\<close>. Endpoint \<open>e\<close> reads from pipe \<open>e\<close> and writes to pipe \<open>peer e\<close>. The virtual
  functions \<open>overflow\<close>, \<open>underflow\<close> and \<open>sync\<close> are the code's; \<open>sputc\<close> and \<open>sbumpc\<close> are those
  of the standard library on top of them. A wait that nothing can end yet is \<open>None\<close>: the caller
  blocks. Every operation runs under the lock of the pipe it touches, so it is one step.

  The properties: bytes arrive in order and without loss whatever the buffering does, a waiting
  receiver is signalled, and what \<open>close\<close> fails to do.
\<close>

section \<open>State\<close>

datatype side = A | B

fun peer :: "side \<Rightarrow> side" where
  "peer A = B"
| "peer B = A"

lemma peer_simps [simp]: "peer (peer e) = e" "peer e \<noteq> e" "e \<noteq> peer e"
  by (cases e; simp)+

lemma peer_inj [simp]: "peer d = peer e \<longleftrightarrow> d = e"
  by (cases d; cases e; simp)

lemma peer_iff: "d = peer e \<longleftrightarrow> d \<noteq> e"
  by (cases d; cases e; simp)

record pipe =
  strm :: "byte cq"
  total :: nat
  receiver :: "side option"

record endpoint =
  obuf :: "byte list"          \<comment> \<open>\<open>[pbase, pptr)\<close>\<close>
  put_room :: nat              \<comment> \<open>\<open>epptr - pbase\<close>, 0 before the first \<open>setp\<close>\<close>
  ibuf :: "byte list"          \<comment> \<open>\<open>[gptr, egptr)\<close>\<close>
  no_signal :: bool

record world =
  pipes :: "side \<Rightarrow> pipe"
  ends :: "side \<Rightarrow> endpoint"

definition buf_size :: nat where "buf_size = 2048"

definition create :: world where
  "create = \<lparr>pipes = (\<lambda>p. \<lparr>strm = cq_new 1024, total = 0, receiver = Some p\<rparr>),
             ends = (\<lambda>e. \<lparr>obuf = [], put_room = 0, ibuf = [], no_signal = True\<rparr>)\<rparr>"

definition upd_pipe :: "side \<Rightarrow> (pipe \<Rightarrow> pipe) \<Rightarrow> world \<Rightarrow> world" where
  "upd_pipe p f w = w\<lparr>pipes := (pipes w)(p := f (pipes w p))\<rparr>"

definition upd_end :: "side \<Rightarrow> (endpoint \<Rightarrow> endpoint) \<Rightarrow> world \<Rightarrow> world" where
  "upd_end e f w = w\<lparr>ends := (ends w)(e := f (ends w e))\<rparr>"

lemma upd_simps [simp]:
  "pipes (upd_pipe p f w) = (pipes w)(p := f (pipes w p))"
  "ends (upd_pipe p f w) = ends w"
  "ends (upd_end e g w) = (ends w)(e := g (ends w e))"
  "pipes (upd_end e g w) = pipes w"
  by (simp_all add: upd_pipe_def upd_end_def)

section \<open>Operations\<close>

text \<open>
  \<open>_do_sync\<close> answers whether it succeeded and which endpoint it signalled. The critical section
  is the body handed to \<open>notify_one\<close>; an error of the queue would escape from it.
\<close>

definition send_block :: "byte cq \<Rightarrow> byte list \<Rightarrow> cq_error + byte cq" where
  "send_block q block =
     (case (if q_capacity q - q_size q < length block
            then reserve_shrink q (max (q_capacity q * 2) (q_capacity q + length block))
            else Some (Inr q)) of
        Some r \<Rightarrow> bindE r (\<lambda>q. enqueue_n Trivial q block)
      | None \<Rightarrow> Inl Assert_count)"

definition do_sync :: "side \<Rightarrow> world \<Rightarrow> cq_error + (bool \<times> side option) \<times> world" where
  "do_sync e w =
     (let block = obuf (ends w e); out = pipes w (peer e);
          setp = upd_end e (\<lambda>s. s\<lparr>obuf := [], put_room := buf_size\<rparr>)
      in if block \<noteq> []
         then (case receiver out of
            None \<Rightarrow> Inr ((False, None), w)
          | Some r \<Rightarrow>
              bindE (send_block (strm out) block) (\<lambda>q.
                let w1 = upd_pipe (peer e) (\<lambda>p. p\<lparr>strm := q, total := total p + length block\<rparr>) w;
                    recv = (if \<not> no_signal (ends w1 r) then Some r else None);
                    w2 = upd_end r (\<lambda>s. s\<lparr>no_signal := True\<rparr>) w1
                in Inr ((True, recv), setp w2)))
         else Inr ((True, None), setp w))"

definition overflow :: "side \<Rightarrow> byte \<Rightarrow> world \<Rightarrow> cq_error + (bool \<times> side option) \<times> world" where
  "overflow e c w =
     bindE (do_sync e w) (\<lambda>((ok, recv), w).
       if \<not> ok then Inr ((False, recv), w)
       else Inr ((True, recv), upd_end e (\<lambda>s. s\<lparr>obuf := obuf s @ [c]\<rparr>) w))"

definition sputc :: "side \<Rightarrow> byte \<Rightarrow> world \<Rightarrow> cq_error + (bool \<times> side option) \<times> world" where
  "sputc e c w =
     (if length (obuf (ends w e)) < put_room (ends w e)
      then Inr ((True, None), upd_end e (\<lambda>s. s\<lparr>obuf := obuf s @ [c]\<rparr>) w)
      else overflow e c w)"

datatype got = Byte byte | Eof

definition underflow :: "side \<Rightarrow> world \<Rightarrow> (cq_error + got \<times> world) option" where
  "underflow e w =
     (let inp = pipes w e; expired = (receiver inp = None) in
      if expired then Some (Inr (Eof, w))
      else if q_empty (strm inp) then None
      else let nread = min buf_size (q_size (strm inp)) in
        Some (bindE (dequeue_n_trivial (strm inp) nread) (\<lambda>(bs, q).
          Inr (Byte (hd bs), upd_end e (\<lambda>s. s\<lparr>ibuf := bs\<rparr>) (upd_pipe e (\<lambda>p. p\<lparr>strm := q\<rparr>) w)))))"

definition sbumpc :: "side \<Rightarrow> world \<Rightarrow> (cq_error + got \<times> world) option" where
  "sbumpc e w =
     (case ibuf (ends w e) of
        c # rest \<Rightarrow> Some (Inr (Byte c, upd_end e (\<lambda>s. s\<lparr>ibuf := rest\<rparr>) w))
      | [] \<Rightarrow> map_option (\<lambda>r. bindE r (\<lambda>(g, w).
          case g of Eof \<Rightarrow> Inr (Eof, w)
          | Byte c \<Rightarrow> Inr (Byte c, upd_end e (\<lambda>s. s\<lparr>ibuf := tl (ibuf s)\<rparr>) w))) (underflow e w))"

text \<open>The answer of \<open>start_data_receive\<close> is whether \<open>on_data_receive\<close> was called at once.\<close>

definition start_data_receive :: "side \<Rightarrow> world \<Rightarrow> bool \<times> world" where
  "start_data_receive e w =
     (if \<not> q_empty (strm (pipes w e)) \<or> ibuf (ends w e) \<noteq> [] then (True, w)
      else (False, upd_end e (\<lambda>s. s\<lparr>no_signal := False\<rparr>) w))"

text \<open>Both critical sections of \<open>close\<close> write to the receiver of \<open>_in\<close>.\<close>

definition close :: "side \<Rightarrow> world \<Rightarrow> world" where
  "close e w = upd_pipe e (\<lambda>p. p\<lparr>receiver := None\<rparr>) (upd_pipe e (\<lambda>p. p\<lparr>receiver := None\<rparr>) w)"

definition get_total_rw :: "side \<Rightarrow> world \<Rightarrow> nat \<times> nat" where
  "get_total_rw e w = (total (pipes w e), total (pipes w (peer e)))"

section \<open>Runs\<close>

text \<open>
  A run of the two endpoints and the history of what each of them has been told: bytes whose
  \<open>sputc\<close> succeeded, bytes returned by \<open>sbumpc\<close>, and the endpoints signalled.
\<close>

datatype action = Put side byte | Sync side | Get side | Start side | Close side

record history =
  sent :: "side \<Rightarrow> byte list"
  received :: "side \<Rightarrow> byte list"
  signals :: "side list"

inductive pipe_step :: "action \<Rightarrow> world \<times> history \<Rightarrow> world \<times> history \<Rightarrow> bool" where
  Put: "sputc e c w = Inr ((ok, recv), w') \<Longrightarrow>
    pipe_step (Put e c) (w, h) (w', h\<lparr>sent := (sent h)(e := sent h e @ (if ok then [c] else [])),
      signals := signals h @ (case recv of None \<Rightarrow> [] | Some r \<Rightarrow> [r])\<rparr>)"
| Sync: "do_sync e w = Inr ((ok, recv), w') \<Longrightarrow>
    pipe_step (Sync e) (w, h) (w', h\<lparr>signals := signals h @ (case recv of None \<Rightarrow> [] | Some r \<Rightarrow> [r])\<rparr>)"
| Get: "sbumpc e w = Some (Inr (g, w')) \<Longrightarrow>
    pipe_step (Get e) (w, h) (w', h\<lparr>received := (received h)(e := received h e @ (case g of Byte c \<Rightarrow> [c] | Eof \<Rightarrow> []))\<rparr>)"
| Start: "start_data_receive e w = (now, w') \<Longrightarrow>
    pipe_step (Start e) (w, h) (w', h\<lparr>signals := signals h @ (if now then [e] else [])\<rparr>)"
| Close: "pipe_step (Close e) (w, h) (close e w, h)"

inductive_cases pipe_stepE [elim!]:
  "pipe_step (Put e c) (w, h) s'"
  "pipe_step (Sync e) (w, h) s'"
  "pipe_step (Get e) (w, h) s'"
  "pipe_step (Start e) (w, h) s'"
  "pipe_step (Close e) (w, h) s'"

inductive reachable :: "world \<times> history \<Rightarrow> bool" where
  init: "reachable (create, \<lparr>sent = (\<lambda>_. []), received = (\<lambda>_. []), signals = []\<rparr>)"
| step: "reachable s \<Longrightarrow> pipe_step a s s' \<Longrightarrow> reachable s'"

section \<open>Invariants\<close>

definition world_inv :: "world \<Rightarrow> bool" where
  "world_inv w \<longleftrightarrow> (\<forall>p. cq_inv (strm (pipes w p)) \<and> q_capacity (strm (pipes w p)) > 0
       \<and> (receiver (pipes w p) = None \<or> receiver (pipes w p) = Some p))
     \<and> (\<forall>e. length (obuf (ends w e)) \<le> put_room (ends w e) \<and> put_room (ends w e) \<le> buf_size)"

definition in_flight :: "world \<Rightarrow> side \<Rightarrow> byte list" where
  "in_flight w e = ibuf (ends w e) @ q_list (strm (pipes w e)) @ obuf (ends w (peer e))"

text \<open>A receiver that waits for a signal has nothing to read.\<close>

definition armed_empty :: "world \<Rightarrow> bool" where
  "armed_empty w \<longleftrightarrow> (\<forall>e. no_signal (ends w e) \<or> q_list (strm (pipes w e)) = [])"

lemma create_inv: "world_inv create" "in_flight create e = []" "armed_empty create"
  by (simp_all add: world_inv_def create_def in_flight_def armed_empty_def)

lemma send_block_ok:
  assumes "cq_inv q" "q_capacity q > 0"
  shows "\<exists>q'. send_block q block = Inr q' \<and> cq_inv q' \<and> q_list q' = q_list q @ block \<and> q_capacity q' > 0"
  using ring.lossless_append [OF assms, of block] by (auto simp: send_block_def)

lemma world_inv_receiver: "world_inv w \<Longrightarrow> receiver (pipes w p) = Some r \<Longrightarrow> r = p"
  by (metis option.distinct(1) option.inject world_inv_def)

text \<open>\<open>_do_sync\<close> of an endpoint, on both answers.\<close>

lemma do_sync_ok:
  assumes inv: "world_inv w"
  obtains ok recv w' where "do_sync e w = Inr ((ok, recv), w')" "world_inv w'"
    "\<And>d. in_flight w' d = in_flight w d" "armed_empty w \<Longrightarrow> armed_empty w'"
    "ok \<Longrightarrow> obuf (ends w' e) = [] \<and> put_room (ends w' e) = buf_size"
    "\<not> ok \<Longrightarrow> w' = w"
    "ok \<longleftrightarrow> obuf (ends w e) = [] \<or> receiver (pipes w (peer e)) \<noteq> None"
    "\<And>d. receiver (pipes w' d) = receiver (pipes w d)"
    "recv = (if ok \<and> obuf (ends w e) \<noteq> [] \<and> \<not> no_signal (ends w (peer e)) then Some (peer e) else None)"
proof (cases "obuf (ends w e) = []")
  case True
  then show ?thesis
    using inv by (intro that [of True None "upd_end e (\<lambda>s. s\<lparr>obuf := [], put_room := buf_size\<rparr>) w"]) (auto simp: do_sync_def Let_def world_inv_def in_flight_def armed_empty_def)
next
  case ne: False
  show ?thesis
  proof (cases "receiver (pipes w (peer e))")
    case None
    with ne inv show ?thesis by (intro that [of False None w]) (auto simp: do_sync_def Let_def)
  next
    case (Some r)
    then have r: "r = peer e" using world_inv_receiver [OF inv] by simp
    obtain q where q: "send_block (strm (pipes w (peer e))) (obuf (ends w e)) = Inr q" "cq_inv q"
      "q_list q = q_list (strm (pipes w (peer e))) @ obuf (ends w e)" "q_capacity q > 0"
      using send_block_ok inv unfolding world_inv_def by blast
    show ?thesis
      using ne Some r q inv
      by (intro that [of True "if \<not> no_signal (ends w (peer e)) then Some (peer e) else None"
            "upd_end e (\<lambda>s. s\<lparr>obuf := [], put_room := buf_size\<rparr>)
              (upd_end (peer e) (\<lambda>s. s\<lparr>no_signal := True\<rparr>)
                (upd_pipe (peer e) (\<lambda>p. p\<lparr>strm := q, total := total p + length (obuf (ends w e))\<rparr>) w))"])
        (auto simp: do_sync_def Let_def world_inv_def in_flight_def armed_empty_def)
  qed
qed

lemma buf_size_pos [simp]: "buf_size > 0"
  by (simp add: buf_size_def)

lemma put_byte_inv:
  fixes c :: byte
  assumes "world_inv w" "length (obuf (ends w e)) < put_room (ends w e)"
  defines "w' \<equiv> upd_end e (\<lambda>s. s\<lparr>obuf := obuf s @ [c]\<rparr>) w"
  shows "world_inv w'" "in_flight w' d = in_flight w d @ (if d = (peer e) then [c] else [])"
    "armed_empty w \<Longrightarrow> armed_empty w'"
  using assms by (auto simp: world_inv_def in_flight_def armed_empty_def)

lemma sputc_ok:
  assumes inv: "world_inv w"
  obtains ok recv w' where "sputc e c w = Inr ((ok, recv), w')" "world_inv w'"
    "\<And>d. in_flight w' d = in_flight w d @ (if ok \<and> d = (peer e) then [c] else [])"
    "armed_empty w \<Longrightarrow> armed_empty w'"
    "ok \<longleftrightarrow> length (obuf (ends w e)) < put_room (ends w e) \<or> obuf (ends w e) = []
            \<or> receiver (pipes w (peer e)) \<noteq> None"
proof (cases "length (obuf (ends w e)) < put_room (ends w e)")
  case True
  with put_byte_inv [OF inv True, of c] show ?thesis
    by (intro that [of True None "upd_end e (\<lambda>s. s\<lparr>obuf := obuf s @ [c]\<rparr>) w"]) (auto simp: sputc_def)
next
  case False
  obtain ok recv w1 where s: "do_sync e w = Inr ((ok, recv), w1)" "world_inv w1"
    "\<And>d. in_flight w1 d = in_flight w d" "armed_empty w \<Longrightarrow> armed_empty w1"
    "ok \<Longrightarrow> obuf (ends w1 e) = [] \<and> put_room (ends w1 e) = buf_size" "\<not> ok \<Longrightarrow> w1 = w"
    "ok \<longleftrightarrow> obuf (ends w e) = [] \<or> receiver (pipes w (peer e)) \<noteq> None"
    using do_sync_ok [OF inv, of e] by metis
  show ?thesis
  proof (cases ok)
    case True
    then have "length (obuf (ends w1 e)) < put_room (ends w1 e)" using s(5) by simp
    from put_byte_inv [OF s(2) this, of c] s True False show ?thesis
      by (intro that [of True recv "upd_end e (\<lambda>s. s\<lparr>obuf := obuf s @ [c]\<rparr>) w1"])
        (auto simp: sputc_def overflow_def)
  next
    case ok: False
    with s inv False show ?thesis
      by (intro that [of False recv w]) (auto simp: sputc_def overflow_def)
  qed
qed

lemma underflow_ok:
  assumes inv: "world_inv w" and i: "ibuf (ends w e) = []"
    and r: "receiver (pipes w e) \<noteq> None" and ne: "q_list (strm (pipes w e)) \<noteq> []"
  obtains w' where "underflow e w = Some (Inr (Byte (hd (q_list (strm (pipes w e)))), w'))" "world_inv w'"
    "\<And>d. in_flight w' d = in_flight w d" "armed_empty w \<Longrightarrow> armed_empty w'"
    "ibuf (ends w' e) = take buf_size (q_list (strm (pipes w e)))"
    "\<And>d. receiver (pipes w' d) = receiver (pipes w d)"
proof -
  let ?q = "strm (pipes w e)"
  have q: "cq_inv ?q" "q_capacity ?q > 0" using inv by (auto simp: world_inv_def)
  obtain q' where q': "dequeue_n_trivial ?q (min buf_size (q_size ?q)) = Inr (take buf_size (q_list ?q), q')"
    "cq_inv q'" "q_list q' = drop buf_size (q_list ?q)" "q_capacity q' = q_capacity ?q"
    using ring.take_upto [OF q(1), of buf_size] by auto
  show ?thesis
    using r ne i q q' inv
    by (intro that [of "upd_end e (\<lambda>s. s\<lparr>ibuf := take buf_size (q_list ?q)\<rparr>) (upd_pipe e (\<lambda>p. p\<lparr>strm := q'\<rparr>) w)"])
      (auto simp: underflow_def Let_def q_list_Nil_iff world_inv_def in_flight_def armed_empty_def)
qed

text \<open>What \<open>sbumpc\<close> answers: the next byte in flight, end of file, or it blocks.\<close>

lemma sbumpc_cases:
  assumes inv: "world_inv w"
  obtains (byte) c w' where "sbumpc e w = Some (Inr (Byte c, w'))" "world_inv w'"
      "in_flight w e = c # in_flight w' e" "\<And>d. d \<noteq> e \<Longrightarrow> in_flight w' d = in_flight w d"
      "armed_empty w \<Longrightarrow> armed_empty w'"
    | (eof) "sbumpc e w = Some (Inr (Eof, w))" "ibuf (ends w e) = []" "receiver (pipes w e) = None"
    | (block) "sbumpc e w = None" "ibuf (ends w e) = []" "q_list (strm (pipes w e)) = []"
        "receiver (pipes w e) \<noteq> None"
proof (cases "ibuf (ends w e)")
  case (Cons c rest)
  then show ?thesis using inv
    by (intro byte [of c "upd_end e (\<lambda>s. s\<lparr>ibuf := rest\<rparr>) w"])
      (auto simp: sbumpc_def world_inv_def in_flight_def armed_empty_def)
next
  case i: Nil
  have qi: "cq_inv (strm (pipes w e))" using inv by (simp add: world_inv_def)
  consider "receiver (pipes w e) = None" | "receiver (pipes w e) \<noteq> None" "q_list (strm (pipes w e)) = []"
    | "receiver (pipes w e) \<noteq> None" "q_list (strm (pipes w e)) \<noteq> []" by blast
  then show ?thesis
  proof cases
    case 1
    then show ?thesis using i by (intro eof) (auto simp: sbumpc_def underflow_def)
  next
    case 2
    then show ?thesis using i qi by (intro block) (auto simp: sbumpc_def underflow_def q_list_Nil_iff)
  next
    case 3
    obtain w1 where w1: "underflow e w = Some (Inr (Byte (hd (q_list (strm (pipes w e)))), w1))" "world_inv w1"
      "\<And>d. in_flight w1 d = in_flight w d" "armed_empty w \<Longrightarrow> armed_empty w1"
      "ibuf (ends w1 e) = take buf_size (q_list (strm (pipes w e)))"
      using underflow_ok [OF inv i 3] by metis
    from w1(5) 3(2) have i1: "ibuf (ends w1 e) = hd (q_list (strm (pipes w e))) # tl (ibuf (ends w1 e))"
      by (cases "q_list (strm (pipes w e))") (simp_all add: buf_size_def)
    let ?w = "upd_end e (\<lambda>s. s\<lparr>ibuf := tl (ibuf s)\<rparr>) w1"
    show ?thesis
    proof (rule byte)
      show "sbumpc e w = Some (Inr (Byte (hd (q_list (strm (pipes w e)))), ?w))"
        using i w1(1) by (simp add: sbumpc_def)
      show "world_inv ?w" using w1(2) by (auto simp: world_inv_def)
      have "in_flight w1 e = hd (q_list (strm (pipes w e))) # in_flight ?w e"
        unfolding in_flight_def by (subst i1) simp
      then show "in_flight w e = hd (q_list (strm (pipes w e))) # in_flight ?w e"
        by (simp add: w1(3))
      show "in_flight ?w d = in_flight w d" if "d \<noteq> e" for d
        using that w1(3) [of d] by (auto simp: in_flight_def)
      show "armed_empty ?w" if "armed_empty w"
        using w1(4) [OF that] by (auto simp: armed_empty_def)
    qed
  qed
qed

lemma start_ok:
  assumes "world_inv w" "start_data_receive e w = (now, w')"
  shows "world_inv w'" "in_flight w' d = in_flight w d" "armed_empty w \<Longrightarrow> armed_empty w'"
  using assms
  by (auto simp: start_data_receive_def world_inv_def in_flight_def armed_empty_def q_list_Nil_iff split: if_splits)

lemma close_ok:
  assumes "world_inv w"
  shows "world_inv (close e w)" "in_flight (close e w) d = in_flight w d" "armed_empty w \<Longrightarrow> armed_empty (close e w)"
  using assms by (auto simp: close_def world_inv_def in_flight_def armed_empty_def)

definition run_inv :: "world \<times> history \<Rightarrow> bool" where
  "run_inv s \<longleftrightarrow> (case s of (w, h) \<Rightarrow> world_inv w \<and> armed_empty w
     \<and> (\<forall>e. received h e @ in_flight w e = sent h (peer e)))"

lemma step_inv:
  assumes "pipe_step a s s'" "run_inv s"
  shows "run_inv s'"
  using assms
proof cases
  case (Put e c w ok recv w' h)
  with assms(2) have inv: "world_inv w" by (simp add: run_inv_def)
  obtain ok1 recv1 w1 where "sputc e c w = Inr ((ok1, recv1), w1)" "world_inv w1"
    "\<And>d. in_flight w1 d = in_flight w d @ (if ok1 \<and> d = peer e then [c] else [])"
    "armed_empty w \<Longrightarrow> armed_empty w1"
    by (rule sputc_ok [OF inv, of e c]) blast
  with Put assms(2) show ?thesis
    by (simp add: run_inv_def) (simp add: peer_iff flip: append.assoc)
next
  case (Sync e w ok recv w' h)
  with assms(2) have inv: "world_inv w" by (simp add: run_inv_def)
  obtain ok1 recv1 w1 where "do_sync e w = Inr ((ok1, recv1), w1)" "world_inv w1"
    "\<And>d. in_flight w1 d = in_flight w d" "armed_empty w \<Longrightarrow> armed_empty w1"
    by (rule do_sync_ok [OF inv, of e]) blast
  with Sync assms(2) show ?thesis by (simp add: run_inv_def)
next
  case (Get e w g w' h)
  with assms(2) have inv: "world_inv w" by (simp add: run_inv_def)
  from inv show ?thesis
  proof (cases rule: sbumpc_cases [where e = e])
    case (byte c w1)
    then have "received h d @ in_flight w d = sent h (peer d)" for d
      using Get assms(2) by (simp add: run_inv_def)
    with byte Get assms(2) show ?thesis
      by (auto simp: run_inv_def) metis
  qed (use Get assms(2) in \<open>auto simp: run_inv_def\<close>)
next
  case (Start e w now w' h)
  with start_ok [of w e now w'] assms(2) show ?thesis by (simp add: run_inv_def)
next
  case (Close e w h)
  with close_ok [of w e] assms(2) show ?thesis by (simp add: run_inv_def)
qed

lemma reachable_inv: "reachable s \<Longrightarrow> run_inv s"
proof (induction rule: reachable.induct)
  case (step s a s')
  then show ?case using step_inv by blast
qed (simp add: run_inv_def create_inv)

section \<open>After a close\<close>

text \<open>Runs from any state, and what the operations leave as it is.\<close>

inductive pipe_run :: "action list \<Rightarrow> world \<times> history \<Rightarrow> world \<times> history \<Rightarrow> bool" where
  stop: "pipe_run [] s s"
| go: "pipe_step a s s1 \<Longrightarrow> pipe_run as s1 s' \<Longrightarrow> pipe_run (a # as) s s'"

lemma pipe_run_reachable: "pipe_run as s s' \<Longrightarrow> reachable s \<Longrightarrow> reachable s'"
  by (induction rule: pipe_run.induct) (auto intro: reachable.step)

lemma do_sync_frame:
  assumes "do_sync d w = Inr ((ok, recv), w')"
  shows "receiver (pipes w' p) = receiver (pipes w p)" "ibuf (ends w' p) = ibuf (ends w p)"
    "p \<noteq> peer d \<Longrightarrow> strm (pipes w' p) = strm (pipes w p)"
  using assms by (auto simp: do_sync_def Let_def split: if_splits option.splits)

lemma sputc_frame:
  assumes "sputc d c w = Inr ((ok, recv), w')"
  shows "receiver (pipes w' p) = receiver (pipes w p)" "ibuf (ends w' p) = ibuf (ends w p)"
    "p \<noteq> peer d \<Longrightarrow> strm (pipes w' p) = strm (pipes w p)"
  using assms by (auto simp: sputc_def overflow_def do_sync_frame split: if_splits)

lemma underflow_frame:
  assumes "underflow d w = Some (Inr (g, w'))"
  shows "receiver (pipes w' p) = receiver (pipes w p)" "p \<noteq> d \<Longrightarrow> ibuf (ends w' p) = ibuf (ends w p)"
    "p \<noteq> d \<Longrightarrow> strm (pipes w' p) = strm (pipes w p)"
  using assms by (auto simp: underflow_def Let_def split: if_split_asm)

lemma sbumpc_frame:
  assumes "sbumpc d w = Some (Inr (g, w'))"
  shows "receiver (pipes w' p) = receiver (pipes w p)" "p \<noteq> d \<Longrightarrow> ibuf (ends w' p) = ibuf (ends w p)"
    "p \<noteq> d \<Longrightarrow> strm (pipes w' p) = strm (pipes w p)"
proof -
  have "receiver (pipes w' p) = receiver (pipes w p) \<and> (p \<noteq> d \<longrightarrow> ibuf (ends w' p) = ibuf (ends w p) \<and> strm (pipes w' p) = strm (pipes w p))"
  proof (cases "ibuf (ends w d)")
    case Nil
    then obtain g1 w1 where u: "underflow d w = Some (Inr (g1, w1))" using assms by (auto simp: sbumpc_def)
    then show ?thesis using assms Nil underflow_frame [OF u] by (cases g1) (auto simp: sbumpc_def)
  next
    case (Cons c rest)
    then show ?thesis using assms by (auto simp: sbumpc_def)
  qed
  then show "receiver (pipes w' p) = receiver (pipes w p)" "p \<noteq> d \<Longrightarrow> ibuf (ends w' p) = ibuf (ends w p)"
    "p \<noteq> d \<Longrightarrow> strm (pipes w' p) = strm (pipes w p)" by simp_all
qed

lemma start_frame:
  "start_data_receive d w = (now, w') \<Longrightarrow> pipes w' = pipes w \<and> ibuf (ends w' p) = ibuf (ends w p)"
  by (auto simp: start_data_receive_def split: if_splits)

text \<open>The side \<open>e\<close> has closed and its peer has not been told; and there is nothing for the peer to read.\<close>

definition untold :: "side \<Rightarrow> world \<Rightarrow> bool" where
  "untold e w \<longleftrightarrow> receiver (pipes w e) = None \<and> receiver (pipes w (peer e)) \<noteq> None"

definition starved :: "side \<Rightarrow> world \<Rightarrow> bool" where
  "starved e w \<longleftrightarrow> untold e w \<and> ibuf (ends w (peer e)) = [] \<and> q_empty (strm (pipes w (peer e)))"

definition writes :: "side \<Rightarrow> action \<Rightarrow> bool" where
  "writes e a \<longleftrightarrow> a = Sync e \<or> (\<exists>c. a = Put e c)"

lemma untold_step:
  assumes "pipe_step a (w, h) (w', h')" "a \<noteq> Close (peer e)" "untold e w"
  shows "untold e w'"
  using assms
proof cases
  case (Start d now)
  then show ?thesis using assms(3) start_frame by (simp add: untold_def)
next
  case (Close d)
  then show ?thesis using assms(2,3) by (auto simp: untold_def close_def peer_iff)
qed (auto simp: untold_def do_sync_frame(1) sputc_frame(1) sbumpc_frame(1))

lemma starved_step:
  assumes "pipe_step a (w, h) (w', h')" "a \<noteq> Close (peer e)" "\<not> writes e a" "starved e w"
  shows "starved e w'"
proof -
  have u: "untold e w'" using untold_step [OF assms(1,2)] assms(4) by (simp add: starved_def)
  from assms(1) show ?thesis
  proof cases
    case (Put d c ok recv)
    then have "peer e \<noteq> peer d" using assms(3) by (auto simp: writes_def)
    then show ?thesis using sputc_frame [OF Put(3)] assms(4) u by (simp add: starved_def)
  next
    case (Sync d ok recv)
    then have "peer e \<noteq> peer d" using assms(3) by (auto simp: writes_def)
    then show ?thesis using do_sync_frame [OF Sync(3)] assms(4) u by (simp add: starved_def)
  next
    case (Get d g)
    then have "peer e \<noteq> d" using assms(4) by (auto simp: starved_def untold_def sbumpc_def underflow_def)
    then show ?thesis using sbumpc_frame [OF Get(3)] assms(4) u by (simp add: starved_def)
  next
    case (Start d now)
    then show ?thesis using start_frame [OF Start(3)] assms(4) u by (simp add: starved_def)
  next
    case (Close d)
    then show ?thesis using assms(4) u by (auto simp: starved_def close_def)
  qed
qed

lemma pipe_run_untold: "pipe_run as s s' \<Longrightarrow> Close (peer e) \<notin> set as \<Longrightarrow> untold e (fst s) \<Longrightarrow> untold e (fst s')"
  by (induction rule: pipe_run.induct) (auto, metis untold_step)

lemma pipe_run_starved:
  "pipe_run as s s' \<Longrightarrow> Close (peer e) \<notin> set as \<Longrightarrow> list_all (\<lambda>a. \<not> writes e a) as \<Longrightarrow> starved e (fst s) \<Longrightarrow> starved e (fst s')"
  by (induction rule: pipe_run.induct) (auto, metis starved_step)

section \<open>A short run\<close>

text \<open>One endpoint writes a byte, the other asks for a signal.\<close>

definition run1_world :: world where
  "run1_world = upd_end A (\<lambda>s. s\<lparr>obuf := [65], put_room := buf_size\<rparr>) create"

definition run1_history :: history where
  "run1_history = \<lparr>sent = (\<lambda>_. [])(A := [65]), received = (\<lambda>_. []), signals = []\<rparr>"

definition run2_world :: world where
  "run2_world = upd_end B (\<lambda>s. s\<lparr>no_signal := False\<rparr>) run1_world"

lemma run1_put: "sputc A 65 create = Inr ((True, None), run1_world)"
  by (simp add: run1_world_def create_def sputc_def overflow_def do_sync_def Let_def upd_end_def fun_eq_iff)

lemma run1_reachable: "reachable (run1_world, run1_history)"
proof -
  have "pipe_step (Put A 65) (create, \<lparr>sent = (\<lambda>_. []), received = (\<lambda>_. []), signals = []\<rparr>)
      (run1_world, run1_history)"
    using Put [OF run1_put, of "\<lparr>sent = (\<lambda>_. []), received = (\<lambda>_. []), signals = []\<rparr>"]
    by (simp add: run1_history_def)
  then show ?thesis by (rule reachable.step [OF reachable.init])
qed

lemma run2_reachable: "reachable (run2_world, run1_history)"
proof -
  have "start_data_receive B run1_world = (False, run2_world)"
    by (simp add: start_data_receive_def run2_world_def run1_world_def create_def upd_end_def)
  from Start [OF this, of run1_history] have "pipe_step (Start B) (run1_world, run1_history) (run2_world, run1_history)"
    by simp
  then show ?thesis by (rule reachable.step [OF run1_reachable])
qed

lemma run_ends [simp]:
  "obuf (ends run1_world A) = [65]" "ibuf (ends run1_world e) = []" "obuf (ends run1_world B) = []"
  "q_list (strm (pipes run1_world e)) = []" "receiver (pipes run1_world e) = Some e"
  "q_empty (strm (pipes run1_world e))"
  "obuf (ends run2_world A) = [65]" "\<not> no_signal (ends run2_world B)"
  "receiver (pipes run2_world e) = Some e" "q_list (strm (pipes run2_world e)) = []"
  by (simp_all add: run1_world_def run2_world_def create_def)

section \<open>Properties\<close>

text \<open>C2: the pipe is a lossless FIFO in both directions. Whatever the interleaving of writes,
  flushes, reads and closings, the bytes an endpoint has read, followed by those in its get area,
  in the queue and in the peer's put area, are the bytes the peer's writes accepted.\<close>

theorem pipe_fifo:
  assumes "reachable (w, h)"
  shows "received h e @ ibuf (ends w e) @ q_list (strm (pipes w e)) @ obuf (ends w (peer e)) = sent h (peer e)"
  using reachable_inv [OF assms] by (simp add: run_inv_def in_flight_def)

theorem pipe_fifo_witness:
  "received run1_history B @ ibuf (ends run1_world B) @ q_list (strm (pipes run1_world B))
     @ obuf (ends run1_world A) = [65]"
  using pipe_fifo [OF run1_reachable, of B] by (simp add: run1_history_def)

text \<open>No reachable operation fails an assertion of the queue: a write either accepts its byte
  or reports failure because the other side is closed, and a read answers the next byte, end of
  file after a \<open>close\<close>, or blocks on an empty pipe.\<close>

theorem pipe_total:
  assumes "reachable (w, h)"
  shows "(\<exists>ok recv w'. sputc e c w = Inr ((ok, recv), w') \<and> (ok \<or> receiver (pipes w (peer e)) = None))
    \<and> (case sbumpc e w of
         None \<Rightarrow> ibuf (ends w e) @ q_list (strm (pipes w e)) = [] \<and> receiver (pipes w e) \<noteq> None
       | Some (Inr (Eof, w')) \<Rightarrow> ibuf (ends w e) = [] \<and> receiver (pipes w e) = None
       | Some (Inr (Byte b, w')) \<Rightarrow> ibuf (ends w e) @ q_list (strm (pipes w e)) @ obuf (ends w (peer e))
           = b # ibuf (ends w' e) @ q_list (strm (pipes w' e)) @ obuf (ends w' (peer e))
       | Some (Inl _) \<Rightarrow> False)"
proof -
  have inv: "world_inv w" using reachable_inv [OF assms] by (simp add: run_inv_def)
  have "\<exists>ok recv w'. sputc e c w = Inr ((ok, recv), w') \<and> (ok \<or> receiver (pipes w (peer e)) = None)"
    by (rule sputc_ok [OF inv, of e c]) auto
  moreover from inv have "case sbumpc e w of
         None \<Rightarrow> ibuf (ends w e) @ q_list (strm (pipes w e)) = [] \<and> receiver (pipes w e) \<noteq> None
       | Some (Inr (Eof, w')) \<Rightarrow> ibuf (ends w e) = [] \<and> receiver (pipes w e) = None
       | Some (Inr (Byte b, w')) \<Rightarrow> ibuf (ends w e) @ q_list (strm (pipes w e)) @ obuf (ends w (peer e))
           = b # ibuf (ends w' e) @ q_list (strm (pipes w' e)) @ obuf (ends w' (peer e))
       | Some (Inl _) \<Rightarrow> False"
    by (cases rule: sbumpc_cases [where e = e]) (simp_all add: in_flight_def)
  ultimately show ?thesis by blast
qed

theorem pipe_total_witness:
  "(\<exists>ok recv w'. sputc A 66 run1_world = Inr ((ok, recv), w') \<and> ok)
   \<and> (case sbumpc B run1_world of Some (Inr (Eof, _)) \<Rightarrow> False | _ \<Rightarrow> True)"
  using pipe_total [OF run1_reachable, of A 66] pipe_total [OF run1_reachable, of B 66]
  by (auto split: option.splits sum.splits got.splits)

text \<open>No wake-up is lost. An endpoint whose flag asks for a signal has an empty pipe, and the
  write of the peer that makes it non-empty is the one that signals it and resets the flag.\<close>

theorem pipe_no_lost_wakeup:
  assumes "reachable (w, h)" and "\<not> no_signal (ends w e)"
  shows "q_list (strm (pipes w e)) = []
    \<and> (obuf (ends w (peer e)) = [] \<or> receiver (pipes w e) = None
       \<or> (\<exists>w'. do_sync (peer e) w = Inr ((True, Some e), w') \<and> q_list (strm (pipes w' e)) = obuf (ends w (peer e))))"
proof -
  have inv: "world_inv w" and a: "armed_empty w"
    using reachable_inv [OF assms(1)] by (auto simp: run_inv_def)
  have empty: "q_list (strm (pipes w e)) = []" using a assms(2) by (auto simp: armed_empty_def)
  moreover have "\<exists>w'. do_sync (peer e) w = Inr ((True, Some e), w') \<and> q_list (strm (pipes w' e)) = obuf (ends w (peer e))"
    if "obuf (ends w (peer e)) \<noteq> []" "receiver (pipes w e) \<noteq> None"
  proof -
    have "receiver (pipes w e) = Some e" using that world_inv_receiver [OF inv, of e] by auto
    moreover obtain q where "send_block (strm (pipes w e)) (obuf (ends w (peer e))) = Inr q"
      "q_list q = q_list (strm (pipes w e)) @ obuf (ends w (peer e))"
      using send_block_ok inv unfolding world_inv_def by metis
    ultimately show ?thesis
      using that assms(2) empty by (auto simp: do_sync_def Let_def)
  qed
  ultimately show ?thesis by blast
qed

theorem pipe_no_lost_wakeup_witness:
  "\<exists>w'. do_sync A run2_world = Inr ((True, Some B), w') \<and> q_list (strm (pipes w' B)) = [65]"
  using pipe_no_lost_wakeup [OF run2_reachable, of B] by simp

text \<open>What a reader flushes, the peer reads: after a successful \<open>sync\<close> the peer's read of a
  non-empty pipe does not block.\<close>

theorem pipe_sync_delivers:
  assumes "reachable (w, h)" and "obuf (ends w e) = c # cs" and "receiver (pipes w (peer e)) \<noteq> None"
  shows "\<exists>recv w' b w''. do_sync e w = Inr ((True, recv), w') \<and> sbumpc (peer e) w' = Some (Inr (Byte b, w''))
    \<and> b = hd (in_flight w (peer e))"
proof -
  have inv: "world_inv w" using reachable_inv [OF assms(1)] by (simp add: run_inv_def)
  obtain ok recv w' where s1: "do_sync e w = Inr ((ok, recv), w')" "world_inv w'"
    "\<And>d. in_flight w' d = in_flight w d" "ok \<Longrightarrow> obuf (ends w' e) = [] \<and> put_room (ends w' e) = buf_size"
    "ok \<longleftrightarrow> obuf (ends w e) = [] \<or> receiver (pipes w (peer e)) \<noteq> None"
    "\<And>d. receiver (pipes w' d) = receiver (pipes w d)"
    by (rule do_sync_ok [OF inv, of e]) blast
  with assms(3) have s: "do_sync e w = Inr ((True, recv), w')" "world_inv w'" "\<And>d. in_flight w' d = in_flight w d"
      "obuf (ends w' e) = []" "receiver (pipes w' (peer e)) \<noteq> None"
    by simp_all
  have "in_flight w (peer e) \<noteq> []" using assms(2) by (simp add: in_flight_def)
  with s have ne: "ibuf (ends w' (peer e)) @ q_list (strm (pipes w' (peer e))) \<noteq> []"
    using s(3) [of "peer e"] by (simp add: in_flight_def)
  from s(2) show ?thesis
  proof (cases rule: sbumpc_cases [where e = "peer e"])
    case (byte b w'')
    then have "b = hd (in_flight w (peer e))" using s(3) [of "peer e"] by simp
    with byte(1) s(1) show ?thesis by blast
  qed (use s(5) ne in simp_all)
qed

theorem pipe_sync_delivers_witness:
  "\<exists>recv w' w''. do_sync A run1_world = Inr ((True, recv), w') \<and> sbumpc B w' = Some (Inr (Byte 65, w''))"
  using pipe_sync_delivers [OF run1_reachable, of A 65 "[]"] by (auto simp: in_flight_def)

text \<open>C25: \<open>close\<close> does not tell the peer. It invalidates the receiver of the incoming pipe twice
  and leaves that of the outgoing one. So in every further run in which the peer does not close its own end, and
  whatever both ends do in it: the peer never reads end of file; its flush of a non-empty put area fails; a flush of
  the closed side succeeds. As long as the closed side writes and flushes nothing any more, a peer that has nothing left
  to read blocks.\<close>

theorem pipe_close_blocks_peer:
  assumes "reachable (w, h)" and "receiver (pipes w (peer e)) \<noteq> None"
    and "pipe_run as (close e w, h) (w', h')" and "Close (peer e) \<notin> set as"
  shows "(\<forall>w''. sbumpc (peer e) w' \<noteq> Some (Inr (Eof, w'')))
    \<and> (obuf (ends w' (peer e)) \<noteq> [] \<longrightarrow> do_sync (peer e) w' = Inr ((False, None), w'))
    \<and> (\<exists>recv w''. do_sync e w' = Inr ((True, recv), w''))
    \<and> (ibuf (ends w (peer e)) = [] \<and> q_empty (strm (pipes w (peer e))) \<and> list_all (\<lambda>a. \<not> writes e a) as
        \<longrightarrow> sbumpc (peer e) w' = None)"
proof (intro conjI impI)
  have "reachable (close e w, h)" by (rule reachable.step [OF assms(1) pipe_step.Close])
  then have inv: "world_inv w'" using reachable_inv [OF pipe_run_reachable [OF assms(3)]] by (simp add: run_inv_def)
  have u: "untold e w'" using pipe_run_untold [OF assms(3)] assms(2,4) by (simp add: untold_def close_def)
  show "\<forall>w''. sbumpc (peer e) w' \<noteq> Some (Inr (Eof, w''))"
    by (cases rule: sbumpc_cases [OF inv, where e = "peer e"]) (use u in \<open>simp_all add: untold_def\<close>)
  show "do_sync (peer e) w' = Inr ((False, None), w')" if "obuf (ends w' (peer e)) \<noteq> []"
    using that u by (simp add: do_sync_def Let_def untold_def)
  show "\<exists>recv w''. do_sync e w' = Inr ((True, recv), w'')"
    by (rule do_sync_ok [OF inv, of e]) (use u in \<open>auto simp: untold_def\<close>)
  show "sbumpc (peer e) w' = None"
    if "ibuf (ends w (peer e)) = [] \<and> q_empty (strm (pipes w (peer e))) \<and> list_all (\<lambda>a. \<not> writes e a) as"
  proof -
    have "starved e w'" using pipe_run_starved [OF assms(3)] that assms(2,4) by (simp add: starved_def untold_def close_def)
    then show ?thesis by (auto simp: starved_def untold_def sbumpc_def underflow_def Let_def)
  qed
qed

theorem pipe_close_blocks_peer_witness:
  "sbumpc B (snd (start_data_receive B (close A run1_world))) = None
   \<and> (\<exists>recv w'. do_sync A (snd (start_data_receive B (close A run1_world))) = Inr ((True, recv), w'))"
proof -
  obtain b w1 where s: "start_data_receive B (close A run1_world) = (b, w1)" by fastforce
  obtain h1 where "pipe_run [Start B] (close A run1_world, run1_history) (w1, h1)"
    using pipe_run.go [OF pipe_step.Start [OF s] pipe_run.stop] by blast
  from pipe_close_blocks_peer [OF run1_reachable, of A, OF _ this [simplified]] show ?thesis by (simp add: s writes_def)
qed

end
