(* ===== verification/Msgpack_Format.thy ===== *)
theory Msgpack_Format
  imports Cpph_Prelude
begin

text \<open>
  What the MessagePack writer and reader share: the type codes of \<open>archive/detail/msgpack.hxx\<close>
  with their values, the classification of a header byte (\<open>reader::_typecode\<close>), and integers as
  big-endian byte strings.
\<close>

section \<open>Type codes\<close>

datatype typecode =
    Positive_fixint | Negative_fixint | Fixmap | Fixarray | Fixstr
  | Error | Nil_code | Bool_false | Bool_true | Bin8 | Bin16 | Bin32
  | Float32 | Float64 | Uint8 | Uint16 | Uint32 | Uint64 | Int8 | Int16 | Int32 | Int64
  | Fixext1 | Fixext2 | Fixext4 | Fixext8 | Fixext16 | Ext8 | Ext16 | Ext32
  | Str8 | Str16 | Str32 | Array16 | Array32 | Map16 | Map32

fun code :: "typecode \<Rightarrow> byte" where
  "code Positive_fixint = 0x00"
| "code Negative_fixint = 0xe0"
| "code Fixmap = 0x80"
| "code Fixarray = 0x90"
| "code Fixstr = 0xa0"
| "code Error = 0xc1"
| "code Nil_code = 0xc0"
| "code Bool_false = 0xc2"
| "code Bool_true = 0xc3"
| "code Bin8 = 0xc4"
| "code Bin16 = 0xc5"
| "code Bin32 = 0xc6"
| "code Float32 = 0xca"
| "code Float64 = 0xcb"
| "code Uint8 = 0xcc"
| "code Uint16 = 0xcd"
| "code Uint32 = 0xce"
| "code Uint64 = 0xcf"
| "code Int8 = 0xd0"
| "code Int16 = 0xd1"
| "code Int32 = 0xd2"
| "code Int64 = 0xd3"
| "code Fixext1 = 0xd4"
| "code Fixext2 = 0xd5"
| "code Fixext4 = 0xd6"
| "code Fixext8 = 0xd7"
| "code Fixext16 = 0xd8"
| "code Ext8 = 0xc7"
| "code Ext16 = 0xc8"
| "code Ext32 = 0xc9"
| "code Str8 = 0xd9"
| "code Str16 = 0xda"
| "code Str32 = 0xdb"
| "code Array16 = 0xdc"
| "code Array32 = 0xdd"
| "code Map16 = 0xde"
| "code Map32 = 0xdf"

text \<open>The codes from \<open>0xc0\<close> to \<open>0xdf\<close>, for the cast of a byte to the enumeration.\<close>

definition single_codes :: "typecode list" where
  "single_codes =
     [Nil_code, Error, Bool_false, Bool_true, Bin8, Bin16, Bin32, Ext8, Ext16, Ext32,
      Float32, Float64, Uint8, Uint16, Uint32, Uint64, Int8, Int16, Int32, Int64,
      Fixext1, Fixext2, Fixext4, Fixext8, Fixext16, Str8, Str16, Str32, Array16, Array32, Map16, Map32]"

definition typecode_of :: "byte \<Rightarrow> typecode" where
  "typecode_of v =
     (let n = unat v div 16 in
      if n = 12 \<or> n = 13 then single_codes ! (unat v - 0xc0)
      else if n = 9 then Fixarray
      else if n = 8 then Fixmap
      else if n = 14 \<or> n = 15 then Negative_fixint
      else if n = 10 \<or> n = 11 then Fixstr
      else Positive_fixint)"

definition single_code :: "typecode \<Rightarrow> bool" where
  "single_code t \<longleftrightarrow> t \<in> set single_codes"

lemma typecode_of_code: "typecode_of (code t) = t"
  by (cases t) (simp_all add: typecode_of_def single_codes_def)

text \<open>Headers that carry a value in their low bits.\<close>

lemma typecode_of_ranges:
  "unat v < 128 \<Longrightarrow> typecode_of v = Positive_fixint"
  "unat v \<ge> 224 \<Longrightarrow> typecode_of v = Negative_fixint"
  "128 \<le> unat v \<Longrightarrow> unat v < 144 \<Longrightarrow> typecode_of v = Fixmap"
  "144 \<le> unat v \<Longrightarrow> unat v < 160 \<Longrightarrow> typecode_of v = Fixarray"
  "160 \<le> unat v \<Longrightarrow> unat v < 192 \<Longrightarrow> typecode_of v = Fixstr"
proof -
  have q: "unat v div 16 = q" if "16 * q \<le> unat v" "unat v < 16 * Suc q" for q
    using that by (intro div_nat_eqI) (simp_all add: mult.commute)
  note lt = unat_byte_less [of v]
  show "typecode_of v = Positive_fixint" if "unat v < 128"
  proof -
    have "unat v div 16 < 8" using that by (simp add: less_mult_imp_div_less)
    then show ?thesis by (simp add: typecode_of_def Let_def)
  qed
  show "typecode_of v = Negative_fixint" if "unat v \<ge> 224"
    using q [of 14] q [of 15] that lt by (cases "unat v < 240") (simp_all add: typecode_of_def Let_def)
  show "typecode_of v = Fixmap" if "128 \<le> unat v" "unat v < 144"
    using q [of 8] that by (simp add: typecode_of_def Let_def)
  show "typecode_of v = Fixarray" if "144 \<le> unat v" "unat v < 160"
    using q [of 9] that by (simp add: typecode_of_def Let_def)
  show "typecode_of v = Fixstr" if "160 \<le> unat v" "unat v < 192"
    using q [of 10] q [of 11] that by (cases "unat v < 176") (simp_all add: typecode_of_def Let_def)
qed

text \<open>A code whose low bits are zero, combined with a value below that bit.\<close>

lemma or_low: "n < 2 ^ k \<Longrightarrow> 2 ^ k dvd unat c \<Longrightarrow> n < 256 \<Longrightarrow> unat (c OR of_nat n :: byte) = unat c + n"
  using nat_or_disjoint [of n k "unat c"] by (simp add: unsigned_or_eq unat_of_nat)

section \<open>Big-endian integers\<close>

definition be :: "nat \<Rightarrow> nat \<Rightarrow> byte list" where
  "be k n = map (\<lambda>i. of_nat (n div 256 ^ (k - 1 - i))) [0..<k]"

fun be_val :: "nat \<Rightarrow> byte list \<Rightarrow> nat" where
  "be_val acc [] = acc"
| "be_val acc (b # bs) = be_val (256 * acc + unat b) bs"

lemma length_be [simp]: "length (be k n) = k"
  by (simp add: be_def)

lemma be_Suc: "be (Suc k) n = of_nat (n div 256 ^ k) # be k n"
proof -
  have "map (\<lambda>i. of_nat (n div 256 ^ (Suc k - 1 - i)) :: byte) [Suc 0..<Suc k]
      = map (\<lambda>i. of_nat (n div 256 ^ (k - 1 - i))) [0..<k]"
    by (simp add: map_Suc_upt [symmetric] del: upt_Suc)
  then show ?thesis unfolding be_def by (subst upt_conv_Cons) (simp_all del: upt_Suc)
qed

lemma be_0 [simp]: "be 0 n = []"
  by (simp add: be_def)

lemma be_val_be: "be_val acc (be k n) = acc * 256 ^ k + n mod 256 ^ k"
proof (induction k arbitrary: acc)
  case (Suc k)
  have "n mod (256 ^ k * 256) = 256 ^ k * (n div 256 ^ k mod 256) + n mod 256 ^ k"
    by (rule mod_mult2_eq)
  then show ?case
    by (simp add: be_Suc Suc.IH unat_of_nat algebra_simps)
qed simp

lemma be_val_append: "be_val acc (xs @ ys) = be_val (be_val acc xs) ys"
  by (induction acc xs rule: be_val.induct) simp_all

end
