(* ===== verification/Write_Context.thy ===== *)
theory Write_Context
  imports Cpph_Prelude
begin

text \<open>
  \<open>write_context_helper\<close> of \<open>refl/archive/detail/context_helper.hxx\<close>, the stack of open scopes
  that the MessagePack and JSON writers consult before each write. A scope counts the entities
  written (\<open>size\<close>: in an object keys and values both count) against the announced \<open>capacity\<close>;
  an object alternates key and value, and \<open>key_ready\<close> is set between \<open>write_key_next\<close> and the
  key. The head of the list is \<open>_scopes.back()\<close>. A call that throws keeps the state it had
  reached, as the code does.

  Both counters are a \<open>size_t\<close>: they are natural numbers here and every sum and product is taken
  modulo \<open>2 ^ 64\<close> (\<open>size_t\<close>).

  The lemmas describe each call on each kind of top scope; the properties say what the helper
  guarantees of a finished scope, and one check it lacks.
\<close>

section \<open>State\<close>

datatype scope_type = Invalid | Object | Array | Binary

datatype writer_error = Key_expected | Key_not_announced | Value_expected | Empty_scope
  | Out_of_range | Not_filled | Size_exceeds_32bit

record wscope =
  wtype :: scope_type
  key_ready :: bool
  size :: nat
  capacity :: nat

definition size_t :: "nat \<Rightarrow> nat" where
  "size_t n = n mod 2 ^ 64"

lemma size_t_small [simp]: "n < 2 ^ 64 \<Longrightarrow> size_t n = n"
  by (simp add: size_t_def)

lemma size_t_even: "even (size_t (n * 2))"
  by (simp add: size_t_def dvd_mod_iff)

type_synonym 'a ctx = "wscope list \<Rightarrow> (writer_error + 'a) \<times> wscope list"

definition is_key_next :: "wscope \<Rightarrow> bool" where
  "is_key_next e \<longleftrightarrow> (if wtype e = Object then even (size e) else False)"

definition is_key_current :: "wscope \<Rightarrow> bool" where
  "is_key_current e \<longleftrightarrow> (if wtype e = Object then odd (size e) else False)"

record write_directive =
  is_key :: bool
  need_comma :: bool
  need_indent :: bool

definition directive :: "bool \<Rightarrow> bool \<Rightarrow> bool \<Rightarrow> write_directive" where
  "directive k c i = \<lparr>is_key = k, need_comma = c, need_indent = i\<rparr>"

section \<open>Operations\<close>

definition assert_scope_not_empty :: "unit ctx" where
  "assert_scope_not_empty ss = (if ss = [] then (Inl Empty_scope, ss) else (Inr (), ss))"

definition assert_value_context :: "unit ctx" where
  "assert_value_context ss =
     (case ss of [] \<Rightarrow> (Inr (), ss)
      | e # _ \<Rightarrow> if is_key_current e then (Inl Value_expected, ss) else (Inr (), ss))"

definition assert_scope_size_valid :: "unit ctx" where
  "assert_scope_size_valid ss =
     (case ss of [] \<Rightarrow> (Inr (), ss)
      | e # _ \<Rightarrow> if size e > capacity e then (Inl Out_of_range, ss) else (Inr (), ss))"

definition assert_top_scope_finished :: "scope_type \<Rightarrow> unit ctx" where
  "assert_top_scope_finished t =
     seqE assert_scope_not_empty (\<lambda>_. seqE assert_scope_size_valid (\<lambda>_ ss.
       if size (hd ss) < capacity (hd ss) then (Inl Not_filled, ss) else (Inr (), ss)))"

definition upd_top :: "(wscope \<Rightarrow> wscope) \<Rightarrow> wscope list \<Rightarrow> wscope list" where
  "upd_top f ss = (case ss of [] \<Rightarrow> [] | e # r \<Rightarrow> f e # r)"

definition write_key_next :: "bool ctx" where
  "write_key_next =
     seqE assert_scope_not_empty (\<lambda>_ ss.
       let elem = hd ss in
       if \<not> is_key_next elem then (Inl Key_expected, ss)
       else seqE (updE (upd_top (\<lambda>e. e\<lparr>size := size_t (size e + 1), key_ready := True\<rparr>))) (\<lambda>_.
            seqE assert_scope_size_valid (\<lambda>_. retE (size elem > 0))) ss)"

definition write_value_next :: "bool ctx" where
  "write_value_next ss =
     (case ss of [] \<Rightarrow> (Inr False, ss)
      | e # _ \<Rightarrow>
        let comma_required = (wtype e \<noteq> Object \<and> size e > 0) in
        seqE (updE (upd_top (\<lambda>e. e\<lparr>size := size_t (size e + 1)\<rparr>))) (\<lambda>_.
        seqE assert_scope_size_valid (\<lambda>_. retE comma_required)) ss)"

definition write_next :: "write_directive ctx" where
  "write_next ss =
     (case ss of [] \<Rightarrow> (Inr (directive False False False), ss)
      | e # _ \<Rightarrow>
        if wtype e \<noteq> Object then seqE write_value_next (\<lambda>c. retE (directive False c True)) ss
        else if is_key_current e then
          if key_ready e
          then seqE (updE (upd_top (\<lambda>e. e\<lparr>key_ready := False\<rparr>))) (\<lambda>_. retE (directive True (size e > 2) True)) ss
          else seqE write_value_next (\<lambda>_. retE (directive False False False)) ss
        else (Inl Key_not_announced, ss))"

definition is_key_context :: "wscope list \<Rightarrow> bool" where
  "is_key_context ss =
     (case ss of [] \<Rightarrow> False | e # _ \<Rightarrow> if wtype e \<noteq> Object then False else is_key_current e)"

definition push_scope :: "scope_type \<Rightarrow> nat \<Rightarrow> wscope list \<Rightarrow> wscope list" where
  "push_scope t n ss = \<lparr>wtype = t, key_ready = False, size = 0, capacity = size_t n\<rparr> # ss"

definition push_array :: "nat \<Rightarrow> unit ctx" where
  "push_array n = seqE assert_value_context (\<lambda>_. updE (push_scope Array n))"

definition push_object :: "nat \<Rightarrow> unit ctx" where
  "push_object n = seqE assert_value_context (\<lambda>_. updE (push_scope Object (n * 2)))"

definition push_binary :: "nat \<Rightarrow> unit ctx" where
  "push_binary n = updE (push_scope Binary n)"

definition ctx_binary_write_some :: "nat \<Rightarrow> unit ctx" where
  "ctx_binary_write_some n =
     seqE assert_scope_not_empty (\<lambda>_. seqE (updE (upd_top (\<lambda>e. e\<lparr>size := size_t (size e + n)\<rparr>))) (\<lambda>_.
       assert_scope_size_valid))"

definition pop_size :: "nat ctx" where
  "pop_size ss = (Inr (size (hd ss)), tl ss)"

definition pop_array :: "nat ctx" where
  "pop_array = seqE (assert_top_scope_finished Array) (\<lambda>_. pop_size)"

definition pop_object :: "nat ctx" where
  "pop_object = seqE (assert_top_scope_finished Object) (\<lambda>_. seqE pop_size (\<lambda>rv. retE (rv div 2)))"

definition pop_binary :: "nat ctx" where
  "pop_binary = seqE (assert_top_scope_finished Binary) (\<lambda>_. pop_size)"

lemmas ctx_defs =
  assert_scope_not_empty_def assert_value_context_def assert_scope_size_valid_def
  assert_top_scope_finished_def upd_top_def write_key_next_def write_value_next_def write_next_def
  push_array_def push_object_def push_binary_def push_scope_def ctx_binary_write_some_def
  pop_size_def pop_array_def pop_object_def pop_binary_def seqE_def updE_def retE_def directive_def
  is_key_next_def is_key_current_def

section \<open>Scopes in use\<close>

text \<open>Constructors for the scopes a correct caller works with.\<close>

definition arr :: "nat \<Rightarrow> nat \<Rightarrow> wscope" where
  "arr i n = \<lparr>wtype = Array, key_ready = False, size = i, capacity = n\<rparr>"

definition obj :: "bool \<Rightarrow> nat \<Rightarrow> nat \<Rightarrow> wscope" where
  "obj k i n = \<lparr>wtype = Object, key_ready = k, size = i, capacity = n * 2\<rparr>"

definition bin :: "nat \<Rightarrow> nat \<Rightarrow> wscope" where
  "bin i n = \<lparr>wtype = Binary, key_ready = False, size = i, capacity = n\<rparr>"

text \<open>A stack on which the next write is a value, and the stack after that value.\<close>

definition value_ready :: "wscope list \<Rightarrow> bool" where
  "value_ready ss = (case ss of [] \<Rightarrow> True
     | e # _ \<Rightarrow> size e < capacity e \<and> capacity e < 2 ^ 64
       \<and> (wtype e = Array \<or> wtype e = Object \<and> odd (size e) \<and> \<not> key_ready e))"

definition after_value :: "wscope list \<Rightarrow> wscope list" where
  "after_value = upd_top (\<lambda>e. e\<lparr>size := size e + 1\<rparr>)"

lemma write_next_value:
  "value_ready ss \<Longrightarrow> \<exists>d. write_next ss = (Inr d, after_value ss)"
  by (cases ss) (auto simp: value_ready_def after_value_def ctx_defs)

lemma push_after_value:
  "value_ready ss \<Longrightarrow> n < 2 ^ 64 \<Longrightarrow> push_array n (after_value ss) = (Inr (), arr 0 n # after_value ss)"
  "value_ready ss \<Longrightarrow> n * 2 < 2 ^ 64 \<Longrightarrow> push_object n (after_value ss) = (Inr (), obj False 0 n # after_value ss)"
  "n < 2 ^ 64 \<Longrightarrow> push_binary n ss = (Inr (), bin 0 n # ss)"
  by (cases ss; auto simp: value_ready_def after_value_def ctx_defs arr_def obj_def bin_def)+

lemma value_ready_obj [simp]: "value_ready (obj k i n # ss) \<longleftrightarrow> odd i \<and> \<not> k \<and> i < n * 2 \<and> n * 2 < 2 ^ 64"
  by (auto simp: value_ready_def obj_def)

lemma value_ready_arr [simp]: "value_ready (arr i n # ss) \<longleftrightarrow> i < n \<and> n < 2 ^ 64"
  by (simp add: value_ready_def arr_def)

lemma value_ready_Nil [simp]: "value_ready []"
  by (simp add: value_ready_def)

lemma after_value_simps [simp]:
  "after_value [] = []"
  "after_value (arr i n # ss) = arr (Suc i) n # ss"
  "after_value (obj k i n # ss) = obj k (Suc i) n # ss"
  by (simp_all add: after_value_def upd_top_def arr_def obj_def)

lemma announce_key:
  assumes "even i" "i < n * 2" "n * 2 < 2 ^ 64"
  shows "\<exists>c. write_key_next (obj False i n # ss) = (Inr c, obj True (Suc i) n # ss)"
  using assms by (auto simp: ctx_defs obj_def)

lemma write_announced:
  assumes "even i" "i < n * 2"
  shows "\<exists>d. write_next (obj True (Suc i) n # ss) = (Inr d, obj False (Suc i) n # ss)"
  using assms by (auto simp: ctx_defs obj_def)

lemma pop_finished:
  "pop_array (arr n n # ss) = (Inr n, ss)"
  "pop_object (obj k (n * 2) n # ss) = (Inr n, ss)"
  "pop_binary (bin n n # ss) = (Inr n, ss)"
  by (simp_all add: ctx_defs arr_def obj_def bin_def)

lemma binary_write_ok:
  "i + k \<le> n \<Longrightarrow> n < 2 ^ 64 \<Longrightarrow> ctx_binary_write_some k (bin i n # ss) = (Inr (), bin (i + k) n # ss)"
  by (simp add: ctx_defs bin_def)

section \<open>Runs of the context\<close>

text \<open>The calls of the helper as labels, and the stack after a run; a run may continue after a throw.\<close>

datatype ctx_call = Write_key_next | Write_next | Push_array nat | Push_object nat | Push_binary nat
  | Binary_write nat | Pop_array | Pop_object | Pop_binary

definition outcome :: "(writer_error + 'a) \<times> wscope list \<Rightarrow> (writer_error + unit) \<times> wscope list" where
  "outcome r = (map_sum id (\<lambda>_. ()) (fst r), snd r)"

fun ctx_run :: "ctx_call \<Rightarrow> unit ctx" where
  "ctx_run Write_key_next ss = outcome (write_key_next ss)"
| "ctx_run Write_next ss = outcome (write_next ss)"
| "ctx_run (Push_array n) ss = push_array n ss"
| "ctx_run (Push_object n) ss = push_object n ss"
| "ctx_run (Push_binary n) ss = push_binary n ss"
| "ctx_run (Binary_write n) ss = ctx_binary_write_some n ss"
| "ctx_run Pop_array ss = outcome (pop_array ss)"
| "ctx_run Pop_object ss = outcome (pop_object ss)"
| "ctx_run Pop_binary ss = outcome (pop_binary ss)"

text \<open>The invariant of every stack reached without a throw: nothing is overfull.\<close>

definition scope_ok :: "wscope \<Rightarrow> bool" where
  "scope_ok e \<longleftrightarrow> wtype e \<noteq> Invalid \<and> size e \<le> capacity e \<and> (wtype e = Object \<longrightarrow> even (capacity e))"

lemma assert_size_ok: "assert_scope_size_valid ss = (Inr (), ss') \<longleftrightarrow> ss' = ss \<and> (ss = [] \<or> size (hd ss) \<le> capacity (hd ss))"
  by (cases ss) (auto simp: assert_scope_size_valid_def)

lemma ctx_run_ok:
  assumes "list_all scope_ok ss" "ctx_run c ss = (Inr (), ss')"
  shows "list_all scope_ok ss'"
  using assms
  by (cases c; cases ss)
    (auto simp: outcome_def ctx_defs scope_ok_def size_t_even split: if_splits sum.splits)

fun ctx_runs :: "ctx_call list \<Rightarrow> unit ctx" where
  "ctx_runs [] = retE ()"
| "ctx_runs (c # cs) = seqE (ctx_run c) (\<lambda>_. ctx_runs cs)"

lemma ctx_runs_ok: "list_all scope_ok ss \<Longrightarrow> ctx_runs cs ss = (Inr (), ss') \<Longrightarrow> list_all scope_ok ss'"
  by (induction cs arbitrary: ss) (auto simp: seqE_eq_Inr retE_def dest: ctx_run_ok)

section \<open>The protocol of an object scope\<close>

definition entry_calls :: "ctx_call list" where
  "entry_calls = [Write_key_next, Write_next, Write_next]"

definition entries :: "nat \<Rightarrow> ctx_call list" where
  "entries n = concat (replicate n entry_calls)"

definition closes :: "ctx_call list \<Rightarrow> wscope list \<Rightarrow> nat \<Rightarrow> wscope list \<Rightarrow> bool" where
  "closes cs st n ss \<longleftrightarrow> seqE (ctx_runs cs) (\<lambda>_. pop_object) st = (Inr n, ss)"

lemma closes_Nil: "closes [] (obj k i n # ss) n ss \<longleftrightarrow> i = n * 2"
  by (auto simp: closes_def ctx_defs obj_def split: if_splits)

lemma closes_step:
  "ctx_run c st = (Inr (), st') \<Longrightarrow> closes (c # cs) st n ss = closes cs st' n ss"
  "ctx_run c st = (Inl e, st') \<Longrightarrow> closes (c # cs) st n ss = False"
  by (simp_all add: closes_def seqE_def)

lemma obj_calls:
  "i < n \<Longrightarrow> n < 2 ^ 63 \<Longrightarrow> ctx_run Write_key_next (obj False (2 * i) n # ss) = (Inr (), obj True (Suc (2 * i)) n # ss)"
  "n < 2 ^ 63 \<Longrightarrow> fst (ctx_run Write_key_next (obj False (2 * n) n # ss)) = Inl Out_of_range"
  "fst (ctx_run Write_key_next (obj k (Suc (2 * i)) n # ss)) = Inl Key_expected"
  "fst (ctx_run Write_next (obj k (2 * i) n # ss)) = Inl Key_not_announced"
  "ctx_run Write_next (obj True (Suc (2 * i)) n # ss) = (Inr (), obj False (Suc (2 * i)) n # ss)"
  "i < n \<Longrightarrow> n < 2 ^ 63 \<Longrightarrow> ctx_run Write_next (obj False (Suc (2 * i)) n # ss) = (Inr (), obj False (2 * Suc i) n # ss)"
  by (auto simp: outcome_def ctx_defs obj_def)

lemma closes_obj:
  assumes "set cs \<subseteq> {Write_key_next, Write_next}" and n: "n < 2 ^ 63"
  shows "(i \<le> n \<longrightarrow> closes cs (obj False (2 * i) n # ss) n ss = (cs = entries (n - i)))
    \<and> (i < n \<longrightarrow> closes cs (obj True (Suc (2 * i)) n # ss) n ss = (cs = Write_next # Write_next # entries (n - Suc i)))
    \<and> (i < n \<longrightarrow> closes cs (obj False (Suc (2 * i)) n # ss) n ss = (cs = Write_next # entries (n - Suc i)))"
  using assms(1)
proof (induction cs arbitrary: i)
  case Nil
  have "n * 2 \<noteq> Suc (2 * i)" by presburger
  moreover have "i \<le> n \<Longrightarrow> entries (n - i) = [] \<longleftrightarrow> i = n"
    by (cases "n - i") (auto simp: entries_def entry_calls_def)
  ultimately show ?case by (auto simp: closes_Nil)
next
  case (Cons c cs)
  then have sub: "set cs \<subseteq> {Write_key_next, Write_next}" and c: "c = Write_key_next \<or> c = Write_next" by auto
  note IH = Cons.IH [OF sub]
  have fail: "fst (ctx_run c st) = Inl e \<Longrightarrow> \<not> closes (c # cs) st n ss" for st e
    using closes_step(2) [of c st e] by (metis prod.collapse)
  have ent: "entries (n - i) = Write_key_next # Write_next # Write_next # entries (n - Suc i)" if "i < n"
  proof -
    from that have "n - i = Suc (n - Suc i)" by simp
    then show ?thesis by (simp add: entries_def entry_calls_def)
  qed
  have e0: "entries 0 = []" by (simp add: entries_def)
  show ?case
  proof (intro conjI impI)
    assume i: "i \<le> n"
    show "closes (c # cs) (obj False (2 * i) n # ss) n ss = (c # cs = entries (n - i))"
    proof (cases "c = Write_key_next \<and> i < n")
      case True
      then show ?thesis using IH [of i] by (simp add: closes_step(1) [OF obj_calls(1) [OF _ n]] ent)
    next
      case False
      with c i consider "c = Write_key_next" "i = n" | "c = Write_next" by fastforce
      then show ?thesis
      proof cases
        case 1
        then show ?thesis using fail [of "obj False (2 * n) n # ss" Out_of_range] obj_calls(2) [OF n] by (simp add: e0)
      next
        case 2
        moreover have "c # cs \<noteq> entries (n - i)"
          using 2 i ent e0 by (cases "i = n") auto
        ultimately show ?thesis using fail [of "obj False (2 * i) n # ss" Key_not_announced] obj_calls(4) by simp
      qed
    qed
  next
    assume i: "i < n"
    show "closes (c # cs) (obj True (Suc (2 * i)) n # ss) n ss = (c # cs = Write_next # Write_next # entries (n - Suc i))"
    proof (cases "c = Write_next")
      case True
      with IH [of i] i show ?thesis by (simp add: closes_step(1) [OF obj_calls(5)] del: ctx_run.simps)
    next
      case False
      with c show ?thesis using fail [of "obj True (Suc (2 * i)) n # ss" Key_expected] obj_calls(3) by simp
    qed
    show "closes (c # cs) (obj False (Suc (2 * i)) n # ss) n ss = (c # cs = Write_next # entries (n - Suc i))"
    proof (cases "c = Write_next")
      case True
      with IH [of "Suc i"] i show ?thesis by (simp add: closes_step(1) [OF obj_calls(6) [OF _ n]] del: ctx_run.simps)
    next
      case False
      with c show ?thesis using fail [of "obj False (Suc (2 * i)) n # ss" Key_expected] obj_calls(3) by simp
    qed
  qed
qed

text \<open>Without nested scopes, a run that gets to its end has closed the one scope with its announced number.\<close>

lemma flat_calls_top:
  assumes "c \<in> {Write_key_next, Write_next}" "ctx_run c [e] = (Inr (), st)"
  shows "\<exists>e'. st = [e'] \<and> capacity e' = capacity e \<and> (wtype e' = wtype e)"
  using assms by (auto simp: outcome_def ctx_defs split: if_splits sum.splits)

lemma flat_runs_top:
  "set cs \<subseteq> {Write_key_next, Write_next} \<Longrightarrow> ctx_runs cs [e] = (Inr (), st) \<Longrightarrow> \<exists>e'. st = [e'] \<and> capacity e' = capacity e"
proof (induction cs arbitrary: e)
  case (Cons c cs)
  then obtain s where s: "ctx_run c [e] = (Inr (), s)" "ctx_runs cs s = (Inr (), st)" by (auto simp: seqE_eq_Inr)
  obtain e' where "s = [e']" "capacity e' = capacity e" using flat_calls_top [OF _ s(1)] Cons.prems(1) by auto
  then show ?case using Cons.IH [of e'] s(2) Cons.prems(1) by auto
qed (auto simp: retE_def)

lemma closes_exactly:
  assumes "set cs \<subseteq> {Write_key_next, Write_next}" "seqE (ctx_runs cs) (\<lambda>_. pop_object) [obj k i n] = (Inr m, st)"
  shows "m = n \<and> st = []"
proof -
  obtain s where s: "ctx_runs cs [obj k i n] = (Inr (), s)" "pop_object s = (Inr m, st)" using assms(2) by (auto simp: seqE_eq_Inr)
  obtain e' where "s = [e']" "capacity e' = n * 2" using flat_runs_top [OF assms(1) s(1)] by (auto simp: obj_def)
  then show ?thesis using s(2) by (auto simp: ctx_defs split: if_splits)
qed

section \<open>Properties\<close>

text \<open>C20: the protocol of an object with fewer than \<open>2 ^ 63\<close> entries, whose announcement does not wrap around.
  A sequence of calls of \<open>write_key_next\<close> and \<open>write_next\<close> between \<open>push_object(n)\<close> and \<open>pop_object()\<close> is
  accepted and closes the scope exactly when it is \<open>n\<close> times an announcement, a key and a value; with every other
  sequence of these two calls one of the calls throws. From \<open>2 ^ 63\<close> on the announced number of entities is
  taken modulo \<open>2 ^ 64\<close>: the scope is closed at once for exactly \<open>2 ^ 63\<close>, and the announcement of a key throws.\<close>

theorem object_protocol:
  assumes "set cs \<subseteq> {Write_key_next, Write_next}"
  shows "(n < 2 ^ 63 \<longrightarrow>
      (if cs = entries n then seqE (push_object n) (\<lambda>_. seqE (ctx_runs cs) (\<lambda>_. pop_object)) [] = (Inr n, [])
       else \<exists>e. fst (seqE (push_object n) (\<lambda>_. seqE (ctx_runs cs) (\<lambda>_. pop_object)) []) = Inl e))
    \<and> seqE (push_object (2 ^ 63)) (\<lambda>_. pop_object) [] = (Inr 0, [])
    \<and> fst (seqE (push_object (2 ^ 63)) (\<lambda>_. write_key_next) []) = Inl Out_of_range"
proof (intro conjI impI)
  assume n: "n < 2 ^ 63"
  have p: "push_object n [] = (Inr (), obj False 0 n # [])"
    using n by (simp add: ctx_defs obj_def)
  show "if cs = entries n then seqE (push_object n) (\<lambda>_. seqE (ctx_runs cs) (\<lambda>_. pop_object)) [] = (Inr n, [])
       else \<exists>e. fst (seqE (push_object n) (\<lambda>_. seqE (ctx_runs cs) (\<lambda>_. pop_object)) []) = Inl e"
    using closes_obj [OF assms n, of 0 "[]"] closes_exactly [OF assms, of False 0 n] p
    by (cases "fst (seqE (ctx_runs cs) (\<lambda>_. pop_object) [obj False 0 n])")
      (auto simp: seqE_Inr closes_def prod_eq_iff)
qed (simp_all add: ctx_defs size_t_def)

theorem object_protocol_witness:
  "seqE (push_object 1) (\<lambda>_. seqE (ctx_runs [Write_key_next, Write_next, Write_next]) (\<lambda>_. pop_object)) [] = (Inr 1, [])
   \<and> (\<exists>e. fst (seqE (push_object 1) (\<lambda>_. seqE (ctx_runs [Write_next, Write_next]) (\<lambda>_. pop_object)) []) = Inl e)"
  using object_protocol [of "[Write_key_next, Write_next, Write_next]" 1] object_protocol [of "[Write_next, Write_next]" 1]
  by (simp add: entries_def entry_calls_def)

text \<open>After any run of calls that did not throw, a scope closes exactly when it holds the
  announced number of entities, and the closing call reports that number. The kind of the scope is
  not checked: \<open>pop_array\<close> closes an object, whatever type the assertion was given.\<close>

theorem pop_exactly_when_full:
  assumes "ctx_runs cs [] = (Inr (), e # ss)"
  shows "pop_array (e # ss) = (if size e = capacity e then (Inr (capacity e), ss) else (Inl Not_filled, e # ss))
    \<and> pop_object (e # ss) = (if size e = capacity e then (Inr (capacity e div 2), ss) else (Inl Not_filled, e # ss))
    \<and> pop_binary (e # ss) = pop_array (e # ss)"
proof -
  have "scope_ok e" using ctx_runs_ok [OF _ assms] by simp
  then show ?thesis by (auto simp: scope_ok_def ctx_defs)
qed

theorem pop_exactly_when_full_witness:
  "pop_array [obj False 2 1] = (Inr 2, [])"
proof -
  have "ctx_runs [Push_object 1, Write_key_next, Write_next, Write_next] [] = (Inr (), [obj False 2 1])"
    by (simp add: outcome_def ctx_defs obj_def)
  from pop_exactly_when_full [OF this] show ?thesis by (simp add: obj_def)
qed

end
