(* ===== verification/Msgpack_Writer.thy ===== *)
theory Msgpack_Writer
  imports Msgpack_Format Write_Context
begin

text \<open>
  The MessagePack writer of \<open>refl/archive/msgpack-writer.hxx\<close>: the stream as the list of bytes
  written, and the write context. Every \<open>write\<close> consults the context first, so a refused write
  puts nothing into the stream. The stream accepts every byte (a string or file buffer that has
  room); \<open>float\<close> and \<open>double\<close> arguments are their bit patterns. An \<open>int64_t\<close> is an \<open>int\<close> in
  range, \<open>_putbin\<close> writes it modulo its width.
\<close>

record mwriter =
  out :: "byte list"
  wscopes :: "wscope list"

type_synonym 'a mw = "mwriter \<Rightarrow> (writer_error + 'a) \<times> mwriter"

definition ctx :: "'a ctx \<Rightarrow> 'a mw" where
  "ctx f w = (case f (wscopes w) of (r, ss) \<Rightarrow> (r, w\<lparr>wscopes := ss\<rparr>))"

definition emit :: "byte list \<Rightarrow> unit mw" where
  "emit bs = updE (\<lambda>w. w\<lparr>out := out w @ bs\<rparr>)"

section \<open>Encoding primitives\<close>

definition putbin :: "nat \<Rightarrow> int \<Rightarrow> unit mw" where
  "putbin k val = emit (be k (nat (val mod 256 ^ k)))"

definition apoff :: "typecode \<Rightarrow> nat \<Rightarrow> unit mw" where
  "apoff c ofst = emit [code c + of_nat ofst]"

definition ap :: "typecode \<Rightarrow> unit mw" where
  "ap c = emit [code c]"

definition apm :: "nat \<Rightarrow> typecode \<Rightarrow> byte \<Rightarrow> unit mw" where
  "apm bits c value = emit [code c OR (value AND mask bits)]"

definition apsize_1 :: "typecode \<Rightarrow> u32 \<Rightarrow> unit mw" where
  "apsize_1 c sz =
     (if sz AND 0xffff0000 \<noteq> 0 then seqE (apoff c 2) (\<lambda>_. putbin 4 (uint sz))
      else if sz AND 0xff00 \<noteq> 0 then seqE (apoff c 1) (\<lambda>_. putbin 2 (uint sz))
      else seqE (apoff c 0) (\<lambda>_. putbin 1 (uint sz)))"

definition assert_32bitsize :: "nat \<Rightarrow> unit mw" where
  "assert_32bitsize n = (if n \<ge> 2 ^ 32 - 1 then throwE Size_exceeds_32bit else retE ())"

section \<open>Writes\<close>

definition write_int :: "int \<Rightarrow> unit mw" where
  "write_int value =
     seqE (ctx write_next) (\<lambda>_.
       if value \<ge> 0 then
         if value < 0x80 then apm 7 Positive_fixint (of_int value)
         else if value < 0x8000 then seqE (ap Int16) (\<lambda>_. putbin 2 value)
         else if value < 0x80000000 then seqE (ap Int32) (\<lambda>_. putbin 4 value)
         else seqE (ap Int64) (\<lambda>_. putbin 8 value)
       else
         if value \<ge> - 32 then apm 5 Negative_fixint (of_int value)
         else if value \<ge> - 0x8000 then seqE (ap Int16) (\<lambda>_. putbin 2 value)
         else if value \<ge> - 0x80000000 then seqE (ap Int32) (\<lambda>_. putbin 4 value)
         else seqE (ap Int64) (\<lambda>_. putbin 8 value))"

definition write_uint :: "nat \<Rightarrow> unit mw" where
  "write_uint value =
     seqE (ctx write_next) (\<lambda>_.
       if value < 0x80 then apm 7 Positive_fixint (of_nat value)
       else if value < 0x8000 then seqE (ap Uint16) (\<lambda>_. putbin 2 (int value))
       else if value < 0x80000000 then seqE (ap Uint32) (\<lambda>_. putbin 4 (int value))
       else seqE (ap Uint64) (\<lambda>_. putbin 8 (int value)))"

definition write_nil :: "unit mw" where
  "write_nil = seqE (ctx write_next) (\<lambda>_. ap Nil_code)"

definition write_bool :: "bool \<Rightarrow> unit mw" where
  "write_bool v = seqE (ctx write_next) (\<lambda>_. ap (if v then Bool_true else Bool_false))"

definition write_str :: "byte list \<Rightarrow> unit mw" where
  "write_str v =
     seqE (assert_32bitsize (length v)) (\<lambda>_.
     seqE (ctx write_next) (\<lambda>_.
     seqE (if length v < 32 then apm 5 Fixstr (of_nat (length v)) else apsize_1 Str8 (of_nat (length v))) (\<lambda>_.
     emit v)))"

definition write_float :: "u32 \<Rightarrow> unit mw" where
  "write_float v = seqE (ctx write_next) (\<lambda>_. seqE (ap Float32) (\<lambda>_. putbin 4 (uint v)))"

definition write_double :: "u64 \<Rightarrow> unit mw" where
  "write_double v = seqE (ctx write_next) (\<lambda>_. seqE (ap Float64) (\<lambda>_. putbin 8 (uint v)))"

section \<open>Containers\<close>

definition binary_push :: "nat \<Rightarrow> unit mw" where
  "binary_push total_bytes =
     seqE (assert_32bitsize total_bytes) (\<lambda>_. seqE (ctx write_next) (\<lambda>_. seqE (ctx (push_binary total_bytes)) (\<lambda>_.
       apsize_1 Bin8 (of_nat total_bytes))))"

definition binary_write_some :: "byte list \<Rightarrow> unit mw" where
  "binary_write_some view = seqE (ctx (ctx_binary_write_some (length view))) (\<lambda>_. emit view)"

definition binary_pop :: "unit mw" where
  "binary_pop = seqE (ctx pop_binary) (\<lambda>_. retE ())"

definition object_push :: "nat \<Rightarrow> unit mw" where
  "object_push num_elems =
     seqE (assert_32bitsize num_elems) (\<lambda>_.
     seqE (ctx write_next) (\<lambda>_. seqE (ctx (push_object num_elems)) (\<lambda>_.
       if num_elems < 16 then apm 4 Fixmap (of_nat num_elems)
       else if num_elems < 0x8000 then seqE (ap Map16) (\<lambda>_. putbin 2 (int num_elems))
       else seqE (ap Map32) (\<lambda>_. putbin 4 (int num_elems)))))"

definition object_pop :: "unit mw" where
  "object_pop = seqE (ctx pop_object) (\<lambda>_. retE ())"

definition array_push :: "nat \<Rightarrow> unit mw" where
  "array_push num_elems =
     seqE (assert_32bitsize num_elems) (\<lambda>_.
     seqE (ctx write_next) (\<lambda>_. seqE (ctx (push_array num_elems)) (\<lambda>_.
       if num_elems < 16 then apm 4 Fixarray (of_nat num_elems)
       else if num_elems < 0x8000 then seqE (ap Array16) (\<lambda>_. putbin 2 (int num_elems))
       else seqE (ap Array32) (\<lambda>_. putbin 4 (int num_elems)))))"

definition array_pop :: "unit mw" where
  "array_pop = seqE (ctx pop_array) (\<lambda>_. retE ())"

definition mw_write_key_next :: "unit mw" where
  "mw_write_key_next = seqE (ctx write_key_next) (\<lambda>_. retE ())"

text \<open>\<open>if_writer::write(const_buffer_view)\<close>.\<close>

definition write_buffer :: "byte list \<Rightarrow> unit mw" where
  "write_buffer v = seqE (binary_push (length v)) (\<lambda>_. seqE (binary_write_some v) (\<lambda>_. binary_pop))"

section \<open>The bytes of an encoding\<close>

text \<open>The format as the writer uses it, as pure functions.\<close>

definition enc_int :: "int \<Rightarrow> byte list" where
  "enc_int v =
     (if 0 \<le> v \<and> v < 0x80 then [of_int v]
      else if - 32 \<le> v \<and> v < 0 then [of_int (256 + v)]
      else if - 0x8000 \<le> v \<and> v < 0x8000 then 0xd1 # be 2 (nat (v mod 2 ^ 16))
      else if - 0x80000000 \<le> v \<and> v < 0x80000000 then 0xd2 # be 4 (nat (v mod 2 ^ 32))
      else 0xd3 # be 8 (nat (v mod 2 ^ 64)))"

definition enc_uint :: "nat \<Rightarrow> byte list" where
  "enc_uint v =
     (if v < 0x80 then [of_nat v]
      else if v < 0x8000 then 0xcd # be 2 v
      else if v < 0x80000000 then 0xce # be 4 v
      else 0xcf # be 8 v)"

definition size_header :: "byte \<Rightarrow> nat \<Rightarrow> byte list" where
  "size_header c n = (if n < 2 ^ 8 then c # be 1 n else if n < 2 ^ 16 then (c + 1) # be 2 n else (c + 2) # be 4 n)"

definition enc_str :: "byte list \<Rightarrow> byte list" where
  "enc_str s = (if length s < 32 then [0xa0 + of_nat (length s)] else size_header 0xd9 (length s)) @ s"

definition enc_bin :: "byte list \<Rightarrow> byte list" where
  "enc_bin s = size_header 0xc4 (length s) @ s"

definition seq_header :: "byte \<Rightarrow> byte \<Rightarrow> nat \<Rightarrow> byte list" where
  "seq_header fix c n = (if n < 16 then [fix + of_nat n] else if n < 0x8000 then c # be 2 n else (c + 1) # be 4 n)"

section \<open>What each write appends\<close>

definition wrote :: "byte list \<Rightarrow> wscope list \<Rightarrow> mwriter \<Rightarrow> mwriter" where
  "wrote bs ss w = w\<lparr>out := out w @ bs, wscopes := ss\<rparr>"

lemma wrote_simps [simp]:
  "out (wrote bs ss w) = out w @ bs"
  "wscopes (wrote bs ss w) = ss"
  "wrote bs' ss' (wrote bs ss w) = wrote (bs @ bs') ss' w"
  "wrote [] (wscopes w) w = w"
  by (simp_all add: wrote_def)

lemma ctx_ok: "f (wscopes w) = (Inr x, ss) \<Longrightarrow> ctx f w = (Inr x, wrote [] ss w)"
  by (simp add: ctx_def wrote_def)

lemma ctx_fail: "f (wscopes w) = (Inl e, ss) \<Longrightarrow> ctx f w = (Inl e, w\<lparr>wscopes := ss\<rparr>)"
  by (simp add: ctx_def)

lemma emit_ok: "emit bs w = (Inr (), wrote bs (wscopes w) w)"
  by (simp add: emit_def updE_def wrote_def)

lemma seqE_emit [simp]: "seqE (emit bs) f w = f () (wrote bs (wscopes w) w)"
  by (simp add: seqE_Inr [OF emit_ok])

lemma low_mask: "n < 2 ^ k \<Longrightarrow> k \<le> 8 \<Longrightarrow> of_nat n AND mask k = (of_nat n :: byte)"
proof (rule word_unat_eq_iff [THEN iffD2])
  assume n: "n < 2 ^ k" and k: "k \<le> 8"
  have "(2::nat) ^ k \<le> 2 ^ 8" using k by (rule power_increasing) simp
  with n have "n < 256" by simp
  with n show "unat (of_nat n AND mask k :: byte) = unat (of_nat n :: byte)"
    by (simp add: unat_and_mask unat_of_nat)
qed

lemma or_add: "n < 2 ^ k \<Longrightarrow> 2 ^ k dvd unat c \<Longrightarrow> n < 256 \<Longrightarrow> unat c + n < 256 \<Longrightarrow> c OR of_nat n = (c + of_nat n :: byte)"
  by (rule word_unat_eq_iff [THEN iffD2]) (simp add: or_low unat_word_ariths unat_of_nat)

lemma fix_header:
  "n < 128 \<Longrightarrow> code Positive_fixint OR (of_nat n AND mask 7) = of_nat n"
  "n < 32 \<Longrightarrow> code Fixstr OR (of_nat n AND mask 5) = 0xa0 + of_nat n"
  "n < 32 \<Longrightarrow> code Negative_fixint OR (of_nat n AND mask 5) = 0xe0 + of_nat n"
  "n < 16 \<Longrightarrow> code Fixmap OR (of_nat n AND mask 4) = 0x80 + of_nat n"
  "n < 16 \<Longrightarrow> code Fixarray OR (of_nat n AND mask 4) = 0x90 + of_nat n"
  using or_add [of n 5 "0xa0"] or_add [of n 5 "0xe0"] or_add [of n 4 "0x80"] or_add [of n 4 "0x90"]
  by (simp_all add: low_mask)

lemma putbin_nat: "n < 256 ^ k \<Longrightarrow> putbin k (int n) = emit (be k n)"
proof -
  assume "n < 256 ^ k"
  then have "int n < 256 ^ k" by (metis of_nat_less_iff of_nat_numeral of_nat_power)
  then show ?thesis by (simp add: putbin_def)
qed

lemma apsize_eq:
  assumes "n < 2 ^ 32"
  shows "apsize_1 c (of_nat n) w = (Inr (), wrote (size_header (code c) n) (wscopes w) w)"
proof -
  have u: "unat (of_nat n :: u32) = n" using assms by (simp add: unat_of_nat)
  then have ui: "uint (of_nat n :: u32) = int n" by (simp add: uint_nat)
  have z: "(0xffff0000 :: u32) = push_bit 16 (mask 16)" "(0xff00 :: u32) = push_bit 8 (mask 8)"
    by (simp_all add: mask_eq_exp_minus_1 push_bit_eq_mult)
  have field: "(of_nat n :: u32) AND push_bit k (mask k) = 0 \<longleftrightarrow> n div 2 ^ k mod 2 ^ k = 0" if "k \<in> {8, 16}" for k
  proof -
    have "unat ((of_nat n :: u32) AND push_bit k (mask k)) = (n div 2 ^ k mod 2 ^ k) * 2 ^ k mod 2 ^ 32"
      unfolding and_shifted_mask unat_shl unat_and_mask unat_shr u by simp
    moreover have "(n div 2 ^ k mod 2 ^ k) * 2 ^ k < 2 ^ 32"
    proof -
      have "(n div 2 ^ k mod 2 ^ k) * 2 ^ k < 2 ^ k * 2 ^ k"
        by (rule mult_strict_right_mono) simp_all
      also have "\<dots> \<le> (2::nat) ^ 32" using that by auto
      finally show ?thesis .
    qed
    ultimately show ?thesis by (simp add: word_unat_eq_iff)
  qed
  have hi: "(of_nat n :: u32) AND 0xffff0000 = 0 \<longleftrightarrow> n div 2 ^ 16 mod 2 ^ 16 = 0"
    unfolding z(1) by (rule field) simp
  have mid: "(of_nat n :: u32) AND 0xff00 = 0 \<longleftrightarrow> n div 2 ^ 8 mod 2 ^ 8 = 0"
    unfolding z(2) by (rule field) simp
  have "n div 2 ^ 16 mod 2 ^ 16 = n div 2 ^ 16"
    using assms by (intro mod_less) (simp add: less_mult_imp_div_less)
  with hi have hi': "(of_nat n :: u32) AND 0xffff0000 = 0 \<longleftrightarrow> n < 2 ^ 16"
    by (simp add: div_eq_0_iff)
  have mid': "(of_nat n :: u32) AND 0xff00 = 0 \<longleftrightarrow> n < 2 ^ 8" if "n < 2 ^ 16"
  proof -
    have "n div 2 ^ 8 mod 2 ^ 8 = n div 2 ^ 8"
      using that by (intro mod_less) (simp add: less_mult_imp_div_less)
    with mid show ?thesis by (simp add: div_eq_0_iff)
  qed
  consider "n < 2 ^ 8" | "\<not> n < 2 ^ 8" "n < 2 ^ 16" | "\<not> n < 2 ^ 8" "\<not> n < 2 ^ 16" by linarith
  then show ?thesis
  proof cases
    case 1
    then have "n < 2 ^ 16" "n < 256 ^ 1" by simp_all
    with 1 show ?thesis
      unfolding apsize_1_def hi' mid' [OF \<open>n < 2 ^ 16\<close>] ui putbin_nat [OF \<open>n < 256 ^ 1\<close>]
      by (simp add: apoff_def emit_ok size_header_def)
  next
    case 2
    have "n < 256 ^ 2" using 2 by simp
    with 2 show ?thesis
      unfolding apsize_1_def hi' mid' [OF 2(2)] ui putbin_nat [OF \<open>n < 256 ^ 2\<close>]
      by (simp add: apoff_def emit_ok size_header_def)
  next
    case 3
    have "n < 256 ^ 4" using assms by simp
    with 3 show ?thesis
      unfolding apsize_1_def hi' ui putbin_nat [OF \<open>n < 256 ^ 4\<close>]
      by (simp add: apoff_def emit_ok size_header_def)
  qed
qed

lemma value_cases:
  assumes "value_ready (wscopes w)"
  obtains d where "ctx write_next w = (Inr d, wrote [] (after_value (wscopes w)) w)"
  using write_next_value [OF assms] ctx_ok [of write_next w] by blast

lemma key_cases:
  assumes "wscopes w = obj True (Suc i) n # ss" "even i" "i < n * 2"
  obtains d where "ctx write_next w = (Inr d, wrote [] (obj False (Suc i) n # ss) w)"
  using write_announced [OF assms(2,3), of ss] ctx_ok [of write_next w] assms(1) by auto

definition write_step :: "mwriter \<Rightarrow> wscope list \<Rightarrow> bool" where
  "write_step w ss \<longleftrightarrow> (\<exists>d. ctx write_next w = (Inr d, wrote [] ss w))"

lemma write_step_value: "value_ready (wscopes w) \<Longrightarrow> write_step w (after_value (wscopes w))"
  by (auto simp: write_step_def elim: value_cases)

lemma write_step_key:
  "wscopes w = obj True (Suc i) n # ss \<Longrightarrow> even i \<Longrightarrow> i < n * 2 \<Longrightarrow> write_step w (obj False (Suc i) n # ss)"
  by (auto simp: write_step_def elim: key_cases)

lemma seqE_write_next: "write_step w ss \<Longrightarrow> (\<And>d. f d = g) \<Longrightarrow> seqE (ctx write_next) f w = g (wrote [] ss w)"
  by (auto simp: write_step_def seqE_Inr)

lemma neg_header:
  assumes "- 32 \<le> v" "v < 0"
  shows "code Negative_fixint OR (of_int v AND mask 5) = (of_int (256 + v) :: byte)"
proof -
  define m where "m = nat (v + 32)"
  have m: "m < 32" using assms by (simp add: m_def)
  have v: "256 + v = int (224 + m)" using assms by (simp add: m_def)
  have "(of_int v :: byte) = of_int (256 + v)" by simp
  then have w: "(of_int v :: byte) = of_nat (224 + m)" by (simp only: v of_int_of_nat_eq)
  have u: "unat (of_nat (224 + m) :: byte) = 224 + m" using m unfolding unat_of_nat by simp
  have "(of_int v AND mask 5 :: byte) = of_nat m AND mask 5"
  proof (rule word_unat_eq_iff [THEN iffD2])
    have um: "unat (of_nat m :: byte) = m" using m by (simp add: unat_of_nat)
    show "unat (of_int v AND mask 5 :: byte) = unat (of_nat m AND mask 5 :: byte)"
      unfolding unat_and_mask w u um using mod_mult_self2 [of m 32 7] by (simp add: add.commute)
  qed
  then show ?thesis
    using fix_header(3) [OF m] by (simp only: v of_int_of_nat_eq) simp
qed

lemma write_int_ok:
  assumes "write_step w ss" "- (2 ^ 63) \<le> v" "v < 2 ^ 63"
  shows "write_int v w = (Inr (), wrote (enc_int v) ss w)"
proof -
  have p: "v mod 256 ^ k = v" if "0 \<le> v" "v < 256 ^ k" for k using that by simp
  have c: "(256::int) ^ 2 = 2 ^ 16" "(256::int) ^ 4 = 2 ^ 32" "(256::int) ^ 8 = 2 ^ 64" by simp_all
  have pos: "code Positive_fixint OR (of_int v AND mask 7) = of_int v" if "0 \<le> v" "v < 128"
    using fix_header(1) [of "nat v"] that by simp
  show ?thesis
    unfolding write_int_def
    by (rule trans [OF seqE_write_next [OF assms(1) refl]])
      (auto simp: enc_int_def apm_def ap_def putbin_def emit_ok c pos neg_header simp del: code.simps(1,2))
qed

lemma write_uint_ok:
  assumes "write_step w ss" "v < 2 ^ 64"
  shows "write_uint v w = (Inr (), wrote (enc_uint v) ss w)"
  unfolding write_uint_def
  by (rule trans [OF seqE_write_next [OF assms(1) refl]])
    (use assms(2) in \<open>auto simp: enc_uint_def apm_def ap_def emit_ok putbin_nat fix_header simp del: code.simps(1)\<close>)

lemma write_small_ok:
  assumes "write_step w ss"
  shows "write_nil w = (Inr (), wrote [0xc0] ss w)"
    and "write_bool b w = (Inr (), wrote [if b then 0xc3 else 0xc2] ss w)"
    and "write_float f w = (Inr (), wrote (0xca # be 4 (unat f)) ss w)"
    and "write_double d w = (Inr (), wrote (0xcb # be 8 (unat d)) ss w)"
proof -
  have u: "unat f < 256 ^ 4" "unat d < 256 ^ 8"
    using unsigned_less [where w = f and 'a = nat] unsigned_less [where w = d and 'a = nat] by simp_all
  note s = seqE_write_next [OF assms]
  show "write_nil w = (Inr (), wrote [0xc0] ss w)"
    unfolding write_nil_def by (rule trans [OF s [OF refl]]) (simp add: ap_def emit_ok)
  show "write_bool b w = (Inr (), wrote [if b then 0xc3 else 0xc2] ss w)"
    unfolding write_bool_def by (rule trans [OF s [OF refl]]) (simp add: ap_def emit_ok)
  show "write_float f w = (Inr (), wrote (0xca # be 4 (unat f)) ss w)"
    unfolding write_float_def uint_nat putbin_nat [OF u(1)]
    by (rule trans [OF s [OF refl]]) (simp add: ap_def emit_ok)
  show "write_double d w = (Inr (), wrote (0xcb # be 8 (unat d)) ss w)"
    unfolding write_double_def uint_nat putbin_nat [OF u(2)]
    by (rule trans [OF s [OF refl]]) (simp add: ap_def emit_ok)
qed

lemma size_ok: "n < 2 ^ 32 - 1 \<Longrightarrow> seqE (assert_32bitsize n) f w = f () w"
  by (simp add: assert_32bitsize_def)

lemma write_str_ok:
  assumes "write_step w ss" "length v < 2 ^ 32 - 1"
  shows "write_str v w = (Inr (), wrote (enc_str v) ss w)"
  unfolding write_str_def size_ok [OF assms(2)]
  by (rule trans [OF seqE_write_next [OF assms(1) refl]])
    (use assms(2) in \<open>auto simp: enc_str_def apm_def fix_header emit_ok seqE_Inr [OF apsize_eq] simp del: code.simps(5)\<close>)

lemma write_buffer_ok:
  assumes "write_step w ss" "length v < 2 ^ 32 - 1"
  shows "write_buffer v w = (Inr (), wrote (enc_bin v) ss w)"
proof -
  let ?n = "length v"
  have n: "?n < 2 ^ 32" using assms(2) by simp
  have push: "binary_push ?n w = (Inr (), wrote (size_header 0xc4 ?n) (bin 0 ?n # ss) w)"
    unfolding binary_push_def size_ok [OF assms(2)]
    by (rule trans [OF seqE_write_next [OF assms(1) refl]])
      (use assms(2) in \<open>simp add: seqE_Inr [OF ctx_ok] push_after_value(3) apsize_eq [OF n]\<close>)
  have some: "binary_write_some v w' = (Inr (), wrote v (bin ?n ?n # ss) w')" if "wscopes w' = bin 0 ?n # ss" for w'
    using that assms(2) binary_write_ok [of 0 ?n ?n ss]
    by (simp add: binary_write_some_def seqE_Inr [OF ctx_ok] emit_ok)
  have pop: "binary_pop w' = (Inr (), wrote [] ss w')" if "wscopes w' = bin ?n ?n # ss" for w'
    using that pop_finished(3) [of ?n ss] by (simp add: binary_pop_def seqE_Inr [OF ctx_ok] retE_def)
  show ?thesis
    by (simp add: write_buffer_def seqE_def push some pop enc_bin_def)
qed

lemma array_push_ok:
  assumes "value_ready (wscopes w)" "n < 2 ^ 32 - 1"
  shows "array_push n w = (Inr (), wrote (seq_header 0x90 0xdc n) (arr 0 n # after_value (wscopes w)) w)"
  unfolding array_push_def size_ok [OF assms(2)]
  by (rule trans [OF seqE_write_next [OF write_step_value [OF assms(1)] refl]])
    (use assms in \<open>auto simp: seqE_Inr [OF ctx_ok] push_after_value apm_def ap_def emit_ok putbin_nat
      fix_header seq_header_def simp del: code.simps(4)\<close>)

lemma object_push_ok:
  assumes "value_ready (wscopes w)" "n < 2 ^ 32 - 1"
  shows "object_push n w = (Inr (), wrote (seq_header 0x80 0xde n) (obj False 0 n # after_value (wscopes w)) w)"
  unfolding object_push_def size_ok [OF assms(2)]
  by (rule trans [OF seqE_write_next [OF write_step_value [OF assms(1)] refl]])
    (use assms in \<open>auto simp: seqE_Inr [OF ctx_ok] push_after_value apm_def ap_def emit_ok putbin_nat
      fix_header seq_header_def simp del: code.simps(3)\<close>)

lemma array_pop_ok: "wscopes w = arr n n # ss \<Longrightarrow> array_pop w = (Inr (), wrote [] ss w)"
  using pop_finished(1) [of n ss] by (simp add: array_pop_def seqE_Inr [OF ctx_ok] retE_def)

lemma object_pop_ok: "wscopes w = obj k (n * 2) n # ss \<Longrightarrow> object_pop w = (Inr (), wrote [] ss w)"
  using pop_finished(2) [of k n ss] by (simp add: object_pop_def seqE_Inr [OF ctx_ok] retE_def)

lemma key_next_ok:
  assumes "wscopes w = obj False i n # ss" "even i" "i < n * 2" "n * 2 < 2 ^ 64"
  shows "mw_write_key_next w = (Inr (), wrote [] (obj True (Suc i) n # ss) w)"
proof -
  obtain c where "write_key_next (wscopes w) = (Inr c, obj True (Suc i) n # ss)"
    using announce_key [OF assms(2-4), of ss] assms(1) by auto
  then show ?thesis by (simp add: mw_write_key_next_def seqE_Inr [OF ctx_ok] retE_def)
qed

end
