(* ===== verification/Msgpack_Reader.thy ===== *)
theory Msgpack_Reader
  imports Msgpack_Format
begin

text \<open>
  The MessagePack reader of \<open>refl/archive/msgpack-reader.hxx\<close>. The stream is the list of bytes
  not yet consumed; \<open>sgetc\<close> looks at the next one, \<open>sbumpc\<close> consumes it and \<open>sgetn\<close> consumes up
  to \<open>n\<close>. A scope counts the entities left in 32 bits, and the top of \<open>_scope\<close> is the head of the
  list. An exception keeps what had been consumed and changed.

  \<open>_break_scope\<close> holds a pointer into the vector of scopes while it skips nested containers, which may
  grow that vector. \<open>scope_cap\<close> is the capacity of the vector, as far as the standard guarantees one: what
  \<open>reserve_depth\<close> asked for and what the vector has held; popping keeps it. When a skip has gone beyond it
  the elements have moved, the pointer is stale, and the next access through it is undefined
  (\<open>Stale_scope\<close>).

  Skipping recurses through \<open>end_array\<close> and \<open>end_object\<close>; the recursion is by fuel, and
  \<open>skip_enough_fuel\<close> shows that a fuel above twice the length of the input is never used up.
  Floating point values are their bit patterns, their conversion to integers is a parameter.
\<close>

section \<open>State and primitives\<close>

datatype scope_kind = Type_object | Type_array | Type_binary

datatype reader_error =
    Type_mismatch | Parse_failed | Unexpected_eof | Recoverable
  | Binary_subobject | Key_not_called | All_read | Key_order | Reading_key_set
  | Not_in_scope | Wrong_scope_type | Key_type_mismatch | Invalid_context | Not_key_order | Duplicate_key_call
  | Undefined | Stale_scope | Out_of_fuel

record rscope =
  ctx_id :: u32
  ctx_index :: u32
  kind :: scope_kind
  elems_left :: u32
  reading_key :: bool

record reader =
  input :: "byte list"
  scopes :: "rscope list"
  key_gen :: u32
  scope_cap :: nat

type_synonym 'a rd = "reader \<Rightarrow> (reader_error + 'a) \<times> reader"
type_synonym context_key = "u32 \<times> u32"

definition reader_new :: "byte list \<Rightarrow> reader" where
  "reader_new bs = \<lparr>input = bs, scopes = [], key_gen = 0, scope_cap = 0\<rparr>"

definition reserve_depth :: "nat \<Rightarrow> reader \<Rightarrow> reader" where
  "reserve_depth n s = s\<lparr>scope_cap := max (scope_cap s) n\<rparr>"

definition reader_clear :: "reader \<Rightarrow> reader" where
  "reader_clear s = s\<lparr>scopes := [], key_gen := 0\<rparr>"

definition peek_header :: "byte rd" where
  "peek_header s = (case input s of [] \<Rightarrow> (Inl Unexpected_eof, s) | c # _ \<Rightarrow> (Inr c, s))"

text \<open>\<open>sbumpc\<close>; at the end of the stream the \<open>eof\<close> value, converted to \<open>char\<close>, is \<open>0xff\<close>.\<close>

definition bump_char :: "byte rd" where
  "bump_char s = (case input s of [] \<Rightarrow> (Inr 0xff, s) | c # cs \<Rightarrow> (Inr c, s\<lparr>input := cs\<rparr>))"

definition sgetn :: "nat \<Rightarrow> byte list rd" where
  "sgetn n s = (Inr (take n (input s)), s\<lparr>input := drop n (input s)\<rparr>)"

fun get_n :: "nat \<Rightarrow> byte list rd" where
  "get_n 0 = retE []"
| "get_n (Suc n) = seqE bump_char (\<lambda>c. seqE (get_n n) (\<lambda>cs. retE (c # cs)))"

definition get_n_bigE :: "nat \<Rightarrow> nat rd" where
  "get_n_bigE k = seqE (get_n k) (\<lambda>bs. retE (be_val 0 bs))"

definition bump_n_bigE :: "nat \<Rightarrow> nat rd" where
  "bump_n_bigE k = seqE bump_char (\<lambda>_. get_n_bigE k)"

text \<open>The loop of \<open>_discard_n_bytes\<close>, 256 bytes at a time.\<close>

function discard_n_bytes :: "nat \<Rightarrow> unit rd" where
  "discard_n_bytes bytes =
     (if bytes = 0 then retE ()
      else let to_read = min 256 bytes in
        seqE (sgetn to_read) (\<lambda>bs.
          if length bs \<noteq> to_read then throwE Unexpected_eof else discard_n_bytes (bytes - to_read)))"
  by pat_completeness auto
termination by (relation "measure id") auto

declare discard_n_bytes.simps [simp del]

section \<open>Counts and numbers\<close>

definition do_offset :: "typecode \<Rightarrow> int \<Rightarrow> typecode" where
  "do_offset t n = typecode_of (code t + of_int n)"

definition read_elem_count :: "typecode \<Rightarrow> int \<Rightarrow> typecode \<Rightarrow> byte \<Rightarrow> byte \<Rightarrow> u32 rd" where
  "read_elem_count base ofst fix fixmask header =
     (let t = typecode_of header in
      if t = fix then seqE bump_char (\<lambda>_. retE (ucast (header AND fixmask)))
      else if t = do_offset base ofst then seqE (bump_n_bigE 1) (\<lambda>n. retE (of_nat n))
      else if t = do_offset base (ofst + 1) then seqE (bump_n_bigE 2) (\<lambda>n. retE (of_nat n))
      else if t = do_offset base (ofst + 2) then seqE (bump_n_bigE 4) (\<lambda>n. retE (of_nat n))
      else throwE Type_mismatch)"

definition read_elem_count_str :: "byte \<Rightarrow> u32 rd" where
  "read_elem_count_str = read_elem_count Str8 0 Fixstr 31"

definition read_elem_count_bin :: "byte \<Rightarrow> u32 rd" where
  "read_elem_count_bin = read_elem_count Bin8 0 Error 0"

definition read_elem_count_ext :: "byte \<Rightarrow> u32 rd" where
  "read_elem_count_ext = read_elem_count Ext8 0 Error 0"

definition read_elem_count_map :: "byte \<Rightarrow> u32 rd" where
  "read_elem_count_map = read_elem_count Map16 (- 1) Fixmap 15"

definition read_elem_count_array :: "byte \<Rightarrow> u32 rd" where
  "read_elem_count_array = read_elem_count Array16 (- 1) Fixarray 15"

datatype num = Int_num int | Float_num u32 | Double_num u64

definition to_signed :: "nat \<Rightarrow> int \<Rightarrow> int" where
  "to_signed w v = (let m = v mod 2 ^ w in if m < 2 ^ (w - 1) then m else m - 2 ^ w)"

definition read_number :: "byte \<Rightarrow> num rd" where
  "read_number header =
     (case typecode_of header of
        Positive_fixint \<Rightarrow> seqE bump_char (\<lambda>_. retE (Int_num (sint header)))
      | Negative_fixint \<Rightarrow> seqE bump_char (\<lambda>_. retE (Int_num (sint header)))
      | Bool_false \<Rightarrow> seqE bump_char (\<lambda>_. retE (Int_num 0))
      | Bool_true \<Rightarrow> seqE bump_char (\<lambda>_. retE (Int_num 1))
      | Float32 \<Rightarrow> seqE (bump_n_bigE 4) (\<lambda>n. retE (Float_num (of_nat n)))
      | Float64 \<Rightarrow> seqE (bump_n_bigE 8) (\<lambda>n. retE (Double_num (of_nat n)))
      | Uint8 \<Rightarrow> seqE (bump_n_bigE 1) (\<lambda>n. retE (Int_num (int n)))
      | Uint16 \<Rightarrow> seqE (bump_n_bigE 2) (\<lambda>n. retE (Int_num (int n)))
      | Uint32 \<Rightarrow> seqE (bump_n_bigE 4) (\<lambda>n. retE (Int_num (int n)))
      | Uint64 \<Rightarrow> seqE (bump_n_bigE 8) (\<lambda>n. retE (Int_num (int n)))
      | Int8 \<Rightarrow> seqE (bump_n_bigE 1) (\<lambda>n. retE (Int_num (to_signed 8 (int n))))
      | Int16 \<Rightarrow> seqE (bump_n_bigE 2) (\<lambda>n. retE (Int_num (to_signed 16 (int n))))
      | Int32 \<Rightarrow> seqE (bump_n_bigE 4) (\<lambda>n. retE (Int_num (to_signed 32 (int n))))
      | Int64 \<Rightarrow> seqE (bump_n_bigE 8) (\<lambda>n. retE (Int_num (to_signed 64 (int n))))
      | _ \<Rightarrow> throwE Type_mismatch)"

section \<open>Scopes\<close>

definition upd_scope :: "(rscope \<Rightarrow> rscope) \<Rightarrow> reader \<Rightarrow> reader" where
  "upd_scope f s = s\<lparr>scopes := (case scopes s of [] \<Rightarrow> [] | e # r \<Rightarrow> f e # r)\<rparr>"

definition scope_ref :: "rscope rd" where
  "scope_ref s = (case scopes s of [] \<Rightarrow> (Inl Not_in_scope, s) | e # _ \<Rightarrow> (Inr e, s))"

definition verify_scope :: "scope_kind \<Rightarrow> rscope rd" where
  "verify_scope t = seqE scope_ref (\<lambda>e. if kind e \<noteq> t then throwE Wrong_scope_type else retE e)"

definition verify_not_key_type :: "unit rd" where
  "verify_not_key_type s =
     (case scopes s of [] \<Rightarrow> (Inr (), s)
      | e # _ \<Rightarrow>
        if kind e \<noteq> Type_object then (Inr (), s)
        else if even (unat (elems_left e)) then (Inl Key_order, s)
        else if reading_key e then (Inl Reading_key_set, s)
        else (Inr (), s))"

text \<open>The decrement happens before the test of its old value throws.\<close>

definition decrement_elems :: "unit rd" where
  "decrement_elems = seqE scope_ref (\<lambda>e.
     seqE (updE (upd_scope (\<lambda>e. e\<lparr>elems_left := elems_left e - 1\<rparr>))) (\<lambda>_.
       if elems_left e = 0 then throwE All_read else retE ()))"

definition step_context :: "unit rd" where
  "step_context s =
     (case scopes s of [] \<Rightarrow> (Inr (), s)
      | e # _ \<Rightarrow>
        if kind e = Type_binary then (Inl Binary_subobject, s)
        else if kind e = Type_object \<and> even (unat (elems_left e)) then
          if \<not> reading_key e then (Inl Key_not_called, s)
          else seqE (updE (upd_scope (\<lambda>e. e\<lparr>reading_key := False\<rparr>))) (\<lambda>_. decrement_elems) s
        else decrement_elems s)"

definition step_context_on_skip :: "unit rd" where
  "step_context_on_skip s = (if scopes s = [] then (Inr (), s) else decrement_elems s)"

definition new_scope :: "scope_kind \<Rightarrow> u32 \<Rightarrow> context_key rd" where
  "new_scope ty n_elems s =
     (let e = \<lparr>ctx_id = key_gen s + 1, ctx_index = of_nat (length (scopes s)), kind = ty,
               elems_left = n_elems * (if ty = Type_object then 2 else 1), reading_key = False\<rparr>
      in (Inr (ctx_id e, ctx_index e), s\<lparr>scopes := e # scopes s, key_gen := key_gen s + 1,
               scope_cap := max (scope_cap s) (length (scopes s) + 1)\<rparr>))"

fun find_break :: "scope_kind \<Rightarrow> context_key \<Rightarrow> rscope list \<Rightarrow> reader_error + nat" where
  "find_break ty key [] = Inl Invalid_context"
| "find_break ty key (e # r) =
     (if (ctx_id e, ctx_index e) = key
      then if kind e = ty then Inr 1 else Inl Key_type_mismatch
      else bindE (find_break ty key r) (\<lambda>n. Inr (Suc n)))"

definition calc_num_break_scope :: "scope_kind \<Rightarrow> context_key \<Rightarrow> nat rd" where
  "calc_num_break_scope ty key s = (find_break ty key (scopes s), s)"

section \<open>Reading\<close>

definition quick_get_num :: "num rd" where
  "quick_get_num = seqE peek_header (\<lambda>h. seqE (read_number h) (\<lambda>v. seqE step_context (\<lambda>_. retE v)))"

text \<open>\<open>read(intN_t&)\<close> and \<open>read(bool&)\<close>; \<open>fc\<close> converts a floating point value.\<close>

definition read_signed :: "(num \<Rightarrow> int) \<Rightarrow> nat \<Rightarrow> int rd" where
  "read_signed fc w = seqE quick_get_num (\<lambda>v. retE (to_signed w (case v of Int_num i \<Rightarrow> i | _ \<Rightarrow> fc v)))"

definition read_unsigned :: "(num \<Rightarrow> int) \<Rightarrow> nat \<Rightarrow> int rd" where
  "read_unsigned fc w = seqE quick_get_num (\<lambda>v. retE ((case v of Int_num i \<Rightarrow> i | _ \<Rightarrow> fc v) mod 2 ^ w))"

definition read_bool :: "(num \<Rightarrow> bool) \<Rightarrow> bool rd" where
  "read_bool fb = seqE quick_get_num (\<lambda>v. retE (case v of Int_num i \<Rightarrow> i \<noteq> 0 | _ \<Rightarrow> fb v))"

text \<open>\<open>read(float&)\<close> and \<open>read(double&)\<close>; the conversion from the other types is a parameter.\<close>

definition read_float :: "(num \<Rightarrow> u32) \<Rightarrow> u32 rd" where
  "read_float cv = seqE quick_get_num (\<lambda>v. retE (case v of Float_num f \<Rightarrow> f | _ \<Rightarrow> cv v))"

definition read_double :: "(num \<Rightarrow> u64) \<Rightarrow> u64 rd" where
  "read_double cv = seqE quick_get_num (\<lambda>v. retE (case v of Double_num d \<Rightarrow> d | _ \<Rightarrow> cv v))"

text \<open>The string is resized to the announced length; what a short stream does not fill stays zero.\<close>

definition read_str :: "byte list rd" where
  "read_str =
     seqE peek_header (\<lambda>h. seqE (read_elem_count_str h) (\<lambda>buflen. seqE step_context (\<lambda>_.
     seqE (sgetn (unat buflen)) (\<lambda>bs. retE (bs @ replicate (unat buflen - length bs) 0)))))"

definition elem_left :: "u32 rd" where
  "elem_left = seqE scope_ref (\<lambda>e. retE (elems_left e))"

definition should_break :: "context_key \<Rightarrow> bool rd" where
  "should_break key s =
     (case scopes s of [] \<Rightarrow> (Inl Undefined, s)
      | e # _ \<Rightarrow> (Inr (key = (ctx_id e, ctx_index e) \<and> elems_left e = 0), s))"

definition begin_object :: "context_key rd" where
  "begin_object =
     seqE verify_not_key_type (\<lambda>_. seqE peek_header (\<lambda>h. seqE (read_elem_count_map h) (\<lambda>n.
     seqE step_context (\<lambda>_. new_scope Type_object n))))"

definition begin_array :: "context_key rd" where
  "begin_array =
     seqE verify_not_key_type (\<lambda>_. seqE peek_header (\<lambda>h. seqE (read_elem_count_array h) (\<lambda>n.
     seqE step_context (\<lambda>_. new_scope Type_array n))))"

definition begin_binary :: "u32 rd" where
  "begin_binary =
     seqE peek_header (\<lambda>h. seqE (read_elem_count_bin h) (\<lambda>n.
     seqE step_context (\<lambda>_. seqE (new_scope Type_binary n) (\<lambda>_. retE n))))"

definition binary_read_some :: "nat \<Rightarrow> byte list rd" where
  "binary_read_some want =
     seqE (verify_scope Type_binary) (\<lambda>e.
       let n_read = min (want mod 2 ^ 32) (unat (elems_left e)) in
       seqE (sgetn n_read) (\<lambda>bs.
         if length bs \<noteq> n_read then throwE Unexpected_eof
         else seqE (updE (upd_scope (\<lambda>e. e\<lparr>elems_left := elems_left e - of_nat n_read\<rparr>))) (\<lambda>_. retE bs)))"

definition pop_scope :: "unit rd" where
  "pop_scope = updE (\<lambda>s. s\<lparr>scopes := tl (scopes s)\<rparr>)"

definition end_binary :: "unit rd" where
  "end_binary =
     seqE (verify_scope Type_binary) (\<lambda>e. seqE (discard_n_bytes (unat (elems_left e))) (\<lambda>_. pop_scope))"

definition read_key_next :: "unit rd" where
  "read_key_next =
     seqE (verify_scope Type_object) (\<lambda>e.
       if odd (unat (elems_left e)) then throwE Not_key_order
       else if reading_key e then throwE Duplicate_key_call
       else updE (upd_scope (\<lambda>e. e\<lparr>reading_key := True\<rparr>)))"

datatype entity_type = Entity_invalid | Entity_object | Entity_dictionary | Entity_tuple | Entity_array
  | Entity_binary | Entity_null | Entity_boolean | Entity_integer | Entity_floating_point | Entity_string

definition type_next :: "entity_type rd" where
  "type_next =
     seqE peek_header (\<lambda>h.
       let t = typecode_of h in
       if t \<in> {Float32, Float64} then retE Entity_floating_point
       else if t \<in> {Positive_fixint, Negative_fixint, Uint8, Uint16, Uint32, Uint64, Int8, Int16, Int32, Int64}
       then retE Entity_integer
       else if t \<in> {Bool_false, Bool_true} then retE Entity_boolean
       else if t \<in> {Fixstr, Str8, Str16, Str32} then retE Entity_string
       else if t \<in> {Bin8, Bin16, Bin32} then retE Entity_binary
       else if t \<in> {Fixarray, Array16, Array32} then retE Entity_array
       else if t \<in> {Fixmap, Map16, Map32} then retE Entity_dictionary
       else if t = Nil_code then retE Entity_null
       else throwE Parse_failed)"

section \<open>Skipping\<close>

fun repeatE :: "nat \<Rightarrow> unit rd \<Rightarrow> unit rd" where
  "repeatE 0 m = retE ()"
| "repeatE (Suc n) m = seqE m (\<lambda>_. repeatE n m)"

text \<open>\<open>end_array\<close> and \<open>end_object\<close>, given \<open>_break_scope\<close>.\<close>

definition end_scope :: "unit rd \<Rightarrow> scope_kind \<Rightarrow> context_key \<Rightarrow> unit rd" where
  "end_scope brk ty key = seqE (calc_num_break_scope ty key) (\<lambda>nbrk. repeatE nbrk brk)"

text \<open>The part of \<open>_skip_once\<close> before the final discard: the bytes left to skip, and whether the context steps.\<close>

definition skip_header :: "unit rd \<Rightarrow> byte \<Rightarrow> (u32 \<times> bool) rd" where
  "skip_header brk header =
     (let t = typecode_of header; plain = (\<lambda>n. (n, True)) in
      if t \<in> {Positive_fixint, Negative_fixint, Bool_false, Bool_true, Float32, Float64,
              Uint8, Uint16, Uint32, Uint64, Int8, Int16, Int32, Int64}
      then seqE (read_number header) (\<lambda>_. retE (plain 0))
      else if t \<in> {Fixstr, Str8, Str16, Str32} then seqE (read_elem_count_str header) (\<lambda>n. retE (plain n))
      else if t \<in> {Bin8, Bin16, Bin32} then seqE (read_elem_count_bin header) (\<lambda>n. retE (plain n))
      else if t \<in> {Fixarray, Array16, Array32}
      then seqE begin_array (\<lambda>key. seqE (end_scope brk Type_array key) (\<lambda>_. retE (0, False)))
      else if t \<in> {Fixmap, Map16, Map32}
      then seqE begin_object (\<lambda>key. seqE (end_scope brk Type_object key) (\<lambda>_. retE (0, False)))
      else if t = Nil_code then retE (plain 1)
      else if t = Fixext1 then retE (plain 3)
      else if t = Fixext2 then retE (plain 4)
      else if t = Fixext4 then retE (plain 6)
      else if t = Fixext8 then retE (plain 10)
      else if t = Fixext16 then retE (plain 18)
      else if t \<in> {Ext8, Ext16, Ext32} then seqE (read_elem_count_ext header) (\<lambda>n. retE (plain (n + 1)))
      else throwE Parse_failed)"

definition skip_with :: "unit rd \<Rightarrow> unit rd" where
  "skip_with brk =
     seqE peek_header (\<lambda>header. seqE (skip_header brk header) (\<lambda>(skip_bytes, step).
     seqE (if step then step_context_on_skip else retE ()) (\<lambda>_. discard_n_bytes (unat skip_bytes))))"

text \<open>A call after which the scopes are used through a pointer taken before it.\<close>

definition scopes_stay :: "unit rd \<Rightarrow> unit rd" where
  "scopes_stay m s =
     seqE m (\<lambda>_ s'. if scope_cap s' \<noteq> scope_cap s then (Inl Stale_scope, s') else (Inr (), s')) s"

text \<open>\<open>break_scope n\<close> is the loop of \<open>_break_scope\<close> with fuel \<open>n\<close>, and \<open>skip_once n\<close> is \<open>_skip_once\<close>.\<close>

fun break_scope :: "nat \<Rightarrow> unit rd" where
  "break_scope 0 = throwE Out_of_fuel"
| "break_scope (Suc n) =
     seqE scope_ref (\<lambda>e.
       if elems_left e > 0
       then seqE (updE (if kind e = Type_object \<and> even (unat (elems_left e))
                        then upd_scope (\<lambda>e. e\<lparr>reading_key := True\<rparr>) else id)) (\<lambda>_.
            seqE (scopes_stay (skip_with (break_scope n))) (\<lambda>_. break_scope n))
       else pop_scope)"

definition skip_once :: "nat \<Rightarrow> unit rd" where
  "skip_once n = skip_with (break_scope n)"

definition fuel_for :: "reader \<Rightarrow> nat" where
  "fuel_for s = length (input s) + 1"

definition read_nil :: "unit rd" where
  "read_nil s = skip_once (fuel_for s) s"

definition end_array :: "context_key \<Rightarrow> unit rd" where
  "end_array key s = end_scope (break_scope (fuel_for s)) Type_array key s"

definition end_object :: "context_key \<Rightarrow> unit rd" where
  "end_object key s = end_scope (break_scope (fuel_for s)) Type_object key s"

section \<open>Streams\<close>

text \<open>\<open>at bs ss s\<close> is the reader in state \<open>s\<close> moved to the input \<open>bs\<close> and the scopes \<open>ss\<close>.\<close>

definition at :: "byte list \<Rightarrow> rscope list \<Rightarrow> reader \<Rightarrow> reader" where
  "at bs ss s = s\<lparr>input := bs, scopes := ss\<rparr>"

lemma at_simps [simp]:
  "input (at bs ss s) = bs" "scopes (at bs ss s) = ss" "key_gen (at bs ss s) = key_gen s"
  "at bs ss (at bs' ss' s) = at bs ss s" "at (input s) (scopes s) s = s"
  "scope_cap (at bs ss s) = scope_cap s"
  by (simp_all add: at_def)

lemma at_updates [simp]:
  "(at bs ss s)\<lparr>input := bs'\<rparr> = at bs' ss s" "(at bs ss s)\<lparr>scopes := ss'\<rparr> = at bs ss' s"
  by (simp_all add: at_def)

lemma peek_header_at [simp]: "peek_header (at (c # cs) ss s) = (Inr c, at (c # cs) ss s)"
  by (simp add: peek_header_def)

lemma bump_at [simp]: "bump_char (at (c # cs) ss s) = (Inr c, at cs ss s)"
  by (simp add: bump_char_def)

lemma get_n_at: "length bs = n \<Longrightarrow> get_n n (at (bs @ rest) ss s) = (Inr bs, at rest ss s)"
  by (induction bs arbitrary: n) (auto simp: seqE_def retE_def)

lemma get_n_bigE_at: "get_n_bigE k (at (be k n @ rest) ss s) = (Inr (n mod 256 ^ k), at rest ss s)"
  by (simp add: get_n_bigE_def seqE_def get_n_at retE_def be_val_be)

lemma bump_n_bigE_at: "bump_n_bigE k (at (c # be k n @ rest) ss s) = (Inr (n mod 256 ^ k), at rest ss s)"
  by (simp add: bump_n_bigE_def seqE_def get_n_bigE_at)

lemma sgetn_at: "sgetn (length bs) (at (bs @ rest) ss s) = (Inr bs, at rest ss s)"
  by (simp add: sgetn_def)

lemma discard_at:
  "length bs = n \<Longrightarrow> discard_n_bytes n (at (bs @ rest) ss s) = (Inr (), at rest ss s)"
proof (induction n arbitrary: bs rule: discard_n_bytes.induct)
  case (1 n)
  show ?case
  proof (cases "n = 0")
    case False
    define k where "k = min 256 n"
    have k: "k \<le> n" "k > 0" using False by (simp_all add: k_def)
    have "sgetn k (at (bs @ rest) ss s) = (Inr (take k bs), at (drop k bs @ rest) ss s)"
      using 1(2) k by (simp add: sgetn_def)
    moreover have "discard_n_bytes (n - k) (at (drop k bs @ rest) ss s) = (Inr (), at rest ss s)"
    proof (rule 1(1) [OF False k_def, of "take k bs"])
      show "length (drop k bs) = n - k" using 1(2) by simp
    qed (use 1(2) k in simp)
    ultimately show ?thesis
      using False 1(2) k by (simp add: discard_n_bytes.simps [of n] Let_def seqE_def flip: k_def)
  qed (use 1(2) in \<open>simp add: discard_n_bytes.simps retE_def\<close>)
qed

section \<open>The stream only shrinks, and skipping ends\<close>

named_theorems rd_shrinks
named_theorems rd_strict
named_theorems rd_fuel

definition shrinks :: "'a rd \<Rightarrow> bool" where
  "shrinks m \<longleftrightarrow> (\<forall>s. length (input (snd (m s))) \<le> length (input s))"

text \<open>A success on a non-empty stream has consumed something.\<close>

definition strict :: "'a rd \<Rightarrow> bool" where
  "strict m \<longleftrightarrow> (\<forall>s x s'. input s \<noteq> [] \<longrightarrow> m s = (Inr x, s') \<longrightarrow> length (input s') < length (input s))"

definition fuel_free :: "'a rd \<Rightarrow> bool" where
  "fuel_free m \<longleftrightarrow> (\<forall>s. fst (m s) \<noteq> Inl Out_of_fuel)"

lemma shrinksD: "shrinks m \<Longrightarrow> m s = (r, s') \<Longrightarrow> length (input s') \<le> length (input s)"
  by (metis shrinks_def snd_conv)

lemma shrinks_seqE [rd_shrinks]:
  assumes "shrinks m" "\<And>x. shrinks (f x)"
  shows "shrinks (seqE m f)"
  unfolding shrinks_def
proof
  fix s
  obtain r s' where m: "m s = (r, s')" by fastforce
  have le: "length (input s') \<le> length (input s)" using shrinksD [OF assms(1) m] .
  show "length (input (snd (seqE m f s))) \<le> length (input s)"
  proof (cases r)
    case (Inr x)
    have "length (input (snd (f x s'))) \<le> length (input s')" using assms(2) by (simp add: shrinks_def)
    with m le Inr show ?thesis by (simp add: seqE_def)
  qed (use m le in \<open>simp add: seqE_def\<close>)
qed

lemma strict_seqE [rd_strict]:
  assumes "strict m" "\<And>x. shrinks (f x)"
  shows "strict (seqE m f)"
  unfolding strict_def
proof (intro allI impI)
  fix s y t assume ne: "input s \<noteq> []" and "seqE m f s = (Inr y, t)"
  then obtain x s' where "m s = (Inr x, s')" "f x s' = (Inr y, t)" by (auto simp: seqE_eq_Inr)
  with ne assms show "length (input t) < length (input s)"
    by (meson le_less_trans shrinksD strict_def)
qed

lemma fuel_free_seqE [rd_fuel]: "fuel_free m \<Longrightarrow> (\<And>x. fuel_free (f x)) \<Longrightarrow> fuel_free (seqE m f)"
  by (auto simp: fuel_free_def seqE_def split: prod.splits sum.splits) (metis fst_conv)

lemma basic_shrinks [rd_shrinks]:
  "shrinks (retE x)" "shrinks (throwE e)" "shrinks peek_header" "shrinks bump_char" "shrinks (sgetn n)"
  "shrinks scope_ref" "shrinks (updE (upd_scope f))" "shrinks pop_scope" "shrinks (calc_num_break_scope ty key)"
  "shrinks (new_scope ty k)" "shrinks verify_not_key_type" "shrinks (updE id)"
  by (auto simp: shrinks_def retE_def throwE_def peek_header_def bump_char_def sgetn_def scope_ref_def updE_def
      upd_scope_def pop_scope_def calc_num_break_scope_def new_scope_def verify_not_key_type_def Let_def
      split: list.splits)

lemma basic_fuel [rd_fuel]:
  "fuel_free (retE x)" "fuel_free peek_header" "fuel_free bump_char" "fuel_free (sgetn n)" "fuel_free scope_ref"
  "fuel_free (updE g)" "fuel_free pop_scope" "fuel_free (new_scope ty k)" "fuel_free verify_not_key_type"
  "e \<noteq> Out_of_fuel \<Longrightarrow> fuel_free (throwE e)"
  by (auto simp: fuel_free_def retE_def throwE_def peek_header_def bump_char_def sgetn_def scope_ref_def updE_def
      upd_scope_def pop_scope_def new_scope_def verify_not_key_type_def Let_def
      split: list.splits)

lemma basic_strict [rd_strict]: "strict bump_char" "strict (throwE e)"
  by (auto simp: strict_def bump_char_def throwE_def split: list.splits)

lemma get_n_rd [rd_shrinks, rd_fuel]: "shrinks (get_n k)" "fuel_free (get_n k)"
  by (induction k) (auto intro: rd_shrinks rd_fuel)

lemma discard_rd [rd_shrinks, rd_fuel]: "shrinks (discard_n_bytes n)" "fuel_free (discard_n_bytes n)"
proof (induction n rule: discard_n_bytes.induct)
  case (1 n)
  show "shrinks (discard_n_bytes n)"
    using 1(1) by (subst discard_n_bytes.simps) (auto simp: Let_def intro!: rd_shrinks)
  show "fuel_free (discard_n_bytes n)"
    using 1(2) by (subst discard_n_bytes.simps) (auto simp: Let_def intro!: rd_fuel)
qed

lemma discard_strict: "n > 0 \<Longrightarrow> strict (discard_n_bytes n)"
proof (unfold strict_def, intro allI impI)
  fix s x s' assume n: "n > 0" and ne: "input s \<noteq> []" and d: "discard_n_bytes n s = (Inr x, s')"
  let ?s1 = "s\<lparr>input := drop (min 256 n) (input s)\<rparr>"
  from n d have "discard_n_bytes (n - min 256 n) ?s1 = (Inr x, s')"
    by (subst (asm) discard_n_bytes.simps) (auto simp: Let_def sgetn_def seqE_def throwE_def split: if_splits)
  then have "length (input s') \<le> length (input ?s1)" by (rule shrinksD [OF discard_rd(1)])
  also have "\<dots> < length (input s)" using n ne by simp
  finally show "length (input s') < length (input s)" .
qed

lemma step_rd [rd_shrinks, rd_fuel]:
  "shrinks decrement_elems" "fuel_free decrement_elems"
  "shrinks step_context" "fuel_free step_context" "shrinks step_context_on_skip" "fuel_free step_context_on_skip"
proof -
  show d: "shrinks decrement_elems" "fuel_free decrement_elems"
    unfolding decrement_elems_def by (auto intro!: rd_shrinks rd_fuel)
  have u: "shrinks (seqE (updE (upd_scope f)) (\<lambda>_. decrement_elems))" "fuel_free (seqE (updE (upd_scope f)) (\<lambda>_. decrement_elems))" for f
    by (auto intro!: rd_shrinks rd_fuel d)
  show "shrinks step_context" "fuel_free step_context" "shrinks step_context_on_skip" "fuel_free step_context_on_skip"
    using d u
    by (auto simp: shrinks_def fuel_free_def step_context_def step_context_on_skip_def simp del: seqE_upd split: list.splits)
qed

lemma bigE_rd [rd_shrinks, rd_fuel, rd_strict]:
  "shrinks (bump_n_bigE k)" "fuel_free (bump_n_bigE k)" "strict (bump_n_bigE k)"
  unfolding bump_n_bigE_def get_n_bigE_def by (auto intro!: rd_shrinks rd_fuel rd_strict)

lemma read_number_rd [rd_shrinks, rd_fuel, rd_strict]:
  "shrinks (read_number h)" "fuel_free (read_number h)" "strict (read_number h)"
  unfolding read_number_def
  by (cases "typecode_of h"; simp; intro rd_shrinks rd_fuel rd_strict; simp)+

lemma elem_count_rd [rd_shrinks, rd_fuel, rd_strict]:
  "shrinks (read_elem_count b k f m h)" "fuel_free (read_elem_count b k f m h)" "strict (read_elem_count b k f m h)"
  unfolding read_elem_count_def Let_def by (auto intro!: rd_shrinks rd_fuel rd_strict)

lemma strict_after:
  assumes "\<And>s x s'. m s = (Inr x, s') \<Longrightarrow> input s' = input s" "\<And>x. strict (f x)"
  shows "strict (seqE m f)"
  unfolding strict_def
proof (intro allI impI)
  fix s y t assume ne: "input s \<noteq> []" and "seqE m f s = (Inr y, t)"
  then obtain x s' where m: "m s = (Inr x, s')" "f x s' = (Inr y, t)" by (auto simp: seqE_eq_Inr)
  with assms(1) have "input s' = input s" by blast
  with ne assms(2) m(2) show "length (input t) < length (input s)" by (metis strict_def)
qed

lemma peek_input: "peek_header s = (r, s') \<Longrightarrow> s' = s"
  by (auto simp: peek_header_def split: list.splits)

lemma strict_peek: "(\<And>x. strict (f x)) \<Longrightarrow> strict (seqE peek_header f)"
  by (rule strict_after) (auto dest: peek_input)

lemma verify_input: "verify_not_key_type s = (r, s') \<Longrightarrow> input s' = input s"
  by (auto simp: verify_not_key_type_def split: list.splits if_splits)

lemma begin_rd [rd_shrinks, rd_fuel]:
  "shrinks begin_array" "fuel_free begin_array" "shrinks begin_object" "fuel_free begin_object"
  unfolding begin_array_def begin_object_def read_elem_count_array_def read_elem_count_map_def
  by (auto intro!: rd_shrinks rd_fuel)

lemma begin_strict: "strict begin_array" "strict begin_object"
proof -
  have s: "strict (seqE verify_not_key_type (\<lambda>_. seqE peek_header (\<lambda>h. seqE (read_elem_count b k f m h) (\<lambda>n.
      seqE step_context (\<lambda>_. new_scope ty n)))))" for b k f m ty
    by (rule strict_after, erule verify_input) (auto intro!: strict_peek rd_strict rd_shrinks)
  show "strict begin_array" "strict begin_object"
    unfolding begin_array_def begin_object_def read_elem_count_array_def read_elem_count_map_def by (rule s)+
qed

lemma repeatE_rd: "shrinks m \<Longrightarrow> shrinks (repeatE n m)"
  by (induction n) (auto intro: rd_shrinks)

lemma end_scope_rd: "shrinks brk \<Longrightarrow> shrinks (end_scope brk ty key)"
  unfolding end_scope_def by (auto intro!: rd_shrinks repeatE_rd)

lemma skip_rd: "shrinks brk \<Longrightarrow> shrinks (skip_header brk h)" "shrinks brk \<Longrightarrow> shrinks (skip_with brk)"
proof -
  assume brk: "shrinks brk"
  show h: "shrinks (skip_header brk h)" for h
    unfolding skip_header_def Let_def read_elem_count_str_def read_elem_count_bin_def read_elem_count_ext_def
    by (auto intro!: rd_shrinks end_scope_rd brk)
  show "shrinks (skip_with brk)"
    unfolding skip_with_def by (auto intro!: rd_shrinks h split: prod.splits)
qed

lemma scopes_stay_rd: "shrinks m \<Longrightarrow> shrinks (scopes_stay m)"
  unfolding shrinks_def scopes_stay_def by (auto simp: seqE_def split: prod.split sum.split) (metis snd_conv)+

lemma break_rd: "shrinks (break_scope n)"
  by (induction n) (auto intro!: rd_shrinks skip_rd scopes_stay_rd)

lemma scopes_stay_eq_Inr: "scopes_stay m s = (Inr x, s') \<Longrightarrow> m s = (Inr x, s') \<and> scope_cap s' = scope_cap s"
  by (auto simp: scopes_stay_def seqE_def split: prod.splits sum.splits if_splits)

lemma scopes_stay_strict: "strict m \<Longrightarrow> strict (scopes_stay m)"
  unfolding strict_def by (blast dest: scopes_stay_eq_Inr)

text \<open>A skipped item takes at least its header.\<close>

lemma skip_strict:
  assumes brk: "shrinks brk"
  shows "strict (skip_with brk)"
proof -
  have post: "shrinks (seqE (if st then step_context_on_skip else retE ()) (\<lambda>_. discard_n_bytes n))" for st n
    by (auto intro!: rd_shrinks)
  have post': "strict (seqE (if st then step_context_on_skip else retE ()) (\<lambda>_. discard_n_bytes n))" if "n > 0" for st n
  proof (rule strict_after)
    show "input s' = input s" if "(if st then step_context_on_skip else retE ()) s = (Inr x, s')" for s x s'
      using that by (auto simp: step_context_on_skip_def decrement_elems_def seqE_def scope_ref_def updE_def retE_def
          throwE_def upd_scope_def split: if_splits list.splits)
  qed (rule discard_strict [OF that])
  define g where "g = (\<lambda>(n :: u32, st). seqE (if st then step_context_on_skip else retE ()) (\<lambda>_. discard_n_bytes (unat n)))"
  have g: "shrinks (g p)" for p unfolding g_def by (cases p) (simp only: prod.case post)
  have split_if: "strict (seqE (if c then a else b) g)" if "c \<Longrightarrow> strict (seqE a g)" "\<not> c \<Longrightarrow> strict (seqE b g)" for c a b
    using that by simp
  have ret: "strict (seqE (retE (n, True)) g)" if "unat n > 0" for n
  proof -
    have "seqE (retE (n, True)) g = g (n, True)" by (rule ext) simp
    with post' [OF that, of True] show ?thesis by (simp add: g_def)
  qed
  have bound: "strict (seqE (seqE m f) g)" if "strict m" "\<And>x. shrinks (f x)" for m :: "'a rd" and f
    using that g by (intro rd_strict)
  have item: "strict (seqE (skip_header brk h) g)" for h
    unfolding skip_header_def Let_def read_elem_count_str_def read_elem_count_bin_def read_elem_count_ext_def
    by (intro split_if bound ret elem_count_rd(3) read_number_rd(3) begin_strict rd_shrinks end_scope_rd brk rd_strict g) simp_all
  show ?thesis unfolding skip_with_def by (rule strict_peek) (use item in \<open>simp add: g_def\<close>)
qed

text \<open>Out of fuel can only come from the given \<open>_break_scope\<close>, and that runs behind the header.\<close>

definition fuel_ok :: "'a rd \<Rightarrow> nat \<Rightarrow> bool" where
  "fuel_ok m n \<longleftrightarrow> (\<forall>s. length (input s) \<le> n \<longrightarrow> fst (m s) \<noteq> Inl Out_of_fuel)"

lemma fuel_ok_free: "fuel_free m \<Longrightarrow> fuel_ok m n"
  by (simp add: fuel_ok_def fuel_free_def)

lemma fuel_ok_seqE: "fuel_ok m n \<Longrightarrow> shrinks m \<Longrightarrow> (\<And>x. fuel_ok (f x) n) \<Longrightarrow> fuel_ok (seqE m f) n"
  unfolding fuel_ok_def
proof (intro allI impI)
  fix s :: reader
  assume h: "\<forall>s. length (input s) \<le> n \<longrightarrow> fst (m s) \<noteq> Inl Out_of_fuel" "shrinks m"
    "\<And>x. \<forall>s. length (input s) \<le> n \<longrightarrow> fst (f x s) \<noteq> Inl Out_of_fuel" "length (input s) \<le> n"
  obtain r s' where m: "m s = (r, s')" by fastforce
  have "length (input s') \<le> n" using shrinksD [OF h(2) m] h(4) by simp
  show "fst (seqE m f s) \<noteq> Inl Out_of_fuel"
  proof (cases r)
    case (Inl e)
    with h(1,4) m have "e \<noteq> Out_of_fuel" by (metis fst_conv)
    with m Inl show ?thesis by (simp add: seqE_def)
  next
    case (Inr x)
    with h(3) [of x] m \<open>length (input s') \<le> n\<close> show ?thesis by (simp add: seqE_def)
  qed
qed

lemma fuel_ok_repeatE: "fuel_ok m n \<Longrightarrow> shrinks m \<Longrightarrow> fuel_ok (repeatE k m) n"
  by (induction k) (auto intro: fuel_ok_seqE fuel_ok_free [OF basic_fuel(1)])

lemma calc_fuel [rd_fuel]: "fuel_free (calc_num_break_scope ty key)"
proof -
  have "find_break ty key ss \<noteq> Inl Out_of_fuel" for ss
    by (induction ss) (auto simp: bindE_def split: sum.splits)
  then show ?thesis by (simp add: fuel_free_def calc_num_break_scope_def)
qed

lemma fuel_ok_strict:
  assumes m: "strict m" "fuel_ok m (Suc n)" "shrinks m" and f: "\<And>x. fuel_ok (f x) n"
  shows "fuel_ok (seqE m f) (Suc n)"
  unfolding fuel_ok_def
proof (intro allI impI)
  fix s :: reader assume le: "length (input s) \<le> Suc n"
  obtain r s' where ms: "m s = (r, s')" by fastforce
  show "fst (seqE m f s) \<noteq> Inl Out_of_fuel"
  proof (cases r)
    case (Inl e)
    with ms m(2) le show ?thesis by (auto simp: seqE_def fuel_ok_def)
  next
    case (Inr x)
    have "length (input s') \<le> n"
    proof (cases "input s = []")
      case True
      then show ?thesis using shrinksD [OF m(3) ms] by simp
    next
      case False
      then show ?thesis using m(1) ms Inr le unfolding strict_def by fastforce
    qed
    with f [of x] ms Inr show ?thesis by (simp add: seqE_def fuel_ok_def)
  qed
qed

lemma skip_fuel:
  assumes brk: "shrinks brk" "fuel_ok brk n"
  shows "fuel_ok (skip_with brk) (Suc n)"
proof -
  have e: "fuel_ok (end_scope brk ty key) n" for ty key
    unfolding end_scope_def by (intro fuel_ok_seqE fuel_ok_free [OF calc_fuel] rd_shrinks fuel_ok_repeatE brk)
  have fb: "fuel_ok (seqE m (\<lambda>key. seqE (end_scope brk ty key) (\<lambda>_. retE r))) (Suc n)"
    if "strict m" "fuel_free m" "shrinks m" for m :: "context_key rd" and ty and r :: "u32 \<times> bool"
    by (rule fuel_ok_strict [OF that(1) fuel_ok_free [OF that(2)] that(3)])
      (intro fuel_ok_seqE e end_scope_rd brk fuel_ok_free [OF basic_fuel(1)])
  have free: "fuel_ok (seqE m (\<lambda>x. retE (f x))) (Suc n)" if "fuel_free m" for m :: "'a rd" and f
    by (rule fuel_ok_free) (intro rd_fuel that)
  have split_if: "fuel_ok (if c then a else b) k" if "c \<Longrightarrow> fuel_ok a k" "\<not> c \<Longrightarrow> fuel_ok b k" for c a b k
    using that by simp
  have h: "fuel_ok (skip_header brk h) (Suc n)" for h
    unfolding skip_header_def Let_def read_elem_count_str_def read_elem_count_bin_def read_elem_count_ext_def
    by (intro split_if fb begin_strict begin_rd free elem_count_rd(2) read_number_rd(2) fuel_ok_free rd_fuel) simp_all
  have post: "fuel_ok (case p of (n, st) \<Rightarrow> seqE (if st then step_context_on_skip else retE ())
      (\<lambda>_. discard_n_bytes (unat n))) k" for p :: "u32 \<times> bool" and k
    by (cases p) (auto intro!: fuel_ok_free rd_fuel)
  show ?thesis
    unfolding skip_with_def
    by (intro fuel_ok_seqE h post skip_rd brk fuel_ok_free [OF basic_fuel(2)] rd_shrinks)
qed

lemma scopes_stay_fuel: "fuel_ok m k \<Longrightarrow> fuel_ok (scopes_stay m) k"
  unfolding fuel_ok_def scopes_stay_def by (auto simp: seqE_def split: prod.split sum.split)

lemma break_loop_fuel:
  assumes "fuel_ok (seqE (scopes_stay (skip_with (break_scope n))) (\<lambda>_. break_scope n)) k"
  shows "fuel_ok (break_scope (Suc n)) k"
proof -
  have upd: "shrinks (updE (if c then upd_scope f else id))" "fuel_free (updE (if c then upd_scope f else id))"
    for c and f
    by (cases c; simp; intro rd_shrinks rd_fuel)+
  have "fuel_ok (if elems_left e > 0
       then seqE (updE (if kind e = Type_object \<and> even (unat (elems_left e))
                        then upd_scope (\<lambda>e. e\<lparr>reading_key := True\<rparr>) else id)) (\<lambda>_.
            seqE (scopes_stay (skip_with (break_scope n))) (\<lambda>_. break_scope n))
       else pop_scope) k" for e
  proof (cases "elems_left e > 0")
    case True
    then show ?thesis
      by (simp only: if_True) (rule fuel_ok_seqE [OF fuel_ok_free [OF upd(2)] upd(1) assms])
  next
    case False
    then show ?thesis using fuel_ok_free [OF basic_fuel(7)] by simp
  qed
  then show ?thesis
    unfolding break_scope.simps(2) by (rule fuel_ok_seqE [OF fuel_ok_free [OF basic_fuel(5)] basic_shrinks(6)])
qed

lemma break_fuel: "fuel_ok (break_scope (Suc n)) n"
proof (induction n)
  case 0
  show ?case
    by (rule break_loop_fuel) (auto simp: fuel_ok_def scopes_stay_def skip_with_def seqE_def peek_header_def)
next
  case (Suc n)
  have sk: "fuel_ok (skip_with (break_scope (Suc n))) (Suc n)" by (intro skip_fuel break_rd Suc)
  show ?case
    by (rule break_loop_fuel, rule fuel_ok_strict [OF scopes_stay_strict [OF skip_strict [OF break_rd]]
          scopes_stay_fuel [OF sk] scopes_stay_rd [OF skip_rd(2) [OF break_rd]] Suc])
qed

text \<open>Skipping, and closing a container early, always come back.\<close>

lemma skip_enough_fuel:
  assumes "length (input s) < n"
  shows "fst (break_scope n s) \<noteq> Inl Out_of_fuel" and "fst (skip_once n s) \<noteq> Inl Out_of_fuel"
proof -
  from assms obtain k where k: "n = Suc k" "length (input s) \<le> k" by (cases n) auto
  show "fst (break_scope n s) \<noteq> Inl Out_of_fuel"
    using break_fuel [of k] k by (simp add: fuel_ok_def del: break_scope.simps)
  have "fuel_ok (skip_with (break_scope n)) (Suc k)"
    unfolding k(1) by (intro skip_fuel break_rd break_fuel)
  with k show "fst (skip_once n s) \<noteq> Inl Out_of_fuel" by (simp add: fuel_ok_def skip_once_def)
qed

lemma end_scope_fuel:
  assumes "length (input s) < n"
  shows "fst (end_scope (break_scope n) ty key s) \<noteq> Inl Out_of_fuel"
proof -
  from assms obtain k where k: "n = Suc k" "length (input s) \<le> k" by (cases n) auto
  have "fuel_ok (end_scope (break_scope n) ty key) k"
    unfolding end_scope_def k(1)
    by (intro fuel_ok_seqE fuel_ok_free [OF calc_fuel] rd_shrinks fuel_ok_repeatE break_rd break_fuel)
  with k show ?thesis by (simp add: fuel_ok_def)
qed

section \<open>Enough room for the scopes\<close>

text \<open>Calls that open no scope leave the capacity of the vector alone.\<close>

named_theorems rd_tame

definition tame :: "'a rd \<Rightarrow> bool" where
  "tame m \<longleftrightarrow> (\<forall>s. length (scopes (snd (m s))) \<le> length (scopes s) \<and> scope_cap (snd (m s)) = scope_cap s
     \<and> fst (m s) \<noteq> Inl Stale_scope)"

lemma tameD:
  assumes "tame m" "m s = (r, s')"
  shows "length (scopes s') \<le> length (scopes s)" "scope_cap s' = scope_cap s" "r \<noteq> Inl Stale_scope"
  using assms by (metis fst_conv snd_conv tame_def)+

lemma tame_seqE [rd_tame]:
  assumes "tame m" "\<And>x. tame (f x)"
  shows "tame (seqE m f)"
  unfolding tame_def
proof
  fix s
  obtain r s' where m: "m s = (r, s')" by fastforce
  note 1 = tameD [OF assms(1) m]
  show "length (scopes (snd (seqE m f s))) \<le> length (scopes s) \<and> scope_cap (snd (seqE m f s)) = scope_cap s
     \<and> fst (seqE m f s) \<noteq> Inl Stale_scope"
  proof (cases r)
    case (Inr x)
    obtain r2 s2 where f: "f x s' = (r2, s2)" by fastforce
    show ?thesis using m Inr 1 tameD [OF assms(2) f] by (simp add: seqE_def f)
  qed (use m 1 in \<open>simp add: seqE_def\<close>)
qed

lemma basic_tame [rd_tame]:
  "tame (retE x)" "e \<noteq> Stale_scope \<Longrightarrow> tame (throwE e)" "tame peek_header" "tame bump_char" "tame (sgetn n)"
  "tame scope_ref" "tame (updE (upd_scope f))" "tame pop_scope" "tame verify_not_key_type" "tame (updE id)"
  by (auto simp: tame_def retE_def throwE_def peek_header_def bump_char_def sgetn_def scope_ref_def updE_def
      upd_scope_def pop_scope_def verify_not_key_type_def split: list.splits)

lemma get_n_tame [rd_tame]: "tame (get_n k)"
  by (induction k) (auto intro: rd_tame)

lemma discard_tame [rd_tame]: "tame (discard_n_bytes n)"
proof (induction n rule: discard_n_bytes.induct)
  case (1 n)
  show ?case using 1 by (subst discard_n_bytes.simps) (auto simp: Let_def intro!: rd_tame)
qed

lemma step_tame [rd_tame]: "tame decrement_elems" "tame step_context" "tame step_context_on_skip"
proof -
  show d: "tame decrement_elems" unfolding decrement_elems_def by (auto intro!: rd_tame)
  have u: "tame (seqE (updE (upd_scope f)) (\<lambda>_. decrement_elems))" for f by (auto intro!: rd_tame d)
  have "length (scopes (snd (step_context s))) \<le> length (scopes s) \<and> scope_cap (snd (step_context s)) = scope_cap s
      \<and> fst (step_context s) \<noteq> Inl Stale_scope" for s
    using spec [OF d [unfolded tame_def], of s] spec [OF u [of "\<lambda>e. e\<lparr>reading_key := False\<rparr>", unfolded tame_def], of s]
    by (cases "scopes s") (auto simp: step_context_def simp del: seqE_upd)
  then show "tame step_context" by (simp add: tame_def)
  show "tame step_context_on_skip" using d by (auto simp: tame_def step_context_on_skip_def)
qed

lemma bigE_tame [rd_tame]: "tame (bump_n_bigE k)"
  unfolding bump_n_bigE_def get_n_bigE_def by (auto intro!: rd_tame)

lemma read_number_tame [rd_tame]: "tame (read_number h)"
  unfolding read_number_def by (cases "typecode_of h"; simp; intro rd_tame; simp)

lemma elem_count_tame [rd_tame]: "tame (read_elem_count b k f m h)"
  unfolding read_elem_count_def Let_def by (auto intro!: rd_tame)

lemma scope_tame [rd_tame]: "tame elem_left" "tame (verify_scope ty)"
  unfolding elem_left_def verify_scope_def by (auto intro!: rd_tame)

lemma read_tame [rd_tame]:
  "tame quick_get_num" "tame read_str" "tame type_next" "tame (binary_read_some k)" "tame end_binary" "tame read_key_next"
  unfolding quick_get_num_def read_str_def read_elem_count_str_def type_next_def binary_read_some_def end_binary_def
    read_key_next_def Let_def
  by (auto intro!: rd_tame)

lemma calc_tame [rd_tame]: "tame (calc_num_break_scope ty key)"
proof -
  have "find_break ty key ss \<noteq> Inl Stale_scope" for ss
    by (induction ss) (auto simp: bindE_def split: sum.splits)
  then show ?thesis by (simp add: tame_def calc_num_break_scope_def)
qed

text \<open>With a capacity for as many further scopes as there are bytes left, the vector never grows.\<close>

definition needs :: "reader \<Rightarrow> nat" where
  "needs s = length (input s) + length (scopes s)"

definition fits :: "'a rd \<Rightarrow> bool" where
  "fits m \<longleftrightarrow> (\<forall>s. needs s \<le> scope_cap s \<longrightarrow>
     needs (snd (m s)) \<le> needs s \<and> scope_cap (snd (m s)) = scope_cap s \<and> fst (m s) \<noteq> Inl Stale_scope)"

lemma fitsD:
  assumes "fits m" "needs s \<le> scope_cap s" "m s = (r, s')"
  shows "needs s' \<le> needs s" "scope_cap s' = scope_cap s" "r \<noteq> Inl Stale_scope"
  using assms by (metis fits_def fst_conv snd_conv)+

lemma fits_tame: "tame m \<Longrightarrow> shrinks m \<Longrightarrow> fits m"
  unfolding fits_def needs_def tame_def shrinks_def by (metis add_mono)

lemma fits_seqE:
  assumes "fits m" "\<And>x. fits (f x)"
  shows "fits (seqE m f)"
  unfolding fits_def
proof (intro allI impI)
  fix s assume n: "needs s \<le> scope_cap s"
  obtain r s' where m: "m s = (r, s')" by fastforce
  note 1 = fitsD [OF assms(1) n m]
  show "needs (snd (seqE m f s)) \<le> needs s \<and> scope_cap (snd (seqE m f s)) = scope_cap s \<and> fst (seqE m f s) \<noteq> Inl Stale_scope"
  proof (cases r)
    case (Inr x)
    obtain r2 s2 where f: "f x s' = (r2, s2)" by fastforce
    have "needs s' \<le> scope_cap s'" using 1 n by simp
    from fitsD [OF assms(2) this f] show ?thesis using m Inr 1 f by (simp add: seqE_def)
  qed (use m 1 in \<open>simp add: seqE_def\<close>)
qed

lemma fits_open:
  assumes "tame m" "shrinks m" "strict m" "\<And>s x s'. m s = (Inr x, s') \<Longrightarrow> input s \<noteq> []"
  shows "fits (seqE m (new_scope ty))"
  unfolding fits_def
proof (intro allI impI)
  fix s assume n: "needs s \<le> scope_cap s"
  obtain r s' where m: "m s = (r, s')" by fastforce
  note t = tameD [OF assms(1) m] and l = shrinksD [OF assms(2) m]
  show "needs (snd (seqE m (new_scope ty) s)) \<le> needs s \<and> scope_cap (snd (seqE m (new_scope ty) s)) = scope_cap s
      \<and> fst (seqE m (new_scope ty) s) \<noteq> Inl Stale_scope"
  proof (cases r)
    case (Inr x)
    have "length (input s') < length (input s)" using assms(3,4) m Inr unfolding strict_def by blast
    then have "needs s' < needs s" using t by (simp add: needs_def)
    then show ?thesis using m Inr t n by (simp add: seqE_def new_scope_def Let_def needs_def)
  qed (use m t l in \<open>simp add: seqE_def needs_def\<close>)
qed

lemma fits_begin: "fits begin_array" "fits begin_object"
proof -
  have "fits (seqE verify_not_key_type (\<lambda>_. seqE peek_header (\<lambda>h. seqE (read_elem_count b k f m h) (\<lambda>n.
      seqE step_context (\<lambda>_. new_scope ty n)))))" for b k f m ty
  proof -
    let ?m = "seqE verify_not_key_type (\<lambda>_. seqE peek_header (\<lambda>h. seqE (read_elem_count b k f m h) (\<lambda>n.
      seqE step_context (\<lambda>_. retE n))))"
    have "tame ?m" by (intro rd_tame)
    moreover have "shrinks ?m" by (intro rd_shrinks)
    moreover have "strict ?m" by (rule strict_after, erule verify_input) (auto intro!: strict_peek rd_strict rd_shrinks)
    moreover have "input s \<noteq> []" if a: "?m s = (Inr x, s')" for s x s'
    proof -
      obtain s1 y s2 where "verify_not_key_type s = (Inr (), s1)" "peek_header s1 = (Inr y, s2)" using a by (auto simp: seqE_eq_Inr)
      then show ?thesis using verify_input [of s "Inr ()" s1] by (auto simp: peek_header_def)
    qed
    ultimately have "fits (seqE ?m (new_scope ty))" by (rule fits_open)
    moreover have "seqE ?m (new_scope ty) = seqE verify_not_key_type (\<lambda>_. seqE peek_header (\<lambda>h. seqE (read_elem_count b k f m h) (\<lambda>n.
      seqE step_context (\<lambda>_. new_scope ty n))))"
    proof -
      have "seqE (retE n) (new_scope ty) = new_scope ty n" for n by (simp add: fun_eq_iff)
      then show ?thesis by (simp add: seqE_assoc)
    qed
    ultimately show ?thesis by simp
  qed
  then show "fits begin_array" "fits begin_object"
    unfolding begin_array_def begin_object_def read_elem_count_array_def read_elem_count_map_def by auto
qed

lemma fits_repeatE: "fits m \<Longrightarrow> fits (repeatE k m)"
  by (induction k) (auto intro: fits_seqE fits_tame rd_tame rd_shrinks)

lemma fits_end_scope: "fits brk \<Longrightarrow> fits (end_scope brk ty key)"
  unfolding end_scope_def by (intro fits_seqE fits_tame [OF calc_tame] rd_shrinks fits_repeatE)

lemma fits_scopes_stay: "fits m \<Longrightarrow> fits (scopes_stay m)"
  unfolding fits_def scopes_stay_def
  by (auto simp: seqE_def split: prod.split sum.split)

lemma fits_skip:
  assumes "fits brk"
  shows "fits (skip_with brk)"
proof -
  have split_if: "fits (if c then a else b)" if "c \<Longrightarrow> fits a" "\<not> c \<Longrightarrow> fits b" for c and a b :: "'a rd"
    using that by simp
  have h: "fits (skip_header brk h)" for h
    unfolding skip_header_def Let_def read_elem_count_str_def read_elem_count_bin_def read_elem_count_ext_def
    by (intro split_if fits_seqE fits_begin fits_end_scope assms fits_tame rd_tame rd_shrinks) simp_all
  have post: "fits (case p of (n, st) \<Rightarrow> seqE (if st then step_context_on_skip else retE ())
      (\<lambda>_. discard_n_bytes (unat n)))" for p :: "u32 \<times> bool"
    by (cases p) (auto intro!: fits_tame rd_tame rd_shrinks)
  show ?thesis
    unfolding skip_with_def by (intro fits_seqE h post fits_tame [OF basic_tame(3)] rd_shrinks)
qed

lemma fits_break: "fits (break_scope n)"
proof (induction n)
  case 0
  show ?case by (simp add: fits_tame rd_tame rd_shrinks)
next
  case (Suc n)
  have "fits (updE (upd_scope f))" "fits (updE id)" for f
    by (simp_all add: fits_tame rd_tame rd_shrinks)
  then show ?case
    by (auto intro!: fits_seqE fits_scopes_stay fits_skip Suc fits_tame [OF basic_tame(6)] fits_tame [OF basic_tame(8)] rd_shrinks)
qed

lemma enough_room:
  assumes "length (input s) + length (scopes s) \<le> scope_cap s"
  shows "fst (skip_once n s) \<noteq> Inl Stale_scope" and "fst (end_scope (break_scope n) ty key s) \<noteq> Inl Stale_scope"
  using assms fits_skip [OF fits_break, of n] fits_end_scope [OF fits_break, of n ty key]
  by (simp_all add: fits_def needs_def skip_once_def)

text \<open>No call gives capacity back.\<close>

named_theorems rd_grows

definition grows :: "'a rd \<Rightarrow> bool" where
  "grows m \<longleftrightarrow> (\<forall>s. scope_cap s \<le> scope_cap (snd (m s)))"

lemma growsD: "grows m \<Longrightarrow> m s = (r, s') \<Longrightarrow> scope_cap s \<le> scope_cap s'"
  by (metis grows_def snd_conv)

lemma grows_tame: "tame m \<Longrightarrow> grows m"
  by (simp add: tame_def grows_def)

lemma grows_seqE [rd_grows]:
  assumes "grows m" "\<And>x. grows (f x)"
  shows "grows (seqE m f)"
  unfolding grows_def
proof
  fix s
  obtain r s' where m: "m s = (r, s')" by fastforce
  show "scope_cap s \<le> scope_cap (snd (seqE m f s))"
  proof (cases r)
    case (Inr x)
    have "scope_cap s' \<le> scope_cap (snd (f x s'))" using assms(2) by (simp add: grows_def)
    with growsD [OF assms(1) m] m Inr show ?thesis by (simp add: seqE_def)
  qed (use growsD [OF assms(1) m] m in \<open>simp add: seqE_def\<close>)
qed

lemma basic_grows [rd_grows]:
  "grows (retE x)" "grows (throwE e)" "grows (new_scope ty k)"
  by (simp_all add: grows_def retE_def throwE_def new_scope_def Let_def)

lemma begin_grows [rd_grows]: "grows begin_array" "grows begin_object" "grows begin_binary"
  unfolding begin_array_def begin_object_def begin_binary_def read_elem_count_array_def read_elem_count_map_def read_elem_count_bin_def
  by (intro rd_grows grows_tame [OF basic_tame(9)] grows_tame [OF basic_tame(3)] grows_tame [OF step_tame(2)]
      grows_tame [OF elem_count_tame])+

lemma repeatE_grows [rd_grows]: "grows m \<Longrightarrow> grows (repeatE k m)"
  by (induction k) (auto intro: rd_grows)

lemma end_scope_grows: "grows brk \<Longrightarrow> grows (end_scope brk ty key)"
  unfolding end_scope_def by (intro rd_grows grows_tame [OF calc_tame])

lemma skip_grows:
  assumes "grows brk"
  shows "grows (skip_with brk)"
proof -
  have split_if: "grows (if c then a else b)" if "c \<Longrightarrow> grows a" "\<not> c \<Longrightarrow> grows b" for c and a b :: "'a rd"
    using that by simp
  have h: "grows (skip_header brk h)" for h
    unfolding skip_header_def Let_def read_elem_count_str_def read_elem_count_bin_def read_elem_count_ext_def
    by (intro split_if rd_grows end_scope_grows assms grows_tame [OF read_number_tame] grows_tame [OF elem_count_tame])
  have post: "grows (case p of (n, st) \<Rightarrow> seqE (if st then step_context_on_skip else retE ())
      (\<lambda>_. discard_n_bytes (unat n)))" for p :: "u32 \<times> bool"
    by (cases p) (auto intro!: grows_tame rd_tame)
  show ?thesis
    unfolding skip_with_def by (intro grows_seqE h post grows_tame [OF basic_tame(3)])
qed

lemma break_grows: "grows (break_scope n)"
proof (induction n)
  case 0
  show ?case by (simp add: rd_grows)
next
  case (Suc n)
  have "grows (updE (upd_scope f))" "grows (updE id)" for f
    by (simp_all add: grows_tame rd_tame)
  moreover have "grows (scopes_stay (skip_with (break_scope n)))"
    using skip_grows [OF Suc] unfolding grows_def scopes_stay_def
    by (auto simp: seqE_def split: prod.split sum.split) (metis snd_conv)+
  ultimately show ?case
    by (auto intro!: grows_seqE Suc grows_tame [OF basic_tame(6)] grows_tame [OF basic_tame(8)])
qed

lemma closing_grows [rd_grows]: "grows read_nil" "grows (end_array key)" "grows (end_object key)"
  using skip_grows [OF break_grows] end_scope_grows [OF break_grows]
  unfolding grows_def read_nil_def skip_once_def end_array_def end_object_def by blast+

end
