(* ===== verification/Msgpack_Roundtrip.thy ===== *)
theory Msgpack_Roundtrip
  imports Msgpack_Writer Msgpack_Reader
begin

text \<open>
  The MessagePack writer and reader together. A value tree is written with the calls a client
  makes (\<open>write\<close>, \<open>array_push\<close>, \<open>write_key_next\<close>, ...) and read back with the calls of a client that
  expects a value of that shape. The lemmas follow the encoding: what each write appends
  (from \<open>Msgpack_Writer\<close>) is exactly what the matching read consumes.
\<close>

section \<open>Values and the two clients\<close>

datatype val = VNil | VBool bool | VInt int | VUint nat | VFloat u32 | VDouble u64
  | VStr "byte list" | VBin "byte list" | VArr "val list" | VMap "(byte list \<times> val) list"

fun write_val :: "val \<Rightarrow> unit mw"
  and write_vals :: "val list \<Rightarrow> unit mw"
  and write_entries :: "(byte list \<times> val) list \<Rightarrow> unit mw"
where
  "write_val VNil = write_nil"
| "write_val (VBool b) = write_bool b"
| "write_val (VInt i) = write_int i"
| "write_val (VUint n) = write_uint n"
| "write_val (VFloat f) = write_float f"
| "write_val (VDouble d) = write_double d"
| "write_val (VStr s) = write_str s"
| "write_val (VBin b) = write_buffer b"
| "write_val (VArr vs) = seqE (array_push (length vs)) (\<lambda>_. seqE (write_vals vs) (\<lambda>_. array_pop))"
| "write_val (VMap es) = seqE (object_push (length es)) (\<lambda>_. seqE (write_entries es) (\<lambda>_. object_pop))"
| "write_vals [] = retE ()"
| "write_vals (v # vs) = seqE (write_val v) (\<lambda>_. write_vals vs)"
| "write_entries [] = retE ()"
| "write_entries ((k, v) # es) =
     seqE mw_write_key_next (\<lambda>_. seqE (write_str k) (\<lambda>_. seqE (write_val v) (\<lambda>_. write_entries es)))"

text \<open>The reading client knows the shape: the constructors and lengths of \<open>val\<close>, not its contents.\<close>

record casts =
  cast_int :: "num \<Rightarrow> int"
  cast_bool :: "num \<Rightarrow> bool"
  cast_float :: "num \<Rightarrow> u32"
  cast_double :: "num \<Rightarrow> u64"

fun read_val :: "casts \<Rightarrow> val \<Rightarrow> val rd"
  and read_vals :: "casts \<Rightarrow> val list \<Rightarrow> val list rd"
  and read_entries :: "casts \<Rightarrow> (byte list \<times> val) list \<Rightarrow> (byte list \<times> val) list rd"
where
  "read_val c VNil = seqE read_nil (\<lambda>_. retE VNil)"
| "read_val c (VBool _) = seqE (read_bool (cast_bool c)) (\<lambda>b. retE (VBool b))"
| "read_val c (VInt _) = seqE (read_signed (cast_int c) 64) (\<lambda>i. retE (VInt i))"
| "read_val c (VUint _) = seqE (read_unsigned (cast_int c) 64) (\<lambda>i. retE (VUint (nat i)))"
| "read_val c (VFloat _) = seqE (read_float (cast_float c)) (\<lambda>f. retE (VFloat f))"
| "read_val c (VDouble _) = seqE (read_double (cast_double c)) (\<lambda>d. retE (VDouble d))"
| "read_val c (VStr _) = seqE read_str (\<lambda>s. retE (VStr s))"
| "read_val c (VBin _) =
     seqE begin_binary (\<lambda>n. seqE (binary_read_some (unat n)) (\<lambda>b. seqE end_binary (\<lambda>_. retE (VBin b))))"
| "read_val c (VArr vs) =
     seqE begin_array (\<lambda>key. seqE (read_vals c vs) (\<lambda>xs. seqE (end_array key) (\<lambda>_. retE (VArr xs))))"
| "read_val c (VMap es) =
     seqE begin_object (\<lambda>key. seqE (read_entries c es) (\<lambda>xs. seqE (end_object key) (\<lambda>_. retE (VMap xs))))"
| "read_vals c [] = retE []"
| "read_vals c (v # vs) = seqE (read_val c v) (\<lambda>x. seqE (read_vals c vs) (\<lambda>xs. retE (x # xs)))"
| "read_entries c [] = retE []"
| "read_entries c ((k, v) # es) =
     seqE read_key_next (\<lambda>_. seqE read_str (\<lambda>x. seqE (read_val c v) (\<lambda>y.
     seqE (read_entries c es) (\<lambda>xs. retE ((x, y) # xs)))))"

text \<open>
  The values the code can represent: integers in the 64-bit ranges, sizes accepted by the writer's
  32-bit check, and objects whose doubled count fits the reader's 32-bit counter.
\<close>

fun wf_val :: "val \<Rightarrow> bool" where
  "wf_val (VInt i) \<longleftrightarrow> - (2 ^ 63) \<le> i \<and> i < 2 ^ 63"
| "wf_val (VUint n) \<longleftrightarrow> n < 2 ^ 64"
| "wf_val (VStr s) \<longleftrightarrow> length s < 2 ^ 32 - 1"
| "wf_val (VBin s) \<longleftrightarrow> length s < 2 ^ 32 - 1"
| "wf_val (VArr vs) \<longleftrightarrow> length vs < 2 ^ 32 - 1 \<and> list_all wf_val vs"
| "wf_val (VMap es) \<longleftrightarrow> length es < 2 ^ 31 \<and> list_all (\<lambda>(k, v). length k < 2 ^ 32 - 1 \<and> wf_val v) es"
| "wf_val _ \<longleftrightarrow> True"

fun enc_val :: "val \<Rightarrow> byte list" where
  "enc_val VNil = [0xc0]"
| "enc_val (VBool b) = [if b then 0xc3 else 0xc2]"
| "enc_val (VInt i) = enc_int i"
| "enc_val (VUint n) = enc_uint n"
| "enc_val (VFloat f) = 0xca # be 4 (unat f)"
| "enc_val (VDouble d) = 0xcb # be 8 (unat d)"
| "enc_val (VStr s) = enc_str s"
| "enc_val (VBin s) = enc_bin s"
| "enc_val (VArr vs) = seq_header 0x90 0xdc (length vs) @ concat (map enc_val vs)"
| "enc_val (VMap es) = seq_header 0x80 0xde (length es) @ concat (map (\<lambda>(k, v). enc_str k @ enc_val v) es)"

section \<open>The writing client\<close>

lemma writes_ok:
  "wf_val v \<Longrightarrow> value_ready (wscopes w) \<Longrightarrow>
     write_val v w = (Inr (), wrote (enc_val v) (after_value (wscopes w)) w)"
  "list_all wf_val vs \<Longrightarrow> wscopes w = arr i n # ss \<Longrightarrow> i + length vs \<le> n \<Longrightarrow> n < 2 ^ 64 \<Longrightarrow>
     write_vals vs w = (Inr (), wrote (concat (map enc_val vs)) (arr (i + length vs) n # ss) w)"
  "list_all (\<lambda>(k, v). length k < 2 ^ 32 - 1 \<and> wf_val v) es \<Longrightarrow> wscopes w = obj False i n # ss \<Longrightarrow> even i \<Longrightarrow>
     i + 2 * length es \<le> n * 2 \<Longrightarrow> n * 2 < 2 ^ 64 \<Longrightarrow>
     write_entries es w = (Inr (), wrote (concat (map (\<lambda>(k, v). enc_str k @ enc_val v) es))
       (obj False (i + 2 * length es) n # ss) w)"
proof (induction v and vs and es arbitrary: w and w i n ss and w i n ss rule: write_val_write_vals_write_entries.induct)
  case (9 vs)
  then have n: "length vs < 2 ^ 32 - 1" by simp
  let ?w1 = "wrote (seq_header 0x90 0xdc (length vs)) (arr 0 (length vs) # after_value (wscopes w)) w"
  have "write_vals vs ?w1 = (Inr (), wrote (concat (map enc_val vs)) (arr (length vs) (length vs) # after_value (wscopes w)) ?w1)"
    using "9.IH" [where w = ?w1 and i = 0 and n = "length vs" and ss = "after_value (wscopes w)"] "9.prems" by simp
  then show ?case
    using array_push_ok [OF "9.prems"(2) n] array_pop_ok by (simp add: seqE_def)
next
  case (10 es)
  then have n: "length es < 2 ^ 32 - 1" by simp
  let ?w1 = "wrote (seq_header 0x80 0xde (length es)) (obj False 0 (length es) # after_value (wscopes w)) w"
  let ?bs = "concat (map (\<lambda>(k, v). enc_str k @ enc_val v) es)"
  have "write_entries es ?w1 = (Inr (), wrote ?bs (obj False (length es * 2) (length es) # after_value (wscopes w)) ?w1)"
    using "10.IH" [where w = ?w1 and i = 0 and n = "length es" and ss = "after_value (wscopes w)"] "10.prems" by (simp add: mult.commute)
  then show ?case
    using object_push_ok [OF "10.prems"(2) n] object_pop_ok by (simp add: seqE_def)
next
  case (12 v vs)
  have v: "write_val v w = (Inr (), wrote (enc_val v) (arr (Suc i) n # ss) w)"
    using "12.IH"(1) [where w = w] "12.prems" by simp
  show ?case
    using "12.IH"(2) [where w = "wrote (enc_val v) (arr (Suc i) n # ss) w" and i = "Suc i"] "12.prems"
    by (simp add: seqE_def v)
next
  case (14 k v es)
  have i: "even i" "i < n * 2" "Suc i < n * 2" using "14.prems" by (auto elim!: evenE oddE)
  let ?w1 = "wrote [] (obj True (Suc i) n # ss) w"
  let ?w2 = "wrote (enc_str k) (obj False (Suc i) n # ss) w"
  let ?w3 = "wrote (enc_str k @ enc_val v) (obj False (Suc (Suc i)) n # ss) w"
  have 1: "mw_write_key_next w = (Inr (), ?w1)" by (rule key_next_ok [OF "14.prems"(2) i(1,2) "14.prems"(5)])
  have 2: "write_str k ?w1 = (Inr (), ?w2)"
    using write_str_ok [OF write_step_key [of ?w1 i n ss]] "14.prems" i by simp
  have 3: "write_val v ?w2 = (Inr (), ?w3)"
    using "14.IH"(1) [where w = ?w2] "14.prems" i by simp
  show ?case
    using "14.IH"(2) [where w = ?w3 and i = "Suc (Suc i)"] "14.prems" i
    by (simp add: seqE_def 1 2 3)
qed (auto simp: write_small_ok write_int_ok write_uint_ok write_str_ok write_buffer_ok write_step_value retE_def)

section \<open>Headers as the reader sees them\<close>

lemma sint_byte: "- 128 \<le> v \<Longrightarrow> v < 128 \<Longrightarrow> sint (of_int v :: byte) = v"
  by (simp add: signed_of_int signed_take_bit_int_eq_self)

lemma to_signed_mod: "w > 0 \<Longrightarrow> - (2 ^ (w - 1)) \<le> v \<Longrightarrow> v < 2 ^ (w - 1) \<Longrightarrow> to_signed w v = v"
  "to_signed w (v mod 2 ^ w) = to_signed w v"
proof -
  show "to_signed w (v mod 2 ^ w) = to_signed w v" by (simp add: to_signed_def)
  assume w: "w > 0" and v: "- (2 ^ (w - 1)) \<le> v" "v < 2 ^ (w - 1)"
  have p: "(2::int) ^ w = 2 * 2 ^ (w - 1)" using w by (cases w) simp_all
  show "to_signed w v = v"
  proof (cases "v \<ge> 0")
    case True
    then have "v mod 2 ^ w = v" using v p by (intro mod_pos_pos_trivial) auto
    with v show ?thesis by (simp add: to_signed_def)
  next
    case False
    then have "v mod 2 ^ w = v + 2 ^ w" using v p mod_pos_pos_trivial [of "v + 2 ^ w" "2 ^ w"] by simp
    with v p False show ?thesis by (simp add: to_signed_def)
  qed
qed

lemma code_headers:
  "typecode_of 0xc0 = Nil_code" "typecode_of 0xc2 = Bool_false" "typecode_of 0xc3 = Bool_true"
  "typecode_of 0xca = Float32" "typecode_of 0xcb = Float64"
  "typecode_of 0xcd = Uint16" "typecode_of 0xce = Uint32" "typecode_of 0xcf = Uint64"
  "typecode_of 0xd1 = Int16" "typecode_of 0xd2 = Int32" "typecode_of 0xd3 = Int64"
  "typecode_of 0xc4 = Bin8" "typecode_of 0xc5 = Bin16" "typecode_of 0xc6 = Bin32"
  "typecode_of 0xd9 = Str8" "typecode_of 0xda = Str16" "typecode_of 0xdb = Str32"
  "typecode_of 0xdc = Array16" "typecode_of 0xdd = Array32" "typecode_of 0xde = Map16" "typecode_of 0xdf = Map32"
  using typecode_of_code [of Nil_code] typecode_of_code [of Bool_false] typecode_of_code [of Bool_true]
    typecode_of_code [of Float32] typecode_of_code [of Float64]
    typecode_of_code [of Uint16] typecode_of_code [of Uint32] typecode_of_code [of Uint64]
    typecode_of_code [of Int16] typecode_of_code [of Int32] typecode_of_code [of Int64]
    typecode_of_code [of Bin8] typecode_of_code [of Bin16] typecode_of_code [of Bin32]
    typecode_of_code [of Str8] typecode_of_code [of Str16] typecode_of_code [of Str32]
    typecode_of_code [of Array16] typecode_of_code [of Array32] typecode_of_code [of Map16] typecode_of_code [of Map32]
  by simp_all

lemma offset_codes:
  "do_offset Str8 0 = Str8" "do_offset Str8 1 = Str16" "do_offset Str8 2 = Str32"
  "do_offset Bin8 0 = Bin8" "do_offset Bin8 1 = Bin16" "do_offset Bin8 2 = Bin32"
  "do_offset Array16 (- 1) = Str32" "do_offset Array16 0 = Array16" "do_offset Array16 1 = Array32"
  "do_offset Map16 (- 1) = Array32" "do_offset Map16 0 = Map16" "do_offset Map16 1 = Map32"
  by (simp_all add: do_offset_def code_headers)

text \<open>A read succeeds with a value and moves the reader over the given bytes.\<close>

definition reads :: "'a rd \<Rightarrow> byte list \<Rightarrow> rscope list \<Rightarrow> 'a \<Rightarrow> rscope list \<Rightarrow> bool" where
  "reads m bs ss x ss' \<longleftrightarrow> (\<forall>rest s. \<exists>s'. m (at (bs @ rest) ss s) = (Inr x, at rest ss' s'))"

lemma readsI: "(\<And>rest s. m (at (bs @ rest) ss s) = (Inr x, at rest ss' s)) \<Longrightarrow> reads m bs ss x ss'"
  unfolding reads_def by blast

lemma reads_seqE:
  "reads m bs ss x ss' \<Longrightarrow> reads (f x) bs' ss' y ss'' \<Longrightarrow> reads (seqE m f) (bs @ bs') ss y ss''"
  unfolding reads_def by (metis append.assoc seqE_Inr)

lemma reads_ret: "reads (retE x) [] ss x ss"
  by (rule readsI) (simp add: retE_def)

lemma reads_seqE_ret: "reads m bs ss x ss' \<Longrightarrow> reads (seqE m (\<lambda>x. retE (f x))) bs ss (f x) ss'"
  using reads_seqE [OF _ reads_ret] by fastforce

lemma reads_bump: "reads (bump_n_bigE k) (c # be k n) ss (n mod 256 ^ k) ss"
  by (rule readsI) (simp add: bump_n_bigE_at)

lemma reads_bump_char: "reads bump_char [c] ss c ss"
  by (rule readsI) simp

section \<open>Numbers\<close>

definition starts :: "byte list \<Rightarrow> (byte \<Rightarrow> bool) \<Rightarrow> bool" where
  "starts bs P \<longleftrightarrow> (case bs of [] \<Rightarrow> False | h # _ \<Rightarrow> P h)"

lemma reads_int:
  assumes v: "- (2 ^ 63) \<le> v" "v < 2 ^ 63"
  shows "starts (enc_int v) (\<lambda>h. reads (read_number h) (enc_int v) ss (Int_num v) ss)"
proof -
  have be: "reads (seqE (bump_n_bigE k) (\<lambda>n. retE (Int_num (to_signed (8 * k) (int n))))) (c # be k (nat (v mod 2 ^ (8 * k)))) ss
      (Int_num v) ss" if "k > 0" "- (2 ^ (8 * k - 1)) \<le> v" "v < 2 ^ (8 * k - 1)" for k c
  proof -
    have p: "(2::nat) ^ (8 * k) = 256 ^ k" by (simp add: power_mult)
    have "nat (v mod 2 ^ (8 * k)) < 2 ^ (8 * k)" by (simp add: nat_less_iff)
    then have "nat (v mod 2 ^ (8 * k)) mod 256 ^ k = nat (v mod 2 ^ (8 * k))" unfolding p by (rule mod_less)
    moreover have "to_signed (8 * k) (int (nat (v mod 2 ^ (8 * k)))) = v"
      using that to_signed_mod by simp
    ultimately show ?thesis
      using reads_seqE_ret [OF reads_bump [of k c "nat (v mod 2 ^ (8 * k))" ss], of "\<lambda>n. Int_num (to_signed (8 * k) (int n))"]
      by simp
  qed
  consider "0 \<le> v" "v < 0x80" | "- 32 \<le> v" "v < 0"
    | "\<not> (0 \<le> v \<and> v < 0x80)" "\<not> (- 32 \<le> v \<and> v < 0)" "- 0x8000 \<le> v" "v < 0x8000"
    | "\<not> (- 0x8000 \<le> v \<and> v < 0x8000)" "- 0x80000000 \<le> v" "v < 0x80000000"
    | "\<not> (- 0x80000000 \<le> v \<and> v < 0x80000000)" by linarith
  then show ?thesis
  proof cases
    case 1
    define n where "n = nat v"
    have n: "v = int n" "n < 128" using 1 by (auto simp: n_def)
    have "unat (of_int v :: byte) = n" using n by (simp add: unat_of_nat)
    then have "typecode_of (of_int v) = Positive_fixint" using n by (intro typecode_of_ranges) simp
    moreover have "sint (of_int v :: byte) = v" using 1 by (intro sint_byte) auto
    ultimately show ?thesis
      using 1 reads_seqE_ret [OF reads_bump_char [of "of_int v" ss], of "\<lambda>_. Int_num v"]
      by (simp add: starts_def enc_int_def read_number_def)
  next
    case 2
    define n where "n = nat (256 + v)"
    have n: "256 + v = int n" "224 \<le> n" "n < 256" using 2 by (auto simp: n_def)
    have "(of_int (256 + v) :: byte) = of_nat n" by (simp only: n of_int_of_nat_eq)
    then have "unat (of_int (256 + v) :: byte) = n" using n by (simp add: unat_of_nat)
    then have "typecode_of (of_int (256 + v)) = Negative_fixint" using n by (intro typecode_of_ranges) simp
    moreover have "sint (of_int v :: byte) = v" using 2 by (intro sint_byte) auto
    moreover have z: "(256 :: byte) = 0" by simp
    ultimately show ?thesis
      using 2 reads_seqE_ret [OF reads_bump_char [of "of_int v" ss], of "\<lambda>_. Int_num v"]
      by (simp add: starts_def enc_int_def read_number_def z)
  next
    case 3
    then have "enc_int v = 0xd1 # be 2 (nat (v mod 2 ^ 16))" by (auto simp: enc_int_def)
    with 3 be [of 2 "0xd1"] show ?thesis by (simp add: starts_def read_number_def code_headers)
  next
    case 4
    then have "enc_int v = 0xd2 # be 4 (nat (v mod 2 ^ 32))" by (auto simp: enc_int_def)
    with 4 be [of 4 "0xd2"] show ?thesis by (simp add: starts_def read_number_def code_headers)
  next
    case 5
    then have "enc_int v = 0xd3 # be 8 (nat (v mod 2 ^ 64))" by (auto simp: enc_int_def)
    with 5 v be [of 8 "0xd3"] show ?thesis by (simp add: starts_def read_number_def code_headers)
  qed
qed

lemma reads_uint:
  assumes v: "v < 2 ^ 64"
  shows "starts (enc_uint v) (\<lambda>h. reads (read_number h) (enc_uint v) ss (Int_num (int v)) ss)"
proof -
  have be: "reads (seqE (bump_n_bigE k) (\<lambda>n. retE (Int_num (int n)))) (c # be k v) ss (Int_num (int v)) ss"
    if "v < 256 ^ k" for k c
    using reads_seqE_ret [OF reads_bump [of k c v ss], of "\<lambda>n. Int_num (int n)"] that by simp
  consider "v < 0x80" | "\<not> v < 0x80" "v < 0x8000" | "\<not> v < 0x80" "\<not> v < 0x8000" "v < 0x80000000"
    | "\<not> v < 0x80" "\<not> v < 0x8000" "\<not> v < 0x80000000" by linarith
  then show ?thesis
  proof cases
    case 1
    then have "unat (of_nat v :: byte) = v" by (simp add: unat_of_nat)
    then have "typecode_of (of_nat v) = Positive_fixint" using 1 by (intro typecode_of_ranges) simp
    moreover have "sint (of_nat v :: byte) = int v" using sint_byte [of "int v"] 1 by simp
    ultimately show ?thesis
      using 1 reads_seqE_ret [OF reads_bump_char [of "of_nat v" ss], of "\<lambda>_. Int_num (int v)"]
      by (simp add: starts_def enc_uint_def read_number_def)
  next
    case 2
    then show ?thesis using be [of 2 "0xcd"] by (simp add: starts_def enc_uint_def read_number_def code_headers)
  next
    case 3
    then show ?thesis using be [of 4 "0xce"] by (simp add: starts_def enc_uint_def read_number_def code_headers)
  next
    case 4
    then show ?thesis using be [of 8 "0xcf"] v by (simp add: starts_def enc_uint_def read_number_def code_headers)
  qed
qed

lemma reads_flt:
  "reads (read_number 0xca) (0xca # be 4 (unat f)) ss (Float_num f) ss"
  "reads (read_number 0xcb) (0xcb # be 8 (unat d)) ss (Double_num d) ss"
proof -
  have u: "unat f < 256 ^ 4" "unat d < 256 ^ 8"
    using unsigned_less [where w = f and 'a = nat] unsigned_less [where w = d and 'a = nat] by simp_all
  show "reads (read_number 0xca) (0xca # be 4 (unat f)) ss (Float_num f) ss"
    using reads_seqE_ret [OF reads_bump [of 4 "0xca" "unat f" ss], of "\<lambda>n. Float_num (of_nat n)"] u
    by (simp add: read_number_def code_headers)
  show "reads (read_number 0xcb) (0xcb # be 8 (unat d)) ss (Double_num d) ss"
    using reads_seqE_ret [OF reads_bump [of 8 "0xcb" "unat d" ss], of "\<lambda>n. Double_num (of_nat n)"] u
    by (simp add: read_number_def code_headers)
qed

lemma reads_bool: "reads (read_number (if b then 0xc3 else 0xc2)) [if b then 0xc3 else 0xc2] ss (Int_num (of_bool b)) ss"
  using reads_seqE_ret [OF reads_bump_char [of "0xc3" ss], of "\<lambda>_. Int_num 1"]
    reads_seqE_ret [OF reads_bump_char [of "0xc2" ss], of "\<lambda>_. Int_num 0"]
  by (cases b) (simp_all add: read_number_def code_headers)

section \<open>Counts\<close>

lemma reads_fix_count:
  assumes "typecode_of h = fix" "unat (h AND m) = n"
  shows "reads (read_elem_count base k fix m h) [h] ss (of_nat n :: u32) ss"
proof -
  have "(ucast (h AND m) :: u32) = of_nat n" using assms(2) by (metis of_nat_unat)
  then show ?thesis
    using reads_seqE_ret [OF reads_bump_char [of h ss], of "\<lambda>_. ucast (h AND m) :: u32"] assms(1)
    by (simp add: read_elem_count_def Let_def)
qed

lemma reads_be_count: "n < 256 ^ k \<Longrightarrow>
  reads (seqE (bump_n_bigE k) (\<lambda>n. retE (of_nat n))) (c # be k n) ss (of_nat n :: u32) ss"
  using reads_seqE_ret [OF reads_bump [of k c n ss], of of_nat] by simp

lemma count_str:
  assumes "length s < 2 ^ 32 - 1"
  defines "hd_bytes \<equiv> (if length s < 32 then [0xa0 + of_nat (length s)] else size_header 0xd9 (length s))"
  shows "starts hd_bytes (\<lambda>h. reads (read_elem_count_str h) hd_bytes ss (of_nat (length s)) ss)"
proof -
  let ?n = "length s"
  consider "?n < 32" | "\<not> ?n < 32" "?n < 2 ^ 8" | "\<not> ?n < 2 ^ 8" "?n < 2 ^ 16" | "\<not> ?n < 2 ^ 16" by linarith
  then show ?thesis
  proof cases
    case 1
    have u: "unat (0xa0 + of_nat ?n :: byte) = 160 + ?n" using 1 by (simp add: unat_word_ariths unat_of_nat)
    have t: "typecode_of (0xa0 + of_nat ?n) = Fixstr" using 1 u by (intro typecode_of_ranges) auto
    have m: "(31 :: byte) = mask 5" by (simp add: mask_eq_exp_minus_1)
    have "unat ((0xa0 + of_nat ?n) AND 31 :: byte) = ?n"
      unfolding m unat_and_mask u using 1 mod_mult_self2 [of ?n 32 5] by (simp add: add.commute)
    from reads_fix_count [OF t this] 1 show ?thesis
      by (simp add: starts_def hd_bytes_def read_elem_count_str_def)
  next
    case 2
    with reads_be_count [of ?n 1 "0xd9" ss] show ?thesis
      by (simp add: starts_def hd_bytes_def read_elem_count_str_def size_header_def read_elem_count_def code_headers offset_codes)
  next
    case 3
    then have "\<not> ?n < 32" by simp
    with 3 reads_be_count [of ?n 2 "0xda" ss] show ?thesis
      by (simp add: starts_def hd_bytes_def read_elem_count_str_def size_header_def read_elem_count_def code_headers offset_codes)
  next
    case 4
    then have "\<not> ?n < 32" "\<not> ?n < 2 ^ 8" by simp_all
    with 4 reads_be_count [of ?n 4 "0xdb" ss] assms(1) show ?thesis
      by (simp add: starts_def hd_bytes_def read_elem_count_str_def size_header_def read_elem_count_def code_headers offset_codes)
  qed
qed

lemma count_bin:
  assumes "n < 2 ^ 32 - 1"
  shows "starts (size_header 0xc4 n) (\<lambda>h. reads (read_elem_count_bin h) (size_header 0xc4 n) ss (of_nat n) ss)"
proof -
  consider "n < 2 ^ 8" | "\<not> n < 2 ^ 8" "n < 2 ^ 16" | "\<not> n < 2 ^ 8" "\<not> n < 2 ^ 16" by linarith
  then show ?thesis
  proof cases
    case 1
    with reads_be_count [of n 1 "0xc4" ss] show ?thesis
      by (simp add: starts_def read_elem_count_bin_def size_header_def read_elem_count_def code_headers offset_codes)
  next
    case 2
    with reads_be_count [of n 2 "0xc5" ss] show ?thesis
      by (simp add: starts_def read_elem_count_bin_def size_header_def read_elem_count_def code_headers offset_codes)
  next
    case 3
    with reads_be_count [of n 4 "0xc6" ss] assms show ?thesis
      by (simp add: starts_def read_elem_count_bin_def size_header_def read_elem_count_def code_headers offset_codes)
  qed
qed

lemma fix_count:
  assumes "n < 16" "unat (c :: byte) = 16 * q" "q < 16"
  shows "unat (c + of_nat n) = 16 * q + n" and "unat ((c + of_nat n) AND 15) = n"
proof -
  show u: "unat (c + of_nat n) = 16 * q + n"
    using assms by (simp add: unat_word_ariths unat_of_nat)
  have m: "(15 :: byte) = mask 4" by (simp add: mask_eq_exp_minus_1)
  show "unat ((c + of_nat n) AND 15) = n"
    unfolding m unat_and_mask u using assms(1) by simp
qed

lemma count_array:
  assumes "n < 2 ^ 32 - 1"
  shows "starts (seq_header 0x90 0xdc n) (\<lambda>h. reads (read_elem_count_array h) (seq_header 0x90 0xdc n) ss (of_nat n) ss)"
proof -
  consider "n < 16" | "\<not> n < 16" "n < 0x8000" | "\<not> n < 16" "\<not> n < 0x8000" by linarith
  then show ?thesis
  proof cases
    case 1
    note f = fix_count [OF 1, of "0x90" 9, simplified]
    have "typecode_of (0x90 + of_nat n) = Fixarray" using 1 f(1) by (intro typecode_of_ranges) auto
    from reads_fix_count [OF this f(2)] 1 show ?thesis
      by (simp add: starts_def seq_header_def read_elem_count_array_def)
  next
    case 2
    with reads_be_count [of n 2 "0xdc" ss] show ?thesis
      by (simp add: starts_def read_elem_count_array_def seq_header_def read_elem_count_def code_headers offset_codes)
  next
    case 3
    with reads_be_count [of n 4 "0xdd" ss] assms show ?thesis
      by (simp add: starts_def read_elem_count_array_def seq_header_def read_elem_count_def code_headers offset_codes)
  qed
qed

lemma count_map:
  assumes "n < 2 ^ 32 - 1"
  shows "starts (seq_header 0x80 0xde n) (\<lambda>h. reads (read_elem_count_map h) (seq_header 0x80 0xde n) ss (of_nat n) ss)"
proof -
  consider "n < 16" | "\<not> n < 16" "n < 0x8000" | "\<not> n < 16" "\<not> n < 0x8000" by linarith
  then show ?thesis
  proof cases
    case 1
    note f = fix_count [OF 1, of "0x80" 8, simplified]
    have "typecode_of (0x80 + of_nat n) = Fixmap" using 1 f(1) by (intro typecode_of_ranges) auto
    from reads_fix_count [OF this f(2)] 1 show ?thesis
      by (simp add: starts_def seq_header_def read_elem_count_map_def)
  next
    case 2
    with reads_be_count [of n 2 "0xde" ss] show ?thesis
      by (simp add: starts_def read_elem_count_map_def seq_header_def read_elem_count_def code_headers offset_codes)
  next
    case 3
    with reads_be_count [of n 4 "0xdf" ss] assms show ?thesis
      by (simp add: starts_def read_elem_count_map_def seq_header_def read_elem_count_def code_headers offset_codes)
  qed
qed

section \<open>The context of a read\<close>

definition dec :: "rscope \<Rightarrow> rscope" where
  "dec e = e\<lparr>elems_left := elems_left e - 1\<rparr>"

text \<open>Scopes in which a value comes next, and the scopes after it.\<close>

definition rready :: "rscope list \<Rightarrow> bool" where
  "rready ss = (case ss of [] \<Rightarrow> True
     | e # _ \<Rightarrow> (kind e = Type_array \<and> elems_left e \<noteq> 0)
       \<or> (kind e = Type_object \<and> odd (unat (elems_left e)) \<and> \<not> reading_key e))"

definition rafter :: "rscope list \<Rightarrow> rscope list" where
  "rafter ss = (case ss of [] \<Rightarrow> [] | e # r \<Rightarrow> dec e # r)"

lemma odd_not_zero: "odd (unat w) \<Longrightarrow> w \<noteq> 0"
  by (metis even_zero unat_0)

lemma upd_scope_at [simp]: "upd_scope f (at bs (e # r) s) = at bs (f e # r) s"
  by (simp add: upd_scope_def)

lemma decrement_at: "elems_left e \<noteq> 0 \<Longrightarrow> decrement_elems (at bs (e # r) s) = (Inr (), at bs (dec e # r) s)"
  by (simp add: decrement_elems_def scope_ref_def seqE_def updE_def retE_def dec_def)

lemma step_value: "rready ss \<Longrightarrow> reads step_context [] ss () (rafter ss)"
  by (rule readsI, cases ss)
    (auto simp: step_context_def rready_def rafter_def decrement_at odd_not_zero)

lemma skip_step_value: "rready ss \<Longrightarrow> reads step_context_on_skip [] ss () (rafter ss)"
  by (rule readsI, cases ss)
    (auto simp: step_context_on_skip_def rready_def rafter_def decrement_at odd_not_zero)

lemma step_key:
  assumes "kind e = Type_object" "even (unat (elems_left e))" "elems_left e \<noteq> 0" "reading_key e"
  shows "reads step_context [] (e # r) () (dec (e\<lparr>reading_key := False\<rparr>) # r)"
  by (rule readsI) (use assms in \<open>simp add: step_context_def decrement_at seqE_def updE_def\<close>)

lemma not_key_type: "rready ss \<Longrightarrow> reads verify_not_key_type [] ss () ss"
  by (rule readsI, cases ss) (auto simp: verify_not_key_type_def rready_def)

lemma reads_peek:
  "starts bs (\<lambda>h. reads (f h) bs ss x ss') \<Longrightarrow> reads (seqE peek_header f) bs ss x ss'"
  unfolding starts_def
proof (cases bs)
  case (Cons h t)
  assume "case bs of [] \<Rightarrow> False | h # _ \<Rightarrow> reads (f h) bs ss x ss'"
  with Cons show ?thesis by (simp add: reads_def seqE_def)
qed simp

lemma reads_pre: "reads m [] ss x ss1 \<Longrightarrow> reads (f x) bs ss1 y ss' \<Longrightarrow> reads (seqE m f) bs ss y ss'"
  using reads_seqE [of m "[]"] by fastforce

lemma reads_post: "reads m bs ss x ss1 \<Longrightarrow> reads (f x) [] ss1 y ss' \<Longrightarrow> reads (seqE m f) bs ss y ss'"
  using reads_seqE [of m bs ss x ss1 f "[]"] by fastforce

lemma starts_mono: "starts bs P \<Longrightarrow> (\<And>h. P h \<Longrightarrow> Q h) \<Longrightarrow> starts bs Q"
  by (auto simp: starts_def split: list.splits)

lemma starts_append: "starts bs P \<Longrightarrow> starts (bs @ bs') P"
  by (auto simp: starts_def split: list.splits)

lemma reads_quick:
  assumes "starts bs (\<lambda>h. reads (read_number h) bs ss v ss)" "rready ss"
  shows "reads quick_get_num bs ss v (rafter ss)"
  unfolding quick_get_num_def
  by (rule reads_peek, rule starts_mono [OF assms(1)])
    (rule reads_post, assumption, rule reads_pre [OF step_value [OF assms(2)] reads_ret])

lemma reads_string:
  assumes "length v < 2 ^ 32 - 1" and step: "reads step_context [] ss () ss'"
  shows "reads read_str (enc_str v) ss v ss'"
proof -
  define hb where "hb = (if length v < 32 then [0xa0 + of_nat (length v)] else size_header 0xd9 (length v))"
  have u: "unat (of_nat (length v) :: u32) = length v" using assms(1) by (simp add: unat_of_nat)
  have body: "reads (seqE (sgetn (length v)) (\<lambda>bs. retE (bs @ replicate (length v - length bs) 0))) v ss' v ss'"
    by (rule readsI) (simp add: sgetn_at seqE_def retE_def)
  have "starts (hb @ v) (\<lambda>h. reads (seqE (read_elem_count_str h) (\<lambda>buflen. seqE step_context (\<lambda>_.
      seqE (sgetn (unat buflen)) (\<lambda>bs. retE (bs @ replicate (unat buflen - length bs) 0))))) (hb @ v) ss v ss')"
    unfolding hb_def
    by (rule starts_append, rule starts_mono [OF count_str [OF assms(1)]], erule reads_seqE,
        rule reads_pre [OF step]) (use body in \<open>simp add: u\<close>)
  then show ?thesis
    unfolding read_str_def enc_str_def hb_def by (rule reads_peek)
qed

section \<open>Containers\<close>

text \<open>The beginning of a container, given the reading of its count.\<close>

definition begin_scope :: "scope_kind \<Rightarrow> (byte \<Rightarrow> u32 rd) \<Rightarrow> context_key rd" where
  "begin_scope ty count =
     seqE verify_not_key_type (\<lambda>_. seqE peek_header (\<lambda>h. seqE (count h) (\<lambda>n.
     seqE step_context (\<lambda>_. new_scope ty n))))"

lemma begin_scope_eqs:
  "begin_array = begin_scope Type_array read_elem_count_array"
  "begin_object = begin_scope Type_object read_elem_count_map"
  by (simp_all add: begin_array_def begin_object_def begin_scope_def)

lemma reads_at: "reads m bs ss x ss' \<Longrightarrow> \<exists>s'. m (at (bs @ rest) ss s) = (Inr x, at rest ss' s')"
  by (simp add: reads_def)

lemma begin_scope_at:
  assumes r: "rready ss" and cnt: "starts hdr (\<lambda>h. reads (count h) hdr ss k ss)"
  shows "\<exists>e s'. begin_scope ty count (at (hdr @ rest) ss s) = (Inr (ctx_id e, ctx_index e), at rest (e # rafter ss) s')
    \<and> kind e = ty \<and> elems_left e = k * (if ty = Type_object then 2 else 1) \<and> \<not> reading_key e"
proof -
  obtain h t where hdr: "hdr = h # t" and c: "reads (count h) hdr ss k ss"
    using cnt by (auto simp: starts_def split: list.splits)
  obtain s1 where 1: "verify_not_key_type (at (hdr @ rest) ss s) = (Inr (), at (hdr @ rest) ss s1)"
    using reads_at [OF not_key_type [OF r], of "hdr @ rest" s] by auto
  obtain s2 where 2: "count h (at (hdr @ rest) ss s1) = (Inr k, at rest ss s2)"
    using reads_at [OF c] by blast
  obtain s3 where 3: "step_context (at rest ss s2) = (Inr (), at rest (rafter ss) s3)"
    using reads_at [OF step_value [OF r], of rest s2] by auto
  have p: "peek_header (at (hdr @ rest) ss s1) = (Inr h, at (hdr @ rest) ss s1)" by (simp add: hdr)
  define e where "e = \<lparr>ctx_id = key_gen s3 + 1, ctx_index = of_nat (length (rafter ss)), kind = ty,
         elems_left = k * (if ty = Type_object then 2 else 1), reading_key = False\<rparr>"
  define s4 where "s4 = s3\<lparr>key_gen := key_gen s3 + 1, scope_cap := max (scope_cap s3) (length (rafter ss) + 1)\<rparr>"
  have n: "new_scope ty k (at rest (rafter ss) s3) = (Inr (ctx_id e, ctx_index e), at rest (e # rafter ss) s4)"
    by (simp add: new_scope_def at_def Let_def e_def s4_def)
  have "begin_scope ty count (at (hdr @ rest) ss s) = (Inr (ctx_id e, ctx_index e), at rest (e # rafter ss) s4)"
    by (simp add: begin_scope_def seqE_def 1 2 3 p n)
  moreover have "kind e = ty \<and> elems_left e = k * (if ty = Type_object then 2 else 1) \<and> \<not> reading_key e"
    by (simp add: e_def)
  ultimately show ?thesis by blast
qed

text \<open>Opening a container makes the vector hold one scope more.\<close>

lemma begin_scope_cap:
  assumes c: "\<And>h. tame (count h)" and b: "begin_scope ty count s = (Inr key, s')"
  shows "scope_cap s' = max (scope_cap s) (length (scopes s'))"
proof -
  let ?m = "seqE verify_not_key_type (\<lambda>_. seqE peek_header (\<lambda>h. seqE (count h) (\<lambda>n. seqE step_context (\<lambda>_. retE n))))"
  have "seqE (retE n) (new_scope ty) = new_scope ty n" for n by (simp add: fun_eq_iff)
  then have "begin_scope ty count = seqE ?m (new_scope ty)" by (simp add: begin_scope_def seqE_assoc)
  with b obtain n s1 where m: "?m s = (Inr n, s1)" and n: "new_scope ty n s1 = (Inr key, s')"
    by (auto simp: seqE_eq_Inr)
  have "tame ?m" by (intro rd_tame c)
  from tameD(2) [OF this m] n show ?thesis by (auto simp: new_scope_def Let_def)
qed

lemma count_tame [rd_tame]: "tame (read_elem_count_array h)" "tame (read_elem_count_map h)"
  unfolding read_elem_count_array_def read_elem_count_map_def by (intro rd_tame)+

text \<open>Closing a container whose entities have all been read.\<close>

lemma end_scope_at:
  assumes "elems_left e = 0" "kind e = ty" "n > 0"
  shows "end_scope (break_scope n) ty (ctx_id e, ctx_index e) (at bs (e # ss) s) = (Inr (), at bs ss s)"
  using assms
  by (cases n) (simp_all add: end_scope_def calc_num_break_scope_def seqE_def scope_ref_def pop_scope_def updE_def retE_def)

lemma end_at:
  assumes "elems_left e = 0"
  shows "kind e = Type_array \<Longrightarrow> end_array (ctx_id e, ctx_index e) (at bs (e # ss) s) = (Inr (), at bs ss s)"
    and "kind e = Type_object \<Longrightarrow> end_object (ctx_id e, ctx_index e) (at bs (e # ss) s) = (Inr (), at bs ss s)"
  using end_scope_at [OF assms] by (simp_all add: end_array_def end_object_def fuel_for_def del: break_scope.simps)

lemma reads_container:
  assumes r: "rready ss" and cnt: "starts hdr (\<lambda>h. reads (count h) hdr ss k ss)"
    and fin: "\<And>e bs s. kind e = ty \<Longrightarrow> elems_left e = 0 \<Longrightarrow>
      finish (ctx_id e, ctx_index e) (at bs (e # rafter ss) s) = (Inr (), at bs (rafter ss) s)"
    and body: "\<And>e. kind e = ty \<Longrightarrow> elems_left e = k * (if ty = Type_object then 2 else 1) \<Longrightarrow> \<not> reading_key e \<Longrightarrow>
      reads body bs (e # rafter ss) x (e\<lparr>elems_left := 0\<rparr> # rafter ss)"
  shows "reads (seqE (begin_scope ty count) (\<lambda>key. seqE body (\<lambda>x. seqE (finish key) (\<lambda>_. retE (f x))))) (hdr @ bs) ss (f x) (rafter ss)"
  unfolding reads_def
proof (intro allI)
  fix rest s
  obtain e s1 where e: "begin_scope ty count (at (hdr @ (bs @ rest)) ss s) = (Inr (ctx_id e, ctx_index e), at (bs @ rest) (e # rafter ss) s1)"
    "kind e = ty" "elems_left e = k * (if ty = Type_object then 2 else 1)" "\<not> reading_key e"
    using begin_scope_at [OF r cnt, of ty "bs @ rest" s] by blast
  obtain s2 where 2: "body (at (bs @ rest) (e # rafter ss) s1) = (Inr x, at rest (e\<lparr>elems_left := 0\<rparr> # rafter ss) s2)"
    using reads_at [OF body [OF e(2-4)]] by blast
  have "finish (ctx_id e, ctx_index e) (at rest (e\<lparr>elems_left := 0\<rparr> # rafter ss) s2) = (Inr (), at rest (rafter ss) s2)"
    using fin [of "e\<lparr>elems_left := 0\<rparr>"] e(2) by simp
  with e 2 show "\<exists>s'. seqE (begin_scope ty count) (\<lambda>key. seqE body (\<lambda>x. seqE (finish key) (\<lambda>_. retE (f x))))
      (at ((hdr @ bs) @ rest) ss s) = (Inr (f x), at rest (rafter ss) s')"
    by (auto simp: seqE_def retE_def)
qed

text \<open>Binary data.\<close>

lemma reads_binary:
  assumes r: "rready ss" and n: "length b < 2 ^ 32 - 1"
  shows "reads (seqE begin_binary (\<lambda>n. seqE (binary_read_some (unat n)) (\<lambda>b. seqE end_binary (\<lambda>_. retE (VBin b)))))
    (enc_bin b) ss (VBin b) (rafter ss)"
  unfolding reads_def
proof (intro allI)
  fix rest s
  let ?n = "length b" and ?hdr = "size_header 0xc4 (length b)"
  have u: "unat (of_nat ?n :: u32) = ?n" using n by (simp add: unat_of_nat)
  obtain h t where hdr: "?hdr = h # t" and c: "reads (read_elem_count_bin h) ?hdr ss (of_nat ?n) ss"
    using count_bin [OF n, of ss] by (auto simp: starts_def split: list.splits)
  obtain s2 where 2: "read_elem_count_bin h (at (?hdr @ (b @ rest)) ss s) = (Inr (of_nat ?n), at (b @ rest) ss s2)"
    using reads_at [OF c] by blast
  obtain s3 where 3: "step_context (at (b @ rest) ss s2) = (Inr (), at (b @ rest) (rafter ss) s3)"
    using reads_at [OF step_value [OF r], of "b @ rest" s2] by auto
  define e where "e = \<lparr>ctx_id = key_gen s3 + 1, ctx_index = of_nat (length (rafter ss)), kind = Type_binary,
         elems_left = of_nat ?n, reading_key = False\<rparr>"
  define s4 where "s4 = s3\<lparr>key_gen := key_gen s3 + 1, scope_cap := max (scope_cap s3) (length (rafter ss) + 1)\<rparr>"
  have p: "peek_header (at (?hdr @ (b @ rest)) ss s) = (Inr h, at (?hdr @ (b @ rest)) ss s)" by (simp add: hdr)
  have 4: "new_scope Type_binary (of_nat ?n) (at (b @ rest) (rafter ss) s3) =
      (Inr (ctx_id e, ctx_index e), at (b @ rest) (e # rafter ss) s4)"
    by (simp add: new_scope_def at_def Let_def e_def s4_def)
  have beg: "begin_binary (at (?hdr @ (b @ rest)) ss s) = (Inr (of_nat ?n), at (b @ rest) (e # rafter ss) s4)"
    by (simp add: begin_binary_def seqE_def p 2 3 4 retE_def)
  have rd: "binary_read_some ?n (at (b @ rest) (e # rafter ss) s4) = (Inr b, at rest (e\<lparr>elems_left := 0\<rparr> # rafter ss) s4)"
    using n u by (simp add: binary_read_some_def verify_scope_def scope_ref_def seqE_def e_def retE_def sgetn_at updE_def Let_def)
  have fin: "end_binary (at rest (e\<lparr>elems_left := 0\<rparr> # rafter ss) s4) = (Inr (), at rest (rafter ss) s4)"
    by (simp add: end_binary_def verify_scope_def scope_ref_def seqE_def e_def retE_def discard_n_bytes.simps pop_scope_def updE_def)
  show "\<exists>s'. seqE begin_binary (\<lambda>n. seqE (binary_read_some (unat n)) (\<lambda>b. seqE end_binary (\<lambda>_. retE (VBin b))))
      (at (enc_bin b @ rest) ss s) = (Inr (VBin b), at rest (rafter ss) s')"
    by (auto simp: enc_bin_def seqE_def beg rd fin u retE_def)
qed

lemma reads_nil: "rready ss \<Longrightarrow> reads read_nil [0xc0] ss () (rafter ss)"
  unfolding reads_def
proof (intro allI)
  fix rest s assume r: "rready ss"
  obtain s2 where 2: "step_context_on_skip (at (0xc0 # rest) ss s) = (Inr (), at (0xc0 # rest) (rafter ss) s2)"
    using reads_at [OF skip_step_value [OF r], of "0xc0 # rest" s] by auto
  have "discard_n_bytes (Suc 0) (at ([0xc0] @ rest) (rafter ss) s2) = (Inr (), at rest (rafter ss) s2)"
    by (rule discard_at) simp
  then have d: "discard_n_bytes (Suc 0) (at (0xc0 # rest) (rafter ss) s2) = (Inr (), at rest (rafter ss) s2)"
    by (simp only: append.simps)
  show "\<exists>s'. read_nil (at ([0xc0] @ rest) ss s) = (Inr (), at rest (rafter ss) s')"
    by (rule exI [of _ s2])
      (simp add: read_nil_def skip_once_def skip_with_def seqE_def skip_header_def code_headers retE_def 2 d)
qed

section \<open>The reading client\<close>

lemma unat_count: "k < 2 ^ 32 \<Longrightarrow> unat (of_nat k :: u32) = k"
  by (simp add: unat_of_nat)

lemma count_nonzero: "Suc k < 2 ^ 32 \<Longrightarrow> (of_nat (Suc k) :: u32) \<noteq> 0"
  using unat_count [of "Suc k"] by (metis nat.distinct(1) unat_0)

lemma reads_key_next:
  assumes "kind e = Type_object" "\<not> reading_key e" "even (unat (elems_left e))"
  shows "reads read_key_next [] (e # r) () (e\<lparr>reading_key := True\<rparr> # r)"
  by (rule readsI) (use assms in \<open>simp add: read_key_next_def verify_scope_def scope_ref_def seqE_def retE_def updE_def\<close>)

lemma reads_val:
  "wf_val v \<Longrightarrow> rready ss \<Longrightarrow> reads (read_val c v) (enc_val v) ss v (rafter ss)"
  "list_all wf_val vs \<Longrightarrow> kind e = Type_array \<Longrightarrow> elems_left e = of_nat (length vs + m) \<Longrightarrow> length vs + m < 2 ^ 32 \<Longrightarrow>
     reads (read_vals c vs) (concat (map enc_val vs)) (e # r) vs (e\<lparr>elems_left := of_nat m\<rparr> # r)"
  "list_all (\<lambda>(k, v). length k < 2 ^ 32 - 1 \<and> wf_val v) es \<Longrightarrow> kind e = Type_object \<Longrightarrow> \<not> reading_key e \<Longrightarrow>
     elems_left e = of_nat (2 * (length es + m)) \<Longrightarrow> 2 * (length es + m) < 2 ^ 32 \<Longrightarrow>
     reads (read_entries c es) (concat (map (\<lambda>(k, v). enc_str k @ enc_val v) es)) (e # r) es
       (e\<lparr>elems_left := of_nat (2 * m)\<rparr> # r)"
proof (induction c v and c vs and c es arbitrary: ss and e r m and e r m rule: read_val_read_vals_read_entries.induct)
  case (1 c)
  then show ?case using reads_seqE_ret [OF reads_nil, of ss "\<lambda>_. VNil"] by simp
next
  case (2 c b)
  have "starts [if b then 0xc3 else 0xc2] (\<lambda>h. reads (read_number h) [if b then 0xc3 else 0xc2] ss (Int_num (of_bool b)) ss)"
    using reads_bool [of b ss] by (simp add: starts_def)
  from reads_quick [OF this "2.prems"(2)] show ?case
    using reads_seqE_ret [where f = "\<lambda>v. VBool (case v of Int_num i \<Rightarrow> i \<noteq> 0 | _ \<Rightarrow> cast_bool c v)"] 
    by (fastforce simp: read_bool_def dest!: reads_seqE_ret [where f = "\<lambda>v. case v of Int_num i \<Rightarrow> i \<noteq> 0 | _ \<Rightarrow> cast_bool c v"]
        reads_seqE_ret [where f = VBool])
next
  case (3 c i)
  then have i: "- (2 ^ 63) \<le> i" "i < 2 ^ 63" by auto
  have "to_signed 64 i = i" using i by (intro to_signed_mod) auto
  then have "reads (read_signed (cast_int c) 64) (enc_int i) ss i (rafter ss)"
    using reads_seqE_ret [OF reads_quick [OF reads_int [OF i] "3.prems"(2)],
        of "\<lambda>v. to_signed 64 (case v of Int_num i \<Rightarrow> i | _ \<Rightarrow> cast_int c v)"]
    by (simp add: read_signed_def)
  from reads_seqE_ret [OF this, of VInt] show ?case by simp
next
  case (4 c n)
  then have n: "n < 2 ^ 64" by simp
  then have "int n mod 2 ^ 64 = int n" by simp
  then have "reads (read_unsigned (cast_int c) 64) (enc_uint n) ss (int n) (rafter ss)"
    using reads_seqE_ret [OF reads_quick [OF reads_uint [OF n] "4.prems"(2)],
        of "\<lambda>v. (case v of Int_num i \<Rightarrow> i | _ \<Rightarrow> cast_int c v) mod 2 ^ 64"]
    by (simp add: read_unsigned_def)
  from reads_seqE_ret [OF this, of "\<lambda>i. VUint (nat i)"] show ?case by simp
next
  case (5 c f)
  have "starts (0xca # be 4 (unat f)) (\<lambda>h. reads (read_number h) (0xca # be 4 (unat f)) ss (Float_num f) ss)"
    using reads_flt(1) by (simp add: starts_def)
  from reads_seqE_ret [OF reads_seqE_ret [OF reads_quick [OF this "5.prems"(2)],
        of "\<lambda>v. case v of Float_num f \<Rightarrow> f | _ \<Rightarrow> cast_float c v"], of VFloat]
  show ?case by (simp add: read_float_def)
next
  case (6 c d)
  have "starts (0xcb # be 8 (unat d)) (\<lambda>h. reads (read_number h) (0xcb # be 8 (unat d)) ss (Double_num d) ss)"
    using reads_flt(2) by (simp add: starts_def)
  from reads_seqE_ret [OF reads_seqE_ret [OF reads_quick [OF this "6.prems"(2)],
        of "\<lambda>v. case v of Double_num d \<Rightarrow> d | _ \<Rightarrow> cast_double c v"], of VDouble]
  show ?case by (simp add: read_double_def)
next
  case (7 c s)
  then show ?case
    using reads_seqE_ret [OF reads_string [OF _ step_value], of s ss VStr] by simp
next
  case (8 c b)
  then show ?case using reads_binary [of ss b] by simp
next
  case (9 c vs)
  then have n: "length vs < 2 ^ 32 - 1" by simp
  show ?case
    unfolding read_val.simps enc_val.simps begin_scope_eqs
  proof (rule reads_container [OF "9.prems"(2) count_array [OF n]])
    fix e :: rscope and bs s assume "kind e = Type_array" "elems_left e = 0"
    then show "end_array (ctx_id e, ctx_index e) (at bs (e # rafter ss) s) = (Inr (), at bs (rafter ss) s)"
      by (intro end_at)
  next
    fix e :: rscope assume "kind e = Type_array" "elems_left e = of_nat (length vs) * (if Type_array = Type_object then 2 else 1)"
    then show "reads (read_vals c vs) (concat (map enc_val vs)) (e # rafter ss) vs (e\<lparr>elems_left := 0\<rparr> # rafter ss)"
      using "9.IH" [where e = e and m = 0] "9.prems" n by simp
  qed
next
  case (10 c es)
  then have n: "length es < 2 ^ 32 - 1" "2 * length es < 2 ^ 32" by simp_all
  show ?case
    unfolding read_val.simps enc_val.simps begin_scope_eqs
  proof (rule reads_container [OF "10.prems"(2) count_map [OF n(1)]])
    fix e :: rscope and bs s assume "kind e = Type_object" "elems_left e = 0"
    then show "end_object (ctx_id e, ctx_index e) (at bs (e # rafter ss) s) = (Inr (), at bs (rafter ss) s)"
      by (intro end_at)
  next
    fix e :: rscope assume "kind e = Type_object" "\<not> reading_key e"
      "elems_left e = of_nat (length es) * (if Type_object = Type_object then 2 else 1)"
    then show "reads (read_entries c es) (concat (map (\<lambda>(k, v). enc_str k @ enc_val v) es)) (e # rafter ss) es
        (e\<lparr>elems_left := 0\<rparr> # rafter ss)"
      using "10.IH" [where e = e and m = 0] "10.prems" n by simp
  qed
next
  case (11 c)
  then have "e\<lparr>elems_left := of_nat m\<rparr> = e" by (cases e) simp
  then show ?case using reads_ret [of "[]" "e # r"] by simp
next
  case (12 c v vs)
  have nz: "elems_left e \<noteq> 0" using "12.prems" count_nonzero [of "length vs + m"] by simp
  have v: "reads (read_val c v) (enc_val v) (e # r) v (dec e # r)"
    using "12.IH"(1) [where ss = "e # r"] "12.prems" nz by (simp add: rready_def rafter_def)
  have vs: "reads (read_vals c vs) (concat (map enc_val vs)) (dec e # r) vs (e\<lparr>elems_left := of_nat m\<rparr> # r)"
    using "12.IH"(2) [where e = "dec e" and r = r and m = m] "12.prems" by (simp add: dec_def)
  show ?case
    unfolding read_vals.simps list.map concat.simps
    by (rule reads_seqE [OF v]) (rule reads_seqE_ret [OF vs, of "\<lambda>xs. v # xs"])
next
  case (13 c)
  then have "e\<lparr>elems_left := of_nat (2 * m)\<rparr> = e" by (cases e) simp
  then show ?case using reads_ret [of "[]" "e # r"] by simp
next
  case (14 c k v es)
  let ?n = "2 * (length es + m)"
  have el: "elems_left e = of_nat (Suc (Suc ?n))" and lt: "Suc (Suc ?n) < 2 ^ 32" using "14.prems" by auto
  have ev: "even (unat (elems_left e))" unfolding el unat_count [OF lt] by simp
  have nz: "elems_left e \<noteq> 0" unfolding el using lt by (rule count_nonzero)
  define e1 where "e1 = e\<lparr>reading_key := True\<rparr>"
  define e2 where "e2 = dec (e1\<lparr>reading_key := False\<rparr>)"
  have 1: "reads read_key_next [] (e # r) () (e1 # r)"
    unfolding e1_def using "14.prems" ev by (intro reads_key_next)
  have "reads step_context [] (e1 # r) () (e2 # r)"
    unfolding e2_def using "14.prems" ev nz by (intro step_key) (simp_all add: e1_def)
  then have 2: "reads read_str (enc_str k) (e1 # r) k (e2 # r)"
    using "14.prems" by (intro reads_string) auto
  have e2: "elems_left e2 = of_nat (Suc ?n)" "kind e2 = Type_object" "\<not> reading_key e2"
    using "14.prems" el by (simp_all add: e2_def e1_def dec_def)
  have lt2: "Suc ?n < 2 ^ 32" using lt by simp
  have "odd (unat (elems_left e2))" unfolding e2(1) unat_count [OF lt2] by simp
  with e2 have 3: "reads (read_val c v) (enc_val v) (e2 # r) v (dec e2 # r)"
    using "14.IH"(1) [where ss = "e2 # r"] "14.prems" by (simp add: rready_def rafter_def)
  have "elems_left (dec e2) = of_nat ?n" using e2 by (simp add: dec_def)
  then have 4: "reads (read_entries c es) (concat (map (\<lambda>(k, v). enc_str k @ enc_val v) es)) (dec e2 # r) es
      ((dec e2)\<lparr>elems_left := of_nat (2 * m)\<rparr> # r)"
    using "14.IH"(2) [where e = "dec e2" and r = r and m = m] "14.prems" e2 by (simp add: dec_def)
  have e4: "(dec e2)\<lparr>elems_left := of_nat (2 * m)\<rparr> = e\<lparr>elems_left := of_nat (2 * m)\<rparr>"
    using "14.prems"(3) by (simp add: dec_def e2_def e1_def)
  show ?case
    unfolding read_entries.simps list.map concat.simps prod.case append.assoc
    by (rule reads_pre [OF 1], rule reads_seqE [OF 2], rule reads_seqE [OF 3])
      (rule reads_seqE_ret [OF 4 [unfolded e4], of "\<lambda>xs. (k, v) # xs"])
qed

lemma read_val_grows [rd_grows]: "grows (read_val c v)" "grows (read_vals c vs)" "grows (read_entries c es)"
  by (induction c v and c vs and c es rule: read_val_read_vals_read_entries.induct)
    (auto simp: read_bool_def read_signed_def read_unsigned_def read_float_def read_double_def
      intro!: rd_grows grows_tame [OF read_tame(1)] grows_tame [OF read_tame(2)] grows_tame [OF read_tame(4)]
        grows_tame [OF read_tame(5)] grows_tame [OF read_tame(6)])

section \<open>Skipping\<close>

definition scalar :: "val \<Rightarrow> bool" where
  "scalar v = (case v of VArr _ \<Rightarrow> False | VMap _ \<Rightarrow> False | _ \<Rightarrow> True)"

text \<open>What the reader can skip: no object in it has a container for a value.\<close>

fun skippable :: "val \<Rightarrow> bool" where
  "skippable (VArr vs) \<longleftrightarrow> list_all skippable vs"
| "skippable (VMap es) \<longleftrightarrow> list_all (\<lambda>(k, v). scalar v) es"
| "skippable _ \<longleftrightarrow> True"

lemma number_header:
  "reads (read_number h) bs ss x ss' \<Longrightarrow>
   typecode_of h \<in> {Positive_fixint, Negative_fixint, Bool_false, Bool_true, Float32, Float64,
              Uint8, Uint16, Uint32, Uint64, Int8, Int16, Int32, Int64}"
  by (cases "typecode_of h") (simp_all add: reads_def read_number_def throwE_def)

lemma str_header: "reads (read_elem_count_str h) bs ss x ss' \<Longrightarrow> typecode_of h \<in> {Fixstr, Str8, Str16, Str32}"
  by (auto simp: reads_def read_elem_count_str_def read_elem_count_def Let_def offset_codes throwE_def split: if_splits)

lemma starts_conj: "starts bs P \<Longrightarrow> starts bs Q \<Longrightarrow> starts bs (\<lambda>h. P h \<and> Q h)"
  by (auto simp: starts_def split: list.splits)

lemma size_header_codes: "starts (size_header 0xc4 n) (\<lambda>h. typecode_of h \<in> {Bin8, Bin16, Bin32})"
  by (simp add: starts_def size_header_def code_headers)

lemma seq_header_codes:
  "starts (seq_header 0x90 0xdc n) (\<lambda>h. typecode_of h \<in> {Fixarray, Array16, Array32})"
  "starts (seq_header 0x80 0xde n) (\<lambda>h. typecode_of h \<in> {Fixmap, Map16, Map32})"
proof -
  have "typecode_of (0x90 + of_nat n) = Fixarray" if "n < 16"
    using fix_count(1) [OF that, of "0x90" 9] that by (intro typecode_of_ranges) auto
  then show "starts (seq_header 0x90 0xdc n) (\<lambda>h. typecode_of h \<in> {Fixarray, Array16, Array32})"
    by (simp add: starts_def seq_header_def code_headers)
  have "typecode_of (0x80 + of_nat n) = Fixmap" if "n < 16"
    using fix_count(1) [OF that, of "0x80" 8] that by (intro typecode_of_ranges) auto
  then show "starts (seq_header 0x80 0xde n) (\<lambda>h. typecode_of h \<in> {Fixmap, Map16, Map32})"
    by (simp add: starts_def seq_header_def code_headers)
qed

lemma skip_item:
  assumes "starts bs (\<lambda>h. reads (skip_header brk h) bs ss (k, True) ss)"
    and "reads step_context_on_skip [] ss () ss'" and "length body = unat k"
  shows "reads (skip_with brk) (bs @ body) ss () ss'"
proof -
  have d: "reads (discard_n_bytes (unat k)) body ss' () ss'"
    by (rule readsI) (simp add: discard_at assms(3))
  show ?thesis
    unfolding skip_with_def
    by (rule reads_peek, rule starts_append, rule starts_mono [OF assms(1)], erule reads_seqE)
      (simp add: reads_pre [OF assms(2) d])
qed

lemma skip_number:
  assumes "starts bs (\<lambda>h. reads (read_number h) bs ss x ss)" "reads step_context_on_skip [] ss () ss'"
  shows "reads (skip_with brk) bs ss () ss'"
proof -
  have "starts bs (\<lambda>h. reads (skip_header brk h) bs ss (0, True) ss)"
  proof (rule starts_mono [OF assms(1)])
    fix h assume r: "reads (read_number h) bs ss x ss"
    show "reads (skip_header brk h) bs ss (0, True) ss"
      using number_header [OF r] reads_seqE_ret [OF r, of "\<lambda>_. (0 :: u32, True)"]
      by (simp add: skip_header_def Let_def)
  qed
  from skip_item [OF this assms(2), of "[]"] show ?thesis by simp
qed

lemma skip_scalar:
  assumes "scalar v" "wf_val v" and st: "reads step_context_on_skip [] ss () ss'"
  shows "reads (skip_with brk) (enc_val v) ss () ss'"
proof (cases v)
  case VNil
  have "skip_header brk 0xc0 = retE (1, True)" by (simp add: skip_header_def code_headers)
  then have "starts [] (\<lambda>h. False) \<or> reads (skip_header brk 0xc0) [] ss (1, True) ss"
    using reads_ret by metis
  then have h: "reads (skip_header brk 0xc0) [] ss (1, True) ss" by (simp add: starts_def)
  have d: "reads (discard_n_bytes (unat (1 :: u32))) [0xc0] ss' () ss'"
    by (rule readsI) (rule discard_at, simp)
  have b: "reads (seqE (skip_header brk 0xc0) (\<lambda>(skip_bytes, step).
      seqE (if step then step_context_on_skip else retE ()) (\<lambda>_. discard_n_bytes (unat skip_bytes)))) [0xc0] ss () ss'"
    by (rule reads_pre [OF h]) (simp add: reads_pre [OF st d [simplified]])
  show ?thesis
    unfolding skip_with_def VNil enc_val.simps by (rule reads_peek) (use b in \<open>simp add: starts_def\<close>)
next
  case (VStr s)
  then have n: "length s < 2 ^ 32 - 1" using assms(2) by simp
  then have u: "unat (of_nat (length s) :: u32) = length s" by (simp add: unat_of_nat)
  let ?hb = "if length s < 32 then [0xa0 + of_nat (length s)] else size_header 0xd9 (length s)"
  have "starts ?hb (\<lambda>h. reads (skip_header brk h) ?hb ss (of_nat (length s), True) ss)"
  proof (rule starts_mono [OF count_str [OF n]])
    fix h assume r: "reads (read_elem_count_str h) ?hb ss (of_nat (length s)) ss"
    show "reads (skip_header brk h) ?hb ss (of_nat (length s), True) ss"
      using str_header [OF r] reads_seqE_ret [OF r, of "\<lambda>n. (n, True)"]
      by (auto simp: skip_header_def Let_def)
  qed
  from skip_item [OF this st, of s] u VStr show ?thesis by (simp add: enc_str_def)
next
  case (VBin s)
  then have n: "length s < 2 ^ 32 - 1" using assms(2) by simp
  then have u: "unat (of_nat (length s) :: u32) = length s" by (simp add: unat_of_nat)
  let ?hb = "size_header 0xc4 (length s)"
  have "starts ?hb (\<lambda>h. reads (skip_header brk h) ?hb ss (of_nat (length s), True) ss)"
  proof (rule starts_mono [OF starts_conj [OF count_bin [OF n] size_header_codes]])
    fix h assume r: "reads (read_elem_count_bin h) ?hb ss (of_nat (length s)) ss \<and> typecode_of h \<in> {Bin8, Bin16, Bin32}"
    show "reads (skip_header brk h) ?hb ss (of_nat (length s), True) ss"
      using r reads_seqE_ret [OF conjunct1 [OF r], of "\<lambda>n. (n, True)"]
      by (auto simp: skip_header_def Let_def)
  qed
  from skip_item [OF this st, of s] u VBin show ?thesis by (simp add: enc_bin_def)
next
  case (VBool b)
  have "starts [if b then 0xc3 else 0xc2] (\<lambda>h. reads (read_number h) [if b then 0xc3 else 0xc2] ss (Int_num (of_bool b)) ss)"
    using reads_bool [of b ss] by (simp add: starts_def)
  from skip_number [OF this st] VBool show ?thesis by simp
next
  case (VInt i)
  then show ?thesis using skip_number [OF reads_int st, of i] assms(2) by simp
next
  case (VUint n)
  then show ?thesis using skip_number [OF reads_uint st, of n] assms(2) by simp
next
  case (VFloat f)
  have "starts (0xca # be 4 (unat f)) (\<lambda>h. reads (read_number h) (0xca # be 4 (unat f)) ss (Float_num f) ss)"
    using reads_flt(1) by (simp add: starts_def)
  from skip_number [OF this st] VFloat show ?thesis by simp
next
  case (VDouble d)
  have "starts (0xcb # be 8 (unat d)) (\<lambda>h. reads (read_number h) (0xcb # be 8 (unat d)) ss (Double_num d) ss)"
    using reads_flt(2) by (simp add: starts_def)
  from skip_number [OF this st] VDouble show ?thesis by simp
qed (use assms(1) in \<open>simp_all add: scalar_def\<close>)

text \<open>
  Skipping opens a scope for every container, and what \<open>_break_scope\<close> needs is that the vector of scopes
  does not grow while one of its frames holds a pointer. \<open>skips d\<close> says when skipping an item of depth \<open>d\<close>
  succeeds, \<open>breaks d\<close> when the items left in a scope can be skipped, \<open>d\<close> being the depth of the deepest.
\<close>

fun depth :: "val \<Rightarrow> nat" where
  "depth (VArr vs) = Suc (foldr (\<lambda>v d. max (depth v) d) vs 0)"
| "depth (VMap es) = Suc (foldr (\<lambda>(k, v) d. max (depth v) d) es 0)"
| "depth _ = 0"

definition skips :: "nat \<Rightarrow> unit rd \<Rightarrow> byte list \<Rightarrow> rscope list \<Rightarrow> rscope list \<Rightarrow> bool" where
  "skips d m bs ss ss' \<longleftrightarrow> (\<forall>rest s.
     if d \<le> 1 \<or> length ss + d \<le> scope_cap s
     then \<exists>s'. m (at (bs @ rest) ss s) = (Inr (), at rest ss' s')
       \<and> scope_cap s' = (if d = 0 then scope_cap s else max (scope_cap s) (length ss + d))
     else fst (m (at (bs @ rest) ss s)) = Inl Stale_scope)"

definition breaks :: "nat \<Rightarrow> unit rd \<Rightarrow> byte list \<Rightarrow> rscope list \<Rightarrow> rscope list \<Rightarrow> bool" where
  "breaks d m bs ss ss' \<longleftrightarrow> (\<forall>rest s.
     if d = 0 \<or> length ss + d \<le> scope_cap s
     then \<exists>s'. m (at (bs @ rest) ss s) = (Inr (), at rest ss' s') \<and> scope_cap s' = scope_cap s
     else fst (m (at (bs @ rest) ss s)) = Inl Stale_scope)"

lemma skips_at:
  assumes "skips d m bs ss ss'"
  shows "d \<le> 1 \<or> length ss + d \<le> scope_cap s \<Longrightarrow> \<exists>s'. m (at (bs @ rest) ss s) = (Inr (), at rest ss' s')
       \<and> scope_cap s' = (if d = 0 then scope_cap s else max (scope_cap s) (length ss + d))"
    and "\<not> (d \<le> 1 \<or> length ss + d \<le> scope_cap s) \<Longrightarrow> fst (m (at (bs @ rest) ss s)) = Inl Stale_scope"
  using spec [OF spec [OF assms [unfolded skips_def], of rest], of s] by (simp_all only: if_True if_False)

lemma breaks_at:
  assumes "breaks d m bs ss ss'"
  shows "d = 0 \<or> length ss + d \<le> scope_cap s \<Longrightarrow> \<exists>s'. m (at (bs @ rest) ss s) = (Inr (), at rest ss' s') \<and> scope_cap s' = scope_cap s"
    and "\<not> (d = 0 \<or> length ss + d \<le> scope_cap s) \<Longrightarrow> fst (m (at (bs @ rest) ss s)) = Inl Stale_scope"
  using spec [OF spec [OF assms [unfolded breaks_def], of rest], of s] by (simp_all only: if_True if_False)

lemma skips_stay:
  assumes "skips d m bs ss ss'"
  shows "breaks d (scopes_stay m) bs ss ss'"
  unfolding breaks_def
proof (intro allI)
  fix rest s
  let ?r = "m (at (bs @ rest) ss s)"
  show "if d = 0 \<or> length ss + d \<le> scope_cap s
     then \<exists>s'. scopes_stay m (at (bs @ rest) ss s) = (Inr (), at rest ss' s') \<and> scope_cap s' = scope_cap s
     else fst (scopes_stay m (at (bs @ rest) ss s)) = Inl Stale_scope"
  proof (cases "d \<le> 1 \<or> length ss + d \<le> scope_cap s")
    case True
    then obtain s' where "?r = (Inr (), at rest ss' s')"
      "scope_cap s' = (if d = 0 then scope_cap s else max (scope_cap s) (length ss + d))"
      using skips_at(1) [OF assms] by blast
    then show ?thesis by (auto simp: scopes_stay_def seqE_def)
  next
    case False
    then have "fst ?r = Inl Stale_scope" by (rule skips_at(2) [OF assms])
    then show ?thesis using False by (cases ?r) (auto simp: scopes_stay_def seqE_def)
  qed
qed

lemma breaks_seqE:
  assumes "breaks d m bs ss ss1" "breaks d' m' bs' ss1 ss2" "length ss1 = length ss"
  shows "breaks (max d d') (seqE m (\<lambda>_. m')) (bs @ bs') ss ss2"
  unfolding breaks_def
proof (intro allI)
  fix rest s
  let ?r = "m (at ((bs @ bs') @ rest) ss s)"
  show "if max d d' = 0 \<or> length ss + max d d' \<le> scope_cap s
     then \<exists>s'. seqE m (\<lambda>_. m') (at ((bs @ bs') @ rest) ss s) = (Inr (), at rest ss2 s') \<and> scope_cap s' = scope_cap s
     else fst (seqE m (\<lambda>_. m') (at ((bs @ bs') @ rest) ss s)) = Inl Stale_scope"
  proof (cases "d = 0 \<or> length ss + d \<le> scope_cap s")
    case True
    then obtain s1 where "?r = (Inr (), at (bs' @ rest) ss1 s1)" and c: "scope_cap s1 = scope_cap s"
      using breaks_at(1) [OF assms(1), of s "bs' @ rest"] by auto
    then have e: "seqE m (\<lambda>_. m') (at ((bs @ bs') @ rest) ss s) = m' (at (bs' @ rest) ss1 s1)"
      by (simp add: seqE_def)
    show ?thesis
      using breaks_at [OF assms(2), of s1 rest] True
      unfolding e c assms(3) by (auto simp: max_def)
  next
    case False
    then have "fst ?r = Inl Stale_scope" using breaks_at(2) [OF assms(1), of s "bs' @ rest"] by simp
    then have "fst (seqE m (\<lambda>_. m') (at ((bs @ bs') @ rest) ss s)) = Inl Stale_scope"
      by (cases ?r) (auto simp: seqE_def)
    then show ?thesis using False by auto
  qed
qed

text \<open>Only the headers of containers open scopes.\<close>

definition plain_header :: "byte \<Rightarrow> bool" where
  "plain_header h \<longleftrightarrow> typecode_of h \<notin> {Fixarray, Array16, Array32, Fixmap, Map16, Map32}"

lemma skip_plain_tame: "plain_header h \<Longrightarrow> tame (skip_header brk h)"
  unfolding plain_header_def skip_header_def Let_def read_elem_count_str_def read_elem_count_bin_def read_elem_count_ext_def
  by (cases "typecode_of h"; simp; intro rd_tame; simp)

lemma skip_plain_cap:
  assumes "starts bs plain_header" "skip_with brk (at (bs @ rest) ss s) = (r, s')"
  shows "scope_cap s' = scope_cap s"
proof -
  obtain h t where bs: "bs = h # t" "plain_header h" using assms(1) by (auto simp: starts_def split: list.splits)
  have t: "tame (seqE (skip_header brk h) (\<lambda>(skip_bytes, step).
     seqE (if step then step_context_on_skip else retE ()) (\<lambda>_. discard_n_bytes (unat skip_bytes))))"
    by (intro tame_seqE skip_plain_tame bs(2)) (auto intro!: rd_tame split: prod.splits)
  have "skip_with brk (at (bs @ rest) ss s) = seqE (skip_header brk h) (\<lambda>(skip_bytes, step).
     seqE (if step then step_context_on_skip else retE ()) (\<lambda>_. discard_n_bytes (unat skip_bytes))) (at (bs @ rest) ss s)"
    by (simp add: skip_with_def bs seqE_def)
  with tameD(2) [OF t, of "at (bs @ rest) ss s" r s'] assms(2) show ?thesis by simp
qed

lemma scalar_header:
  assumes "scalar v" "wf_val v"
  shows "starts (enc_val v) plain_header"
proof -
  have n: "plain_header h" if "reads (read_number h) bs ss x ss" for h bs ss x
    using number_header [OF that] by (auto simp: plain_header_def)
  have s: "plain_header h" if "reads (read_elem_count_str h) bs ss x ss" for h bs ss x
    using str_header [OF that] by (auto simp: plain_header_def)
  show ?thesis
  proof (cases v)
    case (VInt i)
    then show ?thesis using starts_mono [OF reads_int [of i "[]"] n] assms(2) by simp
  next
    case (VUint i)
    then show ?thesis using starts_mono [OF reads_uint [of i "[]"] n] assms(2) by simp
  next
    case (VStr x)
    then have "length x < 2 ^ 32 - 1" using assms(2) by simp
    from starts_append [OF starts_mono [OF count_str [OF this, of "[]"] s]] VStr show ?thesis
      by (simp add: enc_str_def)
  next
    case (VBin x)
    have "starts (size_header 0xc4 (length x)) plain_header"
      by (rule starts_mono [OF size_header_codes]) (auto simp: plain_header_def)
    from starts_append [OF this] VBin show ?thesis by (simp add: enc_bin_def)
  qed (use assms(1) in \<open>simp_all add: scalar_def starts_def plain_header_def code_headers\<close>)
qed

lemma skips_scalar:
  assumes "scalar v" "wf_val v" "reads step_context_on_skip [] ss () ss'"
  shows "skips 0 (skip_with brk) (enc_val v) ss ss'"
  unfolding skips_def
proof (intro allI)
  fix rest s
  obtain s' where s': "skip_with brk (at (enc_val v @ rest) ss s) = (Inr (), at rest ss' s')"
    using reads_at [OF skip_scalar [OF assms]] by blast
  with skip_plain_cap [OF scalar_header [OF assms(1,2)] s'] 
  show "if 0 \<le> (1 :: nat) \<or> length ss + 0 \<le> scope_cap s
     then \<exists>s'. skip_with brk (at (enc_val v @ rest) ss s) = (Inr (), at rest ss' s')
       \<and> scope_cap s' = (if (0 :: nat) = 0 then scope_cap s else max (scope_cap s) (length ss + 0))
     else fst (skip_with brk (at (enc_val v @ rest) ss s)) = Inl Stale_scope"
    by auto
qed

lemma skips_container:
  assumes r: "rready ss" and cnt: "starts hdr (\<lambda>h. reads (count h) hdr ss k ss)" and tm: "\<And>h. tame (count h)"
    and codes: "starts hdr (\<lambda>h. skip_header brk h
        = seqE (begin_scope ty count) (\<lambda>key. seqE (end_scope brk ty key) (\<lambda>_. retE (0, False))))"
    and body: "\<And>e. kind e = ty \<Longrightarrow> elems_left e = k * (if ty = Type_object then 2 else 1) \<Longrightarrow> \<not> reading_key e \<Longrightarrow>
      breaks d brk bs (e # rafter ss) (rafter ss)"
  shows "skips (Suc d) (skip_with brk) (hdr @ bs) ss (rafter ss)"
  unfolding skips_def
proof (intro allI)
  fix rest s
  obtain h t where hdr: "hdr = h # t" and sk: "skip_header brk h
        = seqE (begin_scope ty count) (\<lambda>key. seqE (end_scope brk ty key) (\<lambda>_. retE (0, False)))"
    using codes by (auto simp: starts_def split: list.splits)
  obtain e s1 where e: "begin_scope ty count (at (hdr @ (bs @ rest)) ss s) = (Inr (ctx_id e, ctx_index e), at (bs @ rest) (e # rafter ss) s1)"
    "kind e = ty" "elems_left e = k * (if ty = Type_object then 2 else 1)" "\<not> reading_key e"
    using begin_scope_at [OF r cnt, of ty "bs @ rest" s] by blast
  have len: "length (rafter ss) = length ss" by (simp add: rafter_def split: list.splits)
  have cap: "scope_cap s1 = max (scope_cap s) (length ss + 1)"
    using begin_scope_cap [OF tm e(1)] len by simp
  have p: "peek_header (at (hdr @ (bs @ rest)) ss s) = (Inr h, at (hdr @ (bs @ rest)) ss s)" by (simp add: hdr)
  have sw: "skip_with brk (at ((hdr @ bs) @ rest) ss s) = (case brk (at (bs @ rest) (e # rafter ss) s1) of
      (Inl x, s') \<Rightarrow> (Inl x, s') | (Inr u, s') \<Rightarrow> (Inr (), s'))"
    using e(2)
    by (cases "brk (at (bs @ rest) (e # rafter ss) s1)"; cases "fst (brk (at (bs @ rest) (e # rafter ss) s1))")
      (simp_all add: skip_with_def seqE_def p sk e(1) end_scope_def calc_num_break_scope_def retE_def discard_n_bytes.simps)
  show "if Suc d \<le> 1 \<or> length ss + Suc d \<le> scope_cap s
     then \<exists>s'. skip_with brk (at ((hdr @ bs) @ rest) ss s) = (Inr (), at rest (rafter ss) s')
       \<and> scope_cap s' = (if Suc d = 0 then scope_cap s else max (scope_cap s) (length ss + Suc d))
     else fst (skip_with brk (at ((hdr @ bs) @ rest) ss s)) = Inl Stale_scope"
  proof (cases "d = 0 \<or> length (e # rafter ss) + d \<le> scope_cap s1")
    case True
    then obtain s2 where "brk (at (bs @ rest) (e # rafter ss) s1) = (Inr (), at rest (rafter ss) s2)" "scope_cap s2 = scope_cap s1"
      using breaks_at(1) [OF body [OF e(2-4)] True] by blast
    then show ?thesis using True len cap sw by auto
  next
    case False
    then have "fst (brk (at (bs @ rest) (e # rafter ss) s1)) = Inl Stale_scope"
      by (rule breaks_at(2) [OF body [OF e(2-4)]])
    then show ?thesis using False len cap sw by (auto split: prod.splits)
  qed
qed

lemma skip_array_header: "typecode_of h \<in> {Fixarray, Array16, Array32} \<Longrightarrow> skip_header brk h
    = seqE (begin_scope Type_array read_elem_count_array) (\<lambda>key. seqE (end_scope brk Type_array key) (\<lambda>_. retE (0, False)))"
  by (auto simp: skip_header_def Let_def begin_scope_eqs)

lemma skip_map_header: "typecode_of h \<in> {Fixmap, Map16, Map32} \<Longrightarrow> skip_header brk h
    = seqE (begin_scope Type_object read_elem_count_map) (\<lambda>key. seqE (end_scope brk Type_object key) (\<lambda>_. retE (0, False)))"
  by (auto simp: skip_header_def Let_def begin_scope_eqs)

lemma breaks_stop: "elems_left e = 0 \<Longrightarrow> breaks 0 (break_scope (Suc n)) [] (e # r) r"
  by (auto simp: breaks_def scope_ref_def seqE_def pop_scope_def updE_def)

lemma breaks_step:
  assumes nz: "elems_left e \<noteq> 0"
    and item: "skips d (skip_with (break_scope n)) bs
      ((if kind e = Type_object \<and> even (unat (elems_left e)) then e\<lparr>reading_key := True\<rparr> else e) # r) (e' # r)"
    and others: "breaks d' (break_scope n) bs' (e' # r) ss2"
  shows "breaks (max d d') (break_scope (Suc n)) (bs @ bs') (e # r) ss2"
proof -
  let ?e = "if kind e = Type_object \<and> even (unat (elems_left e)) then e\<lparr>reading_key := True\<rparr> else e"
  have gt: "elems_left e > 0" using nz by (simp add: word_gt_0)
  have b: "breaks (max d d') (seqE (scopes_stay (skip_with (break_scope n))) (\<lambda>_. break_scope n)) (bs @ bs') (?e # r) ss2"
    by (rule breaks_seqE [OF skips_stay [OF item] others]) simp
  have e: "break_scope (Suc n) (at bs (e # r) s)
      = seqE (scopes_stay (skip_with (break_scope n))) (\<lambda>_. break_scope n) (at bs (?e # r) s)" for bs s
    using gt by (simp add: scope_ref_def seqE_def updE_def)
  show ?thesis using b unfolding breaks_def e by (simp only: list.size)
qed

lemma enc_nonempty: "enc_val v \<noteq> []"
  by (cases v) (auto simp: enc_int_def enc_uint_def enc_str_def enc_bin_def size_header_def seq_header_def)

lemma break_array:
  assumes items: "\<And>v n ss. v \<in> set vs \<Longrightarrow> rready ss \<Longrightarrow> length (enc_val v) \<le> n \<Longrightarrow>
      skips (depth v) (skip_with (break_scope n)) (enc_val v) ss (rafter ss)"
    and "kind e = Type_array" "elems_left e = of_nat (length vs)" "length vs < 2 ^ 32"
    and "length (concat (map enc_val vs)) < n"
  shows "breaks (foldr (\<lambda>v d. max (depth v) d) vs 0) (break_scope n) (concat (map enc_val vs)) (e # r) r"
  using assms
proof (induction vs arbitrary: e n)
  case Nil
  then obtain k where "n = Suc k" by (cases n) auto
  with Nil breaks_stop [of e k r] show ?case by simp
next
  case (Cons v vs)
  then obtain k where k: "n = Suc k" by (cases n) auto
  have nz: "elems_left e \<noteq> 0" using Cons.prems count_nonzero [of "length vs"] by simp
  have "skips (depth v) (skip_with (break_scope k)) (enc_val v) (e # r) (dec e # r)"
    using Cons.prems(1) [of v "e # r" k] Cons.prems nz k by (simp add: rready_def rafter_def)
  moreover have "breaks (foldr (\<lambda>v d. max (depth v) d) vs 0) (break_scope k) (concat (map enc_val vs)) (dec e # r) r"
  proof (rule Cons.IH)
    show "length (concat (map enc_val vs)) < k"
      using Cons.prems(5) k enc_nonempty [of v] by (cases "enc_val v") auto
  qed (use Cons.prems in \<open>simp_all add: dec_def\<close>)
  ultimately show ?case
    using breaks_step [of e "depth v" k "enc_val v" r "dec e"] Cons.prems(2) nz k by simp
qed

lemma break_object:
  assumes "list_all (\<lambda>(k, v). length k < 2 ^ 32 - 1 \<and> wf_val v \<and> scalar v) es"
    and "kind e = Type_object" "elems_left e = of_nat (2 * length es)" "2 * length es < 2 ^ 32"
    and "length (concat (map (\<lambda>(k, v). enc_str k @ enc_val v) es)) < n"
  shows "breaks 0 (break_scope n) (concat (map (\<lambda>(k, v). enc_str k @ enc_val v) es)) (e # r) r"
  using assms
proof (induction es arbitrary: e n)
  case Nil
  then obtain k where "n = Suc k" by (cases n) auto
  with Nil breaks_stop [of e k r] show ?case by simp
next
  case (Cons kv es)
  obtain key v where kv: "kv = (key, v)" by fastforce
  have ne: "enc_str key \<noteq> []" "enc_val v \<noteq> []"
    using enc_nonempty [of "VStr key"] enc_nonempty [of v] by simp_all
  then obtain j where j: "n = Suc (Suc j)"
    using Cons.prems(5) kv by (cases n; cases "n - 1"; cases "enc_str key") auto
  let ?n = "2 * length es"
  have el: "elems_left e = of_nat (Suc (Suc ?n))" and lt: "Suc (Suc ?n) < 2 ^ 32" using Cons.prems by auto
  have ev: "even (unat (elems_left e))" unfolding el unat_count [OF lt] by simp
  have nz: "elems_left e \<noteq> 0" unfolding el using lt by (rule count_nonzero)
  define e1 where "e1 = e\<lparr>reading_key := True\<rparr>"
  have nz1: "elems_left e1 \<noteq> 0" using nz by (simp add: e1_def)
  have st: "reads step_context_on_skip [] (e' # r) () (dec e' # r)" if "elems_left e' \<noteq> 0" for e'
    by (rule readsI) (simp add: step_context_on_skip_def decrement_at that)
  have key: "skips 0 (skip_with (break_scope (Suc j))) (enc_str key) (e1 # r) (dec e1 # r)"
    using skips_scalar [of "VStr key", OF _ _ st [OF nz1]] Cons.prems(1) kv by (simp add: scalar_def)
  have el1: "elems_left (dec e1) = of_nat (Suc ?n)" using el by (simp add: dec_def e1_def)
  have lt1: "Suc ?n < 2 ^ 32" using lt by simp
  have nz2: "elems_left (dec e1) \<noteq> 0" unfolding el1 using lt1 by (rule count_nonzero)
  have odd: "odd (unat (elems_left (dec e1)))" unfolding el1 unat_count [OF lt1] by simp
  have val: "skips 0 (skip_with (break_scope j)) (enc_val v) (dec e1 # r) (dec (dec e1) # r)"
    using skips_scalar [OF _ _ st [OF nz2], of v] Cons.prems(1) kv by simp
  have rest: "breaks 0 (break_scope j) (concat (map (\<lambda>(k, v). enc_str k @ enc_val v) es)) (dec (dec e1) # r) r"
  proof (rule Cons.IH)
    show "length (concat (map (\<lambda>(k, v). enc_str k @ enc_val v) es)) < j"
      using Cons.prems(5) kv j ne by (cases "enc_str key"; cases "enc_val v") auto
  qed (use Cons.prems el1 in \<open>simp_all add: dec_def e1_def\<close>)
  have "breaks 0 (break_scope (Suc j)) (enc_val v @ concat (map (\<lambda>(k, v). enc_str k @ enc_val v) es)) (dec e1 # r) r"
    using breaks_step [OF nz2 _ rest, of 0 "enc_val v"] val odd by simp
  from breaks_step [OF nz _ this, of 0 "enc_str key"] key ev Cons.prems(2)
  show ?case by (simp add: kv j e1_def)
qed

lemma skips_val:
  "skippable v \<Longrightarrow> wf_val v \<Longrightarrow> rready ss \<Longrightarrow> length (enc_val v) \<le> n \<Longrightarrow>
   skips (depth v) (skip_with (break_scope n)) (enc_val v) ss (rafter ss)"
proof (induction v arbitrary: ss n)
  case (VArr vs)
  then have len: "length vs < 2 ^ 32 - 1" by simp
  have "length (concat (map enc_val vs)) < n"
    using VArr.prems(4) by (auto simp: seq_header_def split: if_splits)
  then show ?case
    unfolding enc_val.simps depth.simps
    using VArr.prems len VArr.IH
    by (intro skips_container [OF _ count_array [OF len] count_tame(1) starts_mono [OF seq_header_codes(1) skip_array_header]] break_array)
      (auto simp: list_all_iff)
next
  case (VMap es)
  then have len: "length es < 2 ^ 32 - 1" by simp
  have "length (concat (map (\<lambda>(k, v). enc_str k @ enc_val v) es)) < n"
    using VMap.prems(4) by (auto simp: seq_header_def split: if_splits)
  moreover have "foldr (\<lambda>(k, v) d. max (depth v) d) es 0 = 0"
    using VMap.prems(1) by (induction es) (auto simp: scalar_def split: val.splits)
  ultimately show ?case
    unfolding enc_val.simps depth.simps
    using VMap.prems len
    by (auto intro!: skips_container [OF _ count_map [OF len] count_tame(2) starts_mono [OF seq_header_codes(2) skip_map_header]]
        break_object simp: list_all_iff)
qed (auto intro!: skips_scalar skip_step_value simp: scalar_def simp del: enc_val.simps)

section \<open>Properties\<close>

definition writer_new :: mwriter where
  "writer_new = \<lparr>out = [], wscopes = []\<rparr>"

lemma reader_new_at: "reader_new bs = at bs [] (reader_new [])"
  by (simp add: reader_new_def at_def)

lemma write_val_new:
  "wf_val v \<Longrightarrow> write_val v writer_new = (Inr (), \<lparr>out = enc_val v, wscopes = []\<rparr>)"
  using writes_ok(1) [of v writer_new] by (simp add: writer_new_def wrote_def)

text \<open>An example value, with every kind of scalar and nested containers.\<close>

definition sample :: val where
  "sample = VArr [VNil, VBool True, VInt (- 33), VInt 127, VUint 40000, VFloat 0x3f800000, VDouble 1, VStr [104, 105],
     VBin [1, 2, 3], VMap [([97], VInt (- 1)), ([98], VArr [VInt 70000])]]"

definition zero_casts :: casts where
  "zero_casts = \<lparr>cast_int = (\<lambda>_. 0), cast_bool = (\<lambda>_. False), cast_float = (\<lambda>_. 0), cast_double = (\<lambda>_. 0)\<rparr>"

lemma sample_wf: "wf_val sample"
  by (simp add: sample_def)

text \<open>C1: round trip. Whatever value tree a client writes, with nested arrays and objects, the
  reading client gets it back from the stream and stops exactly behind it, on any conversion of
  floating point values.\<close>

theorem msgpack_roundtrip:
  assumes "wf_val v"
  shows "\<exists>w s. write_val v writer_new = (Inr (), w) \<and> wscopes w = []
    \<and> read_val c v (reader_new (out w @ rest)) = (Inr v, s) \<and> input s = rest \<and> scopes s = []"
proof -
  have "reads (read_val c v) (enc_val v) [] v []"
    using reads_val(1) [OF assms, of "[]" c] by (simp add: rready_def rafter_def)
  from reads_at [OF this, of rest "reader_new []"]
  obtain s where "read_val c v (reader_new (enc_val v @ rest)) = (Inr v, at rest [] s)"
    by (auto simp: reader_new_at [of "enc_val v @ rest"])
  with write_val_new [OF assms] show ?thesis by (intro exI) auto
qed

theorem msgpack_roundtrip_witness:
  "\<exists>w s. write_val sample writer_new = (Inr (), w)
     \<and> read_val zero_casts sample (reader_new (out w @ [0xff])) = (Inr sample, s) \<and> input s = [0xff]"
  using msgpack_roundtrip [OF sample_wf, of zero_casts "[0xff]"] by blast

text \<open>C23: the writer's output is canonical: it is the encoding \<open>enc_val\<close>, the shortest header
  being chosen for every size below \<open>2^8\<close> and \<open>2^16\<close>, and the context is left as it was.\<close>

theorem msgpack_encoding:
  assumes "wf_val v" and "value_ready (wscopes w)"
  shows "write_val v w = (Inr (), w\<lparr>out := out w @ enc_val v, wscopes := after_value (wscopes w)\<rparr>)"
  using writes_ok(1) [OF assms] by (simp add: wrote_def)

theorem msgpack_encoding_witness:
  "write_val (VArr [VInt (- 1), VStr [97]]) writer_new = (Inr (), \<lparr>out = [0x92, 0xff, 0xa1, 97], wscopes = []\<rparr>)"
  using msgpack_encoding [of "VArr [VInt (- 1), VStr [97]]" writer_new]
  by (simp add: writer_new_def seq_header_def enc_int_def enc_str_def)

text \<open>C13: skipping an item (\<open>read(nullptr)\<close>) on a fresh reader with \<open>reserve_depth(n)\<close>, for every value in which
  no object entry has an array or object for its value: it consumes exactly the item's encoding when the
  value nests no deeper than \<open>n\<close> (or is flat, which needs no reserve). Otherwise, so for \<open>[[1]]\<close> with the
  reserve of 0 the class starts with, \<open>_break_scope\<close> goes on with a scope pointer into a vector that
  has grown past what was reserved, and nothing is promised.\<close>

theorem msgpack_skip:
  assumes "wf_val v" and "skippable v"
  shows "if depth v \<le> max 1 n
    then \<exists>s. read_nil (reserve_depth n (reader_new (enc_val v @ rest))) = (Inr (), s) \<and> input s = rest \<and> scopes s = []
    else fst (read_nil (reserve_depth n (reader_new (enc_val v @ rest)))) = Inl Stale_scope"
proof -
  let ?s = "reserve_depth n (reader_new [])"
  define s0 where "s0 = reserve_depth n (reader_new (enc_val v @ rest))"
  have at: "s0 = at (enc_val v @ rest) [] ?s" by (simp add: s0_def reserve_depth_def reader_new_def at_def)
  have "length (enc_val v) \<le> fuel_for s0" by (simp add: at fuel_for_def)
  from skips_val [OF assms(2,1) _ this, of "[]"]
  have "skips (depth v) (skip_with (break_scope (fuel_for s0))) (enc_val v) [] []" by (simp add: rready_def rafter_def)
  from spec [OF spec [OF this [unfolded skips_def], of rest], of ?s] show ?thesis
    unfolding read_nil_def skip_once_def at [symmetric] s0_def [symmetric]
    by (auto simp: reserve_depth_def reader_new_def max_def split: if_splits)
qed

theorem msgpack_skip_witness:
  "(\<exists>s. read_nil (reserve_depth 2 (reader_new (enc_val (VArr [VInt 5, VMap [([97], VNil)]]) @ [7]))) = (Inr (), s) \<and> input s = [7])
   \<and> fst (read_nil (reserve_depth 0 (reader_new (enc_val (VArr [VArr [VInt 1]]) @ [7])))) = Inl Stale_scope"
  using msgpack_skip [of "VArr [VInt 5, VMap [([97], VNil)]]" 2 "[7]"] msgpack_skip [of "VArr [VArr [VInt 1]]" 0 "[7]"]
  by (auto simp: scalar_def)

text \<open>C14: skipping an object whose first entry holds an array or an object throws, although the
  item is well formed: the skip of the key does not clear the flag \<open>_break_scope\<close> has set, and the
  nested container takes it for a key that is still to come.\<close>

theorem msgpack_skip_nested_throws:
  assumes "wf_val (VMap ((k, v) # es))" and "\<not> scalar v"
  shows "\<exists>s. read_nil (reader_new (enc_val (VMap ((k, v) # es)) @ rest)) = (Inl Reading_key_set, s)"
proof -
  let ?es = "(k, v) # es" let ?n = "2 * length es"
  define hb where "hb = seq_header 0x80 0xde (length ?es)"
  let ?bs = "concat (map (\<lambda>(k, v). enc_str k @ enc_val v) es)"
  have len: "length ?es < 2 ^ 32 - 1" and lt: "Suc (Suc ?n) < 2 ^ 32" using assms(1) by auto
  obtain h t where hdr: "hb = h # t" and codes: "typecode_of h \<in> {Fixmap, Map16, Map32}"
    using seq_header_codes(2) [of "length ?es", folded hb_def] by (auto simp: starts_def split: list.splits)
  obtain e s1 where e: "begin_scope Type_object read_elem_count_map
        (at (hb @ (enc_str k @ (enc_val v @ ?bs @ rest))) [] (reader_new []))
      = (Inr (ctx_id e, ctx_index e), at (enc_str k @ (enc_val v @ ?bs @ rest)) [e] s1)"
    "kind e = Type_object" "elems_left e = of_nat (Suc (Suc ?n))" "\<not> reading_key e"
    using begin_scope_at [OF _ count_map [OF len, folded hb_def], of "[]" Type_object "enc_str k @ (enc_val v @ ?bs @ rest)" "reader_new []"]
    by (auto simp: rready_def rafter_def)
  define e1 where "e1 = e\<lparr>reading_key := True\<rparr>"
  have nz: "elems_left e \<noteq> 0" and ev: "even (unat (elems_left e))"
    using e(3) count_nonzero [OF lt] unat_count [OF lt] by simp_all
  obtain j where j: "fuel_for (reader_new (enc_val (VMap ?es) @ rest)) = Suc (Suc j)"
    using hdr enc_nonempty [of "VStr k"] hb_def by (cases "enc_str k") (auto simp: fuel_for_def reader_new_def)
  have st: "reads step_context_on_skip [] [e1] () [dec e1]"
    by (rule readsI) (simp add: step_context_on_skip_def decrement_at nz e1_def)
  obtain s2 where key: "skip_with (break_scope (Suc j)) (at (enc_str k @ (enc_val v @ ?bs @ rest)) [e1] s1)
      = (Inr (), at (enc_val v @ ?bs @ rest) [dec e1] s2)"
    using reads_at [OF skip_scalar [of "VStr k", OF _ _ st]] assms(1) by (fastforce simp: scalar_def)
  have cap: "scope_cap s2 = scope_cap s1"
    using skip_plain_cap [OF scalar_header [of "VStr k"]] key assms(1) by (fastforce simp: scalar_def)
  have dec: "elems_left (dec e1) = of_nat (Suc ?n)" using e(3) by (simp add: e1_def dec_def)
  have odd: "odd (unat (elems_left (dec e1)))" unfolding dec using lt unat_count [of "Suc ?n"] by simp
  have gt: "elems_left (dec e1) > 0" using odd by (auto simp: word_gt_0)
  obtain h' t' where v_hdr: "enc_val v = h' # t'"
    and vt: "typecode_of h' \<in> {Fixarray, Array16, Array32} \<or> typecode_of h' \<in> {Fixmap, Map16, Map32}"
  proof (cases v)
    case (VArr vs)
    then show ?thesis using that seq_header_codes(1) [of "length vs"]
      by (auto simp: starts_def split: list.splits)
  next
    case (VMap fs)
    then show ?thesis using that seq_header_codes(2) [of "length fs"]
      by (auto simp: starts_def split: list.splits)
  qed (use assms(2) in \<open>simp_all add: scalar_def\<close>)
  have "verify_not_key_type (at (enc_val v @ ?bs @ rest) [dec e1] s2) = (Inl Reading_key_set, at (enc_val v @ ?bs @ rest) [dec e1] s2)"
    using odd e(2) by (simp add: verify_not_key_type_def e1_def dec_def)
  then have val: "skip_with (break_scope j) (at (enc_val v @ ?bs @ rest) [dec e1] s2)
      = (Inl Reading_key_set, at (enc_val v @ ?bs @ rest) [dec e1] s2)"
    using vt v_hdr skip_array_header [of h'] skip_map_header [of h']
    by (auto simp: skip_with_def seqE_def begin_scope_def)
  have brk2: "break_scope (Suc j) (at (enc_val v @ ?bs @ rest) [dec e1] s2)
      = (Inl Reading_key_set, at (enc_val v @ ?bs @ rest) [dec e1] s2)"
    using gt odd by (simp add: scope_ref_def seqE_def updE_def scopes_stay_def val)
  have brk1: "break_scope (Suc (Suc j)) (at (enc_str k @ (enc_val v @ ?bs @ rest)) [e] s1)
      = (Inl Reading_key_set, at (enc_val v @ ?bs @ rest) [dec e1] s2)"
    using nz ev e(2) unfolding break_scope.simps(2) [of "Suc j"]
    by (simp add: scope_ref_def seqE_def updE_def word_gt_0 scopes_stay_def key cap brk2 flip: e1_def del: break_scope.simps)
  have p: "peek_header (at (hb @ (enc_str k @ (enc_val v @ ?bs @ rest))) [] (reader_new []))
      = (Inr h, at (hb @ (enc_str k @ (enc_val v @ ?bs @ rest))) [] (reader_new []))" by (simp add: hdr)
  have "skip_with (break_scope (Suc (Suc j))) (at (hb @ (enc_str k @ (enc_val v @ ?bs @ rest))) [] (reader_new []))
      = (Inl Reading_key_set, at (enc_val v @ ?bs @ rest) [dec e1] s2)"
    using e(1,2)
    by (simp add: skip_with_def seqE_def p skip_map_header [OF codes] end_scope_def calc_num_break_scope_def brk1
        del: break_scope.simps)
  note skip = this
  have "enc_val (VMap ?es) @ rest = hb @ (enc_str k @ (enc_val v @ ?bs @ rest))"
    by (simp add: hb_def)
  then have r: "reader_new (enc_val (VMap ?es) @ rest) = at (hb @ (enc_str k @ (enc_val v @ ?bs @ rest))) [] (reader_new [])"
    by (simp only: reader_new_at [of "hb @ (enc_str k @ (enc_val v @ ?bs @ rest))"])
  have "read_nil (reader_new (enc_val (VMap ?es) @ rest)) = (Inl Reading_key_set, at (enc_val v @ ?bs @ rest) [dec e1] s2)"
    unfolding read_nil_def skip_once_def j unfolding r by (rule skip)
  then show ?thesis by blast
qed

theorem msgpack_skip_nested_throws_witness:
  "\<exists>s. read_nil (reader_new (enc_val (VMap [([97], VArr [])]))) = (Inl Reading_key_set, s)"
  using msgpack_skip_nested_throws [of "[97]" "VArr []" "[]" "[]"] by (simp add: scalar_def)

text \<open>C22: skipping and closing a container early always come back, whatever the stream and the
  state: the fuel of the model, one more than the bytes left, is never used up. When the capacity of the scope
  vector covers the scopes open and as many more as there are bytes left, no pointer to a scope goes stale
  on the way either. Without that room a stale pointer is possible, and behind it the code's behaviour
  is undefined.\<close>

theorem reader_terminates:
  "fst (read_nil s) \<noteq> Inl Out_of_fuel \<and> fst (end_array key s) \<noteq> Inl Out_of_fuel
   \<and> fst (end_object key s) \<noteq> Inl Out_of_fuel
   \<and> (length (input s) + length (scopes s) \<le> scope_cap s \<longrightarrow>
      fst (read_nil s) \<noteq> Inl Stale_scope \<and> fst (end_array key s) \<noteq> Inl Stale_scope
      \<and> fst (end_object key s) \<noteq> Inl Stale_scope)"
  using skip_enough_fuel(2) [of s "fuel_for s"] end_scope_fuel [of s "fuel_for s"] enough_room [of s "fuel_for s"]
  unfolding read_nil_def end_array_def end_object_def by (simp add: fuel_for_def del: break_scope.simps)

theorem reader_terminates_witness:
  "fst (read_nil (reserve_depth 3 (reader_new [0x91, 0x91, 5]))) \<notin> {Inl Out_of_fuel, Inl Stale_scope}"
  using reader_terminates [of "reserve_depth 3 (reader_new [0x91, 0x91, 5])" "(0, 0)"]
  by (simp add: reserve_depth_def reader_new_def)

text \<open>C24: reading a number past the end of an array throws only once. The counter is decremented before
  its old value is tested, so the failed read, which has consumed the number behind the array, leaves the
  counter at its maximum \<open>2^32 - 1\<close>, and the next number is read, from the state so left, as a further
  element. Numbers are integers, floating point values and booleans.\<close>

theorem reader_overrun_accepted:
  assumes "kind e = Type_array" and "elems_left e = 0"
    and "\<And>ss. starts bs (\<lambda>h. reads (read_number h) bs ss x ss)"
    and "\<And>ss. starts bs' (\<lambda>h. reads (read_number h) bs' ss y ss)"
  shows "\<exists>s1 s2. quick_get_num (at (bs @ bs' @ rest) (e # ss) s) = (Inl All_read, s1)
    \<and> input s1 = bs' @ rest \<and> scopes s1 = e\<lparr>elems_left := 2 ^ 32 - 1\<rparr> # ss
    \<and> quick_get_num s1 = (Inr y, s2)
    \<and> input s2 = rest \<and> scopes s2 = e\<lparr>elems_left := 2 ^ 32 - 2\<rparr> # ss"
proof -
  let ?e = "e\<lparr>elems_left := 2 ^ 32 - 1\<rparr>"
  obtain h t where bs: "bs = h # t" and r: "reads (read_number h) bs (e # ss) x (e # ss)"
    using assms(3) [of "e # ss"] by (auto simp: starts_def split: list.splits)
  obtain s1 where 1: "read_number h (at (bs @ bs' @ rest) (e # ss) s) = (Inr x, at (bs' @ rest) (e # ss) s1)"
    using reads_at [OF r] by blast
  have "step_context (at (bs' @ rest) (e # ss) s1) = (Inl All_read, at (bs' @ rest) (?e # ss) s1)"
    using assms(1,2) by (simp add: step_context_def decrement_elems_def scope_ref_def seqE_def updE_def throwE_def)
  then have first: "quick_get_num (at (bs @ bs' @ rest) (e # ss) s) = (Inl All_read, at (bs' @ rest) (?e # ss) s1)"
    using 1 by (simp add: quick_get_num_def seqE_def bs)
  have "rready (?e # ss)" using assms(1) by (simp add: rready_def)
  from reads_at [OF reads_quick [OF assms(4) this], of rest s1]
  obtain s2 where "quick_get_num (at (bs' @ rest) (?e # ss) s1) = (Inr y, at rest (rafter (?e # ss)) s2)" by blast
  with first show ?thesis by (simp add: rafter_def dec_def)
qed

theorem reader_overrun_accepted_witness:
  "\<exists>s1 s2. quick_get_num (at (enc_uint 5 @ enc_uint 700 @ [0xc0])
       [\<lparr>ctx_id = 1, ctx_index = 0, kind = Type_array, elems_left = 0, reading_key = False\<rparr>] (reader_new [])) = (Inl All_read, s1)
     \<and> quick_get_num s1 = (Inr (Int_num 700), s2) \<and> input s2 = [0xc0]"
  using reader_overrun_accepted [of "\<lparr>ctx_id = 1, ctx_index = 0, kind = Type_array, elems_left = 0, reading_key = False\<rparr>"
      "enc_uint 5" "Int_num (int 5)" "enc_uint 700" "Int_num (int 700)" "[0xc0]" "[]" "reader_new []"] reads_uint [of 5] reads_uint [of 700]
  by force

text \<open>The offsets of the count decoder let foreign headers through: an \<open>array32\<close> header opens
  an object with an 8-bit count, and a \<open>str32\<close> header opens an array.\<close>

theorem reader_accepts_foreign_headers:
  "begin_object (reader_new (0xdd # n # rest)) = (Inr (1, 0),
      \<lparr>input = rest, scopes = [\<lparr>ctx_id = 1, ctx_index = 0, kind = Type_object, elems_left = of_nat (unat n) * 2, reading_key = False\<rparr>], key_gen = 1, scope_cap = 1\<rparr>)
   \<and> begin_array (reader_new (0xdb # n # rest)) = (Inr (1, 0),
      \<lparr>input = rest, scopes = [\<lparr>ctx_id = 1, ctx_index = 0, kind = Type_array, elems_left = of_nat (unat n), reading_key = False\<rparr>], key_gen = 1, scope_cap = 1\<rparr>)"
  by (simp add: begin_object_def begin_array_def verify_not_key_type_def reader_new_def seqE_def peek_header_def
      read_elem_count_map_def read_elem_count_array_def read_elem_count_def code_headers offset_codes
      bump_n_bigE_def get_n_bigE_def bump_char_def retE_def step_context_def new_scope_def Let_def numeral_eq_Suc)

end
