(* ===== verification/Msgpack_Rpc.thy ===== *)
theory Msgpack_Rpc
  imports Msgpack_Roundtrip
begin

text \<open>
  The MessagePack-RPC protocol of \<open>refl/rpc/protocol/msgpack-rpc.hxx\<close> on the writer and the reader, with
  the service table (\<open>detail/service.hxx\<close>) and the message proxy
  (\<open>detail/remote_procedure_message_proxy.hxx\<close>) it reports to.

  A protocol object owns a reader and a writer; of the writer's bytes the first \<open>sent\<close> have been
  flushed to the peer. Parameters and results are value trees: a handler's parameter buffer is a
  list of values whose constructors and lengths are the declared types, and reading into it is the
  reading client of \<open>Msgpack_Roundtrip\<close>. The error text of a reply is dumped as JSON by
  \<open>dump\<close>, a parameter. A thrown exception is a value of \<open>rpc_exn\<close>; the answer \<open>None\<close> of a \<open>noexcept\<close>
  function is the end of the program by an exception that leaves it, or a scope pointer of the reader gone
  stale. \<open>rpc_reads\<close> says what a call reads from a reader whose scope vector has a capacity.
\<close>

section \<open>Service tables\<close>

type_synonym service = "byte list \<rightharpoonup> val list"

definition empty_service :: service where
  "empty_service = Map.empty"

text \<open>\<open>merge\<close> inserts the entries of the base first, and an insertion keeps what is there.\<close>

definition service_merge :: "service \<Rightarrow> service \<Rightarrow> service" where
  "service_merge base other = (\<lambda>m. case base m of Some h \<Rightarrow> Some h | None \<Rightarrow> other m)"

definition find_handler :: "service \<Rightarrow> byte list \<Rightarrow> val list option" where
  "find_handler svc m = svc m"

section \<open>Proxy and protocol state\<close>

datatype stream_state = Okay | Expired | Warning_unknown | Invalid_number_of_parameters
  | Invalid_parameter_type | Unknown_method_name | Invalid_format | Expired_rpc

datatype proxy_type = Proxy_none | In_progress | Proxy_request | Proxy_notify
  | Reply_okay | Reply_error | Reply_expired

record proxy =
  ptype :: proxy_type
  rpc_msgid :: int
  handler :: "(byte list \<times> val list) option"

definition proxy_new :: proxy where
  "proxy_new = \<lparr>ptype = Proxy_none, rpc_msgid = 0, handler = None\<rparr>"

record proto =
  rd :: reader
  wr :: mwriter
  sent :: nat
  prox :: proxy
  results :: "int \<Rightarrow> val option"
  errors :: "int \<Rightarrow> byte list option"

datatype rpc_exn = Trivial stream_state | Reader_exn reader_error | Writer_exn writer_error | Assertion

type_synonym 'a rpc = "proto \<Rightarrow> (rpc_exn + 'a) \<times> proto"

definition read_rpc :: "'a rd \<Rightarrow> 'a rpc" where
  "read_rpc m p = (case m (rd p) of (Inl e, s) \<Rightarrow> (Inl (Reader_exn e), p\<lparr>rd := s\<rparr>) | (Inr x, s) \<Rightarrow> (Inr x, p\<lparr>rd := s\<rparr>))"

definition write_rpc :: "'a mw \<Rightarrow> 'a rpc" where
  "write_rpc m p = (case m (wr p) of (Inl e, w) \<Rightarrow> (Inl (Writer_exn e), p\<lparr>wr := w\<rparr>) | (Inr x, w) \<Rightarrow> (Inr x, p\<lparr>wr := w\<rparr>))"

definition upd_proxy :: "(proxy \<Rightarrow> proxy) \<Rightarrow> unit rpc" where
  "upd_proxy f = updE (\<lambda>p. p\<lparr>prox := f (prox p)\<rparr>)"

text \<open>What is recoverable: the subclasses of \<open>reader_recoverable_exception\<close>.\<close>

definition recoverable :: "reader_error \<Rightarrow> bool" where
  "recoverable e \<longleftrightarrow> e \<notin> {Parse_failed, Unexpected_eof, Not_key_order, Duplicate_key_call, Invalid_context, Undefined, Stale_scope, Out_of_fuel}"

section \<open>The proxy\<close>

definition verify_clear_state :: "unit rpc" where
  "verify_clear_state p =
     (if ptype (prox p) = Proxy_none \<and> rpc_msgid (prox p) = 0 then (Inr (), p) else (Inl Assertion, p))"

definition proxy_parameters :: "service \<Rightarrow> byte list \<Rightarrow> val list option rpc" where
  "proxy_parameters svc m =
     seqE verify_clear_state (\<lambda>_. seqE (upd_proxy (\<lambda>x. x\<lparr>ptype := In_progress\<rparr>)) (\<lambda>_.
     case find_handler svc m of
       None \<Rightarrow> retE None
     | Some ps \<Rightarrow> seqE (upd_proxy (\<lambda>x. x\<lparr>handler := Some (m, ps)\<rparr>)) (\<lambda>_. retE (Some ps))))"

definition request_parameters :: "service \<Rightarrow> byte list \<Rightarrow> int \<Rightarrow> val list option rpc" where
  "request_parameters svc m msgid =
     seqE (proxy_parameters svc m) (\<lambda>rv.
     seqE (if rv \<noteq> None then upd_proxy (\<lambda>x. x\<lparr>ptype := Proxy_request, rpc_msgid := msgid\<rparr>) else retE ()) (\<lambda>_. retE rv))"

definition notify_parameters :: "service \<Rightarrow> byte list \<Rightarrow> val list option rpc" where
  "notify_parameters svc m =
     seqE (proxy_parameters svc m) (\<lambda>rv.
     seqE (if rv \<noteq> None then upd_proxy (\<lambda>x. x\<lparr>ptype := Proxy_notify\<rparr>) else retE ()) (\<lambda>_. retE rv))"

text \<open>
  \<open>slots\<close> are the requests the session waits for: the result buffer of a request is empty (void) or
  has a declared type.
\<close>

definition reply_result :: "(int \<Rightarrow> val option option) \<Rightarrow> casts \<Rightarrow> int \<Rightarrow> bool rpc" where
  "reply_result slots c msgid =
     seqE verify_clear_state (\<lambda>_. seqE (upd_proxy (\<lambda>x. x\<lparr>ptype := Reply_expired, rpc_msgid := msgid\<rparr>)) (\<lambda>_.
     case slots msgid of
       None \<Rightarrow> seqE (read_rpc read_nil) (\<lambda>_. retE False)
     | Some rval \<Rightarrow>
         seqE (case rval of
                 None \<Rightarrow> read_rpc read_nil
               | Some ty \<Rightarrow> seqE (read_rpc (read_val c ty)) (\<lambda>v. updE (\<lambda>p. p\<lparr>results := (results p)(msgid \<mapsto> v)\<rparr>))) (\<lambda>_.
         seqE (upd_proxy (\<lambda>x. x\<lparr>ptype := Reply_okay\<rparr>)) (\<lambda>_. retE True))))"

definition reply_error :: "(int \<Rightarrow> val option option) \<Rightarrow> byte list rd \<Rightarrow> int \<Rightarrow> bool rpc" where
  "reply_error slots dump msgid =
     seqE verify_clear_state (\<lambda>_. seqE (upd_proxy (\<lambda>x. x\<lparr>ptype := Reply_expired, rpc_msgid := msgid\<rparr>)) (\<lambda>_.
     case slots msgid of
       None \<Rightarrow> seqE (read_rpc read_nil) (\<lambda>_. retE False)
     | Some _ \<Rightarrow>
         seqE (read_rpc dump) (\<lambda>t. seqE (updE (\<lambda>p. p\<lparr>errors := (errors p)(msgid \<mapsto> t)\<rparr>)) (\<lambda>_.
         seqE (upd_proxy (\<lambda>x. x\<lparr>ptype := Reply_error\<rparr>)) (\<lambda>_. retE True)))))"

section \<open>Receiving\<close>

definition msg_request :: int where "msg_request = 0"
definition msg_reply :: int where "msg_reply = 1"
definition msg_notify :: int where "msg_notify = 2"

definition errstr_method_not_found :: "byte list" where
  "errstr_method_not_found = map of_char ''CPPH_RPC_ERROR_METHOD_NOT_FOUND''"

definition errstr_invalid_parameter :: "byte list" where
  "errstr_invalid_parameter = map of_char ''CPPH_RPC_ERROR_INVALID_PARAMETER''"

definition verify_elem_left :: "nat \<Rightarrow> unit rpc" where
  "verify_elem_left n =
     seqE (read_rpc elem_left) (\<lambda>k. if unat k = n then retE () else throwE (Trivial Invalid_format))"

definition is_null_next :: "bool rd" where
  "is_null_next = seqE type_next (\<lambda>t. retE (t = Entity_null))"

definition handle_reply :: "(int \<Rightarrow> val option option) \<Rightarrow> byte list rd \<Rightarrow> casts \<Rightarrow> unit rpc" where
  "handle_reply slots dump c =
     seqE (verify_elem_left 3) (\<lambda>_. seqE (read_rpc (read_signed (cast_int c) 32)) (\<lambda>msgid.
     seqE (read_rpc is_null_next) (\<lambda>null.
     if null
     then seqE (read_rpc read_nil) (\<lambda>_. seqE (reply_result slots c msgid) (\<lambda>_. retE ()))
     else seqE (reply_error slots dump msgid) (\<lambda>_. read_rpc read_nil))))"

definition store_parameters :: "val list \<Rightarrow> unit rpc" where
  "store_parameters vs = upd_proxy (\<lambda>x. x\<lparr>handler := map_option (\<lambda>(m, _). (m, vs)) (handler x)\<rparr>)"

text \<open>
  The parameter array of a notification or request, and the closing of the message; \<open>on_mismatch\<close>
  is what happens before the exception on a wrong number of parameters.
\<close>

definition take_parameters :: "context_key \<Rightarrow> val list \<Rightarrow> unit rpc \<Rightarrow> val list rpc \<Rightarrow> stream_state rpc" where
  "take_parameters scope ps on_mismatch parse =
     seqE (read_rpc begin_array) (\<lambda>scope_params. seqE (read_rpc elem_left) (\<lambda>k.
     if unat k \<noteq> length ps
     then seqE on_mismatch (\<lambda>_. throwE (Trivial Invalid_number_of_parameters))
     else seqE parse (\<lambda>vs. seqE (store_parameters vs) (\<lambda>_.
          seqE (read_rpc (end_array scope_params)) (\<lambda>_.
          seqE (read_rpc (end_array scope)) (\<lambda>_. retE Okay))))))"

definition handle_notify :: "service \<Rightarrow> casts \<Rightarrow> context_key \<Rightarrow> stream_state rpc" where
  "handle_notify svc c scope =
     seqE (verify_elem_left 2) (\<lambda>_. seqE (read_rpc read_str) (\<lambda>m. seqE (notify_parameters svc m) (\<lambda>params.
     case params of
       None \<Rightarrow> seqE (read_rpc (end_array scope)) (\<lambda>_. retE Unknown_method_name)
     | Some ps \<Rightarrow> take_parameters scope ps (retE ()) (read_rpc (read_vals c ps)))))"

text \<open>\<open>fn_rep_err\<close>.\<close>

definition reply_err :: "int \<Rightarrow> byte list \<Rightarrow> unit rpc" where
  "reply_err msgid content =
     write_rpc (seqE (array_push 4) (\<lambda>_. seqE (write_int msg_reply) (\<lambda>_. seqE (write_int msgid) (\<lambda>_.
       seqE (write_str content) (\<lambda>_. seqE write_nil (\<lambda>_. array_pop))))))"

text \<open>The parameters of a request: a recoverable failure is answered and reported as a wrong type.\<close>

definition read_parameters :: "casts \<Rightarrow> int \<Rightarrow> val list \<Rightarrow> val list rpc" where
  "read_parameters c msgid ps p =
     (case read_rpc (read_vals c ps) p of
        (Inl (Reader_exn e), p') \<Rightarrow>
          if recoverable e
          then seqE (reply_err msgid errstr_invalid_parameter) (\<lambda>_. throwE (Trivial Invalid_parameter_type)) p'
          else (Inl (Reader_exn e), p')
      | r \<Rightarrow> r)"

definition handle_request :: "service \<Rightarrow> casts \<Rightarrow> context_key \<Rightarrow> stream_state rpc" where
  "handle_request svc c scope =
     seqE (verify_elem_left 3) (\<lambda>_. seqE (read_rpc (read_signed (cast_int c) 32)) (\<lambda>msgid.
     seqE (read_rpc read_str) (\<lambda>m. seqE (request_parameters svc m msgid) (\<lambda>params.
     case params of
       None \<Rightarrow>
         seqE (reply_err msgid errstr_method_not_found) (\<lambda>_.
         seqE (read_rpc (end_array scope)) (\<lambda>_. retE Unknown_method_name))
     | Some ps \<Rightarrow> take_parameters scope ps (reply_err msgid errstr_invalid_parameter) (read_parameters c msgid ps)))))"

definition handle_body :: "service \<Rightarrow> (int \<Rightarrow> val option option) \<Rightarrow> byte list rd \<Rightarrow> casts \<Rightarrow> context_key \<Rightarrow> stream_state rpc" where
  "handle_body svc slots dump c scope =
     seqE (read_rpc (read_signed (cast_int c) 32)) (\<lambda>ty.
     if ty = msg_reply
     then seqE (handle_reply slots dump c) (\<lambda>_. seqE (read_rpc (end_array scope)) (\<lambda>_. retE Okay))
     else if ty = msg_notify then handle_notify svc c scope
     else if ty = msg_request then handle_request svc c scope
     else throwE (Trivial Invalid_format))"

text \<open>
  \<open>end_array\<close> inside of a handler: an exception there leaves the \<open>noexcept\<close> function, which ends the
  program. \<open>None\<close> stands for that, and for a scope pointer gone stale, after which nothing is promised.
\<close>

definition close_and_answer :: "context_key \<Rightarrow> stream_state \<Rightarrow> proto \<Rightarrow> stream_state option \<times> proto" where
  "close_and_answer scope st p =
     (case read_rpc (end_array scope) p of (Inl _, p) \<Rightarrow> (None, p) | (Inr _, p) \<Rightarrow> (Some st, p))"

definition handle_single_message ::
  "service \<Rightarrow> (int \<Rightarrow> val option option) \<Rightarrow> byte list rd \<Rightarrow> casts \<Rightarrow> proto \<Rightarrow> stream_state option \<times> proto" where
  "handle_single_message svc slots dump c p =
     (case read_rpc begin_array p of
        (Inl _, p) \<Rightarrow> (Some Expired, p)
      | (Inr scope, p) \<Rightarrow>
          (case handle_body svc slots dump c scope p of
             (Inr st, p) \<Rightarrow> (Some st, p)
           | (Inl (Trivial st), p) \<Rightarrow> close_and_answer scope st p
           | (Inl (Reader_exn e), p) \<Rightarrow>
               if e = Stale_scope then (None, p)
               else if recoverable e then close_and_answer scope Warning_unknown p else (Some Expired, p)
           | (Inl (Writer_exn _), p) \<Rightarrow> (Some Expired, p)
           | (Inl Assertion, p) \<Rightarrow> (None, p)))"

section \<open>Sending\<close>

text \<open>The \<open>catch\<close> of the senders turns an exception into \<open>false\<close>.\<close>

definition try_write :: "unit mw \<Rightarrow> proto \<Rightarrow> bool \<times> proto" where
  "try_write m p = (case m (wr p) of (Inl _, w) \<Rightarrow> (False, p\<lparr>wr := w\<rparr>) | (Inr _, w) \<Rightarrow> (True, p\<lparr>wr := w\<rparr>))"

definition proto_flush :: "proto \<Rightarrow> proto" where
  "proto_flush p = p\<lparr>sent := length (out (wr p))\<rparr>"

text \<open>The flush at the end of a sender, which an exception skips.\<close>

definition then_flush :: "bool \<times> proto \<Rightarrow> bool \<times> proto" where
  "then_flush r = (case r of (ok, p) \<Rightarrow> (ok, if ok then proto_flush p else p))"

definition send_request :: "byte list \<Rightarrow> int \<Rightarrow> val list \<Rightarrow> proto \<Rightarrow> bool \<times> proto" where
  "send_request m msgid params =
     try_write (seqE (array_push 4) (\<lambda>_. seqE (write_int msg_request) (\<lambda>_. seqE (write_int msgid) (\<lambda>_.
       seqE (write_str m) (\<lambda>_. seqE (array_push (length params)) (\<lambda>_. seqE (write_vals params) (\<lambda>_.
       seqE array_pop (\<lambda>_. array_pop))))))))"

definition send_notify :: "byte list \<Rightarrow> val list \<Rightarrow> proto \<Rightarrow> bool \<times> proto" where
  "send_notify m params =
     try_write (seqE (array_push 3) (\<lambda>_. seqE (write_int msg_notify) (\<lambda>_. seqE (write_str m) (\<lambda>_.
       seqE (array_push (length params)) (\<lambda>_. seqE (write_vals params) (\<lambda>_. seqE array_pop (\<lambda>_. array_pop)))))))"

definition send_reply_result :: "int \<Rightarrow> val \<Rightarrow> proto \<Rightarrow> bool \<times> proto" where
  "send_reply_result msgid retval p =
     then_flush (try_write (seqE (array_push 4) (\<lambda>_. seqE (write_int msg_reply) (\<lambda>_. seqE (write_int msgid) (\<lambda>_.
       seqE write_nil (\<lambda>_. seqE (write_val retval) (\<lambda>_. array_pop)))))) p)"

definition send_reply_error :: "int \<Rightarrow> val \<Rightarrow> proto \<Rightarrow> bool \<times> proto" where
  "send_reply_error msgid err p =
     then_flush (try_write (seqE (array_push 4) (\<lambda>_. seqE (write_int msg_reply) (\<lambda>_. seqE (write_int msgid) (\<lambda>_.
       seqE (write_val err) (\<lambda>_. seqE write_nil (\<lambda>_. array_pop)))))) p)"

definition send_reply_error_text :: "int \<Rightarrow> byte list \<Rightarrow> proto \<Rightarrow> bool \<times> proto" where
  "send_reply_error_text msgid content p = send_reply_error msgid (VStr content) p"

section \<open>Shapes\<close>

text \<open>The declared type of a value: what the reading client knows of it.\<close>

fun shape :: "val \<Rightarrow> val" where
  "shape (VBool _) = VBool False"
| "shape (VInt _) = VInt 0"
| "shape (VUint _) = VUint 0"
| "shape (VFloat _) = VFloat 0"
| "shape (VDouble _) = VDouble 0"
| "shape (VStr _) = VStr []"
| "shape (VBin _) = VBin []"
| "shape (VArr vs) = VArr (map shape vs)"
| "shape (VMap es) = VMap (map (\<lambda>(_, v). ([], shape v)) es)"
| "shape VNil = VNil"

lemma read_shape:
  "read_val c v = read_val c (shape v)" "read_vals c vs = read_vals c (map shape vs)"
  "read_entries c es = read_entries c (map (\<lambda>(_, v). ([], shape v)) es)"
  by (induction c v and c vs and c es rule: read_val_read_vals_read_entries.induct) simp_all

lemma read_vals_same_shape: "map shape vs = map shape vs' \<Longrightarrow> read_vals c vs = read_vals c vs'"
  using read_shape(2) by metis

lemma read_val_same_shape: "shape v = shape v' \<Longrightarrow> read_val c v = read_val c v'"
  using read_shape(1) by metis

section \<open>What is sent\<close>

lemma seqE_ret_fun: "seqE (retE x) f = f x"
  by (simp add: fun_eq_iff)

definition request_msg :: "byte list \<Rightarrow> int \<Rightarrow> val list \<Rightarrow> val" where
  "request_msg m msgid params = VArr [VInt msg_request, VInt msgid, VStr m, VArr params]"

definition notify_msg :: "byte list \<Rightarrow> val list \<Rightarrow> val" where
  "notify_msg m params = VArr [VInt msg_notify, VStr m, VArr params]"

definition reply_msg :: "int \<Rightarrow> val \<Rightarrow> val \<Rightarrow> val" where
  "reply_msg msgid err res = VArr [VInt msg_reply, VInt msgid, err, res]"

lemma try_write_val:
  assumes "wf_val v" "value_ready (wscopes (wr p))"
  shows "try_write (write_val v) p = (True, p\<lparr>wr := wrote (enc_val v) (after_value (wscopes (wr p))) (wr p)\<rparr>)"
  using writes_ok(1) [OF assms] by (simp add: try_write_def)

lemma sends:
  "send_request m msgid params = try_write (write_val (request_msg m msgid params))"
  "send_notify m params = try_write (write_val (notify_msg m params))"
  "send_reply_result msgid v p = then_flush (try_write (write_val (reply_msg msgid VNil v)) p)"
  "send_reply_error msgid v p = then_flush (try_write (write_val (reply_msg msgid v VNil)) p)"
  "reply_err msgid t = write_rpc (write_val (reply_msg msgid (VStr t) VNil))"
  by (simp_all add: send_request_def send_notify_def send_reply_result_def send_reply_error_def reply_err_def
      request_msg_def notify_msg_def reply_msg_def seqE_assoc seqE_ret_fun eval_nat_numeral)

section \<open>What is read\<close>

text \<open>\<open>rpc_reads m bs ss x ss' p p'\<close>: in the scopes \<open>ss\<close> the call consumes \<open>bs\<close> and answers \<open>x\<close>, changing
  the rest of the state from \<open>p\<close> to \<open>p'\<close>. The readers of \<open>p\<close> and \<open>p'\<close> count only for the capacity of their scope
  vectors, which bounds the reader's from below.\<close>

definition rpc_reads :: "'a rpc \<Rightarrow> byte list \<Rightarrow> rscope list \<Rightarrow> 'a \<Rightarrow> rscope list \<Rightarrow> proto \<Rightarrow> proto \<Rightarrow> bool" where
  "rpc_reads m bs ss x ss' p p' \<longleftrightarrow>
     (\<forall>rest s. scope_cap (rd p) \<le> scope_cap s \<longrightarrow>
        (\<exists>s'. m (p\<lparr>rd := at (bs @ rest) ss s\<rparr>) = (Inr x, p'\<lparr>rd := at rest ss' s'\<rparr>) \<and> scope_cap (rd p') \<le> scope_cap s'))"

lemma rpc_reads_at:
  "rpc_reads m bs ss x ss' p p' \<Longrightarrow> scope_cap (rd p) \<le> scope_cap s \<Longrightarrow>
   \<exists>s'. m (p\<lparr>rd := at (bs @ rest) ss s\<rparr>) = (Inr x, p'\<lparr>rd := at rest ss' s'\<rparr>) \<and> scope_cap (rd p') \<le> scope_cap s'"
  by (simp add: rpc_reads_def)

lemma read_rpc_at: "m s = (Inr x, s') \<Longrightarrow> read_rpc m (p\<lparr>rd := s\<rparr>) = (Inr x, p\<lparr>rd := s'\<rparr>)"
  by (simp add: read_rpc_def)

lemma rpc_reads_lift:
  assumes "reads m bs ss x ss'" "grows m"
  shows "rpc_reads (read_rpc m) bs ss x ss' p p"
  unfolding rpc_reads_def
proof (intro allI impI)
  fix rest and s :: reader assume c: "scope_cap (rd p) \<le> scope_cap s"
  obtain s' where s': "m (at (bs @ rest) ss s) = (Inr x, at rest ss' s')" using reads_at [OF assms(1)] by blast
  show "\<exists>s'. read_rpc m (p\<lparr>rd := at (bs @ rest) ss s\<rparr>) = (Inr x, p\<lparr>rd := at rest ss' s'\<rparr>) \<and> scope_cap (rd p) \<le> scope_cap s'"
    using read_rpc_at [of m, OF s'] growsD [OF assms(2) s'] c by auto
qed

text \<open>Nothing is known of the capacity after a call of a parameter.\<close>

lemma rpc_reads_any:
  assumes "reads m bs ss x ss'"
  shows "rpc_reads (read_rpc m) bs ss x ss' p (p\<lparr>rd := reader_new []\<rparr>)"
  unfolding rpc_reads_def
proof (intro allI impI)
  fix rest s
  obtain s' where s': "m (at (bs @ rest) ss s) = (Inr x, at rest ss' s')" using reads_at [OF assms] by blast
  show "\<exists>s'. read_rpc m (p\<lparr>rd := at (bs @ rest) ss s\<rparr>) = (Inr x, p\<lparr>rd := reader_new []\<rparr>\<lparr>rd := at rest ss' s'\<rparr>)
      \<and> scope_cap (rd (p\<lparr>rd := reader_new []\<rparr>)) \<le> scope_cap s'"
    using read_rpc_at [of m, OF s'] by (auto simp: reader_new_def)
qed

lemma rpc_reads_seq:
  assumes "rpc_reads m bs ss x ss' p p'" "rpc_reads (f x) bs' ss' y ss'' p' p''"
  shows "rpc_reads (seqE m f) (bs @ bs') ss y ss'' p p''"
  unfolding rpc_reads_def
proof (intro allI impI)
  fix rest and s :: reader assume "scope_cap (rd p) \<le> scope_cap s"
  from rpc_reads_at [OF assms(1) this, of "bs' @ rest"] obtain s1 where
    1: "m (p\<lparr>rd := at ((bs @ bs') @ rest) ss s\<rparr>) = (Inr x, p'\<lparr>rd := at (bs' @ rest) ss' s1\<rparr>)" "scope_cap (rd p') \<le> scope_cap s1"
    by auto
  from rpc_reads_at [OF assms(2) 1(2), of rest] 1(1)
  show "\<exists>s'. seqE m f (p\<lparr>rd := at ((bs @ bs') @ rest) ss s\<rparr>) = (Inr y, p''\<lparr>rd := at rest ss'' s'\<rparr>) \<and> scope_cap (rd p'') \<le> scope_cap s'"
    by (simp add: seqE_def)
qed

lemma rpc_reads_pre:
  "rpc_reads m [] ss x ss' p p' \<Longrightarrow> rpc_reads (f x) bs ss' y ss'' p' p'' \<Longrightarrow> rpc_reads (seqE m f) bs ss y ss'' p p''"
  using rpc_reads_seq [of m "[]"] by fastforce

lemma rpc_reads_ret [intro]: "rpc_reads (retE x) [] ss x ss p p"
  by (auto simp: rpc_reads_def retE_def)

lemma rpc_reads_upd [intro]: "rpc_reads (upd_proxy f) [] ss () ss p (p\<lparr>prox := f (prox p)\<rparr>)"
  unfolding rpc_reads_def upd_proxy_def updE_def by (intro allI impI, rule exI, cases p) simp

lemma rpc_reads_set: "(\<And>s. g (p\<lparr>rd := s\<rparr>) = p'\<lparr>rd := s\<rparr>) \<Longrightarrow> rd p' = rd p \<Longrightarrow> rpc_reads (updE g) [] ss () ss p p'"
  by (auto simp: rpc_reads_def updE_def)

lemma rpc_reads_clear: "ptype (prox p) = Proxy_none \<Longrightarrow> rpc_msgid (prox p) = 0 \<Longrightarrow> rpc_reads verify_clear_state [] ss () ss p p"
  by (auto simp: rpc_reads_def verify_clear_state_def)

text \<open>A scope with \<open>k\<close> elements left.\<close>

definition left :: "nat \<Rightarrow> rscope \<Rightarrow> rscope" where
  "left k e = e\<lparr>elems_left := of_nat k\<rparr>"

lemma left_simps [simp]:
  "elems_left (left k e) = of_nat k" "kind (left k e) = kind e" "ctx_id (left k e) = ctx_id e"
  "ctx_index (left k e) = ctx_index e" "left k (left j e) = left k e" "reading_key (left k e) = reading_key e"
  by (simp_all add: left_def)

lemma left_ready: "kind e = Type_array \<Longrightarrow> Suc k < 2 ^ 32 \<Longrightarrow> rready (left (Suc k) e # ss)"
  using count_nonzero [of k] by (simp add: rready_def)

lemma left_after: "rafter (left (Suc k) e # ss) = left k e # ss"
  by (simp add: rafter_def dec_def left_def)

lemma reads_small_int:
  assumes "- (2 ^ 31) \<le> i" "i < 2 ^ 31" "rready ss"
  shows "reads (read_signed fc 32) (enc_int i) ss i (rafter ss)"
proof -
  have "to_signed 32 i = i" using assms by (intro to_signed_mod) auto
  moreover have "- (2 ^ 63) \<le> i" "i < 2 ^ 63" using assms by auto
  ultimately show ?thesis
    using reads_seqE_ret [OF reads_quick [OF reads_int assms(3)],
        of i "\<lambda>v. to_signed 32 (case v of Int_num i \<Rightarrow> i | _ \<Rightarrow> fc v)"]
    by (simp add: read_signed_def)
qed

lemma reads_elem_left: "reads elem_left [] (e # ss) (elems_left e) (e # ss)"
  by (rule readsI) (simp add: elem_left_def scope_ref_def seqE_def retE_def)

lemma rpc_reads_verify: "k < 2 ^ 32 \<Longrightarrow> rpc_reads (verify_elem_left k) [] (left k e # ss) () (left k e # ss) p p"
  unfolding verify_elem_left_def
  by (rule rpc_reads_pre [OF rpc_reads_lift [OF reads_elem_left grows_tame [OF scope_tame(1)]]]) (simp add: unat_count rpc_reads_ret)

lemma reads_end_array: "kind e = Type_array \<Longrightarrow> reads (end_array (ctx_id e, ctx_index e)) [] (left 0 e # ss) () ss"
  by (rule readsI) (use end_at(1) [of "left 0 e"] in simp)

lemma rpc_reads_begin:
  assumes "rready ss" "n < 2 ^ 32 - 1"
    and "\<And>e. kind e = Type_array \<Longrightarrow> rpc_reads (f (ctx_id e, ctx_index e)) bs (left n e # rafter ss) y ss'' p p'"
  shows "rpc_reads (seqE (read_rpc begin_array) f) (seq_header 0x90 0xdc n @ bs) ss y ss'' p p'"
  unfolding rpc_reads_def
proof (intro allI impI)
  fix rest and s :: reader assume c: "scope_cap (rd p) \<le> scope_cap s"
  obtain e s1 where e: "begin_array (at (seq_header 0x90 0xdc n @ (bs @ rest)) ss s) = (Inr (ctx_id e, ctx_index e), at (bs @ rest) (e # rafter ss) s1)"
    "kind e = Type_array" "elems_left e = of_nat n"
    using begin_scope_at [OF assms(1) count_array [OF assms(2)], of Type_array "bs @ rest" s] by (auto simp: begin_scope_eqs)
  have "left n e = e" using e(3) by (simp add: left_def)
  moreover have "scope_cap (rd p) \<le> scope_cap s1" using growsD [OF begin_grows(1) e(1)] c by simp
  ultimately have "\<exists>s'. f (ctx_id e, ctx_index e) (p\<lparr>rd := at (bs @ rest) (e # rafter ss) s1\<rparr>) = (Inr y, p'\<lparr>rd := at rest ss'' s'\<rparr>)
      \<and> scope_cap (rd p') \<le> scope_cap s'"
    using rpc_reads_at [OF assms(3) [OF e(2)], of s1 rest] by simp
  then show "\<exists>s'. seqE (read_rpc begin_array) f (p\<lparr>rd := at ((seq_header 0x90 0xdc n @ bs) @ rest) ss s\<rparr>) = (Inr y, p'\<lparr>rd := at rest ss'' s'\<rparr>)
      \<and> scope_cap (rd p') \<le> scope_cap s'"
    using e(1) by (simp add: seqE_def read_rpc_def)
qed

text \<open>A whole message, read by a reader with no scope open.\<close>

lemma handle_message:
  assumes "length vs < 2 ^ 32 - 1"
    and "\<And>e. kind e = Type_array \<Longrightarrow>
      rpc_reads (handle_body svc slots dump c (ctx_id e, ctx_index e)) (concat (map enc_val vs)) [left (length vs) e] st [] p p'"
    and "rd p = at (enc_val (VArr vs) @ rest) [] r"
  shows "\<exists>s'. handle_single_message svc slots dump c p = (Some st, p'\<lparr>rd := at rest [] s'\<rparr>)"
proof -
  let ?bs = "concat (map enc_val vs)"
  obtain e s1 where e: "begin_array (at (seq_header 0x90 0xdc (length vs) @ (?bs @ rest)) [] r) =
      (Inr (ctx_id e, ctx_index e), at (?bs @ rest) [e] s1)"
    "kind e = Type_array" "elems_left e = of_nat (length vs)"
    using begin_scope_at [OF _ count_array [OF assms(1)], of "[]" Type_array "?bs @ rest" r]
    by (auto simp: begin_scope_eqs rready_def rafter_def)
  have "left (length vs) e = e" using e(3) by (simp add: left_def)
  moreover have "scope_cap (rd p) \<le> scope_cap s1" using growsD [OF begin_grows(1) e(1)] assms(3) by simp
  ultimately obtain s' where "handle_body svc slots dump c (ctx_id e, ctx_index e) (p\<lparr>rd := at (?bs @ rest) [e] s1\<rparr>)
      = (Inr st, p'\<lparr>rd := at rest [] s'\<rparr>)"
    using rpc_reads_at [OF assms(2) [OF e(2)], of s1 rest] by auto
  moreover have "read_rpc begin_array p = (Inr (ctx_id e, ctx_index e), p\<lparr>rd := at (?bs @ rest) [e] s1\<rparr>)"
    using e(1) assms(3) by (simp add: read_rpc_def)
  ultimately show ?thesis by (simp add: handle_single_message_def) blast
qed

section \<open>Requests and notifications arrive\<close>

lemma reads_params:
  assumes "list_all wf_val params" "length params < 2 ^ 32 - 1" "kind e = Type_array" "map shape types = map shape params"
  shows "reads (read_vals c types) (concat (map enc_val params)) (left (length params) e # ss) params (left 0 e # ss)"
proof -
  have "reads (read_vals c params) (concat (map enc_val params)) (left (length params) e # ss) params
      ((left (length params) e)\<lparr>elems_left := of_nat 0\<rparr> # ss)"
    by (rule reads_val(2)) (use assms in auto)
  then show ?thesis using read_vals_same_shape [OF assms(4), of c] by (simp add: left_def)
qed

lemma store_parameters_ok:
  "rpc_reads (store_parameters vs) [] ss () ss p (p\<lparr>prox := (prox p)\<lparr>handler := map_option (\<lambda>(m, _). (m, vs)) (handler (prox p))\<rparr>\<rparr>)"
  unfolding store_parameters_def by (rule rpc_reads_upd)

text \<open>The common end of both handlers: the parameter array and the closing of the two scopes.\<close>

lemma rpc_reads_params:
  assumes "list_all wf_val params" "length params < 2 ^ 32 - 1" "map shape types = map shape params" "kind e = Type_array"
    and parse: "\<And>ss e'. kind e' = Type_array \<Longrightarrow>
      rpc_reads parse (concat (map enc_val params)) (left (length params) e' # ss) params (left 0 e' # ss) p p"
  shows "rpc_reads (take_parameters (ctx_id e, ctx_index e) types mis parse) (enc_val (VArr params)) [left 1 e] Okay [] p
       (p\<lparr>prox := (prox p)\<lparr>handler := map_option (\<lambda>(m, _). (m, params)) (handler (prox p))\<rparr>\<rparr>)"
proof -
  have r1: "rready [left 1 e]" using left_ready [of e 0] assms(4) by simp
  have a1: "rafter [left 1 e] = [left 0 e]" using left_after [of 0 e] by simp
  have len: "length types = length params" using assms(3) map_eq_imp_length_eq by blast
  have u: "unat (of_nat (length params) :: u32) = length params" using assms(2) by (intro unat_count) simp
  show ?thesis
    unfolding enc_val.simps take_parameters_def
  proof (rule rpc_reads_begin [OF r1 assms(2)], unfold a1, rule rpc_reads_pre [OF rpc_reads_lift [OF reads_elem_left grows_tame [OF scope_tame(1)]]])
    fix e' :: rscope assume e': "kind e' = Type_array"
    let ?p = "p\<lparr>prox := (prox p)\<lparr>handler := map_option (\<lambda>(m, _). (m, params)) (handler (prox p))\<rparr>\<rparr>"
    let ?rest = "\<lambda>vs. seqE (store_parameters vs) (\<lambda>_. seqE (read_rpc (end_array (ctx_id e', ctx_index e'))) (\<lambda>_.
        seqE (read_rpc (end_array (ctx_id e, ctx_index e))) (\<lambda>_. retE Okay)))"
    have "rpc_reads (?rest params) [] [left 0 e', left 0 e] Okay [] p ?p"
      by (rule rpc_reads_pre [OF store_parameters_ok], rule rpc_reads_pre [OF rpc_reads_lift [OF reads_end_array [OF e'] closing_grows(2)]],
          rule rpc_reads_pre [OF rpc_reads_lift [OF reads_end_array [OF assms(4)] closing_grows(2)]], rule rpc_reads_ret)
    from rpc_reads_seq [where f = ?rest, OF parse [OF e'] this]
    show "rpc_reads (if unat (elems_left (left (length params) e')) \<noteq> length types
        then seqE mis (\<lambda>_. throwE (Trivial Invalid_number_of_parameters)) else seqE parse ?rest)
      (concat (map enc_val params)) [left (length params) e', left 0 e] Okay [] p ?p"
      using u len by simp
  qed
qed

lemma read_parameters_ok: "rpc_reads (read_rpc (read_vals c ps)) bs ss vs ss' p p' \<Longrightarrow> rpc_reads (read_parameters c msgid ps) bs ss vs ss' p p'"
  unfolding rpc_reads_def
proof (intro allI impI)
  fix rest and s :: reader
  assume "\<forall>rest s. scope_cap (rd p) \<le> scope_cap s \<longrightarrow> (\<exists>s'. read_rpc (read_vals c ps) (p\<lparr>rd := at (bs @ rest) ss s\<rparr>)
      = (Inr vs, p'\<lparr>rd := at rest ss' s'\<rparr>) \<and> scope_cap (rd p') \<le> scope_cap s')" "scope_cap (rd p) \<le> scope_cap s"
  then obtain s' where "read_rpc (read_vals c ps) (p\<lparr>rd := at (bs @ rest) ss s\<rparr>) = (Inr vs, p'\<lparr>rd := at rest ss' s'\<rparr>)"
    "scope_cap (rd p') \<le> scope_cap s'" by blast
  then show "\<exists>s'. read_parameters c msgid ps (p\<lparr>rd := at (bs @ rest) ss s\<rparr>) = (Inr vs, p'\<lparr>rd := at rest ss' s'\<rparr>)
      \<and> scope_cap (rd p') \<le> scope_cap s'"
    by (intro exI [of _ s']) (simp add: read_parameters_def)
qed

lemma read_signed_grows: "grows (read_signed fc w)"
  unfolding read_signed_def by (intro rd_grows grows_tame [OF read_tame(1)])

lemma rpc_reads_int:
  "- (2 ^ 31) \<le> i \<Longrightarrow> i < 2 ^ 31 \<Longrightarrow> kind e = Type_array \<Longrightarrow> Suc k < 2 ^ 32 \<Longrightarrow>
     rpc_reads (read_rpc (read_signed fc 32)) (enc_int i) (left (Suc k) e # ss) i (left k e # ss) p p"
  using rpc_reads_lift [OF reads_small_int [OF _ _ left_ready] read_signed_grows] left_after by metis

lemma rpc_reads_str:
  "length m < 2 ^ 32 - 1 \<Longrightarrow> kind e = Type_array \<Longrightarrow> Suc k < 2 ^ 32 \<Longrightarrow>
     rpc_reads (read_rpc read_str) (enc_str m) (left (Suc k) e # ss) m (left k e # ss) p p"
  using rpc_reads_lift [OF reads_string [OF _ step_value [OF left_ready]] grows_tame [OF read_tame(2)]] left_after by metis

lemma proxy_parameters_ok:
  assumes "prox p = proxy_new" "svc m = Some types"
  shows "rpc_reads (request_parameters svc m msgid) [] ss (Some types) ss p
      (p\<lparr>prox := \<lparr>ptype = Proxy_request, rpc_msgid = msgid, handler = Some (m, types)\<rparr>\<rparr>)"
    and "rpc_reads (notify_parameters svc m) [] ss (Some types) ss p
      (p\<lparr>prox := \<lparr>ptype = Proxy_notify, rpc_msgid = 0, handler = Some (m, types)\<rparr>\<rparr>)"
  unfolding rpc_reads_def request_parameters_def notify_parameters_def proxy_parameters_def verify_clear_state_def
  by (cases p, use assms in \<open>simp add: seqE_def upd_proxy_def updE_def retE_def find_handler_def proxy_new_def, blast\<close>)+

lemma handle_request_ok:
  assumes "prox p = proxy_new" "svc m = Some types" "map shape types = map shape params"
    and "length m < 2 ^ 32 - 1" "- (2 ^ 31) \<le> msgid" "msgid < 2 ^ 31" "list_all wf_val params" "length params < 2 ^ 32 - 1"
    and e: "kind e = Type_array"
  shows "rpc_reads (handle_body svc slots dump c (ctx_id e, ctx_index e)) (enc_int msg_request @ enc_int msgid @ enc_str m @ enc_val (VArr params))
     [left 4 e] Okay [] p (p\<lparr>prox := \<lparr>ptype = Proxy_request, rpc_msgid = msgid, handler = Some (m, params)\<rparr>\<rparr>)"
proof -
  let ?p1 = "p\<lparr>prox := \<lparr>ptype = Proxy_request, rpc_msgid = msgid, handler = Some (m, types)\<rparr>\<rparr>"
  have n: "left 4 e = left (Suc 3) e" "left 3 e = left (Suc 2) e" "left 2 e = left (Suc 1) e" by simp_all
  have parse: "rpc_reads (read_parameters c msgid types) (concat (map enc_val params)) (left (length params) e' # ss) params (left 0 e' # ss) ?p1 ?p1"
    if "kind e' = Type_array" for ss e'
    by (rule read_parameters_ok [OF rpc_reads_lift [OF reads_params read_val_grows(2)]]) (use assms that in auto)
  have 4: "rpc_reads (read_rpc (read_signed (cast_int c) 32)) (enc_int msg_request) [left 4 e] msg_request [left 3 e] p p"
    unfolding n(1) by (rule rpc_reads_int) (use e in \<open>auto simp: msg_request_def\<close>)
  have 3: "rpc_reads (read_rpc (read_signed (cast_int c) 32)) (enc_int msgid) [left 3 e] msgid [left 2 e] p p"
    unfolding n(2) by (rule rpc_reads_int) (use e assms in auto)
  have 2: "rpc_reads (read_rpc read_str) (enc_str m) [left 2 e] m [left 1 e] p p"
    unfolding n(3) by (rule rpc_reads_str) (use e assms in auto)
  have "rpc_reads (take_parameters (ctx_id e, ctx_index e) types (reply_err msgid errstr_invalid_parameter) (read_parameters c msgid types))
      (enc_val (VArr params)) [left 1 e] Okay [] ?p1 (p\<lparr>prox := \<lparr>ptype = Proxy_request, rpc_msgid = msgid, handler = Some (m, params)\<rparr>\<rparr>)"
    using rpc_reads_params [OF assms(7,8,3) e parse] by simp
  note 1 = rpc_reads_pre [OF proxy_parameters_ok(1) [of p svc m types msgid, OF assms(1,2)],
      where f = "\<lambda>params. case params of None \<Rightarrow> seqE (reply_err msgid errstr_method_not_found) (\<lambda>_.
         seqE (read_rpc (end_array (ctx_id e, ctx_index e))) (\<lambda>_. retE Unknown_method_name))
       | Some ps \<Rightarrow> take_parameters (ctx_id e, ctx_index e) ps (reply_err msgid errstr_invalid_parameter) (read_parameters c msgid ps)",
      unfolded option.case, OF this]
  have "rpc_reads (handle_request svc c (ctx_id e, ctx_index e)) (enc_int msgid @ enc_str m @ enc_val (VArr params)) [left 3 e] Okay [] p
      (p\<lparr>prox := \<lparr>ptype = Proxy_request, rpc_msgid = msgid, handler = Some (m, params)\<rparr>\<rparr>)"
    unfolding handle_request_def
    by (rule rpc_reads_pre [OF rpc_reads_verify], simp, rule rpc_reads_seq [OF 3], rule rpc_reads_seq [OF 2], rule 1)
  then show ?thesis
    unfolding handle_body_def
    by (intro rpc_reads_seq [OF 4]) (simp add: msg_request_def msg_reply_def msg_notify_def)
qed

lemma handle_notify_ok:
  assumes "prox p = proxy_new" "svc m = Some types" "map shape types = map shape params"
    and "length m < 2 ^ 32 - 1" "list_all wf_val params" "length params < 2 ^ 32 - 1"
    and e: "kind e = Type_array"
  shows "rpc_reads (handle_body svc slots dump c (ctx_id e, ctx_index e)) (enc_int msg_notify @ enc_str m @ enc_val (VArr params))
     [left 3 e] Okay [] p (p\<lparr>prox := \<lparr>ptype = Proxy_notify, rpc_msgid = 0, handler = Some (m, params)\<rparr>\<rparr>)"
proof -
  let ?p1 = "p\<lparr>prox := \<lparr>ptype = Proxy_notify, rpc_msgid = 0, handler = Some (m, types)\<rparr>\<rparr>"
  have n: "left 3 e = left (Suc 2) e" "left 2 e = left (Suc 1) e" by simp_all
  have parse: "rpc_reads (read_rpc (read_vals c types)) (concat (map enc_val params)) (left (length params) e' # ss) params (left 0 e' # ss) ?p1 ?p1"
    if "kind e' = Type_array" for ss e'
    by (rule rpc_reads_lift [OF reads_params read_val_grows(2)]) (use assms that in auto)
  have 3: "rpc_reads (read_rpc (read_signed (cast_int c) 32)) (enc_int msg_notify) [left 3 e] msg_notify [left 2 e] p p"
    unfolding n(1) by (rule rpc_reads_int) (use e in \<open>auto simp: msg_notify_def\<close>)
  have 2: "rpc_reads (read_rpc read_str) (enc_str m) [left 2 e] m [left 1 e] p p"
    unfolding n(2) by (rule rpc_reads_str) (use e assms in auto)
  have "rpc_reads (take_parameters (ctx_id e, ctx_index e) types (retE ()) (read_rpc (read_vals c types)))
      (enc_val (VArr params)) [left 1 e] Okay [] ?p1 (p\<lparr>prox := \<lparr>ptype = Proxy_notify, rpc_msgid = 0, handler = Some (m, params)\<rparr>\<rparr>)"
    using rpc_reads_params [OF assms(5,6,3) e parse] by simp
  note 1 = rpc_reads_pre [OF proxy_parameters_ok(2) [of p svc m types, OF assms(1,2)],
      where f = "\<lambda>params. case params of None \<Rightarrow> seqE (read_rpc (end_array (ctx_id e, ctx_index e))) (\<lambda>_. retE Unknown_method_name)
       | Some ps \<Rightarrow> take_parameters (ctx_id e, ctx_index e) ps (retE ()) (read_rpc (read_vals c ps))",
      unfolded option.case, OF this]
  have "rpc_reads (handle_notify svc c (ctx_id e, ctx_index e)) (enc_str m @ enc_val (VArr params)) [left 2 e] Okay [] p
      (p\<lparr>prox := \<lparr>ptype = Proxy_notify, rpc_msgid = 0, handler = Some (m, params)\<rparr>\<rparr>)"
    unfolding handle_notify_def
    by (rule rpc_reads_pre [OF rpc_reads_verify], simp, rule rpc_reads_seq [OF 2], rule 1)
  then show ?thesis
    unfolding handle_body_def
    by (intro rpc_reads_seq [OF 3]) (simp add: msg_reply_def msg_notify_def)
qed

section \<open>Replies arrive\<close>

lemma type_next_nonnull:
  assumes "typecode_of h \<in> {Float32, Float64, Positive_fixint, Negative_fixint, Uint8, Uint16, Uint32, Uint64, Int8, Int16, Int32, Int64,
      Bool_false, Bool_true, Fixstr, Str8, Str16, Str32, Bin8, Bin16, Bin32, Fixarray, Array16, Array32, Fixmap, Map16, Map32}"
  shows "\<exists>t. type_next (at (h # cs) ss s) = (Inr t, at (h # cs) ss s) \<and> t \<noteq> Entity_null"
  using assms by (auto simp: type_next_def seqE_def retE_def Let_def)

lemma number_nonnull:
  assumes "\<And>ss. starts bs (\<lambda>h. reads (read_number h) bs ss x ss)"
  shows "starts bs (\<lambda>h. \<forall>cs ss s. \<exists>t. type_next (at (h # cs) ss s) = (Inr t, at (h # cs) ss s) \<and> t \<noteq> Entity_null)"
  by (rule starts_mono [OF assms [of "[]"]]) (use type_next_nonnull number_header in blast)

lemma type_next_header:
  assumes "wf_val v"
  shows "starts (enc_val v) (\<lambda>h. \<forall>cs ss s. \<exists>t. type_next (at (h # cs) ss s) = (Inr t, at (h # cs) ss s) \<and> (t = Entity_null \<longleftrightarrow> v = VNil))"
proof (cases "v = VNil")
  case True
  then show ?thesis by (simp add: starts_def type_next_def seqE_def retE_def code_headers)
next
  case False
  have "starts (enc_val v) (\<lambda>h. \<forall>cs ss s. \<exists>t. type_next (at (h # cs) ss s) = (Inr t, at (h # cs) ss s) \<and> t \<noteq> Entity_null)"
  proof (cases v)
    case (VBool b)
    then show ?thesis using number_nonnull [of "[if b then 0xc3 else 0xc2]" "Int_num (of_bool b)"] reads_bool [of b]
      by (simp add: starts_def)
  next
    case (VInt i)
    then show ?thesis using number_nonnull [of "enc_int i", OF reads_int] assms by simp
  next
    case (VUint i)
    then show ?thesis using number_nonnull [of "enc_uint i", OF reads_uint] assms by simp
  next
    case (VFloat f)
    then show ?thesis using type_next_nonnull [of "0xca"] by (simp add: starts_def code_headers)
  next
    case (VDouble f)
    then show ?thesis using type_next_nonnull [of "0xcb"] by (simp add: starts_def code_headers)
  next
    case (VStr s)
    then have "length s < 2 ^ 32 - 1" using assms by simp
    from count_str [OF this, of "[]"] have "starts (if length s < 32 then [0xa0 + of_nat (length s)] else size_header 0xd9 (length s))
        (\<lambda>h. typecode_of h \<in> {Fixstr, Str8, Str16, Str32})"
      by (rule starts_mono) (rule str_header)
    from starts_append [OF this, of s] show ?thesis
      unfolding VStr enc_val.simps enc_str_def by (rule starts_mono) (use type_next_nonnull in blast)
  next
    case (VBin s)
    show ?thesis unfolding VBin enc_val.simps enc_bin_def
      by (rule starts_mono [OF starts_append [OF size_header_codes]]) (use type_next_nonnull in blast)
  next
    case (VArr vs)
    show ?thesis unfolding VArr enc_val.simps
      by (rule starts_mono [OF starts_append [OF seq_header_codes(1)]]) (use type_next_nonnull in blast)
  next
    case (VMap vs)
    show ?thesis unfolding VMap enc_val.simps
      by (rule starts_mono [OF starts_append [OF seq_header_codes(2)]]) (use type_next_nonnull in blast)
  qed (use False in simp)
  then show ?thesis by (rule starts_mono) (use False in simp)
qed

lemma rpc_reads_null_next:
  assumes "wf_val v" and "rpc_reads (f (v = VNil)) (enc_val v @ bs) ss y ss' p p'"
  shows "rpc_reads (seqE (read_rpc is_null_next) f) (enc_val v @ bs) ss y ss' p p'"
  unfolding rpc_reads_def
proof (intro allI impI)
  fix rest and s :: reader assume c: "scope_cap (rd p) \<le> scope_cap s"
  obtain h t where h: "enc_val v = h # t" and ty: "\<forall>cs ss s. \<exists>t. type_next (at (h # cs) ss s) = (Inr t, at (h # cs) ss s) \<and> (t = Entity_null \<longleftrightarrow> v = VNil)"
    using type_next_header [OF assms(1)] by (auto simp: starts_def split: list.splits)
  obtain t' where t': "type_next (at (h # (t @ bs @ rest)) ss s) = (Inr t', at (h # (t @ bs @ rest)) ss s)" "t' = Entity_null \<longleftrightarrow> v = VNil"
    using ty by blast
  have "read_rpc is_null_next (p\<lparr>rd := at ((enc_val v @ bs) @ rest) ss s\<rparr>) = (Inr (v = VNil), p\<lparr>rd := at ((enc_val v @ bs) @ rest) ss s\<rparr>)"
    using t' by (simp add: read_rpc_def is_null_next_def seqE_def retE_def h)
  then show "\<exists>s'. seqE (read_rpc is_null_next) f (p\<lparr>rd := at ((enc_val v @ bs) @ rest) ss s\<rparr>) = (Inr y, p'\<lparr>rd := at rest ss' s'\<rparr>)
      \<and> scope_cap (rd p') \<le> scope_cap s'"
    using rpc_reads_at [OF assms(2) c, of rest] by (simp add: seqE_def)
qed

text \<open>An item is skipped when there is room for the scopes it opens.\<close>

lemma rpc_reads_skip:
  assumes "skippable v" "wf_val v" "rready ss" "depth v \<le> 1 \<or> length ss + depth v \<le> scope_cap (rd p)"
  shows "rpc_reads (read_rpc read_nil) (enc_val v) ss () (rafter ss) p p"
  unfolding rpc_reads_def
proof (intro allI impI)
  fix rest and s :: reader assume c: "scope_cap (rd p) \<le> scope_cap s"
  let ?s = "at (enc_val v @ rest) ss s"
  have "skips (depth v) (skip_with (break_scope (fuel_for ?s))) (enc_val v) ss (rafter ss)"
    by (rule skips_val [OF assms(1-3)]) (simp add: fuel_for_def)
  then obtain s' where s': "read_nil ?s = (Inr (), at rest (rafter ss) s')"
    using skips_at(1) [of "depth v" _ "enc_val v" ss "rafter ss" s rest] assms(4) c
    by (fastforce simp: read_nil_def skip_once_def)
  show "\<exists>s'. read_rpc read_nil (p\<lparr>rd := ?s\<rparr>) = (Inr (), p\<lparr>rd := at rest (rafter ss) s'\<rparr>) \<and> scope_cap (rd p) \<le> scope_cap s'"
    using read_rpc_at [of read_nil, OF s'] growsD [OF closing_grows(1) s'] c by auto
qed

text \<open>The proxy after a reply.\<close>

abbreviation replied :: "proxy_type \<Rightarrow> int \<Rightarrow> proto \<Rightarrow> proto" where
  "replied ty msgid p \<equiv> p\<lparr>prox := \<lparr>ptype = ty, rpc_msgid = msgid, handler = None\<rparr>\<rparr>"

lemma reply_result_ok:
  assumes "prox p = proxy_new" "slots msgid = Some (Some ty)" "shape ty = shape v" "wf_val v" "rready ss"
  shows "rpc_reads (reply_result slots c msgid) (enc_val v) ss True (rafter ss) p
      (replied Reply_okay msgid (p\<lparr>results := (results p)(msgid \<mapsto> v)\<rparr>))"
proof -
  let ?p1 = "replied Reply_expired msgid p"
  let ?p2 = "?p1\<lparr>results := (results p)(msgid \<mapsto> v)\<rparr>"
  have 1: "rpc_reads verify_clear_state [] ss () ss p p"
    by (rule rpc_reads_clear) (simp_all add: assms proxy_new_def)
  have 2: "rpc_reads (read_rpc (read_val c ty)) (enc_val v) ss v (rafter ss) ?p1 ?p1"
    using reads_val(1) [OF assms(4,5), of c] read_val_same_shape [OF assms(3), of c] by (simp add: rpc_reads_lift read_val_grows)
  have 3: "rpc_reads (updE (\<lambda>p. p\<lparr>results := (results p)(msgid \<mapsto> v)\<rparr>)) [] (rafter ss) () (rafter ss) ?p1 ?p2"
    by (rule rpc_reads_set) simp_all
  have 4: "rpc_reads (upd_proxy (\<lambda>x. x\<lparr>ptype := Reply_okay\<rparr>)) [] (rafter ss) () (rafter ss) ?p2
      (replied Reply_okay msgid (p\<lparr>results := (results p)(msgid \<mapsto> v)\<rparr>))"
    using rpc_reads_upd [of "\<lambda>x. x\<lparr>ptype := Reply_okay\<rparr>" "rafter ss" ?p2] by simp
  have 5: "rpc_reads (updE (\<lambda>p. p\<lparr>results := (results p)(msgid \<mapsto> v)\<rparr>)) [] (rafter ss) () (rafter ss) ?p1 ?p2 \<Longrightarrow>
      rpc_reads (seqE (read_rpc (read_val c ty)) (\<lambda>v. updE (\<lambda>p. p\<lparr>results := (results p)(msgid \<mapsto> v)\<rparr>))) (enc_val v) ss () (rafter ss) ?p1 ?p2"
    using rpc_reads_seq [OF 2, where f = "\<lambda>v. updE (\<lambda>p. p\<lparr>results := (results p)(msgid \<mapsto> v)\<rparr>)" and bs' = "[]"] by simp
  have 6: "rpc_reads (seqE (upd_proxy (\<lambda>x. x\<lparr>ptype := Reply_okay\<rparr>)) (\<lambda>_. retE True)) [] (rafter ss) True (rafter ss) ?p2
      (replied Reply_okay msgid (p\<lparr>results := (results p)(msgid \<mapsto> v)\<rparr>))"
    by (rule rpc_reads_pre [OF 4 rpc_reads_ret])
  have 7: "rpc_reads (seqE (seqE (read_rpc (read_val c ty)) (\<lambda>v. updE (\<lambda>p. p\<lparr>results := (results p)(msgid \<mapsto> v)\<rparr>))) (\<lambda>_.
         seqE (upd_proxy (\<lambda>x. x\<lparr>ptype := Reply_okay\<rparr>)) (\<lambda>_. retE True))) (enc_val v) ss True (rafter ss) ?p1
      (replied Reply_okay msgid (p\<lparr>results := (results p)(msgid \<mapsto> v)\<rparr>))"
    using rpc_reads_seq [OF 5 [OF 3] 6] by simp
  show ?thesis
    unfolding reply_result_def
    by (rule rpc_reads_pre [OF 1], rule rpc_reads_pre [OF rpc_reads_upd]) (use 7 assms(1,2) in \<open>simp add: proxy_new_def\<close>)
qed

lemma reply_result_expired:
  assumes "prox p = proxy_new" "slots msgid = None" "skippable v" "wf_val v" "rready ss" "depth v \<le> 1 \<or> length ss + depth v \<le> scope_cap (rd p)"
  shows "rpc_reads (reply_result slots c msgid) (enc_val v) ss False (rafter ss) p (replied Reply_expired msgid p)"
proof -
  have 1: "rpc_reads verify_clear_state [] ss () ss p p"
    by (rule rpc_reads_clear) (simp_all add: assms proxy_new_def)
  have 2: "rpc_reads (seqE (read_rpc read_nil) (\<lambda>_. retE False)) (enc_val v) ss False (rafter ss) (replied Reply_expired msgid p) (replied Reply_expired msgid p)"
    using rpc_reads_seq [OF rpc_reads_skip [OF assms(3-5)] rpc_reads_ret, of "replied Reply_expired msgid p"] assms(6) by simp
  show ?thesis
    unfolding reply_result_def
    by (rule rpc_reads_pre [OF 1], rule rpc_reads_pre [OF rpc_reads_upd]) (use 2 assms(1,2) in \<open>simp add: proxy_new_def\<close>)
qed

lemma reply_error_ok:
  assumes "prox p = proxy_new" "slots msgid = Some ty" "reads dump (enc_val v) ss t (rafter ss)"
  shows "rpc_reads (reply_error slots dump msgid) (enc_val v) ss True (rafter ss) p
      (replied Reply_error msgid (p\<lparr>rd := reader_new [], errors := (errors p)(msgid \<mapsto> t)\<rparr>))"
proof -
  let ?p1 = "replied Reply_expired msgid p"
  let ?p1' = "?p1\<lparr>rd := reader_new []\<rparr>"
  let ?p2 = "?p1'\<lparr>errors := (errors p)(msgid \<mapsto> t)\<rparr>"
  have 1: "rpc_reads verify_clear_state [] ss () ss p p"
    by (rule rpc_reads_clear) (simp_all add: assms proxy_new_def)
  have 3: "rpc_reads (updE (\<lambda>p. p\<lparr>errors := (errors p)(msgid \<mapsto> t)\<rparr>)) [] (rafter ss) () (rafter ss) ?p1' ?p2"
    by (rule rpc_reads_set) simp_all
  have 4: "rpc_reads (upd_proxy (\<lambda>x. x\<lparr>ptype := Reply_error\<rparr>)) [] (rafter ss) () (rafter ss) ?p2
      (replied Reply_error msgid (p\<lparr>rd := reader_new [], errors := (errors p)(msgid \<mapsto> t)\<rparr>))"
    using rpc_reads_upd [of "\<lambda>x. x\<lparr>ptype := Reply_error\<rparr>" "rafter ss" ?p2] by simp
  have 7: "rpc_reads (seqE (read_rpc dump) (\<lambda>t. seqE (updE (\<lambda>p. p\<lparr>errors := (errors p)(msgid \<mapsto> t)\<rparr>)) (\<lambda>_.
         seqE (upd_proxy (\<lambda>x. x\<lparr>ptype := Reply_error\<rparr>)) (\<lambda>_. retE True)))) (enc_val v) ss True (rafter ss) ?p1
      (replied Reply_error msgid (p\<lparr>rd := reader_new [], errors := (errors p)(msgid \<mapsto> t)\<rparr>))"
    using rpc_reads_seq [OF rpc_reads_any [OF assms(3), of ?p1], where f = "\<lambda>t. seqE (updE (\<lambda>p. p\<lparr>errors := (errors p)(msgid \<mapsto> t)\<rparr>)) (\<lambda>_.
         seqE (upd_proxy (\<lambda>x. x\<lparr>ptype := Reply_error\<rparr>)) (\<lambda>_. retE True))",
        OF rpc_reads_pre [OF 3 rpc_reads_pre [OF 4 rpc_reads_ret]]] by simp
  show ?thesis
    unfolding reply_error_def
    by (rule rpc_reads_pre [OF 1], rule rpc_reads_pre [OF rpc_reads_upd]) (use 7 assms(1,2) in \<open>simp add: proxy_new_def\<close>)
qed

lemma reply_error_expired:
  assumes "prox p = proxy_new" "slots msgid = None" "skippable v" "wf_val v" "rready ss" "depth v \<le> 1 \<or> length ss + depth v \<le> scope_cap (rd p)"
  shows "rpc_reads (reply_error slots dump msgid) (enc_val v) ss False (rafter ss) p (replied Reply_expired msgid p)"
proof -
  have 1: "rpc_reads verify_clear_state [] ss () ss p p"
    by (rule rpc_reads_clear) (simp_all add: assms proxy_new_def)
  have 2: "rpc_reads (seqE (read_rpc read_nil) (\<lambda>_. retE False)) (enc_val v) ss False (rafter ss) (replied Reply_expired msgid p) (replied Reply_expired msgid p)"
    using rpc_reads_seq [OF rpc_reads_skip [OF assms(3-5)] rpc_reads_ret, of "replied Reply_expired msgid p"] assms(6) by simp
  show ?thesis
    unfolding reply_error_def
    by (rule rpc_reads_pre [OF 1], rule rpc_reads_pre [OF rpc_reads_upd]) (use 2 assms(1,2) in \<open>simp add: proxy_new_def\<close>)
qed

lemma take_reply:
  assumes "- (2 ^ 31) \<le> msgid" "msgid < 2 ^ 31" and e: "kind e = Type_array"
    and body: "rpc_reads (seqE (read_rpc is_null_next) (\<lambda>null.
       if null
       then seqE (read_rpc read_nil) (\<lambda>_. seqE (reply_result slots c msgid) (\<lambda>_. retE ()))
       else seqE (reply_error slots dump msgid) (\<lambda>_. read_rpc read_nil))) bs [left 2 e] () [left 0 e] p p'"
  shows "rpc_reads (handle_body svc slots dump c (ctx_id e, ctx_index e)) (enc_int msg_reply @ enc_int msgid @ bs) [left 4 e] Okay [] p p'"
proof -
  have n: "left 4 e = left (Suc 3) e" "left 3 e = left (Suc 2) e" by simp_all
  have 4: "rpc_reads (read_rpc (read_signed (cast_int c) 32)) (enc_int msg_reply) [left 4 e] msg_reply [left 3 e] p p"
    unfolding n(1) by (rule rpc_reads_int) (use e in \<open>auto simp: msg_reply_def\<close>)
  have 3: "rpc_reads (read_rpc (read_signed (cast_int c) 32)) (enc_int msgid) [left 3 e] msgid [left 2 e] p p"
    unfolding n(2) by (rule rpc_reads_int) (use e assms in auto)
  have h: "rpc_reads (handle_reply slots dump c) (enc_int msgid @ bs) [left 3 e] () [left 0 e] p p'"
    unfolding handle_reply_def
    by (rule rpc_reads_pre [OF rpc_reads_verify], simp, rule rpc_reads_seq [OF 3], rule body)
  have f: "rpc_reads (seqE (read_rpc (end_array (ctx_id e, ctx_index e))) (\<lambda>_. retE Okay)) [] [left 0 e] Okay [] p' p'"
    by (rule rpc_reads_pre [OF rpc_reads_lift [OF reads_end_array [OF e] closing_grows(2)] rpc_reads_ret])
  show ?thesis
    unfolding handle_body_def
    by (intro rpc_reads_seq [OF 4]) (use rpc_reads_seq [OF h f] in simp)
qed

lemma left_few:
  assumes "kind e = Type_array"
  shows "rready [left 1 e]" "rafter [left 1 e] = [left 0 e]" "rready [left 2 e]" "rafter [left 2 e] = [left 1 e]"
proof -
  have n: "left 1 e = left (Suc 0) e" "left 2 e = left (Suc (Suc 0)) e" by (simp_all add: numeral_2_eq_2)
  show "rready [left 1 e]" "rready [left 2 e]" unfolding n using assms by (auto intro!: left_ready)
  show "rafter [left 1 e] = [left 0 e]" "rafter [left 2 e] = [left 1 e]" unfolding n by (rule left_after)+
qed

lemma take_reply_result:
  assumes "- (2 ^ 31) \<le> msgid" "msgid < 2 ^ 31" "kind e = Type_array"
    and "rpc_reads (reply_result slots c msgid) (enc_val v) [left 1 e] x [left 0 e] p p'"
  shows "rpc_reads (handle_body svc slots dump c (ctx_id e, ctx_index e)) (concat (map enc_val [VInt msg_reply, VInt msgid, VNil, v]))
      [left 4 e] Okay [] p p'"
proof -
  have 1: "rpc_reads (seqE (read_rpc read_nil) (\<lambda>_. seqE (reply_result slots c msgid) (\<lambda>_. retE ()))) ([0xc0] @ enc_val v @ []) [left 2 e] () [left 0 e] p p'"
    using rpc_reads_lift [OF reads_nil [OF left_few(3) [OF assms(3)]] closing_grows(1)] unfolding left_few(4) [OF assms(3)]
    by (rule rpc_reads_seq) (rule rpc_reads_seq [OF assms(4) rpc_reads_ret])
  show ?thesis
    using take_reply [OF assms(1-3) rpc_reads_null_next [of VNil]] 1 by simp
qed

lemma take_reply_error:
  assumes "- (2 ^ 31) \<le> msgid" "msgid < 2 ^ 31" "kind e = Type_array" "wf_val v" "v \<noteq> VNil"
    and "rpc_reads (reply_error slots dump msgid) (enc_val v) [left 2 e] x [left 1 e] p p'"
  shows "rpc_reads (handle_body svc slots dump c (ctx_id e, ctx_index e)) (concat (map enc_val [VInt msg_reply, VInt msgid, v, VNil]))
      [left 4 e] Okay [] p p'"
proof -
  have "rpc_reads (seqE (reply_error slots dump msgid) (\<lambda>_. read_rpc read_nil)) (enc_val v @ [0xc0]) [left 2 e] () [left 0 e] p p'"
    by (rule rpc_reads_seq [OF assms(6)]) (use rpc_reads_lift [OF reads_nil [OF left_few(1) [OF assms(3)]] closing_grows(1)] left_few(2) [OF assms(3)] in simp)
  then show ?thesis
    using take_reply [OF assms(1-3) rpc_reads_null_next [OF assms(4)], of slots c dump "[0xc0]"] assms(5) by simp
qed

text \<open>Closing the message with its parameters unread.\<close>

lemma rpc_reads_end_skip:
  assumes e: "kind e = Type_array" and v: "skippable v" "wf_val v" and room: "depth v < scope_cap (rd p)"
  shows "rpc_reads (read_rpc (end_array (ctx_id e, ctx_index e))) (enc_val v) [left 1 e] () [] p p"
  unfolding rpc_reads_def
proof (intro allI impI)
  fix rest and s :: reader assume c: "scope_cap (rd p) \<le> scope_cap s"
  let ?s = "at (enc_val v @ rest) [left 1 e] s"
  have "breaks (foldr (\<lambda>v d. max (depth v) d) [v] 0) (break_scope (fuel_for ?s)) (concat (map enc_val [v])) [left 1 e] []"
    by (rule break_array) (use e v skips_val in \<open>auto simp: fuel_for_def\<close>)
  from breaks_at(1) [OF this, of s rest] room c
  obtain s' where s': "break_scope (fuel_for ?s) ?s = (Inr (), at rest [] s')" by auto
  then have "end_array (ctx_id e, ctx_index e) ?s = (Inr (), at rest [] s')"
    using e by (simp add: end_array_def end_scope_def calc_num_break_scope_def seqE_def retE_def)
  with read_rpc_at [of "end_array (ctx_id e, ctx_index e)", OF this] growsD [OF closing_grows(2) this] c
  show "\<exists>s'. read_rpc (end_array (ctx_id e, ctx_index e)) (p\<lparr>rd := ?s\<rparr>) = (Inr (), p\<lparr>rd := at rest [] s'\<rparr>)
      \<and> scope_cap (rd p) \<le> scope_cap s'" by auto
qed

lemma proxy_parameters_unknown:
  assumes "prox p = proxy_new" "svc m = None"
  shows "rpc_reads (request_parameters svc m msgid) [] ss None ss p (p\<lparr>prox := proxy_new\<lparr>ptype := In_progress\<rparr>\<rparr>)"
    and "rpc_reads (notify_parameters svc m) [] ss None ss p (p\<lparr>prox := proxy_new\<lparr>ptype := In_progress\<rparr>\<rparr>)"
  unfolding rpc_reads_def request_parameters_def notify_parameters_def proxy_parameters_def verify_clear_state_def
  by (cases p, use assms in \<open>simp add: seqE_def upd_proxy_def updE_def retE_def find_handler_def proxy_new_def, blast\<close>)+

lemma rpc_reads_reply_err:
  assumes "value_ready (wscopes (wr p))" "- (2 ^ 31) \<le> msgid" "msgid < 2 ^ 31" "length t < 2 ^ 32 - 1"
  shows "rpc_reads (reply_err msgid t) [] ss () ss p
     (p\<lparr>wr := wrote (enc_val (reply_msg msgid (VStr t) VNil)) (after_value (wscopes (wr p))) (wr p)\<rparr>)"
proof -
  have "wf_val (reply_msg msgid (VStr t) VNil)" using assms by (simp add: reply_msg_def msg_reply_def)
  from writes_ok(1) [OF this assms(1)] show ?thesis
    unfolding sends(5) rpc_reads_def write_rpc_def by (cases p) auto
qed

lemma handle_request_unknown:
  assumes "prox p = proxy_new" "svc m = None" "value_ready (wscopes (wr p))"
    and "length m < 2 ^ 32 - 1" "- (2 ^ 31) \<le> msgid" "msgid < 2 ^ 31" "skippable v" "wf_val v"
    and "depth v < scope_cap (rd p)" and e: "kind e = Type_array"
  shows "rpc_reads (handle_body svc slots dump c (ctx_id e, ctx_index e)) (concat (map enc_val [VInt msg_request, VInt msgid, VStr m, v]))
     [left 4 e] Unknown_method_name [] p
     (p\<lparr>prox := proxy_new\<lparr>ptype := In_progress\<rparr>,
       wr := wrote (enc_val (reply_msg msgid (VStr errstr_method_not_found) VNil)) (after_value (wscopes (wr p))) (wr p)\<rparr>)"
  (is "rpc_reads _ _ _ _ _ _ ?p'")
proof -
  let ?p1 = "p\<lparr>prox := proxy_new\<lparr>ptype := In_progress\<rparr>\<rparr>"
  have n: "left 4 e = left (Suc 3) e" "left 3 e = left (Suc 2) e" "left 2 e = left (Suc 1) e" by simp_all
  have 4: "rpc_reads (read_rpc (read_signed (cast_int c) 32)) (enc_int msg_request) [left 4 e] msg_request [left 3 e] p p"
    unfolding n(1) by (rule rpc_reads_int) (use e in \<open>auto simp: msg_request_def\<close>)
  have 3: "rpc_reads (read_rpc (read_signed (cast_int c) 32)) (enc_int msgid) [left 3 e] msgid [left 2 e] p p"
    unfolding n(2) by (rule rpc_reads_int) (use e assms in auto)
  have 2: "rpc_reads (read_rpc read_str) (enc_str m) [left 2 e] m [left 1 e] p p"
    unfolding n(3) by (rule rpc_reads_str) (use e assms in auto)
  have err: "rpc_reads (reply_err msgid errstr_method_not_found) [] [left 1 e] () [left 1 e] ?p1 ?p'"
    using rpc_reads_reply_err [of ?p1 msgid errstr_method_not_found] assms by (simp add: errstr_method_not_found_def)
  have "rpc_reads (seqE (reply_err msgid errstr_method_not_found) (\<lambda>_.
      seqE (read_rpc (end_array (ctx_id e, ctx_index e))) (\<lambda>_. retE Unknown_method_name))) (enc_val v) [left 1 e] Unknown_method_name [] ?p1 ?p'"
    using rpc_reads_pre [OF err rpc_reads_seq [OF rpc_reads_end_skip [OF e assms(7,8), of ?p'] rpc_reads_ret]] assms(9) by simp
  note 1 = rpc_reads_pre [OF proxy_parameters_unknown(1) [of p svc m msgid, OF assms(1,2)],
      where f = "\<lambda>params. case params of None \<Rightarrow> seqE (reply_err msgid errstr_method_not_found) (\<lambda>_.
         seqE (read_rpc (end_array (ctx_id e, ctx_index e))) (\<lambda>_. retE Unknown_method_name))
       | Some ps \<Rightarrow> take_parameters (ctx_id e, ctx_index e) ps (reply_err msgid errstr_invalid_parameter) (read_parameters c msgid ps)",
      unfolded option.case, OF this]
  have "rpc_reads (handle_request svc c (ctx_id e, ctx_index e)) (enc_int msgid @ enc_str m @ enc_val v) [left 3 e] Unknown_method_name [] p ?p'"
    unfolding handle_request_def
    by (rule rpc_reads_pre [OF rpc_reads_verify], simp, rule rpc_reads_seq [OF 3], rule rpc_reads_seq [OF 2], rule 1)
  from rpc_reads_seq [OF 4, where f = "\<lambda>ty. if ty = msg_reply
     then seqE (handle_reply slots dump c) (\<lambda>_. seqE (read_rpc (end_array (ctx_id e, ctx_index e))) (\<lambda>_. retE Okay))
     else if ty = msg_notify then handle_notify svc c (ctx_id e, ctx_index e)
     else if ty = msg_request then handle_request svc c (ctx_id e, ctx_index e)
     else throwE (Trivial Invalid_format)"] this
  show ?thesis
    unfolding handle_body_def by (simp add: msg_request_def msg_reply_def msg_notify_def)
qed

section \<open>Properties\<close>

definition sent_bytes :: "proto \<Rightarrow> proto \<Rightarrow> byte list" where
  "sent_bytes p p' = drop (length (out (wr p))) (out (wr p'))"

lemma send_delivered:
  assumes "wf_val (VArr vs)" "wscopes (wr p) = []" "send = try_write (write_val (VArr vs))" "rd q = at (enc_val (VArr vs) @ rest) [] r"
    and "\<And>e. kind e = Type_array \<Longrightarrow>
      rpc_reads (handle_body svc slots dump c (ctx_id e, ctx_index e)) (concat (map enc_val vs)) [left (length vs) e] st [] q q'"
  shows "\<exists>p' s'. send p = (True, p') \<and> sent p' = sent p \<and> sent_bytes p p' = enc_val (VArr vs)
      \<and> handle_single_message svc slots dump c q = (Some st, q'\<lparr>rd := at rest [] s'\<rparr>)"
proof -
  have "length vs < 2 ^ 32 - 1" using assms(1) by simp
  then obtain s' where "handle_single_message svc slots dump c q = (Some st, q'\<lparr>rd := at rest [] s'\<rparr>)"
    using handle_message [OF _ assms(5,4)] by blast
  moreover have "value_ready (wscopes (wr p))" using assms(2) by (simp add: value_ready_def)
  from try_write_val [OF assms(1) this] have "send p = (True, p\<lparr>wr := wrote (enc_val (VArr vs)) (after_value (wscopes (wr p))) (wr p)\<rparr>)"
    by (simp add: assms(3))
  ultimately show ?thesis by (simp add: sent_bytes_def del: enc_val.simps) blast
qed

text \<open>C15: A request or notification that a client sends (nothing is flushed by it) is received by the
  peer: if the method is registered with parameter types of the shape of the arguments, the peer's
  handler reads exactly this message, answers \<open>okay\<close> and leaves in the proxy the request with its
  message id (a notification has none), its method and the very arguments sent.\<close>

theorem rpc_request_delivered:
  fixes p q :: proto
  assumes "wscopes (wr p) = []" "prox q = proxy_new" "svc m = Some types" "map shape types = map shape params"
    and "length m < 2 ^ 32 - 1" "- (2 ^ 31) \<le> msgid" "msgid < 2 ^ 31" "list_all wf_val params" "length params < 2 ^ 32 - 1"
  shows "(\<exists>p' q'. send_request m msgid params p = (True, p') \<and> sent p' = sent p
      \<and> handle_single_message svc slots dump c (q\<lparr>rd := reader_new (sent_bytes p p' @ rest)\<rparr>) = (Some Okay, q')
      \<and> prox q' = \<lparr>ptype = Proxy_request, rpc_msgid = msgid, handler = Some (m, params)\<rparr>
      \<and> input (rd q') = rest \<and> scopes (rd q') = [] \<and> wr q' = wr q)
    \<and> (\<exists>p' q'. send_notify m params p = (True, p') \<and> sent p' = sent p
      \<and> handle_single_message svc slots dump c (q\<lparr>rd := reader_new (sent_bytes p p' @ rest)\<rparr>) = (Some Okay, q')
      \<and> prox q' = \<lparr>ptype = Proxy_notify, rpc_msgid = 0, handler = Some (m, params)\<rparr>
      \<and> input (rd q') = rest \<and> scopes (rd q') = [] \<and> wr q' = wr q)"
proof (rule conjI)
  let ?r = "[VInt msg_request, VInt msgid, VStr m, VArr params]" and ?n = "[VInt msg_notify, VStr m, VArr params]"
  let ?q = "\<lambda>vs. q\<lparr>rd := reader_new (enc_val (VArr vs) @ rest)\<rparr>"
  have len: "length ?r = 4" "length ?n = 3" by simp_all
  have wf: "wf_val (VArr ?r)" "wf_val (VArr ?n)" using assms by (simp_all add: msg_request_def msg_notify_def)
  have rd_q: "rd (?q vs) = at (enc_val (VArr vs) @ rest) [] (reader_new [])" for vs by (simp add: reader_new_at [symmetric])
  have q: "prox (?q vs) = proxy_new" for vs using assms(2) by simp
  have "rpc_reads (handle_body svc slots dump c (ctx_id e, ctx_index e)) (concat (map enc_val ?r)) [left (length ?r) e] Okay []
      (?q ?r) ((?q ?r)\<lparr>prox := \<lparr>ptype = Proxy_request, rpc_msgid = msgid, handler = Some (m, params)\<rparr>\<rparr>)" if "kind e = Type_array" for e
    unfolding len using handle_request_ok [where svc = svc and m = m, OF q [of ?r] assms(3-9) that] by simp
  from send_delivered [OF wf(1) assms(1) _ rd_q this] obtain p' s' where "send_request m msgid params p = (True, p') \<and> sent p' = sent p"
      "sent_bytes p p' = enc_val (VArr ?r)"
      "handle_single_message svc slots dump c (?q ?r) =
        (Some Okay, (?q ?r)\<lparr>prox := \<lparr>ptype = Proxy_request, rpc_msgid = msgid, handler = Some (m, params)\<rparr>\<rparr>\<lparr>rd := at rest [] s'\<rparr>)"
    unfolding sends request_msg_def by blast
  then show "\<exists>p' q'. send_request m msgid params p = (True, p') \<and> sent p' = sent p
      \<and> handle_single_message svc slots dump c (q\<lparr>rd := reader_new (sent_bytes p p' @ rest)\<rparr>) = (Some Okay, q')
      \<and> prox q' = \<lparr>ptype = Proxy_request, rpc_msgid = msgid, handler = Some (m, params)\<rparr>
      \<and> input (rd q') = rest \<and> scopes (rd q') = [] \<and> wr q' = wr q"
    by (simp del: enc_val.simps)
  have "rpc_reads (handle_body svc slots dump c (ctx_id e, ctx_index e)) (concat (map enc_val ?n)) [left (length ?n) e] Okay []
      (?q ?n) ((?q ?n)\<lparr>prox := \<lparr>ptype = Proxy_notify, rpc_msgid = 0, handler = Some (m, params)\<rparr>\<rparr>)" if "kind e = Type_array" for e
    unfolding len using handle_notify_ok [where svc = svc and m = m, OF q [of ?n] assms(3-5,8-9) that] by simp
  from send_delivered [OF wf(2) assms(1) _ rd_q this] obtain p' s' where "send_notify m params p = (True, p') \<and> sent p' = sent p"
      "sent_bytes p p' = enc_val (VArr ?n)"
      "handle_single_message svc slots dump c (?q ?n) =
        (Some Okay, (?q ?n)\<lparr>prox := \<lparr>ptype = Proxy_notify, rpc_msgid = 0, handler = Some (m, params)\<rparr>\<rparr>\<lparr>rd := at rest [] s'\<rparr>)"
    unfolding sends notify_msg_def by blast
  then show "\<exists>p' q'. send_notify m params p = (True, p') \<and> sent p' = sent p
      \<and> handle_single_message svc slots dump c (q\<lparr>rd := reader_new (sent_bytes p p' @ rest)\<rparr>) = (Some Okay, q')
      \<and> prox q' = \<lparr>ptype = Proxy_notify, rpc_msgid = 0, handler = Some (m, params)\<rparr>
      \<and> input (rd q') = rest \<and> scopes (rd q') = [] \<and> wr q' = wr q"
    by (simp del: enc_val.simps)
qed

text \<open>A protocol object as it is constructed: the reader has room for eight scopes.\<close>

definition idle :: proto where
  "idle = \<lparr>rd = reserve_depth 8 (reader_new []), wr = writer_new, sent = 0, prox = proxy_new, results = Map.empty, errors = Map.empty\<rparr>"

theorem rpc_request_delivered_witness:
  "\<exists>p' q'. send_request [109] 7 [VInt 3, VStr [104]] idle = (True, p') \<and> sent p' = sent idle
      \<and> handle_single_message [[109] \<mapsto> [VInt 0, VStr []]] Map.empty (retE []) zero_casts (idle\<lparr>rd := reader_new (sent_bytes idle p' @ [9])\<rparr>) = (Some Okay, q')
      \<and> prox q' = \<lparr>ptype = Proxy_request, rpc_msgid = 7, handler = Some ([109], [VInt 3, VStr [104]])\<rparr>
      \<and> input (rd q') = [9] \<and> scopes (rd q') = [] \<and> wr q' = wr idle"
  using rpc_request_delivered [of idle idle "[[109] \<mapsto> [VInt 0, VStr []]]" "[109]" "[VInt 0, VStr []]" "[VInt 3, VStr [104]]" 7
      Map.empty "retE []" zero_casts "[9]"]
  by (simp add: idle_def writer_new_def)

text \<open>A reply comes home. A result sent for a pending request with a buffer of its type is stored
  in that request's buffer and an error is dumped into its error buffer, the proxy says which, and
  the sender flushes all it wrote; a flat result for a request nobody waits for is skipped and
  changes no buffer. \<open>dump\<close> is only assumed to consume the error value and answer a text.\<close>

theorem rpc_reply_delivered:
  fixes p q :: proto
  assumes "wscopes (wr p) = []" "prox q = proxy_new" "- (2 ^ 31) \<le> msgid" "msgid < 2 ^ 31"
    and "slots msgid = Some (Some ty)" "shape ty = shape v" "wf_val v"
    and "wf_val err" "err \<noteq> VNil" "\<And>ss. rready ss \<Longrightarrow> reads dump (enc_val err) ss t (rafter ss)"
    and "gone msgid = None" "skippable v" "depth v \<le> 1"
  shows "(\<exists>p' q'. send_reply_result msgid v p = (True, p') \<and> sent p' = length (out (wr p'))
      \<and> handle_single_message svc slots dump c (q\<lparr>rd := reader_new (sent_bytes p p' @ rest)\<rparr>) = (Some Okay, q')
      \<and> prox q' = \<lparr>ptype = Reply_okay, rpc_msgid = msgid, handler = None\<rparr> \<and> results q' = (results q)(msgid \<mapsto> v)
      \<and> errors q' = errors q \<and> input (rd q') = rest \<and> scopes (rd q') = []
      \<and> (\<exists>q'. handle_single_message svc gone dump c (q\<lparr>rd := reader_new (sent_bytes p p' @ rest)\<rparr>) = (Some Okay, q')
        \<and> prox q' = \<lparr>ptype = Reply_expired, rpc_msgid = msgid, handler = None\<rparr>
        \<and> results q' = results q \<and> errors q' = errors q \<and> input (rd q') = rest \<and> scopes (rd q') = []))
    \<and> (\<exists>p' q'. send_reply_error msgid err p = (True, p') \<and> sent p' = length (out (wr p'))
      \<and> handle_single_message svc slots dump c (q\<lparr>rd := reader_new (sent_bytes p p' @ rest)\<rparr>) = (Some Okay, q')
      \<and> prox q' = \<lparr>ptype = Reply_error, rpc_msgid = msgid, handler = None\<rparr> \<and> results q' = results q
      \<and> errors q' = (errors q)(msgid \<mapsto> t) \<and> input (rd q') = rest \<and> scopes (rd q') = [])"
proof -
  let ?r = "[VInt msg_reply, VInt msgid, VNil, v]" and ?e = "[VInt msg_reply, VInt msgid, err, VNil]"
  let ?q = "\<lambda>vs. q\<lparr>rd := reader_new (enc_val (VArr vs) @ rest)\<rparr>"
  have len: "length ?r = 4" "length ?e = 4" by simp_all
  have wf: "wf_val (VArr ?r)" "wf_val (VArr ?e)" using assms by (simp_all add: msg_reply_def)
  have rd_q: "rd (?q vs) = at (enc_val (VArr vs) @ rest) [] (reader_new [])" for vs by (simp add: reader_new_at [symmetric])
  have q: "prox (?q vs) = proxy_new" for vs using assms(2) by simp
  have 1: "rpc_reads (handle_body svc slots dump c (ctx_id e, ctx_index e)) (concat (map enc_val ?r)) [left (length ?r) e] Okay []
      (?q ?r) (replied Reply_okay msgid ((?q ?r)\<lparr>results := (results (?q ?r))(msgid \<mapsto> v)\<rparr>))" if e: "kind e = Type_array" for e
    unfolding len using take_reply_result [OF assms(3,4) e reply_result_ok [where slots = slots and msgid = msgid, OF q [of ?r] assms(5-7) left_few(1) [OF e], unfolded left_few(2) [OF e]]] by simp
  have 2: "rpc_reads (handle_body svc gone dump c (ctx_id e, ctx_index e)) (concat (map enc_val ?r)) [left (length ?r) e] Okay []
      (?q ?r) (replied Reply_expired msgid (?q ?r))" if e: "kind e = Type_array" for e
    unfolding len using take_reply_result [OF assms(3,4) e reply_result_expired [where slots = gone and msgid = msgid, OF q [of ?r] assms(11,12,7) left_few(1) [OF e] disjI1 [OF assms(13)], unfolded left_few(2) [OF e]]] by simp
  have 3: "rpc_reads (handle_body svc slots dump c (ctx_id e, ctx_index e)) (concat (map enc_val ?e)) [left (length ?e) e] Okay []
      (?q ?e) (replied Reply_error msgid ((?q ?e)\<lparr>rd := reader_new [], errors := (errors (?q ?e))(msgid \<mapsto> t)\<rparr>))" if e: "kind e = Type_array" for e
    unfolding len using take_reply_error [OF assms(3,4) e assms(8,9) reply_error_ok [where slots = slots and msgid = msgid, OF q [of ?e] assms(5) assms(10) [OF left_few(3) [OF e]], unfolded left_few(4) [OF e]]] by simp
  obtain p1 s1 where p1: "try_write (write_val (VArr ?r)) p = (True, p1)" "sent_bytes p p1 = enc_val (VArr ?r)"
    "handle_single_message svc slots dump c (?q ?r) = (Some Okay, (replied Reply_okay msgid ((?q ?r)\<lparr>results := (results (?q ?r))(msgid \<mapsto> v)\<rparr>))\<lparr>rd := at rest [] s1\<rparr>)"
    using send_delivered [OF wf(1) assms(1) refl rd_q 1] by blast
  obtain s2 where p2: "handle_single_message svc gone dump c (?q ?r) = (Some Okay, (replied Reply_expired msgid (?q ?r))\<lparr>rd := at rest [] s2\<rparr>)"
    using send_delivered [OF wf(1) assms(1) refl rd_q 2] by blast
  obtain p3 s3 where p3: "try_write (write_val (VArr ?e)) p = (True, p3)" "sent_bytes p p3 = enc_val (VArr ?e)"
    "handle_single_message svc slots dump c (?q ?e) = (Some Okay, (replied Reply_error msgid ((?q ?e)\<lparr>rd := reader_new [], errors := (errors (?q ?e))(msgid \<mapsto> t)\<rparr>))\<lparr>rd := at rest [] s3\<rparr>)"
    using send_delivered [OF wf(2) assms(1) refl rd_q 3] by blast
  have fl: "sent_bytes p (proto_flush p') = sent_bytes p p'" for p' by (simp add: sent_bytes_def proto_flush_def)
  show ?thesis
    unfolding sends reply_msg_def
    using p1 p2 p3 by (simp add: then_flush_def fl [unfolded proto_flush_def] proto_flush_def del: enc_val.simps write_val.simps)
qed

theorem rpc_reply_delivered_witness:
  "\<exists>p' q'. send_reply_error 7 (VStr [101]) idle = (True, p') \<and> sent p' = length (out (wr p'))
      \<and> handle_single_message Map.empty [7 \<mapsto> Some (VInt 0)] read_str zero_casts (idle\<lparr>rd := reader_new (sent_bytes idle p' @ [9])\<rparr>) = (Some Okay, q')
      \<and> prox q' = \<lparr>ptype = Reply_error, rpc_msgid = 7, handler = None\<rparr> \<and> results q' = results idle
      \<and> errors q' = (errors idle)(7 \<mapsto> [101]) \<and> input (rd q') = [9] \<and> scopes (rd q') = []"
  using rpc_reply_delivered [of idle idle 7 "[7 \<mapsto> Some (VInt 0)]" "VInt 0" "VInt 5" "VStr [101]" read_str "[101]" Map.empty Map.empty zero_casts "[9]"]
    reads_string [OF _ step_value, of "[101]"]
  by (simp add: idle_def writer_new_def)

text \<open>A request for a method nobody registered is read to its end, parameters and all, and reported
  as an unknown method; the error reply with the text of \<open>errstr_method_not_found\<close> is written after
  what the writer holds. It stays in the buffer: none of it is flushed to the peer. The reader needs room for
  the scopes of the parameters; the constructor of the protocol reserves eight.\<close>

theorem rpc_unknown_method:
  fixes p q :: proto
  assumes "wscopes (wr p) = []" "prox q = proxy_new" "svc m = None" "wscopes (wr q) = []"
    and "length m < 2 ^ 32 - 1" "- (2 ^ 31) \<le> msgid" "msgid < 2 ^ 31" "wf_val (VArr params)" "skippable (VArr params)"
    and "depth (VArr params) < room"
  shows "\<exists>p' q'. send_request m msgid params p = (True, p')
      \<and> handle_single_message svc slots dump c (q\<lparr>rd := reserve_depth room (reader_new (sent_bytes p p' @ rest))\<rparr>) = (Some Unknown_method_name, q')
      \<and> input (rd q') = rest \<and> scopes (rd q') = []
      \<and> out (wr q') = out (wr q) @ enc_val (reply_msg msgid (VStr errstr_method_not_found) VNil) \<and> sent q' = sent q"
proof -
  let ?r = "[VInt msg_request, VInt msgid, VStr m, VArr params]"
  let ?q = "\<lambda>vs. q\<lparr>rd := reserve_depth room (reader_new (enc_val (VArr vs) @ rest))\<rparr>"
  have len: "length ?r = 4" by simp
  have wf: "wf_val (VArr ?r)" using assms by (simp add: msg_request_def)
  have rd_q: "rd (?q vs) = at (enc_val (VArr vs) @ rest) [] (reserve_depth room (reader_new []))" for vs
    by (simp add: reserve_depth_def reader_new_def at_def)
  have q: "prox (?q vs) = proxy_new" "value_ready (wscopes (wr (?q vs)))" for vs using assms(2,4) by (simp_all add: value_ready_def)
  have "rpc_reads (handle_body svc slots dump c (ctx_id e, ctx_index e)) (concat (map enc_val ?r)) [left (length ?r) e] Unknown_method_name []
      (?q ?r) ((?q ?r)\<lparr>prox := proxy_new\<lparr>ptype := In_progress\<rparr>,
       wr := wrote (enc_val (reply_msg msgid (VStr errstr_method_not_found) VNil)) (after_value (wscopes (wr q))) (wr q)\<rparr>)"
    if "kind e = Type_array" for e
    unfolding len using handle_request_unknown [where svc = svc and m = m, OF q(1) [of ?r] assms(3) q(2) [of ?r] assms(5,6,7,9,8) _ that] assms(10)
    by (simp add: reserve_depth_def reader_new_def)
  from send_delivered [OF wf assms(1) refl rd_q this] show ?thesis
    unfolding sends request_msg_def by (auto simp del: enc_val.simps)
qed

theorem rpc_unknown_method_witness:
  "\<exists>p' q'. send_request [109] 7 [VInt 3] idle = (True, p')
      \<and> handle_single_message Map.empty Map.empty (retE []) zero_casts (idle\<lparr>rd := reserve_depth 8 (reader_new (sent_bytes idle p' @ [9]))\<rparr>) = (Some Unknown_method_name, q')
      \<and> input (rd q') = [9] \<and> scopes (rd q') = []
      \<and> out (wr q') = out (wr idle) @ enc_val (reply_msg 7 (VStr errstr_method_not_found) VNil) \<and> sent q' = sent idle"
  using rpc_unknown_method [of idle idle Map.empty "[109]" 7 "[VInt 3]" 8 Map.empty "retE []" zero_casts "[9]"]
  by (simp add: idle_def writer_new_def)

end
