(* ===== verification/Flat_Map.thy ===== *)
theory Flat_Map
  imports Cpph_Prelude "HOL-Library.Multiset"
begin

text \<open>
  The sorted vectors of \<open>container/flat_map.hxx\<close>: \<open>flat_map\<close>, a vector of pairs ordered by key, and
  \<open>flat_set\<close>. The comparator is a parameter \<open>lt\<close>; the locale \<open>comparator\<close> states what the standard
  asks of it, and \<open>std_less\<close> is the default one. Iterators are indices, \<open>end()\<close> the length.
  \<open>std::lower_bound\<close> is the bisection of the standard library, \<open>std::sort\<close> a sort by \<open>lt\<close>.

  The theorems give each operation of \<open>flat_map\<close> in terms of the finite map that the vector holds
  (\<open>fm_map\<close>), through the contract \<open>table\<close>. Two members of \<open>flat_set\<close> do not do what their name says,
  and their theorems state what they do.
\<close>

section \<open>Comparators\<close>

definition std_less :: "'k :: linorder \<Rightarrow> 'k \<Rightarrow> bool" where
  "std_less a b \<longleftrightarrow> a < b"

locale comparator =
  fixes lt :: "'k \<Rightarrow> 'k \<Rightarrow> bool"
  assumes irrefl: "\<not> lt a a"
    and trans: "lt a b \<Longrightarrow> lt b c \<Longrightarrow> lt a c"
    and total: "a \<noteq> b \<Longrightarrow> lt a b \<or> lt b a"
begin

lemma asym: "lt a b \<Longrightarrow> \<not> lt b a"
  using irrefl trans by blast

lemma not_lt_trans: "\<not> lt b a \<Longrightarrow> lt b c \<Longrightarrow> lt a c"
  using total trans by metis

lemma not_lt_not_lt: "\<not> lt b a \<Longrightarrow> \<not> lt c b \<Longrightarrow> \<not> lt c a"
  using not_lt_trans by blast

lemma incomparable_eq: "\<not> lt a b \<Longrightarrow> \<not> lt b a \<Longrightarrow> a = b"
  using total by blast

end

interpretation less: comparator "std_less :: 'k :: linorder \<Rightarrow> 'k \<Rightarrow> bool"
  by unfold_locales (auto simp: std_less_def)

section \<open>The standard algorithms used\<close>

text \<open>The bisection: \<open>before i\<close> says that element \<open>i\<close> lies before the key.\<close>

function bisect :: "(nat \<Rightarrow> bool) \<Rightarrow> nat \<Rightarrow> nat \<Rightarrow> nat" where
  "bisect before first len =
     (if len = 0 then first
      else let half = len div 2; mid = first + half in
           if before mid then bisect before (mid + 1) (len - half - 1) else bisect before first half)"
  by pat_completeness auto
termination
  by (relation "measure (\<lambda>(_, _, len). len)") auto

declare bisect.simps [simp del]

fun insert_by :: "('k \<Rightarrow> 'k \<Rightarrow> bool) \<Rightarrow> 'k \<times> 'v \<Rightarrow> ('k \<times> 'v) list \<Rightarrow> ('k \<times> 'v) list" where
  "insert_by lt a [] = [a]"
| "insert_by lt a (b # bs) = (if lt (fst b) (fst a) then b # insert_by lt a bs else a # b # bs)"

fun sort_by :: "('k \<Rightarrow> 'k \<Rightarrow> bool) \<Rightarrow> ('k \<times> 'v) list \<Rightarrow> ('k \<times> 'v) list" where
  "sort_by lt [] = []"
| "sort_by lt (a # as) = insert_by lt a (sort_by lt as)"

fun adjacent_find :: "('a \<Rightarrow> 'a \<Rightarrow> bool) \<Rightarrow> 'a list \<Rightarrow> bool" where
  "adjacent_find p (a # b # as) = (p a b \<or> adjacent_find p (b # as))"
| "adjacent_find p _ = False"

definition insert_at :: "nat \<Rightarrow> 'a \<Rightarrow> 'a list \<Rightarrow> 'a list" where
  "insert_at i x xs = take i xs @ x # drop i xs"

definition erase_at :: "nat \<Rightarrow> 'a list \<Rightarrow> 'a list" where
  "erase_at i xs = take i xs @ drop (Suc i) xs"

section \<open>\<open>flat_map\<close>\<close>

datatype fm_error = Key_not_exist | Duplicated_key | Deref_end

type_synonym ('k, 'v) fm = "('k \<times> 'v) list"

definition fm_lower_bound :: "('k \<Rightarrow> 'k \<Rightarrow> bool) \<Rightarrow> 'k \<Rightarrow> ('k, 'v) fm \<Rightarrow> nat" where
  "fm_lower_bound lt key m = bisect (\<lambda>i. lt (fst (m ! i)) key) 0 (length m)"

definition fm_eq_fn :: "('k \<Rightarrow> 'k \<Rightarrow> bool) \<Rightarrow> 'k \<times> 'v \<Rightarrow> 'k \<times> 'v \<Rightarrow> bool" where
  "fm_eq_fn lt a b \<longleftrightarrow> \<not> lt (fst a) (fst b) \<and> \<not> lt (fst b) (fst a)"

definition fm_find :: "('k \<Rightarrow> 'k \<Rightarrow> bool) \<Rightarrow> 'k \<Rightarrow> ('k, 'v) fm \<Rightarrow> nat" where
  "fm_find lt key m =
     (let it = fm_lower_bound lt key m
      in if it \<noteq> length m \<and> lt key (fst (m ! it)) then length m else it)"

definition fm_at :: "('k \<Rightarrow> 'k \<Rightarrow> bool) \<Rightarrow> 'k \<Rightarrow> ('k, 'v) fm \<Rightarrow> fm_error + 'v" where
  "fm_at lt key m =
     (let it = fm_find lt key m in if it = length m then Inl Key_not_exist else Inr (snd (m ! it)))"

definition fm_try_emplace :: "('k \<Rightarrow> 'k \<Rightarrow> bool) \<Rightarrow> 'k \<Rightarrow> 'v \<Rightarrow> ('k, 'v) fm \<Rightarrow> (nat \<times> bool) \<times> ('k, 'v) fm" where
  "fm_try_emplace lt key v m =
     (let it = fm_lower_bound lt key m
      in if it \<noteq> length m \<and> \<not> lt key (fst (m ! it)) then ((it, False), m)
         else ((it, True), insert_at it (key, v) m))"

definition fm_assign :: "('k \<Rightarrow> 'k \<Rightarrow> bool) \<Rightarrow> ('k \<times> 'v) list \<Rightarrow> fm_error + ('k, 'v) fm" where
  "fm_assign lt xs =
     (let m = sort_by lt xs in if adjacent_find (fm_eq_fn lt) m then Inl Duplicated_key else Inr m)"

definition fm_erase_iter :: "nat \<Rightarrow> ('k, 'v) fm \<Rightarrow> fm_error + ('k, 'v) fm" where
  "fm_erase_iter it m = (if it < length m then Inr (erase_at it m) else Inl Deref_end)"

definition fm_erase :: "('k \<Rightarrow> 'k \<Rightarrow> bool) \<Rightarrow> 'k \<Rightarrow> ('k, 'v) fm \<Rightarrow> nat \<times> ('k, 'v) fm" where
  "fm_erase lt key m =
     (let iter = fm_find lt key m in if iter = length m then (0, m) else (1, erase_at iter m))"

text \<open>\<open>operator[]\<close> with the value-initialised element \<open>dflt\<close>; the result is the reference's place and value.\<close>

definition fm_index :: "('k \<Rightarrow> 'k \<Rightarrow> bool) \<Rightarrow> 'v \<Rightarrow> 'k \<Rightarrow> ('k, 'v) fm \<Rightarrow> 'v \<times> ('k, 'v) fm" where
  "fm_index lt dflt key m = (case fm_try_emplace lt key dflt m of ((it, _), m') \<Rightarrow> (snd (m' ! it), m'))"

definition fm_front :: "('k, 'v) fm \<Rightarrow> fm_error + 'k \<times> 'v" where
  "fm_front m = (case m of [] \<Rightarrow> Inl Deref_end | a # _ \<Rightarrow> Inr a)"

definition fm_back :: "('k, 'v) fm \<Rightarrow> fm_error + 'k \<times> 'v" where
  "fm_back m = (case m of [] \<Rightarrow> Inl Deref_end | a # _ \<Rightarrow> Inr a)"

definition fm_contains :: "('k \<Rightarrow> 'k \<Rightarrow> bool) \<Rightarrow> 'k \<Rightarrow> ('k, 'v) fm \<Rightarrow> bool" where
  "fm_contains lt key m \<longleftrightarrow> fm_find lt key m \<noteq> length m"

section \<open>\<open>flat_set\<close>\<close>

definition fs_lower_bound :: "('k \<Rightarrow> 'k \<Rightarrow> bool) \<Rightarrow> 'k \<Rightarrow> 'k list \<Rightarrow> nat" where
  "fs_lower_bound lt key s = bisect (\<lambda>i. lt (s ! i) key) 0 (length s)"

definition fs_insert :: "('k \<Rightarrow> 'k \<Rightarrow> bool) \<Rightarrow> 'k \<Rightarrow> 'k list \<Rightarrow> nat \<times> 'k list" where
  "fs_insert lt v s =
     (let iter = fs_lower_bound lt v s
      in if iter = length s \<or> lt (s ! iter) v \<or> lt v (s ! iter) then (iter, insert_at iter v s)
         else (iter, s[iter := v]))"

definition fs_find :: "('k \<Rightarrow> 'k \<Rightarrow> bool) \<Rightarrow> 'k \<Rightarrow> 'k list \<Rightarrow> nat" where
  "fs_find lt v s =
     (let iter = fs_lower_bound lt v s
      in if iter = length s \<or> lt (s ! iter) v \<or> lt v (s ! iter) then iter else length s)"

definition fs_erase :: "('k \<Rightarrow> 'k \<Rightarrow> bool) \<Rightarrow> 'k \<Rightarrow> 'k list \<Rightarrow> nat \<times> 'k list" where
  "fs_erase lt v s =
     (let iter = fs_find lt v s in if iter \<noteq> length s then (1, erase_at iter s) else (0, s))"

definition fs_begin :: "'k list \<Rightarrow> nat" where "fs_begin s = 0"
definition fs_end :: "'k list \<Rightarrow> nat" where "fs_end s = 0"

text \<open>What a loop from \<open>begin()\<close> to \<open>end()\<close> visits.\<close>

definition fs_iterate :: "'k list \<Rightarrow> 'k list" where
  "fs_iterate s = map (\<lambda>i. s ! i) [fs_begin s..<fs_end s]"

section \<open>The bisection finds the first place\<close>

lemma bisect_first:
  assumes "first \<le> n" "\<And>i. i < n \<Longrightarrow> before i" "\<And>i. n \<le> i \<Longrightarrow> i < first + len \<Longrightarrow> \<not> before i" "n \<le> first + len"
  shows "bisect before first len = n"
  using assms
proof (induction before first len rule: bisect.induct)
  case (1 before first len)
  show ?case
  proof (cases "len = 0")
    case True
    then show ?thesis using 1(3,6) by (simp add: bisect.simps)
  next
    case False
    let ?mid = "first + len div 2"
    show ?thesis
    proof (cases "before ?mid")
      case True
      then have "?mid < n" using 1(5) [of ?mid] False by (meson div_less_dividend nat_add_left_cancel_less not_gr_zero not_le_imp_less one_less_numeral_iff semiring_norm(76))
      then have "bisect before (?mid + 1) (len - len div 2 - 1) = n"
        using 1(1) [OF False refl refl True] 1(3-6) False by simp
      then show ?thesis using False True by (subst bisect.simps) (simp add: Let_def)
    next
      case b: False
      then have "n \<le> ?mid" using 1(4) not_less by blast
      then have "bisect before first (len div 2) = n"
        using 1(2) [OF False refl refl b] 1(3-6) by simp
      then show ?thesis using False b by (subst bisect.simps) (simp add: Let_def)
    qed
  qed
qed

section \<open>The finite map of a sorted vector\<close>

definition fm_sorted :: "('k \<Rightarrow> 'k \<Rightarrow> bool) \<Rightarrow> ('k, 'v) fm \<Rightarrow> bool" where
  "fm_sorted lt m \<longleftrightarrow> sorted_wrt (\<lambda>a b. lt (fst a) (fst b)) m"

definition fs_sorted :: "('k \<Rightarrow> 'k \<Rightarrow> bool) \<Rightarrow> 'k list \<Rightarrow> bool" where
  "fs_sorted lt s \<longleftrightarrow> sorted_wrt lt s"

text \<open>\<open>find_ptr\<close>: the mapped value or null; \<open>fm_modify\<close>: assigning through \<open>find(key)->second\<close>.\<close>

definition fm_lookup :: "('k \<Rightarrow> 'k \<Rightarrow> bool) \<Rightarrow> 'k \<Rightarrow> ('k, 'v) fm \<Rightarrow> 'v option" where
  "fm_lookup lt key m = (let it = fm_find lt key m in if it = length m then None else Some (snd (m ! it)))"

definition fm_modify :: "('k \<Rightarrow> 'k \<Rightarrow> bool) \<Rightarrow> 'k \<Rightarrow> ('v \<Rightarrow> 'v) \<Rightarrow> ('k, 'v) fm \<Rightarrow> ('k, 'v) fm" where
  "fm_modify lt key f m =
     (let it = fm_find lt key m in if it = length m then m else m[it := (fst (m ! it), f (snd (m ! it)))])"

declare map_of_append [simp del]

lemma takeWhile_partition:
  assumes "sorted_wrt (\<lambda>a b. P b \<longrightarrow> P a) xs"
  shows "i < length (takeWhile P xs) \<Longrightarrow> P (xs ! i)"
    and "length (takeWhile P xs) \<le> i \<Longrightarrow> i < length xs \<Longrightarrow> \<not> P (xs ! i)"
proof -
  show "P (xs ! i)" if "i < length (takeWhile P xs)"
    using that by (metis nth_mem set_takeWhileD takeWhile_nth)
  show "\<not> P (xs ! i)" if "length (takeWhile P xs) \<le> i" "i < length xs"
    using assms that
  proof (induction xs arbitrary: i)
    case (Cons x xs)
    then show ?case by (cases i) (auto split: if_splits)
  qed simp
qed

context comparator
begin

lemma lower_bound_split:
  assumes "sorted_wrt (\<lambda>a b. lt (f a) (f b)) xs"
  shows "bisect (\<lambda>i. lt (f (xs ! i)) key) 0 (length xs) = length (takeWhile (\<lambda>a. lt (f a) key) xs)"
proof (rule bisect_first)
  have p: "sorted_wrt (\<lambda>a b. lt (f b) key \<longrightarrow> lt (f a) key) xs"
    by (rule sorted_wrt_mono_rel [OF _ assms]) (use trans in blast)
  show "lt (f (xs ! i)) key" if "i < length (takeWhile (\<lambda>a. lt (f a) key) xs)" for i
    by (rule takeWhile_partition(1) [OF p that])
  show "\<not> lt (f (xs ! i)) key" if "length (takeWhile (\<lambda>a. lt (f a) key) xs) \<le> i" "i < 0 + length xs" for i
    using takeWhile_partition(2) [OF p that(1)] that(2) by simp
qed (simp_all add: length_takeWhile_le)

text \<open>Where a key is, or where it belongs.\<close>

lemma split_at_key:
  assumes "sorted_wrt (\<lambda>a b. lt (f a) (f b)) xs"
  obtains (absent) pre suf where "xs = pre @ suf" "bisect (\<lambda>i. lt (f (xs ! i)) key) 0 (length xs) = length pre"
      "\<forall>a \<in> set pre. lt (f a) key" "\<forall>a \<in> set suf. lt key (f a)"
    | (present) pre x suf where "xs = pre @ x # suf" "f x = key" "bisect (\<lambda>i. lt (f (xs ! i)) key) 0 (length xs) = length pre"
      "\<forall>a \<in> set pre. lt (f a) key" "\<forall>a \<in> set suf. lt key (f a)"
proof -
  let ?pre = "takeWhile (\<lambda>a. lt (f a) key) xs" and ?suf = "dropWhile (\<lambda>a. lt (f a) key) xs"
  have xs: "xs = ?pre @ ?suf" by simp
  have pre: "\<forall>a \<in> set ?pre. lt (f a) key" by (auto dest: set_takeWhileD)
  note lb = lower_bound_split [OF assms, of key]
  show ?thesis
  proof (cases ?suf)
    case Nil
    show ?thesis by (rule absent [OF xs lb pre]) (simp add: Nil)
  next
    case (Cons x suf)
    have sorted: "sorted_wrt (\<lambda>a b. lt (f a) (f b)) (?pre @ x # suf)" using assms Cons xs by simp
    have x: "\<not> lt (f x) key" using Cons by (metis dropWhile_eq_Cons_conv)
    show ?thesis
    proof (cases "f x = key")
      case True
      show ?thesis
        by (rule present [OF _ True lb pre]) (use sorted Cons xs True in \<open>auto simp: sorted_wrt_append\<close>)
    next
      case False
      then have "lt key (f x)" using x total by blast
      then have "\<forall>a \<in> set ?suf. lt key (f a)" using sorted trans by (auto simp: Cons sorted_wrt_append)
      then show ?thesis by (rule absent [OF xs lb pre])
    qed
  qed
qed

lemma sorted_split:
  "sorted_wrt (\<lambda>a b. lt (f a) (f b)) (pre @ suf) \<Longrightarrow> \<forall>a \<in> set pre. lt (f a) (f x) \<Longrightarrow> \<forall>a \<in> set suf. lt (f x) (f a)
   \<Longrightarrow> sorted_wrt (\<lambda>a b. lt (f a) (f b)) (pre @ x # suf)"
  by (auto simp: sorted_wrt_append)

lemma fm_cases:
  assumes "fm_sorted lt m"
  obtains (absent) pre suf where "m = pre @ suf" "fm_lower_bound lt key m = length pre" "fm_find lt key m = length m"
      "map_of m key = None" "fm_sorted lt (pre @ (key, v) # suf)"
    | (present) pre w suf where "m = pre @ (key, w) # suf" "fm_lower_bound lt key m = length pre" "fm_find lt key m = length pre"
      "map_of m key = Some w" "fm_sorted lt (pre @ suf)" "map_of (pre @ suf) key = None" "\<And>x. fm_sorted lt (pre @ (key, x) # suf)"
proof -
  have s: "sorted_wrt (\<lambda>a b. lt (fst a) (fst b)) m" using assms by (simp add: fm_sorted_def)
  from s show ?thesis
  proof (cases rule: split_at_key [where key = key])
    case (absent pre suf)
    then have lb: "fm_lower_bound lt key m = length pre" by (simp add: fm_lower_bound_def)
    have find: "fm_find lt key m = length m"
      using absent lb by (cases suf) (auto simp: fm_find_def nth_append)
    have "key \<notin> fst ` set m" using absent irrefl by auto
    then have "map_of m key = None" by (simp add: map_of_eq_None_iff)
    moreover have "fm_sorted lt (pre @ (key, v) # suf)"
      using sorted_split [of fst pre suf "(key, v)"] s absent by (simp add: fm_sorted_def)
    ultimately show ?thesis using that(1) [OF absent(1) lb find] by blast
  next
    case (present pre x suf)
    then obtain w where x: "x = (key, w)" by (cases x) auto
    have lb: "fm_lower_bound lt key m = length pre" using present by (simp add: fm_lower_bound_def)
    have find: "fm_find lt key m = length pre"
      using present lb x irrefl by (auto simp: fm_find_def nth_append)
    have n: "key \<notin> fst ` set pre" "key \<notin> fst ` set suf" using present irrefl by auto
    have s': "sorted_wrt (\<lambda>a b. lt (fst a) (fst b)) (pre @ suf)" using s present by (auto simp: sorted_wrt_append)
    have "\<And>y. fm_sorted lt (pre @ (key, y) # suf)"
      using sorted_split [of fst pre suf] s' present by (simp add: fm_sorted_def sorted_wrt_append)
    moreover have "map_of pre key = None" "map_of suf key = None" using n by (simp_all add: map_of_eq_None_iff)
    then have "map_of m key = Some w" "map_of (pre @ suf) key = None"
      using present x by (simp_all add: map_of_append map_add_def)
    ultimately show ?thesis using that(2) [OF _ lb find] present x s' by (simp add: fm_sorted_def)
  qed
qed

lemma fm_lookup_map_of: "fm_sorted lt m \<Longrightarrow> fm_lookup lt key m = map_of m key"
  by (erule fm_cases [where key = key]) (auto simp: fm_lookup_def nth_append)

lemma map_of_insert: "map_of (pre @ suf) key = None \<Longrightarrow> map_of (pre @ (key, v) # suf) = (map_of (pre @ suf))(key \<mapsto> v)"
  by (auto simp: map_of_append map_add_upd_left dom_def)

lemma map_of_remove: "map_of (pre @ suf) key = None \<Longrightarrow> map_of (pre @ suf) = (map_of (pre @ (key, v) # suf))(key := None)"
  by (simp add: map_of_insert) (simp add: fun_upd_idem)

lemma fm_try_emplace_ok:
  assumes "fm_sorted lt m" "fm_try_emplace lt key v m = ((it, new), m')"
  shows "fm_sorted lt m'" "new \<longleftrightarrow> map_of m key = None" "it < length m'" "fst (m' ! it) = key"
    "map_of m' = (if new then (map_of m)(key \<mapsto> v) else map_of m)" "Some (snd (m' ! it)) = map_of m' key"
proof -
  from assms(1) have "fm_sorted lt m' \<and> (new \<longleftrightarrow> map_of m key = None) \<and> it < length m' \<and> fst (m' ! it) = key
    \<and> map_of m' = (if new then (map_of m)(key \<mapsto> v) else map_of m) \<and> Some (snd (m' ! it)) = map_of m' key"
  proof (cases rule: fm_cases [where key = key and v = v])
    case (absent pre suf)
    have "\<not> (fm_lower_bound lt key m \<noteq> length m \<and> \<not> lt key (fst (m ! fm_lower_bound lt key m)))"
      using absent(2,3) by (auto simp: fm_find_def Let_def split: if_splits)
    then have "it = length pre" "new" "m' = pre @ (key, v) # suf"
      using assms(2) absent(1,2) by (auto simp: fm_try_emplace_def Let_def insert_at_def split: if_splits)
    then show ?thesis using absent map_of_insert [of pre suf key v] by (simp add: nth_append)
  next
    case (present pre w suf)
    then have "it = length pre" "\<not> new" "m' = m"
      using assms(2) irrefl by (auto simp: fm_try_emplace_def Let_def nth_append split: if_splits)
    then show ?thesis using present assms(1) by (simp add: nth_append)
  qed
  then show "fm_sorted lt m'" "new \<longleftrightarrow> map_of m key = None" "it < length m'" "fst (m' ! it) = key"
    "map_of m' = (if new then (map_of m)(key \<mapsto> v) else map_of m)" "Some (snd (m' ! it)) = map_of m' key" by auto
qed

lemma fm_erase_ok:
  assumes "fm_sorted lt m" "fm_erase lt key m = (n, m')"
  shows "fm_sorted lt m'" "map_of m' = (map_of m)(key := None)" "n = (if map_of m key = None then 0 else 1)"
proof -
  from assms(1) have "fm_sorted lt m' \<and> map_of m' = (map_of m)(key := None) \<and> n = (if map_of m key = None then 0 else 1)"
  proof (cases rule: fm_cases [where key = key and v = undefined])
    case (absent pre suf)
    then have "n = 0" "m' = m" using assms(2) by (auto simp: fm_erase_def)
    then show ?thesis using absent assms(1) by auto
  next
    case (present pre w suf)
    then have "n = 1" "m' = pre @ suf" using assms(2) by (auto simp: fm_erase_def erase_at_def)
    then show ?thesis using present map_of_remove [of pre suf key w] by simp
  qed
  then show "fm_sorted lt m'" "map_of m' = (map_of m)(key := None)" "n = (if map_of m key = None then 0 else 1)" by auto
qed

lemma fm_modify_ok:
  assumes "fm_sorted lt m"
  shows "fm_sorted lt (fm_modify lt key f m)" "map_of (fm_modify lt key f m) = (map_of m)(key := map_option f (map_of m key))"
proof -
  from assms have "fm_sorted lt (fm_modify lt key f m) \<and> map_of (fm_modify lt key f m) = (map_of m)(key := map_option f (map_of m key))"
  proof (cases rule: fm_cases [where key = key and v = undefined])
    case (absent pre suf)
    then show ?thesis using assms by (auto simp: fm_modify_def)
  next
    case (present pre w suf)
    then have "fm_modify lt key f m = pre @ (key, f w) # suf" by (simp add: fm_modify_def nth_append)
    then show ?thesis
      using present map_of_insert [of pre suf key w] map_of_insert [of pre suf key "f w"] by simp
  qed
  then show "fm_sorted lt (fm_modify lt key f m)" "map_of (fm_modify lt key f m) = (map_of m)(key := map_option f (map_of m key))" by auto
qed

text \<open>\<open>assign\<close>: sorting, then the check for neighbours with the same key.\<close>

lemma insert_by_mset [simp]: "mset (insert_by lt a bs) = add_mset a (mset bs)"
  by (induction bs) auto

lemma insert_by_set [simp]: "set (insert_by lt a bs) = insert a (set bs)"
  by (induction bs) auto

lemma sort_by_mset [simp]: "mset (sort_by lt as) = mset as"
  by (induction as) auto

lemma sort_by_weakly: "sorted_wrt (\<lambda>a b. \<not> lt (fst b) (fst a)) (sort_by lt as)"
proof (induction as)
  case (Cons a as)
  have "sorted_wrt (\<lambda>a b. \<not> lt (fst b) (fst a)) (insert_by lt a bs)"
    if "sorted_wrt (\<lambda>a b. \<not> lt (fst b) (fst a)) bs" for bs
    using that
  proof (induction bs)
    case (Cons b bs)
    show ?case
    proof (cases "lt (fst b) (fst a)")
      case True
      then show ?thesis using Cons.IH Cons.prems asym [OF True] by simp
    next
      case False
      have "\<not> lt (fst c) (fst a)" if "c \<in> set bs" for c
        using Cons.prems that not_lt_not_lt [OF False] by simp
      then show ?thesis using Cons.prems False by simp
    qed
  qed simp
  with Cons show ?case by simp
qed simp

lemma adjacent_find_iff:
  fixes as :: "('k \<times> 'v) list"
  assumes "sorted_wrt (\<lambda>a b. \<not> lt (fst b) (fst a)) as"
  shows "adjacent_find (fm_eq_fn lt) as \<longleftrightarrow> \<not> distinct (map fst as)"
    and "\<not> adjacent_find (fm_eq_fn lt) as \<Longrightarrow> fm_sorted lt as"
proof -
  have "(adjacent_find (fm_eq_fn lt) as \<longrightarrow> \<not> distinct (map fst as)) \<and> (\<not> adjacent_find (fm_eq_fn lt) as \<longrightarrow> fm_sorted lt as)"
    using assms
  proof (induction "fm_eq_fn lt :: 'k \<times> 'v \<Rightarrow> 'k \<times> 'v \<Rightarrow> bool" as rule: adjacent_find.induct)
    case (1 a b as)
    then have IH: "(adjacent_find (fm_eq_fn lt) (b # as) \<longrightarrow> \<not> distinct (map fst (b # as)))
      \<and> (\<not> adjacent_find (fm_eq_fn lt) (b # as) \<longrightarrow> fm_sorted lt (b # as))" by simp
    show ?case
    proof (cases "fm_eq_fn lt a b")
      case True
      then have "fst a = fst b" using incomparable_eq by (simp add: fm_eq_fn_def)
      then show ?thesis using True by simp
    next
      case False
      then have "lt (fst a) (fst b)" using 1(2) by (simp add: fm_eq_fn_def)
      then show ?thesis using IH False trans by (auto simp: fm_sorted_def)
    qed
  qed (auto simp: fm_sorted_def)
  moreover have "distinct (map fst as)" if "fm_sorted lt as" using that
    by (induction as) (auto simp: fm_sorted_def irrefl)
  ultimately show "adjacent_find (fm_eq_fn lt) as \<longleftrightarrow> \<not> distinct (map fst as)"
    "\<not> adjacent_find (fm_eq_fn lt) as \<Longrightarrow> fm_sorted lt as" by blast+
qed

lemma fm_assign_ok:
  "if distinct (map fst xs) then \<exists>m. fm_assign lt xs = Inr m \<and> fm_sorted lt m \<and> mset m = mset xs
   else fm_assign lt xs = Inl Duplicated_key"
proof -
  let ?m = "sort_by lt xs"
  have "mset (map fst ?m) = mset (map fst xs)" by (simp only: mset_map sort_by_mset)
  then have "distinct (map fst ?m) = distinct (map fst xs)" by (rule mset_eq_imp_distinct_iff)
  with adjacent_find_iff [OF sort_by_weakly, of xs] show ?thesis by (auto simp: fm_assign_def Let_def)
qed

text \<open>The set: insertion is right, \<open>find\<close> answers the opposite question.\<close>

lemma fs_insert_ok:
  assumes "fs_sorted lt s" "fs_insert lt v s = (it, s')"
  shows "fs_sorted lt s'" "set s' = insert v (set s)" "it < length s'" "s' ! it = v"
proof -
  have s: "sorted_wrt (\<lambda>a b. lt (id a) (id b)) s" using assms(1) by (simp add: fs_sorted_def)
  from s have "fs_sorted lt s' \<and> set s' = insert v (set s) \<and> it < length s' \<and> s' ! it = v"
  proof (cases rule: split_at_key [where key = v])
    case (absent pre suf)
    then have lb: "fs_lower_bound lt v s = length pre" by (simp add: fs_lower_bound_def)
    have "fs_lower_bound lt v s = length s \<or> lt (s ! fs_lower_bound lt v s) v \<or> lt v (s ! fs_lower_bound lt v s)"
      unfolding lb using absent by (cases suf) (auto simp: nth_append)
    then have "it = length pre" "s' = pre @ v # suf" using assms(2) absent(1) lb by (auto simp: fs_insert_def insert_at_def)
    then show ?thesis using sorted_split [of id pre suf v] s absent by (simp add: fs_sorted_def nth_append)
  next
    case (present pre x suf)
    then have lb: "fs_lower_bound lt v s = length pre" by (simp add: fs_lower_bound_def)
    then have "it = length pre" "s' = s"
      using assms(2) present irrefl by (auto simp: fs_insert_def Let_def nth_append)
    then show ?thesis using assms(1) present by (simp add: nth_append)
  qed
  then show "fs_sorted lt s'" "set s' = insert v (set s)" "it < length s'" "s' ! it = v" by auto
qed

lemma fs_find_inverted:
  assumes "fs_sorted lt s"
  shows "v \<in> set s \<Longrightarrow> fs_find lt v s = length s"
    and "v \<notin> set s \<Longrightarrow> fs_find lt v s = length (takeWhile (\<lambda>a. lt a v) s)"
    and "v \<notin> set s \<Longrightarrow> length (takeWhile (\<lambda>a. lt a v) s) < length s \<Longrightarrow> lt v (s ! length (takeWhile (\<lambda>a. lt a v) s))"
proof -
  have s: "sorted_wrt (\<lambda>a b. lt (id a) (id b)) s" using assms(1) by (simp add: fs_sorted_def)
  have lb: "fs_lower_bound lt v s = length (takeWhile (\<lambda>a. lt a v) s)"
    using lower_bound_split [OF s, of v] by (simp add: fs_lower_bound_def)
  let ?n = "length (takeWhile (\<lambda>a. lt a v) s)"
  from s have "(v \<in> set s \<longrightarrow> fs_find lt v s = length s) \<and> (v \<notin> set s \<longrightarrow> fs_find lt v s = ?n \<and> (?n < length s \<longrightarrow> lt v (s ! ?n)))"
  proof (cases rule: split_at_key [where key = v])
    case (absent pre suf)
    then have n: "?n = length pre" using lb by (simp add: fs_lower_bound_def)
    have "v \<notin> set s" using absent irrefl by auto
    moreover have "?n < length s \<Longrightarrow> lt v (s ! ?n)" unfolding n using absent by (cases suf) (auto simp: nth_append)
    moreover have "?n \<le> length s" by (rule length_takeWhile_le)
    ultimately show ?thesis by (cases "?n = length s") (simp_all add: fs_find_def lb Let_def)
  next
    case (present pre x suf)
    then have n: "?n = length pre" using lb by (simp add: fs_lower_bound_def)
    then have "s ! ?n = v" "?n < length s" "v \<in> set s" using present by (simp_all add: nth_append)
    then show ?thesis using irrefl by (simp add: fs_find_def lb Let_def)
  qed
  then show "v \<in> set s \<Longrightarrow> fs_find lt v s = length s" "v \<notin> set s \<Longrightarrow> fs_find lt v s = ?n"
    "v \<notin> set s \<Longrightarrow> ?n < length s \<Longrightarrow> lt v (s ! ?n)" by auto
qed

end

section \<open>The contract of a table\<close>

text \<open>What the users of the map rely on: \<open>put\<close> keeps an entry that is already there.\<close>

locale table =
  fixes lookup :: "'k \<Rightarrow> 's \<Rightarrow> 'v option"
    and put :: "'k \<Rightarrow> 'v \<Rightarrow> 's \<Rightarrow> 's"
    and remove :: "'k \<Rightarrow> 's \<Rightarrow> 's"
    and modify :: "'k \<Rightarrow> ('v \<Rightarrow> 'v) \<Rightarrow> 's \<Rightarrow> 's"
    and valid :: "'s \<Rightarrow> bool"
  assumes lookup_put: "valid s \<Longrightarrow> lookup k' (put k v s) = (if k' = k \<and> lookup k s = None then Some v else lookup k' s)"
    and lookup_remove: "valid s \<Longrightarrow> lookup k' (remove k s) = (if k' = k then None else lookup k' s)"
    and lookup_modify: "valid s \<Longrightarrow> lookup k' (modify k f s) = (if k' = k then map_option f (lookup k s) else lookup k' s)"
    and valid_put: "valid s \<Longrightarrow> valid (put k v s)"
    and valid_remove: "valid s \<Longrightarrow> valid (remove k s)"
    and valid_modify: "valid s \<Longrightarrow> valid (modify k f s)"
begin

lemma lookup_put_fresh: "valid s \<Longrightarrow> lookup k s = None \<Longrightarrow> lookup k (put k v s) = Some v"
  by (simp add: lookup_put)

lemma remove_put_fresh: "valid s \<Longrightarrow> lookup k s = None \<Longrightarrow> lookup k' (remove k (put k v s)) = lookup k' s"
  by (simp add: lookup_put lookup_remove valid_put)

lemma lookup_other: "valid s \<Longrightarrow> k' \<noteq> k \<Longrightarrow> lookup k' (put k v s) = lookup k' s \<and> lookup k' (remove k s) = lookup k' s
    \<and> lookup k' (modify k f s) = lookup k' s"
  by (simp add: lookup_put lookup_remove lookup_modify)

lemmas table_simps = lookup_put lookup_remove lookup_modify valid_put valid_remove valid_modify

end

definition fm_put :: "('k \<Rightarrow> 'k \<Rightarrow> bool) \<Rightarrow> 'k \<Rightarrow> 'v \<Rightarrow> ('k, 'v) fm \<Rightarrow> ('k, 'v) fm" where
  "fm_put lt k v m = snd (fm_try_emplace lt k v m)"

definition fm_remove :: "('k \<Rightarrow> 'k \<Rightarrow> bool) \<Rightarrow> 'k \<Rightarrow> ('k, 'v) fm \<Rightarrow> ('k, 'v) fm" where
  "fm_remove lt k m = snd (fm_erase lt k m)"

context comparator
begin

lemma fm_table: "table (fm_lookup lt) (fm_put lt) (fm_remove lt) (fm_modify lt) (fm_sorted lt :: ('k, 'v) fm \<Rightarrow> bool)"
proof unfold_locales
  fix m :: "('k, 'v) fm" and k v k' f
  assume m: "fm_sorted lt m"
  obtain it new m1 where p: "fm_try_emplace lt k v m = ((it, new), m1)" by (metis prod.collapse)
  obtain n m2 where r: "fm_erase lt k m = (n, m2)" by fastforce
  note te = fm_try_emplace_ok [OF m p] and er = fm_erase_ok [OF m r] and mo = fm_modify_ok [OF m, of k f]
  show "fm_sorted lt (fm_put lt k v m)" using te(1) p by (simp add: fm_put_def)
  show "fm_sorted lt (fm_remove lt k m)" using er(1) r by (simp add: fm_remove_def)
  show "fm_sorted lt (fm_modify lt k f m)" by (rule mo(1))
  show "fm_lookup lt k' (fm_put lt k v m) = (if k' = k \<and> fm_lookup lt k m = None then Some v else fm_lookup lt k' m)"
    using te p m by (auto simp: fm_put_def fm_lookup_map_of)
  show "fm_lookup lt k' (fm_remove lt k m) = (if k' = k then None else fm_lookup lt k' m)"
    using er r m by (auto simp: fm_remove_def fm_lookup_map_of)
  show "fm_lookup lt k' (fm_modify lt k f m) = (if k' = k then map_option f (fm_lookup lt k m) else fm_lookup lt k' m)"
    using mo m by (auto simp: fm_lookup_map_of)
qed

end

interpretation fm: table "fm_lookup std_less" "fm_put std_less" "fm_remove std_less" "fm_modify std_less"
    "fm_sorted (std_less :: 'k :: linorder \<Rightarrow> 'k \<Rightarrow> bool)"
  by (rule less.fm_table)

text \<open>
  Who counts what a table holds also relies on its contents as a multiset: an insertion adds one entry,
  a removal takes one away. \<open>held w\<close> is what the values hold, each of them \<open>w\<close>.
\<close>

locale counted_table = table lookup put remove modify valid
  for lookup :: "'k \<Rightarrow> 's \<Rightarrow> 'v option"
    and put :: "'k \<Rightarrow> 'v \<Rightarrow> 's \<Rightarrow> 's"
    and remove :: "'k \<Rightarrow> 's \<Rightarrow> 's"
    and modify :: "'k \<Rightarrow> ('v \<Rightarrow> 'v) \<Rightarrow> 's \<Rightarrow> 's"
    and valid :: "'s \<Rightarrow> bool" +
  fixes contents :: "'s \<Rightarrow> ('k \<times> 'v) multiset"
  assumes contents_put: "valid s \<Longrightarrow> contents (put k v s) = (if lookup k s = None then add_mset (k, v) (contents s) else contents s)"
    and contents_remove: "valid s \<Longrightarrow> lookup k s = Some v \<Longrightarrow> contents s = add_mset (k, v) (contents (remove k s))"
    and contents_remove_none: "valid s \<Longrightarrow> lookup k s = None \<Longrightarrow> contents (remove k s) = contents s"
    and contents_modify: "valid s \<Longrightarrow> lookup k s = Some v \<Longrightarrow> contents (modify k f s) = add_mset (k, f v) (contents (remove k s))"
begin

definition held :: "('v \<Rightarrow> 'm multiset) \<Rightarrow> 's \<Rightarrow> 'm multiset" where
  "held w s = (\<Sum>e\<in>#contents s. w (snd e))"

lemma held_put: "valid s \<Longrightarrow> held w (put k v s) = (if lookup k s = None then w v + held w s else held w s)"
  by (simp add: held_def contents_put)

lemma held_remove: "valid s \<Longrightarrow> held w s = (case lookup k s of None \<Rightarrow> {#} | Some v \<Rightarrow> w v) + held w (remove k s)"
  by (cases "lookup k s") (simp_all add: held_def contents_remove_none contents_remove)

lemma held_modify: "valid s \<Longrightarrow> lookup k s = Some v \<Longrightarrow> w v + held w (modify k f s) = w (f v) + held w s"
  using contents_remove [of s k v] by (simp add: held_def contents_modify)

end

context comparator
begin

lemma fm_counted: "counted_table (fm_lookup lt) (fm_put lt) (fm_remove lt) (fm_modify lt) (fm_sorted lt :: ('k, 'v) fm \<Rightarrow> bool) mset"
proof (rule counted_table.intro [OF fm_table], unfold_locales)
  fix m :: "('k, 'v) fm" and k v f
  assume m: "fm_sorted lt m"
  from m have put: "mset (fm_put lt k v m) = (if fm_lookup lt k m = None then add_mset (k, v) (mset m) else mset m)"
    by (cases rule: fm_cases [where key = k and v = v])
      (auto simp: fm_put_def fm_try_emplace_def fm_find_def fm_lookup_def Let_def insert_at_def nth_append irrefl split: if_splits)
  then show "mset (fm_put lt k v m) = (if fm_lookup lt k m = None then add_mset (k, v) (mset m) else mset m)" .
  from m have rem: "(fm_lookup lt k m = Some v \<longrightarrow> mset m = add_mset (k, v) (mset (fm_remove lt k m))
      \<and> mset (fm_modify lt k f m) = add_mset (k, f v) (mset (fm_remove lt k m)))
    \<and> (fm_lookup lt k m = None \<longrightarrow> mset (fm_remove lt k m) = mset m)"
    by (cases rule: fm_cases [where key = k and v = v])
      (auto simp: fm_remove_def fm_erase_def fm_modify_def fm_lookup_def Let_def erase_at_def nth_append)
  show "fm_lookup lt k m = Some v \<Longrightarrow> mset m = add_mset (k, v) (mset (fm_remove lt k m))" using rem by blast
  show "fm_lookup lt k m = None \<Longrightarrow> mset (fm_remove lt k m) = mset m" using rem by blast
  show "fm_lookup lt k m = Some v \<Longrightarrow> mset (fm_modify lt k f m) = add_mset (k, f v) (mset (fm_remove lt k m))" using rem by blast
qed

end

interpretation fmc: counted_table "fm_lookup std_less" "fm_put std_less" "fm_remove std_less" "fm_modify std_less"
    "fm_sorted (std_less :: 'k :: linorder \<Rightarrow> 'k \<Rightarrow> bool)" mset
  by (rule less.fm_counted)

section \<open>Properties\<close>

text \<open>C18: On a sorted vector the operations of \<open>flat_map\<close> are those of a finite map, and leave it sorted:
  \<open>find\<close> and \<open>at\<close> give the value of a key or say that there is none, \<open>try_emplace\<close> inserts only a new key
  and returns its place, \<open>operator[]\<close> gives the value of a key that is there and leaves the map as it is, and
  otherwise inserts the default value and gives that, with every other entry kept; \<open>erase\<close> removes the key and
  counts it, and \<open>assign\<close> accepts exactly the ranges without a repeated key.\<close>
theorem flat_map_ops:
  fixes m :: "('k :: linorder \<times> 'v) list"
  assumes "fm_sorted std_less m"
  shows "fm_at std_less k m = (case map_of m k of None \<Rightarrow> Inl Key_not_exist | Some v \<Rightarrow> Inr v)
    \<and> fm_contains std_less k m = (k \<in> dom (map_of m))
    \<and> (case fm_try_emplace std_less k v m of ((it, new), m') \<Rightarrow> fm_sorted std_less m' \<and> new = (k \<notin> dom (map_of m))
         \<and> map_of m' = (if new then (map_of m)(k \<mapsto> v) else map_of m) \<and> it < length m' \<and> Some (snd (m' ! it)) = map_of m' k)
    \<and> (case fm_index std_less v k m of (x, m') \<Rightarrow> fm_sorted std_less m'
         \<and> x = (case map_of m k of None \<Rightarrow> v | Some y \<Rightarrow> y) \<and> map_of m' = (map_of m)(k \<mapsto> x))
    \<and> (case fm_erase std_less k m of (n, m') \<Rightarrow> fm_sorted std_less m' \<and> map_of m' = (map_of m)(k := None)
         \<and> n = (if k \<in> dom (map_of m) then 1 else 0))
    \<and> (if distinct (map fst xs) then \<exists>m'. fm_assign std_less xs = Inr m' \<and> fm_sorted std_less m' \<and> mset m' = mset xs
       else fm_assign std_less xs = Inl Duplicated_key)"
proof -
  obtain it new m1 where p: "fm_try_emplace std_less k v m = ((it, new), m1)" by (metis prod.collapse)
  obtain n m2 where r: "fm_erase std_less k m = (n, m2)" by fastforce
  note te = less.fm_try_emplace_ok [OF assms p] and er = less.fm_erase_ok [OF assms r]
  have l: "fm_lookup std_less k m = map_of m k" by (rule less.fm_lookup_map_of [OF assms])
  have "fm_at std_less k m = (case map_of m k of None \<Rightarrow> Inl Key_not_exist | Some v \<Rightarrow> Inr v)"
    unfolding l [symmetric] by (simp add: fm_at_def fm_lookup_def Let_def)
  moreover have "fm_contains std_less k m = (k \<in> dom (map_of m))"
    unfolding domIff l [symmetric] by (simp add: fm_contains_def fm_lookup_def Let_def)
  ultimately show ?thesis
    using te er p r less.fm_assign_ok [of xs] by (auto simp: fm_index_def fun_upd_triv split: option.split)
qed

theorem flat_map_ops_witness:
  "fm_at std_less 5 [(2, ''a''), (5 :: nat, ''b'')] = Inr ''b''
   \<and> fm_assign std_less [(5 :: nat, ''b''), (2, ''a''), (5, ''c'')] = Inl Duplicated_key"
  using flat_map_ops [of "[(2, ''a''), (5 :: nat, ''b'')]" 5 "''x''" "[(5 :: nat, ''b''), (2, ''a''), (5, ''c'')]"]
  by (simp add: fm_sorted_def std_less_def)

text \<open>\<open>flat_set::find\<close> returns \<open>end()\<close> for every element of the set, and for a missing value the place
  where it would go. So \<open>erase\<close> keeps a value that is there, and for a missing one it removes the next
  greater element and reports success. A loop over the set visits nothing, because \<open>end()\<close> is \<open>begin()\<close>,
  and \<open>back()\<close> of the map is its first entry.\<close>
theorem flat_set_inverted:
  fixes s :: "'k :: linorder list"
  assumes "fs_sorted std_less s"
  shows "(v \<in> set s \<longrightarrow> fs_find std_less v s = length s \<and> fs_erase std_less v s = (0, s))
    \<and> (v \<notin> set s \<longrightarrow> (\<exists>w \<in> set s. v < w) \<longrightarrow>
         (\<exists>i < length s. v < s ! i \<and> (\<forall>j < i. s ! j < v) \<and> fs_erase std_less v s = (1, take i s @ drop (Suc i) s)))
    \<and> fs_iterate s = [] \<and> fm_back (a # m) = Inr a"
proof (intro conjI impI)
  note f = less.fs_find_inverted [OF assms, of v]
  show "fs_find std_less v s = length s" "fs_erase std_less v s = (0, s)" if "v \<in> set s"
    using f(1) [OF that] by (simp_all add: fs_erase_def)
  let ?i = "length (takeWhile (\<lambda>a. std_less a v) s)"
  show "\<exists>i < length s. v < s ! i \<and> (\<forall>j < i. s ! j < v) \<and> fs_erase std_less v s = (1, take i s @ drop (Suc i) s)"
    if n: "v \<notin> set s" and w: "\<exists>w \<in> set s. v < w"
  proof -
    have "?i \<noteq> length s"
    proof
      assume "?i = length s"
      then have "takeWhile (\<lambda>a. std_less a v) s = s" by (metis takeWhile_eq_take take_all order_refl)
      then show False using w by (auto simp: takeWhile_eq_all_conv std_less_def)
    qed
    then have i: "?i < length s" using length_takeWhile_le [of "\<lambda>a. std_less a v" s] by linarith
    moreover have "\<forall>j < ?i. s ! j < v"
      by (metis nth_mem set_takeWhileD takeWhile_nth std_less_def)
    moreover have "fs_erase std_less v s = (1, take ?i s @ drop (Suc ?i) s)"
      using f(2) [OF n] i by (simp add: fs_erase_def erase_at_def Let_def)
    ultimately show ?thesis using f(3) [OF n i] by (auto simp: std_less_def)
  qed
  show "fs_iterate s = []" by (simp add: fs_iterate_def fs_begin_def fs_end_def)
  show "fm_back (a # m) = Inr a" by (simp add: fm_back_def)
qed

theorem flat_set_inverted_witness:
  "fs_erase std_less 3 [1, 3, 7 :: nat] = (0, [1, 3, 7]) \<and> fs_iterate [1, 3, 7 :: nat] = []"
  using flat_set_inverted [of "[1, 3, 7 :: nat]" 3 "((), ())" "[]"] by (simp add: fs_sorted_def std_less_def)

end
