(* ===== verification/Rpc_Session.thy ===== *)
theory Rpc_Session
  imports Msgpack_Rpc Flat_Map
begin

text \<open>
  The RPC session of \<open>refl/rpc/detail/session.hxx\<close> over the MessagePack-RPC protocol: requests with their
  handlers in a \<open>flat_map\<close> by message id, the messages posted to the event procedure, receiving,
  expiry and waiting.

  A handler is a number; \<open>called\<close> is the history of the invocations with what they were told. A null
  \<open>pool_ptr\<close> in the request table is \<open>None\<close>. A function whose answer is an option returns \<open>None\<close> where
  the code dereferences a null pointer, fails an assertion or leaves a \<open>noexcept\<close> function by an
  exception. A function is what one thread does without giving up its locks; calls that do more
  (\<open>async_request\<close>, \<open>abort_request\<close>, \<open>_handle_reply\<close>) are split into these parts, and the step relation
  interleaves them in every way. \<open>receive\<close> posts what it received after it has left the lock of the
  protocol; posting commutes with what other threads do there and is part of the same step.
  Creating and destroying a session, its profile and its byte counters are not modelled; the
  assertion that requests are enabled is a hypothesis (\<open>table_ok\<close>) of what is proved.
\<close>

section \<open>State\<close>

record request_node =
  rhandler :: nat
  rbuffer :: "val option"

datatype outcome = Completed | Exception_returned "byte list" | Aborted

text \<open>What is posted by \<open>post_rpc_completion\<close>, \<open>post_handler_callback\<close>, and told to the monitor.\<close>

datatype completion = Handle_reply int bool | Abort_request "request_node option"

datatype callback = Call_request int "byte list" "val list" | Call_notify "byte list" "val list"

datatype monitor_event = Session_expired | Receive_warning stream_state | Handler_error

record session =
  prot :: proto
  svc :: service
  expired :: bool
  conn_closed :: bool
  manual_flush :: bool
  request_enabled :: bool
  idgen :: int
  requests :: "(int, request_node option) fm"
  completions :: "completion list"
  callbacks :: "callback list"
  monitor :: "monitor_event list"
  receiving :: bool
  waiters :: "int list"
  called :: "(nat \<times> outcome) list"

abbreviation lookup_request :: "int \<Rightarrow> session \<Rightarrow> request_node option option" where
  "lookup_request i s \<equiv> fm_lookup std_less i (requests s)"

definition int_max :: int where "int_max = 2 ^ 31 - 1"

section \<open>Expiry\<close>

definition set_expired :: "bool \<Rightarrow> session \<Rightarrow> bool \<times> session" where
  "set_expired call_monitor s =
     (let s = s\<lparr>conn_closed := True\<rparr> in
      if expired s then (False, s)
      else
        let s = s\<lparr>expired := True\<rparr>;
            s = (if request_enabled s
                 then s\<lparr>completions := completions s @ map (\<lambda>(_, req). Abort_request req) (requests s), requests := []\<rparr>
                 else s)
        in (True, if call_monitor then s\<lparr>monitor := monitor s @ [Session_expired]\<rparr> else s))"

definition close_session :: "session \<Rightarrow> bool \<times> session" where
  "close_session s =
     (let s = s\<lparr>conn_closed := True\<rparr> in
      if expired s then (False, s) else (True, snd (set_expired True s)))"

section \<open>Requests\<close>

definition auto_flush :: "session \<Rightarrow> session" where
  "auto_flush s = (if manual_flush s then s else s\<lparr>prot := proto_flush (prot s)\<rparr>)"

text \<open>\<open>async_request\<close>: the first critical section, then the one of the protocol.\<close>

definition register :: "nat \<Rightarrow> val option \<Rightarrow> session \<Rightarrow> int \<times> session" where
  "register h buf s =
     (let msgid = idgen s + 1
      in (msgid, s\<lparr>idgen := if msgid = int_max then 0 else msgid,
                   requests := fm_put std_less msgid (Some \<lparr>rhandler = h, rbuffer = buf\<rparr>) (requests s)\<rparr>))"

definition transmit :: "int \<Rightarrow> byte list \<Rightarrow> val list \<Rightarrow> session \<Rightarrow> bool \<times> session" where
  "transmit msgid method params s =
     (let (ok, p) = (if expired s then (True, prot s) else send_request method msgid params (prot s));
          s = s\<lparr>prot := p\<rparr>;
          s = (if ok then s else snd (set_expired True s))
      in if expired s then (False, s\<lparr>requests := fm_remove std_less msgid (requests s)\<rparr>)
         else (True, auto_flush s))"

definition async_request :: "byte list \<Rightarrow> nat \<Rightarrow> val option \<Rightarrow> val list \<Rightarrow> session \<Rightarrow> int option \<times> session" where
  "async_request method h buf params s =
     (let (msgid, s) = register h buf s; (ok, s) = transmit msgid method params s
      in (if ok then Some msgid else None, s))"

definition notify :: "byte list \<Rightarrow> val list \<Rightarrow> session \<Rightarrow> bool \<times> session" where
  "notify method params s =
     (if expired s then (False, s)
      else let (ok, p) = send_notify method params (prot s); s = s\<lparr>prot := p\<rparr>
           in if \<not> ok then (False, snd (set_expired True s)) else (True, auto_flush s))"

definition session_flush :: "session \<Rightarrow> session" where
  "session_flush s = s\<lparr>prot := proto_flush (prot s)\<rparr>"

definition autoflush :: "bool \<Rightarrow> session \<Rightarrow> session" where
  "autoflush enabled s = s\<lparr>manual_flush := \<not> enabled\<rparr>"

text \<open>The predicate of \<open>wait\<close>, the beginning of a wait, and \<open>notify_all\<close>, which evaluates the predicate
  of each waiter.\<close>

definition wait_done :: "int \<Rightarrow> session \<Rightarrow> bool" where
  "wait_done msgid s \<longleftrightarrow> \<not> fm_contains std_less msgid (requests s)"

definition begin_wait :: "int \<Rightarrow> session \<Rightarrow> session" where
  "begin_wait msgid s = (if wait_done msgid s then s else s\<lparr>waiters := msgid # waiters s\<rparr>)"

definition notify_all :: "session \<Rightarrow> session" where
  "notify_all s = s\<lparr>waiters := filter (\<lambda>i. \<not> wait_done i s) (waiters s)\<rparr>"

definition call_handler :: "nat \<Rightarrow> outcome \<Rightarrow> session \<Rightarrow> session" where
  "call_handler h r s = s\<lparr>called := called s @ [(h, r)]\<rparr>"

text \<open>\<open>abort_request\<close>: the critical section gives the handler to abort, then it is called.\<close>

definition abort_take :: "int \<Rightarrow> session \<Rightarrow> nat option \<times> session" where
  "abort_take msgid s =
     (case lookup_request msgid s of
        None \<Rightarrow> (None, s)
      | Some None \<Rightarrow> (None, s)
      | Some (Some n) \<Rightarrow> (Some (rhandler n), s\<lparr>requests := fm_remove std_less msgid (requests s)\<rparr>))"

definition abort_finish :: "nat \<Rightarrow> session \<Rightarrow> session" where
  "abort_finish h s = notify_all (call_handler h Aborted s)"

definition abort_request :: "int \<Rightarrow> session \<Rightarrow> bool \<times> session" where
  "abort_request msgid s =
     (case abort_take msgid s of (None, s) \<Rightarrow> (False, s) | (Some h, s) \<Rightarrow> (True, abort_finish h s))"

text \<open>\<open>request_handle\<close>: a message id and a weak pointer to the session, \<open>None\<close> when it is gone. The answer
  \<open>None\<close> is the failed assertion on an empty handle.\<close>

definition handle_valid :: "session option \<Rightarrow> int \<Rightarrow> bool" where
  "handle_valid wp msgid \<longleftrightarrow> msgid > 0 \<and> wp \<noteq> None"

definition handle_wait :: "session option \<Rightarrow> int \<Rightarrow> (bool \<times> session option) option" where
  "handle_wait wp msgid =
     (if \<not> msgid > 0 then None
      else Some (case wp of Some s \<Rightarrow> (True, Some (begin_wait msgid s)) | None \<Rightarrow> (False, None)))"

definition handle_abort :: "session option \<Rightarrow> int \<Rightarrow> (bool \<times> session option) option" where
  "handle_abort wp msgid =
     (if \<not> msgid > 0 then None
      else Some (case wp of Some s \<Rightarrow> (case abort_request msgid s of (r, s) \<Rightarrow> (r, Some s)) | None \<Rightarrow> (False, None)))"

section \<open>Completions\<close>

text \<open>\<open>_handle_reply\<close> in three parts: take the request out of the table, call its handler, erase the entry.\<close>

definition reply_take :: "int \<Rightarrow> session \<Rightarrow> request_node option \<times> session" where
  "reply_take msgid s =
     (case lookup_request msgid s of
        None \<Rightarrow> (None, s)
      | Some r \<Rightarrow> (r, s\<lparr>requests := fm_modify std_less msgid (\<lambda>_. None) (requests s)\<rparr>))"

definition error_text :: "int \<Rightarrow> session \<Rightarrow> byte list" where
  "error_text msgid s = (case errors (prot s) msgid of None \<Rightarrow> [] | Some t \<Rightarrow> t)"

definition reply_call :: "int \<Rightarrow> bool \<Rightarrow> request_node \<Rightarrow> session \<Rightarrow> session" where
  "reply_call msgid successful n s =
     call_handler (rhandler n) (if successful then Completed else Exception_returned (error_text msgid s)) s"

definition reply_finish :: "int \<Rightarrow> session \<Rightarrow> session" where
  "reply_finish msgid s = notify_all (s\<lparr>requests := fm_remove std_less msgid (requests s)\<rparr>)"

definition session_handle_reply :: "int \<Rightarrow> bool \<Rightarrow> session \<Rightarrow> session" where
  "session_handle_reply msgid successful s =
     (case reply_take msgid s of
        (None, s) \<Rightarrow> s
      | (Some n, s) \<Rightarrow> reply_finish msgid (reply_call msgid successful n s))"

text \<open>The lambda posted by \<open>_set_expired\<close>, and a posted completion run to its end.\<close>

definition run_abort :: "request_node option \<Rightarrow> session \<Rightarrow> session option" where
  "run_abort r s = (case r of None \<Rightarrow> None | Some n \<Rightarrow> Some (call_handler (rhandler n) Aborted s))"

definition run_completion :: "completion \<Rightarrow> session \<Rightarrow> session option" where
  "run_completion c s =
     (case c of Handle_reply msgid ok \<Rightarrow> Some (session_handle_reply msgid ok s) | Abort_request r \<Rightarrow> run_abort r s)"

section \<open>Receiving\<close>

text \<open>\<open>find_reply_result_buffer\<close>: the return buffer of a request; a moved-out request has none to give.\<close>

definition reply_slots :: "session \<Rightarrow> int \<Rightarrow> val option option" where
  "reply_slots s msgid = (case lookup_request msgid s of Some (Some n) \<Rightarrow> Some (rbuffer n) | _ \<Rightarrow> None)"

text \<open>The lookup of a reply's buffer goes through a null pointer when the session has no request context
  or the request is already being completed.\<close>

definition dangling_reply :: "proxy \<Rightarrow> session \<Rightarrow> bool" where
  "dangling_reply px s \<longleftrightarrow> ptype px \<in> {Reply_okay, Reply_error, Reply_expired}
     \<and> (\<not> request_enabled s \<or> lookup_request (rpc_msgid px) s = Some None)"

definition handle_receive_result :: "proxy \<Rightarrow> session \<Rightarrow> session option" where
  "handle_receive_result px s =
     (case ptype px of
        Proxy_request \<Rightarrow> (case handler px of None \<Rightarrow> None
          | Some (m, params) \<Rightarrow> Some (s\<lparr>callbacks := callbacks s @ [Call_request (rpc_msgid px) m params]\<rparr>))
      | Proxy_notify \<Rightarrow> (case handler px of None \<Rightarrow> None
          | Some (m, params) \<Rightarrow> Some (s\<lparr>callbacks := callbacks s @ [Call_notify m params]\<rparr>))
      | Reply_okay \<Rightarrow> if rpc_msgid px = 0 then None
          else Some (s\<lparr>completions := completions s @ [Handle_reply (rpc_msgid px) True]\<rparr>)
      | Reply_error \<Rightarrow> if rpc_msgid px = 0 then None
          else Some (s\<lparr>completions := completions s @ [Handle_reply (rpc_msgid px) False]\<rparr>)
      | Reply_expired \<Rightarrow> Some s
      | In_progress \<Rightarrow> None
      | Proxy_none \<Rightarrow> None)"

definition resume_receive :: "session \<Rightarrow> session" where
  "resume_receive s = s\<lparr>receiving := True\<rparr>"

text \<open>\<open>on_data_wait_complete\<close> with the posted \<open>_impl_on_data_wait_complete\<close>.\<close>

definition receive :: "byte list rd \<Rightarrow> casts \<Rightarrow> session \<Rightarrow> session option" where
  "receive dump c s =
     (if \<not> receiving s then None
      else let s = s\<lparr>receiving := False\<rparr> in
      if expired s then Some s
      else case handle_single_message (svc s) (reply_slots s) dump c ((prot s)\<lparr>prox := proxy_new\<rparr>) of
        (None, _) \<Rightarrow> None
      | (Some st, p) \<Rightarrow>
          if dangling_reply (prox p) s then None
          else let s = s\<lparr>prot := p\<rparr> in
            (case st of
               Expired \<Rightarrow> Some (snd (set_expired True s))
             | Okay \<Rightarrow> map_option resume_receive (handle_receive_result (prox p) s)
             | _ \<Rightarrow> Some (resume_receive (s\<lparr>monitor := monitor s @ [Receive_warning st]\<rparr>))))"

section \<open>Handlers of the service\<close>

text \<open>What a service handler does with its parameters: a parameter of the model.\<close>

datatype invoked = Returned val | Threw_object val | Threw_text "byte list"

definition run_callback :: "(byte list \<Rightarrow> val list \<Rightarrow> invoked) \<Rightarrow> callback \<Rightarrow> session \<Rightarrow> session" where
  "run_callback invoke cb s =
     (case cb of
        Call_request msgid m params \<Rightarrow>
          (case invoke m params of
             Returned v \<Rightarrow> if expired s then s else s\<lparr>prot := snd (send_reply_result msgid v (prot s))\<rparr>
           | Threw_object e \<Rightarrow>
               let s = s\<lparr>monitor := monitor s @ [Handler_error]\<rparr>
               in if expired s then s else s\<lparr>prot := snd (send_reply_error msgid e (prot s))\<rparr>
           | Threw_text t \<Rightarrow>
               let s = s\<lparr>monitor := monitor s @ [Handler_error]\<rparr>
               in if expired s then s else s\<lparr>prot := snd (send_reply_error_text msgid t (prot s))\<rparr>)
      | Call_notify m params \<Rightarrow>
          (case invoke m params of
             Returned _ \<Rightarrow> s
           | _ \<Rightarrow> s\<lparr>monitor := monitor s @ [Handler_error]\<rparr>))"

section \<open>Construction\<close>

definition session_new :: "bool \<Rightarrow> service \<Rightarrow> proto \<Rightarrow> session" where
  "session_new rpc sv p =
     \<lparr>prot = p, svc = sv, expired = False, conn_closed = False, manual_flush = False, request_enabled = rpc, idgen = 0,
       requests = [], completions = [], callbacks = [], monitor = [], receiving = True, waiters = [], called = []\<rparr>"

section \<open>Threads\<close>

text \<open>
  A session and what its threads are in the middle of: requests registered and not yet sent, replies
  whose handler is about to be called or has been called, aborted handlers about to be called. The last
  three lists are history: the handlers given to \<open>async_request\<close>, those that it gave back with an empty
  handle, and those whose request was lost because its message id was in use.
\<close>

record sys =
  sess :: session
  sending :: "(int \<times> nat \<times> byte list \<times> val list) list"
  replying :: "(int \<times> bool \<times> request_node) list"
  finishing :: "int list"
  aborting :: "nat list"
  issued :: "nat list"
  refused :: "nat list"
  collided :: "nat list"

definition sys_new :: "service \<Rightarrow> proto \<Rightarrow> sys" where
  "sys_new sv p = \<lparr>sess = session_new True sv p, sending = [], replying = [], finishing = [], aborting = [],
     issued = [], refused = [], collided = []\<rparr>"

definition live_handlers :: "int \<Rightarrow> session \<Rightarrow> nat list" where
  "live_handlers i s = (case lookup_request i s of Some (Some n) \<Rightarrow> [rhandler n] | _ \<Rightarrow> [])"

inductive step :: "byte list rd \<Rightarrow> casts \<Rightarrow> (byte list \<Rightarrow> val list \<Rightarrow> invoked) \<Rightarrow> sys \<Rightarrow> sys \<Rightarrow> bool"
  for dump c invoke
where
  Issue: "register h buf (sess y) = (i, s) \<Longrightarrow>
     step dump c invoke y (y\<lparr>sess := s, sending := (i, h, m, ps) # sending y, issued := h # issued y,
       collided := (if lookup_request i (sess y) = None then [] else [h]) @ collided y\<rparr>)"
| Transmit: "(i, h, m, ps) \<in> set (sending y) \<Longrightarrow> transmit i m ps (sess y) = (ok, s) \<Longrightarrow>
     step dump c invoke y (y\<lparr>sess := s, sending := remove1 (i, h, m, ps) (sending y),
       refused := (if expired (sess y) then live_handlers i (sess y) else []) @ refused y\<rparr>)"
| Reply_take: "Handle_reply i ok \<in> set (completions (sess y)) \<Longrightarrow>
     reply_take i ((sess y)\<lparr>completions := remove1 (Handle_reply i ok) (completions (sess y))\<rparr>) = (r, s) \<Longrightarrow>
     step dump c invoke y (y\<lparr>sess := s, replying := (case r of None \<Rightarrow> [] | Some n \<Rightarrow> [(i, ok, n)]) @ replying y\<rparr>)"
| Reply_call: "(i, ok, n) \<in> set (replying y) \<Longrightarrow>
     step dump c invoke y (y\<lparr>sess := reply_call i ok n (sess y), replying := remove1 (i, ok, n) (replying y),
       finishing := i # finishing y\<rparr>)"
| Reply_finish: "i \<in> set (finishing y) \<Longrightarrow>
     step dump c invoke y (y\<lparr>sess := reply_finish i (sess y), finishing := remove1 i (finishing y),
       collided := live_handlers i (sess y) @ collided y\<rparr>)"
| Abort_take: "abort_take i (sess y) = (Some h, s) \<Longrightarrow> step dump c invoke y (y\<lparr>sess := s, aborting := h # aborting y\<rparr>)"
| Abort_finish: "h \<in> set (aborting y) \<Longrightarrow>
     step dump c invoke y (y\<lparr>sess := abort_finish h (sess y), aborting := remove1 h (aborting y)\<rparr>)"
| Run_abort: "Abort_request r \<in> set (completions (sess y)) \<Longrightarrow>
     run_abort r ((sess y)\<lparr>completions := remove1 (Abort_request r) (completions (sess y))\<rparr>) = Some s \<Longrightarrow>
     step dump c invoke y (y\<lparr>sess := s\<rparr>)"
| Close: "step dump c invoke y (y\<lparr>sess := snd (close_session (sess y))\<rparr>)"
| Data: "step dump c invoke y (y\<lparr>sess := (sess y)\<lparr>prot := (prot (sess y))\<lparr>rd := r\<rparr>\<rparr>\<rparr>)"
| Receive: "receive dump c (sess y) = Some s \<Longrightarrow> step dump c invoke y (y\<lparr>sess := s\<rparr>)"
| Callback: "cb \<in> set (callbacks (sess y)) \<Longrightarrow>
     step dump c invoke y (y\<lparr>sess := run_callback invoke cb ((sess y)\<lparr>callbacks := remove1 cb (callbacks (sess y))\<rparr>)\<rparr>)"
| Notify: "step dump c invoke y (y\<lparr>sess := snd (notify m ps (sess y))\<rparr>)"
| Flush: "step dump c invoke y (y\<lparr>sess := session_flush (sess y)\<rparr>)"
| Autoflush: "step dump c invoke y (y\<lparr>sess := autoflush b (sess y)\<rparr>)"
| Wait: "step dump c invoke y (y\<lparr>sess := begin_wait i (sess y)\<rparr>)"

inductive_cases step_cases: "step dump c invoke y y'"

abbreviation run :: "byte list rd \<Rightarrow> casts \<Rightarrow> (byte list \<Rightarrow> val list \<Rightarrow> invoked) \<Rightarrow> sys \<Rightarrow> sys \<Rightarrow> bool" where
  "run dump c invoke \<equiv> (step dump c invoke)\<^sup>*\<^sup>*"

section \<open>Where the handlers are\<close>

definition spread :: "('a \<Rightarrow> nat multiset) \<Rightarrow> 'a list \<Rightarrow> nat multiset" where
  "spread f xs = (\<Sum>x\<in>#mset xs. f x)"

lemma spread_simps [simp]:
  "spread f [] = {#}" "spread f (x # xs) = f x + spread f xs" "spread f (xs @ ys) = spread f xs + spread f ys"
  by (simp_all add: spread_def)

lemma spread_remove1: "x \<in> set xs \<Longrightarrow> spread f xs = f x + spread f (remove1 x xs)"
  by (induction xs) (auto simp: ac_simps)

definition of_node :: "request_node option \<Rightarrow> nat multiset" where
  "of_node r = (case r of None \<Rightarrow> {#} | Some n \<Rightarrow> {#rhandler n#})"

definition of_completion :: "completion \<Rightarrow> nat multiset" where
  "of_completion x = (case x of Handle_reply _ _ \<Rightarrow> {#} | Abort_request r \<Rightarrow> of_node r)"

lemma of_simps [simp]:
  "of_node None = {#}" "of_node (Some n) = {#rhandler n#}"
  "of_completion (Handle_reply i ok) = {#}" "of_completion (Abort_request r) = of_node r"
  by (simp_all add: of_node_def of_completion_def)

definition in_session :: "session \<Rightarrow> nat multiset" where
  "in_session s = fmc.held of_node (requests s) + spread of_completion (completions s) + mset (map fst (called s))"

definition in_threads :: "sys \<Rightarrow> nat multiset" where
  "in_threads y = spread (\<lambda>(_, _, n). {#rhandler n#}) (replying y) + mset (aborting y) + mset (refused y) + mset (collided y)"

definition conserved :: "sys \<Rightarrow> bool" where
  "conserved y \<longleftrightarrow> mset (issued y) = in_session (sess y) + in_threads y"

lemma held_nil [simp]: "fmc.held w [] = {#}"
  by (simp add: fmc.held_def)

lemma spread_aborts: "spread of_completion (map (\<lambda>(_, req). Abort_request req) m) = fmc.held of_node m"
  by (induction m) (auto simp: fmc.held_def)

lemma of_live: "mset (live_handlers i s) = (case lookup_request i s of None \<Rightarrow> {#} | Some r \<Rightarrow> of_node r)"
  by (simp add: live_handlers_def split: option.splits)

definition table_ok :: "session \<Rightarrow> bool" where
  "table_ok s \<longleftrightarrow> fm_sorted std_less (requests s) \<and> request_enabled s"

lemma remove_nil [simp]: "fm_remove std_less i [] = []"
  by (simp add: fm_remove_def fm_erase_def fm_find_def fm_lower_bound_def bisect.simps)

text \<open>What a step does to the parts that matter here: it keeps them all, or it expires the session.\<close>

definition same_handlers :: "session \<Rightarrow> session \<Rightarrow> bool" where
  "same_handlers s s' \<longleftrightarrow> requests s' = requests s \<and> request_enabled s' = request_enabled s \<and> idgen s' = idgen s
     \<and> called s' = called s \<and> expired s' = expired s \<and> spread of_completion (completions s') = spread of_completion (completions s)"

definition expires :: "session \<Rightarrow> session \<Rightarrow> bool" where
  "expires s s' \<longleftrightarrow> requests s' = [] \<and> request_enabled s' = request_enabled s \<and> idgen s' = idgen s \<and> called s' = called s
     \<and> expired s' \<and> spread of_completion (completions s') = spread of_completion (completions s) + fmc.held of_node (requests s)"

lemma same_handlers_refl [simp]: "same_handlers s s"
  by (simp add: same_handlers_def)

lemma set_expired_cases: "request_enabled s \<Longrightarrow>
    if expired s then same_handlers s (snd (set_expired b s)) else expires s (snd (set_expired b s))"
  by (auto simp: set_expired_def Let_def same_handlers_def expires_def spread_aborts)

lemma same_expires: "same_handlers s t \<Longrightarrow> expires t s' \<Longrightarrow> expires s s'"
  by (simp add: same_handlers_def expires_def)

lemma same_trans: "same_handlers s t \<Longrightarrow> same_handlers t s' \<Longrightarrow> same_handlers s s'"
  by (simp add: same_handlers_def)

lemma expires_same: "expires s t \<Longrightarrow> same_handlers t s' \<Longrightarrow> expires s s'"
  by (auto simp: same_handlers_def expires_def)

lemma same_ok: "same_handlers s s' \<Longrightarrow> table_ok s \<Longrightarrow> table_ok s' \<and> in_session s' = in_session s"
  by (simp add: same_handlers_def table_ok_def in_session_def)

lemma expires_ok: "expires s s' \<Longrightarrow> table_ok s \<Longrightarrow> table_ok s' \<and> in_session s' = in_session s"
  by (simp add: expires_def table_ok_def in_session_def fm_sorted_def)

lemma either_ok: "same_handlers s s' \<or> expires s s' \<Longrightarrow> table_ok s \<Longrightarrow> table_ok s' \<and> in_session s' = in_session s"
  using same_ok expires_ok by blast

lemma register_ok:
  assumes "table_ok s" "register h buf s = (i, s')"
  shows "table_ok s'" "in_session s' = (if lookup_request i s = None then {#h#} else {#}) + in_session s"
  using assms by (auto simp: register_def table_ok_def Let_def in_session_def fm.valid_put fmc.held_put ac_simps)

lemma auto_flush_same: "same_handlers s (auto_flush s)"
  by (simp add: auto_flush_def same_handlers_def)

lemma prot_same: "same_handlers s (s\<lparr>prot := p\<rparr>)"
  by (simp add: same_handlers_def)

lemma transmit_cases:
  assumes "request_enabled s" "transmit i m ps s = (ok, s')"
  shows "if expired s then \<not> ok \<and> s' = s\<lparr>requests := fm_remove std_less i (requests s)\<rparr>
    else if ok then same_handlers s s' else expires s s'"
proof (cases "expired s")
  case False
  obtain sent' p where sr: "send_request m i ps (prot s) = (sent', p)" by fastforce
  let ?t = "s\<lparr>prot := p\<rparr>"
  have e: "expires s (snd (set_expired True ?t))"
    using set_expired_cases [of ?t True] assms(1) False same_expires [OF prot_same] by simp
  show ?thesis
  proof (cases sent')
    case True
    then have "ok" "s' = auto_flush ?t" using assms False sr by (auto simp: transmit_def)
    then show ?thesis using same_trans [OF prot_same auto_flush_same] False by simp
  next
    case f: False
    then have "\<not> ok" "s' = (snd (set_expired True ?t))\<lparr>requests := fm_remove std_less i (requests (snd (set_expired True ?t)))\<rparr>"
      using assms False sr e by (auto simp: transmit_def Let_def expires_def)
    then show ?thesis using e False by (simp add: expires_def)
  qed
qed (use assms in \<open>auto simp: transmit_def\<close>)

lemma transmit_ok:
  assumes "table_ok s" "transmit i m ps s = (ok, s')"
  shows "table_ok s'" "in_session s = (if expired s then mset (live_handlers i s) else {#}) + in_session s'"
proof -
  have r: "request_enabled s" using assms(1) by (simp add: table_ok_def)
  note c = transmit_cases [OF r assms(2)]
  have "table_ok s' \<and> in_session s = (if expired s then mset (live_handlers i s) else {#}) + in_session s'"
  proof (cases "expired s")
    case True
    then have s': "s' = s\<lparr>requests := fm_remove std_less i (requests s)\<rparr>" using c by simp
    have v: "fm_sorted std_less (requests s)" using assms(1) by (simp add: table_ok_def)
    have "fmc.held of_node (requests s) = mset (live_handlers i s) + fmc.held of_node (requests s')"
      using fmc.held_remove [OF v, of of_node i] unfolding of_live s' by simp
    moreover have "completions s' = completions s" "called s' = called s" by (simp_all add: s')
    ultimately have "in_session s = mset (live_handlers i s) + in_session s'"
      by (simp only: in_session_def add.assoc)
    moreover have "table_ok s'" using r fm.valid_remove [OF v] by (simp add: table_ok_def s')
    ultimately show ?thesis using True by simp
  next
    case False
    then have "same_handlers s s' \<or> expires s s'" using c by (cases ok) simp_all
    then have "table_ok s' \<and> in_session s' = in_session s"
      using same_ok [OF _ assms(1)] expires_ok [OF _ assms(1)] by metis
    with False show ?thesis by simp
  qed
  then show "table_ok s'" "in_session s = (if expired s then mset (live_handlers i s) else {#}) + in_session s'" by simp_all
qed

lemma notify_cases:
  assumes "request_enabled s"
  shows "same_handlers s (snd (notify m ps s)) \<or> expires s (snd (notify m ps s))"
proof (cases "expired s")
  case False
  obtain ok p where sn: "send_notify m ps (prot s) = (ok, p)" by fastforce
  let ?t = "s\<lparr>prot := p\<rparr>"
  have "expires s (snd (set_expired True ?t))"
    using set_expired_cases [of ?t True] assms(1) False same_expires [OF prot_same] by simp
  moreover have "same_handlers s (auto_flush ?t)" by (rule same_trans [OF prot_same auto_flush_same])
  moreover have "snd (notify m ps s) = (if ok then auto_flush ?t else snd (set_expired True ?t))"
    using False sn by (simp add: notify_def Let_def)
  ultimately show ?thesis by simp
qed (simp add: notify_def)

lemma close_cases: "request_enabled s \<Longrightarrow> same_handlers s (snd (close_session s)) \<or> expires s (snd (close_session s))"
proof -
  assume r: "request_enabled s"
  have t: "same_handlers s (s\<lparr>conn_closed := True\<rparr>)" by (simp add: same_handlers_def)
    then have "\<not> expired s \<Longrightarrow> expires s (snd (set_expired True (s\<lparr>conn_closed := True\<rparr>)))"
      using set_expired_cases [of "s\<lparr>conn_closed := True\<rparr>" True] same_expires r by simp
    with t show ?thesis by (simp add: close_session_def Let_def)
qed

lemma callback_same: "same_handlers s (run_callback invoke cb (s\<lparr>callbacks := cbs\<rparr>))"
proof (cases cb)
  case (Call_request i m ps)
  then show ?thesis by (cases "invoke m ps") (simp_all add: run_callback_def same_handlers_def Let_def)
next
  case (Call_notify m ps)
  then show ?thesis by (cases "invoke m ps") (simp_all add: run_callback_def same_handlers_def)
qed

lemma other_same:
  "same_handlers s (session_flush s)" "same_handlers s (autoflush b s)" "same_handlers s (begin_wait i s)"
  by (simp_all add: same_handlers_def session_flush_def autoflush_def begin_wait_def)

lemma receive_result_same: "handle_receive_result px s = Some s' \<Longrightarrow> same_handlers s s'"
  by (auto simp: handle_receive_result_def same_handlers_def split: proxy_type.splits option.splits prod.splits if_splits)

lemma start_same: "same_handlers s (resume_receive s)"
  by (simp add: resume_receive_def same_handlers_def)

lemma receive_cases:
  assumes "request_enabled s" "receive dump c s = Some s'"
  shows "same_handlers s s' \<or> expires s s'"
proof -
  let ?t = "s\<lparr>receiving := False\<rparr>"
  obtain ost p where h: "handle_single_message (svc ?t) (reply_slots ?t) dump c ((prot ?t)\<lparr>prox := proxy_new\<rparr>) = (ost, p)" by fastforce
  have t: "same_handlers s ?t" "same_handlers s (?t\<lparr>prot := p\<rparr>)" by (simp_all add: same_handlers_def)
  show ?thesis
  proof (cases "expired s")
    case True
    then show ?thesis using assms(2) t(1) by (auto simp: receive_def split: if_splits)
  next
    case False
    obtain st where st: "ost = Some st" using assms(2) False h by (cases ost) (auto simp: receive_def Let_def split: if_splits)
    consider "st = Expired" "s' = snd (set_expired True (?t\<lparr>prot := p\<rparr>))"
      | u where "handle_receive_result (prox p) (?t\<lparr>prot := p\<rparr>) = Some u" "s' = resume_receive u"
      | "s' = resume_receive (?t\<lparr>prot := p, monitor := monitor ?t @ [Receive_warning st]\<rparr>)"
      using assms(2) False h st by (cases st) (auto simp: receive_def Let_def split: if_splits)
    then show ?thesis
    proof cases
      case 1
      then show ?thesis using set_expired_cases [of "?t\<lparr>prot := p\<rparr>" True] assms(1) False same_expires [OF t(2)] by simp
    next
      case 2
      then show ?thesis using same_trans [OF same_trans [OF t(2) receive_result_same] start_same] by blast
    next
      case 3
      then show ?thesis by (simp add: resume_receive_def same_handlers_def)
    qed
  qed
qed

text \<open>The parts of \<open>abort_request\<close> and \<open>_handle_reply\<close>.\<close>

lemma notify_all_frame [simp]:
  "requests (notify_all s) = requests s" "completions (notify_all s) = completions s" "called (notify_all s) = called s"
  "request_enabled (notify_all s) = request_enabled s" "idgen (notify_all s) = idgen s" "expired (notify_all s) = expired s"
  by (simp_all add: notify_all_def)

lemma removed_ok:
  assumes "table_ok s" "requests s' = fm_remove std_less i (requests s)" "request_enabled s' = request_enabled s"
    "completions s' = completions s" "called s' = called s"
  shows "table_ok s'" "in_session s = mset (live_handlers i s) + in_session s'"
proof -
  have v: "fm_sorted std_less (requests s)" using assms(1) by (simp add: table_ok_def)
  show "table_ok s'" using assms(1,3) fm.valid_remove [OF v] by (simp add: table_ok_def assms(2))
  have "fmc.held of_node (requests s) = mset (live_handlers i s) + fmc.held of_node (requests s')"
    using fmc.held_remove [OF v, of of_node i] unfolding of_live assms(2) by simp
  then show "in_session s = mset (live_handlers i s) + in_session s'"
    using assms(4,5) by (simp only: in_session_def add.assoc)
qed

lemma abort_take_ok:
  assumes "table_ok s" "abort_take i s = (Some h, s')"
  shows "table_ok s'" "in_session s = {#h#} + in_session s'"
proof -
  obtain n where n: "lookup_request i s = Some (Some n)" "h = rhandler n" "s' = s\<lparr>requests := fm_remove std_less i (requests s)\<rparr>"
    using assms(2) by (auto simp: abort_take_def split: option.splits)
  note r = removed_ok [OF assms(1), of s' i]
  show "table_ok s'" "in_session s = {#h#} + in_session s'" using r n by (simp_all add: live_handlers_def)
qed

lemma abort_finish_ok:
  assumes "table_ok s"
  shows "table_ok (abort_finish h s)" "in_session (abort_finish h s) = {#h#} + in_session s"
  using assms by (simp_all add: abort_finish_def call_handler_def table_ok_def in_session_def)

lemma reply_call_ok:
  assumes "table_ok s"
  shows "table_ok (reply_call i ok n s)" "in_session (reply_call i ok n s) = {#rhandler n#} + in_session s"
  using assms by (simp_all add: reply_call_def call_handler_def table_ok_def in_session_def)

lemma reply_finish_ok:
  assumes "table_ok s"
  shows "table_ok (reply_finish i s)" "in_session s = mset (live_handlers i s) + in_session (reply_finish i s)"
  using removed_ok [OF assms, of "reply_finish i s" i] by (simp_all add: reply_finish_def)

lemma reply_take_ok:
  assumes "table_ok s" "reply_take i s = (r, s')"
  shows "table_ok s'" "in_session s = of_node r + in_session s'" "completions s' = completions s"
proof -
  have v: "fm_sorted std_less (requests s)" using assms(1) by (simp add: table_ok_def)
  have "table_ok s' \<and> in_session s = of_node r + in_session s' \<and> completions s' = completions s"
  proof (cases "lookup_request i s")
    case None
    then show ?thesis using assms by (auto simp: reply_take_def)
  next
    case (Some r')
    then have s': "r = r'" "s' = s\<lparr>requests := fm_modify std_less i (\<lambda>_. None) (requests s)\<rparr>"
      using assms(2) by (simp_all add: reply_take_def)
    have "fmc.held of_node (requests s) = of_node r + fmc.held of_node (requests s')"
      using fmc.held_modify [OF v Some, of of_node "\<lambda>_. None"] s' by simp
    moreover have "completions s' = completions s" "called s' = called s" using s' by simp_all
    ultimately have "in_session s = of_node r + in_session s'" by (simp only: in_session_def add.assoc)
    then show ?thesis using assms(1) s' fm.valid_modify [OF v] by (simp add: table_ok_def)
  qed
  then show "table_ok s'" "in_session s = of_node r + in_session s'" "completions s' = completions s" by simp_all
qed

lemma taken_completion:
  assumes "x \<in> set (completions s)"
  shows "in_session s = of_completion x + in_session (s\<lparr>completions := remove1 x (completions s)\<rparr>)"
  using spread_remove1 [OF assms, of of_completion] by (simp add: in_session_def)

lemma unchanged_ok: "table_ok (s\<lparr>completions := cs\<rparr>) = table_ok s" "table_ok (s\<lparr>prot := p\<rparr>) = table_ok s"
  by (simp_all add: table_ok_def)

section \<open>The invariants\<close>

lemma conservedI:
  assumes "conserved y" "table_ok (sess y')" "mset (issued y') = new + mset (issued y)"
    "in_session (sess y') + in_threads y' = new + (in_session (sess y) + in_threads y)"
  shows "table_ok (sess y') \<and> conserved y'"
  using assms by (simp only: conserved_def)

lemma conserved_sess:
  assumes "conserved y" "table_ok (sess y)" "same_handlers (sess y) s \<or> expires (sess y) s"
  shows "table_ok (sess (y\<lparr>sess := s\<rparr>)) \<and> conserved (y\<lparr>sess := s\<rparr>)"
  using either_ok [OF assms(3,2)] assms(1) by (simp add: conserved_def in_threads_def)

lemma step_conserves:
  assumes "step dump c invoke y y'" "table_ok (sess y)" "conserved y"
  shows "table_ok (sess y') \<and> conserved y'"
  using assms(1)
proof (cases rule: step.cases)
  case (Issue h buf i s m ps)
  show ?thesis unfolding Issue(1)
    by (rule conservedI [OF assms(3), of _ "{#h#}"])
      (use register_ok [OF assms(2) Issue(2)] in \<open>simp_all add: in_threads_def\<close>)
next
  case (Transmit i h m ps ok s)
  show ?thesis unfolding Transmit(1)
    by (rule conservedI [OF assms(3), of _ "{#}"])
      (use transmit_ok [OF assms(2) Transmit(3)] in \<open>simp_all add: in_threads_def\<close>)
next
  case (Reply_take i ok r s)
  have t: "table_ok ((sess y)\<lparr>completions := remove1 (Handle_reply i ok) (completions (sess y))\<rparr>)"
    using assms(2) by (simp add: unchanged_ok)
  have "in_session (sess y) = of_node r + in_session s"
    using taken_completion [OF Reply_take(2)] reply_take_ok(2) [OF t Reply_take(3)] by simp
  then show ?thesis unfolding Reply_take(1)
    by (intro conservedI [OF assms(3), of _ "{#}"])
      (use reply_take_ok(1) [OF t Reply_take(3)] in \<open>simp_all add: in_threads_def split: option.splits\<close>)
next
  case (Reply_call i ok n)
  show ?thesis unfolding Reply_call(1)
    by (rule conservedI [OF assms(3), of _ "{#}"])
      (use reply_call_ok [OF assms(2), of i ok n] spread_remove1 [OF Reply_call(2), of "\<lambda>(_, _, n). {#rhandler n#}"]
        in \<open>simp_all add: in_threads_def\<close>)
next
  case (Reply_finish i)
  show ?thesis unfolding Reply_finish(1)
    by (rule conservedI [OF assms(3), of _ "{#}"])
      (use reply_finish_ok [OF assms(2), of i] in \<open>simp_all add: in_threads_def\<close>)
next
  case (Abort_take i h s)
  show ?thesis unfolding Abort_take(1)
    by (rule conservedI [OF assms(3), of _ "{#}"])
      (use abort_take_ok [OF assms(2) Abort_take(2)] in \<open>simp_all add: in_threads_def\<close>)
next
  case (Abort_finish h)
  show ?thesis unfolding Abort_finish(1)
    by (rule conservedI [OF assms(3), of _ "{#}"])
      (use abort_finish_ok [OF assms(2), of h] Abort_finish(2) in \<open>simp_all add: in_threads_def\<close>)
next
  case (Run_abort r s)
  let ?t = "(sess y)\<lparr>completions := remove1 (Abort_request r) (completions (sess y))\<rparr>"
  obtain n where n: "r = Some n" "s = call_handler (rhandler n) Aborted ?t"
    using Run_abort(3) by (auto simp: run_abort_def split: option.splits)
  have "in_session s = {#rhandler n#} + in_session ?t" by (simp add: n in_session_def call_handler_def)
  then have "in_session s = in_session (sess y)" using taken_completion [OF Run_abort(2)] n(1) by simp
  moreover have "table_ok s" using assms(2) by (simp add: n(2) table_ok_def call_handler_def)
  ultimately show ?thesis using assms(3) by (simp add: Run_abort(1) conserved_def in_threads_def)
next
  case Close
  show ?thesis unfolding Close(1)
    by (rule conserved_sess [OF assms(3,2)]) (use close_cases assms(2) table_ok_def in blast)
next
  case (Receive s)
  show ?thesis unfolding Receive(1)
    by (rule conserved_sess [OF assms(3,2)]) (use receive_cases [OF _ Receive(2)] assms(2) table_ok_def in blast)
next
  case (Callback cb)
  show ?thesis unfolding Callback(1) by (rule conserved_sess [OF assms(3,2)]) (simp add: callback_same)
next
  case (Notify m ps)
  show ?thesis unfolding Notify(1)
    by (rule conserved_sess [OF assms(3,2)]) (use notify_cases assms(2) table_ok_def in blast)
next
  case (Data r)
  show ?thesis unfolding Data(1) by (rule conserved_sess [OF assms(3,2)]) (simp add: prot_same)
qed (simp_all only:, (rule conserved_sess [OF assms(3,2)], simp add: other_same)+)

text \<open>What the table loses: entries, or requests that are taken out of their entry.\<close>

definition shrinks :: "session \<Rightarrow> session \<Rightarrow> bool" where
  "shrinks s s' \<longleftrightarrow> idgen s' = idgen s \<and> (expired s' \<longrightarrow> expired s \<or> requests s' = [])
     \<and> (\<forall>i. lookup_request i s' = lookup_request i s \<or> lookup_request i s' = None
        \<or> lookup_request i s \<noteq> None \<and> lookup_request i s' = Some None)"

lemma lookup_nil [simp]: "fm_lookup std_less i [] = None"
  by (simp add: fm_lookup_def fm_find_def fm_lower_bound_def bisect.simps)

lemma same_shrinks: "same_handlers s s' \<or> expires s s' \<Longrightarrow> shrinks s s'"
  by (auto simp: same_handlers_def expires_def shrinks_def)

lemma removed_shrinks:
  assumes "table_ok s" "requests s' = fm_remove std_less i (requests s)" "idgen s' = idgen s" "expired s' = expired s"
  shows "shrinks s s'"
  using assms by (simp add: shrinks_def table_ok_def fm.lookup_remove)

definition ids_fresh :: "sys \<Rightarrow> bool" where
  "ids_fresh y \<longleftrightarrow> (int (length (issued y)) < int_max \<longrightarrow> idgen (sess y) = int (length (issued y)) \<and> collided y = []
     \<and> (\<forall>i. lookup_request i (sess y) \<noteq> None \<longrightarrow> i \<le> idgen (sess y))
     \<and> (\<forall>i \<in> fst ` set (replying y) \<union> set (finishing y). i \<le> idgen (sess y) \<and> live_handlers i (sess y) = []))"

definition expired_empty :: "sys \<Rightarrow> bool" where
  "expired_empty y \<longleftrightarrow> (expired (sess y) \<longrightarrow> (\<forall>i. live_handlers i (sess y) \<noteq> [] \<longrightarrow> i \<in> fst ` set (sending y)))"

lemma shrinks_live: "shrinks s s' \<Longrightarrow> live_handlers i s = [] \<Longrightarrow> live_handlers i s' = []"
  unfolding shrinks_def live_handlers_def by (auto split: option.splits) (metis option.distinct(1) option.inject)+

lemma shrinks_lookup: "shrinks s s' \<Longrightarrow> lookup_request i s' \<noteq> None \<Longrightarrow> lookup_request i s \<noteq> None"
  unfolding shrinks_def by metis

lemma fresh_step:
  assumes "ids_fresh y" "shrinks (sess y) (sess y')" "issued y' = issued y"
    and "int (length (issued y)) < int_max \<Longrightarrow> collided y' = collided y"
    and "\<And>i. i \<in> fst ` set (replying y') \<union> set (finishing y') \<Longrightarrow>
      i \<in> fst ` set (replying y) \<union> set (finishing y) \<or> lookup_request i (sess y) \<noteq> None \<and> live_handlers i (sess y') = []"
  shows "ids_fresh y'"
  unfolding ids_fresh_def
proof (intro impI conjI allI ballI)
  assume n: "int (length (issued y')) < int_max"
  then have "int (length (issued y)) < int_max" using assms(3) by simp
  then have big: "idgen (sess y) = int (length (issued y)) \<and> collided y = []
     \<and> (\<forall>i. lookup_request i (sess y) \<noteq> None \<longrightarrow> i \<le> idgen (sess y))
     \<and> (\<forall>i \<in> fst ` set (replying y) \<union> set (finishing y). i \<le> idgen (sess y) \<and> live_handlers i (sess y) = [])"
    using assms(1) unfolding ids_fresh_def by blast
  then have f: "idgen (sess y) = int (length (issued y))" "collided y = []"
    "\<And>i. lookup_request i (sess y) \<noteq> None \<Longrightarrow> i \<le> idgen (sess y)"
    "\<And>i. i \<in> fst ` set (replying y) \<union> set (finishing y) \<Longrightarrow> i \<le> idgen (sess y) \<and> live_handlers i (sess y) = []"
    by blast+
  have g: "idgen (sess y') = idgen (sess y)" using assms(2) by (simp add: shrinks_def)
  show "idgen (sess y') = int (length (issued y'))" using f(1) g assms(3) by simp
  show "collided y' = []" using f(2) assms(3,4) n by simp
  show "i \<le> idgen (sess y')" if "lookup_request i (sess y') \<noteq> None" for i
    using f(3) [OF shrinks_lookup [OF assms(2) that]] g by simp
  show "i \<le> idgen (sess y')" "live_handlers i (sess y') = []" if "i \<in> fst ` set (replying y') \<union> set (finishing y')" for i
    using assms(5) [OF that] f(3,4) shrinks_live [OF assms(2)] g by metis+
qed

lemma expired_step:
  assumes "expired_empty y" "shrinks (sess y) (sess y')"
    and "\<And>i. expired (sess y) \<Longrightarrow> i \<in> fst ` set (sending y) \<Longrightarrow> live_handlers i (sess y') \<noteq> [] \<Longrightarrow> i \<in> fst ` set (sending y')"
  shows "expired_empty y'"
proof (cases "expired (sess y)")
  case True
  then show ?thesis using assms shrinks_live [OF assms(2)] by (metis expired_empty_def)
next
  case False
  then have "expired (sess y') \<Longrightarrow> requests (sess y') = []" using assms(2) by (simp add: shrinks_def)
  then show ?thesis by (auto simp: expired_empty_def live_handlers_def)
qed

lemma fresh_other:
  assumes "ids_fresh y \<and> expired_empty y" "shrinks (sess y) (sess y')" "issued y' = issued y" "sending y' = sending y"
    and "int (length (issued y)) < int_max \<Longrightarrow> collided y' = collided y"
    and "\<And>i. i \<in> fst ` set (replying y') \<union> set (finishing y') \<Longrightarrow>
      i \<in> fst ` set (replying y) \<union> set (finishing y) \<or> lookup_request i (sess y) \<noteq> None \<and> live_handlers i (sess y') = []"
  shows "ids_fresh y' \<and> expired_empty y'"
  using fresh_step [OF conjunct1 [OF assms(1)] assms(2,3,5,6)] expired_step [OF conjunct2 [OF assms(1)] assms(2)] assms(4) by simp

lemma fresh_same:
  assumes "ids_fresh y \<and> expired_empty y" "same_handlers (sess y) s \<or> expires (sess y) s"
  shows "ids_fresh (y\<lparr>sess := s\<rparr>) \<and> expired_empty (y\<lparr>sess := s\<rparr>)"
  by (rule fresh_other [OF assms(1)]) (use same_shrinks [OF assms(2)] in simp_all)

lemma issue_fresh:
  fixes m :: "byte list" and ps :: "val list"
  assumes "table_ok (sess y)" "ids_fresh y \<and> expired_empty y" "register h buf (sess y) = (i, s)"
  defines "y' \<equiv> y\<lparr>sess := s, sending := (i, h, m, ps) # sending y, issued := h # issued y,
       collided := (if lookup_request i (sess y) = None then [] else [h]) @ collided y\<rparr>"
  shows "ids_fresh y' \<and> expired_empty y'"
proof -
  have v: "fm_sorted std_less (requests (sess y))" using assms(1) by (simp add: table_ok_def)
  have i: "i = idgen (sess y) + 1" and s: "s = (sess y)\<lparr>idgen := if i = int_max then 0 else i,
      requests := fm_put std_less i (Some \<lparr>rhandler = h, rbuffer = buf\<rparr>) (requests (sess y))\<rparr>"
    using assms(3) unfolding register_def Let_def by auto
  have l: "lookup_request j s = (if j = i \<and> lookup_request i (sess y) = None then Some (Some \<lparr>rhandler = h, rbuffer = buf\<rparr>)
      else lookup_request j (sess y))" for j by (simp add: s fm.lookup_put [OF v])
  have lv: "j \<noteq> i \<Longrightarrow> live_handlers j s = live_handlers j (sess y)" for j by (simp add: live_handlers_def l)
  have "ids_fresh y'" unfolding ids_fresh_def
  proof
    assume n: "int (length (issued y')) < int_max"
    then have "int (length (issued y)) < int_max" by (simp add: y'_def)
    then have f: "idgen (sess y) = int (length (issued y)) \<and> collided y = []
     \<and> (\<forall>i. lookup_request i (sess y) \<noteq> None \<longrightarrow> i \<le> idgen (sess y))
     \<and> (\<forall>i \<in> fst ` set (replying y) \<union> set (finishing y). i \<le> idgen (sess y) \<and> live_handlers i (sess y) = [])"
      using assms(2) unfolding ids_fresh_def by blast
    have "\<not> i \<le> idgen (sess y)" using i by simp
    then have new: "lookup_request i (sess y) = None" using f by blast
    have g: "idgen s = i" "i = int (length (issued y'))" using n f i s by (simp_all add: y'_def)
    have old: "j \<le> i \<and> live_handlers j s = []" if "j \<in> fst ` set (replying y) \<union> set (finishing y)" for j
    proof -
      have "j \<le> idgen (sess y)" "live_handlers j (sess y) = []" using f that by blast+
      with lv [of j] i show ?thesis by simp
    qed
    have tab: "j \<le> i" if "lookup_request j s \<noteq> None" for j
    proof (cases "j = i")
      case False
      then have "lookup_request j (sess y) \<noteq> None" using that l [of j] by simp
      then have "j \<le> idgen (sess y)" using f by blast
      with i show ?thesis by simp
    qed simp
    have "collided y = []" using f by blast
    then have eqs: "sess y' = s" "collided y' = []" "replying y' = replying y" "finishing y' = finishing y"
      using new by (simp_all add: y'_def)
    show "idgen (sess y') = int (length (issued y')) \<and> collided y' = []
     \<and> (\<forall>i. lookup_request i (sess y') \<noteq> None \<longrightarrow> i \<le> idgen (sess y'))
     \<and> (\<forall>i \<in> fst ` set (replying y') \<union> set (finishing y'). i \<le> idgen (sess y') \<and> live_handlers i (sess y') = [])"
      unfolding eqs g(1) using g(2) old tab by blast
  qed
  moreover have "expired_empty y'"
    using assms(2) lv by (auto simp: expired_empty_def y'_def s)
  ultimately show ?thesis by simp
qed

lemma step_fresh:
  assumes "step dump c invoke y y'" "table_ok (sess y)" "ids_fresh y \<and> expired_empty y"
  shows "ids_fresh y' \<and> expired_empty y'"
  using assms(1)
proof (cases rule: step.cases)
  case (Issue h buf i s m ps)
  then show ?thesis using issue_fresh [OF assms(2,3)] by simp
next
  case (Transmit i h m ps ok s)
  have r: "request_enabled (sess y)" using assms(2) by (simp add: table_ok_def)
  note c = transmit_cases [OF r Transmit(3)]
  have sh: "shrinks (sess y) s"
  proof (cases "expired (sess y)")
    case True
    then show ?thesis using c by (intro removed_shrinks [OF assms(2)]) simp_all
  next
    case False
    then show ?thesis using c same_shrinks by (cases ok) simp_all
  qed
  have gone: "live_handlers i s = []" if "expired (sess y)"
    using c that assms(2) by (simp add: live_handlers_def table_ok_def fm.lookup_remove)
  show ?thesis unfolding Transmit(1)
  proof
    show "ids_fresh (y\<lparr>sess := s, sending := remove1 (i, h, m, ps) (sending y),
       refused := (if expired (sess y) then live_handlers i (sess y) else []) @ refused y\<rparr>)"
      by (rule fresh_step [OF conjunct1 [OF assms(3)]]) (use sh in simp_all)
    show "expired_empty (y\<lparr>sess := s, sending := remove1 (i, h, m, ps) (sending y),
       refused := (if expired (sess y) then live_handlers i (sess y) else []) @ refused y\<rparr>)"
    proof (rule expired_step [OF conjunct2 [OF assms(3)]])
      fix j assume "expired (sess y)" "j \<in> fst ` set (sending y)" and l: "live_handlers j (sess (y\<lparr>sess := s, sending := remove1 (i, h, m, ps) (sending y),
       refused := (if expired (sess y) then live_handlers i (sess y) else []) @ refused y\<rparr>)) \<noteq> []"
      then obtain x where x: "x \<in> set (sending y)" "fst x = j" "j \<noteq> i" using gone by auto
      then have "x \<in> set (remove1 (i, h, m, ps) (sending y))" by (subst in_set_remove1) auto
      with x show "j \<in> fst ` set (sending (y\<lparr>sess := s, sending := remove1 (i, h, m, ps) (sending y),
       refused := (if expired (sess y) then live_handlers i (sess y) else []) @ refused y\<rparr>))" by auto
    qed (use sh in simp)
  qed
next
  case (Reply_take i ok r s)
  have v: "fm_sorted std_less (requests (sess y))" using assms(2) by (simp add: table_ok_def)
  have "shrinks (sess y) s \<and> (r \<noteq> None \<longrightarrow> lookup_request i (sess y) \<noteq> None \<and> live_handlers i s = [])"
  proof (cases "lookup_request i (sess y)")
    case None
    then show ?thesis using Reply_take(3) by (auto simp: reply_take_def shrinks_def)
  next
    case (Some r')
    then have "requests s = fm_modify std_less i (\<lambda>_. None) (requests (sess y))" "idgen s = idgen (sess y)" "expired s = expired (sess y)"
      using Reply_take(3) by (auto simp: reply_take_def)
    moreover from this(1) have "lookup_request j s = (if j = i then Some None else lookup_request j (sess y))" for j
      using Some by (simp add: fm.lookup_modify [OF v])
    ultimately show ?thesis using Some by (simp add: shrinks_def live_handlers_def)
  qed
  then have sh: "shrinks (sess y) s" and lk: "r \<noteq> None \<Longrightarrow> lookup_request i (sess y) \<noteq> None \<and> live_handlers i s = []" by blast+
  show ?thesis unfolding Reply_take(1)
    by (rule fresh_other [OF assms(3)]) (use sh lk in \<open>auto split: option.splits\<close>)
next
  case (Reply_call i ok n)
  have sh: "shrinks (sess y) (reply_call i ok n (sess y))" by (simp add: shrinks_def reply_call_def call_handler_def)
  show ?thesis unfolding Reply_call(1)
    by (rule fresh_other [OF assms(3)]) (use sh Reply_call(2) in \<open>auto dest: set_mp [OF set_remove1_subset] simp: rev_image_eqI\<close>)
next
  case (Reply_finish i)
  have sh: "shrinks (sess y) (reply_finish i (sess y))"
    by (rule removed_shrinks [OF assms(2)]) (simp_all add: reply_finish_def)
  have l: "int (length (issued y)) < int_max \<Longrightarrow> live_handlers i (sess y) = []"
    using conjunct1 [OF assms(3)] Reply_finish(2) by (simp add: ids_fresh_def)
  show ?thesis unfolding Reply_finish(1)
    by (rule fresh_other [OF assms(3)]) (use sh l in \<open>auto dest: set_mp [OF set_remove1_subset]\<close>)
next
  case (Abort_take i h s)
  have sh: "shrinks (sess y) s"
    using Abort_take(2) by (intro removed_shrinks [OF assms(2)]) (auto simp: abort_take_def split: option.splits)
  show ?thesis unfolding Abort_take(1) by (rule fresh_other [OF assms(3)]) (use sh in simp_all)
next
  case (Abort_finish h)
  have sh: "shrinks (sess y) (abort_finish h (sess y))" by (simp add: shrinks_def abort_finish_def call_handler_def)
  show ?thesis unfolding Abort_finish(1) by (rule fresh_other [OF assms(3)]) (use sh in simp_all)
next
  case (Run_abort r s)
  have sh: "shrinks (sess y) s"
    using Run_abort(3) by (auto simp: run_abort_def shrinks_def call_handler_def split: option.splits)
  show ?thesis unfolding Run_abort(1) by (rule fresh_other [OF assms(3)]) (use sh in simp_all)
next
  case Close
  show ?thesis unfolding Close(1)
    by (rule fresh_same [OF assms(3)]) (use close_cases assms(2) table_ok_def in blast)
next
  case (Receive s)
  show ?thesis unfolding Receive(1)
    by (rule fresh_same [OF assms(3)]) (use receive_cases [OF _ Receive(2)] assms(2) table_ok_def in blast)
next
  case (Callback cb)
  show ?thesis unfolding Callback(1) by (rule fresh_same [OF assms(3)]) (simp add: callback_same)
next
  case (Notify m ps)
  show ?thesis unfolding Notify(1)
    by (rule fresh_same [OF assms(3)]) (use notify_cases assms(2) table_ok_def in blast)
next
  case (Data r)
  show ?thesis unfolding Data(1) by (rule fresh_same [OF assms(3)]) (simp add: prot_same)
qed (simp_all only:, (rule fresh_same [OF assms(3)], simp add: other_same)+)

lemma run_invariants:
  assumes "run dump c invoke (sys_new sv p) y"
  shows "table_ok (sess y) \<and> conserved y \<and> ids_fresh y \<and> expired_empty y"
  using assms
proof induction
  case base
  show ?case
    by (simp add: sys_new_def session_new_def table_ok_def fm_sorted_def conserved_def in_session_def in_threads_def
        ids_fresh_def expired_empty_def live_handlers_def)
next
  case (step y y')
  then show ?case using step_conserves step_fresh by blast
qed

section \<open>Messages of the peer\<close>

text \<open>The connection appends the bytes of the peer to what the reader has not read.\<close>

definition feed :: "byte list \<Rightarrow> session \<Rightarrow> session" where
  "feed bs s = s\<lparr>prot := (prot s)\<lparr>rd := (rd (prot s))\<lparr>input := input (rd (prot s)) @ bs\<rparr>\<rparr>\<rparr>"

text \<open>A session between two messages.\<close>

definition between :: "session \<Rightarrow> bool" where
  "between s \<longleftrightarrow> receiving s \<and> \<not> expired s \<and> input (rd (prot s)) = [] \<and> scopes (rd (prot s)) = [] \<and> wscopes (wr (prot s)) = []"

lemma feed_idle:
  assumes "between s"
  shows "(prot (feed bs s))\<lparr>prox := proxy_new\<rparr> = (prot s)\<lparr>rd := at bs [] (rd (prot s)), prox := proxy_new\<rparr>"
  using assms by (simp add: feed_def between_def at_def)

lemma feed_frame [simp]:
  "requests (feed bs s) = requests s" "expired (feed bs s) = expired s" "receiving (feed bs s) = receiving s" "svc (feed bs s) = svc s"
  "request_enabled (feed bs s) = request_enabled s" "reply_slots (feed bs s) = reply_slots s" "completions (feed bs s) = completions s"
  "callbacks (feed bs s) = callbacks s" "called (feed bs s) = called s" "idgen (feed bs s) = idgen s" "wr (prot (feed bs s)) = wr (prot s)"
  by (simp_all add: feed_def reply_slots_def fun_eq_iff)

lemma receive_okay:
  assumes "between s" "handle_single_message (svc s) (reply_slots s) dump c ((prot s)\<lparr>rd := at bs [] (rd (prot s)), prox := proxy_new\<rparr>) = (Some Okay, p)"
  shows "receive dump c (feed bs s) = (if dangling_reply (prox p) s then None
    else map_option resume_receive (handle_receive_result (prox p) ((feed bs s)\<lparr>receiving := False, prot := p\<rparr>)))"
proof -
  have "reply_slots ((feed bs s)\<lparr>receiving := False\<rparr>) = reply_slots s"
    "dangling_reply px ((feed bs s)\<lparr>receiving := False\<rparr>) = dangling_reply px s" for px
    by (simp_all add: reply_slots_def fun_eq_iff dangling_reply_def)
  then show ?thesis using assms feed_idle [OF assms(1), of bs] by (simp add: receive_def between_def Let_def)
qed

text \<open>The three messages that matter, on their way through the protocol object.\<close>

lemma request_arrives:
  assumes "prox q = proxy_new" "rd q = at (enc_val (request_msg m msgid params) @ rest) [] r"
    and "sv m = Some types" "map shape types = map shape params"
    and "length m < 2 ^ 32 - 1" "- (2 ^ 31) \<le> msgid" "msgid < 2 ^ 31" "list_all wf_val params" "length params < 2 ^ 32 - 1"
  shows "\<exists>s'. handle_single_message sv slots dump c q =
    (Some Okay, q\<lparr>prox := \<lparr>ptype = Proxy_request, rpc_msgid = msgid, handler = Some (m, params)\<rparr>, rd := at rest [] s'\<rparr>)"
proof -
  let ?r = "[VInt msg_request, VInt msgid, VStr m, VArr params]"
  have len: "length ?r = 4" by simp
  have "rpc_reads (handle_body sv slots dump c (ctx_id e, ctx_index e)) (concat (map enc_val ?r)) [left (length ?r) e] Okay []
      q (q\<lparr>prox := \<lparr>ptype = Proxy_request, rpc_msgid = msgid, handler = Some (m, params)\<rparr>\<rparr>)" if "kind e = Type_array" for e
    unfolding len using handle_request_ok [where svc = sv and m = m, OF assms(1,3-9) that] by simp
  from handle_message [OF _ this assms(2) [unfolded request_msg_def]] show ?thesis by simp
qed

lemma reply_arrives:
  assumes "prox q = proxy_new" "rd q = at (enc_val (reply_msg msgid VNil v) @ rest) [] r"
    and "- (2 ^ 31) \<le> msgid" "msgid < 2 ^ 31" "wf_val v"
  shows "slots msgid = Some (Some ty) \<Longrightarrow> shape ty = shape v \<Longrightarrow> \<exists>s'. handle_single_message sv slots dump c q =
      (Some Okay, q\<lparr>results := (results q)(msgid \<mapsto> v), prox := \<lparr>ptype = Reply_okay, rpc_msgid = msgid, handler = None\<rparr>, rd := at rest [] s'\<rparr>)"
    and "slots msgid = None \<Longrightarrow> skippable v \<Longrightarrow> depth v < scope_cap (rd q) \<Longrightarrow> \<exists>s'. handle_single_message sv slots dump c q =
      (Some Okay, q\<lparr>prox := \<lparr>ptype = Reply_expired, rpc_msgid = msgid, handler = None\<rparr>, rd := at rest [] s'\<rparr>)"
proof -
  let ?r = "[VInt msg_reply, VInt msgid, VNil, v]"
  have len: "length ?r = 4" by simp
  show "\<exists>s'. handle_single_message sv slots dump c q =
      (Some Okay, q\<lparr>results := (results q)(msgid \<mapsto> v), prox := \<lparr>ptype = Reply_okay, rpc_msgid = msgid, handler = None\<rparr>, rd := at rest [] s'\<rparr>)"
    if "slots msgid = Some (Some ty)" "shape ty = shape v"
  proof -
    have "rpc_reads (handle_body sv slots dump c (ctx_id e, ctx_index e)) (concat (map enc_val ?r)) [left (length ?r) e] Okay []
      q (replied Reply_okay msgid (q\<lparr>results := (results q)(msgid \<mapsto> v)\<rparr>))" if e: "kind e = Type_array" for e
      unfolding len using take_reply_result [OF assms(3,4) e reply_result_ok [where slots = slots and msgid = msgid,
        OF assms(1) \<open>slots msgid = Some (Some ty)\<close> \<open>shape ty = shape v\<close> assms(5) left_few(1) [OF e], unfolded left_few(2) [OF e]]] by simp
    from handle_message [OF _ this assms(2) [unfolded reply_msg_def]] show ?thesis by simp
  qed
  show "\<exists>s'. handle_single_message sv slots dump c q =
      (Some Okay, q\<lparr>prox := \<lparr>ptype = Reply_expired, rpc_msgid = msgid, handler = None\<rparr>, rd := at rest [] s'\<rparr>)"
    if "slots msgid = None" "skippable v" "depth v < scope_cap (rd q)"
  proof -
    have "rpc_reads (handle_body sv slots dump c (ctx_id e, ctx_index e)) (concat (map enc_val ?r)) [left (length ?r) e] Okay []
      q (replied Reply_expired msgid q)" if e: "kind e = Type_array" for e
      unfolding len using take_reply_result [OF assms(3,4) e reply_result_expired [where slots = slots and msgid = msgid,
        OF assms(1) \<open>slots msgid = None\<close> \<open>skippable v\<close> assms(5) left_few(1) [OF e], unfolded left_few(2) [OF e]]] \<open>depth v < scope_cap (rd q)\<close>
      by simp
    from handle_message [OF _ this assms(2) [unfolded reply_msg_def]] show ?thesis by simp
  qed
qed

lemma error_arrives:
  assumes "prox q = proxy_new" "rd q = at (enc_val (reply_msg msgid v VNil) @ rest) [] r"
    and "- (2 ^ 31) \<le> msgid" "msgid < 2 ^ 31" "wf_val v" "v \<noteq> VNil"
  shows "slots msgid = Some ty \<Longrightarrow> (\<And>ss. rready ss \<Longrightarrow> reads dump (enc_val v) ss t (rafter ss)) \<Longrightarrow> \<exists>s'. handle_single_message sv slots dump c q =
      (Some Okay, q\<lparr>errors := (errors q)(msgid \<mapsto> t), prox := \<lparr>ptype = Reply_error, rpc_msgid = msgid, handler = None\<rparr>, rd := at rest [] s'\<rparr>)"
    and "slots msgid = None \<Longrightarrow> skippable v \<Longrightarrow> depth v < scope_cap (rd q) \<Longrightarrow> \<exists>s'. handle_single_message sv slots dump c q =
      (Some Okay, q\<lparr>prox := \<lparr>ptype = Reply_expired, rpc_msgid = msgid, handler = None\<rparr>, rd := at rest [] s'\<rparr>)"
proof -
  let ?r = "[VInt msg_reply, VInt msgid, v, VNil]"
  have len: "length ?r = 4" by simp
  show "\<exists>s'. handle_single_message sv slots dump c q =
      (Some Okay, q\<lparr>errors := (errors q)(msgid \<mapsto> t), prox := \<lparr>ptype = Reply_error, rpc_msgid = msgid, handler = None\<rparr>, rd := at rest [] s'\<rparr>)"
    if sl: "slots msgid = Some ty" and du: "\<And>ss. rready ss \<Longrightarrow> reads dump (enc_val v) ss t (rafter ss)"
  proof -
    have "rpc_reads (handle_body sv slots dump c (ctx_id e, ctx_index e)) (concat (map enc_val ?r)) [left (length ?r) e] Okay []
      q (replied Reply_error msgid (q\<lparr>rd := reader_new [], errors := (errors q)(msgid \<mapsto> t)\<rparr>))" if e: "kind e = Type_array" for e
      unfolding len using take_reply_error [OF assms(3,4) e assms(5,6) reply_error_ok [where slots = slots and msgid = msgid,
        OF assms(1) sl du [OF left_few(3) [OF e]], unfolded left_few(4) [OF e]]] by simp
    from handle_message [OF _ this assms(2) [unfolded reply_msg_def]] show ?thesis by simp
  qed
  show "\<exists>s'. handle_single_message sv slots dump c q =
      (Some Okay, q\<lparr>prox := \<lparr>ptype = Reply_expired, rpc_msgid = msgid, handler = None\<rparr>, rd := at rest [] s'\<rparr>)"
    if fl: "slots msgid = None" "skippable v" "depth v < scope_cap (rd q)"
  proof -
    have "rpc_reads (handle_body sv slots dump c (ctx_id e, ctx_index e)) (concat (map enc_val ?r)) [left (length ?r) e] Okay []
      q (replied Reply_expired msgid q)" if e: "kind e = Type_array" for e
      unfolding len using take_reply_error [OF assms(3,4) e assms(5,6) reply_error_expired [where slots = slots and msgid = msgid,
        OF assms(1) fl(1,2) assms(5) left_few(3) [OF e], unfolded left_few(4) [OF e]]] fl(3) by simp
    from handle_message [OF _ this assms(2) [unfolded reply_msg_def]] show ?thesis by simp
  qed
qed

lemma sorted_keys: "fm_sorted std_less m \<Longrightarrow> distinct (map fst m)"
  by (induction m) (auto simp: fm_sorted_def std_less_def)

lemma dead_table:
  assumes "fm_sorted std_less m" "\<And>i n. fm_lookup std_less i m \<noteq> Some (Some n)"
  shows "fmc.held of_node m = {#}"
proof -
  have "of_node r = {#}" if "(i, r) \<in> set m" for i r
  proof -
    have "map_of m i = Some r" using that sorted_keys [OF assms(1)] by simp
    then have "fm_lookup std_less i m = Some r" using less.fm_lookup_map_of [OF assms(1)] by simp
    then show ?thesis using assms(2) [of i] by (cases r) auto
  qed
  then show ?thesis by (auto simp: fmc.held_def)
qed

lemma reply_bytes:
  assumes "wscopes (wr p) = []" "- (2 ^ 31) \<le> msgid" "msgid < 2 ^ 31" "wf_val v"
  shows "send_reply_result msgid v p = (True, proto_flush (p\<lparr>wr := wrote (enc_val (reply_msg msgid VNil v)) [] (wr p)\<rparr>))"
    and "send_reply_error msgid v p = (True, proto_flush (p\<lparr>wr := wrote (enc_val (reply_msg msgid v VNil)) [] (wr p)\<rparr>))"
proof -
  have "wf_val (reply_msg msgid VNil v)" "wf_val (reply_msg msgid v VNil)"
    using assms by (simp_all add: reply_msg_def msg_reply_def)
  moreover have "value_ready (wscopes (wr p))" "after_value (wscopes (wr p)) = []"
    using assms(1) by (simp_all add: value_ready_def after_value_def upd_top_def)
  ultimately show "send_reply_result msgid v p = (True, proto_flush (p\<lparr>wr := wrote (enc_val (reply_msg msgid VNil v)) [] (wr p)\<rparr>))"
    "send_reply_error msgid v p = (True, proto_flush (p\<lparr>wr := wrote (enc_val (reply_msg msgid v VNil)) [] (wr p)\<rparr>))"
    using try_write_val by (simp_all add: sends then_flush_def)
qed

text \<open>What a session does with a reply.\<close>

lemma receive_reply:
  assumes "between s" "0 < msgid" "msgid < 2 ^ 31" "wf_val v"
  defines "bs \<equiv> enc_val (reply_msg msgid VNil v)"
  shows "reply_slots s msgid = Some (Some ty) \<Longrightarrow> shape ty = shape v \<Longrightarrow> \<exists>r. receive dump c (feed bs s) =
      (if \<not> request_enabled s then None else Some (s\<lparr>prot := (prot s)\<lparr>results := (results (prot s))(msgid \<mapsto> v),
        prox := \<lparr>ptype = Reply_okay, rpc_msgid = msgid, handler = None\<rparr>, rd := at [] [] r\<rparr>,
        completions := completions s @ [Handle_reply msgid True]\<rparr>))"
    and "reply_slots s msgid = None \<Longrightarrow> skippable v \<Longrightarrow> depth v < scope_cap (rd (prot s)) \<Longrightarrow> \<exists>r. receive dump c (feed bs s) =
      (if \<not> request_enabled s \<or> lookup_request msgid s = Some None then None else Some (s\<lparr>prot := (prot s)\<lparr>
        prox := \<lparr>ptype = Reply_expired, rpc_msgid = msgid, handler = None\<rparr>, rd := at [] [] r\<rparr>\<rparr>))"
proof -
  let ?q = "(prot s)\<lparr>rd := at bs [] (rd (prot s)), prox := proxy_new\<rparr>"
  have q: "prox ?q = proxy_new" "rd ?q = at (enc_val (reply_msg msgid VNil v) @ []) [] (rd (prot s))" by (simp_all add: bs_def)
  have b: "- (2 ^ 31) \<le> msgid" using assms(2) by simp
  have rec: "receiving s" using assms(1) by (simp add: between_def)
  note arr = reply_arrives [OF q b assms(3,4), where slots = "reply_slots s"]
  show "\<exists>r. receive dump c (feed bs s) =
      (if \<not> request_enabled s then None else Some (s\<lparr>prot := (prot s)\<lparr>results := (results (prot s))(msgid \<mapsto> v),
        prox := \<lparr>ptype = Reply_okay, rpc_msgid = msgid, handler = None\<rparr>, rd := at [] [] r\<rparr>,
        completions := completions s @ [Handle_reply msgid True]\<rparr>))"
    if t: "reply_slots s msgid = Some (Some ty)" "shape ty = shape v"
  proof -
    obtain r where "handle_single_message (svc s) (reply_slots s) dump c ?q = (Some Okay, ?q\<lparr>results := (results ?q)(msgid \<mapsto> v),
        prox := \<lparr>ptype = Reply_okay, rpc_msgid = msgid, handler = None\<rparr>, rd := at [] [] r\<rparr>)"
      using arr(1) [OF t] by blast
    from receive_okay [OF assms(1) this] have "receive dump c (feed bs s) =
      (if \<not> request_enabled s then None else Some (s\<lparr>prot := (prot s)\<lparr>results := (results (prot s))(msgid \<mapsto> v),
        prox := \<lparr>ptype = Reply_okay, rpc_msgid = msgid, handler = None\<rparr>, rd := at [] [] r\<rparr>,
        completions := completions s @ [Handle_reply msgid True]\<rparr>))"
      using t(1) assms(2) rec
      by (cases s; cases "prot s") (auto simp: dangling_reply_def handle_receive_result_def resume_receive_def feed_def reply_slots_def split: option.splits)
    then show ?thesis by blast
  qed
  show "\<exists>r. receive dump c (feed bs s) =
      (if \<not> request_enabled s \<or> lookup_request msgid s = Some None then None else Some (s\<lparr>prot := (prot s)\<lparr>
        prox := \<lparr>ptype = Reply_expired, rpc_msgid = msgid, handler = None\<rparr>, rd := at [] [] r\<rparr>\<rparr>))"
    if t: "reply_slots s msgid = None" "skippable v" "depth v < scope_cap (rd (prot s))"
  proof -
    obtain r where "handle_single_message (svc s) (reply_slots s) dump c ?q = (Some Okay, ?q\<lparr>
        prox := \<lparr>ptype = Reply_expired, rpc_msgid = msgid, handler = None\<rparr>, rd := at [] [] r\<rparr>)"
      using arr(2) [OF t(1,2)] t(3) by fastforce
    from receive_okay [OF assms(1) this] have "receive dump c (feed bs s) =
      (if \<not> request_enabled s \<or> lookup_request msgid s = Some None then None else Some (s\<lparr>prot := (prot s)\<lparr>
        prox := \<lparr>ptype = Reply_expired, rpc_msgid = msgid, handler = None\<rparr>, rd := at [] [] r\<rparr>\<rparr>))"
      using rec
      by (cases s; cases "prot s") (auto simp: dangling_reply_def handle_receive_result_def resume_receive_def feed_def)
    then show ?thesis by blast
  qed
qed

lemma receive_error:
  assumes "between s" "0 < msgid" "msgid < 2 ^ 31" "wf_val v" "v \<noteq> VNil"
  defines "bs \<equiv> enc_val (reply_msg msgid v VNil)"
  shows "reply_slots s msgid = Some ty \<Longrightarrow> (\<And>ss. rready ss \<Longrightarrow> reads dump (enc_val v) ss t (rafter ss)) \<Longrightarrow> \<exists>r. receive dump c (feed bs s) =
      (if \<not> request_enabled s then None else Some (s\<lparr>prot := (prot s)\<lparr>errors := (errors (prot s))(msgid \<mapsto> t),
        prox := \<lparr>ptype = Reply_error, rpc_msgid = msgid, handler = None\<rparr>, rd := at [] [] r\<rparr>,
        completions := completions s @ [Handle_reply msgid False]\<rparr>))"
    and "reply_slots s msgid = None \<Longrightarrow> skippable v \<Longrightarrow> depth v < scope_cap (rd (prot s)) \<Longrightarrow> \<exists>r. receive dump c (feed bs s) =
      (if \<not> request_enabled s \<or> lookup_request msgid s = Some None then None else Some (s\<lparr>prot := (prot s)\<lparr>
        prox := \<lparr>ptype = Reply_expired, rpc_msgid = msgid, handler = None\<rparr>, rd := at [] [] r\<rparr>\<rparr>))"
proof -
  let ?q = "(prot s)\<lparr>rd := at bs [] (rd (prot s)), prox := proxy_new\<rparr>"
  have q: "prox ?q = proxy_new" "rd ?q = at (enc_val (reply_msg msgid v VNil) @ []) [] (rd (prot s))" by (simp_all add: bs_def)
  have b: "- (2 ^ 31) \<le> msgid" using assms(2) by simp
  have rec: "receiving s" using assms(1) by (simp add: between_def)
  note arr = error_arrives [OF q b assms(3-5), where slots = "reply_slots s"]
  show "\<exists>r. receive dump c (feed bs s) =
      (if \<not> request_enabled s then None else Some (s\<lparr>prot := (prot s)\<lparr>errors := (errors (prot s))(msgid \<mapsto> t),
        prox := \<lparr>ptype = Reply_error, rpc_msgid = msgid, handler = None\<rparr>, rd := at [] [] r\<rparr>,
        completions := completions s @ [Handle_reply msgid False]\<rparr>))"
    if sl: "reply_slots s msgid = Some ty" and du: "\<And>ss. rready ss \<Longrightarrow> reads dump (enc_val v) ss t (rafter ss)"
  proof -
    obtain r where "handle_single_message (svc s) (reply_slots s) dump c ?q = (Some Okay, ?q\<lparr>errors := (errors ?q)(msgid \<mapsto> t),
        prox := \<lparr>ptype = Reply_error, rpc_msgid = msgid, handler = None\<rparr>, rd := at [] [] r\<rparr>)"
      using arr(1) [OF sl du] by blast
    from receive_okay [OF assms(1) this] have "receive dump c (feed bs s) =
      (if \<not> request_enabled s then None else Some (s\<lparr>prot := (prot s)\<lparr>errors := (errors (prot s))(msgid \<mapsto> t),
        prox := \<lparr>ptype = Reply_error, rpc_msgid = msgid, handler = None\<rparr>, rd := at [] [] r\<rparr>,
        completions := completions s @ [Handle_reply msgid False]\<rparr>))"
      using sl assms(2) rec
      by (cases s; cases "prot s") (auto simp: dangling_reply_def handle_receive_result_def resume_receive_def feed_def reply_slots_def split: option.splits)
    then show ?thesis by blast
  qed
  show "\<exists>r. receive dump c (feed bs s) =
      (if \<not> request_enabled s \<or> lookup_request msgid s = Some None then None else Some (s\<lparr>prot := (prot s)\<lparr>
        prox := \<lparr>ptype = Reply_expired, rpc_msgid = msgid, handler = None\<rparr>, rd := at [] [] r\<rparr>\<rparr>))"
    if fl: "reply_slots s msgid = None" "skippable v" "depth v < scope_cap (rd (prot s))"
  proof -
    obtain r where "handle_single_message (svc s) (reply_slots s) dump c ?q = (Some Okay, ?q\<lparr>
        prox := \<lparr>ptype = Reply_expired, rpc_msgid = msgid, handler = None\<rparr>, rd := at [] [] r\<rparr>)"
      using arr(2) [OF fl(1,2)] fl(3) by fastforce
    from receive_okay [OF assms(1) this] have "receive dump c (feed bs s) =
      (if \<not> request_enabled s \<or> lookup_request msgid s = Some None then None else Some (s\<lparr>prot := (prot s)\<lparr>
        prox := \<lparr>ptype = Reply_expired, rpc_msgid = msgid, handler = None\<rparr>, rd := at [] [] r\<rparr>\<rparr>))"
      using rec
      by (cases s; cases "prot s") (auto simp: dangling_reply_def handle_receive_result_def resume_receive_def feed_def)
    then show ?thesis by blast
  qed
qed

section \<open>Properties\<close>

text \<open>C8: Whatever the threads do, no handler given to \<open>async_request\<close> is called twice, only handlers that
  were given are called, and none that \<open>async_request\<close> gave back unused. When the session has expired
  and nothing is left to run, every handler has been called or given back. This is for the first
  2^31 - 2 requests: later the message ids start again and a request whose id is still in use is lost.\<close>

theorem session_handlers_once:
  assumes "run dump c invoke (sys_new sv p) y" "distinct (issued y)" "int (length (issued y)) < int_max"
  shows "distinct (map fst (called (sess y))) \<and> set (map fst (called (sess y))) \<subseteq> set (issued y) - set (refused y)
    \<and> (expired (sess y) \<and> completions (sess y) = [] \<and> sending y = [] \<and> replying y = [] \<and> aborting y = [] \<longrightarrow>
        set (issued y) = set (map fst (called (sess y))) \<union> set (refused y))"
proof -
  have inv: "table_ok (sess y)" "conserved y" "ids_fresh y" "expired_empty y" using run_invariants [OF assms(1)] by auto
  have col: "collided y = []" using inv(3) assms(3) unfolding ids_fresh_def by blast
  define rest where "rest = fmc.held of_node (requests (sess y)) + spread of_completion (completions (sess y))
      + spread (\<lambda>(_, _, n). {#rhandler n#}) (replying y) + mset (aborting y)"
  obtain r where r: "mset r = rest" by (metis ex_mset)
  have m: "mset (issued y) = mset (map fst (called (sess y)) @ refused y @ r)"
    using inv(2) col r by (simp add: conserved_def in_session_def in_threads_def rest_def ac_simps)
  then have d: "distinct (map fst (called (sess y)) @ refused y @ r)" using assms(2) mset_eq_imp_distinct_iff by blast
  have st: "set (issued y) = set (map fst (called (sess y)) @ refused y @ r)" using m by (rule mset_eq_setD)
  have "rest = {#}" if e: "expired (sess y)" "completions (sess y) = []" "sending y = []" "replying y = []" "aborting y = []"
  proof -
    have l: "live_handlers i (sess y) = []" for i using inv(4) e unfolding expired_empty_def by fastforce
    have "fm_lookup std_less i (requests (sess y)) \<noteq> Some (Some n)" for i n using l [of i] by (auto simp: live_handlers_def)
    then have "fmc.held of_node (requests (sess y)) = {#}" using inv(1) by (intro dead_table) (simp_all add: table_ok_def)
    then show ?thesis using e by (simp add: rest_def)
  qed
  then have "expired (sess y) \<and> completions (sess y) = [] \<and> sending y = [] \<and> replying y = [] \<and> aborting y = [] \<longrightarrow> r = []"
    using r by auto
  then show ?thesis using d st by auto
qed

definition closing_run :: "sys" where
  "closing_run = (sys_new empty_service idle)\<lparr>sess := (sess (sys_new empty_service idle))\<lparr>idgen := 1, conn_closed := True, expired := True,
      completions := [], monitor := [Session_expired], called := [(5, Aborted)]\<rparr>, issued := [5]\<rparr>"

theorem session_handlers_once_witness:
  "run (retE []) zero_casts (\<lambda>_ _. Returned VNil) (sys_new empty_service idle) closing_run
    \<and> set (issued closing_run) = set (map fst (called (sess closing_run))) \<union> set (refused closing_run)"
proof -
  let ?step = "step (retE []) zero_casts (\<lambda>_ _. Returned VNil)"
  let ?y0 = "sys_new empty_service idle"
  define n where "n = \<lparr>rhandler = 5, rbuffer = None\<rparr>"
  define s1 where "s1 = snd (register 5 None (sess ?y0))"
  define y1 where "y1 = ?y0\<lparr>sess := s1, sending := [(1, 5, [], [])], issued := [5]\<rparr>"
  define y2 where "y2 = y1\<lparr>sess := snd (close_session s1)\<rparr>"
  define y3 where "y3 = y2\<lparr>sess := snd (transmit 1 [] [] (sess y2)), sending := [], refused := []\<rparr>"
  have s1: "s1 = (sess ?y0)\<lparr>idgen := 1, requests := [(1, Some n)]\<rparr>"
    by (simp add: s1_def register_def sys_new_def session_new_def n_def int_max_def fm_put_def fm_try_emplace_def
        fm_lower_bound_def bisect.simps insert_at_def)
  have s2: "sess y2 = (sess ?y0)\<lparr>idgen := 1, conn_closed := True, expired := True,
      completions := [Abort_request (Some n)], monitor := [Session_expired]\<rparr>"
    by (simp add: y2_def s1 close_session_def set_expired_def Let_def sys_new_def session_new_def)
  have s3: "sess y3 = sess y2"
    by (simp add: y3_def transmit_def s2) (simp add: sys_new_def session_new_def)
  have "register 5 None (sess ?y0) = (1, s1)" by (simp add: s1_def register_def sys_new_def session_new_def)
  from step.Issue [OF this, where m = "[]" and ps = "[]", of "retE []" zero_casts "\<lambda>_ _. Returned VNil"]
  have 1: "?step ?y0 y1" by (simp add: y1_def sys_new_def session_new_def)
  have 2: "?step y1 y2" using step.Close [of "retE []" zero_casts "\<lambda>_ _. Returned VNil" y1] by (simp add: y2_def y1_def)
  have l: "live_handlers 1 (sess y2) = []" by (simp add: live_handlers_def s2) (simp add: sys_new_def session_new_def)
  have two: "sending y2 = [(1, 5, [], [])]" "refused y2 = []" "expired (sess y2)"
    by (simp_all add: s2) (simp_all add: y2_def y1_def sys_new_def)
  have 3: "?step y2 y3"
    using step.Transmit [of 1 5 "[]" "[]" y2 "fst (transmit 1 [] [] (sess y2))" "snd (transmit 1 [] [] (sess y2))" "retE []" zero_casts "\<lambda>_ _. Returned VNil"]
    by (simp add: y3_def l two)
  have 4: "?step y3 closing_run"
    using step.Run_abort [of "Some n" y3 "call_handler 5 Aborted ((sess y3)\<lparr>completions := []\<rparr>)" "retE []" zero_casts "\<lambda>_ _. Returned VNil"]
    by (simp add: s3 s2 run_abort_def n_def) (simp add: closing_run_def call_handler_def s2 y3_def y2_def y1_def sys_new_def session_new_def)
  have r: "run (retE []) zero_casts (\<lambda>_ _. Returned VNil) ?y0 closing_run"
    using 1 2 3 4 by (meson converse_rtranclp_into_rtranclp rtranclp.rtrancl_refl)
  have "set (issued closing_run) = set (map fst (called (sess closing_run))) \<union> set (refused closing_run)"
    using session_handlers_once [OF r] by (simp add: closing_run_def sys_new_def session_new_def int_max_def)
  with r show ?thesis by simp
qed

text \<open>Closing a live session posts one completion per entry of the request table, empties the table and
  calls nothing itself; a second close says that there is nothing to close. Each posted completion
  calls the handler with \<open>aborted\<close>, except for an entry whose request is just being completed: its
  completion dereferences a null pointer. Every waiter's condition now holds and none is woken. A
  request whose sending fails is among those aborted although its handle is empty.\<close>

theorem session_expiry:
  assumes "request_enabled s" "\<not> expired s"
  shows "\<exists>s'. close_session s = (True, s') \<and> expired s' \<and> requests s' = [] \<and> called s' = called s
      \<and> completions s' = completions s @ map (\<lambda>(_, req). Abort_request req) (requests s)
      \<and> (\<forall>n. run_completion (Abort_request None) s' = None
          \<and> run_completion (Abort_request (Some n)) s' = Some (s'\<lparr>called := called s' @ [(rhandler n, Aborted)]\<rparr>))
      \<and> waiters s' = waiters s \<and> (\<forall>i. wait_done i s') \<and> close_session s' = (False, s')
      \<and> (\<not> fst (send_request m i ps (prot s)) \<longrightarrow>
          (\<exists>s''. transmit i m ps s = (False, s'') \<and> completions s'' = completions s' \<and> called s'' = called s))"
proof -
  define s' where "s' = snd (close_session s)"
  have s': "s' = (let t = s\<lparr>conn_closed := True, expired := True,
      completions := completions s @ map (\<lambda>(_, req). Abort_request req) (requests s), requests := []\<rparr> in t\<lparr>monitor := monitor t @ [Session_expired]\<rparr>)"
    using assms by (simp add: s'_def close_session_def set_expired_def Let_def)
  have "close_session s = (True, s')" using assms by (simp add: s'_def close_session_def)
  moreover have "wait_done j s'" for j
    by (simp add: wait_done_def s' Let_def fm_contains_def fm_find_def fm_lower_bound_def bisect.simps)
  moreover have "close_session s' = (False, s')" by (simp add: close_session_def s' Let_def)
  moreover have "\<exists>s''. transmit i m ps s = (False, s'') \<and> completions s'' = completions s' \<and> called s'' = called s"
    if "\<not> fst (send_request m i ps (prot s))"
    using that assms by (cases "send_request m i ps (prot s)") (auto simp: transmit_def set_expired_def Let_def s')
  ultimately show ?thesis
    by (intro exI [of _ s']) (simp add: s' Let_def run_completion_def run_abort_def call_handler_def)
qed

theorem session_expiry_witness:
  "\<exists>s'. close_session (session_new True empty_service idle) = (True, s') \<and> expired s'"
proof -
  have "request_enabled (session_new True empty_service idle)" "\<not> expired (session_new True empty_service idle)"
    by (simp_all add: session_new_def)
  from session_expiry [OF this, of "[]" 0 "[]"] show ?thesis by blast
qed


definition busy :: session where
  "busy = (session_new True empty_service idle)\<lparr>idgen := 1, requests := [(1, None)]\<rparr>"


lemma receive_request:
  assumes "between t" "svc t m = Some types" "map shape types = map shape params"
    and "length m < 2 ^ 32 - 1" "0 < msgid" "msgid < 2 ^ 31" "list_all wf_val params" "length params < 2 ^ 32 - 1"
  shows "\<exists>r. receive dump c (feed (enc_val (request_msg m msgid params)) t) = Some (t\<lparr>prot := (prot t)\<lparr>
        prox := \<lparr>ptype = Proxy_request, rpc_msgid = msgid, handler = Some (m, params)\<rparr>, rd := at [] [] r\<rparr>,
        callbacks := callbacks t @ [Call_request msgid m params]\<rparr>)"
proof -
  let ?q = "(prot t)\<lparr>rd := at (enc_val (request_msg m msgid params)) [] (rd (prot t)), prox := proxy_new\<rparr>"
  have q: "prox ?q = proxy_new" "rd ?q = at (enc_val (request_msg m msgid params) @ []) [] (rd (prot t))" by simp_all
  have b: "- (2 ^ 31) \<le> msgid" using assms(5) by simp
  have rec: "receiving t" using assms(1) by (simp add: between_def)
  obtain r where "handle_single_message (svc t) (reply_slots t) dump c ?q =
      (Some Okay, ?q\<lparr>prox := \<lparr>ptype = Proxy_request, rpc_msgid = msgid, handler = Some (m, params)\<rparr>, rd := at [] [] r\<rparr>)"
    using request_arrives [where sv = "svc t" and m = m, OF q assms(2-4) b assms(6-8)] by blast
  from receive_okay [OF assms(1) this] have "receive dump c (feed (enc_val (request_msg m msgid params)) t) = Some (t\<lparr>prot := (prot t)\<lparr>
        prox := \<lparr>ptype = Proxy_request, rpc_msgid = msgid, handler = Some (m, params)\<rparr>, rd := at [] [] r\<rparr>,
        callbacks := callbacks t @ [Call_request msgid m params]\<rparr>)"
    using rec by (cases t; cases "prot t") (simp add: dangling_reply_def handle_receive_result_def resume_receive_def feed_def)
  then show ?thesis by blast
qed

lemma async_request_ok:
  assumes "between s" "\<not> manual_flush s" "table_ok s" "0 \<le> idgen s" "idgen s < int_max" "lookup_request (idgen s + 1) s = None"
    and "length m < 2 ^ 32 - 1" "list_all wf_val params" "length params < 2 ^ 32 - 1"
  defines "msgid \<equiv> idgen s + 1"
  shows "\<exists>s'. async_request m h buf params s = (Some msgid, s') \<and> between s' \<and> table_ok s'
      \<and> sent_bytes (prot s) (prot s') = enc_val (request_msg m msgid params) \<and> sent (prot s') = length (out (wr (prot s')))
      \<and> reply_slots s' msgid = Some buf \<and> lookup_request msgid s' = Some (Some \<lparr>rhandler = h, rbuffer = buf\<rparr>)
      \<and> called s' = called s \<and> completions s' = completions s"
proof -
  have v: "fm_sorted std_less (requests s)" and re: "request_enabled s" using assms(3) by (simp_all add: table_ok_def)
  let ?n = "\<lparr>rhandler = h, rbuffer = buf\<rparr>"
  define s1 where "s1 = snd (register h buf s)"
  have s1: "s1 = s\<lparr>idgen := if msgid = int_max then 0 else msgid, requests := fm_put std_less msgid (Some ?n) (requests s)\<rparr>"
    by (simp add: s1_def register_def Let_def msgid_def)
  have wf: "wf_val (request_msg m msgid params)"
    using assms by (simp add: request_msg_def msg_request_def msgid_def int_max_def)
  have ready: "value_ready (wscopes (wr (prot s1)))" "after_value (wscopes (wr (prot s1))) = []"
    using assms(1) by (simp_all add: between_def s1 value_ready_def after_value_def upd_top_def)
  let ?p = "(prot s)\<lparr>wr := wrote (enc_val (request_msg m msgid params)) [] (wr (prot s))\<rparr>"
  have "send_request m msgid params (prot s1) = (True, ?p)"
    unfolding sends(1) try_write_val [OF wf ready(1)] by (simp only: ready(2)) (simp add: s1)
  then have "transmit msgid m params s1 = (True, s1\<lparr>prot := proto_flush ?p\<rparr>)"
    using assms(1,2) by (simp add: transmit_def between_def s1 auto_flush_def)
  moreover have "register h buf s = (msgid, s1)" by (simp add: s1_def register_def Let_def msgid_def)
  ultimately have "async_request m h buf params s = (Some msgid, s1\<lparr>prot := proto_flush ?p\<rparr>)"
    by (simp add: async_request_def)
  moreover have "lookup_request msgid s1 = Some (Some ?n)"
    using assms(6) by (simp add: s1 fm.lookup_put [OF v] msgid_def)
  moreover have "table_ok (s1\<lparr>prot := proto_flush ?p\<rparr>)" using re fm.valid_put [OF v] by (simp add: table_ok_def s1)
  ultimately show ?thesis
    using assms(1) by (intro exI [of _ "s1\<lparr>prot := proto_flush ?p\<rparr>"])
      (simp add: between_def s1 proto_flush_def sent_bytes_def reply_slots_def)
qed

text \<open>C6: A request makes the round trip. A client calls \<open>async_request\<close> for a method that the server has
  registered with these parameter types; the bytes are flushed and reach the server, whose session posts
  the call of exactly this method with these arguments; its handler returns a value, which is flushed
  back; the client posts the completion, and running it calls the request's handler once, without an
  error, with the value in the request's buffer. Then a wait for the request returns.\<close>

theorem rpc_round_trip:
  fixes params :: "val list"
  assumes "between s" "\<not> manual_flush s" "table_ok s" "0 \<le> idgen s" "idgen s < int_max" "lookup_request (idgen s + 1) s = None"
    and "between t" "svc t m = Some types" "map shape types = map shape params"
    and "length m < 2 ^ 32 - 1" "list_all wf_val params" "length params < 2 ^ 32 - 1"
    and "invoke m params = Returned v" "wf_val v" "shape ty = shape v"
  defines "msgid \<equiv> idgen s + 1"
  shows "\<exists>s1 t1 t2 s2 s3. async_request m h (Some ty) params s = (Some msgid, s1)
      \<and> sent (prot s1) = length (out (wr (prot s1)))
      \<and> receive dump c (feed (sent_bytes (prot s) (prot s1)) t) = Some t1
      \<and> callbacks t1 = callbacks t @ [Call_request msgid m params]
      \<and> t2 = run_callback invoke (Call_request msgid m params) t1 \<and> sent (prot t2) = length (out (wr (prot t2)))
      \<and> receive dump c (feed (sent_bytes (prot t1) (prot t2)) s1) = Some s2
      \<and> completions s2 = completions s @ [Handle_reply msgid True]
      \<and> run_completion (Handle_reply msgid True) s2 = Some s3
      \<and> called s3 = called s @ [(h, Completed)] \<and> results (prot s3) msgid = Some v \<and> wait_done msgid s3"
proof -
  have id: "0 < msgid" "msgid < 2 ^ 31" "- (2 ^ 31) \<le> msgid" using assms(4,5) by (simp_all add: msgid_def int_max_def)
  obtain s1 where s1: "async_request m h (Some ty) params s = (Some msgid, s1)" "between s1" "table_ok s1"
      "sent_bytes (prot s) (prot s1) = enc_val (request_msg m msgid params)" "sent (prot s1) = length (out (wr (prot s1)))"
      "reply_slots s1 msgid = Some (Some ty)" "lookup_request msgid s1 = Some (Some \<lparr>rhandler = h, rbuffer = Some ty\<rparr>)"
      "called s1 = called s" "completions s1 = completions s"
    using async_request_ok [OF assms(1-6,10-12), of h "Some ty"] unfolding msgid_def by blast
  obtain r where t1: "receive dump c (feed (enc_val (request_msg m msgid params)) t) = Some (t\<lparr>prot := (prot t)\<lparr>
        prox := \<lparr>ptype = Proxy_request, rpc_msgid = msgid, handler = Some (m, params)\<rparr>, rd := at [] [] r\<rparr>,
        callbacks := callbacks t @ [Call_request msgid m params]\<rparr>)" (is "_ = Some ?t1")
    using receive_request [where m = m, OF assms(7-10) id(1,2) assms(11,12)] by blast
  let ?p = "proto_flush ((prot ?t1)\<lparr>wr := wrote (enc_val (reply_msg msgid VNil v)) [] (wr (prot ?t1))\<rparr>)"
  have "wscopes (wr (prot ?t1)) = []" "\<not> expired ?t1" using assms(7) by (simp_all add: between_def)
  then have t2: "run_callback invoke (Call_request msgid m params) ?t1 = ?t1\<lparr>prot := ?p\<rparr>"
    using reply_bytes [OF _ id(3,2) assms(14), of "prot ?t1"] assms(13) by (simp add: run_callback_def)
  have bs: "sent_bytes (prot ?t1) ?p = enc_val (reply_msg msgid VNil v)" by (simp add: sent_bytes_def proto_flush_def)
  have re: "request_enabled s1" and v: "fm_sorted std_less (requests s1)" using s1(3) by (simp_all add: table_ok_def)
  obtain r' where s2: "receive dump c (feed (enc_val (reply_msg msgid VNil v)) s1) =
      Some (s1\<lparr>prot := (prot s1)\<lparr>results := (results (prot s1))(msgid \<mapsto> v),
        prox := \<lparr>ptype = Reply_okay, rpc_msgid = msgid, handler = None\<rparr>, rd := at [] [] r'\<rparr>,
        completions := completions s1 @ [Handle_reply msgid True]\<rparr>)" (is "_ = Some ?s2")
    using receive_reply(1) [OF s1(2) id(1,2) assms(14) s1(6) assms(15)] re by auto
  define s3 where "s3 = session_handle_reply msgid True ?s2"
  have "s3 = reply_finish msgid (call_handler h Completed (?s2\<lparr>requests := fm_modify std_less msgid (\<lambda>_. None) (requests s1)\<rparr>))"
    using s1(7) by (simp add: s3_def session_handle_reply_def reply_take_def reply_call_def)
  then have s3: "requests s3 = fm_remove std_less msgid (fm_modify std_less msgid (\<lambda>_. None) (requests s1))"
      "called s3 = called s @ [(h, Completed)]" "results (prot s3) msgid = Some v"
    using s1(8) by (simp_all add: reply_finish_def call_handler_def notify_all_def)
  have "lookup_request msgid s3 = None" unfolding s3(1) by (simp add: fm.lookup_remove fm.valid_modify v)
  then have "wait_done msgid s3" by (auto simp: wait_done_def fm_contains_def fm_lookup_def Let_def split: if_splits)
  moreover have "receive dump c (feed (sent_bytes (prot s) (prot s1)) t) = Some ?t1" unfolding s1(4) by (rule t1)
  moreover have "receive dump c (feed (sent_bytes (prot ?t1) (prot (?t1\<lparr>prot := ?p\<rparr>))) s1) = Some ?s2"
    using s2 bs by simp
  moreover have "callbacks ?t1 = callbacks t @ [Call_request msgid m params]" by simp
  moreover have "sent (prot (?t1\<lparr>prot := ?p\<rparr>)) = length (out (wr (prot (?t1\<lparr>prot := ?p\<rparr>))))" by (simp add: proto_flush_def)
  moreover have "completions ?s2 = completions s @ [Handle_reply msgid True]" using s1(9) by simp
  moreover have "run_completion (Handle_reply msgid True) ?s2 = Some s3" by (simp add: run_completion_def s3_def)
  ultimately show ?thesis using s1(1,5) t2 [symmetric] s3(2,3) by blast
qed

definition echo :: "byte list \<Rightarrow> val list \<Rightarrow> invoked" where
  "echo m params = (if params = [VInt 3] then Returned (VInt 4) else Threw_text m)"

definition server :: session where
  "server = session_new False [[109] \<mapsto> [VInt 0]] idle"

definition client :: session where
  "client = session_new True empty_service idle"

theorem rpc_round_trip_witness:
  "\<exists>s1 t1 t2 s2 s3. async_request [109] 5 (Some (VInt 0)) [VInt 3] client = (Some 1, s1)
      \<and> receive (retE []) zero_casts (feed (sent_bytes (prot client) (prot s1)) server) = Some t1
      \<and> t2 = run_callback echo (Call_request 1 [109] [VInt 3]) t1
      \<and> receive (retE []) zero_casts (feed (sent_bytes (prot t1) (prot t2)) s1) = Some s2
      \<and> run_completion (Handle_reply 1 True) s2 = Some s3 \<and> called s3 = [(5, Completed)] \<and> results (prot s3) 1 = Some (VInt 4)"
proof -
  have i: "idgen client + 1 = 1" "called client = []" by (simp_all add: client_def session_new_def)
  have "between client" "between server" "\<not> manual_flush client" "table_ok client" "0 \<le> idgen client" "idgen client < int_max"
    "lookup_request (idgen client + 1) client = None" "svc server [109] = Some [VInt 0]"
    by (simp_all add: between_def client_def server_def session_new_def idle_def reader_new_def reserve_depth_def writer_new_def table_ok_def
        fm_sorted_def int_max_def)
  from rpc_round_trip [where m = "[109]", OF this(1,3-7,2,8), of "[VInt 3]" echo "VInt 4" "VInt 0" 5 "retE []" zero_casts]
  show ?thesis unfolding i by (simp add: echo_def) blast
qed

end
