(* ===== verification/Ring_Allocator.thy ===== *)
theory Ring_Allocator
  imports Cpph_Prelude
begin

text \<open>
  The ring allocator of \<open>memory/ring_allocator.hxx\<close>. The buffer is an array of 8-byte nodes; an
  allocation is a header node and \<open>extent\<close> nodes of payload behind it. \<open>_head\<close> is where the next
  header goes, \<open>_tail\<close> the oldest header, both null when nothing is allocated. A pointer handed
  out is the index of the node behind the header. Freeing marks the header and then releases
  marked headers from the tail; a request that does not fit before the end of the buffer fills
  the rest with a marked dummy and continues at the front.

  The invariant \<open>ring_inv\<close> says that the headers from tail to head tile the used part of the
  ring. From it follow the properties an allocator owes: the blocks handed out lie in the buffer
  and are disjoint from each other and from all headers, and freeing gives everything back.
\<close>

section \<open>State\<close>

record node =
  pending_kill :: bool
  fallback_allocated :: bool
  extent :: nat

record ring =
  memory :: "nat \<Rightarrow> node"
  capacity :: nat
  head :: "nat option"
  tail :: "nat option"

datatype ring_error = Bad_alloc | Assert_not_empty | Assert_range | Loop_fuel

definition node_size :: nat where "node_size = 8"

text \<open>The size arithmetic is that of a 64-bit \<open>size_t\<close>.\<close>

definition node_size_ceil :: "nat \<Rightarrow> nat" where
  "node_size_ceil s = ((s + (node_size - 1)) mod 2 ^ 64) div node_size"

definition node_size_floor :: "nat \<Rightarrow> nat" where
  "node_size_floor s = s div node_size"

definition zero_node :: node where
  "zero_node = \<lparr>pending_kill = False, fallback_allocated = False, extent = 0\<rparr>"

definition ring_new :: "nat \<Rightarrow> ring" where
  "ring_new bytes = \<lparr>memory = (\<lambda>_. zero_node), capacity = node_size_floor bytes, head = None, tail = None\<rparr>"

definition ring_capacity :: "ring \<Rightarrow> nat" where
  "ring_capacity r = capacity r * node_size"

definition ring_empty :: "ring \<Rightarrow> bool" where
  "ring_empty r \<longleftrightarrow> head r = None"

definition next_node :: "ring \<Rightarrow> nat \<Rightarrow> nat" where
  "next_node r i = i + 1 + extent (memory r i)"

definition retr_node :: "nat \<Rightarrow> nat" where
  "retr_node p = p - 1"

definition ring_extent :: "ring \<Rightarrow> nat \<Rightarrow> nat" where
  "ring_extent r p = extent (memory r (retr_node p)) * node_size"

definition front :: "ring \<Rightarrow> nat option" where
  "front r = map_option (\<lambda>t. t + 1) (tail r)"

section \<open>Allocation\<close>

definition put_node :: "nat \<Rightarrow> bool \<Rightarrow> nat \<Rightarrow> ring \<Rightarrow> ring" where
  "put_node i kill n r =
     r\<lparr>memory := (memory r)(i := \<lparr>pending_kill = kill, fallback_allocated = False, extent = n\<rparr>)\<rparr>"

definition wrap :: "ring \<Rightarrow> nat \<Rightarrow> nat" where
  "wrap r i = (if i = capacity r then 0 else i)"

text \<open>Writing a live header at \<open>h\<close> and moving the head behind its payload.\<close>

definition take_block :: "nat \<Rightarrow> nat \<Rightarrow> ring \<Rightarrow> nat option \<times> ring" where
  "take_block h nblk r =
     (let r = put_node h False nblk r
      in (Some (h + 1), r\<lparr>head := Some (wrap r (next_node r h))\<rparr>))"

text \<open>
  \<open>_allocate_ring\<close>. After the jump to the front the head is below the tail, so the repeated call
  of the code takes the branch of \<open>allocate_front\<close>.
\<close>

definition allocate_front :: "nat \<Rightarrow> nat \<Rightarrow> nat \<Rightarrow> ring \<Rightarrow> nat option \<times> ring" where
  "allocate_front nblk h t r = (let space = t - h - 1 in if nblk > space then (None, r) else take_block h nblk r)"

definition allocate_ring :: "nat \<Rightarrow> ring \<Rightarrow> nat option \<times> ring" where
  "allocate_ring n r =
     (let nblk = node_size_ceil n in
      case (head r, tail r) of
        (Some h, Some t) \<Rightarrow>
          if h > t then
            let space = capacity r - (h + 1) in
            if nblk \<le> space then take_block h nblk r
            else if t \<noteq> 0 then allocate_front nblk 0 t ((put_node h True space r)\<lparr>head := Some 0\<rparr>)
            else (None, r)
          else if h < t then allocate_front nblk h t r
          else (None, r)
      | _ \<Rightarrow>
          if nblk \<ge> capacity r then (None, r)
          else take_block 0 nblk (r\<lparr>head := Some 0, tail := Some 0\<rparr>))"

text \<open>The throwing variant.\<close>

definition allocate :: "nat \<Rightarrow> ring \<Rightarrow> (ring_error + nat) \<times> ring" where
  "allocate n r = (case allocate_ring n r of (Some p, r') \<Rightarrow> (Inr p, r') | (None, r') \<Rightarrow> (Inl Bad_alloc, r'))"

section \<open>Deallocation\<close>

text \<open>The loop of \<open>_flush_ring\<close>; there are at most \<open>capacity\<close> nodes to release.\<close>

fun flush_ring :: "nat \<Rightarrow> ring \<Rightarrow> ring option" where
  "flush_ring fuel r =
     (case tail r of
        None \<Rightarrow> Some r
      | Some t \<Rightarrow>
          if \<not> pending_kill (memory r t) then Some r
          else case fuel of
            0 \<Rightarrow> None
          | Suc k \<Rightarrow>
              let t' = wrap r (next_node r t)
              in flush_ring k (if head r = Some t' then r\<lparr>tail := None, head := None\<rparr> else r\<lparr>tail := Some t'\<rparr>))"

declare flush_ring.simps [simp del]

definition mark_killed :: "nat \<Rightarrow> ring \<Rightarrow> ring" where
  "mark_killed i r = r\<lparr>memory := (memory r)(i := (memory r i)\<lparr>pending_kill := True\<rparr>)\<rparr>"

definition deallocate_ring :: "nat \<Rightarrow> ring \<Rightarrow> ring_error + ring" where
  "deallocate_ring p r =
     (let i = retr_node p in
      if p = 0 \<or> ring_empty r then Inl Assert_not_empty
      else if \<not> i < capacity r then Inl Assert_range
      else case flush_ring (capacity r) (mark_killed i r) of None \<Rightarrow> Inl Loop_fuel | Some r' \<Rightarrow> Inr r')"

section \<open>The fallback allocator\<close>

text \<open>
  \<open>basic_ring_allocator<std::allocator<char>>\<close>: what does not fit into the ring comes from the
  heap, with its own header. The heap records the byte count of each allocation, and
  \<open>std::allocator::deallocate\<close> must be given the same count.
\<close>

datatype pointer = In_ring nat | In_heap nat

record fb_ring =
  the_ring :: ring
  heap :: "nat \<Rightarrow> (nat \<times> node) option"
  next_id :: nat

definition allocate_fallback_size :: "nat \<Rightarrow> nat" where
  "allocate_fallback_size nbytes = (nbytes + 1 - 1) div 1"

definition deallocate_fallback_size :: "nat \<Rightarrow> nat" where
  "deallocate_fallback_size nbytes = nbytes div 1"

definition allocate_nt :: "nat \<Rightarrow> fb_ring \<Rightarrow> pointer \<times> fb_ring" where
  "allocate_nt n s =
     (case allocate_ring n (the_ring s) of
        (Some p, r) \<Rightarrow> (In_ring p, s\<lparr>the_ring := r\<rparr>)
      | (None, r) \<Rightarrow>
          let k = node_size_ceil n; bytes = allocate_fallback_size ((k + 1) * node_size) in
          (In_heap (next_id s), s\<lparr>the_ring := r, next_id := next_id s + 1,
             heap := (heap s)(next_id s \<mapsto> (bytes, \<lparr>pending_kill = False, fallback_allocated = True, extent = k\<rparr>))\<rparr>))"

definition pointer_node :: "pointer \<Rightarrow> fb_ring \<Rightarrow> node option" where
  "pointer_node p s =
     (case p of In_ring q \<Rightarrow> Some (memory (the_ring s) (retr_node q)) | In_heap i \<Rightarrow> map_option snd (heap s i))"

text \<open>Without a fallback allocator the answer is always false.\<close>

definition is_ring_allocated :: "bool \<Rightarrow> node \<Rightarrow> bool" where
  "is_ring_allocated has_fallback nd = (if has_fallback then \<not> fallback_allocated nd else False)"

text \<open>The count handed to \<open>deallocate\<close> of the heap comes with the result.\<close>

definition fb_deallocate :: "pointer \<Rightarrow> fb_ring \<Rightarrow> ring_error + nat option \<times> fb_ring" where
  "fb_deallocate p s =
     (case pointer_node p s of
        None \<Rightarrow> Inl Assert_range
      | Some nd \<Rightarrow>
          (case p of
             In_ring q \<Rightarrow>
               if is_ring_allocated True nd
               then bindE (deallocate_ring q (the_ring s)) (\<lambda>r. Inr (None, s\<lparr>the_ring := r\<rparr>))
               else Inl Assert_range
           | In_heap i \<Rightarrow>
               if is_ring_allocated True nd then Inl Assert_range
               else case flush_ring (capacity (the_ring s)) (the_ring s) of
                 None \<Rightarrow> Inl Loop_fuel
               | Some r \<Rightarrow> Inr (Some (deallocate_fallback_size (extent nd * node_size)),
                               s\<lparr>the_ring := r, heap := (heap s)(i := None)\<rparr>)))"

section \<open>The tiling of the ring\<close>

text \<open>\<open>chain mem cap h t ns\<close>: the headers from \<open>t\<close> on are \<open>ns\<close>, each followed by its payload, and end at \<open>h\<close>.\<close>

fun chain :: "(nat \<Rightarrow> node) \<Rightarrow> nat \<Rightarrow> nat \<Rightarrow> nat \<Rightarrow> nat list \<Rightarrow> bool" where
  "chain mem cap h t [] \<longleftrightarrow> t = h"
| "chain mem cap h t (i # ns) \<longleftrightarrow>
     i = t \<and> t + 1 + extent (mem t) \<le> cap
     \<and> chain mem cap h (if t + 1 + extent (mem t) = cap then 0 else t + 1 + extent (mem t)) ns"

definition span :: "(nat \<Rightarrow> node) \<Rightarrow> nat list \<Rightarrow> nat" where
  "span mem ns = sum_list (map (\<lambda>i. 1 + extent (mem i)) ns)"

text \<open>The occupied length, by the positions of head and tail; equal positions mean a full ring.\<close>

definition used :: "nat \<Rightarrow> nat \<Rightarrow> nat \<Rightarrow> nat" where
  "used cap h t = (if h > t then h - t else h + cap - t)"

text \<open>The distance of a cell from the tail, going round.\<close>

definition off :: "nat \<Rightarrow> nat \<Rightarrow> nat \<Rightarrow> nat" where
  "off cap t x = (if x \<ge> t then x - t else x + cap - t)"

definition tiled :: "nat list \<Rightarrow> ring \<Rightarrow> bool" where
  "tiled ns r \<longleftrightarrow> capacity r > 0 \<and>
     (case (head r, tail r) of
        (None, None) \<Rightarrow> ns = []
      | (Some h, Some t) \<Rightarrow> ns \<noteq> [] \<and> h < capacity r \<and> t < capacity r
          \<and> chain (memory r) (capacity r) h t ns \<and> span (memory r) ns = used (capacity r) h t
      | _ \<Rightarrow> False)"

definition ring_inv :: "nat list \<Rightarrow> ring \<Rightarrow> bool" where
  "ring_inv ns r \<longleftrightarrow> tiled ns r \<and> (ns = [] \<or> \<not> pending_kill (memory r (hd ns)))"

text \<open>The headers of the blocks in use, and the cells of a block.\<close>

definition live :: "nat list \<Rightarrow> ring \<Rightarrow> nat list" where
  "live ns r = filter (\<lambda>i. \<not> pending_kill (memory r i)) ns"

definition cells :: "ring \<Rightarrow> nat \<Rightarrow> nat set" where
  "cells r i = {i..<i + 1 + extent (memory r i)}"

definition payload :: "ring \<Rightarrow> nat \<Rightarrow> nat set" where
  "payload r i = {i + 1..<i + 1 + extent (memory r i)}"

lemma span_simps [simp]: "span mem [] = 0" "span mem (i # ns) = Suc (extent (mem i)) + span mem ns"
  "span mem (ns @ ms) = span mem ns + span mem ms"
  by (simp_all add: span_def)

lemma span_cong: "(\<And>i. i \<in> set ns \<Longrightarrow> extent (mem i) = extent (mem' i)) \<Longrightarrow> span mem ns = span mem' ns"
  by (induction ns) auto

lemma chain_cong:
  "(\<And>i. i \<in> set ns \<Longrightarrow> extent (mem i) = extent (mem' i)) \<Longrightarrow> chain mem cap h t ns = chain mem' cap h t ns"
  by (induction ns arbitrary: t) auto

lemma chain_append:
  "chain mem cap h t (ns @ [i]) \<longleftrightarrow>
     chain mem cap i t ns \<and> i + 1 + extent (mem i) \<le> cap \<and> h = (if i + 1 + extent (mem i) = cap then 0 else i + 1 + extent (mem i))"
  by (induction ns arbitrary: t) auto

text \<open>The cells of a header occupy consecutive distances from \<open>t\<close>.\<close>

lemma off_cases:
  obtains (above) "t \<le> x" "off cap t x = x - t" | (below) "x < t" "off cap t x = x + cap - t"
  by (cases "t \<le> x") (auto simp: off_def)

lemma cell_off:
  assumes "i < cap" "t < cap" "i + n \<le> cap" "off cap t i + n \<le> cap" "x \<in> {i..<i + n}"
  shows "off cap t x = off cap t i + (x - i)"
proof -
  have x: "i \<le> x" "x < i + n" using assms by auto
  show ?thesis
  proof (cases rule: off_cases [where t = t and x = i and cap = cap])
    case above
    then have "off cap t x = x - t" using x by (simp add: off_def)
    then show ?thesis using above x by linarith
  next
    case below
    then have "x < t" using x assms(2-4) by linarith
    then have "off cap t x = x + cap - t" by (simp add: off_def)
    then show ?thesis using below x assms(2) by linarith
  qed
qed

lemma wrap_off:
  assumes "i < cap" "t < cap" "i + n \<le> cap" "n > 0" "off cap t i + n < cap"
  shows "off cap t (if i + n = cap then 0 else i + n) = off cap t i + n"
proof (cases rule: off_cases [where t = t and x = i and cap = cap])
  case above
  show ?thesis
  proof (cases "i + n = cap")
    case True
    then have "t > 0" using above assms by linarith
    then have "off cap t 0 = cap - t" by (simp add: off_def)
    then show ?thesis using True above assms(2) by simp
  next
    case False
    have "off cap t (i + n) = i + n - t" using above by (simp add: off_def)
    then show ?thesis using False above by simp
  qed
next
  case below
  then have lt: "i + n < t" using assms(2,5) by linarith
  then have "off cap t (i + n) = i + n + cap - t" by (simp add: off_def)
  then show ?thesis using lt below assms(2) by simp
qed

lemma chain_tl:
  assumes "chain mem cap h t (k # ns)" "t0 < cap" "t < cap" "off cap t0 t + span mem (k # ns) \<le> cap" "ns \<noteq> []"
  obtains t' where "chain mem cap h t' ns" "t' < cap" "off cap t0 t' = off cap t0 t + Suc (extent (mem t))"
    "off cap t0 t' + span mem ns \<le> cap"
proof
  let ?n = "Suc (extent (mem t))" let ?t' = "if t + ?n = cap then 0 else t + ?n"
  from assms obtain l ls where "ns = l # ls" by (cases ns) auto
  then have pos: "span mem ns > 0" by simp
  have le: "t + ?n \<le> cap" "k = t" using assms(1) by auto
  show "chain mem cap h ?t' ns" using assms(1) by auto
  show "?t' < cap" using le assms by auto
  show off': "off cap t0 ?t' = off cap t0 t + ?n"
    by (rule wrap_off) (use assms le pos in auto)
  show "off cap t0 ?t' + span mem ns \<le> cap" unfolding off' using assms le by simp
qed

text \<open>Every header lies at the distance of what precedes it.\<close>

lemma chain_offsets:
  assumes "chain mem cap h t ns" "t0 < cap" "t < cap" "off cap t0 t + span mem ns \<le> cap" "i \<in> set ns"
  shows "i < cap" "i + 1 + extent (mem i) \<le> cap" "off cap t0 t \<le> off cap t0 i"
    "off cap t0 i + Suc (extent (mem i)) \<le> off cap t0 t + span mem ns"
proof -
  have "i < cap \<and> i + 1 + extent (mem i) \<le> cap \<and> off cap t0 t \<le> off cap t0 i
    \<and> off cap t0 i + Suc (extent (mem i)) \<le> off cap t0 t + span mem ns"
    using assms
  proof (induction ns arbitrary: t)
    case (Cons j ns)
    then have j: "j = t" "t + 1 + extent (mem t) \<le> cap" by auto
    show ?case
    proof (cases "i = t")
      case True
      then show ?thesis using Cons.prems(3) j by simp
    next
      case False
      then have i: "i \<in> set ns" "ns \<noteq> []" using Cons.prems j by auto
      from chain_tl [OF Cons.prems(1-4) i(2)] obtain t' where t': "chain mem cap h t' ns" "t' < cap"
        "off cap t0 t' = off cap t0 t + Suc (extent (mem t))" "off cap t0 t' + span mem ns \<le> cap" .
      show ?thesis
        using Cons.IH [OF t'(1) Cons.prems(2) t'(2,4) i(1)] t'(3) j by simp
    qed
  qed simp
  then show "i < cap" "i + 1 + extent (mem i) \<le> cap" "off cap t0 t \<le> off cap t0 i"
    "off cap t0 i + Suc (extent (mem i)) \<le> off cap t0 t + span mem ns" by auto
qed

section \<open>What the tiling gives\<close>

text \<open>Blocks lie in the buffer and do not overlap.\<close>

lemma chain_disjoint:
  assumes "chain mem cap h t ns" "t0 < cap" "t < cap" "off cap t0 t + span mem ns \<le> cap"
  shows "distinct ns" and "\<And>i j. i \<in> set ns \<Longrightarrow> j \<in> set ns \<Longrightarrow> i \<noteq> j \<Longrightarrow>
    {i..<i + 1 + extent (mem i)} \<inter> {j..<j + 1 + extent (mem j)} = {}"
proof -
  let ?before = "\<lambda>i j. off cap t0 i + Suc (extent (mem i)) \<le> off cap t0 j"
  have sorted: "sorted_wrt ?before ns"
    using assms
  proof (induction ns arbitrary: t)
    case (Cons k ns)
    then have k: "k = t" by simp
    show ?case
    proof (cases "ns = []")
      case False
      from chain_tl [OF Cons.prems False] obtain t' where t': "chain mem cap h t' ns" "t' < cap"
        "off cap t0 t' = off cap t0 t + Suc (extent (mem t))" "off cap t0 t' + span mem ns \<le> cap" .
      have "?before k j" if "j \<in> set ns" for j
        using chain_offsets(3) [OF t'(1) Cons.prems(2) t'(2,4) that] t'(3) k by simp
      then show ?thesis using Cons.IH [OF t'(1) Cons.prems(2) t'(2,4)] by simp
    qed simp
  qed simp
  show "distinct ns"
    using sorted by (induction ns) force+
  fix i j assume ij: "i \<in> set ns" "j \<in> set ns" "i \<noteq> j"
  have sep: "?before i j \<or> ?before j i"
    using sorted ij by (induction ns) auto
  note oi = chain_offsets [OF assms ij(1)] and oj = chain_offsets [OF assms ij(2)]
  have False if x: "x \<in> {i..<i + Suc (extent (mem i))}" "x \<in> {j..<j + Suc (extent (mem j))}" for x
  proof -
    have "off cap t0 x = off cap t0 i + (x - i)"
      by (rule cell_off [OF oi(1) assms(2) _ _ x(1)]) (use oi assms in auto)
    moreover have "off cap t0 x = off cap t0 j + (x - j)"
      by (rule cell_off [OF oj(1) assms(2) _ _ x(2)]) (use oj assms in auto)
    moreover have "x - i < Suc (extent (mem i))" "x - j < Suc (extent (mem j))" using x by auto
    ultimately show False using sep by linarith
  qed
  then show "{i..<i + 1 + extent (mem i)} \<inter> {j..<j + 1 + extent (mem j)} = {}" by fastforce
qed

lemma off_self [simp]: "off cap t t = 0"
  by (simp add: off_def)

lemma used_le: "h < cap \<Longrightarrow> t < cap \<Longrightarrow> used cap h t \<le> cap"
  by (auto simp: used_def)

lemma tiled_blocks:
  assumes "tiled ns r"
  shows "distinct ns" and "i \<in> set ns \<Longrightarrow> cells r i \<subseteq> {0..<capacity r}"
    and "i \<in> set ns \<Longrightarrow> j \<in> set ns \<Longrightarrow> i \<noteq> j \<Longrightarrow> cells r i \<inter> cells r j = {}"
proof -
  have "distinct ns \<and> (\<forall>i \<in> set ns. cells r i \<subseteq> {0..<capacity r})
    \<and> (\<forall>i \<in> set ns. \<forall>j \<in> set ns. i \<noteq> j \<longrightarrow> cells r i \<inter> cells r j = {})"
  proof (cases "ns = []")
    case False
    then obtain h t where ht: "head r = Some h" "tail r = Some t" "h < capacity r" "t < capacity r"
      "chain (memory r) (capacity r) h t ns" "span (memory r) ns = used (capacity r) h t"
      using assms by (auto simp: tiled_def split: option.splits)
    then have le: "off (capacity r) t t + span (memory r) ns \<le> capacity r" by (simp add: used_le)
    note d = chain_disjoint [OF ht(5) ht(4) ht(4) le] and o = chain_offsets [OF ht(5) ht(4) ht(4) le]
    show ?thesis
    proof (intro conjI ballI impI)
      show "cells r i \<subseteq> {0..<capacity r}" if "i \<in> set ns" for i
        using o [OF that] by (auto simp: cells_def)
      show "cells r i \<inter> cells r j = {}" if "i \<in> set ns" "j \<in> set ns" "i \<noteq> j" for i j
        using d(2) [OF that] by (simp add: cells_def)
    qed (rule d(1))
  qed simp
  then show "distinct ns" "i \<in> set ns \<Longrightarrow> cells r i \<subseteq> {0..<capacity r}"
    "i \<in> set ns \<Longrightarrow> j \<in> set ns \<Longrightarrow> i \<noteq> j \<Longrightarrow> cells r i \<inter> cells r j = {}" by auto
qed

section \<open>Allocation keeps the tiling\<close>

text \<open>Appending a header at the head, when it fits into the free part of the ring.\<close>

lemma tiled_append:
  fixes kill :: bool
  assumes til: "tiled ns r" and ht: "head r = Some h" "tail r = Some t" "h \<noteq> t"
    and fits: "h + 1 + n \<le> capacity r" "used (capacity r) h t + 1 + n \<le> capacity r"
  defines "r' \<equiv> (put_node h kill n r)\<lparr>head := Some (wrap r (h + 1 + n))\<rparr>"
  shows "tiled (ns @ [h]) r'" and "h \<notin> set ns"
    and "\<And>i. i \<in> set ns \<Longrightarrow> memory r' i = memory r i"
    and "memory r' h = \<lparr>pending_kill = kill, fallback_allocated = False, extent = n\<rparr>"
proof -
  have c: "ns \<noteq> []" "h < capacity r" "t < capacity r" "chain (memory r) (capacity r) h t ns"
    "span (memory r) ns = used (capacity r) h t"
    using til ht by (auto simp: tiled_def)
  have le: "off (capacity r) t t + span (memory r) ns \<le> capacity r" using c by (simp add: used_le)
  show h: "h \<notin> set ns"
  proof
    assume "h \<in> set ns"
    from chain_offsets [OF c(4) c(3) c(3) le this] c ht(3) show False
      by (auto simp: off_def used_def split: if_splits)
  qed
  show m: "memory r' i = memory r i" if "i \<in> set ns" for i
    using that h by (auto simp: r'_def put_node_def)
  show mh: "memory r' h = \<lparr>pending_kill = kill, fallback_allocated = False, extent = n\<rparr>"
    by (simp add: r'_def put_node_def)
  have cap: "capacity r' = capacity r" "tail r' = Some t" "head r' = Some (wrap r (h + 1 + n))"
    by (simp_all add: r'_def put_node_def ht)
  have ch: "chain (memory r') (capacity r) (wrap r (h + 1 + n)) t (ns @ [h])"
    using c(4) chain_cong [of ns "memory r'" "memory r"] m fits mh
    by (simp add: chain_append wrap_def)
  have sp: "span (memory r') (ns @ [h]) = used (capacity r) h t + 1 + n"
    using span_cong [of ns "memory r'" "memory r"] m mh c(5) by simp
  have us: "used (capacity r) (wrap r (h + 1 + n)) t = used (capacity r) h t + 1 + n"
    using fits c ht(3) by (auto simp: used_def wrap_def)
  have lt: "wrap r (h + 1 + n) < capacity r" using fits c by (simp add: wrap_def)
  show "tiled (ns @ [h]) r'"
    using ch sp us lt c cap by (simp add: tiled_def)
qed

lemma ring_inv_append:
  fixes kill :: bool
  assumes inv: "ring_inv ns r" and ht: "head r = Some h" "tail r = Some t" "h \<noteq> t"
    and fits: "h + 1 + n \<le> capacity r" "used (capacity r) h t + 1 + n \<le> capacity r"
  defines "r' \<equiv> (put_node h kill n r)\<lparr>head := Some (wrap r (h + 1 + n))\<rparr>"
  shows "ring_inv (ns @ [h]) r'" and "h \<notin> set ns"
    and "live (ns @ [h]) r' = live ns r @ (if kill then [] else [h])"
    and "\<And>i. i \<in> set ns \<Longrightarrow> memory r' i = memory r i"
    and "memory r' h = \<lparr>pending_kill = kill, fallback_allocated = False, extent = n\<rparr>"
proof -
  have til: "tiled ns r" using inv by (simp add: ring_inv_def)
  note app = tiled_append(1,3,4) [OF til ht fits, where kill = kill, folded r'_def] tiled_append(2) [OF til ht fits]
  have "ns \<noteq> []" using til ht by (simp add: tiled_def)
  with app inv show "ring_inv (ns @ [h]) r'" by (simp add: ring_inv_def)
  show "h \<notin> set ns" "\<And>i. i \<in> set ns \<Longrightarrow> memory r' i = memory r i"
    "memory r' h = \<lparr>pending_kill = kill, fallback_allocated = False, extent = n\<rparr>" using app by auto
  show "live (ns @ [h]) r' = live ns r @ (if kill then [] else [h])"
    using app(2,3) by (simp add: live_def cong: filter_cong)
qed

lemma take_block_eq:
  "take_block h n r = (Some (h + 1), (put_node h False n r)\<lparr>head := Some (wrap r (h + 1 + n))\<rparr>)"
  by (simp add: take_block_def Let_def put_node_def next_node_def wrap_def)

text \<open>What an allocation does to the headers: the old ones stay, and on success one live header is added.\<close>

definition allocated :: "nat \<Rightarrow> nat list \<Rightarrow> ring \<Rightarrow> nat option \<times> ring \<Rightarrow> bool" where
  "allocated nblk ns r res \<longleftrightarrow>
     (\<exists>ns'. ring_inv ns' (snd res) \<and> capacity (snd res) = capacity r
        \<and> (\<forall>i \<in> set (live ns r). memory (snd res) i = memory r i)
        \<and> (case fst res of
             None \<Rightarrow> live ns' (snd res) = live ns r
           | Some p \<Rightarrow> p > 0 \<and> live ns' (snd res) = live ns r @ [p - 1] \<and> extent (memory (snd res) (p - 1)) = nblk))"

lemma allocated_None: "ring_inv ns r \<Longrightarrow> allocated nblk ns r (None, r)"
  by (auto simp: allocated_def)

lemma allocated_weaken:
  assumes "allocated n ns' d res" "live ns' d = live ns r" "\<forall>i \<in> set (live ns r). memory d i = memory r i"
    "capacity d = capacity r"
  shows "allocated n ns r res"
  using assms by (cases "fst res") (auto simp: allocated_def)

lemma allocated_take:
  assumes inv: "ring_inv ns r" and ht: "head r = Some h" "tail r = Some t" "h \<noteq> t"
    and fits: "h + 1 + n \<le> capacity r" "used (capacity r) h t + 1 + n \<le> capacity r"
  shows "allocated n ns r (take_block h n r)"
proof -
  let ?r' = "(put_node h False n r)\<lparr>head := Some (wrap r (h + 1 + n))\<rparr>"
  have "ring_inv (ns @ [h]) ?r'" by (rule ring_inv_append(1) [OF inv ht fits])
  moreover have "live (ns @ [h]) ?r' = live ns r @ [h]" using ring_inv_append(3) [OF inv ht fits, of False] by simp
  moreover have "\<forall>i \<in> set (live ns r). memory ?r' i = memory r i"
    using ring_inv_append(4) [OF inv ht fits, of _ False] by (simp add: live_def)
  moreover have "capacity ?r' = capacity r" "extent (memory ?r' h) = n" by (simp_all add: put_node_def)
  ultimately show ?thesis
    by (auto simp: allocated_def take_block_eq intro!: exI [of _ "ns @ [h]"])
qed

lemma allocate_front_allocated:
  assumes inv: "ring_inv ns r" and ht: "head r = Some h" "tail r = Some t" "h < t"
  shows "allocated n ns r (allocate_front n h t r)"
proof (cases "n > t - h - 1")
  case True
  then show ?thesis using inv by (simp add: allocate_front_def allocated_None)
next
  case False
  have "t < capacity r" using inv ht by (simp add: ring_inv_def tiled_def)
  then have "h + 1 + n \<le> capacity r" "used (capacity r) h t + 1 + n \<le> capacity r"
    using False ht by (auto simp: used_def)
  from allocated_take [OF inv ht(1,2) _ this] False ht show ?thesis by (simp add: allocate_front_def)
qed

lemma first_block:
  assumes "tiled [] r" "n < capacity r"
  shows "allocated n [] r (take_block 0 n (r\<lparr>head := Some 0, tail := Some 0\<rparr>))"
proof -
  let ?r' = "(put_node 0 False n r)\<lparr>head := Some (wrap r (1 + n)), tail := Some 0\<rparr>"
  have eq: "take_block 0 n (r\<lparr>head := Some 0, tail := Some 0\<rparr>) = (Some 1, ?r')"
    by (simp add: take_block_eq put_node_def wrap_def)
  have "ring_inv [0] ?r'"
    using assms by (auto simp: ring_inv_def tiled_def put_node_def wrap_def used_def)
  moreover have "live [0] ?r' = [0]" "extent (memory ?r' 0) = n" "capacity ?r' = capacity r"
    by (simp_all add: live_def put_node_def)
  ultimately show ?thesis unfolding eq
    by (auto simp: allocated_def live_def intro!: exI [of _ "[0]"])
qed

lemma allocate_ring_allocated:
  assumes inv: "ring_inv ns r"
  shows "allocated (node_size_ceil n) ns r (allocate_ring n r)"
proof (cases "head r")
  case None
  then have ns: "tail r = None" "ns = []" "tiled [] r"
    using inv by (auto simp: ring_inv_def tiled_def split: option.splits)
  then show ?thesis
    using None first_block [OF ns(3)] allocated_None [OF inv] by (simp add: allocate_ring_def Let_def)
next
  case (Some h)
  then obtain t where ht: "head r = Some h" "tail r = Some t"
    using inv by (auto simp: ring_inv_def tiled_def split: option.splits)
  let ?n = "node_size_ceil n" let ?space = "capacity r - (h + 1)"
  have lt: "h < capacity r" "t < capacity r" using inv ht by (auto simp: ring_inv_def tiled_def)
  consider (up) "h > t" "?n \<le> ?space" | (jump) "h > t" "\<not> ?n \<le> ?space" "t \<noteq> 0"
    | (full) "h > t" "\<not> ?n \<le> ?space" "t = 0" | (down) "h < t" | (eq) "h = t" by linarith
  then show ?thesis
  proof cases
    case up
    have "allocated ?n ns r (take_block h ?n r)"
      by (rule allocated_take [OF inv ht]) (use up lt in \<open>auto simp: used_def\<close>)
    then show ?thesis using up ht by (simp add: allocate_ring_def Let_def)
  next
    case jump
    have fits: "h \<noteq> t" "h + 1 + ?space \<le> capacity r" "used (capacity r) h t + 1 + ?space \<le> capacity r"
      using jump lt by (auto simp: used_def)
    let ?d = "(put_node h True ?space r)\<lparr>head := Some 0\<rparr>"
    have d: "?d = (put_node h True ?space r)\<lparr>head := Some (wrap r (h + 1 + ?space))\<rparr>"
      using lt by (simp add: wrap_def)
    have inv': "ring_inv (ns @ [h]) ?d" unfolding d by (rule ring_inv_append(1) [OF inv ht fits])
    have live': "live (ns @ [h]) ?d = live ns r"
      unfolding d using ring_inv_append(3) [OF inv ht fits, of True] by simp
    have mem': "\<forall>i \<in> set (live ns r). memory ?d i = memory r i"
      unfolding d using ring_inv_append(4) [OF inv ht fits, of _ True] by (simp add: live_def)
    have "head ?d = Some 0" "tail ?d = Some t" "0 < t" using ht jump by (simp_all add: put_node_def)
    then have "allocated ?n (ns @ [h]) ?d (allocate_front ?n 0 t ?d)" by (rule allocate_front_allocated [OF inv'])
    from allocated_weaken [OF this live' mem'] have "allocated ?n ns r (allocate_front ?n 0 t ?d)" by (simp add: put_node_def)
    then show ?thesis using jump ht by (simp add: allocate_ring_def Let_def)
  next
    case full
    then show ?thesis using ht allocated_None [OF inv] by (simp add: allocate_ring_def Let_def)
  next
    case down
    then show ?thesis using ht allocate_front_allocated [OF inv ht] by (simp add: allocate_ring_def Let_def)
  next
    case eq
    then show ?thesis using ht allocated_None [OF inv] by (simp add: allocate_ring_def Let_def)
  qed
qed

section \<open>Deallocation keeps the tiling\<close>

text \<open>One round of the loop drops the first header.\<close>

lemma tiled_drop:
  assumes til: "tiled (i # ns) r" and ht: "head r = Some h" "tail r = Some t"
  defines "t' \<equiv> wrap r (next_node r t)"
  shows "i = t" and "(if head r = Some t' then r\<lparr>tail := None, head := None\<rparr> else r\<lparr>tail := Some t'\<rparr>) = r' \<Longrightarrow> tiled ns r'"
proof -
  have c: "h < capacity r" "t < capacity r" "chain (memory r) (capacity r) h t (i # ns)"
    "span (memory r) (i # ns) = used (capacity r) h t"
    using til ht by (auto simp: tiled_def)
  then show "i = t" by simp
  have le: "off (capacity r) t t + span (memory r) (i # ns) \<le> capacity r" using c by (simp add: used_le)
  have t': "t' = (if t + 1 + extent (memory r t) = capacity r then 0 else t + 1 + extent (memory r t))"
    by (simp add: t'_def wrap_def next_node_def)
  then have ch: "chain (memory r) (capacity r) h t' ns" using c(3) by simp
  assume r': "(if head r = Some t' then r\<lparr>tail := None, head := None\<rparr> else r\<lparr>tail := Some t'\<rparr>) = r'"
  show "tiled ns r'"
  proof (cases "ns = []")
    case True
    then have "t' = h" using ch by simp
    then show ?thesis using r' True ht til by (simp add: tiled_def flip: r')
  next
    case False
    from chain_tl [OF c(3,2,2) le False] obtain u where u: "u < capacity r" "chain (memory r) (capacity r) h u ns"
      "off (capacity r) t u = Suc (extent (memory r t))" by auto
    have ut: "u = t'" using u(2) ch False by (cases ns) auto
    have sp: "used (capacity r) h t = Suc (extent (memory r t)) + span (memory r) ns" using c(3,4) by simp
    have pos: "span (memory r) ns > 0" using False by (cases ns) auto
    have us: "h \<noteq> t' \<and> span (memory r) ns = used (capacity r) h t'"
      using sp pos u(1,3) c(1,2) unfolding ut used_def off_def by (auto split: if_splits)
    then have "r' = r\<lparr>tail := Some t'\<rparr>" using r' ht by auto
    then show ?thesis using us ch u(1) ut c(1) False ht by (simp add: tiled_def)
  qed
qed

lemma chain_length: "length ns \<le> span mem ns"
  by (induction ns) auto

lemma tiled_length: "tiled ns r \<Longrightarrow> length ns \<le> capacity r"
  using chain_length [of ns "memory r"] used_le
  by (fastforce simp: tiled_def split: option.splits)

lemma flush_ring_inv:
  assumes "tiled ns r" "length ns \<le> fuel"
  shows "\<exists>r' ns'. flush_ring fuel r = Some r' \<and> ring_inv ns' r' \<and> live ns' r' = live ns r
    \<and> memory r' = memory r \<and> capacity r' = capacity r"
  using assms
proof (induction ns arbitrary: r fuel)
  case Nil
  then have "tail r = None" by (auto simp: tiled_def split: option.splits)
  then have "flush_ring fuel r = Some r" by (simp add: flush_ring.simps)
  then show ?case using Nil by (auto simp: ring_inv_def)
next
  case (Cons i ns)
  from Cons.prems obtain h t where ht: "head r = Some h" "tail r = Some t"
    by (auto simp: tiled_def split: option.splits)
  note drop = tiled_drop [OF Cons.prems(1) ht]
  show ?case
  proof (cases "pending_kill (memory r t)")
    case False
    then have "flush_ring fuel r = Some r" using ht by (simp add: flush_ring.simps)
    then show ?thesis using Cons.prems False drop(1) by (auto simp: ring_inv_def)
  next
    case True
    obtain k where k: "fuel = Suc k" "length ns \<le> k" using Cons.prems by (cases fuel) auto
    let ?t' = "wrap r (next_node r t)"
    define r1 where "r1 = (if head r = Some ?t' then r\<lparr>tail := None, head := None\<rparr> else r\<lparr>tail := Some ?t'\<rparr>)"
    have "tiled ns r1" using drop(2) [of r1] by (simp add: r1_def)
    from Cons.IH [OF this k(2)] obtain r' ns' where "flush_ring k r1 = Some r'" "ring_inv ns' r'"
      "live ns' r' = live ns r1" "memory r' = memory r1" "capacity r' = capacity r1" by auto
    moreover have "memory r1 = memory r" "capacity r1 = capacity r" by (simp_all add: r1_def)
    moreover have "flush_ring fuel r = flush_ring k r1"
      using True ht k by (subst flush_ring.simps) (simp add: r1_def Let_def)
    ultimately show ?thesis using True drop(1) by (auto simp: live_def)
  qed
qed

lemma tiled_mark:
  assumes "tiled ns r"
  shows "tiled ns (mark_killed i r)"
proof -
  have e: "extent (memory (mark_killed i r) j) = extent (memory r j)" for j by (simp add: mark_killed_def)
  have "chain (memory (mark_killed i r)) c h t ns = chain (memory r) c h t ns" for c h t
    by (rule chain_cong) (simp add: e)
  moreover have "span (memory (mark_killed i r)) ns = span (memory r) ns" by (rule span_cong) (simp add: e)
  ultimately show ?thesis using assms by (simp add: tiled_def mark_killed_def split: option.splits)
qed

lemma live_mark: "live ns (mark_killed i r) = filter (\<lambda>j. j \<noteq> i) (live ns r)"
  by (induction ns) (auto simp: live_def mark_killed_def)

lemma deallocate_ring_inv:
  assumes inv: "ring_inv ns r" and i: "i \<in> set (live ns r)"
  shows "\<exists>r' ns'. deallocate_ring (i + 1) r = Inr r' \<and> ring_inv ns' r' \<and> capacity r' = capacity r
    \<and> live ns' r' = filter (\<lambda>j. j \<noteq> i) (live ns r) \<and> (\<forall>j. j \<noteq> i \<longrightarrow> memory r' j = memory r j)"
proof -
  have til: "tiled ns r" and "i \<in> set ns" using inv i by (auto simp: ring_inv_def live_def)
  then have "i < capacity r" "\<not> ring_empty r"
    using tiled_blocks(2) [OF til, of i] by (auto simp: cells_def ring_empty_def tiled_def split: option.splits)
  moreover obtain r' ns' where "flush_ring (capacity r) (mark_killed i r) = Some r'" "ring_inv ns' r'"
    "live ns' r' = live ns (mark_killed i r)" "memory r' = memory (mark_killed i r)" "capacity r' = capacity (mark_killed i r)"
    using flush_ring_inv [OF tiled_mark [OF til] tiled_length [OF til], of i] by auto
  ultimately show ?thesis
    unfolding live_mark by (auto simp: deallocate_ring_def retr_node_def Let_def intro!: exI [of _ ns']) (simp_all add: mark_killed_def)
qed

section \<open>The contract of an allocator\<close>

text \<open>
  \<open>holds bs s\<close>: the blocks in use are \<open>bs\<close>, in the order of their allocation, each with its
  pointer and its number of nodes.
\<close>

primrec dealloc_all :: "(nat \<Rightarrow> 's \<Rightarrow> 'e + 's) \<Rightarrow> nat list \<Rightarrow> 's \<Rightarrow> 'e + 's" where
  "dealloc_all dealloc [] s = Inr s"
| "dealloc_all dealloc (p # ps) s = (case dealloc p s of Inl e \<Rightarrow> Inl e | Inr s' \<Rightarrow> dealloc_all dealloc ps s')"

locale allocator =
  fixes alloc :: "nat \<Rightarrow> 's \<Rightarrow> nat option \<times> 's"
    and dealloc :: "nat \<Rightarrow> 's \<Rightarrow> 'e + 's"
    and holds :: "(nat \<times> nat) list \<Rightarrow> 's \<Rightarrow> bool"
    and need :: "nat \<Rightarrow> nat"
  assumes alloc_None: "holds bs s \<Longrightarrow> alloc n s = (None, s') \<Longrightarrow> holds bs s'"
    and alloc_Some: "holds bs s \<Longrightarrow> alloc n s = (Some p, s') \<Longrightarrow> holds (bs @ [(p, need n)]) s'"
    and dealloc_ok: "holds bs s \<Longrightarrow> p \<in> fst ` set bs \<Longrightarrow>
      \<exists>s'. dealloc p s = Inr s' \<and> holds (filter (\<lambda>b. fst b \<noteq> p) bs) s'"
    and ptr_distinct: "holds bs s \<Longrightarrow> distinct (map fst bs)"
    and separated: "holds bs s \<Longrightarrow> (p, k) \<in> set bs \<Longrightarrow> (q, l) \<in> set bs \<Longrightarrow> p \<noteq> q \<Longrightarrow> {p..<p + k} \<inter> {q..<q + l} = {}"
begin

lemma alloc_fresh:
  assumes "holds bs s" "alloc n s = (Some p, s')"
  shows "p \<notin> fst ` set bs" and "(q, l) \<in> set bs \<Longrightarrow> {p..<p + need n} \<inter> {q..<q + l} = {}"
proof -
  note h = alloc_Some [OF assms]
  show fresh: "p \<notin> fst ` set bs" using ptr_distinct [OF h] by auto
  assume "(q, l) \<in> set bs"
  then show "{p..<p + need n} \<inter> {q..<q + l} = {}"
    using separated [OF h, of p "need n" q l] fresh by force
qed

lemma dealloc_first:
  assumes "holds ((p, k) # bs) s"
  shows "\<exists>s'. dealloc p s = Inr s' \<and> holds bs s'"
proof -
  have "filter (\<lambda>b. fst b \<noteq> p) bs = bs"
    using ptr_distinct [OF assms] by (auto simp: filter_id_conv)
  then show ?thesis using dealloc_ok [OF assms, of p] by simp
qed

text \<open>Any of the blocks can be freed, in any order, and only these go.\<close>

lemma dealloc_all_ok:
  assumes "holds bs s" "distinct ps" "set ps \<subseteq> fst ` set bs"
  shows "\<exists>s'. dealloc_all dealloc ps s = Inr s' \<and> holds (filter (\<lambda>b. fst b \<notin> set ps) bs) s'"
  using assms
proof (induction ps arbitrary: bs s)
  case Nil
  then show ?case by simp
next
  case (Cons p ps)
  then obtain s1 where s1: "dealloc p s = Inr s1" "holds (filter (\<lambda>b. fst b \<noteq> p) bs) s1"
    using dealloc_ok [of bs s p] by auto
  have "set ps \<subseteq> fst ` set (filter (\<lambda>b. fst b \<noteq> p) bs)"
  proof
    fix q assume q: "q \<in> set ps"
    then obtain k where "(q, k) \<in> set bs" using Cons.prems by fastforce
    moreover have "q \<noteq> p" using q Cons.prems by auto
    ultimately show "q \<in> fst ` set (filter (\<lambda>b. fst b \<noteq> p) bs)" by force
  qed
  from Cons.IH [OF s1(2) _ this] Cons.prems s1(1) show ?case
    by (auto simp: conj_commute)
qed

end

section \<open>The ring is an allocator\<close>

definition block_at :: "ring \<Rightarrow> nat \<Rightarrow> nat \<times> nat" where
  "block_at r i = (i + 1, extent (memory r i))"

definition ring_holds :: "(nat \<times> nat) list \<Rightarrow> ring \<Rightarrow> bool" where
  "ring_holds bs r \<longleftrightarrow> (\<exists>ns. ring_inv ns r \<and> bs = map (block_at r) (live ns r))"

lemma block_at_cong: "(\<forall>i \<in> set is. memory r' i = memory r i) \<Longrightarrow> map (block_at r') is = map (block_at r) is"
  by (simp add: block_at_def)

lemma ring_holds_new: "8 \<le> n \<Longrightarrow> ring_holds [] (ring_new n)"
  by (auto simp: ring_holds_def ring_inv_def tiled_def ring_new_def live_def node_size_floor_def node_size_def
      intro!: exI [of _ "[]"])

lemma ring_holds_allocate:
  assumes "ring_holds bs r" "allocate_ring n r = (res, r')"
  shows "ring_holds (bs @ (case res of None \<Rightarrow> [] | Some p \<Rightarrow> [(p, node_size_ceil n)])) r'"
    and "capacity r' = capacity r"
proof -
  obtain ns where ns: "ring_inv ns r" "bs = map (block_at r) (live ns r)" using assms by (auto simp: ring_holds_def)
  have "allocated (node_size_ceil n) ns r (res, r')" using allocate_ring_allocated [OF ns(1), of n] assms(2) by simp
  then obtain ns' where ns': "ring_inv ns' r'"
    "capacity r' = capacity r" "\<forall>i \<in> set (live ns r). memory r' i = memory r i"
    "case res of None \<Rightarrow> live ns' r' = live ns r
     | Some p \<Rightarrow> p > 0 \<and> live ns' r' = live ns r @ [p - 1] \<and> extent (memory r' (p - 1)) = node_size_ceil n"
    unfolding allocated_def fst_conv snd_conv by blast
  have "map (block_at r') (live ns r) = bs" using block_at_cong [OF ns'(3)] ns by simp
  with ns'(4) have "bs @ (case res of None \<Rightarrow> [] | Some p \<Rightarrow> [(p, node_size_ceil n)]) = map (block_at r') (live ns' r')"
    by (auto split: option.splits) (simp add: block_at_def)
  with ns'(1) show "ring_holds (bs @ (case res of None \<Rightarrow> [] | Some p \<Rightarrow> [(p, node_size_ceil n)])) r'"
    by (auto simp: ring_holds_def)
  show "capacity r' = capacity r" by (rule ns')
qed

lemma ring_holds_deallocate:
  assumes "ring_holds bs r" "p \<in> fst ` set bs"
  shows "\<exists>r'. deallocate_ring p r = Inr r' \<and> ring_holds (filter (\<lambda>b. fst b \<noteq> p) bs) r' \<and> capacity r' = capacity r"
proof -
  obtain ns where ns: "ring_inv ns r" "bs = map (block_at r) (live ns r)" using assms by (auto simp: ring_holds_def)
  then obtain i where i: "i \<in> set (live ns r)" "p = i + 1" using assms by (auto simp: block_at_def)
  from deallocate_ring_inv [OF ns(1) i(1)] obtain r' ns' where r': "deallocate_ring (i + 1) r = Inr r'"
    "ring_inv ns' r'" "capacity r' = capacity r" "live ns' r' = filter (\<lambda>j. j \<noteq> i) (live ns r)"
    "\<forall>j. j \<noteq> i \<longrightarrow> memory r' j = memory r j" by auto
  have "filter (\<lambda>b. fst b \<noteq> p) bs = map (block_at r) (live ns' r')"
    unfolding r'(4) ns(2) filter_map by (simp add: o_def block_at_def i(2))
  also have "\<dots> = map (block_at r') (live ns' r')" using r'(4,5) by (auto simp: block_at_def)
  finally show ?thesis using r' i by (auto simp: ring_holds_def)
qed

lemma ring_holds_blocks:
  assumes "ring_holds bs r"
  shows "distinct (map fst bs)" "(p, k) \<in> set bs \<Longrightarrow> 0 < p \<and> p + k \<le> capacity r"
    "(p, k) \<in> set bs \<Longrightarrow> (q, l) \<in> set bs \<Longrightarrow> p \<noteq> q \<Longrightarrow> {p - 1..<p + k} \<inter> {q - 1..<q + l} = {}"
proof -
  obtain ns where ns: "ring_inv ns r" "bs = map (block_at r) (live ns r)" using assms by (auto simp: ring_holds_def)
  then have til: "tiled ns r" by (simp add: ring_inv_def)
  note t = tiled_blocks [OF til]
  have sub: "set (live ns r) \<subseteq> set ns" by (auto simp: live_def)
  have fst_block: "fst \<circ> block_at r = Suc" by (auto simp: block_at_def)
  have "distinct (live ns r)" using t(1) by (simp add: live_def)
  then show "distinct (map fst bs)" by (simp add: ns(2) fst_block distinct_map)
  show "0 < p \<and> p + k \<le> capacity r" if "(p, k) \<in> set bs" for p k
  proof -
    from that ns(2) sub obtain i where i: "i \<in> set ns" "p = i + 1" "k = extent (memory r i)" by (auto simp: block_at_def)
    have "i + k \<in> cells r i" by (simp add: cells_def i)
    then show ?thesis using t(2) [OF i(1)] i by auto
  qed
  show "{p - 1..<p + k} \<inter> {q - 1..<q + l} = {}" if "(p, k) \<in> set bs" "(q, l) \<in> set bs" "p \<noteq> q" for p k q l
  proof -
    from that ns(2) sub obtain i j where ij: "i \<in> set ns" "p = i + 1" "k = extent (memory r i)"
      "j \<in> set ns" "q = j + 1" "l = extent (memory r j)" by (auto simp: block_at_def)
    then show ?thesis using t(3) [OF ij(1,4)] that(3) by (simp add: cells_def add.commute)
  qed
qed

interpretation ra: allocator allocate_ring deallocate_ring ring_holds node_size_ceil
proof unfold_locales
  fix bs r n r'
  show "ring_holds bs r'" if "ring_holds bs r" "allocate_ring n r = (None, r')"
    using ring_holds_allocate(1) [OF that] by simp
  show "ring_holds (bs @ [(p, node_size_ceil n)]) r'" if "ring_holds bs r" "allocate_ring n r = (Some p, r')" for p
    using ring_holds_allocate(1) [OF that] by simp
  show "\<exists>s'. deallocate_ring p r = Inr s' \<and> ring_holds (filter (\<lambda>b. fst b \<noteq> p) bs) s'"
    if "ring_holds bs r" "p \<in> fst ` set bs" for p
    using ring_holds_deallocate [OF that] by auto
  show "distinct (map fst bs)" if "ring_holds bs r" by (rule ring_holds_blocks(1) [OF that])
  show "{p..<p + k} \<inter> {q..<q + l} = {}"
    if "ring_holds bs r" "(p, k) \<in> set bs" "(q, l) \<in> set bs" "p \<noteq> q" for p k q l
    using ring_holds_blocks(3) [OF that] by (auto simp: disjoint_iff)
qed

text \<open>A ring with nothing in use is reset: any request smaller than the capacity succeeds.\<close>

lemma ring_holds_empty:
  assumes "ring_holds [] r"
  shows "ring_empty r" and "capacity r > 0"
proof -
  obtain ns where ns: "ring_inv ns r" "live ns r = []" using assms by (auto simp: ring_holds_def)
  then have "ns = []" by (cases ns) (auto simp: ring_inv_def live_def)
  then show "ring_empty r" "capacity r > 0" using ns by (auto simp: ring_inv_def tiled_def ring_empty_def split: option.splits)
qed

lemma empty_allocate: "ring_empty r \<Longrightarrow> fst (allocate_ring n r) = (if node_size_ceil n < capacity r then Some 1 else None)"
  by (simp add: ring_empty_def allocate_ring_def Let_def take_block_eq)

lemma node_size_ceil_ge: "n \<le> 2 ^ 64 - 8 \<Longrightarrow> n \<le> node_size_ceil n * node_size"
proof -
  assume "n \<le> 2 ^ 64 - 8"
  then have "(n + (node_size - 1)) mod 2 ^ 64 = n + 7" by (simp add: node_size_def)
  moreover have "n \<le> (n + 7) div 8 * 8" by presburger
  ultimately show ?thesis by (simp add: node_size_ceil_def node_size_def)
qed

text \<open>The states a client reaches that frees only what it holds, with the blocks it holds.\<close>

inductive ring_reach :: "nat \<Rightarrow> (nat \<times> nat) list \<Rightarrow> ring \<Rightarrow> bool" for bytes :: nat where
  fresh: "8 \<le> bytes \<Longrightarrow> ring_reach bytes [] (ring_new bytes)"
| refused: "ring_reach bytes bs r \<Longrightarrow> allocate_ring n r = (None, r') \<Longrightarrow> ring_reach bytes bs r'"
| granted: "ring_reach bytes bs r \<Longrightarrow> allocate_ring n r = (Some p, r')
    \<Longrightarrow> ring_reach bytes (bs @ [(p, extent (memory r' (retr_node p)))]) r'"
| freed: "ring_reach bytes bs r \<Longrightarrow> p \<in> fst ` set bs \<Longrightarrow> deallocate_ring p r = Inr r'
    \<Longrightarrow> ring_reach bytes (filter (\<lambda>b. fst b \<noteq> p) bs) r'"

lemma ring_holds_last:
  assumes "ring_holds (bs @ [(p, k)]) r"
  shows "extent (memory r (retr_node p)) = k"
proof -
  obtain ns where "bs @ [(p, k)] = map (block_at r) (live ns r)" using assms by (auto simp: ring_holds_def)
  then have "(p, k) \<in> block_at r ` set (live ns r)" by (metis in_set_conv_decomp set_map)
  then show ?thesis by (auto simp: block_at_def retr_node_def)
qed

lemma ring_reach_holds [cpph_inv]: "ring_reach bytes bs r \<Longrightarrow> ring_holds bs r \<and> capacity r = bytes div 8"
proof (induction rule: ring_reach.induct)
  case fresh
  then show ?case using ring_holds_new by (simp add: ring_new_def node_size_floor_def node_size_def)
next
  case (refused bs r n r')
  then show ?case using ring_holds_allocate [of bs r n None r'] by simp
next
  case (granted bs r n p r')
  then show ?case using ring_holds_allocate [of bs r n "Some p" r'] ring_holds_last [of bs p "node_size_ceil n" r'] by simp
next
  case (freed bs r p r')
  then show ?case using ring_holds_deallocate [of bs r p] by auto
qed

section \<open>Properties\<close>

text \<open>C17: In every state a client reaches, the blocks it holds lie in the buffer behind their headers and
  neither a block nor a header overlaps another; each block can be freed. A granted request of at most \<open>2 ^ 64 - 8\<close>
  bytes gets a new block of at least the requested size, and leaves the others as they are. (For the seven greater
  sizes the rounding to nodes wraps around, see \<open>ring_huge_request_granted\<close>.)\<close>
theorem ring_blocks_disjoint:
  assumes "ring_reach bytes bs r"
  shows "(\<forall>(p, k) \<in> set bs. 0 < p \<and> p + k \<le> capacity r \<and> ring_extent r p = k * node_size
      \<and> (\<forall>(q, l) \<in> set bs. p \<noteq> q \<longrightarrow> {p - 1..<p + k} \<inter> {q - 1..<q + l} = {}))
    \<and> (\<forall>p r'. allocate_ring n r = (Some p, r') \<longrightarrow> n \<le> 2 ^ 64 - 8 \<longrightarrow>
      n \<le> ring_extent r' p \<and> p \<notin> fst ` set bs \<and> (\<forall>(q, l) \<in> set bs. ring_extent r' q = l * node_size))
    \<and> (\<forall>p \<in> fst ` set bs. \<exists>r'. deallocate_ring p r = Inr r')"
proof (intro conjI)
  note h = conjunct1 [OF ring_reach_holds [OF assms]]
  have ext: "ring_extent s q = l * node_size" if "ring_holds cs s" "(q, l) \<in> set cs" for cs s q l
    using that by (auto simp: ring_holds_def ring_extent_def block_at_def retr_node_def)
  show "\<forall>(p, k) \<in> set bs. 0 < p \<and> p + k \<le> capacity r \<and> ring_extent r p = k * node_size
      \<and> (\<forall>(q, l) \<in> set bs. p \<noteq> q \<longrightarrow> {p - 1..<p + k} \<inter> {q - 1..<q + l} = {})"
    using ring_holds_blocks(2,3) [OF h] ext [OF h] by blast
  show "\<forall>p r'. allocate_ring n r = (Some p, r') \<longrightarrow> n \<le> 2 ^ 64 - 8 \<longrightarrow>
      n \<le> ring_extent r' p \<and> p \<notin> fst ` set bs \<and> (\<forall>(q, l) \<in> set bs. ring_extent r' q = l * node_size)"
  proof (intro allI impI)
    fix p r' assume a: "allocate_ring n r = (Some p, r')" and n: "n \<le> 2 ^ 64 - 8"
    note h' = ra.alloc_Some [OF h a]
    have "ring_extent r' p = node_size_ceil n * node_size" using ext [OF h'] by simp
    moreover have "\<forall>(q, l) \<in> set bs. ring_extent r' q = l * node_size" using ext [OF h'] by auto
    ultimately show "n \<le> ring_extent r' p \<and> p \<notin> fst ` set bs \<and> (\<forall>(q, l) \<in> set bs. ring_extent r' q = l * node_size)"
      using node_size_ceil_ge [OF n] ra.alloc_fresh(1) [OF h a] by simp
  qed
  show "\<forall>p \<in> fst ` set bs. \<exists>r'. deallocate_ring p r = Inr r'" using ra.dealloc_ok [OF h] by blast
qed

text \<open>A ring of ten nodes with a block of two nodes and one of a single node.\<close>

lemma ring_two_blocks: "\<exists>r. ring_reach 80 [(1, 2), (4, 1)] r"
proof -
  let ?a = "allocate_ring 16 (ring_new 80)" let ?b = "allocate_ring 3 (snd ?a)"
  note ev = allocate_ring_def Let_def node_size_ceil_def node_size_def ring_new_def node_size_floor_def
    take_block_eq put_node_def wrap_def retr_node_def
  have a: "?a = (Some 1, snd ?a)" "extent (memory (snd ?a) (retr_node 1)) = 2" by (simp_all add: ev)
  have b: "?b = (Some 4, snd ?b)" "extent (memory (snd ?b) (retr_node 4)) = 1" by (simp_all add: ev)
  have "ring_reach 80 ([] @ [(1, extent (memory (snd ?a) (retr_node 1)))]) (snd ?a)"
    by (rule ring_reach.granted [OF ring_reach.fresh a(1)]) simp
  then have "ring_reach 80 [(1, 2)] (snd ?a)" unfolding a(2) by simp
  from ring_reach.granted [OF this b(1)] show ?thesis unfolding b(2) by auto
qed

theorem ring_blocks_disjoint_witness:
  "\<exists>r. ring_extent r 1 = 16 \<and> (\<exists>r'. deallocate_ring 1 r = Inr r')"
proof -
  obtain r where r: "ring_reach 80 [(1, 2), (4, 1)] r" using ring_two_blocks ..
  from ring_blocks_disjoint [OF r, of 5] have "ring_extent r 1 = 16 \<and> (\<exists>r'. deallocate_ring 1 r = Inr r')"
    by (auto simp: node_size_def)
  then show ?thesis ..
qed

text \<open>Freeing all blocks, in any order, resets the ring: it is empty, and the next request succeeds
  exactly when it needs fewer nodes than the buffer has.\<close>
theorem ring_gives_back:
  assumes "ring_reach bytes bs r" "distinct ps" "set ps = fst ` set bs"
  shows "\<exists>r'. dealloc_all deallocate_ring ps r = Inr r' \<and> ring_empty r'
    \<and> (fst (allocate n r') = Inr 1 \<longleftrightarrow> node_size_ceil n < bytes div 8)"
proof -
  note h = ring_reach_holds [OF assms(1)]
  from ra.dealloc_all_ok [of bs r ps] h assms obtain r' where r': "dealloc_all deallocate_ring ps r = Inr r'"
    "ring_holds (filter (\<lambda>b. fst b \<notin> set ps) bs) r'" by auto
  have "filter (\<lambda>b. fst b \<notin> set ps) bs = []" by (auto simp: filter_empty_conv assms(3))
  then have e: "ring_holds [] r'" using r' by simp
  have cap: "dealloc_all deallocate_ring qs s = Inr s' \<Longrightarrow> ring_holds cs s \<Longrightarrow> distinct qs \<Longrightarrow>
    set qs \<subseteq> fst ` set cs \<Longrightarrow> capacity s' = capacity s" for qs s s' cs
  proof (induction qs arbitrary: s cs)
    case (Cons q qs)
    then obtain s1 where s1: "deallocate_ring q s = Inr s1" "ring_holds (filter (\<lambda>b. fst b \<noteq> q) cs) s1" "capacity s1 = capacity s"
      using ring_holds_deallocate [of cs s q] by auto
    have "set qs \<subseteq> fst ` set (filter (\<lambda>b. fst b \<noteq> q) cs)" using Cons.prems(3,4) by force
    then show ?case using Cons.IH [OF _ s1(2)] Cons.prems s1 by simp
  qed simp
  have "capacity r' = bytes div 8" using cap [OF r'(1) conjunct1 [OF h]] assms h by simp
  then show ?thesis
    using r'(1) ring_holds_empty(1) [OF e] empty_allocate [of r' n]
    by (auto simp: allocate_def split: prod.splits option.splits if_splits)
qed

theorem ring_gives_back_witness:
  "\<exists>r r'. ring_reach 80 [(1, 2), (4, 1)] r \<and> dealloc_all deallocate_ring [4, 1] r = Inr r' \<and> ring_empty r'
    \<and> fst (allocate 64 r') = Inr 1"
proof -
  obtain r where r: "ring_reach 80 [(1, 2), (4, 1)] r" using ring_two_blocks ..
  have "node_size_ceil 64 < 80 div 8" by (simp add: node_size_ceil_def node_size_def)
  with r ring_gives_back [OF r, of "[4, 1]" 64] show ?thesis by auto
qed

text \<open>Requests of the last seven values of \<open>size_t\<close> wrap around in the rounding: on a fresh ring they
  succeed with a block of no bytes.\<close>
lemma ring_huge_request_granted:
  assumes "8 < bytes" "8 \<le> bytes" "2 ^ 64 - 7 \<le> n" "n < 2 ^ 64"
  shows "\<exists>r'. allocate_ring n (ring_new bytes) = (Some 1, r') \<and> ring_extent r' 1 = 0"
proof -
  have "(n + 7) mod 2 ^ 64 = n + 7 - 2 ^ 64" using assms by (subst mod_if) auto
  then have "node_size_ceil n = (n + 7 - 2 ^ 64) div 8" by (simp add: node_size_ceil_def node_size_def)
  also have "\<dots> = 0" using assms by simp
  finally have c: "node_size_ceil n = 0" .
  have "bytes div 8 > 0" using assms by (simp add: div_greater_zero_iff)
  then show ?thesis
    by (simp add: allocate_ring_def Let_def c ring_new_def node_size_floor_def node_size_def take_block_eq
        put_node_def ring_extent_def retr_node_def)
qed

text \<open>A request that the ring refuses is served by the fallback allocator with its header; freeing it
  hands back a count that is 8 bytes short of the allocated one, the header.\<close>
lemma fallback_count_mismatch:
  assumes "allocate_ring n (the_ring s) = (None, r)" "ring_holds bs (the_ring s)" "n \<le> 2 ^ 64 - 8"
  shows "\<exists>s' s'' k. allocate_nt n s = (In_heap (next_id s), s')
    \<and> map_option fst (heap s' (next_id s)) = Some (k + node_size) \<and> n \<le> k
    \<and> fb_deallocate (In_heap (next_id s)) s' = Inr (Some k, s'') \<and> heap s'' (next_id s) = None"
proof -
  have h: "ring_holds bs r" by (rule ra.alloc_None [OF assms(2,1)])
  then obtain ns where "tiled ns r" by (auto simp: ring_holds_def ring_inv_def)
  from flush_ring_inv [OF this tiled_length [OF this]] obtain r' where f: "flush_ring (capacity r) r = Some r'" by auto
  show ?thesis
    using assms(1) f node_size_ceil_ge [OF assms(3)]
    by (simp add: allocate_nt_def Let_def allocate_fallback_size_def fb_deallocate_def pointer_node_def
        is_ring_allocated_def deallocate_fallback_size_def algebra_simps)
qed

end
