(* ===== verification/Event_Queue.thy ===== *)
theory Event_Queue
  imports Ring_Allocator
begin

text \<open>
  The event queue of \<open>thread/event_queue.hxx\<close>: messages posted to it are function nodes, linked
  through \<open>next_\<close> from \<open>front_\<close> to \<open>back_\<close>, in memory of the ring allocator or, when the ring
  refuses, of the heap. The executing thread pops a node, runs it and releases its memory.

  A node is addressed by a pointer; an access through a pointer without a node is the error
  \<open>Dangling\<close>. What a message does to its queue is a list of actions (\<open>body\<close>), its size is
  \<open>msize\<close>: both are parameters, since messages are client code. The log records the order of
  the calls. Each critical section is one step, so what the spin locks exclude cannot happen.
  The specification is a plain list of messages; \<open>eq_inv\<close> relates the linked nodes to it and
  their memory to the blocks of the allocator.
\<close>

section \<open>State\<close>

datatype 'm action = Post 'm | Dispatch 'm | Stop | Restart

datatype eq_error = Dangling | Wrong_memory | Ring_failed ring_error | Assert_active | Nesting_fuel

record 'm fnode =
  ring_allocated :: bool
  next_ptr :: "pointer option"
  message :: 'm

record 'm eq =
  eq_ring :: ring
  eq_nodes :: "pointer \<Rightarrow> 'm fnode option"
  eq_front :: "pointer option"
  eq_back :: "pointer option"
  eq_stopped :: bool
  eq_active :: bool
  eq_next_id :: nat
  eq_log :: "'m list"

definition fnode_size :: nat where "fnode_size = 32"

definition eq_new :: "nat \<Rightarrow> 'm eq" where
  "eq_new bytes = \<lparr>eq_ring = ring_new (node_size_ceil bytes * node_size), eq_nodes = (\<lambda>_. None), eq_front = None,
     eq_back = None, eq_stopped = False, eq_active = False, eq_next_id = 0, eq_log = []\<rparr>"

definition lift_ring :: "ring_error + 'a \<Rightarrow> eq_error + 'a" where
  "lift_ring m = (case m of Inl e \<Rightarrow> Inl (Ring_failed e) | Inr x \<Rightarrow> Inr x)"

section \<open>Operations\<close>

definition eq_empty :: "'m eq \<Rightarrow> bool" where
  "eq_empty q \<longleftrightarrow> eq_front q = None"

definition pop_event :: "'m eq \<Rightarrow> eq_error + pointer option \<times> 'm eq" where
  "pop_event q =
     (case eq_front q of
        None \<Rightarrow> Inr (None, q)
      | Some p \<Rightarrow>
          (case eq_nodes q p of
             None \<Rightarrow> Inl Dangling
           | Some nd \<Rightarrow>
               let q' = q\<lparr>eq_front := next_ptr nd\<rparr>
               in Inr (Some p, if eq_back q' = Some p then q'\<lparr>eq_back := None\<rparr> else q')))"

definition set_next :: "pointer \<Rightarrow> pointer \<Rightarrow> 'm eq \<Rightarrow> eq_error + 'm eq" where
  "set_next b p q =
     (case eq_nodes q b of
        None \<Rightarrow> Inl Dangling
      | Some nd \<Rightarrow> Inr (q\<lparr>eq_nodes := (eq_nodes q)(b \<mapsto> nd\<lparr>next_ptr := Some p\<rparr>)\<rparr>))"

definition push_event :: "pointer \<Rightarrow> 'm eq \<Rightarrow> eq_error + 'm eq" where
  "push_event p q =
     bindE (let q' = q\<lparr>eq_back := Some p\<rparr> in case eq_back q of None \<Rightarrow> Inr q' | Some b \<Rightarrow> set_next b p q')
       (\<lambda>q'. Inr (if eq_front q' = None then q'\<lparr>eq_front := Some p\<rparr> else q'))"

definition eq_release :: "pointer \<Rightarrow> 'm eq \<Rightarrow> eq_error + 'm eq" where
  "eq_release p q =
     (case eq_nodes q p of
        None \<Rightarrow> Inl Dangling
      | Some nd \<Rightarrow>
          let q' = q\<lparr>eq_nodes := (eq_nodes q)(p := None)\<rparr>
          in if ring_allocated nd
             then (case p of
                     In_ring i \<Rightarrow> bindE (lift_ring (deallocate_ring i (eq_ring q))) (\<lambda>r. Inr (q'\<lparr>eq_ring := r\<rparr>))
                   | In_heap _ \<Rightarrow> Inl Wrong_memory)
             else (case p of In_ring _ \<Rightarrow> Inl Wrong_memory | In_heap _ \<Rightarrow> Inr q'))"

text \<open>Memory from the ring, or else from \<open>new\<close>: the two allocations of \<open>post\<close> and of the temporary payloads.\<close>

definition eq_obtain :: "nat \<Rightarrow> 'm eq \<Rightarrow> pointer \<times> 'm eq" where
  "eq_obtain n q =
     (case allocate_ring n (eq_ring q) of
        (Some p, r) \<Rightarrow> (In_ring p, q\<lparr>eq_ring := r\<rparr>)
      | (None, r) \<Rightarrow> (In_heap (eq_next_id q), q\<lparr>eq_ring := r, eq_next_id := eq_next_id q + 1\<rparr>))"

definition post :: "('m \<Rightarrow> nat) \<Rightarrow> 'm \<Rightarrow> 'm eq \<Rightarrow> eq_error + 'm eq" where
  "post msize m q =
     (case eq_obtain (fnode_size + msize m) q of
        (p, q') \<Rightarrow>
          let nd = \<lparr>ring_allocated = (case p of In_ring _ \<Rightarrow> True | In_heap _ \<Rightarrow> False), next_ptr = None, message = m\<rparr>
          in push_event p (q'\<lparr>eq_nodes := (eq_nodes q')(p \<mapsto> nd)\<rparr>))"

definition eq_stop :: "'m eq \<Rightarrow> 'm eq" where
  "eq_stop q = q\<lparr>eq_stopped := True\<rparr>"

definition eq_restart :: "'m eq \<Rightarrow> 'm eq" where
  "eq_restart q = q\<lparr>eq_stopped := False\<rparr>"

text \<open>
  The body of a message. \<open>dispatch\<close> runs a message in place when the thread is executing this
  queue; the fuel bounds the depth of such calls.
\<close>

fun run_actions :: "('m \<Rightarrow> 'm action list) \<Rightarrow> ('m \<Rightarrow> nat) \<Rightarrow> nat \<Rightarrow> 'm action list \<Rightarrow> 'm eq \<Rightarrow> eq_error + 'm eq" where
  "run_actions body msize fuel [] q = Inr q"
| "run_actions body msize fuel (Post m # as) q = bindE (post msize m q) (run_actions body msize fuel as)"
| "run_actions body msize fuel (Stop # as) q = run_actions body msize fuel as (eq_stop q)"
| "run_actions body msize fuel (Restart # as) q = run_actions body msize fuel as (eq_restart q)"
| "run_actions body msize 0 (Dispatch m # as) q =
     (if eq_active q then Inl Nesting_fuel else bindE (post msize m q) (run_actions body msize 0 as))"
| "run_actions body msize (Suc k) (Dispatch m # as) q =
     bindE (if eq_active q then run_actions body msize k (body m) (q\<lparr>eq_log := eq_log q @ [m]\<rparr>) else post msize m q)
       (run_actions body msize (Suc k) as)"

text \<open>\<open>_exec_single\<close> on the node retrieved: the cleanup releases it and restores the active queue.\<close>

definition exec_node :: "('m \<Rightarrow> 'm action list) \<Rightarrow> ('m \<Rightarrow> nat) \<Rightarrow> nat \<Rightarrow> pointer \<Rightarrow> 'm eq \<Rightarrow> eq_error + 'm eq" where
  "exec_node body msize fuel p q =
     (case eq_nodes q p of
        None \<Rightarrow> Inl Dangling
      | Some nd \<Rightarrow>
          let previous = eq_active q; m = message nd in
          bindE (run_actions body msize fuel (body m) (q\<lparr>eq_active := True, eq_log := eq_log q @ [m]\<rparr>)) (\<lambda>q.
          if \<not> eq_active q then Inl Assert_active
          else eq_release p (q\<lparr>eq_active := previous\<rparr>)))"

datatype wait = Ran | Nothing | Blocked

text \<open>
  \<open>exec_one\<close> waits for a message or a stop, \<open>exec_one_until\<close> gives up on a timeout, the variant
  in \<open>flush\<close> does not wait.
\<close>

definition exec_with :: "wait \<Rightarrow> ('m \<Rightarrow> 'm action list) \<Rightarrow> ('m \<Rightarrow> nat) \<Rightarrow> nat \<Rightarrow> 'm eq \<Rightarrow> eq_error + wait \<times> 'm eq" where
  "exec_with on_empty body msize fuel q =
     (if eq_stopped q then Inr (Nothing, q)
      else bindE (pop_event q) (\<lambda>(p, q).
        case p of
          None \<Rightarrow> Inr (on_empty, q)
        | Some p \<Rightarrow> bindE (exec_node body msize fuel p q) (\<lambda>q. Inr (Ran, q))))"

definition exec_one :: "('m \<Rightarrow> 'm action list) \<Rightarrow> ('m \<Rightarrow> nat) \<Rightarrow> nat \<Rightarrow> 'm eq \<Rightarrow> eq_error + wait \<times> 'm eq" where
  "exec_one = exec_with Blocked"

definition exec_one_until :: "('m \<Rightarrow> 'm action list) \<Rightarrow> ('m \<Rightarrow> nat) \<Rightarrow> nat \<Rightarrow> 'm eq \<Rightarrow> eq_error + wait \<times> 'm eq" where
  "exec_one_until = exec_with Nothing"

text \<open>
  The loops \<open>for (; not stopped_ && exec_...; ++n)\<close>. Messages can post for ever, so the number of
  rounds is bounded by a count; \<open>Ran\<close> as the result says that it was used up.
\<close>

fun exec_loop :: "wait \<Rightarrow> ('m \<Rightarrow> 'm action list) \<Rightarrow> ('m \<Rightarrow> nat) \<Rightarrow> nat \<Rightarrow> nat \<Rightarrow> 'm eq \<Rightarrow> eq_error + (wait \<times> nat) \<times> 'm eq" where
  "exec_loop on_empty body msize fuel 0 q = Inr ((Ran, 0), q)"
| "exec_loop on_empty body msize fuel (Suc rounds) q =
     (if eq_stopped q then Inr ((Nothing, 0), q)
      else bindE (exec_with on_empty body msize fuel q) (\<lambda>(w, q).
        if w = Ran
        then bindE (exec_loop on_empty body msize fuel rounds q) (\<lambda>((w, n), q). Inr ((w, Suc n), q))
        else Inr ((w, 0), q)))"

definition exec :: "('m \<Rightarrow> 'm action list) \<Rightarrow> ('m \<Rightarrow> nat) \<Rightarrow> nat \<Rightarrow> nat \<Rightarrow> 'm eq \<Rightarrow> eq_error + (wait \<times> nat) \<times> 'm eq" where
  "exec = exec_loop Blocked"

definition flush :: "('m \<Rightarrow> 'm action list) \<Rightarrow> ('m \<Rightarrow> nat) \<Rightarrow> nat \<Rightarrow> nat \<Rightarrow> 'm eq \<Rightarrow> eq_error + (wait \<times> nat) \<times> 'm eq" where
  "flush = exec_loop Nothing"

definition run_until :: "('m \<Rightarrow> 'm action list) \<Rightarrow> ('m \<Rightarrow> nat) \<Rightarrow> nat \<Rightarrow> nat \<Rightarrow> 'm eq \<Rightarrow> eq_error + (wait \<times> nat) \<times> 'm eq" where
  "run_until = exec_loop Nothing"

text \<open>\<open>dispatch\<close> called from outside of a message.\<close>

definition dispatch :: "('m \<Rightarrow> 'm action list) \<Rightarrow> ('m \<Rightarrow> nat) \<Rightarrow> nat \<Rightarrow> 'm \<Rightarrow> 'm eq \<Rightarrow> eq_error + 'm eq" where
  "dispatch body msize fuel m q =
     (if eq_active q then run_actions body msize fuel (body m) (q\<lparr>eq_log := eq_log q @ [m]\<rparr>) else post msize m q)"

text \<open>The loop of \<open>clear\<close>, over at most as many nodes as are linked.\<close>

fun release_all :: "nat \<Rightarrow> pointer option \<Rightarrow> 'm eq \<Rightarrow> eq_error + 'm eq" where
  "release_all fuel None q = Inr q"
| "release_all 0 (Some p) q = Inl Nesting_fuel"
| "release_all (Suc k) (Some p) q =
     (case eq_nodes q p of None \<Rightarrow> Inl Dangling | Some nd \<Rightarrow> bindE (eq_release p q) (release_all k (next_ptr nd)))"

definition eq_clear :: "nat \<Rightarrow> 'm eq \<Rightarrow> eq_error + 'm eq" where
  "eq_clear fuel q = release_all fuel (eq_front q) (q\<lparr>eq_front := None, eq_back := None\<rparr>)"

text \<open>Temporary payloads, freed through their deallocator.\<close>

definition allocate_temporary_payload :: "nat \<Rightarrow> 'm eq \<Rightarrow> pointer \<times> 'm eq" where
  "allocate_temporary_payload n q = eq_obtain n q"

definition payload_deallocator :: "pointer \<Rightarrow> 'm eq \<Rightarrow> eq_error + 'm eq" where
  "payload_deallocator p q =
     (case p of
        In_ring i \<Rightarrow> bindE (lift_ring (deallocate_ring i (eq_ring q))) (\<lambda>r. Inr (q\<lparr>eq_ring := r\<rparr>))
      | In_heap _ \<Rightarrow> Inr q)"

section \<open>The specification: a list of messages\<close>

text \<open>The messages queued, the stop flag and the calls made so far.\<close>

type_synonym 'm spec = "'m list \<times> bool \<times> 'm list"

fun spec_actions :: "('m \<Rightarrow> 'm action list) \<Rightarrow> nat \<Rightarrow> 'm action list \<Rightarrow> 'm spec \<Rightarrow> 'm spec option" where
  "spec_actions body fuel [] s = Some s"
| "spec_actions body fuel (Post m # as) (ms, st, lg) = spec_actions body fuel as (ms @ [m], st, lg)"
| "spec_actions body fuel (Stop # as) (ms, st, lg) = spec_actions body fuel as (ms, True, lg)"
| "spec_actions body fuel (Restart # as) (ms, st, lg) = spec_actions body fuel as (ms, False, lg)"
| "spec_actions body 0 (Dispatch m # as) s = None"
| "spec_actions body (Suc k) (Dispatch m # as) (ms, st, lg) =
     (case spec_actions body k (body m) (ms, st, lg @ [m]) of
        None \<Rightarrow> None | Some s \<Rightarrow> spec_actions body (Suc k) as s)"

fun spec_loop :: "wait \<Rightarrow> ('m \<Rightarrow> 'm action list) \<Rightarrow> nat \<Rightarrow> nat \<Rightarrow> 'm spec \<Rightarrow> ((wait \<times> nat) \<times> 'm spec) option" where
  "spec_loop on_empty body fuel 0 s = Some ((Ran, 0), s)"
| "spec_loop on_empty body fuel (Suc rounds) (ms, st, lg) =
     (if st then Some ((Nothing, 0), (ms, st, lg))
      else case ms of
        [] \<Rightarrow> Some ((on_empty, 0), (ms, st, lg))
      | m # ms' \<Rightarrow>
          (case spec_actions body fuel (body m) (ms', st, lg @ [m]) of
             None \<Rightarrow> None
           | Some s \<Rightarrow> map_option (\<lambda>((w, n), s). ((w, Suc n), s)) (spec_loop on_empty body fuel rounds s)))"

section \<open>The invariant\<close>

fun links :: "(pointer \<Rightarrow> 'm fnode option) \<Rightarrow> pointer option \<Rightarrow> pointer list \<Rightarrow> bool" where
  "links nodes h [] \<longleftrightarrow> h = None"
| "links nodes h (p # ps) \<longleftrightarrow> h = Some p \<and> (case nodes p of None \<Rightarrow> False | Some nd \<Rightarrow> links nodes (next_ptr nd) ps)"

text \<open>The memory: \<open>P\<close> are the pointers in use, from the ring or from the heap.\<close>

definition mem_ok :: "pointer set \<Rightarrow> 'm eq \<Rightarrow> bool" where
  "mem_ok P q \<longleftrightarrow> (\<forall>i. In_heap i \<in> P \<longrightarrow> i < eq_next_id q)
     \<and> (\<exists>bs. ring_holds bs (eq_ring q) \<and> (\<forall>i. In_ring i \<in> P \<longleftrightarrow> i \<in> fst ` set bs))"

definition is_ring_pointer :: "pointer \<Rightarrow> bool" where
  "is_ring_pointer p = (case p of In_ring _ \<Rightarrow> True | In_heap _ \<Rightarrow> False)"

text \<open>
  \<open>ps\<close> are the nodes queued, \<open>act\<close> the nodes being executed, \<open>tmp\<close> the temporary payloads.
\<close>

definition eq_inv :: "pointer list \<Rightarrow> pointer list \<Rightarrow> pointer list \<Rightarrow> 'm eq \<Rightarrow> bool" where
  "eq_inv ps act tmp q \<longleftrightarrow>
     links (eq_nodes q) (eq_front q) ps \<and> eq_back q = (if ps = [] then None else Some (last ps))
     \<and> distinct (ps @ act @ tmp) \<and> dom (eq_nodes q) = set (ps @ act)
     \<and> (\<forall>p nd. eq_nodes q p = Some nd \<longrightarrow> ring_allocated nd = is_ring_pointer p)
     \<and> mem_ok (set (ps @ act @ tmp)) q"

definition msgs :: "pointer list \<Rightarrow> 'm eq \<Rightarrow> 'm list" where
  "msgs ps q = map (\<lambda>p. message (the (eq_nodes q p))) ps"

definition eq_sim :: "'m spec \<Rightarrow> pointer list \<Rightarrow> pointer list \<Rightarrow> 'm eq \<Rightarrow> bool" where
  "eq_sim s act tmp q \<longleftrightarrow>
     (\<exists>ps. eq_inv ps act tmp q \<and> s = (msgs ps q, eq_stopped q, eq_log q))"

lemma eq_sim_new: "8 \<le> bytes \<Longrightarrow> bytes < 2 ^ 63 \<Longrightarrow> eq_sim ([], False, []) [] [] (eq_new bytes)"
proof -
  assume b: "8 \<le> bytes" "bytes < 2 ^ 63"
  then have "bytes \<le> node_size_ceil bytes * node_size" by (intro node_size_ceil_ge) simp
  with b have "ring_holds [] (ring_new (node_size_ceil bytes * node_size))"
    by (intro ring_holds_new) simp
  then show ?thesis
    by (auto simp: eq_sim_def eq_inv_def eq_new_def mem_ok_def msgs_def intro!: exI [of _ "[]"])
qed

section \<open>Memory\<close>

lemma mem_ok_cong: "eq_ring q' = eq_ring q \<Longrightarrow> eq_next_id q' = eq_next_id q \<Longrightarrow> mem_ok P q' = mem_ok P q"
  by (simp add: mem_ok_def)

lemma eq_obtain_ok:
  assumes "mem_ok P q" "eq_obtain n q = (p, q')"
  shows "p \<notin> P" "mem_ok (insert p P) q'" "\<exists>r i. q' = q\<lparr>eq_ring := r, eq_next_id := i\<rparr>"
proof -
  obtain bs where bs: "ring_holds bs (eq_ring q)" "\<And>i. In_ring i \<in> P \<longleftrightarrow> i \<in> fst ` set bs"
    and hp: "\<And>i. In_heap i \<in> P \<Longrightarrow> i < eq_next_id q"
    using assms by (auto simp: mem_ok_def)
  obtain res r where a: "allocate_ring n (eq_ring q) = (res, r)" by fastforce
  have "p \<notin> P \<and> mem_ok (insert p P) q' \<and> (\<exists>r i. q' = q\<lparr>eq_ring := r, eq_next_id := i\<rparr>)"
  proof (cases res)
    case None
    then have e: "p = In_heap (eq_next_id q)" "q' = q\<lparr>eq_ring := r, eq_next_id := eq_next_id q + 1\<rparr>"
      using a assms(2) by (auto simp: eq_obtain_def)
    have "ring_holds bs r" using ra.alloc_None [OF bs(1)] a None by simp
    with bs(2) hp have "mem_ok (insert p P) q'" by (fastforce simp: mem_ok_def e less_Suc_eq)
    moreover have "p \<notin> P" using hp e by auto
    ultimately show ?thesis using e by auto
  next
    case (Some i)
    then have e: "p = In_ring i" "q' = q\<lparr>eq_ring := r\<rparr>" using a assms(2) by (auto simp: eq_obtain_def)
    have h: "ring_holds (bs @ [(i, node_size_ceil n)]) r" using ra.alloc_Some [OF bs(1)] a Some by simp
    have "i \<notin> fst ` set bs" using ra.alloc_fresh(1) [OF bs(1)] a Some by simp
    then have "p \<notin> P" using e bs by auto
    moreover have "mem_ok (insert p P) q'"
      unfolding mem_ok_def e using h hp bs(2) by (auto intro!: exI [of _ "bs @ [(i, node_size_ceil n)]"])
    moreover have "q' = q\<lparr>eq_ring := r, eq_next_id := eq_next_id q\<rparr>" using e by simp
    ultimately show ?thesis by blast
  qed
  then show "p \<notin> P" "mem_ok (insert p P) q'" "\<exists>r i. q' = q\<lparr>eq_ring := r, eq_next_id := i\<rparr>" by auto
qed

lemma ring_free_ok:
  assumes "mem_ok P q" "In_ring i \<in> P"
  shows "\<exists>r. deallocate_ring i (eq_ring q) = Inr r \<and> mem_ok (P - {In_ring i}) (q\<lparr>eq_ring := r\<rparr>)"
proof -
  obtain bs where bs: "ring_holds bs (eq_ring q)" "\<And>i. In_ring i \<in> P \<longleftrightarrow> i \<in> fst ` set bs"
    and hp: "\<And>i. In_heap i \<in> P \<Longrightarrow> i < eq_next_id q"
    using assms by (auto simp: mem_ok_def)
  from ra.dealloc_ok [OF bs(1), of i] bs(2) assms(2) obtain r where
    r: "deallocate_ring i (eq_ring q) = Inr r" "ring_holds (filter (\<lambda>b. fst b \<noteq> i) bs) r" by auto
  have "In_ring j \<in> P - {In_ring i} \<longleftrightarrow> j \<in> fst ` set (filter (\<lambda>b. fst b \<noteq> i) bs)" for j
    using bs(2) [of j] by force
  with r(2) have "\<exists>bs. ring_holds bs r \<and> (\<forall>j. In_ring j \<in> P - {In_ring i} \<longleftrightarrow> j \<in> fst ` set bs)" by blast
  with hp have "mem_ok (P - {In_ring i}) (q\<lparr>eq_ring := r\<rparr>)" by (simp add: mem_ok_def)
  with r(1) show ?thesis by blast
qed

lemma heap_free_ok: "mem_ok P q \<Longrightarrow> mem_ok (P - {In_heap i}) q"
  by (auto simp: mem_ok_def)

section \<open>The linked nodes\<close>

lemma links_cong:
  "(\<And>p. p \<in> set ps \<Longrightarrow> nodes' p = nodes p) \<Longrightarrow> links nodes' h ps = links nodes h ps"
  by (induction ps arbitrary: h) (auto split: option.splits)

lemma links_upd [simp]: "p \<notin> set ps \<Longrightarrow> links (nodes(p := x)) h ps = links nodes h ps"
  by (rule links_cong) auto

lemma links_snoc:
  assumes "links nodes h ps" "ps \<noteq> []" "distinct ps" "p \<notin> set ps"
    "nodes (last ps) = Some lst" "nodes p = Some nd" "next_ptr nd = None"
  shows "links (nodes(last ps \<mapsto> lst\<lparr>next_ptr := Some p\<rparr>)) h (ps @ [p])"
  using assms
proof (induction ps arbitrary: h)
  case (Cons a ps)
  show ?case
  proof (cases "ps = []")
    case True
    then show ?thesis using Cons.prems by auto
  next
    case False
    then have "last ps \<in> set ps" by simp
    then have "a \<noteq> last ps" using Cons.prems by auto
    then show ?thesis using Cons False by (auto split: option.splits)
  qed
qed simp

lemma eq_inv_node:
  assumes "eq_inv ps act tmp q" "p \<in> set (ps @ act)"
  shows "\<exists>nd. eq_nodes q p = Some nd \<and> ring_allocated nd = is_ring_pointer p"
proof -
  have "p \<in> dom (eq_nodes q)" using assms by (simp add: eq_inv_def)
  then obtain nd where "eq_nodes q p = Some nd" by auto
  then show ?thesis using assms by (auto simp: eq_inv_def)
qed

lemma pop_event_Nil: "eq_inv [] act tmp q \<Longrightarrow> pop_event q = Inr (None, q)"
  by (simp add: eq_inv_def pop_event_def)

lemma pop_event_Cons:
  assumes "eq_inv (p # ps) act tmp q"
  shows "\<exists>f b. pop_event q = Inr (Some p, q\<lparr>eq_front := f, eq_back := b\<rparr>)
    \<and> eq_inv ps (p # act) tmp (q\<lparr>eq_front := f, eq_back := b\<rparr>)"
proof -
  from assms obtain nd where nd: "eq_front q = Some p" "eq_nodes q p = Some nd" "links (eq_nodes q) (next_ptr nd) ps"
    by (auto simp: eq_inv_def split: option.splits)
  let ?b = "if ps = [] then None else eq_back q"
  have b: "eq_back q = Some (last (p # ps))" and d: "distinct (p # ps)" using assms by (auto simp: eq_inv_def)
  then have "eq_back q = Some p \<longleftrightarrow> ps = []" by (auto split: if_splits)
  then have "pop_event q = Inr (Some p, q\<lparr>eq_front := next_ptr nd, eq_back := ?b\<rparr>)"
    using nd by (simp add: pop_event_def Let_def)
  moreover have "set (ps @ (p # act) @ tmp) = set ((p # ps) @ act @ tmp)" "set (ps @ (p # act)) = set ((p # ps) @ act)" by auto
  then have "eq_inv ps (p # act) tmp (q\<lparr>eq_front := next_ptr nd, eq_back := ?b\<rparr>)"
    using assms nd b by (auto simp: eq_inv_def mem_ok_def)
  ultimately show ?thesis by blast
qed

lemma eq_release_ok:
  assumes "eq_inv ps (p # act) tmp q"
  shows "\<exists>r. eq_release p q = Inr (q\<lparr>eq_nodes := (eq_nodes q)(p := None), eq_ring := r\<rparr>)
    \<and> eq_inv ps act tmp (q\<lparr>eq_nodes := (eq_nodes q)(p := None), eq_ring := r\<rparr>)"
proof -
  let ?q = "q\<lparr>eq_nodes := (eq_nodes q)(p := None)\<rparr>"
  obtain nd where nd: "eq_nodes q p = Some nd" "ring_allocated nd = is_ring_pointer p"
    using eq_inv_node [OF assms, of p] by auto
  have d: "distinct (ps @ (p # act) @ tmp)" and dom: "dom (eq_nodes q) = set (ps @ (p # act))"
    and m: "mem_ok (set (ps @ (p # act) @ tmp)) q" using assms by (auto simp: eq_inv_def)
  have P: "set (ps @ (p # act) @ tmp) - {p} = set (ps @ act @ tmp)" using d by auto
  have li: "links (eq_nodes ?q) (eq_front ?q) ps"
    using assms d by (auto simp: eq_inv_def)
  have inv: "eq_inv ps act tmp (?q\<lparr>eq_ring := r\<rparr>)" if "mem_ok (set (ps @ act @ tmp)) (?q\<lparr>eq_ring := r\<rparr>)" for r
    using assms that li d dom by (auto simp: eq_inv_def)
  show ?thesis
  proof (cases p)
    case (In_ring i)
    from ring_free_ok [OF m, of i] In_ring obtain r where r: "deallocate_ring i (eq_ring q) = Inr r"
      "mem_ok (set (ps @ act @ tmp)) (q\<lparr>eq_ring := r\<rparr>)" using P by auto
    have "mem_ok (set (ps @ act @ tmp)) (?q\<lparr>eq_ring := r\<rparr>)" using r(2) by (simp add: mem_ok_def)
    from inv [OF this] show ?thesis
      using nd r(1) In_ring by (auto simp: eq_release_def is_ring_pointer_def lift_ring_def Let_def)
  next
    case (In_heap i)
    have "mem_ok (set (ps @ act @ tmp)) q"
      using heap_free_ok [OF m, of i] unfolding In_heap [symmetric] P .
    then have "mem_ok (set (ps @ act @ tmp)) (?q\<lparr>eq_ring := eq_ring q\<rparr>)"
      by (simp add: mem_ok_def)
    from inv [OF this] show ?thesis
      using nd In_heap by (auto simp: eq_release_def is_ring_pointer_def Let_def intro!: exI [of _ "eq_ring q"])
  qed
qed

lemma push_event_ok:
  assumes inv: "eq_inv ps act tmp q" and p: "p \<notin> set (ps @ act @ tmp)"
    and m: "mem_ok (insert p (set (ps @ act @ tmp))) q'" and q': "q' = q\<lparr>eq_ring := r, eq_next_id := i\<rparr>"
    and nd: "ring_allocated nd = is_ring_pointer p" "next_ptr nd = None"
  shows "\<exists>q''. push_event p (q'\<lparr>eq_nodes := (eq_nodes q')(p \<mapsto> nd)\<rparr>) = Inr q'' \<and> eq_inv (ps @ [p]) act tmp q''
    \<and> msgs (ps @ [p]) q'' = msgs ps q @ [message nd]
    \<and> eq_stopped q'' = eq_stopped q \<and> eq_log q'' = eq_log q \<and> eq_active q'' = eq_active q"
proof (cases "ps = []")
  case True
  let ?q = "q'\<lparr>eq_nodes := (eq_nodes q')(p \<mapsto> nd), eq_back := Some p, eq_front := Some p\<rparr>"
  have "push_event p (q'\<lparr>eq_nodes := (eq_nodes q')(p \<mapsto> nd)\<rparr>) = Inr ?q"
    using inv True by (simp add: push_event_def eq_inv_def q' Let_def)
  moreover have "eq_inv [p] act tmp ?q"
    using inv True p m nd by (auto simp: eq_inv_def q' mem_ok_def)
  ultimately show ?thesis using True by (auto simp: msgs_def q')
next
  case False
  let ?l = "last ps"
  from False have l: "?l \<in> set ps" by simp
  then obtain ln where ln: "eq_nodes q ?l = Some ln" using eq_inv_node [OF inv, of ?l] by auto
  have lp: "?l \<noteq> p" using l p by auto
  have eqs: "eq_back q = Some ?l" "eq_front q \<noteq> None" "links (eq_nodes q) (eq_front q) ps"
    "dom (eq_nodes q) = set (ps @ act)" "distinct (ps @ act @ tmp)"
    "\<And>p nd. eq_nodes q p = Some nd \<Longrightarrow> ring_allocated nd = is_ring_pointer p"
    using inv False by (auto simp: eq_inv_def neq_Nil_conv)
  let ?ns = "(eq_nodes q)(p \<mapsto> nd, ?l \<mapsto> ln\<lparr>next_ptr := Some p\<rparr>)"
  let ?q = "q'\<lparr>eq_nodes := ?ns, eq_back := Some p\<rparr>"
  have push: "push_event p (q'\<lparr>eq_nodes := (eq_nodes q')(p \<mapsto> nd)\<rparr>) = Inr ?q"
    using eqs(1,2) ln lp by (auto simp: push_event_def set_next_def q' Let_def)
  have "links ((eq_nodes q)(p \<mapsto> nd)) (eq_front q) ps"
    using eqs(3) p by auto
  then have li: "links ?ns (eq_front q) (ps @ [p])"
    by (rule links_snoc) (use False p ln lp nd eqs in auto)
  have "set ((ps @ [p]) @ act @ tmp) = insert p (set (ps @ act @ tmp))" by auto
  then have "mem_ok (set ((ps @ [p]) @ act @ tmp)) ?q" using m by (simp add: mem_ok_def)
  moreover have "\<And>x n. ?ns x = Some n \<Longrightarrow> ring_allocated n = is_ring_pointer x"
    using eqs(6) nd ln by (auto split: if_splits)
  moreover have "dom ?ns = set ((ps @ [p]) @ act)" using eqs(4) l by auto
  moreover have "distinct ((ps @ [p]) @ act @ tmp)" using eqs(5) p by auto
  ultimately have "eq_inv (ps @ [p]) act tmp ?q"
    unfolding eq_inv_def using li by (simp add: q')
  moreover have "msgs (ps @ [p]) ?q = msgs ps q @ [message nd]"
    using p ln lp by (auto simp: msgs_def q')
  ultimately show ?thesis using push by (auto simp: q')
qed

lemma post_ok:
  assumes "eq_inv ps act tmp q"
  shows "\<exists>p q'. post msize m q = Inr q' \<and> eq_inv (ps @ [p]) act tmp q' \<and> msgs (ps @ [p]) q' = msgs ps q @ [m]
    \<and> eq_stopped q' = eq_stopped q \<and> eq_log q' = eq_log q \<and> eq_active q' = eq_active q"
proof -
  obtain p q1 where o: "eq_obtain (fnode_size + msize m) q = (p, q1)" by fastforce
  have "mem_ok (set (ps @ act @ tmp)) q" using assms by (simp add: eq_inv_def)
  from eq_obtain_ok [OF this o] obtain r i where "p \<notin> set (ps @ act @ tmp)"
    "mem_ok (insert p (set (ps @ act @ tmp))) q1" "q1 = q\<lparr>eq_ring := r, eq_next_id := i\<rparr>" by auto
  from push_event_ok [OF assms this, of "\<lparr>ring_allocated = is_ring_pointer p, next_ptr = None, message = m\<rparr>"]
  show ?thesis using o by (simp add: post_def Let_def is_ring_pointer_def) blast
qed

section \<open>The queue refines the list\<close>

lemma eq_sim_flags:
  "eq_sim (ms, st, lg) act tmp q \<Longrightarrow> eq_stopped q = st \<and> eq_log q = lg"
  by (auto simp: eq_sim_def)

lemma eq_inv_flags [simp]:
  "eq_inv ps act tmp (q\<lparr>eq_stopped := b\<rparr>) = eq_inv ps act tmp q"
  "eq_inv ps act tmp (q\<lparr>eq_log := l\<rparr>) = eq_inv ps act tmp q"
  "eq_inv ps act tmp (q\<lparr>eq_active := b\<rparr>) = eq_inv ps act tmp q"
  "msgs ps (q\<lparr>eq_stopped := b\<rparr>) = msgs ps q" "msgs ps (q\<lparr>eq_log := l\<rparr>) = msgs ps q"
  "msgs ps (q\<lparr>eq_active := b\<rparr>) = msgs ps q"
  by (simp_all add: eq_inv_def mem_ok_def msgs_def)

lemma eq_sim_active [simp]: "eq_sim s act tmp (q\<lparr>eq_active := b\<rparr>) = eq_sim s act tmp q"
  by (simp add: eq_sim_def)

lemma post_sim:
  assumes "eq_sim (ms, st, lg) act tmp q"
  shows "\<exists>q'. post msize m q = Inr q' \<and> eq_sim (ms @ [m], st, lg) act tmp q' \<and> eq_active q' = eq_active q"
proof -
  from assms obtain ps where "eq_inv ps act tmp q" "ms = msgs ps q" "st = eq_stopped q" "lg = eq_log q"
    by (auto simp: eq_sim_def)
  with post_ok [OF this(1), of msize m] show ?thesis unfolding eq_sim_def by fastforce
qed

lemma run_actions_sim:
  assumes "eq_sim s act tmp q" "eq_active q"
  shows "case spec_actions body fuel as s of
      None \<Rightarrow> run_actions body msize fuel as q = Inl Nesting_fuel
    | Some s' \<Rightarrow> \<exists>q'. run_actions body msize fuel as q = Inr q' \<and> eq_sim s' act tmp q' \<and> eq_active q'"
  using assms
proof (induction body fuel as s arbitrary: q rule: spec_actions.induct)
  case (2 body fuel m as ms st lg)
  from post_sim [OF 2(2), of msize m] obtain q' where q': "post msize m q = Inr q'"
    "eq_sim (ms @ [m], st, lg) act tmp q'" "eq_active q'" using 2(3) by auto
  from 2(1) [OF q'(2,3)] q'(1) show ?case by (auto split: option.splits)
next
  case (3 body fuel as ms st lg)
  then have "eq_sim (ms, True, lg) act tmp (eq_stop q)" "eq_active (eq_stop q)"
    by (auto simp: eq_sim_def eq_stop_def)
  from 3(1) [OF this] show ?case by (auto split: option.splits)
next
  case (4 body fuel as ms st lg)
  then have "eq_sim (ms, False, lg) act tmp (eq_restart q)" "eq_active (eq_restart q)"
    by (auto simp: eq_sim_def eq_restart_def)
  from 4(1) [OF this] show ?case by (auto split: option.splits)
next
  case (6 body k m as ms st lg)
  let ?q = "q\<lparr>eq_log := eq_log q @ [m]\<rparr>"
  have "eq_sim (ms, st, lg @ [m]) act tmp ?q" "eq_active ?q" using 6(3,4) by (auto simp: eq_sim_def)
  note inner = 6(1) [OF this]
  show ?case
  proof (cases "spec_actions body k (body m) (ms, st, lg @ [m])")
    case None
    then show ?thesis using inner 6(4) by simp
  next
    case (Some s1)
    then obtain q1 where "run_actions body msize k (body m) ?q = Inr q1" "eq_sim s1 act tmp q1" "eq_active q1"
      using inner by auto
    with 6(2) [OF Some this(2,3)] Some 6(4) show ?thesis by (auto split: option.splits)
  qed
qed simp_all

lemma exec_with_sim:
  assumes "eq_sim (ms, st, lg) act tmp q"
  shows "if st \<or> ms = [] then exec_with on_empty body msize fuel q = Inr (if st then Nothing else on_empty, q)
    else case spec_actions body fuel (body (hd ms)) (tl ms, st, lg @ [hd ms]) of
        None \<Rightarrow> exec_with on_empty body msize fuel q = Inl Nesting_fuel
      | Some s' \<Rightarrow> \<exists>q'. exec_with on_empty body msize fuel q = Inr (Ran, q') \<and> eq_sim s' act tmp q' \<and> eq_active q' = eq_active q"
proof -
  from assms obtain ps where ps: "eq_inv ps act tmp q" "ms = msgs ps q" "st = eq_stopped q" "lg = eq_log q"
    by (auto simp: eq_sim_def)
  show ?thesis
  proof (cases "st \<or> ms = []")
    case True
    then show ?thesis using ps pop_event_Nil [of act tmp q] by (auto simp: exec_with_def msgs_def)
  next
    case False
    then obtain p ps' where Cons: "ps = p # ps'" using ps(2) by (cases ps) (auto simp: msgs_def)
    from pop_event_Cons [OF ps(1) [unfolded Cons]] obtain q1 where
      q1: "pop_event q = Inr (Some p, q1)" "eq_inv ps' (p # act) tmp q1" "\<exists>f b. q1 = q\<lparr>eq_front := f, eq_back := b\<rparr>" by blast
    obtain nd where nd: "eq_nodes q p = Some nd" using eq_inv_node [OF ps(1), of p] Cons by auto
    have same: "eq_nodes q1 = eq_nodes q" "eq_stopped q1 = eq_stopped q" "eq_log q1 = eq_log q" "eq_active q1 = eq_active q"
      using q1(3) by auto
    have hd_ms: "hd ms = message nd" "tl ms = msgs ps' q1"
      using ps(2) Cons nd same by (simp_all add: msgs_def)
    let ?q2 = "q1\<lparr>eq_active := True, eq_log := eq_log q1 @ [message nd]\<rparr>"
    have sim2: "eq_sim (tl ms, st, lg @ [hd ms]) (p # act) tmp ?q2" "eq_active ?q2"
      using q1(2) ps same hd_ms by (auto simp: eq_sim_def)
    note run = run_actions_sim [OF this, where body = body and fuel = fuel and as = "body (hd ms)" and msize = msize]
    have ex: "exec_with on_empty body msize fuel q = bindE (exec_node body msize fuel p q1) (\<lambda>q. Inr (Ran, q))"
      using False ps q1(1) by (simp add: exec_with_def)
    show ?thesis
    proof (cases "spec_actions body fuel (body (hd ms)) (tl ms, st, lg @ [hd ms])")
      case None
      then show ?thesis using run ex False nd same hd_ms by (simp add: exec_node_def Let_def)
    next
      case (Some s')
      then obtain q3 where q3: "run_actions body msize fuel (body (hd ms)) ?q2 = Inr q3"
        "eq_sim s' (p # act) tmp q3" "eq_active q3" using run by auto
      let ?q4 = "q3\<lparr>eq_active := eq_active q\<rparr>"
      obtain ps4 where ps4: "eq_inv ps4 (p # act) tmp ?q4" "s' = (msgs ps4 ?q4, eq_stopped ?q4, eq_log ?q4)"
        using q3(2) by (auto simp: eq_sim_def)
      from eq_release_ok [OF ps4(1)] obtain r where r: "eq_release p ?q4 = Inr (?q4\<lparr>eq_nodes := (eq_nodes ?q4)(p := None), eq_ring := r\<rparr>)"
        "eq_inv ps4 act tmp (?q4\<lparr>eq_nodes := (eq_nodes ?q4)(p := None), eq_ring := r\<rparr>)" by blast
      have "p \<notin> set ps4" using ps4(1) by (auto simp: eq_inv_def)
      then have "msgs ps4 (?q4\<lparr>eq_nodes := (eq_nodes ?q4)(p := None), eq_ring := r\<rparr>) = msgs ps4 ?q4"
        by (auto simp: msgs_def)
      then have "eq_sim s' act tmp (?q4\<lparr>eq_nodes := (eq_nodes ?q4)(p := None), eq_ring := r\<rparr>)"
        using r(2) ps4(2) by (auto simp: eq_sim_def)
      moreover have "exec_node body msize fuel p q1 = Inr (?q4\<lparr>eq_nodes := (eq_nodes ?q4)(p := None), eq_ring := r\<rparr>)"
        using nd same hd_ms q3 r(1) by (simp add: exec_node_def Let_def)
      ultimately show ?thesis using Some False ex by auto
    qed
  qed
qed

lemma exec_loop_sim:
  assumes "eq_sim s act tmp q" "on_empty \<noteq> Ran"
  shows "case spec_loop on_empty body fuel rounds s of
      None \<Rightarrow> exec_loop on_empty body msize fuel rounds q = Inl Nesting_fuel
    | Some (res, s') \<Rightarrow> \<exists>q'. exec_loop on_empty body msize fuel rounds q = Inr (res, q') \<and> eq_sim s' act tmp q'
        \<and> eq_active q' = eq_active q"
  using assms
proof (induction on_empty body fuel rounds s arbitrary: q rule: spec_loop.induct)
  case (2 on_empty body fuel rounds ms st lg)
  note st = eq_sim_flags [OF 2(2)] and one = exec_with_sim [OF 2(2), where on_empty = on_empty and body = body and msize = msize and fuel = fuel]
  show ?case
  proof (cases "st \<or> ms = []")
    case True
    then show ?thesis using one st 2(2,3) by (auto split: if_splits)
  next
    case False
    then obtain m ms' where ms: "ms = m # ms'" "\<not> st" by (cases ms) auto
    show ?thesis
    proof (cases "spec_actions body fuel (body m) (ms', st, lg @ [m])")
      case None
      then show ?thesis using one ms st by simp
    next
      case (Some s1)
      then obtain q1 where q1: "exec_with on_empty body msize fuel q = Inr (Ran, q1)" "eq_sim s1 act tmp q1" "eq_active q1 = eq_active q"
        using one ms by auto
      have "case spec_loop on_empty body fuel rounds s1 of
          None \<Rightarrow> exec_loop on_empty body msize fuel rounds q1 = Inl Nesting_fuel
        | Some (res, s') \<Rightarrow> \<exists>q'. exec_loop on_empty body msize fuel rounds q1 = Inr (res, q') \<and> eq_sim s' act tmp q'
            \<and> eq_active q' = eq_active q1"
        by (rule 2(1) [OF _ ms(1) Some q1(2) 2(3)]) (use ms in simp)
      then show ?thesis using Some ms st q1(1,3) by (fastforce split: option.splits)
    qed
  qed
qed simp

section \<open>Clearing, payloads and the return of the memory\<close>

lemma release_all_ok:
  assumes "eq_inv [] (ps @ act) tmp q" "links (eq_nodes q) h ps"
  shows "\<exists>q'. release_all (length ps) h q = Inr q' \<and> eq_inv [] act tmp q' \<and> eq_stopped q' = eq_stopped q \<and> eq_log q' = eq_log q"
  using assms
proof (induction ps arbitrary: h q)
  case Nil
  then show ?case by auto
next
  case (Cons p ps)
  then obtain nd where nd: "h = Some p" "eq_nodes q p = Some nd" "links (eq_nodes q) (next_ptr nd) ps"
    by (auto split: option.splits)
  from Cons.prems(1) have inv: "eq_inv [] (p # (ps @ act)) tmp q" by simp
  from eq_release_ok [OF this] obtain r where r: "eq_release p q = Inr (q\<lparr>eq_nodes := (eq_nodes q)(p := None), eq_ring := r\<rparr>)"
    "eq_inv [] (ps @ act) tmp (q\<lparr>eq_nodes := (eq_nodes q)(p := None), eq_ring := r\<rparr>)" by blast
  have "p \<notin> set ps" using inv by (auto simp: eq_inv_def)
  then have "links (eq_nodes (q\<lparr>eq_nodes := (eq_nodes q)(p := None), eq_ring := r\<rparr>)) (next_ptr nd) ps" using nd by simp
  from Cons.IH [OF r(2) this] nd r(1) show ?case by simp
qed

lemma eq_clear_sim:
  assumes "eq_sim (ms, st, lg) act tmp q"
  shows "\<exists>q'. eq_clear (length ms) q = Inr q' \<and> eq_sim ([], st, lg) act tmp q'"
proof -
  from assms obtain ps where ps: "eq_inv ps act tmp q" "ms = msgs ps q" "st = eq_stopped q" "lg = eq_log q"
    by (auto simp: eq_sim_def)
  let ?q = "q\<lparr>eq_front := None, eq_back := None\<rparr>"
  have "eq_inv [] (ps @ act) tmp ?q" "links (eq_nodes ?q) (eq_front q) ps"
    using ps(1) by (auto simp: eq_inv_def mem_ok_def)
  from release_all_ok [OF this] ps show ?thesis by (auto simp: eq_clear_def msgs_def eq_sim_def)
qed

lemma payload_sim:
  assumes "eq_sim s act tmp q" "allocate_temporary_payload n q = (p, q')"
  shows "eq_sim s act (p # tmp) q'"
proof -
  from assms obtain ps where ps: "eq_inv ps act tmp q" "s = (msgs ps q, eq_stopped q, eq_log q)"
    by (auto simp: eq_sim_def)
  then have m: "mem_ok (set (ps @ act @ tmp)) q" by (simp add: eq_inv_def)
  note o = eq_obtain_ok [OF m assms(2) [unfolded allocate_temporary_payload_def]]
  have "set (ps @ act @ p # tmp) = insert p (set (ps @ act @ tmp))" by auto
  with o have "mem_ok (set (ps @ act @ p # tmp)) q'" by simp
  moreover obtain r i where q': "q' = q\<lparr>eq_ring := r, eq_next_id := i\<rparr>" using o(3) by auto
  ultimately have "eq_inv ps act (p # tmp) q'" using ps(1) o(1) unfolding eq_inv_def by simp
  with q' ps(2) show ?thesis by (auto simp: eq_sim_def msgs_def)
qed

lemma payload_deallocator_sim:
  assumes "eq_sim s act (tmp1 @ p # tmp2) q"
  shows "\<exists>q'. payload_deallocator p q = Inr q' \<and> eq_sim s act (tmp1 @ tmp2) q'"
proof -
  from assms obtain ps where ps: "eq_inv ps act (tmp1 @ p # tmp2) q" "s = (msgs ps q, eq_stopped q, eq_log q)"
    by (auto simp: eq_sim_def)
  then have m: "mem_ok (set (ps @ act @ tmp1 @ p # tmp2)) q" and d: "distinct (ps @ act @ tmp1 @ p # tmp2)"
    by (auto simp: eq_inv_def)
  have P: "set (ps @ act @ tmp1 @ p # tmp2) - {p} = set (ps @ act @ tmp1 @ tmp2)" using d by auto
  have sim: "eq_sim s act (tmp1 @ tmp2) (q\<lparr>eq_ring := r\<rparr>)" if "mem_ok (set (ps @ act @ tmp1 @ tmp2)) (q\<lparr>eq_ring := r\<rparr>)" for r
  proof -
    have "eq_inv ps act (tmp1 @ tmp2) (q\<lparr>eq_ring := r\<rparr>)" using ps(1) that by (auto simp: eq_inv_def)
    then show ?thesis using ps(2) by (auto simp: eq_sim_def msgs_def)
  qed
  show ?thesis
  proof (cases p)
    case (In_ring i)
    have "In_ring i \<in> set (ps @ act @ tmp1 @ p # tmp2)" using In_ring by simp
    from ring_free_ok [OF m this] obtain r where "deallocate_ring i (eq_ring q) = Inr r"
      "mem_ok (set (ps @ act @ tmp1 @ tmp2)) (q\<lparr>eq_ring := r\<rparr>)"
      unfolding In_ring [symmetric] P by blast
    with sim show ?thesis by (auto simp: payload_deallocator_def In_ring lift_ring_def)
  next
    case (In_heap i)
    have "mem_ok (set (ps @ act @ tmp1 @ tmp2)) q"
      using heap_free_ok [OF m, of i] unfolding In_heap [symmetric] P .
    then show ?thesis using sim [of "eq_ring q"] In_heap by (simp add: payload_deallocator_def)
  qed
qed

lemma eq_sim_all_returned:
  assumes "eq_sim ([], st, lg) [] [] q"
  shows "eq_nodes q = Map.empty \<and> ring_empty (eq_ring q) \<and> eq_empty q"
proof -
  from assms have inv: "eq_inv [] [] [] q" by (auto simp: eq_sim_def msgs_def)
  then obtain bs where bs: "ring_holds bs (eq_ring q)" "fst ` set bs = {}" by (auto simp: eq_inv_def mem_ok_def)
  then show ?thesis using inv ring_holds_empty(1) by (auto simp: eq_inv_def eq_empty_def)
qed

text \<open>Messages that do not touch the queue run in the order of the list.\<close>

lemma spec_loop_inert:
  assumes "\<And>m. m \<in> set ms \<Longrightarrow> body m = []"
  shows "spec_loop on_empty body fuel (Suc (length ms)) (ms, False, lg) = Some ((on_empty, length ms), ([], False, lg @ ms))"
  using assms by (induction ms arbitrary: lg) auto

primrec post_all :: "('m \<Rightarrow> nat) \<Rightarrow> 'm list \<Rightarrow> 'm eq \<Rightarrow> eq_error + 'm eq" where
  "post_all msize [] q = Inr q"
| "post_all msize (m # ms) q = bindE (post msize m q) (post_all msize ms)"

lemma post_all_sim:
  "eq_sim (ns, st, lg) act tmp q \<Longrightarrow> \<exists>q'. post_all msize ms q = Inr q' \<and> eq_sim (ns @ ms, st, lg) act tmp q'"
proof (induction ms arbitrary: ns q)
  case (Cons m ms)
  from post_sim [OF Cons.prems, of msize m] obtain q1 where
    "post msize m q = Inr q1" "eq_sim (ns @ [m], st, lg) act tmp q1" by auto
  with Cons.IH [OF this(2)] show ?case by simp
qed auto

section \<open>Properties\<close>

text \<open>C16: The linked, ring-allocated event queue refines a list of messages: \<open>post\<close> appends, and the loops
  of \<open>flush\<close>, \<open>exec\<close> and \<open>run_until\<close> do what the specification does with the list, with the same
  number of calls, the same reason to end and the same order of calls, also when messages post,
  dispatch, stop or restart. No access dangles and no memory is freed twice.\<close>
theorem event_queue_refines:
  assumes "eq_sim (ms, st, lg) act tmp q"
  shows "(\<exists>q'. post msize m q = Inr q' \<and> eq_sim (ms @ [m], st, lg) act tmp q')
    \<and> (case spec_loop Nothing body fuel rounds (ms, st, lg) of
         None \<Rightarrow> flush body msize fuel rounds q = Inl Nesting_fuel \<and> run_until body msize fuel rounds q = Inl Nesting_fuel
       | Some (res, s') \<Rightarrow> \<exists>q'. flush body msize fuel rounds q = Inr (res, q') \<and> run_until body msize fuel rounds q = Inr (res, q')
           \<and> eq_sim s' act tmp q')
    \<and> (case spec_loop Blocked body fuel rounds (ms, st, lg) of
         None \<Rightarrow> exec body msize fuel rounds q = Inl Nesting_fuel
       | Some (res, s') \<Rightarrow> \<exists>q'. exec body msize fuel rounds q = Inr (res, q') \<and> eq_sim s' act tmp q')"
  using post_sim [OF assms, of msize m]
    exec_loop_sim [OF assms, where on_empty = Nothing and body = body and fuel = fuel and rounds = rounds and msize = msize] exec_loop_sim [OF assms, where on_empty = Blocked and body = body and fuel = fuel and rounds = rounds and msize = msize]
  by (auto simp: flush_def exec_def run_until_def split: option.splits)

text \<open>The message 3 posts 1 and dispatches 2, which stops the queue.\<close>

definition sample_body :: "nat \<Rightarrow> nat action list" where
  "sample_body m = (if m = 3 then [Post 1, Dispatch 2] else if m = 2 then [Stop] else [])"

theorem event_queue_refines_witness:
  "\<exists>q q'. post_all (\<lambda>_. 8) [5, 3, 7] (eq_new 128) = Inr q
    \<and> flush sample_body (\<lambda>_. 8) 2 9 q = Inr ((Nothing, 2), q') \<and> eq_sim ([7, 1], True, [5, 3, 2]) [] [] q'"
proof -
  have new: "eq_sim ([], False, []) [] [] (eq_new 128 :: nat eq)" by (rule eq_sim_new) simp_all
  from post_all_sim [OF new, of "\<lambda>_. 8" "[5, 3, 7 :: nat]"] obtain q where
    q: "post_all (\<lambda>_. 8) [5, 3, 7 :: nat] (eq_new 128) = Inr q" "eq_sim ([5, 3, 7], False, []) [] [] q" by auto
  have s: "spec_loop Nothing sample_body 2 9 ([5, 3, 7], False, []) = Some ((Nothing, 2), ([7, 1], True, [5, 3, 2]))"
    by (simp add: sample_body_def eval_nat_numeral)
  from event_queue_refines [OF q(2), where m = 0 and body = sample_body and fuel = 2 and rounds = 9 and msize = "\<lambda>_. 8"] q(1) s
  show ?thesis by auto
qed

text \<open>Every byte comes back: \<open>clear\<close> releases exactly the queued messages, freeing a temporary
  payload leaves the queue alone, and once no message is queued or running and no payload is held,
  no node is left and the ring is empty. In particular a queue drained by \<open>flush\<close> has called
  its messages once each, in the order of their posting.\<close>
theorem event_queue_returns_memory:
  assumes "eq_sim (ms, False, lg) [] tmp q"
  shows "(\<exists>q'. eq_clear (length ms) q = Inr q' \<and> eq_sim ([], False, lg) [] tmp q')
    \<and> (\<forall>p tmp1 tmp2. tmp = tmp1 @ p # tmp2 \<longrightarrow>
         (\<exists>q'. payload_deallocator p q = Inr q' \<and> eq_sim (ms, False, lg) [] (tmp1 @ tmp2) q'))
    \<and> ((\<forall>m \<in> set ms. body m = []) \<longrightarrow> tmp = [] \<longrightarrow>
         (\<exists>q'. flush body msize fuel (Suc (length ms)) q = Inr ((Nothing, length ms), q') \<and> eq_log q' = lg @ ms
            \<and> eq_nodes q' = Map.empty \<and> ring_empty (eq_ring q') \<and> eq_empty q'))"
proof (intro conjI impI allI)
  show "\<exists>q'. eq_clear (length ms) q = Inr q' \<and> eq_sim ([], False, lg) [] tmp q'" by (rule eq_clear_sim [OF assms])
  show "\<exists>q'. payload_deallocator p q = Inr q' \<and> eq_sim (ms, False, lg) [] (tmp1 @ tmp2) q'"
    if "tmp = tmp1 @ p # tmp2" for p tmp1 tmp2
    using payload_deallocator_sim [of "(ms, False, lg)" "[]" tmp1 p tmp2 q] assms that by simp
  assume inert: "\<forall>m \<in> set ms. body m = []" and "tmp = []"
  with exec_loop_sim [OF assms, where on_empty = Nothing and body = body and fuel = fuel and rounds = "Suc (length ms)" and msize = msize] spec_loop_inert [of ms body Nothing fuel lg]
  obtain q' where "flush body msize fuel (Suc (length ms)) q = Inr ((Nothing, length ms), q')"
    "eq_sim ([], False, lg @ ms) [] [] q'" by (auto simp: flush_def)
  with eq_sim_all_returned [of False "lg @ ms" q'] eq_sim_flags [of "[]" False "lg @ ms" "[]" "[]" q']
  show "\<exists>q'. flush body msize fuel (Suc (length ms)) q = Inr ((Nothing, length ms), q') \<and> eq_log q' = lg @ ms
      \<and> eq_nodes q' = Map.empty \<and> ring_empty (eq_ring q') \<and> eq_empty q'" by blast
qed

theorem event_queue_returns_memory_witness:
  "\<exists>q q'. post_all (\<lambda>_. 8) [5, 3, 7] (eq_new 128) = Inr q
    \<and> flush (\<lambda>_. []) (\<lambda>_. 8) 0 4 q = Inr ((Nothing, 3), q') \<and> eq_log q' = [5, 3, 7 :: nat] \<and> ring_empty (eq_ring q')"
proof -
  have new: "eq_sim ([], False, []) [] [] (eq_new 128 :: nat eq)" by (rule eq_sim_new) simp_all
  from post_all_sim [OF new, of "\<lambda>_. 8" "[5, 3, 7 :: nat]"] obtain q where
    q: "post_all (\<lambda>_. 8) [5, 3, 7 :: nat] (eq_new 128) = Inr q" "eq_sim ([5, 3, 7], False, []) [] [] q" by auto
  from event_queue_returns_memory [OF q(2), where body = "\<lambda>_. []" and msize = "\<lambda>_. 8" and fuel = 0] q(1)
  show ?thesis by (auto simp: numeral_eq_Suc)
qed

end
