(* ===== verification/Static_Vector.thy ===== *)
theory Static_Vector
  imports Cpph_Prelude
begin

text \<open>
  The fixed-capacity vector of \<open>container/static_vector.hxx\<close>. The buffer is a list of \<open>N\<close> cells,
  each holding an object or raw storage; an iterator is its distance from \<open>_ptr\<close>, an integer,
  because range insertion computes with iterators of another array. Destroying, reading or
  moving from raw storage and touching a cell outside of the buffer is the error \<open>Bad_memory\<close>.
  For element types that move and destroy without throwing the members are \<open>noexcept\<close>, and
  an exception of the checks ends the program.

  The invariant says that exactly the first \<open>size\<close> cells hold objects. The theorems separate the
  uses that keep it from those that do not: \<open>_move_range\<close> copies in the direction that
  destroys overlapping ranges, and the range check refuses \<open>end()\<close> of a full vector.
\<close>

section \<open>State\<close>

datatype 'a cell = Raw | Obj (obj: 'a)

record 'a sv =
  cells :: "'a cell list"
  sv_size :: nat

datatype sv_error = Out_of_range | Logic_error | Bad_alloc | Bad_memory

definition sv_new :: "nat \<Rightarrow> 'a sv" where
  "sv_new n = \<lparr>cells = replicate n Raw, sv_size = 0\<rparr>"

definition sv_capacity :: "'a sv \<Rightarrow> nat" where
  "sv_capacity v = length (cells v)"

definition sv_end :: "'a sv \<Rightarrow> int" where
  "sv_end v = int (sv_size v)"

definition sv_empty :: "'a sv \<Rightarrow> bool" where
  "sv_empty v \<longleftrightarrow> sv_size v = 0"

section \<open>Checks and cells\<close>

definition verify_iterator :: "int \<Rightarrow> 'a sv \<Rightarrow> sv_error + unit" where
  "verify_iterator i v = (if \<not> (i \<ge> 0 \<and> i < int (sv_capacity v)) then Inl Out_of_range else Inr ())"

definition verify_iterator_range :: "int \<Rightarrow> int \<Rightarrow> 'a sv \<Rightarrow> sv_error + unit" where
  "verify_iterator_range b e v =
     (if b > e then Inl Logic_error
      else bindE (verify_iterator b v) (\<lambda>_. verify_iterator e v))"

definition verify_idx :: "nat \<Rightarrow> 'a sv \<Rightarrow> sv_error + unit" where
  "verify_idx i v = (if i \<ge> sv_size v then Inl Out_of_range else Inr ())"

definition verify_space :: "int \<Rightarrow> 'a sv \<Rightarrow> sv_error + unit" where
  "verify_space n v = (if int (sv_size v) + n > int (sv_capacity v) then Inl Bad_alloc else Inr ())"

definition construct_at :: "int \<Rightarrow> 'a \<Rightarrow> 'a sv \<Rightarrow> sv_error + 'a sv" where
  "construct_at i x v =
     (if 0 \<le> i \<and> i < int (sv_capacity v) then Inr (v\<lparr>cells := (cells v)[nat i := Obj x]\<rparr>) else Inl Bad_memory)"

definition read_at :: "int \<Rightarrow> 'a sv \<Rightarrow> sv_error + 'a" where
  "read_at i v =
     (if 0 \<le> i \<and> i < int (sv_capacity v)
      then (case cells v ! nat i of Raw \<Rightarrow> Inl Bad_memory | Obj x \<Rightarrow> Inr x) else Inl Bad_memory)"

definition destruct_at :: "int \<Rightarrow> 'a sv \<Rightarrow> sv_error + 'a sv" where
  "destruct_at i v = bindE (read_at i v) (\<lambda>_. Inr (v\<lparr>cells := (cells v)[nat i := Raw]\<rparr>))"

text \<open>One element is moved: constructed at the new place, destroyed at the old one.\<close>

definition move_one :: "int \<Rightarrow> int \<Rightarrow> 'a sv \<Rightarrow> sv_error + 'a sv" where
  "move_one src dst v = bindE (read_at src v) (\<lambda>x. bindE (construct_at dst x v) (destruct_at src))"

section \<open>Moving ranges\<close>

text \<open>\<open>while (--end, --to_end != to_begin - 1)\<close>, from the last element to the first.\<close>

primrec move_backward :: "nat \<Rightarrow> int \<Rightarrow> int \<Rightarrow> 'a sv \<Rightarrow> sv_error + 'a sv" where
  "move_backward 0 e te v = Inr v"
| "move_backward (Suc n) e te v = bindE (move_one (e - 1) (te - 1) v) (move_backward n (e - 1) (te - 1))"

text \<open>\<open>for (; begin != end; ++begin, ++to_begin)\<close>.\<close>

primrec move_forward :: "nat \<Rightarrow> int \<Rightarrow> int \<Rightarrow> 'a sv \<Rightarrow> sv_error + 'a sv" where
  "move_forward 0 b tb v = Inr v"
| "move_forward (Suc n) b tb v = bindE (move_one b tb v) (move_forward n (b + 1) (tb + 1))"

definition move_range :: "int \<Rightarrow> int \<Rightarrow> int \<Rightarrow> 'a sv \<Rightarrow> sv_error + 'a sv" where
  "move_range b e tb v =
     (if tb = b then Inr v
      else bindE (verify_iterator_range b e v) (\<lambda>_.
        if b > tb then move_backward (nat (e - b)) e (tb + (e - b)) v
        else bindE (verify_space (tb - b) v) (\<lambda>_. move_forward (nat (e - b)) b tb v)))"

section \<open>Operations\<close>

primrec construct_all :: "int \<Rightarrow> 'a list \<Rightarrow> 'a sv \<Rightarrow> sv_error + 'a sv" where
  "construct_all at [] v = Inr v"
| "construct_all at (x # xs) v = bindE (construct_at at x v) (construct_all (at + 1) xs)"

text \<open>
  \<open>_insert\<close>: the target of the move is computed from the source iterator. \<open>src\<close> is the distance
  of the source array from \<open>_ptr\<close>.
\<close>

definition sv_insert_range :: "int \<Rightarrow> int \<Rightarrow> 'a list \<Rightarrow> 'a sv \<Rightarrow> sv_error + 'a sv" where
  "sv_insert_range at src xs v =
     (let num_insert = length xs in
      bindE (move_range at (sv_end v) (src + int num_insert) v) (\<lambda>v.
      construct_all at xs (v\<lparr>sv_size := sv_size v + num_insert\<rparr>)))"

definition sv_insert :: "int \<Rightarrow> 'a \<Rightarrow> 'a sv \<Rightarrow> sv_error + 'a sv" where
  "sv_insert at x v =
     bindE (move_range at (sv_end v) (at + 1) v) (\<lambda>v. construct_at at x (v\<lparr>sv_size := sv_size v + 1\<rparr>))"

definition sv_emplace :: "int \<Rightarrow> 'a \<Rightarrow> 'a sv \<Rightarrow> sv_error + 'a \<times> 'a sv" where
  "sv_emplace at x v =
     bindE (move_range at (sv_end v) (at + 1) v) (\<lambda>v.
     bindE (construct_at at x (v\<lparr>sv_size := sv_size v + 1\<rparr>)) (\<lambda>v. Inr (x, v)))"

definition emplace_back :: "'a \<Rightarrow> 'a sv \<Rightarrow> sv_error + 'a sv" where
  "emplace_back x v =
     bindE (verify_space 1 v) (\<lambda>_. bindE (construct_at (sv_end v) x v) (\<lambda>v. Inr (v\<lparr>sv_size := sv_size v + 1\<rparr>)))"

definition sv_push_back :: "'a \<Rightarrow> 'a sv \<Rightarrow> sv_error + 'a sv" where
  "sv_push_back x v = emplace_back x v"

primrec destruct_range :: "nat \<Rightarrow> int \<Rightarrow> 'a sv \<Rightarrow> sv_error + 'a sv" where
  "destruct_range 0 i v = Inr v"
| "destruct_range (Suc n) i v = bindE (destruct_at i v) (destruct_range n (i + 1))"

definition sv_erase_range :: "int \<Rightarrow> int \<Rightarrow> 'a sv \<Rightarrow> sv_error + int \<times> 'a sv" where
  "sv_erase_range b e v =
     bindE (verify_iterator_range b e v) (\<lambda>_.
     bindE (destruct_range (nat (e - b)) b v) (\<lambda>v.
     bindE (move_range e (sv_end v) b v) (\<lambda>v.
     Inr (b, v\<lparr>sv_size := sv_size v - nat (e - b)\<rparr>))))"

definition sv_erase :: "int \<Rightarrow> 'a sv \<Rightarrow> sv_error + int \<times> 'a sv" where
  "sv_erase i v = sv_erase_range i (i + 1) v"

definition pop_back :: "'a sv \<Rightarrow> sv_error + 'a sv" where
  "pop_back v = bindE (sv_erase (sv_end v - 1) v) (\<lambda>(_, v). Inr v)"

definition sv_clear :: "'a sv \<Rightarrow> sv_error + 'a sv" where
  "sv_clear v = bindE (sv_erase_range 0 (sv_end v) v) (\<lambda>(_, v). Inr v)"

primrec grow :: "nat \<Rightarrow> 'a \<Rightarrow> 'a sv \<Rightarrow> sv_error + 'a sv" where
  "grow 0 t v = Inr v"
| "grow (Suc n) t v = bindE (construct_at (sv_end v) t v) (\<lambda>v. grow n t (v\<lparr>sv_size := sv_size v + 1\<rparr>))"

definition sv_resize :: "nat \<Rightarrow> 'a \<Rightarrow> 'a sv \<Rightarrow> sv_error + 'a sv" where
  "sv_resize n t v =
     (if n < sv_size v then bindE (sv_erase_range (int n) (sv_end v) v) (\<lambda>(_, v). Inr v)
      else if sv_size v < n then bindE (verify_space (int n - int (sv_size v)) v) (\<lambda>_. grow (n - sv_size v) t v)
      else Inr v)"

definition sv_assign :: "int \<Rightarrow> 'a list \<Rightarrow> 'a sv \<Rightarrow> sv_error + 'a sv" where
  "sv_assign src xs v = bindE (sv_erase_range 0 (sv_end v) v) (\<lambda>(_, v). sv_insert_range 0 src xs v)"

definition sv_of_range :: "nat \<Rightarrow> int \<Rightarrow> 'a list \<Rightarrow> sv_error + 'a sv" where
  "sv_of_range n src xs = sv_assign src xs (sv_new n)"

definition sv_of_size :: "nat \<Rightarrow> nat \<Rightarrow> 'a \<Rightarrow> sv_error + 'a sv" where
  "sv_of_size n k t = sv_resize k t (sv_new n)"

definition sv_list :: "'a sv \<Rightarrow> 'a list" where
  "sv_list v = map obj (take (sv_size v) (cells v))"

definition sv_copy_assign :: "int \<Rightarrow> 'a sv \<Rightarrow> 'a sv \<Rightarrow> sv_error + 'a sv" where
  "sv_copy_assign dist r v = sv_assign dist (sv_list r) v"

definition sv_destroy :: "'a sv \<Rightarrow> sv_error + 'a sv" where
  "sv_destroy v = bindE (sv_erase_range 0 (sv_end v) v) (\<lambda>(_, v). Inr (v\<lparr>sv_size := 0\<rparr>))"

definition sv_at :: "nat \<Rightarrow> 'a sv \<Rightarrow> sv_error + 'a" where
  "sv_at i v = bindE (verify_idx i v) (\<lambda>_. read_at (int i) v)"

definition sv_front :: "'a sv \<Rightarrow> sv_error + 'a" where
  "sv_front v = sv_at 0 v"

text \<open>\<open>at(_size - 1)\<close>: the index wraps around on an empty vector and fails the check.\<close>

definition sv_back :: "'a sv \<Rightarrow> sv_error + 'a" where
  "sv_back v = sv_at (if sv_size v = 0 then 2 ^ 64 - 1 else sv_size v - 1) v"

text \<open>\<open>std::equal\<close> and \<open>std::lexicographical_compare\<close> over the elements.\<close>

definition sv_equal :: "'a sv \<Rightarrow> 'a list \<Rightarrow> bool" where
  "sv_equal v ys \<longleftrightarrow> sv_list v = ys"

fun lex_less :: "('a \<Rightarrow> 'a \<Rightarrow> bool) \<Rightarrow> 'a list \<Rightarrow> 'a list \<Rightarrow> bool" where
  "lex_less lt xs [] = False"
| "lex_less lt [] (y # ys) = True"
| "lex_less lt (x # xs) (y # ys) = (if lt x y then True else if lt y x then False else lex_less lt xs ys)"

definition sv_less :: "('a \<Rightarrow> 'a \<Rightarrow> bool) \<Rightarrow> 'a sv \<Rightarrow> 'a list \<Rightarrow> bool" where
  "sv_less lt v ys = lex_less lt (sv_list v) ys"

section \<open>The invariant\<close>

definition sv_inv :: "'a sv \<Rightarrow> bool" where
  "sv_inv v \<longleftrightarrow> sv_size v \<le> sv_capacity v
     \<and> (\<forall>i < sv_capacity v. (cells v ! i = Raw) = (sv_size v \<le> i))"

text \<open>The state with the elements \<open>xs\<close> in a buffer of \<open>n\<close> cells.\<close>

definition sv_of :: "nat \<Rightarrow> 'a list \<Rightarrow> 'a sv" where
  "sv_of n xs = \<lparr>cells = map Obj xs @ replicate (n - length xs) Raw, sv_size = length xs\<rparr>"

lemma sv_of_simps [simp]:
  "sv_size (sv_of n xs) = length xs" "length xs \<le> n \<Longrightarrow> sv_capacity (sv_of n xs) = n"
  "sv_list (sv_of n xs) = xs" "sv_end (sv_of n xs) = int (length xs)"
  by (simp_all add: sv_of_def sv_capacity_def sv_list_def sv_end_def o_def)

lemma sv_of_nth:
  "length xs \<le> n \<Longrightarrow> i < n \<Longrightarrow> cells (sv_of n xs) ! i = (if i < length xs then Obj (xs ! i) else Raw)"
  by (simp add: sv_of_def nth_append)

lemma sv_inv_of: "length xs \<le> n \<Longrightarrow> sv_inv (sv_of n xs)"
  by (auto simp: sv_inv_def sv_of_nth)

lemma sv_inv_iff: "sv_inv v \<longleftrightarrow> sv_size v \<le> sv_capacity v \<and> v = sv_of (sv_capacity v) (sv_list v)"
proof
  assume inv: "sv_inv v"
  then have len: "length (sv_list v) = sv_size v" "sv_size v \<le> sv_capacity v"
    by (auto simp: sv_inv_def sv_list_def sv_capacity_def)
  have "cells v = cells (sv_of (sv_capacity v) (sv_list v))"
  proof (rule nth_equalityI)
    show "length (cells v) = length (cells (sv_of (sv_capacity v) (sv_list v)))"
      using len by (simp add: sv_of_def sv_capacity_def)
    fix i assume "i < length (cells v)"
    then have i: "i < sv_capacity v" by (simp add: sv_capacity_def)
    then have "(cells v ! i = Raw) = (sv_size v \<le> i)" using inv by (simp add: sv_inv_def)
    then show "cells v ! i = cells (sv_of (sv_capacity v) (sv_list v)) ! i"
      using i len by (cases "cells v ! i") (auto simp: sv_of_nth sv_list_def sv_capacity_def)
  qed
  then show "sv_size v \<le> sv_capacity v \<and> v = sv_of (sv_capacity v) (sv_list v)"
    using len by (simp add: sv_of_def)
next
  assume "sv_size v \<le> sv_capacity v \<and> v = sv_of (sv_capacity v) (sv_list v)"
  moreover have "length (sv_list v) \<le> sv_capacity v" by (simp add: sv_list_def sv_capacity_def)
  ultimately show "sv_inv v" using sv_inv_of by metis
qed

text \<open>A state is determined by its cells.\<close>

lemma sv_of_eqI:
  assumes "sv_size v = length xs" "sv_capacity v = n" "length xs \<le> n"
    "\<And>i. i < n \<Longrightarrow> cells v ! i = (if i < length xs then Obj (xs ! i) else Raw)"
  shows "v = sv_of n xs"
proof -
  have "cells v = cells (sv_of n xs)"
    using assms by (intro nth_equalityI) (simp_all add: sv_capacity_def sv_of_nth, simp_all add: sv_of_def)
  then show ?thesis using assms(1) by (simp add: sv_of_def)
qed

section \<open>The moves\<close>

lemma move_one_ok:
  assumes "s < sv_capacity v" "d < sv_capacity v" "s \<noteq> d" "cells v ! s = Obj x"
  shows "move_one (int s) (int d) v = Inr (v\<lparr>cells := (cells v)[d := Obj x, s := Raw]\<rparr>)"
  using assms by (simp add: move_one_def read_at_def construct_at_def destruct_at_def sv_capacity_def nth_list_update)

lemma int_pred: "int (s + Suc c) - 1 = int (s + c)"
  by simp

lemma move_backward_disjoint:
  assumes "d + c \<le> s" "s + c \<le> sv_capacity v" "\<And>i. i < c \<Longrightarrow> cells v ! (s + i) = Obj (ys ! i)"
  shows "\<exists>v'. move_backward c (int (s + c)) (int (d + c)) v = Inr v' \<and> sv_size v' = sv_size v \<and> sv_capacity v' = sv_capacity v
    \<and> (\<forall>j < sv_capacity v. cells v' ! j =
        (if d \<le> j \<and> j < d + c then Obj (ys ! (j - d)) else if s \<le> j \<and> j < s + c then Raw else cells v ! j))"
  using assms
proof (induction c arbitrary: v)
  case (Suc c)
  let ?v = "v\<lparr>cells := (cells v)[d + c := Obj (ys ! c), s + c := Raw]\<rparr>"
  have one: "move_one (int (s + Suc c) - 1) (int (d + Suc c) - 1) v = Inr ?v"
    using Suc.prems unfolding int_pred by (intro move_one_ok) auto
  have "\<And>i. i < c \<Longrightarrow> cells ?v ! (s + i) = Obj (ys ! i)"
    using Suc.prems by (simp add: nth_list_update sv_capacity_def)
  moreover have "d + c \<le> s" "s + c \<le> sv_capacity ?v" using Suc.prems by (simp_all add: sv_capacity_def)
  ultimately obtain v' where v': "move_backward c (int (s + c)) (int (d + c)) ?v = Inr v'" "sv_size v' = sv_size v"
    "sv_capacity v' = sv_capacity v" "\<forall>j < sv_capacity v. cells v' ! j =
        (if d \<le> j \<and> j < d + c then Obj (ys ! (j - d)) else if s \<le> j \<and> j < s + c then Raw else cells ?v ! j)"
    using Suc.IH [of ?v] by (auto simp: sv_capacity_def)
  show ?case
  proof (intro exI [of _ v'] conjI allI impI)
    show "move_backward (Suc c) (int (s + Suc c)) (int (d + Suc c)) v = Inr v'" using one v'(1) by simp
    fix j assume j: "j < sv_capacity v"
    consider "j < d + c" | "j = d + c" | "d + c < j" "j < s + c" | "j = s + c" | "j > s + c" by linarith
    then show "cells v' ! j = (if d \<le> j \<and> j < d + Suc c then Obj (ys ! (j - d)) else if s \<le> j \<and> j < s + Suc c then Raw else cells v ! j)"
      using v'(4) j Suc.prems(1,2) by cases (auto simp: nth_list_update sv_capacity_def)
  qed (use v' in auto)
qed (auto simp: sv_capacity_def)

text \<open>With overlap the moves succeed as well, but the first source cell ends up raw.\<close>

lemma move_backward_first_raw:
  assumes "d < s" "s + c \<le> sv_capacity v" "\<And>i. i < c \<Longrightarrow> cells v ! (s + i) \<noteq> Raw"
  shows "\<exists>v'. move_backward c (int (s + c)) (int (d + c)) v = Inr v' \<and> sv_size v' = sv_size v \<and> sv_capacity v' = sv_capacity v
    \<and> (c > 0 \<longrightarrow> cells v' ! s = Raw)"
  using assms
proof (induction c arbitrary: v)
  case (Suc c)
  obtain x where x: "cells v ! (s + c) = Obj x" using Suc.prems(3) [of c] by (cases "cells v ! (s + c)") auto
  let ?v = "v\<lparr>cells := (cells v)[d + c := Obj x, s + c := Raw]\<rparr>"
  have one: "move_one (int (s + Suc c) - 1) (int (d + Suc c) - 1) v = Inr ?v"
    using Suc.prems x unfolding int_pred by (intro move_one_ok) auto
  have "\<And>i. i < c \<Longrightarrow> cells ?v ! (s + i) \<noteq> Raw"
    using Suc.prems by (simp add: nth_list_update sv_capacity_def)
  moreover have "s + c \<le> sv_capacity ?v" using Suc.prems by (simp add: sv_capacity_def)
  ultimately obtain v' where v': "move_backward c (int (s + c)) (int (d + c)) ?v = Inr v'" "sv_size v' = sv_size v"
    "sv_capacity v' = sv_capacity v" "c > 0 \<longrightarrow> cells v' ! s = Raw"
    using Suc.IH [of ?v] Suc.prems(1) by (auto simp: sv_capacity_def)
  have "cells v' ! s = Raw"
  proof (cases "c = 0")
    case True
    then show ?thesis using v'(1) Suc.prems by (auto simp: sv_capacity_def)
  qed (use v' in simp)
  then show ?case using one v' by (auto intro!: exI [of _ v'])
qed auto

lemma move_forward_one:
  assumes "b + c < sv_capacity v" "c > 0 \<Longrightarrow> cells v ! b = Obj x"
  shows "\<exists>v'. move_forward c (int b) (int b + 1) v = Inr v' \<and> sv_size v' = sv_size v \<and> sv_capacity v' = sv_capacity v
    \<and> (\<forall>j < sv_capacity v. cells v' ! j =
        (if c = 0 then cells v ! j else if b \<le> j \<and> j < b + c then Raw else if j = b + c then Obj x else cells v ! j))"
  using assms
proof (induction c arbitrary: b v)
  case (Suc c)
  let ?v = "v\<lparr>cells := (cells v)[b + 1 := Obj x, b := Raw]\<rparr>"
  have one: "move_one (int b) (int b + 1) v = Inr ?v"
    using move_one_ok [of b v "b + 1" x] Suc.prems by (simp add: add.commute)
  have "cells ?v ! (b + 1) = Obj x" "b + 1 + c < sv_capacity ?v" using Suc.prems by (simp_all add: nth_list_update sv_capacity_def)
  then obtain v' where v': "move_forward c (int (b + 1)) (int (b + 1) + 1) ?v = Inr v'" "sv_size v' = sv_size v"
    "sv_capacity v' = sv_capacity v" "\<forall>j < sv_capacity v. cells v' ! j =
      (if c = 0 then cells ?v ! j else if b + 1 \<le> j \<and> j < b + 1 + c then Raw else if j = b + 1 + c then Obj x else cells ?v ! j)"
    using Suc.IH [of "b + 1" ?v] by (auto simp: sv_capacity_def)
  show ?case
  proof (intro exI [of _ v'] conjI allI impI)
    show "move_forward (Suc c) (int b) (int b + 1) v = Inr v'" using one v'(1) by (simp add: algebra_simps)
    fix j assume j: "j < sv_capacity v"
    show "cells v' ! j = (if Suc c = 0 then cells v ! j else if b \<le> j \<and> j < b + Suc c then Raw
        else if j = b + Suc c then Obj x else cells v ! j)"
      using v'(4) j Suc.prems(1) by (cases "c = 0") (auto simp: nth_list_update sv_capacity_def)
  qed (use v' in auto)
qed (auto simp: sv_capacity_def)

lemma destruct_range_ok:
  assumes "b + c \<le> sv_capacity v" "\<And>i. i < c \<Longrightarrow> cells v ! (b + i) \<noteq> Raw"
  shows "\<exists>v'. destruct_range c (int b) v = Inr v' \<and> sv_size v' = sv_size v \<and> sv_capacity v' = sv_capacity v
    \<and> (\<forall>j < sv_capacity v. cells v' ! j = (if b \<le> j \<and> j < b + c then Raw else cells v ! j))"
  using assms
proof (induction c arbitrary: b v)
  case (Suc c)
  obtain x where x: "cells v ! b = Obj x" using Suc.prems(2) [of 0] by (cases "cells v ! b") auto
  let ?v = "v\<lparr>cells := (cells v)[b := Raw]\<rparr>"
  have one: "destruct_at (int b) v = Inr ?v"
    using x Suc.prems by (simp add: destruct_at_def read_at_def)
  have "cells ?v ! (b + 1 + i) \<noteq> Raw" if "i < c" for i
    using Suc.prems(2) [of "Suc i"] that by simp
  moreover have "b + 1 + c \<le> sv_capacity ?v" using Suc.prems by (simp add: sv_capacity_def)
  ultimately obtain v' where v': "destruct_range c (int (b + 1)) ?v = Inr v'" "sv_size v' = sv_size v"
    "sv_capacity v' = sv_capacity v" "\<forall>j < sv_capacity v. cells v' ! j = (if b + 1 \<le> j \<and> j < b + 1 + c then Raw else cells ?v ! j)"
    using Suc.IH [of "b + 1" ?v] by (auto simp: sv_capacity_def)
  show ?case
    using one v' Suc.prems(1) by (auto simp: algebra_simps sv_capacity_def nth_list_update intro!: exI [of _ v'])
qed (auto simp: sv_capacity_def)

section \<open>Erasing\<close>

lemma verify_range_nat:
  "b \<le> e \<Longrightarrow> verify_iterator_range (int b) (int e) v = (if e < sv_capacity v then Inr () else Inl Out_of_range)"
  by (auto simp: verify_iterator_range_def verify_iterator_def)

text \<open>The state after the elements of the range are destroyed.\<close>

lemma erase_destruct:
  assumes "length xs \<le> n" "b \<le> e" "e \<le> length xs"
  shows "\<exists>v'. destruct_range (nat (int e - int b)) (int b) (sv_of n xs) = Inr v' \<and> sv_size v' = length xs \<and> sv_capacity v' = n
    \<and> (\<forall>j < n. cells v' ! j = (if b \<le> j \<and> j < e then Raw else cells (sv_of n xs) ! j))"
proof -
  have "\<And>i. i < e - b \<Longrightarrow> cells (sv_of n xs) ! (b + i) \<noteq> Raw" using assms by (simp add: sv_of_nth)
  moreover have "b + (e - b) \<le> sv_capacity (sv_of n xs)" "nat (int e - int b) = e - b" using assms by auto
  ultimately show ?thesis
    using destruct_range_ok [of b "e - b" "sv_of n xs"] assms by auto
qed

lemma sv_erase_range_full:
  assumes "b \<le> length xs" "length xs = n"
  shows "sv_erase_range (int b) (int (length xs)) (sv_of n xs) = Inl Out_of_range"
  using assms verify_range_nat [of b "length xs" "sv_of n xs"] by (simp add: sv_erase_range_def)

lemma sv_erase_inner_full:
  assumes "b < e" "e \<le> length xs" "length xs = n"
  shows "sv_erase_range (int b) (int e) (sv_of n xs) = Inl Out_of_range"
proof (cases "e = n")
  case True
  then show ?thesis using sv_erase_range_full [of b xs n] assms by simp
next
  case False
  obtain v1 where v1: "destruct_range (nat (int e - int b)) (int b) (sv_of n xs) = Inr v1" "sv_size v1 = length xs" "sv_capacity v1 = n"
    using erase_destruct [of xs n b e] assms by auto
  then have "move_range (int e) (sv_end v1) (int b) v1 = Inl Out_of_range"
    using verify_range_nat [of e n v1] assms by (simp add: move_range_def sv_end_def)
  then show ?thesis using v1(1) verify_range_nat [of b e "sv_of n xs"] assms False by (simp add: sv_erase_range_def)
qed

lemma sv_erase_range_disjoint:
  assumes "length xs \<le> n" "e < n" "b \<le> e" "e \<le> length xs" "length xs < n" "length xs - e \<le> e - b \<or> b = e"
  shows "sv_erase_range (int b) (int e) (sv_of n xs) = Inr (int b, sv_of n (take b xs @ drop e xs))"
proof -
  obtain v1 where v1: "destruct_range (nat (int e - int b)) (int b) (sv_of n xs) = Inr v1" "sv_size v1 = length xs"
    "sv_capacity v1 = n" "\<forall>j < n. cells v1 ! j = (if b \<le> j \<and> j < e then Raw else cells (sv_of n xs) ! j)"
    using erase_destruct [OF assms(1,3,4)] by blast
  have ver: "verify_iterator_range (int b) (int e) (sv_of n xs) = Inr ()"
    "verify_iterator_range (int e) (int (length xs)) v1 = Inr ()"
    using assms v1(3) by (simp_all add: verify_range_nat)
  show ?thesis
  proof (cases "b = e")
    case True
    have "v1 = sv_of n xs"
      by (rule sv_of_eqI) (use v1(2-4) assms(1) True in \<open>simp_all add: sv_of_nth\<close>)
    then show ?thesis using v1(1) ver True assms(4)
      by (simp add: sv_erase_range_def move_range_def append_take_drop_id)
  next
    case False
    let ?c = "length xs - e"
    have pre: "b + ?c \<le> e" "e + ?c \<le> sv_capacity v1" "\<And>i. i < ?c \<Longrightarrow> cells v1 ! (e + i) = Obj (drop e xs ! i)"
      using assms(1,3,4,6) False v1(3,4) by (simp_all add: sv_of_nth)
    from move_backward_disjoint [OF pre] obtain v2 where v2: "move_backward ?c (int (e + ?c)) (int (b + ?c)) v1 = Inr v2"
      "sv_size v2 = length xs" "sv_capacity v2 = n" "\<forall>j < n. cells v2 ! j =
        (if b \<le> j \<and> j < b + ?c then Obj (drop e xs ! (j - b)) else if e \<le> j \<and> j < e + ?c then Raw else cells v1 ! j)"
      using v1(2,3) by auto
    have mv: "move_range (int e) (sv_end v1) (int b) v1 = Inr v2"
      using v2(1) ver(2) assms(3,4) False v1(2)
      by (simp add: move_range_def sv_end_def nat_diff_distrib of_nat_diff algebra_simps)
    let ?ys = "take b xs @ drop e xs"
    have "v2\<lparr>sv_size := sv_size v2 - nat (int e - int b)\<rparr> = sv_of n ?ys"
    proof (rule sv_of_eqI)
      show "sv_size (v2\<lparr>sv_size := sv_size v2 - nat (int e - int b)\<rparr>) = length ?ys"
        using v2(2) assms by simp
      show "sv_capacity (v2\<lparr>sv_size := sv_size v2 - nat (int e - int b)\<rparr>) = n" using v2(3) by (simp add: sv_capacity_def)
      show "length ?ys \<le> n" using assms by simp
      fix j assume j: "j < n"
      have ylen: "length ?ys = b + ?c" using assms(3,4) by simp
      have v1j: "cells v1 ! j = (if b \<le> j \<and> j < e then Raw else if j < length xs then Obj (xs ! j) else Raw)"
        using v1(4) j sv_of_nth [OF assms(1) j] by simp
      have v2j: "cells v2 ! j = (if b \<le> j \<and> j < b + ?c then Obj (drop e xs ! (j - b))
          else if e \<le> j \<and> j < length xs then Raw else cells v1 ! j)"
        using v2(4) j assms(4) by simp
      have "cells v2 ! j = (if j < b + ?c then Obj (?ys ! j) else Raw)"
      proof (cases "j < b")
        case True
        then show ?thesis unfolding v2j v1j using assms(3,4) False by (simp add: nth_append)
      next
        case ge: False
        show ?thesis
        proof (cases "j < b + ?c")
          case True
          then show ?thesis unfolding v2j using ge assms(3,4) by (simp add: nth_append)
        next
          case False
          then show ?thesis unfolding v2j v1j by simp
        qed
      qed
      then show "cells (v2\<lparr>sv_size := sv_size v2 - nat (int e - int b)\<rparr>) ! j = (if j < length ?ys then Obj (?ys ! j) else Raw)"
        unfolding ylen by simp
    qed
    then show ?thesis using v1(1) mv ver by (simp add: sv_erase_range_def)
  qed
qed

text \<open>With overlap the vector counts a raw cell among its elements afterwards.\<close>

lemma sv_erase_range_overlap:
  assumes "b < e" "length xs < n" "e - b < length xs - e"
  shows "\<exists>v'. sv_erase_range (int b) (int e) (sv_of n xs) = Inr (int b, v') \<and> sv_size v' = length xs - (e - b)
    \<and> e < sv_size v' \<and> cells v' ! e = Raw"
proof -
  have le: "length xs \<le> n" "b \<le> e" "e \<le> length xs" using assms by auto
  obtain v1 where v1: "destruct_range (nat (int e - int b)) (int b) (sv_of n xs) = Inr v1" "sv_size v1 = length xs"
    "sv_capacity v1 = n" "\<forall>j < n. cells v1 ! j = (if b \<le> j \<and> j < e then Raw else cells (sv_of n xs) ! j)"
    using erase_destruct [OF le] by blast
  have ver: "verify_iterator_range (int b) (int e) (sv_of n xs) = Inr ()"
    "verify_iterator_range (int e) (int (length xs)) v1 = Inr ()"
    using assms v1(3) le by (simp_all add: verify_range_nat)
  let ?c = "length xs - e"
  have "\<And>i. i < ?c \<Longrightarrow> cells v1 ! (e + i) \<noteq> Raw" using v1(4) le assms by (simp add: sv_of_nth)
  with move_backward_first_raw [of b e ?c v1] assms v1(2,3) obtain v2 where
    v2: "move_backward ?c (int (e + ?c)) (int (b + ?c)) v1 = Inr v2" "sv_size v2 = length xs" "cells v2 ! e = Raw" by auto
  have "move_range (int e) (sv_end v1) (int b) v1 = Inr v2"
    using v2(1) ver(2) le assms(1) v1(2)
    by (simp add: move_range_def sv_end_def nat_diff_distrib of_nat_diff algebra_simps)
  then show ?thesis using v1(1) ver v2(2,3) assms by (auto simp: sv_erase_range_def)
qed

section \<open>Inserting one element\<close>

lemma sv_insert_full:
  assumes "i \<le> length xs" "length xs = n"
  shows "sv_insert (int i) x (sv_of n xs) = Inl Out_of_range"
  using assms verify_range_nat [of i "length xs" "sv_of n xs"] by (simp add: sv_insert_def move_range_def)

lemma sv_insert_move:
  assumes "i \<le> length xs" "length xs < n"
  shows "\<exists>v'. move_range (int i) (sv_end (sv_of n xs)) (int i + 1) (sv_of n xs) = Inr v' \<and> sv_size v' = length xs \<and> sv_capacity v' = n
    \<and> (\<forall>j < n. cells v' ! j = (if i = length xs then cells (sv_of n xs) ! j else if i \<le> j \<and> j < length xs then Raw
         else if j = length xs then Obj (xs ! i) else cells (sv_of n xs) ! j))"
proof -
  let ?c = "length xs - i"
  have "i + ?c < sv_capacity (sv_of n xs)" "?c > 0 \<Longrightarrow> cells (sv_of n xs) ! i = Obj (xs ! i)"
    using assms by (auto simp: sv_of_nth)
  from move_forward_one [OF this] assms obtain v' where
    v': "move_forward ?c (int i) (int i + 1) (sv_of n xs) = Inr v'" "sv_size v' = length xs" "sv_capacity v' = n"
    "\<forall>j < n. cells v' ! j = (if ?c = 0 then cells (sv_of n xs) ! j else if i \<le> j \<and> j < i + ?c then Raw
         else if j = i + ?c then Obj (xs ! i) else cells (sv_of n xs) ! j)" by auto
  have "nat (int (length xs) - int i) = ?c" using assms by simp
  then have "move_range (int i) (sv_end (sv_of n xs)) (int i + 1) (sv_of n xs) = Inr v'"
    using v'(1) assms verify_range_nat [of i "length xs" "sv_of n xs"]
    by (simp add: move_range_def verify_space_def)
  then show ?thesis using v' assms by (auto intro!: exI [of _ v'])
qed

lemma sv_insert_ok:
  assumes "i \<le> length xs" "length xs < n" "length xs \<le> i + 1"
  shows "sv_insert (int i) x (sv_of n xs) = Inr (sv_of n (take i xs @ x # drop i xs))"
proof -
  obtain v' where v': "move_range (int i) (sv_end (sv_of n xs)) (int i + 1) (sv_of n xs) = Inr v'" "sv_size v' = length xs"
    "sv_capacity v' = n" "\<forall>j < n. cells v' ! j = (if i = length xs then cells (sv_of n xs) ! j else if i \<le> j \<and> j < length xs then Raw
         else if j = length xs then Obj (xs ! i) else cells (sv_of n xs) ! j)"
    using sv_insert_move [OF assms(1,2)] by blast
  let ?v = "v'\<lparr>sv_size := length xs + 1, cells := (cells v')[i := Obj x]\<rparr>"
  have "sv_insert (int i) x (sv_of n xs) = Inr ?v"
    using v'(1-3) assms by (simp add: sv_insert_def construct_at_def sv_capacity_def)
  also have "?v = sv_of n (take i xs @ x # drop i xs)"
  proof (rule sv_of_eqI)
    fix j assume j: "j < n"
    from assms(1,3) consider "j < i" | "j = i" | "j = i + 1" "i + 1 = length xs" | "j > i" "i = length xs" | "j > i + 1" "i + 1 = length xs"
      by fastforce
    then show "cells ?v ! j = (if j < length (take i xs @ x # drop i xs) then Obj ((take i xs @ x # drop i xs) ! j) else Raw)"
    proof cases
      case 3
      then have "i \<noteq> length xs" by simp
      then show ?thesis using v'(3,4) j 3 assms by (simp add: sv_of_nth nth_append nth_list_update sv_capacity_def)
    qed (use v'(3,4) j assms in \<open>auto simp: sv_of_nth nth_append nth_list_update sv_capacity_def\<close>)
  qed (use v'(3) assms in \<open>auto simp: sv_capacity_def\<close>)
  finally show ?thesis .
qed

lemma sv_insert_overlap:
  assumes "i + 1 < length xs" "length xs < n"
  shows "\<exists>v'. sv_insert (int i) x (sv_of n xs) = Inr v' \<and> sv_size v' = length xs + 1 \<and> cells v' ! (i + 1) = Raw"
proof -
  have "i \<le> length xs" using assms by simp
  from sv_insert_move [OF this assms(2)] obtain v' where v': "move_range (int i) (sv_end (sv_of n xs)) (int i + 1) (sv_of n xs) = Inr v'"
    "sv_size v' = length xs" "sv_capacity v' = n" "\<forall>j < n. cells v' ! j = (if i = length xs then cells (sv_of n xs) ! j
       else if i \<le> j \<and> j < length xs then Raw else if j = length xs then Obj (xs ! i) else cells (sv_of n xs) ! j)" by blast
  then show ?thesis using assms by (simp add: sv_insert_def construct_at_def sv_capacity_def)
qed

section \<open>Appending, truncating and assigning\<close>

lemma construct_end:
  assumes "length xs < n"
  shows "construct_at (int (length xs)) x (sv_of n xs) = Inr (sv_of n (xs @ [x])\<lparr>sv_size := length xs\<rparr>)"
proof -
  let ?v = "(sv_of n xs)\<lparr>cells := (cells (sv_of n xs))[length xs := Obj x]\<rparr>"
  have "?v\<lparr>sv_size := length xs + 1\<rparr> = sv_of n (xs @ [x])"
  proof (rule sv_of_eqI)
    fix i assume "i < n"
    then show "cells (?v\<lparr>sv_size := length xs + 1\<rparr>) ! i = (if i < length (xs @ [x]) then Obj ((xs @ [x]) ! i) else Raw)"
      using assms sv_of_nth [of xs n i] by (auto simp: sv_of_def nth_list_update nth_append less_Suc_eq)
  qed (use assms in \<open>simp_all add: sv_of_def sv_capacity_def\<close>)
  then have "sv_of n (xs @ [x])\<lparr>sv_size := length xs\<rparr> = ?v" by (metis sv_of_simps(1) sv.surjective sv.update_convs(2) sv.select_convs sv.update_convs(1))
  then show ?thesis using assms by (simp add: construct_at_def)
qed

lemma sv_of_size_upd [simp]: "sv_of n xs\<lparr>sv_size := k, sv_size := length xs\<rparr> = sv_of n xs"
  by (simp add: sv_of_def)

lemma sv_of_resize [simp]: "sv_of n (xs @ [x])\<lparr>sv_size := Suc (length xs)\<rparr> = sv_of n (xs @ [x])"
  by (simp add: sv_of_def)

lemma emplace_back_of:
  assumes "length xs \<le> n"
  shows "emplace_back x (sv_of n xs) = (if length xs < n then Inr (sv_of n (xs @ [x])) else Inl Bad_alloc)"
proof (cases "length xs < n")
  case True
  then show ?thesis using construct_end [OF True, of x] by (simp add: emplace_back_def verify_space_def)
next
  case False
  then show ?thesis using assms by (simp add: emplace_back_def verify_space_def)
qed

lemma grow_of:
  "length xs + k \<le> n \<Longrightarrow> grow k t (sv_of n xs) = Inr (sv_of n (xs @ replicate k t))"
proof (induction k arbitrary: xs)
  case (Suc k)
  then show ?case using construct_end [of xs n t] Suc.IH [of "xs @ [t]"] by (simp add: replicate_app_Cons_same)
qed simp

lemma sv_erase_tail:
  assumes "k \<le> length xs" "length xs < n"
  shows "sv_erase_range (int k) (int (length xs)) (sv_of n xs) = Inr (int k, sv_of n (take k xs))"
  using sv_erase_range_disjoint [of xs n "length xs" k] assms by simp

lemma pop_back_of:
  assumes "length xs \<le> n"
  shows "pop_back (sv_of n xs) = (if xs = [] \<or> length xs = n then Inl Out_of_range else Inr (sv_of n (butlast xs)))"
proof (cases "xs = []")
  case True
  then show ?thesis by (simp add: pop_back_def sv_erase_def sv_erase_range_def verify_iterator_range_def verify_iterator_def)
next
  case False
  let ?k = "length xs - 1"
  have eq: "sv_erase (sv_end (sv_of n xs) - 1) (sv_of n xs) = sv_erase_range (int ?k) (int (length xs)) (sv_of n xs)"
    using False by (simp add: sv_erase_def of_nat_diff Suc_leI)
  show ?thesis
  proof (cases "length xs = n")
    case True
    then show ?thesis using sv_erase_range_full [of ?k xs n] unfolding pop_back_def eq by simp
  next
    case n: False
    then show ?thesis using sv_erase_tail [of ?k xs n] assms False
      unfolding pop_back_def eq by (simp add: butlast_conv_take)
  qed
qed

lemma sv_clear_of:
  assumes "length xs \<le> n"
  shows "sv_clear (sv_of n xs) = (if length xs = n then Inl Out_of_range else Inr (sv_of n []))"
  using sv_erase_range_full [of 0 xs n] sv_erase_tail [of 0 xs n] assms by (simp add: sv_clear_def)

lemma sv_resize_of:
  assumes "length xs \<le> n"
  shows "sv_resize k t (sv_of n xs) =
    (if k < length xs then (if length xs = n then Inl Out_of_range else Inr (sv_of n (take k xs)))
     else if k \<le> n then Inr (sv_of n (xs @ replicate (k - length xs) t)) else Inl Bad_alloc)"
proof -
  have "sv_resize k t (sv_of n xs) = (if length xs = n then Inl Out_of_range else Inr (sv_of n (take k xs)))" if "k < length xs"
    using that sv_erase_range_full [of k xs n] sv_erase_tail [of k xs n] assms by (simp add: sv_resize_def)
  moreover have "sv_resize k t (sv_of n xs) =
      (if k \<le> n then Inr (sv_of n (xs @ replicate (k - length xs) t)) else Inl Bad_alloc)" if "\<not> k < length xs"
    using that assms grow_of [of xs "k - length xs" n t] by (simp add: sv_resize_def verify_space_def)
  ultimately show ?thesis by simp
qed

lemma sv_at_of:
  "length xs \<le> n \<Longrightarrow> sv_at i (sv_of n xs) = (if i < length xs then Inr (xs ! i) else Inl Out_of_range)"
  by (simp add: sv_at_def verify_idx_def read_at_def sv_of_nth)

lemma construct_all_of:
  "length xs + length ys \<le> n \<Longrightarrow>
     construct_all (int (length xs)) ys ((sv_of n xs)\<lparr>sv_size := k\<rparr>) = Inr ((sv_of n (xs @ ys))\<lparr>sv_size := k\<rparr>)"
proof (induction ys arbitrary: xs)
  case (Cons y ys)
  have "construct_at (int (length xs)) y ((sv_of n xs)\<lparr>sv_size := k\<rparr>) = Inr ((sv_of n (xs @ [y]))\<lparr>sv_size := k\<rparr>)"
  proof -
    have "construct_at i y (v\<lparr>sv_size := k\<rparr>) = (case construct_at i y v of Inl e \<Rightarrow> Inl e | Inr v \<Rightarrow> Inr (v\<lparr>sv_size := k\<rparr>))" for i v
      by (simp add: construct_at_def sv_capacity_def)
    then show ?thesis using construct_end [of xs n y] Cons.prems by simp
  qed
  then show ?case using Cons.IH [of "xs @ [y]"] Cons.prems by (simp add: add.commute)
qed simp

text \<open>
  Assigning a range from another array: it works when the array lies before the vector in memory,
  and fails with \<open>bad_alloc\<close> when it lies behind, however few elements it has.
\<close>

lemma sv_assign_depends_on_address:
  assumes "length xs < n" "ys \<noteq> []" "length ys \<le> n"
  shows "src + int (length ys) \<le> 0 \<Longrightarrow> sv_assign src ys (sv_of n xs) = Inr (sv_of n ys)"
    and "int n \<le> src \<Longrightarrow> sv_assign src ys (sv_of n xs) = Inl Bad_alloc"
proof -
  have e: "sv_assign src ys (sv_of n xs) = sv_insert_range 0 src ys (sv_of n [])"
    using sv_erase_tail [of 0 xs n] assms by (simp add: sv_assign_def)
  have v: "verify_iterator_range 0 0 (sv_of n []) = Inr ()" using assms by (simp add: verify_iterator_range_def verify_iterator_def)
  show "sv_assign src ys (sv_of n xs) = Inr (sv_of n ys)" if "src + int (length ys) \<le> 0"
    using that construct_all_of [of "[]" ys n "length ys"] assms(3) unfolding e
    by (simp add: sv_insert_range_def move_range_def v Let_def)
  show "sv_assign src ys (sv_of n xs) = Inl Bad_alloc" if "int n \<le> src"
  proof -
    have "\<not> src + int (length ys) < 0" "src + int (length ys) \<noteq> 0" "int n < src + int (length ys)"
      using that assms by (auto simp: neq_Nil_conv)
    then show ?thesis unfolding e
      by (simp add: sv_insert_range_def move_range_def v verify_space_def Let_def)
  qed
qed

section \<open>Properties\<close>

text \<open>The operations at the end of the vector, on every branch, in terms of its elements: appending
  until the capacity is reached, element access, \<open>resize\<close>. Taking elements away (\<open>pop_back\<close>,
  \<open>clear\<close>, a smaller \<open>resize\<close>, the destructor) works except on a full vector, where the range check
  throws. Each result satisfies the invariant again.\<close>
theorem sv_end_ops:
  assumes "length xs \<le> n"
  shows "sv_inv (sv_of n xs)
    \<and> emplace_back x (sv_of n xs) = (if length xs < n then Inr (sv_of n (xs @ [x])) else Inl Bad_alloc)
    \<and> pop_back (sv_of n xs) = (if xs = [] \<or> length xs = n then Inl Out_of_range else Inr (sv_of n (butlast xs)))
    \<and> sv_clear (sv_of n xs) = (if length xs = n then Inl Out_of_range else Inr (sv_of n []))
    \<and> sv_destroy (sv_of n xs) = (if length xs = n then Inl Out_of_range else Inr (sv_of n []))
    \<and> sv_resize k t (sv_of n xs) =
        (if k < length xs then (if length xs = n then Inl Out_of_range else Inr (sv_of n (take k xs)))
         else if k \<le> n then Inr (sv_of n (xs @ replicate (k - length xs) t)) else Inl Bad_alloc)
    \<and> sv_at i (sv_of n xs) = (if i < length xs then Inr (xs ! i) else Inl Out_of_range)
    \<and> (xs \<noteq> [] \<longrightarrow> sv_front (sv_of n xs) = Inr (hd xs) \<and> sv_back (sv_of n xs) = Inr (last xs))"
proof -
  have "sv_destroy (sv_of n xs) = (if length xs = n then Inl Out_of_range else Inr (sv_of n []))"
    using sv_erase_range_full [of 0 xs n] sv_erase_tail [of 0 xs n] assms
    by (auto simp: sv_destroy_def)
  then show ?thesis
    using sv_inv_of [OF assms] emplace_back_of [OF assms] pop_back_of [OF assms] sv_clear_of [OF assms]
      sv_resize_of [OF assms] sv_at_of [OF assms]
    by (simp add: sv_front_def sv_back_def hd_conv_nth last_conv_nth)
qed

theorem sv_end_ops_witness:
  "sv_inv (sv_of 4 [1, 2, 3 :: nat]) \<and> emplace_back 9 (sv_of 4 [1, 2, 3 :: nat]) = Inr (sv_of 4 [1, 2, 3, 9])
   \<and> pop_back (sv_of 4 [1, 2, 3 :: nat]) = Inr (sv_of 4 [1, 2])"
  using sv_end_ops [of "[1, 2, 3 :: nat]" 4 9] by simp

text \<open>C19: Erasing and inserting inside the vector are correct exactly when \<open>_move_range\<close> moves no element
  onto a cell that still holds another: fewer elements behind the erased range than in it, or at most
  one element behind the insertion point. In every other case the call returns a vector that counts
  raw cells among its elements. On a full vector both throw, the insertion \<open>out_of_range\<close> instead of
  \<open>bad_alloc\<close>.\<close>
theorem sv_moves:
  assumes "length xs \<le> n" "b < e" "e \<le> length xs" "i \<le> length xs"
  shows "(if length xs = n then sv_erase_range (int b) (int e) (sv_of n xs) = Inl Out_of_range
      else \<exists>v'. sv_erase_range (int b) (int e) (sv_of n xs) = Inr (int b, v')
        \<and> (if length xs - e \<le> e - b then v' = sv_of n (take b xs @ drop e xs) else \<not> sv_inv v'))
    \<and> (if length xs = n then sv_insert (int i) x (sv_of n xs) = Inl Out_of_range
      else \<exists>v'. sv_insert (int i) x (sv_of n xs) = Inr v'
        \<and> (if length xs \<le> i + 1 then v' = sv_of n (take i xs @ x # drop i xs) else \<not> sv_inv v'))"
proof (intro conjI)
  show "if length xs = n then sv_erase_range (int b) (int e) (sv_of n xs) = Inl Out_of_range
      else \<exists>v'. sv_erase_range (int b) (int e) (sv_of n xs) = Inr (int b, v')
        \<and> (if length xs - e \<le> e - b then v' = sv_of n (take b xs @ drop e xs) else \<not> sv_inv v')"
  proof (cases "length xs = n")
    case True
    then show ?thesis using sv_erase_inner_full [of b e xs n] assms by auto
  next
    case False
    then have n: "length xs < n" using assms by simp
    show ?thesis
    proof (cases "length xs - e \<le> e - b")
      case True
      then show ?thesis using sv_erase_range_disjoint [of xs n e b] assms n by simp
    next
      case overlap: False
      then obtain v' where v': "sv_erase_range (int b) (int e) (sv_of n xs) = Inr (int b, v')" "e < sv_size v'" "cells v' ! e = Raw"
        using sv_erase_range_overlap [of b e xs n] assms n by auto
      then have "\<not> sv_inv v'" by (auto simp: sv_inv_def intro!: exI [of _ e])
      then show ?thesis using v' overlap False by auto
    qed
  qed
  show "if length xs = n then sv_insert (int i) x (sv_of n xs) = Inl Out_of_range
      else \<exists>v'. sv_insert (int i) x (sv_of n xs) = Inr v'
        \<and> (if length xs \<le> i + 1 then v' = sv_of n (take i xs @ x # drop i xs) else \<not> sv_inv v')"
  proof (cases "length xs = n")
    case True
    then show ?thesis using sv_insert_full [of i xs n x] assms by simp
  next
    case False
    show ?thesis
    proof (cases "length xs \<le> i + 1")
      case True
      then show ?thesis using sv_insert_ok [of i xs n x] assms False by simp
    next
      case le: False
      then obtain v' where v': "sv_insert (int i) x (sv_of n xs) = Inr v'" "sv_size v' = length xs + 1" "cells v' ! (i + 1) = Raw"
        using sv_insert_overlap [of i xs n x] assms False by auto
      have "\<not> sv_inv v'"
      proof
        assume "sv_inv v'"
        moreover from this have "i + 1 < sv_capacity v'" using v'(2) le by (auto simp: sv_inv_def)
        ultimately show False using v' le by (auto simp: sv_inv_def)
      qed
      then show ?thesis using v' le False by auto
    qed
  qed
qed

text \<open>Erasing the first two of five elements breaks the vector, as does inserting before the third of four.\<close>

theorem sv_moves_witness:
  "(\<exists>v'. sv_erase_range 0 2 (sv_of 8 [1, 2, 3, 4, 5 :: nat]) = Inr (0, v') \<and> \<not> sv_inv v')
   \<and> (\<exists>v'. sv_insert 2 9 (sv_of 8 [1, 2, 3, 4, 5 :: nat]) = Inr v' \<and> \<not> sv_inv v')"
  using sv_moves [of "[1, 2, 3, 4, 5 :: nat]" 8 0 2 2 9] by simp

end
