(* ===== verification/Jsmn.thy ===== *)
theory Jsmn
  imports Cpph_Prelude
begin

text \<open>
  The JSON tokenizer \<open>third/jsmn.h\<close> in the configuration the repository compiles it with: strict mode
  and parent links. Text positions and token indices are natural numbers, what C keeps in an \<open>int\<close> with
  -1 for "none" is an integer; texts are shorter than \<open>2 ^ 31\<close>. The token array is the list of the
  tokens handed out so far (\<open>toknext\<close> is its length) and \<open>n\<close> its capacity. The mode without an array
  (\<open>tokens == NULL\<close>) is not used by the library. A round that fails gives the error and the parser it leaves:
  with \<open>JSMN_ERROR_PART\<close> and \<open>JSMN_ERROR_NOMEM\<close> the one it began with, so that the call can be resumed; with
  \<open>JSMN_ERROR_INVAL\<close> there may be a token that was handed out and not filled. The type of a new token is what the
  array holds, which stands here as \<open>Jsmn_undefined\<close>.
\<close>

section \<open>Tokens and parser\<close>

datatype jsmntype = Jsmn_undefined | Jsmn_object | Jsmn_array | Jsmn_string | Jsmn_primitive

text \<open>The last value stands for a walk along the parent links that does not end.\<close>

datatype jsmnerr = Nomem | Inval | Part | Runaway

record jsmntok =
  tok_type :: jsmntype
  tok_start :: int
  tok_end :: int
  tok_size :: int
  tok_parent :: int

record jsmn =
  jpos :: nat
  jtoks :: "jsmntok list"
  toksuper :: int

definition jsmn_init :: jsmn where
  "jsmn_init = \<lparr>jpos = 0, jtoks = [], toksuper = - 1\<rparr>"

text \<open>The parser after a round, or the error and the parser it leaves.\<close>

type_synonym jsmn_result = "jsmnerr \<times> jsmn + jsmn"

definition alloc_token :: "nat \<Rightarrow> jsmn \<Rightarrow> jsmn option" where
  "alloc_token n p =
     (if length (jtoks p) \<ge> n then None
      else Some (p\<lparr>jtoks := jtoks p @ [\<lparr>tok_type = Jsmn_undefined, tok_start = - 1, tok_end = - 1, tok_size = 0, tok_parent = - 1\<rparr>]\<rparr>))"

definition fill_token :: "jsmntype \<Rightarrow> nat \<Rightarrow> nat \<Rightarrow> jsmntok \<Rightarrow> jsmntok" where
  "fill_token t s e tok = tok\<lparr>tok_type := t, tok_start := int s, tok_end := int e, tok_size := 0\<rparr>"

definition upd_tok :: "int \<Rightarrow> (jsmntok \<Rightarrow> jsmntok) \<Rightarrow> jsmn \<Rightarrow> jsmn" where
  "upd_tok i f p = p\<lparr>jtoks := (jtoks p)[nat i := f (jtoks p ! nat i)]\<rparr>"

definition last_tok :: "jsmn \<Rightarrow> int" where
  "last_tok p = int (length (jtoks p)) - 1"

section \<open>Primitives and strings\<close>

text \<open>Where a scan from a position ends: at the delimiter, at an invalid character, or at the end of the text.\<close>

datatype scan = Found nat | Bad | Short

fun primitive_end :: "nat \<Rightarrow> byte list \<Rightarrow> scan" where
  "primitive_end i [] = Short"
| "primitive_end i (c # s) =
     (if c = 0 then Short
      else if c \<in> set [9, 13, 10, 32, 44, 93, 125] then Found i
      else if sint c < 32 \<or> sint c \<ge> 127 then Bad
      else primitive_end (i + 1) s)"

definition is_hex :: "byte \<Rightarrow> bool" where
  "is_hex c \<longleftrightarrow> 48 \<le> sint c \<and> sint c \<le> 57 \<or> 65 \<le> sint c \<and> sint c \<le> 70 \<or> 97 \<le> sint c \<and> sint c \<le> 102"

text \<open>How many of up to \<open>k\<close> characters are hexadecimal digits; \<open>None\<close> on another character.\<close>

fun hex_run :: "nat \<Rightarrow> byte list \<Rightarrow> nat option" where
  "hex_run 0 s = Some 0"
| "hex_run (Suc k) [] = Some 0"
| "hex_run (Suc k) (c # s) = (if c = 0 then Some 0 else if is_hex c then map_option Suc (hex_run k s) else None)"

definition plain_escapes :: "byte list" where
  "plain_escapes = [34, 47, 92, 98, 102, 114, 110, 116]"

function (sequential) string_end :: "nat \<Rightarrow> byte list \<Rightarrow> scan" where
  "string_end i [] = Short"
| "string_end i (c # s) =
     (if c = 0 then Short
      else if c = 34 then Found i
      else if c = 92 then
        (case s of
           [] \<Rightarrow> string_end (i + 1) s
         | e # s' \<Rightarrow>
             if e \<in> set plain_escapes then string_end (i + 2) s'
             else if e = 120 \<or> e = 117 then
               (case hex_run (if e = 120 then 2 else 4) s' of
                  None \<Rightarrow> Bad
                | Some k \<Rightarrow> string_end (i + 2 + k) (drop k s'))
             else Bad)
      else string_end (i + 1) s)"
  by pat_completeness auto
termination
  by (relation "measure (\<lambda>(_, s). length s)") auto

definition token_at :: "nat \<Rightarrow> jsmntype \<Rightarrow> nat \<Rightarrow> nat \<Rightarrow> nat \<Rightarrow> jsmn \<Rightarrow> jsmn_result" where
  "token_at n t s e after p =
     (case alloc_token n p of
        None \<Rightarrow> Inl (Nomem, p)
      | Some q \<Rightarrow> Inr ((upd_tok (last_tok q) (\<lambda>tok. (fill_token t s e tok)\<lparr>tok_parent := toksuper q\<rparr>) q)\<lparr>jpos := after\<rparr>))"

text \<open>Both leave the parser in front of the character at which the loop goes on.\<close>

definition parse_primitive :: "nat \<Rightarrow> byte list \<Rightarrow> jsmn \<Rightarrow> jsmn_result" where
  "parse_primitive n js p =
     (case primitive_end (jpos p) (drop (jpos p) js) of
        Bad \<Rightarrow> Inl (Inval, p) | Short \<Rightarrow> Inl (Part, p) | Found e \<Rightarrow> token_at n Jsmn_primitive (jpos p) e (e - 1) p)"

definition parse_string :: "nat \<Rightarrow> byte list \<Rightarrow> jsmn \<Rightarrow> jsmn_result" where
  "parse_string n js p =
     (case string_end (jpos p + 1) (drop (jpos p + 1) js) of
        Bad \<Rightarrow> Inl (Inval, p) | Short \<Rightarrow> Inl (Part, p) | Found e \<Rightarrow> token_at n Jsmn_string (jpos p + 1) e e p)"

section \<open>The parser\<close>

definition is_open :: "jsmntok \<Rightarrow> bool" where
  "is_open tok \<longleftrightarrow> tok_start tok \<noteq> - 1 \<and> tok_end tok = - 1"

definition open_token :: "nat \<Rightarrow> jsmntype \<Rightarrow> jsmn \<Rightarrow> jsmn_result" where
  "open_token n t p =
     (case alloc_token n p of
        None \<Rightarrow> Inl (Nomem, p)
      | Some q \<Rightarrow>
          if toksuper q \<noteq> - 1 \<and> tok_type (jtoks q ! nat (toksuper q)) = Jsmn_object then Inl (Inval, q)
          else
            let q = (if toksuper q \<noteq> - 1
                     then upd_tok (last_tok q) (\<lambda>tok. tok\<lparr>tok_parent := toksuper q\<rparr>)
                            (upd_tok (toksuper q) (\<lambda>tok. tok\<lparr>tok_size := tok_size tok + 1\<rparr>) q)
                     else q);
                q = upd_tok (last_tok q) (\<lambda>tok. tok\<lparr>tok_type := t, tok_start := int (jpos q)\<rparr>) q
            in Inr (q\<lparr>toksuper := last_tok q\<rparr>))"

text \<open>The walk from the last token along the parents to the innermost open one, which must be of type \<open>t\<close>.\<close>

fun close_token :: "nat \<Rightarrow> jsmntype \<Rightarrow> int \<Rightarrow> jsmn \<Rightarrow> jsmn_result" where
  "close_token 0 t i p = Inl (Runaway, p)"
| "close_token (Suc fuel) t i p =
     (let tok = jtoks p ! nat i in
      if is_open tok then
        (if tok_type tok \<noteq> t then Inl (Inval, p)
         else Inr ((upd_tok i (\<lambda>tok. tok\<lparr>tok_end := int (jpos p) + 1\<rparr>) p)\<lparr>toksuper := tok_parent tok\<rparr>))
      else if tok_parent tok = - 1 then
        (if tok_type tok \<noteq> t \<or> toksuper p = - 1 then Inl (Inval, p) else Inr p)
      else close_token fuel t (tok_parent tok) p)"

definition grow_super :: "jsmn \<Rightarrow> jsmn" where
  "grow_super p =
     (if toksuper p \<noteq> - 1 then upd_tok (toksuper p) (\<lambda>tok. tok\<lparr>tok_size := tok_size tok + 1\<rparr>) p else p)"

definition may_be_primitive :: "jsmn \<Rightarrow> bool" where
  "may_be_primitive p \<longleftrightarrow>
     (toksuper p \<noteq> - 1 \<longrightarrow>
        (let t = jtoks p ! nat (toksuper p)
         in \<not> (tok_type t = Jsmn_object \<or> tok_type t = Jsmn_string \<and> tok_size t \<noteq> 0)))"

definition after_comma :: "jsmn \<Rightarrow> jsmn" where
  "after_comma p =
     (if toksuper p \<noteq> - 1 \<and> tok_type (jtoks p ! nat (toksuper p)) \<notin> {Jsmn_array, Jsmn_object}
      then p\<lparr>toksuper := tok_parent (jtoks p ! nat (toksuper p))\<rparr> else p)"

definition starts_primitive :: "byte \<Rightarrow> bool" where
  "starts_primitive c \<longleftrightarrow> c \<in> set [45, 48, 49, 50, 51, 52, 53, 54, 55, 56, 57, 116, 102, 110]"

text \<open>One round of the loop, up to its increment of the position.\<close>

definition jsmn_char :: "nat \<Rightarrow> byte list \<Rightarrow> jsmn \<Rightarrow> jsmn_result" where
  "jsmn_char n js p =
     (let c = js ! jpos p in
      if c = 123 then open_token n Jsmn_object p
      else if c = 91 then open_token n Jsmn_array p
      else if c = 125 \<or> c = 93 then
        (if jtoks p = [] then Inl (Inval, p)
         else close_token (length (jtoks p)) (if c = 125 then Jsmn_object else Jsmn_array) (last_tok p) p)
      else if c = 34 then bindE (parse_string n js p) (\<lambda>p. Inr (grow_super p))
      else if c \<in> set [9, 13, 10, 32] then Inr p
      else if c = 58 then Inr (p\<lparr>toksuper := last_tok p\<rparr>)
      else if c = 44 then Inr (after_comma p)
      else if starts_primitive c then
        (if may_be_primitive p then bindE (parse_primitive n js p) (\<lambda>p. Inr (grow_super p)) else Inl (Inval, p))
      else Inl (Inval, p))"

definition jsmn_step :: "nat \<Rightarrow> byte list \<Rightarrow> jsmn \<Rightarrow> jsmn_result" where
  "jsmn_step n js p = bindE (jsmn_char n js p) (\<lambda>q. Inr (q\<lparr>jpos := jpos q + 1\<rparr>))"

definition counted :: "byte \<Rightarrow> bool" where
  "counted c \<longleftrightarrow> c \<in> set [123, 91, 34] \<or> starts_primitive c"

lemma primitive_end_Found:
  "primitive_end i s = Found e \<Longrightarrow> i \<le> e \<and> e < i + length s"
  by (induction i s rule: primitive_end.induct) (auto split: if_splits)

lemma hex_run_le: "hex_run k s = Some j \<Longrightarrow> j \<le> length s"
  by (induction k s arbitrary: j rule: hex_run.induct) (auto split: if_splits)

text \<open>What follows a backslash: where the scan goes on, \<open>None\<close> at an invalid escape.\<close>

definition escape_length :: "byte \<Rightarrow> byte list \<Rightarrow> nat option" where
  "escape_length e s =
     (if e \<in> set plain_escapes then Some 0
      else if e = 120 \<or> e = 117 then hex_run (if e = 120 then 2 else 4) s else None)"

lemma escape_length_le: "escape_length e s = Some k \<Longrightarrow> k \<le> length s"
  by (auto simp: escape_length_def split: if_splits dest: hex_run_le)

lemma string_end_backslash:
  "string_end i (92 # e # s) = (case escape_length e s of None \<Rightarrow> Bad | Some k \<Rightarrow> string_end (i + 2 + k) (drop k s))"
  by (simp add: escape_length_def)

lemma string_end_induct [case_names Nil End Back Plain]:
  assumes "\<And>i. P i []" "\<And>i c s. c = 0 \<or> c = 34 \<Longrightarrow> P i (c # s)"
    and "\<And>i e s. (\<And>k. escape_length e s = Some k \<Longrightarrow> P (i + 2 + k) (drop k s)) \<Longrightarrow> P i (92 # e # s)"
    and "\<And>i c s. c \<noteq> 0 \<Longrightarrow> c \<noteq> 34 \<Longrightarrow> c \<noteq> 92 \<or> s = [] \<Longrightarrow> P (i + 1) s \<Longrightarrow> P i (c # s)"
  shows "P i s"
proof (induction s arbitrary: i rule: length_induct)
  case (1 s)
  show ?case
  proof (cases s)
    case (Cons c s')
    show ?thesis
    proof (cases "c = 92 \<and> s' \<noteq> []")
      case True
      then obtain e t where "s = 92 # e # t" using Cons by (cases s') auto
      with 1 assms(3) [where e = e and s = t and i = i] show ?thesis by simp
    next
      case False
      with 1 Cons assms(2) [where c = c and s = s' and i = i] assms(4) [where c = c and s = s' and i = i] show ?thesis by auto
    qed
  qed (simp add: assms(1))
qed

lemma string_end_plain: "c \<noteq> 0 \<Longrightarrow> c \<noteq> 34 \<Longrightarrow> c \<noteq> 92 \<or> s = [] \<Longrightarrow> string_end i (c # s) = string_end (i + 1) s"
  by auto

lemma string_end_stop: "string_end i (0 # s) = Short" "string_end i (34 # s) = Found i"
  by simp_all

lemmas string_end_simps = string_end.simps(1) string_end_stop string_end_backslash string_end_plain

declare string_end.simps [simp del]

lemma string_end_Found:
  "string_end i s = Found e \<Longrightarrow> i \<le> e \<and> e < i + length s"
proof (induction i s rule: string_end_induct)
  case (Back i c s)
  then show ?case using escape_length_le by (fastforce simp: string_end_simps split: option.splits)
qed (auto simp: string_end_simps)

lemma token_at_pos: "token_at n t s e a p = Inr q \<Longrightarrow> jpos q = a"
  by (auto simp: token_at_def split: option.splits)

lemma close_token_pos: "close_token k t i p = Inr q \<Longrightarrow> jpos q = jpos p"
  by (induction k t i p rule: close_token.induct) (auto simp: Let_def upd_tok_def split: if_splits)

lemma upd_pos [simp]: "jpos (upd_tok i f p) = jpos p" "jpos (grow_super p) = jpos p" "jpos (after_comma p) = jpos p"
  by (simp_all add: upd_tok_def grow_super_def after_comma_def)

lemma open_token_pos: "open_token n t p = Inr q \<Longrightarrow> jpos q = jpos p"
  by (auto simp: open_token_def alloc_token_def Let_def split: if_splits)

lemma parse_string_pos: "parse_string n js p = Inr q \<Longrightarrow> jpos p < jpos q \<and> jpos q < length js"
  by (auto simp: parse_string_def split: scan.splits dest!: token_at_pos string_end_Found)

lemma parse_primitive_pos:
  assumes "parse_primitive n js p = Inr q" "starts_primitive (js ! jpos p)" "jpos p < length js"
  shows "jpos p \<le> jpos q \<and> jpos q < length js"
proof -
  have "js ! jpos p \<notin> set [0, 9, 13, 10, 32, 44, 93, 125]" using assms(2) by (auto simp: starts_primitive_def)
  moreover have d: "drop (jpos p) js = js ! jpos p # drop (Suc (jpos p)) js" using assms(3) by (rule drop_eq_nth_Cons)
  ultimately show ?thesis using assms(1)
    by (auto simp: parse_primitive_def d split: scan.splits if_splits dest!: token_at_pos primitive_end_Found)
qed

lemma jsmn_char_pos:
  assumes q: "jsmn_char n js p = Inr q" and p: "jpos p < length js"
  shows "jpos p \<le> jpos q \<and> jpos q < length js"
  using q p unfolding jsmn_char_def Let_def
  by (auto split: if_split_asm dest: open_token_pos close_token_pos parse_string_pos parse_primitive_pos)

lemma jsmn_step_pos: "jsmn_step n js p = Inr q \<Longrightarrow> jpos p < length js \<Longrightarrow> jpos p < jpos q \<and> jpos q \<le> length js"
  by (auto simp: jsmn_step_def dest!: jsmn_char_pos)

function jsmn_loop :: "nat \<Rightarrow> byte list \<Rightarrow> nat \<Rightarrow> jsmn \<Rightarrow> (jsmnerr + nat) \<times> jsmn" where
  "jsmn_loop n js count p =
     (if jpos p < length js \<and> js ! jpos p \<noteq> 0
      then (case jsmn_step n js p of
              Inl (e, q) \<Rightarrow> (Inl e, q)
            | Inr q \<Rightarrow> jsmn_loop n js (count + of_bool (counted (js ! jpos p))) q)
      else (Inr count, p))"
  by pat_completeness auto
termination
  by (relation "measure (\<lambda>(_, js, _, p). length js - jpos p)") (auto dest!: jsmn_step_pos)

declare jsmn_loop.simps [simp del]

definition jsmn_parse :: "nat \<Rightarrow> byte list \<Rightarrow> jsmn \<Rightarrow> (jsmnerr + nat) \<times> jsmn" where
  "jsmn_parse n js p =
     (case jsmn_loop n js (length (jtoks p)) p of
        (Inl e, q) \<Rightarrow> (Inl e, q)
      | (Inr count, q) \<Rightarrow> if list_ex is_open (jtoks q) then (Inl Part, q) else (Inr count, q))"

section \<open>Well-formed tokens\<close>

text \<open>What holds of the token \<open>i\<close> when the parser has read the text up to \<open>pos\<close>.\<close>

definition tok_ok :: "int \<Rightarrow> nat \<Rightarrow> jsmntok \<Rightarrow> bool" where
  "tok_ok pos i t \<longleftrightarrow>
     (tok_parent t = - 1 \<or> 0 \<le> tok_parent t \<and> tok_parent t < int i)
     \<and> 0 \<le> tok_start t \<and> tok_start t < pos
     \<and> (tok_end t = - 1 \<and> tok_type t \<in> {Jsmn_object, Jsmn_array} \<or> tok_start t \<le> tok_end t \<and> tok_end t \<le> pos)
     \<and> tok_type t \<noteq> Jsmn_undefined \<and> 0 \<le> tok_size t"

definition toks_wf :: "int \<Rightarrow> jsmntok list \<Rightarrow> bool" where
  "toks_wf pos ts \<longleftrightarrow> (\<forall>i < length ts. tok_ok pos i (ts ! i)) \<and> sorted_wrt (<) (map tok_start ts)"

definition jsmn_wf :: "jsmn \<Rightarrow> bool" where
  "jsmn_wf p \<longleftrightarrow> toks_wf (int (jpos p)) (jtoks p) \<and> - 1 \<le> toksuper p \<and> toksuper p < int (length (jtoks p))"

lemma toks_wf_upd:
  assumes "toks_wf pos ts" "i < length ts" "tok_start t = tok_start (ts ! i)" "tok_ok pos i t"
  shows "toks_wf pos (ts[i := t])"
proof -
  have "map tok_start (ts[i := t]) = map tok_start ts"
    using assms(2,3) by (metis list_update_id map_update length_map nth_map)
  with assms show ?thesis by (auto simp: toks_wf_def nth_list_update)
qed

lemma toks_wf_append:
  assumes "toks_wf pos ts" "pos \<le> pos'" "tok_ok pos' (length ts) t" "pos \<le> tok_start t"
  shows "toks_wf pos' (ts @ [t])"
  using assms by (fastforce simp: toks_wf_def tok_ok_def nth_append sorted_wrt_append in_set_conv_nth less_Suc_eq)

lemma toks_wf_mono: "toks_wf pos ts \<Longrightarrow> pos \<le> pos' \<Longrightarrow> toks_wf pos' ts"
  by (fastforce simp: toks_wf_def tok_ok_def)

definition new_tok :: "jsmntype \<Rightarrow> int \<Rightarrow> int \<Rightarrow> int \<Rightarrow> jsmntok" where
  "new_tok t s e par = \<lparr>tok_type = t, tok_start = s, tok_end = e, tok_size = 0, tok_parent = par\<rparr>"

lemma new_tok_simps [simp]:
  "tok_type (new_tok t s e par) = t" "tok_start (new_tok t s e par) = s" "tok_end (new_tok t s e par) = e"
  "tok_size (new_tok t s e par) = 0" "tok_parent (new_tok t s e par) = par"
  by (simp_all add: new_tok_def)

lemma token_at_eq:
  "token_at n t s e after p =
     (if length (jtoks p) \<ge> n then Inl (Nomem, p)
      else Inr (p\<lparr>jpos := after, jtoks := jtoks p @ [new_tok t (int s) (int e) (toksuper p)]\<rparr>))"
  by (simp add: token_at_def alloc_token_def upd_tok_def last_tok_def fill_token_def new_tok_def nat_add_distrib)

definition blank_tok :: jsmntok where
  "blank_tok = new_tok Jsmn_undefined (- 1) (- 1) (- 1)"

lemma open_token_eq:
  assumes "- 1 \<le> toksuper p" "toksuper p < int (length (jtoks p))"
  shows "open_token n t p =
     (if length (jtoks p) \<ge> n then Inl (Nomem, p)
      else if toksuper p \<noteq> - 1 \<and> tok_type (jtoks p ! nat (toksuper p)) = Jsmn_object
      then Inl (Inval, p\<lparr>jtoks := jtoks p @ [blank_tok]\<rparr>)
      else Inr (p\<lparr>jtoks := jtoks (grow_super p) @ [new_tok t (int (jpos p)) (- 1) (toksuper p)], toksuper := int (length (jtoks p))\<rparr>))"
proof -
  have "toksuper p \<noteq> - 1 \<Longrightarrow> nat (toksuper p) < length (jtoks p)" using assms by linarith
  then show ?thesis
    by (auto simp: open_token_def alloc_token_def upd_tok_def last_tok_def grow_super_def new_tok_def blank_tok_def Let_def nth_append list_update_append)
qed

lemma grow_super_toks [simp]: "length (jtoks (grow_super p)) = length (jtoks p)" "toksuper (grow_super p) = toksuper p"
  by (simp_all add: grow_super_def upd_tok_def)

lemma grow_super_wf: "toks_wf pos (jtoks p) \<Longrightarrow> - 1 \<le> toksuper p \<Longrightarrow> toksuper p < int (length (jtoks p)) \<Longrightarrow> toks_wf pos (jtoks (grow_super p))"
proof (cases "toksuper p = - 1")
  case False
  assume *: "toks_wf pos (jtoks p)" "- 1 \<le> toksuper p" "toksuper p < int (length (jtoks p))"
  then have "nat (toksuper p) < length (jtoks p)" using False by linarith
  moreover from this have "tok_ok pos (nat (toksuper p)) (jtoks p ! nat (toksuper p))" using * by (simp add: toks_wf_def)
  ultimately show ?thesis using * False
    by (auto simp: grow_super_def upd_tok_def tok_ok_def intro!: toks_wf_upd)
qed (simp add: grow_super_def)

lemma close_token_eq:
  assumes "toks_wf pos (jtoks p)" "0 \<le> i" "i < int fuel" "nat i < length (jtoks p)" "close_token fuel t i p = r"
  shows "r = Inl (Inval, p) \<or> (\<exists>q. r = Inr q)"
    and "r = Inr q \<Longrightarrow> q = p \<or> (\<exists>k < length (jtoks p). is_open (jtoks p ! k) \<and>
      q = p\<lparr>jtoks := (jtoks p)[k := (jtoks p ! k)\<lparr>tok_end := int (jpos p) + 1\<rparr>], toksuper := tok_parent (jtoks p ! k)\<rparr>)"
proof -
  have "(r = Inl (Inval, p) \<or> (\<exists>q. r = Inr q)) \<and> (r = Inr q \<longrightarrow> q = p \<or> (\<exists>k < length (jtoks p). is_open (jtoks p ! k) \<and>
      q = p\<lparr>jtoks := (jtoks p)[k := (jtoks p ! k)\<lparr>tok_end := int (jpos p) + 1\<rparr>], toksuper := tok_parent (jtoks p ! k)\<rparr>))"
    using assms(2-)
  proof (induction fuel arbitrary: i)
    case (Suc fuel)
    have "tok_ok pos (nat i) (jtoks p ! nat i)" using assms(1) Suc.prems by (simp add: toks_wf_def)
    then have "tok_parent (jtoks p ! nat i) \<noteq> - 1 \<Longrightarrow> 0 \<le> tok_parent (jtoks p ! nat i) \<and> tok_parent (jtoks p ! nat i) < i"
      using Suc.prems by (auto simp: tok_ok_def)
    then have "tok_parent (jtoks p ! nat i) \<noteq> - 1 \<Longrightarrow> 0 \<le> tok_parent (jtoks p ! nat i) \<and> tok_parent (jtoks p ! nat i) < i
        \<and> nat (tok_parent (jtoks p ! nat i)) < length (jtoks p)"
      using Suc.prems by linarith
    then show ?case
      using Suc.IH [of "tok_parent (jtoks p ! nat i)"] Suc.prems
      by (auto simp: Let_def upd_tok_def split: if_splits)
  qed simp
  then show "r = Inl (Inval, p) \<or> (\<exists>q. r = Inr q)"
    and "r = Inr q \<Longrightarrow> q = p \<or> (\<exists>k < length (jtoks p). is_open (jtoks p ! k) \<and>
      q = p\<lparr>jtoks := (jtoks p)[k := (jtoks p ! k)\<lparr>tok_end := int (jpos p) + 1\<rparr>], toksuper := tok_parent (jtoks p ! k)\<rparr>)"
    by simp_all
qed

text \<open>What a round of the loop does to the tokens: it adds one, closes one, or leaves them.\<close>

inductive token_step :: "jsmn \<Rightarrow> bool \<Rightarrow> jsmn \<Rightarrow> bool" where
  add: "jpos p \<le> s \<Longrightarrow> s < j \<Longrightarrow> e = - 1 \<and> t \<in> {Jsmn_object, Jsmn_array} \<or> t \<in> {Jsmn_string, Jsmn_primitive} \<and> int s \<le> e \<and> e \<le> int j \<Longrightarrow>
    x = toksuper p \<or> x = int (length (jtoks p)) \<Longrightarrow>
    token_step p True (p\<lparr>jpos := j, jtoks := jtoks (grow_super p) @ [new_tok t (int s) e (toksuper p)], toksuper := x\<rparr>)"
| close: "k < length (jtoks p) \<Longrightarrow> is_open (jtoks p ! k) \<Longrightarrow>
    token_step p False (p\<lparr>jpos := jpos p + 1, jtoks := (jtoks p)[k := (jtoks p ! k)\<lparr>tok_end := int (jpos p) + 1\<rparr>],
      toksuper := tok_parent (jtoks p ! k)\<rparr>)"
| keep: "- 1 \<le> x \<Longrightarrow> x < int (length (jtoks p)) \<Longrightarrow> token_step p False (p\<lparr>jpos := jpos p + 1, toksuper := x\<rparr>)"

inductive_cases token_stepE: "token_step p b q"

lemma grow_super_append:
  "toksuper p < int (length (jtoks p)) \<Longrightarrow> - 1 \<le> toksuper p \<Longrightarrow>
   grow_super (p\<lparr>jpos := j, jtoks := jtoks p @ [t]\<rparr>) = p\<lparr>jpos := j, jtoks := jtoks (grow_super p) @ [t]\<rparr>"
proof -
  assume "toksuper p < int (length (jtoks p))" "- 1 \<le> toksuper p"
  then have "toksuper p \<noteq> - 1 \<Longrightarrow> nat (toksuper p) < length (jtoks p)" by linarith
  then show ?thesis by (auto simp: grow_super_def upd_tok_def list_update_append nth_append)
qed

lemma jpos_commute: "p\<lparr>jtoks := ts, jpos := j\<rparr> = p\<lparr>jpos := j, jtoks := ts\<rparr>" "p\<lparr>toksuper := x, jpos := j\<rparr> = p\<lparr>jpos := j, toksuper := x\<rparr>"
  by (cases p; simp)+

lemma string_token_step:
  assumes "parse_string n js p = Inr q" "jsmn_wf p"
  shows "token_step p True ((grow_super q)\<lparr>jpos := jpos q + 1\<rparr>)"
proof -
  have w: "- 1 \<le> toksuper p" "toksuper p < int (length (jtoks p))" using assms(2) by (auto simp: jsmn_wf_def)
  obtain e where e: "string_end (jpos p + 1) (drop (jpos p + 1) js) = Found e" "token_at n Jsmn_string (jpos p + 1) e e p = Inr q"
    using assms(1) by (auto simp: parse_string_def split: scan.splits)
  have "jpos p + 1 \<le> e" using string_end_Found [OF e(1)] by simp
  moreover have q: "q = p\<lparr>jpos := e, jtoks := jtoks p @ [new_tok Jsmn_string (int (jpos p + 1)) (int e) (toksuper p)]\<rparr>"
    using e(2) by (simp add: token_at_eq split: if_splits)
  ultimately show ?thesis
    using token_step.add [of p "jpos p + 1" "e + 1" "int e" Jsmn_string "toksuper p"]
    unfolding q grow_super_append [OF w(2,1)] by (simp add: jpos_commute)
qed

lemma primitive_token_step:
  assumes "parse_primitive n js p = Inr q" "jsmn_wf p" "starts_primitive (js ! jpos p)" "jpos p < length js"
  shows "token_step p True ((grow_super q)\<lparr>jpos := jpos q + 1\<rparr>)"
proof -
  have w: "- 1 \<le> toksuper p" "toksuper p < int (length (jtoks p))" using assms(2) by (auto simp: jsmn_wf_def)
  obtain e where e: "primitive_end (jpos p) (drop (jpos p) js) = Found e" "token_at n Jsmn_primitive (jpos p) e (e - 1) p = Inr q"
    using assms(1) by (auto simp: parse_primitive_def split: scan.splits)
  have q: "q = p\<lparr>jpos := e - 1, jtoks := jtoks p @ [new_tok Jsmn_primitive (int (jpos p)) (int e) (toksuper p)]\<rparr>"
    using e(2) by (simp add: token_at_eq split: if_splits)
  moreover have "jpos p \<le> jpos q" by (rule parse_primitive_pos [OF assms(1,3,4), THEN conjunct1])
  moreover have "jpos p \<noteq> e"
  proof -
    have "js ! jpos p \<notin> set [0, 9, 13, 10, 32, 44, 93, 125]" using assms(3) by (auto simp: starts_primitive_def)
    moreover have d: "drop (jpos p) js = js ! jpos p # drop (Suc (jpos p)) js" using assms(4) by (rule drop_eq_nth_Cons)
    ultimately show ?thesis using e(1) by (auto simp: d split: if_splits dest: primitive_end_Found)
  qed
  moreover have "jpos p \<le> e" using primitive_end_Found [OF e(1)] by simp
  ultimately show ?thesis
    using token_step.add [of p "jpos p" e "int e" Jsmn_primitive "toksuper p"]
    unfolding q grow_super_append [OF w(2,1)] by (simp add: jpos_commute)
qed

lemma starts_primitive_other:
  "starts_primitive c \<Longrightarrow> c \<noteq> 123 \<and> c \<noteq> 91 \<and> c \<noteq> 125 \<and> c \<noteq> 93 \<and> c \<noteq> 34 \<and> c \<noteq> 9 \<and> c \<noteq> 13 \<and> c \<noteq> 10 \<and> c \<noteq> 32 \<and> c \<noteq> 58 \<and> c \<noteq> 44 \<and> c \<noteq> 0"
  unfolding starts_primitive_def by (simp only: list.set insert_iff empty_iff) (elim disjE; simp)

text \<open>The rounds of the loop by character.\<close>

lemma jsmn_char_cases:
  assumes "jsmn_char n js p = Inr r"
  obtains (obracket) t where "js ! jpos p = 123 \<or> js ! jpos p = 91" "open_token n t p = Inr r" "t \<in> {Jsmn_object, Jsmn_array}" "counted (js ! jpos p)"
    | (cbracket) t where "jtoks p \<noteq> []" "close_token (length (jtoks p)) t (last_tok p) p = Inr r" "\<not> counted (js ! jpos p)"
    | (string) u where "js ! jpos p = 34" "parse_string n js p = Inr u" "r = grow_super u" "counted (js ! jpos p)"
    | (space) "r = p" "\<not> counted (js ! jpos p)"
    | (colon) "r = p\<lparr>toksuper := last_tok p\<rparr>" "\<not> counted (js ! jpos p)"
    | (comma) "r = after_comma p" "\<not> counted (js ! jpos p)"
    | (prim) u where "starts_primitive (js ! jpos p)" "parse_primitive n js p = Inr u" "r = grow_super u" "counted (js ! jpos p)"
proof -
  let ?c = "js ! jpos p"
  note c = assms [unfolded jsmn_char_def Let_def]
  note not_counted = starts_primitive_other [of ?c] counted_def [of ?c]
  show thesis
  proof (cases "starts_primitive ?c")
    case True
    with c starts_primitive_other [OF True] prim show thesis by (auto simp: counted_def split: if_split_asm)
  next
    case False
    consider "?c = 123" | "?c = 91" | "?c = 125 \<or> ?c = 93" | "?c = 34" | "?c \<in> set [9, 13, 10, 32]" | "?c = 58" | "?c = 44"
      using c False by (simp split: if_split_asm)
    then show thesis
    proof cases
      case 1
      with c obracket [of Jsmn_object] show thesis by (simp add: counted_def)
    next
      case 2
      with c obracket [of Jsmn_array] show thesis by (simp add: counted_def)
    next
      case 3
      with c False cbracket show thesis by (auto simp: counted_def split: if_split_asm)
    next
      case 4
      with c string show thesis by (auto simp: counted_def)
    next
      case 5
      then have "?c \<noteq> 123 \<and> ?c \<noteq> 91 \<and> ?c \<noteq> 125 \<and> ?c \<noteq> 93 \<and> ?c \<noteq> 34" by auto
      with c 5 False space show thesis by (simp add: counted_def)
    next
      case 6
      with c False colon show thesis by (simp add: counted_def)
    next
      case 7
      with c False comma show thesis by (simp add: counted_def)
    qed
  qed
qed

lemma jsmn_step_token_step:
  assumes "jsmn_step n js p = Inr q" "jsmn_wf p" "jpos p < length js"
  shows "token_step p (counted (js ! jpos p)) q"
proof -
  have w: "- 1 \<le> toksuper p" "toksuper p < int (length (jtoks p))" "toks_wf (int (jpos p)) (jtoks p)"
    using assms(2) by (auto simp: jsmn_wf_def)
  obtain r where r: "jsmn_char n js p = Inr r" "q = r\<lparr>jpos := jpos r + 1\<rparr>" using assms(1) by (auto simp: jsmn_step_def)
  from r(1) show ?thesis
  proof (cases rule: jsmn_char_cases)
    case (obracket t)
    then show ?thesis
      using token_step.add [of p "jpos p" "jpos p + 1" "- 1" t "int (length (jtoks p))"] r(2) w
      by (auto simp: open_token_eq [OF w(1,2)] jpos_commute split: if_splits)
  next
    case (cbracket t)
    have "r = p \<or> (\<exists>k < length (jtoks p). is_open (jtoks p ! k) \<and>
      r = p\<lparr>jtoks := (jtoks p)[k := (jtoks p ! k)\<lparr>tok_end := int (jpos p) + 1\<rparr>], toksuper := tok_parent (jtoks p ! k)\<rparr>)"
      using cbracket by (intro close_token_eq(2) [OF w(3) _ _ _ cbracket(2)]) (auto simp: last_tok_def nat_diff_distrib')
    then show ?thesis
      using r(2) cbracket(3) token_step.keep [of "toksuper p" p] token_step.close [of _ p] w by (auto simp: jpos_commute)
  next
    case (string u)
    then show ?thesis using string_token_step [OF string(2) assms(2)] r(2) by simp
  next
    case space
    then show ?thesis using r(2) token_step.keep [of "toksuper p" p] w by simp
  next
    case colon
    then show ?thesis using r(2) token_step.keep [of "last_tok p" p] w by (simp add: last_tok_def jpos_commute)
  next
    case comma
    have "- 1 \<le> toksuper (after_comma p) \<and> toksuper (after_comma p) < int (length (jtoks p))"
    proof (cases "toksuper p = - 1")
      case False
      then have k: "nat (toksuper p) < length (jtoks p)" using w by linarith
      then have "tok_ok (int (jpos p)) (nat (toksuper p)) (jtoks p ! nat (toksuper p))" using w by (simp add: toks_wf_def)
      then show ?thesis using w k by (auto simp: after_comma_def tok_ok_def)
    qed (use w in \<open>simp add: after_comma_def\<close>)
    moreover have "r\<lparr>jpos := jpos r + 1\<rparr> = p\<lparr>jpos := jpos p + 1, toksuper := toksuper (after_comma p)\<rparr>"
      unfolding comma(1) by (cases p) (simp add: after_comma_def)
    ultimately show ?thesis using comma r(2) token_step.keep [of "toksuper (after_comma p)" p] by simp
  next
    case (prim u)
    then show ?thesis using primitive_token_step [OF prim(2) assms(2) prim(1) assms(3)] r(2) by simp
  qed
qed

text \<open>The tokens that are closed keep their ends.\<close>

definition later :: "jsmntok list \<Rightarrow> jsmntok list \<Rightarrow> bool" where
  "later ts ts' \<longleftrightarrow> length ts \<le> length ts'
     \<and> (\<forall>i < length ts. tok_end (ts ! i) \<noteq> - 1 \<longrightarrow> tok_end (ts' ! i) = tok_end (ts ! i))"

lemma later_refl [simp]: "later ts ts"
  by (simp add: later_def)

lemma later_trans: "later a b \<Longrightarrow> later b c \<Longrightarrow> later a c"
  by (auto simp: later_def)

lemma grow_super_ends: "i < length (jtoks p) \<Longrightarrow> tok_end (jtoks (grow_super p) ! i) = tok_end (jtoks p ! i)"
  by (cases "nat (toksuper p) < length (jtoks p)") (auto simp: grow_super_def upd_tok_def nth_list_update)

lemma token_step_wf:
  assumes "token_step p b q" "jsmn_wf p"
  shows "jsmn_wf q \<and> later (jtoks p) (jtoks q) \<and> length (jtoks q) = length (jtoks p) + of_bool b \<and> jpos p < jpos q"
  using assms
proof cases
  case (add s j e t x)
  have w: "toks_wf (int (jpos p)) (jtoks p)" "- 1 \<le> toksuper p" "toksuper p < int (length (jtoks p))"
    using assms(2) by (auto simp: jsmn_wf_def)
  have "toks_wf (int j) (jtoks (grow_super p) @ [new_tok t (int s) e (toksuper p)])"
    by (rule toks_wf_append [OF grow_super_wf [OF w]]) (use add w in \<open>auto simp: tok_ok_def\<close>)
  moreover have "later (jtoks p) (jtoks (grow_super p) @ [new_tok t (int s) e (toksuper p)])"
    by (auto simp: later_def nth_append grow_super_ends)
  ultimately show ?thesis using add w by (auto simp: jsmn_wf_def)
next
  case (close k)
  have w: "toks_wf (int (jpos p)) (jtoks p)" using assms(2) by (auto simp: jsmn_wf_def)
  then have k: "tok_ok (int (jpos p)) k (jtoks p ! k)" using close by (simp add: toks_wf_def)
  have "toks_wf (int (jpos p) + 1) ((jtoks p)[k := (jtoks p ! k)\<lparr>tok_end := int (jpos p) + 1\<rparr>])"
    by (rule toks_wf_upd [OF toks_wf_mono [OF w]]) (use k close in \<open>auto simp: tok_ok_def\<close>)
  moreover have "later (jtoks p) ((jtoks p)[k := (jtoks p ! k)\<lparr>tok_end := int (jpos p) + 1\<rparr>])"
    using close by (auto simp: later_def nth_list_update is_open_def)
  ultimately show ?thesis using close k by (auto simp: jsmn_wf_def tok_ok_def add.commute)
next
  case (keep x)
  then show ?thesis using assms(2) toks_wf_mono [of "int (jpos p)" "jtoks p" "int (Suc (jpos p))"] by (auto simp: jsmn_wf_def)
qed

lemma jsmn_step_wf:
  assumes "jsmn_step n js p = Inr q" "jsmn_wf p" "jpos p < length js"
  shows "jsmn_wf q \<and> later (jtoks p) (jtoks q) \<and> length (jtoks q) = length (jtoks p) + of_bool (counted (js ! jpos p)) \<and> jpos p < jpos q"
  by (rule token_step_wf [OF jsmn_step_token_step [OF assms] assms(2)])

text \<open>What a failing round says.\<close>

lemma jsmn_step_Inl:
  assumes "jsmn_step n js p = Inl (e, q)" "jsmn_wf p"
  shows "e \<noteq> Runaway \<and> (e = Nomem \<longrightarrow> n \<le> length (jtoks p)) \<and> (q = p \<or> e = Inval \<and> q = p\<lparr>jtoks := jtoks p @ [blank_tok]\<rparr>)"
proof -
  have w: "toks_wf (int (jpos p)) (jtoks p)" "- 1 \<le> toksuper p" "toksuper p < int (length (jtoks p))"
    using assms(2) by (auto simp: jsmn_wf_def)
  have c: "jsmn_char n js p = Inl (e, q)" using assms(1) by (cases "jsmn_char n js p") (auto simp: jsmn_step_def)
  have 1: "open_token n t p = Inl (e, q) \<Longrightarrow> ?thesis" for t by (auto simp: open_token_eq [OF w(2,3)] split: if_splits)
  have 2: "jtoks p \<noteq> [] \<Longrightarrow> close_token (length (jtoks p)) t (last_tok p) p = Inl (e, q) \<Longrightarrow> ?thesis" for t
    using close_token_eq(1) [OF w(1), of "last_tok p" "length (jtoks p)" t "Inl (e, q)"]
    by (auto simp: last_tok_def nat_diff_distrib')
  have 3: "bindE (parse_string n js p) (\<lambda>p. Inr (grow_super p)) = Inl (e, q) \<Longrightarrow> ?thesis"
    "bindE (parse_primitive n js p) (\<lambda>p. Inr (grow_super p)) = Inl (e, q) \<Longrightarrow> ?thesis"
    by (auto simp: parse_string_def parse_primitive_def token_at_eq split: scan.splits if_splits)
  from c show ?thesis
    unfolding jsmn_char_def Let_def
    by (simp only: split: if_split_asm) ((erule 1 | (rule 2, assumption, assumption) | (rule 3, assumption) | force)+)
qed

text \<open>What a call leaves: a well-formed parser, but for the token that was handed out for a container that must not
  be there.\<close>

definition left_by :: "(jsmnerr + nat) \<Rightarrow> jsmn \<Rightarrow> bool" where
  "left_by r q \<longleftrightarrow> jsmn_wf q \<or> r = Inl Inval \<and> (\<exists>ts. jtoks q = ts @ [blank_tok] \<and> jsmn_wf (q\<lparr>jtoks := ts\<rparr>))"

lemma later_snoc [simp]: "later ts (ts @ us)"
  by (simp add: later_def nth_append)

text \<open>A whole call.\<close>

lemma jsmn_loop_wf:
  "jsmn_loop n js count p = (r, q) \<Longrightarrow> jsmn_wf p \<Longrightarrow> jpos p \<le> length js \<Longrightarrow> count = length (jtoks p) \<Longrightarrow>
   left_by r q \<and> later (jtoks p) (jtoks q) \<and> jpos p \<le> jpos q \<and> jpos q \<le> length js
   \<and> r \<noteq> Inl Runaway \<and> (r = Inl Nomem \<longrightarrow> n \<le> length (jtoks q)) \<and> (\<forall>k. r = Inr k \<longrightarrow> k = length (jtoks q))"
proof (induction n js count p rule: jsmn_loop.induct)
  case (1 n js count p)
  show ?case
  proof (cases "jpos p < length js \<and> js ! jpos p \<noteq> 0")
    case True
    show ?thesis
    proof (cases "jsmn_step n js p")
      case (Inl l)
      then obtain e where e: "l = (e, q)" "r = Inl e" using 1(2) True
        by (cases l) (auto simp: jsmn_loop.simps [of n js count p])
      have s: "jsmn_step n js p = Inl (e, q)" using Inl e(1) by simp
      then show ?thesis using jsmn_step_Inl [OF s 1(3)] 1(3,4) e(2) by (auto simp: left_by_def)
    next
      case (Inr p')
      note s = jsmn_step_wf [OF Inr 1(3) conjunct1 [OF True]]
      have "jpos p' \<le> length js" using jsmn_step_pos [OF Inr] True by simp
      moreover have "jsmn_loop n js (count + of_bool (counted (js ! jpos p))) p' = (r, q)"
        using 1(2) True Inr by (simp add: jsmn_loop.simps [of n js count p])
      ultimately have "left_by r q \<and> later (jtoks p') (jtoks q) \<and> jpos p' \<le> jpos q \<and> jpos q \<le> length js
        \<and> r \<noteq> Inl Runaway \<and> (r = Inl Nomem \<longrightarrow> n \<le> length (jtoks q)) \<and> (\<forall>k. r = Inr k \<longrightarrow> k = length (jtoks q))"
        using 1(1) [OF True Inr] s 1(5) by simp
      then show ?thesis using s later_trans [of "jtoks p" "jtoks p'" "jtoks q"] by auto
    qed
  next
    case False
    then have "r = Inr count" "q = p" using 1(2) by (auto simp: jsmn_loop.simps [of n js count p])
    then show ?thesis using 1(3-5) by (simp add: left_by_def)
  qed
qed

lemma jsmn_parse_wf:
  assumes "jsmn_parse n js p = (r, q)" "jsmn_wf p" "jpos p \<le> length js"
  shows "left_by r q \<and> later (jtoks p) (jtoks q) \<and> jpos p \<le> jpos q \<and> jpos q \<le> length js
   \<and> r \<noteq> Inl Runaway \<and> (r = Inl Nomem \<longrightarrow> n \<le> length (jtoks q)) \<and> (\<forall>k. r = Inr k \<longrightarrow> k = length (jtoks q) \<and> list_all (\<lambda>t. tok_end t \<noteq> - 1) (jtoks q))"
proof -
  obtain r' where l: "jsmn_loop n js (length (jtoks p)) p = (r', q)" and r': "r' = r \<or> r = Inl Part \<and> (\<exists>k. r' = Inr k)"
    and o: "\<And>k. r = Inr k \<Longrightarrow> r' = Inr k \<and> \<not> list_ex is_open (jtoks q)"
    using assms(1) by (auto simp: jsmn_parse_def split: prod.splits sum.splits if_splits)
  note w = jsmn_loop_wf [OF l assms(2,3) refl]
  have "jsmn_wf q \<Longrightarrow> \<not> list_ex is_open (jtoks q) \<Longrightarrow> list_all (\<lambda>t. tok_end t \<noteq> - 1) (jtoks q)"
    unfolding list_ex_iff list_all_length jsmn_wf_def toks_wf_def tok_ok_def is_open_def
    by (metis int_one_le_iff_zero_less nth_mem not_one_le_zero linorder_not_less neg_0_le_iff_le)
  then show ?thesis using w r' o by (auto simp: left_by_def)
qed

lemma jsmn_init_wf [simp]: "jsmn_wf jsmn_init"
  by (simp add: jsmn_wf_def jsmn_init_def toks_wf_def)

section \<open>Parsing a growing text\<close>

text \<open>
  The JSON reader calls the parser again and again, on a longer text or with a larger array. A round that
  does not fail with \<open>Part\<close> is the same on any longer text, one that does not fail with \<open>Nomem\<close> is the same
  for any larger array.
\<close>

lemma primitive_end_append: "primitive_end i s \<noteq> Short \<Longrightarrow> primitive_end i (s @ t) = primitive_end i s"
  by (induction i s rule: primitive_end.induct) (auto split: if_splits)

lemma hex_run_append:
  "hex_run k s = None \<Longrightarrow> hex_run k (s @ t) = None"
  "hex_run k s = Some j \<Longrightarrow> j < length s \<Longrightarrow> hex_run k (s @ t) = Some j"
  by (induction k s arbitrary: j rule: hex_run.induct) (auto split: if_splits)

lemma escape_length_append:
  "escape_length e s = None \<Longrightarrow> escape_length e (s @ t) = None"
  "escape_length e s = Some j \<Longrightarrow> j < length s \<Longrightarrow> escape_length e (s @ t) = Some j"
  by (auto simp: escape_length_def hex_run_append split: if_splits)

lemma string_end_append: "string_end i s \<noteq> Short \<Longrightarrow> string_end i (s @ t) = string_end i s"
proof (induction i s rule: string_end_induct)
  case (End i c s)
  then show ?case by (auto simp: string_end_simps)
next
  case (Back i e s)
  show ?case
  proof (cases "escape_length e s")
    case None
    then show ?thesis using escape_length_append(1) [OF None] by (simp add: string_end_simps)
  next
    case (Some k)
    have k: "k < length s" using Back.prems Some escape_length_le [OF Some] by (cases "k = length s") (auto simp: string_end_simps)
    then show ?thesis using Back Some escape_length_append(2) [OF Some k] by (simp add: string_end_simps)
  qed
next
  case (Plain i c s)
  then have s: "s \<noteq> []" by (auto simp: string_end_simps)
  then show ?case using Plain by (simp add: string_end_simps)
qed (simp add: string_end_simps)

lemma parse_append:
  "parse_string n js p \<noteq> Inl (Part, p) \<Longrightarrow> parse_string n (js @ ys) p = parse_string n js p"
  "parse_primitive n js p \<noteq> Inl (Part, p) \<Longrightarrow> parse_primitive n (js @ ys) p = parse_primitive n js p"
proof -
  show "parse_string n js p \<noteq> Inl (Part, p) \<Longrightarrow> parse_string n (js @ ys) p = parse_string n js p"
    using string_end_append [of "jpos p + 1" "drop (jpos p + 1) js" "drop (jpos p + 1 - length js) ys"]
    by (cases "string_end (jpos p + 1) (drop (jpos p + 1) js)") (simp_all add: parse_string_def)
  show "parse_primitive n js p \<noteq> Inl (Part, p) \<Longrightarrow> parse_primitive n (js @ ys) p = parse_primitive n js p"
    using primitive_end_append [of "jpos p" "drop (jpos p) js" "drop (jpos p - length js) ys"]
    by (cases "primitive_end (jpos p) (drop (jpos p) js)") (simp_all add: parse_primitive_def)
qed

lemma bindE_not_Inl: "bindE x f \<noteq> Inl e \<Longrightarrow> x \<noteq> Inl e"
  by auto

lemma jsmn_char_primitive:
  "starts_primitive (js ! jpos p) \<Longrightarrow> may_be_primitive p \<Longrightarrow>
   jsmn_char n js p = bindE (parse_primitive n js p) (\<lambda>p. Inr (grow_super p))"
  using starts_primitive_other [of "js ! jpos p"] by (simp add: jsmn_char_def)

text \<open>What a round depends on.\<close>

lemma jsmn_char_eq:
  assumes e: "js' ! jpos p = js ! jpos p"
    and s: "js ! jpos p = 34 \<Longrightarrow> parse_string m js' p = parse_string n js p"
    and q: "starts_primitive (js ! jpos p) \<Longrightarrow> may_be_primitive p \<Longrightarrow> parse_primitive m js' p = parse_primitive n js p"
    and t: "\<And>t. js ! jpos p = 123 \<and> t = Jsmn_object \<or> js ! jpos p = 91 \<and> t = Jsmn_array \<Longrightarrow> open_token m t p = open_token n t p"
  shows "jsmn_char m js' p = jsmn_char n js p"
proof (cases "starts_primitive (js ! jpos p)")
  case True
  then show ?thesis
    using q starts_primitive_other [OF True] by (cases "may_be_primitive p") (simp_all add: jsmn_char_def e)
next
  case False
  show ?thesis
  proof (cases "js ! jpos p = 34 \<or> js ! jpos p = 123 \<or> js ! jpos p = 91")
    case True
    then show ?thesis using s t [of Jsmn_object] t [of Jsmn_array] by (elim disjE) (simp_all add: jsmn_char_def e)
  next
    case other: False
    show ?thesis using False other by (simp add: jsmn_char_def e Let_def)
  qed
qed

lemma jsmn_step_append:
  assumes "jpos p < length js" "jsmn_step n js p \<noteq> Inl (Part, p)"
  shows "jsmn_step n (js @ ys) p = jsmn_step n js p"
proof -
  have c: "jsmn_char n js p \<noteq> Inl (Part, p)" using assms(2) unfolding jsmn_step_def by (rule bindE_not_Inl)
  have e: "(js @ ys) ! jpos p = js ! jpos p" using assms(1) by (simp add: nth_append)
  have "jsmn_char n (js @ ys) p = jsmn_char n js p"
  proof (rule jsmn_char_eq [OF e])
    assume "js ! jpos p = 34"
    then have "parse_string n js p \<noteq> Inl (Part, p)" using c by (auto simp: jsmn_char_def)
    then show "parse_string n (js @ ys) p = parse_string n js p" by (rule parse_append)
  next
    assume s: "starts_primitive (js ! jpos p)" "may_be_primitive p"
    then have "parse_primitive n js p \<noteq> Inl (Part, p)" using c jsmn_char_primitive [OF s, of n] by auto
    then show "parse_primitive n (js @ ys) p = parse_primitive n js p" by (rule parse_append)
  qed simp
  then show ?thesis by (simp add: jsmn_step_def)
qed

lemma token_at_capacity: "token_at n t s e a p \<noteq> Inl (Nomem, p) \<Longrightarrow> n \<le> m \<Longrightarrow> token_at m t s e a p = token_at n t s e a p"
  by (auto simp: token_at_eq split: if_splits)

lemma parse_capacity:
  "parse_string n js p \<noteq> Inl (Nomem, p) \<Longrightarrow> n \<le> m \<Longrightarrow> parse_string m js p = parse_string n js p"
  "parse_primitive n js p \<noteq> Inl (Nomem, p) \<Longrightarrow> n \<le> m \<Longrightarrow> parse_primitive m js p = parse_primitive n js p"
  "open_token n t p \<noteq> Inl (Nomem, p) \<Longrightarrow> n \<le> m \<Longrightarrow> open_token m t p = open_token n t p"
proof -
  show "parse_string n js p \<noteq> Inl (Nomem, p) \<Longrightarrow> n \<le> m \<Longrightarrow> parse_string m js p = parse_string n js p"
    by (cases "string_end (jpos p + 1) (drop (jpos p + 1) js)") (simp_all add: parse_string_def token_at_capacity [where n = n and m = m])
  show "parse_primitive n js p \<noteq> Inl (Nomem, p) \<Longrightarrow> n \<le> m \<Longrightarrow> parse_primitive m js p = parse_primitive n js p"
    by (cases "primitive_end (jpos p) (drop (jpos p) js)") (simp_all add: parse_primitive_def token_at_capacity [where n = n and m = m])
  show "open_token n t p \<noteq> Inl (Nomem, p) \<Longrightarrow> n \<le> m \<Longrightarrow> open_token m t p = open_token n t p"
    by (cases "n \<le> length (jtoks p)") (simp_all add: open_token_def alloc_token_def)
qed

lemma jsmn_step_capacity:
  assumes "n \<le> m" "jsmn_step n js p \<noteq> Inl (Nomem, p)"
  shows "jsmn_step m js p = jsmn_step n js p"
proof -
  have c: "jsmn_char n js p \<noteq> Inl (Nomem, p)" using assms(2) unfolding jsmn_step_def by (rule bindE_not_Inl)
  have "jsmn_char m js p = jsmn_char n js p"
  proof (rule jsmn_char_eq [OF refl])
    assume "js ! jpos p = 34"
    then have "parse_string n js p \<noteq> Inl (Nomem, p)" using c by (auto simp: jsmn_char_def)
    then show "parse_string m js p = parse_string n js p" using assms(1) by (rule parse_capacity)
  next
    assume s: "starts_primitive (js ! jpos p)" "may_be_primitive p"
    then have "parse_primitive n js p \<noteq> Inl (Nomem, p)" using c jsmn_char_primitive [OF s, of n] by auto
    then show "parse_primitive m js p = parse_primitive n js p" using assms(1) by (rule parse_capacity)
  next
    fix t assume "js ! jpos p = 123 \<and> t = Jsmn_object \<or> js ! jpos p = 91 \<and> t = Jsmn_array"
    then have "open_token n t p \<noteq> Inl (Nomem, p)" using c by (auto simp: jsmn_char_def)
    then show "open_token m t p = open_token n t p" using assms(1) by (rule parse_capacity)
  qed
  then show ?thesis by (simp add: jsmn_step_def)
qed

text \<open>Rounds on a text, whatever the capacity.\<close>

definition jsmn_next :: "byte list \<Rightarrow> jsmn \<Rightarrow> jsmn \<Rightarrow> bool" where
  "jsmn_next js p q \<longleftrightarrow> jpos p < length js \<and> js ! jpos p \<noteq> 0 \<and> (\<exists>n. jsmn_step n js p = Inr q)"

abbreviation jsmn_runs :: "byte list \<Rightarrow> jsmn \<Rightarrow> jsmn \<Rightarrow> bool" where
  "jsmn_runs js \<equiv> (jsmn_next js)\<^sup>*\<^sup>*"

lemma jsmn_next_step:
  assumes "jsmn_next js p q" "jsmn_step n js p = r"
  shows "r = Inr q \<or> r = Inl (Nomem, p)"
proof -
  obtain m where m: "jsmn_step m js p = Inr q" using assms(1) by (auto simp: jsmn_next_def)
  show ?thesis
  proof (cases "n \<le> m")
    case True
    then show ?thesis using jsmn_step_capacity [OF True, of js p] m assms(2) by auto
  next
    case False
    then show ?thesis using jsmn_step_capacity [of m n js p] m assms(2) by auto
  qed
qed

lemma jsmn_next_prefix:
  assumes "jsmn_next (js @ ys) p q" "jpos p < length js" "jsmn_step n js p = r"
  shows "r = Inr q \<or> r = Inl (Nomem, p) \<or> r = Inl (Part, p) \<and> ys \<noteq> []"
  using jsmn_next_step [OF assms(1), of n] jsmn_step_append [OF assms(2), of n ys] assms(3)
  by (cases "ys = []"; cases "r = Inl (Part, p)") auto

lemma jsmn_next_wf: "jsmn_next js p q \<Longrightarrow> jsmn_wf p \<Longrightarrow> jsmn_wf q \<and> later (jtoks p) (jtoks q) \<and> length (jtoks q) \<ge> length (jtoks p) \<and> jpos p < jpos q"
  unfolding jsmn_next_def using jsmn_step_wf by fastforce

lemma jsmn_runs_wf: "jsmn_runs js p q \<Longrightarrow> jsmn_wf p \<Longrightarrow> jsmn_wf q \<and> later (jtoks p) (jtoks q) \<and> jpos p \<le> jpos q"
  by (induction rule: rtranclp_induct) (auto dest: jsmn_next_wf intro: later_trans)

lemma close_token_error_pos: "close_token k t i p = Inl (e, q) \<Longrightarrow> q = p"
  by (induction k t i p rule: close_token.induct) (auto simp: Let_def split: if_splits)

lemma jsmn_step_error_pos:
  assumes "jsmn_step n js p = Inl (e, q)"
  shows "jpos q = jpos p"
proof -
  have c: "jsmn_char n js p = Inl (e, q)" using assms by (cases "jsmn_char n js p") (auto simp: jsmn_step_def)
  have 1: "open_token n t p = Inl (e, q) \<Longrightarrow> ?thesis" for t
    by (auto simp: open_token_def alloc_token_def Let_def split: if_splits)
  have 2: "close_token (length (jtoks p)) t (last_tok p) p = Inl (e, q) \<Longrightarrow> ?thesis" for t
    using close_token_error_pos by blast
  have 3: "bindE (parse_string n js p) (\<lambda>p. Inr (grow_super p)) = Inl (e, q) \<Longrightarrow> ?thesis"
    "bindE (parse_primitive n js p) (\<lambda>p. Inr (grow_super p)) = Inl (e, q) \<Longrightarrow> ?thesis"
    by (auto simp: parse_string_def parse_primitive_def token_at_eq split: scan.splits if_splits)
  from c show ?thesis
    unfolding jsmn_char_def Let_def
    by (simp only: split: if_split_asm) ((erule 1 | (rule 2, assumption) | (rule 3, assumption) | force)+)
qed

lemma jsmn_loop_Inl: "jsmn_loop n js count p = (Inl e, q) \<Longrightarrow> jpos p \<le> length js \<Longrightarrow> jpos q < length js"
proof (induction n js count p rule: jsmn_loop.induct)
  case (1 n js count p)
  show ?case
  proof (cases "jpos p < length js \<and> js ! jpos p \<noteq> 0")
    case True
    then show ?thesis
    proof (cases "jsmn_step n js p")
      case (Inr p')
      then show ?thesis using 1 True jsmn_step_pos [OF Inr] by (simp add: jsmn_loop.simps [of n js count p])
    next
      case (Inl l)
      then have "l = (e, q)" using 1(2) True by (cases l) (simp add: jsmn_loop.simps [of n js count p])
      then show ?thesis using jsmn_step_error_pos Inl True by auto
    qed
  qed (use 1(2) in \<open>simp add: jsmn_loop.simps [of n js count p] split: if_splits\<close>)
qed

lemma jsmn_loop_prefix:
  "jsmn_loop n js count p = (r, q) \<Longrightarrow> jsmn_runs (js @ ys) p f \<Longrightarrow> jsmn_wf p \<Longrightarrow> jpos f = length (js @ ys) \<Longrightarrow> jpos p \<le> length js \<Longrightarrow>
   jsmn_runs (js @ ys) p q \<and> jsmn_runs (js @ ys) q f \<and> (r = Inl Part \<and> ys \<noteq> [] \<or> r = Inl Nomem \<or> (\<exists>k. r = Inr k) \<and> jpos q = length js)"
proof (induction n js count p rule: jsmn_loop.induct)
  case (1 n js count p)
  show ?case
  proof (cases "jpos p < length js")
    case True
    then have "p \<noteq> f" using 1(5) by auto
    then obtain p' where p': "jsmn_next (js @ ys) p p'" "jsmn_runs (js @ ys) p' f"
      using 1(3) by (auto elim: converse_rtranclpE)
    then have c: "jpos p < length js \<and> js ! jpos p \<noteq> 0" using True by (auto simp: jsmn_next_def nth_append)
    consider "jsmn_step n js p = Inr p'" | "jsmn_step n js p = Inl (Nomem, p)" | "jsmn_step n js p = Inl (Part, p)" "ys \<noteq> []"
      using jsmn_next_prefix [OF p'(1) True refl] by auto
    then show ?thesis
    proof cases
      case 1
      have "jsmn_loop n js (count + of_bool (counted (js ! jpos p))) p' = (r, q)"
        using "1.prems"(1) 1 c by (simp add: jsmn_loop.simps [of n js count p])
      with "1.IH" [OF c 1 _ p'(2)] jsmn_next_wf [OF p'(1) "1.prems"(3)] jsmn_step_pos [OF 1 True] "1.prems"(4)
      show ?thesis using p'(1) by (auto intro: converse_rtranclp_into_rtranclp)
    qed (use "1.prems"(1,2) c in \<open>auto simp: jsmn_loop.simps [of n js count p]\<close>)
  next
    case False
    then show ?thesis using "1.prems" by (auto simp: jsmn_loop.simps [of n js count p])
  qed
qed

text \<open>
  On a text whose rounds lead from \<open>p\<close> to \<open>f\<close> and whose first token is closed by its last character: a call
  on a proper prefix is incomplete, and a call on the text gets to \<open>f\<close> when the array is large enough.
\<close>

lemma jsmn_parse_prefix:
  assumes "jsmn_parse n js p = (r, q)" "jsmn_runs (js @ ys) p f" "jsmn_wf p" "jpos f = length (js @ ys)" "jpos p \<le> length js"
    and root: "jtoks p \<noteq> []" "\<not> list_ex is_open (jtoks f)" "tok_end (jtoks f ! 0) = int (length (js @ ys))"
  shows "jsmn_runs (js @ ys) q f \<and> jsmn_wf q \<and> jtoks q \<noteq> [] \<and> jpos q \<le> length js
    \<and> (r = Inl Nomem \<and> n \<le> length (jtoks q) \<or> (if ys = [] then r = Inr (length (jtoks f)) \<and> q = f else r = Inl Part))"
proof -
  obtain r' where l: "jsmn_loop n js (length (jtoks p)) p = (r', q)"
    and r: "r = (case r' of Inl e \<Rightarrow> Inl e | Inr k \<Rightarrow> if list_ex is_open (jtoks q) then Inl Part else Inr k)"
    using assms(1) by (auto simp: jsmn_parse_def split: prod.splits sum.splits if_splits)
  have pre: "jsmn_runs (js @ ys) q f" "r' = Inl Part \<and> ys \<noteq> [] \<or> r' = Inl Nomem \<or> (\<exists>k. r' = Inr k) \<and> jpos q = length js"
    using jsmn_loop_prefix [OF l assms(2-5)] by blast+
  have w: "jsmn_wf q" "later (jtoks p) (jtoks q)" "jpos q \<le> length js" "r' = Inl Nomem \<Longrightarrow> n \<le> length (jtoks q)"
    "\<And>k. r' = Inr k \<Longrightarrow> k = length (jtoks q)"
    using jsmn_loop_wf [OF l assms(3,5) refl] pre(2) by (auto simp: left_by_def)
  have q: "jtoks q \<noteq> []" using w(2) root(1) by (auto simp: later_def)
  have f: "later (jtoks q) (jtoks f)" using jsmn_runs_wf [OF pre(1) w(1)] by simp
  have 1: "list_ex is_open (jtoks q)" if "jpos q < length (js @ ys)"
  proof -
    have t: "tok_ok (int (jpos q)) 0 (jtoks q ! 0)" using w(1) q by (simp add: jsmn_wf_def toks_wf_def)
    have "tok_end (jtoks q ! 0) = - 1"
    proof (rule ccontr)
      assume n: "tok_end (jtoks q ! 0) \<noteq> - 1"
      then have "tok_end (jtoks q ! 0) = int (length (js @ ys))" using f q root(3) by (auto simp: later_def)
      then show False using t that n by (auto simp: tok_ok_def)
    qed
    then have "is_open (jtoks q ! 0)" using t by (auto simp: is_open_def tok_ok_def)
    then show ?thesis using q by (metis Bex_set length_greater_0_conv nth_mem)
  qed
  show ?thesis
  proof (cases "jpos q = length (js @ ys)")
    case True
    have "q = f"
      using pre(1) True by (cases rule: converse_rtranclpE) (auto simp: jsmn_next_def)
    have ys: "ys = []" using True w(3) by simp
    obtain k where k: "r' = Inr k"
    proof (cases r')
      case (Inl e)
      then show ?thesis using jsmn_loop_Inl [OF l [unfolded Inl] assms(5)] True by simp
    qed
    then have "r = Inr (length (jtoks f))" using r root(2) w(5) [OF k] by (simp add: \<open>q = f\<close>)
    then show ?thesis using w(1,3) q pre(1) ys \<open>q = f\<close> by simp
  next
    case False
    then have lt: "jpos q < length (js @ ys)" using w(3) by simp
    show ?thesis
    proof (cases "r' = Inl Nomem")
      case True
      then show ?thesis using w pre(1) q r by simp
    next
      case ne: False
      then have "r = Inl Part" using pre(2) r 1 [OF lt] by auto
      moreover have "ys \<noteq> []" using pre(2) ne lt by auto
      ultimately show ?thesis using w pre(1) q by simp
    qed
  qed
qed

section \<open>Property\<close>



text \<open>The token that stays: an array where a key must be.\<close>

lemma jsmn_inval_leaves_token:
  "jsmn_parse 8 [123, 91] jsmn_init
     = (Inl Inval, \<lparr>jpos = 1, jtoks = [new_tok Jsmn_object 0 (- 1) (- 1), blank_tok], toksuper = 0\<rparr>)"
  by (simp add: jsmn_parse_def jsmn_loop.simps jsmn_step_def jsmn_char_def open_token_eq grow_super_def jsmn_init_def)

end
