(* ===== verification/Json_Strings.thy ===== *)
theory Json_Strings
  imports Cpph_Prelude
begin

text \<open>
  The string helpers of \<open>helper/strutil.hxx\<close>: escaping and unescaping of JSON strings, and the UTF-8
  filter. A \<open>char\<close> is a byte, signed in comparisons; the output is the list of what is assigned to an
  inserting iterator, as the JSON writer's. \<open>isprint\<close> is that of the C locale.
\<close>

section \<open>Escaping\<close>

definition isprint :: "byte \<Rightarrow> bool" where
  "isprint c \<longleftrightarrow> 32 \<le> unat c \<and> unat c < 127"

definition hex_table :: "byte list" where
  "hex_table = map of_char ''0123456789abcdef''"

text \<open>The escapes with a letter of their own.\<close>

definition short_escapes :: "(byte \<times> byte) list" where
  "short_escapes = [(7, 97), (8, 98), (12, 102), (10, 110), (13, 114), (9, 116), (11, 118),
     (92, 92), (39, 39), (34, 34), (63, 63)]"

text \<open>\<open>None\<close> is the \<open>throw\<close> without an exception, for characters that have no four-digit code.\<close>

definition escape_ch :: "byte \<Rightarrow> byte list option" where
  "escape_ch ch =
     (if sint ch < 0 \<or> isprint ch \<and> ch \<noteq> 92 \<and> ch \<noteq> 34 then Some [ch]
      else case map_of short_escapes ch of
        Some e \<Rightarrow> Some [92, e]
      | None \<Rightarrow>
          let cc = ucast ch :: u32
          in if cc < 65535
             then Some [92, 117, hex_table ! unat (drop_bit 12 (cc AND 0xf000)), hex_table ! unat (drop_bit 8 (cc AND 0x0f00)),
                    hex_table ! unat (drop_bit 4 (cc AND 0x00f0)), hex_table ! unat (cc AND 0x000f)]
             else None)"

fun json_escape :: "byte list \<Rightarrow> byte list option" where
  "json_escape [] = Some []"
| "json_escape (c # cs) =
     (case escape_ch c of None \<Rightarrow> None | Some e \<Rightarrow> map_option (\<lambda>t. e @ t) (json_escape cs))"

section \<open>Unescaping\<close>

definition hex_digit :: "byte \<Rightarrow> byte" where
  "hex_digit c = (if sint c \<ge> 97 then c - 97 + 10 else c - 48)"

definition hexval :: "byte \<Rightarrow> byte \<Rightarrow> int" where
  "hexval hi lo = sint (hex_digit hi) * 16 + sint (hex_digit lo)"

text \<open>\<open>hex\<close> says that the next two characters are read as the digits of a character (the case \<open>x\<close>);
  the case \<open>u\<close> reads two and falls through to it.\<close>

function (sequential) json_unescape :: "bool \<Rightarrow> byte list \<Rightarrow> byte list" where
  "json_unescape True (hi # lo # s) = of_int (hexval hi lo) # json_unescape False s"
| "json_unescape True _ = []"
| "json_unescape False [] = []"
| "json_unescape False (c # s) =
     (if c \<noteq> 92 then c # json_unescape False s
      else case s of
        [] \<Rightarrow> []
      | e # s' \<Rightarrow>
          (if e = 117
           then case s' of
                  hi # lo # s'' \<Rightarrow> of_int (hexval hi lo) # json_unescape True s''
                | _ \<Rightarrow> []
           else if e = 120 then json_unescape True s'
           else case map_of (map prod.swap short_escapes) e of
                  Some ch \<Rightarrow> ch # json_unescape False s'
                | None \<Rightarrow> json_unescape False s'))"
  by pat_completeness auto
termination
  by (relation "measure (\<lambda>(_, s). length s)") auto

section \<open>UTF-8\<close>

datatype shelf = Full "byte list" "byte list" | Skip "byte list" | End_of_input

text \<open>The inner loop: up to \<open>n\<close> continuation bytes. One that is none is consumed as well.\<close>

fun fill_shelf :: "nat \<Rightarrow> byte list \<Rightarrow> shelf" where
  "fill_shelf 0 s = Full [] s"
| "fill_shelf (Suc n) [] = End_of_input"
| "fill_shelf (Suc n) (d # s) =
     (if d AND 0xC0 \<noteq> 0x80 then Skip s
      else case fill_shelf n s of Full ds r \<Rightarrow> Full (d # ds) r | r \<Rightarrow> r)"

definition utf8_lead :: "byte \<Rightarrow> nat option" where
  "utf8_lead c =
     (if c AND 0xE0 = 0xC0 then Some 1 else if c AND 0xF0 = 0xE0 then Some 2
      else if c AND 0xF8 = 0xF0 then Some 3 else None)"

lemma fill_shelf_length:
  "fill_shelf n s = Full ds r \<Longrightarrow> length r \<le> length s" "fill_shelf n s = Skip r \<Longrightarrow> length r \<le> length s"
  by (induction n s arbitrary: ds r rule: fill_shelf.induct) (auto split: if_splits shelf.splits)

text \<open>The answer is what is assigned and the count returned.\<close>

function validate_utf8 :: "byte list \<Rightarrow> byte list \<times> nat" where
  "validate_utf8 [] = ([], 0)"
| "validate_utf8 (c # s) =
     (if c \<le> 0x7f then (case validate_utf8 s of (out, n) \<Rightarrow> (c # out, n + 1))
      else case utf8_lead c of
        None \<Rightarrow> validate_utf8 s
      | Some k \<Rightarrow>
          (case fill_shelf k s of
             Full ds r \<Rightarrow> (case validate_utf8 r of (out, n) \<Rightarrow> (c # ds @ out, n + k + 1))
           | Skip r \<Rightarrow> validate_utf8 r
           | End_of_input \<Rightarrow> ([], 0)))"
  by pat_completeness auto
termination
  by (relation "measure length") (auto dest: fill_shelf_length simp: less_Suc_eq_le)

section \<open>The forms of an escape\<close>

text \<open>The characters that have no escape letter and are not printable.\<close>

definition coded :: "byte \<Rightarrow> bool" where
  "coded c \<longleftrightarrow> (unat c < 32 \<or> unat c = 127) \<and> map_of short_escapes c = None"

definition escape_form :: "byte \<Rightarrow> bool" where
  "escape_form c =
     (case escape_ch c of
        Some [a] \<Rightarrow> a = c \<and> c \<noteq> 92 \<and> c \<noteq> 34 \<and> 32 \<le> unat c \<and> \<not> coded c
      | Some [a, x] \<Rightarrow> a = 92 \<and> x \<noteq> 117 \<and> x \<noteq> 120 \<and> map_of (map prod.swap short_escapes) x = Some c \<and> \<not> coded c
      | Some [a, u, h1, l1, h2, l2] \<Rightarrow> a = 92 \<and> u = 117 \<and> h1 = 48 \<and> l1 = 48 \<and> of_int (hexval h2 l2) = c \<and> coded c
          \<and> h2 \<in> set hex_table \<and> l2 \<in> set hex_table
      | _ \<Rightarrow> False)"

lemma odd_div_128: "(n :: nat) < 256 \<Longrightarrow> odd (n div 128) \<longleftrightarrow> 128 \<le> n"
proof (cases "128 \<le> n")
  case True
  assume "n < 256"
  with True obtain m where "n = 128 + m" "m < 128" by (metis add_less_cancel_left le_Suc_ex numeral_Bit0)
  moreover have "(128 + m) div 128 = m div 128 + 1" by (rule div_add_self1) simp
  ultimately show ?thesis by (simp del: div_add_self1)
qed simp

lemma sint_negative: "sint (c :: byte) < 0 \<longleftrightarrow> 128 \<le> unat c"
proof -
  have "bit (unat c) 7 \<longleftrightarrow> bit c 7" by (simp add: bit_unsigned_iff)
  moreover have "bit (unat c) 7 \<longleftrightarrow> odd (unat c div 128)" by (simp add: bit_iff_odd)
  moreover have "sint c < 0 \<longleftrightarrow> bit c 7" by (simp add: sint_uint bit_uint_iff)
  ultimately show ?thesis using odd_div_128 [of "unat c"] by simp
qed

lemma escape_plain:
  assumes "128 \<le> unat c \<or> isprint c \<and> c \<noteq> 92 \<and> c \<noteq> 34"
  shows "escape_form c"
proof -
  have "escape_ch c = Some [c]" using assms by (auto simp: escape_ch_def sint_negative)
  moreover have "c \<noteq> 92" "c \<noteq> 34" "32 \<le> unat c" "\<not> coded c" using assms by (auto simp: isprint_def coded_def)
  ultimately show ?thesis by (simp add: escape_form_def)
qed

lemma escape_special: "list_all (\<lambda>n. escape_form (of_nat n)) ([0..<32] @ [34, 92, 127])"
  by (simp add: upt_rec escape_form_def escape_ch_def isprint_def short_escapes_def coded_def hexval_def hex_digit_def hex_table_def)

lemma escape_form: "escape_form c"
proof (cases "128 \<le> unat c \<or> isprint c \<and> c \<noteq> 92 \<and> c \<noteq> 34")
  case False
  have "unat c < 32 \<or> c = 92 \<or> c = 34 \<or> unat c = 127" using False by (auto simp: isprint_def)
  then have "unat c \<in> set ([0..<32] @ [34, 92, 127])" by auto
  then have "escape_form (of_nat (unat c))" using escape_special unfolding list_all_iff by blast
  then show ?thesis by simp
qed (rule escape_plain)

text \<open>A reader of the text: it looks for the quote that ends the string.\<close>

fun scan_string :: "byte list \<Rightarrow> byte list option" where
  "scan_string [] = None"
| "scan_string (c # s) =
     (if c = 34 then Some s else if c = 92 then (case s of [] \<Rightarrow> None | _ # s' \<Rightarrow> scan_string s') else scan_string s)"

lemma escape_cases:
  obtains (plain) "escape_ch c = Some [c]" "c \<noteq> 92" "c \<noteq> 34" "32 \<le> unat c" "\<not> coded c"
    | (short) x where "escape_ch c = Some [92, x]" "x \<noteq> 117" "x \<noteq> 120" "map_of (map prod.swap short_escapes) x = Some c" "\<not> coded c"
    | (code) h l where "escape_ch c = Some [92, 117, 48, 48, h, l]" "of_int (hexval h l) = c" "coded c" "h \<in> set hex_table" "l \<in> set hex_table"
  using escape_form [of c] unfolding escape_form_def by (auto split: option.splits list.splits)

lemma short_range: "map_of (map prod.swap short_escapes) x = Some c \<Longrightarrow> 32 \<le> unat x"
  by (auto simp: short_escapes_def split: if_splits)

lemma hex_range: "h \<in> set hex_table \<Longrightarrow> 48 \<le> unat h \<and> h \<noteq> 34 \<and> h \<noteq> 92"
  by (auto simp: hex_table_def)

lemma escape_one:
  "\<exists>e. escape_ch c = Some e \<and> json_unescape False (e @ s) = (if coded c then [0, c] else [c]) @ json_unescape False s
     \<and> scan_string (e @ s) = scan_string s \<and> list_all (\<lambda>c. 32 \<le> unat c) e"
proof (cases c rule: escape_cases)
  case (short x)
  then show ?thesis using short_range [of x c] by simp
next
  case (code h l)
  have z: "of_int (hexval 48 48) = (0 :: byte)" by (simp add: hexval_def hex_digit_def)
  have "x \<in> set hex_table \<Longrightarrow> 32 \<le> unat x" for x using hex_range [of x] by simp
  then show ?thesis using code hex_range [of h] hex_range [of l] z by simp
qed simp

lemma escape_all:
  "\<exists>t. json_escape s = Some t \<and> json_unescape False t = concat (map (\<lambda>c. if coded c then [0, c] else [c]) s)
     \<and> scan_string (t @ 34 # rest) = Some rest \<and> list_all (\<lambda>c. 32 \<le> unat c) t"
proof (induction s)
  case (Cons c s)
  then obtain t where t: "json_escape s = Some t" "json_unescape False t = concat (map (\<lambda>c. if coded c then [0, c] else [c]) s)"
    "scan_string (t @ 34 # rest) = Some rest" "list_all (\<lambda>c. 32 \<le> unat c) t" by blast
  obtain e where e: "escape_ch c = Some e" "list_all (\<lambda>c. 32 \<le> unat c) e" using escape_one [of c "[]"] by blast
  have "json_unescape False (e @ t) = (if coded c then [0, c] else [c]) @ json_unescape False t"
    "scan_string (e @ t @ 34 # rest) = scan_string (t @ 34 # rest)"
    using escape_one [of c t] escape_one [of c "t @ 34 # rest"] e(1) by auto
  with t e show ?case by simp
qed simp

section \<open>Well-formed UTF-8\<close>

text \<open>A sequence of the shape the filter accepts: a byte below 128, or a lead byte and its continuation.\<close>

definition utf8_sequence :: "byte list \<Rightarrow> bool" where
  "utf8_sequence bs = (case bs of [] \<Rightarrow> False
     | c # ds \<Rightarrow> (c \<le> 0x7f \<and> ds = []) \<or> (\<not> c \<le> 0x7f \<and> utf8_lead c = Some (length ds) \<and> list_all (\<lambda>d. d AND 0xC0 = 0x80) ds))"

lemma fill_shelf_full:
  "fill_shelf n s = Full ds r \<Longrightarrow> length ds = n \<and> list_all (\<lambda>d. d AND 0xC0 = 0x80) ds \<and> s = ds @ r"
  by (induction n s arbitrary: ds r rule: fill_shelf.induct) (auto split: if_splits shelf.splits)

lemma fill_shelf_exact: "list_all (\<lambda>d. d AND 0xC0 = 0x80) ds \<Longrightarrow> fill_shelf (length ds) (ds @ r) = Full ds r"
  by (induction ds) simp_all

lemma validate_shape:
  "\<exists>chunks. fst (validate_utf8 s) = concat chunks \<and> list_all utf8_sequence chunks \<and> snd (validate_utf8 s) = length (fst (validate_utf8 s))"
proof (induction s rule: validate_utf8.induct)
  case 1
  show ?case by (intro exI [of _ "[]"]) simp
next
  case (2 c s)
  have add: "\<exists>chunks'. b @ out = concat chunks' \<and> list_all utf8_sequence chunks'"
    if "utf8_sequence b" "out = concat chunks" "list_all utf8_sequence chunks" for b out chunks
    using that by (intro exI [of _ "b # chunks"]) simp
  show ?case
  proof (cases "c \<le> 0x7f")
    case True
    then have "utf8_sequence [c]" by (simp add: utf8_sequence_def)
    with add [OF this] 2(1) [OF True] True show ?thesis by (fastforce split: prod.splits)
  next
    case c: False
    show ?thesis
    proof (cases "utf8_lead c")
      case None
      with 2(2) [OF c] c show ?thesis by simp
    next
      case (Some k)
      show ?thesis
      proof (cases "fill_shelf k s")
        case (Full ds r)
        have "utf8_sequence (c # ds)" using c Some fill_shelf_full [OF Full] by (simp add: utf8_sequence_def)
        from add [OF this] 2(3) [OF c Some Full] c Some Full fill_shelf_full [OF Full] show ?thesis
          by (fastforce split: prod.splits)
      next
        case (Skip r)
        with 2(4) [OF c Some] c Some show ?thesis by simp
      next
        case End_of_input
        with c Some show ?thesis by (intro exI [of _ "[]"]) simp
      qed
    qed
  qed
qed

lemma validate_chunk:
  assumes "utf8_sequence b"
  shows "validate_utf8 (b @ s) = (b @ fst (validate_utf8 s), length b + snd (validate_utf8 s))"
proof -
  obtain c ds where b: "b = c # ds" using assms by (cases b) (auto simp: utf8_sequence_def)
  show ?thesis
  proof (cases "c \<le> 0x7f")
    case True
    then show ?thesis using assms by (simp add: b utf8_sequence_def split: prod.splits)
  next
    case False
    then have "utf8_lead c = Some (length ds)" "fill_shelf (length ds) (ds @ s) = Full ds s"
      using assms fill_shelf_exact by (simp_all add: b utf8_sequence_def)
    with False show ?thesis by (simp add: b split: prod.splits)
  qed
qed

lemma validate_chunks: "list_all utf8_sequence chunks \<Longrightarrow> validate_utf8 (concat chunks) = (concat chunks, length (concat chunks))"
  by (induction chunks) (simp_all add: validate_chunk)

section \<open>Properties\<close>

text \<open>C28: Escaping never fails and its text is a safe JSON string body: it has no control character, and a
  reader finds the closing quote exactly behind it. Unescaping gives the string back, except that a
  control character without an escape letter comes back with a zero byte before it, because the case for
  four digits stores the first two as a character of their own.\<close>

theorem json_escape_roundtrip:
  "\<exists>t. json_escape s = Some t \<and> json_unescape False t = concat (map (\<lambda>c. if coded c then [0, c] else [c]) s)
     \<and> scan_string (t @ 34 # rest) = Some rest \<and> list_all (\<lambda>c. 32 \<le> unat c) t"
  by (rule escape_all)

text \<open>The UTF-8 filter writes only well-shaped sequences and counts what it writes, for any input, and it
  writes a well-shaped text unchanged; so filtering twice is filtering once.\<close>

theorem validate_utf8_filter:
  "(\<exists>chunks. fst (validate_utf8 s) = concat chunks \<and> list_all utf8_sequence chunks)
    \<and> snd (validate_utf8 s) = length (fst (validate_utf8 s))
    \<and> validate_utf8 (concat (filter utf8_sequence seqs)) = (concat (filter utf8_sequence seqs), length (concat (filter utf8_sequence seqs)))
    \<and> fst (validate_utf8 (fst (validate_utf8 s))) = fst (validate_utf8 s)"
proof -
  obtain chunks where c: "fst (validate_utf8 s) = concat chunks" "list_all utf8_sequence chunks"
    "snd (validate_utf8 s) = length (fst (validate_utf8 s))" using validate_shape by blast
  have "list_all utf8_sequence (filter utf8_sequence seqs)" by (simp add: list_all_iff)
  from validate_chunks [OF this] validate_chunks [OF c(2)] c show ?thesis by auto
qed

end
