(* ===== verification/Stream_Buffers.thy ===== *)
theory Stream_Buffers
  imports Base64
begin

text \<open>
  The stream buffers of \<open>streambuf/string.hxx\<close> and \<open>streambuf/base64.hxx\<close>. Pointers into a buffer are
  offsets from its start. What clients call (\<open>sputc\<close>, \<open>sputn\<close>, \<open>sgetc\<close>, \<open>sbumpc\<close>, \<open>pubsync\<close>) is the standard
  library's, over the virtual functions of the code: a character goes into the put area while there is
  room and to \<open>overflow\<close> otherwise, and comes out of the get area or from \<open>underflow\<close>.
\<close>

section \<open>\<open>stringbuf\<close>\<close>

record strbuf =
  content :: "byte list"
  read_end :: nat
  pbase :: nat
  pptr :: nat
  epptr :: nat
  gptr :: nat
  egptr :: nat

datatype strbuf_error = Assertion_failed

definition setp :: "nat \<Rightarrow> nat \<Rightarrow> strbuf \<Rightarrow> strbuf" where
  "setp b e s = s\<lparr>pbase := b, pptr := b, epptr := e\<rparr>"

definition retarget :: "strbuf \<Rightarrow> strbuf_error + strbuf" where
  "retarget s =
     (if read_end s \<le> length (content s)
      then Inr ((setp (read_end s) (length (content s)) s)\<lparr>egptr := read_end s\<rparr>)
      else Inl Assertion_failed)"

definition sb_reset :: "byte list \<Rightarrow> strbuf_error + strbuf" where
  "sb_reset buf =
     retarget \<lparr>content = buf, read_end = length buf, pbase = 0, pptr = 0, epptr = 0, gptr = 0, egptr = 0\<rparr>"

definition sb_clear :: "strbuf \<Rightarrow> strbuf_error + strbuf" where
  "sb_clear s = retarget (s\<lparr>read_end := 0, gptr := 0, egptr := 0\<rparr>)"

definition sb_reserve :: "strbuf \<Rightarrow> strbuf_error + strbuf" where
  "sb_reserve s = retarget s"

definition strview :: "strbuf \<Rightarrow> byte list" where
  "strview s = take (read_end s) (content s)"

definition sb_overflow :: "byte \<Rightarrow> strbuf \<Rightarrow> strbuf_error + strbuf" where
  "sb_overflow value s =
     (let s = s\<lparr>read_end := length (content s)\<rparr>;
          n = read_end s * 5 div 4 + 228;
          s = s\<lparr>content := content s @ replicate (n - length (content s)) 0\<rparr>
      in bindE (retarget s) (\<lambda>s.
           Inr (s\<lparr>content := (content s)[read_end s := value], pptr := pptr s + 1\<rparr>)))"

text \<open>\<open>underflow\<close> answers \<open>eof\<close> also for the character with all bits set, which it does not convert.\<close>

definition sb_underflow :: "strbuf \<Rightarrow> byte option \<times> strbuf" where
  "sb_underflow s =
     (let offset = gptr s; s = s\<lparr>egptr := read_end s\<rparr>
      in (if length (content s) = offset \<or> content s ! offset = 0xff then None else Some (content s ! offset), s))"

definition sb_sync :: "strbuf \<Rightarrow> strbuf_error + strbuf" where
  "sb_sync s =
     (if read_end s \<le> length (content s)
      then let s = s\<lparr>read_end := read_end s + (pptr s - pbase s)\<rparr>;
               s = s\<lparr>content := take (read_end s) (content s) @ replicate (read_end s - length (content s)) 0\<rparr>;
               s = setp (read_end s) (length (content s)) s
           in Inr (snd (sb_underflow s))
      else Inl Assertion_failed)"

definition sb_str :: "strbuf \<Rightarrow> strbuf_error + byte list \<times> strbuf" where
  "sb_str s = bindE (sb_sync s) (\<lambda>s. Inr (content s, s))"

text \<open>The public interface of \<open>std::streambuf\<close>.\<close>

definition sb_sputc :: "byte \<Rightarrow> strbuf \<Rightarrow> strbuf_error + strbuf" where
  "sb_sputc ch s =
     (if pptr s < epptr s then Inr (s\<lparr>content := (content s)[pptr s := ch], pptr := pptr s + 1\<rparr>)
      else sb_overflow ch s)"

fun sb_sputn :: "byte list \<Rightarrow> strbuf \<Rightarrow> strbuf_error + strbuf" where
  "sb_sputn [] s = Inr s"
| "sb_sputn (c # cs) s = bindE (sb_sputc c s) (sb_sputn cs)"

definition sb_sbumpc :: "strbuf \<Rightarrow> byte option \<times> strbuf" where
  "sb_sbumpc s =
     (if gptr s < egptr s then (Some (content s ! gptr s), s\<lparr>gptr := gptr s + 1\<rparr>)
      else case sb_underflow s of
        (None, s) \<Rightarrow> (None, s)
      | (Some _, s) \<Rightarrow> (Some (content s ! gptr s), s\<lparr>gptr := gptr s + 1\<rparr>))"

fun sb_read :: "nat \<Rightarrow> strbuf \<Rightarrow> byte list \<times> strbuf" where
  "sb_read 0 s = ([], s)"
| "sb_read (Suc n) s = (case sb_sbumpc s of (None, s) \<Rightarrow> ([], s)
     | (Some c, s) \<Rightarrow> (case sb_read n s of (cs, s) \<Rightarrow> (c # cs, s)))"

text \<open>Where the areas lie, and what the buffer holds: the characters written, and those not yet read.\<close>

definition sb_ok :: "strbuf \<Rightarrow> bool" where
  "sb_ok s \<longleftrightarrow> pbase s = read_end s \<and> read_end s \<le> pptr s \<and> pptr s \<le> epptr s \<and> epptr s = length (content s)
     \<and> gptr s \<le> read_end s \<and> egptr s \<le> read_end s"

definition sb_text :: "strbuf \<Rightarrow> byte list" where
  "sb_text s = take (pptr s) (content s)"

lemma take_update_last: "i < length xs \<Longrightarrow> take (Suc i) (xs[i := x]) = take i xs @ [x]"
  by (simp add: take_Suc_conv_app_nth)

lemma sb_sputc_ok:
  assumes "sb_ok s"
  shows "\<exists>s'. sb_sputc c s = Inr s' \<and> sb_ok s' \<and> sb_text s' = sb_text s @ [c] \<and> gptr s' = gptr s"
proof (cases "pptr s < epptr s")
  case True
  with assms show ?thesis by (simp add: sb_sputc_def sb_ok_def sb_text_def take_update_last)
next
  case False
  let ?n = "length (content s)"
  have p: "pptr s = ?n" "epptr s = ?n" "gptr s \<le> ?n" using assms False by (auto simp: sb_ok_def)
  have g: "?n < ?n * 5 div 4 + 228" by linarith
  let ?c = "content s @ replicate (?n * 5 div 4 + 228 - ?n) 0"
  have l: "length ?c = ?n * 5 div 4 + 228" using g by simp
  have "take (Suc ?n) (?c[?n := c]) = content s @ [c]" using l g by (subst take_update_last) simp_all
  then show ?thesis
    using p g l by (simp add: sb_sputc_def False sb_overflow_def retarget_def setp_def sb_ok_def sb_text_def Let_def)
qed

lemma sb_sputn_ok:
  "sb_ok s \<Longrightarrow> \<exists>s'. sb_sputn cs s = Inr s' \<and> sb_ok s' \<and> sb_text s' = sb_text s @ cs \<and> gptr s' = gptr s"
proof (induction cs arbitrary: s)
  case (Cons c cs)
  obtain s' where "sb_sputc c s = Inr s'" "sb_ok s'" "sb_text s' = sb_text s @ [c]" "gptr s' = gptr s"
    using sb_sputc_ok [OF Cons.prems] by blast
  with Cons.IH [of s'] show ?case by auto
qed simp

lemma sb_sync_ok:
  assumes "sb_ok s"
  shows "\<exists>s'. sb_sync s = Inr s' \<and> sb_ok s' \<and> content s' = sb_text s \<and> sb_text s' = sb_text s \<and> pptr s' = length (content s')
    \<and> read_end s' = length (content s') \<and> egptr s' = read_end s' \<and> gptr s' = gptr s"
  using assms by (simp add: sb_sync_def sb_ok_def sb_text_def sb_underflow_def setp_def Let_def min_def)

text \<open>Reading a synchronised buffer.\<close>

lemma sb_read_ok:
  assumes "sb_ok s" "pptr s = length (content s)" "read_end s = length (content s)" "egptr s = read_end s"
  shows "\<exists>s'. sb_read n s = (take n (drop (gptr s) (content s)), s') \<and> gptr s' = min (gptr s + n) (length (content s))
    \<and> sb_ok s' \<and> content s' = content s \<and> egptr s' = egptr s \<and> read_end s' = read_end s"
  using assms
proof (induction n arbitrary: s)
  case (Suc n)
  show ?case
  proof (cases "gptr s < egptr s")
    case True
    let ?s = "s\<lparr>gptr := gptr s + 1\<rparr>"
    have b: "sb_sbumpc s = (Some (content s ! gptr s), ?s)" using True by (simp add: sb_sbumpc_def)
    have d: "drop (gptr s) (content s) = content s ! gptr s # drop (Suc (gptr s)) (content s)"
      using True Suc.prems by (intro drop_eq_nth_Cons) simp
    have "sb_ok ?s" "pptr ?s = length (content ?s)" "read_end ?s = length (content ?s)" "egptr ?s = read_end ?s"
      using Suc.prems True by (simp_all add: sb_ok_def)
    from Suc.IH [OF this] obtain s' where "sb_read n ?s = (take n (drop (Suc (gptr s)) (content s)), s')"
      "gptr s' = min (Suc (gptr s) + n) (length (content s))" "sb_ok s'" "content s' = content s" "egptr s' = egptr s" "read_end s' = read_end s"
      by auto
    then show ?thesis by (simp add: b d)
  next
    case False
    then have e: "gptr s = length (content s)" using Suc.prems by (auto simp: sb_ok_def)
    have "sb_sbumpc s = (None, s)"
      using False e Suc.prems by (cases s) (simp add: sb_sbumpc_def sb_underflow_def Let_def)
    then show ?thesis using e Suc.prems by simp
  qed
qed (simp add: min_def sb_ok_def)

section \<open>\<open>basic_b64\<close>\<close>

text \<open>The adapted stream buffer: what has been written to it, what it still has to give, its syncs.\<close>

record adapted =
  written :: "byte list"
  unread :: "byte list"
  syncs :: nat

record b64s =
  ocells :: "nat \<Rightarrow> byte"
  n_obuf :: nat
  icells :: "byte list"
  gets :: "byte list"
  src :: "adapted option"

datatype b64s_error = Source_not_set | Null_source | Decoder_failed b64_error

text \<open>\<open>wb\<close> and \<open>rb\<close> are the words of the write and the read buffer.\<close>

definition b64s_new :: "nat \<Rightarrow> adapted option \<Rightarrow> b64s" where
  "b64s_new rb a = \<lparr>ocells = (\<lambda>_. 0), n_obuf = 0, icells = replicate (3 * rb) 0, gets = [], src = a\<rparr>"

definition write_word :: "nat \<Rightarrow> b64s \<Rightarrow> b64s_error + b64s" where
  "write_word wb s =
     (if wb = 0 then Inr s
      else case src s of
        None \<Rightarrow> Inl Null_source
      | Some a \<Rightarrow> Inr (s\<lparr>src := Some (a\<lparr>written := written a @ take (encoded_size (n_obuf s)) (encode_bytes (ocells s) 0 (n_obuf s) [])\<rparr>)\<rparr>))"

definition b64_overflow :: "nat \<Rightarrow> byte \<Rightarrow> b64s \<Rightarrow> b64s_error + bool \<times> b64s" where
  "b64_overflow wb ch s =
     (if wb > 0 then
        bindE (if n_obuf s \<noteq> 0 then write_word wb s else Inr s) (\<lambda>s.
          Inr (True, s\<lparr>ocells := (ocells s)(0 := ch), n_obuf := 1\<rparr>))
      else Inr (False, s))"

definition b64_underflow :: "nat \<Rightarrow> b64s \<Rightarrow> b64s_error + byte option \<times> b64s" where
  "b64_underflow rb s =
     (if rb > 0 then
        case src s of
          None \<Rightarrow> Inl Null_source
        | Some a \<Rightarrow>
            let buf = take (encoded_size (3 * rb)) (unread a);
                s = s\<lparr>src := Some (a\<lparr>unread := drop (encoded_size (3 * rb)) (unread a)\<rparr>)\<rparr>
            in if length buf = 0 \<or> length buf mod 4 \<noteq> 0 then Inr (None, s)
               else case decoded_size buf of
                 Inl e \<Rightarrow> Inl (Decoder_failed e)
               | Inr n_decoded \<Rightarrow>
                   (case decode_bytes buf of
                      Inl e \<Rightarrow> Inl (Decoder_failed e)
                    | Inr (_, bytes) \<Rightarrow>
                        let cells = bytes @ drop (length bytes) (icells s)
                        in Inr (Some (cells ! 0), s\<lparr>icells := cells, gets := take n_decoded cells\<rparr>))
      else Inr (None, s))"

definition b64_sync :: "nat \<Rightarrow> b64s \<Rightarrow> b64s_error + b64s" where
  "b64_sync wb s =
     (if src s = None then Inl Source_not_set
      else bindE (if wb > 0 \<and> n_obuf s > 0 then bindE (write_word wb s) (\<lambda>s. Inr (s\<lparr>n_obuf := 0\<rparr>)) else Inr s) (\<lambda>s.
             Inr (s\<lparr>src := map_option (\<lambda>a. a\<lparr>syncs := syncs a + 1\<rparr>) (src s)\<rparr>)))"

definition reset_nosync :: "adapted option \<Rightarrow> b64s \<Rightarrow> adapted option \<times> b64s" where
  "reset_nosync a s = (src s, s\<lparr>n_obuf := 0, gets := [], src := a\<rparr>)"

definition b64_reset :: "nat \<Rightarrow> adapted option \<Rightarrow> b64s \<Rightarrow> b64s_error + adapted option \<times> b64s" where
  "b64_reset wb a s =
     bindE (if src s \<noteq> None then b64_sync wb s else Inr s) (\<lambda>s. Inr (reset_nosync a s))"

definition b64_destroy :: "nat \<Rightarrow> b64s \<Rightarrow> b64s_error + b64s" where
  "b64_destroy wb s = (if src s \<noteq> None \<and> n_obuf s > 0 then write_word wb s else Inr s)"

definition b64_sputc :: "nat \<Rightarrow> byte \<Rightarrow> b64s \<Rightarrow> b64s_error + bool \<times> b64s" where
  "b64_sputc wb ch s =
     (if n_obuf s < 3 * wb then Inr (True, s\<lparr>ocells := (ocells s)(n_obuf s := ch), n_obuf := n_obuf s + 1\<rparr>)
      else b64_overflow wb ch s)"

fun b64_sputn :: "nat \<Rightarrow> byte list \<Rightarrow> b64s \<Rightarrow> b64s_error + nat \<times> b64s" where
  "b64_sputn wb [] s = Inr (0, s)"
| "b64_sputn wb (c # cs) s =
     bindE (b64_sputc wb c s) (\<lambda>(ok, s).
       if ok then bindE (b64_sputn wb cs s) (\<lambda>(n, s). Inr (n + 1, s)) else Inr (0, s))"

definition b64_sbumpc :: "nat \<Rightarrow> b64s \<Rightarrow> b64s_error + byte option \<times> b64s" where
  "b64_sbumpc rb s =
     (case gets s of
        c # cs \<Rightarrow> Inr (Some c, s\<lparr>gets := cs\<rparr>)
      | [] \<Rightarrow> bindE (b64_underflow rb s) (\<lambda>(r, s). case r of
            None \<Rightarrow> Inr (None, s)
          | Some _ \<Rightarrow> Inr (Some (hd (gets s)), s\<lparr>gets := tl (gets s)\<rparr>)))"

fun b64_read :: "nat \<Rightarrow> nat \<Rightarrow> b64s \<Rightarrow> b64s_error + byte list \<times> b64s" where
  "b64_read rb 0 s = Inr ([], s)"
| "b64_read rb (Suc n) s =
     bindE (b64_sbumpc rb s) (\<lambda>(r, s). case r of None \<Rightarrow> Inr ([], s)
       | Some c \<Rightarrow> bindE (b64_read rb n s) (\<lambda>(cs, s). Inr (c # cs, s)))"

section \<open>The encoded stream\<close>

lemma b64_ref_append: "length xs mod 3 = 0 \<Longrightarrow> b64_ref (xs @ ys) = b64_ref xs @ b64_ref ys"
  by (induction xs rule: b64_ref.induct) (auto simp: Let_def)

lemma b64_ref_take: "take (4 * k) (b64_ref xs) = b64_ref (take (3 * k) xs)" "drop (4 * k) (b64_ref xs) = b64_ref (drop (3 * k) xs)"
proof (induction xs arbitrary: k rule: b64_ref.induct)
  case (4 a b c rest)
  have e: "4 * Suc j = Suc (Suc (Suc (Suc (4 * j))))" "3 * Suc j = Suc (Suc (Suc (3 * j)))" for j by simp_all
  { case 1 show ?case using "4.IH"(1) [OF refl] by (cases k) (simp_all add: Let_def e del: mult_Suc_right) }
  { case 2 show ?case using "4.IH"(2) [OF refl] by (cases k) (simp_all add: Let_def e del: mult_Suc_right) }
next
  case (2 a)
  { case 1 show ?case by (cases k) (simp_all add: Let_def) }
  { case 2 show ?case by (cases k) (simp_all add: Let_def) }
next
  case (3 a b)
  { case 1 show ?case by (cases k) (simp_all add: Let_def) }
  { case 2 show ?case by (cases k) (simp_all add: Let_def) }
qed simp_all

lemma mem_range_upd: "mem_range (f(n := c)) 0 (Suc n) = mem_range f 0 n @ [c]"
  by (simp add: mem_range_def)

text \<open>\<open>carries wb out xs s\<close>: since the adapted buffer held \<open>out\<close>, the characters \<open>xs\<close> have been put.\<close>

definition carries :: "nat \<Rightarrow> byte list \<Rightarrow> byte list \<Rightarrow> b64s \<Rightarrow> bool" where
  "carries wb out xs s \<longleftrightarrow> wb > 0 \<and> n_obuf s \<le> 3 * wb
     \<and> (\<exists>a flushed. src s = Some a \<and> written a = out @ b64_ref flushed \<and> length flushed mod 3 = 0
          \<and> xs = flushed @ mem_range (ocells s) 0 (n_obuf s))"

lemma write_word_ok:
  assumes "src s = Some a" "wb > 0"
  shows "write_word wb s = Inr (s\<lparr>src := Some (a\<lparr>written := written a @ b64_ref (mem_range (ocells s) 0 (n_obuf s))\<rparr>)\<rparr>)"
  using assms by (simp add: write_word_def encode_bytes_ref length_b64_ref)

lemma b64_sputc_ok:
  assumes "carries wb out xs s"
  shows "\<exists>s'. b64_sputc wb c s = Inr (True, s') \<and> carries wb out (xs @ [c]) s'"
proof -
  obtain a fl where a: "src s = Some a" "written a = out @ b64_ref fl" "length fl mod 3 = 0" "xs = fl @ mem_range (ocells s) 0 (n_obuf s)"
    and n: "wb > 0" "n_obuf s \<le> 3 * wb" using assms by (auto simp: carries_def)
  show ?thesis
  proof (cases "n_obuf s < 3 * wb")
    case True
    with a n show ?thesis by (auto simp: b64_sputc_def carries_def mem_range_upd)
  next
    case False
    then have full: "n_obuf s = 3 * wb" using n by simp
    have "length (fl @ mem_range (ocells s) 0 (n_obuf s)) mod 3 = 0"
      using a(3) by (simp add: full)
    then show ?thesis
      using a n full write_word_ok [OF a(1) n(1)]
      by (auto simp: b64_sputc_def b64_overflow_def carries_def b64_ref_append intro!: exI [of _ "fl @ mem_range (ocells s) 0 (3 * wb)"])
  qed
qed

lemma b64_sputn_ok:
  "carries wb out xs s \<Longrightarrow> \<exists>s'. b64_sputn wb cs s = Inr (length cs, s') \<and> carries wb out (xs @ cs) s'"
proof (induction cs arbitrary: s xs)
  case (Cons c cs)
  obtain s' where "b64_sputc wb c s = Inr (True, s')" "carries wb out (xs @ [c]) s'"
    using b64_sputc_ok [OF Cons.prems] by blast
  with Cons.IH [of "xs @ [c]" s'] show ?case by auto
qed simp

lemma b64_sync_ok:
  assumes "carries wb out xs s"
  shows "\<exists>s' a. b64_sync wb s = Inr s' \<and> src s' = Some a \<and> written a = out @ b64_ref xs \<and> n_obuf s' = 0
    \<and> carries wb (written a) [] s'"
proof -
  obtain a fl where a: "src s = Some a" "written a = out @ b64_ref fl" "length fl mod 3 = 0" "xs = fl @ mem_range (ocells s) 0 (n_obuf s)"
    and n: "wb > 0" "n_obuf s \<le> 3 * wb" using assms by (auto simp: carries_def)
  then show ?thesis
    using write_word_ok [OF a(1) n(1)] by (auto simp: b64_sync_def carries_def b64_ref_append)
qed

lemma b64_new_carries: "wb > 0 \<Longrightarrow> src s = Some a \<Longrightarrow> n_obuf s = 0 \<Longrightarrow> carries wb (written a) [] s"
  by (simp add: carries_def)

text \<open>Reading an encoded text: what is left is in the get area or still encoded.\<close>

definition holds :: "nat \<Rightarrow> byte list \<Rightarrow> b64s \<Rightarrow> bool" where
  "holds rb xs s \<longleftrightarrow> rb > 0 \<and> (\<exists>a ys. src s = Some a \<and> unread a = b64_ref ys \<and> xs = gets s @ ys)"

lemma decode_ref: "xs \<noteq> [] \<Longrightarrow> decode_bytes (b64_ref xs) = Inr (True, xs)"
  using decode_frames_ref [of xs False "[]"] by (simp add: decode_bytes_def nat_and_3 length_b64_ref encoded_size_def)

lemma b64_sbumpc_ok:
  assumes "holds rb xs s"
  shows "\<exists>s'. b64_sbumpc rb s = Inr (if xs = [] then None else Some (hd xs), s') \<and> holds rb (tl xs) s'"
proof -
  obtain a ys where a: "src s = Some a" "unread a = b64_ref ys" "xs = gets s @ ys" and r: "rb > 0"
    using assms by (auto simp: holds_def)
  show ?thesis
  proof (cases "gets s")
    case (Cons c cs)
    with a r show ?thesis by (auto simp: b64_sbumpc_def holds_def)
  next
    case Nil
    have es: "encoded_size (3 * rb) = 4 * rb" by (simp add: encoded_size_def)
    let ?zs = "take (3 * rb) ys"
    note buf = b64_ref_take [of rb ys]
    show ?thesis
    proof (cases "ys = []")
      case True
      with a r Nil show ?thesis by (simp add: b64_sbumpc_def b64_underflow_def Let_def holds_def)
    next
      case False
      then have z: "?zs \<noteq> []" using r by simp
      have m: "length (b64_ref ?zs) mod 4 = 0" by (simp add: length_b64_ref encoded_size_def)
      obtain c cs where zs: "?zs = c # cs" using z by (cases ?zs) auto
      then have ys: "ys = c # cs @ drop (3 * rb) ys" using append_take_drop_id [of "3 * rb" ys] by simp
      show ?thesis
        using a r Nil z m False
        by (auto simp: b64_sbumpc_def b64_underflow_def es buf decoded_size_ref decode_ref Let_def zs holds_def)
          (metis ys list.sel)+
    qed
  qed
qed

lemma b64_read_ok: "holds rb xs s \<Longrightarrow> \<exists>s'. b64_read rb n s = Inr (take n xs, s') \<and> holds rb (drop n xs) s'"
proof (induction n arbitrary: xs s)
  case (Suc n)
  obtain s' where s': "b64_sbumpc rb s = Inr (if xs = [] then None else Some (hd xs), s')" "holds rb (tl xs) s'"
    using b64_sbumpc_ok [OF Suc.prems] by blast
  with Suc.IH [of "tl xs" s'] show ?case by (cases xs) auto
qed auto

section \<open>Properties\<close>



text \<open>What is put into a base64 stream buffer and synchronised arrives in the adapted buffer as the base64
  text of all of it, whatever the size of the put area; and reading a base64 text gives back the bytes
  and then the end, whatever the size of the get area.\<close>

theorem b64_stream_roundtrip:
  assumes "wb > 0" "rb > 0"
  shows "\<exists>s1 s2 a. b64_sputn wb xs (b64s_new rb (Some \<lparr>written = out, unread = [], syncs = 0\<rparr>)) = Inr (length xs, s1)
      \<and> b64_sync wb s1 = Inr s2 \<and> src s2 = Some a \<and> written a = out @ b64_ref xs \<and> n_obuf s2 = 0
      \<and> (\<exists>s3. b64_read rb n (b64s_new rb (Some \<lparr>written = [], unread = b64_ref xs, syncs = 0\<rparr>)) = Inr (take n xs, s3))"
proof -
  let ?a = "\<lparr>written = out, unread = [], syncs = 0\<rparr>"
  have "carries wb out [] (b64s_new rb (Some ?a))"
    using b64_new_carries [OF assms(1), of "b64s_new rb (Some ?a)" ?a] by (simp add: b64s_new_def)
  from b64_sputn_ok [OF this, of xs] obtain s1 where s1: "b64_sputn wb xs (b64s_new rb (Some ?a)) = Inr (length xs, s1)" "carries wb out xs s1"
    by auto
  have "holds rb xs (b64s_new rb (Some \<lparr>written = [], unread = b64_ref xs, syncs = 0\<rparr>))"
    using assms(2) by (simp add: holds_def b64s_new_def)
  with b64_read_ok [OF this, of n] b64_sync_ok [OF s1(2)] s1(1) show ?thesis by blast
qed

theorem b64_stream_roundtrip_witness:
  "\<exists>s1 s2 a. b64_sputn 1 [1, 2, 3, 4] (b64s_new 1 (Some \<lparr>written = [], unread = [], syncs = 0\<rparr>)) = Inr (4, s1)
      \<and> b64_sync 1 s1 = Inr s2 \<and> src s2 = Some a \<and> written a = b64_ref [1, 2, 3, 4]"
proof -
  have "length [1, 2, 3, 4 :: byte] = 4" by simp
  with b64_stream_roundtrip [OF zero_less_one zero_less_one, of "[1, 2, 3, 4]" "[]" 0, unfolded append_Nil]
  show ?thesis by metis
qed

end
