(* ===== verification/Json_Writer.thy ===== *)
theory Json_Writer
  imports Msgpack_Roundtrip Json_Strings Stream_Buffers
begin

text \<open>
  The JSON writer of \<open>refl/archive/json-writer.hxx\<close> over the write context, the string escapes and the
  base64 stream buffer. The stream accepts every byte; \<open>written\<close> is the text. \<open>std::to_chars\<close> is the
  decimal text; what \<open>snprintf\<close> makes of a \<open>double\<close> with the current format, and the conversion of a
  \<open>float\<close>, are parameters. A write that throws keeps what it has written so far.
\<close>

section \<open>State\<close>

datatype json_error = Context_error writer_error | Invalid_key_type | Value_error | Stream_failed b64s_error
  | Rethrow | Read_past_buffer

record jwriter =
  out :: adapted
  jscopes :: "wscope list"
  indent :: int
  base64 :: b64s

record number_format =
  print_double :: "u64 \<Rightarrow> byte list"
  widen :: "u32 \<Rightarrow> u64"

type_synonym 'a jw = "jwriter \<Rightarrow> (json_error + 'a) \<times> jwriter"

definition jctx :: "'a ctx \<Rightarrow> 'a jw" where
  "jctx f w = (case f (jscopes w) of (r, ss) \<Rightarrow> (map_sum Context_error id r, w\<lparr>jscopes := ss\<rparr>))"

definition put :: "byte list \<Rightarrow> unit jw" where
  "put bs = updE (\<lambda>w. w\<lparr>out := (out w)\<lparr>written := written (out w) @ bs\<rparr>\<rparr>)"

abbreviation words_out :: nat where "words_out \<equiv> 16"

text \<open>A call of the base64 buffer. When it is attached, it is attached to the writer's own stream.\<close>

definition on_base64 :: "(b64s \<Rightarrow> b64s_error + 'a \<times> b64s) \<Rightarrow> 'a jw" where
  "on_base64 f w =
     (case f ((base64 w)\<lparr>src := map_option (\<lambda>_. out w) (src (base64 w))\<rparr>) of
        Inl e \<Rightarrow> (Inl (Stream_failed e), w)
      | Inr (x, b) \<Rightarrow> (Inr x, w\<lparr>base64 := b, out := (case src b of Some a \<Rightarrow> a | None \<Rightarrow> out w)\<rparr>))"

definition base64_sync :: "unit jw" where
  "base64_sync = on_base64 (\<lambda>b. bindE (b64_sync words_out b) (\<lambda>b. Inr ((), b)))"

text \<open>\<open>_base64.reset(_buf)\<close>: the buffer is synchronised to the stream before it is attached to it again.\<close>

definition base64_reset :: "unit jw" where
  "base64_reset =
     seqE (\<lambda>w. if src (base64 w) \<noteq> None then base64_sync w else (Inr (), w)) (\<lambda>_.
       updE (\<lambda>w. w\<lparr>base64 := snd (reset_nosync (Some (out w)) (base64 w))\<rparr>))"

section \<open>Separators\<close>

definition brk_indent :: "unit jw" where
  "brk_indent w =
     (if indent w < 0 then (Inr (), w)
      else put (10 # replicate (nat (indent w * int (length (jscopes w)))) 32) w)"

definition separate :: "write_directive \<Rightarrow> unit jw" where
  "separate d =
     seqE (if need_comma d then put [44] else retE ()) (\<lambda>_. if need_indent d then brk_indent else retE ())"

definition on_write_value_only :: "unit jw" where
  "on_write_value_only = seqE (jctx write_next) (\<lambda>d. if is_key d then throwE Invalid_key_type else separate d)"

definition put_colon :: "unit jw" where
  "put_colon = seqE (put [58]) (\<lambda>_ w. if indent w \<ge> 0 then put [32] w else (Inr (), w))"

section \<open>Writes\<close>

fun dec_nat :: "nat \<Rightarrow> byte list" where
  "dec_nat n = (if n < 10 then [of_nat (48 + n)] else dec_nat (n div 10) @ [of_nat (48 + n mod 10)])"

declare dec_nat.simps [simp del]

definition to_chars :: "int \<Rightarrow> byte list" where
  "to_chars v = (if v < 0 then 45 # dec_nat (nat (- v)) else dec_nat (nat v))"

definition ascii :: "string \<Rightarrow> byte list" where
  "ascii s = map of_char s"

definition json_null :: "unit jw" where
  "json_null = seqE on_write_value_only (\<lambda>_. put (ascii ''null''))"

definition json_int :: "int \<Rightarrow> unit jw" where
  "json_int v =
     seqE (jctx write_next) (\<lambda>d. seqE (separate d) (\<lambda>_.
     if is_key d then seqE (put (34 # to_chars v @ [34])) (\<lambda>_. put_colon) else put (to_chars v)))"

text \<open>The overload for \<open>uint64_t\<close> of \<open>if_writer\<close> converts to \<open>int64_t\<close>.\<close>

definition json_uint :: "nat \<Rightarrow> unit jw" where
  "json_uint v = json_int (to_signed 64 (int v))"

definition not_finite :: "u64 \<Rightarrow> bool" where
  "not_finite v \<longleftrightarrow> v AND 0x7ff0000000000000 = 0x7ff0000000000000"

text \<open>\<open>snprintf\<close> into 32 bytes, of which as many are written as the full text has.\<close>

definition json_double :: "number_format \<Rightarrow> u64 \<Rightarrow> unit jw" where
  "json_double nf v =
     (if not_finite v then throwE Value_error
      else seqE on_write_value_only (\<lambda>_.
        let s = print_double nf v
        in if length s \<le> 31 then put s
           else if length s = 32 then put (take 31 s @ [0]) else throwE Read_past_buffer))"

definition json_float :: "number_format \<Rightarrow> u32 \<Rightarrow> unit jw" where
  "json_float nf v = json_double nf (widen nf v)"

definition json_bool :: "bool \<Rightarrow> unit jw" where
  "json_bool v = seqE on_write_value_only (\<lambda>_. put (ascii (if v then ''true'' else ''false'')))"

definition json_str :: "byte list \<Rightarrow> unit jw" where
  "json_str v =
     seqE (jctx write_next) (\<lambda>d. seqE (separate d) (\<lambda>_. seqE (put [34]) (\<lambda>_.
     seqE (case json_escape v of Some t \<Rightarrow> put t | None \<Rightarrow> throwE Rethrow) (\<lambda>_. seqE (put [34]) (\<lambda>_.
     if is_key d then put_colon else retE ())))))"

definition json_binary_push :: "nat \<Rightarrow> unit jw" where
  "json_binary_push n =
     seqE (jctx write_next) (\<lambda>d. seqE (separate d) (\<lambda>_. seqE (jctx (push_binary n)) (\<lambda>_. seqE (put [34]) (\<lambda>_.
     base64_reset))))"

definition json_binary_write_some :: "byte list \<Rightarrow> unit jw" where
  "json_binary_write_some view =
     seqE (jctx (ctx_binary_write_some (length view))) (\<lambda>_.
     on_base64 (\<lambda>b. bindE (b64_sputn words_out view b) (\<lambda>(_, b). Inr ((), b))))"

definition json_binary_pop :: "unit jw" where
  "json_binary_pop =
     seqE (jctx pop_binary) (\<lambda>_. seqE base64_sync (\<lambda>_.
     seqE (put [34]) (\<lambda>_ w. if is_key_context (jscopes w) then put_colon w else (Inr (), w))))"

definition json_buffer :: "byte list \<Rightarrow> unit jw" where
  "json_buffer v = seqE (json_binary_push (length v)) (\<lambda>_. seqE (json_binary_write_some v) (\<lambda>_. json_binary_pop))"

definition json_object_push :: "nat \<Rightarrow> unit jw" where
  "json_object_push n = seqE on_write_value_only (\<lambda>_. seqE (jctx (push_object n)) (\<lambda>_. put [123]))"

definition json_object_pop :: "unit jw" where
  "json_object_pop = seqE (jctx pop_object) (\<lambda>n. seqE (if n > 0 then brk_indent else retE ()) (\<lambda>_. put [125]))"

definition json_array_push :: "nat \<Rightarrow> unit jw" where
  "json_array_push n = seqE on_write_value_only (\<lambda>_. seqE (jctx (push_array n)) (\<lambda>_. put [91]))"

definition json_array_pop :: "unit jw" where
  "json_array_pop = seqE (jctx pop_array) (\<lambda>n. seqE (if n > 0 then brk_indent else retE ()) (\<lambda>_. put [93]))"

definition json_key_next :: "unit jw" where
  "json_key_next = seqE (jctx write_key_next) (\<lambda>_. retE ())"

definition json_clear :: "jwriter \<Rightarrow> jwriter" where
  "json_clear w = w\<lparr>jscopes := [], base64 := snd (reset_nosync None (base64 w))\<rparr>"

definition jwriter_new :: "int \<Rightarrow> jwriter" where
  "jwriter_new ind = \<lparr>out = \<lparr>written = [], unread = [], syncs = 0\<rparr>, jscopes = [], indent = ind,
     base64 = b64s_new 0 (Some \<lparr>written = [], unread = [], syncs = 0\<rparr>)\<rparr>"

section \<open>Writing a value tree\<close>

fun json_val :: "number_format \<Rightarrow> val \<Rightarrow> unit jw"
  and json_vals :: "number_format \<Rightarrow> val list \<Rightarrow> unit jw"
  and json_entries :: "number_format \<Rightarrow> (byte list \<times> val) list \<Rightarrow> unit jw"
where
  "json_val nf VNil = json_null"
| "json_val nf (VBool b) = json_bool b"
| "json_val nf (VInt i) = json_int i"
| "json_val nf (VUint n) = json_uint n"
| "json_val nf (VFloat f) = json_float nf f"
| "json_val nf (VDouble d) = json_double nf d"
| "json_val nf (VStr s) = json_str s"
| "json_val nf (VBin b) = json_buffer b"
| "json_val nf (VArr vs) = seqE (json_array_push (length vs)) (\<lambda>_. seqE (json_vals nf vs) (\<lambda>_. json_array_pop))"
| "json_val nf (VMap es) = seqE (json_object_push (length es)) (\<lambda>_. seqE (json_entries nf es) (\<lambda>_. json_object_pop))"
| "json_vals nf [] = retE ()"
| "json_vals nf (v # vs) = seqE (json_val nf v) (\<lambda>_. json_vals nf vs)"
| "json_entries nf [] = retE ()"
| "json_entries nf ((k, v) # es) =
     seqE json_key_next (\<lambda>_. seqE (json_str k) (\<lambda>_. seqE (json_val nf v) (\<lambda>_. json_entries nf es)))"

section \<open>The text of a value\<close>

text \<open>The reference: \<open>d\<close> is the number of containers around the value.\<close>

definition line :: "int \<Rightarrow> nat \<Rightarrow> byte list" where
  "line ind d = (if ind < 0 then [] else 10 # replicate (nat (ind * int d)) 32)"

definition quoted :: "byte list \<Rightarrow> byte list" where
  "quoted s = 34 # s @ [34]"

definition escaped :: "byte list \<Rightarrow> byte list" where
  "escaped s = (case json_escape s of Some t \<Rightarrow> t | None \<Rightarrow> [])"

definition sep :: "int \<Rightarrow> nat \<Rightarrow> bool \<Rightarrow> byte list" where
  "sep ind d cm = (if cm then [44] else []) @ line ind d"

fun json_text :: "number_format \<Rightarrow> int \<Rightarrow> nat \<Rightarrow> val \<Rightarrow> byte list"
  and items_text :: "number_format \<Rightarrow> int \<Rightarrow> nat \<Rightarrow> bool \<Rightarrow> val list \<Rightarrow> byte list"
  and entries_text :: "number_format \<Rightarrow> int \<Rightarrow> nat \<Rightarrow> bool \<Rightarrow> (byte list \<times> val) list \<Rightarrow> byte list"
where
  "json_text nf ind d VNil = ascii ''null''"
| "json_text nf ind d (VBool b) = ascii (if b then ''true'' else ''false'')"
| "json_text nf ind d (VInt i) = to_chars i"
| "json_text nf ind d (VUint n) = to_chars (to_signed 64 (int n))"
| "json_text nf ind d (VFloat f) = print_double nf (widen nf f)"
| "json_text nf ind d (VDouble x) = print_double nf x"
| "json_text nf ind d (VStr s) = quoted (escaped s)"
| "json_text nf ind d (VBin b) = quoted (b64_ref b)"
| "json_text nf ind d (VArr vs) =
     [91] @ items_text nf ind (Suc d) False vs @ (if vs = [] then [] else line ind d) @ [93]"
| "json_text nf ind d (VMap es) =
     [123] @ entries_text nf ind (Suc d) False es @ (if es = [] then [] else line ind d) @ [125]"
| "items_text nf ind d cm [] = []"
| "items_text nf ind d cm (v # vs) = sep ind d cm @ json_text nf ind d v @ items_text nf ind d True vs"
| "entries_text nf ind d cm [] = []"
| "entries_text nf ind d cm ((k, v) # es) =
     sep ind d cm @ quoted (escaped k) @ [58] @ (if ind \<ge> 0 then [32] else []) @ json_text nf ind d v
     @ entries_text nf ind d True es"

section \<open>What a call writes\<close>

definition emits :: "unit jw \<Rightarrow> wscope list \<Rightarrow> int \<Rightarrow> byte list \<Rightarrow> wscope list \<Rightarrow> bool" where
  "emits m ss ind bs ss' \<longleftrightarrow>
     (\<forall>w. jscopes w = ss \<and> indent w = ind \<and> n_obuf (base64 w) = 0 \<longrightarrow>
       (\<exists>w'. m w = (Inr (), w') \<and> written (out w') = written (out w) @ bs \<and> jscopes w' = ss' \<and> indent w' = ind
          \<and> n_obuf (base64 w') = 0))"

lemma emitsI:
  "(\<And>w :: jwriter. jscopes w = ss \<Longrightarrow> indent w = ind \<Longrightarrow> n_obuf (base64 w) = 0 \<Longrightarrow>
      \<exists>w'. m w = (Inr (), w') \<and> written (out w') = written (out w) @ bs \<and> jscopes w' = ss' \<and> indent w' = ind
          \<and> n_obuf (base64 w') = 0) \<Longrightarrow> emits m ss ind bs ss'"
  unfolding emits_def by blast

lemma emits_seq:
  assumes "emits m ss ind bs ss1" and "emits (f ()) ss1 ind bs' ss2"
  shows "emits (seqE m f) ss ind (bs @ bs') ss2"
proof (rule emitsI)
  fix w :: jwriter assume "jscopes w = ss" "indent w = ind" "n_obuf (base64 w) = 0"
  then obtain w1 where 1: "m w = (Inr (), w1)" "written (out w1) = written (out w) @ bs" "jscopes w1 = ss1" "indent w1 = ind"
    "n_obuf (base64 w1) = 0" using assms(1) unfolding emits_def by blast
  then obtain w2 where "f () w1 = (Inr (), w2)" "written (out w2) = written (out w1) @ bs'" "jscopes w2 = ss2" "indent w2 = ind"
    "n_obuf (base64 w2) = 0" using assms(2) unfolding emits_def by blast
  with 1 show "\<exists>w'. seqE m f w = (Inr (), w') \<and> written (out w') = written (out w) @ bs @ bs' \<and> jscopes w' = ss2
      \<and> indent w' = ind \<and> n_obuf (base64 w') = 0" by (simp add: seqE_def)
qed

lemma emits_ctx:
  assumes "f ss = (Inr x, ss1)" and "emits (g x) ss1 ind bs ss2"
  shows "emits (seqE (jctx f) g) ss ind bs ss2"
proof (rule emitsI)
  fix w :: jwriter
  assume w: "jscopes w = ss" "indent w = ind" "n_obuf (base64 w) = 0"
  let ?w = "w\<lparr>jscopes := ss1\<rparr>"
  have "\<exists>w'. g x ?w = (Inr (), w') \<and> written (out w') = written (out ?w) @ bs \<and> jscopes w' = ss2 \<and> indent w' = ind
      \<and> n_obuf (base64 w') = 0"
    using assms(2) [unfolded emits_def, THEN spec [where x = ?w]] w by simp
  then show "\<exists>w'. seqE (jctx f) g w = (Inr (), w') \<and> written (out w') = written (out w) @ bs \<and> jscopes w' = ss2
      \<and> indent w' = ind \<and> n_obuf (base64 w') = 0"
    using assms(1) w by (simp add: seqE_def jctx_def)
qed

lemma emits_put: "emits (put bs) ss ind bs ss"
  by (rule emitsI) (simp add: put_def updE_def)

lemma emits_ret: "emits (retE ()) ss ind [] ss"
  by (rule emitsI) (simp add: retE_def)

lemma emits_brk_indent: "emits brk_indent ss ind (line ind (length ss)) ss"
  by (rule emitsI) (simp add: brk_indent_def line_def put_def updE_def)

lemma emits_colon: "emits put_colon ss ind (58 # (if ind \<ge> 0 then [32] else [])) ss"
  by (rule emitsI) (simp add: put_colon_def put_def updE_def seqE_def)

lemma emits_eq: "emits m ss ind bs ss' \<Longrightarrow> bs = bs' \<Longrightarrow> emits m ss ind bs' ss'"
  by simp

lemma emits_separate:
  "emits (separate d) ss ind ((if need_comma d then [44] else []) @ (if need_indent d then line ind (length ss) else [])) ss"
  unfolding separate_def
  by (rule emits_seq [where ?ss1.0 = ss]) (simp_all add: emits_put emits_ret emits_brk_indent)

lemma emits_bind_separate:
  "emits (f ()) ss ind bs ss' \<Longrightarrow>
   emits (seqE (separate d) f) ss ind
     (((if need_comma d then [44] else []) @ (if need_indent d then line ind (length ss) else [])) @ bs) ss'"
  by (rule emits_seq [OF emits_separate])

section \<open>Scalars and strings\<close>

text \<open>What precedes a value: in an array a comma and a line, at the top and after a key nothing.\<close>

definition lead :: "int \<Rightarrow> wscope list \<Rightarrow> byte list" where
  "lead ind ss = (case ss of e # _ \<Rightarrow> if wtype e = Array then sep ind (length ss) (size e > 0) else [] | [] \<Rightarrow> [])"

definition value_directive :: "wscope list \<Rightarrow> write_directive" where
  "value_directive ss =
     (case ss of e # _ \<Rightarrow> if wtype e = Array then directive False (size e > 0) True else directive False False False
      | [] \<Rightarrow> directive False False False)"

lemma write_next_directive: "value_ready ss \<Longrightarrow> write_next ss = (Inr (value_directive ss), after_value ss)"
  by (cases ss) (auto simp: value_ready_def after_value_def value_directive_def ctx_defs)

lemma length_after_value [simp]: "length (after_value ss) = length ss"
  by (cases ss) (simp_all add: after_value_def upd_top_def)

lemma not_key [simp]: "\<not> is_key (value_directive ss)"
  by (simp add: value_directive_def directive_def split: list.split)

lemma lead_separate:
  "(if need_comma (value_directive ss) then [44] else []) @ (if need_indent (value_directive ss) then line ind (length ss) else []) = lead ind ss"
  by (simp add: value_directive_def lead_def directive_def sep_def split: list.split)

text \<open>A value: the separators, then what the body writes on the stack after the value.\<close>

lemma emits_value:
  assumes "value_ready ss" and "emits (g (value_directive ss)) (after_value ss) ind bs ss'"
  shows "emits (seqE (jctx write_next) (\<lambda>d. seqE (separate d) (\<lambda>_. g d))) ss ind (lead ind ss @ bs) ss'"
  using emits_bind_separate [of "\<lambda>_. g (value_directive ss)", OF assms(2), of "value_directive ss"]
  unfolding length_after_value lead_separate
  by (rule emits_ctx [where f = write_next, OF write_next_directive [OF assms(1)]])

lemma emits_value_only:
  assumes "value_ready ss" and "emits (g ()) (after_value ss) ind bs ss'"
  shows "emits (seqE on_write_value_only g) ss ind (lead ind ss @ bs) ss'"
proof -
  have "emits (separate (value_directive ss)) (after_value ss) ind (lead ind ss) (after_value ss)"
    using emits_separate [of "value_directive ss" "after_value ss" ind] unfolding length_after_value lead_separate .
  then have "emits on_write_value_only ss ind (lead ind ss) (after_value ss)"
    unfolding on_write_value_only_def by (intro emits_ctx [where f = write_next, OF write_next_directive [OF assms(1)]]) simp
  then show ?thesis using assms(2) by (rule emits_seq)
qed

lemma emits_scalars:
  assumes "value_ready ss"
  shows "emits json_null ss ind (lead ind ss @ ascii ''null'') (after_value ss)"
    and "emits (json_bool b) ss ind (lead ind ss @ ascii (if b then ''true'' else ''false'')) (after_value ss)"
    and "emits (json_int i) ss ind (lead ind ss @ to_chars i) (after_value ss)"
    and "\<not> not_finite v \<Longrightarrow> length (print_double nf v) \<le> 31 \<Longrightarrow>
      emits (json_double nf v) ss ind (lead ind ss @ print_double nf v) (after_value ss)"
proof -
  note V = emits_value_only [OF assms emits_put]
  show "emits json_null ss ind (lead ind ss @ ascii ''null'') (after_value ss)"
    "emits (json_bool b) ss ind (lead ind ss @ ascii (if b then ''true'' else ''false'')) (after_value ss)"
    unfolding json_null_def json_bool_def by (rule V)+
  show "emits (json_int i) ss ind (lead ind ss @ to_chars i) (after_value ss)"
    unfolding json_int_def by (rule emits_value [OF assms]) (simp add: emits_put)
  show "emits (json_double nf v) ss ind (lead ind ss @ print_double nf v) (after_value ss)"
    if "\<not> not_finite v" "length (print_double nf v) \<le> 31"
    unfolding json_double_def using that V by (simp add: Let_def)
qed

lemma emits_string_body:
  "emits (seqE (put [34]) (\<lambda>_. seqE (case json_escape v of Some t \<Rightarrow> put t | None \<Rightarrow> throwE Rethrow) (\<lambda>_. seqE (put [34]) (\<lambda>_.
     if k then put_colon else retE ())))) ss ind (quoted (escaped v) @ (if k then 58 # (if ind \<ge> 0 then [32] else []) else [])) ss"
proof -
  obtain t where t: "json_escape v = Some t" using escape_all by blast
  show ?thesis
    by (rule emits_eq [OF emits_seq [OF emits_put emits_seq [OF _ emits_seq [OF emits_put, where bs' = "if k then _ else _"]]]])
      (use emits_colon [of ss ind] in \<open>auto simp: t quoted_def escaped_def intro: emits_put emits_ret\<close>)
qed

lemma emits_str: "value_ready ss \<Longrightarrow> emits (json_str v) ss ind (lead ind ss @ quoted (escaped v)) (after_value ss)"
  unfolding json_str_def
  using emits_value [where g = "\<lambda>d. seqE (put [34]) (\<lambda>_.
     seqE (case json_escape v of Some t \<Rightarrow> put t | None \<Rightarrow> throwE Rethrow) (\<lambda>_. seqE (put [34]) (\<lambda>_.
     if is_key d then put_colon else retE ())))"] emits_string_body [where k = False]
  by simp

lemma emits_key:
  assumes "even i" "i < n * 2" "n * 2 < 2 ^ 64"
  shows "emits (seqE json_key_next (\<lambda>_. json_str k)) (obj False i n # ss) ind
    (sep ind (Suc (length ss)) (i > 0) @ quoted (escaped k) @ 58 # (if ind \<ge> 0 then [32] else [])) (obj False (Suc i) n # ss)"
proof -
  have 1: "\<exists>c. write_key_next (obj False i n # ss) = (Inr c, obj True (Suc i) n # ss)" by (rule announce_key [OF assms])
  have 2: "write_next (obj True (Suc i) n # ss) = (Inr (directive True (i > 0) True), obj False (Suc i) n # ss)"
    using assms by (auto simp: ctx_defs obj_def elim!: evenE)
  have sep: "emits (separate (directive True (i > 0) True)) (obj False (Suc i) n # ss) ind (sep ind (Suc (length ss)) (i > 0)) (obj False (Suc i) n # ss)"
    using emits_separate [of "directive True (i > 0) True" "obj False (Suc i) n # ss" ind] by (simp add: directive_def sep_def)
  have "emits (json_str k) (obj True (Suc i) n # ss) ind
      (sep ind (Suc (length ss)) (i > 0) @ quoted (escaped k) @ 58 # (if ind \<ge> 0 then [32] else [])) (obj False (Suc i) n # ss)"
    unfolding json_str_def
    by (rule emits_ctx [where f = write_next, OF 2], rule emits_seq [OF sep]) (use emits_string_body [where k = True] in \<open>simp add: directive_def\<close>)
  moreover have "emits json_key_next (obj False i n # ss) ind [] (obj True (Suc i) n # ss)"
    unfolding json_key_next_def using 1 emits_ret by (auto intro: emits_ctx)
  ultimately show ?thesis using emits_seq [where bs = "[]"] by fastforce
qed

section \<open>Binaries and containers\<close>

lemma base64_reset_ok:
  assumes "n_obuf (base64 w) = 0"
  shows "\<exists>a b. base64_reset w = (Inr (), w\<lparr>out := a, base64 := b\<rparr>) \<and> written a = written (out w) \<and> src b = Some a \<and> n_obuf b = 0"
  using assms
  by (cases w) (auto simp: base64_reset_def base64_sync_def on_base64_def b64_sync_def seqE_def updE_def reset_nosync_def)

text \<open>What is put into the attached buffer arrives with the synchronisation.\<close>

lemma base64_put_sync:
  assumes "src (base64 w) = Some (out w)" "n_obuf (base64 w) = 0"
  shows "\<exists>a b a' b'. on_base64 (\<lambda>b. bindE (b64_sputn words_out v b) (\<lambda>(_, b). Inr ((), b))) w = (Inr (), w\<lparr>out := a, base64 := b\<rparr>)
    \<and> (\<forall>ss. base64_sync (w\<lparr>out := a, base64 := b, jscopes := ss\<rparr>) = (Inr (), w\<lparr>out := a', base64 := b', jscopes := ss\<rparr>))
    \<and> written a' = written (out w) @ b64_ref v \<and> n_obuf b' = 0"
proof -
  have "carries words_out (written (out w)) [] (base64 w)" using b64_new_carries [OF _ assms] by simp
  from b64_sputn_ok [OF this, of v] obtain b
    where b: "b64_sputn words_out v (base64 w) = Inr (length v, b)" "carries words_out (written (out w)) v b" by auto
  obtain a where a: "src b = Some a" using b(2) by (auto simp: carries_def)
  from b64_sync_ok [OF b(2)] obtain b' a'
    where b': "b64_sync words_out b = Inr b'" "src b' = Some a'" "written a' = written (out w) @ b64_ref v" "n_obuf b' = 0" by blast
  have w: "(base64 w)\<lparr>src := map_option (\<lambda>_. out w) (src (base64 w))\<rparr> = base64 w" using assms(1) by (cases "base64 w") simp
  have b_eq: "b\<lparr>src := map_option (\<lambda>_. a) (src b)\<rparr> = b" using a by (cases b) simp
  have "on_base64 (\<lambda>b. bindE (b64_sputn words_out v b) (\<lambda>(_, b). Inr ((), b))) w = (Inr (), w\<lparr>out := a, base64 := b\<rparr>)"
    unfolding on_base64_def w by (simp add: b a)
  moreover have "base64_sync (w\<lparr>out := a, base64 := b, jscopes := ss\<rparr>) = (Inr (), w\<lparr>out := a', base64 := b', jscopes := ss\<rparr>)" for ss
    unfolding base64_sync_def on_base64_def by (simp add: b_eq b')
  ultimately show ?thesis using b' by blast
qed

text \<open>The part of a binary before its bytes.\<close>

lemma emits_binary_head:
  assumes "value_ready ss" "n < 2 ^ 64"
  shows "emits (seqE (jctx write_next) (\<lambda>d. seqE (separate d) (\<lambda>_. seqE (jctx (push_binary n)) (\<lambda>_. put [34]))))
    ss ind (lead ind ss @ [34]) (bin 0 n # after_value ss)"
  by (rule emits_value [OF assms(1), where g = "\<lambda>_. seqE (jctx (push_binary n)) (\<lambda>_. put [34])"],
      rule emits_ctx [where f = "push_binary n"], rule push_after_value(3) [OF assms(2)], rule emits_put)

lemma key_context_after_value: "value_ready ss \<Longrightarrow> \<not> is_key_context (after_value ss)"
  by (cases ss) (auto simp: value_ready_def is_key_context_def after_value_def upd_top_def is_key_current_def)

lemma json_buffer_head:
  "json_buffer v = seqE (seqE (jctx write_next) (\<lambda>d. seqE (separate d) (\<lambda>_. seqE (jctx (push_binary (length v))) (\<lambda>_. put [34]))))
     (\<lambda>_. seqE base64_reset (\<lambda>_. seqE (json_binary_write_some v) (\<lambda>_. json_binary_pop)))"
  by (simp add: json_buffer_def json_binary_push_def seqE_assoc)

lemma base64_body:
  assumes "jscopes w = bin 0 (length v) # ss" "\<not> is_key_context ss" "indent w = ind" "n_obuf (base64 w) = 0"
    and n: "length v < 2 ^ 64"
  shows "\<exists>w'. seqE base64_reset (\<lambda>_. seqE (json_binary_write_some v) (\<lambda>_. json_binary_pop)) w = (Inr (), w')
    \<and> written (out w') = written (out w) @ b64_ref v @ [34] \<and> jscopes w' = ss \<and> indent w' = ind \<and> n_obuf (base64 w') = 0"
proof -
  obtain a b where 1: "base64_reset w = (Inr (), w\<lparr>out := a, base64 := b\<rparr>)" "written a = written (out w)" "src b = Some a" "n_obuf b = 0"
    using base64_reset_ok [OF assms(4)] by blast
  let ?w = "w\<lparr>out := a, base64 := b, jscopes := bin (length v) (length v) # ss\<rparr>"
  have s: "src (base64 ?w) = Some (out ?w)" "n_obuf (base64 ?w) = 0" using 1 by simp_all
  obtain a1 b1 a2 b2 where 2: "on_base64 (\<lambda>b. bindE (b64_sputn words_out v b) (\<lambda>(_, b). Inr ((), b))) ?w = (Inr (), ?w\<lparr>out := a1, base64 := b1\<rparr>)"
    and 3: "\<And>ss. base64_sync (?w\<lparr>out := a1, base64 := b1, jscopes := ss\<rparr>) = (Inr (), ?w\<lparr>out := a2, base64 := b2, jscopes := ss\<rparr>)"
    and w: "written a2 = written (out ?w) @ b64_ref v" "n_obuf b2 = 0"
    using base64_put_sync [OF s, of v] by blast
  have 4: "json_binary_write_some v (w\<lparr>out := a, base64 := b\<rparr>) = (Inr (), ?w\<lparr>out := a1, base64 := b1\<rparr>)"
    using 2 assms(1) binary_write_ok [of 0 "length v" "length v" ss] n by (simp add: json_binary_write_some_def jctx_def seqE_def)
  have "json_binary_pop (?w\<lparr>out := a1, base64 := b1\<rparr>)
      = (Inr (), w\<lparr>out := a2\<lparr>written := written a2 @ [34]\<rparr>, base64 := b2, jscopes := ss\<rparr>)"
    using 3 [of ss] assms(2) pop_finished(3) [of "length v" ss]
    by (simp add: json_binary_pop_def jctx_def seqE_def put_def updE_def)
  then show ?thesis using 1 4 w assms(3) by (simp add: seqE_def)
qed

lemma emits_buffer:
  assumes "value_ready ss" "length v < 2 ^ 64"
  shows "emits (json_buffer v) ss ind (lead ind ss @ quoted (b64_ref v)) (after_value ss)"
proof -
  have "emits (seqE base64_reset (\<lambda>_. seqE (json_binary_write_some v) (\<lambda>_. json_binary_pop)))
      (bin 0 (length v) # after_value ss) ind (b64_ref v @ [34]) (after_value ss)"
    by (rule emitsI, rule base64_body) (use key_context_after_value [OF assms(1)] assms(2) in simp_all)
  from emits_seq [OF emits_binary_head [OF assms] this] show ?thesis unfolding json_buffer_head quoted_def by simp
qed

fun json_ok :: "number_format \<Rightarrow> val \<Rightarrow> bool" where
  "json_ok nf (VDouble d) \<longleftrightarrow> \<not> not_finite d \<and> length (print_double nf d) \<le> 31"
| "json_ok nf (VFloat f) \<longleftrightarrow> \<not> not_finite (widen nf f) \<and> length (print_double nf (widen nf f)) \<le> 31"
| "json_ok nf (VBin b) \<longleftrightarrow> length b < 2 ^ 64"
| "json_ok nf (VArr vs) \<longleftrightarrow> length vs < 2 ^ 64 \<and> list_all (json_ok nf) vs"
| "json_ok nf (VMap es) \<longleftrightarrow> length es < 2 ^ 63 \<and> list_all (\<lambda>(k, v). json_ok nf v) es"
| "json_ok nf _ \<longleftrightarrow> True"

lemma emits_array_push: "value_ready ss \<Longrightarrow> n < 2 ^ 64 \<Longrightarrow> emits (json_array_push n) ss ind (lead ind ss @ [91]) (arr 0 n # after_value ss)"
  unfolding json_array_push_def
  by (rule emits_value_only, assumption, rule emits_ctx [where f = "push_array n"]) (simp add: push_after_value, rule emits_put)

lemma emits_object_push: "value_ready ss \<Longrightarrow> n * 2 < 2 ^ 64 \<Longrightarrow> emits (json_object_push n) ss ind (lead ind ss @ [123]) (obj False 0 n # after_value ss)"
  unfolding json_object_push_def
  by (rule emits_value_only, assumption, rule emits_ctx [where f = "push_object n"]) (simp add: push_after_value, rule emits_put)

lemma emits_close:
  "emits (seqE (if n > (0 :: nat) then brk_indent else retE ()) (\<lambda>_. put bs)) ss ind ((if n = 0 then [] else line ind (length ss)) @ bs) ss"
  by (rule emits_seq [OF _ emits_put, where ?ss1.0 = ss]) (simp add: emits_brk_indent emits_ret)

lemma emits_array_pop: "emits json_array_pop (arr n n # ss) ind ((if n = 0 then [] else line ind (length ss)) @ [93]) ss"
  unfolding json_array_pop_def by (rule emits_ctx [where f = pop_array and x = n, OF pop_finished(1) emits_close])

lemma emits_object_pop: "emits json_object_pop (obj k (n * 2) n # ss) ind ((if n = 0 then [] else line ind (length ss)) @ [125]) ss"
  unfolding json_object_pop_def by (rule emits_ctx [where f = pop_object and x = n, OF pop_finished(2) emits_close])

lemma lead_simps [simp]:
  "lead ind [] = []" "lead ind (arr i n # ss) = sep ind (Suc (length ss)) (i > 0)" "lead ind (obj k i n # ss) = []"
  by (simp_all add: lead_def arr_def obj_def)

lemma emits_vals:
  "json_ok nf v \<Longrightarrow> value_ready ss \<Longrightarrow> emits (json_val nf v) ss ind (lead ind ss @ json_text nf ind (length ss) v) (after_value ss)"
  "list_all (json_ok nf) vs \<Longrightarrow> i + length vs \<le> n \<Longrightarrow> n < 2 ^ 64 \<Longrightarrow>
     emits (json_vals nf vs) (arr i n # ss) ind (items_text nf ind (Suc (length ss)) (i > 0) vs) (arr (i + length vs) n # ss)"
  "list_all (\<lambda>(k, v). json_ok nf v) es \<Longrightarrow> even i \<Longrightarrow> i + 2 * length es \<le> n * 2 \<Longrightarrow> n * 2 < 2 ^ 64 \<Longrightarrow>
     emits (json_entries nf es) (obj False i n # ss) ind (entries_text nf ind (Suc (length ss)) (i > 0) es) (obj False (i + 2 * length es) n # ss)"
proof (induction nf v and nf vs and nf es arbitrary: ss and i n ss and i n ss rule: json_val_json_vals_json_entries.induct)
  case (9 nf vs)
  have n: "length vs < 2 ^ 64" using "9.prems"(1) by simp
  have "emits (json_vals nf vs) (arr 0 (length vs) # after_value ss) ind (items_text nf ind (Suc (length ss)) False vs)
      (arr (length vs) (length vs) # after_value ss)"
    using "9.IH" [of 0 "length vs" "after_value ss"] "9.prems" by simp
  from emits_seq [OF emits_array_push [OF "9.prems"(2) n], where f = "\<lambda>_. seqE (json_vals nf vs) (\<lambda>_. json_array_pop)",
      OF emits_seq [OF this emits_array_pop]]
  show ?case unfolding json_val.simps json_text.simps by (rule emits_eq) simp
next
  case (10 nf es)
  have n: "length es * 2 < 2 ^ 64" using "10.prems"(1) by simp
  have "emits (json_entries nf es) (obj False 0 (length es) # after_value ss) ind (entries_text nf ind (Suc (length ss)) False es)
      (obj False (length es * 2) (length es) # after_value ss)"
    using "10.IH" [of 0 "length es" "after_value ss"] "10.prems" by (simp add: mult.commute)
  from emits_seq [OF emits_object_push [OF "10.prems"(2) n], where f = "\<lambda>_. seqE (json_entries nf es) (\<lambda>_. json_object_pop)",
      OF emits_seq [OF this emits_object_pop]]
  show ?case unfolding json_val.simps json_text.simps by (rule emits_eq) simp
next
  case (12 nf v vs)
  have v: "emits (json_val nf v) (arr i n # ss) ind (sep ind (Suc (length ss)) (i > 0) @ json_text nf ind (Suc (length ss)) v) (arr (Suc i) n # ss)"
    using "12.IH"(1) [of "arr i n # ss"] "12.prems" by simp
  have vs: "emits (json_vals nf vs) (arr (Suc i) n # ss) ind (items_text nf ind (Suc (length ss)) True vs) (arr (Suc i + length vs) n # ss)"
    using "12.IH"(2) [of "Suc i" n ss] "12.prems" by simp
  show ?case using emits_seq [where f = "\<lambda>_. json_vals nf vs", OF v vs] by simp
next
  case (14 nf k v es)
  have i: "i < n * 2" "Suc i < n * 2" using "14.prems" by auto
  have v: "emits (json_val nf v) (obj False (Suc i) n # ss) ind (json_text nf ind (Suc (length ss)) v) (obj False (Suc (Suc i)) n # ss)"
    using "14.IH"(1) [of "obj False (Suc i) n # ss"] "14.prems" i by simp
  have es: "emits (json_entries nf es) (obj False (Suc (Suc i)) n # ss) ind (entries_text nf ind (Suc (length ss)) True es)
      (obj False (Suc (Suc i) + 2 * length es) n # ss)"
    using "14.IH"(2) [of "Suc (Suc i)" n ss] "14.prems" by simp
  have "seqE json_key_next (\<lambda>_. seqE (json_str k) f) = seqE (seqE json_key_next (\<lambda>_. json_str k)) f" for f :: "unit \<Rightarrow> unit jw"
    by (rule ext) (simp add: seqE_def split: prod.split sum.split)
  then show ?case using emits_seq [where f = "\<lambda>_. seqE (json_val nf v) (\<lambda>_. json_entries nf es)", OF emits_key [OF "14.prems"(2) i(1) "14.prems"(4)]
      emits_seq [where f = "\<lambda>_. json_entries nf es", OF v es]] by simp
qed (auto simp: emits_scalars emits_str emits_buffer emits_ret json_uint_def json_float_def)

lemma emits_new:
  assumes "emits m [] ind bs []"
  shows "\<exists>w. m (jwriter_new ind) = (Inr (), w) \<and> written (out w) = bs \<and> jscopes w = []"
proof -
  have "\<exists>w'. m (jwriter_new ind) = (Inr (), w') \<and> written (out w') = written (out (jwriter_new ind)) @ bs \<and> jscopes w' = []"
    using assms unfolding emits_def by (elim allE [where x = "jwriter_new ind"] impE) (auto simp: jwriter_new_def b64s_new_def)
  then show ?thesis by (simp add: jwriter_new_def)
qed

section \<open>Properties\<close>

text \<open>C4: A value tree written to a new writer is exactly its JSON text: the scalars, the strings and keys
  escaped between quotes, the binaries in base64, commas between the entries of a container and not
  before the first, each entry on a line of its own indented by its depth, a closing bracket on its own
  line unless the container is empty. It holds for any indentation (none when negative) and any nesting,
  for doubles that are finite and print in at most 31 characters, and for sizes a \<open>size_t\<close> counts (binaries and
  arrays of fewer than \<open>2 ^ 64\<close>, objects of fewer than \<open>2 ^ 63\<close> elements, whose keys and values are counted); unsigned integers come out as the
  signed integers with the same bits.\<close>

theorem json_writer_text:
  assumes "json_ok nf v"
  shows "\<exists>w. json_val nf v (jwriter_new ind) = (Inr (), w) \<and> written (out w) = json_text nf ind 0 v \<and> jscopes w = []"
proof -
  have "emits (json_val nf v) [] ind (json_text nf ind 0 v) []"
    using emits_vals(1) [OF assms, of "[]" ind] by simp
  then show ?thesis by (rule emits_new)
qed

theorem json_writer_text_witness:
  "\<exists>w. json_val \<lparr>print_double = \<lambda>_. [48], widen = ucast\<rparr> (VMap [([97], VArr [VDouble 0, VNil]), ([98], VBin [1])]) (jwriter_new 1) = (Inr (), w)
    \<and> written (out w) = ascii ''{'' @ [10] @ ascii '' \"a\": ['' @ [10] @ ascii ''  0,'' @ [10] @ ascii ''  null'' @ [10]
      @ ascii '' ],'' @ [10] @ ascii '' \"b\": \"AQ==\"'' @ [10] @ ascii ''}''"
proof -
  let ?nf = "\<lparr>print_double = \<lambda>_. [48], widen = ucast\<rparr> :: number_format"
  let ?v = "VMap [([97], VArr [VDouble 0, VNil]), ([98], VBin [1])]"
  have "json_ok ?nf ?v" by (simp add: not_finite_def)
  from json_writer_text [OF this, of 1] obtain w
    where w: "json_val ?nf ?v (jwriter_new 1) = (Inr (), w)" "written (out w) = json_text ?nf 1 0 ?v" by blast
  have l: "line 1 (Suc (Suc 0)) = [10, 32, 32]" "line 1 (Suc 0) = [10, 32]" "line 1 0 = [10]"
    by (simp_all add: line_def numeral_2_eq_2)
  have e: "escaped [97] = [97]" "escaped [98] = [98]"
    by (simp_all add: escaped_def escape_ch_def isprint_def)
  have "json_text ?nf 1 0 ?v = ascii ''{'' @ [10] @ ascii '' \"a\": ['' @ [10] @ ascii ''  0,'' @ [10] @ ascii ''  null'' @ [10]
      @ ascii '' ],'' @ [10] @ ascii '' \"b\": \"AQ==\"'' @ [10] @ ascii ''}''"
    by (simp add: sep_def l e quoted_def ascii_def Let_def num24_def digit_def pad_char_def tb_encode_def)
  with w show ?thesis by metis
qed

end
