(* ===== verification/Json_Tokens.thy ===== *)
theory Json_Tokens
  imports Jsmn Json_Writer
begin

text \<open>
  The tokens of the text that the JSON writer produces. A reference definition gives them with their
  places, sizes and parents, and the tokenizer's rounds on the text lead to exactly these.
\<close>

section \<open>Places in the text\<close>

definition here :: "byte list \<Rightarrow> nat \<Rightarrow> byte list \<Rightarrow> bool" where
  "here js p bs \<longleftrightarrow> p + length bs \<le> length js \<and> take (length bs) (drop p js) = bs"

lemma here_Nil [simp]: "here js p [] \<longleftrightarrow> p \<le> length js"
  by (simp add: here_def)

lemma here_append [simp]: "here js p (a @ b) \<longleftrightarrow> here js p a \<and> here js (p + length a) b"
proof
  assume h: "here js p (a @ b)"
  then have t: "take (length a + length b) (drop p js) = a @ b" by (simp add: here_def)
  from arg_cong [OF t, of "take (length a)"] arg_cong [OF t, of "drop (length a)"] h
  show "here js p a \<and> here js (p + length a) b" by (simp add: here_def drop_take ac_simps)
next
  assume "here js p a \<and> here js (p + length a) b"
  then show "here js p (a @ b)" by (simp add: here_def take_add ac_simps)
qed

lemma here_Cons [simp]: "here js p (c # cs) \<longleftrightarrow> p < length js \<and> js ! p = c \<and> here js (Suc p) cs"
proof -
  have "here js p [c] \<longleftrightarrow> p < length js \<and> js ! p = c"
    by (auto simp: here_def take_Suc drop_eq_nth_Cons)
  then show ?thesis using here_append [of js p "[c]" cs] by simp
qed

lemma here_drop: "here js p bs \<Longrightarrow> drop p js = bs @ drop (p + length bs) js"
  by (metis append_take_drop_id drop_drop here_def add.commute)

lemma here_end: "here js p bs \<Longrightarrow> p + length bs \<le> length js"
  by (simp add: here_def)

section \<open>Rounds on known text\<close>

lemma jsmn_nextI: "jpos p < length js \<Longrightarrow> js ! jpos p \<noteq> 0 \<Longrightarrow> jsmn_step n js p = Inr q \<Longrightarrow> jsmn_next js p q"
  by (auto simp: jsmn_next_def)

lemma runs_trans: "jsmn_runs js p q \<Longrightarrow> jsmn_runs js q r \<Longrightarrow> jsmn_runs js p r"
  by (rule rtranclp_trans)

lemma runs_next: "jsmn_next js p q \<Longrightarrow> jsmn_runs js p q"
  by simp

lemma next_space:
  assumes "jpos p < length js" "js ! jpos p = 10 \<or> js ! jpos p = 32"
  shows "jsmn_next js p (p\<lparr>jpos := Suc (jpos p)\<rparr>)"
  using assms by (intro jsmn_nextI [where n = 0]) (auto simp: jsmn_step_def jsmn_char_def)

lemma runs_spaces: "here js (jpos p) (replicate n 32) \<Longrightarrow> jsmn_runs js p (p\<lparr>jpos := jpos p + n\<rparr>)"
proof (induction n arbitrary: p)
  case (Suc n)
  have "jsmn_next js p (p\<lparr>jpos := Suc (jpos p)\<rparr>)" using Suc.prems by (intro next_space) auto
  moreover have "jsmn_runs js (p\<lparr>jpos := Suc (jpos p)\<rparr>) (p\<lparr>jpos := jpos p + Suc n\<rparr>)"
    using Suc.IH [of "p\<lparr>jpos := Suc (jpos p)\<rparr>"] Suc.prems by simp
  ultimately show ?case by (rule converse_rtranclp_into_rtranclp)
qed simp

lemma runs_line: "here js (jpos p) (line ind d) \<Longrightarrow> jsmn_runs js p (p\<lparr>jpos := jpos p + length (line ind d)\<rparr>)"
proof (cases "ind < 0")
  case False
  assume h: "here js (jpos p) (line ind d)"
  let ?n = "nat (ind * int d)"
  have "jsmn_next js p (p\<lparr>jpos := Suc (jpos p)\<rparr>)" using h False by (intro next_space) (auto simp: line_def)
  moreover have "jsmn_runs js (p\<lparr>jpos := Suc (jpos p)\<rparr>) (p\<lparr>jpos := Suc (jpos p) + ?n\<rparr>)"
    using runs_spaces [of js "p\<lparr>jpos := Suc (jpos p)\<rparr>" ?n] h False by (simp add: line_def)
  ultimately show ?thesis using False by (simp add: line_def converse_rtranclp_into_rtranclp)
qed (simp add: line_def)

lemma next_comma:
  "jpos p < length js \<Longrightarrow> js ! jpos p = 44 \<Longrightarrow> jsmn_next js p ((after_comma p)\<lparr>jpos := Suc (jpos p)\<rparr>)"
  by (intro jsmn_nextI [where n = 0]) (auto simp: jsmn_step_def jsmn_char_def starts_primitive_def)

lemma next_colon:
  "jpos p < length js \<Longrightarrow> js ! jpos p = 58 \<Longrightarrow> jsmn_next js p (p\<lparr>jpos := Suc (jpos p), toksuper := last_tok p\<rparr>)"
  by (intro jsmn_nextI [where n = 0]) (auto simp: jsmn_step_def jsmn_char_def jpos_commute)

definition super_ok :: "jsmn \<Rightarrow> bool" where
  "super_ok p \<longleftrightarrow> - 1 \<le> toksuper p \<and> toksuper p < int (length (jtoks p))"

text \<open>\<open>bump s n\<close>: the token \<open>s\<close> has \<open>n\<close> more children.\<close>

definition bump :: "int \<Rightarrow> nat \<Rightarrow> jsmntok list \<Rightarrow> jsmntok list" where
  "bump s n ts = (if s = - 1 then ts else ts[nat s := (ts ! nat s)\<lparr>tok_size := tok_size (ts ! nat s) + int n\<rparr>])"

lemma length_bump [simp]: "length (bump s n ts) = length ts"
  by (simp add: bump_def)

lemma bump_0 [simp]: "bump s 0 ts = ts"
  by (simp add: bump_def)

lemma bump_bump: "- 1 \<le> s \<Longrightarrow> s < int (length ts) \<Longrightarrow> bump s m (bump s n ts) = bump s (n + m) ts"
  by (cases "nat s < length ts") (auto simp: bump_def ac_simps)

lemma bump_append: "- 1 \<le> s \<Longrightarrow> s < int (length ts) \<Longrightarrow> bump s n (ts @ us) = bump s n ts @ us"
  by (cases "nat s < length ts") (auto simp: bump_def list_update_append nth_append)

lemma bump_last: "s = int (length pre) \<Longrightarrow> bump s n (pre @ [t]) = pre @ [t\<lparr>tok_size := tok_size t + int n\<rparr>]"
  by (simp add: bump_def)

lemma grow_super_bump: "jtoks (grow_super p) = bump (toksuper p) 1 (jtoks p)"
  by (simp add: grow_super_def bump_def upd_tok_def)

lemma bump_nth_type [simp]: "tok_type (bump s n ts ! i) = tok_type (ts ! i)" "tok_parent (bump s n ts ! i) = tok_parent (ts ! i)"
    "tok_end (bump s n ts ! i) = tok_end (ts ! i)" "tok_start (bump s n ts ! i) = tok_start (ts ! i)"
proof -
  have "tok_type (bump s n ts ! i) = tok_type (ts ! i) \<and> tok_parent (bump s n ts ! i) = tok_parent (ts ! i)
      \<and> tok_end (bump s n ts ! i) = tok_end (ts ! i) \<and> tok_start (bump s n ts ! i) = tok_start (ts ! i)"
    by (cases "nat s < length ts"; cases "nat s = i") (auto simp: bump_def list_update_beyond)
  then show "tok_type (bump s n ts ! i) = tok_type (ts ! i)" "tok_parent (bump s n ts ! i) = tok_parent (ts ! i)"
    "tok_end (bump s n ts ! i) = tok_end (ts ! i)" "tok_start (bump s n ts ! i) = tok_start (ts ! i)" by auto
qed

section \<open>Strings and primitives\<close>

text \<open>A string body the tokenizer takes as a whole.\<close>

definition body_ok :: "byte list \<Rightarrow> bool" where
  "body_ok t \<longleftrightarrow> (\<forall>i rest. string_end i (t @ rest) = string_end (i + length t) rest)"

lemma body_ok_append: "body_ok a \<Longrightarrow> body_ok b \<Longrightarrow> body_ok (a @ b)"
  by (simp add: body_ok_def add.assoc)

lemma body_ok_Nil [simp]: "body_ok []"
  by (simp add: body_ok_def)

lemma body_ok_plain: "c \<noteq> 0 \<Longrightarrow> c \<noteq> 34 \<Longrightarrow> c \<noteq> 92 \<Longrightarrow> body_ok [c]"
  by (simp add: body_ok_def string_end_plain)

lemma body_ok_escape: "e \<in> set plain_escapes \<Longrightarrow> body_ok [92, e]"
  by (simp add: body_ok_def string_end_backslash escape_length_def)

text \<open>The strings that survive the way through the writer and the reader.\<close>

definition string_ok :: "byte list \<Rightarrow> bool" where
  "string_ok s \<longleftrightarrow> list_all (\<lambda>c. \<not> coded c \<and> c \<noteq> 7 \<and> c \<noteq> 11) s"

lemma escape_ch_body:
  assumes "\<not> coded c" "c \<noteq> 7" "c \<noteq> 11" "escape_ch c = Some e"
  shows "body_ok e"
proof (cases c rule: escape_cases)
  case plain
  then show ?thesis using assms by (auto intro!: body_ok_plain)
next
  case (short x)
  have "x \<in> set plain_escapes \<or> c = 39 \<or> c = 63"
    using short(4) assms(2,3) by (auto simp: short_escapes_def plain_escapes_def split: if_splits)
  moreover have "escape_ch 39 = Some [39]" "escape_ch 63 = Some [63]" by (simp_all add: escape_ch_def isprint_def)
  ultimately show ?thesis using short(1) assms(4) by (auto intro: body_ok_escape)
next
  case (code h l)
  then show ?thesis using assms by simp
qed

lemma escaped_Cons: "escape_ch c = Some e \<Longrightarrow> escaped (c # s) = e @ escaped s"
proof -
  obtain t where "json_escape s = Some t" using escape_all by blast
  then show "escape_ch c = Some e \<Longrightarrow> escaped (c # s) = e @ escaped s" by (simp add: escaped_def)
qed

lemma escaped_body: "string_ok s \<Longrightarrow> body_ok (escaped s)"
proof (induction s)
  case (Cons c s)
  obtain e where e: "escape_ch c = Some e" using escape_one by blast
  with Cons show ?case by (auto simp: escaped_Cons string_ok_def intro!: body_ok_append escape_ch_body)
qed (simp add: escaped_def)

lemma digit_range: "digit n \<noteq> 0 \<and> digit n \<noteq> 34 \<and> digit n \<noteq> 92"
proof -
  have "list_all (\<lambda>c. c \<noteq> 0 \<and> c \<noteq> 34 \<and> c \<noteq> 92) tb_encode" by (simp add: tb_encode_def)
  moreover have "length tb_encode = 64" by (simp add: tb_encode_def)
  ultimately show ?thesis unfolding digit_def by (simp add: list_all_length)
qed

lemma b64_ref_body: "body_ok (b64_ref bs)"
proof -
  have d: "body_ok [digit n]" for n using digit_range [of n] by (intro body_ok_plain) auto
  have p: "body_ok [pad_char]" by (intro body_ok_plain) (simp_all add: pad_char_def)
  have c: "body_ok [a] \<Longrightarrow> body_ok s \<Longrightarrow> body_ok (a # s)" for a s using body_ok_append [of "[a]" s] by simp
  show ?thesis by (induction bs rule: b64_ref.induct) (auto simp: Let_def intro!: c d p)
qed

text \<open>A primitive: it starts with a character the tokenizer takes as such and has no delimiter.\<close>

definition prim_text :: "byte list \<Rightarrow> bool" where
  "prim_text bs \<longleftrightarrow> bs \<noteq> [] \<and> starts_primitive (hd bs) \<and> list_all (\<lambda>c. 32 < unat c \<and> unat c < 127 \<and> c \<notin> set [44, 93, 125]) bs"

definition delimiter :: "byte \<Rightarrow> bool" where
  "delimiter c \<longleftrightarrow> c \<in> set [44, 10, 93, 125]"

lemma sint_small:
  assumes "unat (c :: byte) < 128"
  shows "sint c = int (unat c)"
proof -
  have a: "sint c < 0 \<longleftrightarrow> bit c 7" by (simp add: sint_uint bit_uint_iff)
  have "\<not> sint c < 0" unfolding sint_negative using assms by simp
  with a have "\<not> bit c 7" by blast
  then have "\<not> bit (uint c) 7" by (simp only: bit_uint_iff) simp
  then have "signed_take_bit 7 (uint c) = take_bit 7 (uint c)" by (rule signed_take_bit_eq_if_positive)
  moreover have "uint c < 128" using assms unfolding unat_eq_nat_uint nat_less_iff [OF uint_ge_0] by simp
  then have "take_bit 7 (uint c) = uint c" by (intro take_bit_int_eq_self) simp_all
  moreover have "sint c = signed_take_bit 7 (uint c)" by (simp add: sint_uint)
  ultimately show ?thesis unfolding uint_nat [symmetric] by (simp only: )
qed
lemma sint_printable: "32 < unat (b :: byte) \<Longrightarrow> unat b < 127 \<Longrightarrow> 32 < sint b \<and> sint b < 127"
  using sint_small [of b] by (simp only:) linarith

lemma primitive_end_text:
  assumes "list_all (\<lambda>c. 32 < unat c \<and> unat c < 127 \<and> c \<notin> set [44, 93, 125]) bs" "delimiter c"
  shows "primitive_end i (bs @ c # rest) = Found (i + length bs)"
  using assms
proof (induction bs arbitrary: i)
  case (Cons b bs)
  have "32 < sint b \<and> sint b < 127" using Cons.prems by (intro sint_printable) simp_all
  moreover have "b \<noteq> 0 \<and> b \<notin> set [9, 13, 10, 32, 44, 93, 125]" using Cons.prems by auto
  ultimately show ?case using Cons by simp
qed (auto simp: delimiter_def)

section \<open>One value\<close>

text \<open>The tokens a value may be the content of: none, an array, or a key without a value yet.\<close>

definition takes_value :: "jsmn \<Rightarrow> bool" where
  "takes_value p \<longleftrightarrow> super_ok p \<and>
     (toksuper p = - 1 \<or> tok_type (jtoks p ! nat (toksuper p)) = Jsmn_array
      \<or> tok_type (jtoks p ! nat (toksuper p)) = Jsmn_string \<and> tok_size (jtoks p ! nat (toksuper p)) = 0)"

definition with_tokens :: "jsmn \<Rightarrow> nat \<Rightarrow> nat \<Rightarrow> jsmntok list \<Rightarrow> jsmn" where
  "with_tokens p n k ts = p\<lparr>jpos := jpos p + n, jtoks := bump (toksuper p) k (jtoks p) @ ts\<rparr>"

lemma with_tokens_simps [simp]:
  "jpos (with_tokens p n k ts) = jpos p + n" "toksuper (with_tokens p n k ts) = toksuper p"
  "jtoks (with_tokens p n k ts) = bump (toksuper p) k (jtoks p) @ ts"
  by (simp_all add: with_tokens_def)

lemma drop_here: "here js p (a @ [c]) \<Longrightarrow> drop p js = a @ c # drop (p + length a + 1) js"
  using here_drop [of js p "a @ [c]"] by simp

lemma next_primitive:
  assumes "prim_text bs" "here js (jpos p) (bs @ [c])" "delimiter c" "takes_value p"
  shows "jsmn_next js p (with_tokens p (length bs) 1 [new_tok Jsmn_primitive (int (jpos p)) (int (jpos p + length bs)) (toksuper p)])"
proof -
  obtain b bs' where bs: "bs = b # bs'" using assms(1) by (cases bs) (auto simp: prim_text_def)
  have b: "js ! jpos p = b" "jpos p < length js" using assms(2) by (simp_all add: bs)
  have s: "starts_primitive b" using assms(1) by (simp add: prim_text_def bs)
  note o = starts_primitive_other [OF s]
  have m: "may_be_primitive p" using assms(4) by (auto simp: may_be_primitive_def takes_value_def Let_def)
  have e: "primitive_end (jpos p) (drop (jpos p) js) = Found (jpos p + length bs)"
    unfolding drop_here [OF assms(2)] by (rule primitive_end_text) (use assms(1,3) in \<open>auto simp: prim_text_def\<close>)
  let ?n = "Suc (length (jtoks p))"
  have w: "toksuper p < int (length (jtoks p))" "- 1 \<le> toksuper p" using assms(4) by (auto simp: takes_value_def super_ok_def)
  have "jsmn_step ?n js p = Inr (with_tokens p (length bs) 1 [new_tok Jsmn_primitive (int (jpos p)) (int (jpos p + length bs)) (toksuper p)])"
    using s m
    by (simp add: jsmn_step_def jsmn_char_primitive b parse_primitive_def e token_at_eq grow_super_append [OF w]
        grow_super_bump with_tokens_def jpos_commute bs)
  then show ?thesis using o b by (intro jsmn_nextI) auto
qed

lemma next_string:
  assumes "body_ok t" "here js (jpos p) (quoted t)" "super_ok p"
  shows "jsmn_next js p (with_tokens p (length t + 2) 1 [new_tok Jsmn_string (int (jpos p + 1)) (int (jpos p + 1 + length t)) (toksuper p)])"
proof -
  have b: "js ! jpos p = 34" "jpos p < length js" "here js (jpos p + 1) (t @ [34])" using assms(2) by (simp_all add: quoted_def)
  have e: "string_end (jpos p + 1) (drop (jpos p + 1) js) = Found (jpos p + 1 + length t)"
    unfolding drop_here [OF b(3)] using assms(1) by (simp add: body_ok_def string_end_simps)
  let ?n = "Suc (length (jtoks p))"
  have w: "toksuper p < int (length (jtoks p))" "- 1 \<le> toksuper p" using assms(3) by (auto simp: super_ok_def)
  have "jsmn_step ?n js p = Inr (with_tokens p (length t + 2) 1 [new_tok Jsmn_string (int (jpos p + 1)) (int (jpos p + 1 + length t)) (toksuper p)])"
    using b(1) e by (simp add: jsmn_step_def jsmn_char_def parse_string_def token_at_eq grow_super_append [OF w]
        grow_super_bump with_tokens_def jpos_commute)
  then show ?thesis using b by (intro jsmn_nextI) auto
qed

lemma next_open:
  assumes "here js (jpos p) [c]" "c = 123 \<and> t = Jsmn_object \<or> c = 91 \<and> t = Jsmn_array" "takes_value p"
  shows "jsmn_next js p ((with_tokens p 1 1 [new_tok t (int (jpos p)) (- 1) (toksuper p)])\<lparr>toksuper := int (length (jtoks p))\<rparr>)"
proof -
  have w: "- 1 \<le> toksuper p" "toksuper p < int (length (jtoks p))" using assms(3) by (auto simp: takes_value_def super_ok_def)
  have o: "\<not> (toksuper p \<noteq> - 1 \<and> tok_type (jtoks p ! nat (toksuper p)) = Jsmn_object)" using assms(3) by (auto simp: takes_value_def)
  let ?q = "(with_tokens p 1 1 [new_tok t (int (jpos p)) (- 1) (toksuper p)])\<lparr>toksuper := int (length (jtoks p))\<rparr>"
  let ?r = "p\<lparr>jtoks := jtoks (grow_super p) @ [new_tok t (int (jpos p)) (- 1) (toksuper p)], toksuper := int (length (jtoks p))\<rparr>"
  have "open_token (Suc (length (jtoks p))) t p = Inr ?r"
    unfolding open_token_eq [OF w] using o by simp
  then have "jsmn_char (Suc (length (jtoks p))) js p = Inr ?r"
    using assms(1,2) by (elim disjE) (simp_all add: jsmn_char_def)
  moreover have "?q = ?r\<lparr>jpos := jpos ?r + 1\<rparr>" by (cases p) (simp add: with_tokens_def grow_super_bump)
  ultimately have "jsmn_step (Suc (length (jtoks p))) js p = Inr ?q" by (simp add: jsmn_step_def)
  then show ?thesis using assms(1,2) by (intro jsmn_nextI) auto
qed

text \<open>The tokens behind an open one that its closing bracket walks over: closed, each leading back to it.\<close>

definition kin :: "int \<Rightarrow> int \<Rightarrow> jsmntok list \<Rightarrow> bool" where
  "kin par i ts \<longleftrightarrow> (\<forall>k < length ts. tok_end (ts ! k) \<noteq> - 1
     \<and> (tok_parent (ts ! k) = par \<or> i \<le> tok_parent (ts ! k) \<and> tok_parent (ts ! k) < i + int k))"

lemma kin_Nil [simp]: "kin par i []"
  by (simp add: kin_def)

lemma kin_append:
  assumes "kin par i a" "kin par (i + int (length a)) b"
  shows "kin par i (a @ b)"
  unfolding kin_def
proof (intro allI impI)
  fix k assume k: "k < length (a @ b)"
  show "tok_end ((a @ b) ! k) \<noteq> - 1 \<and> (tok_parent ((a @ b) ! k) = par
      \<or> i \<le> tok_parent ((a @ b) ! k) \<and> tok_parent ((a @ b) ! k) < i + int k)"
  proof (cases "k < length a")
    case True
    then show ?thesis using assms(1) by (simp add: kin_def nth_append)
  next
    case False
    then obtain m where m: "k = length a + m" "m < length b" using k by (metis add_diff_inverse_nat length_append nat_add_left_cancel_less)
    have "tok_end (b ! m) \<noteq> - 1 \<and> (tok_parent (b ! m) = par
      \<or> i + int (length a) \<le> tok_parent (b ! m) \<and> tok_parent (b ! m) < i + int (length a) + int m)"
      using assms(2) m(2) by (simp add: kin_def)
    then show ?thesis unfolding m(1) nth_append_length_plus of_nat_add by linarith
  qed
qed

lemma kin_Cons:
  assumes "tok_end t \<noteq> - 1" "tok_parent t = par" "kin i (i + 1) ts"
  shows "kin par i (t # ts)"
  unfolding kin_def
proof (intro allI impI)
  fix k assume k: "k < length (t # ts)"
  show "tok_end ((t # ts) ! k) \<noteq> - 1 \<and> (tok_parent ((t # ts) ! k) = par
      \<or> i \<le> tok_parent ((t # ts) ! k) \<and> tok_parent ((t # ts) ! k) < i + int k)"
  proof (cases k)
    case (Suc m)
    then have "tok_end (ts ! m) \<noteq> - 1 \<and> (tok_parent (ts ! m) = i \<or> i + 1 \<le> tok_parent (ts ! m) \<and> tok_parent (ts ! m) < i + 1 + int m)"
      using assms(3) k by (simp add: kin_def)
    then show ?thesis unfolding Suc nth_Cons_Suc of_nat_Suc by linarith
  qed (use assms in simp)
qed

lemma close_walk:
  assumes "kin (int i) (int i + 1) ts" "jtoks p = pre @ t # ts" "length pre = i" "is_open t" "tok_type t = ty"
  shows "k \<le> length ts \<Longrightarrow> k < fuel \<Longrightarrow> close_token fuel ty (int (i + k)) p = Inr (p\<lparr>jtoks := pre @ t\<lparr>tok_end := int (jpos p) + 1\<rparr> # ts, toksuper := tok_parent t\<rparr>)"
proof (induction k arbitrary: fuel rule: less_induct)
  case (less k)
  obtain f where f: "fuel = Suc f" using less.prems by (cases fuel) auto
  show ?case
  proof (cases k)
    case 0
    have "jtoks p ! i = t" "(jtoks p)[i := u] = pre @ u # ts" for u using assms(2,3) by auto
    then show ?thesis using assms(4,5) by (simp add: f 0 Let_def upd_tok_def)
  next
    case (Suc j)
    then have j: "j < length ts" using less.prems by simp
    have n: "jtoks p ! (i + k) = ts ! j" using assms(2,3) Suc by (auto simp: nth_append)
    have c: "tok_end (ts ! j) \<noteq> - 1" and par: "tok_parent (ts ! j) = int i \<or> int i + 1 \<le> tok_parent (ts ! j) \<and> tok_parent (ts ! j) < int i + 1 + int j"
      using assms(1) j by (auto simp: kin_def)
    then obtain m where m: "tok_parent (ts ! j) = int (i + m)" "m < k"
    proof -
      have "tok_parent (ts ! j) = int (i + nat (tok_parent (ts ! j) - int i))" "nat (tok_parent (ts ! j) - int i) < k" using par Suc by auto
      then show thesis using that by blast
    qed
    have "close_token f ty (int (i + m)) p = Inr (p\<lparr>jtoks := pre @ t\<lparr>tok_end := int (jpos p) + 1\<rparr> # ts, toksuper := tok_parent t\<rparr>)"
      using less.IH [OF m(2)] m(2) less.prems f by simp
    then show ?thesis using c m by (simp add: f Let_def nat_int_add n is_open_def del: of_nat_add)
  qed
qed

lemma next_close:
  assumes "here js (jpos p) [c]" "c = 125 \<and> ty = Jsmn_object \<or> c = 93 \<and> ty = Jsmn_array"
    and "kin (int (length pre)) (int (length pre) + 1) ts" "jtoks p = pre @ t # ts" "is_open t" "tok_type t = ty"
  shows "jsmn_next js p (p\<lparr>jpos := Suc (jpos p), jtoks := pre @ t\<lparr>tok_end := int (Suc (jpos p))\<rparr> # ts, toksuper := tok_parent t\<rparr>)"
proof -
  have l: "last_tok p = int (length pre + length ts)" using assms(4) by (simp add: last_tok_def)
  have "close_token (length (jtoks p)) ty (last_tok p) p = Inr (p\<lparr>jtoks := pre @ t\<lparr>tok_end := int (jpos p) + 1\<rparr> # ts, toksuper := tok_parent t\<rparr>)"
    unfolding l by (rule close_walk [OF assms(3,4) refl assms(5,6)]) (simp_all add: assms(4))
  moreover have "jtoks p \<noteq> []" by (simp add: assms(4))
  ultimately have "jsmn_char 0 js p = Inr (p\<lparr>jtoks := pre @ t\<lparr>tok_end := int (jpos p) + 1\<rparr> # ts, toksuper := tok_parent t\<rparr>)"
    using assms(1,2) by (elim disjE) (simp_all add: jsmn_char_def)
  then have "jsmn_step 0 js p = Inr (p\<lparr>jpos := Suc (jpos p), jtoks := pre @ t\<lparr>tok_end := int (Suc (jpos p))\<rparr> # ts, toksuper := tok_parent t\<rparr>)"
    by (simp add: jsmn_step_def jpos_commute add.commute)
  then show ?thesis using assms(1,2) by (intro jsmn_nextI) auto
qed

section \<open>The tokens of a value\<close>

text \<open>\<open>p\<close> is the place of the text, \<open>i\<close> the index of the first token and \<open>par\<close> its parent.\<close>

fun val_toks :: "number_format \<Rightarrow> int \<Rightarrow> nat \<Rightarrow> nat \<Rightarrow> nat \<Rightarrow> int \<Rightarrow> val \<Rightarrow> jsmntok list"
  and items_toks :: "number_format \<Rightarrow> int \<Rightarrow> nat \<Rightarrow> nat \<Rightarrow> nat \<Rightarrow> int \<Rightarrow> bool \<Rightarrow> val list \<Rightarrow> jsmntok list"
  and entries_toks :: "number_format \<Rightarrow> int \<Rightarrow> nat \<Rightarrow> nat \<Rightarrow> nat \<Rightarrow> int \<Rightarrow> bool \<Rightarrow> (byte list \<times> val) list \<Rightarrow> jsmntok list"
where
  "val_toks nf ind d p i par (VArr vs) =
     (new_tok Jsmn_array (int p) (int (p + length (json_text nf ind d (VArr vs)))) par)\<lparr>tok_size := int (length vs)\<rparr>
     # items_toks nf ind (Suc d) (p + 1) (i + 1) (int i) False vs"
| "val_toks nf ind d p i par (VMap es) =
     (new_tok Jsmn_object (int p) (int (p + length (json_text nf ind d (VMap es)))) par)\<lparr>tok_size := int (length es)\<rparr>
     # entries_toks nf ind (Suc d) (p + 1) (i + 1) (int i) False es"
| "val_toks nf ind d p i par (VStr s) = [new_tok Jsmn_string (int (p + 1)) (int (p + 1 + length (escaped s))) par]"
| "val_toks nf ind d p i par (VBin b) = [new_tok Jsmn_string (int (p + 1)) (int (p + 1 + length (b64_ref b))) par]"
| "val_toks nf ind d p i par v = [new_tok Jsmn_primitive (int p) (int (p + length (json_text nf ind d v))) par]"
| "items_toks nf ind d p i par cm [] = []"
| "items_toks nf ind d p i par cm (v # vs) =
     (let p1 = p + length (sep ind d cm); ts = val_toks nf ind d p1 i par v
      in ts @ items_toks nf ind d (p1 + length (json_text nf ind d v)) (i + length ts) par True vs)"
| "entries_toks nf ind d p i par cm [] = []"
| "entries_toks nf ind d p i par cm ((k, v) # es) =
     (let p1 = p + length (sep ind d cm);
          p2 = p1 + length (quoted (escaped k)) + 1 + (if ind \<ge> 0 then 1 else 0);
          ts = val_toks nf ind d p2 (i + 1) (int i) v
      in (new_tok Jsmn_string (int (p1 + 1)) (int (p1 + 1 + length (escaped k))) par)\<lparr>tok_size := 1\<rparr>
         # ts @ entries_toks nf ind d (p2 + length (json_text nf ind d v)) (i + 1 + length ts) par True es)"

fun json_plain :: "number_format \<Rightarrow> val \<Rightarrow> bool" where
  "json_plain nf (VFloat f) \<longleftrightarrow> prim_text (print_double nf (widen nf f))"
| "json_plain nf (VDouble x) \<longleftrightarrow> prim_text (print_double nf x)"
| "json_plain nf (VStr s) \<longleftrightarrow> string_ok s"
| "json_plain nf (VArr vs) \<longleftrightarrow> list_all (json_plain nf) vs"
| "json_plain nf (VMap es) \<longleftrightarrow> list_all (\<lambda>(k, v). string_ok k \<and> json_plain nf v) es"
| "json_plain nf _ \<longleftrightarrow> True"

lemma kin_parent: "kin (int i) (int i + 1) ts \<Longrightarrow> kin par (int i) (t # ts)"
  if "tok_end t \<noteq> - 1" "tok_parent t = par" for par
  using kin_Cons [OF that] by simp

lemma kin_toks:
  "kin par (int i) (val_toks nf ind d p i par v)"
  "kin par (int i) (items_toks nf ind d p i par cm vs)"
  "kin par (int i) (entries_toks nf ind d p i par cm es)"
proof (induction nf ind d p i par v and nf ind d p i par cm vs and nf ind d p i par cm es
    rule: val_toks_items_toks_entries_toks.induct)
  case (1 nf ind d p i par vs)
  then show ?case unfolding val_toks.simps by (intro kin_parent) (simp_all add: add.commute)
next
  case (2 nf ind d p i par es)
  then show ?case unfolding val_toks.simps by (intro kin_parent) (simp_all add: add.commute)
next
  case (7 nf ind d p i par cm v vs)
  then show ?case by (simp add: Let_def kin_append)
next
  case (9 nf ind d p i par cm k v es)
  show ?case
    unfolding entries_toks.simps Let_def
    by (rule kin_append [of par "int i" "_ # _", unfolded append_Cons, OF kin_parent])
      (use 9 in \<open>simp_all add: Let_def add_ac\<close>)
qed (simp_all add: kin_Cons)

lemma with_tokens_trans:
  "super_ok p \<Longrightarrow> with_tokens (with_tokens p a m ts) b n us = with_tokens p (a + b) (m + n) (ts @ us)"
  by (simp add: with_tokens_def super_ok_def bump_append bump_bump add.assoc)

lemma with_tokens_shift: "with_tokens (p\<lparr>jpos := jpos p + m\<rparr>) n k ts = with_tokens p (m + n) k ts"
  by (simp add: with_tokens_def add.assoc)

lemma prim_textI: "list_all (\<lambda>c. 48 \<le> unat c \<and> unat c \<le> 57 \<or> c = 45) bs \<Longrightarrow> bs \<noteq> [] \<Longrightarrow> prim_text bs"
proof -
  assume a: "list_all (\<lambda>c. 48 \<le> unat c \<and> unat c \<le> 57 \<or> c = 45) bs" "bs \<noteq> []"
  have *: "starts_primitive c \<and> 32 < unat c \<and> unat c < 127 \<and> c \<notin> set [44, 93, 125]"
    if "48 \<le> unat c \<and> unat c \<le> 57 \<or> c = 45" for c :: byte
  proof -
    have "c = 45 \<or> (\<exists>n \<in> {48..57}. c = of_nat n)" using that by (metis atLeastAtMost_iff word_of_nat_eq_iff word_nat_cases unat_of_nat of_nat_unat ucast_id)
    then show ?thesis by (auto simp: starts_primitive_def atLeastAtMost_upt upt_rec)
  qed
  show ?thesis using a * by (cases bs) (auto simp: prim_text_def list_all_iff)
qed

lemma dec_nat_digits: "list_all (\<lambda>c. 48 \<le> unat c \<and> unat c \<le> 57) (dec_nat n) \<and> dec_nat n \<noteq> []"
proof (induction n rule: dec_nat.induct)
  case (1 n)
  have "48 \<le> unat (of_nat (48 + m) :: byte) \<and> unat (of_nat (48 + m) :: byte) \<le> 57" if "m < 10" for m
    using that by (simp only: unat_of_nat) simp
  then show ?case using 1 by (subst (1 2) dec_nat.simps) (auto simp del: of_nat_add)
qed

lemma to_chars_prim: "prim_text (to_chars i)"
  using dec_nat_digits by (intro prim_textI) (auto simp: to_chars_def list_all_iff)

lemma ascii_prims: "prim_text (ascii ''null'')" "prim_text (ascii ''true'')" "prim_text (ascii ''false'')"
  by (simp_all add: prim_text_def ascii_def starts_primitive_def)

section \<open>The rounds on a value\<close>

text \<open>A primitive needs a delimiter behind it; strings and containers end by themselves.\<close>

definition ended :: "byte list \<Rightarrow> nat \<Rightarrow> bool" where
  "ended js p \<longleftrightarrow> p < length js \<and> delimiter (js ! p)"

fun container :: "val \<Rightarrow> bool" where
  "container (VArr vs) = True" | "container (VMap es) = True" | "container v = False"

lemma runs_sep_array:
  assumes "here js (jpos p) (sep ind d cm)" "toksuper p = int s" "tok_type (jtoks p ! s) = Jsmn_array"
  shows "jsmn_runs js p (p\<lparr>jpos := jpos p + length (sep ind d cm)\<rparr>)"
proof (cases cm)
  case True
  have "jsmn_next js p (p\<lparr>jpos := Suc (jpos p)\<rparr>)"
    using next_comma [of p js] assms True by (simp add: sep_def after_comma_def)
  moreover have "jsmn_runs js (p\<lparr>jpos := Suc (jpos p)\<rparr>) (p\<lparr>jpos := jpos p + length (sep ind d cm)\<rparr>)"
    using runs_line [of js "p\<lparr>jpos := Suc (jpos p)\<rparr>" ind d] assms(1) True by (simp add: sep_def)
  ultimately show ?thesis by (rule converse_rtranclp_into_rtranclp)
next
  case False
  then show ?thesis using runs_line [of js p ind d] assms(1) by (simp add: sep_def)
qed

text \<open>In an object the comma leads from the key before back to the object.\<close>

definition key_ok :: "bool \<Rightarrow> nat \<Rightarrow> jsmn \<Rightarrow> bool" where
  "key_ok cm s p \<longleftrightarrow> super_ok p \<and> s < length (jtoks p) \<and> tok_type (jtoks p ! s) = Jsmn_object
     \<and> (if cm then toksuper p \<noteq> - 1 \<and> tok_type (jtoks p ! nat (toksuper p)) = Jsmn_string \<and> tok_parent (jtoks p ! nat (toksuper p)) = int s
        else toksuper p = int s)"

lemma runs_sep_object:
  assumes "here js (jpos p) (sep ind d cm)" "key_ok cm s p"
  shows "jsmn_runs js p (p\<lparr>jpos := jpos p + length (sep ind d cm), toksuper := int s\<rparr>)"
proof (cases cm)
  case True
  have "jsmn_next js p (p\<lparr>jpos := Suc (jpos p), toksuper := int s\<rparr>)"
    using next_comma [of p js] assms True by (simp add: sep_def after_comma_def key_ok_def jpos_commute)
  moreover have "jsmn_runs js (p\<lparr>jpos := Suc (jpos p), toksuper := int s\<rparr>) (p\<lparr>jpos := jpos p + length (sep ind d cm), toksuper := int s\<rparr>)"
    using runs_line [of js "p\<lparr>jpos := Suc (jpos p), toksuper := int s\<rparr>" ind d] assms(1) True by (simp add: sep_def jpos_commute)
  ultimately show ?thesis by (rule converse_rtranclp_into_rtranclp)
next
  case False
  then have "p\<lparr>toksuper := int s\<rparr> = p" using assms(2) by (cases p) (simp add: key_ok_def)
  then show ?thesis using runs_line [of js p ind d] assms(1) False
    by (cases p) (simp add: sep_def)
qed

lemma runs_lines: "here js (jpos p) ln \<Longrightarrow> ln = [] \<or> ln = line ind d \<Longrightarrow> jsmn_runs js p (p\<lparr>jpos := jpos p + length ln\<rparr>)"
  using runs_line by auto

text \<open>A container: the opening bracket, its contents, a line unless it is empty, and the closing bracket.\<close>

lemma runs_container:
  assumes t: "takes_value p" and js: "here js (jpos p) ([b] @ inner @ ln @ [c])"
    and b: "b = 123 \<and> ty = Jsmn_object \<or> b = 91 \<and> ty = Jsmn_array" "c = 125 \<and> ty = Jsmn_object \<or> c = 93 \<and> ty = Jsmn_array"
    and ln: "ln = [] \<or> ln = line ind d"
    and kin: "kin (int (length (jtoks p))) (int (length (jtoks p)) + 1) ts"
    and inner: "\<And>q. jpos q = jpos p + 1 \<Longrightarrow> toksuper q = int (length (jtoks p)) \<Longrightarrow>
      jtoks q = bump (toksuper p) 1 (jtoks p) @ [new_tok ty (int (jpos p)) (- 1) (toksuper p)] \<Longrightarrow>
      \<exists>x. jsmn_runs js q (q\<lparr>jpos := jpos q + length inner, jtoks := bump (int (length (jtoks p))) n (jtoks q) @ ts, toksuper := x\<rparr>)"
  shows "jsmn_runs js p (with_tokens p (length inner + length ln + 2) 1
    ((new_tok ty (int (jpos p)) (int (jpos p + (length inner + length ln + 2))) (toksuper p))\<lparr>tok_size := int n\<rparr> # ts))"
proof -
  let ?i = "length (jtoks p)"
  let ?pre = "bump (toksuper p) 1 (jtoks p)"
  let ?t = "new_tok ty (int (jpos p)) (- 1) (toksuper p)"
  let ?q = "(with_tokens p 1 1 [?t])\<lparr>toksuper := int ?i\<rparr>"
  have w: "super_ok p" using t by (simp add: takes_value_def)
  have 1: "jsmn_next js p ?q" using js b(1) t by (intro next_open) simp_all
  obtain x where 2: "jsmn_runs js ?q (?q\<lparr>jpos := jpos ?q + length inner, jtoks := bump (int ?i) n (jtoks ?q) @ ts, toksuper := x\<rparr>)"
    using inner [of ?q] by auto
  let ?t' = "?t\<lparr>tok_size := int n\<rparr>"
  have bt: "bump (int ?i) n (?pre @ [?t]) = ?pre @ [?t']" by (subst bump_last) simp_all
  let ?r = "?q\<lparr>jpos := jpos p + 1 + length inner, jtoks := ?pre @ ?t' # ts, toksuper := x\<rparr>"
  have r: "?q\<lparr>jpos := jpos ?q + length inner, jtoks := bump (int ?i) n (jtoks ?q) @ ts, toksuper := x\<rparr> = ?r"
    using bt by simp
  have "here js (jpos ?r) ln" using js by simp
  then have 3: "jsmn_runs js ?r (?r\<lparr>jpos := jpos ?r + length ln\<rparr>)"
    using ln by (rule runs_lines)
  let ?u = "?r\<lparr>jpos := jpos ?r + length ln\<rparr>"
  have "here js (jpos ?u) [c]" using js by (simp add: add.assoc)
  then have 4: "jsmn_next js ?u (?u\<lparr>jpos := Suc (jpos ?u), jtoks := ?pre @ ?t'\<lparr>tok_end := int (Suc (jpos ?u))\<rparr> # ts, toksuper := tok_parent ?t'\<rparr>)"
    by (rule next_close [OF _ b(2)]) (use kin in \<open>simp_all add: is_open_def\<close>)
  have e: "?u\<lparr>jpos := Suc (jpos ?u), jtoks := ?pre @ ?t'\<lparr>tok_end := int (Suc (jpos ?u))\<rparr> # ts, toksuper := tok_parent ?t'\<rparr>
      = with_tokens p (length inner + length ln + 2) 1
    ((new_tok ty (int (jpos p)) (int (jpos p + (length inner + length ln + 2))) (toksuper p))\<lparr>tok_size := int n\<rparr> # ts)"
    by (cases p) (simp add: with_tokens_def new_tok_def)
  show ?thesis using 1 2 [unfolded r] 3 4 [unfolded e] by (meson converse_rtranclp_into_rtranclp rtranclp.rtrancl_into_rtrancl rtranclp_trans)
qed

lemma runs_scalar:
  assumes "prim_text bs" "here js (jpos p) bs" "ended js (jpos p + length bs)" "takes_value p"
  shows "jsmn_runs js p (with_tokens p (length bs) 1 [new_tok Jsmn_primitive (int (jpos p)) (int (jpos p + length bs)) (toksuper p)])"
  by (rule runs_next, rule next_primitive [where c = "js ! (jpos p + length bs)"]) (use assms in \<open>simp_all add: ended_def\<close>)

lemma runs_quoted:
  assumes "body_ok t" "here js (jpos p) (quoted t)" "super_ok p"
  shows "jsmn_runs js p (with_tokens p (length (quoted t)) 1 [new_tok Jsmn_string (int (jpos p + 1)) (int (jpos p + 1 + length t)) (toksuper p)])"
  using runs_next [OF next_string [OF assms]] by (simp add: quoted_def)

lemma text_next:
  "delimiter c \<Longrightarrow> here js p (items_text nf ind d True vs @ [c]) \<Longrightarrow> ended js p"
  "delimiter c \<Longrightarrow> here js p (entries_text nf ind d True es @ [c]) \<Longrightarrow> ended js p"
proof -
  show "delimiter c \<Longrightarrow> here js p (items_text nf ind d True vs @ [c]) \<Longrightarrow> ended js p"
    by (cases vs) (auto simp: ended_def sep_def delimiter_def)
  show "delimiter c \<Longrightarrow> here js p (entries_text nf ind d True es @ [c]) \<Longrightarrow> ended js p"
    by (cases es) (auto simp: ended_def sep_def delimiter_def)
qed

lemma here_inner:
  assumes "here js p (a @ ln @ [c])" "ln = [] \<or> ln = line ind d" "delimiter c"
  obtains e where "here js p (a @ [e])" "delimiter e"
proof (cases "ln = []")
  case False
  then have "ln = 10 # tl ln" using assms(2) by (auto simp: line_def)
  then have "here js p (a @ [10])" using assms(1) by (metis append_Cons append_Nil append_assoc here_append)
  then show thesis by (rule that) (simp add: delimiter_def)
qed (use assms that in simp)

lemma runs_blank: "here js (jpos p) (if ind \<ge> 0 then [32] else []) \<Longrightarrow> jsmn_runs js p (p\<lparr>jpos := jpos p + (if (ind :: int) \<ge> 0 then 1 else 0)\<rparr>)"
  using runs_spaces [of js p "if ind \<ge> 0 then 1 else 0"] by (cases "ind \<ge> 0") simp_all

text \<open>A key with its colon.\<close>

lemma runs_key:
  assumes "string_ok k" "here js (jpos p) (sep ind d cm @ quoted (escaped k) @ [58] @ (if ind \<ge> 0 then [32] else []))" "key_ok cm s p"
  shows "\<exists>q. jsmn_runs js p q \<and> jpos q = jpos p + length (sep ind d cm @ quoted (escaped k) @ [58] @ (if ind \<ge> 0 then [32] else []))
    \<and> toksuper q = int (length (jtoks p))
    \<and> jtoks q = bump (int s) 1 (jtoks p) @ [new_tok Jsmn_string (int (jpos p + length (sep ind d cm) + 1))
        (int (jpos p + length (sep ind d cm) + 1 + length (escaped k))) (int s)]"
proof -
  let ?p1 = "p\<lparr>jpos := jpos p + length (sep ind d cm), toksuper := int s\<rparr>"
  have 1: "jsmn_runs js p ?p1" using assms(2,3) by (intro runs_sep_object) simp_all
  let ?p2 = "with_tokens ?p1 (length (quoted (escaped k))) 1 [new_tok Jsmn_string (int (jpos ?p1 + 1)) (int (jpos ?p1 + 1 + length (escaped k))) (toksuper ?p1)]"
  have 2: "jsmn_runs js ?p1 ?p2"
    by (rule runs_quoted [OF escaped_body [OF assms(1)]]) (use assms(2,3) in \<open>simp_all add: key_ok_def super_ok_def\<close>)
  let ?p3 = "?p2\<lparr>jpos := Suc (jpos ?p2), toksuper := last_tok ?p2\<rparr>"
  have 3: "jsmn_next js ?p2 ?p3" using assms(2) by (intro next_colon) simp_all
  let ?p4 = "?p3\<lparr>jpos := jpos ?p3 + (if ind \<ge> 0 then 1 else 0)\<rparr>"
  have 4: "jsmn_runs js ?p3 ?p4"
    by (rule runs_blank) (use assms(2) in \<open>simp add: add.assoc\<close>)
  have "jsmn_runs js p ?p4" using 1 2 3 4 by (meson rtranclp.rtrancl_into_rtrancl rtranclp_trans)
  moreover have "last_tok ?p2 = int (length (jtoks p))" by (simp add: last_tok_def)
  ultimately show ?thesis by (intro exI [of _ ?p4]) (simp add: add.assoc)
qed

lemma jsmn_as_update: "jpos z = a \<Longrightarrow> jtoks z = b \<Longrightarrow> toksuper z = c \<Longrightarrow> (z :: jsmn) = p\<lparr>jpos := a, jtoks := b, toksuper := c\<rparr>"
  by simp

lemma runs_vals:
  "json_plain nf v \<Longrightarrow> here js (jpos p) (json_text nf ind d v) \<Longrightarrow> container v \<or> ended js (jpos p + length (json_text nf ind d v)) \<Longrightarrow>
     takes_value p \<Longrightarrow>
     jsmn_runs js p (with_tokens p (length (json_text nf ind d v)) 1 (val_toks nf ind d (jpos p) (length (jtoks p)) (toksuper p) v))"
  "list_all (json_plain nf) vs \<Longrightarrow> here js (jpos p) (items_text nf ind d cm vs @ [c]) \<Longrightarrow> delimiter c \<Longrightarrow>
     s < length (jtoks p) \<Longrightarrow> toksuper p = int s \<Longrightarrow> tok_type (jtoks p ! s) = Jsmn_array \<Longrightarrow>
     jsmn_runs js p (with_tokens p (length (items_text nf ind d cm vs)) (length vs)
       (items_toks nf ind d (jpos p) (length (jtoks p)) (int s) cm vs))"
  "list_all (\<lambda>(k, v). string_ok k \<and> json_plain nf v) es \<Longrightarrow> here js (jpos p) (entries_text nf ind d cm es @ [c]) \<Longrightarrow> delimiter c \<Longrightarrow>
     key_ok cm s p \<Longrightarrow>
     \<exists>x. jsmn_runs js p (p\<lparr>jpos := jpos p + length (entries_text nf ind d cm es), jtoks := bump (int s) (length es) (jtoks p)
       @ entries_toks nf ind d (jpos p) (length (jtoks p)) (int s) cm es, toksuper := x\<rparr>)"
proof (induction nf ind d v and nf ind d cm vs and nf ind d cm es arbitrary: p and p s c and p s c rule: json_text_items_text_entries_text.induct)
  case (9 nf ind d vs)
  let ?ln = "if vs = [] then [] else line ind d" and ?i = "length (jtoks p)"
  let ?items = "items_text nf ind (Suc d) False vs" and ?ts = "items_toks nf ind (Suc d) (jpos p + 1) (?i + 1) (int ?i) False vs"
  have h: "here js (jpos p) ([91] @ ?items @ ?ln @ [93])" using "9.prems"(2) by simp
  obtain e where e: "here js (jpos p + 1) (?items @ [e])" "delimiter e"
    by (rule here_inner [of js "jpos p + 1" ?items ?ln 93 ind d]) (use h in \<open>auto simp: delimiter_def\<close>)
  have "jsmn_runs js p (with_tokens p (length ?items + length ?ln + 2) 1
    ((new_tok Jsmn_array (int (jpos p)) (int (jpos p + (length ?items + length ?ln + 2))) (toksuper p))\<lparr>tok_size := int (length vs)\<rparr> # ?ts))"
  proof (rule runs_container [OF "9.prems"(4) h, where d = d])
    show "kin (int ?i) (int ?i + 1) ?ts" using kin_toks(2) [of "int ?i" "?i + 1"] by (simp add: add.commute)
    fix q :: jsmn assume q: "jpos q = jpos p + 1" "toksuper q = int ?i"
      "jtoks q = bump (toksuper p) 1 (jtoks p) @ [new_tok Jsmn_array (int (jpos p)) (- 1) (toksuper p)]"
    have "jsmn_runs js q (with_tokens q (length ?items) (length vs) (items_toks nf ind (Suc d) (jpos q) (length (jtoks q)) (int ?i) False vs))"
      by (rule "9.IH" [where c = e]) (use "9.prems"(1) e q in \<open>simp_all add: nth_append\<close>)
    then show "\<exists>x. jsmn_runs js q (q\<lparr>jpos := jpos q + length ?items, jtoks := bump (int ?i) (length vs) (jtoks q) @ ?ts, toksuper := x\<rparr>)"
      using q by (intro exI [of _ "int ?i"]) (cases q, simp add: with_tokens_def)
  qed auto
  then show ?case by (simp add: add_ac)
next
  case (10 nf ind d es)
  let ?ln = "if es = [] then [] else line ind d" and ?i = "length (jtoks p)"
  let ?items = "entries_text nf ind (Suc d) False es" and ?ts = "entries_toks nf ind (Suc d) (jpos p + 1) (?i + 1) (int ?i) False es"
  have h: "here js (jpos p) ([123] @ ?items @ ?ln @ [125])" using "10.prems"(2) by simp
  obtain e where e: "here js (jpos p + 1) (?items @ [e])" "delimiter e"
    by (rule here_inner [of js "jpos p + 1" ?items ?ln 125 ind d]) (use h in \<open>auto simp: delimiter_def\<close>)
  have "jsmn_runs js p (with_tokens p (length ?items + length ?ln + 2) 1
    ((new_tok Jsmn_object (int (jpos p)) (int (jpos p + (length ?items + length ?ln + 2))) (toksuper p))\<lparr>tok_size := int (length es)\<rparr> # ?ts))"
  proof (rule runs_container [OF "10.prems"(4) h, where d = d])
    show "kin (int ?i) (int ?i + 1) ?ts" using kin_toks(3) [of "int ?i" "?i + 1"] by (simp add: add.commute)
    fix q :: jsmn assume q: "jpos q = jpos p + 1" "toksuper q = int ?i"
      "jtoks q = bump (toksuper p) 1 (jtoks p) @ [new_tok Jsmn_object (int (jpos p)) (- 1) (toksuper p)]"
    have "\<exists>x. jsmn_runs js q (q\<lparr>jpos := jpos q + length ?items, jtoks := bump (int ?i) (length es) (jtoks q)
        @ entries_toks nf ind (Suc d) (jpos q) (length (jtoks q)) (int ?i) False es, toksuper := x\<rparr>)"
      by (rule "10.IH" [where c = e]) (use "10.prems"(1) e q in \<open>simp_all add: nth_append key_ok_def super_ok_def\<close>)
    then show "\<exists>x. jsmn_runs js q (q\<lparr>jpos := jpos q + length ?items, jtoks := bump (int ?i) (length es) (jtoks q) @ ?ts, toksuper := x\<rparr>)"
      using q by simp
  qed auto
  then show ?case by (simp add: add_ac)
next
  case (11 nf ind d cm)
  then show ?case by (cases p) (simp add: with_tokens_def)
next
  case (12 nf ind d cm v vs)
  let ?p = "p\<lparr>jpos := jpos p + length (sep ind d cm)\<rparr>" and ?l = "length (json_text nf ind d v)"
  let ?ts = "val_toks nf ind d (jpos ?p) (length (jtoks p)) (int s) v"
  let ?q = "with_tokens ?p ?l 1 ?ts"
  have w: "super_ok ?p" "takes_value ?p" using "12.prems" by (auto simp: super_ok_def takes_value_def)
  have 1: "jsmn_runs js p ?p" using "12.prems" by (intro runs_sep_array) simp_all
  have after: "here js (jpos ?p + ?l) (items_text nf ind d True vs @ [c])" using "12.prems"(2) by (simp add: add.assoc)
  have 2: "jsmn_runs js ?p ?q"
    using "12.IH"(1) [of ?p] "12.prems" w text_next(1) [OF "12.prems"(3) after] by simp
  have 3: "jsmn_runs js ?q (with_tokens ?q (length (items_text nf ind d True vs)) (length vs)
      (items_toks nf ind d (jpos ?q) (length (jtoks ?q)) (int s) True vs))"
    by (rule "12.IH"(2) [where c = c]) (use "12.prems" after in \<open>simp_all add: nth_append\<close>)
  have "jsmn_runs js p (with_tokens ?q (length (items_text nf ind d True vs)) (length vs)
      (items_toks nf ind d (jpos ?q) (length (jtoks ?q)) (int s) True vs))"
    using 1 2 3 by (meson rtranclp_trans)
  then show ?case
    unfolding with_tokens_trans [OF w(1)] unfolding with_tokens_shift using "12.prems" by (simp add: Let_def add_ac)
next
  case (13 nf ind d cm)
  then show ?case by (intro exI [of _ "toksuper p"]) simp
next
  case (14 nf ind d cm k v es)
  let ?a = "sep ind d cm @ quoted (escaped k) @ [58] @ (if ind \<ge> 0 then [32] else [])" and ?l = "length (json_text nf ind d v)" and ?i = "length (jtoks p)"
  let ?key = "new_tok Jsmn_string (int (jpos p + length (sep ind d cm) + 1)) (int (jpos p + length (sep ind d cm) + 1 + length (escaped k))) (int s)"
  have h: "here js (jpos p) (?a @ json_text nf ind d v @ entries_text nf ind d True es @ [c])" using "14.prems"(2) by simp
  obtain q where q: "jsmn_runs js p q" "jpos q = jpos p + length ?a" "toksuper q = int ?i" "jtoks q = bump (int s) 1 (jtoks p) @ [?key]"
    using runs_key [of k js p ind d cm s] "14.prems" h by auto
  have hq: "here js (jpos q) (json_text nf ind d v @ entries_text nf ind d True es @ [c])"
    unfolding q(2) using here_append [THEN iffD1, OF h] by (rule conjunct2)
  then have hv: "here js (jpos q) (json_text nf ind d v)" and after: "here js (jpos q + ?l) (entries_text nf ind d True es @ [c])"
    unfolding here_append [of js _ "json_text nf ind d v"] by blast+
  have ready: "takes_value q" using q(3,4) by (simp add: takes_value_def super_ok_def nth_append)
  let ?ts = "val_toks nf ind d (jpos q) (?i + 1) (int ?i) v"
  let ?r = "with_tokens q ?l 1 ?ts"
  have 2: "jsmn_runs js q ?r"
    using "14.IH"(1) [OF _ hv _ ready] "14.prems"(1) q(3,4) text_next(2) [OF "14.prems"(3) after] by simp
  have toks: "jtoks ?r = bump (int s) 1 (jtoks p) @ ?key\<lparr>tok_size := 1\<rparr> # ?ts" using q by (simp add: bump_last)
  have s: "s < length (jtoks p)" using "14.prems"(4) by (simp add: key_ok_def)
  have "key_ok True s ?r"
    unfolding key_ok_def super_ok_def toks using q(3) s "14.prems"(4) by (simp add: nth_append key_ok_def)
  then obtain x where 3: "jsmn_runs js ?r (?r\<lparr>jpos := jpos ?r + length (entries_text nf ind d True es), jtoks := bump (int s) (length es) (jtoks ?r)
       @ entries_toks nf ind d (jpos ?r) (length (jtoks ?r)) (int s) True es, toksuper := x\<rparr>)"
    using "14.IH"(2) [of ?r c s] "14.prems" after by auto
  have "bump (int s) (length es) (jtoks ?r) = bump (int s) (Suc (length es)) (jtoks p) @ ?key\<lparr>tok_size := 1\<rparr> # ?ts"
    unfolding toks using s by (simp add: bump_append bump_bump)
  moreover have "length (jtoks ?r) = ?i + 1 + length ?ts" by (simp add: q)
  ultimately have e: "jtoks (?r\<lparr>jpos := jpos ?r + length (entries_text nf ind d True es), jtoks := bump (int s) (length es) (jtoks ?r)
       @ entries_toks nf ind d (jpos ?r) (length (jtoks ?r)) (int s) True es, toksuper := x\<rparr>)
      = bump (int s) (length ((k, v) # es)) (jtoks p) @ entries_toks nf ind d (jpos p) ?i (int s) cm ((k, v) # es)"
    using q(2) by (simp add: Let_def add_ac)
  let ?z = "?r\<lparr>jpos := jpos ?r + length (entries_text nf ind d True es), jtoks := bump (int s) (length es) (jtoks ?r)
       @ entries_toks nf ind d (jpos ?r) (length (jtoks ?r)) (int s) True es, toksuper := x\<rparr>"
  have "jpos ?z = jpos p + length (entries_text nf ind d cm ((k, v) # es))" using q(2) by simp
  then have "?z = p\<lparr>jpos := jpos p + length (entries_text nf ind d cm ((k, v) # es)), jtoks := bump (int s) (length ((k, v) # es)) (jtoks p)
       @ entries_toks nf ind d (jpos p) ?i (int s) cm ((k, v) # es), toksuper := x\<rparr>"
    by (rule jsmn_as_update [OF _ e]) simp
  moreover have "jsmn_runs js p ?z" using q(1) 2 3 by (meson rtranclp_trans)
  ultimately show ?case by metis
qed (auto simp: to_chars_prim ascii_prims escaped_body b64_ref_body takes_value_def
    intro!: runs_scalar [simplified] runs_quoted [simplified])

end
