(* ===== verification/Json_Reader.thy ===== *)
theory Json_Reader
  imports Jsmn Json_Strings Stream_Buffers Msgpack_Reader
begin

text \<open>
  The JSON reader of \<open>refl/archive/json-reader.hxx\<close> over the tokenizer. It reads a whole document into a
  buffer, lets the tokenizer cut it, and then walks over the tokens; \<open>pos_next\<close> is the next token, \<open>None\<close>
  when the next read has to fetch a document (\<open>~size_t{}\<close>). The head of the scope list is \<open>scopes.back()\<close>.
  What the code passes by reference is an argument when it may stay unchanged. An access out of range is
  the exception of the standard library or \<open>Null_scope\<close> for \<open>back()\<close> of an empty vector; \<open>strtod\<close> and the
  conversion to \<open>float\<close> are parameters.
\<close>

section \<open>State\<close>

datatype jr_error = Jr_parse_failed | Jr_invalid_context | Jr_end_of_file | Jr_check_failed | Jr_missing_key
  | Jr_out_of_range | Jr_null_scope | Jr_runaway | Jr_base64 b64s_error | Jr_oob b64_error

datatype reader_scope_type = Rs_invalid | Rs_array | Rs_object

record jr_scope =
  rs_type :: reader_scope_type
  rs_context :: nat
  rs_token :: nat
  rs_key_next :: bool
  rs_left :: int

record jreader =
  jr_in :: "byte list"
  jr_buffer :: "byte list"
  jr_parser :: jsmn
  jr_pos :: "nat option"
  jr_scopes :: "jr_scope list"
  jr_keygen :: nat
  jr_base64 :: b64s

record number_parser =
  strtod :: "byte list \<Rightarrow> u64 \<times> nat"
  narrow :: "u64 \<Rightarrow> u32"

type_synonym 'a jr = "jreader \<Rightarrow> (jr_error + 'a) \<times> jreader"

abbreviation words_in :: nat where "words_in \<equiv> 16"

definition jreader_new :: "byte list \<Rightarrow> jreader" where
  "jreader_new bs = \<lparr>jr_in = bs, jr_buffer = [], jr_parser = jsmn_init, jr_pos = None, jr_scopes = [], jr_keygen = 0,
     jr_base64 = b64s_new words_in (Some \<lparr>written = [], unread = [], syncs = 0\<rparr>)\<rparr>"

definition jr_reset :: "jreader \<Rightarrow> jreader" where
  "jr_reset r = r\<lparr>jr_pos := None\<rparr>"

abbreviation jr_tokens :: "jreader \<Rightarrow> jsmntok list" where
  "jr_tokens r \<equiv> jtoks (jr_parser r)"

definition jr_next :: "jsmntok jr" where
  "jr_next r =
     (case jr_pos r of
        Some i \<Rightarrow> if i < length (jr_tokens r) then (Inr (jr_tokens r ! i), r) else (Inl Jr_out_of_range, r)
      | None \<Rightarrow> (Inl Jr_out_of_range, r))"

definition tokstr :: "jsmntok \<Rightarrow> byte list jr" where
  "tokstr tok r =
     (if tok_start tok < 0 \<or> tok_start tok > int (length (jr_buffer r)) then (Inl Jr_out_of_range, r)
      else let s = drop (nat (tok_start tok)) (jr_buffer r)
           in (Inr (if tok_end tok < tok_start tok then s else take (nat (tok_end tok - tok_start tok)) s), r))"

text \<open>\<open>std::lower_bound\<close> over the tokens from \<open>i\<close>, which are sorted by their starts.\<close>

definition token_bound :: "nat \<Rightarrow> int \<Rightarrow> jsmntok list \<Rightarrow> nat" where
  "token_bound i e ts = i + length (takeWhile (\<lambda>t. tok_start t < e) (drop i ts))"

definition step_over :: "nat \<Rightarrow> jreader \<Rightarrow> nat" where
  "step_over i r = token_bound i (tok_end (jr_tokens r ! i)) (jr_tokens r)"

section \<open>Fetching a document\<close>

text \<open>Characters are taken one by one until the first token is there, with an array of 8 tokens.\<close>

fun first_token :: "byte list \<Rightarrow> jreader \<Rightarrow> (jr_error + unit) \<times> jreader" where
  "first_token s r =
     (if jr_tokens r \<noteq> [] then (Inr (), r)
      else case s of
        [] \<Rightarrow> (Inl Jr_end_of_file, r)
      | c # s' \<Rightarrow>
          let r = r\<lparr>jr_in := s', jr_buffer := jr_buffer r @ [c]\<rparr>
          in case jsmn_parse 8 (jr_buffer r) (jr_parser r) of
               (Inl e, p) \<Rightarrow>
                 if e = Nomem \<or> e = Inval then (Inl Jr_parse_failed, r\<lparr>jr_parser := p\<rparr>)
                 else if e = Runaway then (Inl Jr_runaway, r\<lparr>jr_parser := p\<rparr>)
                 else first_token s' (r\<lparr>jr_parser := p\<rparr>)
             | (Inr _, p) \<Rightarrow> first_token s' (r\<lparr>jr_parser := p\<rparr>))"

declare first_token.simps [simp del]

text \<open>The parser is called again with a larger array as long as it runs out of tokens.\<close>

fun parse_again :: "nat \<Rightarrow> nat \<Rightarrow> byte list \<Rightarrow> jsmn \<Rightarrow> (jsmnerr + nat) \<times> nat \<times> jsmn" where
  "parse_again fuel n js p =
     (case jsmn_parse n js p of
        (Inl Nomem, q) \<Rightarrow> (case fuel of 0 \<Rightarrow> (Inl Runaway, n, q) | Suc f \<Rightarrow> parse_again f (n * 3 div 2) js q)
      | (r, q) \<Rightarrow> (r, n, q))"

declare parse_again.simps [simp del]

text \<open>The rest of an object or array: at each closing bracket of its kind the text so far is parsed.\<close>

fun read_rest :: "byte \<Rightarrow> nat \<Rightarrow> byte list \<Rightarrow> jreader \<Rightarrow> (jr_error + unit) \<times> jreader" where
  "read_rest stop n [] r = (Inl Jr_end_of_file, r)"
| "read_rest stop n (c # s) r =
     (let r = r\<lparr>jr_in := s, jr_buffer := jr_buffer r @ [c]\<rparr>
      in if c \<noteq> stop then read_rest stop n s r
         else case parse_again (length (jr_buffer r)) n (jr_buffer r) (jr_parser r) of
                (Inr k, n, p) \<Rightarrow>
                  if k = 0 then (Inl Jr_parse_failed, r\<lparr>jr_parser := p\<rparr>)
                  else (Inr (), r\<lparr>jr_parser := p\<lparr>jtoks := take k (jtoks p)\<rparr>, jr_pos := Some 0\<rparr>)
              | (Inl e, n, p) \<Rightarrow>
                  if e = Part then read_rest stop n s (r\<lparr>jr_parser := p\<rparr>)
                  else if e = Runaway then (Inl Jr_runaway, r\<lparr>jr_parser := p\<rparr>)
                  else (Inl Jr_parse_failed, r\<lparr>jr_parser := p\<rparr>))"

definition jr_prepare :: "unit jr" where
  "jr_prepare r =
     (if jr_pos r \<noteq> None then (Inr (), r)
      else seqE (\<lambda>r. first_token (jr_in r) r) (\<lambda>_ r.
             case tok_type (jr_tokens r ! 0) of
               Jsmn_object \<Rightarrow> read_rest 125 8 (jr_in r) r
             | Jsmn_array \<Rightarrow> read_rest 93 8 (jr_in r) r
             | Jsmn_string \<Rightarrow> (Inr (), r\<lparr>jr_pos := Some 0, jr_parser := (jr_parser r)\<lparr>jtoks := take 1 (jr_tokens r)\<rparr>\<rparr>)
             | Jsmn_primitive \<Rightarrow> (Inr (), r\<lparr>jr_pos := Some 0, jr_parser := (jr_parser r)\<lparr>jtoks := take 1 (jr_tokens r)\<rparr>\<rparr>)
             | _ \<Rightarrow> (Inl Jr_invalid_context, r))
           (r\<lparr>jr_scopes := [], jr_buffer := [], jr_parser := jsmn_init\<rparr>))"

section \<open>Moving over the tokens\<close>

definition step_in :: "reader_scope_type \<Rightarrow> nat jr" where
  "step_in t =
     seqE jr_next (\<lambda>ntok r.
       if t = Rs_object \<and> tok_type ntok \<noteq> Jsmn_object \<or> t = Rs_array \<and> tok_type ntok \<noteq> Jsmn_array then (Inl Jr_parse_failed, r)
       else let key = jr_keygen r + 1;
                scope = \<lparr>rs_type = t, rs_context = key, rs_token = the (jr_pos r), rs_key_next = False,
                          rs_left = tok_size ntok * (if t = Rs_object then 2 else 1)\<rparr>
            in (Inr key, r\<lparr>jr_scopes := scope # jr_scopes r, jr_keygen := key, jr_pos := map_option Suc (jr_pos r)\<rparr>))"

definition jr_step :: "unit jr" where
  "jr_step r =
     (case jr_scopes r of
        [] \<Rightarrow> (Inr (), r)
      | scope # rest \<Rightarrow>
          seqE jr_next (\<lambda>ntok r.
            if rs_key_next scope \<and> tok_type ntok \<noteq> Jsmn_string then (Inl Jr_invalid_context, r)
            else let i = the (jr_pos r);
                     j = (if tok_type ntok \<in> {Jsmn_object, Jsmn_array} then step_over i r else i + 1);
                     r = r\<lparr>jr_pos := (if j = length (jr_tokens r) then None else Some j),
                           jr_scopes := scope\<lparr>rs_left := rs_left scope - 1\<rparr> # rest\<rparr>
                 in if rs_left scope \<le> 0 then (Inl Jr_invalid_context, r)
                    else (Inr (), r\<lparr>jr_scopes := scope\<lparr>rs_left := rs_left scope - 1, rs_key_next := False\<rparr> # rest\<rparr>)) r)"

text \<open>The scopes above the one with the key are left as well.\<close>

definition step_out :: "nat \<Rightarrow> unit jr" where
  "step_out key r =
     (case dropWhile (\<lambda>s. rs_context s \<noteq> key) (jr_scopes r) of
        [] \<Rightarrow> (Inl Jr_invalid_context, r)
      | scope # rest \<Rightarrow>
          if rs_key_next scope then (Inl Jr_invalid_context, r)
          else let j = token_bound (rs_token scope) (tok_end (jr_tokens r ! rs_token scope)) (jr_tokens r)
               in case rest of
                    [] \<Rightarrow> (Inr (), r\<lparr>jr_pos := None, jr_scopes := []\<rparr>)
                  | s # ss \<Rightarrow> (Inr (), r\<lparr>jr_pos := Some j, jr_scopes := s\<lparr>rs_left := rs_left s - 1, rs_key_next := False\<rparr> # ss\<rparr>))"

section \<open>Reads\<close>

definition jr_null :: "unit jr" where
  "jr_null = seqE jr_prepare (\<lambda>_. jr_step)"

definition jr_bool :: "bool jr" where
  "jr_bool =
     seqE jr_prepare (\<lambda>_. seqE jr_next (\<lambda>ntok. seqE (tokstr ntok) (\<lambda>tok.
       if tok_type ntok \<noteq> Jsmn_primitive then throwE Jr_parse_failed
       else if tok = map of_char ''true'' then seqE jr_step (\<lambda>_. retE True)
       else if tok = map of_char ''false'' then seqE jr_step (\<lambda>_. retE False)
       else throwE Jr_parse_failed)))"

definition is_digit :: "byte \<Rightarrow> bool" where
  "is_digit c \<longleftrightarrow> 48 \<le> unat c \<and> unat c \<le> 57"

definition digits_value :: "byte list \<Rightarrow> int" where
  "digits_value ds = foldl (\<lambda>a c. a * 10 + (int (unat c) - 48)) 0 ds"

text \<open>\<open>std::from_chars\<close> for \<open>int64_t\<close>: the value, unchanged unless a number in range was read, and the end.\<close>

definition from_chars :: "int \<Rightarrow> byte list \<Rightarrow> int \<times> nat" where
  "from_chars v s =
     (let neg = (s \<noteq> [] \<and> hd s = 45); ds = takeWhile is_digit (if neg then tl s else s)
      in if ds = [] then (v, 0)
         else let n = (if neg then - digits_value ds else digits_value ds)
              in (if - (2 ^ 63) \<le> n \<and> n < 2 ^ 63 then n else v, of_bool neg + length ds))"

definition is_scalar :: "jsmntok \<Rightarrow> bool" where
  "is_scalar tok \<longleftrightarrow> tok_type tok = Jsmn_string \<or> tok_type tok = Jsmn_primitive"

definition jr_int :: "int \<Rightarrow> int jr" where
  "jr_int v =
     seqE jr_prepare (\<lambda>_. seqE jr_next (\<lambda>ntok. seqE (tokstr ntok) (\<lambda>tok.
       if \<not> is_scalar ntok \<or> snd (from_chars v tok) \<noteq> length tok then throwE Jr_parse_failed
       else seqE jr_step (\<lambda>_. retE (fst (from_chars v tok))))))"

text \<open>The overload for \<open>uint64_t\<close> of \<open>if_reader\<close>.\<close>

definition jr_uint :: "nat \<Rightarrow> nat jr" where
  "jr_uint v = seqE (jr_int (to_signed 64 (int v))) (\<lambda>i. retE (nat (i mod 2 ^ 64)))"

text \<open>\<open>strtod\<close> reads on behind the token.\<close>

definition jr_double :: "number_parser \<Rightarrow> u64 jr" where
  "jr_double np =
     seqE jr_prepare (\<lambda>_. seqE jr_next (\<lambda>ntok. seqE (tokstr ntok) (\<lambda>tok r.
       if \<not> is_scalar ntok then (Inl Jr_parse_failed, r)
       else case strtod np (drop (nat (tok_start ntok)) (jr_buffer r)) of (v, n) \<Rightarrow>
         if n \<noteq> length tok then (Inl Jr_parse_failed, r) else seqE jr_step (\<lambda>_. retE v) r)))"

definition jr_float :: "number_parser \<Rightarrow> u32 jr" where
  "jr_float np = seqE (jr_double np) (\<lambda>v. retE (narrow np v))"

definition jr_str :: "byte list jr" where
  "jr_str =
     seqE jr_prepare (\<lambda>_. seqE jr_next (\<lambda>ntok. seqE (tokstr ntok) (\<lambda>tok.
       if tok_type ntok \<noteq> Jsmn_string then throwE Jr_parse_failed
       else seqE jr_step (\<lambda>_. retE (json_unescape False tok)))))"

definition jr_elem_left :: "int jr" where
  "jr_elem_left r = (case jr_scopes r of [] \<Rightarrow> (Inl Jr_null_scope, r) | s # _ \<Rightarrow> (Inr (rs_left s), r))"

definition jr_begin_binary :: "nat jr" where
  "jr_begin_binary =
     seqE jr_prepare (\<lambda>_. seqE jr_next (\<lambda>ntok r.
       if tok_type ntok \<noteq> Jsmn_string \<or> (tok_end ntok - tok_start ntok) mod 4 \<noteq> 0 then (Inl Jr_parse_failed, r)
       else let buf = take (nat (tok_end ntok - tok_start ntok)) (drop (nat (tok_start ntok)) (jr_buffer r));
                r = r\<lparr>jr_base64 := (jr_base64 r)\<lparr>src := Some \<lparr>written = [], unread = buf, syncs = 0\<rparr>\<rparr>\<rparr>
            in case decoded_size buf of Inl e \<Rightarrow> (Inl (Jr_oob e), r) | Inr k \<Rightarrow> (Inr k, r)))"

definition jr_binary_read_some :: "nat \<Rightarrow> byte list jr" where
  "jr_binary_read_some n =
     seqE jr_next (\<lambda>ntok r.
       if tok_type ntok \<noteq> Jsmn_string then (Inl Jr_parse_failed, r)
       else case b64_read words_in n (jr_base64 r) of
              Inl e \<Rightarrow> (Inl (Jr_base64 e), r)
            | Inr (bs, b) \<Rightarrow> (Inr bs, r\<lparr>jr_base64 := b\<rparr>))"

definition jr_end_binary :: "unit jr" where
  "jr_end_binary = jr_step"

definition jr_begin_object :: "nat jr" where
  "jr_begin_object = seqE jr_prepare (\<lambda>_. step_in Rs_object)"

definition jr_begin_array :: "nat jr" where
  "jr_begin_array = seqE jr_prepare (\<lambda>_. step_in Rs_array)"

definition jr_should_break :: "nat \<Rightarrow> bool jr" where
  "jr_should_break key r =
     (case jr_scopes r of [] \<Rightarrow> (Inl Jr_null_scope, r)
      | s # _ \<Rightarrow> (Inr (if rs_context s \<noteq> key then False else rs_left s = 0), r))"

definition jr_end_object :: "nat \<Rightarrow> unit jr" where
  "jr_end_object key = step_out key"

definition jr_end_array :: "nat \<Rightarrow> unit jr" where
  "jr_end_array key = step_out key"

definition jr_read_key_next :: "unit jr" where
  "jr_read_key_next r =
     (case jr_scopes r of [] \<Rightarrow> (Inl Jr_null_scope, r)
      | s # ss \<Rightarrow>
          if rs_key_next s then (Inl Jr_invalid_context, r)
          else if rs_type s \<noteq> Rs_object then (Inl Jr_parse_failed, r)
          else (Inr (), r\<lparr>jr_scopes := s\<lparr>rs_key_next := True\<rparr> # ss\<rparr>))"

text \<open>\<open>tok[0]\<close> of a primitive is its first character.\<close>

definition jr_type_next :: "entity_type jr" where
  "jr_type_next =
     seqE jr_prepare (\<lambda>_. seqE jr_next (\<lambda>ntok.
       case tok_type ntok of
         Jsmn_string \<Rightarrow> retE Entity_string
       | Jsmn_primitive \<Rightarrow> seqE (tokstr ntok) (\<lambda>tok.
           if tok = map of_char ''null'' then retE Entity_null
           else if tok \<noteq> [] \<and> (hd tok = of_char CHR ''t'' \<or> hd tok = of_char CHR ''f'') then retE Entity_boolean
           else if list_ex (\<lambda>c. c \<in> set (map of_char ''eE.'')) tok then retE Entity_floating_point
           else retE Entity_integer)
       | Jsmn_array \<Rightarrow> retE Entity_array
       | Jsmn_object \<Rightarrow> retE Entity_object
       | Jsmn_undefined \<Rightarrow> throwE Jr_invalid_context))"

text \<open>The search over the keys of an object; \<open>left\<close> counts them. The two assertions are errors.\<close>

fun key_search :: "nat \<Rightarrow> byte list \<Rightarrow> nat \<Rightarrow> nat \<Rightarrow> (nat \<times> nat) option jr" where
  "key_search parent key 0 cursor r = (Inr None, r)"
| "key_search parent key (Suc left) cursor r =
     (if cursor \<ge> length (jr_tokens r) then (Inl Jr_out_of_range, r)
      else seqE (tokstr (jr_tokens r ! cursor)) (\<lambda>content r.
        if tok_type (jr_tokens r ! cursor) \<noteq> Jsmn_string \<or> tok_parent (jr_tokens r ! cursor) \<noteq> int parent then (Inl Jr_check_failed, r)
        else if content = key then (Inr (Some (cursor + 1, left)), r)
        else key_search parent key left (step_over (cursor + 1) r) r) r)"

definition jr_goto_key :: "byte list \<Rightarrow> bool jr" where
  "jr_goto_key key r =
     (case jr_scopes r of
        [] \<Rightarrow> (Inl Jr_check_failed, r)
      | scope # rest \<Rightarrow>
          if rs_type scope \<noteq> Rs_object then (Inl Jr_check_failed, r)
          else seqE (key_search (rs_token scope) key (nat (tok_size (jr_tokens r ! rs_token scope))) (rs_token scope + 1)) (\<lambda>found r.
            case found of
              None \<Rightarrow> (Inr False, r)
            | Some (j, left) \<Rightarrow>
                (Inr True, r\<lparr>jr_pos := Some j, jr_scopes := scope\<lparr>rs_left := int left * 2 + 1, rs_key_next := False\<rparr> # rest\<rparr>)) r)"

definition jr_jump :: "byte list \<Rightarrow> unit jr" where
  "jr_jump key = seqE (jr_goto_key key) (\<lambda>ok. if ok then retE () else throwE Jr_missing_key)"

end
