(* ===== verification/Json_Roundtrip.thy ===== *)
theory Json_Roundtrip
  imports Json_Tokens Json_Reader
begin

text \<open>
  The JSON writer, the tokenizer and the reader together. The reader fetches the document the writer
  produced, whatever follows it in the stream, and a client that expects a value of the same shape reads
  the value back.
\<close>

section \<open>Fetching a written document\<close>

lemma tokens_below: "toks_wf pos ts \<Longrightarrow> i < length ts \<Longrightarrow> int i \<le> tok_start (ts ! i)"
proof (induction i)
  case (Suc i)
  then have "tok_start (ts ! i) < tok_start (ts ! Suc i)"
    by (auto simp: toks_wf_def sorted_wrt_iff_nth_less)
  with Suc show ?case by simp
qed (simp add: toks_wf_def tok_ok_def)

lemma tokens_le: "jsmn_wf p \<Longrightarrow> length (jtoks p) \<le> jpos p"
proof (cases "jtoks p = []")
  case False
  assume w: "jsmn_wf p"
  let ?i = "length (jtoks p) - 1"
  have "?i < length (jtoks p)" using False by simp
  then have "int ?i \<le> tok_start (jtoks p ! ?i)" "tok_start (jtoks p ! ?i) < int (jpos p)"
    using w tokens_below [of "int (jpos p)" "jtoks p" ?i] by (simp_all add: jsmn_wf_def toks_wf_def tok_ok_def)
  then show ?thesis by linarith
qed simp

lemma parse_again_ok:
  assumes "jsmn_runs (js @ ys) p f" "jsmn_wf p" "jpos f = length (js @ ys)" "jpos p \<le> length js"
    and "jtoks p \<noteq> []" "\<not> list_ex is_open (jtoks f)" "tok_end (jtoks f ! 0) = int (length (js @ ys))"
    and "length js < n + fuel" "2 \<le> n"
  shows "\<exists>n' q. parse_again fuel n js p = (if ys = [] then Inr (length (jtoks f)) else Inl Part, n', q) \<and> 2 \<le> n' \<and> n \<le> n'
    \<and> jsmn_runs (js @ ys) q f \<and> jsmn_wf q \<and> jtoks q \<noteq> [] \<and> jpos q \<le> length js \<and> (if ys = [] then q = f else True)"
  using assms
proof (induction fuel n js p rule: parse_again.induct)
  case (1 fuel n js p)
  obtain r q where rq: "jsmn_parse n js p = (r, q)" by fastforce
  have j: "jsmn_runs (js @ ys) q f" "jsmn_wf q" "jtoks q \<noteq> []" "jpos q \<le> length js"
    and r: "r = Inl Nomem \<and> n \<le> length (jtoks q) \<or> (if ys = [] then r = Inr (length (jtoks f)) \<and> q = f else r = Inl Part)"
    using jsmn_parse_prefix [OF rq "1.prems"(1-7)] by blast+
  show ?case
  proof (cases "r = Inl Nomem")
    case True
    then have "n \<le> length js" using r tokens_le [OF j(2)] j(4) by (auto split: if_splits)
    then obtain g where g: "fuel = Suc g" using "1.prems"(8) by (cases fuel) auto
    have "\<exists>n' q'. parse_again g (n * 3 div 2) js q = (if ys = [] then Inr (length (jtoks f)) else Inl Part, n', q') \<and> 2 \<le> n' \<and> n * 3 div 2 \<le> n'
      \<and> jsmn_runs (js @ ys) q' f \<and> jsmn_wf q' \<and> jtoks q' \<noteq> [] \<and> jpos q' \<le> length js \<and> (if ys = [] then q' = f else True)"
      by (rule "1.IH" [OF rq [symmetric] True refl g]) (use j "1.prems" g in auto)
    moreover have "n \<le> n * 3 div 2" by simp
    ultimately show ?thesis using rq True g by (subst parse_again.simps) (auto intro: order_trans)
  next
    case False
    then show ?thesis using r rq j "1.prems"(9) by (subst parse_again.simps) (auto split: if_splits)
  qed
qed

lemma read_rest_ok:
  assumes "ys \<noteq> []" "last ys = stop" "jr_buffer r = str" "jsmn_runs (str @ ys) (jr_parser r) f" "jsmn_wf (jr_parser r)"
    and "jpos f = length (str @ ys)" "jpos (jr_parser r) \<le> length str" "jtoks (jr_parser r) \<noteq> []"
    and "\<not> list_ex is_open (jtoks f)" "tok_end (jtoks f ! 0) = int (length (str @ ys))" "jtoks f \<noteq> []" "2 \<le> n"
  shows "read_rest stop n (ys @ rest) r = (Inr (), r\<lparr>jr_in := rest, jr_buffer := str @ ys, jr_parser := f, jr_pos := Some 0\<rparr>)"
  using assms
proof (induction ys arbitrary: r str n)
  case (Cons c ys)
  let ?r = "r\<lparr>jr_in := ys @ rest, jr_buffer := str @ [c]\<rparr>"
  show ?case
  proof (cases "c = stop")
    case False
    then have ys: "ys \<noteq> []" using Cons.prems(2) by auto
    have "read_rest stop n (ys @ rest) ?r = (Inr (), ?r\<lparr>jr_in := rest, jr_buffer := (str @ [c]) @ ys, jr_parser := f, jr_pos := Some 0\<rparr>)"
      by (rule Cons.IH) (use Cons.prems ys in auto)
    then show ?thesis using False Cons.prems(3) by simp
  next
    case True
    obtain n' q where q: "parse_again (length (str @ [c])) n (str @ [c]) (jr_parser r) = (if ys = [] then Inr (length (jtoks f)) else Inl Part, n', q)"
      "2 \<le> n'" "jsmn_runs ((str @ [c]) @ ys) q f" "jsmn_wf q" "jtoks q \<noteq> []" "jpos q \<le> length (str @ [c])" "if ys = [] then q = f else True"
      using parse_again_ok [of "str @ [c]" ys "jr_parser r" f n "length (str @ [c])"] Cons.prems by auto
    show ?thesis
    proof (cases "ys = []")
      case last: True
      then have "q = f" using q(7) by simp
      then show ?thesis using q(1) True Cons.prems(3,11) last by simp
    next
      case ys: False
      have "read_rest stop n' (ys @ rest) (?r\<lparr>jr_parser := q\<rparr>)
          = (Inr (), ?r\<lparr>jr_parser := q, jr_in := rest, jr_buffer := (str @ [c]) @ ys, jr_parser := f, jr_pos := Some 0\<rparr>)"
        by (rule Cons.IH) (use Cons.prems ys q in auto)
      then show ?thesis using q(1) True Cons.prems(3) ys by simp
    qed
  qed
qed simp

definition doc_state :: "number_format \<Rightarrow> int \<Rightarrow> val \<Rightarrow> jsmn" where
  "doc_state nf ind v = \<lparr>jpos = length (json_text nf ind 0 v), jtoks = val_toks nf ind 0 0 0 (- 1) v, toksuper = - 1\<rparr>"

lemma doc_runs:
  assumes "json_plain nf v" "container v"
  shows "jsmn_runs (json_text nf ind 0 v) jsmn_init (doc_state nf ind v)"
proof -
  have "jsmn_runs (json_text nf ind 0 v) jsmn_init
    (with_tokens jsmn_init (length (json_text nf ind 0 v)) 1 (val_toks nf ind 0 (jpos jsmn_init) (length (jtoks jsmn_init)) (toksuper jsmn_init) v))"
    by (rule runs_vals(1)) (use assms in \<open>simp_all add: jsmn_init_def here_def takes_value_def super_ok_def\<close>)
  then show ?thesis by (simp add: with_tokens_def jsmn_init_def doc_state_def bump_def)
qed

lemma doc_closed: "\<not> list_ex is_open (jtoks (doc_state nf ind v))"
  using kin_toks(1) [of "- 1" 0 nf ind 0 0 v]
  by (auto simp: doc_state_def kin_def list_ex_iff in_set_conv_nth is_open_def)

text \<open>The brackets of a container.\<close>

definition brackets :: "val \<Rightarrow> byte \<times> byte \<times> jsmntype" where
  "brackets v = (case v of VMap _ \<Rightarrow> (123, 125, Jsmn_object) | _ \<Rightarrow> (91, 93, Jsmn_array))"

lemma container_text:
  assumes "container v" "brackets v = (b, c, ty)"
  obtains inner where "json_text nf ind d v = b # inner" "inner \<noteq> []" "last inner = c"
    "b = 123 \<and> c = 125 \<and> ty = Jsmn_object \<or> b = 91 \<and> c = 93 \<and> ty = Jsmn_array"
  using assms by (cases v) (auto simp: brackets_def)

lemma jsmn_loop_end: "jpos p = length js \<Longrightarrow> jsmn_loop n js k p = (Inr k, p)"
  by (simp add: jsmn_loop.simps)

lemma first_bracket:
  assumes "b = 123 \<and> ty = Jsmn_object \<or> b = 91 \<and> ty = Jsmn_array"
  shows "jsmn_step 8 [b] jsmn_init = Inr \<lparr>jpos = 1, jtoks = [new_tok ty 0 (- 1) (- 1)], toksuper = 0\<rparr>"
    and "jsmn_parse 8 [b] jsmn_init = (Inl Part, \<lparr>jpos = 1, jtoks = [new_tok ty 0 (- 1) (- 1)], toksuper = 0\<rparr>)"
proof -
  have o: "open_token 8 ty jsmn_init = Inr \<lparr>jpos = 0, jtoks = [new_tok ty 0 (- 1) (- 1)], toksuper = 0\<rparr>"
    by (subst open_token_eq) (simp_all add: jsmn_init_def grow_super_def)
  show s: "jsmn_step 8 [b] jsmn_init = Inr \<lparr>jpos = 1, jtoks = [new_tok ty 0 (- 1) (- 1)], toksuper = 0\<rparr>"
    using assms o by (auto simp: jsmn_step_def jsmn_char_def jsmn_init_def)
  have "jsmn_loop 8 [b] 0 jsmn_init = (Inr (of_bool (counted b)), \<lparr>jpos = 1, jtoks = [new_tok ty 0 (- 1) (- 1)], toksuper = 0\<rparr>)"
    using assms s unfolding jsmn_loop.simps [of 8 "[b]" 0 jsmn_init]
    by (auto simp: jsmn_init_def jsmn_loop_end)
  then show "jsmn_parse 8 [b] jsmn_init = (Inl Part, \<lparr>jpos = 1, jtoks = [new_tok ty 0 (- 1) (- 1)], toksuper = 0\<rparr>)"
    by (simp add: jsmn_parse_def is_open_def jsmn_init_def)
qed

lemma document_fetched:
  assumes "json_plain nf v" "container v" "jr_in r = json_text nf ind 0 v @ rest" "jr_pos r = None"
  shows "jr_prepare r = (Inr (), r\<lparr>jr_in := rest, jr_buffer := json_text nf ind 0 v, jr_parser := doc_state nf ind v, jr_pos := Some 0, jr_scopes := []\<rparr>)"
proof -
  let ?t = "json_text nf ind 0 v" and ?f = "doc_state nf ind v"
  obtain b c ty where bc: "brackets v = (b, c, ty)" by (cases "brackets v") auto
  obtain inner where t: "?t = b # inner" "inner \<noteq> []" "last inner = c"
    and b: "b = 123 \<and> c = 125 \<and> ty = Jsmn_object \<or> b = 91 \<and> c = 93 \<and> ty = Jsmn_array"
    using container_text [OF assms(2) bc] by metis
  let ?q = "\<lparr>jpos = 1, jtoks = [new_tok ty 0 (- 1) (- 1)], toksuper = 0\<rparr> :: jsmn"
  have b': "b = 123 \<and> ty = Jsmn_object \<or> b = 91 \<and> ty = Jsmn_array" using b by auto
  have f: "jpos ?f = length ?t" "jtoks ?f \<noteq> []" "tok_end (jtoks ?f ! 0) = int (length ?t)"
    using assms(2) by (cases v; simp add: doc_state_def)+
  have s8: "jsmn_step 8 (b # inner) jsmn_init = Inr ?q"
    using jsmn_step_append [of jsmn_init "[b]" 8 inner] first_bracket(1) [OF b'] by (simp add: jsmn_init_def)
  have step1: "p' = ?q" if "jsmn_next ?t jsmn_init p'" for p'
    using jsmn_next_step [OF that refl, of 8] unfolding t(1) s8 by simp
  have "jsmn_init \<noteq> ?f" using f(2) by (metis jsmn.select_convs(2) jsmn_init_def)
  then obtain p' where "jsmn_next ?t jsmn_init p'" "jsmn_runs ?t p' ?f"
    using doc_runs [OF assms(1,2), of ind] by (blast elim: converse_rtranclpE)
  then have runs: "jsmn_runs ?t ?q ?f" using step1 by blast
  have wf: "jsmn_wf ?q"
    by (rule jsmn_step_wf [OF first_bracket(1) [OF b'] jsmn_init_wf, THEN conjunct1]) (simp add: jsmn_init_def)
  let ?r0 = "r\<lparr>jr_scopes := [], jr_buffer := [], jr_parser := jsmn_init\<rparr>"
  let ?r1 = "?r0\<lparr>jr_in := inner @ rest, jr_buffer := [b], jr_parser := ?q\<rparr>"
  have ft: "first_token (jr_in ?r0) ?r0 = (Inr (), ?r1)"
    using assms(3) t(1) first_bracket(2) [OF b']
    by (subst first_token.simps) (simp add: jsmn_init_def first_token.simps)
  have "read_rest c 8 (inner @ rest) ?r1 = (Inr (), ?r1\<lparr>jr_in := rest, jr_buffer := [b] @ inner, jr_parser := ?f, jr_pos := Some 0\<rparr>)"
    by (rule read_rest_ok [where str = "[b]" and f = ?f])
      (use t(2,3) f(2) f(1,3) [unfolded t(1)] runs [unfolded t(1)] wf doc_closed in simp_all)
  then have rr: "read_rest c 8 (jr_in ?r1) ?r1 = (Inr (), ?r1\<lparr>jr_in := rest, jr_buffer := b # inner, jr_parser := ?f, jr_pos := Some 0\<rparr>)"
    by simp
  have ty: "tok_type (jr_tokens ?r1 ! 0) = ty" by simp
  have "jr_prepare r = read_rest c 8 (jr_in ?r1) ?r1"
    unfolding jr_prepare_def seqE_def ft using assms(4) b ty by (elim disjE) simp_all
  then show ?thesis unfolding rr t(1) by simp
qed

section \<open>The reading client\<close>

text \<open>As for MessagePack, the client knows the shape of the value.\<close>

fun jread_val :: "number_parser \<Rightarrow> val \<Rightarrow> val jr"
  and jread_vals :: "number_parser \<Rightarrow> val list \<Rightarrow> val list jr"
  and jread_entries :: "number_parser \<Rightarrow> (byte list \<times> val) list \<Rightarrow> (byte list \<times> val) list jr"
where
  "jread_val np VNil = seqE jr_null (\<lambda>_. retE VNil)"
| "jread_val np (VBool _) = seqE jr_bool (\<lambda>b. retE (VBool b))"
| "jread_val np (VInt _) = seqE (jr_int 0) (\<lambda>i. retE (VInt i))"
| "jread_val np (VUint _) = seqE (jr_uint 0) (\<lambda>n. retE (VUint n))"
| "jread_val np (VFloat _) = seqE (jr_float np) (\<lambda>f. retE (VFloat f))"
| "jread_val np (VDouble _) = seqE (jr_double np) (\<lambda>x. retE (VDouble x))"
| "jread_val np (VStr _) = seqE jr_str (\<lambda>s. retE (VStr s))"
| "jread_val np (VBin _) =
     seqE jr_begin_binary (\<lambda>n. seqE (jr_binary_read_some n) (\<lambda>b. seqE jr_end_binary (\<lambda>_. retE (VBin b))))"
| "jread_val np (VArr vs) =
     seqE jr_begin_array (\<lambda>key. seqE (jread_vals np vs) (\<lambda>xs. seqE (jr_end_array key) (\<lambda>_. retE (VArr xs))))"
| "jread_val np (VMap es) =
     seqE jr_begin_object (\<lambda>key. seqE (jread_entries np es) (\<lambda>xs. seqE (jr_end_object key) (\<lambda>_. retE (VMap xs))))"
| "jread_vals np [] = retE []"
| "jread_vals np (v # vs) = seqE (jread_val np v) (\<lambda>x. seqE (jread_vals np vs) (\<lambda>xs. retE (x # xs)))"
| "jread_entries np [] = retE []"
| "jread_entries np ((k, v) # es) =
     seqE jr_read_key_next (\<lambda>_. seqE jr_str (\<lambda>x. seqE (jread_val np v) (\<lambda>y.
     seqE (jread_entries np es) (\<lambda>xs. retE ((x, y) # xs)))))"

text \<open>A double comes back when what is printed for it is a JSON number that \<open>strtod\<close> reads as that double.\<close>

definition prints_back :: "number_format \<Rightarrow> number_parser \<Rightarrow> u64 \<Rightarrow> bool" where
  "prints_back nf np x \<longleftrightarrow> \<not> not_finite x \<and> length (print_double nf x) \<le> 31 \<and> prim_text (print_double nf x)
     \<and> (\<forall>c rest. delimiter c \<longrightarrow> strtod np (print_double nf x @ c # rest) = (x, length (print_double nf x)))"

fun json_rt :: "number_format \<Rightarrow> number_parser \<Rightarrow> val \<Rightarrow> bool" where
  "json_rt nf np (VInt i) \<longleftrightarrow> - (2 ^ 63) \<le> i \<and> i < 2 ^ 63"
| "json_rt nf np (VUint n) \<longleftrightarrow> n < 2 ^ 64"
| "json_rt nf np (VFloat f) \<longleftrightarrow> prints_back nf np (widen nf f) \<and> narrow np (widen nf f) = f"
| "json_rt nf np (VDouble x) \<longleftrightarrow> prints_back nf np x"
| "json_rt nf np (VStr s) \<longleftrightarrow> string_ok s"
| "json_rt nf np (VBin b) \<longleftrightarrow> b \<noteq> [] \<and> length b < 2 ^ 64"
| "json_rt nf np (VArr vs) \<longleftrightarrow> length vs < 2 ^ 64 \<and> list_all (json_rt nf np) vs"
| "json_rt nf np (VMap es) \<longleftrightarrow> length es < 2 ^ 63 \<and> list_all (\<lambda>(k, v). string_ok k \<and> json_rt nf np v) es"
| "json_rt nf np _ \<longleftrightarrow> True"

lemma json_rt_writes: "json_rt nf np v \<Longrightarrow> json_plain nf v \<and> json_ok nf v"
  by (induction nf np v rule: json_rt.induct) (auto simp: prints_back_def list_all_iff)

section \<open>Numbers\<close>

lemma digits_value_append: "digits_value (a @ [c]) = digits_value a * 10 + (int (unat c) - 48)"
  by (simp add: digits_value_def)

lemma unat_digit: "n < 10 \<Longrightarrow> unat (of_nat (48 + n) :: byte) = 48 + n"
  by (simp only: unat_of_nat) simp

lemma digits_value_dec: "digits_value (dec_nat n) = int n"
proof (induction n rule: dec_nat.induct)
  case (1 n)
  show ?case
  proof (cases "n < 10")
    case True
    have "digits_value (dec_nat n) = 0 * 10 + (int (48 + n) - 48)"
      unfolding dec_nat.simps [of n] digits_value_def by (simp only: True if_True foldl.simps unat_digit [OF True])
    then show ?thesis by simp
  next
    case False
    have "unat (of_nat (48 + n mod 10) :: byte) = 48 + n mod 10" by (rule unat_digit) simp
    then have "digits_value (dec_nat n) = int (n div 10) * 10 + int (n mod 10)"
      using 1 False unfolding dec_nat.simps [of n] by (simp add: digits_value_append del: of_nat_add)
    then show ?thesis by (metis div_mult_mod_eq of_nat_add of_nat_mult of_nat_numeral)
  qed
qed

lemma takeWhile_digits: "takeWhile is_digit (dec_nat n) = dec_nat n"
  using dec_nat_digits [of n] by (simp add: takeWhile_eq_all_conv is_digit_def list_all_iff)

lemma from_to_chars:
  assumes "- (2 ^ 63) \<le> i" "i < 2 ^ 63"
  shows "from_chars v (to_chars i) = (i, length (to_chars i))"
proof -
  have ne: "dec_nat n \<noteq> []" for n using dec_nat_digits by blast
  have hd: "hd (dec_nat n) \<noteq> 45" for n
  proof -
    have "hd (dec_nat n) \<in> set (dec_nat n)" using ne by simp
    then have "48 \<le> unat (hd (dec_nat n))" using dec_nat_digits [of n] by (simp add: list_all_iff)
    then show ?thesis by auto
  qed
  show ?thesis
    using assms ne hd by (simp add: from_chars_def to_chars_def takeWhile_digits digits_value_dec Let_def)
qed

lemma to_signed_u64:
  assumes "n < 2 ^ 64"
  shows "- (2 ^ 63) \<le> to_signed 64 (int n)" "to_signed 64 (int n) < 2 ^ 63" "nat (to_signed 64 (int n) mod 2 ^ 64) = n"
proof -
  have m: "int n mod 2 ^ 64 = int n" using assms by (intro mod_pos_pos_trivial) auto
  show "- (2 ^ 63) \<le> to_signed 64 (int n)" "to_signed 64 (int n) < 2 ^ 63" using assms by (auto simp: to_signed_def Let_def m)
  have "to_signed 64 (int n) mod 2 ^ 64 = int n mod 2 ^ 64" by (simp add: to_signed_def Let_def)
  then show "nat (to_signed 64 (int n) mod 2 ^ 64) = n" using m by simp
qed

section \<open>Reads at a token\<close>

definition placed :: "jsmntok list \<Rightarrow> byte list \<Rightarrow> nat \<Rightarrow> jreader \<Rightarrow> bool" where
  "placed T B j r \<longleftrightarrow> jr_tokens r = T \<and> jr_buffer r = B \<and> gets (jr_base64 r) = []
     \<and> (jr_pos r = Some j \<or> jr_pos r = None \<and> j = length T)"

definition jreads :: "'a jr \<Rightarrow> jsmntok list \<Rightarrow> byte list \<Rightarrow> nat \<Rightarrow> jr_scope list \<Rightarrow> 'a \<Rightarrow> nat \<Rightarrow> jr_scope list \<Rightarrow> bool" where
  "jreads m T B j ss x j' ss' \<longleftrightarrow> (\<forall>r. placed T B j r \<and> jr_scopes r = ss \<longrightarrow>
     (\<exists>r'. m r = (Inr x, r') \<and> placed T B j' r' \<and> jr_scopes r' = ss' \<and> jr_in r' = jr_in r))"

lemma jreadsI:
  "(\<And>r. placed T B j r \<Longrightarrow> jr_scopes r = ss \<Longrightarrow> \<exists>r'. m r = (Inr x, r') \<and> placed T B j' r' \<and> jr_scopes r' = ss' \<and> jr_in r' = jr_in r)
   \<Longrightarrow> jreads m T B j ss x j' ss'"
  unfolding jreads_def by blast

lemma jreads_seqE:
  assumes "jreads m T B j ss x j1 ss1" "jreads (f x) T B j1 ss1 y j2 ss2"
  shows "jreads (seqE m f) T B j ss y j2 ss2"
proof (rule jreadsI)
  fix r :: jreader assume "placed T B j r" "jr_scopes r = ss"
  then obtain r1 where 1: "m r = (Inr x, r1)" "placed T B j1 r1" "jr_scopes r1 = ss1" "jr_in r1 = jr_in r"
    using assms(1) unfolding jreads_def by blast
  then obtain r2 where "f x r1 = (Inr y, r2)" "placed T B j2 r2" "jr_scopes r2 = ss2" "jr_in r2 = jr_in r1"
    using assms(2) unfolding jreads_def by blast
  with 1 show "\<exists>r'. seqE m f r = (Inr y, r') \<and> placed T B j2 r' \<and> jr_scopes r' = ss2 \<and> jr_in r' = jr_in r"
    by (simp add: seqE_Inr)
qed

lemma jreads_ret: "jreads (retE x) T B j ss x j ss"
  by (rule jreadsI) (simp add: retE_def)

lemma jreads_map: "jreads m T B j ss x j' ss' \<Longrightarrow> jreads (seqE m (\<lambda>x. retE (f x))) T B j ss (f x) j' ss'"
  by (rule jreads_seqE [OF _ jreads_ret])

text \<open>The token \<open>j\<close> is of type \<open>ty\<close> and covers the text \<open>bs\<close>.\<close>

definition tok_text :: "jsmntok list \<Rightarrow> byte list \<Rightarrow> nat \<Rightarrow> jsmntype \<Rightarrow> nat \<Rightarrow> byte list \<Rightarrow> bool" where
  "tok_text T B j ty p bs \<longleftrightarrow> j < length T \<and> tok_type (T ! j) = ty \<and> tok_start (T ! j) = int p
     \<and> tok_end (T ! j) = int (p + length bs) \<and> here B p bs"

lemma placed_pos: "placed T B j r \<Longrightarrow> j < length T \<Longrightarrow> jr_pos r = Some j \<and> jr_tokens r = T \<and> jr_buffer r = B"
  by (auto simp: placed_def)

lemma prepare_placed: "placed T B j r \<Longrightarrow> j < length T \<Longrightarrow> seqE jr_prepare f r = f () r"
  using placed_pos [of T B j r] by (simp add: seqE_def jr_prepare_def)

lemma next_placed: "placed T B j r \<Longrightarrow> j < length T \<Longrightarrow> seqE jr_next f r = f (T ! j) r"
  using placed_pos [of T B j r] by (simp add: seqE_def jr_next_def)

lemma tokstr_at:
  assumes "tok_text T B j ty p bs" "jr_buffer r = B"
  shows "tokstr (T ! j) r = (Inr bs, r)"
proof -
  have "nat (int p + int (length bs)) - nat (int p) = length bs" "nat (int p) = p" by linarith+
  then show ?thesis using assms by (simp add: tokstr_def tok_text_def here_def Let_def)
qed

lemma tokstr_placed: "placed T B j r \<Longrightarrow> tok_text T B j ty p bs \<Longrightarrow> seqE (tokstr (T ! j)) f r = f bs r"
  using placed_pos [of T B j r] by (auto simp: seqE_def tokstr_def tok_text_def here_def Let_def)

lemma scalar_placed:
  assumes "placed T B j r" "tok_text T B j ty p bs"
  shows "seqE jr_prepare (\<lambda>_. seqE jr_next (\<lambda>ntok. seqE (tokstr ntok) (\<lambda>tok. f ntok tok))) r = f (T ! j) bs r"
proof -
  have j: "j < length T" using assms(2) by (simp add: tok_text_def)
  show ?thesis
    by (simp add: prepare_placed [OF assms(1) j] next_placed [OF assms(1) j] tokstr_placed [OF assms])
qed

definition after_read :: "jr_scope list \<Rightarrow> jr_scope list" where
  "after_read ss = (case ss of [] \<Rightarrow> [] | s # ss \<Rightarrow> s\<lparr>rs_left := rs_left s - 1, rs_key_next := False\<rparr> # ss)"

text \<open>The scope expects one more entry, a key or a value.\<close>

definition expects :: "bool \<Rightarrow> jr_scope list \<Rightarrow> bool" where
  "expects key ss \<longleftrightarrow> (case ss of [] \<Rightarrow> False | s # _ \<Rightarrow> rs_left s > 0 \<and> rs_key_next s = key)"

lemma step_placed:
  assumes "placed T B j r" "tok_text T B j ty p bs" "expects key (jr_scopes r)" "ty = Jsmn_string \<or> ty = Jsmn_primitive \<and> \<not> key"
  shows "\<exists>r'. jr_step r = (Inr (), r') \<and> placed T B (j + 1) r' \<and> jr_scopes r' = after_read (jr_scopes r) \<and> jr_in r' = jr_in r"
proof -
  have j: "j < length T" using assms(2) by (simp add: tok_text_def)
  obtain s ss where ss: "jr_scopes r = s # ss" "rs_left s > 0" "rs_key_next s = key"
    using assms(3) by (auto simp: expects_def split: list.splits)
  have ty: "tok_type (T ! j) = ty" using assms(2) by (simp add: tok_text_def)
  have "jr_step r = (Inr (), r\<lparr>jr_pos := (if j + 1 = length T then None else Some (j + 1)),
      jr_scopes := s\<lparr>rs_left := rs_left s - 1, rs_key_next := False\<rparr> # ss\<rparr>)"
    using ss ty assms(4) placed_pos [OF assms(1) j] by (auto simp: jr_step_def next_placed [OF assms(1) j] Let_def)
  then show ?thesis using assms(1) ss j by (auto simp: placed_def after_read_def)
qed

lemma jreads_scalar:
  assumes "tok_text T B j ty p bs" "expects key ss" "ty = Jsmn_string \<or> ty = Jsmn_primitive \<and> \<not> key"
    and "\<And>r. placed T B j r \<Longrightarrow> jr_scopes r = ss \<Longrightarrow> m r = seqE jr_step (\<lambda>_. retE x) r"
  shows "jreads m T B j ss x (j + 1) (after_read ss)"
proof (rule jreadsI)
  fix r :: jreader assume r: "placed T B j r" "jr_scopes r = ss"
  obtain r' where "jr_step r = (Inr (), r')" "placed T B (j + 1) r'" "jr_scopes r' = after_read ss" "jr_in r' = jr_in r"
    using step_placed [OF r(1) assms(1) _ assms(3)] assms(2) r(2) by auto
  then show "\<exists>r'. m r = (Inr x, r') \<and> placed T B (j + 1) r' \<and> jr_scopes r' = after_read ss \<and> jr_in r' = jr_in r"
    using assms(4) [OF r] by (simp add: seqE_def retE_def)
qed

lemma jreads_null:
  assumes "tok_text T B j Jsmn_primitive p bs" "expects False ss"
  shows "jreads jr_null T B j ss () (j + 1) (after_read ss)"
proof (rule jreads_scalar [OF assms])
  fix r :: jreader assume r: "placed T B j r"
  have "seqE jr_step (\<lambda>_. retE ()) r = jr_step r" by (simp add: seqE_def retE_def split: prod.split sum.split)
  then show "jr_null r = seqE jr_step (\<lambda>_. retE ()) r"
    using prepare_placed [OF r, of "\<lambda>_. jr_step"] assms(1) by (simp add: jr_null_def tok_text_def)
qed simp

lemma jreads_bool:
  assumes "tok_text T B j Jsmn_primitive p (ascii (if b then ''true'' else ''false''))" "expects False ss"
  shows "jreads jr_bool T B j ss b (j + 1) (after_read ss)"
proof (rule jreads_scalar [OF assms])
  fix r :: jreader assume r: "placed T B j r"
  show "jr_bool r = seqE jr_step (\<lambda>_. retE b) r"
    unfolding jr_bool_def scalar_placed [OF r assms(1)] using assms(1) by (simp add: tok_text_def ascii_def)
qed simp

lemma jreads_int:
  assumes "tok_text T B j Jsmn_primitive p (to_chars i)" "expects False ss" "- (2 ^ 63) \<le> i" "i < 2 ^ 63"
  shows "jreads (jr_int v) T B j ss i (j + 1) (after_read ss)"
proof (rule jreads_scalar [OF assms(1,2)])
  fix r :: jreader assume r: "placed T B j r"
  show "jr_int v r = seqE jr_step (\<lambda>_. retE i) r"
    unfolding jr_int_def scalar_placed [OF r assms(1)] from_to_chars [OF assms(3,4)]
    using assms(1) by (simp add: tok_text_def is_scalar_def)
qed simp

lemma jreads_uint:
  assumes "tok_text T B j Jsmn_primitive p (to_chars (to_signed 64 (int n)))" "expects False ss" "n < 2 ^ 64"
  shows "jreads (jr_uint v) T B j ss n (j + 1) (after_read ss)"
  unfolding jr_uint_def
  using jreads_map [OF jreads_int [OF assms(1,2) to_signed_u64(1,2) [OF assms(3)]], of _ "\<lambda>i. nat (i mod 2 ^ 64)"]
  unfolding to_signed_u64(3) [OF assms(3)] .

lemma jreads_double:
  assumes "tok_text T B j Jsmn_primitive p (print_double nf x)" "expects False ss" "prints_back nf np x" "ended B (p + length (print_double nf x))"
  shows "jreads (jr_double np) T B j ss x (j + 1) (after_read ss)"
proof (rule jreads_scalar [OF assms(1,2)])
  fix r :: jreader assume r: "placed T B j r"
  let ?bs = "print_double nf x"
  have "here B p (?bs @ [B ! (p + length ?bs)])" using assms(1,4) by (simp add: tok_text_def ended_def)
  from drop_here [OF this] have "strtod np (drop p B) = (x, length ?bs)"
    using assms(3,4) by (simp add: prints_back_def ended_def)
  moreover have "jr_buffer r = B" using r by (simp add: placed_def)
  ultimately show "jr_double np r = seqE jr_step (\<lambda>_. retE x) r"
    unfolding jr_double_def scalar_placed [OF r assms(1)] using assms(1) by (simp add: tok_text_def is_scalar_def)
qed simp

lemma jreads_str:
  assumes "tok_text T B j Jsmn_string p (escaped s)" "expects key ss" "string_ok s"
  shows "jreads jr_str T B j ss s (j + 1) (after_read ss)"
proof (rule jreads_scalar [OF assms(1,2)])
  fix r :: jreader assume r: "placed T B j r"
  obtain t where t: "json_escape s = Some t" "json_unescape False t = concat (map (\<lambda>c. if coded c then [0, c] else [c]) s)"
    using escape_all [of s] by blast
  have "concat (map (\<lambda>c. if coded c then [0, c] else [c]) s) = s"
    using assms(3) by (induction s) (simp_all add: string_ok_def)
  then have "json_unescape False (escaped s) = s" using t by (simp add: escaped_def)
  then show "jr_str r = seqE jr_step (\<lambda>_. retE s) r"
    unfolding jr_str_def scalar_placed [OF r assms(1)] using assms(1) by (simp add: tok_text_def)
qed simp

lemma jreads_bin:
  assumes "tok_text T B j Jsmn_string p (b64_ref b)" "expects False ss" "b \<noteq> []"
  shows "jreads (seqE jr_begin_binary (\<lambda>n. seqE (jr_binary_read_some n) (\<lambda>b. seqE jr_end_binary (\<lambda>_. retE (VBin b)))))
    T B j ss (VBin b) (j + 1) (after_read ss)"
proof (rule jreadsI)
  fix r :: jreader assume r: "placed T B j r" "jr_scopes r = ss"
  have j: "j < length T" using assms(1) by (simp add: tok_text_def)
  let ?buf = "take (nat (tok_end (T ! j) - tok_start (T ! j))) (drop (nat (tok_start (T ! j))) (jr_buffer r))"
  let ?r = "r\<lparr>jr_base64 := (jr_base64 r)\<lparr>src := Some \<lparr>written = [], unread = b64_ref b, syncs = 0\<rparr>\<rparr>\<rparr>"
  have buf: "?buf = b64_ref b" using assms(1) r(1) by (simp add: tok_text_def here_def placed_def)
  have len: "(tok_end (T ! j) - tok_start (T ! j)) mod 4 = 0"
    using assms(1) by (simp add: tok_text_def length_b64_ref encoded_size_def)
  have "decoded_size (b64_ref b) = Inr (length b)" by (rule decoded_size_ref [OF assms(3)])
  then have 1: "seqE jr_begin_binary f r = f (length b) ?r" for f :: "nat \<Rightarrow> 'a jr"
    unfolding jr_begin_binary_def seqE_assoc
    unfolding prepare_placed [OF r(1) j] next_placed [OF r(1) j]
    using assms(1) len buf by (simp add: seqE_def tok_text_def Let_def)
  have r': "placed T B j ?r" "jr_scopes ?r = ss" using r by (simp_all add: placed_def)
  have "holds words_in b (jr_base64 ?r)" using r(1) by (simp add: holds_def placed_def)
  from b64_read_ok [OF this, of "length b"] obtain b' where b': "b64_read words_in (length b) (jr_base64 ?r) = Inr (b, b')" "holds words_in [] b'"
    by auto
  let ?r2 = "?r\<lparr>jr_base64 := b'\<rparr>"
  have 2: "seqE (jr_binary_read_some (length b)) f ?r = f b ?r2" for f :: "byte list \<Rightarrow> 'a jr"
    unfolding jr_binary_read_some_def seqE_assoc
    unfolding next_placed [OF r'(1) j] using assms(1) b'(1) by (simp add: seqE_def tok_text_def)
  have r2: "placed T B j ?r2" "jr_scopes ?r2 = ss" using r b'(2) by (auto simp: placed_def holds_def)
  obtain r3 where "jr_step ?r2 = (Inr (), r3)" "placed T B (j + 1) r3" "jr_scopes r3 = after_read ss" "jr_in r3 = jr_in ?r2"
    using step_placed [OF r2(1) assms(1), of False] assms(2) r2(2) by auto
  then show "\<exists>r'. seqE jr_begin_binary (\<lambda>n. seqE (jr_binary_read_some n) (\<lambda>b. seqE jr_end_binary (\<lambda>_. retE (VBin b)))) r = (Inr (VBin b), r')
      \<and> placed T B (j + 1) r' \<and> jr_scopes r' = after_read ss \<and> jr_in r' = jr_in r"
    unfolding 1 2 by (simp add: jr_end_binary_def seqE_def retE_def)
qed

section \<open>Containers\<close>

definition scope_for :: "jsmntype \<Rightarrow> nat \<Rightarrow> nat \<Rightarrow> int \<Rightarrow> jr_scope" where
  "scope_for ty key j n = \<lparr>rs_type = (if ty = Jsmn_object then Rs_object else Rs_array), rs_context = key, rs_token = j,
     rs_key_next = False, rs_left = n\<rparr>"

lemma token_bound_at:
  assumes "T = A @ t # inner @ C" "length A = j" "list_all (\<lambda>t. tok_start t < e) (t # inner)" "list_all (\<lambda>t. e \<le> tok_start t) C"
  shows "token_bound j e T = j + 1 + length inner"
proof -
  have "takeWhile (\<lambda>t. tok_start t < e) (t # inner @ C) = t # inner"
  proof -
    have "takeWhile (\<lambda>t. tok_start t < e) ((t # inner) @ C) = (t # inner) @ takeWhile (\<lambda>t. tok_start t < e) C"
      by (rule takeWhile_append2) (use assms(3) in \<open>auto simp: list_all_iff\<close>)
    moreover have "takeWhile (\<lambda>t. tok_start t < e) C = []" using assms(4) by (cases C) auto
    ultimately show ?thesis by simp
  qed
  then show ?thesis using assms(1,2) by (simp add: token_bound_def)
qed

lemma jreads_container:
  assumes T: "T = A @ t # inner @ C" "length A = j" and ty: "tok_type t = ty"
    and n: "ty = Jsmn_object \<and> begin = jr_begin_object \<and> cend = jr_end_object \<and> n = tok_size t * 2
      \<or> ty = Jsmn_array \<and> begin = jr_begin_array \<and> cend = jr_end_array \<and> n = tok_size t"
    and e: "list_all (\<lambda>u. tok_start u < tok_end t) (t # inner)" "list_all (\<lambda>u. tok_end t \<le> tok_start u) C"
    and ss: "ss = [] \<and> C = [] \<or> expects False ss"
    and m: "\<And>key. jreads m T B (j + 1) (scope_for ty key j n # ss) x (j + 1 + length inner) (scope_for ty key j 0 # ss)"
  shows "jreads (seqE begin (\<lambda>key. seqE m (\<lambda>x. seqE (cend key) (\<lambda>_. retE (f x))))) T B j ss (f x) (j + 1 + length inner) (after_read ss)"
proof (rule jreadsI)
  fix r :: jreader assume r: "placed T B j r" "jr_scopes r = ss"
  have j: "j < length T" "T ! j = t" using T by auto
  let ?key = "jr_keygen r + 1"
  let ?r1 = "r\<lparr>jr_scopes := scope_for ty ?key j n # ss, jr_keygen := ?key, jr_pos := Some (Suc j)\<rparr>"
  have pos: "jr_pos r = Some j" using placed_pos [OF r(1) j(1)] by simp
  have 1: "begin r = (Inr ?key, ?r1)"
    using n ty r(2) pos j(2)
    by (auto simp: jr_begin_object_def jr_begin_array_def prepare_placed [OF r(1) j(1)] step_in_def next_placed [OF r(1) j(1)] scope_for_def Let_def)
  have "placed T B (j + 1) ?r1" using r(1) by (simp add: placed_def)
  then obtain r2 where 2: "m ?r1 = (Inr x, r2)" "placed T B (j + 1 + length inner) r2" "jr_scopes r2 = scope_for ty ?key j 0 # ss" "jr_in r2 = jr_in r"
    using m [of ?key] unfolding jreads_def by force
  have b: "token_bound j (tok_end (jr_tokens r2 ! j)) (jr_tokens r2) = j + 1 + length inner"
    using token_bound_at [OF T e] 2(2) j(2) by (simp add: placed_def)
  have 3: "cend ?key r2 = (Inr (), r2\<lparr>jr_pos := (if ss = [] then None else Some (j + 1 + length inner)), jr_scopes := after_read ss\<rparr>)"
    using n 2(3) b by (auto simp: jr_end_object_def jr_end_array_def step_out_def scope_for_def after_read_def split: list.split)
  have "placed T B (j + 1 + length inner) (r2\<lparr>jr_pos := (if ss = [] then None else Some (j + 1 + length inner)), jr_scopes := after_read ss\<rparr>)"
    using 2(2) ss T by (auto simp: placed_def expects_def)
  then show "\<exists>r'. seqE begin (\<lambda>key. seqE m (\<lambda>x. seqE (cend key) (\<lambda>_. retE (f x)))) r = (Inr (f x), r')
      \<and> placed T B (j + 1 + length inner) r' \<and> jr_scopes r' = after_read ss \<and> jr_in r' = jr_in r"
    using 1 2 3 by (simp add: seqE_def retE_def)
qed

section \<open>Reading a value\<close>

lemma tok_starts:
  "json_plain nf v \<Longrightarrow> list_all (\<lambda>t. int p \<le> tok_start t \<and> tok_start t < int (p + length (json_text nf ind d v))) (val_toks nf ind d p i par v)"
  "list_all (json_plain nf) vs \<Longrightarrow>
     list_all (\<lambda>t. int p \<le> tok_start t \<and> tok_start t < int (p + length (items_text nf ind d cm vs))) (items_toks nf ind d p i par cm vs)"
  "list_all (\<lambda>(k, v). json_plain nf v) es \<Longrightarrow>
     list_all (\<lambda>t. int p \<le> tok_start t \<and> tok_start t < int (p + length (entries_text nf ind d cm es))) (entries_toks nf ind d p i par cm es)"
proof (induction nf ind d v and nf ind d cm vs and nf ind d cm es arbitrary: p i par and p i par and p i par rule: json_text_items_text_entries_text.induct)
  case (9 nf ind d vs)
  then show ?case using "9.IH" [of "p + 1" "i + 1" "int i"] by (auto simp: list_all_iff)
next
  case (10 nf ind d es)
  then show ?case using "10.IH" [of "p + 1" "i + 1" "int i"] by (fastforce simp: list_all_iff)
next
  case (12 nf ind d cm v vs)
  let ?p = "p + length (sep ind d cm)"
  let ?ts = "val_toks nf ind d ?p i par v"
  have "list_all (\<lambda>t. int ?p \<le> tok_start t \<and> tok_start t < int (?p + length (json_text nf ind d v))) ?ts"
    using "12.IH"(1) [of ?p i par] "12.prems" by simp
  moreover have "list_all (\<lambda>t. int (?p + length (json_text nf ind d v)) \<le> tok_start t
      \<and> tok_start t < int (?p + length (json_text nf ind d v) + length (items_text nf ind d True vs)))
    (items_toks nf ind d (?p + length (json_text nf ind d v)) (i + length ?ts) par True vs)"
    using "12.IH"(2) [of "?p + length (json_text nf ind d v)" "i + length ?ts" par] "12.prems" by simp
  ultimately show ?case by (fastforce simp: list_all_iff Let_def)
next
  case (14 nf ind d cm k v es)
  let ?p1 = "p + length (sep ind d cm)"
  let ?p2 = "?p1 + length (quoted (escaped k)) + 1 + (if ind \<ge> 0 then 1 else 0)"
  let ?ts = "val_toks nf ind d ?p2 (i + 1) (int i) v"
  have "list_all (\<lambda>t. int ?p2 \<le> tok_start t \<and> tok_start t < int (?p2 + length (json_text nf ind d v))) ?ts"
    using "14.IH"(1) [of ?p2 "i + 1" "int i"] "14.prems" by simp
  moreover have "list_all (\<lambda>t. int (?p2 + length (json_text nf ind d v)) \<le> tok_start t
      \<and> tok_start t < int (?p2 + length (json_text nf ind d v) + length (entries_text nf ind d True es)))
    (entries_toks nf ind d (?p2 + length (json_text nf ind d v)) (i + 1 + length ?ts) par True es)"
    using "14.IH"(2) [of "?p2 + length (json_text nf ind d v)" "i + 1 + length ?ts" par] "14.prems" by simp
  moreover have "length (if ind \<ge> 0 then [32 :: byte] else []) = (if ind \<ge> 0 then 1 else 0)" by simp
  ultimately show ?case by (fastforce simp: list_all_iff Let_def quoted_def)
qed (use ascii_prims to_chars_prim in \<open>auto simp: prim_text_def quoted_def\<close>)

lemma json_rt_plain:
  "list_all (json_rt nf np) vs \<Longrightarrow> list_all (json_plain nf) vs"
  "list_all (\<lambda>(k, v). string_ok k \<and> json_rt nf np v) es \<Longrightarrow> list_all (\<lambda>(k, v). json_plain nf v) es"
  using json_rt_writes by (auto simp: list_all_iff)

lemma expects_simps [simp]: "expects key (s # ss) \<longleftrightarrow> rs_left s > 0 \<and> rs_key_next s = key" "\<not> expects key []"
  by (simp_all add: expects_def)

lemma tok_text_at:
  "T = A @ t # C \<Longrightarrow> length A = j \<Longrightarrow> tok_type t = ty \<Longrightarrow> tok_start t = int p \<Longrightarrow> tok_end t = int (p + length bs) \<Longrightarrow> here B p bs \<Longrightarrow>
   tok_text T B j ty p bs"
  by (auto simp: tok_text_def)

lemma reads_vals:
  "json_rt nf np v \<Longrightarrow> T = A @ val_toks nf ind d p j par v @ C \<Longrightarrow> length A = j \<Longrightarrow> here B p (json_text nf ind d v) \<Longrightarrow>
     container v \<or> ended B (p + length (json_text nf ind d v)) \<Longrightarrow> list_all (\<lambda>t. int (p + length (json_text nf ind d v)) \<le> tok_start t) C \<Longrightarrow>
     ss = [] \<and> C = [] \<and> container v \<or> expects False ss \<Longrightarrow>
     jreads (jread_val np v) T B j ss v (j + length (val_toks nf ind d p j par v)) (after_read ss)"
  "list_all (json_rt nf np) vs \<Longrightarrow> T = A @ items_toks nf ind d p j par cm vs @ C \<Longrightarrow> length A = j \<Longrightarrow> here B p (items_text nf ind d cm vs @ [c]) \<Longrightarrow>
     delimiter c \<Longrightarrow> list_all (\<lambda>t. int (p + length (items_text nf ind d cm vs)) \<le> tok_start t) C \<Longrightarrow>
     jreads (jread_vals np vs) T B j (scope_for ty key q (int (length vs)) # ss) vs (j + length (items_toks nf ind d p j par cm vs)) (scope_for ty key q 0 # ss)"
  "list_all (\<lambda>(k, v). string_ok k \<and> json_rt nf np v) es \<Longrightarrow> T = A @ entries_toks nf ind d p j par cm es @ C \<Longrightarrow> length A = j \<Longrightarrow>
     here B p (entries_text nf ind d cm es @ [c]) \<Longrightarrow>
     delimiter c \<Longrightarrow> list_all (\<lambda>t. int (p + length (entries_text nf ind d cm es)) \<le> tok_start t) C \<Longrightarrow>
     jreads (jread_entries np es) T B j (scope_for Jsmn_object key q (2 * int (length es)) # ss) es (j + length (entries_toks nf ind d p j par cm es))
       (scope_for Jsmn_object key q 0 # ss)"
proof (induction nf ind d v and nf ind d cm vs and nf ind d cm es arbitrary: A C p j par ss and A C p j par c ty key q ss and A C p j par c key q ss
    rule: json_text_items_text_entries_text.induct)
  case (9 nf ind d vs)
  let ?t = "(new_tok Jsmn_array (int p) (int (p + length (json_text nf ind d (VArr vs)))) par)\<lparr>tok_size := int (length vs)\<rparr>"
  let ?ln = "if vs = [] then [] else line ind d"
  let ?items = "items_text nf ind (Suc d) False vs" and ?inner = "items_toks nf ind (Suc d) (p + 1) (j + 1) (int j) False vs"
  have h: "here B (p + 1) (?items @ ?ln @ [93])" using "9.prems"(4) by simp
  obtain e where e: "here B (p + 1) (?items @ [e])" "delimiter e"
    by (rule here_inner [of B "p + 1" ?items ?ln 93 ind d]) (use h in \<open>auto simp: delimiter_def\<close>)
  have T: "T = A @ ?t # ?inner @ C" using "9.prems"(2) by simp
  have s: "list_all (\<lambda>t. int (p + 1) \<le> tok_start t \<and> tok_start t < int (p + 1 + length ?items)) ?inner"
    using "9.prems"(1) json_rt_plain(1) by (intro tok_starts(2)) auto
  have C: "list_all (\<lambda>t. int (p + 1 + length ?items) \<le> tok_start t) C"
    using "9.prems"(6) by (auto simp: list_all_iff)
  have "jreads (seqE jr_begin_array (\<lambda>key. seqE (jread_vals np vs) (\<lambda>xs. seqE (jr_end_array key) (\<lambda>_. retE (VArr xs)))))
      T B j ss (VArr vs) (j + 1 + length ?inner) (after_read ss)"
  proof (rule jreads_container [OF T "9.prems"(3), where n = "int (length vs)"])
    fix key
    show "jreads (jread_vals np vs) T B (j + 1) (scope_for Jsmn_array key j (int (length vs)) # ss) vs (j + 1 + length ?inner) (scope_for Jsmn_array key j 0 # ss)"
      using "9.IH" [of "A @ [?t]" "p + 1" "j + 1" "int j" C e Jsmn_array key j ss] "9.prems"(1,3) T e C by simp
  qed (use "9.prems" s in \<open>auto simp: list_all_iff\<close>)
  then show ?case by simp
next
  case (10 nf ind d es)
  let ?t = "(new_tok Jsmn_object (int p) (int (p + length (json_text nf ind d (VMap es)))) par)\<lparr>tok_size := int (length es)\<rparr>"
  let ?ln = "if es = [] then [] else line ind d"
  let ?items = "entries_text nf ind (Suc d) False es" and ?inner = "entries_toks nf ind (Suc d) (p + 1) (j + 1) (int j) False es"
  have h: "here B (p + 1) (?items @ ?ln @ [125])" using "10.prems"(4) by simp
  obtain e where e: "here B (p + 1) (?items @ [e])" "delimiter e"
    by (rule here_inner [of B "p + 1" ?items ?ln 125 ind d]) (use h in \<open>auto simp: delimiter_def\<close>)
  have T: "T = A @ ?t # ?inner @ C" using "10.prems"(2) by simp
  have s: "list_all (\<lambda>t. int (p + 1) \<le> tok_start t \<and> tok_start t < int (p + 1 + length ?items)) ?inner"
    using "10.prems"(1) json_rt_plain(2) by (intro tok_starts(3)) auto
  have C: "list_all (\<lambda>t. int (p + 1 + length ?items) \<le> tok_start t) C"
    using "10.prems"(6) by (auto simp: list_all_iff)
  have "jreads (seqE jr_begin_object (\<lambda>key. seqE (jread_entries np es) (\<lambda>xs. seqE (jr_end_object key) (\<lambda>_. retE (VMap xs)))))
      T B j ss (VMap es) (j + 1 + length ?inner) (after_read ss)"
  proof (rule jreads_container [OF T "10.prems"(3), where n = "2 * int (length es)"])
    fix key
    show "jreads (jread_entries np es) T B (j + 1) (scope_for Jsmn_object key j (2 * int (length es)) # ss) es (j + 1 + length ?inner) (scope_for Jsmn_object key j 0 # ss)"
      using "10.IH" [of "A @ [?t]" "p + 1" "j + 1" "int j" C e key j ss] "10.prems"(1,3) T e C by simp
  qed (use "10.prems" s in \<open>auto simp: list_all_iff\<close>)
  then show ?case by simp
next
  case (11 nf ind d cm)
  then show ?case by (simp add: jreads_ret)
next
  case (12 nf ind d cm v vs)
  let ?p = "p + length (sep ind d cm)" and ?l = "length (json_text nf ind d v)"
  let ?ts = "val_toks nf ind d ?p j par v"
  let ?us = "items_toks nf ind d (?p + ?l) (j + length ?ts) par True vs"
  let ?sc = "scope_for ty key q (int (length (v # vs)))"
  have T: "T = A @ ?ts @ ?us @ C" using "12.prems"(2) by (simp add: Let_def)
  have rt: "json_rt nf np v" "list_all (json_rt nf np) vs" using "12.prems"(1) by simp_all
  have h: "here B ?p (json_text nf ind d v)" and after: "here B (?p + ?l) (items_text nf ind d True vs @ [c])"
    using "12.prems"(4) by (simp_all add: add.assoc)
  have us: "list_all (\<lambda>t. int (?p + ?l) \<le> tok_start t) (?us @ C)"
    using tok_starts(2) [OF json_rt_plain(1) [OF rt(2)], of "?p + ?l" ind d True "j + length ?ts" par] "12.prems"(6)
    by (auto simp: list_all_iff)
  have "jreads (jread_val np v) T B j (?sc # ss) v (j + length ?ts) (after_read (?sc # ss))"
    using text_next(1) [OF "12.prems"(5) after] "12.prems"(3)
    by (intro "12.IH"(1) [OF rt(1) T _ h _ us]) (simp_all add: scope_for_def)
  moreover have T2: "T = (A @ ?ts) @ ?us @ C" using T by simp
  moreover have "after_read (?sc # ss) = scope_for ty key q (int (length vs)) # ss" by (simp add: after_read_def scope_for_def)
  moreover have "jreads (jread_vals np vs) T B (j + length ?ts) (scope_for ty key q (int (length vs)) # ss) vs (j + length ?ts + length ?us) (scope_for ty key q 0 # ss)"
    by (rule "12.IH"(2) [OF rt(2) T2 _ after "12.prems"(5)]) (use "12.prems"(3,6) in \<open>simp_all add: add_ac\<close>)
  ultimately have "jreads (jread_vals np (v # vs)) T B j (?sc # ss) (v # vs) (j + length ?ts + length ?us) (scope_for ty key q 0 # ss)"
    unfolding jread_vals.simps by (intro jreads_seqE [OF _ jreads_map]) simp_all
  then show ?case by (simp add: Let_def add_ac)
next
  case (13 nf ind d cm)
  then show ?case by (simp add: jreads_ret)
next
  case (14 nf ind d cm k v es)
  let ?p1 = "p + length (sep ind d cm)" and ?l = "length (json_text nf ind d v)"
  let ?p2 = "?p1 + length (quoted (escaped k)) + 1 + (if ind \<ge> 0 then 1 else 0)"
  let ?key = "(new_tok Jsmn_string (int (?p1 + 1)) (int (?p1 + 1 + length (escaped k))) par)\<lparr>tok_size := 1\<rparr>"
  let ?ts = "val_toks nf ind d ?p2 (j + 1) (int j) v"
  let ?us = "entries_toks nf ind d (?p2 + ?l) (j + 1 + length ?ts) par True es"
  let ?sc = "scope_for Jsmn_object key q (2 * int (length ((k, v) # es)))"
  let ?sc1 = "scope_for Jsmn_object key q (2 * int (length es) + 1)"
  have T: "T = A @ ?key # ?ts @ ?us @ C" using "14.prems"(2) by (simp add: Let_def)
  have rt: "string_ok k" "json_rt nf np v" "list_all (\<lambda>(k, v). string_ok k \<and> json_rt nf np v) es" using "14.prems"(1) by simp_all
  have blank: "length (if ind \<ge> 0 then [32 :: byte] else []) = (if ind \<ge> 0 then 1 else 0)" by simp
  have "here B p (sep ind d cm @ quoted (escaped k) @ ([58] @ (if ind \<ge> 0 then [32] else [])) @ json_text nf ind d v @ entries_text nf ind d True es @ [c])"
    using "14.prems"(4) by simp
  then have hk: "here B ?p1 (quoted (escaped k))" and "here B (?p1 + length (quoted (escaped k)) + length ([58] @ (if ind \<ge> 0 then [32 :: byte] else [])))
      (json_text nf ind d v @ entries_text nf ind d True es @ [c])"
    unfolding here_append [of _ _ "sep ind d cm"] here_append [of _ _ "quoted (escaped k)"] here_append [of _ _ "[58] @ _"] by blast+
  moreover have "?p1 + length (quoted (escaped k)) + length ([58] @ (if ind \<ge> 0 then [32 :: byte] else [])) = ?p2" by simp
  ultimately have h: "here B ?p2 (json_text nf ind d v)" and after: "here B (?p2 + ?l) (entries_text nf ind d True es @ [c])"
    unfolding here_append [of _ _ "json_text nf ind d v"] by simp_all
  have total: "p + length (entries_text nf ind d cm ((k, v) # es)) = ?p2 + ?l + length (entries_text nf ind d True es)" by simp
  have us: "list_all (\<lambda>t. int (?p2 + ?l) \<le> tok_start t) (?us @ C)"
    using tok_starts(3) [OF json_rt_plain(2) [OF rt(3)], of "?p2 + ?l" ind d True "j + 1 + length ?ts" par] "14.prems"(6)
    unfolding total by (auto simp: list_all_iff)
  have C: "list_all (\<lambda>t. int (?p2 + ?l + length (entries_text nf ind d True es)) \<le> tok_start t) C"
    using "14.prems"(6) unfolding total .
  have 1: "jreads jr_read_key_next T B j (?sc # ss) () j (?sc\<lparr>rs_key_next := True\<rparr> # ss)"
    by (rule jreadsI) (simp add: jr_read_key_next_def scope_for_def placed_def)
  have kt: "tok_text T B j Jsmn_string (?p1 + 1) (escaped k)"
    by (rule tok_text_at [OF T "14.prems"(3)]) (use hk in \<open>simp_all add: quoted_def\<close>)
  have "jreads jr_str T B j (?sc\<lparr>rs_key_next := True\<rparr> # ss) k (j + 1) (after_read (?sc\<lparr>rs_key_next := True\<rparr> # ss))"
    by (rule jreads_str [OF kt _ rt(1), where key = True]) (simp add: scope_for_def)
  moreover have "after_read (?sc\<lparr>rs_key_next := True\<rparr> # ss) = ?sc1 # ss" by (simp add: after_read_def scope_for_def)
  ultimately have 2: "jreads jr_str T B j (?sc\<lparr>rs_key_next := True\<rparr> # ss) k (j + 1) (?sc1 # ss)" by simp
  have T': "T = (A @ [?key]) @ ?ts @ ?us @ C" using T by simp
  have "jreads (jread_val np v) T B (j + 1) (?sc1 # ss) v (j + 1 + length ?ts) (after_read (?sc1 # ss))"
    using text_next(2) [OF "14.prems"(5) after] "14.prems"(3)
    by (intro "14.IH"(1) [OF rt(2) T' _ h _ us]) (simp_all add: scope_for_def)
  moreover have "after_read (?sc1 # ss) = scope_for Jsmn_object key q (2 * int (length es)) # ss" by (simp add: after_read_def scope_for_def)
  ultimately have 3: "jreads (jread_val np v) T B (j + 1) (?sc1 # ss) v (j + 1 + length ?ts) (scope_for Jsmn_object key q (2 * int (length es)) # ss)" by simp
  have T2: "T = (A @ ?key # ?ts) @ ?us @ C" using T by simp
  have 4: "jreads (jread_entries np es) T B (j + 1 + length ?ts) (scope_for Jsmn_object key q (2 * int (length es)) # ss) es
      (j + 1 + length ?ts + length ?us) (scope_for Jsmn_object key q 0 # ss)"
    by (rule "14.IH"(2) [OF rt(3) T2 _ after "14.prems"(5) C]) (use "14.prems"(3) in simp)
  have "jreads (jread_entries np ((k, v) # es)) T B j (?sc # ss) ((k, v) # es) (j + 1 + length ?ts + length ?us) (scope_for Jsmn_object key q 0 # ss)"
    unfolding jread_entries.simps
    by (rule jreads_seqE [OF 1 jreads_seqE [OF 2 jreads_seqE [OF 3 jreads_map [OF 4]]]])
  then show ?case by (simp add: Let_def add_ac)
next
  case (1 nf ind d)
  show ?case using jreads_map [OF jreads_null, of T B j p "ascii ''null''" ss "\<lambda>_. VNil"] 1
    by (auto simp: tok_text_def)
next
  case (2 nf ind d b)
  show ?case using jreads_map [OF jreads_bool, of T B j p b ss VBool] 2 by (auto simp: tok_text_def)
next
  case (3 nf ind d i)
  show ?case using jreads_map [OF jreads_int, of T B j p i ss 0 VInt] 3 by (auto simp: tok_text_def)
next
  case (4 nf ind d n)
  show ?case using jreads_map [OF jreads_uint, of T B j p n ss 0 VUint] 4 by (auto simp: tok_text_def)
next
  case (5 nf ind d f)
  show ?case using jreads_map [OF jreads_map [OF jreads_double], of T B j p nf "widen nf f" ss np "narrow np" VFloat] 5
    by (auto simp: tok_text_def jr_float_def seqE_assoc)
next
  case (6 nf ind d x)
  show ?case using jreads_map [OF jreads_double, of T B j p nf x ss np VDouble] 6 by (auto simp: tok_text_def)
next
  case (7 nf ind d s)
  show ?case using jreads_map [OF jreads_str, of T B j "p + 1" s False ss VStr] 7 by (auto simp: tok_text_def quoted_def)
next
  case (8 nf ind d b)
  show ?case using jreads_bin [of T B j "p + 1" b ss] 8 by (auto simp: tok_text_def quoted_def)
qed

section \<open>Finding a key\<close>

lemma step_over_value:
  assumes "json_rt nf np v" "v \<noteq> VStr []" "T = A @ val_toks nf ind d p j par v @ C" "length A = j"
    and "list_all (\<lambda>t. int (p + length (json_text nf ind d v)) \<le> tok_start t) C"
  shows "token_bound j (tok_end (T ! j)) T = j + length (val_toks nf ind d p j par v)"
proof -
  let ?ts = "val_toks nf ind d p j par v" and ?e = "p + length (json_text nf ind d v)"
  have plain: "json_plain nf v" using json_rt_writes [OF assms(1)] by simp
  have s: "list_all (\<lambda>t. tok_start t < int ?e) ?ts" using tok_starts(1) [OF plain, of p ind d j par] by (simp add: list_all_iff)
  obtain t inner where t: "?ts = t # inner" by (cases v) auto
  have e: "tok_start t < tok_end t \<and> tok_end t \<le> int ?e \<and> (container v \<longrightarrow> tok_end t = int ?e) \<and> (container v \<or> inner = [])"
  proof (cases v)
    case (VStr x)
    then have "escaped x \<noteq> []"
    proof (cases x)
      case (Cons c x')
      obtain e where "escape_ch c = Some e" "e \<noteq> []" using escape_cases [of c] by (metis list.distinct(1))
      then show ?thesis using Cons by (simp add: escaped_Cons)
    qed (use VStr assms(2) in simp)
    then show ?thesis using VStr t by (auto simp: quoted_def)
  next
    case (VBin b)
    then show ?thesis using t assms(1) by (auto simp: quoted_def b64_ref_eq_Nil)
  qed (use s t in auto)
  have C: "list_all (\<lambda>u. tok_end t \<le> tok_start u) C" using assms(5) e by (auto simp: list_all_iff)
  have i: "list_all (\<lambda>u. tok_start u < tok_end t) (t # inner)" using e s t by (auto simp: list_all_iff)
  have T: "T = A @ t # inner @ C" using assms(3) t by simp
  have "T ! j = t" using T assms(4) by auto
  then show ?thesis using token_bound_at [OF T assms(4) i C] t by simp
qed

text \<open>The token \<open>i\<close> opens the value \<open>v\<close> as the writer prints it.\<close>

definition value_at :: "number_format \<Rightarrow> int \<Rightarrow> nat \<Rightarrow> jsmntok list \<Rightarrow> byte list \<Rightarrow> nat \<Rightarrow> val \<Rightarrow> bool" where
  "value_at nf ind d T B i v \<longleftrightarrow> (\<exists>A p par C. T = A @ val_toks nf ind d p i par v @ C \<and> length A = i \<and> here B p (json_text nf ind d v)
     \<and> ended B (p + length (json_text nf ind d v)) \<and> list_all (\<lambda>t. int (p + length (json_text nf ind d v)) \<le> tok_start t) C)"

lemma reads_value_at:
  assumes "value_at nf ind d T B i v" "json_rt nf np v" "expects False ss"
  shows "\<exists>j. jreads (jread_val np v) T B i ss v j (after_read ss)"
proof -
  obtain A p par C where "T = A @ val_toks nf ind d p i par v @ C" "length A = i" "here B p (json_text nf ind d v)"
    "ended B (p + length (json_text nf ind d v))" "list_all (\<lambda>t. int (p + length (json_text nf ind d v)) \<le> tok_start t) C"
    using assms(1) unfolding value_at_def by blast
  from reads_vals(1) [OF assms(2) this(1-3) _ this(5)] this(4) assms(3) show ?thesis by blast
qed

lemma key_search_entries:
  "list_all (\<lambda>(k, v). string_ok k \<and> json_rt nf np v \<and> v \<noteq> VStr []) es \<Longrightarrow> T = A @ entries_toks nf ind d p j (int par) cm es @ C \<Longrightarrow>
   length A = j \<Longrightarrow> here B p (entries_text nf ind d cm es @ [c]) \<Longrightarrow> delimiter c \<Longrightarrow>
   list_all (\<lambda>t. int (p + length (entries_text nf ind d cm es)) \<le> tok_start t) C \<Longrightarrow> jr_tokens r = T \<Longrightarrow> jr_buffer r = B \<Longrightarrow>
   (case map_of (map (\<lambda>(k, v). (escaped k, v)) es) t of
      None \<Rightarrow> key_search par t (length es) j r = (Inr None, r)
    | Some v \<Rightarrow> json_rt nf np v \<and> (\<exists>i left. key_search par t (length es) j r = (Inr (Some (i, left)), r) \<and> value_at nf ind d T B i v))"
proof (induction es arbitrary: A p j cm)
  case (Cons e es)
  obtain k v where e: "e = (k, v)" by (cases e)
  let ?p1 = "p + length (sep ind d cm)" and ?l = "length (json_text nf ind d v)"
  let ?p2 = "?p1 + length (quoted (escaped k)) + 1 + (if ind \<ge> 0 then 1 else 0)"
  let ?key = "(new_tok Jsmn_string (int (?p1 + 1)) (int (?p1 + 1 + length (escaped k))) (int par))\<lparr>tok_size := 1\<rparr>"
  let ?ts = "val_toks nf ind d ?p2 (j + 1) (int j) v"
  let ?us = "entries_toks nf ind d (?p2 + ?l) (j + 1 + length ?ts) (int par) True es"
  have T: "T = A @ ?key # ?ts @ ?us @ C" using Cons.prems(2) by (simp add: e Let_def)
  have rt: "string_ok k" "json_rt nf np v" "v \<noteq> VStr []" "list_all (\<lambda>(k, v). string_ok k \<and> json_rt nf np v \<and> v \<noteq> VStr []) es"
    using Cons.prems(1) by (simp_all add: e)
  have "here B p (sep ind d cm @ quoted (escaped k) @ ([58] @ (if ind \<ge> 0 then [32] else [])) @ json_text nf ind d v @ entries_text nf ind d True es @ [c])"
    using Cons.prems(4) by (simp add: e)
  then have hk: "here B ?p1 (quoted (escaped k))" and "here B (?p1 + length (quoted (escaped k)) + length ([58] @ (if ind \<ge> 0 then [32 :: byte] else [])))
      (json_text nf ind d v @ entries_text nf ind d True es @ [c])"
    unfolding here_append [of _ _ "sep ind d cm"] here_append [of _ _ "quoted (escaped k)"] here_append [of _ _ "[58] @ _"] by blast+
  moreover have "?p1 + length (quoted (escaped k)) + length ([58] @ (if ind \<ge> 0 then [32 :: byte] else [])) = ?p2" by simp
  ultimately have h: "here B ?p2 (json_text nf ind d v)" and after: "here B (?p2 + ?l) (entries_text nf ind d True es @ [c])"
    unfolding here_append [of _ _ "json_text nf ind d v"] by simp_all
  have total: "p + length (entries_text nf ind d cm (e # es)) = ?p2 + ?l + length (entries_text nf ind d True es)" by (simp add: e)
  have C: "list_all (\<lambda>t. int (?p2 + ?l + length (entries_text nf ind d True es)) \<le> tok_start t) C"
    using Cons.prems(6) unfolding total .
  have "list_all (\<lambda>(k, v). json_plain nf v) es" using rt(4) json_rt_writes by (auto simp: list_all_iff)
  then have us: "list_all (\<lambda>t. int (?p2 + ?l) \<le> tok_start t) (?us @ C)"
    using tok_starts(3) [of nf es "?p2 + ?l" ind d True "j + 1 + length ?ts" "int par"] C by (auto simp: list_all_iff)
  have kt: "tok_text T B j Jsmn_string (?p1 + 1) (escaped k)"
    by (rule tok_text_at [OF T Cons.prems(3)]) (use hk in \<open>simp_all add: quoted_def\<close>)
  have j: "j < length T" "T ! j = ?key" using T Cons.prems(3) by auto
  have str: "tokstr (T ! j) r = (Inr (escaped k), r)"
    by (rule tokstr_at [OF kt Cons.prems(8)])
  have T': "T = (A @ [?key]) @ ?ts @ ?us @ C" using T by simp
  have ended: "ended B (?p2 + ?l)" by (rule text_next(2) [OF Cons.prems(5) after])
  show ?case
  proof (cases "escaped k = t")
    case True
    have "key_search par t (length (e # es)) j r = (Inr (Some (j + 1, length es)), r)"
      using str j True Cons.prems(7) by (simp add: seqE_def)
    moreover have "value_at nf ind d T B (j + 1) v"
      unfolding value_at_def
      by (rule exI [where x = "A @ [?key]"], rule exI [where x = ?p2], rule exI [where x = "int j"], rule exI [where x = "?us @ C"])
        (use T' Cons.prems(3) h ended us in simp)
    ultimately show ?thesis using rt(2) True by (simp add: e)
  next
    case False
    have "step_over (j + 1) r = j + 1 + length ?ts"
      using step_over_value [OF rt(2,3) T' _ us] Cons.prems(3,7) by (simp add: step_over_def)
    then have s: "key_search par t (length (e # es)) j r = key_search par t (length es) (j + 1 + length ?ts) r"
      using str j False Cons.prems(7) by (simp add: seqE_def)
    have "T = (A @ ?key # ?ts) @ ?us @ C" using T by simp
    from Cons.IH [OF rt(4) this _ after Cons.prems(5) C Cons.prems(7,8)] Cons.prems(3)
    show ?thesis unfolding s using False by (simp add: e)
  qed
qed simp

text \<open>The client looks keys up by \<open>goto_key\<close>, in the order it wants, and reads the value behind each one it finds.\<close>

fun jread_keys :: "number_parser \<Rightarrow> (byte list \<times> val) list \<Rightarrow> val option list jr" where
  "jread_keys np [] = retE []"
| "jread_keys np ((t, v) # ts) =
     seqE (jr_goto_key t) (\<lambda>found. seqE (if found then seqE (jread_val np v) (\<lambda>x. retE (Some x)) else retE None)
       (\<lambda>x. seqE (jread_keys np ts) (\<lambda>xs. retE (x # xs))))"

definition keys_of :: "(byte list \<times> val) list \<Rightarrow> byte list \<Rightarrow> val option" where
  "keys_of es = map_of (map (\<lambda>(k, v). (escaped k, v)) es)"

text \<open>The reader is inside the document object \<open>es\<close>, wherever its cursor stands.\<close>

definition in_object :: "number_format \<Rightarrow> int \<Rightarrow> (byte list \<times> val) list \<Rightarrow> jreader \<Rightarrow> bool" where
  "in_object nf ind es r \<longleftrightarrow> jr_tokens r = val_toks nf ind 0 0 0 (- 1) (VMap es) \<and> jr_buffer r = json_text nf ind 0 (VMap es)
     \<and> gets (jr_base64 r) = [] \<and> (\<exists>s. jr_scopes r = [s] \<and> rs_type s = Rs_object \<and> rs_token s = 0)"

lemma goto_key_in_object:
  assumes "list_all (\<lambda>(k, v). string_ok k \<and> json_rt nf np v \<and> v \<noteq> VStr []) es" "in_object nf ind es r"
  shows "case keys_of es t of None \<Rightarrow> jr_goto_key t r = (Inr False, r)
    | Some v \<Rightarrow> json_rt nf np v \<and> (\<exists>i n r1. jr_goto_key t r = (Inr True, r1) \<and> in_object nf ind es r1 \<and> jr_pos r1 = Some i
        \<and> expects False (jr_scopes r1) \<and> value_at nf ind (Suc 0) (jr_tokens r) (jr_buffer r) i v)"
proof -
  let ?v = "VMap es"
  let ?t = "(new_tok Jsmn_object 0 (int (length (json_text nf ind 0 ?v))) (- 1))\<lparr>tok_size := int (length es)\<rparr>"
  let ?T = "jr_tokens r" and ?B = "jr_buffer r"
  let ?items = "entries_text nf ind (Suc 0) False es" and ?ln = "if es = [] then [] else line ind 0"
  obtain s where s: "jr_scopes r = [s]" "rs_type s = Rs_object" "rs_token s = 0" using assms(2) by (auto simp: in_object_def)
  have TB: "?T = [?t] @ entries_toks nf ind (Suc 0) 1 1 (int 0) False es @ []" "?B = 123 # ?items @ ?ln @ [125]" "?T ! 0 = ?t"
    using assms(2) by (simp_all add: in_object_def)
  have "here ?B 1 (?items @ ?ln @ [125])" by (simp add: here_def TB(2))
  then obtain e where e: "here ?B 1 (?items @ [e])" "delimiter e"
    using here_inner [of ?B 1 ?items ?ln 125 ind 0] by (force simp: delimiter_def)
  have n: "nat (tok_size (?T ! rs_token s)) = length es" by (simp add: s(3) TB(3))
  note found = key_search_entries [OF assms(1) TB(1) _ e _ refl refl, of t]
  show ?thesis
  proof (cases "keys_of es t")
    case None
    then have "key_search 0 t (length es) 1 r = (Inr None, r)" using found by (simp add: keys_of_def)
    then show ?thesis using None s n by (simp add: jr_goto_key_def seqE_def)
  next
    case (Some v)
    then obtain i left where k: "json_rt nf np v" "key_search 0 t (length es) 1 r = (Inr (Some (i, left)), r)" "value_at nf ind (Suc 0) ?T ?B i v"
      using found by (auto simp: keys_of_def)
    let ?r1 = "r\<lparr>jr_pos := Some i, jr_scopes := [s\<lparr>rs_left := int left * 2 + 1, rs_key_next := False\<rparr>]\<rparr>"
    have "jr_goto_key t r = (Inr True, ?r1)" using k(2) s n by (simp add: jr_goto_key_def seqE_def)
    moreover have "in_object nf ind es ?r1" using assms(2) s by (simp add: in_object_def)
    moreover have "jr_pos ?r1 = Some i" "expects False (jr_scopes ?r1)" by simp_all
    ultimately show ?thesis using k(1,3) Some by auto
  qed
qed

text \<open>Behind an empty string the search stops at the value itself, as \<open>step_over\<close> does not move over a token
  without characters.\<close>

lemma goto_key_behind_empty_string:
  assumes "in_object nf (- 1) [([97], VStr []), ([98], VInt 1)] r"
  shows "jr_goto_key [98] r = (Inl Jr_check_failed, r)"
proof -
  have e: "escaped [97] = [97]" "escaped [98] = [98]" "escaped [] = []"
    by (simp_all add: escaped_def escape_ch_def isprint_def)
  show ?thesis using assms
    by (auto simp: in_object_def jr_goto_key_def seqE_def tokstr_def step_over_def token_bound_def quoted_def e sep_def line_def Let_def numeral_2_eq_2)
qed

lemma read_keys_in_object:
  assumes "list_all (\<lambda>(k, v). string_ok k \<and> json_rt nf np v \<and> v \<noteq> VStr []) es"
  shows "in_object nf ind es r \<Longrightarrow> fst (jread_keys np (map (\<lambda>t. (t, case keys_of es t of None \<Rightarrow> VNil | Some v \<Rightarrow> v)) ts) r) = Inr (map (keys_of es) ts)"
proof (induction ts arbitrary: r)
  case (Cons t ts)
  note g = goto_key_in_object [OF assms Cons.prems, of t]
  obtain r2 where r2: "seqE (jr_goto_key t) (\<lambda>found. seqE (if found then seqE (jread_val np (case keys_of es t of None \<Rightarrow> VNil | Some v \<Rightarrow> v)) (\<lambda>x. retE (Some x))
      else retE None) f) r = f (keys_of es t) r2" "in_object nf ind es r2" for f :: "val option \<Rightarrow> val option list jr"
  proof (cases "keys_of es t")
    case None
    then show thesis using g Cons.prems by (intro that [of r]) (simp_all add: seqE_def retE_def)
  next
    case (Some v)
    then obtain i r1 where r1: "json_rt nf np v" "jr_goto_key t r = (Inr True, r1)" "in_object nf ind es r1" "jr_pos r1 = Some i"
      "expects False (jr_scopes r1)" "value_at nf ind (Suc 0) (jr_tokens r) (jr_buffer r) i v"
      using g by auto
    obtain j where j: "jreads (jread_val np v) (jr_tokens r) (jr_buffer r) i (jr_scopes r1) v j (after_read (jr_scopes r1))"
      using reads_value_at [OF r1(6,1,5)] by blast
    have "placed (jr_tokens r) (jr_buffer r) i r1" using r1(3,4) Cons.prems by (simp add: placed_def in_object_def)
    then obtain r2 where "jread_val np v r1 = (Inr v, r2)" "placed (jr_tokens r) (jr_buffer r) j r2" "jr_scopes r2 = after_read (jr_scopes r1)"
      using j unfolding jreads_def by blast
    moreover from this have "in_object nf ind es r2" using r1(3) Cons.prems by (auto simp: in_object_def placed_def after_read_def)
    ultimately show thesis using Some r1(2) by (intro that [of r2]) (simp_all add: seqE_def retE_def)
  qed
  obtain r3 where "jread_keys np (map (\<lambda>t. (t, case keys_of es t of None \<Rightarrow> VNil | Some v \<Rightarrow> v)) ts) r2 = (Inr (map (keys_of es) ts), r3)"
    using Cons.IH [OF r2(2)] by (metis prod.collapse)
  then show ?case by (simp add: r2(1)) (simp add: seqE_def retE_def)
qed (simp add: retE_def)

lemma written_document:
  assumes "json_ok nf v"
  obtains w where "json_val nf v (jwriter_new ind) = (Inr (), w)" "written (out w) = json_text nf ind 0 v"
  using emits_new [of "json_val nf v" ind "json_text nf ind 0 v"] emits_vals(1) [OF assms, of "[]" ind] by auto

lemma document_opened:
  assumes "json_plain nf (VMap es)"
  shows "\<exists>key r. jr_begin_object (jreader_new (json_text nf ind 0 (VMap es) @ rest)) = (Inr key, r) \<and> in_object nf ind es r"
proof -
  let ?v = "VMap es" and ?r = "jreader_new (json_text nf ind 0 (VMap es) @ rest)"
  let ?r1 = "?r\<lparr>jr_in := rest, jr_buffer := json_text nf ind 0 ?v, jr_parser := doc_state nf ind ?v, jr_pos := Some 0, jr_scopes := []\<rparr>"
  have "jr_prepare ?r = (Inr (), ?r1)" by (rule document_fetched [OF assms]) (simp_all add: jreader_new_def)
  moreover have "doc_state nf ind ?v = (doc_state nf ind ?v)\<lparr>jtoks := val_toks nf ind 0 0 0 (- 1) ?v\<rparr>" by (simp add: doc_state_def)
  moreover have "jr_tokens ?r1 = val_toks nf ind 0 0 0 (- 1) ?v" by (simp add: doc_state_def)
  ultimately show ?thesis
    by (simp add: jr_begin_object_def seqE_def step_in_def jr_next_def in_object_def doc_state_def jreader_new_def b64s_new_def)
qed

section \<open>Property\<close>

text \<open>C5: What the JSON writer produces for an array or object, the JSON reader reads back as the same value,
  with no scope left open and the stream right behind the document, whatever follows; for any nesting and
  indentation. It needs integers in the 64-bit ranges, binaries that are not empty, strings without the
  control characters that have no JSON escape of their own, and doubles that \<open>strtod\<close> reads back from what is printed.\<close>

theorem json_roundtrip:
  assumes "json_rt nf np v" "container v"
  shows "\<exists>w r. json_val nf v (jwriter_new ind) = (Inr (), w) \<and> jread_val np v (jreader_new (written (out w) @ rest)) = (Inr v, r)
    \<and> jr_in r = rest \<and> jr_scopes r = []"
proof -
  have ok: "json_plain nf v" "json_ok nf v" using json_rt_writes [OF assms(1)] by simp_all
  obtain w where w: "json_val nf v (jwriter_new ind) = (Inr (), w)" "written (out w) = json_text nf ind 0 v"
    by (rule written_document [OF ok(2)])
  let ?r = "jreader_new (json_text nf ind 0 v @ rest)"
  let ?T = "val_toks nf ind 0 0 0 (- 1) v" and ?B = "json_text nf ind 0 v"
  let ?r1 = "?r\<lparr>jr_in := rest, jr_buffer := ?B, jr_parser := doc_state nf ind v, jr_pos := Some 0, jr_scopes := []\<rparr>"
  have "jr_prepare ?r = (Inr (), ?r1)" by (rule document_fetched [OF ok(1) assms(2)]) (simp_all add: jreader_new_def)
  then have "jread_val np v ?r = jread_val np v ?r1"
    using assms(2) by (cases v) (simp_all add: jr_begin_array_def jr_begin_object_def seqE_assoc seqE_def jr_prepare_def)
  moreover have "placed ?T ?B 0 ?r1" "jr_scopes ?r1 = []" by (simp_all add: placed_def doc_state_def jreader_new_def b64s_new_def)
  moreover have "jreads (jread_val np v) ?T ?B 0 [] v (0 + length ?T) (after_read [])"
    using reads_vals(1) [OF assms(1), where A = "[]" and C = "[]" and p = 0 and j = 0 and par = "- 1" and ss = "[]"] assms(2)
    by (simp add: here_def)
  ultimately obtain r where "jread_val np v ?r = (Inr v, r)" "jr_scopes r = []" "jr_in r = rest"
    unfolding jreads_def by (fastforce simp: after_read_def)
  then show ?thesis using w by auto
qed

theorem json_roundtrip_witness:
  "\<exists>w r. json_val \<lparr>print_double = \<lambda>_. [48], widen = ucast\<rparr> (VMap [([97], VArr [VInt (- 5), VDouble 0, VStr [34], VBin [1]])]) (jwriter_new 1) = (Inr (), w)
    \<and> jread_val \<lparr>strtod = \<lambda>_. (0, 1), narrow = ucast\<rparr> (VMap [([97], VArr [VInt (- 5), VDouble 0, VStr [34], VBin [1]])])
        (jreader_new (written (out w) @ [91])) = (Inr (VMap [([97], VArr [VInt (- 5), VDouble 0, VStr [34], VBin [1]])]), r)
    \<and> jr_in r = [91] \<and> jr_scopes r = []"
proof -
  let ?nf = "\<lparr>print_double = \<lambda>_. [48], widen = ucast\<rparr> :: number_format"
  let ?np = "\<lparr>strtod = \<lambda>_. (0, 1), narrow = ucast\<rparr> :: number_parser"
  let ?v = "VMap [([97], VArr [VInt (- 5), VDouble 0, VStr [34], VBin [1]])]"
  have "prints_back ?nf ?np 0" by (simp add: prints_back_def not_finite_def prim_text_def starts_primitive_def)
  then have "json_rt ?nf ?np ?v" by (simp add: string_ok_def coded_def short_escapes_def ascii_def)
  from json_roundtrip [OF this, of 1 "[91]"] show ?thesis by simp
qed

text \<open>Inside a written object the reader finds values by key in any order, forwards and backwards and as often
  as asked: for every list of keys, \<open>goto_key\<close> followed by the read of the value gives the value of the first
  entry whose escaped key is the one asked for, and false where there is none. The search only skips values that
  are not empty strings.\<close>

theorem json_goto_key:
  assumes "json_rt nf np (VMap es)" "list_all (\<lambda>(k, v). v \<noteq> VStr []) es"
  shows "\<exists>w. json_val nf (VMap es) (jwriter_new ind) = (Inr (), w)
    \<and> fst (seqE jr_begin_object (\<lambda>_. jread_keys np (map (\<lambda>t. (t, case keys_of es t of None \<Rightarrow> VNil | Some v \<Rightarrow> v)) ts))
        (jreader_new (written (out w) @ rest))) = Inr (map (keys_of es) ts)"
proof -
  have ok: "json_plain nf (VMap es)" "json_ok nf (VMap es)" using json_rt_writes [OF assms(1)] by simp_all
  have es: "list_all (\<lambda>(k, v). string_ok k \<and> json_rt nf np v \<and> v \<noteq> VStr []) es" using assms by (auto simp: list_all_iff)
  obtain w where w: "json_val nf (VMap es) (jwriter_new ind) = (Inr (), w)" "written (out w) = json_text nf ind 0 (VMap es)"
    by (rule written_document [OF ok(2)])
  let ?r = "jreader_new (json_text nf ind 0 (VMap es) @ rest)"
  obtain key r1 where "jr_begin_object ?r = (Inr key, r1)" "in_object nf ind es r1"
    using document_opened [OF ok(1)] by metis
  then show ?thesis using w read_keys_in_object [OF es] by (auto simp: seqE_def)
qed

theorem json_goto_key_witness:
  "\<exists>w. json_val \<lparr>print_double = \<lambda>_. [48], widen = ucast\<rparr> (VMap [([97], VInt 1), ([98], VInt 2)]) (jwriter_new 2) = (Inr (), w)
    \<and> fst (seqE jr_begin_object (\<lambda>_. jread_keys \<lparr>strtod = \<lambda>_. (0, 1), narrow = ucast\<rparr> [([98], VInt 2), ([99], VNil), ([97], VInt 1)])
        (jreader_new (written (out w) @ []))) = Inr [Some (VInt 2), None, Some (VInt 1)]"
proof -
  let ?nf = "\<lparr>print_double = \<lambda>_. [48], widen = ucast\<rparr> :: number_format"
  let ?np = "\<lparr>strtod = \<lambda>_. (0, 1), narrow = ucast\<rparr> :: number_parser"
  let ?es = "[([97], VInt 1), ([98], VInt 2)]"
  have k: "keys_of ?es [97] = Some (VInt 1)" "keys_of ?es [98] = Some (VInt 2)" "keys_of ?es [99] = None"
    by (simp_all add: keys_of_def escaped_def escape_ch_def isprint_def)
  have "json_rt ?nf ?np (VMap ?es)" "list_all (\<lambda>(k, v). v \<noteq> VStr []) ?es"
    by (simp_all add: string_ok_def coded_def)
  from json_goto_key [OF this, of 2 "[[98], [99], [97]]" "[]"] show ?thesis by (simp only: k list.map option.case)
qed

end
