(* ===== verification/Event_Chain.thy ===== *)
theory Event_Chain
  imports Cpph_Prelude
begin

text \<open>
  \<open>utility/event.hxx\<close>: \<open>basic_event\<close>, a list of handlers linked by \<open>shared_ptr\<close> forwards and \<open>weak_ptr\<close>
  backwards, in front of it the handlers that were appended since the last \<open>flush\<close>. Nodes live in a heap of
  numbered cells. A node is destroyed when no \<open>shared_ptr\<close> refers to it any more: not the two list heads, no
  \<open>p_next\<close> of a living node and no local variable of a running call (\<open>ev_held\<close>). Its destructor takes the
  mutex of the event, a spinlock; where that happens in a section that holds the mutex already, the thread
  waits for itself, \<open>Self_deadlock\<close>. A handler is a function of the event's arguments (which are references),
  with the calls on the event it makes and the control value it returns.
\<close>

section \<open>Data\<close>

datatype event_priority = Ep_last | Ep_very_low | Ep_low | Ep_middle | Ep_high | Ep_very_high | Ep_first

fun prio_value :: "event_priority \<Rightarrow> u64" where
  "prio_value Ep_last = 0"
| "prio_value Ep_very_low = push_bit 61 1"
| "prio_value Ep_low = push_bit 61 2"
| "prio_value Ep_middle = push_bit 61 3"
| "prio_value Ep_high = push_bit 61 4"
| "prio_value Ep_very_high = push_bit 61 5"
| "prio_value Ep_first = - 1"

text \<open>\<open>event_control\<close>: bit 0 is \<open>expire\<close>, bit 1 is \<open>consume\<close>.\<close>

abbreviation (input) ev_ok :: nat where "ev_ok \<equiv> 0"
abbreviation (input) ev_expires :: nat where "ev_expires \<equiv> 1"
abbreviation (input) ev_consumes :: nat where "ev_consumes \<equiv> 2"

record 'f ev_node =
  ev_prio :: u64
  ev_prev :: "nat option"
  ev_next :: "nat option"
  ev_fn :: 'f

record 'f event_obj =
  ev_nodes :: "nat \<Rightarrow> 'f ev_node option"
  ev_fresh :: nat
  ev_front :: "nat option"
  ev_new :: "nat option"
  ev_size :: nat
  ev_held :: "nat list"

datatype ev_error = Self_deadlock | Ev_dangling | Ev_runaway

definition event_new :: "'f event_obj" where
  "event_new = \<lparr>ev_nodes = \<lambda>_. None, ev_fresh = 0, ev_front = None, ev_new = None, ev_size = 0, ev_held = []\<rparr>"

definition ev_at :: "'f event_obj \<Rightarrow> nat \<Rightarrow> 'f ev_node" where
  "ev_at e n = the (ev_nodes e n)"

definition ev_upd :: "nat \<Rightarrow> ('f ev_node \<Rightarrow> 'f ev_node) \<Rightarrow> 'f event_obj \<Rightarrow> 'f event_obj" where
  "ev_upd n f e = e\<lparr>ev_nodes := (ev_nodes e)(n := map_option f (ev_nodes e n))\<rparr>"

section \<open>Lifetimes\<close>

definition ev_owned :: "'f event_obj \<Rightarrow> nat \<Rightarrow> bool" where
  "ev_owned e n \<longleftrightarrow> ev_front e = Some n \<or> ev_new e = Some n \<or> n \<in> set (ev_held e)
     \<or> list_ex (\<lambda>m. case ev_nodes e m of None \<Rightarrow> False | Some d \<Rightarrow> ev_next d = Some n) [0..<ev_fresh e]"

definition ev_orphans :: "'f event_obj \<Rightarrow> nat list" where
  "ev_orphans e = filter (\<lambda>n. ev_nodes e n \<noteq> None \<and> \<not> ev_owned e n) [0..<ev_fresh e]"

definition ev_destroy :: "nat \<Rightarrow> 'f event_obj \<Rightarrow> 'f event_obj" where
  "ev_destroy n e = e\<lparr>ev_size := ev_size e - 1, ev_nodes := (ev_nodes e)(n := None)\<rparr>"

text \<open>Nodes without an owner go, and those only they owned after them.\<close>

fun ev_release :: "nat \<Rightarrow> 'f event_obj \<Rightarrow> 'f event_obj" where
  "ev_release 0 e = e"
| "ev_release (Suc k) e = (case ev_orphans e of [] \<Rightarrow> e | n # _ \<Rightarrow> ev_release k (ev_destroy n e))"

definition ev_drop :: "nat \<Rightarrow> 'f event_obj \<Rightarrow> 'f event_obj" where
  "ev_drop n e = (let e = e\<lparr>ev_held := remove1 n (ev_held e)\<rparr> in ev_release (ev_fresh e) e)"

text \<open>The end of a section under the mutex: a destructor in it would have locked again.\<close>

definition ev_unlock :: "'f event_obj \<Rightarrow> (ev_error + unit) \<times> 'f event_obj" where
  "ev_unlock e = (if ev_orphans e = [] then (Inr (), e) else (Inl Self_deadlock, e))"

section \<open>Operations\<close>

definition ev_append :: "'f \<Rightarrow> u64 \<Rightarrow> 'f event_obj \<Rightarrow> (ev_error + nat) \<times> 'f event_obj" where
  "ev_append f prio e =
     (let n = ev_fresh e;
          prev_front = ev_new e;
          e = e\<lparr>ev_nodes := (ev_nodes e)(n \<mapsto> \<lparr>ev_prio = prio, ev_prev = None, ev_next = None, ev_fn = f\<rparr>), ev_fresh := n + 1, ev_new := Some n\<rparr>;
          e = (case prev_front of None \<Rightarrow> e | Some m \<Rightarrow> ev_upd m (\<lambda>d. d\<lparr>ev_prev := Some n\<rparr>) e);
          e = ev_upd n (\<lambda>d. d\<lparr>ev_next := prev_front\<rparr>) e
      in (Inr n, e\<lparr>ev_size := ev_size e + 1\<rparr>))"

definition ev_add :: "'f \<Rightarrow> event_priority \<Rightarrow> u64 \<Rightarrow> 'f event_obj \<Rightarrow> (ev_error + nat) \<times> 'f event_obj" where
  "ev_add f prio val = ev_append f (prio_value prio + val)"

definition ev_detach :: "nat \<Rightarrow> 'f event_obj \<Rightarrow> (ev_error + unit) \<times> 'f event_obj" where
  "ev_detach n e =
     (case ev_nodes e n of
        None \<Rightarrow> (Inl Ev_dangling, e)
      | Some d \<Rightarrow>
          let e = (if ev_new e = Some n then e\<lparr>ev_new := ev_next d\<rparr>
                   else if ev_front e = Some n then e\<lparr>ev_front := ev_next d\<rparr> else e);
              prev = (case ev_prev d of None \<Rightarrow> None | Some p \<Rightarrow> if ev_nodes e p = None then None else Some p);
              e = ev_upd n (\<lambda>d. d\<lparr>ev_next := None, ev_prev := None\<rparr>) e;
              e = (case ev_next d of None \<Rightarrow> e | Some x \<Rightarrow> ev_upd x (\<lambda>d. d\<lparr>ev_prev := prev\<rparr>) e);
              e = (case prev of None \<Rightarrow> e | Some p \<Rightarrow> ev_upd p (\<lambda>a. a\<lparr>ev_next := ev_next d\<rparr>) e)
          in ev_unlock e)"

text \<open>\<open>event_handle::expire\<close>: the handle is weak, the node is kept during the call.\<close>

definition ev_expire :: "nat \<Rightarrow> 'f event_obj \<Rightarrow> (ev_error + unit) \<times> 'f event_obj" where
  "ev_expire h e =
     (if ev_nodes e h = None then (Inr (), e)
      else seqE (ev_detach h) (\<lambda>_. updE (ev_drop h)) (e\<lparr>ev_held := h # ev_held e\<rparr>))"

text \<open>The inner loop of \<open>flush\<close>: the node to insert behind, none when it was attached at the end.\<close>

fun ev_seek :: "nat \<Rightarrow> nat \<Rightarrow> nat \<Rightarrow> 'f event_obj \<Rightarrow> (ev_error + nat option) \<times> 'f event_obj" where
  "ev_seek 0 n p e = (Inl Ev_runaway, e)"
| "ev_seek (Suc k) n p e =
     (if ev_prio (ev_at e p) > ev_prio (ev_at e n) then
        case ev_next (ev_at e p) of
          Some q \<Rightarrow> ev_seek k n q e
        | None \<Rightarrow> (Inr None, ev_upd n (\<lambda>d. d\<lparr>ev_prev := Some p\<rparr>) (ev_upd p (\<lambda>d. d\<lparr>ev_next := Some n\<rparr>) e))
      else (Inr (Some p), e))"

definition ev_place :: "nat \<Rightarrow> 'f event_obj \<Rightarrow> (ev_error + unit) \<times> 'f event_obj" where
  "ev_place n e =
     (let e = ev_upd n (\<lambda>d. d\<lparr>ev_prev := None, ev_next := None\<rparr>) e
      in case ev_front e of
           None \<Rightarrow> (Inr (), e\<lparr>ev_front := Some n\<rparr>)
         | Some p \<Rightarrow>
             seqE (ev_seek (ev_fresh e) n p) (\<lambda>found e.
               case found of
                 None \<Rightarrow> (Inr (), e)
               | Some p \<Rightarrow>
                   let nx = ev_next (ev_at e p);
                       e = (case nx of None \<Rightarrow> e | Some q \<Rightarrow> ev_upd q (\<lambda>d. d\<lparr>ev_prev := Some n\<rparr>) e);
                       e = ev_upd n (\<lambda>d. d\<lparr>ev_next := nx\<rparr>) e;
                       e = ev_upd p (\<lambda>d. d\<lparr>ev_next := Some n\<rparr>) e
                   in (Inr (), ev_upd n (\<lambda>d. d\<lparr>ev_prev := Some p\<rparr>) e)) e)"

fun ev_flush_loop :: "nat \<Rightarrow> 'f event_obj \<Rightarrow> (ev_error + unit) \<times> 'f event_obj" where
  "ev_flush_loop k e =
     (case ev_new e of
        None \<Rightarrow> ev_unlock e
      | Some n \<Rightarrow>
          (case k of 0 \<Rightarrow> (Inl Ev_runaway, e)
           | Suc k \<Rightarrow> seqE (ev_place n) (\<lambda>_. ev_flush_loop k) (e\<lparr>ev_new := ev_next (ev_at e n)\<rparr>)))"

declare ev_flush_loop.simps [simp del]

definition ev_flush :: "'f event_obj \<Rightarrow> (ev_error + unit) \<times> 'f event_obj" where
  "ev_flush e = ev_flush_loop (ev_fresh e) e"

section \<open>Invoking\<close>

datatype 'f ev_act = Ev_append 'f u64 | Ev_remove nat

type_synonym ('f, 'a) ev_body = "'f \<Rightarrow> 'a \<Rightarrow> 'a \<times> 'f ev_act list \<times> nat"

fun ev_acts :: "'f ev_act list \<Rightarrow> 'f event_obj \<Rightarrow> (ev_error + unit) \<times> 'f event_obj" where
  "ev_acts [] = retE ()"
| "ev_acts (Ev_append f prio # acts) = seqE (ev_append f prio) (\<lambda>_. ev_acts acts)"
| "ev_acts (Ev_remove h # acts) = seqE (ev_expire h) (\<lambda>_. ev_acts acts)"

text \<open>One round of \<open>invoke\<close>, for \<open>p_node\<close>: the mutex is free while the handler runs and a node that expired is
  let go, and taken again before \<open>p_node\<close> goes out of scope.\<close>

definition ev_round :: "nat \<Rightarrow> 'f ev_act list \<Rightarrow> bool \<Rightarrow> 'f event_obj \<Rightarrow> (ev_error + unit) \<times> 'f event_obj" where
  "ev_round n acts expired =
     seqE (ev_acts acts) (\<lambda>_.
     seqE (if expired then seqE (ev_detach n) (\<lambda>_. updE (ev_drop n)) else retE ()) (\<lambda>_ e.
     ev_unlock (if expired then e else e\<lparr>ev_held := remove1 n (ev_held e)\<rparr>)))"

fun ev_run :: "('f, 'a) ev_body \<Rightarrow> nat \<Rightarrow> nat option \<Rightarrow> 'a \<Rightarrow> 'f event_obj \<Rightarrow> (ev_error + 'a) \<times> 'f event_obj" where
  "ev_run body k None a e = (Inr a, e)"
| "ev_run body 0 (Some n) a e = (Inl Ev_runaway, e)"
| "ev_run body (Suc k) (Some n) a e =
     (let nx = ev_next (ev_at e n); (a, acts, ctl) = body (ev_fn (ev_at e n)) a; expired = (ctl AND ev_expires \<noteq> 0)
      in seqE (ev_round n acts expired) (\<lambda>_.
           if ctl AND ev_consumes \<noteq> 0 then seqE (updE (case nx of None \<Rightarrow> id | Some x \<Rightarrow> ev_drop x)) (\<lambda>_. retE a)
           else ev_run body k nx a)
         (e\<lparr>ev_held := (case nx of None \<Rightarrow> [] | Some x \<Rightarrow> [x]) @ ev_held e\<rparr>))"

definition ev_invoke :: "('f, 'a) ev_body \<Rightarrow> 'a \<Rightarrow> 'f event_obj \<Rightarrow> (ev_error + 'a) \<times> 'f event_obj" where
  "ev_invoke body a =
     seqE ev_flush (\<lambda>_ e. ev_run body (ev_fresh e) (ev_front e) a
       (e\<lparr>ev_held := (case ev_front e of None \<Rightarrow> [] | Some n \<Rightarrow> [n]) @ ev_held e\<rparr>))"

definition ev_empty :: "'f event_obj \<Rightarrow> bool" where
  "ev_empty e \<longleftrightarrow> ev_front e = None \<and> ev_new e = None"

text \<open>\<open>size()\<close> returns \<open>bool\<close>.\<close>

definition ev_size_member :: "'f event_obj \<Rightarrow> bool" where
  "ev_size_member e \<longleftrightarrow> ev_size e \<noteq> 0"

section \<open>Linked segments\<close>

type_synonym 'f entry = "nat \<times> u64 \<times> 'f"

fun dseg :: "(nat \<Rightarrow> 'f ev_node option) \<Rightarrow> nat option \<Rightarrow> nat option \<Rightarrow> 'f entry list \<Rightarrow> nat option \<Rightarrow> bool" where
  "dseg h pv p [] q \<longleftrightarrow> p = q"
| "dseg h pv p ((n, prio, f) # ts) q \<longleftrightarrow> p = Some n
     \<and> (\<exists>nx. h n = Some \<lparr>ev_prio = prio, ev_prev = pv, ev_next = nx, ev_fn = f\<rparr> \<and> dseg h (Some n) nx ts q)"

definition end_of :: "nat option \<Rightarrow> 'f entry list \<Rightarrow> nat option" where
  "end_of pv ts = (if ts = [] then pv else Some (fst (last ts)))"

definition start_of :: "'f entry list \<Rightarrow> nat option \<Rightarrow> nat option" where
  "start_of ts q = (case ts of [] \<Rightarrow> q | t # _ \<Rightarrow> Some (fst t))"

abbreviation ids :: "'f entry list \<Rightarrow> nat list" where "ids ts \<equiv> map fst ts"

lemma end_of_simps [simp]: "end_of pv [] = pv" "end_of pv (t # ts) = end_of (Some (fst t)) ts"
  by (simp_all add: end_of_def)

lemma start_of_simps [simp]: "start_of [] q = q" "start_of (t # ts) q = Some (fst t)"
  by (simp_all add: start_of_def)

lemma dseg_append: "dseg h pv p (ts @ us) q \<longleftrightarrow> (\<exists>r. dseg h pv p ts r \<and> dseg h (end_of pv ts) r us q)"
  by (induction h pv p ts q rule: dseg.induct) auto

lemma dseg_start: "dseg h pv p ts q \<Longrightarrow> p = start_of ts q"
  by (cases ts) auto

lemma dseg_frame: "n \<notin> fst ` set ts \<Longrightarrow> dseg (h(n := x)) pv p ts q = dseg h pv p ts q"
  by (induction h pv p ts q rule: dseg.induct) auto

lemma dseg_alive: "dseg h pv p ts q \<Longrightarrow> n \<in> fst ` set ts \<Longrightarrow> h n \<noteq> None"
  by (induction h pv p ts q rule: dseg.induct) auto

lemma dseg_owned:
  "dseg h pv p ts q \<Longrightarrow> n \<in> fst ` set ts \<Longrightarrow> p = Some n \<or> (\<exists>m d. m \<in> fst ` set ts \<and> h m = Some d \<and> ev_next d = Some n)"
proof (induction h pv p ts q rule: dseg.induct)
  case (2 h pv p m prio f ts q)
  show ?case
  proof (cases "n = m")
    case False
    obtain nx where nx: "h m = Some \<lparr>ev_prio = prio, ev_prev = pv, ev_next = nx, ev_fn = f\<rparr>" "dseg h (Some m) nx ts q"
      using "2.prems"(1) by auto
    have "n \<in> fst ` set ts" using False "2.prems"(2) by simp
    from "2.IH" [OF nx(2) this] show ?thesis
    proof
      assume "nx = Some n"
      then show ?thesis using nx(1) by (intro disjI2 exI [where x = m]) simp
    qed auto
  qed (use 2 in simp)
qed simp

text \<open>Taking a node out, on either side.\<close>

lemma dseg_set_prev:
  assumes "dseg h pv p ts q" "distinct (ids ts)"
  shows "dseg (case p of None \<Rightarrow> h | Some x \<Rightarrow> if ts = [] then h else h(x := map_option (\<lambda>d. d\<lparr>ev_prev := pv'\<rparr>) (h x))) pv' p ts q"
proof (cases ts)
  case (Cons t us)
  then show ?thesis using assms by (cases t) (auto simp: dseg_frame)
qed (use assms in simp)

lemma dseg_set_next:
  assumes "dseg h pv p (ts @ [t]) q" "distinct (ids (ts @ [t]))"
  shows "dseg (h(fst t := map_option (\<lambda>d. d\<lparr>ev_next := q'\<rparr>) (h (fst t)))) pv p (ts @ [t]) q'"
proof -
  have "fst t \<notin> fst ` set ts" using assms(2) by simp
  then show ?thesis using assms by (cases t) (auto simp: dseg_append dseg_frame)
qed

section \<open>The invariant\<close>

text \<open>The handlers \<open>q\<close> in the list and \<open>p\<close> in front of it (the newest first), all of them alive; a living node
  outside is held by a running call and points nowhere; \<open>size_\<close> counts the living.\<close>

definition ev_wfp :: "nat option \<Rightarrow> 'f entry list \<Rightarrow> 'f entry list \<Rightarrow> 'f event_obj \<Rightarrow> bool" where
  "ev_wfp pv q p e \<longleftrightarrow> dseg (ev_nodes e) None (ev_front e) q None \<and> dseg (ev_nodes e) pv (ev_new e) p None
     \<and> distinct (ids (q @ p))
     \<and> (\<forall>n d. ev_nodes e n = Some d \<longrightarrow> n < ev_fresh e
          \<and> (n \<in> fst ` set (q @ p) \<or> n \<in> set (ev_held e) \<and> ev_next d = None \<and> ev_prev d = None))
     \<and> (\<forall>n \<in> set (ev_held e). ev_nodes e n \<noteq> None) \<and> ev_size e = card (dom (ev_nodes e))"

abbreviation ev_wf :: "'f entry list \<Rightarrow> 'f entry list \<Rightarrow> 'f event_obj \<Rightarrow> bool" where "ev_wf \<equiv> ev_wfp None"

lemma ev_wf_new: "ev_wf [] [] event_new"
  by (simp add: ev_wfp_def event_new_def)

lemma ev_wf_finite: "ev_wfp pv q p e \<Longrightarrow> finite (dom (ev_nodes e))"
  by (rule finite_subset [where B = "{..<ev_fresh e}"]) (auto simp: ev_wfp_def)

lemma ev_wf_node: "ev_wfp pv q p e \<Longrightarrow> ev_nodes e n = Some d \<Longrightarrow> n < ev_fresh e
    \<and> (n \<in> fst ` set (q @ p) \<or> n \<in> set (ev_held e) \<and> ev_next d = None \<and> ev_prev d = None)"
  by (simp add: ev_wfp_def)

lemma ev_wf_held: "ev_wfp pv q p e \<Longrightarrow> n \<in> set (ev_held e) \<Longrightarrow> \<exists>d. ev_nodes e n = Some d"
  by (simp add: ev_wfp_def)

lemma ev_wf_alive: "ev_wfp pv q p e \<Longrightarrow> n \<in> fst ` set (q @ p) \<Longrightarrow> \<exists>d. ev_nodes e n = Some d \<and> n < ev_fresh e"
  unfolding ev_wfp_def using dseg_alive by (metis Un_iff image_Un not_Some_eq set_append)

lemma ev_wf_owned: "ev_wfp pv q p e \<Longrightarrow> n \<in> fst ` set (q @ p) \<Longrightarrow> ev_owned e n"
proof -
  assume wf: "ev_wfp pv q p e" and n: "n \<in> fst ` set (q @ p)"
  then consider "ev_front e = Some n" | "ev_new e = Some n" | m d where "ev_nodes e m = Some d" "ev_next d = Some n" "m < ev_fresh e"
    unfolding ev_wfp_def using dseg_owned [of "ev_nodes e"] by (metis Un_iff image_Un set_append)
  then show ?thesis by cases (auto simp: ev_owned_def list_ex_iff split: option.splits)
qed

lemma ev_wf_orphans: "ev_wfp pv q p e \<Longrightarrow> ev_orphans e = []"
proof -
  assume wf: "ev_wfp pv q p e"
  have "ev_owned e n" if "ev_nodes e n \<noteq> None" for n
    using that ev_wf_node [OF wf, of n] ev_wf_owned [OF wf, of n] by (auto simp: ev_owned_def)
  then show ?thesis unfolding ev_orphans_def filter_empty_conv by blast
qed

lemma ev_unlock_wf [simp]: "ev_wfp pv q p e \<Longrightarrow> ev_unlock e = (Inr (), e)"
  by (simp add: ev_unlock_def ev_wf_orphans)

lemma ev_release_wf: "ev_wfp pv q p e \<Longrightarrow> ev_release k e = e"
  by (cases k) (simp_all add: ev_wf_orphans)

lemma filter_upt_single: "n < N \<Longrightarrow> filter (\<lambda>m. m = n) [0..<N] = [n]"
  by (induction N) (auto simp: less_Suc_eq filter_empty_conv)

text \<open>A call lets go of a node: it lives on in a list or with another holder, or it is destroyed.\<close>

lemma ev_unhold:
  assumes "ev_wfp pv q p e" "n \<in> set (ev_held e)"
  defines "e' \<equiv> e\<lparr>ev_held := remove1 n (ev_held e)\<rparr>"
  shows "if n \<in> fst ` set (q @ p) \<or> n \<in> set (ev_held e') then ev_wfp pv q p e'
    else ev_orphans e' = [n] \<and> ev_wfp pv q p (ev_destroy n e')"
proof (cases "n \<in> fst ` set (q @ p) \<or> n \<in> set (ev_held e')")
  case True
  have s: "m \<in> set (remove1 n (ev_held e)) \<longleftrightarrow> m \<in> set (ev_held e)" if "m \<noteq> n" for m using that by simp
  have "set (ev_held e') \<subseteq> set (ev_held e)" by (simp add: e'_def set_remove1_subset)
  moreover have "m \<in> fst ` set (q @ p) \<or> m \<in> set (ev_held e') \<and> ev_next d = None \<and> ev_prev d = None" if "ev_nodes e m = Some d" for m d
    using ev_wf_node [OF assms(1) that] True s [of m] by (cases "m = n") (auto simp: e'_def)
  ultimately have "ev_wfp pv q p e'" using assms(1) unfolding ev_wfp_def e'_def by (simp add: subset_iff)
  then show ?thesis using True by simp
next
  case False
  obtain d where d: "ev_nodes e n = Some d" "n < ev_fresh e" "ev_next d = None"
    using ev_wf_held [OF assms(1,2)] ev_wf_node [OF assms(1), of n] False by auto
  have no: "\<not> ev_owned e' n"
  proof
    assume "ev_owned e' n"
    then consider "ev_front e = Some n" | "ev_new e = Some n" | m dm where "ev_nodes e m = Some dm" "ev_next dm = Some n"
      using False by (auto simp: ev_owned_def e'_def list_ex_iff split: option.splits)
    then show False
    proof cases
      case 1 then show False using assms(1) False by (cases q) (auto simp: ev_wfp_def)
    next
      case 2 then show False using assms(1) False by (cases p) (auto simp: ev_wfp_def)
    next
      case (3 m dm)
      then have m: "m \<in> fst ` set q \<or> m \<in> fst ` set p" using ev_wf_node [OF assms(1) 3(1)] by auto
      have "n \<in> fst ` set ts" if seg: "dseg (ev_nodes e) pv' s ts None" "m \<in> fst ` set ts" for ts pv' s
      proof -
        obtain ts1 t ts2 where "ts = ts1 @ t # ts2" "fst t = m" using seg(2) by (metis imageE split_list)
        then show ?thesis using seg(1) 3 by (cases t; cases ts2) (auto simp: dseg_append)
      qed
      then show False using m assms(1) False by (auto simp: ev_wfp_def)
    qed
  qed
  have others: "ev_owned e' m" if "ev_nodes e m \<noteq> None" "m \<noteq> n" for m
    using that ev_wf_node [OF assms(1), of m] ev_wf_owned [OF assms(1), of m] by (auto simp: ev_owned_def e'_def)
  have "ev_orphans e' = filter (\<lambda>m. m = n) [0..<ev_fresh e]"
    using no others d by (auto simp: ev_orphans_def e'_def intro!: filter_cong)
  also have "\<dots> = [n]" by (rule filter_upt_single [OF d(2)])
  finally have o: "ev_orphans e' = [n]" .
  have frame: "dseg ((ev_nodes e)(n := None)) pv' s ts None" if "dseg (ev_nodes e) pv' s ts None" "set ts \<subseteq> set (q @ p)" for pv' s ts
    using that False by (subst dseg_frame) auto
  have "card (dom (ev_nodes e) - {n}) = card (dom (ev_nodes e)) - 1"
    using d ev_wf_finite [OF assms(1)] by (simp add: card_Diff_singleton domI)
  then have "ev_wfp pv q p (ev_destroy n e')"
    using assms(1) False frame unfolding ev_wfp_def ev_destroy_def e'_def
    by (auto simp: in_set_remove1 dest: notin_set_remove1 split: if_splits)
  then show ?thesis using False o by simp
qed

lemma ev_drop_wf:
  assumes "ev_wfp pv q p e" "n \<in> set (ev_held e)"
  shows "ev_wfp pv q p (ev_drop n e) \<and> ev_held (ev_drop n e) = remove1 n (ev_held e) \<and> ev_fresh (ev_drop n e) = ev_fresh e"
proof (cases "n \<in> fst ` set (q @ p) \<or> n \<in> set (remove1 n (ev_held e))")
  case True
  then have "ev_wfp pv q p (e\<lparr>ev_held := remove1 n (ev_held e)\<rparr>)" using ev_unhold [OF assms] by auto
  then show ?thesis by (simp add: ev_drop_def ev_release_wf)
next
  case False
  let ?e = "e\<lparr>ev_held := remove1 n (ev_held e)\<rparr>"
  have 1: "ev_orphans ?e = [n]" "ev_wfp pv q p (ev_destroy n ?e)" using ev_unhold [OF assms] False by auto
  obtain k where "ev_fresh e = Suc k" using 1(1) by (cases "ev_fresh e") (auto simp: ev_orphans_def)
  then have "ev_drop n e = ev_destroy n ?e" using 1 by (simp add: ev_drop_def ev_release_wf)
  then show ?thesis using 1(2) by (simp add: ev_destroy_def)
qed

section \<open>Taking a node out\<close>

type_synonym 'f ev_heap = "nat \<Rightarrow> 'f ev_node option"

definition set_prev :: "nat option \<Rightarrow> nat option \<Rightarrow> 'f ev_heap \<Rightarrow> 'f ev_heap" where
  "set_prev x p h = (case x of None \<Rightarrow> h | Some x \<Rightarrow> h(x := map_option (\<lambda>d. d\<lparr>ev_prev := p\<rparr>) (h x)))"

definition set_next :: "nat option \<Rightarrow> nat option \<Rightarrow> 'f ev_heap \<Rightarrow> 'f ev_heap" where
  "set_next x q h = (case x of None \<Rightarrow> h | Some x \<Rightarrow> h(x := map_option (\<lambda>d. d\<lparr>ev_next := q\<rparr>) (h x)))"

lemma dom_set_prev [simp]: "dom (set_prev x p h) = dom h"
  by (auto simp: set_prev_def split: option.splits if_splits)

lemma dom_set_next [simp]: "dom (set_next x p h) = dom h"
  by (auto simp: set_next_def split: option.splits if_splits)

lemma set_prev_other [simp]: "x \<noteq> Some n \<Longrightarrow> set_prev x p h n = h n"
  by (auto simp: set_prev_def split: option.splits)

lemma set_next_other [simp]: "x \<noteq> Some n \<Longrightarrow> set_next x p h n = h n"
  by (auto simp: set_next_def split: option.splits)

lemma dseg_set_prev_frame: "\<forall>n. x = Some n \<longrightarrow> n \<notin> fst ` set ts \<Longrightarrow> dseg (set_prev x p h) pv s ts q = dseg h pv s ts q"
  by (cases x) (simp_all add: set_prev_def dseg_frame)

lemma dseg_set_next_frame: "\<forall>n. x = Some n \<longrightarrow> n \<notin> fst ` set ts \<Longrightarrow> dseg (set_next x p h) pv s ts q = dseg h pv s ts q"
  by (cases x) (simp_all add: set_next_def dseg_frame)

lemma dseg_relink_prev:
  "dseg h pv s ts None \<Longrightarrow> distinct (ids ts) \<Longrightarrow> dseg (set_prev (start_of ts None) pv' h) pv' s ts None"
  by (cases ts) (auto simp: set_prev_def dseg_frame)

lemma dseg_relink_next:
  "dseg h None s ts q \<Longrightarrow> distinct (ids ts) \<Longrightarrow> dseg (set_next (end_of None ts) q' h) None (start_of ts q') ts q'"
proof (cases ts rule: rev_cases)
  case (snoc us u)
  assume a: "dseg h None s ts q" "distinct (ids ts)"
  then have "fst u \<notin> fst ` set us" using snoc by simp
  moreover have "s = start_of ts q'" using dseg_start [OF a(1)] snoc by (cases us) simp_all
  ultimately show ?thesis using a snoc by (cases u) (auto simp: set_next_def end_of_def dseg_append dseg_frame)
qed (simp add: set_next_def)

lemma end_of_in: "end_of None ts = Some n \<Longrightarrow> n \<in> fst ` set ts"
  by (auto simp: end_of_def split: if_splits)

lemma start_of_in: "start_of ts None = Some n \<Longrightarrow> n \<in> fst ` set ts"
  by (cases ts) auto

definition unlinked :: "nat \<Rightarrow> nat option \<Rightarrow> nat option \<Rightarrow> 'f ev_heap \<Rightarrow> 'f ev_heap" where
  "unlinked n pv nx h = set_next pv nx (set_prev nx pv (h(n := map_option (\<lambda>d. d\<lparr>ev_next := None, ev_prev := None\<rparr>) (h n))))"

lemma dom_unlinked [simp]: "dom (unlinked n pv nx h) = dom h"
  by (auto simp: unlinked_def split: if_splits)

lemma dseg_unlink:
  assumes "dseg h None s (ts @ (n, prio, f) # us) None" "distinct (ids (ts @ (n, prio, f) # us))"
  shows "h n = Some \<lparr>ev_prio = prio, ev_prev = end_of None ts, ev_next = start_of us None, ev_fn = f\<rparr>"
    and "dseg (unlinked n (end_of None ts) (start_of us None) h) None (start_of ts (start_of us None)) (ts @ us) None"
    and "unlinked n (end_of None ts) (start_of us None) h n = Some \<lparr>ev_prio = prio, ev_prev = None, ev_next = None, ev_fn = f\<rparr>"
proof -
  obtain nx where 1: "dseg h None s ts (Some n)" "h n = Some \<lparr>ev_prio = prio, ev_prev = end_of None ts, ev_next = nx, ev_fn = f\<rparr>"
    "dseg h (Some n) nx us None"
    using assms(1) by (auto simp: dseg_append)
  have nx: "nx = start_of us None" using 1(3) by (rule dseg_start)
  show "h n = Some \<lparr>ev_prio = prio, ev_prev = end_of None ts, ev_next = start_of us None, ev_fn = f\<rparr>" using 1(2) nx by simp
  have d: "distinct (ids ts)" "distinct (ids us)" "fst ` set ts \<inter> fst ` set us = {}" "n \<notin> fst ` set ts" "n \<notin> fst ` set us"
    using assms(2) by auto
  have e: "\<forall>m. end_of None ts = Some m \<longrightarrow> m \<notin> fst ` set us" "\<forall>m. start_of us None = Some m \<longrightarrow> m \<notin> fst ` set ts"
    "end_of None ts \<noteq> Some n" "start_of us None \<noteq> Some n"
    using d end_of_in [of ts n] end_of_in [of ts] start_of_in [of us n] start_of_in [of us] by (metis disjoint_iff)+
  let ?h1 = "h(n := map_option (\<lambda>d. d\<lparr>ev_next := None, ev_prev := None\<rparr>) (h n))"
  let ?h2 = "set_prev (start_of us None) (end_of None ts) ?h1" and ?h3 = "unlinked n (end_of None ts) (start_of us None) h"
  have "dseg ?h1 None s ts (Some n)" "dseg ?h1 (Some n) (start_of us None) us None"
    using 1 nx d by (simp_all add: dseg_frame)
  then have "dseg ?h2 None s ts (Some n)" "dseg ?h2 (end_of None ts) (start_of us None) us None"
    using e(2) dseg_relink_prev [OF _ d(2)] by (simp_all add: dseg_set_prev_frame)
  then have "dseg ?h3 None (start_of ts (start_of us None)) ts (start_of us None)" "dseg ?h3 (end_of None ts) (start_of us None) us None"
    unfolding unlinked_def using e(1) dseg_relink_next [OF _ d(1)] by (simp_all add: dseg_set_next_frame)
  then show "dseg ?h3 None (start_of ts (start_of us None)) (ts @ us) None"
    unfolding dseg_append by blast
  show "unlinked n (end_of None ts) (start_of us None) h n = Some \<lparr>ev_prio = prio, ev_prev = None, ev_next = None, ev_fn = f\<rparr>"
    using e 1(2) by (simp add: unlinked_def)
qed

section \<open>The operations in terms of lists\<close>

definition without :: "nat \<Rightarrow> 'f entry list \<Rightarrow> 'f entry list" where
  "without n ts = filter (\<lambda>t. fst t \<noteq> n) ts"

lemma without_notin: "n \<notin> fst ` set ts \<Longrightarrow> without n ts = ts"
  by (auto simp: without_def filter_id_conv)

lemma without_split: "distinct (ids (ts @ (n, prio, f) # us)) \<Longrightarrow> without n (ts @ (n, prio, f) # us) = ts @ us"
  using without_notin [of n ts] without_notin [of n us] by (simp add: without_def)

lemma set_without: "set (without n ts) = {t \<in> set ts. fst t \<noteq> n}"
  by (simp add: without_def)

lemma distinct_without: "distinct (ids ts) \<Longrightarrow> distinct (ids (without n ts))"
  by (simp add: without_def distinct_map_filter)

lemma ev_detach_nodes:
  assumes "ev_nodes e n = Some d" "\<And>p. ev_prev d = Some p \<Longrightarrow> ev_nodes e p \<noteq> None"
  shows "ev_detach n e = ev_unlock (e\<lparr>ev_nodes := unlinked n (ev_prev d) (ev_next d) (ev_nodes e),
     ev_new := (if ev_new e = Some n then ev_next d else ev_new e),
     ev_front := (if ev_new e \<noteq> Some n \<and> ev_front e = Some n then ev_next d else ev_front e)\<rparr>)"
  using assms
  by (cases e; cases "ev_prev d"; cases "ev_next d")
    (auto simp: ev_detach_def ev_upd_def unlinked_def set_prev_def set_next_def fun_upd_twist)

lemma ev_wf_split:
  assumes "ev_wfp None q p e" "n \<in> fst ` set q"
  obtains ts prio f us where "q = ts @ (n, prio, f) # us"
  using assms(2) by (metis imageE prod.collapse split_list)

lemma ev_detach_wf:
  assumes wf: "ev_wf q p e" and held: "n \<in> set (ev_held e)"
  shows "\<exists>e'. ev_detach n e = (Inr (), e') \<and> ev_wf (without n q) (without n p) e' \<and> ev_held e' = ev_held e \<and> ev_fresh e' = ev_fresh e"
proof -
  obtain d where d: "ev_nodes e n = Some d" using ev_wf_held [OF assms] by blast
  have q: "dseg (ev_nodes e) None (ev_front e) q None" and p: "dseg (ev_nodes e) None (ev_new e) p None"
    and dist: "distinct (ids q)" "distinct (ids p)" "fst ` set q \<inter> fst ` set p = {}"
    using wf by (auto simp: ev_wfp_def)
  let ?h = "unlinked n (ev_prev d) (ev_next d) (ev_nodes e)"
  let ?e = "e\<lparr>ev_nodes := ?h, ev_new := (if ev_new e = Some n then ev_next d else ev_new e),
     ev_front := (if ev_new e \<noteq> Some n \<and> ev_front e = Some n then ev_next d else ev_front e)\<rparr>"
  have heads: "ev_front e = start_of q None" "ev_new e = start_of p None" using q p dseg_start by blast+
  have frame: "dseg ?h None s ts None" if "dseg (ev_nodes e) None s ts None" "n \<notin> fst ` set ts"
      "\<forall>m. ev_prev d = Some m \<longrightarrow> m \<notin> fst ` set ts" "\<forall>m. ev_next d = Some m \<longrightarrow> m \<notin> fst ` set ts" for s ts
    using that by (simp add: unlinked_def dseg_set_next_frame dseg_set_prev_frame dseg_frame)
  have chains: "dseg ?h None (ev_front ?e) (without n q) None \<and> dseg ?h None (ev_new ?e) (without n p) None
      \<and> (\<forall>m. ev_prev d = Some m \<longrightarrow> ev_nodes e m \<noteq> None) \<and> (\<exists>d'. ?h n = Some d' \<and> ev_next d' = None \<and> ev_prev d' = None)
      \<and> (\<forall>m. m \<noteq> n \<and> m \<notin> fst ` set (q @ p) \<longrightarrow> ?h m = ev_nodes e m)"
  proof -
    have one: "dseg ?h None (if s = Some n then ev_next d else s) (without n ts) None \<and> dseg ?h None s' us None
      \<and> (\<forall>m. ev_prev d = Some m \<longrightarrow> ev_nodes e m \<noteq> None) \<and> (\<exists>d'. ?h n = Some d' \<and> ev_next d' = None \<and> ev_prev d' = None)
      \<and> (\<forall>m. m \<noteq> n \<and> m \<notin> fst ` set ts \<longrightarrow> ?h m = ev_nodes e m)"
      if ts: "dseg (ev_nodes e) None s ts None" "distinct (ids ts)" "n \<in> fst ` set ts"
        and us: "dseg (ev_nodes e) None s' us None" "fst ` set us \<inter> fst ` set ts = {}" for s ts s' us
    proof -
      obtain ts1 prio f ts2 where split: "ts = ts1 @ (n, prio, f) # ts2" using ts(3) by (metis imageE prod.collapse split_list)
      note u = dseg_unlink [OF ts(1,2) [unfolded split]]
      have dd: "d = \<lparr>ev_prio = prio, ev_prev = end_of None ts1, ev_next = start_of ts2 None, ev_fn = f\<rparr>" using d u(1) by simp
      have s: "s = start_of ts None" using ts(1) by (rule dseg_start)
      have n: "n \<notin> fst ` set ts1" "n \<notin> fst ` set ts2" using ts(2) split by auto
      have st: "(if s = Some n then ev_next d else s) = start_of ts1 (start_of ts2 None)"
        using n(1) by (cases ts1) (auto simp: s split dd)
      have in1: "\<And>m. ev_prev d = Some m \<Longrightarrow> m \<in> fst ` set ts" "\<And>m. ev_next d = Some m \<Longrightarrow> m \<in> fst ` set ts"
        using end_of_in start_of_in dd split by fastforce+
      have "dseg ?h None s' us None" using us in1 ts(3) by (intro frame) blast+
      moreover have "?h m = ev_nodes e m" if "m \<noteq> n" "m \<notin> fst ` set ts" for m
      proof -
        have "ev_prev d \<noteq> Some m" "ev_next d \<noteq> Some m" using that in1 by blast+
        then show ?thesis using that(1) by (simp add: unlinked_def)
      qed
      moreover have "\<forall>m. ev_prev d = Some m \<longrightarrow> ev_nodes e m \<noteq> None" using in1(1) dseg_alive [OF ts(1)] by blast
      ultimately show ?thesis unfolding st using u(2,3) without_split [OF ts(2) [unfolded split]] split by (simp add: dd)
    qed
    consider "n \<in> fst ` set q" | "n \<in> fst ` set p" | "n \<notin> fst ` set (q @ p)" by auto
    then show ?thesis
    proof cases
      case 1
      then have "n \<notin> fst ` set p" using dist by blast
      moreover from this have "ev_new e \<noteq> Some n" using heads(2) start_of_in by metis
      ultimately show ?thesis using one [OF q dist(1) 1 p] dist(3) by (simp add: without_notin Int_commute image_Un)
    next
      case 2
      then have nq: "n \<notin> fst ` set q" using dist by blast
      then have "ev_front e \<noteq> Some n" using heads(1) start_of_in by metis
      then show ?thesis using one [OF p dist(2) 2 q] dist(3) nq by (simp add: without_notin Int_commute image_Un)
    next
      case 3
      have dd: "ev_next d = None" "ev_prev d = None" using ev_wf_node [OF wf d] 3 by auto
      then have "?h = ev_nodes e" using d by (simp add: unlinked_def set_prev_def set_next_def fun_upd_idem)
      moreover have "ev_front e \<noteq> Some n" "ev_new e \<noteq> Some n" using 3 heads start_of_in [of q n] start_of_in [of p n] by auto
      ultimately show ?thesis using 3 q p d dd by (simp add: without_notin image_Un)
    qed
  qed
  have "ev_wf (without n q) (without n p) ?e"
  proof -
    have "m < ev_fresh e \<and> (m \<in> fst ` set (without n q @ without n p) \<or> m \<in> set (ev_held e) \<and> ev_next d' = None \<and> ev_prev d' = None)"
      if m: "?h m = Some d'" for m d'
    proof -
      have "m \<in> dom ?h" using m by blast
      then obtain d0 where d0: "ev_nodes e m = Some d0" by auto
      have l: "m < ev_fresh e" using ev_wf_node [OF wf d0] by simp
      show ?thesis
      proof (cases "m = n \<or> m \<in> fst ` set (q @ p)")
        case True
        then show ?thesis using chains m l held by (cases "m = n") (auto simp: set_without)
      next
        case False
        then have "d0 = d'" using chains m d0 by (metis option.inject)
        then show ?thesis using ev_wf_node [OF wf d0] False by auto
      qed
    qed
    moreover have "\<forall>m \<in> set (ev_held e). ?h m \<noteq> None" using ev_wf_held [OF wf] dom_unlinked [of n _ _ "ev_nodes e"] by blast
    moreover have "ev_size e = card (dom ?h)" using wf by (simp add: ev_wfp_def)
    moreover have "distinct (ids (without n q @ without n p))" using dist by (auto simp: distinct_without set_without)
    ultimately show ?thesis using chains by (simp add: ev_wfp_def)
  qed
  moreover have "ev_detach n e = ev_unlock ?e" by (rule ev_detach_nodes [OF d]) (use chains in blast)
  ultimately show ?thesis by auto
qed

lemma without_dead: "ev_wf q p e \<Longrightarrow> ev_nodes e h = None \<Longrightarrow> without h q = q \<and> without h p = p"
  using ev_wf_alive [of None q p e h] by (auto intro!: without_notin)

lemma ev_expire_wf:
  assumes wf: "ev_wf q p e"
  shows "\<exists>e'. ev_expire h e = (Inr (), e') \<and> ev_wf (without h q) (without h p) e' \<and> ev_held e' = ev_held e \<and> ev_fresh e' = ev_fresh e"
proof (cases "ev_nodes e h")
  case None
  then show ?thesis using wf without_dead [OF wf] by (simp add: ev_expire_def)
next
  case (Some d)
  let ?e = "e\<lparr>ev_held := h # ev_held e\<rparr>"
  have "ev_wf q p ?e" using wf Some by (auto simp: ev_wfp_def)
  from ev_detach_wf [OF this, of h] obtain e1 where e1: "ev_detach h ?e = (Inr (), e1)" "ev_wf (without h q) (without h p) e1"
    "ev_held e1 = h # ev_held e" "ev_fresh e1 = ev_fresh e" by auto
  then show ?thesis using ev_drop_wf [OF e1(2), of h] Some by (auto simp: ev_expire_def seqE_def updE_def)
qed

lemma ev_append_wf:
  assumes wf: "ev_wf q p e"
  shows "\<exists>e'. ev_append f prio e = (Inr (ev_fresh e), e') \<and> ev_wf q ((ev_fresh e, prio, f) # p) e'
    \<and> ev_held e' = ev_held e \<and> ev_fresh e' = Suc (ev_fresh e)"
proof -
  let ?n = "ev_fresh e"
  let ?d = "\<lparr>ev_prio = prio, ev_prev = None, ev_next = ev_new e, ev_fn = f\<rparr>"
  let ?h = "set_prev (ev_new e) (Some ?n) ((ev_nodes e)(?n \<mapsto> ?d))"
  have q: "dseg (ev_nodes e) None (ev_front e) q None" and p: "dseg (ev_nodes e) None (ev_new e) p None"
    and dist: "distinct (ids (q @ p))" using wf by (auto simp: ev_wfp_def)
  have dead: "ev_nodes e ?n = None" using ev_wf_node [OF wf, of ?n] by fastforce
  have fresh: "?n \<notin> fst ` set q" "?n \<notin> fst ` set p"
    using dead ev_wf_alive [OF wf, of ?n] by auto
  have new: "ev_new e = start_of p None" using p by (rule dseg_start)
  have nn: "ev_new e \<noteq> Some ?n" "\<forall>m. ev_new e = Some m \<longrightarrow> m \<notin> fst ` set q"
    using fresh dist new start_of_in [of p] by auto
  have hn: "?h ?n = Some ?d" using nn(1) by simp
  let ?e = "e\<lparr>ev_nodes := ?h, ev_fresh := Suc ?n, ev_new := Some ?n, ev_size := Suc (ev_size e)\<rparr>"
  have ap: "ev_append f prio e = (Inr ?n, ?e)"
    using nn(1) by (cases e; cases "ev_new e") (auto simp: ev_append_def ev_upd_def set_prev_def Let_def)
  have "dseg ?h None (ev_front e) q None"
    using q nn fresh by (simp add: dseg_set_prev_frame dseg_frame)
  moreover have "dseg ((ev_nodes e)(?n \<mapsto> ?d)) None (ev_new e) p None" using p fresh by (simp add: dseg_frame)
  then have "dseg ?h (Some ?n) (ev_new e) p None" using dseg_relink_prev dist new by (metis distinct_append map_append)
  then have "dseg ?h None (Some ?n) ((?n, prio, f) # p) None" using hn by simp
  moreover have "distinct (ids (q @ (?n, prio, f) # p))" using dist fresh by auto
  moreover have "m < Suc ?n \<and> (m \<in> fst ` set (q @ (?n, prio, f) # p) \<or> m \<in> set (ev_held e) \<and> ev_next d = None \<and> ev_prev d = None)"
    if m: "?h m = Some d" for m d
  proof (cases "m = ?n \<or> m \<in> fst ` set p")
    case True
    then have "m < Suc ?n" using ev_wf_alive [OF wf, of m] by (cases "m = ?n") (simp_all add: image_Un)
    then show ?thesis using True by auto
  next
    case False
    then have "ev_new e \<noteq> Some m" using new start_of_in by metis
    then have "ev_nodes e m = Some d" using m False by simp
    from ev_wf_node [OF wf this] show ?thesis by auto
  qed
  moreover have "\<forall>m \<in> set (ev_held e). ?h m \<noteq> None"
    using ev_wf_held [OF wf] dom_set_prev [of "ev_new e" "Some ?n" "(ev_nodes e)(?n \<mapsto> ?d)"] by (auto simp: dom_def)
  moreover have "dom ?h = insert ?n (dom (ev_nodes e))" by simp
  then have "Suc (ev_size e) = card (dom ?h)" using wf dead ev_wf_finite [OF wf] by (simp add: ev_wfp_def card_insert_disjoint domIff)
  ultimately have "ev_wf q ((?n, prio, f) # p) ?e" by (simp add: ev_wfp_def)
  then show ?thesis using ap by simp
qed

section \<open>Flushing\<close>

text \<open>Where the code puts a new handler: behind the first one whose priority is not higher, at the end if there
  is none.\<close>

fun place_in :: "'f entry \<Rightarrow> 'f entry list \<Rightarrow> 'f entry list" where
  "place_in t [] = [t]"
| "place_in t (u # us) = (if fst (snd u) > fst (snd t) then u # place_in t us else u # t # us)"

lemma set_place_in [simp]: "set (place_in t us) = insert t (set us)"
  by (induction us) auto

lemma distinct_place_in: "distinct (ids (place_in t us)) \<longleftrightarrow> fst t \<notin> fst ` set us \<and> distinct (ids us)"
  by (induction us) auto

lemma ev_seek_spec:
  assumes "length (u # us) \<le> k" "dseg (ev_nodes e) pv (Some (fst u)) (u # us) None" "ev_nodes e n = Some d" "ev_prio d = prio"
  shows "\<exists>ts m mp mf vs. u # us = ts @ (m, mp, mf) # vs \<and> place_in (n, prio, f) (u # us) = ts @ (m, mp, mf) # (n, prio, f) # vs
    \<and> (ev_seek k n (fst u) e = (Inr (Some m), e)
       \<or> vs = [] \<and> ev_seek k n (fst u) e = (Inr None, ev_upd n (\<lambda>d. d\<lparr>ev_prev := Some m\<rparr>) (ev_upd m (\<lambda>d. d\<lparr>ev_next := Some n\<rparr>) e)))"
  using assms(1,2)
proof (induction us arbitrary: k u pv)
  case Nil
  obtain m mp mf where u: "u = (m, mp, mf)" by (cases u)
  obtain k' where "k = Suc k'" using Nil(1) by (cases k) auto
  then show ?case using Nil(2) assms(3,4) u
    by (intro exI [where x = "[]"] exI [where x = m] exI [where x = mp] exI [where x = mf]) (auto simp: ev_at_def)
next
  case (Cons v us)
  obtain m mp mf where u: "u = (m, mp, mf)" by (cases u)
  obtain k' where k: "k = Suc k'" "length (v # us) \<le> k'" using Cons.prems(1) by (cases k) auto
  obtain nx where nx: "ev_nodes e m = Some \<lparr>ev_prio = mp, ev_prev = pv, ev_next = nx, ev_fn = mf\<rparr>" "dseg (ev_nodes e) (Some m) nx (v # us) None"
    using Cons.prems(2) u by auto
  have nv: "nx = Some (fst v)" using dseg_start [OF nx(2)] by simp
  show ?case
  proof (cases "mp > prio")
    case True
    from Cons.IH [OF k(2) nx(2) [unfolded nv]] obtain ts w wp wf vs where
      "v # us = ts @ (w, wp, wf) # vs" "place_in (n, prio, f) (v # us) = ts @ (w, wp, wf) # (n, prio, f) # vs"
      "ev_seek k' n (fst v) e = (Inr (Some w), e)
       \<or> vs = [] \<and> ev_seek k' n (fst v) e = (Inr None, ev_upd n (\<lambda>d. d\<lparr>ev_prev := Some w\<rparr>) (ev_upd w (\<lambda>d. d\<lparr>ev_next := Some n\<rparr>) e))"
      by blast
    moreover have "ev_seek k n (fst u) e = ev_seek k' n (fst v) e"
      using True u k nx(1) nv assms(3,4) by (simp add: ev_at_def)
    ultimately show ?thesis using True u
      by (intro exI [where x = "u # ts"] exI [where x = w] exI [where x = wp] exI [where x = wf] exI [where x = vs]) auto
  next
    case False
    then have "ev_seek k n (fst u) e = (Inr (Some m), e)" using u k nx(1) assms(3,4) by (simp add: ev_at_def)
    then show ?thesis using False u
      by (intro exI [where x = "[]"] exI [where x = m] exI [where x = mp] exI [where x = mf] exI [where x = "v # us"]) auto
  qed
qed

definition linked :: "nat \<Rightarrow> nat \<Rightarrow> nat option \<Rightarrow> 'f ev_heap \<Rightarrow> 'f ev_heap" where
  "linked n m nx h = set_prev (Some n) (Some m) (set_next (Some m) (Some n) (set_next (Some n) nx (set_prev nx (Some n) h)))"

lemma dom_linked [simp]: "dom (linked n m nx h) = dom h"
  by (simp add: linked_def)

lemma linked_other: "k \<noteq> n \<Longrightarrow> k \<noteq> m \<Longrightarrow> nx \<noteq> Some k \<Longrightarrow> linked n m nx h k = h k"
  by (simp add: linked_def)

lemma dseg_insert:
  assumes "dseg h None s (ts @ (m, mp, mf) # vs) None" "h n = Some \<lparr>ev_prio = prio, ev_prev = None, ev_next = None, ev_fn = f\<rparr>"
    and "distinct (ids (ts @ (m, mp, mf) # (n, prio, f) # vs))"
  shows "dseg (linked n m (start_of vs None) h) None s (ts @ (m, mp, mf) # (n, prio, f) # vs) None"
proof -
  let ?nx = "start_of vs None"
  obtain nx where 1: "dseg h None s ts (Some m)" "h m = Some \<lparr>ev_prio = mp, ev_prev = end_of None ts, ev_next = nx, ev_fn = mf\<rparr>"
    "dseg h (Some m) nx vs None"
    using assms(1) by (auto simp: dseg_append)
  have nx: "nx = ?nx" using 1(3) by (rule dseg_start)
  have d: "n \<noteq> m" "n \<notin> fst ` set ts" "m \<notin> fst ` set ts" "n \<notin> fst ` set vs" "m \<notin> fst ` set vs" "distinct (ids vs)"
    "fst ` set ts \<inter> fst ` set vs = {}" using assms(3) by auto
  have e: "?nx \<noteq> Some n" "?nx \<noteq> Some m" "\<forall>k. ?nx = Some k \<longrightarrow> k \<notin> fst ` set ts"
    using d(4,5,7) start_of_in [of vs] by (metis, metis, metis disjoint_iff)
  let ?h = "linked n m ?nx h"
  have "dseg ?h None s ts (Some m)"
    using 1(1) d(2,3) e(3) by (simp add: linked_def dseg_set_prev_frame dseg_set_next_frame)
  moreover have "dseg ?h (Some n) ?nx vs None"
    using dseg_relink_prev [OF 1(3) d(6)] d(4,5) nx by (simp add: linked_def dseg_set_prev_frame dseg_set_next_frame)
  moreover have "?h m = Some \<lparr>ev_prio = mp, ev_prev = end_of None ts, ev_next = Some n, ev_fn = mf\<rparr>"
    using 1(2) d(1) e by (simp add: linked_def set_next_def)
  moreover have "?h n = Some \<lparr>ev_prio = prio, ev_prev = Some m, ev_next = ?nx, ev_fn = f\<rparr>"
    using assms(2) d(1) e by (simp add: linked_def set_next_def set_prev_def split: option.split)
  ultimately show ?thesis by (auto simp: dseg_append)
qed

lemma ev_place_wf:
  assumes wf: "ev_wfp pv q ((n, prio, f) # p) e"
  shows "\<exists>e'. ev_place n (e\<lparr>ev_new := ev_next (ev_at e n)\<rparr>) = (Inr (), e') \<and> ev_wfp (Some n) (place_in (n, prio, f) q) p e'
    \<and> ev_held e' = ev_held e \<and> ev_fresh e' = ev_fresh e"
proof -
  obtain nx where nx: "ev_nodes e n = Some \<lparr>ev_prio = prio, ev_prev = pv, ev_next = nx, ev_fn = f\<rparr>" "dseg (ev_nodes e) (Some n) nx p None"
    and q: "dseg (ev_nodes e) None (ev_front e) q None" and dist: "distinct (ids (q @ (n, prio, f) # p))"
    using wf by (auto simp: ev_wfp_def)
  have n: "n \<notin> fst ` set q" "n \<notin> fst ` set p" "distinct (ids q)" "distinct (ids p)" "fst ` set q \<inter> fst ` set p = {}" using dist by auto
  let ?h = "(ev_nodes e)(n \<mapsto> \<lparr>ev_prio = prio, ev_prev = None, ev_next = None, ev_fn = f\<rparr>)"
  let ?e = "e\<lparr>ev_new := nx, ev_nodes := ?h\<rparr>"
  have e1: "ev_upd n (\<lambda>d. d\<lparr>ev_prev := None, ev_next := None\<rparr>) (e\<lparr>ev_new := ev_next (ev_at e n)\<rparr>) = ?e"
    using nx(1) by (simp add: ev_upd_def ev_at_def)
  have h: "dseg ?h None (ev_front e) q None" "dseg ?h (Some n) nx p None" using q nx(2) n by (simp_all add: dseg_frame)
  have alive: "m < ev_fresh e \<and> (m \<in> fst ` set (place_in (n, prio, f) q @ p) \<or> m \<in> set (ev_held e) \<and> ev_next d = None \<and> ev_prev d = None)"
    if "ev_nodes e m = Some d" for m d
    using ev_wf_node [OF wf that] by (auto simp: image_Un)
  have dom: "dom ?h = dom (ev_nodes e)" using nx(1) by (auto simp: dom_def)
  have keep: "ev_wfp (Some n) (place_in (n, prio, f) q) p (e\<lparr>ev_new := nx, ev_nodes := h', ev_front := s\<rparr>)"
    if h': "dseg h' None s (place_in (n, prio, f) q) None" "dseg h' (Some n) nx p None" "dom h' = dom (ev_nodes e)"
      "\<And>m. m \<notin> fst ` set q \<Longrightarrow> m \<noteq> n \<Longrightarrow> h' m = ev_nodes e m" for h' s
  proof -
    have "m < ev_fresh e \<and> (m \<in> fst ` set (place_in (n, prio, f) q @ p) \<or> m \<in> set (ev_held e) \<and> ev_next d = None \<and> ev_prev d = None)"
      if m: "h' m = Some d" for m d
    proof (cases "m \<in> fst ` set q \<or> m = n")
      case True
      have "m \<in> dom (ev_nodes e)" using m h'(3) by blast
      then show ?thesis using alive True by (auto simp: image_Un)
    qed (use h'(4) m alive in auto)
    moreover have "\<forall>m \<in> set (ev_held e). h' m \<noteq> None" using ev_wf_held [OF wf] h'(3) by blast
    moreover have "ev_size e = card (dom h')" using wf h'(3) by (simp add: ev_wfp_def)
    moreover have "distinct (ids (place_in (n, prio, f) q @ p))" using n by (auto simp: distinct_place_in)
    ultimately show ?thesis using h'(1,2) by (simp add: ev_wfp_def)
  qed
  show ?thesis
  proof (cases q)
    case Nil
    then have "ev_front e = None" using q by simp
    then have "ev_place n (e\<lparr>ev_new := ev_next (ev_at e n)\<rparr>) = (Inr (), e\<lparr>ev_new := nx, ev_nodes := ?h, ev_front := Some n\<rparr>)"
      unfolding ev_place_def e1 by (simp add: Let_def)
    moreover have "ev_wfp (Some n) (place_in (n, prio, f) q) p (e\<lparr>ev_new := nx, ev_nodes := ?h, ev_front := Some n\<rparr>)"
      by (rule keep) (use Nil h dom in simp_all)
    ultimately show ?thesis by simp
  next
    case (Cons u us)
    then have front: "ev_front e = Some (fst u)" using dseg_start [OF q] by simp
    have "length (ids q) \<le> card {..<ev_fresh e}"
      unfolding distinct_card [OF n(3), symmetric] using ev_wf_alive [OF wf] by (intro card_mono) auto
    then have k: "length (u # us) \<le> ev_fresh ?e" using Cons by simp
    have s: "dseg (ev_nodes ?e) None (Some (fst u)) (u # us) None" "ev_nodes ?e n = Some \<lparr>ev_prio = prio, ev_prev = None, ev_next = None, ev_fn = f\<rparr>"
      using h(1) front Cons by simp_all
    obtain ts m mp mf vs where split: "u # us = ts @ (m, mp, mf) # vs" and place: "place_in (n, prio, f) (u # us) = ts @ (m, mp, mf) # (n, prio, f) # vs"
      and seek: "ev_seek (ev_fresh ?e) n (fst u) ?e = (Inr (Some m), ?e)
       \<or> vs = [] \<and> ev_seek (ev_fresh ?e) n (fst u) ?e = (Inr None, ev_upd n (\<lambda>d. d\<lparr>ev_prev := Some m\<rparr>) (ev_upd m (\<lambda>d. d\<lparr>ev_next := Some n\<rparr>) ?e))"
      using ev_seek_spec [OF k s, of prio f, OF ev_node.select_convs(1)] by blast
    let ?nx = "start_of vs None"
    let ?h' = "linked n m ?nx ?h"
    have dm: "distinct (ids (ts @ (m, mp, mf) # (n, prio, f) # vs))"
      using distinct_place_in [of "(n, prio, f)" q] n(1,3) unfolding place [symmetric] Cons by simp
    have seg: "dseg ?h' None (ev_front e) (place_in (n, prio, f) q) None"
      using dseg_insert [OF _ _ dm, of ?h "ev_front e"] h(1) unfolding Cons split place [unfolded split] by simp
    have in_q: "m \<in> fst ` set q" "\<And>k. ?nx = Some k \<Longrightarrow> k \<in> fst ` set q" using split start_of_in [of vs] Cons by auto
    then have "m \<notin> fst ` set p" "\<forall>k. ?nx = Some k \<longrightarrow> k \<notin> fst ` set p" using n(5) by blast+
    then have segp: "dseg ?h' (Some n) nx p None"
      using h(2) n(2) by (simp add: linked_def dseg_set_prev_frame dseg_set_next_frame)
    have other: "?h' k = ev_nodes e k" if "k \<notin> fst ` set q" "k \<noteq> n" for k
      using that in_q linked_other [of k n m ?nx ?h] by auto
    have "n \<noteq> m" using in_q(1) n(1) by blast
    have nxm: "ev_next (ev_at ?e m) = ?nx"
    proof -
      obtain x where "dseg ?h (end_of None ts) x ((m, mp, mf) # vs) None" using s(1) unfolding split by (auto simp: dseg_append)
      then obtain y where "?h m = Some \<lparr>ev_prio = mp, ev_prev = end_of None ts, ev_next = y, ev_fn = mf\<rparr>" "dseg ?h (Some m) y vs None" by auto
      then show ?thesis using dseg_start by (simp add: ev_at_def)
    qed
    have "ev_place n (e\<lparr>ev_new := ev_next (ev_at e n)\<rparr>) = (Inr (), ?e\<lparr>ev_nodes := ?h'\<rparr>)"
      using seek
    proof
      assume "ev_seek (ev_fresh ?e) n (fst u) ?e = (Inr (Some m), ?e)"
      then show ?thesis unfolding ev_place_def e1 using nxm front \<open>n \<noteq> m\<close>
        by (cases ?nx) (simp_all add: seqE_def ev_upd_def linked_def set_prev_def set_next_def Let_def)
    next
      assume a: "vs = [] \<and> ev_seek (ev_fresh ?e) n (fst u) ?e = (Inr None, ev_upd n (\<lambda>d. d\<lparr>ev_prev := Some m\<rparr>) (ev_upd m (\<lambda>d. d\<lparr>ev_next := Some n\<rparr>) ?e))"
      have "set_next (Some n) None ?h = ?h" by (simp add: set_next_def)
      then show ?thesis unfolding ev_place_def e1 using a front
        by (simp add: seqE_def ev_upd_def linked_def) (simp add: set_prev_def set_next_def)
    qed
    moreover have "ev_wfp (Some n) (place_in (n, prio, f) q) p (e\<lparr>ev_new := nx, ev_nodes := ?h', ev_front := ev_front e\<rparr>)"
      by (rule keep) (use seg segp dom other in simp_all)
    ultimately show ?thesis by simp
  qed
qed

lemma ev_flush_loop_wf:
  "ev_wfp pv q p e \<Longrightarrow> length p \<le> k \<Longrightarrow>
   \<exists>e'. ev_flush_loop k e = (Inr (), e') \<and> ev_wf (foldl (\<lambda>q t. place_in t q) q p) [] e' \<and> ev_held e' = ev_held e \<and> ev_fresh e' = ev_fresh e"
proof (induction p arbitrary: pv q e k)
  case Nil
  then have "ev_wf q [] e" "ev_new e = None" by (auto simp: ev_wfp_def)
  then show ?case by (subst ev_flush_loop.simps) simp
next
  case (Cons t p)
  obtain n prio f where t: "t = (n, prio, f)" by (cases t)
  obtain k' where k: "k = Suc k'" "length p \<le> k'" using Cons.prems(2) by (cases k) auto
  have n: "ev_new e = Some n" using Cons.prems(1) t by (simp add: ev_wfp_def)
  obtain e1 where e1: "ev_place n (e\<lparr>ev_new := ev_next (ev_at e n)\<rparr>) = (Inr (), e1)" "ev_wfp (Some n) (place_in t q) p e1"
    "ev_held e1 = ev_held e" "ev_fresh e1 = ev_fresh e"
    using ev_place_wf [OF Cons.prems(1) [unfolded t]] t by auto
  have "ev_flush_loop k e = ev_flush_loop k' e1"
    using n k(1) e1(1) by (subst ev_flush_loop.simps) (simp add: seqE_def)
  then show ?case using Cons.IH [OF e1(2) k(2)] e1(3,4) by simp
qed

lemma ev_wf_length: "ev_wf q p e \<Longrightarrow> length (q @ p) \<le> ev_fresh e"
proof -
  assume wf: "ev_wf q p e"
  have "length (ids (q @ p)) = card (fst ` set (q @ p))" using wf distinct_card [of "ids (q @ p)"] by (simp add: ev_wfp_def image_Un)
  also have "\<dots> \<le> card {..<ev_fresh e}" using ev_wf_alive [OF wf] by (intro card_mono) auto
  finally show ?thesis by simp
qed

lemma ev_wf_size: "ev_wf q p e \<Longrightarrow> ev_held e = [] \<Longrightarrow> ev_size e = length q + length p"
proof -
  assume wf: "ev_wf q p e" and held: "ev_held e = []"
  have "n \<in> dom (ev_nodes e) \<longleftrightarrow> n \<in> fst ` set (q @ p)" for n
    using ev_wf_node [OF wf, of n] ev_wf_alive [OF wf, of n] held by (cases "ev_nodes e n") auto
  then have "dom (ev_nodes e) = fst ` set (q @ p)" by blast
  then have "dom (ev_nodes e) = set (ids (q @ p))" by (simp add: image_Un)
  moreover have "distinct (ids (q @ p))" "ev_size e = card (dom (ev_nodes e))" using wf unfolding ev_wfp_def by blast+
  ultimately show ?thesis by (metis distinct_card length_append length_map)
qed

definition flushed :: "'f entry list \<Rightarrow> 'f entry list \<Rightarrow> 'f entry list" where
  "flushed q p = foldl (\<lambda>q t. place_in t q) q p"

lemma ev_flush_wf:
  assumes "ev_wf q p e"
  shows "\<exists>e'. ev_flush e = (Inr (), e') \<and> ev_wf (flushed q p) [] e' \<and> ev_held e' = ev_held e \<and> ev_fresh e' = ev_fresh e"
  unfolding ev_flush_def flushed_def by (rule ev_flush_loop_wf [OF assms]) (use ev_wf_length [OF assms] in simp)

section \<open>The event as lists\<close>

text \<open>The abstract event: the list, the handlers in front of it, the number of handlers ever added. An
  invocation walks over what was ahead when it came to a handler; a handler that was removed while it was the
  next one is called all the same, and nothing after it. \<open>None\<close> is a thread that waits for itself: a handler
  that is not in the list any more when it returns, and does not return \<open>expire\<close>.\<close>

type_synonym 'f ev_abs = "'f entry list \<times> 'f entry list \<times> nat"

fun abs_acts :: "'f ev_act list \<Rightarrow> 'f ev_abs \<Rightarrow> 'f ev_abs" where
  "abs_acts [] s = s"
| "abs_acts (Ev_append f prio # acts) (q, p, k) = abs_acts acts (q, (k, prio, f) # p, Suc k)"
| "abs_acts (Ev_remove h # acts) (q, p, k) = abs_acts acts (without h q, without h p, k)"

definition ahead :: "'f entry list \<Rightarrow> 'f entry list \<Rightarrow> 'f entry list" where
  "ahead q us = (case us of [] \<Rightarrow> [] | v # vs \<Rightarrow> if v \<in> set q then v # filter (\<lambda>x. x \<in> set q) vs else [v])"

lemma length_ahead [termination_simp]: "length (ahead q us) \<le> length us"
  by (auto simp: ahead_def split: list.split intro: le_SucI)

function abs_run :: "('f, 'a) ev_body \<Rightarrow> 'f entry list \<Rightarrow> 'a \<Rightarrow> 'f ev_abs \<Rightarrow> ('a \<times> 'f ev_abs) option" where
  "abs_run body [] a s = Some (a, s)"
| "abs_run body (u # us) a s =
     (let (a', acts, ctl) = body (snd (snd u)) a; (q, p, k) = abs_acts acts s; expired = (ctl AND ev_expires \<noteq> 0);
          q' = (if expired then without (fst u) q else q)
      in if \<not> expired \<and> u \<notin> set q then None
         else if ctl AND ev_consumes \<noteq> 0 then Some (a', q', p, k)
         else abs_run body (ahead q' us) a' (q', p, k))"
  by pat_completeness auto
termination by (relation "measure (\<lambda>(_, us, _, _). length us)") (auto simp: length_ahead le_imp_less_Suc)

definition abs_invoke :: "('f, 'a) ev_body \<Rightarrow> 'a \<Rightarrow> 'f ev_abs \<Rightarrow> ('a \<times> 'f ev_abs) option" where
  "abs_invoke body a s = (case s of (q, p, k) \<Rightarrow> abs_run body (flushed q p) a (flushed q p, [], k))"

text \<open>A node keeps its handler as long as it lives.\<close>

definition ev_stable :: "'f event_obj \<Rightarrow> 'f event_obj \<Rightarrow> bool" where
  "ev_stable e e' \<longleftrightarrow> ev_fresh e \<le> ev_fresh e'
     \<and> (\<forall>m d'. m < ev_fresh e \<and> ev_nodes e' m = Some d' \<longrightarrow> (\<exists>d. ev_nodes e m = Some d \<and> ev_fn d' = ev_fn d))"

lemma ev_stable_refl: "ev_fresh e' = ev_fresh e \<Longrightarrow> ev_nodes e' = ev_nodes e \<Longrightarrow> ev_stable e e'"
  by (simp add: ev_stable_def)

lemma ev_stable_trans: "ev_stable e1 e2 \<Longrightarrow> ev_stable e2 e3 \<Longrightarrow> ev_stable e1 e3"
  unfolding ev_stable_def by (metis le_trans less_le_trans)

lemma ev_stable_upd: "(\<And>d. ev_fn (g d) = ev_fn d) \<Longrightarrow> ev_stable e e' \<Longrightarrow> ev_stable e (ev_upd n g e')"
  by (auto simp: ev_stable_def ev_upd_def)

lemma ev_stable_release: "ev_stable e e' \<Longrightarrow> ev_stable e (ev_release k e')"
proof (induction k arbitrary: e')
  case (Suc k)
  have "ev_stable e (ev_destroy n e')" for n using Suc.prems by (auto simp: ev_stable_def ev_destroy_def)
  then show ?case using Suc by (auto split: list.split)
qed simp

lemma ev_stable_drop: "ev_stable e (ev_drop n e)"
  by (simp add: ev_drop_def Let_def ev_stable_release ev_stable_refl)

lemma ev_stable_detach: "ev_detach n e = (Inr (), e') \<Longrightarrow> ev_stable e e'"
  by (auto simp: ev_detach_def ev_unlock_def Let_def ev_stable_refl intro!: ev_stable_upd split: option.splits if_splits)

lemma ev_stable_expire: "ev_expire h e = (Inr (), e') \<Longrightarrow> ev_stable e e'"
proof (cases "ev_nodes e h = None")
  case False
  assume "ev_expire h e = (Inr (), e')"
  then obtain e1 where "ev_detach h (e\<lparr>ev_held := h # ev_held e\<rparr>) = (Inr (), e1)" "e' = ev_drop h e1"
    using False by (auto simp: ev_expire_def seqE_eq_Inr updE_def)
  moreover have "ev_stable e (e\<lparr>ev_held := h # ev_held e\<rparr>)" by (rule ev_stable_refl) simp_all
  ultimately show ?thesis using ev_stable_trans [OF ev_stable_trans [OF _ ev_stable_detach] ev_stable_drop] by blast
qed (simp add: ev_expire_def ev_stable_refl)

lemma ev_stable_append: "ev_append f prio e = (Inr n, e') \<Longrightarrow> ev_stable e e'"
  by (auto simp: ev_append_def Let_def ev_upd_def ev_stable_def split: option.splits if_splits)

section \<open>Invoking refines the lists\<close>

text \<open>What the calls of a handler do to the two lists: the list only loses entries.\<close>

definition loses :: "'f ev_abs \<Rightarrow> 'f ev_abs \<Rightarrow> bool" where
  "loses s s' = (case (s, s') of ((q, p, k), (q', p', k')) \<Rightarrow>
     q' = filter (\<lambda>x. x \<in> set q') q \<and> k \<le> k' \<and> (\<forall>n \<in> fst ` set p'. n \<in> fst ` set p \<or> k \<le> n))"

lemma filter_filter_mem: "q' = filter P q \<Longrightarrow> q' = filter (\<lambda>x. x \<in> set q') q"
  by (auto intro: filter_cong)

lemma without_shrinks: "without h q = filter (\<lambda>x. x \<in> set (without h q)) q"
  by (rule filter_filter_mem [OF without_def])

lemma loses_trans: "loses s1 s2 \<Longrightarrow> loses s2 s3 \<Longrightarrow> loses s1 s3"
proof -
  assume a: "loses s1 s2" "loses s2 s3"
  obtain q1 p1 k1 q2 p2 k2 q3 p3 k3 where s: "s1 = (q1, p1, k1)" "s2 = (q2, p2, k2)" "s3 = (q3, p3, k3)"
    by (cases s1; cases s2; cases s3) auto
  have "q2 = filter (\<lambda>x. x \<in> set q2) q1" "q3 = filter (\<lambda>x. x \<in> set q3) q2" using a s by (simp_all add: loses_def)
  then have "q3 = filter (\<lambda>x. x \<in> set q2 \<and> x \<in> set q3) q1" by (metis filter_filter)
  then have "q3 = filter (\<lambda>x. x \<in> set q3) q1" by (rule filter_filter_mem)
  then show ?thesis using a s by (force simp: loses_def)
qed

lemma loses_acts: "loses s (abs_acts acts s)"
proof (induction acts arbitrary: s)
  case Nil
  then show ?case by (auto simp: loses_def intro!: filter_filter_mem [where P = "\<lambda>_. True"])
next
  case (Cons act acts)
  obtain q p k where s: "s = (q, p, k)" by (cases s)
  show ?case
  proof (cases act)
    case (Ev_append f prio)
    have "loses s (q, (k, prio, f) # p, Suc k)" by (auto simp: s loses_def intro!: filter_filter_mem [where P = "\<lambda>_. True"])
    then show ?thesis using loses_trans Cons.IH Ev_append s by fastforce
  next
    case (Ev_remove h)
    have "loses s (without h q, without h p, k)" using without_shrinks [of h q] by (auto simp: s loses_def set_without)
    then show ?thesis using loses_trans Cons.IH Ev_remove s by fastforce
  qed
qed

lemma ev_acts_wf:
  "ev_wf q p e \<Longrightarrow> abs_acts acts (q, p, ev_fresh e) = (q', p', k') \<Longrightarrow>
   \<exists>e'. ev_acts acts e = (Inr (), e') \<and> ev_wf q' p' e' \<and> ev_held e' = ev_held e \<and> ev_fresh e' = k' \<and> ev_stable e e'"
proof (induction acts arbitrary: q p e)
  case Nil
  then show ?case by (simp add: retE_def ev_stable_refl)
next
  case (Cons act acts)
  obtain e1 where e1: "\<And>m :: _ \<Rightarrow> (ev_error + unit) \<times> _. (case act of Ev_append f prio \<Rightarrow> seqE (ev_append f prio) (\<lambda>_. m) | Ev_remove h \<Rightarrow> seqE (ev_expire h) (\<lambda>_. m)) e = m e1"
      "ev_held e1 = ev_held e" "ev_stable e e1" and
    wf: "\<exists>q1 p1. ev_wf q1 p1 e1 \<and> abs_acts (act # acts) (q, p, ev_fresh e) = abs_acts acts (q1, p1, ev_fresh e1)"
  proof (cases act)
    case (Ev_append f prio)
    obtain e1 where "ev_append f prio e = (Inr (ev_fresh e), e1)" "ev_wf q ((ev_fresh e, prio, f) # p) e1" "ev_held e1 = ev_held e"
      "ev_fresh e1 = Suc (ev_fresh e)" using ev_append_wf [OF Cons.prems(1)] by blast
    then show thesis using Ev_append ev_stable_append by (intro that [of e1]) (auto simp: seqE_Inr)
  next
    case (Ev_remove h)
    obtain e1 where "ev_expire h e = (Inr (), e1)" "ev_wf (without h q) (without h p) e1" "ev_held e1 = ev_held e"
      "ev_fresh e1 = ev_fresh e" using ev_expire_wf [OF Cons.prems(1)] by blast
    then show thesis using Ev_remove ev_stable_expire by (intro that [of e1]) (auto simp: seqE_Inr)
  qed
  then obtain q1 p1 where 1: "ev_wf q1 p1 e1" "abs_acts acts (q1, p1, ev_fresh e1) = (q', p', k')" using Cons.prems(2) by auto
  have "ev_acts (act # acts) e = ev_acts acts e1" using e1(1) [of "ev_acts acts"] by (cases act) simp_all
  then show ?case using Cons.IH [OF 1] e1(2,3) ev_stable_trans by metis
qed

text \<open>One round of the loop, up to the point where the mutex is taken again.\<close>

lemma ev_round_wf:
  assumes wf: "ev_wf q p e" and held: "ev_held e = hs @ [fst u]" "fst u \<notin> set hs"
    and u: "u \<in> set q \<or> fst u \<notin> fst ` set q" "fst u \<notin> fst ` set p" and fresh: "fst u < ev_fresh e"
    and acts: "abs_acts acts (q, p, ev_fresh e) = (q1, p1, k1)"
    and q': "q' = (if expired then without (fst u) q1 else q1)"
  shows "if \<not> expired \<and> u \<notin> set q1 then fst (ev_round (fst u) acts expired e) = Inl Self_deadlock
    else \<exists>e'. ev_round (fst u) acts expired e = (Inr (), e') \<and> ev_wf q' p1 e' \<and> ev_held e' = hs \<and> ev_fresh e' = k1 \<and> ev_stable e e'"
proof -
  obtain e1 where e1: "ev_acts acts e = (Inr (), e1)" "ev_wf q1 p1 e1" "ev_held e1 = hs @ [fst u]" "ev_fresh e1 = k1" "ev_stable e e1"
    using ev_acts_wf [OF wf acts] held by auto
  have "loses (q, p, ev_fresh e) (q1, p1, k1)" using loses_acts [of _ acts] acts by metis
  then have s: "set q1 \<subseteq> set q" "fst u \<notin> fst ` set p1"
    using u(2) fresh by (auto simp: loses_def) (metis filter_is_subset subsetD, metis fst_conv imageI not_less)
  have hs: "remove1 (fst u) (hs @ [fst u]) = hs" using held(2) by (simp add: remove1_append)
  show ?thesis
  proof (cases expired)
    case True
    obtain e2 where e2: "ev_detach (fst u) e1 = (Inr (), e2)" "ev_wf (without (fst u) q1) (without (fst u) p1) e2" "ev_held e2 = hs @ [fst u]" "ev_fresh e2 = k1"
      using ev_detach_wf [OF e1(2), of "fst u"] e1(3,4) by auto
    let ?e3 = "ev_drop (fst u) e2"
    have e3: "ev_wf (without (fst u) q1) p1 ?e3" "ev_held ?e3 = hs" "ev_fresh ?e3 = k1"
      using ev_drop_wf [OF e2(2), of "fst u"] e2(3,4) hs without_notin [OF s(2)] by simp_all
    have "ev_stable e ?e3"
      using ev_stable_trans [OF e1(5) ev_stable_trans [OF ev_stable_detach [OF e2(1)] ev_stable_drop]] .
    then show ?thesis using True e1(1) e2(1) e3 unfolding ev_round_def q' by (simp add: seqE_def updE_def)
  next
    case False
    let ?e2 = "e1\<lparr>ev_held := remove1 (fst u) (ev_held e1)\<rparr>"
    have r: "ev_round (fst u) acts expired e = ev_unlock ?e2" using False e1(1) by (simp add: ev_round_def seqE_def retE_def)
    have h: "ev_held ?e2 = hs" using e1(3) hs by simp
    note un = ev_unhold [OF e1(2), of "fst u"]
    show ?thesis
    proof (cases "u \<in> set q1")
      case True
      then have w: "ev_wf q1 p1 ?e2" using un e1(3) by auto
      moreover have "ev_stable e ?e2" using e1(5) by (simp add: ev_stable_def)
      ultimately show ?thesis using False True r h e1(4) by (simp add: q')
    next
      case nq: False
      then have "fst u \<notin> fst ` set q1" 
      proof -
        have "x = u" if "x \<in> set q1" "fst x = fst u" for x
        proof -
          have "u \<in> set q" using u(1) that s(1) by (metis imageI subsetD)
          then show ?thesis using that s(1) wf by (metis (no_types, lifting) distinct_append distinct_map ev_wfp_def inj_onD map_append subsetD)
        qed
        then show ?thesis using nq by auto
      qed
      then have "ev_orphans ?e2 = [fst u]" using un e1(3) h held(2) s(2) by (simp add: image_Un)
      then show ?thesis using False nq r by (simp add: ev_unlock_def)
    qed
  qed
qed

lemma dseg_node:
  "dseg h pv s (ts @ u # us) None \<Longrightarrow> \<exists>d. h (fst u) = Some d \<and> ev_next d = start_of us None \<and> ev_fn d = snd (snd u)"
  using dseg_start by (cases u) (fastforce simp: dseg_append)

definition abs_result :: "('a \<times> 'f ev_abs) option \<Rightarrow> (ev_error + 'a) \<times> 'f event_obj \<Rightarrow> bool" where
  "abs_result r c \<longleftrightarrow> (case r of
      None \<Rightarrow> fst c = Inl Self_deadlock
    | Some (a, q, p, k) \<Rightarrow> fst c = Inr a \<and> ev_wf q p (snd c) \<and> ev_held (snd c) = [] \<and> ev_fresh (snd c) = k)"

lemma start_of_ahead: "start_of us None = start_of (ahead q us) None"
  by (auto simp: ahead_def split: list.split)

text \<open>The head of the loop: a handler in the list with those behind it ahead, or a removed one.\<close>

definition at_head :: "'f entry \<Rightarrow> 'f entry list \<Rightarrow> 'f entry list \<Rightarrow> 'f entry list \<Rightarrow> 'f event_obj \<Rightarrow> bool" where
  "at_head u us q p e \<longleftrightarrow> ((\<exists>ts. q = ts @ u # us) \<or> fst u \<notin> fst ` set q \<and> us = []) \<and> fst u \<notin> fst ` set p
     \<and> ev_held e = [fst u] \<and> (\<exists>d. ev_nodes e (fst u) = Some d \<and> ev_next d = start_of us None \<and> ev_fn d = snd (snd u))"

lemma at_head_next:
  assumes wf: "ev_wf q p e" and head: "at_head u (v # vs) q p e"
    and wf': "ev_wf q' p' e'" "loses (q, p, ev_fresh e) (q', p', ev_fresh e')" "ev_held e' = [fst v]" "ev_stable e e'"
  shows "\<exists>us. ahead q' (v # vs) = v # us \<and> length us \<le> length vs \<and> at_head v us q' p' e'"
proof -
  obtain ts where q: "q = ts @ u # v # vs" using head by (auto simp: at_head_def)
  have dist: "distinct (ids q)" "fst ` set q \<inter> fst ` set p = {}" using wf by (auto simp: ev_wfp_def)
  have q': "q' = filter (\<lambda>x. x \<in> set q') q" using wf'(2) by (simp add: loses_def)
  have v: "fst v < ev_fresh e" "fst v \<notin> fst ` set p" using ev_wf_alive [OF wf, of "fst v"] dist q by auto
  have "\<forall>n \<in> fst ` set p'. n \<in> fst ` set p \<or> ev_fresh e \<le> n" using wf'(2) unfolding loses_def prod.case by blast
  then have vp: "fst v \<notin> fst ` set p'" using v by (metis not_less)
  have "dseg (ev_nodes e) None (ev_front e) ((ts @ [u]) @ v # vs) None" using wf q by (simp add: ev_wfp_def)
  from dseg_node [OF this] obtain d where d: "ev_nodes e (fst v) = Some d" "ev_fn d = snd (snd v)" by blast
  obtain d' where d': "ev_nodes e' (fst v) = Some d'" using ev_wf_held [OF wf'(1), of "fst v"] wf'(3) by auto
  then have fn: "ev_fn d' = snd (snd v)" using wf'(4) d v(1) unfolding ev_stable_def by (metis option.inject)
  show ?thesis
  proof (cases "v \<in> set q'")
    case True
    let ?us = "filter (\<lambda>x. x \<in> set q') vs"
    have "filter (\<lambda>x. x \<in> set q') q = filter (\<lambda>x. x \<in> set q') (ts @ [u]) @ v # ?us" using True by (simp add: q)
    with q' have split: "q' = filter (\<lambda>x. x \<in> set q') (ts @ [u]) @ v # ?us" by (rule trans)
    then have "dseg (ev_nodes e') None (ev_front e') (filter (\<lambda>x. x \<in> set q') (ts @ [u]) @ v # ?us) None"
      using wf'(1) by (simp add: ev_wfp_def)
    from dseg_node [OF this] have "ev_next d' = start_of ?us None" using d' by auto
    then have "at_head v ?us q' p' e'" unfolding at_head_def using split vp wf'(3) d' fn by blast
    then show ?thesis using True by (simp add: ahead_def)
  next
    case False
    have "x = v" if "x \<in> set q'" "fst x = fst v" for x
    proof -
      have "x \<in> set q" "v \<in> set q" using that(1) q' q by (metis filter_is_subset subsetD, simp)
      then show ?thesis using that(2) dist(1) by (metis distinct_map inj_onD)
    qed
    then have n: "fst v \<notin> fst ` set q'" using False by auto
    then have "ev_next d' = None" using ev_wf_node [OF wf'(1) d'] vp by auto
    then have "at_head v [] q' p' e'" unfolding at_head_def using n vp wf'(3) d' fn by simp
    then show ?thesis using False by (simp add: ahead_def)
  qed
qed

lemma loses_refl: "loses (q, p, k) (q, p, k)"
  unfolding loses_def prod.case by (intro conjI filter_filter_mem [where P = "\<lambda>_. True"]) simp_all

lemma loses_without: "loses (q, p, k) (without h q, p, k)"
  unfolding loses_def prod.case by (intro conjI without_shrinks) simp_all

lemma ev_run_refines:
  "ev_wf q p e \<Longrightarrow> at_head u us q p e \<Longrightarrow> length us < k \<Longrightarrow>
   abs_result (abs_run body (u # us) a (q, p, ev_fresh e)) (ev_run body k (Some (fst u)) a e)"
proof (induction k arbitrary: u us q p e a)
  case (Suc k)
  note wf = Suc.prems(1) and head = Suc.prems(2)
  obtain d where d: "ev_nodes e (fst u) = Some d" "ev_next d = start_of us None" "ev_fn d = snd (snd u)"
    using head by (auto simp: at_head_def)
  obtain a' acts ctl where b: "body (snd (snd u)) a = (a', acts, ctl)" by (metis prod_cases3)
  obtain q1 p1 k1 where s1: "abs_acts acts (q, p, ev_fresh e) = (q1, p1, k1)" by (metis prod_cases3)
  define expired where "expired = (ctl AND ev_expires \<noteq> 0)"
  define q2 where "q2 = (if expired then without (fst u) q1 else q1)"
  let ?nx = "start_of us None" and ?hs = "case start_of us None of None \<Rightarrow> [] | Some x \<Rightarrow> [x]"
  let ?e = "e\<lparr>ev_held := ?hs @ [fst u]\<rparr>"
  have fresh: "fst u < ev_fresh e" using ev_wf_node [OF wf d(1)] by simp
  have up: "u \<in> set q \<or> fst u \<notin> fst ` set q" "fst u \<notin> fst ` set p" using head by (auto simp: at_head_def)
  have nx: "x \<noteq> fst u \<and> ev_nodes e x \<noteq> None" if x: "?nx = Some x" for x
  proof -
    obtain v vs where us: "us = v # vs" "x = fst v" using x by (cases us) auto
    then obtain ts where q: "q = ts @ u # v # vs" using head by (auto simp: at_head_def)
    then have "fst v \<noteq> fst u" using wf by (auto simp: ev_wfp_def)
    then show ?thesis using us ev_wf_alive [OF wf, of "fst v"] q by auto
  qed
  have wf1: "ev_wf q p ?e" using wf nx d(1) head by (auto simp: ev_wfp_def at_head_def split: option.split)
  have hs: "fst u \<notin> set ?hs" using nx by (cases ?nx) auto
  have acts1: "abs_acts acts (q, p, ev_fresh ?e) = (q1, p1, k1)" using s1 by simp
  have fresh1: "fst u < ev_fresh ?e" using fresh by simp
  have held1: "ev_held ?e = ?hs @ [fst u]" by simp
  note rnd = ev_round_wf [OF wf1 held1 hs up fresh1 acts1 q2_def, folded expired_def]
  have run: "ev_run body (Suc k) (Some (fst u)) a e = seqE (ev_round (fst u) acts expired) (\<lambda>_.
      if ctl AND ev_consumes \<noteq> 0 then seqE (updE (case ?nx of None \<Rightarrow> id | Some x \<Rightarrow> ev_drop x)) (\<lambda>_. retE a') else ev_run body k ?nx a') ?e"
    using d b head by (simp add: ev_at_def expired_def at_head_def Let_def)
  have abs: "abs_run body (u # us) a (q, p, ev_fresh e) = (if \<not> expired \<and> u \<notin> set q1 then None
      else if ctl AND ev_consumes \<noteq> 0 then Some (a', q2, p1, k1) else abs_run body (ahead q2 us) a' (q2, p1, k1))"
    by (simp add: b s1 Let_def expired_def q2_def)
  show ?case
  proof (cases "\<not> expired \<and> u \<notin> set q1")
    case True
    then obtain e1 where "ev_round (fst u) acts expired ?e = (Inl Self_deadlock, e1)" using rnd by (metis prod.collapse)
    then show ?thesis unfolding run abs using True by (simp add: abs_result_def seqE_Inl)
  next
    case False
    then obtain e1 where e1: "ev_round (fst u) acts expired ?e = (Inr (), e1)" "ev_wf q2 p1 e1" "ev_held e1 = ?hs" "ev_fresh e1 = k1" "ev_stable ?e e1"
      using rnd by auto
    have st: "ev_stable e e1" using e1(5) by (simp add: ev_stable_def)
    have "loses (q, p, ev_fresh e) (q1, p1, k1)" using loses_acts [of "(q, p, ev_fresh e)" acts] unfolding s1 .
    moreover have "loses (q1, p1, k1) (q2, p1, k1)"
      unfolding q2_def by (cases expired) (simp_all add: loses_without loses_refl)
    ultimately have sh: "loses (q, p, ev_fresh e) (q2, p1, ev_fresh e1)" unfolding e1(4) by (rule loses_trans)
    show ?thesis
    proof (cases "ctl AND ev_consumes \<noteq> 0")
      case True
      have "ev_wf q2 p1 (case ?nx of None \<Rightarrow> e1 | Some x \<Rightarrow> ev_drop x e1) \<and> ev_held (case ?nx of None \<Rightarrow> e1 | Some x \<Rightarrow> ev_drop x e1) = []
          \<and> ev_fresh (case ?nx of None \<Rightarrow> e1 | Some x \<Rightarrow> ev_drop x e1) = k1"
        using e1(2-4) ev_drop_wf [OF e1(2)] by (cases ?nx) auto
      moreover have "ev_run body (Suc k) (Some (fst u)) a e = (Inr a', case ?nx of None \<Rightarrow> e1 | Some x \<Rightarrow> ev_drop x e1)"
        unfolding run seqE_Inr [where m = "ev_round (fst u) acts expired" and s = ?e, OF e1(1)] using True by (cases ?nx) (simp_all add: retE_def)
      moreover have "abs_run body (u # us) a (q, p, ev_fresh e) = Some (a', q2, p1, k1)"
        unfolding abs using True False by meson
      ultimately show ?thesis by (simp add: abs_result_def)
    next
      case go_on: False
      have run1: "ev_run body (Suc k) (Some (fst u)) a e = ev_run body k ?nx a' e1"
        unfolding run seqE_Inr [where m = "ev_round (fst u) acts expired" and s = ?e, OF e1(1)] using go_on by simp
      have abs1: "abs_run body (u # us) a (q, p, ev_fresh e) = abs_run body (ahead q2 us) a' (q2, p1, k1)"
        unfolding abs using go_on False by meson
      show ?thesis
      proof (cases us)
        case Nil
        then show ?thesis unfolding run1 abs1 using e1(2-4) by (cases k) (simp_all add: abs_result_def ahead_def)
      next
        case (Cons v vs)
        have "ev_held e1 = [fst v]" using e1(3) Cons by simp
        from at_head_next [OF wf head [unfolded Cons] e1(2) sh this st] obtain ws where
          ws: "ahead q2 (v # vs) = v # ws" "length ws \<le> length vs" "at_head v ws q2 p1 e1" by blast
        have "length ws < k" using ws(2) Suc.prems(3) Cons by simp
        from Suc.IH [OF e1(2) ws(3) this, of a'] show ?thesis
          unfolding run1 abs1 using e1(4) ws(1) Cons by simp
      qed
    qed
  qed
qed simp

lemma ev_invoke_abs:
  assumes wf: "ev_wf q p e" and held: "ev_held e = []"
  shows "abs_result (abs_invoke body a (q, p, ev_fresh e)) (ev_invoke body a e)"
proof -
  obtain e1 where e1: "ev_flush e = (Inr (), e1)" "ev_wf (flushed q p) [] e1" "ev_held e1 = []" "ev_fresh e1 = ev_fresh e"
    using ev_flush_wf [OF wf] held by auto
  have front: "ev_front e1 = start_of (flushed q p) None" using e1(2) dseg_start by (auto simp: ev_wfp_def)
  have inv: "ev_invoke body a e = ev_run body (ev_fresh e1) (ev_front e1) a (e1\<lparr>ev_held := (case ev_front e1 of None \<Rightarrow> [] | Some n \<Rightarrow> [n])\<rparr>)"
    using e1(1,3) by (simp add: ev_invoke_def seqE_def)
  show ?thesis
  proof (cases "flushed q p")
    case Nil
    then have "ev_front e1 = None" using front by simp
    then have "ev_invoke body a e = (Inr a, e1)" using e1(3) unfolding inv by (cases "ev_fresh e1") simp_all
    then show ?thesis using Nil e1 by (simp add: abs_result_def abs_invoke_def)
  next
    case (Cons u us)
    let ?e = "e1\<lparr>ev_held := [fst u]\<rparr>"
    have "dseg (ev_nodes e1) None (ev_front e1) ([] @ u # us) None" using e1(2) Cons by (simp add: ev_wfp_def)
    from dseg_node [OF this] obtain d where d: "ev_nodes e1 (fst u) = Some d" "ev_next d = start_of us None" "ev_fn d = snd (snd u)" by blast
    have "ev_wf (u # us) [] ?e" using e1(2,3) d(1) Cons by (auto simp: ev_wfp_def)
    moreover have "at_head u us (u # us) [] ?e" using d by (auto simp: at_head_def)
    moreover have "length us < ev_fresh e1" using ev_wf_length [OF e1(2)] Cons by simp
    ultimately have "abs_result (abs_run body (u # us) a (u # us, [], ev_fresh ?e)) (ev_run body (ev_fresh e1) (Some (fst u)) a ?e)"
      by (rule ev_run_refines)
    then show ?thesis using front Cons e1(4) by (simp add: inv abs_invoke_def)
  qed
qed

section \<open>Sessions\<close>

text \<open>What a program does with an event, one call after the other; invocations give the final value of the
  arguments.\<close>

datatype ('f, 'a) ev_cmd = Ev_call "'f ev_act" | Ev_flush | Ev_invoke 'a

fun ev_exec :: "('f, 'a) ev_body \<Rightarrow> ('f, 'a) ev_cmd list \<Rightarrow> 'f event_obj \<Rightarrow> (ev_error + 'a list) \<times> 'f event_obj" where
  "ev_exec body [] = retE []"
| "ev_exec body (Ev_call act # cmds) = seqE (ev_acts [act]) (\<lambda>_. ev_exec body cmds)"
| "ev_exec body (Ev_flush # cmds) = seqE ev_flush (\<lambda>_. ev_exec body cmds)"
| "ev_exec body (Ev_invoke a # cmds) = seqE (ev_invoke body a) (\<lambda>x. seqE (ev_exec body cmds) (\<lambda>xs. retE (x # xs)))"

fun abs_exec :: "('f, 'a) ev_body \<Rightarrow> ('f, 'a) ev_cmd list \<Rightarrow> 'f ev_abs \<Rightarrow> ('a list \<times> 'f ev_abs) option" where
  "abs_exec body [] s = Some ([], s)"
| "abs_exec body (Ev_call act # cmds) s = abs_exec body cmds (abs_acts [act] s)"
| "abs_exec body (Ev_flush # cmds) (q, p, k) = abs_exec body cmds (flushed q p, [], k)"
| "abs_exec body (Ev_invoke a # cmds) s =
     (case abs_invoke body a s of None \<Rightarrow> None
      | Some (x, s) \<Rightarrow> (case abs_exec body cmds s of None \<Rightarrow> None | Some (xs, s) \<Rightarrow> Some (x # xs, s)))"

lemma event_new_simps [simp]: "ev_held event_new = []" "ev_fresh event_new = 0"
  by (simp_all add: event_new_def)

lemma ev_exec_abs:
  "ev_wf q p e \<Longrightarrow> ev_held e = [] \<Longrightarrow> abs_result (abs_exec body cmds (q, p, ev_fresh e)) (ev_exec body cmds e)"
proof (induction body cmds arbitrary: e q p rule: ev_exec.induct)
  case (1 body)
  then show ?case by (simp add: abs_result_def retE_def)
next
  case (2 body act cmds)
  obtain q1 p1 k1 where s: "abs_acts [act] (q, p, ev_fresh e) = (q1, p1, k1)" by (metis prod_cases3)
  then obtain e1 where e1: "ev_acts [act] e = (Inr (), e1)" "ev_wf q1 p1 e1" "ev_held e1 = []" "ev_fresh e1 = k1"
    using ev_acts_wf [OF "2.prems"(1)] "2.prems"(2) by metis
  then show ?case using "2.IH" [OF e1(2,3)] s by (simp add: seqE_Inr del: abs_acts.simps ev_acts.simps)
next
  case (3 body cmds)
  obtain e1 where e1: "ev_flush e = (Inr (), e1)" "ev_wf (flushed q p) [] e1" "ev_held e1 = []" "ev_fresh e1 = ev_fresh e"
    using ev_flush_wf [OF "3.prems"(1)] "3.prems"(2) by auto
  then show ?case using "3.IH" [OF e1(2,3)] by (simp add: seqE_Inr)
next
  case (4 body a cmds)
  note inv = ev_invoke_abs [OF "4.prems", where body = body and a = a]
  show ?case
  proof (cases "abs_invoke body a (q, p, ev_fresh e)")
    case None
    then obtain e1 where "ev_invoke body a e = (Inl Self_deadlock, e1)" using inv by (cases "ev_invoke body a e") (simp add: abs_result_def)
    then show ?thesis using None by (simp add: abs_result_def seqE_Inl)
  next
    case (Some r)
    obtain x q1 p1 k1 where r: "r = (x, q1, p1, k1)" by (metis prod_cases4)
    obtain e1 where e1: "ev_invoke body a e = (Inr x, e1)" "ev_wf q1 p1 e1" "ev_held e1 = []" "ev_fresh e1 = k1"
      using inv Some r by (cases "ev_invoke body a e") (auto simp: abs_result_def)
    have rest: "abs_result (abs_exec body cmds (q1, p1, k1)) (ev_exec body cmds e1)" using "4.IH" [OF e1(2,3)] e1(4) by simp
    have abs: "abs_exec body (Ev_invoke a # cmds) (q, p, ev_fresh e)
        = (case abs_exec body cmds (q1, p1, k1) of None \<Rightarrow> None | Some (xs, s) \<Rightarrow> Some (x # xs, s))" using Some r by simp
    have run: "ev_exec body (Ev_invoke a # cmds) e = seqE (ev_exec body cmds) (\<lambda>xs. retE (x # xs)) e1"
      using e1(1) by (simp add: seqE_Inr)
    show ?thesis
    proof (cases "abs_exec body cmds (q1, p1, k1)")
      case None
      then obtain e2 where "ev_exec body cmds e1 = (Inl Self_deadlock, e2)" using rest by (cases "ev_exec body cmds e1") (simp add: abs_result_def)
      then show ?thesis unfolding abs run using None by (simp add: abs_result_def seqE_Inl)
    next
      case (Some r2)
      obtain xs q2 p2 k2 where r2: "r2 = (xs, q2, p2, k2)" by (metis prod_cases4)
      then obtain e2 where "ev_exec body cmds e1 = (Inr xs, e2)" "ev_wf q2 p2 e2" "ev_held e2 = []" "ev_fresh e2 = k2"
        using rest Some by (cases "ev_exec body cmds e1") (auto simp: abs_result_def)
      then show ?thesis unfolding abs run using Some r2 by (simp add: abs_result_def seqE_Inr retE_def)
    qed
  qed
qed

text \<open>Handlers that leave the event alone: they are called in the order of the list, up to the first that
  consumes, and those that expire are taken out.\<close>

fun quiet_run :: "('f, 'a) ev_body \<Rightarrow> 'f entry list \<Rightarrow> 'a \<Rightarrow> 'a \<times> 'f entry list" where
  "quiet_run body [] a = (a, [])"
| "quiet_run body (u # us) a =
     (let (a, _, ctl) = body (snd (snd u)) a; keep = (if ctl AND ev_expires \<noteq> 0 then [] else [u])
      in if ctl AND ev_consumes \<noteq> 0 then (a, keep @ us) else apsnd ((@) keep) (quiet_run body us a))"

lemma ahead_suffix: "ahead (ts @ us) us = us"
  by (cases us) (auto simp: ahead_def filter_id_conv)

lemma abs_run_quiet:
  assumes quiet: "\<And>f a. fst (snd (body f a)) = []"
  shows "distinct (ids (ts @ us)) \<Longrightarrow>
    abs_run body us a (ts @ us, p, k) = Some (fst (quiet_run body us a), ts @ snd (quiet_run body us a), p, k)"
proof (induction us arbitrary: ts a)
  case (Cons u us)
  obtain a' ctl where b: "body (snd (snd u)) a = (a', [], ctl)" using quiet by (metis prod.collapse)
  show ?case
  proof (cases "ctl AND ev_expires \<noteq> 0")
    case True
    have w: "without (fst u) (ts @ u # us) = ts @ us" using without_split Cons.prems by (metis prod.collapse)
    have "distinct (ids (ts @ us))" using Cons.prems by auto
    from Cons.IH [OF this, of a'] show ?thesis using True b w
      by (simp add: Let_def ahead_suffix apsnd_def map_prod_def split: prod.split)
  next
    case False
    have "distinct (ids ((ts @ [u]) @ us))" using Cons.prems by simp
    from Cons.IH [OF this, of a'] show ?thesis using False b ahead_suffix [of "ts @ [u]" us]
      by (simp add: Let_def apsnd_def map_prod_def split: prod.split)
  qed
qed simp

lemma quiet_exec:
  assumes "\<And>f a. fst (snd (body f a)) = []" "ev_wf q p e" "ev_held e = []"
  shows "\<exists>e'. ev_invoke body a e = (Inr (fst (quiet_run body (flushed q p) a)), e') \<and> ev_wf (snd (quiet_run body (flushed q p) a)) [] e' \<and> ev_held e' = []"
proof -
  have "distinct (ids (flushed q p))" using ev_flush_wf [OF assms(2)] by (auto simp: ev_wfp_def)
  then have "abs_invoke body a (q, p, ev_fresh e) = Some (fst (quiet_run body (flushed q p) a), snd (quiet_run body (flushed q p) a), [], ev_fresh e)"
    using abs_run_quiet [OF assms(1), where ts = "[]"] by (simp add: abs_invoke_def)
  then show ?thesis using ev_invoke_abs [OF assms(2,3), of body a] by (cases "ev_invoke body a e") (auto simp: abs_result_def)
qed

section \<open>Properties\<close>

text \<open>C10: In every session with an event, whatever its handlers do to the event while they are called, the linked
  nodes behave as the two lists of the abstract event: the same calls with the same results, no node used
  after it was destroyed and none kept beyond its last owner, \<open>size_\<close> the number of handlers, every loop
  ended. The thread waits for its own spinlock exactly where the abstract event is \<open>None\<close>: when the call of a
  handler comes back without \<open>expire\<close> and the handler is no longer in the list. It may have removed itself, or
  the handler before it may have removed it, which does not keep it from being called, for the loop holds the next node.\<close>

theorem event_refines_lists:
  "case abs_exec body cmds ([], [], 0) of
     None \<Rightarrow> fst (ev_exec body cmds event_new) = Inl Self_deadlock
   | Some (xs, q, p, k) \<Rightarrow> \<exists>e. ev_exec body cmds event_new = (Inr xs, e) \<and> ev_wf q p e \<and> ev_held e = [] \<and> ev_size e = length q + length p"
proof -
  have r: "abs_result (abs_exec body cmds ([], [], 0)) (ev_exec body cmds event_new)" using ev_exec_abs [OF ev_wf_new, of body cmds] by simp
  have size: "ev_size e = length q + length p" if "ev_wf q p e" "ev_held e = []" for q p e
    by (rule ev_wf_size [OF that])
  show ?thesis
    using r size by (cases "ev_exec body cmds event_new") (auto simp: abs_result_def split: option.split)
qed



text \<open>A handler that removes the one behind it makes \<open>invoke\<close> wait for ever in the same way: the loop already holds
  the next node, calls it, and destroys it in the spinlock.\<close>

theorem event_next_removal_deadlocks:
  "fst (ev_exec (\<lambda>f a. (a, if f then [Ev_remove 1] else [], 0)) [Ev_call (Ev_append True p1), Ev_flush, Ev_call (Ev_append False p2), Ev_invoke a] event_new)
    = Inl Self_deadlock"
proof -
  let ?body = "\<lambda>f a. (a, if f then [Ev_remove 1] else [], 0)"
  let ?cmds = "[Ev_call (Ev_append True p1), Ev_flush, Ev_call (Ev_append False p2), Ev_invoke a]"
  have "abs_exec ?body ?cmds ([], [], 0) = None"
    by (simp add: abs_invoke_def flushed_def Let_def without_def ahead_def)
  then show ?thesis using ev_exec_abs [OF ev_wf_new, of ?body ?cmds]
    by (simp add: abs_result_def del: ev_exec.simps abs_exec.simps)
qed

text \<open>Handlers that do not call the event themselves are called in the order of the list, each once, up to the
  first that returns \<open>consume\<close>; those that return \<open>expire\<close> are gone afterwards and the others stay in order.\<close>

theorem event_invoke_in_order:
  assumes "\<And>f a. fst (snd (body f a)) = []" "ev_wf q p e" "ev_held e = []"
  shows "\<exists>e'. ev_invoke body a e = (Inr (fst (quiet_run body (flushed q p) a)), e')
    \<and> ev_wf (snd (quiet_run body (flushed q p) a)) [] e' \<and> ev_held e' = []"
  by (rule quiet_exec [OF assms])

theorem event_invoke_in_order_witness:
  "\<exists>e'. ev_invoke (\<lambda>f a. (a + f, [], 1)) (2 :: int) (snd (ev_append (1 :: int) 0 event_new)) = (Inr 3, e') \<and> ev_wf [] [] e' \<and> ev_held e' = []"
proof -
  obtain e where e: "ev_append (1 :: int) 0 event_new = (Inr 0, e)" "ev_wf [] [(0, 0, 1)] e" "ev_held e = []"
    using ev_append_wf [OF ev_wf_new, of "1 :: int" 0] by auto
  from event_invoke_in_order [OF _ e(2,3), of "\<lambda>f a. (a + f, [], 1)" 2] show ?thesis using e(1)
    by (simp add: flushed_def Let_def)
qed

text \<open>Priorities do not order the calls: the handler at the head of the list is called first whatever the
  priorities of those that are flushed into it later.\<close>

theorem event_priority_ignored:
  "fst (ev_exec (\<lambda>f a. (a @ [f], [], 0)) [Ev_call (Ev_append f p1), Ev_flush, Ev_call (Ev_append g p2), Ev_invoke []] event_new) = Inr [[f, g]]"
proof -
  let ?cmds = "[Ev_call (Ev_append f p1), Ev_flush, Ev_call (Ev_append g p2), Ev_invoke []]"
  have "\<exists>s. abs_exec (\<lambda>f a. (a @ [f], [], 0)) ?cmds ([], [], 0) = Some ([[f, g]], s)"
    by (simp add: abs_invoke_def flushed_def Let_def ahead_def)
  then show ?thesis using ev_exec_abs [OF ev_wf_new, of "\<lambda>f a. (a @ [f], [], 0)" ?cmds]
    by (auto simp: abs_result_def simp del: ev_exec.simps abs_exec.simps)
qed

end
