(* ===== verification/Spinlock.thy ===== *)
theory Spinlock
  imports Cpph_Prelude
begin

text \<open>
  \<open>thread/spinlock.hxx\<close>: \<open>spinlock\<close>, one atomic flag, and \<open>shared_spinlock\<close>, a counter of readers and a flag of
  writers. A thread is at a point of the code between two atomic accesses; a step of the system is one atomic
  access of one thread, in any interleaving. Threads are the indices of a list of program points.
\<close>

section \<open>The spinlock\<close>

datatype sp_pc =
    Sp_idle
  | Sp_exchange   \<comment> \<open>in \<open>lock\<close>, before the \<open>exchange\<close>\<close>
  | Sp_spin       \<comment> \<open>in \<open>lock\<close>, before the \<open>load\<close> of the inner loop\<close>
  | Sp_try_load   \<comment> \<open>in \<open>try_lock\<close>, before the \<open>load\<close>\<close>
  | Sp_try_exchange
  | Sp_hold

record spinlock =
  sp_flag :: bool
  sp_pcs :: "sp_pc list"

definition spinlock_new :: "nat \<Rightarrow> spinlock" where
  "spinlock_new n = \<lparr>sp_flag = False, sp_pcs = replicate n Sp_idle\<rparr>"

text \<open>One atomic access at a point of the code: the new flag and the next point.\<close>

fun sp_access :: "sp_pc \<Rightarrow> bool \<Rightarrow> bool \<times> sp_pc" where
  "sp_access Sp_exchange flag = (True, if \<not> flag then Sp_hold else Sp_spin)"
| "sp_access Sp_spin flag = (flag, if flag then Sp_spin else Sp_exchange)"
| "sp_access Sp_try_load flag = (flag, if \<not> flag then Sp_try_exchange else Sp_idle)"
| "sp_access Sp_try_exchange flag = (True, if \<not> flag then Sp_hold else Sp_idle)"
| "sp_access Sp_hold flag = (False, Sp_idle)"
| "sp_access Sp_idle flag = (flag, Sp_idle)"

definition sp_at :: "nat \<Rightarrow> sp_pc \<Rightarrow> bool \<Rightarrow> spinlock \<Rightarrow> spinlock" where
  "sp_at t pc flag s = \<lparr>sp_flag = flag, sp_pcs = (sp_pcs s)[t := pc]\<rparr>"

inductive sp_step :: "spinlock \<Rightarrow> spinlock \<Rightarrow> bool" where
  call_lock: "t < length (sp_pcs s) \<Longrightarrow> sp_pcs s ! t = Sp_idle \<Longrightarrow> sp_step s (sp_at t Sp_exchange (sp_flag s) s)"
| call_try_lock: "t < length (sp_pcs s) \<Longrightarrow> sp_pcs s ! t = Sp_idle \<Longrightarrow> sp_step s (sp_at t Sp_try_load (sp_flag s) s)"
| run: "t < length (sp_pcs s) \<Longrightarrow> sp_pcs s ! t \<noteq> Sp_idle \<Longrightarrow> sp_access (sp_pcs s ! t) (sp_flag s) = (flag, pc) \<Longrightarrow>
    sp_step s (sp_at t pc flag s)"

inductive_cases sp_stepE: "sp_step s s'"

abbreviation sp_reach :: "nat \<Rightarrow> spinlock \<Rightarrow> bool" where "sp_reach n s \<equiv> sp_step\<^sup>*\<^sup>* (spinlock_new n) s"

definition holders :: "spinlock \<Rightarrow> nat" where
  "holders s = length (filter (\<lambda>pc. pc = Sp_hold) (sp_pcs s))"

lemma length_filter_update:
  "i < length xs \<Longrightarrow> length (filter P (xs[i := x])) + (if P (xs ! i) then 1 else 0) = length (filter P xs) + (if P x then 1 else 0)"
proof (induction xs arbitrary: i)
  case (Cons y ys)
  show ?case
  proof (cases i)
    case (Suc j)
    then show ?thesis using Cons.IH [of j] Cons.prems by (cases "P x") (simp_all split: if_splits)
  qed simp
qed simp

definition sp_inv :: "spinlock \<Rightarrow> bool" where
  "sp_inv s \<longleftrightarrow> holders s = (if sp_flag s then 1 else 0)"

lemma sp_step_inv: "sp_step s s' \<Longrightarrow> sp_inv s \<Longrightarrow> sp_inv s'"
proof (induction rule: sp_step.induct)
  case (call_lock t s)
  then show ?case using length_filter_update [of t "sp_pcs s" "\<lambda>pc. pc = Sp_hold" Sp_exchange]
    by (simp add: sp_inv_def sp_at_def holders_def)
next
  case (call_try_lock t s)
  then show ?case using length_filter_update [of t "sp_pcs s" "\<lambda>pc. pc = Sp_hold" Sp_try_load]
    by (simp add: sp_inv_def sp_at_def holders_def)
next
  case (run t s flag pc)
  have "holders s > 0" if "sp_pcs s ! t = Sp_hold"
    using run(1) nth_mem [OF run(1)] that by (auto simp: holders_def filter_empty_conv)
  then show ?case using run length_filter_update [of t "sp_pcs s" "\<lambda>pc. pc = Sp_hold" pc]
    by (cases "sp_pcs s ! t") (auto simp: sp_inv_def sp_at_def holders_def split: if_splits)
qed

lemma sp_reach_inv: "sp_reach n s \<Longrightarrow> sp_inv s"
proof (induction rule: rtranclp_induct)
  case base
  show ?case by (simp add: sp_inv_def holders_def spinlock_new_def)
next
  case (step s s')
  then show ?case by (blast intro: sp_step_inv)
qed

lemma holders_unique: "holders s \<le> 1 \<Longrightarrow> t < length (sp_pcs s) \<Longrightarrow> u < length (sp_pcs s) \<Longrightarrow> sp_pcs s ! t = Sp_hold \<Longrightarrow> sp_pcs s ! u = Sp_hold \<Longrightarrow> t = u"
proof -
  assume a: "holders s \<le> 1" "t < length (sp_pcs s)" "u < length (sp_pcs s)" "sp_pcs s ! t = Sp_hold" "sp_pcs s ! u = Sp_hold"
  have "card {i. i < length (sp_pcs s) \<and> sp_pcs s ! i = Sp_hold} \<le> 1" using a(1) by (simp add: holders_def length_filter_conv_card)
  moreover have "{t, u} \<subseteq> {i. i < length (sp_pcs s) \<and> sp_pcs s ! i = Sp_hold}" using a by auto
  moreover have "finite {i. i < length (sp_pcs s) \<and> sp_pcs s ! i = Sp_hold}" by simp
  ultimately have "card {t, u} \<le> 1" by (metis card_mono le_trans)
  then show "t = u" by (cases "t = u") auto
qed

text \<open>A thread that waits gets the lock by its next two accesses once it is free.\<close>

lemma sp_free_taken:
  assumes "\<not> sp_flag s" "t < length (sp_pcs s)" "sp_pcs s ! t = Sp_spin \<or> sp_pcs s ! t = Sp_exchange"
  shows "\<exists>s'. sp_step\<^sup>*\<^sup>* s s' \<and> sp_pcs s' ! t = Sp_hold"
proof -
  have ex: "sp_step r (sp_at t Sp_hold True r)" if "\<not> sp_flag r" "t < length (sp_pcs r)" "sp_pcs r ! t = Sp_exchange" for r
    using that by (intro sp_step.run) auto
  let ?r = "sp_at t Sp_exchange False s"
  have hold: "sp_pcs (sp_at t Sp_hold True r) ! t = Sp_hold" if "t < length (sp_pcs r)" for r using that by (simp add: sp_at_def)
  show ?thesis
  proof (cases "sp_pcs s ! t = Sp_spin")
    case True
    have "sp_step s ?r" using assms(1,2) True by (intro sp_step.run) auto
    moreover have "sp_step ?r (sp_at t Sp_hold True ?r)" by (rule ex) (use assms(2) in \<open>simp_all add: sp_at_def\<close>)
    ultimately have "sp_step\<^sup>*\<^sup>* s (sp_at t Sp_hold True ?r)" by (meson converse_rtranclp_into_rtranclp r_into_rtranclp)
    moreover have "sp_pcs (sp_at t Sp_hold True ?r) ! t = Sp_hold" by (rule hold) (simp add: sp_at_def assms(2))
    ultimately show ?thesis by blast
  next
    case False
    then have "sp_step s (sp_at t Sp_hold True s)" using ex assms by simp
    then show ?thesis using hold [OF assms(2)] by blast
  qed
qed

section \<open>The shared spinlock\<close>

datatype sh_pc =
    Sh_idle
  | Sh_w_exchange  \<comment> \<open>in \<open>lock\<close>\<close>
  | Sh_w_spin
  | Sh_w_readers   \<comment> \<open>waiting for the readers to leave\<close>
  | Sh_w_hold
  | Sh_r_spin      \<comment> \<open>in \<open>lock_shared\<close>\<close>
  | Sh_r_add
  | Sh_r_check
  | Sh_r_sub
  | Sh_r_hold

record shared_spinlock =
  sh_nread :: int
  sh_write :: bool
  sh_pcs :: "sh_pc list"

definition shared_spinlock_new :: "nat \<Rightarrow> shared_spinlock" where
  "shared_spinlock_new n = \<lparr>sh_nread = 0, sh_write = False, sh_pcs = replicate n Sh_idle\<rparr>"

fun sh_access :: "sh_pc \<Rightarrow> int \<Rightarrow> bool \<Rightarrow> int \<times> bool \<times> sh_pc" where
  "sh_access Sh_w_exchange n w = (n, False, if \<not> w then Sh_w_readers else Sh_w_spin)"
| "sh_access Sh_w_spin n w = (n, w, if w then Sh_w_spin else Sh_w_exchange)"
| "sh_access Sh_w_readers n w = (n, w, if n \<noteq> 0 then Sh_w_readers else Sh_w_hold)"
| "sh_access Sh_w_hold n w = (n, False, Sh_idle)"
| "sh_access Sh_r_spin n w = (n, w, if w then Sh_r_spin else Sh_r_add)"
| "sh_access Sh_r_add n w = (n + 1, w, Sh_r_check)"
| "sh_access Sh_r_check n w = (n, w, if w then Sh_r_sub else Sh_r_hold)"
| "sh_access Sh_r_sub n w = (n - 1, w, Sh_r_spin)"
| "sh_access Sh_r_hold n w = (n - 1, w, Sh_idle)"
| "sh_access Sh_idle n w = (n, w, Sh_idle)"

definition sh_at :: "nat \<Rightarrow> sh_pc \<Rightarrow> int \<Rightarrow> bool \<Rightarrow> shared_spinlock \<Rightarrow> shared_spinlock" where
  "sh_at t pc n w s = \<lparr>sh_nread = n, sh_write = w, sh_pcs = (sh_pcs s)[t := pc]\<rparr>"

inductive sh_step :: "shared_spinlock \<Rightarrow> shared_spinlock \<Rightarrow> bool" where
  call_lock: "t < length (sh_pcs s) \<Longrightarrow> sh_pcs s ! t = Sh_idle \<Longrightarrow> sh_step s (sh_at t Sh_w_exchange (sh_nread s) (sh_write s) s)"
| call_lock_shared: "t < length (sh_pcs s) \<Longrightarrow> sh_pcs s ! t = Sh_idle \<Longrightarrow> sh_step s (sh_at t Sh_r_spin (sh_nread s) (sh_write s) s)"
| run: "t < length (sh_pcs s) \<Longrightarrow> sh_pcs s ! t \<noteq> Sh_idle \<Longrightarrow> sh_access (sh_pcs s ! t) (sh_nread s) (sh_write s) = (n, w, pc) \<Longrightarrow>
    sh_step s (sh_at t pc n w s)"

abbreviation sh_reach :: "nat \<Rightarrow> shared_spinlock \<Rightarrow> bool" where "sh_reach n s \<equiv> sh_step\<^sup>*\<^sup>* (shared_spinlock_new n) s"

definition counted_reader :: "sh_pc \<Rightarrow> bool" where
  "counted_reader pc \<longleftrightarrow> pc \<in> {Sh_r_check, Sh_r_sub, Sh_r_hold}"

text \<open>The counter is the number of readers inside or on the way; the flag of the writers is never set.\<close>

definition sh_inv :: "shared_spinlock \<Rightarrow> bool" where
  "sh_inv s \<longleftrightarrow> \<not> sh_write s \<and> sh_nread s = int (length (filter counted_reader (sh_pcs s)))"

lemma sh_at_inv:
  assumes "sh_inv s" "t < length (sh_pcs s)" "\<not> w"
    and "n + (if counted_reader (sh_pcs s ! t) then 1 else 0) = sh_nread s + (if counted_reader pc then 1 else 0)"
  shows "sh_inv (sh_at t pc n w s)"
  using assms length_filter_update [of t "sh_pcs s" counted_reader pc]
  by (simp add: sh_inv_def sh_at_def split: if_splits)

lemma sh_step_inv: "sh_step s s' \<Longrightarrow> sh_inv s \<Longrightarrow> sh_inv s'"
proof (induction rule: sh_step.induct)
  case (run t s n w pc)
  then have "\<not> sh_write s" by (simp add: sh_inv_def)
  then show ?case using run by (cases "sh_pcs s ! t") (auto intro!: sh_at_inv simp: counted_reader_def split: if_splits)
next
  case (call_lock t s)
  then have "\<not> sh_write s" by (simp add: sh_inv_def)
  then show ?case using call_lock by (intro sh_at_inv) (simp_all add: counted_reader_def)
next
  case (call_lock_shared t s)
  then have "\<not> sh_write s" by (simp add: sh_inv_def)
  then show ?case using call_lock_shared by (intro sh_at_inv) (simp_all add: counted_reader_def)
qed

lemma sh_reach_inv: "sh_reach n s \<Longrightarrow> sh_inv s"
proof (induction rule: rtranclp_induct)
  case base
  show ?case by (simp add: sh_inv_def shared_spinlock_new_def counted_reader_def)
next
  case (step s s')
  then show ?case by (blast intro: sh_step_inv)
qed

lemma sh_run1:
  "t < length (sh_pcs s) \<Longrightarrow> sh_pcs s ! t \<noteq> Sh_idle \<Longrightarrow> sh_access (sh_pcs s ! t) (sh_nread s) (sh_write s) = (n, w, pc) \<Longrightarrow>
   sh_step\<^sup>*\<^sup>* (sh_at t pc n w s) s' \<Longrightarrow> sh_step\<^sup>*\<^sup>* s s'"
  by (rule converse_rtranclp_into_rtranclp [where r = sh_step]) (rule sh_step.run)

lemma sh_at_simps [simp]:
  "sh_pcs (sh_at t pc n w s) = (sh_pcs s)[t := pc]" "sh_nread (sh_at t pc n w s) = n" "sh_write (sh_at t pc n w s) = w"
  "sh_at t pc n w (sh_at t pc' n' w' s) = sh_at t pc n w s"
  by (simp_all add: sh_at_def)

lemma sh_writer_enters:
  assumes "sh_inv s" "t < length (sh_pcs s)" "sh_pcs s ! t = Sh_idle" "sh_nread s = 0"
  shows "sh_step\<^sup>*\<^sup>* s (sh_at t Sh_w_hold 0 False s)"
proof -
  have w: "\<not> sh_write s" using assms(1) by (simp add: sh_inv_def)
  show ?thesis
    by (rule converse_rtranclp_into_rtranclp [where r = sh_step, OF sh_step.call_lock [OF assms(2,3)]],
        rule sh_run1 [where t = t], use assms w in simp, use assms w in simp, use assms w in simp,
        rule sh_run1 [where t = t], use assms w in simp, use assms w in simp, use assms w in simp, use assms w in simp)
qed

lemma sh_reader_enters:
  assumes "sh_inv s" "t < length (sh_pcs s)" "sh_pcs s ! t = Sh_idle"
  shows "sh_step\<^sup>*\<^sup>* s (sh_at t Sh_r_hold (sh_nread s + 1) False s)"
proof -
  have w: "\<not> sh_write s" using assms(1) by (simp add: sh_inv_def)
  show ?thesis
    by (rule converse_rtranclp_into_rtranclp [where r = sh_step, OF sh_step.call_lock_shared [OF assms(2,3)]],
        rule sh_run1 [where t = t], use assms w in simp, use assms w in simp, use assms w in simp,
        rule sh_run1 [where t = t], use assms w in simp, use assms w in simp, use assms w in simp,
        rule sh_run1 [where t = t], use assms w in simp, use assms w in simp, use assms w in simp, use assms w in simp)
qed

section \<open>Properties\<close>

text \<open>C12: However the threads interleave, at most one holds the spinlock, the flag says whether one does, and a
  free spinlock can be taken by any thread that waits for it.\<close>

theorem spinlock_mutual_exclusion:
  assumes "sp_reach n s" "t < length (sp_pcs s)"
  shows "holders s = (if sp_flag s then 1 else 0)
    \<and> (sp_pcs s ! t = Sp_hold \<longrightarrow> (\<forall>u < length (sp_pcs s). sp_pcs s ! u = Sp_hold \<longrightarrow> u = t))
    \<and> (\<not> sp_flag s \<and> sp_pcs s ! t \<in> {Sp_spin, Sp_exchange} \<longrightarrow> (\<exists>s'. sp_step\<^sup>*\<^sup>* s s' \<and> sp_pcs s' ! t = Sp_hold))"
proof -
  have h: "holders s = (if sp_flag s then 1 else 0)" using sp_reach_inv [OF assms(1)] by (simp add: sp_inv_def)
  then have "holders s \<le> 1" by simp
  then show ?thesis using h holders_unique [OF _ _ assms(2)] sp_free_taken [OF _ assms(2)] by blast
qed

theorem spinlock_mutual_exclusion_witness:
  "holders (sp_at 0 Sp_hold True (sp_at 0 Sp_exchange False (spinlock_new 2))) = 1"
proof -
  let ?a = "sp_at 0 Sp_exchange False (spinlock_new 2)" and ?b = "sp_at 0 Sp_hold True (sp_at 0 Sp_exchange False (spinlock_new 2))"
  have "sp_step (spinlock_new 2) ?a" using sp_step.call_lock [of 0 "spinlock_new 2"] by (simp add: spinlock_new_def)
  moreover have "sp_step ?a ?b" by (rule sp_step.run) (simp_all add: sp_at_def spinlock_new_def)
  ultimately have "sp_reach 2 ?b" by (meson r_into_rtranclp rtranclp_trans)
  moreover have "0 < length (sp_pcs ?b)" by (simp add: sp_at_def spinlock_new_def)
  ultimately have "holders ?b = (if sp_flag ?b then 1 else 0)" using spinlock_mutual_exclusion by blast
  then show ?thesis by (simp add: sp_at_def)
qed

text \<open>C30: The shared spinlock keeps nobody out of a writer's section: as \<open>lock\<close> exchanges the flag with false, in
  every reachable state the flag is clear, so that an idle thread can enter as a writer by its own steps
  whenever no reader is inside, and as a reader at any time, whoever else holds the lock.\<close>

theorem shared_spinlock_excludes_nobody:
  assumes "sh_reach n s" "t < length (sh_pcs s)" "sh_pcs s ! t = Sh_idle"
  shows "\<not> sh_write s \<and> sh_nread s = int (length (filter counted_reader (sh_pcs s)))
    \<and> (sh_nread s = 0 \<longrightarrow> sh_step\<^sup>*\<^sup>* s (sh_at t Sh_w_hold 0 False s))
    \<and> sh_step\<^sup>*\<^sup>* s (sh_at t Sh_r_hold (sh_nread s + 1) False s)"
  using sh_reach_inv [OF assms(1)] sh_writer_enters [OF _ assms(2,3)] sh_reader_enters [OF _ assms(2,3)] by (auto simp: sh_inv_def)

theorem shared_spinlock_excludes_nobody_witness:
  "\<exists>s. sh_reach 2 s \<and> sh_pcs s = [Sh_w_hold, Sh_w_hold]"
proof -
  let ?s = "shared_spinlock_new 2" and ?a = "sh_at 0 Sh_w_hold 0 False (shared_spinlock_new 2)"
  have pcs: "sh_pcs ?s = [Sh_idle, Sh_idle]" "sh_nread ?s = 0" by (simp_all add: shared_spinlock_new_def numeral_2_eq_2)
  have 1: "sh_step\<^sup>*\<^sup>* ?s ?a" using shared_spinlock_excludes_nobody [of 2 ?s 0] pcs by simp
  have "sh_step\<^sup>*\<^sup>* ?a (sh_at 1 Sh_w_hold 0 False ?a)" using shared_spinlock_excludes_nobody [OF 1, of 1] pcs by simp
  then have "sh_reach 2 (sh_at 1 Sh_w_hold 0 False ?a)" using 1 by (rule rtranclp_trans [rotated])
  then show ?thesis using pcs by (intro exI [where x = "sh_at 1 Sh_w_hold 0 False ?a"]) simp
qed

end
