(* ===== verification/Pool.thy ===== *)
theory Pool
  imports Cpph_Prelude
begin

text \<open>
  \<open>memory/pool.hxx\<close>: pools of reusable objects. A node of the heap carries the object, a weak reference to its
  pool and the link of the pool's list of idle nodes; a \<open>pool_ptr\<close> owns the node it points to and gives it back
  to its pool when it goes, or destroys it when the pool is gone. Several pools and pointer variables live side
  by side; a pool with a mutex does each operation on its list as one critical section.
\<close>

section \<open>Data\<close>

record 'a pool_node =
  pn_owner :: "nat option"
  pn_next :: "nat option"
  pn_elem :: 'a

text \<open>\<open>pl_idle\<close>: the list head of each living pool, \<open>pl_ptrs\<close>: the node each pointer variable owns, \<open>pl_dead\<close>: the
  nodes whose object was destroyed, in this order.\<close>

record 'a pool_sys =
  pl_nodes :: "nat \<Rightarrow> 'a pool_node option"
  pl_fresh :: nat
  pl_idle :: "nat \<Rightarrow> nat option option"
  pl_pools :: nat
  pl_ptrs :: "nat \<Rightarrow> nat option"
  pl_dead :: "nat list"

datatype pool_error = Pool_null | Pool_no_pool | Pool_assert | Pool_dangling | Pool_ctor | Pool_runaway

definition pool_sys_new :: "'a pool_sys" where
  "pool_sys_new = \<lparr>pl_nodes = \<lambda>_. None, pl_fresh = 0, pl_idle = \<lambda>_. None, pl_pools = 0, pl_ptrs = \<lambda>_. None, pl_dead = []\<rparr>"

type_synonym ('a, 'b) pool_op = "'a pool_sys \<Rightarrow> (pool_error + 'b) \<times> 'a pool_sys"

definition pn_upd :: "nat \<Rightarrow> ('a pool_node \<Rightarrow> 'a pool_node) \<Rightarrow> 'a pool_sys \<Rightarrow> 'a pool_sys" where
  "pn_upd n f s = s\<lparr>pl_nodes := (pl_nodes s)(n := map_option f (pl_nodes s n))\<rparr>"

section \<open>The list of a pool\<close>

definition pool_new :: "('a, nat) pool_op" where
  "pool_new s = (Inr (pl_pools s), s\<lparr>pl_idle := (pl_idle s)(pl_pools s \<mapsto> None), pl_pools := pl_pools s + 1\<rparr>)"

definition pool_try_checkout :: "nat \<Rightarrow> ('a, nat option) pool_op" where
  "pool_try_checkout p s =
     (case pl_idle s p of
        None \<Rightarrow> (Inl Pool_no_pool, s)
      | Some None \<Rightarrow> (Inr None, s)
      | Some (Some n) \<Rightarrow>
          (case pl_nodes s n of
             None \<Rightarrow> (Inl Pool_dangling, s)
           | Some d \<Rightarrow> (Inr (Some n), pn_upd n (\<lambda>d. d\<lparr>pn_next := None\<rparr>) (s\<lparr>pl_idle := (pl_idle s)(p \<mapsto> pn_next d)\<rparr>))))"

text \<open>A new node; the constructor of the object may throw, \<open>None\<close>, and the memory is given back.\<close>

definition pool_construct :: "nat \<Rightarrow> 'a option \<Rightarrow> ('a, nat) pool_op" where
  "pool_construct p ctor s =
     (case ctor of
        None \<Rightarrow> (Inl Pool_ctor, s)
      | Some x \<Rightarrow>
          (Inr (pl_fresh s), s\<lparr>pl_nodes := (pl_nodes s)(pl_fresh s \<mapsto> \<lparr>pn_owner = Some p, pn_next = None, pn_elem = x\<rparr>), pl_fresh := pl_fresh s + 1\<rparr>))"

definition pool_checkin :: "nat \<Rightarrow> nat \<Rightarrow> ('a, unit) pool_op" where
  "pool_checkin p n s =
     (case (pl_nodes s n, pl_idle s p) of
        (None, _) \<Rightarrow> (Inl Pool_dangling, s)
      | (_, None) \<Rightarrow> (Inl Pool_no_pool, s)
      | (Some d, Some idle) \<Rightarrow>
          if pn_next d \<noteq> None then (Inl Pool_assert, s)
          else (Inr (), (if idle \<noteq> None then pn_upd n (\<lambda>d. d\<lparr>pn_next := idle\<rparr>) s else s)\<lparr>pl_idle := (pl_idle s)(p \<mapsto> Some n)\<rparr>))"

text \<open>The object is destroyed and the memory given back; the link must be clear.\<close>

definition node_dispose :: "nat \<Rightarrow> ('a, unit) pool_op" where
  "node_dispose n s =
     (case pl_nodes s n of
        None \<Rightarrow> (Inl Pool_dangling, s)
      | Some d \<Rightarrow>
          if pn_next d \<noteq> None then (Inl Pool_assert, s\<lparr>pl_dead := pl_dead s @ [n]\<rparr>)
          else (Inr (), s\<lparr>pl_nodes := (pl_nodes s)(n := None), pl_dead := pl_dead s @ [n]\<rparr>))"

fun clear_chain :: "nat \<Rightarrow> nat option \<Rightarrow> ('a, unit) pool_op" where
  "clear_chain k None s = (Inr (), s)"
| "clear_chain 0 (Some n) s = (Inl Pool_runaway, s)"
| "clear_chain (Suc k) (Some n) s =
     (case pl_nodes s n of
        None \<Rightarrow> (Inl Pool_dangling, s)
      | Some d \<Rightarrow> seqE (node_dispose n) (\<lambda>_. clear_chain k (pn_next d)) (pn_upd n (\<lambda>d. d\<lparr>pn_next := None\<rparr>) s))"

definition clear_all_idle :: "nat \<Rightarrow> ('a, unit) pool_op" where
  "clear_all_idle p s =
     (case pl_idle s p of
        None \<Rightarrow> (Inl Pool_no_pool, s)
      | Some idle \<Rightarrow> clear_chain (pl_fresh s) idle (s\<lparr>pl_idle := (pl_idle s)(p \<mapsto> None)\<rparr>))"

text \<open>The last owner of a pool goes: weak references to it are void from then on.\<close>

definition pool_destroy :: "nat \<Rightarrow> ('a, unit) pool_op" where
  "pool_destroy p = seqE (clear_all_idle p) (\<lambda>_. updE (\<lambda>s. s\<lparr>pl_idle := (pl_idle s)(p := None)\<rparr>))"

section \<open>Pointers\<close>

text \<open>\<open>pool_ptr::checkin\<close>, for the node the pointer had.\<close>

definition node_return :: "nat option \<Rightarrow> ('a, unit) pool_op" where
  "node_return h s =
     (case h of
        None \<Rightarrow> (Inr (), s)
      | Some n \<Rightarrow>
          (case pl_nodes s n of
             None \<Rightarrow> (Inl Pool_dangling, s)
           | Some d \<Rightarrow>
               (case pn_owner d of
                  Some p \<Rightarrow> if pl_idle s p \<noteq> None then pool_checkin p n s else node_dispose n s
                | None \<Rightarrow> node_dispose n s)))"

definition ptr_checkin :: "nat \<Rightarrow> ('a, unit) pool_op" where
  "ptr_checkin h s = node_return (pl_ptrs s h) (s\<lparr>pl_ptrs := (pl_ptrs s)(h := None)\<rparr>)"

text \<open>\<open>h = pool.checkout()\<close>: the pointer takes the node, and gives back the one it had.\<close>

definition pool_checkout :: "nat \<Rightarrow> 'a option \<Rightarrow> nat \<Rightarrow> ('a, unit) pool_op" where
  "pool_checkout p ctor h =
     seqE (pool_try_checkout p) (\<lambda>found.
     seqE (case found of Some n \<Rightarrow> retE n | None \<Rightarrow> pool_construct p ctor) (\<lambda>n s.
       node_return (pl_ptrs s h) (s\<lparr>pl_ptrs := (pl_ptrs s)(h \<mapsto> n)\<rparr>)))"

text \<open>Move assignment swaps.\<close>

definition ptr_swap :: "nat \<Rightarrow> nat \<Rightarrow> ('a, unit) pool_op" where
  "ptr_swap h k = updE (\<lambda>s. s\<lparr>pl_ptrs := (pl_ptrs s)(h := pl_ptrs s k, k := pl_ptrs s h)\<rparr>)"

definition set_owner :: "nat option \<Rightarrow> nat \<Rightarrow> ('a, unit) pool_op" where
  "set_owner p h s =
     (case pl_ptrs s h of None \<Rightarrow> (Inl Pool_null, s) | Some n \<Rightarrow> (Inr (), pn_upd n (\<lambda>d. d\<lparr>pn_owner := p\<rparr>) s))"

definition ptr_detach :: "nat \<Rightarrow> ('a, unit) pool_op" where
  "ptr_detach = set_owner None"

definition take_ownership :: "nat \<Rightarrow> nat \<Rightarrow> ('a, unit) pool_op" where
  "take_ownership p h s = (if pl_idle s p = None then (Inl Pool_no_pool, s) else set_owner (Some p) h s)"

definition ptr_get :: "nat \<Rightarrow> 'a pool_sys \<Rightarrow> 'a option" where
  "ptr_get h s = (case pl_ptrs s h of None \<Rightarrow> None | Some n \<Rightarrow> map_option pn_elem (pl_nodes s n))"

datatype 'a pool_cmd =
    Pc_new
  | Pc_checkout nat "'a option" nat
  | Pc_checkin nat
  | Pc_swap nat nat
  | Pc_shrink nat
  | Pc_destroy nat
  | Pc_detach nat
  | Pc_take nat nat

fun pool_do :: "'a pool_cmd \<Rightarrow> ('a, unit) pool_op" where
  "pool_do Pc_new = seqE pool_new (\<lambda>_. retE ())"
| "pool_do (Pc_checkout p ctor h) = pool_checkout p ctor h"
| "pool_do (Pc_checkin h) = ptr_checkin h"
| "pool_do (Pc_swap h k) = ptr_swap h k"
| "pool_do (Pc_shrink p) = clear_all_idle p"
| "pool_do (Pc_destroy p) = pool_destroy p"
| "pool_do (Pc_detach h) = ptr_detach h"
| "pool_do (Pc_take p h) = take_ownership p h"

fun pool_run :: "'a pool_cmd list \<Rightarrow> ('a, unit) pool_op" where
  "pool_run [] = retE ()"
| "pool_run (c # cs) = seqE (pool_do c) (\<lambda>_. pool_run cs)"

section \<open>The invariant\<close>

fun sseg :: "(nat \<Rightarrow> 'a pool_node option) \<Rightarrow> nat option \<Rightarrow> nat list \<Rightarrow> bool" where
  "sseg h x [] \<longleftrightarrow> x = None"
| "sseg h x (n # ns) \<longleftrightarrow> x = Some n \<and> (\<exists>d. h n = Some d \<and> sseg h (pn_next d) ns)"

lemma sseg_frame: "n \<notin> set ns \<Longrightarrow> sseg (h(n := d)) x ns = sseg h x ns"
  by (induction h x ns rule: sseg.induct) auto

lemma sseg_alive: "sseg h x ns \<Longrightarrow> n \<in> set ns \<Longrightarrow> \<exists>d. h n = Some d"
  by (induction h x ns rule: sseg.induct) auto

lemma sseg_cong: "(\<And>n. n \<in> set ns \<Longrightarrow> map_option pn_next (h n) = map_option pn_next (h' n)) \<Longrightarrow> sseg h x ns = sseg h' x ns"
proof (induction h x ns rule: sseg.induct)
  case (2 h x n ns)
  have "map_option pn_next (h n) = map_option pn_next (h' n)" using "2.prems" by simp
  then show ?case using "2.IH" "2.prems" by (cases "h n"; cases "h' n") auto
qed simp

text \<open>The idle nodes \<open>Q p\<close> of each pool and the nodes \<open>H\<close> in the hands of a running call; every living node is idle
  in one pool, owned by one pointer or in hand, with a clear link unless it is idle; nothing that was destroyed
  lives, and nothing was destroyed twice.\<close>

definition owned_once :: "(nat \<Rightarrow> nat list) \<Rightarrow> nat set \<Rightarrow> (nat \<Rightarrow> nat option) \<Rightarrow> bool" where
  "owned_once Q H ptrs \<longleftrightarrow>
     (\<forall>p. distinct (Q p)) \<and> (\<forall>p q. p \<noteq> q \<longrightarrow> set (Q p) \<inter> set (Q q) = {})
   \<and> (\<forall>h n. ptrs h = Some n \<longrightarrow> (\<forall>p. n \<notin> set (Q p)) \<and> n \<notin> H \<and> (\<forall>k. ptrs k = Some n \<longrightarrow> k = h))
   \<and> (\<forall>n \<in> H. \<forall>p. n \<notin> set (Q p))"

definition idle_ok :: "(nat \<Rightarrow> nat list) \<Rightarrow> (nat \<Rightarrow> nat option option) \<Rightarrow> (nat \<Rightarrow> 'a pool_node option) \<Rightarrow> nat \<Rightarrow> bool" where
  "idle_ok Q idle nodes k \<longleftrightarrow> (\<forall>p. (idle p = None \<longrightarrow> Q p = []) \<and> (\<forall>x. idle p = Some x \<longrightarrow> sseg nodes x (Q p) \<and> p < k))"

definition clear_links :: "nat set \<Rightarrow> (nat \<Rightarrow> nat option) \<Rightarrow> (nat \<Rightarrow> 'a pool_node option) \<Rightarrow> bool" where
  "clear_links H ptrs nodes \<longleftrightarrow> (\<forall>n. n \<in> H \<or> (\<exists>h. ptrs h = Some n) \<longrightarrow> (\<exists>d. nodes n = Some d \<and> pn_next d = None))"

definition no_leak :: "(nat \<Rightarrow> nat list) \<Rightarrow> nat set \<Rightarrow> (nat \<Rightarrow> nat option) \<Rightarrow> (nat \<Rightarrow> 'a pool_node option) \<Rightarrow> nat \<Rightarrow> bool" where
  "no_leak Q H ptrs nodes k \<longleftrightarrow> (\<forall>n. nodes n \<noteq> None \<longrightarrow> n < k \<and> ((\<exists>p. n \<in> set (Q p)) \<or> (\<exists>h. ptrs h = Some n) \<or> n \<in> H))"

definition dead_once :: "nat list \<Rightarrow> (nat \<Rightarrow> 'a pool_node option) \<Rightarrow> nat \<Rightarrow> bool" where
  "dead_once ns nodes k \<longleftrightarrow> distinct ns \<and> (\<forall>n \<in> set ns. n < k \<and> nodes n = None)"

definition pool_wf :: "(nat \<Rightarrow> nat list) \<Rightarrow> nat set \<Rightarrow> 'a pool_sys \<Rightarrow> bool" where
  "pool_wf Q H s \<longleftrightarrow> owned_once Q H (pl_ptrs s) \<and> idle_ok Q (pl_idle s) (pl_nodes s) (pl_pools s) \<and> clear_links H (pl_ptrs s) (pl_nodes s)
     \<and> no_leak Q H (pl_ptrs s) (pl_nodes s) (pl_fresh s) \<and> dead_once (pl_dead s) (pl_nodes s) (pl_fresh s)"

lemma pool_wf_new: "pool_wf (\<lambda>_. []) {} pool_sys_new"
  by (simp add: pool_wf_def owned_once_def idle_ok_def clear_links_def no_leak_def dead_once_def pool_sys_new_def)

lemma pool_wf_idle: "pool_wf Q H s \<Longrightarrow> pl_idle s p = Some x \<Longrightarrow> sseg (pl_nodes s) x (Q p) \<and> p < pl_pools s"
  by (simp add: pool_wf_def idle_ok_def)

lemma pool_wf_owned: "pool_wf Q H s \<Longrightarrow> n \<in> H \<or> pl_ptrs s h = Some n \<Longrightarrow> \<exists>d. pl_nodes s n = Some d \<and> pn_next d = None"
  by (auto simp: pool_wf_def clear_links_def)

lemma pool_wf_hand: "pool_wf Q H s \<Longrightarrow> n \<in> H \<Longrightarrow> n < pl_fresh s \<and> n \<notin> set (pl_dead s) \<and> n \<notin> set (Q p) \<and> pl_ptrs s h \<noteq> Some n"
  using pool_wf_owned [of Q H s n h] by (auto simp: pool_wf_def owned_once_def no_leak_def dead_once_def)

lemma idle_ok_frame: "idle_ok Q idle nodes k \<Longrightarrow> (\<And>p. n \<notin> set (Q p)) \<Longrightarrow> idle_ok Q idle (nodes(n := d)) k"
  by (simp add: idle_ok_def sseg_frame)

lemma pool_new_wf: "pool_wf Q {} s \<Longrightarrow> pool_wf Q {} (snd (pool_new s))"
proof -
  assume wf: "pool_wf Q {} s"
  have "pl_idle s (pl_pools s) = None" using pool_wf_idle [OF wf, of "pl_pools s"] by (cases "pl_idle s (pl_pools s)") auto
  then show ?thesis using wf by (auto simp: pool_wf_def pool_new_def idle_ok_def less_SucI)
qed

text \<open>A node in hand leaves the system, or goes into a pool's list.\<close>

lemma node_dispose_wf:
  assumes wf: "pool_wf Q (insert n H) s" and n: "n \<notin> H"
  shows "\<exists>s'. node_dispose n s = (Inr (), s') \<and> pool_wf Q H s'
    \<and> s' = s\<lparr>pl_nodes := (pl_nodes s)(n := None), pl_dead := pl_dead s @ [n]\<rparr>"
proof -
  obtain d where d: "pl_nodes s n = Some d" "pn_next d = None" using pool_wf_owned [OF wf] by blast
  have hand: "n < pl_fresh s" "n \<notin> set (pl_dead s)" "\<And>p. n \<notin> set (Q p)" "\<And>h. pl_ptrs s h \<noteq> Some n"
    using pool_wf_hand [OF wf, of n] by auto
  have "owned_once Q H (pl_ptrs s)" using wf by (auto simp: pool_wf_def owned_once_def)
  moreover have "idle_ok Q (pl_idle s) ((pl_nodes s)(n := None)) (pl_pools s)"
    using wf hand(3) by (intro idle_ok_frame) (simp add: pool_wf_def)
  moreover have "clear_links H (pl_ptrs s) ((pl_nodes s)(n := None))" using wf n hand(4) by (auto simp: pool_wf_def clear_links_def)
  moreover have "no_leak Q H (pl_ptrs s) ((pl_nodes s)(n := None)) (pl_fresh s)" using wf by (auto simp: pool_wf_def no_leak_def)
  moreover have "dead_once (pl_dead s @ [n]) ((pl_nodes s)(n := None)) (pl_fresh s)" using wf hand(1,2) by (auto simp: pool_wf_def dead_once_def)
  ultimately show ?thesis using d by (simp add: node_dispose_def pool_wf_def)
qed

lemma pool_checkin_wf:
  assumes wf: "pool_wf Q {n} s" and idle: "pl_idle s p = Some x"
  shows "\<exists>d s'. pool_checkin p n s = (Inr (), s') \<and> pool_wf (Q(p := n # Q p)) {} s' \<and> pl_nodes s n = Some d
    \<and> s' = s\<lparr>pl_nodes := (pl_nodes s)(n \<mapsto> d\<lparr>pn_next := x\<rparr>), pl_idle := (pl_idle s)(p \<mapsto> Some n)\<rparr>"
proof -
  obtain d where d: "pl_nodes s n = Some d" "pn_next d = None" using pool_wf_owned [OF wf] by blast
  have hand: "n < pl_fresh s" "n \<notin> set (pl_dead s)" "\<And>p. n \<notin> set (Q p)" "\<And>h. pl_ptrs s h \<noteq> Some n"
    using pool_wf_hand [OF wf, of n] by auto
  let ?h = "(pl_nodes s)(n \<mapsto> d\<lparr>pn_next := x\<rparr>)"
  let ?Q = "Q(p := n # Q p)"
  have "(if x \<noteq> None then pn_upd n (\<lambda>d. d\<lparr>pn_next := x\<rparr>) s else s)\<lparr>pl_idle := (pl_idle s)(p \<mapsto> Some n)\<rparr>
      = s\<lparr>pl_nodes := ?h, pl_idle := (pl_idle s)(p \<mapsto> Some n)\<rparr>"
  proof (cases x)
    case None
    then have "d\<lparr>pn_next := x\<rparr> = d" using d(2) by simp
    then have "?h = pl_nodes s" using d(1) by (simp add: fun_upd_idem)
    then show ?thesis using None by simp
  qed (use d in \<open>simp add: pn_upd_def\<close>)
  then have run: "pool_checkin p n s = (Inr (), s\<lparr>pl_nodes := ?h, pl_idle := (pl_idle s)(p \<mapsto> Some n)\<rparr>)"
    using d idle by (simp add: pool_checkin_def)
  have "owned_once ?Q {} (pl_ptrs s)" using wf hand(3,4) by (auto simp: pool_wf_def owned_once_def)
  moreover have "idle_ok Q (pl_idle s) ?h (pl_pools s)" using wf hand(3) by (intro idle_ok_frame) (simp add: pool_wf_def)
  then have "idle_ok ?Q ((pl_idle s)(p \<mapsto> Some n)) ?h (pl_pools s)" using idle by (simp add: idle_ok_def)
  moreover have "clear_links {} (pl_ptrs s) ?h" using wf hand(4) by (auto simp: pool_wf_def clear_links_def)
  moreover have "no_leak ?Q {} (pl_ptrs s) ?h (pl_fresh s)" using wf hand(1) by (fastforce simp: pool_wf_def no_leak_def)
  moreover have "dead_once (pl_dead s) ?h (pl_fresh s)" using wf hand(2) by (auto simp: pool_wf_def dead_once_def)
  ultimately show ?thesis using run d(1) by (simp add: pool_wf_def)
qed

lemma pop_wf:
  assumes wf: "pool_wf Q {} s" and idle: "pl_idle s p = Some x" and q: "Q p = n # ns"
  shows "\<exists>d. x = Some n \<and> pl_nodes s n = Some d
    \<and> pool_wf (Q(p := ns)) {n} (s\<lparr>pl_nodes := (pl_nodes s)(n \<mapsto> d\<lparr>pn_next := None\<rparr>), pl_idle := (pl_idle s)(p \<mapsto> pn_next d)\<rparr>)"
proof -
  obtain d where d: "x = Some n" "pl_nodes s n = Some d" "sseg (pl_nodes s) (pn_next d) ns" using pool_wf_idle [OF wf idle] q by auto
  let ?Q = "Q(p := ns)" and ?h = "(pl_nodes s)(n \<mapsto> d\<lparr>pn_next := None\<rparr>)"
  have once: "owned_once Q {} (pl_ptrs s)" using wf by (simp add: pool_wf_def)
  then have o: "\<And>r. distinct (Q r)" "\<And>r r'. r \<noteq> r' \<Longrightarrow> set (Q r) \<inter> set (Q r') = {}" "\<And>h m r. pl_ptrs s h = Some m \<Longrightarrow> m \<notin> set (Q r)"
    "\<And>h k m. pl_ptrs s h = Some m \<Longrightarrow> pl_ptrs s k = Some m \<Longrightarrow> k = h"
    by (simp_all add: owned_once_def)
  have n: "n \<notin> set ns" "\<And>r. r \<noteq> p \<Longrightarrow> n \<notin> set (Q r)" "\<And>h. pl_ptrs s h \<noteq> Some n" "distinct ns"
    using o(1) [of p] o(2) [of p] o(3) [of _ n p] q by auto
  then have nq: "n \<notin> set (?Q r)" for r by simp
  have "owned_once ?Q {n} (pl_ptrs s)"
  proof -
    have sub: "set (?Q r) \<subseteq> set (Q r)" for r using q by auto
    have "distinct (?Q r)" for r using o(1) [of r] n(4) by simp
    moreover have "set (?Q r) \<inter> set (?Q r') = {}" if "r \<noteq> r'" for r r'
      using o(2) [OF that] sub [of r] sub [of r'] by blast
    moreover have "m \<notin> set (?Q r) \<and> m \<notin> {n} \<and> (\<forall>k. pl_ptrs s k = Some m \<longrightarrow> k = h)" if "pl_ptrs s h = Some m" for h m r
      using o(3,4) that sub [of r] n(3) by blast
    ultimately show ?thesis using nq by (simp add: owned_once_def)
  qed
  moreover have "idle_ok ?Q ((pl_idle s)(p \<mapsto> pn_next d)) ?h (pl_pools s)"
    using wf idle d(3) nq n by (auto simp: pool_wf_def idle_ok_def sseg_frame)
  moreover have "clear_links {n} (pl_ptrs s) ?h" using wf n(3) by (auto simp: pool_wf_def clear_links_def)
  moreover have "no_leak ?Q {n} (pl_ptrs s) ?h (pl_fresh s)"
  proof -
    have "m < pl_fresh s \<and> ((\<exists>r. m \<in> set (?Q r)) \<or> (\<exists>h. pl_ptrs s h = Some m) \<or> m \<in> {n})" if m: "?h m \<noteq> None" for m
    proof -
      have a: "m < pl_fresh s" "(\<exists>r. m \<in> set (Q r)) \<or> (\<exists>h. pl_ptrs s h = Some m)"
        using wf m d(2) unfolding pool_wf_def no_leak_def by (auto split: if_splits)
      have "m \<in> set (?Q r) \<or> m = n" if "m \<in> set (Q r)" for r using that q by (cases "r = p") auto
      then show ?thesis using a by blast
    qed
    then show ?thesis by (simp add: no_leak_def)
  qed
  moreover have "dead_once (pl_dead s) ?h (pl_fresh s)" using wf d(2) by (auto simp: pool_wf_def dead_once_def)
  ultimately show ?thesis using d by (simp add: pool_wf_def)
qed

lemma construct_wf:
  assumes wf: "pool_wf Q {} s"
  shows "pool_wf Q {pl_fresh s} (s\<lparr>pl_nodes := (pl_nodes s)(pl_fresh s \<mapsto> \<lparr>pn_owner = Some p, pn_next = None, pn_elem = x\<rparr>), pl_fresh := pl_fresh s + 1\<rparr>)"
proof -
  let ?n = "pl_fresh s" and ?h = "(pl_nodes s)(pl_fresh s \<mapsto> \<lparr>pn_owner = Some p, pn_next = None, pn_elem = x\<rparr>)"
  have no: "pl_nodes s ?n = None" using wf by (auto simp: pool_wf_def no_leak_def)
  have nq: "?n \<notin> set (Q r)" for r
  proof (cases "pl_idle s r")
    case None
    then show ?thesis using wf by (simp add: pool_wf_def idle_ok_def)
  next
    case (Some y)
    then show ?thesis using pool_wf_idle [OF wf Some] sseg_alive [of "pl_nodes s" y "Q r" ?n] no by auto
  qed
  have np: "pl_ptrs s h \<noteq> Some ?n" for h using pool_wf_owned [OF wf, of ?n h] no by auto
  have "owned_once Q {?n} (pl_ptrs s)" using wf nq np by (auto simp: pool_wf_def owned_once_def)
  moreover have "idle_ok Q (pl_idle s) ?h (pl_pools s)" using wf nq by (intro idle_ok_frame) (simp add: pool_wf_def)
  moreover have "clear_links {?n} (pl_ptrs s) ?h" using wf np by (auto simp: pool_wf_def clear_links_def)
  moreover have "no_leak Q {?n} (pl_ptrs s) ?h (Suc ?n)" using wf by (auto simp: pool_wf_def no_leak_def less_SucI)
  moreover have "dead_once (pl_dead s) ?h (Suc ?n)" using wf by (auto simp: pool_wf_def dead_once_def less_SucI)
  ultimately show ?thesis by (simp add: pool_wf_def)
qed

text \<open>A pointer takes what is in hand, and leaves in hand what it had.\<close>

lemma ptr_write_wf:
  assumes wf: "pool_wf Q (set_option x) s"
  shows "pool_wf Q (set_option (pl_ptrs s h)) (s\<lparr>pl_ptrs := (pl_ptrs s)(h := x)\<rparr>)"
proof -
  have once: "owned_once Q (set_option x) (pl_ptrs s)" using wf by (simp add: pool_wf_def)
  have "owned_once Q (set_option (pl_ptrs s h)) ((pl_ptrs s)(h := x))"
    using once unfolding owned_once_def by (cases x; cases "pl_ptrs s h") (auto split: if_splits)
  moreover have "clear_links (set_option (pl_ptrs s h)) ((pl_ptrs s)(h := x)) (pl_nodes s)"
    using wf by (auto simp: pool_wf_def clear_links_def split: if_splits)
  moreover have "no_leak Q (set_option (pl_ptrs s h)) ((pl_ptrs s)(h := x)) (pl_nodes s) (pl_fresh s)"
  proof -
    have "(\<exists>p. m \<in> set (Q p)) \<or> (\<exists>k. ((pl_ptrs s)(h := x)) k = Some m) \<or> m \<in> set_option (pl_ptrs s h)"
      if m: "(\<exists>p. m \<in> set (Q p)) \<or> (\<exists>k. pl_ptrs s k = Some m) \<or> m \<in> set_option x" for m
    proof -
      have "(\<exists>k. ((pl_ptrs s)(h := x)) k = Some m) \<or> m \<in> set_option (pl_ptrs s h)" if "pl_ptrs s k = Some m" for k
        using that by (cases "k = h") (auto intro: exI [where x = k])
      moreover have "\<exists>k. ((pl_ptrs s)(h := x)) k = Some m" if "m \<in> set_option x"
        using that by (intro exI [where x = h]) simp
      ultimately show ?thesis using m by blast
    qed
    then show ?thesis using wf by (simp add: pool_wf_def no_leak_def)
  qed
  ultimately show ?thesis using wf by (simp add: pool_wf_def)
qed

lemma node_return_wf:
  assumes wf: "pool_wf Q (set_option h) s"
  shows "\<exists>Q' s'. node_return h s = (Inr (), s') \<and> pool_wf Q' {} s'"
proof (cases h)
  case None
  then show ?thesis using wf by (auto simp: node_return_def)
next
  case (Some n)
  then have wf: "pool_wf Q {n} s" using wf by simp
  obtain d where d: "pl_nodes s n = Some d" using pool_wf_owned [OF wf] by blast
  have disp: "\<exists>s'. node_dispose n s = (Inr (), s') \<and> pool_wf Q {} s'" using node_dispose_wf [OF wf] by blast
  show ?thesis
  proof (cases "pn_owner d")
    case None
    then show ?thesis using Some d disp by (auto simp: node_return_def)
  next
    case (Some p)
    show ?thesis
    proof (cases "pl_idle s p")
      case None
      then show ?thesis using \<open>h = Some n\<close> Some d disp by (auto simp: node_return_def)
    next
      case idle: (Some x)
      then show ?thesis using \<open>h = Some n\<close> Some d pool_checkin_wf [OF wf idle] by (auto simp: node_return_def)
    qed
  qed
qed

lemma clear_chain_wf:
  "pool_wf Q {} (s\<lparr>pl_idle := (pl_idle s)(p \<mapsto> x)\<rparr>) \<Longrightarrow> pl_idle s p = Some None \<Longrightarrow> length (Q p) \<le> k \<Longrightarrow>
   \<exists>s'. clear_chain k x s = (Inr (), s') \<and> pool_wf (Q(p := [])) {} s' \<and> pl_idle s' = pl_idle s \<and> pl_ptrs s' = pl_ptrs s \<and> pl_dead s' = pl_dead s @ Q p
     \<and> (\<forall>m. m \<notin> set (Q p) \<longrightarrow> pl_nodes s' m = pl_nodes s m)"
proof (induction k arbitrary: Q s x)
  case 0
  then have "x = None" using pool_wf_idle [OF "0.prems"(1), of p x] by auto
  moreover from this have eq: "s\<lparr>pl_idle := (pl_idle s)(p \<mapsto> x)\<rparr> = s" using "0.prems"(2) by (cases s) (simp add: fun_upd_idem)
  have "pool_wf Q {} s" using "0.prems"(1) unfolding eq .
  moreover have "Q(p := []) = Q" using "0.prems"(3) by (simp add: fun_upd_idem)
  ultimately show ?case using "0.prems"(3) by simp
next
  case (Suc k)
  let ?s = "s\<lparr>pl_idle := (pl_idle s)(p \<mapsto> x)\<rparr>"
  show ?case
  proof (cases "Q p")
    case Nil
    then have "x = None" using pool_wf_idle [OF Suc.prems(1), of p x] by auto
    moreover from this have eq: "s\<lparr>pl_idle := (pl_idle s)(p \<mapsto> x)\<rparr> = s" using Suc.prems(2) by (cases s) (simp add: fun_upd_idem)
    have "pool_wf Q {} s" using Suc.prems(1) unfolding eq .
    moreover have "Q(p := []) = Q" using Nil by (simp add: fun_upd_idem)
    ultimately show ?thesis using Nil by simp
  next
    case (Cons n ns)
    have "pl_idle ?s p = Some x" by simp
    from pop_wf [where Q = Q and ns = ns, OF Suc.prems(1) this Cons] obtain d where d: "x = Some n" "pl_nodes s n = Some d"
      "pool_wf (Q(p := ns)) {n} (s\<lparr>pl_nodes := (pl_nodes s)(n \<mapsto> d\<lparr>pn_next := None\<rparr>), pl_idle := (pl_idle s)(p \<mapsto> pn_next d)\<rparr>)"
      by auto
    let ?h = "(pl_nodes s)(n := None)"
    let ?s1 = "s\<lparr>pl_nodes := ?h, pl_dead := pl_dead s @ [n]\<rparr>"
    have "pool_wf (Q(p := ns)) {} (?s1\<lparr>pl_idle := (pl_idle ?s1)(p \<mapsto> pn_next d)\<rparr>)"
      using node_dispose_wf [OF d(3)] by (simp add: pool_wf_def)
    moreover have "pl_idle ?s1 p = Some None" "length ((Q(p := ns)) p) \<le> k" using Suc.prems(2,3) Cons by simp_all
    ultimately obtain s' where s': "clear_chain k (pn_next d) ?s1 = (Inr (), s')" "pool_wf ((Q(p := ns))(p := [])) {} s'" "pl_idle s' = pl_idle ?s1"
      "pl_ptrs s' = pl_ptrs ?s1" "pl_dead s' = pl_dead ?s1 @ (Q(p := ns)) p"
      "\<forall>m. m \<notin> set ((Q(p := ns)) p) \<longrightarrow> pl_nodes s' m = pl_nodes ?s1 m"
      using Suc.IH [where Q = "Q(p := ns)" and s = ?s1 and x = "pn_next d"] by blast
    have wf': "pool_wf (Q(p := [])) {} s'" using s'(2) by (simp only: fun_upd_upd)
    have "node_dispose n (pn_upd n (\<lambda>d. d\<lparr>pn_next := None\<rparr>) s) = (Inr (), ?s1)" using d(2) by (simp add: node_dispose_def pn_upd_def)
    then have "clear_chain (Suc k) x s = (Inr (), s')" using d(1,2) s'(1) by (simp add: seqE_def)
    moreover have "pl_idle s' = pl_idle s" "pl_ptrs s' = pl_ptrs s" "pl_dead s' = pl_dead s @ Q p"
      "\<forall>m. m \<notin> set (Q p) \<longrightarrow> pl_nodes s' m = pl_nodes s m" using s'(3-6) Cons by simp_all
    ultimately show ?thesis using wf' by blast
  qed
qed

lemma pool_wf_length: "pool_wf Q {} s \<Longrightarrow> length (Q p) \<le> pl_fresh s"
proof (cases "pl_idle s p")
  case (Some x)
  assume wf: "pool_wf Q {} s"
  have "set (Q p) \<subseteq> {..<pl_fresh s}"
    using sseg_alive pool_wf_idle [OF wf Some] wf by (fastforce simp: pool_wf_def no_leak_def)
  then have "card (set (Q p)) \<le> pl_fresh s" using card_mono [of "{..<pl_fresh s}"] by fastforce
  then show ?thesis using wf distinct_card [of "Q p"] by (simp add: pool_wf_def owned_once_def)
qed (simp add: pool_wf_def idle_ok_def)

lemma clear_all_idle_wf:
  assumes wf: "pool_wf Q {} s" and idle: "pl_idle s p \<noteq> None"
  shows "\<exists>s'. clear_all_idle p s = (Inr (), s') \<and> pool_wf (Q(p := [])) {} s' \<and> pl_idle s' = (pl_idle s)(p \<mapsto> None) \<and> pl_ptrs s' = pl_ptrs s
    \<and> pl_dead s' = pl_dead s @ Q p \<and> (\<forall>m. m \<notin> set (Q p) \<longrightarrow> pl_nodes s' m = pl_nodes s m)"
proof -
  obtain x where x: "pl_idle s p = Some x" using idle by blast
  let ?s = "s\<lparr>pl_idle := (pl_idle s)(p \<mapsto> None)\<rparr>"
  have "?s\<lparr>pl_idle := (pl_idle ?s)(p \<mapsto> x)\<rparr> = s" using x by (cases s) (simp add: fun_upd_idem)
  then have "pool_wf Q {} (?s\<lparr>pl_idle := (pl_idle ?s)(p \<mapsto> x)\<rparr>)" using wf by simp
  from clear_chain_wf [OF this _ pool_wf_length [OF wf]] show ?thesis using x by (simp add: clear_all_idle_def)
qed

lemma ptr_checkin_wf: "pool_wf Q {} s \<Longrightarrow> \<exists>Q' s'. ptr_checkin h s = (Inr (), s') \<and> pool_wf Q' {} s'"
  unfolding ptr_checkin_def by (rule node_return_wf, rule ptr_write_wf) simp

lemma ptr_swap_wf: "pool_wf Q {} s \<Longrightarrow> pool_wf Q {} (s\<lparr>pl_ptrs := (pl_ptrs s)(h := pl_ptrs s k, k := pl_ptrs s h)\<rparr>)"
proof (cases "h = k")
  case False
  assume wf: "pool_wf Q {} s"
  let ?s1 = "s\<lparr>pl_ptrs := (pl_ptrs s)(h := None)\<rparr>"
  let ?s2 = "?s1\<lparr>pl_ptrs := (pl_ptrs ?s1)(k := pl_ptrs s h)\<rparr>"
  have "pool_wf Q (set_option (pl_ptrs s h)) ?s1" by (rule ptr_write_wf) (use wf in simp)
  from ptr_write_wf [OF this, of k] have "pool_wf Q (set_option (pl_ptrs s k)) ?s2" using False by simp
  from ptr_write_wf [OF this, of h] have "pool_wf Q {} (?s2\<lparr>pl_ptrs := (pl_ptrs ?s2)(h := pl_ptrs s k)\<rparr>)" using False by simp
  moreover have "?s2\<lparr>pl_ptrs := (pl_ptrs ?s2)(h := pl_ptrs s k)\<rparr> = s\<lparr>pl_ptrs := (pl_ptrs s)(h := pl_ptrs s k, k := pl_ptrs s h)\<rparr>"
    using False by (simp add: fun_upd_twist)
  ultimately show ?thesis by simp
qed simp

lemma pool_checkout_wf:
  assumes wf: "pool_wf Q {} s" and idle: "pl_idle s p = Some x"
  shows "(\<exists>Q' s'. pool_checkout p ctor h s = (Inr (), s') \<and> pool_wf Q' {} s')
    \<or> ctor = None \<and> Q p = [] \<and> pool_checkout p ctor h s = (Inl Pool_ctor, s)"
proof (cases "Q p")
  case Nil
  then have tr: "pool_try_checkout p s = (Inr None, s)" using pool_wf_idle [OF wf idle] idle by (simp add: pool_try_checkout_def)
  show ?thesis
  proof (cases ctor)
    case None
    then show ?thesis using Nil tr by (simp add: pool_checkout_def seqE_def pool_construct_def)
  next
    case (Some y)
    let ?s = "s\<lparr>pl_nodes := (pl_nodes s)(pl_fresh s \<mapsto> \<lparr>pn_owner = Some p, pn_next = None, pn_elem = y\<rparr>), pl_fresh := pl_fresh s + 1\<rparr>"
    have "pool_wf Q (set_option (Some (pl_fresh s))) ?s" using construct_wf [OF wf] by simp
    from node_return_wf [OF ptr_write_wf [OF this, of h]] show ?thesis
      using tr Some by (simp add: pool_checkout_def seqE_def pool_construct_def)
  qed
next
  case (Cons n ns)
  obtain d where d: "x = Some n" "pl_nodes s n = Some d"
    "pool_wf (Q(p := ns)) {n} (s\<lparr>pl_nodes := (pl_nodes s)(n \<mapsto> d\<lparr>pn_next := None\<rparr>), pl_idle := (pl_idle s)(p \<mapsto> pn_next d)\<rparr>)"
    using pop_wf [OF wf idle Cons] by auto
  let ?s = "s\<lparr>pl_idle := (pl_idle s)(p \<mapsto> pn_next d), pl_nodes := (pl_nodes s)(n \<mapsto> d\<lparr>pn_next := None\<rparr>)\<rparr>"
  have tr: "pool_try_checkout p s = (Inr (Some n), ?s)" using idle d(1,2) by (simp add: pool_try_checkout_def pn_upd_def)
  have "pool_wf (Q(p := ns)) (set_option (Some n)) ?s" using d(3) by (simp add: pool_wf_def)
  from node_return_wf [OF ptr_write_wf [OF this, of h]] show ?thesis
    using tr by (simp add: pool_checkout_def seqE_def retE_def)
qed

lemma set_owner_wf:
  assumes wf: "pool_wf Q {} s" and n: "pl_ptrs s h = Some n"
  shows "\<exists>s'. set_owner p h s = (Inr (), s') \<and> pool_wf Q {} s'"
proof -
  obtain d where d: "pl_nodes s n = Some d" "pn_next d = None" using pool_wf_owned [OF wf] n by blast
  let ?h = "(pl_nodes s)(n \<mapsto> d\<lparr>pn_owner := p\<rparr>)"
  have nq: "n \<notin> set (Q r)" for r using wf n by (auto simp: pool_wf_def owned_once_def)
  have "idle_ok Q (pl_idle s) ?h (pl_pools s)" using wf nq by (intro idle_ok_frame) (simp add: pool_wf_def)
  moreover have "clear_links {} (pl_ptrs s) ?h" using wf d by (auto simp: pool_wf_def clear_links_def)
  moreover have "no_leak Q {} (pl_ptrs s) ?h (pl_fresh s)" using wf d by (auto simp: pool_wf_def no_leak_def)
  moreover have "dead_once (pl_dead s) ?h (pl_fresh s)" using wf d by (auto simp: pool_wf_def dead_once_def)
  ultimately show ?thesis using wf n d by (simp add: set_owner_def pn_upd_def pool_wf_def)
qed

lemma pool_destroy_wf:
  assumes wf: "pool_wf Q {} s" and idle: "pl_idle s p \<noteq> None"
  shows "\<exists>s'. pool_destroy p s = (Inr (), s') \<and> pool_wf (Q(p := [])) {} s' \<and> pl_idle s' p = None \<and> pl_ptrs s' = pl_ptrs s \<and> pl_dead s' = pl_dead s @ Q p
    \<and> (\<forall>m. m \<notin> set (Q p) \<longrightarrow> pl_nodes s' m = pl_nodes s m)"
proof -
  obtain s' where s': "clear_all_idle p s = (Inr (), s')" "pool_wf (Q(p := [])) {} s'" "pl_idle s' = (pl_idle s)(p \<mapsto> None)"
    "pl_ptrs s' = pl_ptrs s" "pl_dead s' = pl_dead s @ Q p" "\<forall>m. m \<notin> set (Q p) \<longrightarrow> pl_nodes s' m = pl_nodes s m"
    using clear_all_idle_wf [OF assms] by blast
  have "pool_wf (Q(p := [])) {} (s'\<lparr>pl_idle := (pl_idle s')(p := None)\<rparr>)" using s'(2) by (auto simp: pool_wf_def idle_ok_def split: if_splits)
  then show ?thesis using s' by (simp add: pool_destroy_def seqE_def updE_def)
qed

text \<open>What a call may raise: the exception of the object's constructor, and the misuse of an empty pointer or of a
  pool that is gone.\<close>

lemma do_ok:
  "\<exists>Q' s'. r = (Inr (), s') \<and> pool_wf Q' {} s' \<Longrightarrow> case r of (Inr _, s') \<Rightarrow> \<exists>Q'. pool_wf Q' {} s' | (Inl err, s') \<Rightarrow> P err s'"
  by (elim exE conjE) (simp, blast)

lemma pool_do_wf:
  assumes wf: "pool_wf Q {} s"
  shows "case pool_do c s of
      (Inr _, s') \<Rightarrow> \<exists>Q'. pool_wf Q' {} s'
    | (Inl err, s') \<Rightarrow> err \<in> {Pool_null, Pool_no_pool, Pool_ctor} \<and> s' = s"
proof (cases c)
  case Pc_new
  then show ?thesis using pool_new_wf [OF wf] by (auto simp: seqE_def retE_def pool_new_def)
next
  case (Pc_checkout p ctor h)
  show ?thesis
  proof (cases "pl_idle s p")
    case None
    then show ?thesis using Pc_checkout by (simp add: pool_checkout_def seqE_def pool_try_checkout_def)
  next
    case (Some x)
    show ?thesis using pool_checkout_wf [OF wf Some, of ctor h]
    proof
      assume "\<exists>Q' s'. pool_checkout p ctor h s = (Inr (), s') \<and> pool_wf Q' {} s'"
      then show ?thesis unfolding Pc_checkout pool_do.simps by (rule do_ok)
    next
      assume "ctor = None \<and> Q p = [] \<and> pool_checkout p ctor h s = (Inl Pool_ctor, s)"
      then have "pool_do c s = (Inl Pool_ctor, s)" using Pc_checkout by auto
      then show ?thesis by simp
    qed
  qed
next
  case (Pc_checkin h)
  show ?thesis unfolding Pc_checkin pool_do.simps by (rule do_ok, rule ptr_checkin_wf [OF wf])
next
  case (Pc_swap h k)
  then show ?thesis using ptr_swap_wf [OF wf, of h k] by (auto simp: ptr_swap_def updE_def)
next
  case (Pc_shrink p)
  then show ?thesis using clear_all_idle_wf [OF wf, of p] by (cases "pl_idle s p = None") (auto simp: clear_all_idle_def)
next
  case (Pc_destroy p)
  show ?thesis
  proof (cases "pl_idle s p = None")
    case True
    then show ?thesis using Pc_destroy by (simp add: pool_destroy_def seqE_def clear_all_idle_def)
  next
    case False
    show ?thesis unfolding Pc_destroy pool_do.simps by (rule do_ok) (use pool_destroy_wf [OF wf False] in blast)
  qed
next
  case (Pc_detach h)
  then show ?thesis using set_owner_wf [OF wf, of h] by (cases "pl_ptrs s h") (auto simp: ptr_detach_def set_owner_def)
next
  case (Pc_take p h)
  then show ?thesis using set_owner_wf [OF wf, of h] by (cases "pl_ptrs s h") (auto simp: take_ownership_def set_owner_def)
qed

lemma pool_run_wf:
  "pool_wf Q {} s \<Longrightarrow> (\<exists>Q'. pool_wf Q' {} (snd (pool_run cs s))) \<and> (\<forall>err. fst (pool_run cs s) = Inl err \<longrightarrow> err \<in> {Pool_null, Pool_no_pool, Pool_ctor})"
proof (induction cs arbitrary: Q s)
  case (Cons c cs)
  obtain r s1 where c: "pool_do c s = (r, s1)" by (cases "pool_do c s")
  show ?case
  proof (cases r)
    case (Inl err)
    then show ?thesis using pool_do_wf [OF Cons.prems, of c] c Cons.prems by (auto simp: seqE_def)
  next
    case (Inr x)
    then obtain Q' where "pool_wf Q' {} s1" using pool_do_wf [OF Cons.prems, of c] c by auto
    from Cons.IH [OF this] show ?thesis using c Inr by (simp add: seqE_def)
  qed
qed (auto simp: retE_def)

text \<open>An object that goes back to its pool is the next one to be handed out, as it was left.\<close>

lemma pool_reuse:
  assumes wf: "pool_wf Q {} s" and n: "pl_ptrs s h = Some n" "pl_nodes s n = Some d" "pn_owner d = Some p" and idle: "pl_idle s p = Some x"
  shows "seqE (ptr_checkin h) (\<lambda>_. pool_checkout p ctor h) s = (Inr (), s)"
proof -
  let ?s = "s\<lparr>pl_ptrs := (pl_ptrs s)(h := None)\<rparr>"
  have "pool_wf Q (set_option (pl_ptrs s h)) ?s" by (rule ptr_write_wf) (use wf in simp)
  then have wf1: "pool_wf Q {n} ?s" using n(1) by simp
  let ?s1 = "?s\<lparr>pl_nodes := (pl_nodes s)(n \<mapsto> d\<lparr>pn_next := x\<rparr>), pl_idle := (pl_idle s)(p \<mapsto> Some n)\<rparr>"
  have "pool_checkin p n ?s = (Inr (), ?s1)" using pool_checkin_wf [OF wf1, of p x] idle n(2) by auto
  then have 1: "ptr_checkin h s = (Inr (), ?s1)" using n idle by (simp add: ptr_checkin_def node_return_def)
  have "pn_next d = None" using pool_wf_owned [OF wf, of n h] n by auto
  then have "d\<lparr>pn_next := None\<rparr> = d" by simp
  then have "pool_checkout p ctor h ?s1 = (Inr (), s)"
    using n(1,2) idle by (cases s) (simp add: pool_checkout_def seqE_def retE_def pool_try_checkout_def pn_upd_def node_return_def fun_upd_idem)
  then show ?thesis using 1 by (simp add: seqE_def)
qed

section \<open>Properties\<close>

text \<open>C11: Whatever calls are made on any number of pools and pointers, checkouts, returns, swaps, a change of the
  owning pool, pools that go while their objects are out: no call touches a node that was given back, no
  assertion on the links fails, no object is destroyed twice, and every object that lives is idle in exactly
  one pool or owned by exactly one pointer. Calls raise only what their arguments ask for.\<close>

theorem pool_objects_owned_once:
  "case pool_run cs pool_sys_new of (r, s) \<Rightarrow>
     (\<exists>Q. pool_wf Q {} s) \<and> distinct (pl_dead s)
   \<and> (case r of Inr _ \<Rightarrow> True | Inl err \<Rightarrow> err \<in> {Pool_null, Pool_no_pool, Pool_ctor})"
proof -
  obtain r s where rs: "pool_run cs pool_sys_new = (r, s)" by (cases "pool_run cs pool_sys_new")
  then obtain Q where Q: "pool_wf Q {} s" and err: "\<forall>err. r = Inl err \<longrightarrow> err \<in> {Pool_null, Pool_no_pool, Pool_ctor}"
    using pool_run_wf [OF pool_wf_new, of cs] by auto
  then have "distinct (pl_dead s)" by (simp add: pool_wf_def dead_once_def)
  then show ?thesis using rs Q err by (auto split: sum.split)
qed

text \<open>A pool may go while its objects are out: exactly its idle objects are destroyed with it, every pointer keeps
  its object, and a pointer that gives its object up afterwards destroys it.\<close>

theorem pool_outlived:
  assumes wf: "pool_wf Q {} s" and p: "pl_idle s p \<noteq> None" and n: "pl_ptrs s h = Some n" "pl_nodes s n = Some d" "pn_owner d = Some p"
  shows "\<exists>s1 s2. pool_destroy p s = (Inr (), s1) \<and> pl_dead s1 = pl_dead s @ Q p \<and> (\<forall>k. ptr_get k s1 = ptr_get k s)
    \<and> ptr_checkin h s1 = (Inr (), s2) \<and> pl_dead s2 = pl_dead s @ Q p @ [n] \<and> pool_wf (Q(p := [])) {} s2"
proof -
  obtain s1 where s1: "pool_destroy p s = (Inr (), s1)" "pool_wf (Q(p := [])) {} s1" "pl_idle s1 p = None" "pl_ptrs s1 = pl_ptrs s"
    "pl_dead s1 = pl_dead s @ Q p" "\<forall>m. m \<notin> set (Q p) \<longrightarrow> pl_nodes s1 m = pl_nodes s m"
    using pool_destroy_wf [OF wf p] by blast
  have nq: "m \<notin> set (Q p)" if "pl_ptrs s k = Some m" for k m using wf that by (auto simp: pool_wf_def owned_once_def)
  have get: "ptr_get k s1 = ptr_get k s" for k
    using s1(4,6) nq [of k] by (cases "pl_ptrs s k") (simp_all add: ptr_get_def)
  let ?s = "s1\<lparr>pl_ptrs := (pl_ptrs s1)(h := None)\<rparr>"
  have "pool_wf (Q(p := [])) (set_option (pl_ptrs s1 h)) ?s" by (rule ptr_write_wf) (use s1(2) in simp)
  then have "pool_wf (Q(p := [])) (insert n {}) ?s" using s1(4) n(1) by simp
  then obtain s2 where "node_dispose n ?s = (Inr (), s2)" "pool_wf (Q(p := [])) {} s2" "pl_dead s2 = pl_dead s1 @ [n]"
    using node_dispose_wf by fastforce
  moreover have "pl_nodes s1 n = Some d" using s1(6) nq n by auto
  ultimately have "ptr_checkin h s1 = (Inr (), s2)" "pl_dead s2 = pl_dead s @ Q p @ [n]"
    using s1(3-5) n by (simp_all add: ptr_checkin_def node_return_def)
  then show ?thesis using s1(1,5) get \<open>pool_wf (Q(p := [])) {} s2\<close> by blast
qed

theorem pool_outlived_witness:
  "\<exists>Q s1 s2. let s = snd (pool_run [Pc_new, Pc_checkout 0 (Some (7::int)) 0, Pc_checkout 0 (Some 8) 1, Pc_checkin 1] pool_sys_new) in
     pool_wf Q {} s \<and> pool_destroy 0 s = (Inr (), s1) \<and> ptr_checkin 0 s1 = (Inr (), s2) \<and> pl_dead s2 = Q 0 @ [0]"
proof -
  define s where "s = snd (pool_run [Pc_new, Pc_checkout 0 (Some (7::int)) 0, Pc_checkout 0 (Some 8) 1, Pc_checkin 1] pool_sys_new)"
  obtain Q where wf: "pool_wf Q {} s" using pool_run_wf [OF pool_wf_new] unfolding s_def by blast
  have s: "pl_idle s 0 \<noteq> None" "pl_ptrs s 0 = Some 0" "pl_nodes s 0 = Some \<lparr>pn_owner = Some 0, pn_next = None, pn_elem = 7\<rparr>" "pl_dead s = []"
    unfolding s_def by (simp_all add: seqE_def retE_def pool_new_def pool_checkout_def pool_try_checkout_def pool_construct_def
      pool_sys_new_def node_return_def ptr_checkin_def pool_checkin_def)
  from pool_outlived [OF wf s(1-3)] show ?thesis using wf s(4) unfolding s_def [symmetric] Let_def by auto
qed

end
