(* ===== verification/Refl_Meta.thy ===== *)
theory Refl_Meta
  imports Flat_Map "HOL-Library.List_Lexorder"
begin

text \<open>
  The descriptors of reflected types, \<open>refl/detail/object_core.hxx\<close> and \<open>create()\<close> in \<open>primitives.hxx\<close>: an
  \<open>object_metadata\<close> is a primitive with its control, or a list of properties at offsets of the object. The
  factories collect the properties of an object or a tuple; \<open>create()\<close> builds its tables: the properties by
  name, by integer key (keys that were not given are generated) and by offset.
\<close>

section \<open>Data\<close>

text \<open>The descriptor of a type and of a property, and the controls of \<open>primitives.hxx\<close>: integers of a width, list-like containers that append or prepend
  (\<open>forward_list\<close>), maps with string keys, optionals and pointers, arrays of a fixed size.\<close>

datatype meta =
    Primitive (m_extent: nat) (m_control: control)
  | Composite (m_extent: nat) (m_is_object: bool) (m_props: "property list") (m_keys: "(byte list \<times> nat) list")
      (m_key_indices: "(int \<times> nat) list") (m_offset_lookup: "(nat \<times> nat) list")
and property = Prop (prop_offset: nat) (prop_type: meta) (prop_index: nat) (prop_name: "byte list") (prop_key: int)
and control =
    C_null | C_bool | C_int nat | C_uint nat | C_float | C_double | C_string
  | C_list meta | C_front_list meta | C_dict meta | C_opt meta | C_array meta

text \<open>A property as its constructor leaves it: no index, no name, and the key \<open>-1\<close> of one that was not given.\<close>

definition property_metadata :: "nat \<Rightarrow> meta \<Rightarrow> property" where
  "property_metadata off t = Prop off t 0 [] (- 1)"

datatype meta_error = Not_unique_name | Zero_name_key | Duplicate_name_key | Meta_assert | Not_an_object | Out_of_range

fun is_primitive :: "meta \<Rightarrow> bool" where
  "is_primitive (Primitive _ _) = True"
| "is_primitive (Composite _ _ _ _ _ _) = False"

fun is_object :: "meta \<Rightarrow> bool" where
  "is_object (Primitive _ _) = False"
| "is_object (Composite _ b _ _ _ _) = b"

definition is_tuple :: "meta \<Rightarrow> bool" where
  "is_tuple m \<longleftrightarrow> \<not> is_primitive m \<and> \<not> is_object m"

fun is_optional :: "meta \<Rightarrow> bool" where
  "is_optional (Primitive _ (C_opt _)) = True"
| "is_optional _ = False"

section \<open>The factories\<close>

definition define_basic :: "nat \<Rightarrow> bool \<Rightarrow> meta" where
  "define_basic ext object = Composite ext object [] [] [] []"

fun add_property_impl :: "property \<Rightarrow> meta \<Rightarrow> meta_error + meta" where
  "add_property_impl _ (Primitive _ _) = Inl Meta_assert"
| "add_property_impl (Prop off t _ name key) (Composite ext b ps ks kis lk) =
     Inr (Composite ext b (ps @ [Prop off t (length ps) name key]) ks kis lk)"

definition add_property :: "byte list \<Rightarrow> property \<Rightarrow> meta \<Rightarrow> meta_error + meta" where
  "add_property name p = add_property_impl (Prop (prop_offset p) (prop_type p) (prop_index p) name (prop_key p))"

text \<open>\<open>property(&Class::member, name, key)\<close>; the key \<open>-1\<close> is the default argument.\<close>

definition object_property :: "nat \<Rightarrow> meta \<Rightarrow> byte list \<Rightarrow> int \<Rightarrow> meta \<Rightarrow> meta_error + meta" where
  "object_property off t name key =
     (let info = property_metadata off t
      in add_property name (Prop (prop_offset info) (prop_type info) (prop_index info) (prop_name info) key))"

definition tuple_property :: "nat \<Rightarrow> meta \<Rightarrow> meta \<Rightarrow> meta_error + meta" where
  "tuple_property off t = add_property_impl (property_metadata off t)"

text \<open>The properties of a base class, with the keys they were given there.\<close>

fun extend_props :: "nat \<Rightarrow> property list \<Rightarrow> meta \<Rightarrow> meta_error + meta" where
  "extend_props base_offset [] m = Inr m"
| "extend_props base_offset (p # ps) m =
     bindE (add_property (prop_name p) (Prop (prop_offset p + base_offset) (prop_type p) (prop_index p) (prop_name p) (prop_key p)) m)
       (extend_props base_offset ps)"

definition basic_extend :: "meta \<Rightarrow> nat \<Rightarrow> meta \<Rightarrow> meta_error + meta" where
  "basic_extend base base_offset m =
     (if \<not> is_object base then Inl Not_an_object else extend_props base_offset (m_props base) m)"

section \<open>\<open>create()\<close>\<close>

text \<open>\<open>push_heap\<close> with \<open>greater\<close>: the new value rises while its parent is greater.\<close>

function sift_up :: "nat \<Rightarrow> int \<Rightarrow> int list \<Rightarrow> int list" where
  "sift_up i v xs =
     (if i > 0 \<and> xs ! ((i - 1) div 2) > v then sift_up ((i - 1) div 2) v (xs[i := xs ! ((i - 1) div 2)]) else xs[i := v])"
  by pat_completeness auto
termination by (relation "measure (\<lambda>(i, _, _). i)") auto

declare sift_up.simps [simp del]

definition heap_push :: "int \<Rightarrow> int list \<Rightarrow> int list" where
  "heap_push v xs = sift_up (length xs) v (xs @ [v])"

text \<open>The first loop: the names, and the heap of the keys that were given.\<close>

fun collect_keys :: "property list \<Rightarrow> (byte list, nat) fm \<Rightarrow> int list \<Rightarrow> meta_error + (byte list, nat) fm \<times> int list" where
  "collect_keys [] ks used = Inr (ks, used)"
| "collect_keys (p # ps) ks used =
     (case fm_try_emplace std_less (prop_name p) (prop_index p) ks of ((_, new), ks') \<Rightarrow>
        if \<not> new then Inl Not_unique_name
        else if prop_key p = 0 then Inl Zero_name_key
        else collect_keys ps ks' (if prop_key p > 0 then heap_push (prop_key p) used else used))"

text \<open>The second loop takes the least key from the heap as long as it is in the way; the heap is the sorted list of
  its keys here.\<close>

fun skip_used :: "int list \<Rightarrow> int \<Rightarrow> int list \<times> int" where
  "skip_used [] g = ([], g)"
| "skip_used (u # us) g = (if u \<le> g then skip_used us (u + 1) else (u # us, g))"

definition next_key :: "int \<Rightarrow> int list \<Rightarrow> int \<Rightarrow> int list \<times> int \<times> int" where
  "next_key key used g = (if key < 0 then case skip_used used g of (used, g) \<Rightarrow> (used, g + 1, g) else (used, g, key))"

fun assign_keys :: "property list \<Rightarrow> int list \<Rightarrow> int \<Rightarrow> (int, nat) fm \<Rightarrow> meta_error + property list \<times> (int, nat) fm" where
  "assign_keys [] used g kis = Inr ([], kis)"
| "assign_keys (Prop off t i name key # ps) used g kis =
     (case next_key key used g of (used, g, key) \<Rightarrow>
        case fm_try_emplace std_less key i kis of ((_, new), kis) \<Rightarrow>
          if \<not> new then Inl Meta_assert
          else bindE (assign_keys ps used g kis) (\<lambda>(ps, kis). Inr (Prop off t i name key # ps, kis)))"

definition object_end :: "property list \<Rightarrow> nat" where
  "object_end ps = fold (\<lambda>p. max (prop_offset p + m_extent (prop_type p))) ps 0"

definition build_lookup :: "nat \<Rightarrow> property list \<Rightarrow> meta_error + (nat \<times> nat) list" where
  "build_lookup ext ps =
     (let lookup = sort_by std_less (map (\<lambda>p. (prop_offset p, prop_index p)) ps)
      in if adjacent_find (\<lambda>a b. fst a = fst b) lookup \<or> \<not> object_end ps \<le> ext then Inl Meta_assert else Inr lookup)"

fun create_meta :: "meta \<Rightarrow> meta_error + meta" where
  "create_meta (Primitive ext c) = Inr (Primitive ext c)"
| "create_meta (Composite ext True ps _ _ _) =
     bindE (collect_keys ps [] []) (\<lambda>(ks, used).
     if adjacent_find (=) used then Inl Duplicate_name_key
     else bindE (assign_keys ps (sort used) 1 []) (\<lambda>(ps, kis).
          bindE (build_lookup ext ps) (\<lambda>lk. Inr (Composite ext True ps ks kis lk))))"
| "create_meta (Composite ext False ps _ _ _) = bindE (build_lookup ext ps) (\<lambda>lk. Inr (Composite ext False ps [] [] lk))"

section \<open>Properties by address\<close>

lemma prop_smaller: "p \<in> set ps \<Longrightarrow> size (prop_type p) < size (Composite e b ps ks kis lk)"
proof -
  assume p: "p \<in> set ps"
  have "size (prop_type p) < size p" by (cases p) simp
  also have "size p \<le> size_list size ps" using p by (simp add: size_list_estimation')
  finally show ?thesis by simp
qed

text \<open>The place of a pair in the lookup table: \<open>lower_bound\<close> of the offset with the greatest index. The result is the
  depth and the property; \<open>None\<close> is the error value \<open>~0\<close>.\<close>

function find_property :: "nat \<Rightarrow> meta \<Rightarrow> nat \<Rightarrow> (nat \<times> property) option" where
  "find_property off (Primitive _ _) depth = None"
| "find_property off (Composite e b ps ks kis lk) depth =
     (let it = bisect (\<lambda>i. fst (lk ! i) \<le> off) 0 (length lk)
      in if it = length lk then None
         else let (o1, i) = lk ! (if it \<noteq> 0 then it - 1 else it)
              in if o1 > off then None
                 else if i < length ps then
                   if o1 = off then Some (depth, ps ! i)
                   else if is_primitive (prop_type (ps ! i)) then None
                   else find_property (off - prop_offset (ps ! i)) (prop_type (ps ! i)) (depth + 1)
                 else None)"
  by pat_completeness auto
termination
  by (relation "measure (\<lambda>(_, m, _). size m)") (simp_all add: prop_smaller del: meta.size)

declare find_property.simps [simp del]

definition find_by_name :: "byte list \<Rightarrow> meta \<Rightarrow> property option" where
  "find_by_name key m =
     (if \<not> is_object m then None
      else case fm_lookup std_less key (m_keys m) of None \<Rightarrow> None
        | Some i \<Rightarrow> if i < length (m_props m) then Some (m_props m ! i) else None)"
section \<open>The integer keys\<close>

lemma sift_up_mset: "i < length xs \<Longrightarrow> mset (sift_up i v xs) = mset (xs[i := v])"
proof (induction i v xs rule: sift_up.induct)
  case (1 i v xs)
  let ?p = "(i - 1) div 2"
  show ?case
  proof (cases "i > 0 \<and> xs ! ?p > v")
    case True
    have p: "?p < length xs" "?p \<noteq> i" using 1(2) True by linarith+
    let ?ys = "xs[i := v]"
    have "?ys[?p := v, i := xs ! ?p] = ?ys[i := xs ! ?p, ?p := v]" by (rule list_update_swap) (use p in simp)
    moreover have "?ys ! i = v" "?ys ! ?p = xs ! ?p" using 1(2) p by simp_all
    ultimately have "?ys[?p := ?ys ! i, i := ?ys ! ?p] = xs[i := xs ! ?p, ?p := v]" by simp
    then have "mset (xs[i := xs ! ?p, ?p := v]) = mset ?ys" using mset_swap [of i ?ys ?p] 1(2) p by simp
    then show ?thesis using 1(1) [OF True] p True by (simp add: sift_up.simps [of i])
  next
    case False
    then show ?thesis by (subst sift_up.simps) (simp only: if_False)
  qed
qed

lemma heap_push_mset [simp]: "mset (heap_push v xs) = add_mset v (mset xs)"
  by (simp add: heap_push_def sift_up_mset)

lemma adjacent_eq: "adjacent_find (=) xs \<Longrightarrow> \<not> distinct xs"
  by (induction "(=) :: 'a \<Rightarrow> 'a \<Rightarrow> bool" xs rule: adjacent_find.induct) auto

definition given_keys :: "property list \<Rightarrow> int list" where
  "given_keys ps = filter (\<lambda>k. k > 0) (map prop_key ps)"

lemma given_keys_simps [simp]:
  "given_keys [] = []" "given_keys (p # ps) = (if prop_key p > 0 then [prop_key p] else []) @ given_keys ps"
  by (simp_all add: given_keys_def)

lemma map_add_first:
  assumes "key p \<notin> key ` set ps" "m' = m(key p \<mapsto> f p)"
  shows "m' ++ map_of (map (\<lambda>p. (key p, f p)) ps) = m ++ map_of (map (\<lambda>p. (key p, f p)) (p # ps))"
proof -
  have "map_of (map (\<lambda>p. (key p, f p)) ps) (key p) = None" using assms(1) by (auto simp: map_of_eq_None_iff)
  then show ?thesis unfolding assms(2) by (simp add: map_add_upd_left domIff map_add_upd)
qed

lemma collect_keys_sound:
  "collect_keys ps ks used = Inr (ks', used') \<Longrightarrow> fm_sorted std_less ks \<Longrightarrow>
    fm_sorted std_less ks' \<and> mset used' = mset used + mset (given_keys ps) \<and> (\<forall>p \<in> set ps. prop_key p \<noteq> 0)
  \<and> distinct (map prop_name ps) \<and> (\<forall>p \<in> set ps. map_of ks (prop_name p) = None)
  \<and> map_of ks' = map_of ks ++ map_of (map (\<lambda>p. (prop_name p, prop_index p)) ps)"
proof (induction ps ks used rule: collect_keys.induct)
  case (2 p ps ks used)
  obtain it new m where e: "fm_try_emplace std_less (prop_name p) (prop_index p) ks = ((it, new), m)" by (metis surj_pair)
  note ok = less.fm_try_emplace_ok [OF "2.prems"(2) e]
  have new: "new" "prop_key p \<noteq> 0" and rest: "collect_keys ps m (if prop_key p > 0 then heap_push (prop_key p) used else used) = Inr (ks', used')"
    using "2.prems"(1) e by (auto split: if_splits)
  have m: "map_of m = (map_of ks)(prop_name p \<mapsto> prop_index p)" "map_of ks (prop_name p) = None" using ok new by auto
  have IH: "fm_sorted std_less ks' \<and> mset used' = mset (if prop_key p > 0 then heap_push (prop_key p) used else used) + mset (given_keys ps)
    \<and> (\<forall>p \<in> set ps. prop_key p \<noteq> 0) \<and> distinct (map prop_name ps) \<and> (\<forall>q \<in> set ps. map_of m (prop_name q) = None)
    \<and> map_of ks' = map_of m ++ map_of (map (\<lambda>p. (prop_name p, prop_index p)) ps)"
    using "2.IH" [OF e [symmetric] refl _ _ rest ok(1)] new by simp
  have n: "prop_name p \<notin> prop_name ` set ps" using IH m by auto
  have f: "map_of ks (prop_name q) = None" if "q \<in> set ps" for q using IH m(1) that by (auto split: if_splits)
  show ?case
  proof (intro conjI)
    show "map_of ks' = map_of ks ++ map_of (map (\<lambda>p. (prop_name p, prop_index p)) (p # ps))"
      using IH map_add_first [where key = prop_name and f = prop_index and p = p and ps = ps, OF n m(1)] by (simp only:)
    show "fm_sorted std_less ks'" using IH by (simp only:)
  qed (use IH new m(2) n f in simp_all)
qed simp

lemma collect_keys_total:
  "fm_sorted std_less ks \<Longrightarrow> distinct (map prop_name ps) \<Longrightarrow> \<forall>p \<in> set ps. map_of ks (prop_name p) = None \<and> prop_key p \<noteq> 0 \<Longrightarrow>
   \<exists>r. collect_keys ps ks used = Inr r"
proof (induction ps ks used rule: collect_keys.induct)
  case (2 p ps ks used)
  obtain it new m where e: "fm_try_emplace std_less (prop_name p) (prop_index p) ks = ((it, new), m)" by (metis surj_pair)
  note ok = less.fm_try_emplace_ok [OF "2.prems"(1) e]
  have new: new "prop_key p \<noteq> 0" using ok(2) "2.prems"(3) by simp_all
  have "prop_name q \<noteq> prop_name p" if "q \<in> set ps" for q using "2.prems"(2) that by auto (metis imageI)
  then have "\<forall>q \<in> set ps. map_of m (prop_name q) = None \<and> prop_key q \<noteq> 0" using "2.prems"(3) ok(5) new by auto
  with "2.IH" [OF e [symmetric] refl _ _ ok(1)] new "2.prems"(2) e show ?case by auto
qed simp

lemma skip_used_ok:
  "sorted used \<Longrightarrow> \<forall>u \<in> set used. g \<le> u + 1 \<Longrightarrow> skip_used used g = (used', g') \<Longrightarrow>
    g \<le> g' \<and> sorted used' \<and> (\<forall>u \<in> set used'. g' < u) \<and> (\<forall>u \<in> set used. u < g' \<or> u \<in> set used')"
proof (induction used g rule: skip_used.induct)
  case (2 u us g)
  show ?case
  proof (cases "u \<le> g")
    case True
    then show ?thesis using "2.IH" [OF True] "2.prems" by auto
  next
    case False
    have "g < x" if "x \<in> set (u # us)" for x using False "2.prems"(1) that by auto
    then show ?thesis using False "2.prems"(1,3) by auto
  qed
qed simp

text \<open>A property with its key: the rest is kept, and so is a key that was given.\<close>

definition keyed :: "property \<Rightarrow> property \<Rightarrow> bool" where
  "keyed p p' \<longleftrightarrow> prop_offset p' = prop_offset p \<and> prop_type p' = prop_type p \<and> prop_index p' = prop_index p
     \<and> prop_name p' = prop_name p \<and> (prop_key p \<ge> 0 \<longrightarrow> prop_key p' = prop_key p)"

lemma assign_keys_sound:
  "assign_keys ps used g kis = Inr (ps', kis') \<Longrightarrow> fm_sorted std_less kis \<Longrightarrow>
    fm_sorted std_less kis' \<and> list_all2 keyed ps ps' \<and> distinct (map prop_key ps') \<and> (\<forall>p \<in> set ps'. map_of kis (prop_key p) = None)
  \<and> map_of kis' = map_of kis ++ map_of (map (\<lambda>p. (prop_key p, prop_index p)) ps')"
proof (induction ps used g kis arbitrary: ps' kis' rule: assign_keys.induct)
  case (2 off t i name key ps used g kis)
  obtain used1 g1 key1 where k: "next_key key used g = (used1, g1, key1)" by (cases "next_key key used g") auto
  obtain it new m where e: "fm_try_emplace std_less key1 i kis = ((it, new), m)" by (metis surj_pair)
  obtain qs where q: "new" "assign_keys ps used1 g1 m = Inr (qs, kis')" "ps' = Prop off t i name key1 # qs"
    using "2.prems"(1) by (auto simp: k e split: if_splits)
  note ok = less.fm_try_emplace_ok [OF "2.prems"(2) e]
  have m: "map_of m = (map_of kis)(key1 \<mapsto> i)" "map_of kis key1 = None" using ok q(1) by auto
  have IH: "fm_sorted std_less kis' \<and> list_all2 keyed ps qs \<and> distinct (map prop_key qs) \<and> (\<forall>p \<in> set qs. map_of m (prop_key p) = None)
    \<and> map_of kis' = map_of m ++ map_of (map (\<lambda>p. (prop_key p, prop_index p)) qs)"
    using "2.IH" [OF k [symmetric] refl e [symmetric] refl _ q(2) ok(1)] q(1) by simp
  have key: "key \<ge> 0 \<longrightarrow> key1 = key" using k by (simp add: next_key_def split: if_splits)
  have n: "key1 \<notin> prop_key ` set qs" using IH m by auto
  let ?p = "Prop off t i name key1"
  have "map_of kis' = map_of kis ++ map_of (map (\<lambda>p. (prop_key p, prop_index p)) (?p # qs))"
    using IH map_add_first [of prop_key ?p qs "map_of m" "map_of kis" prop_index] n m(1) by simp
  moreover have "keyed (Prop off t i name key) ?p" using key by (simp add: keyed_def)
  moreover have "map_of kis (prop_key p) = None" if "p \<in> set qs" for p using IH m that by (auto split: if_splits)
  then have "\<forall>p \<in> set (?p # qs). map_of kis (prop_key p) = None" using m(2) by simp
  moreover have "distinct (map prop_key (?p # qs))" using IH n by simp
  moreover have "list_all2 keyed (Prop off t i name key # ps) (?p # qs)" using IH calculation(2) by simp
  ultimately show ?case unfolding q(3) using IH by blast
qed simp

definition keys_free :: "property list \<Rightarrow> int list \<Rightarrow> int \<Rightarrow> (int, nat) fm \<Rightarrow> bool" where
  "keys_free ps used g kis \<longleftrightarrow> sorted used \<and> (\<forall>u \<in> set used. g \<le> u) \<and> 0 < g \<and> distinct (given_keys ps) \<and> (\<forall>p \<in> set ps. prop_key p \<noteq> 0)
     \<and> (\<forall>k. k \<in> set (given_keys ps) \<or> map_of kis k \<noteq> None \<longrightarrow> k < g \<or> k \<in> set used)
     \<and> (\<forall>k \<in> set (given_keys ps). map_of kis k = None)"

lemma next_key_free:
  assumes "keys_free (p # ps) used g kis" "next_key (prop_key p) used g = (used1, g1, key1)"
  shows "0 < key1 \<and> map_of kis key1 = None \<and> (map_of m = (map_of kis)(key1 \<mapsto> i) \<longrightarrow> keys_free ps used1 g1 m)"
proof (cases "prop_key p < 0")
  case True
  obtain us g' where e: "skip_used used g = (us, g')" by (metis surj_pair)
  have "next_key (prop_key p) used g = (us, g' + 1, g')" using True by (simp add: next_key_def e)
  then have s: "skip_used used g = (used1, g')" "g1 = g' + 1" "key1 = g'" using assms(2) e by (auto simp only: prod.inject)
  have a: "sorted used" "\<forall>u \<in> set used. g \<le> u" "0 < g" "distinct (given_keys ps)" "\<forall>p \<in> set ps. prop_key p \<noteq> 0"
    "\<forall>k. k \<in> set (given_keys ps) \<or> map_of kis k \<noteq> None \<longrightarrow> k < g \<or> k \<in> set used" "\<forall>k \<in> set (given_keys ps). map_of kis k = None"
    using assms(1) True by (simp_all add: keys_free_def)
  have u: "\<forall>u \<in> set used. g \<le> u + 1" using a(2) by auto
  note sk = skip_used_ok [OF a(1) u s(1)]
  have nu: "\<not> (g' < g \<or> g' \<in> set used)" using sk by (meson less_irrefl not_less)
  have n: "map_of kis g' = None" "g' \<notin> set (given_keys ps)" using a(6) nu by blast+
  have below: "k < g' + 1 \<or> k \<in> set used1" if "k < g \<or> k \<in> set used" for k using that sk by fastforce
  have "keys_free ps used1 g1 m" if m: "map_of m = (map_of kis)(key1 \<mapsto> i)"
    unfolding keys_free_def
  proof (intro conjI allI impI ballI)
    show "k < g1 \<or> k \<in> set used1" if "k \<in> set (given_keys ps) \<or> map_of m k \<noteq> None" for k
    proof (cases "k = g'")
      case False
      then have "map_of m k = map_of kis k" using m s(3) by simp
      then show ?thesis using that s(2) below [of k] a(6) by metis
    qed (use s in simp)
    show "map_of m k = None" if "k \<in> set (given_keys ps)" for k using that m s(3) n(2) a(7) by auto
    show "sorted used1" using sk by blast
    show "g1 \<le> u" if "u \<in> set used1" for u using sk s(2) that by fastforce
    show "0 < g1" using sk s(2) a(3) by linarith
    show "distinct (given_keys ps)" by (rule a(4))
    show "prop_key p \<noteq> 0" if "p \<in> set ps" for p using a(5) that by blast
  qed
  moreover have "0 < key1" using sk s(3) a(3) by linarith
  ultimately show ?thesis using s(3) n(1) by blast
next
  case False
  then have pos: "prop_key p > 0" using assms(1) by (simp add: keys_free_def)
  have kk: "used1 = used" "g1 = g" "key1 = prop_key p" using assms(2) False by (auto simp: next_key_def)
  have "map_of kis (prop_key p) = None" using assms(1) pos by (simp add: keys_free_def)
  moreover have "keys_free ps used1 g1 m" if m: "map_of m = (map_of kis)(key1 \<mapsto> i)"
    using assms(1) pos kk m by (auto simp: keys_free_def)
  ultimately show ?thesis using kk pos by simp
qed

lemma assign_keys_total:
  "fm_sorted std_less kis \<Longrightarrow> keys_free ps used g kis \<Longrightarrow>
   \<exists>ps' kis'. assign_keys ps used g kis = Inr (ps', kis') \<and> (\<forall>p \<in> set ps'. prop_key p > 0)"
proof (induction ps arbitrary: used g kis)
  case (Cons p ps)
  obtain off t i name key where p: "p = Prop off t i name key" by (cases p)
  obtain used1 g1 key1 where k: "next_key key used g = (used1, g1, key1)" by (cases "next_key key used g") auto
  obtain it new m where e: "fm_try_emplace std_less key1 i kis = ((it, new), m)" by (metis surj_pair)
  note ok = less.fm_try_emplace_ok [OF Cons.prems(1) e]
  have free: "0 < key1" "map_of kis key1 = None" "map_of m = (map_of kis)(key1 \<mapsto> i) \<longrightarrow> keys_free ps used1 g1 m"
    using next_key_free [OF Cons.prems(2), of used1 g1 key1 m i] k p by simp_all
  have new: new using ok(2) free(2) by simp
  then have "keys_free ps used1 g1 m" using free(3) ok(5) by simp
  then obtain qs kis' where q: "assign_keys ps used1 g1 m = Inr (qs, kis')" "\<forall>p \<in> set qs. prop_key p > 0"
    using Cons.IH [OF ok(1)] by blast
  have "assign_keys (p # ps) used g kis = Inr (Prop off t i name key1 # qs, kis')"
    unfolding p assign_keys.simps k prod.case e using new q(1) by simp
  then show ?case using q(2) free(1) by (intro exI [where x = "Prop off t i name key1 # qs"] exI [where x = kis']) simp
qed simp

section \<open>The tables of a created object\<close>

definition creatable :: "nat \<Rightarrow> property list \<Rightarrow> bool" where
  "creatable ext ps \<longleftrightarrow> distinct (map prop_name ps) \<and> (\<forall>p \<in> set ps. prop_key p \<noteq> 0) \<and> distinct (given_keys ps)
     \<and> distinct (map prop_offset ps) \<and> (\<forall>p \<in> set ps. prop_offset p + m_extent (prop_type p) \<le> ext)"

definition lookup_ok :: "property list \<Rightarrow> (nat \<times> nat) list \<Rightarrow> bool" where
  "lookup_ok ps lk \<longleftrightarrow> fm_sorted std_less lk \<and> set lk = set (map (\<lambda>p. (prop_offset p, prop_index p)) ps)"

lemma object_end_le: "object_end ps \<le> ext \<longleftrightarrow> (\<forall>p \<in> set ps. prop_offset p + m_extent (prop_type p) \<le> ext)"
proof -
  have "fold (\<lambda>p. max (prop_offset p + m_extent (prop_type p))) ps n \<le> ext
      \<longleftrightarrow> n \<le> ext \<and> (\<forall>p \<in> set ps. prop_offset p + m_extent (prop_type p) \<le> ext)" for n
    by (induction ps arbitrary: n) auto
  then show ?thesis by (simp add: object_end_def)
qed

lemma build_lookup_iff:
  "case build_lookup ext ps of
     Inl _ \<Rightarrow> \<not> (distinct (map prop_offset ps) \<and> (\<forall>p \<in> set ps. prop_offset p + m_extent (prop_type p) \<le> ext))
   | Inr lk \<Rightarrow> distinct (map prop_offset ps) \<and> (\<forall>p \<in> set ps. prop_offset p + m_extent (prop_type p) \<le> ext) \<and> lookup_ok ps lk"
proof -
  let ?xs = "map (\<lambda>p. (prop_offset p, prop_index p)) ps"
  have eq: "fm_eq_fn std_less = (\<lambda>a b. fst a = fst b)" by (auto simp: fm_eq_fn_def std_less_def fun_eq_iff)
  have d: "distinct (map fst ?xs) = distinct (map prop_offset ps)" by (simp add: comp_def)
  have b: "build_lookup ext ps = (if object_end ps \<le> ext then
      case fm_assign std_less ?xs of Inl _ \<Rightarrow> Inl Meta_assert | Inr lk \<Rightarrow> Inr lk else Inl Meta_assert)"
    by (simp add: build_lookup_def fm_assign_def eq Let_def)
  show ?thesis
  proof (cases "distinct (map prop_offset ps)")
    case True
    then obtain lk where lk: "fm_assign std_less ?xs = Inr lk" "fm_sorted std_less lk" "mset lk = mset ?xs"
      using less.fm_assign_ok [of ?xs] d by auto
    have "set lk = set ?xs" using mset_eq_setD [OF lk(3)] .
    then show ?thesis using True lk(1,2) b object_end_le by (simp add: lookup_ok_def)
  next
    case False
    then have "fm_assign std_less ?xs = Inl Duplicated_key" using less.fm_assign_ok [of ?xs] d by simp
    then show ?thesis using False b by simp
  qed
qed

lemma keyed_maps:
  assumes "list_all2 keyed ps ps'"
  shows "map prop_name ps' = map prop_name ps" "map prop_index ps' = map prop_index ps" "map prop_offset ps' = map prop_offset ps"
    "(\<forall>p \<in> set ps'. prop_offset p + m_extent (prop_type p) \<le> ext) = (\<forall>p \<in> set ps. prop_offset p + m_extent (prop_type p) \<le> ext)"
    "distinct (map prop_key ps') \<Longrightarrow> distinct (given_keys ps)"
proof -
  show "map prop_name ps' = map prop_name ps" "map prop_index ps' = map prop_index ps" "map prop_offset ps' = map prop_offset ps"
    "(\<forall>p \<in> set ps'. prop_offset p + m_extent (prop_type p) \<le> ext) = (\<forall>p \<in> set ps. prop_offset p + m_extent (prop_type p) \<le> ext)"
    using assms by (induction rule: list_all2_induct) (auto simp: keyed_def)
  have "distinct (map prop_key ps') \<longrightarrow> distinct (given_keys ps) \<and> set (given_keys ps) \<subseteq> set (map prop_key ps')"
    using assms by (induction rule: list_all2_induct) (auto simp: keyed_def)
  then show "distinct (map prop_key ps') \<Longrightarrow> distinct (given_keys ps)" by blast
qed

definition object_tables :: "property list \<Rightarrow> meta \<Rightarrow> bool" where
  "object_tables ps m \<longleftrightarrow> is_object m \<and> list_all2 keyed ps (m_props m)
     \<and> distinct (map prop_key (m_props m)) \<and> (\<forall>p \<in> set (m_props m). prop_key p > 0)
     \<and> fm_sorted std_less (m_keys m) \<and> fm_sorted std_less (m_key_indices m)
     \<and> (\<forall>i < length ps. fm_lookup std_less (prop_name (ps ! i)) (m_keys m) = Some i
          \<and> fm_lookup std_less (prop_key (m_props m ! i)) (m_key_indices m) = Some i)
     \<and> (\<forall>n. n \<notin> prop_name ` set ps \<longrightarrow> fm_lookup std_less n (m_keys m) = None)
     \<and> lookup_ok ps (m_offset_lookup m)"

lemma keys_free_start: "\<forall>p \<in> set ps. prop_key p \<noteq> 0 \<Longrightarrow> distinct (given_keys ps) \<Longrightarrow> mset used = mset (given_keys ps) \<Longrightarrow>
  keys_free ps (sort used) 1 []"
proof -
  assume a: "\<forall>p \<in> set ps. prop_key p \<noteq> 0" "distinct (given_keys ps)" "mset used = mset (given_keys ps)"
  have s: "set used = set (given_keys ps)" using mset_eq_setD [OF a(3)] .
  have "\<forall>k \<in> set (given_keys ps). 1 \<le> k" by (auto simp: given_keys_def)
  then show ?thesis using a(1,2) s by (simp add: keys_free_def)
qed

lemma map_of_index:
  assumes "distinct (map f ps)" "map prop_index ps = [0..<length ps]" "i < length ps"
  shows "map_of (map (\<lambda>p. (f p, prop_index p)) ps) (f (ps ! i)) = Some i"
proof -
  have "prop_index (ps ! i) = i" using assms(2,3) by (metis nth_map nth_upt plus_nat.add_0)
  moreover have "map fst (map (\<lambda>p. (f p, prop_index p)) ps) = map f ps" by simp
  ultimately show ?thesis using assms(1,3) by (metis (no_types, lifting) map_of_eq_Some_iff nth_map nth_mem length_map)
qed

lemma create_object_ok:
  assumes "map prop_index ps = [0..<length ps]" "creatable ext ps"
  shows "\<exists>m. create_meta (Composite ext True ps [] [] []) = Inr m \<and> object_tables ps m \<and> m_extent m = ext"
proof -
  have c: "distinct (map prop_name ps)" "\<forall>p \<in> set ps. prop_key p \<noteq> 0" "distinct (given_keys ps)" using assms(2) by (simp_all add: creatable_def)
  have nil: "fm_sorted std_less ([] :: ('a :: linorder \<times> 'b) list)" by (simp add: fm_sorted_def)
  obtain ks used where ks: "collect_keys ps [] [] = Inr (ks, used)"
    using collect_keys_total [OF nil c(1), of "[]"] c(2) by auto
  note sk = collect_keys_sound [OF ks nil]
  have used: "mset used = mset (given_keys ps)" using sk by simp
  then have "distinct used" using c(3) mset_eq_imp_distinct_iff by blast
  then have adj: "\<not> adjacent_find (=) used" using adjacent_eq by blast
  obtain ps' kis where a: "assign_keys ps (sort used) 1 [] = Inr (ps', kis)" "\<forall>p \<in> set ps'. prop_key p > 0"
    using assign_keys_total [OF nil keys_free_start [OF c(2,3) used]] by blast
  note sa = assign_keys_sound [OF a(1) nil]
  have keyed: "list_all2 keyed ps ps'" and kd: "distinct (map prop_key ps')" using sa by blast+
  note km = keyed_maps [OF keyed]
  have len: "length ps' = length ps" using list_all2_lengthD [OF keyed] by simp
  obtain lk where lk: "build_lookup ext ps' = Inr lk" "lookup_ok ps' lk"
    using build_lookup_iff [where ext = ext and ps = ps'] assms(2) km(3) km(4) [of ext]
    by (cases "build_lookup ext ps'") (simp_all add: creatable_def)
  have eq: "map (\<lambda>p. (prop_offset p, prop_index p)) ps' = map (\<lambda>p. (prop_offset p, prop_index p)) ps"
    using keyed by (induction rule: list_all2_induct) (simp_all add: keyed_def)
  let ?m = "Composite ext True ps' ks kis lk"
  have "create_meta (Composite ext True ps [] [] []) = Inr ?m" using ks adj a(1) lk(1) by simp
  moreover have "fm_lookup std_less (prop_name (ps ! i)) ks = Some i" if "i < length ps" for i
    using less.fm_lookup_map_of [of ks] sk map_of_index [OF c(1) assms(1) that] by simp
  moreover have "fm_lookup std_less (prop_key (ps' ! i)) kis = Some i" if "i < length ps" for i
    using less.fm_lookup_map_of [of kis] sa map_of_index [OF kd, of i] km(2) assms(1) len that by simp
  moreover have "fm_lookup std_less n ks = None" if "n \<notin> prop_name ` set ps" for n
  proof -
    have "map_of (map (\<lambda>p. (prop_name p, prop_index p)) ps) n = None" using that by (auto simp: map_of_eq_None_iff)
    then show ?thesis using less.fm_lookup_map_of [of ks n] sk by simp
  qed
  moreover have "lookup_ok ps lk" using lk(2) unfolding lookup_ok_def eq .
  moreover have "fm_sorted std_less ks" "fm_sorted std_less kis" using sk sa by blast+
  ultimately have "object_tables ps ?m" using keyed kd a(2) unfolding object_tables_def meta.sel is_object.simps by blast
  then show ?thesis using \<open>create_meta (Composite ext True ps [] [] []) = Inr ?m\<close> by (intro exI [where x = ?m] conjI) simp_all
qed

lemma create_object_only:
  assumes "create_meta (Composite ext True ps [] [] []) = Inr m"
  shows "creatable ext ps"
proof -
  obtain ks used where ks: "collect_keys ps [] [] = Inr (ks, used)" using assms by (auto split: if_splits)
  obtain ps' kis where a: "assign_keys ps (sort used) 1 [] = Inr (ps', kis)" using assms ks by (auto split: if_splits)
  obtain lk where lk: "build_lookup ext ps' = Inr lk" using assms ks a by (auto split: if_splits)
  have nil: "fm_sorted std_less ([] :: ('a :: linorder \<times> 'b) list)" by (simp add: fm_sorted_def)
  note sk = collect_keys_sound [OF ks nil] and sa = assign_keys_sound [OF a nil]
  have k: "list_all2 keyed ps ps'" "distinct (map prop_key ps')" using sa by simp_all
  show ?thesis using sk keyed_maps [OF k(1)] k(2) build_lookup_iff [where ext = ext and ps = ps'] lk by (simp add: creatable_def)
qed

declare create_meta.simps [simp del]

section \<open>Properties\<close>

text \<open>C32: The tables of an object. \<open>create()\<close> succeeds exactly when the names, the offsets and the given keys are
  distinct, no key is zero and the properties end inside of the object. The properties keep what they were
  given, every property has a positive integer key of its own, and names, keys and offsets lead to them.\<close>

theorem create_object:
  assumes "map prop_index ps = [0..<length ps]"
  shows "case create_meta (Composite ext True ps [] [] []) of
      Inl _ \<Rightarrow> \<not> creatable ext ps
    | Inr m \<Rightarrow> creatable ext ps \<and> object_tables ps m \<and> m_extent m = ext"
proof (cases "creatable ext ps")
  case True
  then show ?thesis using create_object_ok [OF assms True] by auto
next
  case False
  then show ?thesis using create_object_only [of ext ps] by (cases "create_meta (Composite ext True ps [] [] [])") auto
qed

text \<open>Three integers, of which the second is given the key 1.\<close>

definition int_meta :: meta where "int_meta = Primitive 4 (C_int 32)"

definition sample_props :: "property list" where
  "sample_props = [Prop 0 int_meta 0 [98] (- 1), Prop 4 int_meta 1 [97] 1, Prop 8 int_meta 2 [99] (- 1)]"

lemma sample_created:
  "create_meta (Composite 12 True sample_props [] [] []) = Inr (Composite 12 True
     [Prop 0 int_meta 0 [98] 2, Prop 4 int_meta 1 [97] 1, Prop 8 int_meta 2 [99] 3]
     [([97], 1), ([98], 0), ([99], 2)] [(1, 1), (2, 0), (3, 2)] [(0, 0), (4, 1), (8, 2)])"
proof -
  note eval = fm_try_emplace_def fm_lower_bound_def bisect.simps std_less_def insert_at_def Let_def
  have "collect_keys sample_props [] [] = Inr ([([97], 1), ([98], 0), ([99], 2)], [1])"
    by (simp add: sample_props_def eval heap_push_def sift_up.simps)
  moreover have "assign_keys sample_props [1] 1 [] = Inr
    ([Prop 0 int_meta 0 [98] 2, Prop 4 int_meta 1 [97] 1, Prop 8 int_meta 2 [99] 3], [(1, 1), (2, 0), (3, 2)])"
    by (simp add: sample_props_def eval next_key_def)
  ultimately show ?thesis
    by (simp add: create_meta.simps build_lookup_def object_end_def int_meta_def std_less_def)
qed

lemma sample_indices: "map prop_index sample_props = [0..<length sample_props]"
  by (simp add: sample_props_def upt_rec)

theorem create_object_witness:
  "\<exists>m. create_meta (Composite 12 True sample_props [] [] []) = Inr m \<and> object_tables sample_props m \<and> map prop_key (m_props m) = [2, 1, 3]"
  using create_object [OF sample_indices, of 12] by (simp add: sample_created)

text \<open>Where an offset lies in the sorted table.\<close>

lemma lookup_place:
  assumes "fm_sorted std_less lk" "(off, i) \<in> set lk"
  shows "\<exists>pre suf. lk = pre @ (off, i) # suf \<and> bisect (\<lambda>j. fst (lk ! j) \<le> off) 0 (length lk) = Suc (length pre)
    \<and> (\<forall>a \<in> set pre. fst a < off) \<and> (\<forall>a \<in> set suf. off < fst a)"
proof -
  obtain pre suf where lk: "lk = pre @ (off, i) # suf" using split_list [OF assms(2)] by blast
  have s: "\<forall>a \<in> set pre. fst a < off" "\<forall>a \<in> set suf. off < fst a"
    using assms(1) lk by (auto simp: fm_sorted_def sorted_wrt_append std_less_def)
  have before: "fst (lk ! j) \<le> off" if "j < Suc (length pre)" for j
  proof (cases "j = length pre")
    case True
    then show ?thesis by (simp add: lk)
  next
    case False
    then have "lk ! j = pre ! j" "j < length pre" using that lk by (simp_all add: nth_append)
    then have "fst (lk ! j) < off" using s(1) nth_mem [of j pre] by simp
    then show ?thesis by simp
  qed
  have behind: "\<not> fst (lk ! j) \<le> off" if "Suc (length pre) \<le> j" "j < 0 + length lk" for j
  proof -
    have "lk ! j = suf ! (j - Suc (length pre))" "j - Suc (length pre) < length suf" using that lk by (simp_all add: nth_append)
    then have "off < fst (lk ! j)" using s(2) nth_mem [of "j - Suc (length pre)" suf] by simp
    then show ?thesis by simp
  qed
  have "bisect (\<lambda>j. fst (lk ! j) \<le> off) 0 (length lk) = Suc (length pre)"
    by (rule bisect_first [OF _ before behind]) (simp_all add: lk)
  then show ?thesis using lk s by blast
qed

lemma find_property_self:
  assumes lk: "lookup_ok ps lk" and ps: "map prop_index ps = [0..<length ps]" and i: "i < length ps"
  shows "find_property (prop_offset (ps ! i)) (Composite e b ps ks kis lk) depth
    = (if \<exists>q \<in> set ps. prop_offset (ps ! i) < prop_offset q then Some (depth, ps ! i) else None)"
proof -
  let ?off = "prop_offset (ps ! i)"
  have s: "fm_sorted std_less lk" "set lk = set (map (\<lambda>p. (prop_offset p, prop_index p)) ps)" using lk by (simp_all add: lookup_ok_def)
  have "map prop_index ps ! i = i" using ps i by simp
  then have "prop_index (ps ! i) = i" using i by simp
  then have "(?off, i) = (\<lambda>p. (prop_offset p, prop_index p)) (ps ! i)" by simp
  then have "(?off, i) \<in> set lk" unfolding s(2) set_map using nth_mem [OF i] by (rule image_eqI)
  from lookup_place [OF s(1) this] obtain pre suf where l: "lk = pre @ (?off, i) # suf" "bisect (\<lambda>j. fst (lk ! j) \<le> ?off) 0 (length lk) = Suc (length pre)"
    "\<forall>a \<in> set pre. fst a < ?off" "\<forall>a \<in> set suf. ?off < fst a"
    by (elim exE conjE)
  have "(\<exists>q \<in> set ps. ?off < prop_offset q) \<longleftrightarrow> (\<exists>a \<in> set lk. ?off < fst a)" unfolding s(2) by simp
  also have "\<dots> \<longleftrightarrow> suf \<noteq> []" using l(1,3,4) by (cases suf) auto
  finally have iff: "(\<exists>q \<in> set ps. ?off < prop_offset q) \<longleftrightarrow> suf \<noteq> []" .
  have "lk ! length pre = (?off, i)" using l(1) by (simp add: nth_append)
  moreover have "Suc (length pre) = length lk \<longleftrightarrow> suf = []" using l(1) by simp
  ultimately show ?thesis using i l(2) iff by (subst find_property.simps) simp
qed

text \<open>C33: Looking up a property by its address finds it at the first level, except for the property with the greatest
  offset, which is never found: the search takes the end of the table for an error before it steps back.\<close>

theorem property_by_address:
  assumes ps: "map prop_index ps = [0..<length ps]" and m: "create_meta (Composite ext True ps [] [] []) = Inr m" and p: "p \<in> set (m_props m)"
  shows "find_property (prop_offset p) m depth = (if \<exists>q \<in> set (m_props m). prop_offset p < prop_offset q then Some (depth, p) else None)"
proof -
  have t: "object_tables ps m" using create_object_ok [OF ps create_object_only [OF m]] m by auto
  then have k: "list_all2 keyed ps (m_props m)" by (simp add: object_tables_def)
  have ps': "map prop_index (m_props m) = [0..<length (m_props m)]" using keyed_maps(2) [OF k] ps list_all2_lengthD [OF k] by simp
  have "map (\<lambda>p. (prop_offset p, prop_index p)) (m_props m) = map (\<lambda>p. (prop_offset p, prop_index p)) ps"
    using k by (induction rule: list_all2_induct) (simp_all add: keyed_def)
  then have lk: "lookup_ok (m_props m) (m_offset_lookup m)" using t by (simp add: object_tables_def lookup_ok_def)
  obtain i where i: "i < length (m_props m)" "p = m_props m ! i" using p by (auto simp: in_set_conv_nth)
  obtain e b qs ks kis l where c: "m = Composite e b qs ks kis l" using t by (cases m) (auto simp: object_tables_def)
  show ?thesis using find_property_self [of qs l i e b ks kis depth] lk ps' i c by simp
qed

theorem property_by_address_witness:
  "\<exists>m p. create_meta (Composite 12 True sample_props [] [] []) = Inr m \<and> find_property 4 m 0 = Some (0, p) \<and> prop_name p = [97]
     \<and> find_property 8 m 0 = None"
  using property_by_address [OF sample_indices sample_created, of "Prop 4 int_meta 1 [97] 1" 0]
    property_by_address [OF sample_indices sample_created, of "Prop 8 int_meta 2 [99] 3" 0]
  by (simp add: sample_created)

text \<open>Two base classes whose properties have the same integer key, such as the generated key 1, cannot be
  extended by one class.\<close>

lemma extend_props_append:
  "extend_props off qs (Composite ext b ps ks kis lk) = Inr m \<Longrightarrow>
   \<exists>rs. m = Composite ext b (ps @ rs) ks kis lk \<and> map prop_key rs = map prop_key qs"
proof (induction qs arbitrary: ps)
  case (Cons q qs)
  let ?q = "Prop (prop_offset q + off) (prop_type q) (length ps) (prop_name q) (prop_key q)"
  have "extend_props off qs (Composite ext b (ps @ [?q]) ks kis lk) = Inr m" using Cons.prems by (simp add: add_property_def)
  from Cons.IH [OF this] show ?case by (auto intro: exI [where x = "?q # _"])
qed simp

lemma bases_clash:
  assumes "basic_extend b1 o1 (define_basic ext True) = Inr m1" "basic_extend b2 o2 m1 = Inr m2"
    and "p1 \<in> set (m_props b1)" "p2 \<in> set (m_props b2)" "prop_key p1 = prop_key p2" "prop_key p1 > 0"
  shows "\<exists>err. create_meta m2 = Inl err"
proof -
  obtain rs where m1: "m1 = Composite ext True rs [] [] []" "map prop_key rs = map prop_key (m_props b1)"
    using extend_props_append [of o1 "m_props b1" ext True "[]" "[]" "[]" "[]" m1] assms(1)
    by (auto simp: basic_extend_def define_basic_def split: if_splits)
  obtain qs where m2: "m2 = Composite ext True (rs @ qs) [] [] []" "map prop_key qs = map prop_key (m_props b2)"
    using extend_props_append [of o2 "m_props b2" ext True rs "[]" "[]" "[]" m2] assms(2) m1(1)
    by (auto simp: basic_extend_def split: if_splits)
  have "prop_key p1 \<in> set (given_keys rs)" unfolding given_keys_def m1(2) using assms(3,6) by simp
  moreover have "prop_key p1 \<in> set (given_keys qs)" unfolding given_keys_def m2(2) using assms(4,5,6) by simp
  moreover have "given_keys (rs @ qs) = given_keys rs @ given_keys qs" by (simp add: given_keys_def)
  ultimately have "\<not> creatable ext (rs @ qs)" by (auto simp: creatable_def)
  then show ?thesis using create_object_only [of ext "rs @ qs"] m2(1) by (cases "create_meta m2") auto
qed

text \<open>Duplicate keys that are not neighbours in the heap pass the check that is meant to find them.\<close>

lemma duplicate_keys_pass_check:
  "\<exists>ks. collect_keys [Prop 0 int_meta 0 [97] 1, Prop 4 int_meta 1 [98] 2, Prop 8 int_meta 2 [99] 1] [] [] = Inr (ks, [1, 2, 1])
     \<and> \<not> adjacent_find (=) [1, 2, 1 :: int]"
  by (simp add: fm_try_emplace_def fm_lower_bound_def bisect.simps std_less_def heap_push_def sift_up.simps insert_at_def Let_def)

end
