(* ===== verification/Refl_Archive.thy ===== *)
theory Refl_Archive
  imports Refl_Meta Msgpack_Roundtrip
begin

text \<open>
  Writing and reading reflected objects: \<open>_archive_to\<close> and \<open>_restore_from\<close> of \<open>object_core.hxx\<close> with the
  controls of \<open>primitives.hxx\<close>. The archive is an argument, a record of the virtual functions of \<open>if_writer\<close> or
  \<open>if_reader\<close> (\<open>if_archive.hxx\<close>) with their configuration. An object lies in a memory of typed cells at an
  address; a property lies at its offset from there. Containers and pointers hold their elements in memories of
  their own. An access to a cell of another type than the control expects is \<open>Bad_cell\<close>.
\<close>

section \<open>The archive interface\<close>

type_synonym ('e, 's, 'a) call = "'s \<Rightarrow> ('e + 'a) \<times> 's"

record ('w, 'e) writer_ops =
  wo_int_key :: bool
  wo_null :: "('e, 'w, unit) call"
  wo_bool :: "bool \<Rightarrow> ('e, 'w, unit) call"
  wo_int :: "nat \<Rightarrow> int \<Rightarrow> ('e, 'w, unit) call"
  wo_uint :: "nat \<Rightarrow> nat \<Rightarrow> ('e, 'w, unit) call"
  wo_float :: "u32 \<Rightarrow> ('e, 'w, unit) call"
  wo_double :: "u64 \<Rightarrow> ('e, 'w, unit) call"
  wo_str :: "byte list \<Rightarrow> ('e, 'w, unit) call"
  wo_object_push :: "nat \<Rightarrow> ('e, 'w, unit) call"
  wo_object_pop :: "('e, 'w, unit) call"
  wo_array_push :: "nat \<Rightarrow> ('e, 'w, unit) call"
  wo_array_pop :: "('e, 'w, unit) call"
  wo_key_next :: "('e, 'w, unit) call"

record ('r, 'e, 'k) reader_ops =
  ro_int_key :: bool
  ro_allow_missing :: bool
  ro_allow_unknown :: bool
  ro_merge :: bool
  ro_null :: "('e, 'r, unit) call"
  ro_bool :: "('e, 'r, bool) call"
  ro_int :: "nat \<Rightarrow> ('e, 'r, int) call"
  ro_uint :: "nat \<Rightarrow> ('e, 'r, nat) call"
  ro_float :: "('e, 'r, u32) call"
  ro_double :: "('e, 'r, u64) call"
  ro_str :: "('e, 'r, byte list) call"
  ro_elem_left :: "('e, 'r, nat) call"
  ro_begin_object :: "('e, 'r, 'k) call"
  ro_begin_array :: "('e, 'r, 'k) call"
  ro_should_break :: "'k \<Rightarrow> ('e, 'r, bool) call"
  ro_end_object :: "'k \<Rightarrow> ('e, 'r, unit) call"
  ro_end_array :: "'k \<Rightarrow> ('e, 'r, unit) call"
  ro_key_next :: "('e, 'r, unit) call"
  ro_type_next :: "('e, 'r, entity_type) call"

definition ro_is_null_next :: "('r, 'e, 'k) reader_ops \<Rightarrow> ('e, 'r, bool) call" where
  "ro_is_null_next R = seqE (ro_type_next R) (\<lambda>t. retE (t = Entity_null))"

definition ro_is_object_next :: "('r, 'e, 'k) reader_ops \<Rightarrow> ('e, 'r, bool) call" where
  "ro_is_object_next R = seqE (ro_type_next R) (\<lambda>t. retE (t \<in> {Entity_object, Entity_dictionary}))"

datatype 'e refl_error =
  Archive 'e | Invalid_read_state | Missing_entity | Unknown_entity | Bad_cell | Prop_out_of_range | Refl_assert | Refl_fuel

section \<open>Objects in memory\<close>

datatype cell =
    D_null | D_bool bool | D_int int | D_uint nat | D_float u32 | D_double u64 | D_str "byte list"
  | D_list "(nat \<Rightarrow> cell option) list"
  | D_dict "(byte list \<times> (nat \<Rightarrow> cell option)) list"
  | D_opt "(nat \<Rightarrow> cell option) option"

type_synonym mem = "nat \<Rightarrow> cell option"

definition opt_empty :: "meta \<Rightarrow> mem \<Rightarrow> nat \<Rightarrow> bool" where
  "opt_empty m mem a \<longleftrightarrow> is_optional m \<and> mem a = Some (D_opt None)"

section \<open>Writing\<close>

definition liftW :: "('e, 'w, 'a) call \<Rightarrow> ('e refl_error, 'w, 'a) call" where
  "liftW c w = (case c w of (Inl e, w) \<Rightarrow> (Inl (Archive e), w) | (Inr x, w) \<Rightarrow> (Inr x, w))"

fun forE :: "('a \<Rightarrow> ('e, 's, unit) call) \<Rightarrow> 'a list \<Rightarrow> ('e, 's, unit) call" where
  "forE f [] = retE ()"
| "forE f (x # xs) = seqE (f x) (\<lambda>_. forE f xs)"

lemma forE_cong [fundef_cong]: "xs = ys \<Longrightarrow> (\<And>x. x \<in> set ys \<Longrightarrow> f x = g x) \<Longrightarrow> forE f xs = forE g ys"
  by (induction xs arbitrary: ys) auto

function archive_to :: "('w, 'e) writer_ops \<Rightarrow> meta \<Rightarrow> mem \<Rightarrow> nat \<Rightarrow> ('e refl_error, 'w, unit) call"
  and archive_control :: "('w, 'e) writer_ops \<Rightarrow> nat \<Rightarrow> control \<Rightarrow> mem \<Rightarrow> nat \<Rightarrow> ('e refl_error, 'w, unit) call"
where
  "archive_to W (Primitive e c) mem a = archive_control W e c mem a"
| "archive_to W (Composite e True ps ks kis lk) mem a =
     (if list_ex (\<lambda>(k, i). length ps \<le> i) ks then throwE Prop_out_of_range
      else seqE (liftW (wo_object_push W (length (filter (\<lambda>(k, i). \<not> opt_empty (prop_type (ps ! i)) mem (a + prop_offset (ps ! i))) ks)))) (\<lambda>_.
           seqE (forE (\<lambda>(write_key, i).
                   if i < length ps then
                     if opt_empty (prop_type (ps ! i)) mem (a + prop_offset (ps ! i)) then retE ()
                     else seqE (liftW (wo_key_next W)) (\<lambda>_. seqE (liftW write_key) (\<lambda>_.
                          archive_to W (prop_type (ps ! i)) mem (a + prop_offset (ps ! i))))
                   else throwE Prop_out_of_range)
                 (if wo_int_key W then map (\<lambda>(k, i). (wo_int W 32 k, i)) kis else map (\<lambda>(k, i). (wo_str W k, i)) ks)) (\<lambda>_.
           liftW (wo_object_pop W))))"
| "archive_to W (Composite e False ps ks kis lk) mem a =
     seqE (liftW (wo_array_push W (length ps))) (\<lambda>_.
     seqE (forE (\<lambda>i. if i < length ps then
                       if opt_empty (prop_type (ps ! i)) mem (a + prop_offset (ps ! i)) then liftW (wo_null W)
                       else archive_to W (prop_type (ps ! i)) mem (a + prop_offset (ps ! i))
                     else throwE Prop_out_of_range) [0..<length ps]) (\<lambda>_.
     liftW (wo_array_pop W)))"
| "archive_control W e C_null mem a = (case mem a of Some D_null \<Rightarrow> liftW (wo_null W) | _ \<Rightarrow> throwE Bad_cell)"
| "archive_control W e C_bool mem a = (case mem a of Some (D_bool b) \<Rightarrow> liftW (wo_bool W b) | _ \<Rightarrow> throwE Bad_cell)"
| "archive_control W e (C_int w) mem a = (case mem a of Some (D_int i) \<Rightarrow> liftW (wo_int W w i) | _ \<Rightarrow> throwE Bad_cell)"
| "archive_control W e (C_uint w) mem a = (case mem a of Some (D_uint n) \<Rightarrow> liftW (wo_uint W w n) | _ \<Rightarrow> throwE Bad_cell)"
| "archive_control W e C_float mem a = (case mem a of Some (D_float f) \<Rightarrow> liftW (wo_float W f) | _ \<Rightarrow> throwE Bad_cell)"
| "archive_control W e C_double mem a = (case mem a of Some (D_double f) \<Rightarrow> liftW (wo_double W f) | _ \<Rightarrow> throwE Bad_cell)"
| "archive_control W e C_string mem a = (case mem a of Some (D_str s) \<Rightarrow> liftW (wo_str W s) | _ \<Rightarrow> throwE Bad_cell)"
| "archive_control W e (C_list m) mem a =
     (case mem a of
        Some (D_list es) \<Rightarrow> seqE (liftW (wo_array_push W (length es))) (\<lambda>_. seqE (forE (\<lambda>x. archive_to W m x 0) es) (\<lambda>_. liftW (wo_array_pop W)))
      | _ \<Rightarrow> throwE Bad_cell)"
| "archive_control W e (C_front_list m) mem a =
     (case mem a of
        Some (D_list es) \<Rightarrow> seqE (liftW (wo_array_push W (length es))) (\<lambda>_. seqE (forE (\<lambda>x. archive_to W m x 0) es) (\<lambda>_. liftW (wo_array_pop W)))
      | _ \<Rightarrow> throwE Bad_cell)"
| "archive_control W e (C_dict m) mem a =
     (case mem a of
        Some (D_dict es) \<Rightarrow>
          seqE (liftW (wo_object_push W (length es))) (\<lambda>_.
          seqE (forE (\<lambda>(k, x). seqE (liftW (wo_key_next W)) (\<lambda>_. seqE (liftW (wo_str W k)) (\<lambda>_. archive_to W m x 0))) es) (\<lambda>_.
          liftW (wo_object_pop W)))
      | _ \<Rightarrow> throwE Bad_cell)"
| "archive_control W e (C_opt m) mem a =
     (case mem a of
        Some (D_opt None) \<Rightarrow> liftW (wo_null W)
      | Some (D_opt (Some x)) \<Rightarrow> archive_to W m x 0
      | _ \<Rightarrow> throwE Bad_cell)"
| "archive_control W e (C_array m) mem a =
     (if e mod m_extent m \<noteq> 0 then throwE Refl_assert
      else seqE (liftW (wo_array_push W (e div m_extent m))) (\<lambda>_.
           seqE (forE (\<lambda>i. archive_to W m mem (a + i * m_extent m)) [0..<e div m_extent m]) (\<lambda>_. liftW (wo_array_pop W))))"
  by pat_completeness auto
termination
  by (relation "measure (\<lambda>x. case x of Inl (_, m, _, _) \<Rightarrow> size_class.size m | Inr (_, _, c, _, _) \<Rightarrow> size_class.size c)")
    (use prop_smaller in \<open>simp_all del: meta.size(4)\<close>)

section \<open>Reading\<close>

type_synonym ('r, 'e, 'a) rcall = "('e refl_error, 'r \<times> mem, 'a) call"

text \<open>A call of the reader, the memory unchanged; and a call on the memory of an element.\<close>

definition liftR :: "('e, 'r, 'a) call \<Rightarrow> ('r, 'e, 'a) rcall" where
  "liftR c s = (case s of (r, mem) \<Rightarrow> case c r of (Inl e, r) \<Rightarrow> (Inl (Archive e), r, mem) | (Inr x, r) \<Rightarrow> (Inr x, r, mem))"

definition poke :: "nat \<Rightarrow> cell \<Rightarrow> ('r, 'e, unit) rcall" where
  "poke a c = updE (\<lambda>(r, mem). (r, mem(a \<mapsto> c)))"

definition peek :: "nat \<Rightarrow> ('r, 'e, cell option) rcall" where
  "peek a s = (Inr (snd s a), s)"

definition inside :: "nat \<Rightarrow> (mem \<Rightarrow> cell) \<Rightarrow> ('r, 'e, unit) rcall \<Rightarrow> mem \<Rightarrow> ('r, 'e, unit) rcall" where
  "inside a put c x s = (case s of (r, mem) \<Rightarrow> case c (r, x) of (res, r, x) \<Rightarrow> (res, r, mem(a \<mapsto> put x)))"

fun while_reading :: "nat \<Rightarrow> ('r, 'e, bool) rcall \<Rightarrow> (nat \<Rightarrow> ('r, 'e, nat) rcall) \<Rightarrow> nat \<Rightarrow> ('r, 'e, nat) rcall" where
  "while_reading 0 done_reading body n = throwE Refl_fuel"
| "while_reading (Suc k) done_reading body n =
     seqE done_reading (\<lambda>b. if b then retE n else seqE (body n) (while_reading k done_reading body))"

fun dict_emplace :: "byte list \<Rightarrow> mem \<Rightarrow> (byte list \<times> mem) list \<Rightarrow> (byte list \<times> mem) list" where
  "dict_emplace k x [] = [(k, x)]"
| "dict_emplace k x ((l, y) # es) = (if l < k then (l, y) # dict_emplace k x es else if l = k then (l, y) # es else (k, x) # (l, y) # es)"

definition scalar_of :: "('r, 'e, 'k) reader_ops \<Rightarrow> control \<Rightarrow> ('e, 'r, cell) call" where
  "scalar_of R c =
     (case c of
        C_null \<Rightarrow> seqE (ro_null R) (\<lambda>_. retE D_null)
      | C_bool \<Rightarrow> seqE (ro_bool R) (\<lambda>b. retE (D_bool b))
      | C_int w \<Rightarrow> seqE (ro_int R w) (\<lambda>i. retE (D_int i))
      | C_uint w \<Rightarrow> seqE (ro_uint R w) (\<lambda>n. retE (D_uint n))
      | C_float \<Rightarrow> seqE (ro_float R) (\<lambda>f. retE (D_float f))
      | C_double \<Rightarrow> seqE (ro_double R) (\<lambda>f. retE (D_double f))
      | _ \<Rightarrow> seqE (ro_str R) (\<lambda>b. retE (D_str b)))"

text \<open>\<open>dflt\<close> is the default constructor of an element type. A property that is read is looked for by name or by integer
  key, in the tables of \<open>create()\<close>.\<close>

definition read_index :: "('r, 'e, 'k) reader_ops \<Rightarrow> meta \<Rightarrow> ('e, 'r, nat option) call" where
  "read_index R m =
     (if ro_int_key R then seqE (ro_int R 32) (\<lambda>k. retE (fm_lookup std_less k (m_key_indices m)))
      else seqE (ro_str R) (\<lambda>k. retE (fm_lookup std_less k (m_keys m))))"

definition required_props :: "property list \<Rightarrow> nat" where
  "required_props ps = length (filter (\<lambda>p. \<not> is_optional (prop_type p)) ps)"

text \<open>The bodies of the loops, for a call that reads one element. \<open>emplace_back()\<close> puts a default-constructed
  element into the container before it is read; \<open>n\<close> counts the required properties seen.\<close>

definition read_back :: "nat \<Rightarrow> ('r, 'e, unit) rcall \<Rightarrow> mem \<Rightarrow> nat \<Rightarrow> ('r, 'e, nat) rcall" where
  "read_back a restore x0 n =
     seqE (peek a) (\<lambda>c. case c of
       Some (D_list es) \<Rightarrow> seqE (inside a (\<lambda>x. D_list (es @ [x])) restore x0) (\<lambda>_. retE n)
     | _ \<Rightarrow> throwE Bad_cell)"

definition read_front :: "nat \<Rightarrow> ('r, 'e, unit) rcall \<Rightarrow> mem \<Rightarrow> nat \<Rightarrow> ('r, 'e, nat) rcall" where
  "read_front a restore x0 n =
     seqE (peek a) (\<lambda>c. case c of
       Some (D_list es) \<Rightarrow> seqE (inside a (\<lambda>x. D_list (x # es)) restore x0) (\<lambda>_. retE n)
     | _ \<Rightarrow> throwE Bad_cell)"

definition read_list :: "('r, 'e, 'k) reader_ops \<Rightarrow> nat \<Rightarrow> bool \<Rightarrow> nat \<Rightarrow> (nat \<Rightarrow> ('r, 'e, nat) rcall) \<Rightarrow> ('r, 'e, unit) rcall" where
  "read_list R k reserve a elem =
     seqE (peek a) (\<lambda>c. case c of
       Some (D_list _) \<Rightarrow>
         seqE (if ro_merge R then retE () else poke a (D_list [])) (\<lambda>_.
         seqE (liftR (ro_begin_array R)) (\<lambda>key.
         seqE (if reserve then liftR (ro_elem_left R) else retE 0) (\<lambda>_.
         seqE (while_reading k (liftR (ro_should_break R key)) elem 0) (\<lambda>_.
         liftR (ro_end_array R key)))))
     | _ \<Rightarrow> throwE Bad_cell)"

definition read_entry :: "('r, 'e, 'k) reader_ops \<Rightarrow> nat \<Rightarrow> ('r, 'e, unit) rcall \<Rightarrow> mem \<Rightarrow> nat \<Rightarrow> ('r, 'e, nat) rcall" where
  "read_entry R a restore x0 n =
     seqE (liftR (ro_key_next R)) (\<lambda>_.
     seqE (liftR (ro_str R)) (\<lambda>key.
     seqE (peek a) (\<lambda>c. case c of
       Some (D_dict es) \<Rightarrow> (\<lambda>(r, mem). case restore (r, x0) of
           (Inl err, r, x) \<Rightarrow> (Inl err, r, mem)
         | (Inr _, r, x) \<Rightarrow> (Inr n, r, mem(a \<mapsto> D_dict (dict_emplace key x es))))
     | _ \<Rightarrow> throwE Bad_cell)))"

definition read_dict :: "('r, 'e, 'k) reader_ops \<Rightarrow> nat \<Rightarrow> nat \<Rightarrow> (nat \<Rightarrow> ('r, 'e, nat) rcall) \<Rightarrow> ('r, 'e, unit) rcall" where
  "read_dict R k a elem =
     seqE (liftR (ro_begin_object R)) (\<lambda>key.
     seqE (peek a) (\<lambda>c. case c of
       Some (D_dict _) \<Rightarrow>
         seqE (if ro_merge R then retE () else poke a (D_dict [])) (\<lambda>_.
         seqE (while_reading k (liftR (ro_should_break R key)) elem 0) (\<lambda>_.
         liftR (ro_end_object R key)))
     | _ \<Rightarrow> throwE Bad_cell))"

definition read_property :: "('r, 'e, 'k) reader_ops \<Rightarrow> meta \<Rightarrow> 'k \<Rightarrow> (nat \<Rightarrow> ('r, 'e, unit) rcall) \<Rightarrow> nat \<Rightarrow> ('r, 'e, nat) rcall" where
  "read_property R m key restore n =
     seqE (liftR (ro_key_next R)) (\<lambda>_.
     seqE (liftR (read_index R m)) (\<lambda>found.
     case found of
       None \<Rightarrow> seqE (liftR (ro_null R)) (\<lambda>_.
         if ro_allow_unknown R then retE n else seqE (liftR (ro_end_object R key)) (\<lambda>_. throwE Unknown_entity))
     | Some i \<Rightarrow> seqE (restore i) (\<lambda>_.
         retE (if \<not> ro_allow_missing R \<and> \<not> is_optional (prop_type (m_props m ! i)) then n + 1 else n))))"

definition read_object :: "('r, 'e, 'k) reader_ops \<Rightarrow> nat \<Rightarrow> meta \<Rightarrow> (nat \<Rightarrow> ('r, 'e, unit) rcall) \<Rightarrow> ('r, 'e, unit) rcall" where
  "read_object R k m restore =
     seqE (liftR (ro_is_object_next R)) (\<lambda>ok. if \<not> ok then throwE Invalid_read_state else
     seqE (liftR (ro_begin_object R)) (\<lambda>key.
     seqE (while_reading k (liftR (ro_should_break R key)) (read_property R m key restore) 0) (\<lambda>n.
     seqE (liftR (ro_end_object R key)) (\<lambda>_.
     if \<not> ro_allow_missing R \<and> n \<noteq> required_props (m_props m) then throwE Missing_entity else retE ()))))"

definition read_tuple :: "('r, 'e, 'k) reader_ops \<Rightarrow> property list \<Rightarrow> (nat \<Rightarrow> ('r, 'e, unit) rcall) \<Rightarrow> ('r, 'e, unit) rcall" where
  "read_tuple R ps restore =
     seqE (liftR (ro_begin_array R)) (\<lambda>key.
     seqE (forE (\<lambda>i.
             seqE (if is_optional (prop_type (ps ! i)) then liftR (ro_is_null_next R) else retE False) (\<lambda>nul.
             if nul then liftR (ro_null R) else restore i)) [0..<length ps]) (\<lambda>_.
     seqE (if ro_allow_unknown R then retE 0 else liftR (ro_elem_left R)) (\<lambda>n.
     if n > 0 then throwE Missing_entity else liftR (ro_end_array R key))))"

definition read_optional :: "nat \<Rightarrow> ('r, 'e, unit) rcall \<Rightarrow> mem \<Rightarrow> ('r, 'e, unit) rcall" where
  "read_optional a restore x0 =
     seqE (peek a) (\<lambda>c. case c of
       Some (D_opt x) \<Rightarrow> inside a (\<lambda>x. D_opt (Some x)) restore (case x of None \<Rightarrow> x0 | Some x \<Rightarrow> x)
     | _ \<Rightarrow> throwE Bad_cell)"

definition read_array :: "('r, 'e, 'k) reader_ops \<Rightarrow> nat \<Rightarrow> (nat \<Rightarrow> ('r, 'e, unit) rcall) \<Rightarrow> ('r, 'e, unit) rcall" where
  "read_array R n restore =
     seqE (liftR (ro_begin_array R)) (\<lambda>key. seqE (forE restore [0..<n]) (\<lambda>_. liftR (ro_end_array R key)))"

definition read_scalar :: "('r, 'e, 'k) reader_ops \<Rightarrow> control \<Rightarrow> nat \<Rightarrow> ('r, 'e, unit) rcall" where
  "read_scalar R c a = seqE (liftR (scalar_of R c)) (poke a)"

function restore_from :: "('r, 'e, 'k) reader_ops \<Rightarrow> (meta \<Rightarrow> mem) \<Rightarrow> nat \<Rightarrow> meta \<Rightarrow> nat \<Rightarrow> ('r, 'e, unit) rcall"
  and restore_control :: "('r, 'e, 'k) reader_ops \<Rightarrow> (meta \<Rightarrow> mem) \<Rightarrow> nat \<Rightarrow> nat \<Rightarrow> control \<Rightarrow> nat \<Rightarrow> ('r, 'e, unit) rcall"
where
  "restore_from R dflt k (Primitive e c) a = restore_control R dflt k e c a"
| "restore_from R dflt k (Composite e True ps ks kis lk) a =
     read_object R k (Composite e True ps ks kis lk)
       (\<lambda>i. if i < length ps then restore_from R dflt k (prop_type (ps ! i)) (a + prop_offset (ps ! i)) else throwE Prop_out_of_range)"
| "restore_from R dflt k (Composite e False ps ks kis lk) a =
     read_tuple R ps
       (\<lambda>i. if i < length ps then restore_from R dflt k (prop_type (ps ! i)) (a + prop_offset (ps ! i)) else throwE Prop_out_of_range)"
| "restore_control R dflt k e (C_list m) a = read_list R k True a (read_back a (restore_from R dflt k m 0) (dflt m))"
| "restore_control R dflt k e (C_front_list m) a = read_list R k False a (read_front a (restore_from R dflt k m 0) (dflt m))"
| "restore_control R dflt k e (C_dict m) a = read_dict R k a (read_entry R a (restore_from R dflt k m 0) (dflt m))"
| "restore_control R dflt k e (C_opt m) a = read_optional a (restore_from R dflt k m 0) (dflt m)"
| "restore_control R dflt k e (C_array m) a =
     (if e mod m_extent m \<noteq> 0 then throwE Refl_assert
      else read_array R (e div m_extent m) (\<lambda>i. restore_from R dflt k m (a + i * m_extent m)))"
| "restore_control R dflt k e C_null a = read_scalar R C_null a"
| "restore_control R dflt k e C_bool a = read_scalar R C_bool a"
| "restore_control R dflt k e (C_int w) a = read_scalar R (C_int w) a"
| "restore_control R dflt k e (C_uint w) a = read_scalar R (C_uint w) a"
| "restore_control R dflt k e C_float a = read_scalar R C_float a"
| "restore_control R dflt k e C_double a = read_scalar R C_double a"
| "restore_control R dflt k e C_string a = read_scalar R C_string a"
  by pat_completeness auto
termination
  by (relation "measure (\<lambda>x. case x of Inl (_, _, _, m, _) \<Rightarrow> size_class.size m | Inr (_, _, _, _, c, _) \<Rightarrow> size_class.size c)")
    (use prop_smaller in \<open>simp_all del: meta.size(4)\<close>)

end
