(* ===== verification/Refl_Roundtrip.thy ===== *)
theory Refl_Roundtrip
  imports Refl_Archive
begin

text \<open>
  What is written of an object is the value tree of its contents, and reading it back into a default-constructed
  object gives the contents again. The archives are interfaces here: \<open>tree_writer\<close> says that a writer's calls
  compose to the writing of a tree, \<open>tree_reader\<close> how a reader's calls move through a tree. The MessagePack
  writer and reader implement them.
\<close>

section \<open>The contents of an object\<close>

definition int_fits :: "nat \<Rightarrow> int \<Rightarrow> bool" where
  "int_fits w i \<longleftrightarrow> w \<in> {8, 16, 32, 64} \<and> - (2 ^ (w - 1)) \<le> i \<and> i < 2 ^ (w - 1)"

definition uint_fits :: "nat \<Rightarrow> nat \<Rightarrow> bool" where
  "uint_fits w n \<longleftrightarrow> w \<in> {8, 16, 32, 64} \<and> n < 2 ^ w"

text \<open>Two objects have the same contents.\<close>

function agree :: "meta \<Rightarrow> mem \<Rightarrow> nat \<Rightarrow> mem \<Rightarrow> nat \<Rightarrow> bool"
  and agree_control :: "nat \<Rightarrow> control \<Rightarrow> mem \<Rightarrow> nat \<Rightarrow> mem \<Rightarrow> nat \<Rightarrow> bool"
where
  "agree (Primitive e c) x a y b \<longleftrightarrow> agree_control e c x a y b"
| "agree (Composite e ob ps ks kis lk) x a y b \<longleftrightarrow>
     (\<forall>i. if i < length ps then agree (prop_type (ps ! i)) x (a + prop_offset (ps ! i)) y (b + prop_offset (ps ! i)) else True)"
| "agree_control e C_null x a y b \<longleftrightarrow> x a = Some D_null \<and> y b = Some D_null"
| "agree_control e C_bool x a y b \<longleftrightarrow> (\<exists>v. x a = Some (D_bool v) \<and> y b = Some (D_bool v))"
| "agree_control e (C_int w) x a y b \<longleftrightarrow> (\<exists>i. x a = Some (D_int i) \<and> y b = Some (D_int i) \<and> int_fits w i)"
| "agree_control e (C_uint w) x a y b \<longleftrightarrow> (\<exists>n. x a = Some (D_uint n) \<and> y b = Some (D_uint n) \<and> uint_fits w n)"
| "agree_control e C_float x a y b \<longleftrightarrow> (\<exists>v. x a = Some (D_float v) \<and> y b = Some (D_float v))"
| "agree_control e C_double x a y b \<longleftrightarrow> (\<exists>v. x a = Some (D_double v) \<and> y b = Some (D_double v))"
| "agree_control e C_string x a y b \<longleftrightarrow> (\<exists>v. x a = Some (D_str v) \<and> y b = Some (D_str v))"
| "agree_control e (C_list m) x a y b \<longleftrightarrow>
     (\<exists>es fs. x a = Some (D_list es) \<and> y b = Some (D_list fs) \<and> list_all2 (\<lambda>e f. agree m e 0 f 0) es fs)"
| "agree_control e (C_front_list m) x a y b \<longleftrightarrow>
     (\<exists>es fs. x a = Some (D_list es) \<and> y b = Some (D_list fs) \<and> list_all2 (\<lambda>e f. agree m e 0 f 0) es fs)"
| "agree_control e (C_dict m) x a y b \<longleftrightarrow>
     (\<exists>es fs. x a = Some (D_dict es) \<and> y b = Some (D_dict fs) \<and> sorted_wrt (<) (map fst es)
        \<and> list_all2 (\<lambda>u v. fst u = fst v \<and> agree m (snd u) 0 (snd v) 0) es fs)"
| "agree_control e (C_opt m) x a y b \<longleftrightarrow>
     x a = Some (D_opt None) \<and> y b = Some (D_opt None)
     \<or> (\<exists>u v. x a = Some (D_opt (Some u)) \<and> y b = Some (D_opt (Some v)) \<and> agree m u 0 v 0)"
| "agree_control e (C_array m) x a y b \<longleftrightarrow>
     (\<forall>i < e div m_extent m. agree m x (a + i * m_extent m) y (b + i * m_extent m))"
  by pat_completeness auto
termination
  by (relation "measure (\<lambda>x. case x of Inl (m, _) \<Rightarrow> size_class.size m | Inr (_, c, _) \<Rightarrow> size_class.size c)")
    (use prop_smaller in \<open>simp_all del: meta.size(4)\<close>)

abbreviation typed :: "meta \<Rightarrow> mem \<Rightarrow> nat \<Rightarrow> bool" where "typed m x a \<equiv> agree m x a x a"

text \<open>An object as it is before it is read into: containers may hold anything, optionals are empty.\<close>

function blank :: "meta \<Rightarrow> mem \<Rightarrow> nat \<Rightarrow> bool"
  and blank_control :: "nat \<Rightarrow> control \<Rightarrow> mem \<Rightarrow> nat \<Rightarrow> bool"
where
  "blank (Primitive e c) y b \<longleftrightarrow> blank_control e c y b"
| "blank (Composite e ob ps ks kis lk) y b \<longleftrightarrow>
     (\<forall>i. if i < length ps then blank (prop_type (ps ! i)) y (b + prop_offset (ps ! i)) else True)"
| "blank_control e (C_list m) y b \<longleftrightarrow> (\<exists>fs. y b = Some (D_list fs))"
| "blank_control e (C_front_list m) y b \<longleftrightarrow> (\<exists>fs. y b = Some (D_list fs))"
| "blank_control e (C_dict m) y b \<longleftrightarrow> (\<exists>fs. y b = Some (D_dict fs))"
| "blank_control e (C_opt m) y b \<longleftrightarrow> y b = Some (D_opt None)"
| "blank_control e (C_array m) y b \<longleftrightarrow> (\<forall>i < e div m_extent m. blank m y (b + i * m_extent m))"
| "blank_control e C_null y b = True"
| "blank_control e C_bool y b = True"
| "blank_control e (C_int w) y b = True"
| "blank_control e (C_uint w) y b = True"
| "blank_control e C_float y b = True"
| "blank_control e C_double y b = True"
| "blank_control e C_string y b = True"
  by pat_completeness auto
termination
  by (relation "measure (\<lambda>x. case x of Inl (m, _) \<Rightarrow> size_class.size m | Inr (_, c, _) \<Rightarrow> size_class.size c)")
    (use prop_smaller in \<open>simp_all del: meta.size(4)\<close>)

text \<open>The value tree of an object.\<close>

function tree :: "meta \<Rightarrow> mem \<Rightarrow> nat \<Rightarrow> val"
  and tree_control :: "nat \<Rightarrow> control \<Rightarrow> mem \<Rightarrow> nat \<Rightarrow> val"
where
  "tree (Primitive e c) x a = tree_control e c x a"
| "tree (Composite e True ps ks kis lk) x a =
     VMap (map (\<lambda>(k, i). (k, if i < length ps then tree (prop_type (ps ! i)) x (a + prop_offset (ps ! i)) else VNil))
       (filter (\<lambda>(k, i). \<not> opt_empty (prop_type (ps ! i)) x (a + prop_offset (ps ! i))) ks))"
| "tree (Composite e False ps ks kis lk) x a =
     VArr (map (\<lambda>i. if i < length ps then tree (prop_type (ps ! i)) x (a + prop_offset (ps ! i)) else VNil) [0..<length ps])"
| "tree_control e C_null x a = VNil"
| "tree_control e C_bool x a = (case x a of Some (D_bool v) \<Rightarrow> VBool v | _ \<Rightarrow> VNil)"
| "tree_control e (C_int w) x a = (case x a of Some (D_int v) \<Rightarrow> VInt v | _ \<Rightarrow> VNil)"
| "tree_control e (C_uint w) x a = (case x a of Some (D_uint v) \<Rightarrow> VUint v | _ \<Rightarrow> VNil)"
| "tree_control e C_float x a = (case x a of Some (D_float v) \<Rightarrow> VFloat v | _ \<Rightarrow> VNil)"
| "tree_control e C_double x a = (case x a of Some (D_double v) \<Rightarrow> VDouble v | _ \<Rightarrow> VNil)"
| "tree_control e C_string x a = (case x a of Some (D_str v) \<Rightarrow> VStr v | _ \<Rightarrow> VNil)"
| "tree_control e (C_list m) x a = (case x a of Some (D_list es) \<Rightarrow> VArr (map (\<lambda>e. tree m e 0) es) | _ \<Rightarrow> VNil)"
| "tree_control e (C_front_list m) x a = (case x a of Some (D_list es) \<Rightarrow> VArr (map (\<lambda>e. tree m e 0) es) | _ \<Rightarrow> VNil)"
| "tree_control e (C_dict m) x a = (case x a of Some (D_dict es) \<Rightarrow> VMap (map (\<lambda>(k, e). (k, tree m e 0)) es) | _ \<Rightarrow> VNil)"
| "tree_control e (C_opt m) x a = (case x a of Some (D_opt (Some u)) \<Rightarrow> tree m u 0 | _ \<Rightarrow> VNil)"
| "tree_control e (C_array m) x a = VArr (map (\<lambda>i. tree m x (a + i * m_extent m)) [0..<e div m_extent m])"
  by pat_completeness auto
termination
  by (relation "measure (\<lambda>x. case x of Inl (m, _) \<Rightarrow> size_class.size m | Inr (_, c, _) \<Rightarrow> size_class.size c)")
    (use prop_smaller in \<open>simp_all del: meta.size(4)\<close>)

text \<open>Types as the compiler lays them out and \<open>create()\<close> describes them: properties do not overlap, an array is a whole
  number of elements, every property of an object is in the table of names. Elements of containers are no
  optionals: an empty one would be written as null, which the element's own type does not accept.\<close>

definition laid_out :: "nat \<Rightarrow> property list \<Rightarrow> bool" where
  "laid_out e ps \<longleftrightarrow> (\<forall>i < length ps. prop_offset (ps ! i) + m_extent (prop_type (ps ! i)) \<le> e)
     \<and> (\<forall>i < length ps. \<forall>j < length ps. i \<noteq> j \<longrightarrow> prop_offset (ps ! i) + m_extent (prop_type (ps ! i)) \<le> prop_offset (ps ! j)
          \<or> prop_offset (ps ! j) + m_extent (prop_type (ps ! j)) \<le> prop_offset (ps ! i))"

definition key_table :: "nat \<Rightarrow> (byte list, nat) fm \<Rightarrow> bool" where
  "key_table n ks \<longleftrightarrow> fm_sorted std_less ks \<and> mset (map snd ks) = mset [0..<n]"

function wf_meta :: "meta \<Rightarrow> bool" and wf_control :: "nat \<Rightarrow> control \<Rightarrow> bool" where
  "wf_meta (Primitive e c) \<longleftrightarrow> e > 0 \<and> wf_control e c"
| "wf_meta (Composite e ob ps ks kis lk) \<longleftrightarrow> laid_out e ps \<and> (ob \<longrightarrow> key_table (length ps) ks)
     \<and> (\<forall>i. if i < length ps then wf_meta (prop_type (ps ! i)) else True)"
| "wf_control e (C_list m) \<longleftrightarrow> wf_meta m \<and> \<not> is_optional m"
| "wf_control e (C_front_list m) \<longleftrightarrow> False"
| "wf_control e (C_dict m) \<longleftrightarrow> wf_meta m \<and> \<not> is_optional m"
| "wf_control e (C_opt m) \<longleftrightarrow> wf_meta m \<and> \<not> is_optional m \<and> (\<forall>e. m \<noteq> Primitive e C_null)"
| "wf_control e (C_array m) \<longleftrightarrow> wf_meta m \<and> \<not> is_optional m \<and> m_extent m > 0 \<and> e mod m_extent m = 0"
| "wf_control e C_null = True"
| "wf_control e C_bool = True"
| "wf_control e (C_int w) = True"
| "wf_control e (C_uint w) = True"
| "wf_control e C_float = True"
| "wf_control e C_double = True"
| "wf_control e C_string = True"
  by pat_completeness auto
termination
  by (relation "measure (\<lambda>x. case x of Inl m \<Rightarrow> size_class.size m | Inr (_, c) \<Rightarrow> size_class.size c)")
    (use prop_smaller in \<open>simp_all del: meta.size(4)\<close>)

lemma wf_props: "wf_meta (Composite e ob ps ks kis lk) \<Longrightarrow> i < length ps \<Longrightarrow> wf_meta (prop_type (ps ! i))"
  by (auto split: if_splits)

text \<open>A value of a well-formed type is null only if it is the null type or an empty optional.\<close>

lemma tree_not_null:
  assumes "wf_meta m" "typed m x a" "\<not> is_optional m" "\<forall>e. m \<noteq> Primitive e C_null"
  shows "tree m x a \<noteq> VNil"
proof (cases m)
  case (Primitive e c)
  then show ?thesis using assms by (cases c) auto
next
  case (Composite e ob ps ks kis lk)
  then show ?thesis by (cases ob) simp_all
qed

lemma opt_empty_tree: "wf_meta m \<Longrightarrow> is_optional m \<Longrightarrow> typed m x a \<Longrightarrow> opt_empty m x a \<longleftrightarrow> tree m x a = VNil"
proof -
  assume m: "wf_meta m" "is_optional m" and t: "typed m x a"
  then obtain e m' where o: "m = Primitive e (C_opt m')" by (cases m rule: is_optional.cases) auto
  then show ?thesis using m t tree_not_null [of m'] by (auto simp: opt_empty_def)
qed

section \<open>Writing the tree\<close>

lemma liftW_seqE: "liftW (seqE c f) = seqE (liftW c) (\<lambda>x. liftW (f x))"
  by (auto simp: liftW_def seqE_def fun_eq_iff split: prod.splits sum.splits)

lemma liftW_ret: "liftW (retE x) = retE x"
  by (simp add: liftW_def retE_def fun_eq_iff)

lemma liftW_forE: "liftW (forE f xs) = forE (\<lambda>x. liftW (f x)) xs"
  by (induction xs) (simp_all add: liftW_seqE liftW_ret)

lemma forE_map: "forE f (map g xs) = forE (\<lambda>x. f (g x)) xs"
  by (induction xs) simp_all

lemma seqE_retE: "seqE (retE x) f = f x"
  by (simp add: fun_eq_iff)

lemma forE_filter: "forE (\<lambda>x. if P x then retE () else f x) xs = forE f (filter (\<lambda>x. \<not> P x) xs)"
  by (induction xs) (simp_all add: seqE_retE)

locale tree_writer =
  fixes W :: "('w, 'e) writer_ops" and put :: "val \<Rightarrow> ('e, 'w, unit) call"
  assumes string_keys: "\<not> wo_int_key W"
    and put_null: "put VNil = wo_null W"
    and put_bool: "put (VBool v) = wo_bool W v"
    and put_int: "int_fits w i \<Longrightarrow> wo_int W w i = put (VInt i)"
    and put_uint: "uint_fits w n \<Longrightarrow> wo_uint W w n = put (VUint n)"
    and put_float: "put (VFloat f) = wo_float W f"
    and put_double: "put (VDouble d) = wo_double W d"
    and put_str: "put (VStr s) = wo_str W s"
    and put_array: "put (VArr vs) = seqE (wo_array_push W (length vs)) (\<lambda>_. seqE (forE put vs) (\<lambda>_. wo_array_pop W))"
    and put_object: "put (VMap es) = seqE (wo_object_push W (length es)) (\<lambda>_.
      seqE (forE (\<lambda>(k, v). seqE (wo_key_next W) (\<lambda>_. seqE (wo_str W k) (\<lambda>_. put v))) es) (\<lambda>_. wo_object_pop W))"
begin

lemma archive_object:
  assumes p: "\<And>i. i < length ps \<Longrightarrow> archive_to W (prop_type (ps ! i)) x (a + prop_offset (ps ! i))
      = liftW (put (tree (prop_type (ps ! i)) x (a + prop_offset (ps ! i))))"
    and ks: "key_table (length ps) ks"
  shows "archive_to W (Composite e True ps ks kis lk) x a = liftW (put (tree (Composite e True ps ks kis lk) x a))"
proof -
  let ?absent = "\<lambda>i. opt_empty (prop_type (ps ! i)) x (a + prop_offset (ps ! i))"
  let ?t = "\<lambda>i. if i < length ps then tree (prop_type (ps ! i)) x (a + prop_offset (ps ! i)) else VNil"
  let ?entry = "\<lambda>(k, i). liftW (seqE (wo_key_next W) (\<lambda>_. seqE (wo_str W k) (\<lambda>_. put (?t i))))"
  have "mset (map snd ks) = mset [0..<length ps]" using ks by (simp add: key_table_def)
  from mset_eq_setD [OF this] have i: "i < length ps" if "(k, i) \<in> set ks" for k i using that by force
  then have all: "\<not> list_ex (\<lambda>(k, i). length ps \<le> i) ks" unfolding list_ex_iff using linorder_not_le by fastforce
  have "forE (\<lambda>(write_key, i). if i < length ps then if ?absent i then retE ()
        else seqE (liftW (wo_key_next W)) (\<lambda>_. seqE (liftW write_key) (\<lambda>_. archive_to W (prop_type (ps ! i)) x (a + prop_offset (ps ! i))))
        else throwE Prop_out_of_range) (map (\<lambda>(k, i). (wo_str W k, i)) ks)
    = forE (\<lambda>(k, i). if ?absent i then retE () else ?entry (k, i)) ks"
    unfolding forE_map by (rule forE_cong) (use i p in \<open>auto simp: liftW_seqE\<close>)
  also have "\<dots> = forE ?entry (filter (\<lambda>(k, i). \<not> ?absent i) ks)" by (simp add: case_prod_unfold forE_filter)
  finally show ?thesis using all string_keys by (simp add: put_object liftW_seqE liftW_forE forE_map case_prod_unfold)
qed

lemma archive_tuple:
  assumes p: "\<And>i. i < length ps \<Longrightarrow> archive_to W (prop_type (ps ! i)) x (a + prop_offset (ps ! i))
      = liftW (put (tree (prop_type (ps ! i)) x (a + prop_offset (ps ! i))))"
    and absent: "\<And>i. i < length ps \<Longrightarrow> opt_empty (prop_type (ps ! i)) x (a + prop_offset (ps ! i)) \<Longrightarrow>
      tree (prop_type (ps ! i)) x (a + prop_offset (ps ! i)) = VNil"
  shows "archive_to W (Composite e False ps ks kis lk) x a = liftW (put (tree (Composite e False ps ks kis lk) x a))"
proof -
  have "forE (\<lambda>i. if i < length ps then if opt_empty (prop_type (ps ! i)) x (a + prop_offset (ps ! i)) then liftW (wo_null W)
        else archive_to W (prop_type (ps ! i)) x (a + prop_offset (ps ! i)) else throwE Prop_out_of_range) [0..<length ps]
    = forE (\<lambda>i. liftW (put (if i < length ps then tree (prop_type (ps ! i)) x (a + prop_offset (ps ! i)) else VNil))) [0..<length ps]"
    by (rule forE_cong [OF refl]) (use p absent put_null in auto)
  then show ?thesis by (simp add: put_array liftW_seqE liftW_forE forE_map)
qed

lemma archive_primitive:
  assumes IH: "\<And>m' x a. size_class.size m' < size_class.size (Primitive e c) \<Longrightarrow> wf_meta m' \<Longrightarrow> typed m' x a \<Longrightarrow>
      archive_to W m' x a = liftW (put (tree m' x a))"
    and wf: "wf_control e c" and t: "agree_control e c x a x a"
  shows "archive_control W e c x a = liftW (put (tree_control e c x a))"
proof (cases c)
  case (C_list m')
  then obtain es where es: "x a = Some (D_list es)" "\<forall>e \<in> set es. typed m' e 0" using t by (auto simp: list_all2_same)
  then have "archive_to W m' e 0 = liftW (put (tree m' e 0))" if "e \<in> set es" for e using IH [of m'] wf C_list that by simp
  then show ?thesis using es(1) C_list by (simp add: put_array liftW_seqE liftW_forE forE_map cong: forE_cong)
next
  case (C_dict m')
  then obtain es where es: "x a = Some (D_dict es)" "\<forall>e \<in> set es. typed m' (snd e) 0" using t by (auto simp: list_all2_same)
  then have "archive_to W m' (snd e) 0 = liftW (put (tree m' (snd e) 0))" if "e \<in> set es" for e using IH [of m'] wf C_dict that by simp
  then show ?thesis using es(1) C_dict by (simp add: put_object liftW_seqE liftW_forE forE_map case_prod_unfold cong: forE_cong)
next
  case (C_opt m')
  then show ?thesis using IH [of m'] wf t put_null by auto
next
  case (C_array m')
  then have "archive_to W m' x (a + i * m_extent m') = liftW (put (tree m' x (a + i * m_extent m')))" if "i < e div m_extent m'" for i
    using IH [of m'] wf t that by simp
  then have "forE (\<lambda>i. archive_to W m' x (a + i * m_extent m')) [0..<e div m_extent m']
      = forE (\<lambda>i. liftW (put (tree m' x (a + i * m_extent m')))) [0..<e div m_extent m']"
    by (intro forE_cong [OF refl]) simp
  then show ?thesis using wf C_array by (simp add: put_array liftW_seqE liftW_forE forE_map)
qed (use t wf in \<open>auto simp: put_null put_bool put_int put_uint put_float put_double put_str\<close>)

lemma archive_tree: "wf_meta m \<Longrightarrow> typed m x a \<Longrightarrow> archive_to W m x a = liftW (put (tree m x a))"
proof (induction "size_class.size m" arbitrary: m x a rule: less_induct)
  case less
  show ?case
  proof (cases m)
    case (Primitive e c)
    then show ?thesis using archive_primitive [of e c x a] less by simp
  next
    case (Composite e ob ps ks kis lk)
    have w: "wf_meta (prop_type (ps ! i))" "typed (prop_type (ps ! i)) x (a + prop_offset (ps ! i))" if "i < length ps" for i
      using less.prems that wf_props unfolding Composite agree.simps by (blast, metis)
    have p: "archive_to W (prop_type (ps ! i)) x (a + prop_offset (ps ! i)) = liftW (put (tree (prop_type (ps ! i)) x (a + prop_offset (ps ! i))))"
      if "i < length ps" for i
      using less.hyps [OF _ w [OF that]] prop_smaller [of "ps ! i" ps] that unfolding Composite by simp
    show ?thesis
    proof (cases ob)
      case True
      then show ?thesis using archive_object [OF p] less.prems(1) Composite by simp
    next
      case False
      have "tree (prop_type (ps ! i)) x (a + prop_offset (ps ! i)) = VNil"
        if "i < length ps" "opt_empty (prop_type (ps ! i)) x (a + prop_offset (ps ! i))" for i
        using opt_empty_tree [OF w(1) [OF that(1)] _ w(2) [OF that(1)]] that(2) by (auto simp only: opt_empty_def)
      then show ?thesis using archive_tuple [OF p] Composite False by simp
    qed
  qed
qed

end
section \<open>Memory\<close>

text \<open>Reading into an object changes nothing outside of it.\<close>

definition same_outside :: "nat \<Rightarrow> nat \<Rightarrow> mem \<Rightarrow> mem \<Rightarrow> bool" where
  "same_outside b n y y' \<longleftrightarrow> (\<forall>z. z < b \<or> b + n \<le> z \<longrightarrow> y' z = y z)"

lemma same_outside_refl: "same_outside b n y y"
  by (simp add: same_outside_def)

lemma same_outside_upd: "n > 0 \<Longrightarrow> same_outside b n y (y(b := c))"
  by (simp add: same_outside_def)

lemma same_outside_trans:
  "same_outside b n y y' \<Longrightarrow> same_outside (b + k) m y' y'' \<Longrightarrow> k + m \<le> n \<Longrightarrow> same_outside b n y y''"
  by (simp add: same_outside_def)

text \<open>Contents and readiness depend on the object's own cells only.\<close>

definition inside_eq :: "nat \<Rightarrow> nat \<Rightarrow> mem \<Rightarrow> mem \<Rightarrow> bool" where
  "inside_eq b n y y' \<longleftrightarrow> (\<forall>z. b \<le> z \<and> z < b + n \<longrightarrow> y' z = y z)"

lemma inside_eq_sub: "inside_eq b n y y' \<Longrightarrow> k + m \<le> n \<Longrightarrow> inside_eq (b + k) m y y'"
  by (simp add: inside_eq_def)

lemma inside_eq_outside: "same_outside b n y y' \<Longrightarrow> c + m \<le> b \<or> b + n \<le> c \<Longrightarrow> inside_eq c m y y'"
  by (auto simp: inside_eq_def same_outside_def)

lemma array_elem_inside: "i < e div n \<Longrightarrow> i * n + n \<le> (e :: nat)"
proof -
  assume "i < e div n"
  then have "Suc i * n \<le> (e div n) * n" by (intro mult_le_mono1) simp
  also have "\<dots> \<le> e" by (metis div_times_less_eq_dividend)
  finally show ?thesis by simp
qed

definition moved :: "nat \<Rightarrow> mem \<Rightarrow> nat \<Rightarrow> mem \<Rightarrow> nat \<Rightarrow> bool" where
  "moved n y b y' b' \<longleftrightarrow> (\<forall>z < n. y' (b' + z) = y (b + z))"

lemma moved_sub: "moved n y b y' b' \<Longrightarrow> k + m \<le> n \<Longrightarrow> moved m y (b + k) y' (b' + k)"
  by (auto simp: moved_def add.assoc)

lemma moved_same:
  "wf_meta m \<Longrightarrow> moved (m_extent m) y b y' b' \<Longrightarrow> agree m x a y' b' = agree m x a y b \<and> blank m y' b' = blank m y b"
proof (induction "size_class.size m" arbitrary: m a b b' rule: less_induct)
  case less
  show ?case
  proof (cases m)
    case (Primitive e c)
    then have e: "e > 0" "moved e y b y' b'" using less.prems by simp_all
    then have yb: "y' b' = y b" by (auto simp: moved_def dest: spec [of _ 0])
    show ?thesis
    proof (cases c)
      case (C_array m')
      have "agree m' x (a + i * m_extent m') y' (b' + i * m_extent m') = agree m' x (a + i * m_extent m') y (b + i * m_extent m')
          \<and> blank m' y' (b' + i * m_extent m') = blank m' y (b + i * m_extent m')" if "i < e div m_extent m'" for i
      proof (rule less.hyps)
        show "moved (m_extent m') y (b + i * m_extent m') y' (b' + i * m_extent m')" using e(2) array_elem_inside [OF that] by (rule moved_sub)
      qed (use less.prems(1) Primitive C_array in simp_all)
      then show ?thesis using Primitive C_array by simp
    qed (simp_all add: Primitive yb)
  next
    case (Composite e ob ps ks kis lk)
    have "agree (prop_type (ps ! i)) x (a + prop_offset (ps ! i)) y' (b' + prop_offset (ps ! i)) = agree (prop_type (ps ! i)) x (a + prop_offset (ps ! i)) y (b + prop_offset (ps ! i))
        \<and> blank (prop_type (ps ! i)) y' (b' + prop_offset (ps ! i)) = blank (prop_type (ps ! i)) y (b + prop_offset (ps ! i))"
      if i: "i < length ps" for i
    proof (rule less.hyps)
      show "size_class.size (prop_type (ps ! i)) < size_class.size m" unfolding Composite by (rule prop_smaller) (use i in simp)
      show "wf_meta (prop_type (ps ! i))" using less.prems(1) wf_props i unfolding Composite by blast
      have "prop_offset (ps ! i) + m_extent (prop_type (ps ! i)) \<le> e" using less.prems(1) i Composite by (simp add: laid_out_def)
      then show "moved (m_extent (prop_type (ps ! i))) y (b + prop_offset (ps ! i)) y' (b' + prop_offset (ps ! i))"
        using less.prems(2) Composite moved_sub by simp
    qed
    then show ?thesis unfolding Composite agree.simps blank.simps by simp
  qed
qed

lemma frame_same:
  "wf_meta m \<Longrightarrow> inside_eq b (m_extent m) y y' \<Longrightarrow> agree m x a y' b = agree m x a y b \<and> blank m y' b = blank m y b"
  by (rule moved_same) (auto simp: moved_def inside_eq_def)

text \<open>A value-initialised object: what \<open>T {}\<close> holds where the type has no initialisers of its own.\<close>

function fresh :: "meta \<Rightarrow> mem" and fresh_control :: "control \<Rightarrow> mem" where
  "fresh (Primitive e c) z = fresh_control c z"
| "fresh (Composite e ob ps ks kis lk) z =
     (case find (\<lambda>i. prop_offset (ps ! i) \<le> z \<and> z < prop_offset (ps ! i) + m_extent (prop_type (ps ! i))) [0..<length ps] of
        None \<Rightarrow> None
      | Some i \<Rightarrow> if i < length ps then fresh (prop_type (ps ! i)) (z - prop_offset (ps ! i)) else None)"
| "fresh_control (C_array m) z = fresh m (z mod m_extent m)"
| "fresh_control (C_list m) z = Some (D_list [])"
| "fresh_control (C_front_list m) z = Some (D_list [])"
| "fresh_control (C_dict m) z = Some (D_dict [])"
| "fresh_control (C_opt m) z = Some (D_opt None)"
| "fresh_control C_null z = Some D_null"
| "fresh_control C_bool z = Some (D_bool False)"
| "fresh_control (C_int w) z = Some (D_int 0)"
| "fresh_control (C_uint w) z = Some (D_uint 0)"
| "fresh_control C_float z = Some (D_float 0)"
| "fresh_control C_double z = Some (D_double 0)"
| "fresh_control C_string z = Some (D_str [])"
  by pat_completeness auto
termination
  by (relation "measure (\<lambda>x. case x of Inl (m, _) \<Rightarrow> size_class.size m | Inr (c, _) \<Rightarrow> size_class.size c)")
    (use prop_smaller in \<open>simp_all del: meta.size(4)\<close>)

lemma fresh_prop:
  assumes l: "laid_out e ps" and i: "i < length ps" and z: "z < m_extent (prop_type (ps ! i))"
  shows "fresh (Composite e ob ps ks kis lk) (prop_offset (ps ! i) + z) = fresh (prop_type (ps ! i)) z"
proof -
  let ?in = "\<lambda>j. prop_offset (ps ! j) \<le> prop_offset (ps ! i) + z \<and> prop_offset (ps ! i) + z < prop_offset (ps ! j) + m_extent (prop_type (ps ! j))"
  have only: "j = i" if "j < length ps" "?in j" for j
  proof (rule ccontr)
    assume "j \<noteq> i"
    then have "prop_offset (ps ! j) + m_extent (prop_type (ps ! j)) \<le> prop_offset (ps ! i)
        \<or> prop_offset (ps ! i) + m_extent (prop_type (ps ! i)) \<le> prop_offset (ps ! j)"
      using l i that(1) by (simp add: laid_out_def)
    then show False using that(2) z by arith
  qed
  have "find ?in [0..<length ps] = Some i"
  proof (cases "find ?in [0..<length ps]")
    case None
    moreover have "i \<in> set [0..<length ps]" using i by simp
    ultimately have "\<not> ?in i" unfolding find_None_iff by blast
    then show ?thesis using z by simp
  next
    case (Some j)
    then show ?thesis using only [of j] unfolding find_Some_iff by auto
  qed
  then show ?thesis using i by simp
qed

lemma fresh_blank: "wf_meta m \<Longrightarrow> blank m (fresh m) 0"
proof (induction "size_class.size m" arbitrary: m rule: less_induct)
  case less
  show ?case
  proof (cases m)
    case (Primitive e c)
    show ?thesis
    proof (cases c)
      case (C_array m')
      have w: "wf_meta m'" "blank m' (fresh m') 0" using less Primitive C_array by simp_all
      have "blank m' (fresh m) (i * m_extent m')" for i
        using moved_same [OF w(1), of "fresh m'" 0 "fresh m" "i * m_extent m'"] w(2) Primitive C_array by (simp add: moved_def)
      then show ?thesis using Primitive C_array by simp
    qed (simp_all add: Primitive)
  next
    case (Composite e ob ps ks kis lk)
    have l: "laid_out e ps" using less.prems Composite by simp
    have "blank (prop_type (ps ! i)) (fresh m) (0 + prop_offset (ps ! i))" if i: "i < length ps" for i
    proof -
      have w: "wf_meta (prop_type (ps ! i))" using less.prems wf_props i unfolding Composite by blast
      have "blank (prop_type (ps ! i)) (fresh (prop_type (ps ! i))) 0"
        by (rule less.hyps [OF _ w]) (use prop_smaller [of "ps ! i" ps] i in \<open>simp add: Composite\<close>)
      moreover have "moved (m_extent (prop_type (ps ! i))) (fresh (prop_type (ps ! i))) 0 (fresh m) (0 + prop_offset (ps ! i))"
        using fresh_prop [OF l i] unfolding Composite moved_def by simp
      ultimately show ?thesis using moved_same [OF w] by blast
    qed
    then show ?thesis unfolding Composite blank.simps by simp
  qed
qed

text \<open>Objects side by side: what \<open>i\<close> points to lies at \<open>off i\<close> and has the type \<open>mt i\<close>.\<close>

definition apart :: "(nat \<Rightarrow> nat) \<Rightarrow> (nat \<Rightarrow> meta) \<Rightarrow> nat \<Rightarrow> nat \<Rightarrow> bool" where
  "apart off mt i j \<longleftrightarrow> off i + m_extent (mt i) \<le> off j \<or> off j + m_extent (mt j) \<le> off i"

definition slots_only :: "nat \<Rightarrow> (nat \<Rightarrow> nat) \<Rightarrow> (nat \<Rightarrow> meta) \<Rightarrow> nat set \<Rightarrow> mem \<Rightarrow> mem \<Rightarrow> bool" where
  "slots_only b off mt T y y' \<longleftrightarrow> (\<forall>z. (\<forall>i \<in> T. z < b + off i \<or> b + off i + m_extent (mt i) \<le> z) \<longrightarrow> y' z = y z)"

lemma slots_only_empty: "slots_only b off mt {} y y"
  by (simp add: slots_only_def)

lemma slots_only_step: "same_outside (b + off i) (m_extent (mt i)) y y' \<Longrightarrow> slots_only b off mt T y' y'' \<Longrightarrow> slots_only b off mt (insert i T) y y''"
  by (auto simp: slots_only_def same_outside_def)

lemma slots_only_inside: "slots_only b off mt T y y' \<Longrightarrow> \<forall>i \<in> T. apart off mt i j \<Longrightarrow> inside_eq (b + off j) (m_extent (mt j)) y y'"
proof (unfold inside_eq_def, intro allI impI)
  fix z assume s: "slots_only b off mt T y y'" "\<forall>i \<in> T. apart off mt i j" and z: "b + off j \<le> z \<and> z < b + off j + m_extent (mt j)"
  have "z < b + off i \<or> b + off i + m_extent (mt i) \<le> z" if "i \<in> T" for i
    using s(2) [rule_format, OF that] z unfolding apart_def by arith
  then show "y' z = y z" using s(1) unfolding slots_only_def by blast
qed

lemma slots_only_outside: "slots_only b off mt T y y' \<Longrightarrow> \<forall>i \<in> T. off i + m_extent (mt i) \<le> n \<Longrightarrow> same_outside b n y y'"
proof (unfold same_outside_def, intro allI impI)
  fix z assume s: "slots_only b off mt T y y'" "\<forall>i \<in> T. off i + m_extent (mt i) \<le> n" and z: "z < b \<or> b + n \<le> z"
  have "z < b + off i \<or> b + off i + m_extent (mt i) \<le> z" if "i \<in> T" for i using s(2) [rule_format, OF that] z by arith
  then show "y' z = y z" using s(1) unfolding slots_only_def by blast
qed

lemma apart_same:
  assumes "wf_meta (mt j)" "apart off mt i j" "same_outside (b + off i) (m_extent (mt i)) y y'"
  shows "agree (mt j) x a y' (b + off j) = agree (mt j) x a y (b + off j)" "blank (mt j) y' (b + off j) = blank (mt j) y (b + off j)"
proof -
  have "inside_eq (b + off j) (m_extent (mt j)) y y'"
    using assms(2,3) by (intro inside_eq_outside) (auto simp: apart_def)
  from frame_same [OF assms(1) this]
  show "agree (mt j) x a y' (b + off j) = agree (mt j) x a y (b + off j)" "blank (mt j) y' (b + off j) = blank (mt j) y (b + off j)" by blast+
qed

section \<open>Reading the tree\<close>

text \<open>What a reader has still to read, from the innermost open container outwards; \<open>'k\<close> is the context key with which
  the container was entered.\<close>

datatype 'k frame = F_root "val list" | F_arr 'k "val list" | F_obj 'k "(byte list \<times> val) list"
  | F_key 'k "(byte list \<times> val) list" | F_val 'k val "(byte list \<times> val) list"

fun next_value :: "'k frame list \<Rightarrow> (val \<times> 'k frame list) option" where
  "next_value (F_root (v # vs) # fs) = Some (v, F_root vs # fs)"
| "next_value (F_arr k (v # vs) # fs) = Some (v, F_arr k vs # fs)"
| "next_value (F_val k v es # fs) = Some (v, F_obj k es # fs)"
| "next_value _ = None"

definition goes :: "('e, 'r, 'a) call \<Rightarrow> 'r \<Rightarrow> 'a \<Rightarrow> ('r \<Rightarrow> bool) \<Rightarrow> bool" where
  "goes c r v P \<longleftrightarrow> (\<exists>r'. c r = (Inr v, r') \<and> P r')"

lemma size_in_array: "v \<in> set vs \<Longrightarrow> size_class.size v < size_class.size (VArr vs)" "length vs < size_class.size (VArr vs)"
  using size_list_estimation' [of v vs _ size_class.size] by (auto simp: size_list_conv_sum_list less_Suc_eq_le)

lemma size_in_map: "e \<in> set es \<Longrightarrow> size_class.size (snd e) < size_class.size (VMap es)" "length es < size_class.size (VMap es)"
proof -
  show "length es < size_class.size (VMap es)" by (simp add: size_list_conv_sum_list)
  assume "e \<in> set es"
  then have "size_class.size (snd e) \<le> size_list (size_prod (\<lambda>_. 0) size_class.size) es"
    by (rule size_list_estimation') (simp add: prod.size_neq size_prod_simp)
  then show "size_class.size (snd e) < size_class.size (VMap es)" by simp
qed

lemma snd_filter: "snd ` set (filter (\<lambda>(k, i). P i) ks) = {i \<in> snd ` set ks. P i}"
  by force

lemma std_sorted_distinct: "fm_sorted std_less (m :: (byte list, nat) fm) \<Longrightarrow> distinct (map fst m)"
  by (induction m) (auto simp: fm_sorted_def std_less_def)

lemma required_entries:
  assumes "key_table (length ps) ks" "\<And>i. i < length ps \<Longrightarrow> absent i \<Longrightarrow> is_optional (prop_type (ps ! i))"
  shows "length (filter (\<lambda>e. \<not> is_optional (prop_type (ps ! snd e))) (filter (\<lambda>(k, i). \<not> absent i) ks)) = required_props ps"
proof -
  let ?Q = "\<lambda>i. \<not> is_optional (prop_type (ps ! i))"
  have ms: "mset (map snd ks) = mset [0..<length ps]" using assms(1) by (simp add: key_table_def)
  from mset_eq_setD [OF this] have "snd e < length ps" if "e \<in> set ks" for e using that by force
  then have "filter (\<lambda>e. ?Q (snd e)) (filter (\<lambda>(k, i). \<not> absent i) ks) = filter (\<lambda>e. ?Q (snd e)) ks"
    using assms(2) unfolding filter_filter by (intro filter_cong) auto
  then have "length (filter (\<lambda>e. ?Q (snd e)) (filter (\<lambda>(k, i). \<not> absent i) ks)) = length (filter ?Q (map snd ks))"
    by (simp add: filter_map o_def)
  also have "\<dots> = size_class.size (filter_mset ?Q (mset (map snd ks)))" by (metis mset_filter size_mset)
  also have "\<dots> = length (filter ?Q [0..<length ps])" by (metis ms mset_filter size_mset)
  also have "\<dots> = length (filter (\<lambda>p. \<not> is_optional (prop_type p)) (map (\<lambda>i. ps ! i) [0..<length ps]))" by (simp add: filter_map o_def)
  finally show ?thesis by (simp add: required_props_def map_nth)
qed

locale tree_reader =
  fixes R :: "('r, 'e, 'k) reader_ops" and view :: "'r \<Rightarrow> 'k frame list \<Rightarrow> bool"
  assumes reads_string_keys: "\<not> ro_int_key R"
    and no_merge: "\<not> ro_merge R"
    and null: "view r F \<Longrightarrow> next_value F = Some (VNil, F') \<Longrightarrow> goes (ro_null R) r () (\<lambda>r. view r F')"
    and bool: "view r F \<Longrightarrow> next_value F = Some (VBool b, F') \<Longrightarrow> goes (ro_bool R) r b (\<lambda>r. view r F')"
    and int: "view r F \<Longrightarrow> next_value F = Some (VInt i, F') \<Longrightarrow> int_fits w i \<Longrightarrow> goes (ro_int R w) r i (\<lambda>r. view r F')"
    and uint: "view r F \<Longrightarrow> next_value F = Some (VUint n, F') \<Longrightarrow> uint_fits w n \<Longrightarrow> goes (ro_uint R w) r n (\<lambda>r. view r F')"
    and float: "view r F \<Longrightarrow> next_value F = Some (VFloat f, F') \<Longrightarrow> goes (ro_float R) r f (\<lambda>r. view r F')"
    and double: "view r F \<Longrightarrow> next_value F = Some (VDouble d, F') \<Longrightarrow> goes (ro_double R) r d (\<lambda>r. view r F')"
    and str: "view r F \<Longrightarrow> next_value F = Some (VStr s, F') \<Longrightarrow> goes (ro_str R) r s (\<lambda>r. view r F')"
    and type_next: "view r F \<Longrightarrow> next_value F = Some (v, F') \<Longrightarrow> \<exists>t. goes (ro_type_next R) r t (\<lambda>r. view r F)
      \<and> (t = Entity_null \<longleftrightarrow> v = VNil) \<and> (\<forall>es. v = VMap es \<longrightarrow> t \<in> {Entity_object, Entity_dictionary})"
    and begin_arr: "view r F \<Longrightarrow> next_value F = Some (VArr vs, F') \<Longrightarrow> \<exists>k. goes (ro_begin_array R) r k (\<lambda>r. view r (F_arr k vs # F'))"
    and arr_break: "view r (F_arr k vs # F) \<Longrightarrow> goes (ro_should_break R k) r (vs = []) (\<lambda>r. view r (F_arr k vs # F))"
    and arr_left: "view r (F_arr k vs # F) \<Longrightarrow> goes (ro_elem_left R) r (length vs) (\<lambda>r. view r (F_arr k vs # F))"
    and arr_end: "view r (F_arr k [] # F) \<Longrightarrow> goes (ro_end_array R k) r () (\<lambda>r. view r F)"
    and begin_obj: "view r F \<Longrightarrow> next_value F = Some (VMap es, F') \<Longrightarrow> \<exists>k. goes (ro_begin_object R) r k (\<lambda>r. view r (F_obj k es # F'))"
    and obj_break: "view r (F_obj k es # F) \<Longrightarrow> goes (ro_should_break R k) r (es = []) (\<lambda>r. view r (F_obj k es # F))"
    and obj_end: "view r (F_obj k [] # F) \<Longrightarrow> goes (ro_end_object R k) r () (\<lambda>r. view r F)"
    and key_next: "view r (F_obj k (e # es) # F) \<Longrightarrow> goes (ro_key_next R) r () (\<lambda>r. view r (F_key k (e # es) # F))"
    and key_str: "view r (F_key k ((s, v) # es) # F) \<Longrightarrow> goes (ro_str R) r s (\<lambda>r. view r (F_val k v es # F))"
begin

lemma liftR_goes: "goes c r v P \<Longrightarrow> \<exists>r'. liftR c (r, y) = (Inr v, r', y) \<and> P r'"
  by (auto simp: goes_def liftR_def)

lemma liftR_step: "goes c r v P \<Longrightarrow> (\<And>r'. P r' \<Longrightarrow> Q (f v (r', y))) \<Longrightarrow> Q (seqE (liftR c) f (r, y))"
  by (auto simp: goes_def liftR_def seqE_def)

definition restores :: "(meta \<Rightarrow> mem) \<Rightarrow> nat \<Rightarrow> meta \<Rightarrow> bool" where
  "restores dflt k m \<longleftrightarrow> (\<forall>x a r y b F F'. typed m x a \<longrightarrow> \<not> opt_empty m x a \<longrightarrow> blank m y b \<longrightarrow> view r F \<longrightarrow> next_value F = Some (tree m x a, F') \<longrightarrow>
     size_class.size (tree m x a) < k \<longrightarrow>
     (\<exists>r' y'. restore_from R dflt k m b (r, y) = (Inr (), r', y') \<and> view r' F' \<and> agree m x a y' b \<and> same_outside b (m_extent m) y y'))"

lemma restores_elem:
  assumes "restores dflt k m \<and> \<not> is_optional m" "blank m (dflt m) 0" "typed m e 0" "size_class.size (tree m e 0) < k"
    and "view r F" "next_value F = Some (tree m e 0, F')"
  obtains r' g where "restore_from R dflt k m 0 (r, dflt m) = (Inr (), r', g)" "view r' F'" "agree m e 0 g 0"
  using assms unfolding restores_def opt_empty_def by blast

lemma list_loop:
  assumes m: "restores dflt k m \<and> \<not> is_optional m" "blank m (dflt m) 0"
  shows "\<forall>e \<in> set es. typed m e 0 \<and> size_class.size (tree m e 0) < k \<Longrightarrow> length es < j \<Longrightarrow>
    view r (F_arr key (map (\<lambda>e. tree m e 0) es) # F) \<Longrightarrow> y b = Some (D_list fs) \<Longrightarrow>
    \<exists>r' gs. while_reading j (liftR (ro_should_break R key)) (read_back b (restore_from R dflt k m 0) (dflt m)) n (r, y)
        = (Inr n, r', y(b \<mapsto> D_list (fs @ gs)))
      \<and> view r' (F_arr key [] # F) \<and> list_all2 (\<lambda>e g. agree m e 0 g 0) es gs"
proof (induction es arbitrary: j r y fs)
  case Nil
  then obtain i where "j = Suc i" by (cases j) auto
  moreover obtain r' where "liftR (ro_should_break R key) (r, y) = (Inr True, r', y)" "view r' (F_arr key [] # F)"
    using liftR_goes [OF arr_break] Nil.prems(3) by fastforce
  moreover have "y(b \<mapsto> D_list (fs @ [])) = y" using Nil.prems(4) by (simp add: fun_upd_idem)
  ultimately show ?case by (intro exI [where x = r'] exI [where x = "[]"]) (simp add: seqE_def retE_def)
next
  case (Cons e es)
  then obtain i where j: "j = Suc i" "length es < i" by (cases j) auto
  obtain r1 where 1: "liftR (ro_should_break R key) (r, y) = (Inr False, r1, y)" "view r1 (F_arr key (map (\<lambda>e. tree m e 0) (e # es)) # F)"
    using liftR_goes [OF arr_break [OF Cons.prems(3)]] by auto
  obtain r2 g where 2: "restore_from R dflt k m 0 (r1, dflt m) = (Inr (), r2, g)" "view r2 (F_arr key (map (\<lambda>e. tree m e 0) es) # F)"
    "agree m e 0 g 0"
    by (rule restores_elem [OF m _ _ 1(2)]) (use Cons.prems(1) in auto)
  let ?y = "y(b \<mapsto> D_list (fs @ [g]))"
  have "?y b = Some (D_list (fs @ [g]))" by simp
  moreover have "\<forall>e \<in> set es. typed m e 0 \<and> size_class.size (tree m e 0) < k" using Cons.prems(1) by simp
  ultimately obtain r' gs where 3: "while_reading i (liftR (ro_should_break R key)) (read_back b (restore_from R dflt k m 0) (dflt m)) n (r2, ?y)
      = (Inr n, r', ?y(b \<mapsto> D_list ((fs @ [g]) @ gs)))"
    "view r' (F_arr key [] # F)" "list_all2 (\<lambda>e g. agree m e 0 g 0) es gs"
    using Cons.IH [where y = ?y and fs = "fs @ [g]", OF _ j(2) 2(2)] by blast
  have "read_back b (restore_from R dflt k m 0) (dflt m) n (r1, y) = (Inr n, r2, ?y)"
    using 2(1) Cons.prems(4) by (simp add: read_back_def seqE_def peek_def inside_def retE_def)
  moreover have "?y(b \<mapsto> D_list ((fs @ [g]) @ gs)) = y(b \<mapsto> D_list (fs @ g # gs))" by simp
  ultimately have "while_reading j (liftR (ro_should_break R key)) (read_back b (restore_from R dflt k m 0) (dflt m)) n (r, y)
      = (Inr n, r', y(b \<mapsto> D_list (fs @ g # gs)))"
    using 1(1) 3(1) by (simp add: j seqE_def)
  moreover have "list_all2 (\<lambda>e g. agree m e 0 g 0) (e # es) (g # gs)" using 2(3) 3(3) by simp
  ultimately show ?case using 3(2) by blast
qed

text \<open>The entries of a map arrive in the order of the keys.\<close>

lemma dict_emplace_last: "\<forall>p \<in> set ds. fst p < k \<Longrightarrow> dict_emplace k x ds = ds @ [(k, x)]"
  by (induction ds) auto

lemma dict_loop:
  assumes m: "restores dflt k m \<and> \<not> is_optional m" "blank m (dflt m) 0"
  shows "\<forall>e \<in> set es. typed m (snd e) 0 \<and> size_class.size (tree m (snd e) 0) < k \<Longrightarrow> length es < j \<Longrightarrow>
    view r (F_obj key (map (\<lambda>e. (fst e, tree m (snd e) 0)) es) # F) \<Longrightarrow> y b = Some (D_dict ds) \<Longrightarrow>
    sorted_wrt (<) (map fst (ds @ es)) \<Longrightarrow>
    \<exists>r' gs. while_reading j (liftR (ro_should_break R key)) (read_entry R b (restore_from R dflt k m 0) (dflt m)) n (r, y)
        = (Inr n, r', y(b \<mapsto> D_dict (ds @ gs)))
      \<and> view r' (F_obj key [] # F) \<and> list_all2 (\<lambda>e g. fst e = fst g \<and> agree m (snd e) 0 (snd g) 0) es gs"
proof (induction es arbitrary: j r y ds)
  case Nil
  then obtain i where "j = Suc i" by (cases j) auto
  moreover obtain r' where "liftR (ro_should_break R key) (r, y) = (Inr True, r', y)" "view r' (F_obj key [] # F)"
    using liftR_goes [OF obj_break] Nil.prems(3) by fastforce
  moreover have "y(b \<mapsto> D_dict (ds @ [])) = y" using Nil.prems(4) by (simp add: fun_upd_idem)
  ultimately show ?case by (intro exI [where x = r'] exI [where x = "[]"]) (simp add: seqE_def retE_def)
next
  case (Cons e es)
  then obtain i where j: "j = Suc i" "length es < i" by (cases j) auto
  let ?rest = "map (\<lambda>e. (fst e, tree m (snd e) 0)) es"
  obtain r1 where 1: "liftR (ro_should_break R key) (r, y) = (Inr False, r1, y)" "view r1 (F_obj key ((fst e, tree m (snd e) 0) # ?rest) # F)"
    using liftR_goes [OF obj_break [OF Cons.prems(3)]] by auto
  obtain r2 where 2: "liftR (ro_key_next R) (r1, y) = (Inr (), r2, y)" "view r2 (F_key key ((fst e, tree m (snd e) 0) # ?rest) # F)"
    using liftR_goes [OF key_next [OF 1(2)]] by blast
  obtain r3 where 3: "liftR (ro_str R) (r2, y) = (Inr (fst e), r3, y)" "view r3 (F_val key (tree m (snd e) 0) ?rest # F)"
    using liftR_goes [OF key_str [OF 2(2)]] by blast
  obtain r4 g where 4: "restore_from R dflt k m 0 (r3, dflt m) = (Inr (), r4, g)" "view r4 (F_obj key ?rest # F)" "agree m (snd e) 0 g 0"
    by (rule restores_elem [OF m _ _ 3(2)]) (use Cons.prems(1) in auto)
  have em: "dict_emplace (fst e) g ds = ds @ [(fst e, g)]"
    using Cons.prems(5) by (intro dict_emplace_last) (simp add: sorted_wrt_append)
  let ?y = "y(b \<mapsto> D_dict (ds @ [(fst e, g)]))"
  have "read_entry R b (restore_from R dflt k m 0) (dflt m) n (r1, y) = (Inr n, r4, ?y)"
    using 2(1) 3(1) 4(1) Cons.prems(4) em by (simp add: read_entry_def seqE_def peek_def)
  moreover have "?y b = Some (D_dict (ds @ [(fst e, g)]))" by simp
  moreover have "\<forall>e \<in> set es. typed m (snd e) 0 \<and> size_class.size (tree m (snd e) 0) < k" using Cons.prems(1) by simp
  moreover have "sorted_wrt (<) (map fst ((ds @ [(fst e, g)]) @ es))" using Cons.prems(5) by simp
  ultimately obtain r' gs where "while_reading i (liftR (ro_should_break R key)) (read_entry R b (restore_from R dflt k m 0) (dflt m)) n (r4, ?y)
      = (Inr n, r', ?y(b \<mapsto> D_dict ((ds @ [(fst e, g)]) @ gs)))"
    "view r' (F_obj key [] # F)" "list_all2 (\<lambda>e g. fst e = fst g \<and> agree m (snd e) 0 (snd g) 0) es gs"
    "read_entry R b (restore_from R dflt k m 0) (dflt m) n (r1, y) = (Inr n, r4, ?y)"
    using Cons.IH [where y = ?y and ds = "ds @ [(fst e, g)]", OF _ j(2) 4(2)] by blast
  note 5 = this
  have "?y(b \<mapsto> D_dict ((ds @ [(fst e, g)]) @ gs)) = y(b \<mapsto> D_dict (ds @ (fst e, g) # gs))" by simp
  then have "while_reading j (liftR (ro_should_break R key)) (read_entry R b (restore_from R dflt k m 0) (dflt m)) n (r, y)
      = (Inr n, r', y(b \<mapsto> D_dict (ds @ (fst e, g) # gs)))"
    using 1(1) 5(1,4) by (simp add: j seqE_def)
  moreover have "list_all2 (\<lambda>e g. fst e = fst g \<and> agree m (snd e) 0 (snd g) 0) (e # es) ((fst e, g) # gs)" using 4(3) 5(3) by simp
  ultimately show ?case using 5(2) by blast
qed

text \<open>Objects side by side, read in order.\<close>

lemma slots_loop:
  assumes step: "\<And>i is r y. i \<in> A \<Longrightarrow> view r (F_arr key (map t (i # is)) # F) \<Longrightarrow> blank (mt i) y (b + off i) \<Longrightarrow>
      \<exists>r' y'. op i (r, y) = (Inr (), r', y') \<and> view r' (F_arr key (map t is) # F) \<and> agree (mt i) x (a + off i) y' (b + off i)
        \<and> same_outside (b + off i) (m_extent (mt i)) y y'"
    and wf: "\<And>i. i \<in> A \<Longrightarrow> wf_meta (mt i)" and apart: "\<And>i j. i \<in> A \<Longrightarrow> j \<in> A \<Longrightarrow> i \<noteq> j \<Longrightarrow> apart off mt i j"
  shows "set is \<subseteq> A \<Longrightarrow> distinct is \<Longrightarrow> \<forall>i \<in> set is. blank (mt i) y (b + off i) \<Longrightarrow> view r (F_arr key (map t is) # F) \<Longrightarrow>
    \<exists>r' y'. forE op is (r, y) = (Inr (), r', y') \<and> view r' (F_arr key [] # F)
      \<and> (\<forall>i \<in> set is. agree (mt i) x (a + off i) y' (b + off i)) \<and> slots_only b off mt (set is) y y'"
proof (induction "is" arbitrary: r y)
  case Nil
  then show ?case by (auto simp: retE_def slots_only_empty)
next
  case (Cons i "is")
  obtain r1 y1 where 1: "op i (r, y) = (Inr (), r1, y1)" "view r1 (F_arr key (map t is) # F)" "agree (mt i) x (a + off i) y1 (b + off i)"
    "same_outside (b + off i) (m_extent (mt i)) y y1"
    using step [OF _ Cons.prems(4), of y] Cons.prems(1,3) by auto
  have "blank (mt j) y1 (b + off j)" if "j \<in> set is" for j
    using apart_same(2) [OF wf apart 1(4), of j] Cons.prems that by auto
  then obtain r' y' where 2: "forE op is (r1, y1) = (Inr (), r', y')" "view r' (F_arr key [] # F)"
    "\<forall>i \<in> set is. agree (mt i) x (a + off i) y' (b + off i)" "slots_only b off mt (set is) y1 y'"
    using Cons.IH [where r = r1 and y = y1] 1(2) Cons.prems(1,2) by (metis distinct.simps(2) insert_subset list.simps(15))
  have "inside_eq (b + off i) (m_extent (mt i)) y1 y'"
    by (rule slots_only_inside [OF 2(4)]) (use Cons.prems(1,2) apart in auto)
  then have "agree (mt i) x (a + off i) y' (b + off i)" using frame_same [OF wf] 1(3) Cons.prems(1) by auto
  then show ?case using 1(1) 2 slots_only_step [where off = off and mt = mt, OF 1(4) 2(4)]
    by (intro exI [where x = r'] exI [where x = y']) (simp add: seqE_def)
qed

text \<open>The properties of an object, in the order of the entries that arrive.\<close>

lemma object_loop:
  assumes step: "\<And>i r y F F'. i \<in> A \<Longrightarrow> view r F \<Longrightarrow> next_value F = Some (t i, F') \<Longrightarrow> blank (mt i) y (b + off i) \<Longrightarrow>
      \<exists>r' y'. op i (r, y) = (Inr (), r', y') \<and> view r' F' \<and> agree (mt i) x (a + off i) y' (b + off i)
        \<and> same_outside (b + off i) (m_extent (mt i)) y y'"
    and wf: "\<And>i. i \<in> A \<Longrightarrow> wf_meta (mt i)" and apart: "\<And>i j. i \<in> A \<Longrightarrow> j \<in> A \<Longrightarrow> i \<noteq> j \<Longrightarrow> apart off mt i j"
    and keys: "\<And>s i. (s, i) \<in> set ls \<Longrightarrow> fm_lookup std_less s (m_keys m) = Some i"
  shows "set ms \<subseteq> set ls \<Longrightarrow> snd ` set ms \<subseteq> A \<Longrightarrow> distinct (map snd ms) \<Longrightarrow> length ms < j \<Longrightarrow>
    \<forall>i \<in> snd ` set ms. blank (mt i) y (b + off i) \<Longrightarrow> view r (F_obj key (map (\<lambda>e. (fst e, t (snd e))) ms) # F) \<Longrightarrow>
    \<exists>r' y'. while_reading j (liftR (ro_should_break R key)) (read_property R m key op) n (r, y)
        = (Inr (n + (if ro_allow_missing R then 0 else length (filter (\<lambda>e. \<not> is_optional (prop_type (m_props m ! snd e))) ms))), r', y')
      \<and> view r' (F_obj key [] # F) \<and> (\<forall>i \<in> snd ` set ms. agree (mt i) x (a + off i) y' (b + off i))
      \<and> slots_only b off mt (snd ` set ms) y y'"
proof (induction ms arbitrary: j r y n)
  case Nil
  then obtain k where "j = Suc k" by (cases j) auto
  moreover obtain r' where "liftR (ro_should_break R key) (r, y) = (Inr True, r', y)" "view r' (F_obj key [] # F)"
    using liftR_goes [OF obj_break] Nil.prems(6) by fastforce
  ultimately show ?case by (intro exI [where x = r'] exI [where x = y]) (simp add: seqE_def retE_def slots_only_empty)
next
  case (Cons e ms)
  obtain s i where e: "e = (s, i)" by (cases e)
  obtain k where j: "j = Suc k" "length ms < k" using Cons.prems(4) by (cases j) auto
  let ?rest = "map (\<lambda>e. (fst e, t (snd e))) ms"
  have i: "i \<in> A" "i \<notin> snd ` set ms" "blank (mt i) y (b + off i)" "fm_lookup std_less s (m_keys m) = Some i"
    using Cons.prems(1-3,5) e keys by auto
  obtain r1 where 1: "liftR (ro_should_break R key) (r, y) = (Inr False, r1, y)" "view r1 (F_obj key ((s, t i) # ?rest) # F)"
    using liftR_goes [OF obj_break [OF Cons.prems(6)]] e by auto
  obtain r2 where 2: "liftR (ro_key_next R) (r1, y) = (Inr (), r2, y)" "view r2 (F_key key ((s, t i) # ?rest) # F)"
    using liftR_goes [OF key_next [OF 1(2)]] by blast
  have found: "goes (read_index R m) r2 (Some i) (\<lambda>r. view r (F_val key (t i) ?rest # F))"
    using key_str [OF 2(2)] reads_string_keys i(4) by (auto simp: goes_def read_index_def seqE_def retE_def)
  obtain r3 where 3: "liftR (read_index R m) (r2, y) = (Inr (Some i), r3, y)" "view r3 (F_val key (t i) ?rest # F)"
    using liftR_goes [OF found, of y] by blast
  obtain r4 y4 where 4: "op i (r3, y) = (Inr (), r4, y4)" "view r4 (F_obj key ?rest # F)" "agree (mt i) x (a + off i) y4 (b + off i)"
    "same_outside (b + off i) (m_extent (mt i)) y y4"
    using step [OF i(1) 3(2) _ i(3), of "F_obj key ?rest # F"] by (auto simp del: fun_upd_apply)
  let ?n = "if \<not> ro_allow_missing R \<and> \<not> is_optional (prop_type (m_props m ! i)) then n + 1 else n"
  have body: "read_property R m key op n (r1, y) = (Inr ?n, r4, y4)"
    using 2(1) 3(1) 4(1) by (simp add: read_property_def seqE_def retE_def)
  have "blank (mt l) y4 (b + off l)" if "l \<in> snd ` set ms" for l
  proof -
    have l: "l \<in> A" "l \<noteq> i" using that i(2) Cons.prems(2) by auto
    have "blank (mt l) y (b + off l)" using Cons.prems(5) that by auto
    then show ?thesis using apart_same(2) [OF wf [OF l(1)] apart [OF i(1) l(1)] 4(4)] l(2) by simp
  qed
  moreover have sub: "set ms \<subseteq> set ls" "snd ` set ms \<subseteq> A" "distinct (map snd ms)" using Cons.prems(1-3) by simp_all
  ultimately obtain r' y' where 5: "while_reading k (liftR (ro_should_break R key)) (read_property R m key op) ?n (r4, y4)
      = (Inr (?n + (if ro_allow_missing R then 0 else length (filter (\<lambda>e. \<not> is_optional (prop_type (m_props m ! snd e))) ms))), r', y')"
    "view r' (F_obj key [] # F)" "\<forall>i \<in> snd ` set ms. agree (mt i) x (a + off i) y' (b + off i)" "slots_only b off mt (snd ` set ms) y4 y'"
    using Cons.IH [OF _ _ _ j(2) _ 4(2), of y4 ?n] sub by blast
  have "\<forall>l \<in> snd ` set ms. apart off mt l i"
  proof
    fix l assume "l \<in> snd ` set ms"
    then show "apart off mt l i" using i(1,2) sub(2) by (intro apart) auto
  qed
  then have "inside_eq (b + off i) (m_extent (mt i)) y4 y'" using slots_only_inside [OF 5(4)] by blast
  then have "agree (mt i) x (a + off i) y' (b + off i)" using frame_same [OF wf [OF i(1)]] 4(3) by blast
  then show ?case using 1(1) body 5 slots_only_step [where off = off and mt = mt, OF 4(4) 5(4)]
    by (intro exI [where x = r'] exI [where x = y']) (simp add: j e seqE_def)
qed

section \<open>Reading what was written\<close>

lemma goes_ret: "goes c r v P \<Longrightarrow> goes (seqE c (\<lambda>v. retE (f v))) r (f v) P"
  by (auto simp: goes_def seqE_def retE_def)

lemma goes_retI: "P r \<Longrightarrow> goes (retE v) r v P"
  by (simp add: goes_def retE_def)

lemma restore_scalar:
  assumes "goes (scalar_of R c) r d (\<lambda>r. view r F')"
  shows "\<exists>r'. read_scalar R c b (r, y) = (Inr (), r', y(b \<mapsto> d)) \<and> view r' F'"
  using liftR_goes [OF assms, of y] by (auto simp: read_scalar_def seqE_def poke_def updE_def)

abbreviation restored where
  "restored k dflt m x a F' b r y \<equiv> (\<exists>r' y'. restore_from R dflt k m b (r, y) = (Inr (), r', y')
     \<and> view r' F' \<and> agree m x a y' b \<and> same_outside b (m_extent m) y y')"

lemma scalar_restored:
  assumes "restore_control R dflt k e c b = read_scalar R c b" "goes (scalar_of R c) r d (\<lambda>r. view r F')"
    and "agree_control e c x a (y(b \<mapsto> d)) b" "e > 0"
  shows "restored k dflt (Primitive e c) x a F' b r y"
  using restore_scalar [OF assms(2), of b y] assms(1,3,4) same_outside_upd by fastforce

lemma list_restored:
  assumes m: "restores dflt k m \<and> \<not> is_optional m" "blank m (dflt m) 0"
    and t: "typed (Primitive e (C_list m)) x a" and y: "blank (Primitive e (C_list m)) y b" and e: "e > 0"
    and v: "view r F" "next_value F = Some (tree (Primitive e (C_list m)) x a, F')" "size_class.size (tree (Primitive e (C_list m)) x a) < k"
  shows "restored k dflt (Primitive e (C_list m)) x a F' b r y"
proof -
  obtain es where es: "x a = Some (D_list es)" "\<forall>u \<in> set es. typed m u 0" using t by (auto simp: list_all2_same)
  obtain fs where fs: "y b = Some (D_list fs)" using y by auto
  let ?vs = "map (\<lambda>u. tree m u 0) es"
  have size: "\<forall>u \<in> set es. size_class.size (tree m u 0) < k" "length es < k"
    using v(3) es(1) size_in_array(2) [of ?vs] size_in_array(1) [of _ ?vs] by fastforce+
  obtain key r1 where 1: "liftR (ro_begin_array R) (r, y(b \<mapsto> D_list [])) = (Inr key, r1, y(b \<mapsto> D_list []))" "view r1 (F_arr key ?vs # F')"
    using begin_arr [OF v(1)] v(2) es(1) liftR_goes by fastforce
  obtain r2 where 2: "liftR (ro_elem_left R) (r1, y(b \<mapsto> D_list [])) = (Inr (length ?vs), r2, y(b \<mapsto> D_list []))" "view r2 (F_arr key ?vs # F')"
    using liftR_goes [OF arr_left [OF 1(2)]] by blast
  have "\<forall>u \<in> set es. typed m u 0 \<and> size_class.size (tree m u 0) < k" using es(2) size(1) by blast
  from list_loop [OF m this size(2) 2(2), where y = "y(b \<mapsto> D_list [])" and b = b and fs = "[]" and n = 0]
  obtain r3 gs where 3: "while_reading k (liftR (ro_should_break R key)) (read_back b (restore_from R dflt k m 0) (dflt m)) 0 (r2, y(b \<mapsto> D_list []))
      = (Inr 0, r3, y(b \<mapsto> D_list gs))" "view r3 (F_arr key [] # F')" "list_all2 (\<lambda>u g. agree m u 0 g 0) es gs"
    by auto
  obtain r4 where 4: "liftR (ro_end_array R key) (r3, y(b \<mapsto> D_list gs)) = (Inr (), r4, y(b \<mapsto> D_list gs))" "view r4 F'"
    using liftR_goes [OF arr_end [OF 3(2)]] by blast
  have "restore_from R dflt k (Primitive e (C_list m)) b (r, y) = (Inr (), r4, y(b \<mapsto> D_list gs))"
    using fs no_merge 1(1) 2(1) 3(1) 4(1) by (simp add: read_list_def seqE_def peek_def poke_def updE_def)
  moreover have "agree (Primitive e (C_list m)) x a (y(b \<mapsto> D_list gs)) b" using es(1) 3(3) by simp
  ultimately show ?thesis using 4(2) same_outside_upd [OF e] by (metis meta.sel(1))
qed

lemma dict_restored:
  assumes m: "restores dflt k m \<and> \<not> is_optional m" "blank m (dflt m) 0"
    and t: "typed (Primitive e (C_dict m)) x a" and y: "blank (Primitive e (C_dict m)) y b" and e: "e > 0"
    and v: "view r F" "next_value F = Some (tree (Primitive e (C_dict m)) x a, F')" "size_class.size (tree (Primitive e (C_dict m)) x a) < k"
  shows "restored k dflt (Primitive e (C_dict m)) x a F' b r y"
proof -
  obtain es where es: "x a = Some (D_dict es)" "\<forall>u \<in> set es. typed m (snd u) 0" "sorted_wrt (<) (map fst es)"
    using t by (auto simp: list_all2_same)
  obtain fs where fs: "y b = Some (D_dict fs)" using y by auto
  let ?vs = "map (\<lambda>u. (fst u, tree m (snd u) 0)) es"
  have tr: "tree (Primitive e (C_dict m)) x a = VMap ?vs" using es(1) by (simp add: case_prod_unfold)
  have size: "\<forall>u \<in> set es. size_class.size (tree m (snd u) 0) < k" "length es < k"
    using v(3) tr size_in_map(2) [of ?vs] size_in_map(1) [of _ ?vs] by fastforce+
  obtain key r1 where 1: "liftR (ro_begin_object R) (r, y) = (Inr key, r1, y)" "view r1 (F_obj key ?vs # F')"
  proof -
    have "next_value F = Some (VMap ?vs, F')" using v(2) tr by simp
    from begin_obj [OF v(1) this] obtain key where "goes (ro_begin_object R) r key (\<lambda>r. view r (F_obj key ?vs # F'))" by blast
    from liftR_goes [OF this] show ?thesis using that by blast
  qed
  have "\<forall>u \<in> set es. typed m (snd u) 0 \<and> size_class.size (tree m (snd u) 0) < k" using es(2) size(1) by blast
  from dict_loop [OF m this size(2) 1(2), where y = "y(b \<mapsto> D_dict [])" and b = b and ds = "[]" and n = 0] es(3)
  obtain r3 gs where 3: "while_reading k (liftR (ro_should_break R key)) (read_entry R b (restore_from R dflt k m 0) (dflt m)) 0 (r1, y(b \<mapsto> D_dict []))
      = (Inr 0, r3, y(b \<mapsto> D_dict gs))" "view r3 (F_obj key [] # F')" "list_all2 (\<lambda>u g. fst u = fst g \<and> agree m (snd u) 0 (snd g) 0) es gs"
    by auto
  obtain r4 where 4: "liftR (ro_end_object R key) (r3, y(b \<mapsto> D_dict gs)) = (Inr (), r4, y(b \<mapsto> D_dict gs))" "view r4 F'"
    using liftR_goes [OF obj_end [OF 3(2)]] by blast
  have "restore_from R dflt k (Primitive e (C_dict m)) b (r, y) = (Inr (), r4, y(b \<mapsto> D_dict gs))"
    using fs no_merge 1(1) 3(1) 4(1) by (simp add: read_dict_def seqE_def peek_def poke_def updE_def)
  moreover have "agree (Primitive e (C_dict m)) x a (y(b \<mapsto> D_dict gs)) b" using es(1,3) 3(3) by simp
  ultimately show ?thesis using 4(2) same_outside_upd [OF e] by (metis meta.sel(1))
qed

lemma opt_restored:
  assumes m: "restores dflt k m \<and> \<not> is_optional m" "blank m (dflt m) 0"
    and t: "typed (Primitive e (C_opt m)) x a" "\<not> opt_empty (Primitive e (C_opt m)) x a" and y: "blank (Primitive e (C_opt m)) y b" and e: "e > 0"
    and v: "view r F" "next_value F = Some (tree (Primitive e (C_opt m)) x a, F')" "size_class.size (tree (Primitive e (C_opt m)) x a) < k"
  shows "restored k dflt (Primitive e (C_opt m)) x a F' b r y"
proof -
  obtain u where u: "x a = Some (D_opt (Some u))" "typed m u 0" using t by (auto simp: opt_empty_def)
  have yb: "y b = Some (D_opt None)" using y by simp
  obtain r' g where 1: "restore_from R dflt k m 0 (r, dflt m) = (Inr (), r', g)" "view r' F'" "agree m u 0 g 0"
    by (rule restores_elem [OF m u(2) _ v(1)]) (use v(2,3) u(1) in auto)
  have "restore_from R dflt k (Primitive e (C_opt m)) b (r, y) = (Inr (), r', y(b \<mapsto> D_opt (Some g)))"
    using 1(1) yb by (simp add: read_optional_def seqE_def peek_def inside_def)
  moreover have "agree (Primitive e (C_opt m)) x a (y(b \<mapsto> D_opt (Some g))) b" using u(1) 1(3) by simp
  ultimately show ?thesis using 1(2) same_outside_upd [OF e] by (metis meta.sel(1))
qed

lemma array_restored:
  assumes m: "restores dflt k m \<and> \<not> is_optional m" "wf_meta m" "m_extent m > 0" "e mod m_extent m = 0"
    and t: "typed (Primitive e (C_array m)) x a" and y: "blank (Primitive e (C_array m)) y b"
    and v: "view r F" "next_value F = Some (tree (Primitive e (C_array m)) x a, F')" "size_class.size (tree (Primitive e (C_array m)) x a) < k"
  shows "restored k dflt (Primitive e (C_array m)) x a F' b r y"
proof -
  let ?n = "e div m_extent m" and ?off = "\<lambda>i. i * m_extent m"
  let ?t = "\<lambda>i. tree m x (a + ?off i)" and ?mt = "\<lambda>i::nat. m"
  let ?op = "\<lambda>i. restore_from R dflt k m (b + ?off i)"
  have size: "size_class.size (?t i) < k" if "i < ?n" for i
    using v(3) size_in_array(1) [of "?t i" "map ?t [0..<?n]"] that by simp
  obtain key r1 where 1: "liftR (ro_begin_array R) (r, y) = (Inr key, r1, y)" "view r1 (F_arr key (map ?t [0..<?n]) # F')"
  proof -
    have "next_value F = Some (VArr (map ?t [0..<?n]), F')" using v(2) by simp
    from begin_arr [OF v(1) this] obtain key where "goes (ro_begin_array R) r key (\<lambda>r. view r (F_arr key (map ?t [0..<?n]) # F'))" by blast
    from liftR_goes [OF this] show ?thesis using that by blast
  qed
  have step: "\<exists>r' y'. ?op i (r, y) = (Inr (), r', y') \<and> view r' (F_arr key (map ?t is) # F') \<and> agree m x (a + ?off i) y' (b + ?off i)
        \<and> same_outside (b + ?off i) (m_extent m) y y'"
    if "i \<in> {..<?n}" "view r (F_arr key (map ?t (i # is)) # F')" "blank m y (b + ?off i)" for i "is" r y
    using m(1) [unfolded restores_def] that t size [of i] by (simp add: opt_empty_def)
  have ap: "apart ?off ?mt i j" if "i \<noteq> j" for i j
    using that mult_le_mono1 [of "Suc i" j "m_extent m"] mult_le_mono1 [of "Suc j" i "m_extent m"]
    unfolding apart_def by (cases "i < j") (auto simp: add.commute)
  have "\<exists>r' y'. forE ?op [0..<?n] (r1, y) = (Inr (), r', y') \<and> view r' (F_arr key [] # F')
      \<and> (\<forall>i \<in> set [0..<?n]. agree m x (a + ?off i) y' (b + ?off i)) \<and> slots_only b ?off ?mt (set [0..<?n]) y y'"
    by (rule slots_loop [where A = "{..<?n}" and key = key and t = ?t and mt = ?mt and F = F'])
      (use step m(2) ap y 1(2) in auto)
  then obtain r2 y2 where 2: "forE ?op [0..<?n] (r1, y) = (Inr (), r2, y2)" "view r2 (F_arr key [] # F')"
    "\<forall>i \<in> set [0..<?n]. agree m x (a + ?off i) y2 (b + ?off i)" "slots_only b ?off ?mt (set [0..<?n]) y y2" by blast
  obtain r3 where 3: "liftR (ro_end_array R key) (r2, y2) = (Inr (), r3, y2)" "view r3 F'"
    using liftR_goes [OF arr_end [OF 2(2)]] by blast
  have "restore_from R dflt k (Primitive e (C_array m)) b (r, y) = (Inr (), r3, y2)"
    using 1(1) 2(1) 3(1) m(4) by (simp add: read_array_def seqE_def)
  moreover have "same_outside b e y y2"
    by (rule slots_only_outside [OF 2(4)]) (use array_elem_inside in auto)
  ultimately show ?thesis using 2(3) 3(2) by auto
qed

text \<open>An empty optional of a blank object is what was written as null or not at all.\<close>

lemma empty_agree: "opt_empty m x a \<Longrightarrow> blank m y b \<Longrightarrow> agree m x a y b"
  by (cases m rule: is_optional.cases) (auto simp: opt_empty_def)

lemma laid_out_apart: "laid_out e ps \<Longrightarrow> i < length ps \<Longrightarrow> j < length ps \<Longrightarrow> i \<noteq> j \<Longrightarrow>
    apart (\<lambda>i. prop_offset (ps ! i)) (\<lambda>i. prop_type (ps ! i)) i j"
  unfolding laid_out_def apart_def by blast

lemma tuple_restored:
  assumes p: "\<And>i. i < length ps \<Longrightarrow> restores dflt k (prop_type (ps ! i)) \<and> wf_meta (prop_type (ps ! i))
      \<and> typed (prop_type (ps ! i)) x (a + prop_offset (ps ! i)) \<and> blank (prop_type (ps ! i)) y (b + prop_offset (ps ! i))"
    and l: "laid_out e ps"
    and v: "view r F" "next_value F = Some (tree (Composite e False ps ks kis lk) x a, F')" "size_class.size (tree (Composite e False ps ks kis lk) x a) < k"
  shows "restored k dflt (Composite e False ps ks kis lk) x a F' b r y"
proof -
  let ?off = "\<lambda>i. prop_offset (ps ! i)" and ?mt = "\<lambda>i. prop_type (ps ! i)" and ?A = "{..<length ps}"
  let ?t = "\<lambda>i. tree (?mt i) x (a + ?off i)" and ?vs = "\<lambda>is. map (\<lambda>i. tree (prop_type (ps ! i)) x (a + prop_offset (ps ! i))) is"
  let ?restore = "\<lambda>i. if i < length ps then restore_from R dflt k (?mt i) (b + ?off i) else throwE Prop_out_of_range"
  let ?op = "\<lambda>i. seqE (if is_optional (?mt i) then liftR (ro_is_null_next R) else retE False) (\<lambda>nul. if nul then liftR (ro_null R) else ?restore i)"
  have vs: "tree (Composite e False ps ks kis lk) x a = VArr (?vs [0..<length ps])" by simp
  have size: "size_class.size (?t i) < k" if "i < length ps" for i
    using v(3) size_in_array(1) [of "?t i" "?vs [0..<length ps]"] that unfolding vs by simp
  obtain key r1 where 1: "liftR (ro_begin_array R) (r, y) = (Inr key, r1, y)" "view r1 (F_arr key (?vs [0..<length ps]) # F')"
  proof -
    from begin_arr [OF v(1)] v(2) vs obtain key where "goes (ro_begin_array R) r key (\<lambda>r. view r (F_arr key (?vs [0..<length ps]) # F'))" by fastforce
    from liftR_goes [OF this] show ?thesis using that by blast
  qed
  have step: "\<exists>r' y'. ?op i (r, y) = (Inr (), r', y') \<and> view r' (F_arr key (?vs is) # F') \<and> agree (?mt i) x (a + ?off i) y' (b + ?off i)
        \<and> same_outside (b + ?off i) (m_extent (?mt i)) y y'"
    if "i \<in> ?A" "view r (F_arr key (?vs (i # is)) # F')" "blank (?mt i) y (b + ?off i)" for i "is" r y
  proof -
    note st = that
    have i: "i < length ps" using st(1) by simp
    have nx: "next_value (F_arr key (?vs (i # is)) # F') = Some (?t i, F_arr key (?vs is) # F')" by simp
    obtain r1 nul where 1: "(if is_optional (?mt i) then liftR (ro_is_null_next R) else retE False) (r, y) = (Inr nul, r1, y)"
      "view r1 (F_arr key (?vs (i # is)) # F')" "nul \<longleftrightarrow> opt_empty (?mt i) x (a + ?off i)"
    proof (cases "is_optional (?mt i)")
      case True
      obtain t where t: "goes (ro_type_next R) r t (\<lambda>r. view r (F_arr key (?vs (i # is)) # F'))" "t = Entity_null \<longleftrightarrow> ?t i = VNil"
        using type_next [OF st(2) nx] by blast
      have "goes (ro_is_null_next R) r (t = Entity_null) (\<lambda>r. view r (F_arr key (?vs (i # is)) # F'))"
        unfolding ro_is_null_next_def by (rule goes_ret [OF t(1)])
      from liftR_goes [OF this, of y] obtain r1 where "liftR (ro_is_null_next R) (r, y) = (Inr (t = Entity_null), r1, y)"
        "view r1 (F_arr key (?vs (i # is)) # F')" by blast
      moreover have "(t = Entity_null) = opt_empty (?mt i) x (a + ?off i)"
        using opt_empty_tree [OF _ True] p [OF i] t(2) by blast
      ultimately show ?thesis using True by (intro that [of "t = Entity_null" r1]) simp_all
    next
      case False
      then show ?thesis using st(2) by (intro that [of False r]) (auto simp: retE_def opt_empty_def)
    qed
    show ?thesis
    proof (cases nul)
      case True
      then have em: "opt_empty (?mt i) x (a + ?off i)" using 1(3) by simp
      then have "?t i = VNil" using opt_empty_tree p [OF i] opt_empty_def by blast
      then have "next_value (F_arr key (?vs (i # is)) # F') = Some (VNil, F_arr key (?vs is) # F')" using nx by simp
      from liftR_goes [OF null [OF 1(2) this], of y]
      obtain r2 where "liftR (ro_null R) (r1, y) = (Inr (), r2, y)" "view r2 (F_arr key (?vs is) # F')" by blast
      then show ?thesis using 1(1) True empty_agree [OF em st(3)] by (auto simp: seqE_def intro: same_outside_refl)
    next
      case False
      then have ne: "\<not> opt_empty (?mt i) x (a + ?off i)" using 1(3) by simp
      have "restored k dflt (?mt i) x (a + ?off i) (F_arr key (?vs is) # F') (b + ?off i) r1 y"
        using p [OF i, unfolded restores_def] ne st(3) 1(2) nx size [OF i] by blast
      then show ?thesis using 1(1) False i by (auto simp: seqE_def)
    qed
  qed
  have "\<exists>r' y'. forE ?op [0..<length ps] (r1, y) = (Inr (), r', y') \<and> view r' (F_arr key [] # F')
      \<and> (\<forall>i \<in> set [0..<length ps]. agree (?mt i) x (a + ?off i) y' (b + ?off i)) \<and> slots_only b ?off ?mt (set [0..<length ps]) y y'"
    by (rule slots_loop [where A = ?A and key = key and t = ?t and mt = ?mt and F = F'])
      (use step p 1(2) laid_out_apart [OF l] in auto)
  then obtain r2 y2 where 2: "forE ?op [0..<length ps] (r1, y) = (Inr (), r2, y2)" "view r2 (F_arr key [] # F')"
    "\<forall>i \<in> set [0..<length ps]. agree (?mt i) x (a + ?off i) y2 (b + ?off i)" "slots_only b ?off ?mt (set [0..<length ps]) y y2" by blast
  obtain r3 where 3: "(if ro_allow_unknown R then retE 0 else liftR (ro_elem_left R)) (r2, y2) = (Inr 0, r3, y2)" "view r3 (F_arr key [] # F')"
    using 2(2) liftR_goes [OF arr_left [OF 2(2)], of y2] by (cases "ro_allow_unknown R") (auto simp: retE_def)
  obtain r4 where 4: "liftR (ro_end_array R key) (r3, y2) = (Inr (), r4, y2)" "view r4 F'"
    using liftR_goes [OF arr_end [OF 3(2)]] by blast
  have s1: "seqE (liftR (ro_begin_array R)) f (r, y) = f key (r1, y)" for f using 1(1) by (rule seqE_Inr)
  have s2: "seqE (forE ?op [0..<length ps]) f (r1, y) = f () (r2, y2)" for f using 2(1) by (rule seqE_Inr)
  have s3: "seqE (if ro_allow_unknown R then retE 0 else liftR (ro_elem_left R)) f (r2, y2) = f 0 (r3, y2)" for f using 3(1) by (rule seqE_Inr)
  have "restore_from R dflt k (Composite e False ps ks kis lk) b (r, y) = (Inr (), r4, y2)"
    unfolding restore_from.simps read_tuple_def s1 s2 s3 by (simp add: 4(1))
  moreover have "same_outside b e y y2"
    by (rule slots_only_outside [OF 2(4)]) (use l in \<open>auto simp: laid_out_def\<close>)
  ultimately show ?thesis using 2(3) 4(2) by (auto simp: all_conj_distrib)
qed

lemma object_restored:
  assumes p: "\<And>i. i < length ps \<Longrightarrow> restores dflt k (prop_type (ps ! i)) \<and> wf_meta (prop_type (ps ! i))
      \<and> typed (prop_type (ps ! i)) x (a + prop_offset (ps ! i)) \<and> blank (prop_type (ps ! i)) y (b + prop_offset (ps ! i))"
    and l: "laid_out e ps" and ks: "key_table (length ps) ks"
    and v: "view r F" "next_value F = Some (tree (Composite e True ps ks kis lk) x a, F')" "size_class.size (tree (Composite e True ps ks kis lk) x a) < k"
  shows "restored k dflt (Composite e True ps ks kis lk) x a F' b r y"
proof -
  let ?m = "Composite e True ps ks kis lk"
  let ?off = "\<lambda>i. prop_offset (ps ! i)" and ?mt = "\<lambda>i. prop_type (ps ! i)"
  let ?absent = "\<lambda>i. opt_empty (?mt i) x (a + ?off i)"
  let ?A = "{i. i < length ps \<and> \<not> ?absent i}" and ?ms = "filter (\<lambda>(k, i). \<not> ?absent i) ks"
  let ?t = "\<lambda>i. tree (?mt i) x (a + ?off i)"
  let ?op = "\<lambda>i. if i < length ps then restore_from R dflt k (?mt i) (b + ?off i) else throwE Prop_out_of_range"
  let ?vs = "map (\<lambda>e. (fst e, ?t (snd e))) ?ms"
  have perm: "mset (map snd ks) = mset [0..<length ps]" using ks by (simp add: key_table_def)
  from mset_eq_setD [OF this] have ix: "snd ` set ks = {..<length ps}" by auto
  have dist: "distinct (map snd ks)" using perm by (metis distinct_upt mset_eq_imp_distinct_iff)
  have "\<forall>u \<in> set ks. snd u < length ps" using ix by blast
  then have vs: "tree ?m x a = VMap ?vs" by (auto simp: case_prod_unfold)
  have sz: "size_class.size (VMap ?vs) < k" using v(3) unfolding vs .
  have A: "snd ` set ?ms = ?A" unfolding snd_filter ix by simp
  have size: "size_class.size (?t i) < k" if "i \<in> ?A" for i
  proof -
    from that A obtain u where "u \<in> set ?ms" "snd u = i" by (metis (no_types, lifting) imageE)
    then have "(fst u, ?t i) \<in> set ?vs" by force
    from less_trans [OF size_in_map(1) [OF this] sz] show ?thesis by (simp only: snd_conv)
  qed
  have len: "length ?ms < k" using less_trans [OF size_in_map(2) sz] by (simp only: length_map)
  obtain t where t: "goes (ro_type_next R) r t (\<lambda>r. view r F)" "t \<in> {Entity_object, Entity_dictionary}"
    using type_next [OF v(1,2)] vs by blast
  have "goes (ro_is_object_next R) r (t \<in> {Entity_object, Entity_dictionary}) (\<lambda>r. view r F)"
    unfolding ro_is_object_next_def by (rule goes_ret [OF t(1)])
  from liftR_goes [OF this, of y] obtain r0 where 0: "liftR (ro_is_object_next R) (r, y) = (Inr True, r0, y)" "view r0 F" using t(2) by auto
  have nx: "next_value F = Some (VMap ?vs, F')" using v(2) unfolding vs .
  obtain key where g: "goes (ro_begin_object R) r0 key (\<lambda>r. view r (F_obj key ?vs # F'))" using begin_obj [OF 0(2) nx] by blast
  obtain r1 where 1: "liftR (ro_begin_object R) (r0, y) = (Inr key, r1, y)" "view r1 (F_obj key ?vs # F')"
    using liftR_goes [OF g] by blast
  have step: "\<exists>r' y'. ?op i (r, y) = (Inr (), r', y') \<and> view r' F' \<and> agree (?mt i) x (a + ?off i) y' (b + ?off i)
        \<and> same_outside (b + ?off i) (m_extent (?mt i)) y y'"
    if "i \<in> ?A" "view r F" "next_value F = Some (?t i, F')" "blank (?mt i) y (b + ?off i)" for i r y F F'
  proof -
    have i: "i < length ps" "\<not> ?absent i" using that(1) by simp_all
    have "restored k dflt (?mt i) x (a + ?off i) F' (b + ?off i) r y"
      using p [OF i(1), unfolded restores_def] i(2) that(2-4) size [OF that(1)] by blast
    then show ?thesis using i(1) by simp
  qed
  have keys: "fm_lookup std_less s (m_keys ?m) = Some i" if "(s, i) \<in> set ks" for s i
    using ks that less.fm_lookup_map_of [of ks s] by (auto simp: key_table_def std_sorted_distinct)
  let ?n = "if ro_allow_missing R then 0 else length (filter (\<lambda>e. \<not> is_optional (prop_type (ps ! snd e))) ?ms)"
  have "\<exists>r' y'. while_reading k (liftR (ro_should_break R key)) (read_property R ?m key ?op) 0 (r1, y)
        = (Inr (0 + (if ro_allow_missing R then 0 else length (filter (\<lambda>e. \<not> is_optional (prop_type (m_props ?m ! snd e))) ?ms))), r', y')
      \<and> view r' (F_obj key [] # F') \<and> (\<forall>i \<in> snd ` set ?ms. agree (?mt i) x (a + ?off i) y' (b + ?off i))
      \<and> slots_only b ?off ?mt (snd ` set ?ms) y y'"
    by (rule object_loop [where A = ?A and ls = ks and t = ?t, OF step _ laid_out_apart [OF l] keys])
      (use p 1(2) len A dist in \<open>auto simp: distinct_map_filter\<close>)
  then obtain r2 y2 where 2: "while_reading k (liftR (ro_should_break R key)) (read_property R ?m key ?op) 0 (r1, y) = (Inr ?n, r2, y2)"
    "view r2 (F_obj key [] # F')" "\<forall>i \<in> ?A. agree (?mt i) x (a + ?off i) y2 (b + ?off i)" "slots_only b ?off ?mt ?A y y2"
    unfolding A by auto
  obtain r3 where 3: "liftR (ro_end_object R key) (r2, y2) = (Inr (), r3, y2)" "view r3 F'"
    using liftR_goes [OF obj_end [OF 2(2)]] by blast
  have n: "\<not> (\<not> ro_allow_missing R \<and> ?n \<noteq> required_props ps)"
    using required_entries [OF ks, of ?absent] by (simp add: opt_empty_def)
  have s1: "seqE (liftR (ro_is_object_next R)) f (r, y) = f True (r0, y)" for f using 0(1) by (rule seqE_Inr)
  have s2: "seqE (liftR (ro_begin_object R)) f (r0, y) = f key (r1, y)" for f using 1(1) by (rule seqE_Inr)
  have s3: "seqE (while_reading k (liftR (ro_should_break R key)) (read_property R ?m key ?op) 0) f (r1, y) = f ?n (r2, y2)" for f
    using 2(1) by (rule seqE_Inr)
  have s4: "seqE (liftR (ro_end_object R key)) f (r2, y2) = f () (r3, y2)" for f using 3(1) by (rule seqE_Inr)
  have "restore_from R dflt k ?m b (r, y) = (Inr (), r3, y2)"
    unfolding restore_from.simps read_object_def s1 not_True_eq_False if_False s2 s3 s4 meta.sel
    using n by (simp only: if_False) (simp add: retE_def)
  moreover have "same_outside b e y y2"
    by (rule slots_only_outside [OF 2(4)]) (use l in \<open>auto simp: laid_out_def\<close>)
  moreover have "agree (?mt i) x (a + ?off i) y2 (b + ?off i)" if i: "i < length ps" for i
  proof (cases "?absent i")
    case True
    have "\<forall>j \<in> ?A. apart ?off ?mt j i" using laid_out_apart [OF l] i True by fastforce
    from frame_same [OF _ slots_only_inside [OF 2(4) this]] show ?thesis using empty_agree [OF True] p [OF i] by blast
  next
    case False
    then show ?thesis using 2(3) i by simp
  qed
  ultimately show ?thesis using 3(2) by auto
qed

lemma primitive_restores:
  assumes IH: "\<And>m'. size_class.size m' < size_class.size (Primitive e c) \<Longrightarrow> wf_meta m' \<Longrightarrow> restores dflt k m'"
    and dflt: "\<forall>m. wf_meta m \<longrightarrow> blank m (dflt m) 0" and wf: "wf_meta (Primitive e c)"
  shows "restores dflt k (Primitive e c)"
  unfolding restores_def
proof (intro allI impI)
  fix x a r y b F F'
  assume t: "typed (Primitive e c) x a" "\<not> opt_empty (Primitive e c) x a" and y: "blank (Primitive e c) y b"
    and v: "view r F" "next_value F = Some (tree (Primitive e c) x a, F')" "size_class.size (tree (Primitive e c) x a) < k"
  have e: "e > 0" using wf by simp
  show "restored k dflt (Primitive e c) x a F' b r y"
  proof (cases c)
    case (C_list m)
    then have "wf_meta m" "\<not> is_optional m" using wf by simp_all
    then show ?thesis using list_restored [OF _ _ _ _ e v(1)] IH [of m] dflt t y v(2,3) unfolding C_list by simp
  next
    case (C_front_list m)
    then show ?thesis using wf by simp
  next
    case (C_dict m)
    then have "wf_meta m" "\<not> is_optional m" using wf by simp_all
    then show ?thesis using dict_restored [OF _ _ _ _ e v(1)] IH [of m] dflt t y v(2,3) unfolding C_dict by simp
  next
    case (C_opt m)
    then have "wf_meta m" "\<not> is_optional m" using wf by simp_all
    then show ?thesis using opt_restored [OF _ _ _ _ _ e v(1)] IH [of m] dflt t y v(2,3) unfolding C_opt by simp
  next
    case (C_array m)
    then have "wf_meta m" "\<not> is_optional m" "m_extent m > 0" "e mod m_extent m = 0" using wf by simp_all
    then show ?thesis using array_restored [OF _ _ _ _ _ _ v(1)] IH [of m] t y v(2,3) unfolding C_array by simp
  next
    case C_null
    have "goes (scalar_of R C_null) r D_null (\<lambda>r. view r F')"
      using null [OF v(1)] v(2) C_null by (auto simp: scalar_of_def intro: goes_ret)
    from scalar_restored [OF _ this _ e] show ?thesis using t C_null by simp
  next
    case C_bool
    then obtain d where d: "x a = Some (D_bool d)" using t by auto
    then have "goes (scalar_of R C_bool) r (D_bool d) (\<lambda>r. view r F')"
      using bool [OF v(1)] v(2) C_bool by (auto simp: scalar_of_def intro: goes_ret)
    from scalar_restored [OF _ this _ e] show ?thesis using t C_bool d by simp
  next
    case (C_int w)
    then obtain d where d: "x a = Some (D_int d)" "int_fits w d" using t by auto
    then have "goes (scalar_of R (C_int w)) r (D_int d) (\<lambda>r. view r F')"
      using int [OF v(1)] v(2) C_int by (auto simp: scalar_of_def intro: goes_ret)
    from scalar_restored [OF _ this _ e] show ?thesis using t C_int d by simp
  next
    case (C_uint w)
    then obtain d where d: "x a = Some (D_uint d)" "uint_fits w d" using t by auto
    then have "goes (scalar_of R (C_uint w)) r (D_uint d) (\<lambda>r. view r F')"
      using uint [OF v(1)] v(2) C_uint by (auto simp: scalar_of_def intro: goes_ret)
    from scalar_restored [OF _ this _ e] show ?thesis using t C_uint d by simp
  next
    case C_float
    then obtain d where d: "x a = Some (D_float d)" using t by auto
    then have "goes (scalar_of R C_float) r (D_float d) (\<lambda>r. view r F')"
      using float [OF v(1)] v(2) C_float by (auto simp: scalar_of_def intro: goes_ret)
    from scalar_restored [OF _ this _ e] show ?thesis using t C_float d by simp
  next
    case C_double
    then obtain d where d: "x a = Some (D_double d)" using t by auto
    then have "goes (scalar_of R C_double) r (D_double d) (\<lambda>r. view r F')"
      using double [OF v(1)] v(2) C_double by (auto simp: scalar_of_def intro: goes_ret)
    from scalar_restored [OF _ this _ e] show ?thesis using t C_double d by simp
  next
    case C_string
    then obtain d where d: "x a = Some (D_str d)" using t by auto
    then have "goes (scalar_of R C_string) r (D_str d) (\<lambda>r. view r F')"
      using str [OF v(1)] v(2) C_string by (auto simp: scalar_of_def intro: goes_ret)
    from scalar_restored [OF _ this _ e] show ?thesis using t C_string d by simp
  qed
qed

lemma wf_restores:
  assumes dflt: "\<forall>m. wf_meta m \<longrightarrow> blank m (dflt m) 0"
  shows "wf_meta m \<Longrightarrow> restores dflt k m"
proof (induction "size_class.size m" arbitrary: m rule: less_induct)
  case less
  show ?case
  proof (cases m)
    case (Primitive e c)
    show ?thesis unfolding Primitive by (rule primitive_restores [OF _ dflt]) (use less Primitive in auto)
  next
    case (Composite e ob ps ks kis lk)
    have w: "wf_meta (prop_type (ps ! i))" if "i < length ps" for i using less.prems that wf_props unfolding Composite by blast
    have IH: "restores dflt k (prop_type (ps ! i))" if "i < length ps" for i
      by (rule less.hyps [OF _ w [OF that]]) (use prop_smaller [of "ps ! i" ps] that in \<open>simp add: Composite\<close>)
    have l: "laid_out e ps" "ob \<Longrightarrow> key_table (length ps) ks" using less.prems Composite by simp_all
    show ?thesis unfolding restores_def
    proof (intro allI impI)
      fix x a r y b F F'
      assume t: "typed m x a" and y: "blank m y b"
        and v: "view r F" "next_value F = Some (tree m x a, F')" "size_class.size (tree m x a) < k"
      have p: "restores dflt k (prop_type (ps ! i)) \<and> wf_meta (prop_type (ps ! i))
          \<and> typed (prop_type (ps ! i)) x (a + prop_offset (ps ! i)) \<and> blank (prop_type (ps ! i)) y (b + prop_offset (ps ! i))"
        if "i < length ps" for i
        using IH [OF that] w [OF that] t y that unfolding Composite agree.simps blank.simps by metis
      show "restored k dflt m x a F' b r y"
      proof (cases ob)
        case True
        show ?thesis using object_restored [OF p l(1) l(2) [OF True] v(1)] v(2,3) True unfolding Composite by simp
      next
        case False
        show ?thesis using tuple_restored [OF p l(1) v(1)] v(2,3) False unfolding Composite by simp
      qed
    qed
  qed
qed

end

end
