(* ===== verification/Refl_Msgpack.thy ===== *)
theory Refl_Msgpack
  imports Refl_Roundtrip
begin

text \<open>
  Reflected objects in MessagePack: the writer and the reader of \<open>msgpack-writer.hxx\<close> and \<open>msgpack-reader.hxx\<close>
  as archives, and the round trip of an object through a stream.
\<close>

section \<open>The archives\<close>

definition mp_writer :: "(mwriter, writer_error) writer_ops" where
  "mp_writer = \<lparr>wo_int_key = False, wo_null = write_nil, wo_bool = write_bool, wo_int = (\<lambda>_. write_int), wo_uint = (\<lambda>_. write_uint),
     wo_float = write_float, wo_double = write_double, wo_str = write_str, wo_object_push = object_push, wo_object_pop = object_pop,
     wo_array_push = array_push, wo_array_pop = array_pop, wo_key_next = mw_write_key_next\<rparr>"

definition mp_reader :: "casts \<Rightarrow> bool \<Rightarrow> bool \<Rightarrow> (reader, reader_error, context_key) reader_ops" where
  "mp_reader c missing unknown = \<lparr>ro_int_key = False, ro_allow_missing = missing, ro_allow_unknown = unknown, ro_merge = False,
     ro_null = read_nil, ro_bool = read_bool (cast_bool c), ro_int = read_signed (cast_int c),
     ro_uint = (\<lambda>w. seqE (read_unsigned (cast_int c) w) (\<lambda>i. retE (nat i))), ro_float = read_float (cast_float c),
     ro_double = read_double (cast_double c), ro_str = read_str, ro_elem_left = seqE elem_left (\<lambda>n. retE (unat n)),
     ro_begin_object = begin_object, ro_begin_array = begin_array, ro_should_break = should_break, ro_end_object = end_object,
     ro_end_array = end_array, ro_key_next = read_key_next, ro_type_next = type_next\<rparr>"

lemma mp_writer_simps [simp]:
  "wo_int_key mp_writer = False" "wo_null mp_writer = write_nil" "wo_bool mp_writer = write_bool"
  "wo_int mp_writer w = write_int" "wo_uint mp_writer w = write_uint" "wo_float mp_writer = write_float" "wo_double mp_writer = write_double"
  "wo_str mp_writer = write_str" "wo_object_push mp_writer = object_push" "wo_object_pop mp_writer = object_pop"
  "wo_array_push mp_writer = array_push" "wo_array_pop mp_writer = array_pop" "wo_key_next mp_writer = mw_write_key_next"
  by (simp_all add: mp_writer_def)

lemma mp_reader_simps [simp]:
  "ro_int_key (mp_reader c am au) = False" "ro_allow_missing (mp_reader c am au) = am" "ro_allow_unknown (mp_reader c am au) = au"
  "ro_merge (mp_reader c am au) = False" "ro_null (mp_reader c am au) = read_nil" "ro_bool (mp_reader c am au) = read_bool (cast_bool c)"
  "ro_int (mp_reader c am au) w = read_signed (cast_int c) w"
  "ro_uint (mp_reader c am au) w = seqE (read_unsigned (cast_int c) w) (\<lambda>i. retE (nat i))"
  "ro_float (mp_reader c am au) = read_float (cast_float c)" "ro_double (mp_reader c am au) = read_double (cast_double c)"
  "ro_str (mp_reader c am au) = read_str" "ro_elem_left (mp_reader c am au) = seqE elem_left (\<lambda>n. retE (unat n))"
  "ro_begin_object (mp_reader c am au) = begin_object" "ro_begin_array (mp_reader c am au) = begin_array"
  "ro_should_break (mp_reader c am au) k = should_break k" "ro_end_object (mp_reader c am au) k = end_object k"
  "ro_end_array (mp_reader c am au) k = end_array k" "ro_key_next (mp_reader c am au) = read_key_next" "ro_type_next (mp_reader c am au) = type_next"
  by (simp_all add: mp_reader_def)

lemma write_vals_forE: "write_vals vs = forE write_val vs"
  by (induction vs) simp_all

lemma write_entries_forE:
  "write_entries es = forE (\<lambda>(k, v). seqE mw_write_key_next (\<lambda>_. seqE (write_str k) (\<lambda>_. write_val v))) es"
  by (induction es) (auto simp: seqE_assoc)

interpretation mpw: tree_writer mp_writer write_val
  by unfold_locales (simp_all add: write_vals_forE write_entries_forE)

section \<open>The reader on a stream of values\<close>

text \<open>A scope of the reader stands for a frame: its kind, its key, its count and whether a key comes next.\<close>

fun frame_scope :: "context_key frame \<Rightarrow> rscope \<Rightarrow> bool" where
  "frame_scope (F_root vs) e \<longleftrightarrow> False"
| "frame_scope (F_arr k vs) e \<longleftrightarrow> k = (ctx_id e, ctx_index e) \<and> kind e = Type_array \<and> elems_left e = of_nat (length vs) \<and> length vs < 2 ^ 32
     \<and> list_all wf_val vs"
| "frame_scope (F_obj k es) e \<longleftrightarrow> k = (ctx_id e, ctx_index e) \<and> kind e = Type_object \<and> \<not> reading_key e
     \<and> elems_left e = of_nat (2 * length es) \<and> 2 * length es < 2 ^ 32 \<and> list_all (\<lambda>(k, v). length k < 2 ^ 32 - 1 \<and> wf_val v) es"
| "frame_scope (F_key k es) e \<longleftrightarrow> k = (ctx_id e, ctx_index e) \<and> kind e = Type_object \<and> reading_key e
     \<and> elems_left e = of_nat (2 * length es) \<and> 2 * length es < 2 ^ 32 \<and> list_all (\<lambda>(k, v). length k < 2 ^ 32 - 1 \<and> wf_val v) es"
| "frame_scope (F_val k v es) e \<longleftrightarrow> k = (ctx_id e, ctx_index e) \<and> kind e = Type_object \<and> \<not> reading_key e
     \<and> elems_left e = of_nat (2 * length es + 1) \<and> 2 * length es + 1 < 2 ^ 32 \<and> wf_val v
     \<and> list_all (\<lambda>(k, v). length k < 2 ^ 32 - 1 \<and> wf_val v) es"

fun frame_bytes :: "context_key frame \<Rightarrow> byte list" where
  "frame_bytes (F_root vs) = concat (map enc_val vs)"
| "frame_bytes (F_arr k vs) = concat (map enc_val vs)"
| "frame_bytes (F_obj k es) = concat (map (\<lambda>(k, v). enc_str k @ enc_val v) es)"
| "frame_bytes (F_key k es) = concat (map (\<lambda>(k, v). enc_str k @ enc_val v) es)"
| "frame_bytes (F_val k v es) = enc_val v @ concat (map (\<lambda>(k, v). enc_str k @ enc_val v) es)"

fun frames :: "context_key frame list \<Rightarrow> rscope list \<Rightarrow> bool" where
  "frames [F_root vs] ss \<longleftrightarrow> ss = [] \<and> list_all wf_val vs"
| "frames (f # F) (e # ss) \<longleftrightarrow> frame_scope f e \<and> frames F ss"
| "frames _ _ \<longleftrightarrow> False"

definition mp_view :: "byte list \<Rightarrow> reader \<Rightarrow> context_key frame list \<Rightarrow> bool" where
  "mp_view rest r F \<longleftrightarrow> frames F (scopes r) \<and> input r = concat (map frame_bytes F) @ rest"

lemma frames_next:
  assumes "frames F ss" "next_value F = Some (v, F')"
  shows "rready ss" "wf_val v" "frames F' (rafter ss)" "concat (map frame_bytes F) = enc_val v @ concat (map frame_bytes F')"
proof -
  consider vs G where "F = F_root (v # vs) # G" "F' = F_root vs # G" | k vs G where "F = F_arr k (v # vs) # G" "F' = F_arr k vs # G"
    | k es G where "F = F_val k v es # G" "F' = F_obj k es # G"
    using assms(2) by (cases F rule: next_value.cases) auto
  then have "rready ss \<and> wf_val v \<and> frames F' (rafter ss) \<and> concat (map frame_bytes F) = enc_val v @ concat (map frame_bytes F')"
  proof cases
    case 1
    then show ?thesis using assms(1) by (cases G; cases ss) (auto simp: rready_def rafter_def)
  next
    case 2
    then obtain e r where ss: "ss = e # r" using assms(1) by (cases ss) auto
    have "elems_left e \<noteq> 0" using assms(1) 2 ss count_nonzero [of "length vs"] by auto
    then show ?thesis using assms(1) 2 ss by (auto simp: rready_def rafter_def dec_def)
  next
    case 3
    then obtain e r where ss: "ss = e # r" using assms(1) by (cases ss) auto
    have "odd (unat (elems_left e))" using assms(1) 3 ss unat_count [of "2 * length es + 1"] by auto
    then show ?thesis using assms(1) 3 ss by (auto simp: rready_def rafter_def dec_def)
  qed
  then show "rready ss" "wf_val v" "frames F' (rafter ss)" "concat (map frame_bytes F) = enc_val v @ concat (map frame_bytes F')" by blast+
qed

lemma view_reads:
  assumes "mp_view rest r F" "reads m bs (scopes r) x ss'" "frames F' ss'" "concat (map frame_bytes F) = bs @ concat (map frame_bytes F')"
  shows "goes m r x (\<lambda>r. mp_view rest r F')"
proof -
  have r: "r = at (bs @ (concat (map frame_bytes F') @ rest)) (scopes r) r"
    using assms(1,4) at_simps(5) [of r] by (simp add: mp_view_def)
  obtain s' where "m (at (bs @ (concat (map frame_bytes F') @ rest)) (scopes r) r) = (Inr x, at (concat (map frame_bytes F') @ rest) ss' s')"
    using reads_at [OF assms(2)] by blast
  then show ?thesis using assms(3) r by (auto simp: goes_def mp_view_def)
qed

lemma view_value:
  assumes "mp_view rest r F" "next_value F = Some (v, F')"
    and "rready (scopes r) \<Longrightarrow> wf_val v \<Longrightarrow> reads m (enc_val v) (scopes r) x (rafter (scopes r))"
  shows "goes m r x (\<lambda>r. mp_view rest r F')"
proof -
  have "frames F (scopes r)" using assms(1) by (simp add: mp_view_def)
  note n = frames_next [OF this assms(2)]
  show ?thesis by (rule view_reads [OF assms(1) assms(3) [OF n(1,2)] n(3,4)])
qed
section \<open>The calls of the reader\<close>

lemma number_value:
  assumes "starts (enc_val v) (\<lambda>h. reads (read_number h) (enc_val v) ss n ss)" "rready ss"
  shows "reads (seqE quick_get_num (\<lambda>n. retE (f n))) (enc_val v) ss (f n) (rafter ss)"
  by (rule reads_seqE_ret [OF reads_quick [OF assms]])

lemma starts_number:
  "wf_val (VInt i) \<Longrightarrow> starts (enc_val (VInt i)) (\<lambda>h. reads (read_number h) (enc_val (VInt i)) ss (Int_num i) ss)"
  "wf_val (VUint n) \<Longrightarrow> starts (enc_val (VUint n)) (\<lambda>h. reads (read_number h) (enc_val (VUint n)) ss (Int_num (int n)) ss)"
  "starts (enc_val (VBool b)) (\<lambda>h. reads (read_number h) (enc_val (VBool b)) ss (Int_num (of_bool b)) ss)"
  "starts (enc_val (VFloat f)) (\<lambda>h. reads (read_number h) (enc_val (VFloat f)) ss (Float_num f) ss)"
  "starts (enc_val (VDouble d)) (\<lambda>h. reads (read_number h) (enc_val (VDouble d)) ss (Double_num d) ss)"
  using reads_int [of i ss] reads_uint [of n ss] reads_bool [of b ss] reads_flt(1) [of f ss] reads_flt(2) [of d ss]
  by (simp_all add: starts_def)

lemma reads_scalars:
  assumes "rready ss"
  shows "wf_val (VInt i) \<Longrightarrow> int_fits w i \<Longrightarrow> reads (read_signed fi w) (enc_val (VInt i)) ss i (rafter ss)"
    "wf_val (VUint n) \<Longrightarrow> uint_fits w n \<Longrightarrow> reads (seqE (read_unsigned fi w) (\<lambda>i. retE (nat i))) (enc_val (VUint n)) ss n (rafter ss)"
    "reads (read_bool fb) (enc_val (VBool b)) ss b (rafter ss)"
    "reads (read_float ff) (enc_val (VFloat f)) ss f (rafter ss)"
    "reads (read_double fd) (enc_val (VDouble d)) ss d (rafter ss)"
proof -
  note nv = number_value [OF _ assms]
  show "reads (read_bool fb) (enc_val (VBool b)) ss b (rafter ss)"
    using nv [OF starts_number(3), where f = "\<lambda>v. case v of Int_num i \<Rightarrow> i \<noteq> 0 | _ \<Rightarrow> fb v"]
    by (simp add: read_bool_def del: enc_val.simps)
  show "reads (read_float ff) (enc_val (VFloat f)) ss f (rafter ss)"
    using nv [OF starts_number(4), where f = "\<lambda>v. case v of Float_num f \<Rightarrow> f | _ \<Rightarrow> ff v"] by (simp add: read_float_def del: enc_val.simps)
  show "reads (read_double fd) (enc_val (VDouble d)) ss d (rafter ss)"
    using nv [OF starts_number(5), where f = "\<lambda>v. case v of Double_num f \<Rightarrow> f | _ \<Rightarrow> fd v"] by (simp add: read_double_def del: enc_val.simps)
  assume i: "wf_val (VInt i)" "int_fits w i"
  then have "to_signed w i = i" by (intro to_signed_mod) (auto simp: int_fits_def)
  then show "reads (read_signed fi w) (enc_val (VInt i)) ss i (rafter ss)"
    using nv [OF starts_number(1) [OF i(1)], where f = "\<lambda>v. to_signed w (case v of Int_num i \<Rightarrow> i | _ \<Rightarrow> fi v)"]
    by (simp add: read_signed_def del: enc_val.simps)
next
  assume n: "wf_val (VUint n)" "uint_fits w n"
  have "int n < 2 ^ w" using n(2) unfolding uint_fits_def by (metis of_nat_less_iff of_nat_numeral of_nat_power)
  then have "nat (int n mod 2 ^ w) = n" by simp
  then show "reads (seqE (read_unsigned fi w) (\<lambda>i. retE (nat i))) (enc_val (VUint n)) ss n (rafter ss)"
    using reads_seqE_ret [OF number_value [OF starts_number(2) [OF n(1)] assms, where f = "\<lambda>v. (case v of Int_num i \<Rightarrow> i | _ \<Rightarrow> fi v) mod 2 ^ w"], where f = nat]
    by (simp add: read_unsigned_def del: enc_val.simps)
qed

lemma frames_not_null: "wf_val v \<Longrightarrow> starts (enc_val v) (\<lambda>h. \<exists>t. (\<forall>bs ss s. type_next (at (h # bs) ss s) = (Inr t, at (h # bs) ss s))
    \<and> (t = Entity_null \<longleftrightarrow> v = VNil) \<and> (\<forall>es. v = VMap es \<longrightarrow> t \<in> {Entity_object, Entity_dictionary}))"
proof (cases v)
  case VNil
  then show ?thesis by (simp add: starts_def type_next_def Let_def seqE_def retE_def code_headers)
next
  case (VStr s)
  assume "wf_val v"
  then have "length s < 2 ^ 32 - 1" using VStr by simp
  from starts_append [OF count_str [OF this, of "[]"], of s] show ?thesis
    unfolding VStr enc_val.simps enc_str_def
    by (rule starts_mono) (drule str_header, auto simp: type_next_def Let_def seqE_def retE_def)
next
  case (VBin s)
  from starts_append [OF size_header_codes [of "length s"], of s] show ?thesis
    unfolding VBin enc_val.simps enc_bin_def
    by (rule starts_mono) (auto simp: type_next_def Let_def seqE_def retE_def)
next
  case (VArr vs)
  from starts_append [OF seq_header_codes(1) [of "length vs"]] show ?thesis
    unfolding VArr enc_val.simps by (rule starts_mono) (auto simp: type_next_def Let_def seqE_def retE_def)
next
  case (VMap es)
  from starts_append [OF seq_header_codes(2) [of "length es"]] show ?thesis
    unfolding VMap enc_val.simps by (rule starts_mono) (auto simp: type_next_def Let_def seqE_def retE_def)
next
  case (VBool b)
  show ?thesis unfolding VBool by (rule starts_mono [OF starts_number(3)]) (drule number_header, auto simp: type_next_def Let_def seqE_def retE_def)
next
  case (VInt i)
  assume "wf_val v"
  then show ?thesis unfolding VInt
    by (intro starts_mono [OF starts_number(1)]) (simp, drule number_header, auto simp: type_next_def Let_def seqE_def retE_def)
next
  case (VUint n)
  assume "wf_val v"
  then show ?thesis unfolding VUint
    by (intro starts_mono [OF starts_number(2)]) (simp, drule number_header, auto simp: type_next_def Let_def seqE_def retE_def)
next
  case (VFloat f)
  show ?thesis unfolding VFloat by (rule starts_mono [OF starts_number(4)]) (drule number_header, auto simp: type_next_def Let_def seqE_def retE_def)
next
  case (VDouble d)
  show ?thesis unfolding VDouble by (rule starts_mono [OF starts_number(5)]) (drule number_header, auto simp: type_next_def Let_def seqE_def retE_def)
qed

lemma view_type_next:
  assumes "mp_view rest r F" "next_value F = Some (v, F')"
  shows "\<exists>t. goes type_next r t (\<lambda>r. mp_view rest r F) \<and> (t = Entity_null \<longleftrightarrow> v = VNil)
    \<and> (\<forall>es. v = VMap es \<longrightarrow> t \<in> {Entity_object, Entity_dictionary})"
proof -
  have "frames F (scopes r)" using assms(1) by (simp add: mp_view_def)
  note n = frames_next [OF this assms(2)]
  have inp: "input r = enc_val v @ concat (map frame_bytes F') @ rest" using assms(1) n(4) by (simp add: mp_view_def)
  obtain h bs where h: "enc_val v = h # bs" using enc_nonempty [of v] by (cases "enc_val v") auto
  have "r = at (h # bs @ concat (map frame_bytes F') @ rest) (scopes r) r" using at_simps(5) [of r] inp h by simp
  moreover obtain t where t: "\<And>bs ss s. type_next (at (h # bs) ss s) = (Inr t, at (h # bs) ss s)"
    "t = Entity_null \<longleftrightarrow> v = VNil" "\<forall>es. v = VMap es \<longrightarrow> t \<in> {Entity_object, Entity_dictionary}"
    using frames_not_null [OF n(2)] h by (auto simp: starts_def)
  ultimately have "type_next r = (Inr t, r)" by metis
  then show ?thesis using assms(1) t(2,3) by (auto simp: goes_def)
qed

lemma view_begin:
  assumes "mp_view rest r F" "next_value F = Some (v, F')" "enc_val v = hdr @ concat (map frame_bytes [f])"
    and cnt: "\<And>ss. starts hdr (\<lambda>h. reads (counter h) hdr ss k ss)"
    and fs: "\<And>e. kind e = ty \<Longrightarrow> elems_left e = k * (if ty = Type_object then 2 else 1) \<Longrightarrow> \<not> reading_key e \<Longrightarrow> wf_val v \<Longrightarrow>
      frame_scope (f' (ctx_id e, ctx_index e)) e \<and> frame_bytes (f' (ctx_id e, ctx_index e)) = frame_bytes f"
  shows "\<exists>key. goes (begin_scope ty counter) r key (\<lambda>r. mp_view rest r (f' key # F'))"
proof -
  have fr: "frames F (scopes r)" using assms(1) by (simp add: mp_view_def)
  note n = frames_next [OF fr assms(2)]
  have inp: "input r = hdr @ (frame_bytes f @ concat (map frame_bytes F') @ rest)" using assms(1,3) n(4) by (simp add: mp_view_def)
  then have r: "at (hdr @ (frame_bytes f @ concat (map frame_bytes F') @ rest)) (scopes r) r = r" using at_simps(5) [of r] by simp
  obtain e s' where e: "begin_scope ty counter r
      = (Inr (ctx_id e, ctx_index e), at (frame_bytes f @ concat (map frame_bytes F') @ rest) (e # rafter (scopes r)) s')"
    "kind e = ty" "elems_left e = k * (if ty = Type_object then 2 else 1)" "\<not> reading_key e"
    using begin_scope_at [OF n(1) cnt, of ty "frame_bytes f @ concat (map frame_bytes F') @ rest" r] r by auto
  have "frame_scope (f' (ctx_id e, ctx_index e)) e" "frame_bytes (f' (ctx_id e, ctx_index e)) = frame_bytes f"
    using fs [OF e(2-4) n(2)] by blast+
  then have "mp_view rest (at (frame_bytes f @ concat (map frame_bytes F') @ rest) (e # rafter (scopes r)) s') (f' (ctx_id e, ctx_index e) # F')"
    using n(3) by (cases "f' (ctx_id e, ctx_index e)") (auto simp: mp_view_def)
  then show ?thesis using e(1) by (auto simp: goes_def)
qed

lemma view_begin_array:
  assumes "mp_view rest r F" "next_value F = Some (VArr vs, F')"
  shows "\<exists>k. goes begin_array r k (\<lambda>r. mp_view rest r (F_arr k vs # F'))"
proof -
  have "frames F (scopes r)" using assms(1) by (simp add: mp_view_def)
  from frames_next(2) [OF this assms(2)] have w: "length vs < 2 ^ 32 - 1" by simp
  show ?thesis unfolding begin_scope_eqs
    by (rule view_begin [OF assms, where f = "F_arr (0, 0) vs" and hdr = "seq_header 0x90 0xdc (length vs)" and k = "of_nat (length vs)"])
      (use count_array [OF w] in auto)
qed

lemma view_begin_object:
  assumes "mp_view rest r F" "next_value F = Some (VMap es, F')"
  shows "\<exists>k. goes begin_object r k (\<lambda>r. mp_view rest r (F_obj k es # F'))"
proof -
  have "frames F (scopes r)" using assms(1) by (simp add: mp_view_def)
  from frames_next(2) [OF this assms(2)] have w: "length es < 2 ^ 31" by simp
  then have w1: "length es < 2 ^ 32 - 1" by simp
  show ?thesis unfolding begin_scope_eqs
    by (rule view_begin [OF assms, where f = "F_obj (0, 0) es" and hdr = "seq_header 0x80 0xde (length es)" and k = "of_nat (length es)"])
      (use count_map [OF w1] w in auto)
qed

lemma of_nat_zero_u32: "k < 2 ^ 32 \<Longrightarrow> (of_nat k :: u32) = 0 \<longleftrightarrow> k = 0"
  by (simp only: word_unat_eq_iff unat_count unat_0)

lemma view_cons:
  "mp_view rest r (f # F) \<Longrightarrow> (case f of F_root _ \<Rightarrow> False | _ \<Rightarrow> True) \<Longrightarrow>
   \<exists>e ss. scopes r = e # ss \<and> frame_scope f e \<and> frames F ss \<and> input r = frame_bytes f @ concat (map frame_bytes F) @ rest
     \<and> at (input r) (e # ss) r = r"
proof -
  assume v: "mp_view rest r (f # F)" and f: "case f of F_root _ \<Rightarrow> False | _ \<Rightarrow> True"
  then obtain e ss where e: "scopes r = e # ss" "frame_scope f e" "frames F ss"
    by (cases "scopes r"; cases f) (auto simp: mp_view_def)
  have "at (input r) (e # ss) r = r" using at_simps(5) [of r] unfolding e(1) .
  moreover have "input r = frame_bytes f @ concat (map frame_bytes F) @ rest" using v by (simp add: mp_view_def)
  ultimately show ?thesis using e by blast
qed

lemma view_arr_break:
  assumes "mp_view rest r (F_arr k vs # F)"
  shows "goes (should_break k) r (vs = []) (\<lambda>r. mp_view rest r (F_arr k vs # F))"
proof -
  obtain e ss where e: "scopes r = e # ss" "frame_scope (F_arr k vs) e" using view_cons [OF assms] unfolding frame.case by blast
  have "should_break k r = (Inr (vs = []), r)"
    using e of_nat_zero_u32 [of "length vs"] by (simp add: should_break_def)
  then show ?thesis using assms by (simp add: goes_def)
qed

lemma view_obj_break:
  assumes "mp_view rest r (F_obj k es # F)"
  shows "goes (should_break k) r (es = []) (\<lambda>r. mp_view rest r (F_obj k es # F))"
proof -
  obtain e ss where e: "scopes r = e # ss" "frame_scope (F_obj k es) e" using view_cons [OF assms] unfolding frame.case by blast
  have "should_break k r = (Inr (es = []), r)"
    using e of_nat_zero_u32 [of "2 * length es"] by (simp add: should_break_def del: of_nat_mult)
  then show ?thesis using assms by (simp add: goes_def)
qed

lemma view_end:
  "mp_view rest r (F_arr k [] # F) \<Longrightarrow> goes (end_array k) r () (\<lambda>r. mp_view rest r F)"
  "mp_view rest r (F_obj k [] # F) \<Longrightarrow> goes (end_object k) r () (\<lambda>r. mp_view rest r F)"
proof -
  assume v: "mp_view rest r (F_arr k [] # F)"
  obtain e ss where e: "frame_scope (F_arr k []) e" "frames F ss" "input r = frame_bytes (F_arr k []) @ concat (map frame_bytes F) @ rest"
    "at (input r) (e # ss) r = r" using view_cons [OF v] unfolding frame.case by blast
  have "end_array k r = (Inr (), at (input r) ss r)" using end_at(1) [of e "input r" ss r] e(1,4) by auto
  then show "goes (end_array k) r () (\<lambda>r. mp_view rest r F)" using e(2,3) by (simp add: goes_def mp_view_def)
next
  assume v: "mp_view rest r (F_obj k [] # F)"
  obtain e ss where e: "frame_scope (F_obj k []) e" "frames F ss" "input r = frame_bytes (F_obj k []) @ concat (map frame_bytes F) @ rest"
    "at (input r) (e # ss) r = r" using view_cons [OF v] unfolding frame.case by blast
  have "end_object k r = (Inr (), at (input r) ss r)" using end_at(2) [of e "input r" ss r] e(1,4) by auto
  then show "goes (end_object k) r () (\<lambda>r. mp_view rest r F)" using e(2,3) by (simp add: goes_def mp_view_def)
qed

lemma view_elem_left:
  assumes "mp_view rest r (F_arr k vs # F)"
  shows "goes (seqE elem_left (\<lambda>n. retE (unat n))) r (length vs) (\<lambda>r. mp_view rest r (F_arr k vs # F))"
proof -
  obtain e ss where e: "scopes r = e # ss" "frame_scope (F_arr k vs) e" using view_cons [OF assms] unfolding frame.case by blast
  then have "seqE elem_left (\<lambda>n. retE (unat n)) r = (Inr (length vs), r)"
    using unat_count [of "length vs"] by (simp add: elem_left_def scope_ref_def seqE_def retE_def)
  then show ?thesis using assms by (simp add: goes_def)
qed

lemma view_key_next:
  assumes "mp_view rest r (F_obj k (x # es) # F)"
  shows "goes read_key_next r () (\<lambda>r. mp_view rest r (F_key k (x # es) # F))"
proof -
  obtain e ss where e: "scopes r = e # ss" "frame_scope (F_obj k (x # es)) e" "frames F ss" using view_cons [OF assms] unfolding frame.case by blast
  have "even (unat (elems_left e))" using e(2) unat_count [of "2 * length (x # es)"] by (simp del: of_nat_mult)
  then have "reads read_key_next [] (scopes r) () (e\<lparr>reading_key := True\<rparr> # ss)" unfolding e(1) using e(2) by (intro reads_key_next) auto
  from view_reads [OF assms this] show ?thesis using e(2,3) by simp
qed

lemma view_key_str:
  assumes "mp_view rest r (F_key k ((s, v) # es) # F)"
  shows "goes read_str r s (\<lambda>r. mp_view rest r (F_val k v es # F))"
proof -
  obtain e ss where e: "scopes r = e # ss" "frame_scope (F_key k ((s, v) # es)) e" "frames F ss"
    using view_cons [OF assms] unfolding frame.case by blast
  let ?n = "2 * length ((s, v) # es)"
  have n: "unat (elems_left e) = ?n" using e(2) unat_count [of ?n] by (simp del: of_nat_mult)
  then have el: "even (unat (elems_left e))" "elems_left e \<noteq> 0" by auto
  have "reads step_context [] (scopes r) () (dec (e\<lparr>reading_key := False\<rparr>) # ss)" unfolding e(1) using e(2) el by (intro step_key) auto
  then have rd: "reads read_str (enc_str s) (scopes r) s (dec (e\<lparr>reading_key := False\<rparr>) # ss)"
    using e(2) by (intro reads_string) auto
  show ?thesis by (rule view_reads [OF assms rd]) (use e(2,3) in \<open>auto simp: dec_def\<close>)
qed

interpretation mpr: tree_reader "mp_reader c am au" "mp_view rest" for c am au rest
proof (unfold_locales, goal_cases)
  case (3 r F F')
  show ?case unfolding mp_reader_simps by (rule view_value [OF 3]) (use reads_nil in simp)
next
  case (4 r F b F')
  show ?case unfolding mp_reader_simps by (rule view_value [OF 4]) (rule reads_scalars(3))
next
  case (5 r F i F' w)
  show ?case unfolding mp_reader_simps by (rule view_value [OF 5(1,2)]) (rule reads_scalars(1) [OF _ _ 5(3)])
next
  case (6 r F n F' w)
  show ?case unfolding mp_reader_simps by (rule view_value [OF 6(1,2)]) (rule reads_scalars(2) [OF _ _ 6(3)])
next
  case (7 r F f F')
  show ?case unfolding mp_reader_simps by (rule view_value [OF 7]) (rule reads_scalars(4))
next
  case (8 r F f F')
  show ?case unfolding mp_reader_simps by (rule view_value [OF 8]) (rule reads_scalars(5))
next
  case (9 r F s F')
  show ?case unfolding mp_reader_simps
    by (rule view_value [OF 9]) (use reads_string [OF _ step_value] in simp)
next
  case 10
  then show ?case using view_type_next by simp
next
  case 11
  then show ?case using view_begin_array by simp
next
  case 12
  then show ?case using view_arr_break by simp
next
  case 13
  then show ?case using view_elem_left by simp
next
  case 14
  then show ?case using view_end(1) by simp
next
  case 15
  then show ?case using view_begin_object by simp
next
  case 16
  then show ?case using view_obj_break by simp
next
  case 17
  then show ?case using view_end(2) by simp
next
  case 18
  then show ?case using view_key_next by simp
next
  case 19
  then show ?case using view_key_str by simp
qed simp_all
section \<open>Created types\<close>

text \<open>What \<open>create()\<close> accepts is well formed when the members do not overlap, as the compiler lays them out, and their
  types are.\<close>

lemma created_key_table:
  assumes "object_tables ps m"
  shows "key_table (length (m_props m)) (m_keys m)"
proof -
  note t = assms [unfolded object_tables_def]
  let ?ks = "m_keys m"
  have s: "fm_sorted std_less ?ks" and some: "\<forall>i < length ps. fm_lookup std_less (prop_name (ps ! i)) ?ks = Some i"
    and none: "\<forall>n. n \<notin> prop_name ` set ps \<longrightarrow> fm_lookup std_less n ?ks = None" and len: "length (m_props m) = length ps"
    using t list_all2_lengthD by fastforce+
  have look: "fm_lookup std_less k ?ks = map_of ?ks k" for k using less.fm_lookup_map_of [OF s] .
  have d: "distinct (map fst ?ks)" using s by (rule std_sorted_distinct)
  have entry: "j < length ps \<and> k = prop_name (ps ! j)" if e: "(k, j) \<in> set ?ks" for k j
  proof -
    have m: "map_of ?ks k = Some j" using d e by (rule map_of_is_SomeI)
    then have "k \<in> prop_name ` set ps" using none look by (metis option.distinct(1))
    then obtain i where "i < length ps" "k = prop_name (ps ! i)" by (auto simp: in_set_conv_nth)
    then show ?thesis using some m look by simp
  qed
  have "set (map snd ?ks) = {..<length ps}"
  proof
    show "set (map snd ?ks) \<subseteq> {..<length ps}" using entry by auto
    show "{..<length ps} \<subseteq> set (map snd ?ks)"
    proof
      fix i assume "i \<in> {..<length ps}"
      then have "map_of ?ks (prop_name (ps ! i)) = Some i" using some look by simp
      from map_of_SomeD [OF this] show "i \<in> set (map snd ?ks)" by force
    qed
  qed
  moreover have "distinct (map snd ?ks)"
    unfolding distinct_map
  proof
    show "distinct ?ks" using d by (simp add: distinct_map)
    show "inj_on snd (set ?ks)"
    proof (rule inj_onI)
      fix u v assume "u \<in> set ?ks" "v \<in> set ?ks" "snd u = snd v"
      then show "u = v" using entry by (metis prod.collapse)
    qed
  qed
  ultimately have "mset (map snd ?ks) = mset [0..<length ps]" by (metis atLeast_upt distinct_upt set_eq_iff_mset_eq_distinct)
  then show ?thesis using s len by (simp add: key_table_def)
qed

lemma created_wf:
  assumes c: "create_meta (Composite ext True ps [] [] []) = Inr m" and ix: "map prop_index ps = [0..<length ps]"
    and apart: "\<forall>i < length ps. \<forall>j < length ps. i \<noteq> j \<longrightarrow> prop_offset (ps ! i) + m_extent (prop_type (ps ! i)) \<le> prop_offset (ps ! j)
        \<or> prop_offset (ps ! j) + m_extent (prop_type (ps ! j)) \<le> prop_offset (ps ! i)"
    and wf: "\<forall>p \<in> set ps. wf_meta (prop_type p)"
  shows "wf_meta m"
proof -
  have cr: "creatable ext ps" using create_object_only [OF c] .
  have t: "object_tables ps m" "m_extent m = ext" using create_object_ok [OF ix cr] c by auto
  have k: "list_all2 keyed ps (m_props m)" and ob: "is_object m" using t(1) by (simp_all add: object_tables_def)
  have len: "length (m_props m) = length ps" using list_all2_lengthD [OF k] by simp
  have eq: "prop_offset (m_props m ! i) = prop_offset (ps ! i)" "prop_type (m_props m ! i) = prop_type (ps ! i)" if "i < length ps" for i
    using list_all2_nthD [OF k that] by (simp_all add: keyed_def)
  have le: "\<forall>i < length ps. prop_offset (ps ! i) + m_extent (prop_type (ps ! i)) \<le> ext" using cr by (simp add: creatable_def)
  have "laid_out ext (m_props m)" using apart le eq len by (simp add: laid_out_def)
  moreover have "\<forall>i < length (m_props m). wf_meta (prop_type (m_props m ! i))" using wf eq len by simp
  ultimately show ?thesis using created_key_table [OF t(1)] ob t(2) by (cases m) auto
qed

section \<open>Properties\<close>

text \<open>Archiving an object writes the value tree of its contents: one entry per property in the order of the names,
  none for an empty optional, with the writer's calls in the order of the encoding.\<close>

theorem archive_encodes:
  assumes "wf_meta m" "typed m x a" "wf_val (tree m x a)" "value_ready (wscopes w)"
  shows "archive_to mp_writer m x a w
    = (Inr (), w\<lparr>out := out w @ enc_val (tree m x a), wscopes := after_value (wscopes w)\<rparr>)"
  using mpw.archive_tree [OF assms(1,2)] writes_ok(1) [OF assms(3,4)] by (simp add: liftW_def wrote_def)

text \<open>C7: Round trip of reflected objects. An object of a created type, with nested objects, tuples, arrays, lists,
  maps and optionals, is written to MessagePack; reading it into a default-constructed object of the type, at
  any place, gives the same contents, leaves the stream behind the item and the memory around the object as it
  was. The loops of the reader end within a number of turns bounded by the size of the value.\<close>

theorem reflected_roundtrip:
  assumes "wf_meta m" "typed m x a" "\<not> opt_empty m x a" "wf_val (tree m x a)"
    and "\<forall>m. wf_meta m \<longrightarrow> blank m (dflt m) 0" "blank m y b" "size_class.size (tree m x a) < k"
  shows "\<exists>w s y'. archive_to mp_writer m x a writer_new = (Inr (), w)
    \<and> restore_from (mp_reader c am au) dflt k m b (reader_new (out w @ rest), y) = (Inr (), s, y')
    \<and> input s = rest \<and> scopes s = [] \<and> agree m x a y' b \<and> same_outside b (m_extent m) y y'"
proof -
  let ?v = "tree m x a" and ?r = "reader_new (enc_val (tree m x a) @ rest)"
  have w: "archive_to mp_writer m x a writer_new = (Inr (), \<lparr>out = enc_val ?v, wscopes = []\<rparr>)"
    using mpw.archive_tree [OF assms(1,2)] write_val_new [OF assms(4)] by (simp add: liftW_def)
  have "mp_view rest ?r [F_root [?v]]" using assms(4) by (simp add: mp_view_def reader_new_def)
  moreover have "next_value [F_root [?v]] = Some (?v, [F_root []])" by simp
  ultimately have "\<exists>s y'. restore_from (mp_reader c am au) dflt k m b (?r, y) = (Inr (), s, y') \<and> mp_view rest s [F_root []]
      \<and> agree m x a y' b \<and> same_outside b (m_extent m) y y'"
    using mpr.wf_restores [OF assms(5,1), of c am au rest k] assms(2,3,6,7) unfolding mpr.restores_def by blast
  then obtain s y' where s: "restore_from (mp_reader c am au) dflt k m b (?r, y) = (Inr (), s, y')" "mp_view rest s [F_root []]"
    "agree m x a y' b" "same_outside b (m_extent m) y y'" by blast
  then show ?thesis using w by (intro exI [where x = "\<lparr>out = enc_val ?v, wscopes = []\<rparr>"] exI [where x = s] exI [where x = y'])
    (simp add: mp_view_def)
qed

text \<open>A structure of an integer, a list of strings and two optional values, of which one is empty.\<close>

definition note_props :: "property list" where
  "note_props = [Prop 0 (Primitive 4 (C_uint 32)) 0 [105, 100] (- 1), Prop 8 (Primitive 24 (C_list (Primitive 32 C_string))) 1 [116, 97, 103] (- 1),
     Prop 32 (Primitive 2 (C_opt (Primitive 1 C_bool))) 2 [111] (- 1), Prop 34 (Primitive 2 (C_opt (Primitive 1 C_bool))) 3 [112] (- 1)]"

definition note_object :: mem where
  "note_object = [0 \<mapsto> D_uint 7, 8 \<mapsto> D_list [[0 \<mapsto> D_str [104, 105]], [0 \<mapsto> D_str []]], 32 \<mapsto> D_opt None, 34 \<mapsto> D_opt (Some [0 \<mapsto> D_bool True])]"

definition note_meta :: meta where
  "note_meta = Composite 40 True
     [Prop 0 (Primitive 4 (C_uint 32)) 0 [105, 100] 1, Prop 8 (Primitive 24 (C_list (Primitive 32 C_string))) 1 [116, 97, 103] 2,
      Prop 32 (Primitive 2 (C_opt (Primitive 1 C_bool))) 2 [111] 3, Prop 34 (Primitive 2 (C_opt (Primitive 1 C_bool))) 3 [112] 4]
     [([105, 100], 0), ([111], 2), ([112], 3), ([116, 97, 103], 1)] [(1, 0), (2, 1), (3, 2), (4, 3)] [(0, 0), (8, 1), (32, 2), (34, 3)]"

lemma note_created: "create_meta (Composite 40 True note_props [] [] []) = Inr note_meta"
proof -
  note eval = fm_try_emplace_def fm_lower_bound_def bisect.simps std_less_def insert_at_def Let_def
  have "collect_keys note_props [] [] = Inr ([([105, 100], 0), ([111], 2), ([112], 3), ([116, 97, 103], 1)], [])"
    by (simp add: note_props_def eval)
  moreover have "assign_keys note_props [] 1 [] = Inr (m_props note_meta, m_key_indices note_meta)"
    by (simp add: note_props_def note_meta_def eval next_key_def)
  ultimately show ?thesis
    by (simp add: create_meta.simps build_lookup_def object_end_def std_less_def note_meta_def)
qed

lemma less_four: "(\<forall>i < 4. P i) \<longleftrightarrow> P 0 \<and> P 1 \<and> P 2 \<and> P (3 :: nat)"
  by (auto simp: numeral_eq_Suc less_Suc_eq)

lemma note_wf: "wf_meta note_meta"
proof (rule created_wf [OF note_created])
  show "map prop_index note_props = [0..<length note_props]" by (simp add: note_props_def upt_rec)
  have "length note_props = 4" by (simp add: note_props_def)
  then show "\<forall>i < length note_props. \<forall>j < length note_props. i \<noteq> j \<longrightarrow> prop_offset (note_props ! i) + m_extent (prop_type (note_props ! i)) \<le> prop_offset (note_props ! j)
        \<or> prop_offset (note_props ! j) + m_extent (prop_type (note_props ! j)) \<le> prop_offset (note_props ! i)"
    by (simp add: less_four) (simp add: note_props_def)
  show "\<forall>p \<in> set note_props. wf_meta (prop_type p)" by (simp add: note_props_def)
qed

lemma note_typed: "typed note_meta note_object 0"
proof -
  have "\<forall>i < 4. typed (prop_type (m_props note_meta ! i)) note_object (0 + prop_offset (m_props note_meta ! i))"
    unfolding less_four by (auto simp: note_meta_def note_object_def uint_fits_def)
  then show ?thesis by (simp add: note_meta_def)
qed

lemma note_tree: "tree note_meta note_object 0
    = VMap [([105, 100], VUint 7), ([112], VBool True), ([116, 97, 103], VArr [VStr [104, 105], VStr []])]"
  by (simp add: note_meta_def note_object_def opt_empty_def)

theorem archive_encodes_witness:
  "\<exists>w. archive_to mp_writer note_meta note_object 0 writer_new = (Inr (), w)
     \<and> out w = [0x83, 0xa2, 105, 100, 7, 0xa1, 112, 0xc3, 0xa3, 116, 97, 103, 0x92, 0xa2, 104, 105, 0xa0]"
  using archive_encodes [OF note_wf note_typed, of writer_new]
  by (simp add: note_tree writer_new_def seq_header_def enc_str_def enc_uint_def)

theorem reflected_roundtrip_witness:
  "\<exists>w s y. archive_to mp_writer note_meta note_object 0 writer_new = (Inr (), w)
     \<and> restore_from (mp_reader zero_casts False False) fresh 100 note_meta 0 (reader_new (out w @ [7]), fresh note_meta) = (Inr (), s, y)
     \<and> input s = [7] \<and> agree note_meta note_object 0 y 0"
proof -
  have e: "\<not> opt_empty note_meta note_object 0" by (simp add: opt_empty_def note_meta_def)
  have v: "wf_val (tree note_meta note_object 0)" by (simp add: note_tree)
  have k: "size_class.size (tree note_meta note_object 0) < 100" by (simp add: note_tree)
  show ?thesis
    using reflected_roundtrip [OF note_wf note_typed e v _ fresh_blank [OF note_wf] k, of fresh zero_casts False False "[7]"] fresh_blank
    by blast
qed

end
