(* ===== verification/Matrix_Ops.thy ===== *)
theory Matrix_Ops
  imports Complex_Main Cpph_Prelude
begin

text \<open>
  \<open>math/matrix.hxx\<close>: matrices of fixed dimensions over a flat array in row-major order, and the inversion by
  elimination. The element type is any type with the arithmetic an operation uses: a commutative ring, a field
  for \<open>inv\<close> (so that the arithmetic is exact; the rounding of \<open>float\<close> and \<open>double\<close> is outside of the model). The
  dimensions, template arguments of the code, are components of the value, and what the code checks by
  \<open>static_assert\<close> is a premise of the lemmas.
\<close>

section \<open>Values\<close>

datatype 'a matrix = Matrix (num_rows: nat) (num_cols: nat) (cells: "'a list")

definition mx_wf :: "nat \<Rightarrow> nat \<Rightarrow> 'a matrix \<Rightarrow> bool" where
  "mx_wf r c m \<longleftrightarrow> num_rows m = r \<and> num_cols m = c \<and> length (cells m) = r * c"

definition mx_length :: "'a matrix \<Rightarrow> nat" where "mx_length m = num_rows m * num_cols m"
definition short_dim :: "'a matrix \<Rightarrow> nat" where "short_dim m = (if num_rows m < num_cols m then num_rows m else num_cols m)"
definition long_dim :: "'a matrix \<Rightarrow> nat" where "long_dim m = (if num_rows m < num_cols m then num_cols m else num_rows m)"

definition mx_at :: "'a matrix \<Rightarrow> nat \<Rightarrow> 'a" where "mx_at m i = cells m ! i"
definition mx_get :: "'a matrix \<Rightarrow> nat \<Rightarrow> nat \<Rightarrow> 'a" where "mx_get m r c = cells m ! (r * num_cols m + c)"

definition set_at :: "nat \<Rightarrow> 'a \<Rightarrow> 'a matrix \<Rightarrow> 'a matrix" where
  "set_at i v m = Matrix (num_rows m) (num_cols m) ((cells m)[i := v])"

definition mx_set :: "nat \<Rightarrow> nat \<Rightarrow> 'a \<Rightarrow> 'a matrix \<Rightarrow> 'a matrix" where
  "mx_set r c v m = set_at (r * num_cols m + c) v m"

text \<open>\<open>matrix matx = {}\<close> initialises the values to zero.\<close>

definition mx_empty :: "nat \<Rightarrow> nat \<Rightarrow> 'a :: zero matrix" where
  "mx_empty r c = Matrix r c (replicate (r * c) 0)"

section \<open>Factories\<close>

definition from_values :: "nat \<Rightarrow> nat \<Rightarrow> 'a :: zero list \<Rightarrow> 'a matrix" where
  "from_values r c vs = fold (\<lambda>i. set_at i (vs ! i)) [0..<r * c] (mx_empty r c)"

text \<open>\<open>create\<close> from a list; a list that is too long is written behind the array.\<close>

definition mx_create :: "nat \<Rightarrow> nat \<Rightarrow> 'a :: zero list \<Rightarrow> 'a matrix option" where
  "mx_create r c vs = (if length vs > r * c then None else Some (fold (\<lambda>i. set_at i (vs ! i)) [0..<length vs] (mx_empty r c)))"

definition mx_all :: "nat \<Rightarrow> nat \<Rightarrow> 'a :: zero \<Rightarrow> 'a matrix" where
  "mx_all r c v = fold (\<lambda>i. set_at i v) [0..<r * c] (mx_empty r c)"

definition zeros :: "nat \<Rightarrow> nat \<Rightarrow> 'a :: zero matrix" where
  "zeros r c = mx_all r c 0"

definition set_diag :: "'a matrix \<Rightarrow> 'a matrix \<Rightarrow> 'a matrix" where
  "set_diag v m = fold (\<lambda>i. mx_set i i (mx_at v i)) [0..<short_dim m] m"

definition from_diag :: "nat \<Rightarrow> nat \<Rightarrow> 'a :: zero matrix \<Rightarrow> 'a matrix" where
  "from_diag r c v = set_diag v (mx_empty r c)"

definition eye :: "nat \<Rightarrow> nat \<Rightarrow> 'a :: zero_neq_one matrix" where
  "eye r c = from_diag r c (mx_all (if r < c then r else c) 1 1)"

section \<open>Parts\<close>

definition mx_row :: "nat \<Rightarrow> 'a :: zero matrix \<Rightarrow> 'a matrix" where
  "mx_row n m = from_values 1 (num_cols m) (drop (n * num_cols m) (cells m))"

definition mx_col :: "nat \<Rightarrow> 'a :: zero matrix \<Rightarrow> 'a matrix" where
  "mx_col n m = fold (\<lambda>r. set_at r (mx_at m (n + r * num_cols m))) [0..<num_rows m] (mx_empty (num_rows m) 1)"

definition transposed :: "'a :: zero matrix \<Rightarrow> 'a matrix" where
  "transposed m = fold (\<lambda>i. fold (\<lambda>j. mx_set j i (mx_get m i j)) [0..<num_cols m]) [0..<num_rows m] (mx_empty (num_cols m) (num_rows m))"

definition get_diag :: "'a :: zero matrix \<Rightarrow> 'a matrix" where
  "get_diag m = fold (\<lambda>i. set_at i (mx_get m i i)) [0..<short_dim m] (mx_empty (short_dim m) 1)"

definition submatx :: "nat \<Rightarrow> nat \<Rightarrow> nat \<Rightarrow> nat \<Rightarrow> 'a :: zero matrix \<Rightarrow> 'a matrix" where
  "submatx r c nr nc m = fold (\<lambda>i. fold (\<lambda>j. mx_set i j (mx_get m (r + i) (c + j))) [0..<nc]) [0..<nr] (mx_empty nr nc)"

definition mx_update :: "nat \<Rightarrow> nat \<Rightarrow> 'a matrix \<Rightarrow> 'a matrix \<Rightarrow> 'a matrix" where
  "mx_update r c x m = fold (\<lambda>i. fold (\<lambda>j. mx_set (r + i) (c + j) (mx_get x i j)) [0..<num_cols x]) [0..<num_rows x] m"

section \<open>Arithmetic\<close>

definition mx_dot :: "'a :: comm_ring_1 matrix \<Rightarrow> 'a matrix \<Rightarrow> 'a" where
  "mx_dot a b = fold (\<lambda>i val. val + mx_at a i * mx_at b i) [0..<long_dim a] 0"

definition mx_cross :: "'a :: comm_ring_1 matrix \<Rightarrow> 'a matrix \<Rightarrow> 'a matrix" where
  "mx_cross a b = from_values 3 1
     [mx_at a 1 * mx_at b 2 - mx_at a 2 * mx_at b 1,
      mx_at a 2 * mx_at b 0 - mx_at a 0 * mx_at b 2,
      mx_at a 0 * mx_at b 1 - mx_at a 1 * mx_at b 0]"

definition mx_unary :: "('a \<Rightarrow> 'a) \<Rightarrow> 'a matrix \<Rightarrow> 'a matrix" where
  "mx_unary f m = fold (\<lambda>i m. set_at i (f (mx_at m i)) m) [0..<mx_length m] m"

definition mx_binary :: "('a \<Rightarrow> 'a \<Rightarrow> 'a) \<Rightarrow> 'a matrix \<Rightarrow> 'a matrix \<Rightarrow> 'a matrix" where
  "mx_binary f m x = fold (\<lambda>i m. set_at i (f (mx_at m i) (mx_at x i)) m) [0..<mx_length m] m"

definition mx_neg :: "'a :: comm_ring_1 matrix \<Rightarrow> 'a matrix" where "mx_neg = mx_unary uminus"
definition mx_plus :: "'a :: comm_ring_1 matrix \<Rightarrow> 'a matrix \<Rightarrow> 'a matrix" where "mx_plus = mx_binary (+)"
definition mx_minus :: "'a :: comm_ring_1 matrix \<Rightarrow> 'a matrix \<Rightarrow> 'a matrix" where "mx_minus = mx_binary (-)"
definition mx_scale :: "'a :: comm_ring_1 \<Rightarrow> 'a matrix \<Rightarrow> 'a matrix" where "mx_scale x = mx_unary (\<lambda>v. v * x)"
definition mx_divide :: "'a :: field matrix \<Rightarrow> 'a \<Rightarrow> 'a matrix" where "mx_divide m x = mx_unary (\<lambda>v. v / x) m"
definition mx_mul :: "'a :: comm_ring_1 matrix \<Rightarrow> 'a matrix \<Rightarrow> 'a matrix" where "mx_mul = mx_binary (*)"
definition mx_div :: "'a :: field matrix \<Rightarrow> 'a matrix \<Rightarrow> 'a matrix" where "mx_div = mx_binary (/)"

definition mx_proj :: "'a :: field matrix \<Rightarrow> 'a matrix \<Rightarrow> 'a matrix" where
  "mx_proj m x = mx_scale (mx_dot m x / mx_dot m m) m"

definition mx_times :: "'a :: comm_ring_1 matrix \<Rightarrow> 'a matrix \<Rightarrow> 'a matrix" where
  "mx_times a b = fold (\<lambda>i. fold (\<lambda>j. mx_set i j (mx_dot (mx_row i a) (mx_col j b))) [0..<num_cols b]) [0..<num_rows a]
     (mx_empty (num_rows a) (num_cols b))"

definition mx_eq :: "'a matrix \<Rightarrow> 'a matrix \<Rightarrow> bool" where
  "mx_eq a b \<longleftrightarrow> list_all (\<lambda>i. mx_at a i = mx_at b i) [0..<mx_length a]"

definition mx_bool :: "'a :: zero matrix \<Rightarrow> bool" where
  "mx_bool m \<longleftrightarrow> list_all (\<lambda>i. mx_at m i \<noteq> 0) [0..<mx_length m]"

definition mx_equals :: "'a :: linordered_idom matrix \<Rightarrow> 'a matrix \<Rightarrow> 'a \<Rightarrow> bool" where
  "mx_equals a b eps \<longleftrightarrow> list_all (\<lambda>i. \<not> \<bar>mx_at a i - mx_at b i\<bar> > eps) [0..<mx_length a]"

definition norm_sqr :: "'a :: comm_ring_1 matrix \<Rightarrow> 'a" where
  "norm_sqr m = fold (\<lambda>c s. s + c * c) (cells m) 0"

definition mx_sum :: "'a :: comm_ring_1 matrix \<Rightarrow> 'a" where
  "mx_sum m = fold (\<lambda>c s. s + c) (cells m) 0"

definition mx_mean :: "'a :: field matrix \<Rightarrow> 'a" where
  "mx_mean m = mx_sum m / of_nat (num_rows m * num_cols m)"

definition mx_trace :: "'a :: comm_ring_1 matrix \<Rightarrow> 'a" where
  "mx_trace m = mx_sum (get_diag m)"

section \<open>Inversion\<close>

definition swap_row :: "nat \<Rightarrow> nat \<Rightarrow> 'a :: zero matrix \<Rightarrow> 'a matrix" where
  "swap_row r0 r1 m = (let x = mx_row r0 m; y = mx_row r1 m in mx_update r0 0 y (mx_update r1 0 x m))"

definition scale_row :: "nat \<Rightarrow> 'a :: comm_ring_1 \<Rightarrow> 'a matrix \<Rightarrow> 'a matrix" where
  "scale_row r scale m = mx_update r 0 (mx_scale scale (mx_row r m)) m"

definition scale_add :: "nat \<Rightarrow> 'a :: comm_ring_1 matrix \<Rightarrow> 'a \<Rightarrow> 'a matrix \<Rightarrow> 'a matrix" where
  "scale_add r v scale m = mx_update r 0 (mx_plus (mx_row r m) (mx_scale scale v)) m"

text \<open>The search for a coefficient that is not zero, and the clearing of the column by its row.\<close>

function find_lead :: "'a :: zero matrix \<Rightarrow> nat \<Rightarrow> nat \<Rightarrow> nat" where
  "find_lead s c r = (if r < num_rows s \<and> mx_get s r c = 0 then find_lead s c (r + 1) else r)"
  by pat_completeness auto
termination by (relation "measure (\<lambda>(s, _, r). num_rows s - r)") auto

declare find_lead.simps [simp del]

definition clear_row :: "nat \<Rightarrow> nat \<Rightarrow> nat \<Rightarrow> 'a :: field matrix \<times> 'a matrix \<Rightarrow> 'a matrix \<times> 'a matrix" where
  "clear_row c r r0 sR =
     (if r0 = r then sR
      else let scale = - mx_get (fst sR) r0 c in
        if scale = 0 then sR
        else (scale_add r0 (mx_row r (fst sR)) scale (fst sR), scale_add r0 (mx_row r (snd sR)) scale (snd sR)))"

definition inv_column :: "nat \<Rightarrow> 'a :: field matrix \<times> 'a matrix \<Rightarrow> ('a matrix \<times> 'a matrix) option" where
  "inv_column c sR =
     (let s = fst sR; R = snd sR; r = find_lead s c c in
      if r = num_rows s then None
      else let s = (if r \<noteq> c then swap_row r c s else s); R = (if r \<noteq> c then swap_row r c R else R);
               divider = 1 / mx_get s c c
           in Some (fold (clear_row c c) [0..<num_rows s] (scale_row c divider s, scale_row c divider R)))"

fun inv_columns :: "nat list \<Rightarrow> 'a :: field matrix \<times> 'a matrix \<Rightarrow> ('a matrix \<times> 'a matrix) option" where
  "inv_columns [] sR = Some sR"
| "inv_columns (c # cs) sR = (case inv_column c sR of None \<Rightarrow> None | Some sR \<Rightarrow> inv_columns cs sR)"

definition mx_inv :: "'a :: field matrix \<Rightarrow> 'a matrix option" where
  "mx_inv m = map_option snd (inv_columns [0..<num_cols m] (m, eye (num_rows m) (num_cols m)))"

section \<open>Entries\<close>

named_theorems mx_simps

lemma index_bound: "i < r \<Longrightarrow> j < c \<Longrightarrow> i * c + j < r * (c :: nat)"
proof -
  assume "i < r" "j < c"
  then have "i * c + j < Suc i * c" by simp
  also have "\<dots> \<le> r * c" using \<open>i < r\<close> by (intro mult_le_mono1) simp
  finally show ?thesis .
qed

lemma index_inj: "j < c \<Longrightarrow> l < c \<Longrightarrow> i * c + j = k * c + l \<longleftrightarrow> i = k \<and> j = (l :: nat)"
proof
  assume "j < c" "l < c" "i * c + j = k * c + l"
  then have "(i * c + j) div c = (k * c + l) div c" "(i * c + j) mod c = (k * c + l) mod c" by simp_all
  then show "i = k \<and> j = l" using \<open>j < c\<close> \<open>l < c\<close> by simp
qed simp

lemma set_wf [mx_simps]: "mx_wf r c m \<Longrightarrow> mx_wf r c (set_at i v m)" "mx_wf r c m \<Longrightarrow> mx_wf r c (mx_set k l v m)"
  by (simp_all add: mx_wf_def set_at_def mx_set_def)

lemma empty_wf [mx_simps]: "mx_wf r c (mx_empty r c)"
  by (simp add: mx_wf_def mx_empty_def)

lemma get_set:
  assumes "mx_wf r c m" "i < r" "j < c" "k < r" "l < c"
  shows "mx_get (mx_set k l v m) i j = (if i = k \<and> j = l then v else mx_get m i j)"
  using assms index_bound [of k r l c] index_inj [of j c l i k]
  by (auto simp: mx_get_def mx_set_def set_at_def mx_wf_def nth_list_update)

lemma mx_eqI: "mx_wf r c a \<Longrightarrow> mx_wf r c b \<Longrightarrow> (\<And>i j. i < r \<Longrightarrow> j < c \<Longrightarrow> mx_get a i j = mx_get b i j) \<Longrightarrow> a = b"
proof -
  assume w: "mx_wf r c a" "mx_wf r c b" and e: "\<And>i j. i < r \<Longrightarrow> j < c \<Longrightarrow> mx_get a i j = mx_get b i j"
  have "cells a ! n = cells b ! n" if "n < r * c" for n
  proof -
    have c: "c > 0" using that by (cases c) auto
    then have "n div c < r" "n mod c < c" using that by (auto simp: less_mult_imp_div_less)
    from e [OF this] show ?thesis using w by (simp add: mx_get_def mx_wf_def)
  qed
  then show ?thesis using w by (cases a; cases b) (auto simp: mx_wf_def list_eq_iff_nth_eq)
qed

text \<open>A row of writes, and a block of rows: the loops of the code.\<close>

lemma fold_cols:
  assumes "mx_wf r c m" "k < r" "d + n \<le> c"
  shows "mx_wf r c (fold (\<lambda>j. mx_set k (d + j) (f j)) [0..<n] m) \<and> (\<forall>i < r. \<forall>j < c.
    mx_get (fold (\<lambda>j. mx_set k (d + j) (f j)) [0..<n] m) i j = (if i = k \<and> d \<le> j \<and> j < d + n then f (j - d) else mx_get m i j))"
  using assms(3)
proof (induction n)
  case (Suc n)
  then have IH: "mx_wf r c (fold (\<lambda>j. mx_set k (d + j) (f j)) [0..<n] m)" "\<forall>i < r. \<forall>j < c.
    mx_get (fold (\<lambda>j. mx_set k (d + j) (f j)) [0..<n] m) i j = (if i = k \<and> d \<le> j \<and> j < d + n then f (j - d) else mx_get m i j)" by simp_all
  have n: "d + n < c" using Suc.prems by simp
  show ?case using IH(2) get_set [OF IH(1) _ _ assms(2) n] set_wf(2) [OF IH(1)] by auto
qed (use assms(1) in auto)

lemma fold_block:
  assumes "mx_wf r c m" "b + n \<le> r" "d + k \<le> c"
  shows "mx_wf r c (fold (\<lambda>i. fold (\<lambda>j. mx_set (b + i) (d + j) (f i j)) [0..<k]) [0..<n] m) \<and> (\<forall>i < r. \<forall>j < c.
    mx_get (fold (\<lambda>i. fold (\<lambda>j. mx_set (b + i) (d + j) (f i j)) [0..<k]) [0..<n] m) i j
      = (if b \<le> i \<and> i < b + n \<and> d \<le> j \<and> j < d + k then f (i - b) (j - d) else mx_get m i j))"
  using assms(2)
proof (induction n)
  case (Suc n)
  let ?m = "fold (\<lambda>i. fold (\<lambda>j. mx_set (b + i) (d + j) (f i j)) [0..<k]) [0..<n] m"
  have IH: "mx_wf r c ?m" "\<forall>i < r. \<forall>j < c. mx_get ?m i j = (if b \<le> i \<and> i < b + n \<and> d \<le> j \<and> j < d + k then f (i - b) (j - d) else mx_get m i j)"
    using Suc by simp_all
  have n: "b + n < r" using Suc.prems by simp
  note fc = fold_cols [OF IH(1) n assms(3), of "f n"]
  show ?case using fc IH(2) by (auto simp: less_Suc_eq)
qed (use assms(1) in auto)

lemma get_update:
  assumes "mx_wf r c m" "mx_wf n k x" "b + n \<le> r" "d + k \<le> c"
  shows "mx_wf r c (mx_update b d x m)" "i < r \<Longrightarrow> j < c \<Longrightarrow> mx_get (mx_update b d x m) i j
    = (if b \<le> i \<and> i < b + n \<and> d \<le> j \<and> j < d + k then mx_get x (i - b) (j - d) else mx_get m i j)"
  using fold_block [OF assms(1,3,4), of "mx_get x"] assms(2) by (simp_all add: mx_update_def mx_wf_def)
text \<open>The loops over the flat array.\<close>

lemma fold_flat:
  "n \<le> length (cells m) \<Longrightarrow> fold (\<lambda>i m. set_at i (g i (mx_at m i)) m) [0..<n] m
     = Matrix (num_rows m) (num_cols m) (map (\<lambda>i. g i (cells m ! i)) [0..<n] @ drop n (cells m))"
proof (induction n)
  case 0
  then show ?case by (cases m) simp
next
  case (Suc n)
  let ?xs = "map (\<lambda>i. g i (cells m ! i)) [0..<n]"
  have d: "drop n (cells m) = cells m ! n # drop (Suc n) (cells m)" using Suc.prems by (simp add: drop_eq_nth_Cons)
  have "(?xs @ drop n (cells m)) ! n = cells m ! n" by (simp add: d nth_append)
  moreover have "(?xs @ drop n (cells m))[n := v] = ?xs @ v # drop (Suc n) (cells m)" for v by (simp add: d list_update_append)
  ultimately show ?case using Suc by (simp add: set_at_def mx_at_def)
qed

lemma fold_flat_const:
  "n \<le> length (cells m) \<Longrightarrow> fold (\<lambda>i. set_at i (f i)) [0..<n] m = Matrix (num_rows m) (num_cols m) (map f [0..<n] @ drop n (cells m))"
  using fold_flat [of n m "\<lambda>i _. f i"] by simp

lemma from_values_eq: "r * c \<le> length vs \<Longrightarrow> from_values r c vs = Matrix r c (take (r * c) vs)"
  by (simp add: from_values_def fold_flat_const mx_empty_def map_nth_upt_eq)

lemma all_eq: "mx_all r c v = Matrix r c (replicate (r * c) v)"
  by (simp add: mx_all_def fold_flat_const mx_empty_def map_replicate_const)

lemma unary_eq: "mx_wf r c m \<Longrightarrow> mx_unary f m = Matrix r c (map f (cells m))"
  using fold_flat [of "mx_length m" m "\<lambda>_. f"]
  by (simp add: mx_unary_def mx_length_def mx_wf_def list_eq_iff_nth_eq)

lemma binary_eq: "mx_wf r c m \<Longrightarrow> mx_wf r c x \<Longrightarrow> mx_binary f m x = Matrix r c (map2 f (cells m) (cells x))"
  using fold_flat [of "mx_length m" m "\<lambda>i v. f v (mx_at x i)"]
  by (simp add: mx_binary_def mx_length_def mx_wf_def list_eq_iff_nth_eq mx_at_def)

lemma get_unary:
  assumes "mx_wf r c m"
  shows "mx_wf r c (mx_unary f m)" "i < r \<Longrightarrow> j < c \<Longrightarrow> mx_get (mx_unary f m) i j = f (mx_get m i j)"
  using assms unary_eq [OF assms] index_bound [of i r j c] by (auto simp: mx_wf_def mx_get_def)

lemma get_binary:
  assumes "mx_wf r c m" "mx_wf r c x"
  shows "mx_wf r c (mx_binary f m x)" "i < r \<Longrightarrow> j < c \<Longrightarrow> mx_get (mx_binary f m x) i j = f (mx_get m i j) (mx_get x i j)"
  using assms binary_eq [OF assms] index_bound [of i r j c] by (auto simp: mx_wf_def mx_get_def)

lemma at_get: "mx_wf 1 c m \<Longrightarrow> mx_at m j = mx_get m 0 j" "mx_wf r 1 m \<Longrightarrow> mx_at m i = mx_get m i 0"
  by (simp_all add: mx_at_def mx_get_def mx_wf_def)

lemma get_row:
  assumes "mx_wf r c m" "n < r"
  shows "mx_wf 1 c (mx_row n m)" "j < c \<Longrightarrow> mx_get (mx_row n m) 0 j = mx_get m n j"
proof -
  have "n * c + c \<le> r * c" using mult_le_mono1 [of "Suc n" r c] assms(2) by simp
  then have "mx_row n m = Matrix 1 c (take c (drop (n * c) (cells m)))" using assms(1) by (simp add: mx_row_def mx_wf_def from_values_eq)
  moreover have "length (take c (drop (n * c) (cells m))) = c" using \<open>n * c + c \<le> r * c\<close> assms(1) by (simp add: mx_wf_def)
  ultimately show "mx_wf 1 c (mx_row n m)" "j < c \<Longrightarrow> mx_get (mx_row n m) 0 j = mx_get m n j"
    using assms \<open>n * c + c \<le> r * c\<close> by (simp_all add: mx_wf_def mx_get_def)
qed

lemma get_col:
  assumes "mx_wf r c m" "n < c"
  shows "mx_wf r 1 (mx_col n m)" "i < r \<Longrightarrow> mx_get (mx_col n m) i 0 = mx_get m i n"
  using assms by (simp_all add: mx_col_def fold_flat_const mx_empty_def mx_wf_def mx_get_def mx_at_def add.commute)

lemma get_times:
  assumes "mx_wf r n a" "mx_wf n c b" "n > 0"
  shows "mx_wf r c (mx_times a b)" "i < r \<Longrightarrow> j < c \<Longrightarrow> mx_get (mx_times a b) i j = (\<Sum>k<n. mx_get a i k * mx_get b k j)"
proof -
  have d: "num_rows a = r" "num_cols a = n" "num_cols b = c" using assms by (simp_all add: mx_wf_def)
  have dot: "mx_dot (mx_row i a) (mx_col j b) = (\<Sum>k<n. mx_get a i k * mx_get b k j)" if "i < r" "j < c" for i j
  proof -
    have l: "long_dim (mx_row i a) = n" using get_row(1) [OF assms(1) that(1)] assms(3) by (simp add: long_dim_def mx_wf_def)
    have "mx_at (mx_row i a) k = mx_get a i k" "mx_at (mx_col j b) k = mx_get b k j" if "k < n" for k
      using get_row [OF assms(1) \<open>i < r\<close>] get_col [OF assms(2) \<open>j < c\<close>] that at_get by metis+
    then show ?thesis by (simp add: mx_dot_def l fold_sum)
  qed
  have m: "mx_times a b = fold (\<lambda>i. fold (\<lambda>j. mx_set (0 + i) (0 + j) (mx_dot (mx_row i a) (mx_col j b))) [0..<c]) [0..<r] (mx_empty r c)"
    by (simp add: mx_times_def d)
  note fb = fold_block [where b = 0 and d = 0 and n = r and k = c and f = "\<lambda>i j. mx_dot (mx_row i a) (mx_col j b)", OF empty_wf [of r c], folded m]
  show "mx_wf r c (mx_times a b)" using fb by simp
  show "i < r \<Longrightarrow> j < c \<Longrightarrow> mx_get (mx_times a b) i j = (\<Sum>k<n. mx_get a i k * mx_get b k j)" using fb dot by simp
qed

lemma get_transposed:
  assumes "mx_wf r c m"
  shows "mx_wf c r (transposed m)" "i < c \<Longrightarrow> j < r \<Longrightarrow> mx_get (transposed m) i j = mx_get m j i"
proof -
  have step: "mx_wf c r (fold (\<lambda>j. mx_set j k (f j)) [0..<n] x) \<and> (\<forall>i < c. \<forall>j < r. mx_get (fold (\<lambda>j. mx_set j k (f j)) [0..<n] x) i j
      = (if j = k \<and> i < n then f i else mx_get x i j))" if "mx_wf c r x" "k < r" "n \<le> c" for k n x and f :: "nat \<Rightarrow> 'a"
    using that(3)
  proof (induction n)
    case (Suc n)
    then have IH: "mx_wf c r (fold (\<lambda>j. mx_set j k (f j)) [0..<n] x)" "\<forall>i < c. \<forall>j < r. mx_get (fold (\<lambda>j. mx_set j k (f j)) [0..<n] x) i j
      = (if j = k \<and> i < n then f i else mx_get x i j)" by simp_all
    show ?case using IH(2) get_set [OF IH(1) _ _ _ that(2), of _ _ n] set_wf(2) [OF IH(1)] Suc.prems by auto
  qed (use that in auto)
  have "mx_wf c r (fold (\<lambda>i. fold (\<lambda>j. mx_set j i (mx_get m i j)) [0..<c]) [0..<n] (mx_empty c r)) \<and> (\<forall>i < c. \<forall>j < n.
      mx_get (fold (\<lambda>i. fold (\<lambda>j. mx_set j i (mx_get m i j)) [0..<c]) [0..<n] (mx_empty c r)) i j = mx_get m j i)" if "n \<le> r" for n
    using that
  proof (induction n)
    case (Suc n)
    let ?x = "fold (\<lambda>i. fold (\<lambda>j. mx_set j i (mx_get m i j)) [0..<c]) [0..<n] (mx_empty c r)"
    have IH: "mx_wf c r ?x" "\<forall>i < c. \<forall>j < n. mx_get ?x i j = mx_get m j i" using Suc by simp_all
    show ?case using step [OF IH(1), of n c "mx_get m n"] IH(2) Suc.prems by (auto simp: less_Suc_eq)
  qed (auto simp: empty_wf)
  from this [of r] show "mx_wf c r (transposed m)" "i < c \<Longrightarrow> j < r \<Longrightarrow> mx_get (transposed m) i j = mx_get m j i"
    using assms by (auto simp: transposed_def mx_wf_def)
qed

lemma get_eye:
  "mx_wf n n (eye n n :: 'b :: zero_neq_one matrix)" "i < n \<Longrightarrow> j < n \<Longrightarrow> mx_get (eye n n :: 'b matrix) i j = (if i = j then 1 else 0)"
proof -
  have "mx_wf n n (fold (\<lambda>i. mx_set i i (1 :: 'b)) [0..<k] (mx_empty n n)) \<and> (\<forall>i < n. \<forall>j < n.
      mx_get (fold (\<lambda>i. mx_set i i (1 :: 'b)) [0..<k] (mx_empty n n)) i j = (if i = j \<and> i < k then 1 else 0))" if "k \<le> n" for k
    using that
  proof (induction k)
    case 0
    have "mx_get (mx_empty n n :: 'b matrix) i j = 0" if "i < n" "j < n" for i j
      using index_bound [OF that] by (simp add: mx_get_def mx_empty_def)
    then show ?case by (simp add: empty_wf)
  next
    case (Suc k)
    let ?x = "fold (\<lambda>i. mx_set i i (1 :: 'b)) [0..<k] (mx_empty n n)"
    have IH: "mx_wf n n ?x" "\<forall>i < n. \<forall>j < n. mx_get ?x i j = (if i = j \<and> i < k then 1 else 0)" using Suc by simp_all
    show ?case using IH(2) get_set [OF IH(1), of _ _ k k] set_wf(2) [OF IH(1)] Suc.prems by auto
  qed
  note k = this [of n]
  have e: "(eye n n :: 'b matrix) = fold (\<lambda>i. mx_set i i 1) [0..<n] (mx_empty n n)"
  proof -
    have "fold (\<lambda>i. mx_set i i (mx_at (mx_all n 1 (1 :: 'b)) i)) [0..<n] m = fold (\<lambda>i. mx_set i i 1) [0..<n] m" for m
      by (rule fold_cong) (auto simp: all_eq mx_at_def)
    then show ?thesis by (simp add: eye_def from_diag_def set_diag_def short_dim_def mx_empty_def)
  qed
  show "mx_wf n n (eye n n :: 'b matrix)" "i < n \<Longrightarrow> j < n \<Longrightarrow> mx_get (eye n n) i j = (if i = j then 1 else 0 :: 'b)"
    using k unfolding e by auto
qed
section \<open>Square tables\<close>

text \<open>The entries of a square matrix as a function of two indices below \<open>n\<close>.\<close>

type_synonym 'a table = "nat \<Rightarrow> nat \<Rightarrow> 'a"

definition tb_times :: "nat \<Rightarrow> 'a :: comm_ring_1 table \<Rightarrow> 'a table \<Rightarrow> 'a table" where
  "tb_times n f g i j = (\<Sum>k<n. f i k * g k j)"

definition tb_one :: "'a :: comm_ring_1 table" where
  "tb_one i j = (if i = j then 1 else 0)"

definition tb_eq :: "nat \<Rightarrow> 'a table \<Rightarrow> 'a table \<Rightarrow> bool" where
  "tb_eq n f g \<longleftrightarrow> (\<forall>i < n. \<forall>j < n. f i j = g i j)"

lemma tb_times_assoc: "(\<Sum>k<n. (\<Sum>l<m. f i l * g l k) * h k j) = (\<Sum>l<m. f i l * (\<Sum>k<n. g l k * (h k j :: 'a :: comm_ring_1)))"
  by (simp add: sum_distrib_left sum_distrib_right sum.swap [of _ "{..<n}"] mult.assoc)

lemma sum_pick: "k < (n :: nat) \<Longrightarrow> (\<Sum>i<n. (if i = k then f i else (0 :: 'a :: comm_monoid_add))) = f k"
  by (simp add: sum.delta)

lemma sum_unit:
  assumes "i < (n :: nat)" "\<forall>k < n. u k = (if i = k then 1 else 0)"
  shows "(\<Sum>k<n. u k * f k) = (f i :: 'a :: comm_ring_1)" "(\<Sum>k<n. f k * u k) = f i"
proof -
  have "(\<Sum>k<n. u k * f k) = (\<Sum>k<n. if k = i then f k else 0)" using assms(2) by (intro sum.cong) auto
  then show "(\<Sum>k<n. u k * f k) = f i" using assms(1) by (simp add: sum_pick)
  then show "(\<Sum>k<n. f k * u k) = f i" by (simp add: mult.commute)
qed

text \<open>The row operations on the entries.\<close>

definition tb_swap :: "nat \<Rightarrow> nat \<Rightarrow> 'a table \<Rightarrow> 'a table" where
  "tb_swap a b f i = f (if i = a then b else if i = b then a else i)"

definition tb_scale :: "nat \<Rightarrow> 'a :: comm_ring_1 \<Rightarrow> 'a table \<Rightarrow> 'a table" where
  "tb_scale r d f i j = (if i = r then f i j * d else f i j)"

definition tb_add :: "nat \<Rightarrow> nat \<Rightarrow> 'a :: comm_ring_1 \<Rightarrow> 'a table \<Rightarrow> 'a table" where
  "tb_add r0 r t f i j = (if i = r0 then f i j + f r j * t else f i j)"

text \<open>A row operation on both \<open>R\<close> and \<open>s\<close> keeps \<open>R * A = s\<close>, and a left inverse of \<open>R\<close>.\<close>

definition left_inverse :: "nat \<Rightarrow> 'a :: comm_ring_1 table \<Rightarrow> bool" where
  "left_inverse n R \<longleftrightarrow> (\<exists>L. tb_eq n (tb_times n L R) tb_one)"

definition reduces :: "nat \<Rightarrow> 'a :: comm_ring_1 table \<Rightarrow> 'a table \<Rightarrow> 'a table \<Rightarrow> bool" where
  "reduces n A s R \<longleftrightarrow> tb_eq n (tb_times n R A) s \<and> left_inverse n R"

lemma reduces_swap: "reduces n A s R \<Longrightarrow> a < n \<Longrightarrow> b < n \<Longrightarrow> reduces n A (tb_swap a b s) (tb_swap a b R)"
proof -
  assume r: "reduces n A s R" and ab: "a < n" "b < n"
  let ?p = "\<lambda>i. if i = a then b else if i = b then a else i"
  obtain L where L: "tb_eq n (tb_times n L R) tb_one" using r by (auto simp: reduces_def left_inverse_def)
  have "tb_times n (\<lambda>i k. L i (?p k)) (tb_swap a b R) i j = tb_times n L R i j" for i j
    unfolding tb_times_def tb_swap_def
    by (rule sum.reindex_bij_witness [where i = ?p and j = ?p]) (use ab in \<open>auto split: if_splits\<close>)
  then have "left_inverse n (tb_swap a b R)"
    unfolding left_inverse_def by (intro exI [where x = "\<lambda>i k. L i (?p k)"]) (use L in \<open>simp add: tb_eq_def\<close>)
  moreover have "tb_eq n (tb_times n (tb_swap a b R) A) (tb_swap a b s)"
    using r ab by (simp add: reduces_def tb_eq_def tb_swap_def tb_times_def)
  ultimately show ?thesis by (simp add: reduces_def)
qed

lemma reduces_scale: "reduces n A s R \<Longrightarrow> d \<noteq> 0 \<Longrightarrow> reduces n A (tb_scale r d s) (tb_scale r (d :: 'a :: field) R)"
proof -
  assume r: "reduces n A s R" and d: "d \<noteq> 0"
  obtain L where L: "tb_eq n (tb_times n L R) tb_one" using r by (auto simp: reduces_def left_inverse_def)
  have "tb_times n (\<lambda>i k. if k = r then L i k / d else L i k) (tb_scale r d R) i j = tb_times n L R i j" for i j
    unfolding tb_times_def tb_scale_def using d by (intro sum.cong) auto
  then have "left_inverse n (tb_scale r d R)"
    unfolding left_inverse_def by (intro exI [where x = "\<lambda>i k. if k = r then L i k / d else L i k"]) (use L in \<open>simp add: tb_eq_def\<close>)
  moreover have "tb_eq n (tb_times n (tb_scale r d R) A) (tb_scale r d s)"
  proof -
    have "(\<Sum>k<n. R i k * d * A k j) = (\<Sum>k<n. R i k * A k j) * d" for i j
      unfolding sum_distrib_right by (rule sum.cong) (simp_all add: mult.commute mult.left_commute)
    then show ?thesis using r by (simp add: reduces_def tb_eq_def tb_scale_def tb_times_def)
  qed
  ultimately show ?thesis by (simp add: reduces_def)
qed

lemma reduces_add:
  assumes r: "reduces n A s R" and i: "r0 < n" "r < n" "r0 \<noteq> r"
  shows "reduces n A (tb_add r0 r t s) (tb_add r0 r t R)"
proof -
  obtain L where L: "tb_eq n (tb_times n L R) tb_one" using r by (auto simp: reduces_def left_inverse_def)
  have "tb_times n (\<lambda>i k. if k = r then L i r - L i r0 * t else L i k) (tb_add r0 r t R) i j = tb_times n L R i j" for i j
  proof -
    have "(\<Sum>k<n. (if k = r then L i r - L i r0 * t else L i k) * tb_add r0 r t R k j)
        = (\<Sum>k<n. L i k * R k j + (if k = r then - (L i r0 * t * R r j) else 0) + (if k = r0 then L i r0 * (R r j * t) else 0))"
    proof (rule sum.cong [OF refl])
      fix k
      show "(if k = r then L i r - L i r0 * t else L i k) * tb_add r0 r t R k j
          = L i k * R k j + (if k = r then - (L i r0 * t * R r j) else 0) + (if k = r0 then L i r0 * (R r j * t) else 0)"
        using i(3) by (cases "k = r"; cases "k = r0") (simp_all add: tb_add_def algebra_simps)
    qed
    also have "\<dots> = (\<Sum>k<n. L i k * R k j)"
      unfolding sum.distrib using i(1,2) by (simp add: sum_pick)
    finally show ?thesis by (simp add: tb_times_def)
  qed
  then have "left_inverse n (tb_add r0 r t R)"
    unfolding left_inverse_def by (intro exI [where x = "\<lambda>i k. if k = r then L i r - L i r0 * t else L i k"]) (use L in \<open>simp add: tb_eq_def\<close>)
  moreover have "tb_times n (tb_add r0 r t R) A i j = tb_add r0 r t s i j" if "i < n" "j < n" for i j
  proof (cases "i = r0")
    case True
    have "(\<Sum>k<n. (R r0 k + R r k * t) * A k j) = (\<Sum>k<n. R r0 k * A k j) + (\<Sum>k<n. R r k * A k j) * t"
      by (simp add: algebra_simps sum.distrib sum_distrib_left sum_distrib_right)
    then show ?thesis using r i that True by (simp add: reduces_def tb_eq_def tb_add_def tb_times_def)
  next
    case False
    then show ?thesis using r that by (simp add: reduces_def tb_eq_def tb_add_def tb_times_def)
  qed
  then have "tb_eq n (tb_times n (tb_add r0 r t R) A) (tb_add r0 r t s)" by (simp add: tb_eq_def)
  ultimately show ?thesis by (simp add: reduces_def)
qed

text \<open>When \<open>s\<close> is the identity, \<open>R\<close> is the inverse on both sides; when a column of \<open>s\<close> has no lead, \<open>A\<close> has no inverse.\<close>

lemma reduces_one:
  assumes "reduces n A s R" "tb_eq n s tb_one"
  shows "tb_eq n (tb_times n R A) tb_one" "tb_eq n (tb_times n A R) tb_one"
proof -
  obtain L where L: "tb_eq n (tb_times n L R) tb_one" using assms(1) by (auto simp: reduces_def left_inverse_def)
  show RA: "tb_eq n (tb_times n R A) tb_one" using assms by (simp add: reduces_def tb_eq_def)
  have "L i j = A i j" if ij: "i < n" "j < n" for i j
  proof -
    have "(\<Sum>k<n. L i k * (\<Sum>l<n. R k l * A l j)) = L i j"
      using RA ij(2) by (intro sum_unit(2)) (auto simp: tb_eq_def tb_times_def tb_one_def)
    moreover have "(\<Sum>l<n. (\<Sum>k<n. L i k * R k l) * A l j) = A i j"
      using L ij(1) by (intro sum_unit(1)) (auto simp: tb_eq_def tb_times_def tb_one_def)
    ultimately show ?thesis using tb_times_assoc [where f = L and g = R and h = A] by metis
  qed
  then have "tb_times n A R i j = tb_times n L R i j" if "i < n" for i j using that by (simp add: tb_times_def)
  then show "tb_eq n (tb_times n A R) tb_one" using L by (simp add: tb_eq_def)
qed

lemma no_lead_singular:
  assumes r: "reduces n A s R" and c: "c < n" and units: "\<forall>i < n. \<forall>k < c. s i k = tb_one i k" and none: "\<forall>i < n. c \<le> i \<longrightarrow> s i c = 0"
  shows "\<nexists>B. tb_eq n (tb_times n B A) (tb_one :: 'a :: comm_ring_1 table)"
proof
  assume "\<exists>B. tb_eq n (tb_times n B A) tb_one"
  then obtain B where B: "tb_eq n (tb_times n B A) tb_one" ..
  obtain L where L: "tb_eq n (tb_times n L R) tb_one" using r by (auto simp: reduces_def left_inverse_def)
  define x where "x k = (if k = c then 1 else if k < c then - s k c else 0 :: 'a)" for k
  have sx: "(\<Sum>k<n. s i k * x k) = 0" if i: "i < n" for i
  proof -
    have "(\<Sum>k<n. s i k * x k) = (\<Sum>k<n. (if k = c then s i c else 0) + (if k = i then (if i < c then - s i c else 0) else 0))"
      using units i by (intro sum.cong) (auto simp: x_def tb_one_def)
    also have "\<dots> = s i c + (if i < c then - s i c else 0)" using c i by (simp add: sum.distrib sum_pick)
    also have "\<dots> = 0" using none i by auto
    finally show ?thesis .
  qed
  have As: "(\<Sum>k<n. L i k * s k j) = A i j" if ij: "i < n" "j < n" for i j
  proof -
    have "(\<Sum>k<n. L i k * s k j) = (\<Sum>k<n. L i k * (\<Sum>l<n. R k l * A l j))" using r ij by (simp add: reduces_def tb_eq_def tb_times_def)
    also have "\<dots> = (\<Sum>l<n. (\<Sum>k<n. L i k * R k l) * A l j)" by (simp add: tb_times_assoc)
    also have "\<dots> = A i j" using L ij(1) by (intro sum_unit(1)) (auto simp: tb_eq_def tb_times_def tb_one_def)
    finally show ?thesis .
  qed
  have Ax: "(\<Sum>k<n. A i k * x k) = 0" if i: "i < n" for i
  proof -
    have "(\<Sum>k<n. A i k * x k) = (\<Sum>k<n. (\<Sum>l<n. L i l * s l k) * x k)" using As i by simp
    also have "\<dots> = (\<Sum>l<n. L i l * (\<Sum>k<n. s l k * x k))" by (simp add: tb_times_assoc [where h = "\<lambda>k _. x k"])
    also have "\<dots> = 0" using sx by simp
    finally show ?thesis .
  qed
  have "x c = (\<Sum>k<n. (\<Sum>l<n. B c l * A l k) * x k)"
    using B c by (intro sum_unit(1) [symmetric]) (auto simp: tb_eq_def tb_times_def tb_one_def)
  also have "\<dots> = (\<Sum>l<n. B c l * (\<Sum>k<n. A l k * x k))" by (simp add: tb_times_assoc [where h = "\<lambda>k _. x k"])
  also have "\<dots> = 0" using Ax by simp
  finally show False by (simp add: x_def)
qed
section \<open>The elimination\<close>

lemma tb_eq_trans: "tb_eq n f g \<Longrightarrow> tb_eq n g h \<Longrightarrow> tb_eq n f h"
  by (simp add: tb_eq_def)

lemma reduces_cong: "tb_eq n s s' \<Longrightarrow> tb_eq n R R' \<Longrightarrow> reduces n A s R \<Longrightarrow> reduces n A s' R'"
  by (auto simp: reduces_def left_inverse_def tb_eq_def tb_times_def)

lemma row_ops:
  assumes m: "mx_wf n n m" and i: "a < n" "b < n"
  shows "mx_wf n n (swap_row a b m)" "tb_eq n (mx_get (swap_row a b m)) (tb_swap a b (mx_get m))"
    and "mx_wf n n (scale_row a d m)" "tb_eq n (mx_get (scale_row a d m)) (tb_scale a d (mx_get m))"
    and "mx_wf n n (scale_add a (mx_row b m) d m)" "tb_eq n (mx_get (scale_add a (mx_row b m) d m)) (tb_add a b d (mx_get m))"
proof -
  have bound: "a + 1 \<le> n" "b + 1 \<le> n" "0 + n \<le> n" using i by simp_all
  have one: "k \<le> j \<and> j < k + 1 \<longleftrightarrow> j = k" for j k :: nat by auto
  note rw = get_row [OF m i(1)] and rb = get_row [OF m i(2)]
  note u1 = get_update [OF m rw(1) bound(2,3)]
  note u2 = get_update [OF u1(1) rb(1) bound(1,3)]
  show "mx_wf n n (swap_row a b m)" using u2(1) by (simp add: swap_row_def)
  show "tb_eq n (mx_get (swap_row a b m)) (tb_swap a b (mx_get m))"
    using u1(2) u2(2) rw(2) rb(2) unfolding one by (auto simp: swap_row_def tb_eq_def tb_swap_def)
  note g = get_unary [where f = "\<lambda>v. v * d", OF rw(1), folded mx_scale_def]
  note u = get_update [OF m g(1) bound(1,3)]
  show "mx_wf n n (scale_row a d m)" using u(1) by (simp add: scale_row_def)
  show "tb_eq n (mx_get (scale_row a d m)) (tb_scale a d (mx_get m))"
    using u(2) g(2) rw(2) unfolding one by (auto simp: scale_row_def tb_eq_def tb_scale_def)
  note h = get_unary [where f = "\<lambda>v. v * d", OF rb(1), folded mx_scale_def]
  note p = get_binary [where f = "(+)", OF rw(1) h(1), folded mx_plus_def]
  note v = get_update [OF m p(1) bound(1,3)]
  show "mx_wf n n (scale_add a (mx_row b m) d m)" using v(1) by (simp add: scale_add_def)
  show "tb_eq n (mx_get (scale_add a (mx_row b m) d m)) (tb_add a b d (mx_get m))"
    using v(2) p(2) h(2) rw(2) rb(2) unfolding one by (auto simp: scale_add_def tb_eq_def tb_add_def)
qed

definition reduced :: "nat \<Rightarrow> 'a :: field table \<Rightarrow> nat \<Rightarrow> 'a matrix \<times> 'a matrix \<Rightarrow> bool" where
  "reduced n A c sR \<longleftrightarrow> mx_wf n n (fst sR) \<and> mx_wf n n (snd sR) \<and> reduces n A (mx_get (fst sR)) (mx_get (snd sR))
     \<and> (\<forall>i < n. \<forall>k < c. mx_get (fst sR) i k = tb_one i k)"

lemma find_lead_spec:
  "r \<le> num_rows s \<Longrightarrow> r \<le> find_lead s c r \<and> find_lead s c r \<le> num_rows s
     \<and> (\<forall>i. r \<le> i \<and> i < find_lead s c r \<longrightarrow> mx_get s i c = 0) \<and> (find_lead s c r < num_rows s \<longrightarrow> mx_get s (find_lead s c r) c \<noteq> 0)"
proof (induction s c r rule: find_lead.induct)
  case (1 s c r)
  show ?case
  proof (cases "r < num_rows s \<and> mx_get s r c = 0")
    case True
    then show ?thesis using 1 find_lead.simps [of s c r] by (auto simp: le_Suc_eq Suc_le_eq intro: le_neq_implies_less)
  next
    case False
    then show ?thesis using 1 find_lead.simps [of s c r] by auto
  qed
qed

lemma clear_row_step:
  assumes r: "reduced n A c sR" and c: "c < n" "r0 < n" and lead: "mx_get (fst sR) c c = 1"
  shows "reduced n A c (clear_row c c r0 sR)" "mx_get (fst (clear_row c c r0 sR)) c c = 1"
    "\<forall>i < n. mx_get (fst (clear_row c c r0 sR)) i c = (if i = r0 \<and> i \<noteq> c then 0 else mx_get (fst sR) i c)"
proof -
  let ?s = "fst sR" and ?R = "snd sR"
  have w: "mx_wf n n ?s" "mx_wf n n ?R" "reduces n A (mx_get ?s) (mx_get ?R)" "\<forall>i < n. \<forall>k < c. mx_get ?s i k = tb_one i k"
    using r by (simp_all add: reduced_def)
  consider "r0 = c" | "r0 \<noteq> c" "- mx_get ?s r0 c = 0" | "r0 \<noteq> c" "- mx_get ?s r0 c \<noteq> 0" by blast
  then have "reduced n A c (clear_row c c r0 sR) \<and> mx_get (fst (clear_row c c r0 sR)) c c = 1
    \<and> (\<forall>i < n. mx_get (fst (clear_row c c r0 sR)) i c = (if i = r0 \<and> i \<noteq> c then 0 else mx_get (fst sR) i c))"
  proof cases
    case 3
    let ?t = "- mx_get ?s r0 c"
    note os = row_ops(5,6) [OF w(1) c(2,1), of ?t] and oR = row_ops(5,6) [OF w(2) c(2,1), of ?t]
    have eq: "clear_row c c r0 sR = (scale_add r0 (mx_row c ?s) ?t ?s, scale_add r0 (mx_row c ?R) ?t ?R)"
      using 3 by (simp add: clear_row_def Let_def)
    have red: "reduces n A (mx_get (scale_add r0 (mx_row c ?s) ?t ?s)) (mx_get (scale_add r0 (mx_row c ?R) ?t ?R))"
      by (rule reduces_cong [OF _ _ reduces_add [OF w(3) c(2,1) 3(1), of ?t]]) (use os(2) oR(2) in \<open>simp_all add: tb_eq_def\<close>)
    have get: "mx_get (scale_add r0 (mx_row c ?s) ?t ?s) i j = (if i = r0 then mx_get ?s i j + mx_get ?s c j * ?t else mx_get ?s i j)"
      if "i < n" "j < n" for i j using os(2) that by (simp add: tb_eq_def tb_add_def)
    have units: "mx_get (scale_add r0 (mx_row c ?s) ?t ?s) i k = tb_one i k" if "i < n" "k < c" for i k
      using get [of i k] w(4) that c(1) by (auto simp: tb_one_def)
    show ?thesis unfolding eq reduced_def fst_conv snd_conv using os(1) oR(1) red units get [OF _ c(1)] c(1) 3(1) lead by simp
  qed (use r lead in \<open>auto simp: clear_row_def Let_def\<close>)
  then show "reduced n A c (clear_row c c r0 sR)" "mx_get (fst (clear_row c c r0 sR)) c c = 1"
    "\<forall>i < n. mx_get (fst (clear_row c c r0 sR)) i c = (if i = r0 \<and> i \<noteq> c then 0 else mx_get (fst sR) i c)" by blast+
qed

lemma clear_rows:
  assumes r: "reduced n A c sR" and c: "c < n" and lead: "mx_get (fst sR) c c = 1"
  shows "reduced n A (Suc c) (fold (clear_row c c) [0..<n] sR)"
proof -
  have "reduced n A c (fold (clear_row c c) [0..<k] sR) \<and> mx_get (fst (fold (clear_row c c) [0..<k] sR)) c c = 1
      \<and> (\<forall>i < k. i \<noteq> c \<longrightarrow> mx_get (fst (fold (clear_row c c) [0..<k] sR)) i c = 0)" if "k \<le> n" for k
    using that
  proof (induction k)
    case (Suc k)
    let ?x = "fold (clear_row c c) [0..<k] sR"
    have IH: "reduced n A c ?x" "mx_get (fst ?x) c c = 1" "\<forall>i < k. i \<noteq> c \<longrightarrow> mx_get (fst ?x) i c = 0" using Suc by simp_all
    have k: "k < n" using Suc.prems by simp
    note st = clear_row_step [OF IH(1) c k IH(2)]
    have "mx_get (fst (clear_row c c k ?x)) i c = 0" if "i < Suc k" "i \<noteq> c" for i
      using st(3) IH(3) that k by (auto simp: less_Suc_eq)
    then show ?case using st(1,2) by simp
  qed (use r lead in simp)
  note f = this [of n]
  have "mx_get (fst (fold (clear_row c c) [0..<n] sR)) i k = tb_one i k" if "i < n" "k < Suc c" for i k
  proof (cases "k = c")
    case True
    then show ?thesis using f that(1) by (auto simp: tb_one_def)
  next
    case False
    then have "k < c" using that(2) by simp
    then show ?thesis using f that(1) by (simp add: reduced_def)
  qed
  then show ?thesis using f by (simp add: reduced_def)
qed

lemma inv_column_step:
  assumes r: "reduced n A c sR" and c: "c < n"
  shows "case inv_column c sR of None \<Rightarrow> \<nexists>B. tb_eq n (tb_times n B A) tb_one | Some sR \<Rightarrow> reduced n A (Suc c) sR"
proof -
  let ?s = "fst sR" and ?R = "snd sR"
  have w: "mx_wf n n ?s" "mx_wf n n ?R" "reduces n A (mx_get ?s) (mx_get ?R)" "\<forall>i < n. \<forall>k < c. mx_get ?s i k = tb_one i k"
    using r by (simp_all add: reduced_def)
  have rows: "num_rows ?s = n" using w(1) by (simp add: mx_wf_def)
  define l where "l = find_lead ?s c c"
  have l: "c \<le> l" "l \<le> n" "\<forall>i. c \<le> i \<and> i < l \<longrightarrow> mx_get ?s i c = 0" "l < n \<longrightarrow> mx_get ?s l c \<noteq> 0"
    using find_lead_spec [of c ?s c] c rows by (simp_all add: l_def)
  show ?thesis
  proof (cases "l = n")
    case True
    then have "inv_column c sR = None" by (simp add: inv_column_def Let_def rows flip: l_def)
    moreover have "\<forall>i < n. c \<le> i \<longrightarrow> mx_get ?s i c = 0" using l(3) True by simp
    ultimately show ?thesis using no_lead_singular [OF w(3) c w(4)] by simp
  next
    case False
    then have ln: "l < n" using l(2) by simp
    define s1 where "s1 = (if l \<noteq> c then swap_row l c ?s else ?s)"
    define R1 where "R1 = (if l \<noteq> c then swap_row l c ?R else ?R)"
    have sw: "tb_swap c c f = f" for f :: "'a table" by (auto simp: tb_swap_def fun_eq_iff)
    have 1: "mx_wf n n s1" "tb_eq n (mx_get s1) (tb_swap l c (mx_get ?s))" "mx_wf n n R1" "tb_eq n (mx_get R1) (tb_swap l c (mx_get ?R))"
      using row_ops(1,2) [OF w(1) ln c] row_ops(1,2) [OF w(2) ln c] w(1,2) sw by (auto simp: s1_def R1_def tb_eq_def)
    have red1: "reduces n A (mx_get s1) (mx_get R1)"
      by (rule reduces_cong [OF _ _ reduces_swap [OF w(3) ln c]]) (use 1 in \<open>simp_all add: tb_eq_def\<close>)
    have lead1: "mx_get s1 c c \<noteq> 0" using 1(2) c l(4) ln by (auto simp: tb_eq_def tb_swap_def)
    have units1: "mx_get s1 i k = tb_one i k" if "i < n" "k < c" for i k
    proof -
      have "mx_get s1 i k = mx_get ?s (if i = l then c else if i = c then l else i) k" using 1(2) that c by (simp add: tb_eq_def tb_swap_def)
      then show ?thesis using w(4) that ln c l(1) by (auto simp: tb_one_def)
    qed
    let ?d = "1 / mx_get s1 c c"
    note 2 = row_ops(3,4) [OF 1(1) c c, of ?d] and 3 = row_ops(3,4) [OF 1(3) c c, of ?d]
    have red2: "reduces n A (mx_get (scale_row c ?d s1)) (mx_get (scale_row c ?d R1))"
      by (rule reduces_cong [OF _ _ reduces_scale [OF red1, of ?d c]]) (use 2(2) 3(2) lead1 in \<open>simp_all add: tb_eq_def\<close>)
    have get2: "mx_get (scale_row c ?d s1) i k = (if i = c then mx_get s1 i k * ?d else mx_get s1 i k)" if "i < n" "k < n" for i k
      using 2(2) that by (simp add: tb_eq_def tb_scale_def)
    have "mx_get (scale_row c ?d s1) i k = tb_one i k" if "i < n" "k < c" for i k
      using get2 [of i k] units1 that c by (auto simp: tb_one_def)
    then have "reduced n A c (scale_row c ?d s1, scale_row c ?d R1)" using 2(1) 3(1) red2 by (simp add: reduced_def)
    moreover have "mx_get (fst (scale_row c ?d s1, scale_row c ?d R1)) c c = 1" using get2 [OF c c] lead1 by simp
    ultimately have "reduced n A (Suc c) (fold (clear_row c c) [0..<n] (scale_row c ?d s1, scale_row c ?d R1))"
      using clear_rows c by blast
    moreover have "inv_column c sR = Some (fold (clear_row c c) [0..<n] (scale_row c ?d s1, scale_row c ?d R1))"
    proof -
      have "num_rows (swap_row l c ?s) = n" using row_ops(1) [OF w(1) ln c] by (simp add: mx_wf_def)
      then show ?thesis using False rows by (simp add: inv_column_def Let_def s1_def R1_def flip: l_def)
    qed
    ultimately show ?thesis by simp
  qed
qed

lemma inv_columns_spec:
  "reduced n A c sR \<Longrightarrow> c \<le> n \<Longrightarrow>
   case inv_columns [c..<n] sR of None \<Rightarrow> \<nexists>B. tb_eq n (tb_times n B A) tb_one | Some sR \<Rightarrow> reduced n A n sR"
proof (induction "n - c" arbitrary: c sR)
  case 0
  then show ?case by simp
next
  case (Suc k)
  then have c: "c < n" by simp
  then have "[c..<n] = c # [Suc c..<n]" by (rule upt_conv_Cons)
  then show ?case using inv_column_step [OF Suc.prems(1) c] Suc.hyps c by (cases "inv_column c sR") auto
qed

section \<open>Properties\<close>

lemma tb_eye: "tb_eq n (mx_get (eye n n :: 'a :: comm_ring_1 matrix)) tb_one"
  by (simp add: tb_eq_def tb_one_def get_eye(2))

lemma tb_times_mx:
  fixes a b :: "'a :: field matrix"
  assumes "mx_wf n n a" "mx_wf n n b" "n > 0"
  shows "mx_times a b = eye n n \<longleftrightarrow> tb_eq n (tb_times n (mx_get a) (mx_get b)) tb_one"
proof
  have unit: "mx_get (eye n n :: 'a matrix) i j = tb_one i j" if "i < n" "j < n" for i j
    using tb_eye [where n = n and 'a = 'a] that by (simp add: tb_eq_def)
  assume e: "mx_times a b = eye n n"
  show "tb_eq n (tb_times n (mx_get a) (mx_get b)) tb_one"
    unfolding tb_eq_def tb_times_def
  proof (intro allI impI)
    fix i j assume "i < n" "j < n"
    then show "(\<Sum>k < n. mx_get a i k * mx_get b k j) = tb_one i j"
      using get_times(2) [OF assms, of i j] unit [of i j] by (simp add: e)
  qed
next
  have unit: "mx_get (eye n n :: 'a matrix) i j = tb_one i j" if "i < n" "j < n" for i j
    using tb_eye [where n = n and 'a = 'a] that by (simp add: tb_eq_def)
  assume "tb_eq n (tb_times n (mx_get a) (mx_get b)) tb_one"
  then show "mx_times a b = eye n n"
    using get_times [OF assms] get_eye(1) unit by (intro mx_eqI [of n n]) (simp_all add: tb_eq_def tb_times_def)
qed

text \<open>C34: \<open>inv()\<close> inverts. It returns a matrix exactly when a square matrix has an inverse, and the result is the
  inverse on both sides; a zero in the place of a leading coefficient is no obstacle.\<close>

theorem matrix_inverse:
  fixes m :: "'a :: field matrix"
  assumes "mx_wf n n m" "n > 0"
  shows "case mx_inv m of
      None \<Rightarrow> \<nexists>b. mx_wf n n b \<and> mx_times b m = eye n n
    | Some r \<Rightarrow> mx_wf n n r \<and> mx_times r m = eye n n \<and> mx_times m r = eye n n"
proof -
  have e: "num_rows m = n" "num_cols m = n" using assms by (simp_all add: mx_wf_def)
  have "tb_eq n (tb_times n tb_one (tb_one :: 'a table)) tb_one" by (simp add: tb_eq_def tb_times_def sum_unit(1) tb_one_def)
  moreover have "tb_eq n (tb_times n tb_one (mx_get m)) (mx_get m)" by (simp add: tb_eq_def tb_times_def sum_unit(1) tb_one_def)
  ultimately have "reduces n (mx_get m) (mx_get m) tb_one" by (auto simp: reduces_def left_inverse_def)
  then have "reduces n (mx_get m) (mx_get m) (mx_get (eye n n))"
    by (rule reduces_cong [rotated 2]) (use tb_eye [where n = n and 'a = 'a] in \<open>auto simp: tb_eq_def\<close>)
  then have "reduced n (mx_get m) 0 (m, eye n n)" using assms(1) get_eye(1) by (simp add: reduced_def)
  note s = inv_columns_spec [OF this]
  show ?thesis
  proof (cases "inv_columns [0..<n] (m, eye n n)")
    case None
    then have "\<nexists>B. tb_eq n (tb_times n B (mx_get m)) tb_one" using s by simp
    then show ?thesis using None tb_times_mx [OF _ assms] by (auto simp: mx_inv_def e)
  next
    case (Some sR)
    then have r: "reduced n (mx_get m) n sR" using s by simp
    then have "reduces n (mx_get m) (mx_get (fst sR)) (mx_get (snd sR))" "tb_eq n (mx_get (fst sR)) tb_one" and w: "mx_wf n n (snd sR)"
      by (simp_all add: reduced_def tb_eq_def)
    note o = reduces_one [OF this(1,2)]
    show ?thesis using Some o w tb_times_mx [OF w assms] tb_times_mx [OF assms(1) w assms(2)] by (simp add: mx_inv_def e)
  qed
qed


lemma matrix_inverse_witness:
  "case mx_inv (Matrix 2 2 [0, 2, 1, 3 :: rat]) of
      None \<Rightarrow> False
    | Some r \<Rightarrow> cells r = [- 3 / 2, 1, 1 / 2, 0] \<and> mx_times (Matrix 2 2 [0, 2, 1, 3]) r = eye 2 2"
proof -
  have i: "mx_inv (Matrix 2 2 [0, 2, 1, 3 :: rat]) = Some (Matrix 2 2 [- 3 / 2, 1, 1 / 2, 0])" by code_simp
  then show ?thesis using matrix_inverse [of 2 "Matrix 2 2 [0, 2, 1, 3 :: rat]"] by (simp add: mx_wf_def)
qed

text \<open>The product of matrices of any fitting dimensions has the entries of the product, is associative, and is
  reversed by \<open>t()\<close>, which is its own inverse.\<close>

theorem matrix_product:
  assumes "mx_wf r n a" "mx_wf n k b" "mx_wf k c d" "n > 0" "k > 0"
  shows "mx_wf r k (mx_times a b) \<and> mx_times (mx_times a b) d = mx_times a (mx_times b d)
    \<and> transposed (mx_times a b) = mx_times (transposed b) (transposed a) \<and> transposed (transposed a) = a
    \<and> (\<forall>i < r. \<forall>j < k. mx_get (mx_times a b) i j = (\<Sum>l<n. mx_get a i l * mx_get b l j))"
proof -
  note ab = get_times [OF assms(1,2,4)] and bd = get_times [OF assms(2,3,5)]
  note abd = get_times [OF ab(1) assms(3,5)] and abd' = get_times [OF assms(1) bd(1) assms(4)]
  have assoc: "mx_times (mx_times a b) d = mx_times a (mx_times b d)"
    by (rule mx_eqI [OF abd(1) abd'(1)]) (simp add: abd(2) abd'(2) ab(2) bd(2) tb_times_assoc)
  note ta = get_transposed [OF assms(1)] and tb = get_transposed [OF assms(2)] and tab = get_transposed [OF ab(1)]
  note tbta = get_times [OF tb(1) ta(1) assms(4)]
  have trans: "transposed (mx_times a b) = mx_times (transposed b) (transposed a)"
    by (rule mx_eqI [OF tab(1) tbta(1)]) (simp add: tab(2) tbta(2) ab(2) ta(2) tb(2) mult.commute)
  have "transposed (transposed a) = a"
    by (rule mx_eqI [OF get_transposed(1) [OF ta(1)] assms(1)]) (simp add: get_transposed(2) [OF ta(1)] ta(2))
  then show ?thesis using ab assoc trans by blast
qed

lemma matrix_product_witness:
  "mx_times (Matrix 2 3 [1, 2, 3, 4, 5, 6 :: int]) (Matrix 3 2 [1, 0, 0, 1, 2, - 1]) = Matrix 2 2 [7, - 1, 16, - 1]
   \<and> transposed (mx_times (Matrix 2 3 [1, 2, 3, 4, 5, 6 :: int]) (Matrix 3 2 [1, 0, 0, 1, 2, - 1]))
      = mx_times (transposed (Matrix 3 2 [1, 0, 0, 1, 2, - 1])) (transposed (Matrix 2 3 [1, 2, 3, 4, 5, 6]))"
proof
  show "mx_times (Matrix 2 3 [1, 2, 3, 4, 5, 6 :: int]) (Matrix 3 2 [1, 0, 0, 1, 2, - 1]) = Matrix 2 2 [7, - 1, 16, - 1]" by code_simp
  show "transposed (mx_times (Matrix 2 3 [1, 2, 3, 4, 5, 6 :: int]) (Matrix 3 2 [1, 0, 0, 1, 2, - 1]))
      = mx_times (transposed (Matrix 3 2 [1, 0, 0, 1, 2, - 1])) (transposed (Matrix 2 3 [1, 2, 3, 4, 5, 6]))"
    using matrix_product [of 2 3 "Matrix 2 3 [1, 2, 3, 4, 5, 6 :: int]" 2 "Matrix 3 2 [1, 0, 0, 1, 2, - 1]" 2 "Matrix 2 2 [1, 0, 0, 1]"]
    by (simp add: mx_wf_def)
qed

end
