(* ===== verification/Ndarray.thy ===== *)
theory Ndarray
  imports Cpph_Prelude
begin

text \<open>
  \<open>container/ndarray.hxx\<close>, an array of several dimensions over one vector, and the counters of
  \<open>utility/counter.hxx\<close> that run through its indices. The arithmetic of both is the wrapping one of their unsigned
  types; a counter of width \<open>'n\<close> has digits that wrap at \<open>2 ^ LENGTH('n)\<close>.
\<close>

section \<open>Counters of several dimensions\<close>

record 'c md_counter =
  cnt_max :: "'c list"
  cnt_current :: "'c list"

text \<open>\<open>incr\<close> of dimension \<open>n\<close>; behind the first dimension the counter is set to its end.\<close>

fun counter_incr :: "nat \<Rightarrow> 'n :: len word md_counter \<Rightarrow> 'n word md_counter" where
  "counter_incr 0 c = c\<lparr>cnt_current := cnt_max c\<rparr>"
| "counter_incr (Suc n) c =
     (let v = cnt_current c ! n + 1 in
      if v = cnt_max c ! n then counter_incr n (c\<lparr>cnt_current := (cnt_current c)[n := 0]\<rparr>)
      else c\<lparr>cnt_current := (cnt_current c)[n := v]\<rparr>)"

definition counter_next :: "'n :: len word md_counter \<Rightarrow> 'n word md_counter" where
  "counter_next c = counter_incr (length (cnt_max c)) c"

definition counter_eq :: "'n word md_counter \<Rightarrow> 'n word md_counter \<Rightarrow> bool" where
  "counter_eq a b \<longleftrightarrow> cnt_current a = cnt_current b"

definition index_begin :: "'n :: len word list \<Rightarrow> 'n word md_counter" where
  "index_begin m = \<lparr>cnt_max = m, cnt_current = replicate (length m) 0\<rparr>"

definition index_end :: "'n :: len word list \<Rightarrow> 'n word md_counter" where
  "index_end m = \<lparr>cnt_max = m, cnt_current = m\<rparr>"

text \<open>The limits that \<open>counter(size, args...)\<close> and \<open>counter(array)\<close> give the counter.\<close>

definition counter_sizes :: "'n :: len word \<Rightarrow> 'n word list \<Rightarrow> 'n word list" where
  "counter_sizes sz args =
     (let m = sz # args; has_zero = list_ex (\<lambda>r. r = 0) args in if has_zero then replicate (length m) 0 else m)"

definition counter_array :: "'n :: len word list \<Rightarrow> 'n word list" where
  "counter_array idx = (let has_zero = list_ex (\<lambda>i. i = 0) idx in idx[0 := idx ! 0 * (if has_zero then 0 else 1)])"

text \<open>A loop \<open>for (auto& i : counter(...))\<close>: the indices it visits, \<open>None\<close> when it has not ended after \<open>k\<close> rounds.\<close>

fun counter_loop :: "nat \<Rightarrow> 'n :: len word md_counter \<Rightarrow> 'n word md_counter \<Rightarrow> 'n word list list option" where
  "counter_loop 0 c e = (if counter_eq c e then Some [] else None)"
| "counter_loop (Suc k) c e =
     (if counter_eq c e then Some [] else map_option (Cons (cnt_current c)) (counter_loop k (counter_next c) e))"

definition counter_visit :: "nat \<Rightarrow> 'n :: len word list \<Rightarrow> 'n word list list option" where
  "counter_visit k m = counter_loop k (index_begin m) (index_end m)"

section \<open>Counters of one dimension\<close>

text \<open>\<open>iota_counter\<close> runs upwards between two bounds in either order, \<open>rcounter\<close> downwards to zero.\<close>

definition iota_counter :: "'n :: len word \<Rightarrow> 'n word \<Rightarrow> 'n word \<times> 'n word" where
  "iota_counter mn mx = (if mn > mx then (mx, mn) else (mn, mx))"

fun iota_loop :: "nat \<Rightarrow> 'n :: len word \<Rightarrow> 'n word \<Rightarrow> 'n word list option" where
  "iota_loop 0 c e = (if c = e then Some [] else None)"
| "iota_loop (Suc k) c e = (if c = e then Some [] else map_option (Cons c) (iota_loop k (c + 1) e))"

definition rcounter :: "'n :: len word \<Rightarrow> 'n word \<times> 'n word" where
  "rcounter sz = (sz - 1, - 1)"

fun rcounter_loop :: "nat \<Rightarrow> 'n :: len word \<Rightarrow> 'n word \<Rightarrow> 'n word list option" where
  "rcounter_loop 0 c e = (if c = e then Some [] else None)"
| "rcounter_loop (Suc k) c e = (if c = e then Some [] else map_option (Cons c) (rcounter_loop k (c - 1) e))"

text \<open>The postfix operators: the new counter and what is returned.\<close>

definition counter_post_inc :: "'n :: len word \<Rightarrow> 'n word \<times> 'n word" where
  "counter_post_inc c = (let c = c + 1 in (c, c - 1))"

definition counter_post_dec :: "'n :: len word \<Rightarrow> 'n word \<times> 'n word" where
  "counter_post_dec c = (let c = c - 1 in (c, c - 1))"

section \<open>Arrays\<close>

record 'a ndarray =
  nd_dims :: "u64 list"
  nd_steps :: "u64 list"
  nd_data :: "'a list"

datatype nd_error = Invalid_argument | Out_of_vector | Outside_memory | Size_mismatch

text \<open>The loop over the steps, with the positions of its iterators; \<open>None\<close> when a write misses the array. An array
  of one dimension has no steps, and the loop writes and runs on before it.\<close>

fun step_loop :: "u64 list \<Rightarrow> nat \<Rightarrow> nat \<Rightarrow> u64 \<Rightarrow> u64 list \<Rightarrow> u64 list option" where
  "step_loop dims 0 it_step step steps = None"
| "step_loop dims (Suc it_dim) it_step step steps =
     (let step = step * dims ! Suc it_dim in
      if it_step < length steps
      then let steps = steps[it_step := step]
           in if it_dim = 0 then Some steps else step_loop dims it_dim (it_step - 1) step steps
      else None)"

definition resize :: "'a \<Rightarrow> nat \<Rightarrow> 'a list \<Rightarrow> 'a list" where
  "resize d n xs = take n xs @ replicate (n - length xs) d"

definition apply_reshape :: "'a \<Rightarrow> 'a ndarray \<Rightarrow> 'a ndarray option" where
  "apply_reshape d nd =
     (let n = fold (*) (nd_dims nd) 1; nd = nd\<lparr>nd_data := resize d (unat n) (nd_data nd)\<rparr>
      in map_option (\<lambda>s. nd\<lparr>nd_steps := s\<rparr>)
           (step_loop (nd_dims nd) (length (nd_dims nd) - 1) (length (nd_steps nd) - 1) 1 (nd_steps nd)))"

definition reshape :: "'a \<Rightarrow> u64 list \<Rightarrow> 'a ndarray \<Rightarrow> 'a ndarray option" where
  "reshape d new_dims nd = apply_reshape d (nd\<lparr>nd_dims := new_dims\<rparr>)"

text \<open>\<open>_reduce_index\<close> of the indices from dimension \<open>D\<close> on.\<close>

fun reduce_index :: "bool \<Rightarrow> 'a ndarray \<Rightarrow> nat \<Rightarrow> u64 list \<Rightarrow> nd_error + u64" where
  "reduce_index check nd D [] = Inr 0"
| "reduce_index check nd D (idx # args) =
     (if check \<and> idx \<ge> nd_dims nd ! D then Inl Invalid_argument
      else if args \<noteq> [] then bindE (reduce_index check nd (Suc D) args) (\<lambda>r. Inr (idx * nd_steps nd ! D + r))
      else Inr idx)"

definition get_index :: "'a ndarray \<Rightarrow> u64 list \<Rightarrow> u64" where
  "get_index nd r = fold (\<lambda>i index. index + nd_steps nd ! i * r ! i) [0..<length r - 1] 0 + last r"

text \<open>\<open>vector::operator[]\<close>; an access outside of the vector is undefined.\<close>

definition data_get :: "'a ndarray \<Rightarrow> u64 \<Rightarrow> nd_error + 'a" where
  "data_get nd i = (if unat i < length (nd_data nd) then Inr (nd_data nd ! unat i) else Inl Outside_memory)"

definition nd_call :: "'a ndarray \<Rightarrow> u64 list \<Rightarrow> nd_error + 'a" where
  "nd_call nd idx = bindE (reduce_index False nd 0 idx) (data_get nd)"

definition nd_at :: "'a ndarray \<Rightarrow> u64 list \<Rightarrow> nd_error + 'a" where
  "nd_at nd idx = bindE (reduce_index True nd 0 idx) (data_get nd)"

definition nd_sub :: "'a ndarray \<Rightarrow> u64 list \<Rightarrow> nd_error + 'a" where
  "nd_sub nd i = data_get nd (get_index nd i)"

text \<open>\<open>at(dimension_type)\<close> leaves the check to \<open>vector::at\<close>, which sees the offset only.\<close>

definition nd_at_array :: "'a ndarray \<Rightarrow> u64 list \<Rightarrow> nd_error + 'a" where
  "nd_at_array nd i = (let k = unat (get_index nd i) in if k < length (nd_data nd) then Inr (nd_data nd ! k) else Inl Out_of_vector)"

definition nd_assign :: "'a list \<Rightarrow> 'a ndarray \<Rightarrow> nd_error + 'a ndarray" where
  "nd_assign vs nd = (if length vs \<noteq> length (nd_data nd) then Inl Size_mismatch else Inr (nd\<lparr>nd_data := vs\<rparr>))"

definition nd_eq :: "'a ndarray \<Rightarrow> 'a ndarray \<Rightarrow> bool" where
  "nd_eq a b \<longleftrightarrow> nd_dims a = nd_dims b \<and> nd_data a = nd_data b"

section \<open>Mixed radix\<close>

text \<open>A digit runs through \<open>d\<close> values, or through all of the type when \<open>d\<close> is zero.\<close>

definition radix :: "'n :: len word \<Rightarrow> nat" where
  "radix d = (if d = 0 then 2 ^ LENGTH('n) else unat d)"

abbreviation radices :: "'n :: len word list \<Rightarrow> nat" where
  "radices ds \<equiv> prod_list (map radix ds)"

text \<open>The \<open>i\<close>-th tuple in lexicographic order, and the position of a tuple.\<close>

fun tuple_at :: "'n :: len word list \<Rightarrow> nat \<Rightarrow> 'n word list" where
  "tuple_at [] i = []"
| "tuple_at (d # ds) i = of_nat (i div radices ds) # tuple_at ds (i mod radices ds)"

fun tuple_rank :: "'n :: len word list \<Rightarrow> 'n word list \<Rightarrow> nat" where
  "tuple_rank (d # ds) (x # xs) = unat x * radices ds + tuple_rank ds xs"
| "tuple_rank _ _ = 0"

lemma radix_pos [simp]: "radix d > 0"
  by (simp add: radix_def unat_gt_0)

lemma radices_pos [simp]: "radices ds > 0"
  by (induction ds) simp_all

lemma radix_le: "radix (d :: 'n :: len word) \<le> 2 ^ LENGTH('n)"
  by (auto simp: radix_def intro: less_imp_le [OF unsigned_less])

lemma radix_full: "radix (d :: 'n :: len word) = 2 ^ LENGTH('n) \<longleftrightarrow> d = 0"
  using less_irrefl [of "unat d"] unsigned_less [where 'a = nat and w = d] by (metis radix_def)

lemma of_nat_radix: "of_nat (radix d) = (d :: 'n :: len word)"
  by (simp add: radix_def)

lemma of_nat_radices: "of_nat (radices ds) = (prod_list ds :: 'n :: len word)"
  by (induction ds) (simp_all add: of_nat_radix)

lemma digit_end: "k < radix d \<Longrightarrow> of_nat k + 1 = (d :: 'n :: len word) \<longleftrightarrow> Suc k = radix d"
proof -
  assume k: "k < radix d"
  have "of_nat (Suc k) = d \<longleftrightarrow> Suc k = radix d"
  proof (cases "Suc k = 2 ^ LENGTH('n)")
    case True
    then have "radix d = Suc k" using k radix_le [of d] by simp
    moreover have "(of_nat (Suc k) :: 'n word) = 0" unfolding True by simp
    ultimately show ?thesis using True radix_full [of d] by simp
  next
    case False
    then have "Suc k < 2 ^ LENGTH('n)" using k radix_le [of d] by simp
    then have "unat (of_nat (Suc k) :: 'n word) = Suc k" by (rule of_nat_inverse [OF refl])
    then show ?thesis using False of_nat_radix [of d] by (auto simp: radix_def simp del: of_nat_Suc)
  qed
  then show ?thesis by (simp add: add.commute)
qed

lemma tuple_at_length [simp]: "length (tuple_at ds i) = length ds"
  by (induction ds arbitrary: i) simp_all

lemma tuple_at_0: "tuple_at ds 0 = replicate (length ds) 0"
  by (induction ds) simp_all

lemma tuple_at_snoc: "i < radices (ds @ [d]) \<Longrightarrow> tuple_at (ds @ [d]) i = tuple_at ds (i div radix d) @ [of_nat (i mod radix d)]"
proof (induction ds arbitrary: i)
  case (Cons e ds)
  have IH: "tuple_at (ds @ [d]) (i mod radices (ds @ [d])) =
      tuple_at ds (i mod radices (ds @ [d]) div radix d) @ [of_nat (i mod radices (ds @ [d]) mod radix d)]"
    using Cons.IH by simp
  have "i mod (radix d * radices ds) = radix d * (i div radix d mod radices ds) + i mod radix d" by (rule mod_mult2_eq)
  then have "i mod (radices ds * radix d) div radix d = i div radix d mod radices ds"
    by (simp add: mult.commute [of "radices ds"] div_mult_self4)
  moreover have "i mod (radices ds * radix d) mod radix d = i mod radix d" by (simp add: mod_mod_cancel)
  moreover have "i div (radices ds * radix d) = i div radix d div radices ds" by (simp add: mult.commute [of "radices ds"] div_mult2_eq)
  ultimately show ?case using IH by simp
qed simp


lemma incr_tuple:
  assumes "i < radices ms"
  shows "counter_incr (length ms) \<lparr>cnt_max = ms @ rest, cnt_current = tuple_at ms i @ ys\<rparr> =
    \<lparr>cnt_max = ms @ rest, cnt_current = (if Suc i < radices ms then tuple_at ms (Suc i) @ ys else ms @ rest)\<rparr>"
  using assms
proof (induction ms arbitrary: i rest ys rule: rev_induct)
  case (snoc m ms)
  let ?r = "radix m"
  have i: "i div ?r < radices ms" using snoc.prems by (simp add: less_mult_imp_div_less)
  have len: "length (tuple_at ms k) = length ms" for k by simp
  have at: "tuple_at (ms @ [m]) i = tuple_at ms (i div ?r) @ [of_nat (i mod ?r)]" by (rule tuple_at_snoc [OF snoc.prems])
  have more: "k < radices (ms @ [m]) \<longleftrightarrow> k div ?r < radices ms" for k by (simp add: div_less_iff_less_mult)
  show ?case
  proof (cases "Suc (i mod ?r) = ?r")
    case True
    then have wrap: "Suc i div ?r = Suc (i div ?r)" "Suc i mod ?r = 0" by (simp_all add: div_Suc mod_Suc)
    have v: "of_nat (i mod ?r) + 1 = m" using digit_end [of "i mod ?r" m] True by simp
    have "counter_incr (length (ms @ [m])) \<lparr>cnt_max = (ms @ [m]) @ rest, cnt_current = tuple_at (ms @ [m]) i @ ys\<rparr> =
        counter_incr (length ms) \<lparr>cnt_max = ms @ (m # rest), cnt_current = tuple_at ms (i div ?r) @ (0 # ys)\<rparr>"
      by (simp add: at v nth_append list_update_append Let_def)
    also have "\<dots> = \<lparr>cnt_max = ms @ (m # rest), cnt_current =
        (if Suc (i div ?r) < radices ms then tuple_at ms (Suc (i div ?r)) @ (0 # ys) else ms @ (m # rest))\<rparr>"
      by (rule snoc.IH [OF i])
    finally show ?thesis using more [of "Suc i"] wrap tuple_at_snoc [of "Suc i" ms m] by simp
  next
    case False
    then have s: "Suc i div ?r = i div ?r" "Suc i mod ?r = Suc (i mod ?r)" by (simp_all add: div_Suc mod_Suc)
    have v: "of_nat (i mod ?r) + 1 \<noteq> m" using digit_end [of "i mod ?r" m] False by simp
    have lt: "Suc i < radices (ms @ [m])" using i s(1) more [of "Suc i"] by simp
    show ?thesis using v lt tuple_at_snoc [OF lt] s
      by (simp add: at nth_append list_update_append Let_def add.commute)
  qed
qed simp

lemma next_tuple:
  "i < radices ms \<Longrightarrow> counter_next \<lparr>cnt_max = ms, cnt_current = tuple_at ms i\<rparr> =
    \<lparr>cnt_max = ms, cnt_current = (if Suc i < radices ms then tuple_at ms (Suc i) else ms)\<rparr>"
  using incr_tuple [of i ms "[]" "[]"] by (simp add: counter_next_def)

lemma tuple_not_end: "i < radices ds \<Longrightarrow> \<exists>d \<in> set ds. d \<noteq> 0 \<Longrightarrow> tuple_at ds i \<noteq> ds"
proof (induction ds arbitrary: i)
  case (Cons d ds)
  show ?case
  proof (cases "d = 0")
    case True
    then show ?thesis using Cons.IH [of "i mod radices ds"] Cons.prems(2) by auto
  next
    case False
    have k: "i div radices ds < unat d"
      using Cons.prems(1) False less_mult_imp_div_less [of i "unat d" "radices ds"] by (simp add: radix_def [of d])
    then have "unat (of_nat (i div radices ds) :: 'a word) = i div radices ds"
      using unsigned_less [where 'a = nat and w = d] by (intro of_nat_inverse [OF refl] less_trans [OF k]) simp
    then show ?thesis using k by auto
  qed
qed simp

lemma loop_tuples:
  assumes "i < radices ms" "\<exists>d \<in> set ms. d \<noteq> 0"
  shows "counter_loop k \<lparr>cnt_max = ms, cnt_current = tuple_at ms i\<rparr> (index_end ms) =
    (if radices ms - i \<le> k then Some (map (tuple_at ms) [i..<radices ms]) else None)"
  using assms(1)
proof (induction k arbitrary: i)
  case 0
  then show ?case using tuple_not_end [OF 0 assms(2)] by (simp add: counter_eq_def index_end_def)
next
  case (Suc k)
  have ne: "\<not> counter_eq \<lparr>cnt_max = ms, cnt_current = tuple_at ms i\<rparr> (index_end ms)"
    using tuple_not_end [OF Suc.prems assms(2)] by (simp add: counter_eq_def index_end_def)
  show ?case
  proof (cases "Suc i < radices ms")
    case True
    then show ?thesis using ne Suc.IH [OF True] next_tuple [OF Suc.prems] by (simp add: upt_conv_Cons) arith
  next
    case False
    then have "radices ms = Suc i" using Suc.prems by simp
    then show ?thesis using ne next_tuple [OF Suc.prems] by (cases k) (simp_all add: counter_eq_def index_end_def)
  qed
qed


section \<open>Arrays\<close>

text \<open>The offset of a tuple of indices, with the arithmetic of the code.\<close>

fun offset :: "u64 list \<Rightarrow> u64 list \<Rightarrow> u64" where
  "offset (d # ds) (x # xs) = x * prod_list ds + offset ds xs"
| "offset _ _ = 0"

definition steps_ok :: "'a ndarray \<Rightarrow> bool" where
  "steps_ok nd \<longleftrightarrow> Suc (length (nd_steps nd)) = length (nd_dims nd)
     \<and> (\<forall>i < length (nd_steps nd). nd_steps nd ! i = prod_list (drop (Suc i) (nd_dims nd)))"

lemma step_loop_spec:
  assumes "it_dim < length dims" "0 < it_dim" "it_dim \<le> length s" "step = prod_list (drop (Suc it_dim) dims)"
    and "\<forall>i. it_dim \<le> i \<and> i < length s \<longrightarrow> s ! i = prod_list (drop (Suc i) dims)"
  shows "\<exists>s'. step_loop dims it_dim (it_dim - 1) step s = Some s' \<and> length s' = length s
    \<and> (\<forall>i < length s. s' ! i = prod_list (drop (Suc i) dims))"
  using assms
proof (induction it_dim arbitrary: step s)
  case (Suc n)
  let ?step = "step * dims ! Suc n"
  have d: "drop (Suc n) dims = dims ! Suc n # drop (Suc (Suc n)) dims" using Suc.prems(1) by (rule Cons_nth_drop_Suc [symmetric])
  have st: "?step = prod_list (drop (Suc n) dims)" unfolding d using Suc.prems(4) by (simp add: mult.commute)
  have upd: "\<forall>i. n \<le> i \<and> i < length s \<longrightarrow> s[n := ?step] ! i = prod_list (drop (Suc i) dims)"
    using Suc.prems(5) st by (auto simp: nth_list_update le_Suc_eq Suc_le_eq)
  show ?case
  proof (cases "n = 0")
    case True
    then show ?thesis using Suc.prems(3) upd by (auto simp: Let_def)
  next
    case False
    then show ?thesis using Suc.IH [of "s[n := ?step]" ?step] Suc.prems(1,3) st upd by (auto simp: Let_def)
  qed
qed simp

lemma fold_mult: "fold (*) ds a = (a :: 'b :: comm_monoid_mult) * prod_list ds"
  by (induction ds arbitrary: a) (simp_all add: mult_ac)

text \<open>A reshape of two or more dimensions gives the steps and resizes the data.\<close>

lemma reshape_spec:
  assumes "length ds \<ge> 2" "Suc (length (nd_steps nd)) = length ds"
  shows "\<exists>nd'. reshape v ds nd = Some nd' \<and> steps_ok nd' \<and> nd_dims nd' = ds \<and> nd_data nd' = resize v (unat (prod_list ds)) (nd_data nd)"
proof -
  let ?l = "length (nd_steps nd)"
  have "\<exists>s. step_loop ds ?l (?l - 1) 1 (nd_steps nd) = Some s \<and> length s = ?l \<and> (\<forall>i < ?l. s ! i = prod_list (drop (Suc i) ds))"
    by (rule step_loop_spec) (use assms in auto)
  then obtain s where s: "step_loop ds ?l (?l - 1) 1 (nd_steps nd) = Some s" "length s = ?l" "\<forall>i < ?l. s ! i = prod_list (drop (Suc i) ds)"
    by blast
  have l: "length ds - 1 = ?l" using assms(2) by simp
  show ?thesis
    using s(2,3) assms(2) by (simp add: reshape_def apply_reshape_def steps_ok_def fold_mult Let_def l s(1) del: One_nat_def)
qed

lemma resize_length [simp]: "length (resize d n xs) = n"
  by (simp add: resize_def)

lemma reduce_offset:
  assumes "steps_ok nd" "k + length xs = length (nd_dims nd)"
  shows "reduce_index check nd k xs =
    (if check \<and> \<not> list_all2 (<) xs (drop k (nd_dims nd)) then Inl Invalid_argument else Inr (offset (drop k (nd_dims nd)) xs))"
  using assms(2)
proof (induction xs arbitrary: k)
  case (Cons x xs)
  have k: "k < length (nd_dims nd)" using Cons.prems by simp
  have d: "drop k (nd_dims nd) = nd_dims nd ! k # drop (Suc k) (nd_dims nd)" using k by (rule Cons_nth_drop_Suc [symmetric])
  have IH: "reduce_index check nd (Suc k) xs = (if check \<and> \<not> list_all2 (<) xs (drop (Suc k) (nd_dims nd))
      then Inl Invalid_argument else Inr (offset (drop (Suc k) (nd_dims nd)) xs))"
    using Cons.IH [of "Suc k"] Cons.prems by simp
  show ?case
  proof (cases "xs = []")
    case True
    then have "drop (Suc k) (nd_dims nd) = []" using Cons.prems by simp
    then show ?thesis using True d by (auto simp: not_less)
  next
    case False
    then have "k < length (nd_steps nd)" using Cons.prems assms(1) by (cases xs) (simp_all add: steps_ok_def)
    then have "nd_steps nd ! k = prod_list (drop (Suc k) (nd_dims nd))" using assms(1) by (simp add: steps_ok_def)
    then show ?thesis using False IH d by (auto simp: not_less)
  qed
qed simp

lemma offset_sum:
  assumes "length xs = length ds" "ds \<noteq> []"
  shows "offset ds xs = (\<Sum>i < length ds - 1. prod_list (drop (Suc i) ds) * xs ! i) + last xs"
  using assms
proof (induction ds arbitrary: xs)
  case (Cons d ds)
  obtain x ys where xs: "xs = x # ys" "length ys = length ds" using Cons.prems(1) by (cases xs) auto
  show ?case
  proof (cases ds)
    case (Cons e es)
    have "(\<Sum>i < length ds. prod_list (drop i ds) * (x # ys) ! i) =
        prod_list ds * x + (\<Sum>i < length ds - 1. prod_list (drop (Suc i) ds) * ys ! i)"
      unfolding Cons by (simp add: sum.lessThan_Suc_shift del: sum.lessThan_Suc)
    moreover have "ys \<noteq> []" using xs(2) local.Cons by auto
    ultimately show ?thesis using xs Cons.IH [of ys] local.Cons by (simp add: mult.commute add.assoc)
  qed (use xs in simp)
qed simp


lemma get_index_offset:
  assumes "steps_ok nd" "length xs = length (nd_dims nd)"
  shows "get_index nd xs = offset (nd_dims nd) xs"
proof -
  have l: "length xs - 1 = length (nd_steps nd)" "nd_dims nd \<noteq> []" using assms by (auto simp: steps_ok_def)
  have "get_index nd xs = (\<Sum>i < length xs - 1. nd_steps nd ! i * xs ! i) + last xs"
    by (simp add: get_index_def fold_sum)
  also have "(\<Sum>i < length xs - 1. nd_steps nd ! i * xs ! i) = (\<Sum>i < length (nd_dims nd) - 1. prod_list (drop (Suc i) (nd_dims nd)) * xs ! i)"
    using assms l by (intro sum.cong) (auto simp: steps_ok_def)
  finally show ?thesis using offset_sum [of xs "nd_dims nd"] assms(2) l(2) by simp
qed

lemma offset_tuple: "i < radices ds \<Longrightarrow> offset ds (tuple_at ds i) = of_nat i"
proof (induction ds arbitrary: i)
  case (Cons d ds)
  have "offset ds (tuple_at ds (i mod radices ds)) = of_nat (i mod radices ds)" using Cons.IH by simp
  then have "offset (d # ds) (tuple_at (d # ds) i) = of_nat (i div radices ds * radices ds + i mod radices ds)"
    by (simp only: offset.simps tuple_at.simps of_nat_add of_nat_mult of_nat_radices)
  then show ?case by (simp only: div_mult_mod_eq)
qed simp

lemma tuple_rank_spec:
  assumes "list_all2 (<) xs ds"
  shows "tuple_rank ds xs < radices ds" "tuple_at ds (tuple_rank ds xs) = xs"
proof -
  have "tuple_rank ds xs < radices ds \<and> tuple_at ds (tuple_rank ds xs) = xs"
    using assms
  proof (induction xs ds rule: list_all2_induct)
    case (Cons x xs d ds)
    have "unat x < unat d" using Cons.hyps(1) by (simp add: word_less_nat_alt)
    then have "unat x < radix d" by (auto simp: radix_def)
    then have "Suc (unat x) * radices ds \<le> radix d * radices ds" by (intro mult_le_mono1) simp
    then show ?case using Cons.IH by simp
  qed simp
  then show "tuple_rank ds xs < radices ds" "tuple_at ds (tuple_rank ds xs) = xs" by blast+
qed

lemma tuple_in_range: "0 \<notin> set ds \<Longrightarrow> i < radices ds \<Longrightarrow> list_all2 (<) (tuple_at ds i) ds"
proof (induction ds arbitrary: i)
  case (Cons d ds)
  have k: "i div radices ds < unat d"
    using Cons.prems less_mult_imp_div_less [of i "unat d" "radices ds"] by (simp add: radix_def [of d])
  then have "unat (of_nat (i div radices ds) :: 'a word) = i div radices ds"
    by (intro of_nat_inverse [OF refl] less_trans [OF k]) simp
  then show ?case using k Cons by (simp add: word_less_nat_alt)
qed simp

lemma radices_unat: "0 \<notin> set ds \<Longrightarrow> radices ds = prod_list (map unat ds)"
  by (induction ds) (auto simp: radix_def)

lemma counter_visits:
  "counter_visit k m = (if list_all (\<lambda>d. d = 0) m then Some []
     else if radices m \<le> k then Some (map (tuple_at m) [0..<radices m]) else None)"
proof (cases "list_all (\<lambda>d. d = 0) m")
  case True
  then have "replicate (length m) 0 = m" by (induction m) simp_all
  then show ?thesis using True by (cases k) (simp_all add: counter_visit_def index_begin_def index_end_def counter_eq_def)
next
  case False
  then have "\<exists>d \<in> set m. d \<noteq> 0" by (simp add: list_all_iff)
  then show ?thesis using loop_tuples [of 0 m k] False by (simp add: counter_visit_def index_begin_def tuple_at_0)
qed

text \<open>\<open>counter(size, args...)\<close> is empty when one of the \<open>args\<close> is zero; the first size is not looked at.\<close>

lemma sizes_zero: "0 \<in> set args \<Longrightarrow> counter_visit k (counter_sizes sz args) = Some []"
  by (auto simp: counter_visits counter_sizes_def list_ex_iff list_all_iff Let_def)

lemma array_unit: "0 \<notin> set ds \<Longrightarrow> counter_array ds = ds"
  by (auto simp: counter_array_def list_ex_iff)

text \<open>The counters of one dimension visit the numbers between the bounds, and those below the size downwards.\<close>

lemma iota_visits: "unat (e - c) \<le> k \<Longrightarrow> iota_loop k c e = Some (map (\<lambda>i. c + of_nat i) [0..<unat (e - c)])"
proof (induction k arbitrary: c)
  case (Suc k)
  show ?case
  proof (cases "c = e")
    case False
    then have "e - c \<noteq> 0" by auto
    then have "unat (e - c - 1) = unat (e - c) - 1" "0 < unat (e - c)" by (simp_all add: unat_minus_one unat_gt_0)
    then have u: "unat (e - c) = Suc (unat (e - (c + 1)))" by (simp add: diff_diff_eq)
    have "map (\<lambda>i. c + of_nat i) [0..<unat (e - c)] = c # map (\<lambda>i. c + 1 + of_nat i) [0..<unat (e - (c + 1))]"
      unfolding u by (simp add: upt_conv_Cons map_Suc_upt [symmetric] comp_def add_ac del: upt_Suc)
    then show ?thesis using False Suc.IH [of "c + 1"] Suc.prems u by simp
  qed simp
qed (simp add: unat_eq_zero)

lemma rcounter_visits: "n < 2 ^ LENGTH('n) \<Longrightarrow> n \<le> k \<Longrightarrow>
   rcounter_loop k (of_nat n - 1) (- 1 :: 'n :: len word) = Some (map of_nat (rev [0..<n]))"
proof (induction n arbitrary: k)
  case 0
  then show ?case by (cases k) simp_all
next
  case (Suc n)
  then obtain j where k: "k = Suc j" "n \<le> j" by (cases k) auto
  have "(of_nat n :: 'n word) + 1 \<noteq> 0" using Suc.prems(1) of_nat_inverse [of "Suc n" "0 :: 'n word"] by (auto simp: add.commute)
  then have "(of_nat n :: 'n word) \<noteq> - 1" by (metis add.left_inverse add.commute)
  then show ?case using Suc.IH [of j] Suc.prems(1) k by simp
qed

text \<open>The postfix decrement returns the value behind the new one, not the old one.\<close>

lemma post_dec_wrong: "snd (counter_post_inc c) = c" "snd (counter_post_dec c) = c - 2"
  by (simp_all add: counter_post_inc_def counter_post_dec_def Let_def)

section \<open>Properties\<close>

text \<open>C35: After an array of two or more dimensions is reshaped to dimensions none of which is zero and whose product is
  below \<open>2 ^ 64\<close>, a loop over \<open>counter(a.dims())\<close> meets every element once, in the order of its data, through each of
  the three ways to read it. (The array of steps has one entry less than there are dimensions, as its type says.)\<close>

theorem ndarray_in_order:
  assumes "reshape v ds nd = Some a" "length ds \<ge> 2" "Suc (length (nd_steps nd)) = length ds"
    and "0 \<notin> set ds" "prod_list (map unat ds) < 2 ^ 64"
  shows "\<exists>is. counter_visit (prod_list (map unat ds)) (counter_array (nd_dims a)) = Some is \<and> distinct is
    \<and> length (nd_data a) = prod_list (map unat ds)
    \<and> map (nd_sub a) is = map Inr (nd_data a) \<and> map (nd_call a) is = map Inr (nd_data a) \<and> map (nd_at a) is = map Inr (nd_data a)"
proof -
  let ?n = "prod_list (map unat ds)"
  have a: "steps_ok a" "nd_dims a = ds" "nd_data a = resize v (unat (prod_list ds)) (nd_data nd)"
    using reshape_spec [OF assms(2,3), of v] assms(1) by auto
  have R: "radices ds = ?n" by (rule radices_unat [OF assms(4)])
  have small: "unat (of_nat i :: u64) = i" if "i < radices ds" for i
    using that R assms(5) by (intro of_nat_inverse [OF refl]) simp
  have "unat (prod_list ds) = ?n" using R assms(5) by (simp add: of_nat_radices [symmetric]) (rule of_nat_inverse [OF refl], simp)
  then have len: "length (nd_data a) = ?n" using a(3) by simp
  have ds: "ds \<noteq> []" "\<not> list_all (\<lambda>d. d = 0) ds" using assms(2,4) by (cases ds; auto)+
  have visit: "counter_visit ?n (counter_array (nd_dims a)) = Some (map (tuple_at ds) [0..<?n])"
    using ds(2) R by (simp add: counter_visits a(2) array_unit [OF assms(4)])
  have elem: "data_get a (offset ds (tuple_at ds i)) = Inr (nd_data a ! i)" if "i < ?n" for i
    using that R len small [of i] offset_tuple [of i ds] by (simp add: data_get_def)
  have off: "reduce_index c a 0 (tuple_at ds i) = Inr (offset ds (tuple_at ds i))" if "i < ?n" for i c
    using reduce_offset [OF a(1), of 0 "tuple_at ds i"] tuple_in_range [OF assms(4), of i] that R a(2) by simp
  have get: "get_index a (tuple_at ds i) = offset ds (tuple_at ds i)" for i
    using get_index_offset [OF a(1)] a(2) by simp
  have eq: "map (\<lambda>i. Inr (nd_data a ! i)) [0..<?n] = map Inr (nd_data a)" using len by (simp add: list_eq_iff_nth_eq)
  have "inj_on (tuple_at ds) {0..<?n}"
    by (rule inj_onI) (metis R atLeastLessThan_iff offset_tuple small)
  then have "distinct (map (tuple_at ds) [0..<?n])" by (simp add: distinct_map)
  then show ?thesis
    using visit len elem off get eq by (intro exI [where x = "map (tuple_at ds) [0..<?n]"])
      (auto simp: nd_sub_def nd_call_def nd_at_def intro: nth_equalityI)
qed


text \<open>\<open>at(i, j, ...)\<close> checks each index: it reads the element at the position of the tuple in lexicographic order, and
  throws when some index is outside of its dimension, whatever the offset would be.\<close>

theorem ndarray_at:
  assumes "reshape v ds nd = Some a" "length ds \<ge> 2" "Suc (length (nd_steps nd)) = length ds"
    and "prod_list (map unat ds) < 2 ^ 64" "length is = length ds"
  shows "nd_at a is = (if list_all2 (<) is ds then Inr (nd_data a ! tuple_rank ds is) else Inl Invalid_argument)
    \<and> (list_all2 (<) is ds \<longrightarrow> tuple_rank ds is < length (nd_data a))"
proof -
  have a: "steps_ok a" "nd_dims a = ds" "nd_data a = resize v (unat (prod_list ds)) (nd_data nd)"
    using reshape_spec [OF assms(2,3), of v] assms(1) by auto
  note red = reduce_offset [OF a(1), of 0 "is" True]
  show ?thesis
  proof (cases "list_all2 (<) is ds")
    case True
    have nz: "0 \<notin> set ds" using True by (induction rule: list_all2_induct) auto
    note r = tuple_rank_spec [OF True]
    have R: "radices ds = prod_list (map unat ds)" by (rule radices_unat [OF nz])
    have small: "unat (of_nat i :: u64) = i" if "i \<le> tuple_rank ds is \<or> i = radices ds" for i
      using that r(1) R assms(4) by (intro of_nat_inverse [OF refl]) auto
    have "length (nd_data a) = radices ds" using a(3) small [of "radices ds"] by (simp add: of_nat_radices)
    moreover have "offset ds is = of_nat (tuple_rank ds is)" using offset_tuple [OF r(1)] r(2) by simp
    ultimately show ?thesis using True red a(2) assms(5) r(1) small [of "tuple_rank ds is"] by (simp add: nd_at_def data_get_def)
  qed (use red a(2) assms(5) in \<open>simp add: nd_at_def\<close>)
qed

text \<open>C36: \<open>counter(std::array)\<close> is to be empty when a dimension is zero, but sets only the first limit to zero. The loop
  is empty when every limit behind the first is zero too. Otherwise the counter does not start at its end: the first
  digit, and every other one with a zero for its limit, runs through all values of the type, so the number of rounds is
  the product of the limits with \<open>2 ^ w\<close> for each zero.\<close>

theorem counter_zero_runs:
  fixes ds :: "'n :: len word list"
  assumes "0 \<in> set ds" "length ds \<ge> 2"
  shows "counter_visit k (counter_array ds) =
    (if \<forall>d \<in> set (tl ds). d = 0 then Some []
     else if k < 2 ^ LENGTH('n) * radices (tl ds) then None
     else Some (map (tuple_at (0 # tl ds)) [0..<2 ^ LENGTH('n) * radices (tl ds)]))"
proof -
  have "counter_array ds = 0 # tl ds" using assms by (cases ds) (auto simp: counter_array_def Let_def list_ex_iff)
  moreover have "radices (0 # tl ds) = 2 ^ LENGTH('n) * radices (tl ds)" by (simp add: radix_def)
  ultimately show ?thesis using counter_visits [of k "0 # tl ds"] by (auto simp: not_less list_all_iff)
qed

lemma counter_zero_runs_witness:
  "counter_visit 1000 (counter_array [0, 4 :: 8 word]) = None \<and> counter_visit 1000 (counter_array [4, 0 :: 8 word]) = Some []
    \<and> counter_visit 300000 (counter_array [5, 0, 3 :: 8 word]) = Some (map (tuple_at [0, 0, 3]) [0..<196608])"
  using counter_zero_runs [of "[0, 4 :: 8 word]" 1000] counter_zero_runs [of "[4, 0 :: 8 word]" 1000]
    counter_zero_runs [of "[5, 0, 3 :: 8 word]" 300000] by (simp add: radix_def)

lemma small_reshape:
  "reshape 7 [2, 3] \<lparr>nd_dims = [0, 0], nd_steps = [0], nd_data = [1, 2 :: int]\<rparr>
     = Some \<lparr>nd_dims = [2, 3], nd_steps = [3], nd_data = [1, 2, 7, 7, 7, 7]\<rparr>"
  by (simp add: reshape_def apply_reshape_def) (simp add: resize_def eval_nat_numeral)

lemma ndarray_at_witness:
  "nd_at \<lparr>nd_dims = [2, 3], nd_steps = [3], nd_data = [1, 2, 7, 7, 7, 7 :: int]\<rparr> [0, 1] = Inr 2
   \<and> nd_at \<lparr>nd_dims = [2, 3], nd_steps = [3], nd_data = [1, 2, 7, 7, 7, 7 :: int]\<rparr> [0, 3] = Inl Invalid_argument"
  using ndarray_at [OF small_reshape, of "[0, 1]"] ndarray_at [OF small_reshape, of "[0, 3]"] by simp

lemma ndarray_in_order_witness:
  "\<exists>is. counter_visit 6 (counter_array [2, 3 :: u64]) = Some is
     \<and> map (nd_sub \<lparr>nd_dims = [2, 3], nd_steps = [3], nd_data = [1, 2, 7, 7, 7, 7 :: int]\<rparr>) is = map Inr [1, 2, 7, 7, 7, 7]"
  using ndarray_in_order [OF small_reshape] by auto

end
