(* ===== verification/String_Cache.thy ===== *)
theory String_Cache
  imports Cpph_Prelude
begin

text \<open>
  \<open>container/string_cache.hxx\<close>: strings packed into one \<open>std::string\<close>, each behind a node with its position and
  length, followed by a zero byte and aligned to eight bytes. The nodes are the object representation of two
  \<open>size_t\<close> of eight bytes, the lowest first. \<open>None\<close> is a failed assertion or an access outside of the payload.
\<close>

section \<open>Nodes\<close>

fun size_bytes :: "nat \<Rightarrow> nat \<Rightarrow> byte list" where
  "size_bytes 0 x = []"
| "size_bytes (Suc n) x = of_nat (x mod 256) # size_bytes n (x div 256)"

fun size_value :: "byte list \<Rightarrow> nat" where
  "size_value [] = 0"
| "size_value (b # bs) = unat b + 256 * size_value bs"

definition sc_node_size :: nat where "sc_node_size = 16"

definition node_at :: "byte list \<Rightarrow> nat \<Rightarrow> (nat \<times> nat) option" where
  "node_at payload pos =
     (if pos + sc_node_size \<le> length payload
      then Some (size_value (take 8 (drop pos payload)), size_value (take 8 (drop (pos + 8) payload)))
      else None)"

definition align_ceil :: "u64 \<Rightarrow> u64" where
  "align_ceil len = (len + 8 - 1) AND NOT (8 - 1)"

section \<open>Operations\<close>

text \<open>Several views are joined to one string; the result is the payload and the position of the new iterator.\<close>

definition sc_push_back :: "byte list list \<Rightarrow> byte list \<Rightarrow> (byte list \<times> nat) option" where
  "sc_push_back views payload =
     (if length payload mod 8 \<noteq> 0 then None
      else let pos = length payload;
               str_len = fold (\<lambda>s n. n + length s) views 0;
               end_pos = length payload + sc_node_size + unat (align_ceil (of_nat (str_len + 1)));
               payload = payload @ size_bytes 8 pos @ size_bytes 8 str_len;
               payload = fold (\<lambda>s p. p @ s) views payload @ [0];
               payload = payload @ replicate (end_pos - length payload) 0
           in if length payload mod 8 \<noteq> 0 then None else Some (payload, pos))"

definition iter_deref :: "byte list \<Rightarrow> nat \<Rightarrow> byte list option" where
  "iter_deref payload pos =
     (case node_at payload pos of None \<Rightarrow> None
      | Some (_, str_len) \<Rightarrow>
          if \<not> pos + sc_node_size < length payload then None
          else if pos + sc_node_size + str_len \<le> length payload then Some (take str_len (drop (pos + sc_node_size) payload))
          else None)"

definition iter_next :: "byte list \<Rightarrow> nat \<Rightarrow> nat option" where
  "iter_next payload pos =
     map_option (\<lambda>(_, str_len). pos + (sc_node_size + unat (align_ceil (of_nat (str_len + 1))))) (node_at payload pos)"

text \<open>A loop over the cache of at most \<open>k\<close> rounds.\<close>

fun cache_loop :: "nat \<Rightarrow> byte list \<Rightarrow> nat \<Rightarrow> byte list list option" where
  "cache_loop 0 payload pos = (if pos = length payload then Some [] else None)"
| "cache_loop (Suc k) payload pos =
     (if pos = length payload then Some []
      else case (iter_deref payload pos, iter_next payload pos) of
        (Some s, Some pos') \<Rightarrow> map_option (Cons s) (cache_loop k payload pos')
      | _ \<Rightarrow> None)"

fun sc_push_all :: "byte list list list \<Rightarrow> byte list \<Rightarrow> byte list option" where
  "sc_push_all [] payload = Some payload"
| "sc_push_all (vs # vss) payload = (case sc_push_back vs payload of None \<Rightarrow> None | Some (p, _) \<Rightarrow> sc_push_all vss p)"

section \<open>Layout\<close>

lemma size_bytes_length [simp]: "length (size_bytes n x) = n"
  by (induction n arbitrary: x) simp_all

lemma size_value_bytes: "x < 256 ^ n \<Longrightarrow> size_value (size_bytes n x) = x"
proof (induction n arbitrary: x)
  case (Suc n)
  have "unat (of_nat (x mod 256) :: byte) = x mod 256" by (rule of_nat_inverse [OF refl]) simp
  moreover have "size_value (size_bytes n (x div 256)) = x div 256"
    using Suc by (simp add: less_mult_imp_div_less mult.commute)
  ultimately show ?case by simp
qed simp

lemma unat_align: "unat x + 7 < 2 ^ 64 \<Longrightarrow> unat (align_ceil x) = (unat x + 7) div 8 * 8"
proof -
  assume "unat x + 7 < 2 ^ 64"
  then have s: "unat (x + 7) = unat x + 7" by (subst unat_add_lem [THEN iffD1]) simp_all
  have "y AND NOT (mask 3) = push_bit 3 (drop_bit 3 y)" for y :: u64
    by (rule bit_word_eqI) (auto simp: bit_simps)
  moreover have "x + 8 - 1 = x + 7" "(8 - 1 :: u64) = mask 3" by (simp_all add: mask_eq_exp_minus_1)
  ultimately have "align_ceil x = push_bit 3 (drop_bit 3 (x + 7))" unfolding align_ceil_def by metis
  moreover have "(unat x + 7) div 8 * 8 < 2 ^ 64"
    by (rule le_less_trans [OF div_times_less_eq_dividend]) fact
  ultimately show ?thesis using s by (simp add: unat_shl unat_shr)
qed

definition pad :: "nat \<Rightarrow> nat" where "pad n = (n + 8) div 8 * 8"

lemma pad_bounds: "n < pad n" "pad n \<le> n + 8" "pad n mod 8 = 0"
  unfolding pad_def by arith+

lemma align_pad: "n + 8 < 2 ^ 64 \<Longrightarrow> unat (align_ceil (of_nat (n + 1))) = pad n"
proof -
  assume "n + 8 < 2 ^ 64"
  then have "unat (of_nat (n + 1) :: u64) = n + 1" by (intro of_nat_inverse [OF refl]) simp
  then show ?thesis using \<open>n + 8 < 2 ^ 64\<close> unat_align [of "of_nat (n + 1)"] by (simp add: pad_def)
qed

text \<open>What \<open>push_back\<close> appends, and the layout of a list of strings.\<close>

definition sc_entry :: "nat \<Rightarrow> byte list \<Rightarrow> byte list" where
  "sc_entry pos s = size_bytes 8 pos @ size_bytes 8 (length s) @ s @ replicate (pad (length s) - length s) 0"

lemma entry_length: "length (sc_entry pos s) = sc_node_size + pad (length s)"
  using pad_bounds(1) [of "length s"] by (simp add: sc_entry_def sc_node_size_def)

lemma joined: "fold (\<lambda>s n. n + length s) vs n = n + length (concat vs)" "fold (\<lambda>s p. p @ s) vs p = p @ concat vs"
  by (induction vs arbitrary: n p) simp_all

lemma push_entry:
  assumes "length p mod 8 = 0" "length (concat vs) + 8 < 2 ^ 64"
  shows "sc_push_back vs p = Some (p @ sc_entry (length p) (concat vs), length p)"
proof -
  let ?n = "length (concat vs)"
  have "(0 :: byte) # replicate (pad ?n - Suc ?n) 0 = replicate (pad ?n - ?n) 0"
    using pad_bounds(1) [of ?n] by (metis Suc_diff_Suc replicate_Suc)
  then have e: "p @ size_bytes 8 (length p) @ size_bytes 8 ?n @ concat vs @ [0] @ replicate (pad ?n - Suc ?n) 0 = p @ sc_entry (length p) (concat vs)"
    by (simp add: sc_entry_def)
  have "length (p @ sc_entry (length p) (concat vs)) mod 8 = 0"
    unfolding length_append entry_length sc_node_size_def using assms(1) pad_bounds(3) [of ?n] by presburger
  moreover have "length p + sc_node_size + pad ?n - (length p + (8 + (8 + Suc ?n))) = pad ?n - Suc ?n" by (simp add: sc_node_size_def)
  ultimately show ?thesis
    using assms(1) align_pad [OF assms(2)] e unfolding sc_push_back_def joined Let_def by (simp del: length_concat)
qed


fun layout :: "nat \<Rightarrow> byte list list \<Rightarrow> byte list" where
  "layout pos [] = []"
| "layout pos (s # ss) = sc_entry pos s @ layout (pos + length (sc_entry pos s)) ss"

lemma entry_aligned: "length (sc_entry pos s) mod 8 = 0"
  unfolding entry_length sc_node_size_def using pad_bounds(3) [of "length s"] by presburger

lemma layout_snoc: "layout pos (ss @ [s]) = layout pos ss @ sc_entry (pos + length (layout pos ss)) s"
  by (induction ss arbitrary: pos) (simp_all add: add.assoc)

lemma layout_aligned: "length (layout pos ss) mod 8 = 0"
proof (induction ss arbitrary: pos)
  case (Cons s ss)
  show ?case unfolding layout.simps length_append using entry_aligned [of pos s] Cons.IH [of "pos + length (sc_entry pos s)"] by presburger
qed simp

lemma push_all_layout:
  "\<forall>vs \<in> set vss. length (concat vs) + 8 < 2 ^ 64 \<Longrightarrow> sc_push_all vss (layout 0 ss) = Some (layout 0 (ss @ map concat vss))"
proof (induction vss arbitrary: ss)
  case (Cons vs vss)
  have "sc_push_back vs (layout 0 ss) = Some (layout 0 (ss @ [concat vs]), length (layout 0 ss))"
    using push_entry [OF layout_aligned, of vs 0 ss] Cons.prems by (simp add: layout_snoc del: length_concat)
  then show ?case using Cons.IH [of "ss @ [concat vs]"] Cons.prems by simp
qed simp

section \<open>Reading\<close>

text \<open>At the position of an entry an iterator finds its node, its string and the next entry.\<close>

lemma node_entry:
  assumes "pos = length a" "pos < 2 ^ 64" "length s < 2 ^ 64"
  shows "node_at (a @ sc_entry pos s @ b) pos = Some (pos, length s)"
  using assms size_value_bytes [of pos 8] size_value_bytes [of "length s" 8] pad_bounds(1) [of "length s"]
  by (simp add: node_at_def sc_entry_def sc_node_size_def)

lemma iter_entry:
  assumes "pos = length a" "pos < 2 ^ 64" "length s + 8 < 2 ^ 64"
  shows "iter_deref (a @ sc_entry pos s @ b) pos = Some s"
    "iter_next (a @ sc_entry pos s @ b) pos = Some (pos + length (sc_entry pos s))"
    "(a @ sc_entry pos s @ b) ! (pos + sc_node_size + length s) = 0"
proof -
  note n = node_entry [OF assms(1,2), of s b]
  have p: "length s < pad (length s)" by (rule pad_bounds)
  show "iter_deref (a @ sc_entry pos s @ b) pos = Some s"
    using assms n p by (simp add: iter_deref_def) (simp add: sc_entry_def sc_node_size_def)
  show "iter_next (a @ sc_entry pos s @ b) pos = Some (pos + length (sc_entry pos s))"
    using assms n align_pad [OF assms(3)] by (simp add: iter_next_def entry_length)
  show "(a @ sc_entry pos s @ b) ! (pos + sc_node_size + length s) = 0"
    using assms(1) p by (simp add: sc_entry_def sc_node_size_def nth_append)
qed

lemma loop_layout:
  assumes "length a + length (layout (length a) ss) < 2 ^ 64" "length ss \<le> k"
  shows "cache_loop k (a @ layout (length a) ss) (length a) = Some ss"
  using assms
proof (induction ss arbitrary: a k)
  case Nil
  then show ?case by (cases k) simp_all
next
  case (Cons s ss)
  let ?e = "sc_entry (length a) s"
  obtain j where k: "k = Suc j" "length ss \<le> j" using Cons.prems(2) by (cases k) auto
  have small: "length a < 2 ^ 64" "length s + 8 < 2 ^ 64"
    using Cons.prems(1) pad_bounds(1) [of "length s"] by (simp_all add: entry_length sc_node_size_def)
  have "cache_loop j ((a @ ?e) @ layout (length (a @ ?e)) ss) (length (a @ ?e)) = Some ss"
    by (rule Cons.IH) (use Cons.prems(1) k(2) in \<open>simp_all add: add.assoc\<close>)
  moreover have "0 < length ?e" by (simp add: entry_length sc_node_size_def)
  ultimately show ?case using k(1) iter_entry(1,2) [OF refl small] by simp
qed

section \<open>Property\<close>

text \<open>C37: The strings that were pushed, each joined from its parts, are what a loop over the cache reads, in order; the
  iterator that \<open>push_back\<close> gave stays at its string when more are pushed, and a zero byte ends each of them.\<close>

theorem string_cache_roundtrip:
  assumes "sc_push_all before [] = Some p0" "sc_push_back views p0 = Some (p1, it)" "sc_push_all after p1 = Some p"
    and "\<forall>vs \<in> set (before @ views # after). length (concat vs) + 8 < 2 ^ 64" "length p < 2 ^ 64"
    and "length before + length after < k"
  shows "cache_loop k p 0 = Some (map concat (before @ views # after)) \<and> iter_deref p it = Some (concat views)
    \<and> p ! (it + sc_node_size + length (concat views)) = 0"
proof -
  let ?b = "map concat before" and ?s = "concat views"
  have p0: "p0 = layout 0 ?b" using push_all_layout [of before "[]"] assms(1,4) by simp
  then have p1: "p1 = layout 0 (?b @ [?s])" "it = length (layout 0 ?b)"
    using push_entry [OF layout_aligned, of views 0 ?b] assms(2,4) by (simp_all add: layout_snoc del: length_concat)
  then have p: "p = layout 0 (?b @ [?s] @ map concat after)"
    using push_all_layout [of after "?b @ [?s]"] assms(3,4) by simp
  have split: "layout pos (xs @ ys) = layout pos xs @ layout (pos + length (layout pos xs)) ys" for pos xs ys
    by (induction xs arbitrary: pos) (simp_all add: add.assoc)
  obtain r where r: "p = layout 0 ?b @ sc_entry it ?s @ r" using p p1(2) split [of 0 ?b] by simp
  have small: "it < 2 ^ 64" "length ?s + 8 < 2 ^ 64" using r p1(2) assms(4,5) by simp_all
  have "cache_loop k p 0 = Some (map concat (before @ views # after))"
    using loop_layout [of "[]" "?b @ [?s] @ map concat after" k] assms(5,6) p by simp
  then show ?thesis using iter_entry(1,3) [OF p1(2) small, of r] r by simp
qed


lemma string_cache_roundtrip_witness:
  "\<exists>p0 p it. sc_push_all [[[97]]] [] = Some p0 \<and> sc_push_back [[98], [99]] p0 = Some (p, it)
     \<and> cache_loop 2 p 0 = Some [[97], [98, 99]] \<and> iter_deref p it = Some [98, 99]"
proof -
  let ?p0 = "layout 0 [[97]]"
  have p0: "sc_push_all [[[97]]] [] = Some ?p0" using push_all_layout [of "[[[97]]]" "[]"] by simp
  have p1: "sc_push_back [[98], [99]] ?p0 = Some (?p0 @ sc_entry 24 [98, 99], 24)"
    using push_entry [OF layout_aligned, of "[[98], [99]]" 0 "[[97]]"] by (simp add: entry_length sc_node_size_def pad_def)
  have p: "sc_push_all [] (?p0 @ sc_entry 24 [98, 99]) = Some (?p0 @ sc_entry 24 [98, 99])" by simp
  show ?thesis
    using string_cache_roundtrip [OF p0 p1 p, of 2] p0 p1 by (simp add: entry_length sc_node_size_def pad_def)
qed

end
