(* ===== verification/Bimap.thy ===== *)
theory Bimap
  imports Cpph_Prelude "HOL-Library.Multiset"
begin

text \<open>
  \<open>container/bimap.hxx\<close>: a vector of pairs with two ordered maps from each key to its index, and
  \<open>memory/list_pool.hxx\<close>, which keeps the nodes of lists for reuse.
\<close>

section \<open>The map\<close>

record ('a, 'b) bimap =
  bm_data :: "('a \<times> 'b) list"
  bm_first :: "'a \<Rightarrow> nat option"
  bm_second :: "'b \<Rightarrow> nat option"

definition bm_empty :: "('a, 'b) bimap" where
  "bm_empty = \<lparr>bm_data = [], bm_first = Map.empty, bm_second = Map.empty\<rparr>"

definition bm_clear :: "('a, 'b) bimap \<Rightarrow> ('a, 'b) bimap" where
  "bm_clear m = m\<lparr>bm_data := [], bm_first := Map.empty, bm_second := Map.empty\<rparr>"

text \<open>\<open>std::map::try_emplace\<close>: the map, and whether the key was new.\<close>

definition map_try_emplace :: "'k \<Rightarrow> nat \<Rightarrow> ('k \<Rightarrow> nat option) \<Rightarrow> ('k \<Rightarrow> nat option) \<times> bool" where
  "map_try_emplace k v m = (if m k = None then (m(k \<mapsto> v), True) else (m, False))"

text \<open>\<open>insert\<close> returns an iterator, as an index; \<open>end()\<close> is the number of pairs.\<close>

definition bm_insert :: "'a \<times> 'b \<Rightarrow> ('a, 'b) bimap \<Rightarrow> ('a, 'b) bimap \<times> nat" where
  "bm_insert v m =
     (let n = length (bm_data m);
          (m1, okay1) = map_try_emplace (fst v) n (bm_first m);
          (m2, okay2) = map_try_emplace (snd v) n (bm_second m)
      in if \<not> okay1 then (m\<lparr>bm_first := m1, bm_second := (if okay2 then m2(snd v := None) else m2)\<rparr>, n)
         else if \<not> okay2 then (m\<lparr>bm_first := (if okay1 then m1(fst v := None) else m1), bm_second := m2\<rparr>, n)
         else (m\<lparr>bm_data := bm_data m @ [v], bm_first := m1, bm_second := m2\<rparr>, n))"

definition bm_find_first :: "'a \<Rightarrow> ('a, 'b) bimap \<Rightarrow> nat" where
  "bm_find_first k m = (case bm_first m k of None \<Rightarrow> length (bm_data m) | Some i \<Rightarrow> i)"

text \<open>\<open>find_second_key\<close> returns the range of the map, an entry of key and index when the key is there.\<close>

definition bm_find_second :: "'b \<Rightarrow> ('a, 'b) bimap \<Rightarrow> ('b \<times> nat) list" where
  "bm_find_second k m = (case bm_second m k of None \<Rightarrow> [] | Some i \<Rightarrow> [(k, i)])"

text \<open>\<open>assign\<close>: the loop does not advance, \<open>None\<close> when it has not ended after \<open>k\<close> rounds.\<close>

fun assign_loop :: "nat \<Rightarrow> 'v list \<Rightarrow> ('a, 'b) bimap \<Rightarrow> ('a, 'b) bimap option" where
  "assign_loop 0 vs m = (if vs = [] then Some m else None)"
| "assign_loop (Suc k) vs m = (if vs = [] then Some m else assign_loop k vs m)"

definition bm_assign :: "nat \<Rightarrow> ('a \<times> 'b) list \<Rightarrow> ('a, 'b) bimap \<Rightarrow> ('a, 'b) bimap option" where
  "bm_assign k vs m = assign_loop k vs (bm_clear m)"

section \<open>Invariant\<close>

text \<open>The two maps are the indices of the two columns.\<close>

definition indexes :: "('k \<Rightarrow> nat option) \<Rightarrow> 'k list \<Rightarrow> bool" where
  "indexes m ks \<longleftrightarrow> (\<forall>k i. m k = Some i \<longleftrightarrow> i < length ks \<and> ks ! i = k)"

definition bm_inv :: "('a, 'b) bimap \<Rightarrow> bool" where
  "bm_inv m \<longleftrightarrow> indexes (bm_first m) (map fst (bm_data m)) \<and> indexes (bm_second m) (map snd (bm_data m))"

lemma indexes_distinct: "indexes m ks \<Longrightarrow> distinct ks"
  unfolding indexes_def distinct_conv_nth by (metis option.inject)

lemma indexes_new: "indexes m ks \<Longrightarrow> m k = None \<longleftrightarrow> k \<notin> set ks"
  unfolding indexes_def in_set_conv_nth by (metis option.exhaust option.distinct(1))

lemma indexes_snoc: "indexes m ks \<Longrightarrow> k \<notin> set ks \<Longrightarrow> indexes (m(k \<mapsto> length ks)) (ks @ [k])"
  by (auto simp: indexes_def nth_append less_Suc_eq)

lemma bm_inv_empty: "bm_inv bm_empty"
  by (simp add: bm_inv_def bm_empty_def indexes_def)

lemma insert_eq:
  assumes "bm_inv m"
  shows "bm_insert (a, b) m =
    (if a \<in> fst ` set (bm_data m) \<or> b \<in> snd ` set (bm_data m) then m
     else m\<lparr>bm_data := bm_data m @ [(a, b)], bm_first := (bm_first m)(a \<mapsto> length (bm_data m)),
            bm_second := (bm_second m)(b \<mapsto> length (bm_data m))\<rparr>, length (bm_data m))"
proof -
  have n: "bm_first m a = None \<longleftrightarrow> a \<notin> fst ` set (bm_data m)" "bm_second m b = None \<longleftrightarrow> b \<notin> snd ` set (bm_data m)"
    using assms indexes_new [of "bm_first m" "map fst (bm_data m)" a] indexes_new [of "bm_second m" "map snd (bm_data m)" b]
    by (simp_all add: bm_inv_def)
  show ?thesis using n fun_upd_idem [of "bm_first m" a None] fun_upd_idem [of "bm_second m" b None]
    by (simp add: bm_insert_def map_try_emplace_def Let_def)
qed

section \<open>Properties\<close>

fun bm_inserts :: "('a \<times> 'b) list \<Rightarrow> ('a, 'b) bimap \<Rightarrow> ('a, 'b) bimap" where
  "bm_inserts [] m = m"
| "bm_inserts (v # vs) m = bm_inserts vs (fst (bm_insert v m))"

text \<open>The pairs that are taken: those of which both keys are new.\<close>

fun taken :: "('a \<times> 'b) list \<Rightarrow> ('a \<times> 'b) list \<Rightarrow> ('a \<times> 'b) list" where
  "taken ps [] = ps"
| "taken ps ((a, b) # vs) = taken (if a \<in> fst ` set ps \<or> b \<in> snd ` set ps then ps else ps @ [(a, b)]) vs"

lemma inserts_taken: "bm_inv m \<Longrightarrow> bm_inv (bm_inserts vs m) \<and> bm_data (bm_inserts vs m) = taken (bm_data m) vs"
proof (induction vs arbitrary: m)
  case (Cons v vs)
  obtain a b where v: "v = (a, b)" by (cases v)
  have i: "indexes (bm_first m) (map fst (bm_data m))" "indexes (bm_second m) (map snd (bm_data m))"
    using Cons.prems by (simp_all add: bm_inv_def)
  have "bm_inv (fst (bm_insert (a, b) m))"
    using Cons.prems indexes_snoc [OF i(1), of a] indexes_snoc [OF i(2), of b] by (auto simp: insert_eq bm_inv_def)
  then show ?case using Cons by (simp add: v insert_eq)
qed simp

text \<open>After any insertions the map holds the pairs of which both keys were new, in their order; a rejected pair leaves
  neither of its keys behind, both columns have no duplicates, and each key is found at its pair.\<close>

theorem bimap_inserts:
  shows "bm_data (bm_inserts vs bm_empty) = taken [] vs
    \<and> distinct (map fst (taken [] vs)) \<and> distinct (map snd (taken [] vs))
    \<and> (\<forall>i < length (taken [] vs). bm_find_first (fst (taken [] vs ! i)) (bm_inserts vs bm_empty) = i
         \<and> bm_find_second (snd (taken [] vs ! i)) (bm_inserts vs bm_empty) = [(snd (taken [] vs ! i), i)])
    \<and> (\<forall>a. a \<notin> fst ` set (taken [] vs) \<longrightarrow> bm_find_first a (bm_inserts vs bm_empty) = length (taken [] vs))
    \<and> (\<forall>b. b \<notin> snd ` set (taken [] vs) \<longrightarrow> bm_find_second b (bm_inserts vs bm_empty) = [])"
proof -
  let ?m = "bm_inserts vs bm_empty" and ?t = "taken [] vs"
  have m: "bm_inv ?m" "bm_data ?m = ?t" using inserts_taken [OF bm_inv_empty, of vs] by (simp_all add: bm_empty_def)
  then have i: "indexes (bm_first ?m) (map fst ?t)" "indexes (bm_second ?m) (map snd ?t)" by (simp_all add: bm_inv_def)
  have "bm_first ?m (fst (?t ! j)) = Some j" "bm_second ?m (snd (?t ! j)) = Some j" if "j < length ?t" for j
    using i that by (simp_all add: indexes_def)
  moreover have "bm_first ?m a = None" if "a \<notin> fst ` set ?t" for a using indexes_new [OF i(1), of a] that by simp
  moreover have "bm_second ?m b = None" if "b \<notin> snd ` set ?t" for b using indexes_new [OF i(2), of b] that by simp
  ultimately show ?thesis
    using m(2) indexes_distinct [OF i(1)] indexes_distinct [OF i(2)]
    by (simp add: bm_find_first_def bm_find_second_def)
qed

lemma bimap_inserts_witness:
  "bm_find_second 30 (bm_inserts [(1 :: nat, 10 :: nat), (2, 10), (1, 20), (3, 30)] bm_empty) = [(30, 1)]"
  using bimap_inserts [of "[(1 :: nat, 10 :: nat), (2, 10), (1, 20), (3, 30)]"] by (simp add: All_less_Suc numeral_2_eq_2)

text \<open>\<open>assign\<close> of a range that is not empty, and with it the constructor from a list, does not end.\<close>

lemma assign_endless: "vs \<noteq> [] \<Longrightarrow> bm_assign k vs m = None"
proof -
  assume "vs \<noteq> []"
  then have "assign_loop k vs x = None" for x :: "('a, 'b) bimap" by (induction k) simp_all
  then show ?thesis by (simp add: bm_assign_def)
qed

section \<open>List pools\<close>

text \<open>A list is its elements; \<open>splice\<close> moves them. An element that is checked out is an old one as it was left, or
  a new one from the default constructor \<open>d\<close>.\<close>

definition lp_checkin :: "'t list \<Rightarrow> 't list \<Rightarrow> 't list \<times> 't list" where
  "lp_checkin pool other = (pool @ other, [])"

definition lp_checkin_one :: "'t list \<Rightarrow> 't list \<Rightarrow> nat \<Rightarrow> ('t list \<times> 't list) option" where
  "lp_checkin_one pool other i =
     (if i < length other then Some (pool @ [other ! i], take i other @ drop (Suc i) other) else None)"

definition lp_checkin_range :: "'t list \<Rightarrow> 't list \<Rightarrow> nat \<Rightarrow> nat \<Rightarrow> ('t list \<times> 't list) option" where
  "lp_checkin_range pool other i j =
     (if i \<le> j \<and> j \<le> length other then Some (pool @ take (j - i) (drop i other), take i other @ drop j other) else None)"

definition lp_checkout :: "'t \<Rightarrow> 't list \<Rightarrow> 't list \<Rightarrow> nat \<Rightarrow> 't list \<times> 't list" where
  "lp_checkout d pool other pos =
     (case pool of
        x # pool \<Rightarrow> (pool, take pos other @ x # drop pos other)
      | [] \<Rightarrow> ([], take pos other @ d # drop pos other))"

definition lp_checkout_back :: "'t \<Rightarrow> 't list \<Rightarrow> 't list \<Rightarrow> 't list \<times> 't list" where
  "lp_checkout_back d pool other = lp_checkout d pool other (length other)"

definition lp_checkout_front :: "'t \<Rightarrow> 't list \<Rightarrow> 't list \<Rightarrow> 't list \<times> 't list" where
  "lp_checkout_front d pool other = lp_checkout d pool other 0"

text \<open>Nothing is lost or made twice, apart from the new element of an empty pool.\<close>

lemma checkout_elements:
  "case lp_checkout d pool other pos of (pool', other') \<Rightarrow>
     mset pool' + mset other' = mset pool + mset other + (if pool = [] then {#d#} else {#})"
proof -
  have "mset (take pos other) + mset (drop pos other) = mset other" by (simp flip: mset_append)
  then show ?thesis by (cases pool) (simp_all add: lp_checkout_def)
qed

end
