(* ===== verification/Session_Group.thy ===== *)
theory Session_Group
  imports Cpph_Prelude
begin

text \<open>
  \<open>refl/rpc/detail/group.hxx\<close>: a set of sessions that are notified together, and the bytes that went through it. What
  a session is asked, whether it has expired and how many bytes it read and wrote, is its entry in a table; the set of
  session pointers is a list of their names without duplicates.
\<close>

section \<open>State and operations\<close>

record session_view =
  sv_expired :: bool
  sv_read :: u64
  sv_written :: u64

record session_group =
  sg_sessions :: "nat list"
  sg_rt_off :: u64
  sg_wt_off :: u64

type_synonym sessions = "nat \<Rightarrow> session_view"

definition sg_empty :: session_group where
  "sg_empty = \<lparr>sg_sessions = [], sg_rt_off = 0, sg_wt_off = 0\<rparr>"

text \<open>The loop of \<open>gc\<close> and \<open>notify_filter\<close>: the totals of an expired session are kept and it is erased.\<close>

fun gc_loop :: "sessions \<Rightarrow> nat list \<Rightarrow> u64 \<Rightarrow> u64 \<Rightarrow> nat list \<times> u64 \<times> u64" where
  "gc_loop S [] rt wt = ([], rt, wt)"
| "gc_loop S (x # xs) rt wt =
     (if sv_expired (S x) then gc_loop S xs (rt + sv_read (S x)) (wt + sv_written (S x))
      else let (ys, rt, wt) = gc_loop S xs rt wt in (x # ys, rt, wt))"

definition sg_gc :: "sessions \<Rightarrow> session_group \<Rightarrow> session_group" where
  "sg_gc S g = (let (xs, rt, wt) = gc_loop S (sg_sessions g) (sg_rt_off g) (sg_wt_off g)
     in \<lparr>sg_sessions = xs, sg_rt_off = rt, sg_wt_off = wt\<rparr>)"

text \<open>The sessions that are notified, and the number that is returned.\<close>

definition notify_filter :: "(nat \<Rightarrow> bool) \<Rightarrow> sessions \<Rightarrow> session_group \<Rightarrow> session_group \<times> nat list \<times> nat" where
  "notify_filter fn S g = (let g = sg_gc S g; parr = sg_sessions g in (g, filter fn parr, length parr))"

definition sg_notify :: "sessions \<Rightarrow> session_group \<Rightarrow> session_group \<times> nat list \<times> nat" where
  "sg_notify = notify_filter (\<lambda>_. True)"

definition add_session :: "nat \<Rightarrow> sessions \<Rightarrow> session_group \<Rightarrow> session_group \<times> bool" where
  "add_session p S g =
     (if sv_expired (S p) then (g, False)
      else let is_new = p \<notin> set (sg_sessions g);
               g = (if is_new then g\<lparr>sg_sessions := insort p (sg_sessions g)\<rparr> else g)
           in if is_new then (g\<lparr>sg_rt_off := sg_rt_off g - sv_read (S p), sg_wt_off := sg_wt_off g - sv_written (S p)\<rparr>, True)
              else (g, False))"

definition remove_session :: "nat \<Rightarrow> sessions \<Rightarrow> session_group \<Rightarrow> session_group \<times> bool" where
  "remove_session p S g =
     (if p \<notin> set (sg_sessions g) then (g, False)
      else (g\<lparr>sg_rt_off := sg_rt_off g + sv_read (S p), sg_wt_off := sg_wt_off g + sv_written (S p),
              sg_sessions := remove1 p (sg_sessions g)\<rparr>, True))"

definition sg_totals :: "sessions \<Rightarrow> session_group \<Rightarrow> u64 \<times> u64" where
  "sg_totals S g =
     (fold (\<lambda>x rt. rt + sv_read (S x)) (sg_sessions g) 0 + sg_rt_off g,
      fold (\<lambda>x wt. wt + sv_written (S x)) (sg_sessions g) 0 + sg_wt_off g)"

definition sg_release :: "sessions \<Rightarrow> session_group \<Rightarrow> session_group \<times> nat list" where
  "sg_release S g = (let (rt, wt) = sg_totals S g
     in (g\<lparr>sg_rt_off := rt, sg_wt_off := wt, sg_sessions := []\<rparr>, sg_sessions g))"

definition sg_size :: "session_group \<Rightarrow> nat" where
  "sg_size g = length (sg_sessions g)"

section \<open>Runs\<close>

text \<open>A run interleaves the operations of the group with traffic of sessions and their expiry. The account is what
  went through a session while it was in the group.\<close>

datatype group_event =
    Add nat | Remove nat | Gc | Notify "nat \<Rightarrow> bool" | Release
  | Traffic nat u64 u64 | Expire nat

fun group_step :: "group_event \<Rightarrow> sessions \<times> session_group \<Rightarrow> sessions \<times> session_group" where
  "group_step (Add p) (S, g) = (S, fst (add_session p S g))"
| "group_step (Remove p) (S, g) = (S, fst (remove_session p S g))"
| "group_step Gc (S, g) = (S, sg_gc S g)"
| "group_step (Notify fn) (S, g) = (S, fst (notify_filter fn S g))"
| "group_step Release (S, g) = (S, fst (sg_release S g))"
| "group_step (Traffic p r w) (S, g) = (S(p := (S p)\<lparr>sv_read := sv_read (S p) + r, sv_written := sv_written (S p) + w\<rparr>), g)"
| "group_step (Expire p) (S, g) = (S(p := (S p)\<lparr>sv_expired := True\<rparr>), g)"

fun traffic_of :: "group_event \<Rightarrow> session_group \<Rightarrow> u64 \<times> u64" where
  "traffic_of (Traffic p r w) g = (if p \<in> set (sg_sessions g) then (r, w) else (0, 0))"
| "traffic_of _ g = (0, 0)"

fun account :: "group_event list \<Rightarrow> sessions \<times> session_group \<Rightarrow> u64 \<times> u64" where
  "account [] x = (0, 0)"
| "account (e # es) x =
     (let (r, w) = traffic_of e (snd x); (rs, ws) = account es (group_step e x) in (r + rs, w + ws))"

fun group_run :: "group_event list \<Rightarrow> sessions \<times> session_group \<Rightarrow> sessions \<times> session_group" where
  "group_run [] x = x"
| "group_run (e # es) x = group_run es (group_step e x)"


section \<open>Totals\<close>

lemma fold_totals: "fold (\<lambda>x n. n + f x) xs a = sum_list (map f xs) + (a :: u64)"
  by (induction xs arbitrary: a) (simp_all add: add_ac)

lemma totals_eq: "sg_totals S g =
   (sum_list (map (sv_read \<circ> S) (sg_sessions g)) + sg_rt_off g, sum_list (map (sv_written \<circ> S) (sg_sessions g)) + sg_wt_off g)"
  by (simp add: sg_totals_def fold_totals comp_def)

lemma gc_loop_eq: "gc_loop S xs rt wt = (filter (\<lambda>x. \<not> sv_expired (S x)) xs,
    rt + sum_list (map (sv_read \<circ> S) (filter (\<lambda>x. sv_expired (S x)) xs)),
    wt + sum_list (map (sv_written \<circ> S) (filter (\<lambda>x. sv_expired (S x)) xs)))"
  by (induction xs arbitrary: rt wt) (simp_all add: add_ac)

lemma sum_filter: "sum_list (map f (filter P xs)) + sum_list (map f (filter (\<lambda>x. \<not> P x) xs)) = (sum_list (map f xs) :: u64)"
  by (induction xs) (simp_all add: add_ac)

lemma sum_insort: "sum_list (map f (insort p xs)) = f p + (sum_list (map f xs) :: u64)"
  by (induction xs) (simp_all add: add_ac)

lemma sum_remove: "p \<in> set xs \<Longrightarrow> f p + sum_list (map f (remove1 p xs)) = (sum_list (map f xs) :: u64)"
  by (induction xs) (auto simp: add.left_commute [of "f p"])

lemma sum_update:
  "distinct xs \<Longrightarrow> sum_list (map (\<lambda>x. if x = p then f x + d else f x) xs) = (sum_list (map f xs) :: u64) + (if p \<in> set xs then d else 0)"
  by (induction xs) (auto simp: add_ac)

definition sg_inv :: "session_group \<Rightarrow> bool" where
  "sg_inv g \<longleftrightarrow> distinct (sg_sessions g)"

text \<open>Each step keeps the sessions distinct and moves the totals by its traffic only.\<close>

lemma gc_totals: "sg_totals S (sg_gc S g) = sg_totals S g"
  using sum_filter [of "sv_read \<circ> S" "\<lambda>x. sv_expired (S x)" "sg_sessions g"] sum_filter [of "sv_written \<circ> S" "\<lambda>x. sv_expired (S x)" "sg_sessions g"]
  by (simp add: totals_eq sg_gc_def gc_loop_eq add_ac)

lemma gc_inv: "sg_inv g \<Longrightarrow> sg_inv (sg_gc S g)"
  by (simp add: sg_inv_def sg_gc_def gc_loop_eq)

lemma group_step_inv: "sg_inv g \<Longrightarrow> sg_inv (snd (group_step e (S, g)))"
  by (cases e) (auto simp: gc_inv [unfolded sg_inv_def] notify_filter_def Let_def add_session_def remove_session_def sg_release_def sg_inv_def
    distinct_insort sg_totals_def)

lemma group_step_totals:
  assumes "sg_inv g" "group_step e (S, g) = (S', g')" "traffic_of e g = (r, w)"
  shows "sg_totals S' g' = (case sg_totals S g of (rt, wt) \<Rightarrow> (rt + r, wt + w))"
proof (cases e)
  case (Add p)
  then show ?thesis using assms(2,3) by (auto simp: add_session_def Let_def totals_eq sum_insort split: if_splits)
next
  case (Remove p)
  then show ?thesis using assms(2,3) sum_remove [of p "sg_sessions g" "sv_read \<circ> S"] sum_remove [of p "sg_sessions g" "sv_written \<circ> S"]
    by (auto simp: remove_session_def totals_eq add_ac split: if_splits)
next
  case (Traffic p dr dw)
  let ?S = "S(p := (S p)\<lparr>sv_read := sv_read (S p) + dr, sv_written := sv_written (S p) + dw\<rparr>)"
  have "sv_read \<circ> ?S = (\<lambda>x. if x = p then (sv_read \<circ> S) x + dr else (sv_read \<circ> S) x)"
    "sv_written \<circ> ?S = (\<lambda>x. if x = p then (sv_written \<circ> S) x + dw else (sv_written \<circ> S) x)"
    by (simp_all add: fun_eq_iff)
  note u = sum_update [of "sg_sessions g" p "sv_read \<circ> S" dr] sum_update [of "sg_sessions g" p "sv_written \<circ> S" dw] this
  show ?thesis using assms u by (auto simp: Traffic totals_eq sg_inv_def add_ac)
next
  case (Expire p)
  have "sv_read \<circ> S(p := (S p)\<lparr>sv_expired := True\<rparr>) = sv_read \<circ> S" "sv_written \<circ> S(p := (S p)\<lparr>sv_expired := True\<rparr>) = sv_written \<circ> S"
    by (simp_all add: fun_eq_iff)
  then show ?thesis using assms(2,3) by (auto simp: Expire totals_eq)
qed (use assms(2,3) in \<open>auto simp: gc_totals [unfolded totals_eq, simplified] notify_filter_def Let_def sg_release_def totals_eq\<close>)

section \<open>Property\<close>

text \<open>C38: The totals of a group are the bytes that went through its sessions while they were in it: they count from the
  moment a session is added, and stay when it is removed, expires, is collected or released, whatever the order and
  however the 64-bit counters wrap.\<close>

theorem group_totals:
  assumes "group_run es (S, sg_empty) = (S', g)"
  shows "sg_totals S' g = account es (S, sg_empty)"
proof -
  have "case account es (S, g0) of (r, w) \<Rightarrow> sg_totals (fst (group_run es (S, g0))) (snd (group_run es (S, g0)))
      = (fst (sg_totals S g0) + r, snd (sg_totals S g0) + w)" if "sg_inv g0" for g0
    using that
  proof (induction es arbitrary: S g0)
    case (Cons e es)
    obtain S1 g1 where s: "group_step e (S, g0) = (S1, g1)" by fastforce
    obtain r w where t: "traffic_of e g0 = (r, w)" by fastforce
    have "sg_inv g1" using group_step_inv [OF Cons.prems, of e S] s by simp
    from Cons.IH [OF this, of S1] show ?case
      using group_step_totals [OF Cons.prems s t] s t by (auto simp: add_ac split: prod.splits)
  qed simp
  note this [of sg_empty]
  moreover have "sg_inv sg_empty" "sg_totals S sg_empty = (0, 0)" by (simp_all add: sg_inv_def sg_empty_def sg_totals_def)
  ultimately show ?thesis using assms by (auto split: prod.splits)
qed

lemma group_totals_witness:
  "\<exists>S' g. group_run [Traffic 1 5 5, Add 1, Traffic 1 7 2, Expire 1, Gc, Traffic 1 3 3] (\<lambda>_. \<lparr>sv_expired = False, sv_read = 0, sv_written = 0\<rparr>, sg_empty)
     = (S', g) \<and> sg_totals S' g = (7, 2)"
proof -
  let ?es = "[Traffic 1 5 5, Add 1, Traffic 1 7 2, Expire 1, Gc, Traffic 1 3 3]"
  let ?x = "(\<lambda>_. \<lparr>sv_expired = False, sv_read = 0, sv_written = 0\<rparr>, sg_empty)"
  obtain S' g where r: "group_run ?es ?x = (S', g)" by fastforce
  have "account ?es ?x = (7, 2)" by (simp add: add_session_def sg_empty_def sg_gc_def)
  then show ?thesis using group_totals [OF r] r by simp
qed

end
