(* ===== verification/Local_Async.thy ===== *)
theory Local_Async
  imports Cpph_Prelude
begin

text \<open>
  \<open>thread/local_async.hxx\<close>, a future on the stack of one thread and the promise that another thread fulfils, as the
  steps of the two threads between their accesses to the atomic state; and \<open>thread/notify_queue.hxx\<close>, a queue that
  drops its oldest elements.
\<close>

section \<open>Futures\<close>

datatype future_state = Fs_empty | Fs_busy | Fs_ready | Fs_invalid

text \<open>What a call returns or throws.\<close>

datatype ('v, 'e) fut_outcome =
    Got 'v | Rethrown 'e | Waited | Until_result bool | Invalid_future | Invalid_promise_request

datatype fut_call = Call_wait | Call_until | Call_get | Call_destructor

text \<open>Where the thread of the future is: between calls, in the check or the loop of a call, in \<open>get\<close> before its second
  check, before the state is stored, and before the result is read. An exception that leaves the destructor
  terminates the program.\<close>

datatype fut_pc =
    F_idle | F_check fut_call | F_spin fut_call | F_last | F_verify fut_call | F_store fut_call | F_read fut_call
  | F_destroyed | F_terminated | F_assert

text \<open>Where the promise is: not made, with its pointer to the future, with a result written, with the state stored, and
  with the pointer cleared.\<close>

datatype prom_pc = P_none | P_has | P_written | P_stored | P_null

record ('v, 'e) async =
  fut_state :: future_state
  fut_value :: "'v option"
  fut_eptr :: "'e option"
  fut_pc :: fut_pc
  prom_pc :: prom_pc
  fut_results :: "('v, 'e) fut_outcome list"

definition local_task :: "('v, 'e) async" where
  "local_task = \<lparr>fut_state = Fs_empty, fut_value = None, fut_eptr = None, fut_pc = F_idle, prom_pc = P_none, fut_results = []\<rparr>"

definition valid_state :: "future_state \<Rightarrow> bool" where
  "valid_state s \<longleftrightarrow> s = Fs_busy \<or> s = Fs_ready"

definition finish :: "('v, 'e) fut_outcome \<Rightarrow> ('v, 'e) async \<Rightarrow> ('v, 'e) async" where
  "finish r s = s\<lparr>fut_pc := F_idle, fut_results := fut_results s @ [r]\<rparr>"

definition throw_invalid :: "fut_call \<Rightarrow> ('v, 'e) async \<Rightarrow> ('v, 'e) async" where
  "throw_invalid c s = (if c = Call_destructor then s\<lparr>fut_pc := F_terminated\<rparr> else finish Invalid_future s)"

text \<open>The end of \<open>get\<close>; the destructor drops the value.\<close>

definition read_result :: "fut_call \<Rightarrow> ('v, 'e) async \<Rightarrow> ('v, 'e) async" where
  "read_result c s =
     (case (fut_eptr s, fut_value s) of
        (Some e, _) \<Rightarrow> if c = Call_destructor then s\<lparr>fut_pc := F_terminated\<rparr> else finish (Rethrown e) s
      | (None, Some v) \<Rightarrow> if c = Call_destructor then s\<lparr>fut_pc := F_destroyed\<rparr> else finish (Got v) s
      | (None, None) \<Rightarrow> s\<lparr>fut_pc := F_assert\<rparr>)"

inductive async_step :: "('v, 'e) async \<Rightarrow> ('v, 'e) async \<Rightarrow> bool" where
  make_promise: "fut_pc s = F_idle \<Longrightarrow> fut_state s = Fs_empty \<Longrightarrow> async_step s (s\<lparr>fut_state := Fs_busy, prom_pc := P_has\<rparr>)"
| no_promise: "fut_pc s = F_idle \<Longrightarrow> fut_state s \<noteq> Fs_empty \<Longrightarrow> async_step s (finish Invalid_promise_request s)"
| call: "fut_pc s = F_idle \<Longrightarrow> c \<noteq> Call_destructor \<Longrightarrow> async_step s (s\<lparr>fut_pc := F_check c\<rparr>)"
| destroy: "fut_pc s = F_idle \<Longrightarrow>
    async_step s (s\<lparr>fut_pc := (if fut_state s = Fs_busy then F_check Call_destructor else F_destroyed)\<rparr>)"
| check: "fut_pc s = F_check c \<Longrightarrow>
    async_step s (if valid_state (fut_state s) then s\<lparr>fut_pc := F_spin c\<rparr> else throw_invalid c s)"
| spin: "fut_pc s = F_spin c \<Longrightarrow> c \<noteq> Call_until \<Longrightarrow>
    async_step s (if fut_state s = Fs_busy then s else if c = Call_wait then finish Waited s else s\<lparr>fut_pc := F_verify c\<rparr>)"
| spin_until: "fut_pc s = F_spin Call_until \<Longrightarrow> async_step s (if fut_state s \<noteq> Fs_busy then s else s\<lparr>fut_pc := F_last\<rparr>)"
| until: "fut_pc s = F_last \<Longrightarrow> async_step s (finish (Until_result (fut_state s = Fs_ready)) s)"
| verify: "fut_pc s = F_verify c \<Longrightarrow>
    async_step s (if valid_state (fut_state s) then s\<lparr>fut_pc := F_store c\<rparr> else throw_invalid c s)"
| store: "fut_pc s = F_store c \<Longrightarrow> async_step s (s\<lparr>fut_state := Fs_invalid, fut_pc := F_read c\<rparr>)"
| read: "fut_pc s = F_read c \<Longrightarrow> async_step s (read_result c s)"
| write_value: "prom_pc s = P_has \<Longrightarrow> async_step s (s\<lparr>fut_value := Some v, prom_pc := P_written\<rparr>)"
| write_exception: "prom_pc s = P_has \<Longrightarrow> async_step s (s\<lparr>fut_eptr := Some e, prom_pc := P_written\<rparr>)"
| set_ready: "prom_pc s = P_written \<Longrightarrow> async_step s (s\<lparr>fut_state := Fs_ready, prom_pc := P_stored\<rparr>)"
| forget: "prom_pc s = P_stored \<Longrightarrow> async_step s (s\<lparr>prom_pc := P_null\<rparr>)"
| break: "prom_pc s = P_has \<Longrightarrow> async_step s (s\<lparr>fut_state := Fs_invalid, prom_pc := P_null\<rparr>)"

inductive async_run :: "('v, 'e) async \<Rightarrow> ('v, 'e) async \<Rightarrow> bool" where
  refl: "async_run s s"
| step: "async_run s t \<Longrightarrow> async_step t u \<Longrightarrow> async_run s u"

section \<open>Invariant\<close>

definition result_count :: "('v, 'e) async \<Rightarrow> nat" where
  "result_count s = length (filter (\<lambda>r. case r of Got _ \<Rightarrow> True | Rethrown _ \<Rightarrow> True | _ \<Rightarrow> False) (fut_results s))"

text \<open>The state follows the promise, and each place in a call knows what it may be.\<close>

definition has_result :: "('v, 'e) async \<Rightarrow> bool" where
  "has_result s \<longleftrightarrow> fut_value s \<noteq> None \<or> fut_eptr s \<noteq> None"

definition results_kept :: "('v, 'e) async \<Rightarrow> bool" where
  "results_kept s \<longleftrightarrow> result_count s \<le> 1 \<and> (fut_state s \<noteq> Fs_invalid \<longrightarrow> result_count s = 0)
     \<and> (\<forall>v. Got v \<in> set (fut_results s) \<longrightarrow> fut_value s = Some v) \<and> (\<forall>e. Rethrown e \<in> set (fut_results s) \<longrightarrow> fut_eptr s = Some e)"

fun prom_ok :: "prom_pc \<Rightarrow> future_state \<Rightarrow> bool \<Rightarrow> bool" where
  "prom_ok P_none x r \<longleftrightarrow> x = Fs_empty"
| "prom_ok P_has x r \<longleftrightarrow> x = Fs_busy"
| "prom_ok P_written x r \<longleftrightarrow> x = Fs_busy \<and> r"
| "prom_ok _ x r \<longleftrightarrow> x = Fs_ready \<and> r \<or> x = Fs_invalid"

fun pc_ok :: "fut_pc \<Rightarrow> future_state \<Rightarrow> bool \<Rightarrow> nat \<Rightarrow> bool" where
  "pc_ok (F_spin _) x r n \<longleftrightarrow> x \<noteq> Fs_empty"
| "pc_ok F_last x r n \<longleftrightarrow> x \<noteq> Fs_empty"
| "pc_ok (F_verify _) x r n \<longleftrightarrow> x = Fs_ready \<or> x = Fs_invalid"
| "pc_ok (F_store _) x r n \<longleftrightarrow> x = Fs_ready"
| "pc_ok (F_read _) x r n \<longleftrightarrow> x = Fs_invalid \<and> r \<and> n = 0"
| "pc_ok F_destroyed x r n \<longleftrightarrow> x \<noteq> Fs_busy"
| "pc_ok F_assert x r n \<longleftrightarrow> False"
| "pc_ok _ x r n \<longleftrightarrow> True"

definition async_inv :: "('v, 'e) async \<Rightarrow> bool" where
  "async_inv s \<longleftrightarrow> results_kept s \<and> prom_ok (prom_pc s) (fut_state s) (has_result s)
     \<and> pc_ok (fut_pc s) (fut_state s) (has_result s) (result_count s)"

lemma prom_ok_taken: "prom_ok p Fs_ready r \<Longrightarrow> r \<and> prom_ok p Fs_invalid r"
  by (cases p) auto

text \<open>While the promise has its pointer, the other thread is where the state may change under it.\<close>

lemma pc_ok_busy: "pc_ok c Fs_busy r n \<Longrightarrow> pc_ok c Fs_busy True n \<and> pc_ok c Fs_ready r n \<and> pc_ok c Fs_invalid r n"
  by (cases c) auto

lemma result_count_finish: "result_count (finish r s) = result_count s + (case r of Got _ \<Rightarrow> 1 | Rethrown _ \<Rightarrow> 1 | _ \<Rightarrow> 0)"
  by (simp add: result_count_def finish_def split: fut_outcome.splits)

lemma result_count_update [simp]:
  "result_count (s\<lparr>fut_pc := p\<rparr>) = result_count s" "result_count (s\<lparr>fut_state := x\<rparr>) = result_count s" "result_count (s\<lparr>prom_pc := q\<rparr>) = result_count s"
  "result_count (s\<lparr>fut_value := v\<rparr>) = result_count s" "result_count (s\<lparr>fut_eptr := e\<rparr>) = result_count s"
  by (simp_all add: result_count_def)

lemma finish_simps [simp]:
  "fut_state (finish r s) = fut_state s" "fut_value (finish r s) = fut_value s" "fut_eptr (finish r s) = fut_eptr s"
  "fut_pc (finish r s) = F_idle" "prom_pc (finish r s) = prom_pc s" "fut_results (finish r s) = fut_results s @ [r]"
  by (simp_all add: finish_def)

lemma no_result: "result_count s = 0 \<Longrightarrow> Got v \<notin> set (fut_results s) \<and> Rethrown e \<notin> set (fut_results s)"
  by (auto simp: result_count_def filter_empty_conv)

lemma kept_simps [simp]:
  "results_kept (s\<lparr>fut_pc := p\<rparr>) = results_kept s" "results_kept (s\<lparr>prom_pc := q\<rparr>) = results_kept s"
  "has_result (s\<lparr>fut_pc := p\<rparr>) = has_result s" "has_result (s\<lparr>prom_pc := q\<rparr>) = has_result s" "has_result (s\<lparr>fut_state := x\<rparr>) = has_result s"
  "has_result (s\<lparr>fut_value := Some v\<rparr>)" "has_result (s\<lparr>fut_eptr := Some e\<rparr>)" "has_result (finish r s) = has_result s"
  by (simp_all add: results_kept_def has_result_def)

lemma kept_writes:
  "results_kept s \<Longrightarrow> fut_state s \<noteq> Fs_invalid \<Longrightarrow> results_kept (s\<lparr>fut_state := x\<rparr>)"
  "results_kept s \<Longrightarrow> fut_state s \<noteq> Fs_invalid \<Longrightarrow> results_kept (s\<lparr>fut_value := Some v\<rparr>)"
  "results_kept s \<Longrightarrow> fut_state s \<noteq> Fs_invalid \<Longrightarrow> results_kept (s\<lparr>fut_eptr := Some e\<rparr>)"
  using no_result [of s] by (simp_all add: results_kept_def)

lemma kept_finish:
  "results_kept s \<Longrightarrow> r \<in> {Waited, Until_result b, Invalid_future, Invalid_promise_request} \<Longrightarrow> results_kept (finish r s)"
  by (auto simp: results_kept_def result_count_finish)

lemma kept_read:
  assumes "results_kept s" "fut_state s = Fs_invalid" "result_count s = 0" "has_result s"
  shows "results_kept (read_result c s)" "fut_pc (read_result c s) \<in> {F_idle, F_destroyed, F_terminated}"
    "fut_state (read_result c s) = Fs_invalid" "prom_pc (read_result c s) = prom_pc s"
proof -
  consider e where "fut_eptr s = Some e" | v where "fut_eptr s = None" "fut_value s = Some v" using assms(4) by (auto simp: has_result_def)
  then have "results_kept (read_result c s) \<and> fut_pc (read_result c s) \<in> {F_idle, F_destroyed, F_terminated}
    \<and> fut_state (read_result c s) = Fs_invalid \<and> prom_pc (read_result c s) = prom_pc s"
    using assms(1,2) no_result [OF assms(3)] assms(3) by cases (auto simp: read_result_def results_kept_def result_count_finish)
  then show "results_kept (read_result c s)" "fut_pc (read_result c s) \<in> {F_idle, F_destroyed, F_terminated}"
    "fut_state (read_result c s) = Fs_invalid" "prom_pc (read_result c s) = prom_pc s" by blast+
qed

lemma step_inv_async:
  assumes "async_step s t" "async_inv s"
  shows "async_inv t"
  using assms
proof (cases rule: async_step.cases)
  case (read c)
  then have i: "results_kept s" "fut_state s = Fs_invalid" "result_count s = 0" "has_result s" using assms(2) by (simp_all add: async_inv_def)
  have "has_result (read_result c s)"
    using i(4) by (auto simp: read_result_def has_result_def finish_def split: option.splits)
  then show ?thesis using kept_read [OF i, of c] i(2,4) read assms(2) by (auto simp: async_inv_def)
next
  case (store c)
  then have i: "fut_state s = Fs_ready" "results_kept s" "has_result s" "prom_ok (prom_pc s) Fs_invalid (has_result s)"
    using assms(2) prom_ok_taken [of "prom_pc s" "has_result s"] by (auto simp: async_inv_def)
  then have "result_count s = 0" by (simp add: results_kept_def)
  then show ?thesis using i store by (simp add: async_inv_def kept_writes)
next
  case (spin c)
  then show ?thesis using assms(2) by (cases "fut_state s") (simp_all add: async_inv_def kept_finish)
next
  case (write_value v)
  then show ?thesis using assms(2) pc_ok_busy [of "fut_pc s" "has_result s" "result_count s"] by (auto simp: async_inv_def kept_writes)
next
  case (write_exception e)
  then show ?thesis using assms(2) pc_ok_busy [of "fut_pc s" "has_result s" "result_count s"] by (auto simp: async_inv_def kept_writes)
next
  case set_ready
  then show ?thesis using assms(2) pc_ok_busy [of "fut_pc s" "has_result s" "result_count s"] by (auto simp: async_inv_def kept_writes)
next
  case break
  then show ?thesis using assms(2) pc_ok_busy [of "fut_pc s" "has_result s" "result_count s"] by (auto simp: async_inv_def kept_writes)
qed (use assms(2) in \<open>auto simp: async_inv_def kept_finish kept_writes valid_state_def throw_invalid_def\<close>)

lemma run_inv_async: "async_run s t \<Longrightarrow> async_inv s \<Longrightarrow> async_inv t"
  by (induction rule: async_run.induct) (auto intro: step_inv_async)

lemma inv_local_task: "async_inv local_task"
  by (simp add: async_inv_def results_kept_def local_task_def result_count_def)

section \<open>Properties\<close>

text \<open>C39: A promise that still has to write to its future never outlives it, \<open>get\<close> never finds the future without a result,
  and it gives a result at most once: the one that was set.\<close>

theorem async_safe:
  assumes "async_run local_task s"
  shows "(prom_pc s = P_has \<or> prom_pc s = P_written \<longrightarrow> fut_pc s \<noteq> F_destroyed) \<and> fut_pc s \<noteq> F_assert \<and> result_count s \<le> 1
    \<and> (\<forall>v. Got v \<in> set (fut_results s) \<longrightarrow> fut_value s = Some v) \<and> (\<forall>e. Rethrown e \<in> set (fut_results s) \<longrightarrow> fut_eptr s = Some e)"
  using run_inv_async [OF assms inv_local_task] by (auto simp: async_inv_def results_kept_def)

text \<open>C40: \<open>wait_until\<close> waits for the opposite: called when the result is ready it never returns, and the time limit it is
  given is not used.\<close>

theorem wait_until_ready_stuck:
  assumes "async_run local_task s" "fut_pc s = F_check Call_until" "fut_state s = Fs_ready" "async_run s t"
  shows "fut_pc t = F_check Call_until \<or> fut_pc t = F_spin Call_until"
proof -
  have "async_inv s" by (rule run_inv_async [OF assms(1) inv_local_task])
  then have p: "prom_pc s = P_stored \<or> prom_pc s = P_null" using assms(3) by (cases "prom_pc s") (auto simp: async_inv_def)
  have "(fut_pc t = F_check Call_until \<or> fut_pc t = F_spin Call_until) \<and> fut_state t = Fs_ready \<and> (prom_pc t = P_stored \<or> prom_pc t = P_null)"
    using assms(4,2,3) p
  proof (induction rule: async_run.induct)
    case (step s t u)
    then have "(fut_pc t = F_check Call_until \<or> fut_pc t = F_spin Call_until) \<and> fut_state t = Fs_ready \<and> (prom_pc t = P_stored \<or> prom_pc t = P_null)"
      by blast
    with step.hyps(2) show ?case by (cases rule: async_step.cases) (auto simp: valid_state_def)
  qed simp
  then show ?thesis by blast
qed


text \<open>A run to such a state: a promise is made, a value set, and then \<open>wait_until\<close> is called.\<close>

lemma ready_run:
  "async_run local_task \<lparr>fut_state = Fs_ready, fut_value = Some (7 :: nat), fut_eptr = (None :: nat option), fut_pc = F_check Call_until, prom_pc = P_stored, fut_results = []\<rparr>"
proof -
  let ?r = "async_run (local_task :: (nat, nat) async)"
  have "?r (local_task\<lparr>fut_state := Fs_busy, prom_pc := P_has\<rparr>)"
    by (rule async_run.step [OF async_run.refl make_promise]) (simp_all add: local_task_def)
  from async_run.step [OF this write_value [where v = 7]]
  have "?r (local_task\<lparr>fut_state := Fs_busy, prom_pc := P_written, fut_value := Some 7\<rparr>)" by (simp add: local_task_def)
  from async_run.step [OF this set_ready]
  have "?r (local_task\<lparr>fut_state := Fs_ready, prom_pc := P_stored, fut_value := Some 7\<rparr>)" by (simp add: local_task_def)
  from async_run.step [OF this call [where c = Call_until]] show ?thesis by (simp add: local_task_def)
qed

lemma wait_until_ready_stuck_witness:
  "\<exists>s t :: (nat, nat) async. async_run local_task s \<and> fut_state s = Fs_ready \<and> async_run s t
     \<and> fut_pc t = F_spin Call_until"
proof -
  let ?s = "\<lparr>fut_state = Fs_ready, fut_value = Some 7, fut_eptr = None, fut_pc = F_check Call_until, prom_pc = P_stored,
    fut_results = []\<rparr> :: (nat, nat) async"
  have r: "async_run ?s (?s\<lparr>fut_pc := F_spin Call_until\<rparr>)"
    using async_run.step [OF async_run.refl check [of ?s Call_until]] by (simp add: valid_state_def)
  have "fut_pc (?s\<lparr>fut_pc := F_spin Call_until\<rparr>) = F_check Call_until \<or> fut_pc (?s\<lparr>fut_pc := F_spin Call_until\<rparr>) = F_spin Call_until"
    by (rule wait_until_ready_stuck [OF ready_run _ _ r]) simp_all
  then have "fut_pc (?s\<lparr>fut_pc := F_spin Call_until\<rparr>) = F_spin Call_until" by simp
  then show ?thesis using ready_run r by (intro exI [where x = ?s] exI [where x = "?s\<lparr>fut_pc := F_spin Call_until\<rparr>"]) simp
qed

lemma async_safe_witness:
  "result_count \<lparr>fut_state = Fs_ready, fut_value = Some (7 :: nat), fut_eptr = (None :: nat option), fut_pc = F_check Call_until,
      prom_pc = P_stored, fut_results = []\<rparr> \<le> 1"
  using async_safe [OF ready_run] by simp

section \<open>Queues that drop\<close>

record 'v notify_queue =
  nq_queue :: "'v list"
  nq_cap :: u64

definition nq_empty :: "'v notify_queue" where
  "nq_empty = \<lparr>nq_queue = [], nq_cap = NOT 0\<rparr>"

definition nq_set_capacity :: "u64 \<Rightarrow> 'v notify_queue \<Rightarrow> 'v notify_queue" where
  "nq_set_capacity mx q = q\<lparr>nq_cap := mx\<rparr>"

text \<open>The loop of \<open>emplace\<close>; a \<open>pop_front\<close> of the empty queue is undefined.\<close>

fun nq_trim :: "u64 \<Rightarrow> 'v list \<Rightarrow> 'v list option" where
  "nq_trim cap [] = (if of_nat 0 + 1 \<ge> cap then None else Some [])"
| "nq_trim cap (x # q) = (if of_nat (length (x # q)) + 1 \<ge> cap then nq_trim cap q else Some (x # q))"

definition nq_emplace :: "'v \<Rightarrow> 'v notify_queue \<Rightarrow> 'v notify_queue option" where
  "nq_emplace v q = map_option (\<lambda>xs. q\<lparr>nq_queue := xs @ [v]\<rparr>) (nq_trim (nq_cap q) (nq_queue q))"

text \<open>\<open>try_pop\<close>; with an empty queue the wait runs out.\<close>

definition nq_try_pop :: "'v notify_queue \<Rightarrow> 'v option \<times> 'v notify_queue" where
  "nq_try_pop q = (case nq_queue q of [] \<Rightarrow> (None, q) | x # xs \<Rightarrow> (Some x, q\<lparr>nq_queue := xs\<rparr>))"

text \<open>With a capacity of at least two the queue keeps the newest elements, one less than the capacity; a capacity of
  zero or one leaves no way to push.\<close>

lemma trim_spec: "unat cap \<ge> 2 \<Longrightarrow> length q + 1 < 2 ^ 64 \<Longrightarrow> nq_trim cap q = Some (drop (length q + 2 - unat cap) q)"
proof (induction q)
  case Nil
  then show ?case by (simp add: word_le_nat_alt)
next
  case (Cons x q)
  have "unat (of_nat (length (x # q)) + 1 :: u64) = length (x # q) + 1"
    using of_nat_inverse [of "length (x # q) + 1" "of_nat (length (x # q)) + 1 :: u64"] Cons.prems(2) by simp
  then have "of_nat (length (x # q)) + 1 \<ge> cap \<longleftrightarrow> length (x # q) + 1 \<ge> unat cap" by (simp only: word_le_nat_alt)
  then show ?case using Cons by (auto simp: Suc_diff_le not_le simp del: of_nat_Suc)
qed

lemma trim_small: "unat cap \<le> 1 \<Longrightarrow> length q + 1 < 2 ^ 64 \<Longrightarrow> nq_trim cap q = None"
proof (induction q)
  case Nil
  then show ?case by (simp add: word_le_nat_alt)
next
  case (Cons x q)
  have "unat (of_nat (length (x # q)) + 1 :: u64) = length (x # q) + 1"
    using of_nat_inverse [of "length (x # q) + 1" "of_nat (length (x # q)) + 1 :: u64"] Cons.prems(2) by simp
  then have "of_nat (length (x # q)) + 1 \<ge> cap" using Cons.prems(1) by (simp only: word_le_nat_alt)
  then show ?case using Cons by simp
qed

end
