(* ===== verification/Spec2Isabelle.thy ===== *)
theory Spec2Isabelle
  imports Base64 Inmemory_Pipe Rpc_Session Event_Queue Static_Vector Json_Roundtrip Event_Chain Spinlock Pool Refl_Msgpack Matrix_Ops Ndarray
    String_Cache Bimap Session_Group Local_Async
begin

text \<open>
  Verification of cppheaders (kang-sw/cppheaders), a header-only C++ utility library.

  \<^bold>\<open>The program\<close>. The library's own core is an RPC stack and the containers under it. A session
  (\<open>refl/rpc/detail/session.hxx\<close>) sends requests and notifications through a protocol object
  (\<open>refl/rpc/protocol/msgpack-rpc.hxx\<close>), which writes and reads messages with the MessagePack archives
  (\<open>refl/archive\<close>) over a connection's stream buffer, in a process the in-memory pipe
  (\<open>refl/rpc/connection/inmemory_pipe.hxx\<close>) over a circular queue. Received calls are found in a service
  table, and results come back as replies that complete a request of the session's table, a \<open>flat_map\<close>.
  Beside it stand the event queue (\<open>thread/event_queue.hxx\<close>) over a ring allocator
  (\<open>memory/ring_allocator.hxx\<close>), the fixed-capacity vector, the base64 codec, the JSON archives, the event with its
  handlers, the pool of objects and the spinlocks. All paths below are under
  \<open>src/include/cpph\<close>.

  \<^bold>\<open>The theories\<close>.

  \<^item> \<open>Cpph_Prelude\<close>: machine types, the sequencing of calls that may throw, lemmas on lists and words.
  \<^item> \<open>Base64\<close>: \<open>algorithm/base64.hxx\<close>. The encoder equals RFC 4648, decoding inverts it, and the answer of the
    decoder on every input, with the reads out of bounds it does.
  \<^item> \<open>Circular_Queue\<close>: \<open>container/circular_queue.hxx\<close>, cells with live objects, \<open>_head\<close> and \<open>_tail\<close>. The locale
    \<open>byte_queue\<close> is what the pipe relies on; the operations are those of a list.
  \<^item> \<open>Inmemory_Pipe\<close>: the two endpoints of \<open>inmemory_pipe.hxx\<close> as a step relation. Bytes arrive in order, no
    queue assertion fails, no wake-up is lost, and what a close does.
  \<^item> \<open>Msgpack_Format\<close>, \<open>Write_Context\<close>, \<open>Msgpack_Writer\<close>, \<open>Msgpack_Reader\<close>, \<open>Msgpack_Roundtrip\<close>: the format tables
    (\<open>refl/archive/detail/msgpack.hxx\<close>), the writers' scope stack (\<open>context_helper.hxx\<close>), \<open>msgpack-writer.hxx\<close>
    and \<open>msgpack-reader.hxx\<close>. A client writes a value tree and another reads it: the round trip, the exact
    encoding, skipping and the room it needs for scopes, the protocol of the scopes, and what a read out of turn does.
  \<^item> \<open>Msgpack_Rpc\<close>: the protocol object, the service table (\<open>refl/rpc/detail/service.hxx\<close>) and the message
    proxy (\<open>remote_procedure_message_proxy.hxx\<close>). Requests, notifications and replies arrive as sent; unknown
    methods are answered.
  \<^item> \<open>Rpc_Session\<close>: the session and its request handles (\<open>request_handle.hxx\<close>), as functions for what a thread
    does under its locks and a step relation that interleaves them. A request makes the round trip, no
    handler is called twice, and the error behaviour of expiry and of unexpected replies.
  \<^item> \<open>Ring_Allocator\<close>, \<open>Event_Queue\<close>: allocation in a ring of headers and the queue of events in it. Blocks never
    overlap, freed memory comes back, events run once and in order (a refinement of a list of messages), and
    a drained queue holds no memory.
  \<^item> \<open>Flat_Map\<close>: \<open>container/flat_map.hxx\<close>. The locale \<open>comparator\<close> is what the standard asks of a comparator;
    the map implements the locale \<open>table\<close> and \<open>counted_table\<close>, which the session's proofs rest on. Two members
    of \<open>flat_set\<close> do the opposite of their names.
  \<^item> \<open>Static_Vector\<close>: \<open>container/static_vector.hxx\<close> over cells that hold an object or raw storage.

  \<^item> \<open>Stream_Buffers\<close>: \<open>streambuf/string.hxx\<close> and \<open>streambuf/base64.hxx\<close>. A string buffer is a text with a reading
    position; a base64 buffer encodes what passes through it, at any buffer size.
  \<^item> \<open>Json_Strings\<close>, \<open>Json_Writer\<close>: the escapes and the UTF-8 filter of \<open>helper/strutil.hxx\<close>, and
    \<open>refl/archive/json-writer.hxx\<close> over them, the write context and the base64 buffer. The text written for a
    value tree equals a reference definition.
  \<^item> \<open>Jsmn\<close>, \<open>Json_Tokens\<close>, \<open>Json_Reader\<close>, \<open>Json_Roundtrip\<close>: the tokenizer \<open>third/jsmn.h\<close>, which can be resumed, the
    tokens of a written text by a reference definition, \<open>refl/archive/json-reader.hxx\<close>, and the two archives
    together: the reader gives back what the writer wrote, and finds keys in any order.
  \<^item> \<open>Event_Chain\<close>: \<open>utility/event.hxx\<close>, handlers as nodes of a heap linked by shared and weak pointers. It refines
    two lists, handlers run in the order of the list, and a handler that removes itself locks up.
  \<^item> \<open>Spinlock\<close>: \<open>thread/spinlock.hxx\<close>, one step per atomic access of a thread. The spinlock excludes; the shared
    one, as it is written, excludes nobody.
  \<^item> \<open>Pool\<close>: \<open>memory/pool.hxx\<close>, pools and the pointers that give objects back to them. Every object has one owner,
    is destroyed once, and outlives its pool while a pointer holds it.

  \<^item> \<open>Refl_Meta\<close>, \<open>Refl_Archive\<close>: the descriptors of reflected types (\<open>refl/detail/object_core.hxx\<close>, \<open>create()\<close> of
    \<open>primitives.hxx\<close>), and the writing and reading of objects in a memory of typed cells, for any archive
    (\<open>if_archive.hxx\<close> as a record of calls). The tables of \<open>create()\<close> and which addresses are not found.
  \<^item> \<open>Refl_Roundtrip\<close>, \<open>Refl_Msgpack\<close>: the locales \<open>tree_writer\<close> and \<open>tree_reader\<close> say how an archive's calls move through
    a tree of values; inside them an object is written as the tree of its contents and read back from it. The
    MessagePack archives implement both.
  \<^item> \<open>Matrix_Ops\<close> (\<open>math/matrix.hxx\<close>): matrices as flat arrays, their parts and arithmetic, over rings and fields with
    exact arithmetic. Every operation by its entries; the elimination keeps \<open>R * A = s\<close> with \<open>R\<close> invertible, so
    \<open>inv()\<close> finds the inverse exactly when there is one.
  \<^item> \<open>Ndarray\<close> (\<open>container/ndarray.hxx\<close>, \<open>utility/counter.hxx\<close>): arrays of several dimensions and the counters over their
    indices, as numbers of a mixed radix: a loop over the indices meets the elements in the order of the data. A counter
    with a zero dimension that does not end at once.
  \<^item> \<open>String_Cache\<close>, \<open>Bimap\<close> (also \<open>memory/list_pool.hxx\<close>): small containers. Strings packed behind their nodes are
    read back by iterators; both columns of a bimap are free of duplicates and indexed by its two maps.
  \<^item> \<open>Session_Group\<close> (\<open>refl/rpc/detail/group.hxx\<close>): the totals of a group against an account of the traffic, over runs of
    its operations interleaved with traffic and expiry.
  \<^item> \<open>Local_Async\<close> (\<open>thread/local_async.hxx\<close>, \<open>thread/notify_queue.hxx\<close>): a future and its promise as steps of two
    threads, with an invariant on where each is; a wait that does not return; a queue that drops its oldest elements.

  \<^bold>\<open>How the code is modelled\<close>. A class is a record of its members, an exception, a failed assertion and a
  memory access outside of an object are values of an error type (or \<open>None\<close>), and every branch of the code
  is a branch of the definition. Bytes and 32-bit and 64-bit counters are words, so that their wrap-around
  is that of the code, or natural numbers with every sum and product taken modulo \<open>2 ^ 64\<close> (the write context); sizes that
  only index memory are natural numbers. Undefined behaviour is an error value too: a raw cell assigned to
  (\<open>Dead_object\<close>), a scope pointer kept while the vector it points into outgrows the capacity it is known to have
  (\<open>Stale_scope\<close>). Threads interleave at critical
  sections: what one thread does under a lock is one step. Code outside of the library (stream buffers of
  the standard library, \<open>std::function\<close> bodies, floating point conversions, the event procedure) is a
  parameter: \<open>casts\<close> for the conversions of numbers, \<open>number_format\<close> and \<open>number_parser\<close> for \<open>snprintf\<close> and \<open>strtod\<close>, \<open>dump\<close> for the JSON text of an error, \<open>invoke\<close> for what
  a service handler returns.

  \<^bold>\<open>Fuel\<close>. Loops that the code bounds by its data recurse on fuel that is enough: the reader's skipping gets
  the bytes left plus one, since each round consumes a byte (\<open>reader_terminates\<close>); the ring allocator's flush
  gets its capacity and a walk over the blocks the number of headers; the event queue's loops get the number
  of rounds, and \<open>clear\<close> the number of queued messages. The JSON reader enlarges its token array at most as often
  as the text has characters, since each token needs one. The loops over the lists of an event and of a pool
  get the number of nodes ever created, which no list exceeds. The loops that read containers of a reflected
  object (\<open>while_reading\<close>) end after one turn per element; \<open>reflected_roundtrip\<close> holds for any fuel above the size
  of the value, which bounds them. No theorem assumes that a result was reached within the fuel.

  \<^bold>\<open>Not modelled\<close>. The choice of a descriptor for a type by templates and the wrappers of dynamic objects in the
  reflection core; the builders of sessions and services, which are templates; the asio connection, which is calls into
  boost; the formulas of \<open>math\<close> beside matrices, which depend on rounding; the owners of threads and the type-level
  utilities; the rest of \<open>third\<close> and
  \<open>src/src/import\<close> are vendored. The tokenizer counts positions in \<open>int\<close>; texts are taken to be shorter than
  \<open>2 ^ 31\<close>, and positions are natural numbers. The manifest lists every part left out with its reason.
\<close>

end
